(* ===== verification/Srpc_Prelude.thy ===== *)
theory Srpc_Prelude
  imports Main "HOL-Library.Word" "HOL-Library.Monad_Syntax"
begin

text \<open>
  Shared vocabulary of the simplerpc development: the C integer types as machine words,
  the bit-scan builtins the allocator uses (\<^verbatim>\<open>__builtin_clzl\<close>, \<^verbatim>\<open>__builtin_ctzll\<close>), the Linux
  \<^verbatim>\<open>errno\<close> values the sources name, and generic facts on words, alignment and lists that
  the components share. The collections \<open>srpc_addr\<close> (address arithmetic) and \<open>srpc_bits\<close>
  (flag words) carry most of the component proofs.
\<close>

unbundle bit_operations_syntax

named_theorems srpc_addr \<open>equalities between field addresses of 64-byte aligned headers\<close>
named_theorems srpc_bits \<open>flag and size bits of a packed 64-bit word\<close>

type_synonym u8 = "8 word"
type_synonym u16 = "16 word"
type_synonym u32 = "32 word"
type_synonym u64 = "64 word"

section \<open>System errno values named by the sources (Linux x86_64)\<close>

abbreviation (input) EINTR :: int where "EINTR \<equiv> 4"
abbreviation (input) EBADF :: int where "EBADF \<equiv> 9"
abbreviation (input) EAGAIN :: int where "EAGAIN \<equiv> 11"
abbreviation (input) ENOMEM :: int where "ENOMEM \<equiv> 12"
abbreviation (input) EBUSY :: int where "EBUSY \<equiv> 16"
abbreviation (input) EEXIST :: int where "EEXIST \<equiv> 17"
abbreviation (input) EINVAL :: int where "EINVAL \<equiv> 22"
abbreviation (input) ENOSPC :: int where "ENOSPC \<equiv> 28"
abbreviation (input) EBADMSG :: int where "EBADMSG \<equiv> 74"
abbreviation (input) EBADFD :: int where "EBADFD \<equiv> 77"
abbreviation (input) EAFNOSUPPORT :: int where "EAFNOSUPPORT \<equiv> 97"
abbreviation (input) ETIMEDOUT :: int where "ETIMEDOUT \<equiv> 110"
abbreviation (input) EALREADY :: int where "EALREADY \<equiv> 114"
abbreviation (input) EOWNERDEAD :: int where "EOWNERDEAD \<equiv> 130"
abbreviation (input) ENOTRECOVERABLE :: int where "ENOTRECOVERABLE \<equiv> 131"

section \<open>Bit scans\<close>

definition ctzll :: "u64 \<Rightarrow> nat" where
  "ctzll w = length (takeWhile (\<lambda>i. \<not> bit w i) [0..<64])"

definition clzl :: "u64 \<Rightarrow> nat" where
  "clzl w = length (takeWhile (\<lambda>i. \<not> bit w i) (rev [0..<64]))"

lemma takeWhile_first:
  assumes "n < length xs" "\<And>i. i < n \<Longrightarrow> P (xs ! i)" "\<not> P (xs ! n)"
  shows "length (takeWhile P xs) = n"
proof -
  have "takeWhile P xs = take n xs"
    by (rule takeWhile_eq_take_P_nth) (use assms in auto)
  then show ?thesis using assms(1) by simp
qed

lemma ctzll_eqI:
  assumes "n < 64" "bit w n" "\<And>i. i < n \<Longrightarrow> \<not> bit w i"
  shows "ctzll w = n"
  unfolding ctzll_def by (rule takeWhile_first) (use assms in auto)

lemma clzl_eqI:
  assumes "n < 64" "bit w n" "\<And>i. n < i \<Longrightarrow> i < 64 \<Longrightarrow> \<not> bit w i"
  shows "clzl w = 63 - n"
  unfolding clzl_def
  by (rule takeWhile_first) (use assms in \<open>auto simp: rev_nth\<close>)

lemma word_nonzero_bit:
  assumes "(w :: u64) \<noteq> 0"
  obtains n where "n < 64" "bit w n"
proof -
  from assms obtain n where "bit w n" by (auto simp: bit_eq_iff)
  moreover from this have "n < 64" by (simp add: bit_imp_le_length [where 'a = 64, simplified])
  ultimately show ?thesis by (rule that [rotated])
qed

lemma ctzll_props:
  assumes "(w :: u64) \<noteq> 0"
  shows "ctzll w < 64" and "bit w (ctzll w)" and "i < ctzll w \<Longrightarrow> \<not> bit w i"
proof -
  obtain n where n: "n < 64" "bit w n" using assms by (rule word_nonzero_bit)
  define k where "k = (LEAST n. bit w n)"
  have k: "bit w k" "\<And>i. i < k \<Longrightarrow> \<not> bit w i" "k \<le> n"
    unfolding k_def using n(2) by (auto intro: LeastI Least_le dest: not_less_Least)
  have eq: "ctzll w = k" by (rule ctzll_eqI) (use k n in auto)
  show "ctzll w < 64" "bit w (ctzll w)" "i < ctzll w \<Longrightarrow> \<not> bit w i"
    using eq k n by auto
qed

text \<open>The position of the highest set bit is the integer logarithm.\<close>

lemma clzl_props:
  assumes "(w :: u64) \<noteq> 0"
  shows "clzl w \<le> 63" and "2 ^ (63 - clzl w) \<le> unat w" and "unat w < 2 ^ (64 - clzl w)"
proof -
  obtain n where n: "n < 64" "bit w n" using assms by (rule word_nonzero_bit)
  define k where "k = Max {i. i < 64 \<and> bit w i}"
  have fin: "finite {i. i < 64 \<and> bit w i}" by simp
  have ne: "{i. i < 64 \<and> bit w i} \<noteq> {}" using n by auto
  have k: "k < 64" "bit w k" using Max_in [OF fin ne] unfolding k_def by auto
  have hi: "\<not> bit w i" if "k < i" "i < 64" for i
  proof
    assume "bit w i"
    with that have "i \<in> {i. i < 64 \<and> bit w i}" by simp
    with fin have "i \<le> k" unfolding k_def by (rule Max_ge)
    with that show False by simp
  qed
  have eq: "clzl w = 63 - k" by (rule clzl_eqI) (use k hi in auto)
  have bits: "bit (unat w) i \<longleftrightarrow> bit w i" for i
    using bit_imp_le_length [of w i] by (auto simp: bit_unsigned_iff)
  have "take_bit (Suc k) (unat w) = unat w"
  proof (rule bit_eqI)
    fix i
    show "bit (take_bit (Suc k) (unat w)) i = bit (unat w) i"
      using hi [of i] bit_imp_le_length [of w i]
      by (auto simp: bit_take_bit_iff bits less_Suc_eq_le not_less [symmetric])
  qed
  moreover have "take_bit (Suc k) (unat w) < 2 ^ Suc k"
    by (rule take_bit_nat_less_exp)
  ultimately have "unat w < 2 ^ Suc k" by (simp only:)
  moreover have "2 ^ k \<le> unat w"
    using k(2) bits [of k] by (intro leI notI) (simp add: bit_iff_odd)
  ultimately show "clzl w \<le> 63" "2 ^ (63 - clzl w) \<le> unat w" "unat w < 2 ^ (64 - clzl w)"
    using eq k(1) by (auto simp: Suc_diff_le)
qed

section \<open>64-byte alignment\<close>

definition aligned64 :: "u64 \<Rightarrow> bool" where
  "aligned64 a \<longleftrightarrow> a AND 63 = 0"

lemma aligned64_take_bit: "aligned64 a \<longleftrightarrow> take_bit 6 a = 0"
proof -
  have "(63 :: u64) = mask 6" by (simp add: mask_eq_exp_minus_1)
  then show ?thesis by (simp add: aligned64_def take_bit_eq_mask)
qed

lemma aligned64_mod: "aligned64 a \<longleftrightarrow> unat a mod 64 = 0"
proof -
  have "unat (take_bit 6 a) = take_bit 6 (unat a)"
    by (rule unsigned_take_bit_eq)
  then have "unat (take_bit 6 a) = unat a mod 64"
    by (simp only: take_bit_eq_mod [of 6 "unat a"]) simp
  then show ?thesis by (metis aligned64_take_bit unat_eq_zero)
qed

lemma unat_add_mod64: "unat (a + b :: u64) mod 64 = (unat a + unat b) mod 64"
proof -
  have "(64 :: nat) dvd 2 ^ 64" by simp
  then show ?thesis
    by (simp only: unat_word_ariths mod_mod_cancel) (simp add: mod_mod_cancel)
qed

lemma aligned64_0 [simp]: "aligned64 0"
  by (simp add: aligned64_def)

lemma aligned64_add [simp]:
  assumes "aligned64 a" shows "aligned64 (a + b) \<longleftrightarrow> aligned64 b"
  using assms mod_add_left_eq [of "unat a" 64 "unat b"] by (simp add: aligned64_mod unat_add_mod64)

lemma aligned64_add2 [simp]:
  assumes "aligned64 b" shows "aligned64 (a + b) \<longleftrightarrow> aligned64 a"
  using aligned64_add [OF assms, of a] by (simp add: add.commute)

lemma aligned64_offsets [simp]:
  "\<not> aligned64 8" "\<not> aligned64 16" "\<not> aligned64 24" "\<not> aligned64 32" "\<not> aligned64 40"
  "\<not> aligned64 48" "\<not> aligned64 56"
  by (simp_all add: aligned64_def)

lemma mod64_sum_zero: "(m + n) mod 64 = 0 \<Longrightarrow> m mod 64 = 0 \<longleftrightarrow> n mod (64 :: nat) = 0"
  by (metis add.commute dvd_add_right_iff dvd_eq_mod_eq_0)

lemma aligned64_diff [simp]:
  assumes "aligned64 a" shows "aligned64 (a - b) \<longleftrightarrow> aligned64 b"
proof -
  have "unat (a - b + b) mod 64 = (unat (a - b) + unat b) mod 64" by (rule unat_add_mod64)
  then have "unat a mod 64 = (unat (a - b) + unat b) mod 64" by simp
  with assms show ?thesis unfolding aligned64_mod by (intro mod64_sum_zero) simp
qed

lemma aligned_offset_eq [srpc_addr]:
  assumes "aligned64 a" "aligned64 b" "(x :: u64) < 64" "y < 64"
  shows "a + x = b + y \<longleftrightarrow> a = b \<and> x = y"
proof
  assume eq: "a + x = b + y"
  have t: "unat (c + z) mod 64 = unat z" if "aligned64 c" "z < 64" for c z :: u64
    using that mod_add_left_eq [of "unat c" 64 "unat z"]
    by (simp add: aligned64_mod unat_add_mod64 word_less_nat_alt)
  from eq have "unat x = unat y" using t assms by metis
  then have "x = y" by (rule unsigned_word_eqI)
  with eq show "a = b \<and> x = y" by simp
qed simp

lemma aligned_offset_eq0 [srpc_addr]:
  assumes "aligned64 a" "aligned64 b" "(x :: u64) < 64"
  shows "a + x = b \<longleftrightarrow> a = b \<and> x = 0" and "b = a + x \<longleftrightarrow> a = b \<and> x = 0"
  using aligned_offset_eq [of a b x 0] assms by auto

section \<open>Unsigned sums without wrap-around\<close>

lemma unat_add_nowrap:
  "unat a + unat b < 2 ^ 64 \<Longrightarrow> unat (a + b :: u64) = unat a + unat b"
  by (simp add: unat_word_ariths)

lemma unat_diff_nowrap:
  "unat b \<le> unat a \<Longrightarrow> unat (a - b :: u64) = unat a - unat b"
  by (simp add: unat_sub_if')

lemma unat_lt_64: "unat (w :: u64) < 2 ^ 64"
  using unsigned_less [of w, where 'a = nat] by simp

lemma unat_ucast_32 [simp]: "unat (ucast (w :: u32) :: u64) = unat w"
proof -
  have "unat w < 2 ^ 32" using unsigned_less [of w, where 'a = nat] by simp
  then show ?thesis by (simp add: unsigned_ucast_eq take_bit_nat_eq_self)
qed

lemma unat_ucast_16 [simp]: "unat (ucast (w :: u16) :: u64) = unat w"
proof -
  have "unat w < 2 ^ 16" using unsigned_less [of w, where 'a = nat] by simp
  then show ?thesis by (simp add: unsigned_ucast_eq take_bit_nat_eq_self)
qed

lemma unat_of_nat_small: "n < 2 ^ 64 \<Longrightarrow> unat (of_nat n :: u64) = n"
  by (simp add: unsigned_of_nat take_bit_nat_eq_self)

end
