(* ===== verification/Srpc_Errno.thy ===== *)
theory Srpc_Errno
  imports Srpc_Prelude
begin

text \<open>
  The library's own error codes and their strings (\<^verbatim>\<open>src/libsrpc_errno.h\<close>,
  \<^verbatim>\<open>src/libsrpc_errno.c\<close>). The X-macro list \<^verbatim>\<open>SRPC_ERRNO_LIST\<close> is the list
  \<open>SRPC_ERRNO_LIST\<close>; the enumeration gives its entries the codes
  \<^verbatim>\<open>ELIBSRPC_START + 1, ...\<close> in order. The thread-local \<^verbatim>\<open>__libsrpc_errno\<close> is a
  one-field record. The C library's \<^verbatim>\<open>strerror\<close> is a parameter.
\<close>

section \<open>The code enumeration\<close>

definition SRPC_ERRNO_LIST :: "(string \<times> string) list" where
  "SRPC_ERRNO_LIST =
    [(''ELIBNOINIT'', ''libsrpc no init''),
     (''ESHMNOINIT'', ''shared memory no init''),
     (''ERPCDISABLE'', ''rpc disabled''),
     (''ENOREGFUN'', ''no registered function''),
     (''ERECURSIVE'', ''Recursive RPC calls are prohibited''),
     (''ECANCELLED'', ''RPC call cancelled''),
     (''ENOTAVAILABLE'', ''Not available''),
     (''ERPCWAITIMEDOUT'', ''RPC wait timeout''),
     (''ENOTFOUND'', ''Not found''),
     (''EPROCDESTROYED'', ''Process destroyed''),
     (''EINVALREQUEST'', ''Invalid request''),
     (''EINVALRESPONSE'', ''Invalid response''),
     (''EINVALPROC'', ''Invalid process'')]"

definition ELIBSRPC_START :: int where "ELIBSRPC_START = 4095"
definition ELIBNOINIT :: int where "ELIBNOINIT = 4096"
definition ESHMNOINIT :: int where "ESHMNOINIT = 4097"
definition ERPCDISABLE :: int where "ERPCDISABLE = 4098"
definition ENOREGFUN :: int where "ENOREGFUN = 4099"
definition ERECURSIVE :: int where "ERECURSIVE = 4100"
definition ECANCELLED :: int where "ECANCELLED = 4101"
definition ENOTAVAILABLE :: int where "ENOTAVAILABLE = 4102"
definition ERPCWAITIMEDOUT :: int where "ERPCWAITIMEDOUT = 4103"
definition ENOTFOUND :: int where "ENOTFOUND = 4104"
definition EPROCDESTROYED :: int where "EPROCDESTROYED = 4105"
definition EINVALREQUEST :: int where "EINVALREQUEST = 4106"
definition EINVALRESPONSE :: int where "EINVALRESPONSE = 4107"
definition EINVALPROC :: int where "EINVALPROC = 4108"
definition LIBSRPC_ERRNO_MAX :: int where "LIBSRPC_ERRNO_MAX = 4109"

lemmas srpc_codes = ELIBSRPC_START_def ELIBNOINIT_def ESHMNOINIT_def ERPCDISABLE_def
  ENOREGFUN_def ERECURSIVE_def ECANCELLED_def ENOTAVAILABLE_def ERPCWAITIMEDOUT_def
  ENOTFOUND_def EPROCDESTROYED_def EINVALREQUEST_def EINVALRESPONSE_def EINVALPROC_def
  LIBSRPC_ERRNO_MAX_def

text \<open>The designated-initialiser table: entry \<^verbatim>\<open>[ecod - ELIBSRPC_START]\<close>; entry 0 is
  the zero-filled gap at \<^verbatim>\<open>ELIBSRPC_START\<close> itself (\<open>None\<close>: a NULL string).\<close>

definition errno2str :: "(int \<times> string option) list" where
  "errno2str = (0, None) #
     map (\<lambda>(i, e). (ELIBSRPC_START + 1 + int i, Some (snd e))) (enumerate 0 SRPC_ERRNO_LIST)"

section \<open>The thread's error code\<close>

record srpc_tls = srpc_errno :: int

definition libsrpc_errno_clear :: "srpc_tls \<Rightarrow> srpc_tls" where
  "libsrpc_errno_clear t = t\<lparr>srpc_errno := 0\<rparr>"

definition libsrpc_errno_set :: "int \<Rightarrow> srpc_tls \<Rightarrow> srpc_tls" where
  "libsrpc_errno_set errnum t = t\<lparr>srpc_errno := errnum\<rparr>"

definition libsrpc_errno_get :: "srpc_tls \<Rightarrow> int" where
  "libsrpc_errno_get t = srpc_errno t"

definition libsrpc_strerror :: "(int \<Rightarrow> string option) \<Rightarrow> int \<Rightarrow> string option" where
  "libsrpc_strerror strerror errnum =
     (if errnum \<le> ELIBSRPC_START then strerror errnum
      else if errnum \<ge> LIBSRPC_ERRNO_MAX then Some ''Unknown error code''
      else snd (errno2str ! nat (errnum - ELIBSRPC_START)))"

section \<open>Every code has its string\<close>

lemma length_SRPC_ERRNO_LIST: "int (length SRPC_ERRNO_LIST) = LIBSRPC_ERRNO_MAX - ELIBSRPC_START - 1"
  by (simp add: SRPC_ERRNO_LIST_def srpc_codes)

lemma errno2str_nth:
  "i < length SRPC_ERRNO_LIST \<Longrightarrow>
   errno2str ! Suc i = (ELIBSRPC_START + 1 + int i, Some (snd (SRPC_ERRNO_LIST ! i)))"
  by (simp add: errno2str_def nth_enumerate_eq)

lemma strerror_own:
  assumes "ELIBSRPC_START < e" "e < LIBSRPC_ERRNO_MAX"
  shows "libsrpc_strerror f e = Some (snd (SRPC_ERRNO_LIST ! nat (e - ELIBSRPC_START - 1)))"
proof -
  define i where "i = nat (e - ELIBSRPC_START - 1)"
  have i: "nat (e - ELIBSRPC_START) = Suc i" "i < length SRPC_ERRNO_LIST"
    using assms length_SRPC_ERRNO_LIST by (auto simp: i_def)
  with assms show ?thesis
    by (simp add: libsrpc_strerror_def errno2str_nth flip: i_def)
qed

text \<open>Distinct codes of the library have distinct strings, and none of them is read out
  of the table's bounds: the code can be recovered from the string.\<close>

lemma SRPC_ERRNO_LIST_distinct: "distinct (map snd SRPC_ERRNO_LIST)"
  by (simp add: SRPC_ERRNO_LIST_def)

end
