(* ===== verification/Tlsf_Types.thy ===== *)
theory Tlsf_Types
  imports Srpc_Prelude
begin

text \<open>
  The data of the transactional allocator (\<^verbatim>\<open>libs/tlsf_txn/tlsf_internal.h\<close>,
  \<^verbatim>\<open>libs/tlsf_txn/tlsf_txn.h\<close>): the control structure as the record \<open>tlsf_ctrl\<close>, the pool's
  64-bit words as the function \<open>mem\<close> from 8-byte aligned addresses to words, block headers
  as the eight words at their offsets, the packed \<^verbatim>\<open>sig_dc\<close> word and the twelve 16-bit
  owner slots in three words (little endian), and the process-shared robust recursive
  mutex of POSIX threads. \<open>tlsf_errno\<close> is the \<^verbatim>\<open>__thread\<close> variable of the thread that
  executes the operation. A null pointer is the address 0.
\<close>

section \<open>Constants\<close>

definition FLI_MAX :: nat where "FLI_MAX = 41"
definition SLI_COUNT :: nat where "SLI_COUNT = 4"
definition SLI_SIZE :: nat where "SLI_SIZE = 16"
definition ALIGN_SIZE :: u64 where "ALIGN_SIZE = 64"
definition MIN_USER_SIZE :: u64 where "MIN_USER_SIZE = 64"
definition MIN_BLOCK_SZ :: u64 where "MIN_BLOCK_SZ = 128"
definition MAX_BUL_ENTRIES :: u32 where "MAX_BUL_ENTRIES = 64"
definition MAX_POOL_SIZE :: u64 where "MAX_POOL_SIZE = 1099511627776"
definition MIN_POOL_SIZE :: u64 where "MIN_POOL_SIZE = 8192"
definition TLSF_FORMAT_VERSION :: u32 where "TLSF_FORMAT_VERSION = 0x00040000"
definition BLOCK_FREE :: u64 where "BLOCK_FREE = 1"
definition BLOCK_PREV_FREE :: u64 where "BLOCK_PREV_FREE = 2"
definition FLAG_MASK :: u64 where "FLAG_MASK = 3"
definition SIZE_MASK :: u64 where "SIZE_MASK = NOT 3"
definition TLSF_BLOCK_MAGIC48 :: u64 where "TLSF_BLOCK_MAGIC48 = 0xA5C3E7F1B9D2"
definition SIG_DC_DC_BIT :: u64 where "SIG_DC_DC_BIT = 0x8000"
definition SIG_DC_TYPE_MASK :: u64 where "SIG_DC_TYPE_MASK = 0x7FFF"
definition TLSF_MAX_OWNERS :: nat where "TLSF_MAX_OWNERS = 12"
definition HEADER_SIZE :: u64 where "HEADER_SIZE = 64" \<comment> \<open>sizeof(block_header_t)\<close>
definition CTRL_SIZE :: u64 where "CTRL_SIZE = 6720" \<comment> \<open>sizeof(struct tlsf_ctrl) on x86_64\<close>
definition USED_BYTES_OFFSET :: u64 where "USED_BYTES_OFFSET = 6704" \<comment> \<open>offsetof(used_bytes)\<close>

lemmas tlsf_consts = FLI_MAX_def SLI_COUNT_def SLI_SIZE_def ALIGN_SIZE_def MIN_USER_SIZE_def
  MIN_BLOCK_SZ_def MAX_POOL_SIZE_def MIN_POOL_SIZE_def BLOCK_FREE_def BLOCK_PREV_FREE_def
  FLAG_MASK_def SIZE_MASK_def SIG_DC_DC_BIT_def SIG_DC_TYPE_MASK_def HEADER_SIZE_def
  TLSF_MAX_OWNERS_def

abbreviation (input) TLSF_OK :: int where "TLSF_OK \<equiv> 0"
abbreviation (input) TLSF_ERR_LOCK_FAILED :: int where "TLSF_ERR_LOCK_FAILED \<equiv> 1"
abbreviation (input) TLSF_ERR_CORRUPTION_UNRECOVERABLE :: int where "TLSF_ERR_CORRUPTION_UNRECOVERABLE \<equiv> 2"
abbreviation (input) TLSF_ERR_BUL_OVERFLOW :: int where "TLSF_ERR_BUL_OVERFLOW \<equiv> 3"
abbreviation (input) TLSF_ERR_BLOCK_CORRUPTED :: int where "TLSF_ERR_BLOCK_CORRUPTED \<equiv> 4"
abbreviation (input) TLSF_ERR_INVALID_PTR :: int where "TLSF_ERR_INVALID_PTR \<equiv> 5"
abbreviation (input) TLSF_ERR_OUT_OF_MEMORY :: int where "TLSF_ERR_OUT_OF_MEMORY \<equiv> 6"
abbreviation (input) TLSF_ERR_POOL_TOO_SMALL :: int where "TLSF_ERR_POOL_TOO_SMALL \<equiv> 7"
abbreviation (input) TLSF_ERR_UID_FULL :: int where "TLSF_ERR_UID_FULL \<equiv> 8"
abbreviation (input) TLSF_ERR_UID_NOT_FOUND :: int where "TLSF_ERR_UID_NOT_FOUND \<equiv> 9"
abbreviation (input) TLSF_ERR_UID_INVALID :: int where "TLSF_ERR_UID_INVALID \<equiv> 10"
abbreviation (input) TLSF_ERR_NOT_ALLOCATED :: int where "TLSF_ERR_NOT_ALLOCATED \<equiv> 11"
abbreviation (input) TLSF_ERR_BUSY :: int where "TLSF_ERR_BUSY \<equiv> 12"
abbreviation (input) TLSF_ERR_TOO_MANY_OWNERS :: int where "TLSF_ERR_TOO_MANY_OWNERS \<equiv> 13"
abbreviation (input) TLSF_ERR_UID_DUPLICATE :: int where "TLSF_ERR_UID_DUPLICATE \<equiv> 14"
abbreviation (input) TLSF_ERR_FORMAT_MISMATCH :: int where "TLSF_ERR_FORMAT_MISMATCH \<equiv> 15"

section \<open>The robust recursive process-shared mutex\<close>

text \<open>
  What POSIX promises of a mutex with the attributes \<^verbatim>\<open>tlsf_create\<close> sets. \<open>None\<close> of
  \<open>pthread_mutex_lock\<close> is a call that does not return because another live thread holds
  the mutex. A thread that dies holding it leaves \<open>mx_died\<close>; the next locker gets
  \<^verbatim>\<open>EOWNERDEAD\<close> and the mutex, inconsistent until \<^verbatim>\<open>pthread_mutex_consistent\<close>; unlocking it
  while inconsistent makes it unrecoverable.
\<close>

record pmutex =
  mx_holder :: "nat option"
  mx_count :: nat
  mx_died :: bool
  mx_incons :: bool
  mx_lost :: bool

definition mutex_new :: pmutex where
  "mutex_new = \<lparr>mx_holder = None, mx_count = 0, mx_died = False, mx_incons = False, mx_lost = False\<rparr>"

definition pthread_mutex_lock :: "nat \<Rightarrow> pmutex \<Rightarrow> (int \<times> pmutex) option" where
  "pthread_mutex_lock t m =
     (if mx_lost m then Some (ENOTRECOVERABLE, m)
      else case mx_holder m of
        None \<Rightarrow> Some (0, m\<lparr>mx_holder := Some t, mx_count := 1\<rparr>)
      | Some h \<Rightarrow>
          if mx_died m then
            Some (EOWNERDEAD, m\<lparr>mx_holder := Some t, mx_count := 1, mx_died := False, mx_incons := True\<rparr>)
          else if h = t then Some (0, m\<lparr>mx_count := Suc (mx_count m)\<rparr>)
          else None)"

definition pthread_mutex_trylock :: "nat \<Rightarrow> pmutex \<Rightarrow> int \<times> pmutex" where
  "pthread_mutex_trylock t m =
     (case pthread_mutex_lock t m of None \<Rightarrow> (EBUSY, m) | Some r \<Rightarrow> r)"

definition pthread_mutex_unlock :: "nat \<Rightarrow> pmutex \<Rightarrow> int \<times> pmutex" where
  "pthread_mutex_unlock t m =
     (if mx_holder m \<noteq> Some t \<or> mx_died m then (1, m) \<comment> \<open>EPERM\<close>
      else if mx_count m > 1 then (0, m\<lparr>mx_count := mx_count m - 1\<rparr>)
      else (0, m\<lparr>mx_holder := None, mx_count := 0, mx_lost := mx_lost m \<or> mx_incons m\<rparr>))"

definition pthread_mutex_consistent :: "pmutex \<Rightarrow> int \<times> pmutex" where
  "pthread_mutex_consistent m = (if mx_incons m then (0, m\<lparr>mx_incons := False\<rparr>) else (EINVAL, m))"

text \<open>A mutex that is held is not destroyed; using a destroyed one is undefined, here it is lost for every later lock.\<close>

definition pthread_mutex_destroy :: "pmutex \<Rightarrow> int \<times> pmutex" where
  "pthread_mutex_destroy m = (if mx_holder m \<noteq> None then (EBUSY, m) else (0, m\<lparr>mx_lost := True\<rparr>))"

definition thread_dies :: "nat \<Rightarrow> pmutex \<Rightarrow> pmutex" where
  "thread_dies t m = (if mx_holder m = Some t then m\<lparr>mx_died := True\<rparr> else m)"

section \<open>The control structure\<close>

record bul_record =
  bul_addr :: u64
  bul_old_value :: u64

record tlsf_ctrl =
  format_version :: u32
  matrix :: "nat \<Rightarrow> nat \<Rightarrow> u64"
  fl_bitmap :: u64
  sl_bitmaps :: "nat \<Rightarrow> u64"
  mutex :: pmutex
  stack_top :: u32
  owner_pid :: nat
  txn_epoch :: u64
  bul :: "nat \<Rightarrow> bul_record"
  pool_start :: u64
  pool_size :: u64
  heap_start :: u64
  heap_size :: u64
  used_bytes :: u64
  mem :: "u64 \<Rightarrow> u64"
  tlsf_errno :: int

text \<open>An access through a logged address can hit \<^verbatim>\<open>ctrl->used_bytes\<close>, the one control field
  the undo log names, or a word of the pool.\<close>

definition used_bytes_addr :: "tlsf_ctrl \<Rightarrow> u64" where
  "used_bytes_addr c = pool_start c + USED_BYTES_OFFSET"

definition load_word :: "u64 \<Rightarrow> tlsf_ctrl \<Rightarrow> u64" where
  "load_word a c = (if a = used_bytes_addr c then used_bytes c else mem c a)"

definition store_word :: "u64 \<Rightarrow> u64 \<Rightarrow> tlsf_ctrl \<Rightarrow> tlsf_ctrl" where
  "store_word a v c =
     (if a = used_bytes_addr c then c\<lparr>used_bytes := v\<rparr> else c\<lparr>mem := (mem c)(a := v)\<rparr>)"

definition poke :: "u64 \<Rightarrow> u64 \<Rightarrow> tlsf_ctrl \<Rightarrow> tlsf_ctrl" where
  "poke a v c = c\<lparr>mem := (mem c)(a := v)\<rparr>"

definition set_errno :: "int \<Rightarrow> tlsf_ctrl \<Rightarrow> tlsf_ctrl" where
  "set_errno e c = c\<lparr>tlsf_errno := e\<rparr>"

section \<open>Header fields\<close>

abbreviation size_flags :: "tlsf_ctrl \<Rightarrow> u64 \<Rightarrow> u64" where "size_flags c b \<equiv> mem c b"
abbreviation sig_dc :: "tlsf_ctrl \<Rightarrow> u64 \<Rightarrow> u64" where "sig_dc c b \<equiv> mem c (b + 8)"
abbreviation prev_free :: "tlsf_ctrl \<Rightarrow> u64 \<Rightarrow> u64" where "prev_free c b \<equiv> mem c (b + 16)"
abbreviation next_free :: "tlsf_ctrl \<Rightarrow> u64 \<Rightarrow> u64" where "next_free c b \<equiv> mem c (b + 24)"
abbreviation prev_size :: "tlsf_ctrl \<Rightarrow> u64 \<Rightarrow> u64" where "prev_size c b \<equiv> mem c (b + 56)"

definition block_size :: "tlsf_ctrl \<Rightarrow> u64 \<Rightarrow> u64" where
  "block_size c b = size_flags c b AND SIZE_MASK"

definition block_is_free :: "tlsf_ctrl \<Rightarrow> u64 \<Rightarrow> bool" where
  "block_is_free c b \<longleftrightarrow> size_flags c b AND BLOCK_FREE \<noteq> 0"

definition block_prev_free :: "tlsf_ctrl \<Rightarrow> u64 \<Rightarrow> bool" where
  "block_prev_free c b \<longleftrightarrow> size_flags c b AND BLOCK_PREV_FREE \<noteq> 0"

definition block_set_size :: "u64 \<Rightarrow> u64 \<Rightarrow> tlsf_ctrl \<Rightarrow> tlsf_ctrl" where
  "block_set_size b sz c = poke b ((size_flags c b AND FLAG_MASK) OR sz) c"

definition block_next :: "tlsf_ctrl \<Rightarrow> u64 \<Rightarrow> u64" where
  "block_next c b = b + block_size c b"

definition block_footer_ptr :: "tlsf_ctrl \<Rightarrow> u64 \<Rightarrow> u64" where
  "block_footer_ptr c b = b + block_size c b - 8"

definition ptr_from_block :: "u64 \<Rightarrow> u64" where "ptr_from_block b = b + HEADER_SIZE"
definition block_from_ptr :: "u64 \<Rightarrow> u64" where "block_from_ptr p = p - HEADER_SIZE"

definition block_payload_size :: "tlsf_ctrl \<Rightarrow> u64 \<Rightarrow> u64" where
  "block_payload_size c b = block_size c b - HEADER_SIZE"

definition align_up :: "u64 \<Rightarrow> u64 \<Rightarrow> u64" where
  "align_up v alignment = (v + alignment - 1) AND NOT (alignment - 1)"

section \<open>The signature word\<close>

definition check_signature :: "tlsf_ctrl \<Rightarrow> u64 \<Rightarrow> bool" where
  "check_signature c b \<longleftrightarrow> drop_bit 16 (sig_dc c b) = TLSF_BLOCK_MAGIC48"

definition get_dc :: "tlsf_ctrl \<Rightarrow> u64 \<Rightarrow> bool" where
  "get_dc c b \<longleftrightarrow> sig_dc c b AND SIG_DC_DC_BIT \<noteq> 0"

definition get_data_type :: "tlsf_ctrl \<Rightarrow> u64 \<Rightarrow> u16" where
  "get_data_type c b = ucast (sig_dc c b AND SIG_DC_TYPE_MASK)"

definition make_sig_dc :: "bool \<Rightarrow> u16 \<Rightarrow> u64" where
  "make_sig_dc dc data_type =
     push_bit 16 TLSF_BLOCK_MAGIC48 OR (if dc then SIG_DC_DC_BIT else 0)
       OR (ucast data_type AND SIG_DC_TYPE_MASK)"

section \<open>The owner slots\<close>

definition uid_word_addr :: "u64 \<Rightarrow> nat \<Rightarrow> u64" where
  "uid_word_addr b i = b + 32 + of_nat (i div 4) * 8"

definition uid_at :: "tlsf_ctrl \<Rightarrow> u64 \<Rightarrow> nat \<Rightarrow> u16" where
  "uid_at c b i = ucast (drop_bit (16 * (i mod 4)) (mem c (uid_word_addr b i)))"

definition uid_put :: "u64 \<Rightarrow> nat \<Rightarrow> u16 \<Rightarrow> tlsf_ctrl \<Rightarrow> tlsf_ctrl" where
  "uid_put b i u c =
     poke (uid_word_addr b i)
       ((mem c (uid_word_addr b i) AND NOT (push_bit (16 * (i mod 4)) 0xFFFF))
          OR push_bit (16 * (i mod 4)) (ucast u)) c"

definition uid_clear_all :: "u64 \<Rightarrow> tlsf_ctrl \<Rightarrow> tlsf_ctrl" where
  "uid_clear_all b c = poke (b + 48) 0 (poke (b + 40) 0 (poke (b + 32) 0 c))"

definition uid_list :: "tlsf_ctrl \<Rightarrow> u64 \<Rightarrow> u16 list" where
  "uid_list c b = map (uid_at c b) [0..<TLSF_MAX_OWNERS]"

fun find_from :: "(nat \<Rightarrow> bool) \<Rightarrow> nat list \<Rightarrow> int" where
  "find_from P [] = -1"
| "find_from P (i # is) = (if P i then int i else find_from P is)"

definition uid_find :: "tlsf_ctrl \<Rightarrow> u64 \<Rightarrow> u16 \<Rightarrow> int" where
  "uid_find c b uid = find_from (\<lambda>i. uid_at c b i = uid) [0..<TLSF_MAX_OWNERS]"

definition uid_find_empty :: "tlsf_ctrl \<Rightarrow> u64 \<Rightarrow> int" where
  "uid_find_empty c b = find_from (\<lambda>i. uid_at c b i = 0) [0..<TLSF_MAX_OWNERS]"

definition uid_count :: "tlsf_ctrl \<Rightarrow> u64 \<Rightarrow> nat" where
  "uid_count c b = length (filter (\<lambda>u. u \<noteq> 0) (uid_list c b))"

definition uid_get_first :: "tlsf_ctrl \<Rightarrow> u64 \<Rightarrow> u16" where
  "uid_get_first c b = (case filter (\<lambda>u. u \<noteq> 0) (uid_list c b) of [] \<Rightarrow> 0 | u # _ \<Rightarrow> u)"

section \<open>Flag and size bits\<close>

lemma word_zero_bits: "(w :: u64) = 0 \<longleftrightarrow> (\<forall>n. \<not> bit w n)"
  using bit_eq_iff [of w 0] bit_imp_le_length [of w] by auto

lemma bit_lt_64: "bit (w :: u64) n \<Longrightarrow> n < 64"
  using bit_imp_le_length [of w n] by simp

lemma bit_BLOCK_FREE [srpc_bits]: "bit BLOCK_FREE n \<longleftrightarrow> n = 0"
  by (auto simp: BLOCK_FREE_def bit_1_iff)

lemma bit_BLOCK_PREV_FREE [srpc_bits]: "bit BLOCK_PREV_FREE n \<longleftrightarrow> n = 1"
proof -
  have "bit (2 ^ 1 :: u64) n \<longleftrightarrow> n = 1"
    by (subst bit_exp_iff) auto
  then show ?thesis by (simp only: BLOCK_PREV_FREE_def power_one_right)
qed

lemma FLAG_MASK_mask: "FLAG_MASK = mask 2" "SIZE_MASK = NOT (mask 2)"
  by (simp_all add: FLAG_MASK_def SIZE_MASK_def mask_eq_exp_minus_1)

lemma bit_FLAG_MASK [srpc_bits]: "bit FLAG_MASK n \<longleftrightarrow> n < 2"
  by (auto simp: FLAG_MASK_mask bit_mask_iff)

lemma bit_SIZE_MASK [srpc_bits]: "bit SIZE_MASK n \<longleftrightarrow> 2 \<le> n \<and> n < 64"
  by (auto simp: FLAG_MASK_mask bit_mask_iff bit_not_iff)

lemma aligned64_bit: "aligned64 s \<Longrightarrow> bit s n \<Longrightarrow> 6 \<le> n"
proof -
  assume "aligned64 s" "bit s n"
  then have "\<not> bit (take_bit 6 s) n" by (simp add: aligned64_take_bit)
  with \<open>bit s n\<close> show ?thesis by (simp add: bit_simps)
qed

text \<open>\<open>sz_of\<close>, \<open>fr_of\<close>, \<open>pf_of\<close> read the three parts of a size word; the lemmas say
  what each of the code's updates of the word does to them.\<close>

definition sz_of :: "u64 \<Rightarrow> u64" where "sz_of w = w AND SIZE_MASK"
definition fr_of :: "u64 \<Rightarrow> bool" where "fr_of w \<longleftrightarrow> w AND BLOCK_FREE \<noteq> 0"
definition pf_of :: "u64 \<Rightarrow> bool" where "pf_of w \<longleftrightarrow> w AND BLOCK_PREV_FREE \<noteq> 0"

lemma block_size_sz: "block_size c b = sz_of (mem c b)"
  and block_is_free_fr: "block_is_free c b = fr_of (mem c b)"
  and block_prev_free_pf: "block_prev_free c b = pf_of (mem c b)"
  by (simp_all add: block_size_def sz_of_def block_is_free_def fr_of_def block_prev_free_def pf_of_def)

lemmas block_word = block_size_sz block_is_free_fr block_prev_free_pf

lemma fr_of_bit: "fr_of w \<longleftrightarrow> bit w 0"
  by (auto simp: fr_of_def word_zero_bits bit_and_iff srpc_bits)

lemma pf_of_bit: "pf_of w \<longleftrightarrow> bit w 1"
  by (auto simp: pf_of_def word_zero_bits bit_and_iff srpc_bits)

lemma bit_sz_of: "bit (sz_of w) n \<longleftrightarrow> bit w n \<and> 2 \<le> n"
  by (auto simp: sz_of_def bit_and_iff srpc_bits dest: bit_imp_le_length)

lemmas part_bits = bit_sz_of fr_of_bit pf_of_bit bit_and_iff bit_or_iff bit_not_iff srpc_bits

lemma sz_of_or_free [simp]: "sz_of (w OR BLOCK_FREE) = sz_of w"
  and sz_of_or_pf [simp]: "sz_of (w OR BLOCK_PREV_FREE) = sz_of w"
  and sz_of_and_free [simp]: "sz_of (w AND NOT BLOCK_FREE) = sz_of w"
  and sz_of_and_pf [simp]: "sz_of (w AND NOT BLOCK_PREV_FREE) = sz_of w"
  by (rule bit_word_eqI, auto simp: part_bits)+

lemma fr_of_updates [simp]:
  "fr_of (w OR BLOCK_FREE)" "fr_of (w OR BLOCK_PREV_FREE) = fr_of w"
  "\<not> fr_of (w AND NOT BLOCK_FREE)" "fr_of (w AND NOT BLOCK_PREV_FREE) = fr_of w"
  by (auto simp: part_bits)

lemma pf_of_updates [simp]:
  "pf_of (w OR BLOCK_PREV_FREE)" "pf_of (w OR BLOCK_FREE) = pf_of w"
  "\<not> pf_of (w AND NOT BLOCK_PREV_FREE)" "pf_of (w AND NOT BLOCK_FREE) = pf_of w"
  by (auto simp: part_bits)

lemma sz_of_aligned [simp]: "aligned64 s \<Longrightarrow> sz_of s = s"
  by (rule bit_word_eqI) (use aligned64_bit [of s] in \<open>fastforce simp: part_bits\<close>)

lemma set_size_parts [simp]:
  assumes "aligned64 s"
  shows "sz_of ((w AND FLAG_MASK) OR s) = s"
    and "fr_of ((w AND FLAG_MASK) OR s) = fr_of w"
    and "pf_of ((w AND FLAG_MASK) OR s) = pf_of w"
proof -
  have s: "\<not> bit s 0" "\<not> bit s 1" using aligned64_bit [OF assms] by (force, force)
  show "sz_of ((w AND FLAG_MASK) OR s) = s"
    by (rule bit_word_eqI) (use aligned64_bit [OF assms] in \<open>fastforce simp: part_bits\<close>)
  show "fr_of ((w AND FLAG_MASK) OR s) = fr_of w" "pf_of ((w AND FLAG_MASK) OR s) = pf_of w"
    using s by (auto simp: part_bits)
qed

lemma aligned_parts [simp]:
  assumes "aligned64 s" shows "\<not> fr_of s" "\<not> pf_of s"
  using aligned64_bit [OF assms] by (force simp: part_bits)+

section \<open>The signature word packs and unpacks\<close>

definition sig_of :: "u64 \<Rightarrow> bool" where "sig_of w \<longleftrightarrow> drop_bit 16 w = TLSF_BLOCK_MAGIC48"
definition dc_of :: "u64 \<Rightarrow> bool" where "dc_of w \<longleftrightarrow> w AND SIG_DC_DC_BIT \<noteq> 0"
definition type_of :: "u64 \<Rightarrow> u16" where "type_of w = ucast (w AND SIG_DC_TYPE_MASK)"

lemma sig_word:
  "check_signature c b = sig_of (mem c (b + 8))" "get_dc c b = dc_of (mem c (b + 8))"
  "get_data_type c b = type_of (mem c (b + 8))"
  by (simp_all add: check_signature_def sig_of_def get_dc_def dc_of_def get_data_type_def type_of_def)

lemma bit_DC [srpc_bits]: "bit SIG_DC_DC_BIT n \<longleftrightarrow> n = 15"
proof -
  have "bit (2 ^ 15 :: u64) n \<longleftrightarrow> n = 15" by (subst bit_exp_iff) auto
  moreover have "(2 ^ 15 :: u64) = SIG_DC_DC_BIT" by (simp add: SIG_DC_DC_BIT_def)
  ultimately show ?thesis by (simp only:)
qed

lemma bit_TYPE_MASK [srpc_bits]: "bit SIG_DC_TYPE_MASK n \<longleftrightarrow> n < 15"
proof -
  have "bit (mask 15 :: u64) n \<longleftrightarrow> n < 15" by (auto simp: bit_mask_iff)
  moreover have "(mask 15 :: u64) = SIG_DC_TYPE_MASK"
    by (simp add: SIG_DC_TYPE_MASK_def mask_eq_exp_minus_1)
  ultimately show ?thesis by (simp only:)
qed

lemma bit_MAGIC: "bit TLSF_BLOCK_MAGIC48 n \<Longrightarrow> n < 48"
proof -
  have "take_bit 48 TLSF_BLOCK_MAGIC48 = TLSF_BLOCK_MAGIC48"
    by (simp add: TLSF_BLOCK_MAGIC48_def)
  then show "bit TLSF_BLOCK_MAGIC48 n \<Longrightarrow> n < 48"
    by (metis bit_take_bit_iff)
qed

lemma dc_of_bit: "dc_of w \<longleftrightarrow> bit w 15"
  by (auto simp: dc_of_def word_zero_bits bit_and_iff srpc_bits)

lemma bit_type_of: "bit (type_of w) n \<longleftrightarrow> bit w n \<and> n < 15"
  by (auto simp: type_of_def bit_unsigned_iff bit_and_iff srpc_bits)

lemma bit_make_sig_dc:
  "bit (make_sig_dc dc t) n \<longleftrightarrow>
     (if 16 \<le> n then n < 64 \<and> bit TLSF_BLOCK_MAGIC48 (n - 16) else if n = 15 then dc else bit t n)"
  using bit_imp_le_length [of t n]
  by (auto simp: make_sig_dc_def bit_or_iff bit_and_iff bit_push_bit_iff bit_unsigned_iff srpc_bits)

lemma sig_of_cong: "(\<And>n. 16 \<le> n \<Longrightarrow> bit v n = bit w n) \<Longrightarrow> sig_of v = sig_of w"
  unfolding sig_of_def
  by (rule arg_cong [where f = "\<lambda>x. x = TLSF_BLOCK_MAGIC48"], rule bit_word_eqI)
     (simp add: bit_drop_bit_eq)

lemma sig_of_make [simp]: "sig_of (make_sig_dc dc t)"
  unfolding sig_of_def
  by (rule bit_word_eqI) (auto simp: bit_drop_bit_eq bit_make_sig_dc dest: bit_MAGIC)

lemma dc_of_make [simp]: "dc_of (make_sig_dc dc t) = dc"
  by (simp add: dc_of_bit bit_make_sig_dc)

lemma type_of_make [simp]: "type_of (make_sig_dc dc t) = t AND 0x7FFF"
proof -
  have m: "(0x7FFF :: u16) = mask 15" by (simp add: mask_eq_exp_minus_1)
  show ?thesis unfolding m
    by (rule bit_word_eqI) (auto simp: bit_type_of bit_make_sig_dc bit_and_iff bit_mask_iff)
qed

lemma setdc_parts [simp]:
  "sig_of (w OR SIG_DC_DC_BIT) = sig_of w" "dc_of (w OR SIG_DC_DC_BIT)"
  "type_of (w OR SIG_DC_DC_BIT) = type_of w"
  by (auto simp: dc_of_bit bit_or_iff srpc_bits bit_type_of intro!: sig_of_cong bit_word_eqI)

lemma cleardc_parts [simp]:
  "sig_of (w AND NOT SIG_DC_DC_BIT) = sig_of w" "\<not> dc_of (w AND NOT SIG_DC_DC_BIT)"
  "type_of (w AND NOT SIG_DC_DC_BIT) = type_of w"
  by (auto simp: dc_of_bit bit_and_iff bit_not_iff srpc_bits bit_type_of
      intro!: sig_of_cong bit_word_eqI dest: bit_lt_64)

section \<open>Owner slots behave as an array of twelve\<close>

lemma poke_simps [simp]:
  "mem (poke a v c) = (mem c)(a := v)" "used_bytes (poke a v c) = used_bytes c"
  "matrix (poke a v c) = matrix c" "fl_bitmap (poke a v c) = fl_bitmap c"
  "sl_bitmaps (poke a v c) = sl_bitmaps c" "mutex (poke a v c) = mutex c"
  "stack_top (poke a v c) = stack_top c" "bul (poke a v c) = bul c"
  "pool_start (poke a v c) = pool_start c" "pool_size (poke a v c) = pool_size c"
  "heap_start (poke a v c) = heap_start c" "heap_size (poke a v c) = heap_size c"
  "format_version (poke a v c) = format_version c" "tlsf_errno (poke a v c) = tlsf_errno c"
  "owner_pid (poke a v c) = owner_pid c" "txn_epoch (poke a v c) = txn_epoch c"
  by (simp_all add: poke_def)

lemma uid_word_addr_eq:
  assumes "i < 12" "j < 12"
  shows "uid_word_addr b i = uid_word_addr b j \<longleftrightarrow> i div 4 = j div 4"
proof -
  have "i div 4 \<in> {0, 1, 2}" "j div 4 \<in> {0, 1, 2}" using assms by auto
  then show ?thesis by (auto simp: uid_word_addr_def)
qed

lemma lane_put_get:
  assumes "i < 4" "j < (4 :: nat)"
  shows "(ucast (drop_bit (16 * j) ((w AND NOT (push_bit (16 * i) 0xFFFF))
            OR push_bit (16 * i) (ucast (u :: u16) :: u64))) :: u16)
         = (if i = j then u else ucast (drop_bit (16 * j) w))"
proof -
  define m :: u64 where "m = 0xFFFF"
  have "m = mask 16" by (simp add: m_def mask_eq_exp_minus_1)
  then have m: "bit m n \<longleftrightarrow> n < 16" for n by (auto simp: bit_mask_iff)
  have "bit (ucast (drop_bit (16 * j) ((w AND NOT (push_bit (16 * i) m))
            OR push_bit (16 * i) (ucast u :: u64))) :: u16) n
        = bit (if i = j then u else ucast (drop_bit (16 * j) w)) n" if n: "n < 16" for n
  proof -
    have "\<not> (16 * i \<le> 16 * j + n \<and> 16 * j + n - 16 * i < 16)" if "i \<noteq> j"
      using that n assms by arith
    then show ?thesis using n assms
      by (auto simp: bit_unsigned_iff bit_drop_bit_eq bit_or_iff bit_and_iff bit_not_iff m
        bit_push_bit_iff dest: bit_lt_64 bit_imp_le_length)
  qed
  then show ?thesis unfolding m_def [symmetric] by (intro bit_word_eqI) simp
qed

lemma uid_at_put:
  assumes "i < 12" "j < 12"
  shows "uid_at (uid_put b i u c) b j = (if i = j then u else uid_at c b j)"
proof (cases "i div 4 = j div 4")
  case True
  then have addr: "uid_word_addr b j = uid_word_addr b i" using uid_word_addr_eq assms by metis
  have "i = j \<longleftrightarrow> i mod 4 = j mod 4" using True by (metis div_mult_mod_eq)
  then show ?thesis
    using lane_put_get [of "i mod 4" "j mod 4" "mem c (uid_word_addr b i)" u]
    by (simp add: uid_at_def uid_put_def addr)
next
  case False
  then have "uid_word_addr b j \<noteq> uid_word_addr b i" "i \<noteq> j" using uid_word_addr_eq assms by metis+
  then show ?thesis by (simp add: uid_at_def uid_put_def)
qed

lemma uid_list_nth: "i < 12 \<Longrightarrow> uid_list c b ! i = uid_at c b i"
  by (simp add: uid_list_def TLSF_MAX_OWNERS_def)

lemma uid_list_length [simp]: "length (uid_list c b) = 12"
  by (simp add: uid_list_def TLSF_MAX_OWNERS_def)

lemma uid_list_put:
  assumes "i < 12" shows "uid_list (uid_put b i u c) b = (uid_list c b)[i := u]"
  by (rule nth_equalityI) (use assms in \<open>auto simp: uid_list_nth uid_at_put nth_list_update\<close>)

lemma find_from_spec:
  "find_from P is = -1 \<and> (\<forall>i \<in> set is. \<not> P i) \<or>
   (\<exists>i \<in> set is. find_from P is = int i \<and> P i)"
  by (induction "is") auto

lemma uid_find_nonneg: "0 \<le> uid_find c b u \<longleftrightarrow> u \<in> set (uid_list c b)"
proof -
  have "u \<in> set (uid_list c b) \<longleftrightarrow> (\<exists>i<12. uid_at c b i = u)"
    by (auto simp: uid_list_def TLSF_MAX_OWNERS_def)
  then show ?thesis
    using find_from_spec [of "\<lambda>i. uid_at c b i = u" "[0..<12]"]
    by (auto simp: uid_find_def TLSF_MAX_OWNERS_def)
qed

lemma uid_find_empty_spec:
  "uid_find_empty c b < 0 \<and> 0 \<notin> set (uid_list c b) \<or>
   (\<exists>i<12. uid_find_empty c b = int i \<and> uid_list c b ! i = 0)"
  using find_from_spec [of "\<lambda>i. uid_at c b i = 0" "[0..<12]"]
  by (auto simp: uid_find_empty_def uid_list_def TLSF_MAX_OWNERS_def)

end
