(* ===== verification/Tlsf_Mapping.thy ===== *)
theory Tlsf_Mapping
  imports Tlsf_Types
begin

text \<open>
  Size classes of the allocator (\<^verbatim>\<open>libs/tlsf_txn/tlsf_txn.c\<close>: \<^verbatim>\<open>mapping_first_level\<close>,
  \<^verbatim>\<open>mapping_second_level\<close>, \<^verbatim>\<open>mapping_search\<close>) and the rounding of a request to a block size
  (\<^verbatim>\<open>request_to_block_size\<close>). The lemmas give the range of sizes of a class and the exact
  rounding, with its wrap-around at the top of \<^verbatim>\<open>size_t\<close>.
\<close>

definition mapping_first_level :: "u64 \<Rightarrow> nat" where
  "mapping_first_level sz =
     (if sz = 0 then 0
      else let fl = 63 - clzl sz in if fl \<ge> FLI_MAX then FLI_MAX - 1 else fl)"

definition mapping_second_level :: "u64 \<Rightarrow> nat \<Rightarrow> nat" where
  "mapping_second_level sz fl =
     (if fl < SLI_COUNT then 0 else unat (drop_bit (fl - SLI_COUNT + 1) sz AND 15))"

definition mapping_search :: "u64 \<Rightarrow> nat \<times> nat" where
  "mapping_search sz = (let fl = mapping_first_level sz in (fl, mapping_second_level sz fl))"

definition request_to_block_size :: "u64 \<Rightarrow> u64" where
  "request_to_block_size sz =
     (let payload0 = align_up sz ALIGN_SIZE;
          payload = (if payload0 < MIN_USER_SIZE then MIN_USER_SIZE else payload0);
          total = align_up (payload + HEADER_SIZE) ALIGN_SIZE
      in if total < MIN_BLOCK_SZ then MIN_BLOCK_SZ else total)"

section \<open>Ranges of the two levels\<close>

lemma mapping_first_level_lt: "mapping_first_level sz < FLI_MAX"
  by (simp add: mapping_first_level_def Let_def FLI_MAX_def)

lemma word_and_15: "unat (w AND 15 :: u64) = unat w mod 16"
proof -
  have "(15 :: u64) = mask 4" by (simp add: mask_eq_exp_minus_1)
  then have "w AND 15 = take_bit 4 w" by (simp add: take_bit_eq_mask)
  moreover have "unat (take_bit 4 w) = take_bit 4 (unat w)" by (rule unsigned_take_bit_eq)
  ultimately show ?thesis by (simp only: take_bit_eq_mod [of 4 "unat w"]) simp
qed

lemma mapping_second_level_lt: "mapping_second_level sz fl < SLI_SIZE"
  by (simp add: mapping_second_level_def SLI_SIZE_def word_and_15)

lemma mapping_first_level_log:
  assumes "sz \<noteq> 0" "unat sz < 2 ^ 41"
  shows "2 ^ mapping_first_level sz \<le> unat sz" and "unat sz < 2 ^ Suc (mapping_first_level sz)"
proof -
  note p = clzl_props [OF assms(1)]
  have "(2::nat) ^ (63 - clzl sz) < 2 ^ 41" using p(2) assms(2) by linarith
  then have lt: "63 - clzl sz < 41" by (rule power_less_imp_less_exp [rotated]) simp
  then have fl: "mapping_first_level sz = 63 - clzl sz"
    using assms(1) by (simp add: mapping_first_level_def FLI_MAX_def)
  have "64 - clzl sz = Suc (63 - clzl sz)" using p(1) by simp
  with p fl show "2 ^ mapping_first_level sz \<le> unat sz" "unat sz < 2 ^ Suc (mapping_first_level sz)"
    by simp_all
qed

lemma unat_drop_bit: "unat (drop_bit n w :: u64) = unat w div 2 ^ n"
  by (subst unat_drop_bit_eq) (rule drop_bit_eq_div)

lemma mapping_second_level_quot:
  assumes "16 \<le> unat sz" "unat sz < 2 ^ 41"
  defines "fl \<equiv> mapping_first_level sz"
  shows "4 \<le> fl" and "mapping_second_level sz fl = unat sz div 2 ^ (fl - 3)"
    and "8 \<le> mapping_second_level sz fl"
proof -
  have nz: "sz \<noteq> 0" using assms(1) by auto
  note lg = mapping_first_level_log [OF nz assms(2), folded fl_def]
  have "(2::nat) ^ 4 < 2 ^ Suc fl" using lg(2) assms(1) by simp
  then show fl4: "4 \<le> fl" by (metis less_Suc_eq_le power_strict_increasing_iff one_less_numeral_iff
        semiring_norm(76))
  have e: "(2::nat) ^ fl = 8 * 2 ^ (fl - 3)" "(2::nat) ^ Suc fl = 16 * 2 ^ (fl - 3)"
    using fl4 power_add [of "2::nat" 3 "fl - 3"] by simp_all
  have lo: "8 \<le> unat sz div 2 ^ (fl - 3)"
    using lg(1) by (simp add: e(1) less_eq_div_iff_mult_less_eq)
  have hi: "unat sz div 2 ^ (fl - 3) < 16"
    using lg(2) by (simp only: e(2)) (simp add: div_less_iff_less_mult)
  have sh: "fl - SLI_COUNT + 1 = fl - 3" using fl4 by (simp add: SLI_COUNT_def)
  have "\<not> fl < SLI_COUNT" using fl4 by (simp add: SLI_COUNT_def)
  then have q: "mapping_second_level sz fl = unat sz div 2 ^ (fl - 3) mod 16"
    unfolding mapping_second_level_def sh by (simp add: word_and_15 unat_drop_bit)
  then show "mapping_second_level sz fl = unat sz div 2 ^ (fl - 3)"
    using hi by simp
  then show "8 \<le> mapping_second_level sz fl" using lo by simp
qed

text \<open>The sizes of a class: an interval of width \<open>2 ^ (fl - 3)\<close> from the class base.\<close>

definition class_base :: "nat \<Rightarrow> nat \<Rightarrow> nat" where
  "class_base fl sl = sl * 2 ^ (fl - 3)"

lemma mapping_class_range:
  assumes "16 \<le> unat sz" "unat sz < 2 ^ 41" "mapping_search sz = (fl, sl)"
  shows "class_base fl sl \<le> unat sz" and "unat sz < class_base fl sl + 2 ^ (fl - 3)"
proof -
  have fl: "fl = mapping_first_level sz" and sl: "sl = unat sz div 2 ^ (fl - 3)"
    using assms(3) mapping_second_level_quot [OF assms(1,2)]
    by (auto simp: mapping_search_def Let_def)
  show "class_base fl sl \<le> unat sz" unfolding class_base_def sl by (rule div_times_less_eq_dividend)
  show "unat sz < class_base fl sl + 2 ^ (fl - 3)"
  proof -
    have "unat sz mod 2 ^ (fl - 3) < 2 ^ (fl - 3)" by simp
    with div_mult_mod_eq [of "unat sz" "2 ^ (fl - 3)"] show ?thesis
      unfolding class_base_def sl by linarith
  qed
qed

text \<open>A size in a strictly later class is larger.\<close>

lemma mapping_later_class:
  assumes s: "16 \<le> unat s" "unat s < 2 ^ 41" "mapping_search s = (fl, sl)"
    and t: "16 \<le> unat t" "unat t < 2 ^ 41" "mapping_search t = (fl', sl')"
    and lt: "fl < fl' \<or> fl = fl' \<and> sl < sl'"
  shows "unat s < unat t"
proof -
  have fl: "fl = mapping_first_level s" "fl' = mapping_first_level t"
    using s(3) t(3) by (auto simp: mapping_search_def Let_def)
  have nz: "s \<noteq> 0" "t \<noteq> 0" using s(1) t(1) by auto
  from lt show ?thesis
  proof
    assume "fl < fl'"
    then have "(2::nat) ^ Suc fl \<le> 2 ^ fl'" by (intro power_increasing) auto
    moreover have "unat s < 2 ^ Suc fl" "2 ^ fl' \<le> unat t"
      using mapping_first_level_log(2) [OF nz(1) s(2)] mapping_first_level_log(1) [OF nz(2) t(2)]
      by (simp_all add: fl)
    ultimately show ?thesis by linarith
  next
    assume c: "fl = fl' \<and> sl < sl'"
    then have "Suc sl * 2 ^ (fl - 3) \<le> sl' * 2 ^ (fl - 3)" by (intro mult_le_mono1) simp
    then have "class_base fl sl + 2 ^ (fl - 3) \<le> class_base fl' sl'"
      using c by (simp add: class_base_def)
    with mapping_class_range [OF s] mapping_class_range [OF t] show ?thesis by linarith
  qed
qed

section \<open>Rounding a request\<close>

lemma align_up_64:
  assumes "unat v \<le> 2 ^ 64 - 64"
  shows "unat (align_up v 64) = (unat v + 63) div 64 * 64"
proof -
  have m: "(63 :: u64) = mask 6" by (simp add: mask_eq_exp_minus_1)
  define w where "w = v + 63"
  have uw: "unat w = unat v + 63"
    unfolding w_def by (rule trans [OF unat_add_nowrap]) (use assms in simp_all)
  have "w AND NOT (mask 6) = push_bit 6 (drop_bit 6 w)"
    by (rule bit_word_eqI) (auto simp: bit_and_iff bit_not_iff bit_mask_iff bit_push_bit_iff bit_drop_bit_eq)
  moreover have "unat (push_bit 6 (drop_bit 6 w)) = unat w div 64 * 64"
  proof -
    have "w AND NOT (mask 6) = w - take_bit 6 w"
      by (metis calculation bits_ident add_diff_cancel_right')
    moreover have t: "unat (take_bit 6 w) = unat w mod 64"
    proof -
      have "unat (take_bit 6 w) = take_bit 6 (unat w)" by (rule unsigned_take_bit_eq)
      then show ?thesis by (simp only: take_bit_eq_mod [of 6 "unat w"]) simp
    qed
    ultimately have "unat (push_bit 6 (drop_bit 6 w)) = unat w - unat w mod 64"
      using \<open>w AND NOT (mask 6) = push_bit 6 (drop_bit 6 w)\<close>
      by (simp add: unat_diff_nowrap)
    then show ?thesis by (simp add: minus_mod_eq_div_mult)
  qed
  moreover have "align_up v 64 = w AND NOT (mask 6)"
    unfolding align_up_def w_def m [symmetric] by (simp add: algebra_simps)
  ultimately show ?thesis using uw by simp
qed

lemma request_to_block_size_eq:
  assumes "unat sz \<le> 2 ^ 64 - 128"
  shows "unat (request_to_block_size sz) = max 1 ((unat sz + 63) div 64) * 64 + 64"
proof -
  define p0 where "p0 = align_up sz 64"
  define p where "p = (if p0 < 64 then 64 else p0)"
  have p0: "unat p0 = (unat sz + 63) div 64 * 64"
    unfolding p0_def by (rule align_up_64) (use assms in simp)
  have p: "unat p = max 1 ((unat sz + 63) div 64) * 64"
    unfolding p_def using p0 by (auto simp: word_less_nat_alt max_def)
  have le: "(unat sz + 63) div 64 * 64 \<le> 2 ^ 64 - 128"
    using assms by (simp add: div_times_less_eq_dividend)
  have ple: "unat p \<le> 2 ^ 64 - 128" unfolding p using le by (auto simp: max_def)
  have s: "unat (p + 64) = unat p + 64"
    by (rule trans [OF unat_add_nowrap]) (use ple in simp_all)
  have "unat (align_up (p + 64) 64) = (unat (p + 64) + 63) div 64 * 64"
    by (rule align_up_64) (use s ple in simp)
  then have t: "unat (align_up (p + 64) 64) = unat p + 64"
    unfolding s p by (simp add: algebra_simps)
  have "128 \<le> unat p + 64" unfolding p by simp
  then have "\<not> align_up (p + 64) 64 < 128" using t by (simp add: word_less_nat_alt)
  then have "request_to_block_size sz = align_up (p + 64) 64"
    unfolding request_to_block_size_def Let_def tlsf_consts p_def p0_def by (simp only: if_False)
  with t p show ?thesis by simp
qed

end
