(* ===== verification/Tlsf_Freelist.thy ===== *)
theory Tlsf_Freelist
  imports Tlsf_Mapping
begin

text \<open>
  The segregated free lists (\<^verbatim>\<open>libs/tlsf_txn/tlsf_txn.c\<close>: \<^verbatim>\<open>remove_from_free_list\<close>,
  \<^verbatim>\<open>insert_into_free_list\<close>, \<^verbatim>\<open>find_suitable_block\<close>): doubly linked lists threaded through the
  block headers, a matrix of heads and two levels of bitmaps. The invariant \<open>flok c F\<close> says
  that the lists hold exactly the blocks \<open>F\<close>, each in the list of its size class, and that
  a bit is set exactly when its list is not empty; insertion and removal keep it, and the
  search returns a block of the first class that is not empty.
\<close>

section \<open>Operations\<close>

definition set_matrix :: "nat \<Rightarrow> nat \<Rightarrow> u64 \<Rightarrow> tlsf_ctrl \<Rightarrow> tlsf_ctrl" where
  "set_matrix fl sl v c = c\<lparr>matrix := (matrix c)(fl := (matrix c fl)(sl := v))\<rparr>"

definition set_sl_bitmap :: "nat \<Rightarrow> u64 \<Rightarrow> tlsf_ctrl \<Rightarrow> tlsf_ctrl" where
  "set_sl_bitmap fl v c = c\<lparr>sl_bitmaps := (sl_bitmaps c)(fl := v)\<rparr>"

definition unlink_block :: "u64 \<Rightarrow> nat \<Rightarrow> nat \<Rightarrow> tlsf_ctrl \<Rightarrow> tlsf_ctrl" where
  "unlink_block b fl sl c =
     (let c1 = (if prev_free c b \<noteq> 0 then poke (prev_free c b + 24) (next_free c b) c
                else set_matrix fl sl (next_free c b) c)
      in if next_free c1 b \<noteq> 0 then poke (next_free c1 b + 16) (prev_free c1 b) c1 else c1)"

definition clear_bits :: "nat \<Rightarrow> nat \<Rightarrow> tlsf_ctrl \<Rightarrow> tlsf_ctrl" where
  "clear_bits fl sl c =
     (let c1 = set_sl_bitmap fl (sl_bitmaps c fl AND NOT (push_bit sl 1)) c
      in if sl_bitmaps c1 fl = 0 then c1\<lparr>fl_bitmap := fl_bitmap c1 AND NOT (push_bit fl 1)\<rparr> else c1)"

definition remove_from_free_list :: "u64 \<Rightarrow> nat \<Rightarrow> nat \<Rightarrow> tlsf_ctrl \<Rightarrow> tlsf_ctrl" where
  "remove_from_free_list b fl sl c =
     (let c1 = unlink_block b fl sl c
      in if matrix c1 fl sl = 0 then clear_bits fl sl c1 else c1)"

definition insert_into_free_list :: "u64 \<Rightarrow> nat \<Rightarrow> nat \<Rightarrow> tlsf_ctrl \<Rightarrow> tlsf_ctrl" where
  "insert_into_free_list b fl sl c =
     (let c1 = poke (b + 16) 0 c;
          c2 = poke (b + 24) (matrix c1 fl sl) c1;
          c3 = (if matrix c2 fl sl \<noteq> 0 then poke (matrix c2 fl sl + 16) b c2 else c2);
          c4 = set_matrix fl sl b c3;
          c5 = set_sl_bitmap fl (sl_bitmaps c4 fl OR push_bit sl 1) c4
      in c5\<lparr>fl_bitmap := fl_bitmap c5 OR push_bit fl 1\<rparr>)"

definition find_suitable_block :: "nat \<Rightarrow> nat \<Rightarrow> tlsf_ctrl \<Rightarrow> u64" where
  "find_suitable_block fl sl c =
     (let sl_mask = sl_bitmaps c fl AND push_bit sl (NOT 0) in
      if sl_mask \<noteq> 0 then matrix c fl (ctzll sl_mask)
      else let fl_mask = fl_bitmap c AND push_bit (fl + 1) (NOT 0) in
        if fl_mask = 0 then 0
        else let fl' = ctzll fl_mask in matrix c fl' (ctzll (sl_bitmaps c fl')))"

lemmas flist_ops = set_matrix_def set_sl_bitmap_def unlink_block_def clear_bits_def
  remove_from_free_list_def insert_into_free_list_def Let_def

text \<open>What the list operations leave alone in the control block.\<close>

definition same_ctl :: "tlsf_ctrl \<Rightarrow> tlsf_ctrl \<Rightarrow> bool" where
  "same_ctl c c' \<longleftrightarrow> format_version c' = format_version c \<and> mutex c' = mutex c \<and>
     stack_top c' = stack_top c \<and> owner_pid c' = owner_pid c \<and> txn_epoch c' = txn_epoch c \<and>
     bul c' = bul c \<and> pool_start c' = pool_start c \<and> pool_size c' = pool_size c \<and>
     heap_start c' = heap_start c \<and> heap_size c' = heap_size c \<and> used_bytes c' = used_bytes c \<and>
     tlsf_errno c' = tlsf_errno c"

lemma same_ctl_remove: "same_ctl c (remove_from_free_list b fl sl c)"
  by (simp add: same_ctl_def flist_ops)

lemma same_ctl_insert: "same_ctl c (insert_into_free_list b fl sl c)"
  by (simp add: same_ctl_def flist_ops)

section \<open>Doubly linked segments\<close>

fun dlseg :: "(u64 \<Rightarrow> u64) \<Rightarrow> u64 \<Rightarrow> u64 \<Rightarrow> u64 list \<Rightarrow> u64 \<Rightarrow> bool" where
  "dlseg m p h [] k \<longleftrightarrow> h = k"
| "dlseg m p h (x # xs) k \<longleftrightarrow> h = x \<and> x \<noteq> 0 \<and> m (x + 16) = p \<and> dlseg m x (m (x + 24)) xs k"

lemma dlseg_append:
  "dlseg m p h (xs @ ys) k \<longleftrightarrow> (\<exists>j. dlseg m p h xs j \<and> dlseg m (last (p # xs)) j ys k)"
  by (induction xs arbitrary: p h) auto

lemma dlseg_cong:
  "(\<And>x. x \<in> set xs \<Longrightarrow> m' (x + 16) = m (x + 16) \<and> m' (x + 24) = m (x + 24)) \<Longrightarrow>
   dlseg m' p h xs k = dlseg m p h xs k"
  by (induction xs arbitrary: p h) auto

lemma dlseg_prev: "dlseg m p h xs k \<Longrightarrow> y \<in> set xs \<Longrightarrow> m (y + 16) \<in> insert p (set xs)"
  by (induction xs arbitrary: p h) auto

lemma dlseg_nonzero: "dlseg m p h xs k \<Longrightarrow> 0 \<notin> set xs"
  by (induction xs arbitrary: p h) auto

lemma dlseg_distinct: "dlseg m p h xs k \<Longrightarrow> p \<notin> set xs \<Longrightarrow> distinct xs"
proof (induction xs arbitrary: p h)
  case (Cons x xs)
  have "x \<notin> set xs"
  proof
    assume "x \<in> set xs"
    with Cons.prems(1) have "m (x + 16) \<in> insert x (set xs)" by (auto dest: dlseg_prev)
    with Cons.prems show False by auto
  qed
  with Cons show ?case by auto
qed simp

lemma dlseg_hd: "dlseg m p h xs 0 \<Longrightarrow> h = 0 \<longleftrightarrow> xs = []"
  by (cases xs) auto

text \<open>Unlinking the middle block of a list, on the level of the two words it rewrites.\<close>

lemma dlseg_unlink:
  assumes dl: "dlseg m 0 h (us @ b # vs) 0"
    and al: "\<And>x. x \<in> set (us @ b # vs) \<Longrightarrow> aligned64 x"
  defines "p \<equiv> m (b + 16)" and "n \<equiv> m (b + 24)"
  defines "m1 \<equiv> (if p \<noteq> 0 then m(p + 24 := n) else m)"
  defines "m2 \<equiv> (if n \<noteq> 0 then m1(n + 16 := p) else m1)"
  shows "dlseg m2 0 (if p = 0 then n else h) (us @ vs) 0"
    and "p = last (0 # us)" and "n = 0 \<longleftrightarrow> vs = []" and "n \<noteq> 0 \<longrightarrow> n \<in> set vs"
proof -
  have d: "distinct (us @ b # vs)" and nz: "0 \<notin> set (us @ b # vs)"
    using dlseg_distinct [OF dl] dlseg_nonzero [OF dl] by auto
  from dl obtain j where pre: "dlseg m 0 h us j" and "dlseg m (last (0 # us)) j (b # vs) 0"
    using dlseg_append by blast
  then have j: "j = b" and p: "p = last (0 # us)" and suf: "dlseg m b n vs 0"
    by (auto simp: p_def n_def)
  show "p = last (0 # us)" by (fact p)
  show n0: "n = 0 \<longleftrightarrow> vs = []" using dlseg_hd [OF suf] .
  show "n \<noteq> 0 \<longrightarrow> n \<in> set vs" using suf by (cases vs) auto
  have pu: "p \<noteq> 0 \<longleftrightarrow> us \<noteq> []" using p nz by (cases us rule: rev_cases) auto
  have pin: "us \<noteq> [] \<longrightarrow> p \<in> set us" using p by simp
  have nu: "set us \<inter> set vs = {}" using d by simp
  have alp: "aligned64 p" if "us \<noteq> []" using that p al by auto
  have aln: "aligned64 n" if "vs \<noteq> []" using that suf al by (cases vs) auto
  have suf2: "dlseg m2 p n vs 0"
  proof (cases vs)
    case Nil then show ?thesis using suf by simp
  next
    case (Cons v ws)
    have notin: "p \<notin> set vs" if "p \<noteq> 0" using that pu pin nu by auto
    have nv: "n = v" using suf Cons by simp
    have off: "m2 (x + 24) = m (x + 24) \<and> (x \<noteq> v \<longrightarrow> m2 (x + 16) = m (x + 16))" if "x \<in> set vs" for x
      using that notin al [of x] alp aln pu nv Cons
      by (auto simp: m2_def m1_def srpc_addr split: if_splits)
    have "dlseg m2 v (m (v + 24)) ws 0 = dlseg m v (m (v + 24)) ws 0"
      by (rule dlseg_cong) (use Cons d off in auto)
    moreover have "m2 (v + 24) = m (v + 24)" using off Cons by simp
    ultimately show ?thesis using Cons suf n0 by (auto simp: m2_def)
  qed
  show "dlseg m2 0 (if p = 0 then n else h) (us @ vs) 0"
  proof (cases us rule: rev_cases)
    case Nil
    then show ?thesis using suf2 p by simp
  next
    case (snoc ts u)
    then have u: "p = u" "u \<noteq> 0" using p nz by auto
    from pre snoc j obtain i where ts: "dlseg m 0 h ts i" "i = u" "m (u + 16) = last (0 # ts)"
      by (auto simp: dlseg_append)
    have "dlseg m2 0 h ts u = dlseg m 0 h ts u"
      by (rule dlseg_cong)
         (use snoc d al alp aln suf u n0 \<open>n \<noteq> 0 \<longrightarrow> n \<in> set vs\<close> in
           \<open>auto simp: m2_def m1_def srpc_addr split: if_splits\<close>)
    moreover have "m2 (u + 16) = m (u + 16)" "m2 (u + 24) = n"
      using snoc d al alp aln u n0 \<open>n \<noteq> 0 \<longrightarrow> n \<in> set vs\<close>
      by (auto simp: m2_def m1_def srpc_addr split: if_splits)
    ultimately have "dlseg m2 0 h (ts @ [u]) n" using ts u by (auto simp: dlseg_append)
    then have "dlseg m2 0 h (us @ vs) 0"
      using suf2 u snoc by (subst dlseg_append) auto
    then show ?thesis using u by simp
  qed
qed

section \<open>The invariant of the lists and bitmaps\<close>

definition flist :: "tlsf_ctrl \<Rightarrow> (nat \<Rightarrow> nat \<Rightarrow> u64 list) \<Rightarrow> bool" where
  "flist c L \<longleftrightarrow>
     (\<forall>fl sl. dlseg (mem c) 0 (matrix c fl sl) (L fl sl) 0) \<and>
     (\<forall>fl sl. \<forall>b \<in> set (L fl sl). aligned64 b \<and> mapping_search (block_size c b) = (fl, sl)) \<and>
     (\<forall>fl sl. bit (sl_bitmaps c fl) sl \<longleftrightarrow> L fl sl \<noteq> []) \<and>
     (\<forall>fl. bit (fl_bitmap c) fl \<longleftrightarrow> sl_bitmaps c fl \<noteq> 0)"

definition listed :: "(nat \<Rightarrow> nat \<Rightarrow> u64 list) \<Rightarrow> u64 set" where
  "listed L = {b. \<exists>fl sl. b \<in> set (L fl sl)}"

definition flok :: "tlsf_ctrl \<Rightarrow> u64 set \<Rightarrow> bool" where
  "flok c F \<longleftrightarrow> (\<exists>L. flist c L \<and> F = listed L)"

lemma flistD:
  assumes "flist c L"
  shows "dlseg (mem c) 0 (matrix c fl sl) (L fl sl) 0"
    and "b \<in> set (L fl sl) \<Longrightarrow> aligned64 b"
    and "b \<in> set (L fl sl) \<Longrightarrow> mapping_search (block_size c b) = (fl, sl)"
    and "bit (sl_bitmaps c fl) sl \<longleftrightarrow> L fl sl \<noteq> []"
    and "bit (fl_bitmap c) fl \<longleftrightarrow> sl_bitmaps c fl \<noteq> 0"
  using assms by (auto simp: flist_def)

lemma flok_cong:
  assumes "flok c F" "matrix c' = matrix c" "fl_bitmap c' = fl_bitmap c" "sl_bitmaps c' = sl_bitmaps c"
    "\<And>b. b \<in> F \<Longrightarrow> block_size c' b = block_size c b \<and> prev_free c' b = prev_free c b \<and>
           next_free c' b = next_free c b"
  shows "flok c' F"
proof -
  from assms(1) obtain L where L: "flist c L" "F = listed L" by (auto simp: flok_def)
  have same: "block_size c' b = block_size c b \<and> prev_free c' b = prev_free c b \<and>
      next_free c' b = next_free c b" if "b \<in> set (L fl sl)" for b fl sl
    using assms(5) [of b] L(2) that by (auto simp: listed_def)
  have "dlseg (mem c') 0 (matrix c fl sl) (L fl sl) 0" for fl sl
    using flistD(1) [OF L(1), of fl sl] dlseg_cong [of "L fl sl" "mem c'" "mem c"] same by blast
  then have "flist c' L" using L(1) assms(2-4) same by (simp add: flist_def)
  with L(2) show ?thesis by (auto simp: flok_def)
qed

lemma flok_member:
  assumes "flok c F" "b \<in> F" shows "aligned64 b" and "b \<noteq> 0"
  using assms dlseg_nonzero by (fastforce simp: flok_def listed_def flist_def)+

lemma flok_empty:
  assumes "\<And>fl sl. matrix c fl sl = 0" "fl_bitmap c = 0" "\<And>fl. sl_bitmaps c fl = 0"
  shows "flok c {}"
  unfolding flok_def flist_def listed_def
  by (rule exI [of _ "\<lambda>_ _. []"]) (use assms in simp)

lemma bit_single: "bit (2 ^ n :: u64) i \<longleftrightarrow> n < 64 \<and> i = n"
  by (subst bit_exp_iff) auto

lemma bit_upper: "bit (push_bit n (NOT 0) :: u64) i \<longleftrightarrow> n \<le> i \<and> i < 64"
  by (auto simp: bit_mask_iff bit_not_iff)

lemma bit_clear:
  assumes "n < 64" shows "bit ((w :: u64) AND NOT (2 ^ n)) i \<longleftrightarrow> bit w i \<and> i \<noteq> n"
  using assms by (auto simp: bit_and_iff bit_not_iff bit_single dest: bit_lt_64)

lemma bit_set:
  assumes "n < 64" shows "bit ((w :: u64) OR 2 ^ n) i \<longleftrightarrow> bit w i \<or> i = n"
  using assms by (auto simp: bit_or_iff bit_single)

text \<open>Removal. \<open>only_links c c' F\<close>: the memory differs at most in the link words of \<open>F\<close>.\<close>

definition only_links :: "tlsf_ctrl \<Rightarrow> tlsf_ctrl \<Rightarrow> u64 set \<Rightarrow> bool" where
  "only_links c c' F \<longleftrightarrow> (\<forall>a. mem c' a = mem c a \<or> (\<exists>x \<in> F. a = x + 16 \<or> a = x + 24))"

lemma only_links_other:
  assumes "only_links c c' F" "\<And>x. x \<in> F \<Longrightarrow> aligned64 x" "aligned64 b" "y < 64" "y \<noteq> 16" "y \<noteq> 24"
  shows "mem c' (b + y) = mem c (b + y)"
proof -
  have "b + y \<noteq> x + 16 \<and> b + y \<noteq> x + 24" if "x \<in> F" for x
    using assms(2) [OF that] assms(3-6) by (simp add: aligned_offset_eq)
  with assms(1) show ?thesis unfolding only_links_def by metis
qed

lemma only_links_outside:
  assumes "only_links c c' F" "\<And>x. x \<in> F \<Longrightarrow> aligned64 x" "aligned64 b" "b \<notin> F" "y < 64"
  shows "mem c' (b + y) = mem c (b + y)"
proof -
  have "b + y \<noteq> x + 16 \<and> b + y \<noteq> x + 24" if "x \<in> F" for x
    using assms(2) [OF that] assms(3-5) that by (auto simp: aligned_offset_eq)
  with assms(1) show ?thesis unfolding only_links_def by metis
qed

lemma flist_class_lt: "flist c L \<Longrightarrow> L fl sl \<noteq> [] \<Longrightarrow> fl < 64 \<and> sl < 64"
proof -
  assume L: "flist c L" "L fl sl \<noteq> []"
  then have sl: "bit (sl_bitmaps c fl) sl" using flistD(4) [of c L fl sl] by simp
  then have "sl_bitmaps c fl \<noteq> 0" by auto
  with L(1) have "bit (fl_bitmap c) fl" using flistD(5) [of c L fl] by simp
  with sl show ?thesis by (simp add: bit_lt_64)
qed

lemma unlink_block_eq:
  assumes "aligned64 b" "aligned64 (prev_free c b)" "prev_free c b \<noteq> b"
  defines "p \<equiv> prev_free c b" and "n \<equiv> next_free c b"
  defines "m1 \<equiv> (if p \<noteq> 0 then (mem c)(p + 24 := n) else mem c)"
  shows "mem (unlink_block b fl sl c) = (if n \<noteq> 0 then m1(n + 16 := p) else m1)"
    and "matrix (unlink_block b fl sl c) =
      (matrix c)(fl := (matrix c fl)(sl := if p = 0 then n else matrix c fl sl))"
    and "fl_bitmap (unlink_block b fl sl c) = fl_bitmap c"
    and "sl_bitmaps (unlink_block b fl sl c) = sl_bitmaps c"
  using assms(1-3) unfolding p_def n_def m1_def
  by (auto simp: unlink_block_def set_matrix_def Let_def srpc_addr)

lemma clear_bits_simps [simp]:
  "mem (clear_bits fl sl c) = mem c" "matrix (clear_bits fl sl c) = matrix c"
  "sl_bitmaps (clear_bits fl sl c) =
     (sl_bitmaps c)(fl := sl_bitmaps c fl AND NOT (push_bit sl 1))"
  "fl_bitmap (clear_bits fl sl c) = (if sl_bitmaps c fl AND NOT (push_bit sl 1) = 0
     then fl_bitmap c AND NOT (push_bit fl 1) else fl_bitmap c)"
  by (simp_all add: clear_bits_def set_sl_bitmap_def Let_def)

lemma remove_lists:
  assumes fo: "flist c L" and L: "L fl sl = us @ b # vs"
  defines "c' \<equiv> remove_from_free_list b fl sl c"
  defines "L' \<equiv> L(fl := (L fl)(sl := us @ vs))"
  shows "only_links c c' (set us \<union> set vs)"
    and "\<And>fl' sl'. dlseg (mem c') 0 (matrix c' fl' sl') (L' fl' sl') 0"
    and "matrix c' fl sl = 0 \<longleftrightarrow> us @ vs = []"
    and "sl_bitmaps c' = (if us @ vs = [] then
        (sl_bitmaps c)(fl := sl_bitmaps c fl AND NOT (push_bit sl 1)) else sl_bitmaps c)"
    and "fl_bitmap c' = (if us @ vs = [] \<and> sl_bitmaps c' fl = 0 then
        fl_bitmap c AND NOT (push_bit fl 1) else fl_bitmap c)"
proof -
  have dl: "dlseg (mem c) 0 (matrix c fl sl) (us @ b # vs) 0" using flistD(1) [OF fo, of fl sl] L by simp
  have al: "aligned64 x" if "x \<in> set (us @ b # vs)" for x using flistD(2) [OF fo, of x fl sl] that L by simp
  have d: "distinct (us @ b # vs)" and nz: "0 \<notin> set (us @ b # vs)"
    using dlseg_distinct [OF dl] dlseg_nonzero [OF dl] by auto
  note un = dlseg_unlink [OF dl al]
  have pin: "prev_free c b \<noteq> 0 \<Longrightarrow> prev_free c b \<in> set us"
    using un(2) by (cases us rule: rev_cases) auto
  have p: "aligned64 (prev_free c b)" "prev_free c b \<noteq> b"
    using pin al d nz by (cases "prev_free c b = 0", auto)+
  define u where "u = unlink_block b fl sl c"
  note ueq = unlink_block_eq [OF al p, of fl sl, folded u_def, simplified]
  have mem': "mem c' = mem u" and mat': "matrix c' = matrix u"
    by (simp_all add: c'_def remove_from_free_list_def Let_def u_def)
  have hd': "dlseg (mem c') 0 (matrix c' fl sl) (us @ vs) 0"
    using un(1) by (simp add: mem' mat' ueq)
  show ol: "only_links c c' (set us \<union> set vs)"
    unfolding only_links_def mem' ueq using pin un(4) by auto
  show "matrix c' fl sl = 0 \<longleftrightarrow> us @ vs = []" using dlseg_hd [OF hd'] .
  then have m0: "matrix u fl sl = 0 \<longleftrightarrow> us @ vs = []" by (simp add: mat')
  show sb: "sl_bitmaps c' = (if us @ vs = [] then
      (sl_bitmaps c)(fl := sl_bitmaps c fl AND NOT (push_bit sl 1)) else sl_bitmaps c)"
    using m0 by (simp add: c'_def remove_from_free_list_def Let_def ueq flip: u_def)
  show "fl_bitmap c' = (if us @ vs = [] \<and> sl_bitmaps c' fl = 0 then
      fl_bitmap c AND NOT (push_bit fl 1) else fl_bitmap c)"
    unfolding sb using m0 by (auto simp: c'_def remove_from_free_list_def Let_def ueq simp flip: u_def)
  fix fl' sl'
  show "dlseg (mem c') 0 (matrix c' fl' sl') (L' fl' sl') 0"
  proof (cases "fl' = fl \<and> sl' = sl")
    case True
    then show ?thesis using hd' by (simp add: L'_def)
  next
    case False
    have "mem c' (x + 16) = mem c (x + 16) \<and> mem c' (x + 24) = mem c (x + 24)"
      if "x \<in> set (L fl' sl')" for x
    proof -
      have "x \<notin> set (L fl sl)"
        using flistD(3) [OF fo that] flistD(3) [OF fo, of x fl sl] False by auto
      then have "x \<notin> set us \<union> set vs" using L by auto
      with only_links_outside [OF ol _ flistD(2) [OF fo that]] al show ?thesis by simp
    qed
    then have "dlseg (mem c') 0 (matrix c fl' sl') (L fl' sl') 0"
      using flistD(1) [OF fo] dlseg_cong by blast
    moreover have "matrix c' fl' sl' = matrix c fl' sl'" "L' fl' sl' = L fl' sl'"
      using False by (auto simp: mat' ueq L'_def)
    ultimately show ?thesis by simp
  qed
qed

lemma remove_ok:
  assumes "flok c F" "b \<in> F" "mapping_search (block_size c b) = (fl, sl)"
  defines "c' \<equiv> remove_from_free_list b fl sl c"
  shows "flok c' (F - {b})" and "only_links c c' (F - {b})"
proof -
  from assms(1) obtain L where fo: "flist c L" and F: "F = listed L" by (auto simp: flok_def)
  from assms(2) obtain f s where bfs: "b \<in> set (L f s)" using F by (auto simp: listed_def)
  then have "b \<in> set (L fl sl)" using flistD(3) [OF fo bfs] assms(3) by simp
  then obtain us vs where L: "L fl sl = us @ b # vs" by (auto simp: in_set_conv_decomp)
  define L' where "L' = L(fl := (L fl)(sl := us @ vs))"
  note r = remove_lists [OF fo L, folded c'_def L'_def]
  have dl: "dlseg (mem c) 0 (matrix c fl sl) (us @ b # vs) 0" using flistD(1) [OF fo, of fl sl] L by simp
  have d: "distinct (us @ b # vs)" using dlseg_distinct [OF dl] dlseg_nonzero [OF dl] by auto
  have lt: "fl < 64" "sl < 64" using flist_class_lt [OF fo, of fl sl] L by auto
  have "set (L' f s) = set (L f s) - {b}" for f s
  proof (cases "f = fl \<and> s = sl")
    case True
    then show ?thesis using d L by (auto simp: L'_def)
  next
    case False
    then have "b \<notin> set (L f s)" using flistD(3) [OF fo, of b f s] assms(3) by auto
    with False show ?thesis by (auto simp: L'_def)
  qed
  then have listed: "listed L' = F - {b}" by (auto simp: F listed_def)
  show ol: "only_links c c' (F - {b})"
  proof -
    have "set us \<union> set vs \<subseteq> set (L fl sl) - {b}" using d L by auto
    then have "set us \<union> set vs \<subseteq> F - {b}" unfolding F listed_def by blast
    with r(1) show ?thesis unfolding only_links_def by blast
  qed
  have mem: "aligned64 x \<and> mapping_search (block_size c' x) = (f, s)" if "x \<in> set (L' f s)" for x f s
  proof -
    have x: "x \<in> set (L f s)" using that L by (auto simp: L'_def split: if_splits)
    have "aligned64 y" if "y \<in> F - {b}" for y using that flok_member [OF assms(1)] by simp
    with only_links_other [OF ol, of x 0] flistD(2) [OF fo x]
    have "block_size c' x = block_size c x" by (simp add: block_size_def)
    with flistD(2,3) [OF fo x] show ?thesis by simp
  qed
  have bits: "bit (sl_bitmaps c' f) s \<longleftrightarrow> L' f s \<noteq> []" for f s
    unfolding r(4) L'_def using flistD(4) [OF fo, of f s] lt L by (auto simp: bit_clear)
  have flb: "bit (fl_bitmap c') f \<longleftrightarrow> sl_bitmaps c' f \<noteq> 0" for f
    unfolding r(5) using flistD(5) [OF fo, of f] flistD(4) [OF fo, of fl sl] lt L
    by (auto simp: bit_clear r(4))
  have "flist c' L'" unfolding flist_def using r(2) mem bits flb by simp
  with listed show "flok c' (F - {b})" unfolding flok_def by (metis (no_types))
qed

section \<open>Insertion\<close>

lemma insert_fields:
  fixes c b fl sl
  defines "c' \<equiv> insert_into_free_list b fl sl c" and "h \<equiv> matrix c fl sl"
  defines "m \<equiv> (mem c)(b + 16 := 0, b + 24 := h)"
  shows "mem c' = (if h \<noteq> 0 then m(h + 16 := b) else m)"
    and "matrix c' = (matrix c)(fl := (matrix c fl)(sl := b))"
    and "sl_bitmaps c' = (sl_bitmaps c)(fl := sl_bitmaps c fl OR push_bit sl 1)"
    and "fl_bitmap c' = fl_bitmap c OR push_bit fl 1"
  unfolding c'_def h_def m_def by (auto simp: insert_into_free_list_def set_matrix_def set_sl_bitmap_def Let_def)

lemma insert_dlseg:
  assumes dl: "dlseg m 0 h xs 0" and al: "\<And>x. x \<in> set xs \<Longrightarrow> aligned64 x"
    and b: "aligned64 b" "b \<noteq> 0" "b \<notin> set xs"
  defines "m1 \<equiv> m(b + 16 := 0, b + 24 := h)"
  defines "m2 \<equiv> (if h \<noteq> 0 then m1(h + 16 := b) else m1)"
  shows "dlseg m2 0 b (b # xs) 0"
proof (cases xs)
  case Nil
  then show ?thesis using dl b by (auto simp: m2_def m1_def)
next
  case (Cons x ys)
  then have h: "h = x" "h \<noteq> 0" "aligned64 h" "h \<noteq> b" and tl: "dlseg m x (m (x + 24)) ys 0"
    using dl al b by auto
  have d: "x \<notin> set ys" using dlseg_distinct [OF dl] dlseg_nonzero [OF dl] Cons by auto
  have m2: "m2 = m1(x + 16 := b)" using h by (simp add: m2_def)
  have off: "m2 (y + 24) = m (y + 24) \<and> (y \<noteq> x \<longrightarrow> m2 (y + 16) = m (y + 16))" if "y \<in> set xs" for y
    using that b h al [OF that] by (auto simp: m2 m1_def srpc_addr)
  have "dlseg m2 x (m2 (x + 24)) ys 0"
    using tl off [of x] dlseg_cong [of ys m2 m] off d Cons by auto
  moreover have "m2 (b + 16) = 0" "m2 (b + 24) = x" "m2 (x + 16) = b"
    using b h by (auto simp: m2 m1_def srpc_addr)
  ultimately show ?thesis using Cons h b by simp
qed

lemma insert_ok:
  assumes "flok c F" "b \<notin> F" "aligned64 b" "b \<noteq> 0"
    and cls: "mapping_search (block_size c b) = (fl, sl)" and lt: "fl < 64" "sl < 64"
  defines "c' \<equiv> insert_into_free_list b fl sl c"
  shows "flok c' (insert b F)" and "only_links c c' (insert b F)"
proof -
  from assms(1) obtain L where fo: "flist c L" and F: "F = listed L" by (auto simp: flok_def)
  define L' where "L' = L(fl := (L fl)(sl := b # L fl sl))"
  note f = insert_fields [of b fl sl c, folded c'_def]
  have dl: "dlseg (mem c) 0 (matrix c fl sl) (L fl sl) 0" by (rule flistD(1) [OF fo])
  have nb: "b \<notin> set (L f s)" for f s using assms(2) F by (auto simp: listed_def)
  have listed: "listed L' = insert b F" by (auto simp: F listed_def L'_def split: if_splits)
  have hin: "matrix c fl sl \<noteq> 0 \<Longrightarrow> matrix c fl sl \<in> set (L fl sl)" using dl by (cases "L fl sl") auto
  have "matrix c fl sl \<noteq> 0 \<Longrightarrow> matrix c fl sl \<in> F" using hin by (auto simp: F listed_def)
  then show ol: "only_links c c' (insert b F)" unfolding only_links_def f by auto
  have al: "aligned64 x" if "x \<in> insert b F" for x using that assms(3) flok_member [OF assms(1)] by auto
  have bs: "block_size c' x = block_size c x" if "aligned64 x" for x
    using only_links_other [OF ol al that, of 0] by (simp add: block_size_def)
  have mem: "aligned64 x \<and> mapping_search (block_size c' x) = (g, s)" if "x \<in> set (L' g s)" for x g s
    using that flistD(2,3) [OF fo, of x g s] bs [of x] cls assms(3)
    by (auto simp: L'_def split: if_splits dest: flistD(2,3) [OF fo])
  have seg: "dlseg (mem c') 0 (matrix c' g s) (L' g s) 0" for g s
  proof (cases "g = fl \<and> s = sl")
    case True
    have "dlseg (mem c') 0 b (b # L fl sl) 0"
      unfolding f(1) by (rule insert_dlseg [OF dl flistD(2) [OF fo] assms(3,4) nb])
    with True show ?thesis by (simp add: f(2) L'_def)
  next
    case False
    have "mem c' (x + 16) = mem c (x + 16) \<and> mem c' (x + 24) = mem c (x + 24)"
      if x: "x \<in> set (L g s)" for x
    proof -
      have ax: "aligned64 x" "x \<noteq> b" using flistD(2) [OF fo x] nb x by auto
      have "x \<noteq> matrix c fl sl" if "matrix c fl sl \<noteq> 0"
        using hin [OF that] flistD(3) [OF fo x] flistD(3) [OF fo, of x fl sl] False by auto
      moreover have "aligned64 (matrix c fl sl)" if "matrix c fl sl \<noteq> 0"
        using hin [OF that] flistD(2) [OF fo] by blast
      ultimately show ?thesis unfolding f(1) using ax assms(3) by (auto simp: srpc_addr)
    qed
    then have "dlseg (mem c') 0 (matrix c g s) (L g s) 0"
      using flistD(1) [OF fo] dlseg_cong by blast
    with False show ?thesis by (auto simp: f(2) L'_def)
  qed
  have "sl_bitmaps c' fl \<noteq> 0" using lt(2) bit_set [of sl "sl_bitmaps c fl" sl] f(3) by auto
  then have flb: "bit (fl_bitmap c') g \<longleftrightarrow> sl_bitmaps c' g \<noteq> 0" for g
    unfolding f(4) using flistD(5) [OF fo, of g] lt(1) by (auto simp: bit_set f(3))
  have "bit (sl_bitmaps c' g) s \<longleftrightarrow> L' g s \<noteq> []" for g s
    unfolding f(3) L'_def using flistD(4) [OF fo, of g s] lt(2) by (auto simp: bit_set)
  with seg mem flb have "flist c' L'" unfolding flist_def by simp
  with listed show "flok c' (insert b F)" unfolding flok_def by (metis (no_types))
qed

section \<open>Search\<close>

text \<open>\<open>class_le\<close> orders the classes as the search walks them: first level, then second.\<close>

definition class_le :: "nat \<times> nat \<Rightarrow> nat \<times> nat \<Rightarrow> bool" where
  "class_le p q \<longleftrightarrow> fst p < fst q \<or> fst p = fst q \<and> snd p \<le> snd q"

lemma flok_class:
  assumes "flist c L" "b \<in> listed L" "mapping_search (block_size c b) = (f, s)"
  shows "L f s \<noteq> []" "bit (sl_bitmaps c f) s" "bit (fl_bitmap c) f"
proof -
  from assms(2) obtain f' s' where "b \<in> set (L f' s')" by (auto simp: listed_def)
  with assms(1,3) have "b \<in> set (L f s)" using flistD(3) by force
  then show ne: "L f s \<noteq> []" by auto
  then show "bit (sl_bitmaps c f) s" using flistD(4) [OF assms(1)] by simp
  then have "sl_bitmaps c f \<noteq> 0" by auto
  then show "bit (fl_bitmap c) f" using flistD(5) [OF assms(1)] by simp
qed

lemma flist_head:
  assumes "flist c L" "bit (sl_bitmaps c f) s"
  shows "matrix c f s \<in> listed L" "matrix c f s \<noteq> 0"
    "mapping_search (block_size c (matrix c f s)) = (f, s)"
proof -
  have "L f s \<noteq> []" using flistD(4) assms by auto
  with flistD(1) [OF assms(1), of f s] have "matrix c f s \<in> set (L f s)" "matrix c f s \<noteq> 0"
    by (cases "L f s"; simp)+
  then show "matrix c f s \<in> listed L" "matrix c f s \<noteq> 0"
    "mapping_search (block_size c (matrix c f s)) = (f, s)"
    using flistD(3) [OF assms(1)] by (auto simp: listed_def)
qed

lemma find_ok:
  fixes fl sl
  assumes "flok c F"
  defines "r \<equiv> find_suitable_block fl sl c"
  shows "(r = 0 \<and> (\<forall>b \<in> F. \<not> class_le (fl, sl) (mapping_search (block_size c b)))) \<or>
    (r \<in> F \<and> class_le (fl, sl) (mapping_search (block_size c r)) \<and>
      (\<forall>b \<in> F. class_le (fl, sl) (mapping_search (block_size c b)) \<longrightarrow>
         class_le (mapping_search (block_size c r)) (mapping_search (block_size c b))))"
proof -
  from assms(1) obtain L where fo: "flist c L" and F: "F = listed L" by (auto simp: flok_def)
  define ms where "ms = sl_bitmaps c fl AND push_bit sl (NOT 0)"
  define mf where "mf = fl_bitmap c AND push_bit (fl + 1) (NOT 0)"
  have bms: "bit ms i \<longleftrightarrow> bit (sl_bitmaps c fl) i \<and> sl \<le> i" for i
    unfolding ms_def bit_and_iff bit_upper by (auto dest: bit_lt_64)
  have bmf: "bit mf i \<longleftrightarrow> bit (fl_bitmap c) i \<and> fl < i" for i
    unfolding mf_def bit_and_iff bit_upper by (auto dest: bit_lt_64)
  have cls: "bit (sl_bitmaps c f) s \<and> bit (fl_bitmap c) f"
    if "b \<in> F" "mapping_search (block_size c b) = (f, s)" for b f s
    using flok_class [OF fo] that F by auto
  consider (same) "ms \<noteq> 0" | (up) "ms = 0" "mf \<noteq> 0" | (none) "ms = 0" "mf = 0" by blast
  then show ?thesis
  proof cases
    case same
    define k where "k = ctzll ms"
    note k = ctzll_props [OF same, folded k_def]
    have r: "r = matrix c fl k" using same by (simp add: r_def find_suitable_block_def k_def ms_def Let_def)
    have kb: "bit (sl_bitmaps c fl) k" "sl \<le> k" using k(2) bms by auto
    note hd = flist_head [OF fo kb(1), folded r]
    have "class_le (fl, k) (mapping_search (block_size c b))"
      if "b \<in> F" "class_le (fl, sl) (mapping_search (block_size c b))" for b
      using that cls [of b] k(3) bms
      by (cases "mapping_search (block_size c b)") (auto simp: class_le_def not_less [symmetric])
    with hd kb F show ?thesis by (auto simp: class_le_def)
  next
    case up
    define f where "f = ctzll mf"
    define s where "s = ctzll (sl_bitmaps c f)"
    note kf = ctzll_props [OF up(2), folded f_def]
    have fb: "bit (fl_bitmap c) f" "fl < f" using kf(2) bmf by auto
    then have "sl_bitmaps c f \<noteq> 0" using flistD(5) [OF fo] by simp
    note ks = ctzll_props [OF this, folded s_def]
    have r: "r = matrix c f s"
      using up by (simp add: r_def find_suitable_block_def ms_def mf_def f_def s_def Let_def)
    note hd = flist_head [OF fo ks(2), folded r]
    have "class_le (f, s) (mapping_search (block_size c b))"
      if b: "b \<in> F" "class_le (fl, sl) (mapping_search (block_size c b))" for b
    proof -
      obtain g t where gt: "mapping_search (block_size c b) = (g, t)" by force
      with cls b(1) have bt: "bit (sl_bitmaps c g) t" "bit (fl_bitmap c) g" by auto
      have "g \<noteq> fl \<or> t < sl" using up(1) bms [of t] bt by (auto simp: not_le)
      with b(2) gt have "fl < g" by (auto simp: class_le_def)
      then have "f \<le> g" using kf(3) [of g] bmf bt by (auto simp: not_less [symmetric])
      moreover have "s \<le> t" if "g = f" using that ks(3) [of t] bt by (auto simp: not_less [symmetric])
      ultimately show ?thesis using gt by (auto simp: class_le_def)
    qed
    with hd fb F show ?thesis by (auto simp: class_le_def)
  next
    case none
    then have "r = 0" by (simp add: r_def find_suitable_block_def ms_def mf_def Let_def)
    moreover have "\<not> class_le (fl, sl) (mapping_search (block_size c b))" if "b \<in> F" for b
      using that cls [of b] none bms bmf
      by (cases "mapping_search (block_size c b)") (auto simp: class_le_def)
    ultimately show ?thesis by blast
  qed
qed

end
