(* ===== verification/Tlsf_Bul.thy ===== *)
theory Tlsf_Bul
  imports Tlsf_Types
begin

text \<open>
  The binary undo log and the mutex entry points of the allocator
  (\<^verbatim>\<open>libs/tlsf_txn/tlsf_txn.c\<close>: \<^verbatim>\<open>bul_push\<close> to \<^verbatim>\<open>bul_commit\<close>, \<^verbatim>\<open>bul_recover_internal\<close>,
  \<^verbatim>\<open>lock_and_recover\<close>, \<^verbatim>\<open>tlsf_lock\<close>, \<^verbatim>\<open>tlsf_unlock\<close>, \<^verbatim>\<open>tlsf_bul_recover\<close>,
  \<^verbatim>\<open>tlsf_bul_recover_nb\<close>). The theorems say exactly which words a recovery restores: for a run
  of logged and unlogged stores, every logged word returns to its value before its first
  logged store, and every other word keeps what was last stored.
\<close>

text \<open>The thread that executes an operation: its identity for the mutex and its \<^verbatim>\<open>getpid()\<close>.
  An exported operation takes the handle \<open>tlsf\<close> beside the state \<open>c\<close> behind it (the control
  block, the pool and the calling thread's \<^verbatim>\<open>tlsf_errno\<close>), so that its null checks are
  branches of the model.\<close>

record caller =
  caller_tid :: nat
  caller_pid :: nat

section \<open>The log\<close>

definition validate_pointer :: "u64 \<Rightarrow> tlsf_ctrl \<Rightarrow> bool" where
  "validate_pointer p c \<longleftrightarrow> pool_start c \<le> p \<and> p < pool_start c + pool_size c"

definition validate_control_integrity :: "tlsf_ctrl \<Rightarrow> bool" where
  "validate_control_integrity c = True"

fun bul_undo :: "nat \<Rightarrow> tlsf_ctrl \<Rightarrow> bool \<times> tlsf_ctrl" where
  "bul_undo 0 c = (True, c)"
| "bul_undo (Suc n) c =
     (if \<not> validate_pointer (bul_addr (bul c n)) c then (False, c)
      else bul_undo n (store_word (bul_addr (bul c n)) (bul_old_value (bul c n)) c))"

definition bul_recover_internal :: "tlsf_ctrl \<Rightarrow> bool \<times> tlsf_ctrl" where
  "bul_recover_internal c =
     (let top = stack_top c in
      if top = 0 then (True, c)
      else if top \<ge> MAX_BUL_ENTRIES then (False, c)
      else case bul_undo (unat top) c of
        (ok, c1) \<Rightarrow> if \<not> ok then (False, c1)
                    else (validate_control_integrity c1, c1\<lparr>stack_top := 0\<rparr>))"

definition bul_push :: "u64 \<Rightarrow> u64 \<Rightarrow> tlsf_ctrl \<Rightarrow> bool \<times> tlsf_ctrl" where
  "bul_push addr old_value c =
     (let top = stack_top c in
      if top \<ge> MAX_BUL_ENTRIES then
        (False, set_errno TLSF_ERR_BUL_OVERFLOW (snd (bul_recover_internal c)))
      else (True, c\<lparr>bul := (bul c)(unat top := \<lparr>bul_addr = addr, bul_old_value = old_value\<rparr>),
                    stack_top := top + 1\<rparr>))"

definition bul_push_word :: "u64 \<Rightarrow> tlsf_ctrl \<Rightarrow> bool \<times> tlsf_ctrl" where
  "bul_push_word addr c = bul_push addr (load_word addr c) c"

definition bul_push_uid_word :: "u64 \<Rightarrow> nat \<Rightarrow> tlsf_ctrl \<Rightarrow> bool \<times> tlsf_ctrl" where
  "bul_push_uid_word block uid_index c = bul_push_word (uid_word_addr block uid_index) c"

definition bul_commit :: "tlsf_ctrl \<Rightarrow> tlsf_ctrl" where
  "bul_commit c = c\<lparr>stack_top := 0, txn_epoch := txn_epoch c + 1\<rparr>"

definition tlsf_get_bul_capacity :: "u64 \<Rightarrow> u64" where
  "tlsf_get_bul_capacity tlsf = ucast MAX_BUL_ENTRIES"

definition tlsf_get_bul_current_usage :: "u64 \<Rightarrow> tlsf_ctrl \<Rightarrow> u64" where
  "tlsf_get_bul_current_usage tlsf c = (if tlsf = 0 then 0 else ucast (stack_top c))"

section \<open>Taking and releasing the mutex\<close>

definition mutex_unlock :: "caller \<Rightarrow> tlsf_ctrl \<Rightarrow> tlsf_ctrl" where
  "mutex_unlock w c = c\<lparr>mutex := snd (pthread_mutex_unlock (caller_tid w) (mutex c))\<rparr>"

definition mutex_consistent :: "tlsf_ctrl \<Rightarrow> int \<times> tlsf_ctrl" where
  "mutex_consistent c =
     (case pthread_mutex_consistent (mutex c) of (rc, m) \<Rightarrow> (rc, c\<lparr>mutex := m\<rparr>))"

definition lock_result :: "caller \<Rightarrow> int \<Rightarrow> tlsf_ctrl \<Rightarrow> int \<times> tlsf_ctrl" where
  "lock_result w rc c =
     (if rc \<noteq> 0 then (TLSF_ERR_LOCK_FAILED, set_errno TLSF_ERR_LOCK_FAILED c)
      else (TLSF_OK, set_errno TLSF_OK (c\<lparr>owner_pid := caller_pid w\<rparr>)))"

definition lock_and_recover :: "caller \<Rightarrow> tlsf_ctrl \<Rightarrow> (int \<times> tlsf_ctrl) option" where
  "lock_and_recover w c =
     (if format_version c \<noteq> TLSF_FORMAT_VERSION then
        Some (TLSF_ERR_FORMAT_MISMATCH, set_errno TLSF_ERR_FORMAT_MISMATCH c)
      else case pthread_mutex_lock (caller_tid w) (mutex c) of
        None \<Rightarrow> None
      | Some (rc, m) \<Rightarrow>
          let c1 = c\<lparr>mutex := m\<rparr> in
          if rc = EOWNERDEAD then
            (case bul_recover_internal c1 of (ok, c2) \<Rightarrow>
               if \<not> ok then
                 Some (TLSF_ERR_CORRUPTION_UNRECOVERABLE,
                       set_errno TLSF_ERR_CORRUPTION_UNRECOVERABLE (mutex_unlock w c2))
               else (case mutex_consistent c2 of (rc2, c3) \<Rightarrow> Some (lock_result w rc2 c3)))
          else Some (lock_result w rc c1))"

definition tlsf_lock :: "caller \<Rightarrow> u64 \<Rightarrow> tlsf_ctrl \<Rightarrow> (int \<times> tlsf_ctrl) option" where
  "tlsf_lock w tlsf c =
     (if tlsf = 0 then Some (- TLSF_ERR_INVALID_PTR, c)
      else if format_version c \<noteq> TLSF_FORMAT_VERSION then Some (- TLSF_ERR_FORMAT_MISMATCH, c)
      else case pthread_mutex_lock (caller_tid w) (mutex c) of
        None \<Rightarrow> None
      | Some (rc, m) \<Rightarrow>
          let c1 = c\<lparr>mutex := m\<rparr> in
          if rc = EOWNERDEAD then
            (case bul_recover_internal c1 of (ok, c2) \<Rightarrow>
               if \<not> ok then
                 Some (- TLSF_ERR_CORRUPTION_UNRECOVERABLE,
                       set_errno TLSF_ERR_CORRUPTION_UNRECOVERABLE (mutex_unlock w c2))
               else (case mutex_consistent c2 of (rc2, c3) \<Rightarrow>
                       (case lock_result w rc2 c3 of (e, c4) \<Rightarrow> Some (- e, c4))))
          else (case lock_result w rc c1 of (e, c4) \<Rightarrow> Some (- e, c4)))"

definition tlsf_unlock :: "caller \<Rightarrow> u64 \<Rightarrow> tlsf_ctrl \<Rightarrow> int \<times> tlsf_ctrl" where
  "tlsf_unlock w tlsf c =
     (if tlsf = 0 then (- TLSF_ERR_INVALID_PTR, c)
      else case pthread_mutex_unlock (caller_tid w) (mutex c) of (rc, m) \<Rightarrow>
        (if rc \<noteq> 0 then - TLSF_ERR_LOCK_FAILED else 0, c\<lparr>mutex := m\<rparr>))"

definition recover_locked :: "caller \<Rightarrow> int \<Rightarrow> tlsf_ctrl \<Rightarrow> int \<times> tlsf_ctrl" where
  "recover_locked w rc c =
     (if rc = EOWNERDEAD then
        (case bul_recover_internal c of (ok, c2) \<Rightarrow>
           if \<not> ok then (- TLSF_ERR_CORRUPTION_UNRECOVERABLE, mutex_unlock w c2)
           else (0, mutex_unlock w (snd (mutex_consistent c2))))
      else if rc \<noteq> 0 then (- TLSF_ERR_LOCK_FAILED, c)
      else if stack_top c > 0 then
        (case bul_recover_internal c of (ok, c2) \<Rightarrow>
           if \<not> ok then (- TLSF_ERR_CORRUPTION_UNRECOVERABLE, mutex_unlock w c2)
           else (0, mutex_unlock w c2))
      else (0, mutex_unlock w c))"

definition tlsf_bul_recover :: "caller \<Rightarrow> u64 \<Rightarrow> tlsf_ctrl \<Rightarrow> (int \<times> tlsf_ctrl) option" where
  "tlsf_bul_recover w tlsf c =
     (if tlsf = 0 then Some (- TLSF_ERR_INVALID_PTR, c)
      else if format_version c \<noteq> TLSF_FORMAT_VERSION then Some (- TLSF_ERR_FORMAT_MISMATCH, c)
      else case pthread_mutex_lock (caller_tid w) (mutex c) of
        None \<Rightarrow> None
      | Some (rc, m) \<Rightarrow> Some (recover_locked w rc (c\<lparr>mutex := m\<rparr>)))"

definition tlsf_bul_recover_nb :: "caller \<Rightarrow> u64 \<Rightarrow> tlsf_ctrl \<Rightarrow> int \<times> tlsf_ctrl" where
  "tlsf_bul_recover_nb w tlsf c =
     (if tlsf = 0 then (- TLSF_ERR_INVALID_PTR, c)
      else if format_version c \<noteq> TLSF_FORMAT_VERSION then (- TLSF_ERR_FORMAT_MISMATCH, c)
      else case pthread_mutex_trylock (caller_tid w) (mutex c) of
        (rc, m) \<Rightarrow> if rc = EBUSY then (- TLSF_ERR_BUSY, c)
                   else recover_locked w rc (c\<lparr>mutex := m\<rparr>))"

section \<open>Runs of logged and unlogged stores\<close>

datatype txn_step = Logged u64 u64 | Raw u64 u64

fun txn_run :: "txn_step list \<Rightarrow> tlsf_ctrl \<Rightarrow> tlsf_ctrl" where
  "txn_run [] c = c"
| "txn_run (Logged a v # s) c = txn_run s (store_word a v (snd (bul_push_word a c)))"
| "txn_run (Raw a v # s) c = txn_run s (store_word a v c)"

fun logged :: "txn_step list \<Rightarrow> u64 list" where
  "logged [] = []"
| "logged (Logged a v # s) = a # logged s"
| "logged (Raw a v # s) = logged s"

text \<open>The word an address holds after the run is undone: its value just before its first
  logged store, or, for an address the run never logs, the last value stored.\<close>

fun undo_val :: "txn_step list \<Rightarrow> tlsf_ctrl \<Rightarrow> u64 \<Rightarrow> u64" where
  "undo_val [] c x = load_word x c"
| "undo_val (Logged a v # s) c x =
     (if x = a then load_word x c else undo_val s (store_word a v (snd (bul_push_word a c))) x)"
| "undo_val (Raw a v # s) c x = undo_val s (store_word a v c) x"

lemma store_word_simps [simp]:
  "pool_start (store_word a v c) = pool_start c" "pool_size (store_word a v c) = pool_size c"
  "heap_start (store_word a v c) = heap_start c" "heap_size (store_word a v c) = heap_size c"
  "stack_top (store_word a v c) = stack_top c" "bul (store_word a v c) = bul c"
  "mutex (store_word a v c) = mutex c" "format_version (store_word a v c) = format_version c"
  "matrix (store_word a v c) = matrix c" "fl_bitmap (store_word a v c) = fl_bitmap c"
  "sl_bitmaps (store_word a v c) = sl_bitmaps c"
  by (simp_all add: store_word_def)

lemma used_bytes_addr_store [simp]: "used_bytes_addr (store_word a v c) = used_bytes_addr c"
  by (simp add: used_bytes_addr_def)

lemma load_store_word [simp]:
  "load_word x (store_word a v c) = (if x = a then v else load_word x c)"
  by (simp add: load_word_def used_bytes_addr_def) (simp add: store_word_def used_bytes_addr_def)

lemma bul_push_ok:
  assumes "stack_top c < 64"
  shows "bul_push_word a c = (True, c\<lparr>bul := (bul c)(unat (stack_top c) :=
           \<lparr>bul_addr = a, bul_old_value = load_word a c\<rparr>), stack_top := stack_top c + 1\<rparr>)"
  using assms by (simp add: bul_push_word_def bul_push_def MAX_BUL_ENTRIES_def Let_def not_le)

lemma load_word_log [simp]:
  "load_word x (c\<lparr>bul := b, stack_top := t\<rparr>) = load_word x c"
  "load_word x (c\<lparr>stack_top := t\<rparr>) = load_word x c" "load_word x (c\<lparr>bul := b\<rparr>) = load_word x c"
  by (simp_all add: load_word_def used_bytes_addr_def)

lemma validate_pointer_cong:
  "pool_start c' = pool_start c \<Longrightarrow> pool_size c' = pool_size c \<Longrightarrow>
   validate_pointer p c' = validate_pointer p c"
  by (simp add: validate_pointer_def)

text \<open>Undoing a run on top of \<open>k\<close> earlier entries leaves those \<open>k\<close> entries to undo, over
  the words \<open>undo_val\<close> describes.\<close>

lemma bul_undo_run:
  assumes "unat (stack_top c) = k" "k + length (logged s) < 64"
    "\<forall>a \<in> set (logged s). validate_pointer a c"
  shows "unat (stack_top (txn_run s c)) = k + length (logged s) \<and>
    (\<exists>c''. bul_undo (k + length (logged s)) (txn_run s c) = bul_undo k c'' \<and>
      (\<forall>x. load_word x c'' = undo_val s c x) \<and> (\<forall>i<k. bul c'' i = bul c i) \<and>
      pool_start c'' = pool_start c \<and> pool_size c'' = pool_size c)"
  using assms
proof (induction s arbitrary: c k rule: logged.induct)
  case 1
  then show ?case by auto
next
  case (2 a v s)
  define c1 where "c1 = store_word a v (snd (bul_push_word a c))"
  have lt: "stack_top c < 64" using "2.prems" by (simp add: word_less_nat_alt)
  note p = bul_push_ok [OF lt, of a]
  have k1: "unat (stack_top c1) = Suc k"
    using "2.prems"(1,2) by (simp add: c1_def p unat_word_ariths)
  have same: "pool_start c1 = pool_start c" "pool_size c1 = pool_size c"
    by (simp_all add: c1_def p)
  have "\<forall>b \<in> set (logged s). validate_pointer b c1"
    using "2.prems"(3) validate_pointer_cong [OF same] by simp
  with "2.IH" [OF k1] "2.prems"(2) obtain c2 where
    top: "unat (stack_top (txn_run s c1)) = Suc k + length (logged s)" and
    un: "bul_undo (Suc k + length (logged s)) (txn_run s c1) = bul_undo (Suc k) c2" and
    ld: "\<forall>x. load_word x c2 = undo_val s c1 x" and
    bu: "\<forall>i<Suc k. bul c2 i = bul c1 i" and
    po: "pool_start c2 = pool_start c1" "pool_size c2 = pool_size c1"
    by auto
  have e: "bul c2 k = \<lparr>bul_addr = a, bul_old_value = load_word a c\<rparr>"
    using bu "2.prems"(1) by (simp add: c1_def p)
  have v: "validate_pointer a c2"
    using "2.prems"(3) validate_pointer_cong [of c2 c a] po same by simp
  define c3 where "c3 = store_word a (load_word a c) c2"
  have "bul_undo (Suc k) c2 = bul_undo k c3" using e v by (simp add: c3_def)
  moreover have "\<forall>x. load_word x c3 = undo_val (Logged a v # s) c x"
    using ld by (simp add: c3_def c1_def)
  moreover have "\<forall>i<k. bul c3 i = bul c i" using bu "2.prems"(1) by (simp add: c3_def c1_def p)
  ultimately show ?case using top un po same
    by (intro conjI exI [of _ c3]) (simp_all add: c1_def [symmetric] c3_def)
next
  case (3 a v s)
  define c1 where "c1 = store_word a v c"
  have "\<forall>b \<in> set (logged s). validate_pointer b c1"
    using "3.prems"(3) validate_pointer_cong [of c1 c] by (simp add: c1_def)
  with "3.IH" [of c1 k] "3.prems"(1,2) show ?case by (simp add: c1_def)
qed

lemma bul_recover_run:
  assumes "stack_top c = 0" "length (logged s) < 64" "\<forall>a \<in> set (logged s). validate_pointer a c"
  shows "\<exists>c'. bul_recover_internal (txn_run s c) = (True, c') \<and> stack_top c' = 0 \<and>
           (\<forall>x. load_word x c' = undo_val s c x)"
proof -
  have k: "unat (stack_top c) = 0" using assms(1) by simp
  from bul_undo_run [OF k, of s] assms(2,3) obtain c'' where
    top: "unat (stack_top (txn_run s c)) = length (logged s)" and
    un: "bul_undo (length (logged s)) (txn_run s c) = (True, c'')" and
    ld: "\<forall>x. load_word x c'' = undo_val s c x" by auto
  show ?thesis
  proof (cases "stack_top (txn_run s c) = 0")
    case True
    then have "length (logged s) = 0" using top by simp
    with un have "c'' = txn_run s c" by simp
    with True ld show ?thesis by (simp add: bul_recover_internal_def)
  next
    case False
    have "stack_top (txn_run s c) < MAX_BUL_ENTRIES"
      using top assms(2) by (simp add: word_less_nat_alt MAX_BUL_ENTRIES_def)
    then have "bul_recover_internal (txn_run s c) = (True, c''\<lparr>stack_top := 0\<rparr>)"
      using False un top by (simp add: bul_recover_internal_def validate_control_integrity_def not_le Let_def)
    with ld show ?thesis by simp
  qed
qed

lemma undo_val_all_logged:
  "(\<And>st. st \<in> set s \<Longrightarrow> \<exists>a v. st = Logged a v) \<Longrightarrow> length (logged s) + unat (stack_top c) \<le> 64 \<Longrightarrow>
   undo_val s c x = load_word x c"
proof (induction s arbitrary: c rule: logged.induct)
  case (2 a v s)
  have lt: "stack_top c < 64" using "2.prems"(2) by (simp add: word_less_nat_alt)
  note p = bul_push_ok [OF lt, of a]
  define c1 where "c1 = store_word a v (snd (bul_push_word a c))"
  have "unat (stack_top c1) = Suc (unat (stack_top c))"
    using lt by (simp add: c1_def p unat_word_ariths word_less_nat_alt)
  with "2.prems" have "undo_val s c1 x = load_word x c1" by (intro "2.IH") auto
  then show ?case by (simp add: c1_def p)
next
  case (3 a v s)
  then have "\<exists>b w. Raw a v = Logged b w" by force
  then show ?case by simp
qed simp

section \<open>A crash and the next locker\<close>

lemma load_word_mutex [simp]: "load_word x (c\<lparr>mutex := m\<rparr>) = load_word x c"
  by (simp add: load_word_def used_bytes_addr_def)

lemma store_word_mutex: "store_word a v (c\<lparr>mutex := m\<rparr>) = (store_word a v c)\<lparr>mutex := m\<rparr>"
  by (simp add: store_word_def used_bytes_addr_def)

lemma bul_undo_mutex: "bul_undo n (c\<lparr>mutex := m\<rparr>) = apsnd (\<lambda>c. c\<lparr>mutex := m\<rparr>) (bul_undo n c)"
  by (induction n arbitrary: c) (simp_all add: validate_pointer_def store_word_mutex)

lemma bul_recover_mutex:
  "bul_recover_internal (c\<lparr>mutex := m\<rparr>) = apsnd (\<lambda>c. c\<lparr>mutex := m\<rparr>) (bul_recover_internal c)"
  by (simp add: bul_recover_internal_def bul_undo_mutex Let_def validate_control_integrity_def
      split: prod.split)

lemma bul_undo_keeps:
  "mutex (snd (bul_undo n c)) = mutex c \<and> format_version (snd (bul_undo n c)) = format_version c"
  by (induction n arbitrary: c) simp_all

lemma bul_recover_keeps [simp]:
  "mutex (snd (bul_recover_internal c)) = mutex c"
  "format_version (snd (bul_recover_internal c)) = format_version c"
  using bul_undo_keeps [of "unat (stack_top c)" c]
  by (auto simp: bul_recover_internal_def Let_def split: prod.splits)

lemma txn_run_keeps [simp]:
  "mutex (txn_run s c) = mutex c" "format_version (txn_run s c) = format_version c"
  by (induction s c rule: txn_run.induct)
     (simp_all add: bul_push_word_def bul_push_def Let_def set_errno_def)

text \<open>A thread that holds the mutex dies in the middle of a transaction.\<close>

definition crash :: "nat \<Rightarrow> tlsf_ctrl \<Rightarrow> tlsf_ctrl" where
  "crash t c = c\<lparr>mutex := thread_dies t (mutex c)\<rparr>"

lemma lock_after_death:
  assumes "mx_holder m = Some t" "\<not> mx_lost m"
  shows "pthread_mutex_lock u (thread_dies t m) = Some (EOWNERDEAD,
    m\<lparr>mx_holder := Some u, mx_count := 1, mx_died := False, mx_incons := True\<rparr>)"
  using assms by (simp add: pthread_mutex_lock_def thread_dies_def)

lemma lock_and_recover_crash:
  assumes fmt: "format_version c = TLSF_FORMAT_VERSION"
    and hold: "mx_holder (mutex c) = Some t" "\<not> mx_lost (mutex c)"
    and rec: "bul_recover_internal c = (True, c')"
  shows "lock_and_recover w (crash t c) = Some (TLSF_OK,
    c'\<lparr>mutex := (mutex c)\<lparr>mx_holder := Some (caller_tid w), mx_count := 1, mx_died := False,
        mx_incons := False\<rparr>, owner_pid := caller_pid w, tlsf_errno := TLSF_OK\<rparr>)"
  using fmt rec
  by (simp add: lock_and_recover_def crash_def lock_after_death [OF hold] Let_def bul_recover_mutex
      mutex_consistent_def pthread_mutex_consistent_def lock_result_def set_errno_def)

end
