(* ===== verification/Tlsf_Block.thy ===== *)
theory Tlsf_Block
  imports Tlsf_Freelist Tlsf_Bul
begin

text \<open>
  Operations on physical blocks (\<^verbatim>\<open>libs/tlsf_txn/tlsf_txn.c\<close>: \<^verbatim>\<open>write_block_footer\<close> to
  \<^verbatim>\<open>coalesce_prev\<close>). The heap is a row of blocks that tile the range from
  \<^verbatim>\<open>heap_start\<close> to its end (\<open>chain\<close>); \<open>heap_ok\<close> joins the row, the back references of the
  headers and the free lists, and each operation is shown to turn one such state into
  another.
\<close>

section \<open>Operations\<close>

definition get_first_block :: "tlsf_ctrl \<Rightarrow> u64" where "get_first_block c = heap_start c"
definition get_heap_end :: "tlsf_ctrl \<Rightarrow> u64" where "get_heap_end c = heap_start c + heap_size c"
definition pool_end :: "tlsf_ctrl \<Rightarrow> u64" where "pool_end c = pool_start c + pool_size c"

definition validate_block_signature :: "tlsf_ctrl \<Rightarrow> u64 \<Rightarrow> bool" where
  "validate_block_signature c b = check_signature c b"

definition write_block_footer :: "u64 \<Rightarrow> tlsf_ctrl \<Rightarrow> tlsf_ctrl" where
  "write_block_footer b c = poke (block_footer_ptr c b) (block_size c b) c"

definition mark_block_free :: "u64 \<Rightarrow> tlsf_ctrl \<Rightarrow> tlsf_ctrl" where
  "mark_block_free b c = write_block_footer b (poke b (size_flags c b OR BLOCK_FREE) c)"

definition mark_block_allocated :: "u64 \<Rightarrow> tlsf_ctrl \<Rightarrow> tlsf_ctrl" where
  "mark_block_allocated b c = poke b (size_flags c b AND NOT BLOCK_FREE) c"

text \<open>The two stores with which a block records that the block before it is free.\<close>

definition set_prev_info :: "u64 \<Rightarrow> u64 \<Rightarrow> tlsf_ctrl \<Rightarrow> tlsf_ctrl" where
  "set_prev_info n prev c =
     (let c1 = poke n (size_flags c n OR BLOCK_PREV_FREE) c
      in poke (n + 56) (block_size c1 prev) c1)"

definition init_header :: "u64 \<Rightarrow> u64 \<Rightarrow> tlsf_ctrl \<Rightarrow> tlsf_ctrl" where
  "init_header b flags c =
     poke (b + 56) 0 (uid_clear_all b (poke (b + 24) 0 (poke (b + 16) 0
       (poke (b + 8) (make_sig_dc False 0) (poke b flags c)))))"

definition insert_block :: "u64 \<Rightarrow> tlsf_ctrl \<Rightarrow> tlsf_ctrl" where
  "insert_block b c =
     (let fl = mapping_first_level (block_size c b);
          sl = mapping_second_level (block_size c b) fl
      in insert_into_free_list b fl sl c)"

definition remove_block :: "u64 \<Rightarrow> tlsf_ctrl \<Rightarrow> tlsf_ctrl" where
  "remove_block b c =
     (let fl = mapping_first_level (block_size c b);
          sl = mapping_second_level (block_size c b) fl
      in remove_from_free_list b fl sl c)"

definition split_block :: "u64 \<Rightarrow> u64 \<Rightarrow> tlsf_ctrl \<Rightarrow> tlsf_ctrl" where
  "split_block b sz c =
     (let total = block_size c b;
          r = b + sz;
          c1 = init_header r ((total - sz) OR BLOCK_FREE) c;
          c2 = block_set_size b sz c1;
          n = block_next c2 r;
          c3 = (if n < pool_end c2 then set_prev_info n r c2 else c2);
          c4 = write_block_footer r c3
      in insert_block r c4)"

definition coalesce_next :: "u64 \<Rightarrow> tlsf_ctrl \<Rightarrow> tlsf_ctrl" where
  "coalesce_next b c =
     (let n = block_next c b;
          next_size = block_size c n;
          c1 = remove_block n c;
          c2 = block_set_size b (block_size c1 b + next_size) c1;
          c3 = poke b (size_flags c2 b AND NOT BLOCK_PREV_FREE) c2;
          after = block_next c3 b
      in if after < pool_end c3 then set_prev_info after b c3 else c3)"

definition validate_prev_size :: "u64 \<Rightarrow> tlsf_ctrl \<Rightarrow> bool" where
  "validate_prev_size b c =
     (let ps = prev_size c b; prev_addr = b - ps in
      if ps = 0 then False
      else if ps mod ALIGN_SIZE \<noteq> 0 then False
      else if ps > pool_size c then False
      else if prev_addr < pool_start c then False
      else if prev_addr \<ge> pool_start c + pool_size c then False
      else True)"

definition coalesce_prev :: "u64 \<Rightarrow> tlsf_ctrl \<Rightarrow> u64 \<times> tlsf_ctrl" where
  "coalesce_prev b c =
     (if \<not> block_prev_free c b then (b, c)
      else if \<not> validate_prev_size b c then (b, set_errno TLSF_ERR_BLOCK_CORRUPTED c)
      else let p = b - prev_size c b in
        if \<not> validate_block_signature c p then (b, set_errno TLSF_ERR_BLOCK_CORRUPTED c)
        else if \<not> block_is_free c p then (b, set_errno TLSF_ERR_BLOCK_CORRUPTED c)
        else let c1 = remove_block p c
             in (p, block_set_size p (block_size c1 p + block_size c1 b) c1))"

section \<open>The row of blocks\<close>

fun chain :: "(u64 \<Rightarrow> u64) \<Rightarrow> u64 \<Rightarrow> u64 \<Rightarrow> u64 list \<Rightarrow> bool" where
  "chain m a e [] \<longleftrightarrow> a = e"
| "chain m a e (b # bs) \<longleftrightarrow> b = a \<and> aligned64 a \<and> aligned64 (sz_of (m a)) \<and> 128 \<le> unat (sz_of (m a)) \<and>
     unat a + unat (sz_of (m a)) \<le> unat e \<and> sig_of (m (a + 8)) \<and> chain m (a + sz_of (m a)) e bs"

lemma chain_le: "chain m a e bs \<Longrightarrow> unat a \<le> unat e"
  by (cases bs) auto

lemma chain_step:
  fixes a s e :: u64
  assumes "unat a + unat s \<le> unat e" shows "unat (a + s) = unat a + unat s"
  using assms unat_lt_64 [of e] by (intro unat_add_nowrap) linarith

lemma chain_append:
  "chain m a e (xs @ ys) \<longleftrightarrow> (\<exists>k. chain m a k xs \<and> chain m k e ys)"
proof (induction xs arbitrary: a)
  case (Cons x xs)
  show ?case
  proof (cases "x = a \<and> aligned64 a \<and> aligned64 (sz_of (m a)) \<and> 128 \<le> unat (sz_of (m a)) \<and> sig_of (m (a + 8))")
    case True
    have "unat a + unat (sz_of (m a)) \<le> unat e \<and> chain m (a + sz_of (m a)) k xs \<and> chain m k e ys \<longleftrightarrow>
      unat a + unat (sz_of (m a)) \<le> unat k \<and> chain m (a + sz_of (m a)) k xs \<and> chain m k e ys" for k
      using chain_le chain_step [of a "sz_of (m a)" e] chain_step [of a "sz_of (m a)" k]
      by (metis (no_types, lifting) dual_order.trans)
    with True Cons.IH show ?thesis by auto
  qed auto
qed simp

lemma chain_cong:
  "(\<And>b. b \<in> set bs \<Longrightarrow> sz_of (m' b) = sz_of (m b) \<and> (sig_of (m' (b + 8)) \<longleftrightarrow> sig_of (m (b + 8)))) \<Longrightarrow>
   chain m' a e bs = chain m a e bs"
  by (induction bs arbitrary: a) auto

text \<open>What the row says of one block, and of two.\<close>

lemma chain_member:
  assumes "chain m a e bs" "b \<in> set bs"
  shows "aligned64 b" "aligned64 (sz_of (m b))" "128 \<le> unat (sz_of (m b))" "sig_of (m (b + 8))"
    "unat a \<le> unat b" "unat b + unat (sz_of (m b)) \<le> unat e"
    "unat (b + sz_of (m b)) = unat b + unat (sz_of (m b))"
proof -
  from assms(2) obtain xs ys where bs: "bs = xs @ b # ys" by (auto simp: in_set_conv_decomp)
  with assms(1) obtain k where k: "chain m a k xs" "chain m k e (b # ys)" by (auto simp: chain_append)
  from k(2) show "aligned64 b" "aligned64 (sz_of (m b))" "128 \<le> unat (sz_of (m b))"
    "sig_of (m (b + 8))" "unat b + unat (sz_of (m b)) \<le> unat e" by auto
  then show "unat (b + sz_of (m b)) = unat b + unat (sz_of (m b))" by (intro chain_step)
  from k show "unat a \<le> unat b" using chain_le [OF k(1)] by simp
qed

lemma chain_next:
  assumes "chain m a e bs" "b \<in> set bs"
  shows "b + sz_of (m b) \<in> set bs \<or> b + sz_of (m b) = e"
proof -
  from assms(2) obtain xs ys where bs: "bs = xs @ b # ys" by (auto simp: in_set_conv_decomp)
  with assms(1) have "chain m (b + sz_of (m b)) e ys" by (auto simp: chain_append)
  with bs show ?thesis by (cases ys) auto
qed

lemma chain_end_notin: "chain m a e bs \<Longrightarrow> e \<notin> set bs"
  using chain_member by fastforce

lemma chain_order:
  assumes "chain m a e (xs @ b # ys)"
  shows "x \<in> set xs \<Longrightarrow> unat x + unat (sz_of (m x)) \<le> unat b"
    and "x \<in> set ys \<Longrightarrow> unat b + unat (sz_of (m b)) \<le> unat x"
proof -
  from assms obtain k where k: "chain m a k xs" "chain m k e (b # ys)" by (auto simp: chain_append)
  then have "k = b" by auto
  with k show "x \<in> set xs \<Longrightarrow> unat x + unat (sz_of (m x)) \<le> unat b" using chain_member(6) by blast
  have c: "chain m (b + sz_of (m b)) e ys" "unat b + unat (sz_of (m b)) \<le> unat e" using k by auto
  then show "x \<in> set ys \<Longrightarrow> unat b + unat (sz_of (m b)) \<le> unat x"
    using chain_member(5) [OF c(1)] chain_step [OF c(2)] by fastforce
qed

lemma chain_disjoint:
  assumes "chain m a e bs" "b \<in> set bs" "x \<in> set bs" "x \<noteq> b"
  shows "unat x + unat (sz_of (m x)) \<le> unat b \<or> unat b + unat (sz_of (m b)) \<le> unat x"
proof -
  from assms(2) obtain xs ys where bs: "bs = xs @ b # ys" by (auto simp: in_set_conv_decomp)
  with assms chain_order show ?thesis by fastforce
qed

lemma chain_distinct: "chain m a e bs \<Longrightarrow> distinct bs"
proof (induction bs arbitrary: a)
  case (Cons b bs)
  then have c: "chain m (b + sz_of (m b)) e bs" "unat b + unat (sz_of (m b)) \<le> unat e"
    "128 \<le> unat (sz_of (m b))" by auto
  have "b \<notin> set bs" using chain_member(5) [OF c(1)] chain_step [OF c(2)] c(3) by fastforce
  with Cons.IH [OF c(1)] show ?case by simp
qed simp

text \<open>An address strictly inside a block is no block.\<close>

lemma chain_interior:
  assumes "chain m a e bs" "b \<in> set bs" "unat b < unat x" "unat x < unat b + unat (sz_of (m b))"
  shows "x \<notin> set bs"
proof
  assume "x \<in> set bs"
  with chain_disjoint [OF assms(1,2)] chain_member(3) [OF assms(1)] assms(3,4) show False by fastforce
qed

lemma chain_same_end:
  assumes "chain m a e bs" "b \<in> set bs" "x \<in> set bs" "x + sz_of (m x) = b + sz_of (m b)"
  shows "x = b"
proof (rule ccontr)
  assume "x \<noteq> b"
  from chain_disjoint [OF assms(1-3) this] chain_member(3,7) [OF assms(1,2)]
    chain_member(3,7) [OF assms(1,3)] assms(4) show False by (auto simp: unat_eq_zero)
qed

lemma chain_no_zero:
  assumes "chain m a e bs" "b \<in> set bs" "a \<noteq> 0" shows "b \<noteq> 0"
  using chain_member(5) [OF assms(1,2)] assms(3) by (auto simp: unat_eq_zero)

text \<open>Cutting a block in two, and joining two.\<close>

lemma chain_cut:
  assumes "chain m a e (xs @ b # ys)"
    and same: "\<And>x. x \<in> set xs \<union> set ys \<Longrightarrow> sz_of (m' x) = sz_of (m x) \<and> (sig_of (m' (x + 8)) \<longleftrightarrow> sig_of (m (x + 8)))"
    and b: "sz_of (m' b) = s" "sig_of (m' (b + 8))" "aligned64 s" "128 \<le> unat s"
      "unat s + 128 \<le> unat (sz_of (m b))"
    and r: "sz_of (m' (b + s)) = sz_of (m b) - s" "sig_of (m' (b + s + 8))"
  shows "chain m' a e (xs @ b # (b + s) # ys)"
proof -
  from assms(1) have pre: "chain m a b xs" and bb: "aligned64 b" "aligned64 (sz_of (m b))"
    "unat b + unat (sz_of (m b)) \<le> unat e" and suf: "chain m (b + sz_of (m b)) e ys"
    by (auto simp: chain_append)
  have us: "unat (sz_of (m b) - s) = unat (sz_of (m b)) - unat s"
    by (rule unat_diff_nowrap) (use b in linarith)
  have ub: "unat (b + s) = unat b + unat s"
    by (rule chain_step [of _ _ e]) (use b bb in linarith)
  have "chain m' a b xs" "chain m' (b + sz_of (m b)) e ys"
    using pre suf chain_cong [of xs m' m] chain_cong [of ys m' m] same by auto
  moreover have "unat b + unat s \<le> unat e" "aligned64 (sz_of (m b) - s)" using b bb by simp_all
  ultimately show ?thesis using b r bb us ub by (auto simp: chain_append)
qed

lemma chain_join:
  assumes "chain m a e (xs @ b # n # ys)"
    and same: "\<And>x. x \<in> set xs \<union> set ys \<Longrightarrow> sz_of (m' x) = sz_of (m x) \<and> (sig_of (m' (x + 8)) \<longleftrightarrow> sig_of (m (x + 8)))"
    and b: "sz_of (m' b) = sz_of (m b) + sz_of (m n)" "sig_of (m' (b + 8))"
  shows "chain m' a e (xs @ b # ys)" and "n = b + sz_of (m b)"
    and "unat (sz_of (m b) + sz_of (m n)) = unat (sz_of (m b)) + unat (sz_of (m n))"
proof -
  from assms(1) have pre: "chain m a b xs" and bb: "aligned64 b" "aligned64 (sz_of (m b))"
    "128 \<le> unat (sz_of (m b))" "unat b + unat (sz_of (m b)) \<le> unat e"
    and n: "n = b + sz_of (m b)" "aligned64 (sz_of (m n))" "unat n + unat (sz_of (m n)) \<le> unat e"
    and suf: "chain m (n + sz_of (m n)) e ys"
    by (auto simp: chain_append)
  show "n = b + sz_of (m b)" by (fact n)
  have un: "unat n = unat b + unat (sz_of (m b))" using chain_step [OF bb(4)] n by simp
  show us: "unat (sz_of (m b) + sz_of (m n)) = unat (sz_of (m b)) + unat (sz_of (m n))"
    by (rule unat_add_nowrap) (use n un unat_lt_64 [of e] in linarith)
  have "chain m' a b xs" "chain m' (n + sz_of (m n)) e ys"
    using pre suf chain_cong [of xs m' m] chain_cong [of ys m' m] same by auto
  then show "chain m' a e (xs @ b # ys)" using b bb n us un by (auto simp: chain_append add.assoc)
qed

section \<open>The physical state and the lists together\<close>

text \<open>\<open>backref\<close>: a block marked \<^verbatim>\<open>BLOCK_PREV_FREE\<close> knows the size of the block before it.
  \<open>phys m a e bs E\<close> allows exceptions at the successors of the blocks \<open>E\<close>, which an operation
  repairs before it returns.\<close>

definition backref :: "(u64 \<Rightarrow> u64) \<Rightarrow> u64 set \<Rightarrow> u64 \<Rightarrow> bool" where
  "backref m B x \<longleftrightarrow> (let n = x + sz_of (m x) in n \<in> B \<longrightarrow> pf_of (m n) \<longrightarrow> m (n + 56) = sz_of (m x))"

definition phys :: "(u64 \<Rightarrow> u64) \<Rightarrow> u64 \<Rightarrow> u64 \<Rightarrow> u64 list \<Rightarrow> u64 set \<Rightarrow> bool" where
  "phys m a e bs E \<longleftrightarrow> chain m a e bs \<and> (\<forall>b \<in> set bs. b = a \<longrightarrow> \<not> pf_of (m b)) \<and>
     (\<forall>x \<in> set bs - E. backref m (set bs) x)"

definition geom :: "tlsf_ctrl \<Rightarrow> bool" where
  "geom c \<longleftrightarrow> aligned64 (heap_start c) \<and> aligned64 (heap_size c) \<and>
     unat (pool_start c) + 6720 \<le> unat (heap_start c) \<and>
     unat (heap_start c) + unat (heap_size c) = unat (pool_start c) + unat (pool_size c) \<and>
     unat (pool_start c) + unat (pool_size c) < 2 ^ 64 \<and> unat (pool_size c) \<le> 2 ^ 40"

definition heap_ok :: "tlsf_ctrl \<Rightarrow> u64 list \<Rightarrow> u64 set \<Rightarrow> u64 set \<Rightarrow> bool" where
  "heap_ok c bs F E \<longleftrightarrow> geom c \<and> phys (mem c) (heap_start c) (get_heap_end c) bs E \<and>
     flok c F \<and> F \<subseteq> set bs"

definition same_geom :: "tlsf_ctrl \<Rightarrow> tlsf_ctrl \<Rightarrow> bool" where
  "same_geom c c' \<longleftrightarrow> pool_start c' = pool_start c \<and> pool_size c' = pool_size c \<and>
     heap_start c' = heap_start c \<and> heap_size c' = heap_size c"

definition same_lists :: "tlsf_ctrl \<Rightarrow> tlsf_ctrl \<Rightarrow> bool" where
  "same_lists c c' \<longleftrightarrow> matrix c' = matrix c \<and> fl_bitmap c' = fl_bitmap c \<and> sl_bitmaps c' = sl_bitmaps c"

lemma heap_okD:
  assumes "heap_ok c bs F E"
  shows "geom c" "chain (mem c) (heap_start c) (get_heap_end c) bs" "flok c F" "F \<subseteq> set bs"
    "phys (mem c) (heap_start c) (get_heap_end c) bs E"
  using assms by (simp_all add: heap_ok_def phys_def)

lemma geom_end:
  assumes "geom c"
  shows "get_heap_end c = pool_end c"
    and "unat (get_heap_end c) = unat (heap_start c) + unat (heap_size c)"
    and "unat (get_heap_end c) = unat (pool_start c) + unat (pool_size c)"
proof -
  have h: "unat (heap_start c + heap_size c) = unat (heap_start c) + unat (heap_size c)"
    by (rule unat_add_nowrap) (use assms in \<open>simp add: geom_def\<close>)
  have p: "unat (pool_start c + pool_size c) = unat (pool_start c) + unat (pool_size c)"
    by (rule unat_add_nowrap) (use assms in \<open>simp add: geom_def\<close>)
  have e: "unat (heap_start c + heap_size c) = unat (pool_start c + pool_size c)"
    using h p assms by (simp add: geom_def)
  show "get_heap_end c = pool_end c"
    unfolding get_heap_end_def pool_end_def by (rule unsigned_word_eqI [OF e])
  show "unat (get_heap_end c) = unat (heap_start c) + unat (heap_size c)"
    "unat (get_heap_end c) = unat (pool_start c) + unat (pool_size c)"
    using h p e by (simp_all add: get_heap_end_def)
qed

lemma geom_nonzero: "geom c \<Longrightarrow> heap_start c \<noteq> 0"
  by (metis geom_def add_is_0 le_zero_eq unat_0 zero_neq_numeral)

lemma geom_cong: "same_geom c c' \<Longrightarrow> geom c' = geom c \<and> get_heap_end c' = get_heap_end c \<and> pool_end c' = pool_end c"
  by (simp add: same_geom_def geom_def get_heap_end_def pool_end_def)

lemma chain_end_iff:
  assumes "heap_ok c bs F E" "b \<in> set bs"
  defines "n \<equiv> b + sz_of (mem c b)"
  shows "n < get_heap_end c \<longleftrightarrow> n \<in> set bs" and "n < pool_end c \<longleftrightarrow> n \<in> set bs"
    and "\<not> n < get_heap_end c \<Longrightarrow> n = get_heap_end c"
proof -
  note ch = heap_okD(2) [OF assms(1)]
  have lt: "x < get_heap_end c" if "x \<in> set bs" for x
    using chain_member(3,6) [OF ch that] by (simp add: word_less_nat_alt)
  then show 1: "n < get_heap_end c \<longleftrightarrow> n \<in> set bs" using chain_next [OF ch assms(2)] n_def by auto
  then show "n < pool_end c \<longleftrightarrow> n \<in> set bs" using geom_end(1) [OF heap_okD(1) [OF assms(1)]] by simp
  show "\<not> n < get_heap_end c \<Longrightarrow> n = get_heap_end c"
    using chain_next [OF ch assms(2)] 1 n_def by auto
qed

text \<open>Stores that change neither size nor signature of a block.\<close>

lemma phys_update:
  assumes ph: "phys m a e bs E"
    and w: "\<And>x. x \<in> set bs \<Longrightarrow> sz_of (m' x) = sz_of (m x) \<and> sig_of (m' (x + 8))"
    and p: "\<And>n. n \<in> set bs \<Longrightarrow> n \<notin> N \<Longrightarrow> pf_of (m' n) \<Longrightarrow> pf_of (m n) \<and> m' (n + 56) = m (n + 56)"
    and E: "\<And>x. x \<in> set bs \<Longrightarrow> x \<notin> E' \<Longrightarrow> x \<notin> E \<and> x + sz_of (m x) \<notin> N"
    and a: "a \<in> N \<Longrightarrow> a \<in> set bs \<Longrightarrow> \<not> pf_of (m' a)"
  shows "phys m' a e bs E'"
proof -
  have ch: "chain m a e bs" using ph by (simp add: phys_def)
  have "chain m' a e bs" using ch chain_cong [of bs m' m] w chain_member(4) [OF ch] by blast
  moreover have "backref m' (set bs) x" if "x \<in> set bs" "x \<notin> E'" for x
  proof -
    have "x \<notin> E" "x + sz_of (m x) \<notin> N" using E [OF that] by auto
    with ph that have "backref m (set bs) x" "x + sz_of (m x) \<notin> N" by (auto simp: phys_def)
    then show ?thesis using w [OF that(1)] p [of "x + sz_of (m x)"] by (auto simp: backref_def Let_def)
  qed
  moreover have "\<not> pf_of (m' b)" if "b \<in> set bs" "b = a" for b
    using that a p [of b] ph by (cases "a \<in> N") (auto simp: phys_def)
  ultimately show ?thesis by (auto simp: phys_def)
qed

lemma heap_ok_update:
  assumes h: "heap_ok c bs F E" and g: "same_geom c c'" and l: "same_lists c c'"
    and w: "\<And>x. x \<in> set bs \<Longrightarrow> sz_of (mem c' x) = sz_of (mem c x) \<and> sig_of (mem c' (x + 8))"
    and lk: "\<And>x. x \<in> F \<Longrightarrow> mem c' (x + 16) = mem c (x + 16) \<and> mem c' (x + 24) = mem c (x + 24)"
    and p: "\<And>n. n \<in> set bs \<Longrightarrow> n \<notin> N \<Longrightarrow> pf_of (mem c' n) \<Longrightarrow>
              pf_of (mem c n) \<and> mem c' (n + 56) = mem c (n + 56)"
    and E: "\<And>x. x \<in> set bs \<Longrightarrow> x \<notin> E' \<Longrightarrow> x \<notin> E \<and> x + sz_of (mem c x) \<notin> N"
    and a: "heap_start c \<in> N \<Longrightarrow> heap_start c \<in> set bs \<Longrightarrow> \<not> pf_of (mem c' (heap_start c))"
  shows "heap_ok c' bs F E'"
proof -
  have ph: "phys (mem c') (heap_start c) (get_heap_end c) bs E'"
    by (rule phys_update [OF heap_okD(5) [OF h] w p E a])
  have "flok c' F"
    by (rule flok_cong [OF heap_okD(3) [OF h]])
       (use l w lk heap_okD(4) [OF h] in \<open>auto simp: same_lists_def block_word\<close>)
  with ph g geom_cong [OF g] h show ?thesis by (simp add: heap_ok_def same_geom_def)
qed

text \<open>The special case without back references.\<close>

lemma heap_ok_frame:
  assumes "heap_ok c bs F E" "same_geom c c'" "same_lists c c'"
    and "\<And>x. x \<in> set bs \<Longrightarrow> sz_of (mem c' x) = sz_of (mem c x) \<and> (pf_of (mem c' x) \<longrightarrow> pf_of (mem c x)) \<and>
           sig_of (mem c' (x + 8)) \<and> mem c' (x + 56) = mem c (x + 56)"
    and "\<And>x. x \<in> F \<Longrightarrow> mem c' (x + 16) = mem c (x + 16) \<and> mem c' (x + 24) = mem c (x + 24)"
  shows "heap_ok c' bs F E"
  by (rule heap_ok_update [OF assms(1-3), where N = "{}"]) (use assms(4,5) in auto)

section \<open>Which 64-byte lines an operation touches\<close>

definition touches :: "tlsf_ctrl \<Rightarrow> tlsf_ctrl \<Rightarrow> u64 set \<Rightarrow> bool" where
  "touches c c' Z \<longleftrightarrow> (\<forall>z y. aligned64 z \<longrightarrow> y < 64 \<longrightarrow> z \<notin> Z \<longrightarrow> mem c' (z + y) = mem c (z + y))"

definition hdr_same :: "tlsf_ctrl \<Rightarrow> tlsf_ctrl \<Rightarrow> bool" where
  "hdr_same c c' \<longleftrightarrow> (\<forall>z y. aligned64 z \<longrightarrow> y < 64 \<longrightarrow> y \<noteq> 16 \<longrightarrow> y \<noteq> 24 \<longrightarrow> mem c' (z + y) = mem c (z + y))"

lemma touches_refl [intro]: "touches c c Z"
  by (simp add: touches_def)

lemma touches_trans: "touches c c' Y \<Longrightarrow> touches c' c'' Z \<Longrightarrow> touches c c'' (Y \<union> Z)"
  by (simp add: touches_def)

lemma touches_mono: "touches c c' Y \<Longrightarrow> Y \<subseteq> Z \<Longrightarrow> touches c c' Z"
  unfolding touches_def by blast

lemma touchesD:
  assumes "touches c c' Z" "aligned64 z" "z \<notin> Z"
  shows "mem c' z = mem c z" "y < 64 \<Longrightarrow> mem c' (z + y) = mem c (z + y)"
proof -
  show e: "mem c' (z + y) = mem c (z + y)" if "y < 64" for y
    using assms that by (simp add: touches_def)
  show "mem c' z = mem c z" using e [of 0] by simp
qed

lemma hdr_sameD:
  assumes "hdr_same c c'" "aligned64 z"
  shows "mem c' z = mem c z" "mem c' (z + 8) = mem c (z + 8)" "mem c' (z + 32) = mem c (z + 32)"
    "mem c' (z + 40) = mem c (z + 40)" "mem c' (z + 48) = mem c (z + 48)" "mem c' (z + 56) = mem c (z + 56)"
proof -
  have e: "mem c' (z + y) = mem c (z + y)" if "y < 64" "y \<noteq> 16" "y \<noteq> 24" for y
    using assms that by (simp add: hdr_same_def)
  show "mem c' z = mem c z" using e [of 0] by simp
  show "mem c' (z + 8) = mem c (z + 8)" "mem c' (z + 32) = mem c (z + 32)"
    "mem c' (z + 40) = mem c (z + 40)" "mem c' (z + 48) = mem c (z + 48)" "mem c' (z + 56) = mem c (z + 56)"
    by (rule e; simp)+
qed

lemma touches_poke:
  assumes "aligned64 b" "y < 64" shows "touches c (poke (b + y) v c) {b}"
  using assms by (auto simp: touches_def aligned_offset_eq)

lemma touches_poke0: "aligned64 b \<Longrightarrow> touches c (poke b v c) {b}"
  using touches_poke [of b 0 c v] by simp

lemma only_links_touches:
  assumes "only_links c c' F" "\<And>x. x \<in> F \<Longrightarrow> aligned64 x"
  shows "touches c c' F" "hdr_same c c'"
  using only_links_other [OF assms] only_links_outside [OF assms]
  unfolding touches_def hdr_same_def by blast+

section \<open>Free-list operations on a heap\<close>

lemma same_ctl_geom: "same_ctl c c' \<Longrightarrow> same_geom c c'"
  by (simp add: same_ctl_def same_geom_def)

lemma block_class:
  assumes "heap_ok c bs F E" "b \<in> set bs"
  shows "16 \<le> unat (sz_of (mem c b))" "unat (sz_of (mem c b)) < 2 ^ 41"
proof -
  note m = chain_member [OF heap_okD(2) [OF assms(1)] assms(2)]
  show "16 \<le> unat (sz_of (mem c b))" using m(3) by simp
  have "unat (sz_of (mem c b)) \<le> unat (pool_size c)"
    using m(5,6) geom_end [OF heap_okD(1) [OF assms(1)]] heap_okD(1) [OF assms(1)]
    unfolding geom_def by linarith
  then show "unat (sz_of (mem c b)) < 2 ^ 41" using heap_okD(1) [OF assms(1)] by (simp add: geom_def)
qed

lemma heap_ok_relist:
  assumes "heap_ok c bs F E" "same_ctl c c'" "hdr_same c c'" "flok c' F'" "F' \<subseteq> set bs"
  shows "heap_ok c' bs F' E"
proof -
  note h = heap_okD [OF assms(1)]
  have al: "aligned64 x" if "x \<in> set bs" for x using chain_member(1) [OF h(2) that] .
  have "phys (mem c') (heap_start c) (get_heap_end c) bs E"
    by (rule phys_update [OF h(5), where N = "{}"])
       (auto simp: hdr_sameD [OF assms(3)] al chain_member(4) [OF h(2)])
  with assms geom_cong [OF same_ctl_geom [OF assms(2)]] h(1) show ?thesis
    by (simp add: heap_ok_def same_ctl_def)
qed

lemma remove_block_ok:
  assumes "heap_ok c bs F E" "b \<in> F"
  defines "c' \<equiv> remove_block b c"
  shows "heap_ok c' bs (F - {b}) E" "hdr_same c c'" "touches c c' (F - {b})" "same_ctl c c'"
proof -
  note h = heap_okD [OF assms(1)]
  define fl sl where "fl = mapping_first_level (block_size c b)" and "sl = mapping_second_level (block_size c b) fl"
  have c': "c' = remove_from_free_list b fl sl c" by (simp add: c'_def remove_block_def fl_def sl_def Let_def)
  have ms: "mapping_search (block_size c b) = (fl, sl)" by (simp add: mapping_search_def fl_def sl_def Let_def)
  note r = remove_ok [OF h(3) assms(2) ms, folded c']
  have al: "aligned64 x" if "x \<in> F - {b}" for x using that h(4) chain_member(1) [OF h(2)] by auto
  show hs: "hdr_same c c'" and "touches c c' (F - {b})" using only_links_touches [OF r(2) al] by blast+
  show sc: "same_ctl c c'" unfolding c' by (rule same_ctl_remove)
  show "heap_ok c' bs (F - {b}) E" by (rule heap_ok_relist [OF assms(1) sc hs r(1)]) (use h(4) in blast)
qed

lemma insert_block_ok:
  assumes "heap_ok c bs F E" "b \<in> set bs" "b \<notin> F"
  defines "c' \<equiv> insert_block b c"
  shows "heap_ok c' bs (insert b F) E" "hdr_same c c'" "touches c c' (insert b F)" "same_ctl c c'"
proof -
  note h = heap_okD [OF assms(1)]
  define fl sl where "fl = mapping_first_level (block_size c b)" and "sl = mapping_second_level (block_size c b) fl"
  have c': "c' = insert_into_free_list b fl sl c" by (simp add: c'_def insert_block_def fl_def sl_def Let_def)
  have ms: "mapping_search (block_size c b) = (fl, sl)" by (simp add: mapping_search_def fl_def sl_def Let_def)
  have lt: "fl < 64" "sl < 64"
    using mapping_first_level_lt [of "block_size c b"] mapping_second_level_lt [of "block_size c b" fl]
    by (simp_all add: fl_def sl_def FLI_MAX_def SLI_SIZE_def)
  have b: "aligned64 b" "b \<noteq> 0"
    using chain_member(1) [OF h(2) assms(2)] chain_no_zero [OF h(2) assms(2)] geom_nonzero [OF h(1)] by auto
  note r = insert_ok [OF h(3) assms(3) b ms lt, folded c']
  have al: "aligned64 x" if "x \<in> insert b F" for x using that h(4) chain_member(1) [OF h(2)] b by auto
  show hs: "hdr_same c c'" and "touches c c' (insert b F)" using only_links_touches [OF r(2) al] by blast+
  show sc: "same_ctl c c'" unfolding c' by (rule same_ctl_insert)
  show "heap_ok c' bs (insert b F) E"
    by (rule heap_ok_relist [OF assms(1) sc hs r(1)]) (use h(4) assms(2) in blast)
qed

section \<open>Stores into headers and footers\<close>

lemma same_geom_poke [simp]: "same_geom c (poke a v c)" "same_lists c (poke a v c)"
  by (simp_all add: same_geom_def same_lists_def)

lemma poke_flags_ok:
  assumes "heap_ok c bs F E" "b \<in> set bs" "sz_of w = sz_of (mem c b)" "pf_of w \<longrightarrow> pf_of (mem c b)"
  shows "heap_ok (poke b w c) bs F E" "touches c (poke b w c) {b}"
proof -
  note ch = heap_okD(2) [OF assms(1)]
  have al: "aligned64 x" if "x \<in> set bs" for x using chain_member(1) [OF ch that] .
  have Fb: "x \<in> set bs" if "x \<in> F" for x using that heap_okD(4) [OF assms(1)] by blast
  show "heap_ok (poke b w c) bs F E"
    by (rule heap_ok_frame [OF assms(1)])
       (use assms(2-4) chain_member(4) [OF ch] al Fb in \<open>auto simp: srpc_addr\<close>)
  show "touches c (poke b w c) {b}" by (rule touches_poke0 [OF al [OF assms(2)]])
qed

lemma footer_line:
  assumes "heap_ok c bs F E" "b \<in> set bs"
  defines "z \<equiv> b + sz_of (mem c b) - 64"
  shows "block_footer_ptr c b = z + 56" "aligned64 z" "z \<notin> set bs"
proof -
  note m = chain_member [OF heap_okD(2) [OF assms(1)] assms(2)]
  show "block_footer_ptr c b = z + 56" by (simp add: block_footer_ptr_def z_def block_word)
  have "aligned64 (64 :: u64)" by (simp add: aligned64_def)
  then show "aligned64 z" using m by (simp add: z_def)
  have "unat z = unat b + unat (sz_of (mem c b)) - 64"
    using unat_diff_nowrap [of 64 "b + sz_of (mem c b)"] m by (simp add: z_def)
  then show "z \<notin> set bs"
    using m(3) by (intro chain_interior [OF heap_okD(2) [OF assms(1)] assms(2)]) simp_all
qed

lemma heap_ok_untouched:
  assumes "heap_ok c bs F E" "same_geom c c'" "same_lists c c'" "touches c c' Z" "Z \<inter> set bs = {}"
  shows "heap_ok c' bs F E"
proof -
  note ch = heap_okD(2) [OF assms(1)]
  have e: "mem c' x = mem c x" "y < 64 \<Longrightarrow> mem c' (x + y) = mem c (x + y)" if "x \<in> set bs" for x y
    using touchesD [OF assms(4) chain_member(1) [OF ch that]] that assms(5) by blast+
  have "F \<subseteq> set bs" by (rule heap_okD(4) [OF assms(1)])
  then show ?thesis
    by (intro heap_ok_frame [OF assms(1-3)]) (simp_all add: e subset_iff chain_member(4) [OF ch])
qed

lemma write_block_footer_ok:
  assumes "heap_ok c bs F E" "b \<in> set bs"
  defines "c' \<equiv> write_block_footer b c" and "z \<equiv> b + sz_of (mem c b) - 64"
  shows "heap_ok c' bs F E" "touches c c' {z}"
proof -
  note f = footer_line [OF assms(1,2), folded z_def]
  have c': "c' = poke (z + 56) (block_size c b) c" by (simp add: c'_def write_block_footer_def f)
  show t: "touches c c' {z}" unfolding c' by (rule touches_poke) (use f in simp_all)
  show "heap_ok c' bs F E"
    by (rule heap_ok_untouched [OF assms(1) _ _ t]) (use f(3) in \<open>simp_all add: c'\<close>)
qed

lemma heap_ok_repaired:
  assumes "heap_ok c bs F E" "b \<in> set bs \<Longrightarrow> backref (mem c) (set bs) b"
  shows "heap_ok c bs F (E - {b})"
  using assms by (auto simp: heap_ok_def phys_def)

lemma heap_ok_more_exc: "heap_ok c bs F E \<Longrightarrow> E \<subseteq> E' \<Longrightarrow> heap_ok c bs F E'"
  by (auto simp: heap_ok_def phys_def)

lemma heap_ok_last:
  assumes "heap_ok c bs F E" "b \<in> set bs" "b + sz_of (mem c b) \<notin> set bs"
  shows "heap_ok c bs F (E - {b})"
  by (rule heap_ok_repaired [OF assms(1)]) (use assms(3) in \<open>simp add: backref_def Let_def\<close>)

lemma set_prev_info_ok:
  assumes h: "heap_ok c bs F E" and b: "b \<in> set bs" and n: "n \<in> set bs" "n = b + sz_of (mem c b)"
  defines "c' \<equiv> set_prev_info n b c"
  shows "heap_ok c' bs F (E - {b})" "touches c c' {n}"
    and "mem c' = (mem c)(n := mem c n OR BLOCK_PREV_FREE, n + 56 := sz_of (mem c b))"
proof -
  note ch = heap_okD(2) [OF h]
  have al: "aligned64 x" if "x \<in> set bs" for x using chain_member(1) [OF ch that] .
  have gt: "unat b < unat n" using chain_member(3,7) [OF ch b] n by simp
  then have nb: "n \<noteq> b" by auto
  show m': "mem c' = (mem c)(n := mem c n OR BLOCK_PREV_FREE, n + 56 := sz_of (mem c b))"
    using nb by (auto simp: c'_def set_prev_info_def Let_def block_word)
  have "c' = poke (n + 56) (sz_of (mem c b)) (poke n (mem c n OR BLOCK_PREV_FREE) c)"
    using nb by (auto simp: c'_def set_prev_info_def Let_def block_word)
  then show "touches c c' {n}"
    using touches_trans [OF touches_poke0 [OF al [OF n(1)]] touches_poke [OF al [OF n(1)], of 56]] by simp
  have Fb: "x \<in> set bs" if "x \<in> F" for x using that heap_okD(4) [OF h] by blast
  have "same_geom c c'" "same_lists c c'"
    by (simp_all add: c'_def set_prev_info_def Let_def same_geom_def same_lists_def)
  then have "heap_ok c' bs F (insert b E)"
  proof (rule heap_ok_update [OF h, where N = "{n}"])
    show "heap_start c \<in> {n} \<Longrightarrow> heap_start c \<in> set bs \<Longrightarrow> \<not> pf_of (mem c' (heap_start c))"
      using chain_member(5) [OF ch b] gt by simp
    show "x \<notin> E \<and> x + sz_of (mem c x) \<notin> {n}" if "x \<in> set bs" "x \<notin> insert b E" for x
      using that chain_same_end [OF ch b that(1)] n(2) by auto
  qed (use n(1) al chain_member(4) [OF ch] Fb in \<open>auto simp: m' srpc_addr\<close>)
  moreover have "backref (mem c') (set bs) b"
    using n nb al [OF b] al [OF n(1)] by (auto simp: backref_def Let_def m' srpc_addr)
  ultimately have "heap_ok c' bs F (insert b E - {b})" by (intro heap_ok_repaired)
  then show "heap_ok c' bs F (E - {b})" by (simp add: heap_ok_def phys_def)
qed

section \<open>Cutting and joining blocks\<close>

lemma init_header_mem:
  fixes r w c
  assumes "aligned64 r"
  defines "c' \<equiv> init_header r w c"
  shows "mem c' r = w" "mem c' (r + 8) = make_sig_dc False 0" "touches c c' {r}"
    "same_geom c c'" "same_lists c c'"
proof -
  show "mem c' r = w" "mem c' (r + 8) = make_sig_dc False 0"
    using assms(1) by (auto simp: c'_def init_header_def uid_clear_all_def srpc_addr)
  show "same_geom c c'" "same_lists c c'"
    by (simp_all add: c'_def init_header_def uid_clear_all_def same_geom_def same_lists_def)
  show "touches c c' {r}" unfolding c'_def init_header_def uid_clear_all_def touches_def
    using assms(1) by (auto simp: srpc_addr aligned_offset_eq0)
qed

lemma block_set_size_mem:
  "mem (block_set_size b s c) = (mem c)(b := (mem c b AND FLAG_MASK) OR s)"
  "same_geom c (block_set_size b s c)" "same_lists c (block_set_size b s c)"
  by (simp_all add: block_set_size_def)

lemma backref_cong:
  assumes "backref m B x" "sz_of (m' x) = sz_of (m x)"
    "x + sz_of (m x) \<in> B' \<Longrightarrow> pf_of (m' (x + sz_of (m x))) \<Longrightarrow> x + sz_of (m x) \<in> B \<and>
       pf_of (m (x + sz_of (m x))) \<and> m' (x + sz_of (m x) + 56) = m (x + sz_of (m x) + 56)"
  shows "backref m' B' x"
  using assms by (auto simp: backref_def Let_def)

text \<open>After the cut, the successor of the remainder may still carry the size of the block
  before the cut.\<close>

lemma cut_ok:
  assumes h: "heap_ok c (xs @ b # ys) F E" and bF: "b \<notin> F"
    and s: "aligned64 s" "128 \<le> unat s" "unat s + 128 \<le> unat (sz_of (mem c b))"
  defines "r \<equiv> b + s"
  defines "c' \<equiv> block_set_size b s (init_header r ((sz_of (mem c b) - s) OR BLOCK_FREE) c)"
  shows "heap_ok c' (xs @ b # r # ys) F (insert r (E - {b}))"
    and "touches c c' {b, r}" and "mem c' b = (mem c b AND FLAG_MASK) OR s"
    and "mem c' r = (sz_of (mem c b) - s) OR BLOCK_FREE"
    and "\<And>y. y < 64 \<Longrightarrow> y \<noteq> 0 \<Longrightarrow> mem c' (b + y) = mem c (b + y)"
    and "r \<notin> set (xs @ b # ys)" "aligned64 r"
proof -
  let ?m = "mem c" and ?m' = "mem c'"
  note ch = heap_okD(2) [OF h]
  note mb = chain_member [OF ch, of b, simplified]
  show ar: "aligned64 r" using mb(1) s by (simp add: r_def)
  have ur: "unat r = unat b + unat s"
    unfolding r_def by (rule chain_step [of _ _ "get_heap_end c"]) (use s mb(6) in linarith)
  show rn: "r \<notin> set (xs @ b # ys)"
    by (rule chain_interior [OF ch, of b]) (use ur s in simp_all)
  then have rb: "r \<noteq> b" by auto
  define c1 where "c1 = init_header r ((sz_of (?m b) - s) OR BLOCK_FREE) c"
  note i = init_header_mem [OF ar, where w = "(sz_of (?m b) - s) OR BLOCK_FREE" and c = c, folded c1_def]
  have c': "c' = block_set_size b s c1" by (simp add: c'_def c1_def)
  have m1: "mem c1 b = ?m b" "y < 64 \<Longrightarrow> mem c1 (b + y) = ?m (b + y)" for y
    using touchesD [OF i(3) mb(1)] rb by auto
  have m': "?m' = (mem c1)(b := (?m b AND FLAG_MASK) OR s)"
    by (simp add: c' block_set_size_mem m1)
  show b': "?m' b = (?m b AND FLAG_MASK) OR s" and r': "?m' r = (sz_of (?m b) - s) OR BLOCK_FREE"
    using rb by (simp_all add: m' i)
  show by': "?m' (b + y) = ?m (b + y)" if "y < 64" "y \<noteq> 0" for y
    using that m1(2) by (simp add: m')
  have t1: "touches c1 c' {b}" unfolding c' block_set_size_def by (rule touches_poke0 [OF mb(1)])
  show t: "touches c c' {b, r}" using touches_trans [OF i(3) t1] by (simp add: insert_commute)
  have al: "aligned64 x" if "x \<in> set (xs @ b # ys)" for x using chain_member(1) [OF ch that] .
  have out: "?m' x = ?m x" "y < 64 \<Longrightarrow> ?m' (x + y) = ?m (x + y)" if "x \<in> set (xs @ ys)" for x y
    using touchesD [OF t al [of x]] that rn chain_distinct [OF ch] by auto
  have szs: "sz_of (?m' b) = s" "sz_of (?m' r) = sz_of (?m b) - s" "\<not> pf_of (?m' r)"
    "pf_of (?m' b) = pf_of (?m b)"
    using s mb(2) by (simp_all add: b' r')
  have r8: "sig_of (?m' (r + 8))"
    using aligned_offset_eq0(1) [OF ar mb(1), of 8] by (simp add: m' i)
  have chain': "chain ?m' (heap_start c) (get_heap_end c) (xs @ b # r # ys)"
    unfolding r_def
  proof (rule chain_cut [OF ch])
    show "sz_of (?m' b) = s" "aligned64 s" "128 \<le> unat s" "unat s + 128 \<le> unat (sz_of (?m b))"
      using szs s by simp_all
    show "sig_of (?m' (b + 8))" using by' [of 8] mb(4) by simp
    show "sz_of (?m' (b + s)) = sz_of (?m b) - s" "sig_of (?m' (b + s + 8))"
      using szs(2) r8 by (simp_all add: r_def)
  qed (use out in auto)
  have br: "backref ?m' (set (xs @ b # r # ys)) x"
    if "x \<in> set (xs @ b # r # ys)" "x \<notin> insert r (E - {b})" for x
  proof (cases "x = b")
    case True
    then show ?thesis using szs rb by (simp add: backref_def Let_def flip: r_def)
  next
    case False
    then have x: "x \<in> set (xs @ ys)" "x \<notin> E" using that by auto
    then have bx: "backref ?m (set (xs @ b # ys)) x" using h by (auto simp: heap_ok_def phys_def)
    define n where "n = x + sz_of (?m x)"
    show ?thesis
    proof (rule backref_cong [OF bx], fold n_def)
      show "sz_of (?m' x) = sz_of (?m x)" using out x by simp
      assume n: "n \<in> set (xs @ b # r # ys)" "pf_of (?m' n)"
      then have "n \<noteq> r" using szs by auto
      then have "n = b \<or> n \<in> set (xs @ ys)" using n by auto
      then show "n \<in> set (xs @ b # ys) \<and> pf_of (?m n) \<and> ?m' (n + 56) = ?m (n + 56)"
        using n(2) out by' [of 56] szs by auto
    qed
  qed
  have st: "\<not> pf_of (?m' x)" if "x \<in> set (xs @ b # r # ys)" "x = heap_start c" for x
    using that h out szs unfolding heap_ok_def phys_def by (cases "x = r"; cases "x = b"; auto)
  have sg: "same_geom c c'" "same_lists c c'"
    using i(4,5) block_set_size_mem(2,3) [of c1 b s] by (simp_all add: c' same_geom_def same_lists_def)
  have Fb: "x \<in> set (xs @ ys)" if "x \<in> F" for x using heap_okD(4) [OF h] that bF by auto
  have "flok c' F"
    by (rule flok_cong [OF heap_okD(3) [OF h]]) (use sg(2) out Fb in \<open>auto simp: same_lists_def block_word\<close>)
  with chain' br st Fb geom_cong [OF sg(1)] sg(1) h
  show "heap_ok c' (xs @ b # r # ys) F (insert r (E - {b}))"
    by (auto simp: heap_ok_def phys_def same_geom_def)
qed

lemma join_ok:
  assumes h: "heap_ok c (xs @ b # n # ys) F E" and bF: "b \<notin> F" "n \<notin> F"
  defines "c' \<equiv> block_set_size b (sz_of (mem c b) + sz_of (mem c n)) c"
  shows "heap_ok c' (xs @ b # ys) F (insert b (E - {n}))"
    and "touches c c' {b}" and "mem c' = (mem c)(b := (mem c b AND FLAG_MASK) OR (sz_of (mem c b) + sz_of (mem c n)))"
    and "sz_of (mem c' b) = sz_of (mem c b) + sz_of (mem c n)" "fr_of (mem c' b) = fr_of (mem c b)"
    and "n = b + sz_of (mem c b)" "n \<notin> set (xs @ b # ys)"
proof -
  let ?m = "mem c" and ?m' = "mem c'"
  note ch = heap_okD(2) [OF h]
  note mb = chain_member [OF ch, of b, simplified] and mn = chain_member [OF ch, of n, simplified]
  show m': "?m' = ?m(b := (?m b AND FLAG_MASK) OR (sz_of (?m b) + sz_of (?m n)))"
    by (simp add: c'_def block_set_size_mem)
  show "touches c c' {b}" unfolding c'_def block_set_size_def by (rule touches_poke0 [OF mb(1)])
  have d: "distinct (xs @ b # n # ys)" by (rule chain_distinct [OF ch])
  then show "n \<notin> set (xs @ b # ys)" by auto
  have al: "aligned64 x" if "x \<in> set (xs @ b # n # ys)" for x using chain_member(1) [OF ch that] .
  show szb: "sz_of (?m' b) = sz_of (?m b) + sz_of (?m n)" and "fr_of (?m' b) = fr_of (?m b)"
    using mb(2) mn(2) by (simp_all add: m')
  have pfb: "pf_of (?m' b) = pf_of (?m b)" using mb(2) mn(2) by (simp add: m')
  have out: "?m' x = ?m x" if "x \<noteq> b" for x using that by (simp add: m')
  have off: "?m' (x + y) = ?m (x + y)" if "x \<in> set (xs @ b # n # ys)" "y < 64" "y \<noteq> 0" for x y
    using that al [OF that(1)] mb(1) by (auto simp: m' srpc_addr)
  note j = chain_join [OF ch, of ?m']
  show n: "n = b + sz_of (?m b)" by (rule j(2)) (use d szb off [of _ 8] mb(4) m' in auto)
  have chain': "chain ?m' (heap_start c) (get_heap_end c) (xs @ b # ys)"
    by (rule j(1)) (use d szb off [of _ 8] mb(4) m' in auto)
  have br: "backref ?m' (set (xs @ b # ys)) x"
    if "x \<in> set (xs @ b # ys)" "x \<notin> insert b (E - {n})" for x
  proof -
    have x: "x \<in> set (xs @ ys)" "x \<noteq> b" "x \<notin> E" using that d by auto
    then have "backref ?m (set (xs @ b # n # ys)) x" using h by (auto simp: heap_ok_def phys_def)
    then show ?thesis
    proof (rule backref_cong)
      show "sz_of (?m' x) = sz_of (?m x)" using out x by simp
      show "x + sz_of (?m x) \<in> set (xs @ b # ys) \<Longrightarrow> pf_of (?m' (x + sz_of (?m x))) \<Longrightarrow>
        x + sz_of (?m x) \<in> set (xs @ b # n # ys) \<and> pf_of (?m (x + sz_of (?m x))) \<and>
        ?m' (x + sz_of (?m x) + 56) = ?m (x + sz_of (?m x) + 56)"
        using off [of "x + sz_of (?m x)" 56] out [of "x + sz_of (?m x)"] pfb
        by (cases "x + sz_of (?m x) = b") auto
    qed
  qed
  have st: "\<not> pf_of (?m' x)" if "x \<in> set (xs @ b # ys)" "x = heap_start c" for x
    using that h out pfb unfolding heap_ok_def phys_def by (cases "x = b") auto
  have sg: "same_geom c c'" "same_lists c c'" by (simp_all add: c'_def block_set_size_mem)
  have Fb: "x \<in> set (xs @ ys)" if "x \<in> F" for x using heap_okD(4) [OF h] that bF by auto
  have "x \<noteq> b" if "x \<in> F" for x using that bF by auto
  then have "flok c' F"
    by (intro flok_cong [OF heap_okD(3) [OF h]])
       (use sg(2) out off [of _ 16] off [of _ 24] Fb in \<open>auto simp: same_lists_def block_word\<close>)
  with chain' br st Fb geom_cong [OF sg(1)] sg(1) h
  show "heap_ok c' (xs @ b # ys) F (insert b (E - {n}))"
    by (auto simp: heap_ok_def phys_def same_geom_def)
qed

text \<open>\<open>meta_same\<close>: state, signature word and owners of a block are kept; \<open>keep\<close>: and its size.\<close>

definition meta_same :: "tlsf_ctrl \<Rightarrow> tlsf_ctrl \<Rightarrow> u64 \<Rightarrow> bool" where
  "meta_same c c' x \<longleftrightarrow> fr_of (mem c' x) = fr_of (mem c x) \<and> mem c' (x + 8) = mem c (x + 8) \<and>
     mem c' (x + 32) = mem c (x + 32) \<and> mem c' (x + 40) = mem c (x + 40) \<and> mem c' (x + 48) = mem c (x + 48)"

definition keep :: "tlsf_ctrl \<Rightarrow> tlsf_ctrl \<Rightarrow> u64 \<Rightarrow> bool" where
  "keep c c' x \<longleftrightarrow> meta_same c c' x \<and> sz_of (mem c' x) = sz_of (mem c x)"

lemma meta_same_trans: "meta_same c c' x \<Longrightarrow> meta_same c' c'' x \<Longrightarrow> meta_same c c'' x"
  by (simp add: meta_same_def)

lemma keep_trans: "keep c c' x \<Longrightarrow> keep c' c'' x \<Longrightarrow> keep c c'' x"
  by (simp add: keep_def meta_same_def)

lemma keep_refl [simp]: "keep c c x"
  by (simp add: keep_def meta_same_def)

lemma keep_hdr: "hdr_same c c' \<Longrightarrow> aligned64 x \<Longrightarrow> keep c c' x"
  by (simp add: keep_def meta_same_def hdr_sameD)

lemma keep_untouched: "touches c c' Z \<Longrightarrow> aligned64 x \<Longrightarrow> x \<notin> Z \<Longrightarrow> keep c c' x"
  by (simp add: keep_def meta_same_def touchesD)

lemma same_ctl_trans: "same_ctl c c' \<Longrightarrow> same_ctl c' c'' \<Longrightarrow> same_ctl c c''"
  by (simp add: same_ctl_def)

lemma same_ctl_poke [simp]: "same_ctl c (poke a v c)" "same_ctl c c"
  by (simp_all add: same_ctl_def)

lemma keep_set_prev_info:
  assumes "aligned64 n" "n \<noteq> b" "aligned64 x"
  shows "keep c (set_prev_info n b c) x" "same_ctl c (set_prev_info n b c)"
proof -
  have "mem (set_prev_info n b c) = (mem c)(n := mem c n OR BLOCK_PREV_FREE, n + 56 := sz_of (mem c b))"
    using assms(2) by (auto simp: set_prev_info_def Let_def block_word)
  then show "keep c (set_prev_info n b c) x"
    using assms by (auto simp: keep_def meta_same_def srpc_addr)
  show "same_ctl c (set_prev_info n b c)" by (simp add: set_prev_info_def Let_def same_ctl_def)
qed

text \<open>The two uses of the back reference, guarded by the end of the pool.\<close>

lemma prev_info_if_ok:
  assumes h: "heap_ok c bs F E" and b: "b \<in> set bs"
  defines "n \<equiv> block_next c b"
  defines "c' \<equiv> (if n < pool_end c then set_prev_info n b c else c)"
  shows "heap_ok c' bs F (E - {b})" "touches c c' {n}" "same_ctl c c'"
    and "x \<in> set bs \<Longrightarrow> keep c c' x" and "mem c' b = mem c b"
proof -
  note ch = heap_okD(2) [OF h]
  have n: "n = b + sz_of (mem c b)" by (simp add: n_def block_next_def block_word)
  have gt: "n \<noteq> b" using chain_member(3,7) [OF ch b] n by auto
  note e = chain_end_iff [OF h b, folded n]
  have "heap_ok c' bs F (E - {b}) \<and> touches c c' {n} \<and> same_ctl c c' \<and>
    (\<forall>x \<in> set bs. keep c c' x) \<and> mem c' b = mem c b"
  proof (cases "n \<in> set bs")
    case True
    then have c': "c' = set_prev_info n b c" using e by (simp add: c'_def)
    note s = set_prev_info_ok [OF h b True n, folded c']
    have al: "aligned64 x" if "x \<in> set bs" for x using chain_member(1) [OF ch that] .
    have "n + 56 \<noteq> b" using al [OF True] al [OF b] by (auto simp: srpc_addr)
    then show ?thesis
      using s keep_set_prev_info [OF al [OF True] gt] keep_set_prev_info(2) [OF al [OF True] gt al [OF b]] al gt
      by (auto simp: c')
  next
    case False
    then have "c' = c" using e by (simp add: c'_def)
    with heap_ok_last [OF h b] False n show ?thesis by auto
  qed
  then show "heap_ok c' bs F (E - {b})" "touches c c' {n}" "same_ctl c c'"
    "x \<in> set bs \<Longrightarrow> keep c c' x" "mem c' b = mem c b" by auto
qed

lemma write_footer_keep:
  assumes "heap_ok c bs F E" "b \<in> set bs" "x \<in> set bs"
  shows "keep c (write_block_footer b c) x" "mem (write_block_footer b c) x = mem c x"
    "same_ctl c (write_block_footer b c)"
proof -
  note t = write_block_footer_ok(2) [OF assms(1,2)]
  have x: "aligned64 x" "x \<notin> {b + sz_of (mem c b) - 64}"
    using chain_member(1) [OF heap_okD(2) [OF assms(1)] assms(3)] footer_line(3) [OF assms(1,2)] assms(3) by auto
  show "keep c (write_block_footer b c) x" "mem (write_block_footer b c) x = mem c x"
    using keep_untouched [OF t x] touchesD(1) [OF t x] by simp_all
  show "same_ctl c (write_block_footer b c)" by (simp add: write_block_footer_def)
qed

lemma split_block_ok:
  assumes h: "heap_ok c (xs @ b # ys) F E" and bF: "b \<notin> F"
    and s: "aligned64 s" "128 \<le> unat s" "unat s + 128 \<le> unat (sz_of (mem c b))"
  defines "r \<equiv> b + s" and "c' \<equiv> split_block b s c"
  shows "heap_ok c' (xs @ b # r # ys) (insert r F) (E - {b})"
    and "sz_of (mem c' b) = s" "fr_of (mem c' r)" "sz_of (mem c' r) = sz_of (mem c b) - s"
    and "meta_same c c' b" "\<And>x. x \<in> set (xs @ ys) \<Longrightarrow> keep c c' x" "same_ctl c c'"
    and "touches c c' ({b, r, b + sz_of (mem c b), b + sz_of (mem c b) - 64} \<union> F)"
    and "r \<notin> set (xs @ b # ys)" "aligned64 r"
proof -
  let ?bs = "xs @ b # r # ys"
  define c2 where "c2 = block_set_size b s (init_header r ((sz_of (mem c b) - s) OR BLOCK_FREE) c)"
  note k = cut_ok [OF h bF s, folded r_def, folded c2_def]
  have ab: "aligned64 b" and as: "aligned64 (sz_of (mem c b) - s)"
    using chain_member(1,2) [OF heap_okD(2) [OF h]] s(1) by simp_all
  have sz: "sz_of (mem c2 b) = s" "sz_of (mem c2 r) = sz_of (mem c b) - s" "fr_of (mem c2 r)"
    using s(1) as by (simp_all add: k(3,4))
  define n where "n = block_next c2 r"
  have n: "n = b + sz_of (mem c b)" by (simp add: n_def block_next_def block_word sz(2)) (simp add: r_def)
  define c3 where "c3 = (if n < pool_end c2 then set_prev_info n r c2 else c2)"
  have rin: "r \<in> set ?bs" by simp
  note p = prev_info_if_ok [OF k(1) rin, folded n_def, folded c3_def]
  have szr3: "sz_of (mem c3 r) = sz_of (mem c b) - s" by (simp add: p(5) sz)
  define c4 where "c4 = write_block_footer r c3"
  note f = write_block_footer_ok [OF p(1) rin, folded c4_def]
    and fk = write_footer_keep [OF p(1) rin, folded c4_def]
  have c': "c' = insert_block r c4"
    by (simp add: c'_def split_block_def Let_def block_word r_def c4_def c3_def c2_def n_def)
  have rF: "r \<notin> F" using k(6) heap_okD(4) [OF h] by auto
  note i = insert_block_ok [OF f(1) rin rF, folded c']
  show "r \<notin> set (xs @ b # ys)" and ar: "aligned64 r" by (fact k)+
  have al: "aligned64 x" if "x \<in> set ?bs" for x using chain_member(1) [OF heap_okD(2) [OF k(1)] that] .
  have k24: "keep c2 c' x" if "x \<in> set ?bs" for x
    by (rule keep_trans [OF keep_trans [OF p(4) [OF that] fk(1) [OF that]] keep_hdr [OF i(2) al [OF that]]])
  show "heap_ok c' ?bs (insert r F) (E - {b})"
    by (rule heap_ok_more_exc [OF i(1)]) auto
  show "sz_of (mem c' b) = s" using k24 [of b] sz by (simp add: keep_def)
  show "fr_of (mem c' r)" "sz_of (mem c' r) = sz_of (mem c b) - s"
    using k24 [OF rin] sz by (auto simp: keep_def meta_same_def)
  have "meta_same c c2 b" using k(5) s(1) by (simp add: meta_same_def k(3))
  then show "meta_same c c' b" using k24 [of b] by (auto simp: keep_def intro: meta_same_trans)
  show "keep c c' x" if "x \<in> set (xs @ ys)" for x
  proof (rule keep_trans [OF keep_untouched [OF k(2)] k24])
    show "aligned64 x" using al that by auto
    show "x \<notin> {b, r}" using k(6) that chain_distinct [OF heap_okD(2) [OF h]] by auto
  qed (use that in auto)
  have "same_ctl c c2" by (simp add: c2_def block_set_size_def init_header_def uid_clear_all_def same_ctl_def)
  then show "same_ctl c c'" using p(3) fk(3) [OF rin] i(4) by (blast intro: same_ctl_trans)
  have "r + sz_of (mem c3 r) - 64 = b + sz_of (mem c b) - 64" unfolding szr3 by (simp add: r_def)
  then show "touches c c' ({b, r, b + sz_of (mem c b), b + sz_of (mem c b) - 64} \<union> F)"
    using touches_trans [OF touches_trans [OF touches_trans [OF k(2) p(2)] f(2)] i(3)] n
    by (rule_tac touches_mono) auto
qed

lemma keep_poke_pf:
  assumes "aligned64 b" "aligned64 x"
  shows "keep c (poke b (mem c b AND NOT BLOCK_PREV_FREE) c) x"
  using assms by (auto simp: keep_def meta_same_def srpc_addr)

lemma keep_block_set_size:
  assumes "aligned64 b" "aligned64 x" "aligned64 s"
  shows "meta_same c (block_set_size b s c) x"
  using assms by (auto simp: block_set_size_mem meta_same_def srpc_addr)

lemma coalesce_next_ok:
  assumes h: "heap_ok c (xs @ b # n # ys) F E" and bF: "b \<notin> F" "n \<in> F"
  defines "c' \<equiv> coalesce_next b c"
  shows "heap_ok c' (xs @ b # ys) (F - {n}) (E - {n})"
    and "sz_of (mem c' b) = sz_of (mem c b) + sz_of (mem c n)"
    and "meta_same c c' b" "\<And>x. x \<in> set (xs @ ys) \<Longrightarrow> keep c c' x" "same_ctl c c'"
    and "touches c c' (insert b (insert (n + sz_of (mem c n)) (F - {n})))"
proof -
  note ch = heap_okD(2) [OF h]
  note d = chain_distinct [OF ch]
  have al: "aligned64 x" if "x \<in> set (xs @ b # n # ys)" for x using chain_member(1) [OF ch that] .
  have asz: "aligned64 (sz_of (mem c b) + sz_of (mem c n))"
    using chain_member(2) [OF ch, of b] chain_member(2) [OF ch, of n] by simp
  define c1 where "c1 = remove_block n c"
  note r = remove_block_ok [OF h bF(2), folded c1_def]
  have e1: "mem c1 x = mem c x" if "x \<in> set (xs @ b # n # ys)" for x using hdr_sameD(1) [OF r(2) al [OF that]] .
  define c2 where "c2 = block_set_size b (sz_of (mem c b) + sz_of (mem c n)) c1"
  have j: "heap_ok c2 (xs @ b # ys) (F - {n}) (insert b (E - {n}))"
    and jt: "touches c1 c2 {b}" and js: "sz_of (mem c2 b) = sz_of (mem c b) + sz_of (mem c n)"
    and n: "n = b + sz_of (mem c b)"
    using join_ok [OF r(1)] bF by (simp_all add: e1 c2_def)
  define c3 where "c3 = poke b (mem c2 b AND NOT BLOCK_PREV_FREE) c2"
  have bin: "b \<in> set (xs @ b # ys)" by simp
  note k = poke_flags_ok [OF j bin, of "mem c2 b AND NOT BLOCK_PREV_FREE", folded c3_def, simplified]
  have s3: "sz_of (mem c3 b) = sz_of (mem c b) + sz_of (mem c n)" by (simp add: c3_def js)
  have bn: "block_next c b = n" and bz: "block_size c1 b = sz_of (mem c b)" "block_size c n = sz_of (mem c n)"
    using e1 [of b] n by (simp_all add: block_next_def block_word)
  have c': "c' = (if block_next c3 b < pool_end c3 then set_prev_info (block_next c3 b) b c3 else c3)"
    by (simp only: c'_def coalesce_next_def Let_def bn c1_def [symmetric] bz c2_def [symmetric] c3_def [symmetric])
  note p = prev_info_if_ok [OF k(1) bin, folded c']
  have k13: "keep c2 c' x" if "x \<in> set (xs @ b # ys)" for x
  proof (rule keep_trans [OF _ p(4) [OF that]])
    show "keep c2 c3 x" unfolding c3_def by (rule keep_poke_pf) (use al that in auto)
  qed
  show "heap_ok c' (xs @ b # ys) (F - {n}) (E - {n})" by (rule heap_ok_more_exc [OF p(1)]) auto
  show "sz_of (mem c' b) = sz_of (mem c b) + sz_of (mem c n)" by (simp add: p(5) s3)
  have "meta_same c c1 b" using keep_hdr [OF r(2)] al by (simp add: keep_def)
  moreover have "meta_same c1 c2 b" unfolding c2_def using al asz by (intro keep_block_set_size) auto
  ultimately show "meta_same c c' b" using k13 [OF bin] by (auto simp: keep_def intro: meta_same_trans)
  show "keep c c' x" if "x \<in> set (xs @ ys)" for x
  proof -
    have x: "aligned64 x" "x \<notin> {b}" "x \<in> set (xs @ b # ys)" using that al d by auto
    show ?thesis
      by (rule keep_trans [OF keep_trans [OF keep_hdr [OF r(2) x(1)] keep_untouched [OF jt x(1,2)]] k13 [OF x(3)]])
  qed
  have "same_ctl c1 c3" by (simp add: c3_def c2_def block_set_size_def same_ctl_def)
  then show "same_ctl c c'" using r(4) p(3) by (blast intro: same_ctl_trans)
  have "block_next c3 b = n + sz_of (mem c n)"
    by (simp add: block_next_def block_word s3) (simp add: n add.assoc)
  with touches_trans [OF touches_trans [OF touches_trans [OF r(3) jt] k(2)] p(2)]
  show "touches c c' (insert b (insert (n + sz_of (mem c n)) (F - {n})))"
    by (rule_tac touches_mono) auto
qed

text \<open>Backward merge: the block marked \<^verbatim>\<open>BLOCK_PREV_FREE\<close> finds its predecessor in the row.\<close>

lemma pred_found:
  assumes h: "heap_ok c bs F E" and b: "b \<in> set bs" "pf_of (mem c b)"
    and E: "\<And>x. x \<in> E \<Longrightarrow> x \<in> set bs \<Longrightarrow> x + sz_of (mem c x) \<noteq> b"
  obtains xs q ys where "bs = xs @ q # b # ys" "prev_size c b = sz_of (mem c q)"
    "b = q + sz_of (mem c q)" "validate_prev_size b c"
proof -
  note ch = heap_okD(2) [OF h] and g = heap_okD(1) [OF h]
  from b(1) obtain us ys where bs: "bs = us @ b # ys" by (auto simp: in_set_conv_decomp)
  have "b \<noteq> heap_start c" using h b by (auto simp: heap_ok_def phys_def)
  with ch bs obtain xs q where us: "us = xs @ [q]" by (cases us rule: rev_cases) auto
  with ch bs have q: "b = q + sz_of (mem c q)" by (auto simp: chain_append)
  have qin: "q \<in> set bs" using bs us by simp
  note mq = chain_member [OF ch qin]
  have "backref (mem c) (set bs) q" using h qin E [of q] q by (auto simp: heap_ok_def phys_def)
  then have ps: "mem c (b + 56) = sz_of (mem c q)" using b q by (auto simp: backref_def Let_def)
  have nz: "sz_of (mem c q) \<noteq> 0" using mq(3) by auto
  have "unat (sz_of (mem c q) mod 64) = 0"
    using mq(2) by (simp add: unat_mod_distrib aligned64_mod)
  then have m: "sz_of (mem c q) mod ALIGN_SIZE = 0" by (simp add: ALIGN_SIZE_def unat_eq_zero)
  have le: "unat (sz_of (mem c q)) \<le> unat (pool_size c)" "unat (pool_start c) \<le> unat q"
    using mq(5,6) geom_end [OF g] g unfolding geom_def by linarith+
  have "unat (pool_start c + pool_size c) = unat (get_heap_end c)"
    using geom_end(1) [OF g] by (simp add: pool_end_def)
  then have lt: "q < pool_start c + pool_size c" using mq(3,6) by (simp add: word_less_nat_alt)
  have "b - sz_of (mem c q) = q" by (simp add: q)
  then have "validate_prev_size b c"
    unfolding validate_prev_size_def Let_def ps using nz m le lt
    by (simp add: word_le_nat_alt word_less_nat_alt not_less not_le)
  with that [of xs q ys] bs us ps q show thesis by simp
qed

lemma coalesce_prev_ok:
  assumes h: "heap_ok c bs F E" and b: "b \<in> set bs" "b \<notin> F"
    and E: "\<And>x. x \<in> E \<Longrightarrow> x \<in> set bs \<Longrightarrow> x + sz_of (mem c x) \<noteq> b"
    and F: "\<And>x. x \<in> set bs \<Longrightarrow> x \<noteq> b \<Longrightarrow> fr_of (mem c x) \<longleftrightarrow> x \<in> F"
  shows "(\<exists>e. coalesce_prev b c = (b, c\<lparr>tlsf_errno := e\<rparr>)) \<or>
    (\<exists>xs q ys c'. bs = xs @ q # b # ys \<and> q \<in> F \<and> coalesce_prev b c = (q, c') \<and>
       heap_ok c' (xs @ q # ys) (F - {q}) (insert q (E - {b})) \<and>
       sz_of (mem c' q) = sz_of (mem c q) + sz_of (mem c b) \<and> b = q + sz_of (mem c q) \<and>
       (\<forall>x. aligned64 x \<longrightarrow> meta_same c c' x) \<and> (\<forall>x \<in> set (xs @ ys). keep c c' x) \<and>
       same_ctl c c' \<and> touches c c' F)"
proof (cases "pf_of (mem c b)")
  case False
  then have "coalesce_prev b c = (b, c\<lparr>tlsf_errno := tlsf_errno c\<rparr>)"
    by (simp add: coalesce_prev_def block_word)
  then show ?thesis by blast
next
  case True
  obtain xs q ys where q: "bs = xs @ q # b # ys" "prev_size c b = sz_of (mem c q)"
    "b = q + sz_of (mem c q)" "validate_prev_size b c"
    using pred_found [OF h b(1) True E] by blast
  note ch = heap_okD(2) [OF h]
  have qin: "q \<in> set bs" and bin: "b \<in> set bs" using q by simp_all
  have d: "distinct bs" by (rule chain_distinct [OF ch])
  then have qb: "q \<noteq> b" using q(1) by auto
  have sg: "validate_block_signature c q"
    using chain_member(4) [OF ch qin] by (simp add: validate_block_signature_def sig_word)
  have p: "b - prev_size c b = q" using q(2,3) by simp
  show ?thesis
  proof (cases "q \<in> F")
    case False
    then have "\<not> block_is_free c q" using F [OF qin qb] by (simp add: block_word)
    then have "coalesce_prev b c = (b, c\<lparr>tlsf_errno := TLSF_ERR_BLOCK_CORRUPTED\<rparr>)"
      using True q(4) sg by (simp add: coalesce_prev_def block_word p set_errno_def Let_def)
    then show ?thesis by blast
  next
    case qF: True
    have fq: "block_is_free c q" using qF F [OF qin qb] by (simp add: block_word)
    define c1 where "c1 = remove_block q c"
    note r = remove_block_ok [OF h qF, folded c1_def]
    have al: "aligned64 x" if "x \<in> set bs" for x using chain_member(1) [OF ch that] .
    have e1: "mem c1 x = mem c x" if "x \<in> set bs" for x using hdr_sameD(1) [OF r(2) al [OF that]] .
    define c' where "c' = block_set_size q (sz_of (mem c q) + sz_of (mem c b)) c1"
    have cp: "coalesce_prev b c = (q, c')"
      using True q(4) sg fq by (simp add: coalesce_prev_def block_word p Let_def c'_def e1 [OF qin]
          e1 [OF bin] flip: c1_def)
    have h1: "heap_ok c1 (xs @ q # b # ys) (F - {q}) E" using r(1) q(1) by simp
    have j: "heap_ok c' (xs @ q # ys) (F - {q}) (insert q (E - {b}))" "touches c1 c' {q}"
      "sz_of (mem c' q) = sz_of (mem c q) + sz_of (mem c b)"
      using join_ok [OF h1] b(2) by (simp_all add: e1 [OF qin] e1 [OF bin] c'_def)
    have asz: "aligned64 (sz_of (mem c q) + sz_of (mem c b))"
      using chain_member(2) [OF ch qin] chain_member(2) [OF ch bin] by simp
    have ms: "meta_same c c' x" if "aligned64 x" for x
      using keep_hdr [OF r(2) that] keep_block_set_size [OF al [OF qin] that asz, of c1]
      by (auto simp: keep_def c'_def intro: meta_same_trans)
    have kp: "keep c c' x" if "x \<in> set (xs @ ys)" for x
      using keep_trans [OF keep_hdr [OF r(2)] keep_untouched [OF j(2)]] al that d q(1) by auto
    have "same_ctl c c'" using r(4) by (simp add: c'_def block_set_size_def same_ctl_def)
    moreover have "touches c c' F" using touches_mono [OF touches_trans [OF r(3) j(2)]] qF by auto
    ultimately show ?thesis using cp j q qF ms kp by blast
  qed
qed

end
