(* ===== verification/Tlsf_Alloc.thy ===== *)
theory Tlsf_Alloc
  imports Tlsf_Block
begin

text \<open>
  Creating a pool, allocating and freeing (\<^verbatim>\<open>libs/tlsf_txn/tlsf_txn.c\<close>: \<^verbatim>\<open>tlsf_create\<close>,
  \<^verbatim>\<open>tlsf_malloc_internal\<close>, \<^verbatim>\<open>tlsf_malloc\<close>, \<^verbatim>\<open>tlsf_calloc\<close>,
  \<^verbatim>\<open>tlsf_free_internal\<close>, \<^verbatim>\<open>tlsf_free\<close>, \<^verbatim>\<open>tlsf_free_nb\<close>). The invariant \<open>heap_inv c bs\<close> says that
  the blocks \<open>bs\<close> tile the heap, that the free lists hold exactly the free ones, that the
  back references are right, and that \<^verbatim>\<open>used_bytes\<close> is the sum of the allocated payloads.
\<close>

section \<open>Library calls on the pool's words\<close>

text \<open>\<^verbatim>\<open>memset(p, 0, n)\<close> and \<^verbatim>\<open>memcpy(d, s, n)\<close> on little-endian words, \<open>p\<close>, \<open>d\<close> and \<open>s\<close> being
  8-byte aligned: a word whose last bytes lie beyond the range keeps those bytes.\<close>

definition merge_low :: "nat \<Rightarrow> u64 \<Rightarrow> u64 \<Rightarrow> u64" where
  "merge_low k new old = take_bit (8 * k) new OR push_bit (8 * k) (drop_bit (8 * k) old)"

definition mem_write :: "u64 \<Rightarrow> u64 \<Rightarrow> (u64 \<Rightarrow> u64) \<Rightarrow> (u64 \<Rightarrow> u64) \<Rightarrow> u64 \<Rightarrow> u64" where
  "mem_write p n src m a =
     (let off = unat a - unat p in
      if unat a < unat p \<or> unat n \<le> off then m a
      else if off + 8 \<le> unat n then src a
      else merge_low (unat n - off) (src a) (m a))"

definition memset0 :: "u64 \<Rightarrow> u64 \<Rightarrow> (u64 \<Rightarrow> u64) \<Rightarrow> u64 \<Rightarrow> u64" where
  "memset0 p n m = mem_write p n (\<lambda>_. 0) m"

definition memcpy_words :: "u64 \<Rightarrow> u64 \<Rightarrow> u64 \<Rightarrow> (u64 \<Rightarrow> u64) \<Rightarrow> u64 \<Rightarrow> u64" where
  "memcpy_words d s n m = mem_write d n (\<lambda>a. m (s + (a - d))) m"

section \<open>tlsf\_create\<close>

definition fresh_ctrl :: "u64 \<Rightarrow> u64 \<Rightarrow> tlsf_ctrl \<Rightarrow> tlsf_ctrl" where
  "fresh_ctrl pm sz c =
     (let heap_start0 = (pm + CTRL_SIZE + ALIGN_SIZE - 1) AND NOT (ALIGN_SIZE - 1)
      in \<lparr>format_version = TLSF_FORMAT_VERSION, matrix = \<lambda>_ _. 0, fl_bitmap = 0, sl_bitmaps = \<lambda>_. 0,
          mutex = mutex_new, stack_top = 0, owner_pid = 0, txn_epoch = 0,
          bul = \<lambda>_. \<lparr>bul_addr = 0, bul_old_value = 0\<rparr>, pool_start = pm, pool_size = sz,
          heap_start = heap_start0, heap_size = (sz - (heap_start0 - pm)) AND NOT (ALIGN_SIZE - 1),
          used_bytes = 0, mem = memset0 pm sz (mem c), tlsf_errno = tlsf_errno c\<rparr>)"

definition tlsf_create :: "u64 \<Rightarrow> u64 \<Rightarrow> tlsf_ctrl \<Rightarrow> u64 \<times> tlsf_ctrl" where
  "tlsf_create pm sz c =
     (if pm = 0 then (0, c)
      else if sz < MIN_POOL_SIZE then (0, set_errno TLSF_ERR_POOL_TOO_SMALL c)
      else if sz > MAX_POOL_SIZE then (0, set_errno TLSF_ERR_POOL_TOO_SMALL c)
      else let c0 = fresh_ctrl pm sz c;
               first = get_first_block c0;
               c1 = write_block_footer first (init_header first (heap_size c0 OR BLOCK_FREE) c0);
               n = block_next c1 first;
               c2 = (if n < get_heap_end c1 then
                       poke (n + 56) (block_size c1 first)
                         (poke (n + 8) (make_sig_dc False 0) (poke n BLOCK_PREV_FREE c1))
                     else c1)
           in (pm, set_errno TLSF_OK (insert_block first c2)))"

section \<open>Allocation\<close>

text \<open>A logged store's first half: on a full log the operation returns \<open>r\<close>.\<close>

definition pushing :: "u64 \<Rightarrow> 'r \<Rightarrow> tlsf_ctrl \<Rightarrow> (tlsf_ctrl \<Rightarrow> 'r \<times> tlsf_ctrl) \<Rightarrow> 'r \<times> tlsf_ctrl" where
  "pushing a r c k = (case bul_push_word a c of (ok, c') \<Rightarrow> if ok then k c' else (r, c'))"

text \<open>The logged form of \<open>set_prev_info\<close>.\<close>

definition push_prev_info :: "u64 \<Rightarrow> u64 \<Rightarrow> tlsf_ctrl \<Rightarrow> bool \<times> tlsf_ctrl" where
  "push_prev_info n b c =
     pushing n False c (\<lambda>c1.
       pushing (n + 56) False (poke n (size_flags c1 n OR BLOCK_PREV_FREE) c1) (\<lambda>c2.
         (True, poke (n + 56) (block_size c2 b) c2)))"

definition malloc_mark_next :: "u64 \<Rightarrow> bool \<Rightarrow> tlsf_ctrl \<Rightarrow> bool \<times> tlsf_ctrl" where
  "malloc_mark_next b did_split c =
     (let n = block_next c b in
      if n < get_heap_end c then
        if did_split then push_prev_info n b c
        else pushing n False c (\<lambda>c1. (True, poke n (size_flags c1 n AND NOT BLOCK_PREV_FREE) c1))
      else (True, c))"

definition malloc_set_owner :: "u64 \<Rightarrow> u16 \<Rightarrow> u16 \<Rightarrow> tlsf_ctrl \<Rightarrow> u64 \<times> tlsf_ctrl" where
  "malloc_set_owner b uid data_type c =
     pushing (b + 8) 0 c (\<lambda>c1.
       let c2 = uid_clear_all b (poke (b + 8) (make_sig_dc False data_type) c1) in
       pushing (uid_word_addr b 0) 0 c2 (\<lambda>c3.
         let c4 = uid_put b 0 uid c3; useful = block_payload_size c4 b in
         pushing (used_bytes_addr c4) 0 c4 (\<lambda>c5.
           (ptr_from_block b, c5\<lparr>used_bytes := used_bytes c5 + useful\<rparr>))))"

definition tlsf_malloc_internal :: "u64 \<Rightarrow> u16 \<Rightarrow> u16 \<Rightarrow> tlsf_ctrl \<Rightarrow> u64 \<times> tlsf_ctrl" where
  "tlsf_malloc_internal sz uid data_type c =
     (if sz = 0 then (0, c)
      else let total = request_to_block_size sz in
        case mapping_search total of (fl, sl) \<Rightarrow>
          let b = find_suitable_block fl sl c in
          if b = 0 then (0, set_errno TLSF_ERR_OUT_OF_MEMORY c)
          else if \<not> validate_block_signature c b then (0, set_errno TLSF_ERR_BLOCK_CORRUPTED c)
          else
            let c1 = remove_block b c;
                block_total = block_size c1 b;
                did_split = (block_total - total \<ge> MIN_BLOCK_SZ);
                c2 = (if did_split then split_block b total c1 else c1);
                c3 = mark_block_allocated b c2
            in case malloc_mark_next b did_split c3 of (ok, c4) \<Rightarrow>
                 if ok then malloc_set_owner b uid data_type c4 else (0, c4))"

text \<open>The public operations run under the mutex; \<open>None\<close> is a call that is still waiting for it.\<close>

definition with_lock :: "caller \<Rightarrow> (int \<Rightarrow> 'r) \<Rightarrow> (tlsf_ctrl \<Rightarrow> 'r \<times> tlsf_ctrl) \<Rightarrow> tlsf_ctrl \<Rightarrow> ('r \<times> tlsf_ctrl) option" where
  "with_lock w err body c =
     (case lock_and_recover w c of
        None \<Rightarrow> None
      | Some (rc, c1) \<Rightarrow>
          if rc \<noteq> TLSF_OK then Some (err rc, c1)
          else case body c1 of (r, c2) \<Rightarrow> Some (r, mutex_unlock w c2))"

definition commit_if :: "bool \<Rightarrow> tlsf_ctrl \<Rightarrow> tlsf_ctrl" where
  "commit_if ok c = (if ok then bul_commit c else c)"

definition tlsf_malloc :: "caller \<Rightarrow> u64 \<Rightarrow> u64 \<Rightarrow> u16 \<Rightarrow> u16 \<Rightarrow> tlsf_ctrl \<Rightarrow> (u64 \<times> tlsf_ctrl) option" where
  "tlsf_malloc w tlsf sz uid data_type c =
     (if tlsf = 0 then Some (0, c)
      else if uid = 0 then Some (0, set_errno TLSF_ERR_UID_INVALID c)
      else if sz = 0 then Some (0, c)
      else with_lock w (\<lambda>_. 0) (\<lambda>c1.
        case tlsf_malloc_internal sz uid data_type c1 of (p, c2) \<Rightarrow> (p, commit_if (p \<noteq> 0) c2)) c)"

definition tlsf_calloc :: "caller \<Rightarrow> u64 \<Rightarrow> u64 \<Rightarrow> u64 \<Rightarrow> u16 \<Rightarrow> u16 \<Rightarrow> tlsf_ctrl \<Rightarrow> (u64 \<times> tlsf_ctrl) option" where
  "tlsf_calloc w tlsf cnt sz uid data_type c =
     (if unat cnt * unat sz \<ge> 2 ^ 64 then Some (0, set_errno TLSF_ERR_OUT_OF_MEMORY c)
      else case tlsf_malloc w tlsf (cnt * sz) uid data_type c of
        None \<Rightarrow> None
      | Some (p, c1) \<Rightarrow>
          if p \<noteq> 0 then Some (p, c1\<lparr>mem := memset0 p (cnt * sz) (mem c1)\<rparr>) else Some (p, c1))"

section \<open>Release\<close>

fun drop_owner :: "u64 \<Rightarrow> u16 \<Rightarrow> nat list \<Rightarrow> tlsf_ctrl \<Rightarrow> bool \<times> tlsf_ctrl" where
  "drop_owner b uid [] c = (True, c)"
| "drop_owner b uid (i # is) c =
     (if uid_at c b i = uid then
        pushing (uid_word_addr b i) False c (\<lambda>c1. drop_owner b uid is (uid_put b i 0 c1))
      else drop_owner b uid is c)"

definition release_block :: "u64 \<Rightarrow> tlsf_ctrl \<Rightarrow> bool \<times> tlsf_ctrl" where
  "release_block b c =
     (let useful = block_payload_size c b in
      pushing (used_bytes_addr c) False c (\<lambda>c1.
        case coalesce_prev b (c1\<lparr>used_bytes := used_bytes c1 - useful\<rparr>) of (merged, c2) \<Rightarrow>
          let n = block_next c2 merged;
              c3 = (if n < get_heap_end c2 \<and> block_is_free c2 n then coalesce_next merged c2 else c2);
              c4 = mark_block_free merged c3;
              c5 = insert_block merged c4;
              after = block_next c5 merged
          in if after < get_heap_end c5 then push_prev_info after merged c5 else (True, c5)))"

definition tlsf_free_internal :: "u64 \<Rightarrow> u16 \<Rightarrow> tlsf_ctrl \<Rightarrow> bool \<times> tlsf_ctrl" where
  "tlsf_free_internal ptr uid c =
     (if ptr = 0 then (False, c)
      else let b = block_from_ptr ptr in
        if \<not> validate_pointer b c \<or> \<not> validate_block_signature c b then
          (False, set_errno TLSF_ERR_BLOCK_CORRUPTED c)
        else if block_is_free c b then (False, set_errno TLSF_ERR_NOT_ALLOCATED c)
        else if uid_find c b uid < 0 then (False, set_errno TLSF_ERR_UID_NOT_FOUND c)
        else case drop_owner b uid [0..<TLSF_MAX_OWNERS] c of (ok, c1) \<Rightarrow>
          if \<not> ok then (False, c1)
          else if uid_count c1 b > 0 then (True, c1)
          else release_block b c1)"

definition tlsf_free :: "caller \<Rightarrow> u64 \<Rightarrow> u64 \<Rightarrow> u16 \<Rightarrow> tlsf_ctrl \<Rightarrow> (unit \<times> tlsf_ctrl) option" where
  "tlsf_free w tlsf ptr uid c =
     (if tlsf = 0 \<or> ptr = 0 then Some ((), c)
      else if uid = 0 then Some ((), set_errno TLSF_ERR_UID_INVALID c)
      else with_lock w (\<lambda>_. ()) (\<lambda>c1.
        case tlsf_free_internal ptr uid c1 of (ok, c2) \<Rightarrow> ((), commit_if ok c2)) c)"

definition tlsf_free_nb :: "u64 \<Rightarrow> u64 \<Rightarrow> u16 \<Rightarrow> tlsf_ctrl \<Rightarrow> tlsf_ctrl" where
  "tlsf_free_nb tlsf ptr uid c =
     (if tlsf = 0 \<or> ptr = 0 then c
      else if uid = 0 then set_errno TLSF_ERR_UID_INVALID c
      else case tlsf_free_internal ptr uid c of (ok, c1) \<Rightarrow> commit_if ok c1)"

section \<open>Log entries do not disturb the heap\<close>

definition log_entry :: "u64 \<Rightarrow> tlsf_ctrl \<Rightarrow> tlsf_ctrl" where
  "log_entry a c = c\<lparr>bul := (bul c)(unat (stack_top c) := \<lparr>bul_addr = a, bul_old_value = load_word a c\<rparr>),
     stack_top := stack_top c + 1\<rparr>"

lemma log_entry_simps [simp]:
  "mem (log_entry a c) = mem c" "used_bytes (log_entry a c) = used_bytes c"
  "matrix (log_entry a c) = matrix c" "fl_bitmap (log_entry a c) = fl_bitmap c"
  "sl_bitmaps (log_entry a c) = sl_bitmaps c" "mutex (log_entry a c) = mutex c"
  "pool_start (log_entry a c) = pool_start c" "pool_size (log_entry a c) = pool_size c"
  "heap_start (log_entry a c) = heap_start c" "heap_size (log_entry a c) = heap_size c"
  "format_version (log_entry a c) = format_version c" "tlsf_errno (log_entry a c) = tlsf_errno c"
  "owner_pid (log_entry a c) = owner_pid c" "txn_epoch (log_entry a c) = txn_epoch c"
  by (simp_all add: log_entry_def)

lemma log_entry_top [simp]:
  "unat (stack_top c) < 64 \<Longrightarrow> unat (stack_top (log_entry a c)) = Suc (unat (stack_top c))"
  by (simp add: log_entry_def unat_word_ariths)

lemma pushing_ok:
  "unat (stack_top c) < 64 \<Longrightarrow> pushing a r c k = k (log_entry a c)"
  by (simp add: pushing_def bul_push_ok word_less_nat_alt log_entry_def)

lemma heap_ok_ctl:
  assumes "mem c' = mem c" "same_geom c c'" "same_lists c c'"
  shows "heap_ok c' bs F E = heap_ok c bs F E"
  using assms geom_cong [OF assms(2)]
  by (auto simp: heap_ok_def same_geom_def same_lists_def flok_def flist_def block_size_def)

lemma heap_ok_log [simp]: "heap_ok (log_entry a c) bs F E = heap_ok c bs F E"
  by (rule heap_ok_ctl) (simp_all add: same_geom_def same_lists_def)

lemma heap_ok_used [simp]: "heap_ok (c\<lparr>used_bytes := u\<rparr>) bs F E = heap_ok c bs F E"
  by (rule heap_ok_ctl) (simp_all add: same_geom_def same_lists_def)

lemma heap_ok_errno [simp]:
  "heap_ok (c\<lparr>tlsf_errno := u\<rparr>) bs F E = heap_ok c bs F E" "heap_ok (set_errno u c) bs F E = heap_ok c bs F E"
  by (rule heap_ok_ctl; simp add: same_geom_def same_lists_def set_errno_def)+

section \<open>The invariant\<close>

definition used_sum :: "(u64 \<Rightarrow> u64) \<Rightarrow> u64 list \<Rightarrow> u64" where
  "used_sum m bs = (\<Sum>b\<leftarrow>bs. if fr_of (m b) then 0 else sz_of (m b) - 64)"

definition free_blocks :: "tlsf_ctrl \<Rightarrow> u64 list \<Rightarrow> u64 set" where
  "free_blocks c bs = {b \<in> set bs. fr_of (mem c b)}"

definition heap_inv :: "tlsf_ctrl \<Rightarrow> u64 list \<Rightarrow> bool" where
  "heap_inv c bs \<longleftrightarrow> heap_ok c bs (free_blocks c bs) {} \<and> used_bytes c = used_sum (mem c) bs"

text \<open>The lines from a block's header to the header after it.\<close>

definition span :: "tlsf_ctrl \<Rightarrow> u64 \<Rightarrow> u64 set" where
  "span c b = {z. unat b \<le> unat z \<and> unat z \<le> unat b + unat (sz_of (mem c b))}"

lemma used_sum_cong:
  "(\<And>x. x \<in> set bs \<Longrightarrow> fr_of (m' x) = fr_of (m x) \<and> sz_of (m' x) = sz_of (m x)) \<Longrightarrow>
   used_sum m' bs = used_sum m bs"
  unfolding used_sum_def by (rule arg_cong [where f = sum_list], rule map_cong) auto

lemma used_sum_append [simp]: "used_sum m (xs @ ys) = used_sum m xs + used_sum m ys"
  by (simp add: used_sum_def)

lemma used_sum_Cons [simp]:
  "used_sum m (x # xs) = (if fr_of (m x) then 0 else sz_of (m x) - 64) + used_sum m xs"
  "used_sum m [] = 0"
  by (simp_all add: used_sum_def)

lemma keep_sum: "(\<And>x. x \<in> set bs \<Longrightarrow> keep c c' x) \<Longrightarrow> used_sum (mem c') bs = used_sum (mem c) bs"
  by (rule used_sum_cong) (simp add: keep_def meta_same_def)

lemma keep_free_blocks: "(\<And>x. x \<in> set bs \<Longrightarrow> keep c c' x) \<Longrightarrow> free_blocks c' bs = free_blocks c bs"
  by (auto simp: free_blocks_def keep_def meta_same_def)

lemma mark_block_allocated_ok:
  assumes h: "heap_ok c bs F E" and b: "b \<in> set bs" "b \<notin> F"
  defines "c' \<equiv> mark_block_allocated b c"
  shows "heap_ok c' bs F E" "touches c c' {b}" "same_ctl c c'" "\<not> fr_of (mem c' b)"
    "sz_of (mem c' b) = sz_of (mem c b)" "\<And>x. x \<in> set bs \<Longrightarrow> x \<noteq> b \<Longrightarrow> keep c c' x"
proof -
  have c': "c' = poke b (mem c b AND NOT BLOCK_FREE) c" by (simp add: c'_def mark_block_allocated_def)
  note k = poke_flags_ok [OF h b(1), of "mem c b AND NOT BLOCK_FREE", folded c', simplified]
  then show "heap_ok c' bs F E" and t: "touches c c' {b}" by simp_all
  show "same_ctl c c'" "\<not> fr_of (mem c' b)" "sz_of (mem c' b) = sz_of (mem c b)" by (simp_all add: c')
  show "keep c c' x" if "x \<in> set bs" "x \<noteq> b" for x
    using keep_untouched [OF t chain_member(1) [OF heap_okD(2) [OF h] that(1)]] that(2) by simp
qed

lemma span_lines:
  assumes h: "heap_ok c bs F E" and b: "b \<in> set bs"
    and s: "unat s \<le> unat (sz_of (mem c b))"
  shows "b \<in> span c b" "b + s \<in> span c b" "b + sz_of (mem c b) \<in> span c b" "b + sz_of (mem c b) - 64 \<in> span c b"
proof -
  note m = chain_member [OF heap_okD(2) [OF h] b]
  have "unat (b + s) = unat b + unat s"
    by (rule chain_step [of _ _ "get_heap_end c"]) (use m(6) s in linarith)
  moreover have "unat (b + sz_of (mem c b) - 64) = unat b + unat (sz_of (mem c b)) - 64"
    using unat_diff_nowrap [of 64 "b + sz_of (mem c b)"] m by simp
  ultimately show "b \<in> span c b" "b + s \<in> span c b" "b + sz_of (mem c b) \<in> span c b"
    "b + sz_of (mem c b) - 64 \<in> span c b"
    using m(3,7) s by (simp_all add: span_def)
qed

section \<open>Taking a block off the free lists\<close>

definition take_block :: "u64 \<Rightarrow> u64 \<Rightarrow> tlsf_ctrl \<Rightarrow> tlsf_ctrl" where
  "take_block b tot c =
     (let c1 = remove_block b c;
          c2 = (if block_size c1 b - tot \<ge> MIN_BLOCK_SZ then split_block b tot c1 else c1)
      in mark_block_allocated b c2)"

text \<open>\<open>taken\<close>: the result of taking \<open>b\<close> out of the row \<open>bs\<close>, giving the row \<open>bs'\<close>.\<close>

definition taken :: "tlsf_ctrl \<Rightarrow> u64 list \<Rightarrow> u64 \<Rightarrow> u64 \<Rightarrow> tlsf_ctrl \<Rightarrow> u64 list \<Rightarrow> bool" where
  "taken c bs b tot c' bs' \<longleftrightarrow>
     heap_ok c' bs' (free_blocks c' bs') {} \<and> b \<in> set bs' \<and> \<not> fr_of (mem c' b) \<and>
     unat tot \<le> unat (sz_of (mem c' b)) \<and> unat (sz_of (mem c' b)) < unat tot + 128 \<and>
     unat (sz_of (mem c' b)) \<le> unat (sz_of (mem c b)) \<and>
     used_sum (mem c') bs' = used_sum (mem c) bs + (sz_of (mem c' b) - 64) \<and>
     set bs \<subseteq> set bs' \<and> (\<forall>x \<in> set bs - {b}. keep c c' x) \<and>
     (\<forall>x \<in> set bs' - set bs. fr_of (mem c' x)) \<and>
     touches c c' (free_blocks c bs \<union> span c b) \<and> format_version c' = format_version c \<and>
     mutex c' = mutex c \<and> same_geom c c'"

lemma free_blocks_member: "x \<in> free_blocks c bs \<longleftrightarrow> x \<in> set bs \<and> fr_of (mem c x)"
  by (auto simp: free_blocks_def)

lemma take_whole:
  assumes inv: "heap_inv c bs" and b: "b \<in> free_blocks c bs"
    and le: "unat tot \<le> unat (sz_of (mem c b))" "unat (sz_of (mem c b)) < unat tot + 128"
  defines "c' \<equiv> mark_block_allocated b (remove_block b c)"
  shows "taken c bs b tot c' bs" "same_ctl c c'"
proof -
  let ?F = "free_blocks c bs"
  have h: "heap_ok c bs ?F {}" and bin: "b \<in> set bs" "fr_of (mem c b)"
    using inv b by (auto simp: heap_inv_def free_blocks_member)
  define c1 where "c1 = remove_block b c"
  note r = remove_block_ok [OF h b, folded c1_def]
  have al: "aligned64 x" if "x \<in> set bs" for x using chain_member(1) [OF heap_okD(2) [OF h] that] .
  have c'_eq: "c' = mark_block_allocated b c1" by (simp add: c'_def c1_def)
  note m = mark_block_allocated_ok [OF r(1) bin(1), folded c'_eq, simplified]
  have k: "keep c c' x" if "x \<in> set bs" "x \<noteq> b" for x
    using keep_trans [OF keep_hdr [OF r(2) al [OF that(1)]] m(6) [OF that]] .
  have szb: "sz_of (mem c' b) = sz_of (mem c b)" using m(5) hdr_sameD(1) [OF r(2) al [OF bin(1)]] by simp
  have F': "free_blocks c' bs = ?F - {b}"
    using k m(4) by (auto simp: free_blocks_def keep_def meta_same_def)
  from bin(1) obtain xs ys where bs: "bs = xs @ b # ys" by (auto simp: in_set_conv_decomp)
  have d: "distinct bs" by (rule chain_distinct [OF heap_okD(2) [OF h]])
  have ks: "used_sum (mem c') xs = used_sum (mem c) xs" "used_sum (mem c') ys = used_sum (mem c) ys"
    by (rule keep_sum; use k bs d in auto)+
  have sum: "used_sum (mem c') bs = used_sum (mem c) bs + (sz_of (mem c' b) - 64)"
    using ks m(4) bin(2) by (simp add: bs)
  have "touches c c' (?F \<union> span c b)"
    by (rule touches_mono [OF touches_trans [OF r(3) m(2)]]) (use b in auto)
  moreover show sc: "same_ctl c c'" using r(4) m(3) by (rule same_ctl_trans)
  ultimately show "taken c bs b tot c' bs"
    unfolding taken_def using m(1,4) F' bin(1) szb le sum k same_ctl_geom [OF sc] sc
    by (auto simp: same_ctl_def)
qed

lemma take_split:
  assumes inv: "heap_inv c bs" and b: "b \<in> free_blocks c bs"
    and t: "aligned64 tot" "128 \<le> unat tot" "unat tot + 128 \<le> unat (sz_of (mem c b))"
  defines "c' \<equiv> mark_block_allocated b (split_block b tot (remove_block b c))"
  shows "\<exists>bs'. taken c bs b tot c' bs'" "same_ctl c c'"
proof -
  let ?F = "free_blocks c bs"
  have h: "heap_ok c bs ?F {}" and bin: "b \<in> set bs" "fr_of (mem c b)"
    using inv b by (auto simp: heap_inv_def free_blocks_member)
  from bin(1) obtain xs ys where bs: "bs = xs @ b # ys" by (auto simp: in_set_conv_decomp)
  have d: "distinct bs" by (rule chain_distinct [OF heap_okD(2) [OF h]])
  have al: "aligned64 x" if "x \<in> set bs" for x using chain_member(1) [OF heap_okD(2) [OF h] that] .
  define c1 where "c1 = remove_block b c"
  note r = remove_block_ok [OF h b, folded c1_def]
  have e1: "mem c1 b = mem c b" using hdr_sameD(1) [OF r(2) al [OF bin(1)]] .
  define c2 where "c2 = split_block b tot c1"
  define q where "q = b + tot"
  have h1: "heap_ok c1 (xs @ b # ys) (?F - {b}) {}" using r(1) bs by simp
  note s = split_block_ok [OF h1 _ t(1,2), folded q_def c2_def, simplified e1, OF _ t(3), simplified]
  define bs' where "bs' = xs @ b # q # ys"
  have bin': "b \<in> set bs'" by (simp add: bs'_def)
  have h2: "heap_ok c2 bs' (insert q (?F - {b})) {}" using s(1) by (simp add: bs'_def)
  have qb: "q \<noteq> b" "q \<notin> set bs" using s(9) bs by auto
  note m = mark_block_allocated_ok [OF h2 bin', simplified]
  have c'_eq: "c' = mark_block_allocated b c2" by (simp add: c'_def c2_def c1_def)
  have m': "heap_ok c' bs' (insert q (?F - {b})) {}" "touches c2 c' {b}" "same_ctl c2 c'" "\<not> fr_of (mem c' b)"
    "sz_of (mem c' b) = sz_of (mem c2 b)" "\<And>x. x \<in> set bs' \<Longrightarrow> x \<noteq> b \<Longrightarrow> keep c2 c' x"
    using m qb by (auto simp: c'_eq)
  have k: "keep c c' x" if "x \<in> set bs" "x \<noteq> b" for x
  proof -
    have "x \<in> set (xs @ ys)" "x \<in> set bs'" using that bs by (auto simp: bs'_def)
    then show ?thesis
      using keep_trans [OF keep_trans [OF keep_hdr [OF r(2) al [OF that(1)]] s(6)] m'(6)] that(2) by simp
  qed
  have fq: "fr_of (mem c' q)" using m'(6) [of q] qb s(3) by (auto simp: bs'_def keep_def meta_same_def)
  have F': "free_blocks c' bs' = insert q (?F - {b})"
    using k m'(4) fq bs qb by (auto simp: free_blocks_def keep_def meta_same_def bs'_def)
  have ks: "used_sum (mem c') xs = used_sum (mem c) xs" "used_sum (mem c') ys = used_sum (mem c) ys"
    by (rule keep_sum; use k bs d in auto)+
  have szb: "sz_of (mem c' b) = tot" using m'(5) s(2) by simp
  have sum: "used_sum (mem c') bs' = used_sum (mem c) bs + (sz_of (mem c' b) - 64)"
    using ks m'(4) bin(2) fq by (simp add: bs bs'_def)
  have tl: "unat tot \<le> unat (sz_of (mem c b))" using t(3) by simp
  note sp = span_lines [OF h bin(1) tl, folded q_def]
  have "touches c c' (?F \<union> span c b)"
    by (rule touches_mono [OF touches_trans [OF touches_trans [OF r(3) s(8)] m'(2)]]) (use b sp in auto)
  moreover show sc: "same_ctl c c'" using same_ctl_trans [OF same_ctl_trans [OF r(4) s(7)] m'(3)] .
  ultimately have "taken c bs b tot c' bs'"
    unfolding taken_def using m'(1,4) F' bin' szb sum k same_ctl_geom [OF sc] sc fq bs tl
    by (auto simp: same_ctl_def bs'_def)
  then show "\<exists>bs'. taken c bs b tot c' bs'" ..
qed

lemma take_block_ok:
  assumes inv: "heap_inv c bs" and b: "b \<in> free_blocks c bs"
    and t: "aligned64 tot" "128 \<le> unat tot" "unat tot \<le> unat (sz_of (mem c b))"
  shows "\<exists>bs'. taken c bs b tot (take_block b tot c) bs'" "same_ctl c (take_block b tot c)"
proof -
  have h: "heap_ok c bs (free_blocks c bs) {}" and bin: "b \<in> set bs"
    using inv b by (auto simp: heap_inv_def free_blocks_member)
  have bsz: "block_size (remove_block b c) b = sz_of (mem c b)"
    using hdr_sameD(1) [OF remove_block_ok(2) [OF h b] chain_member(1) [OF heap_okD(2) [OF h] bin]]
    by (simp add: block_word)
  have ud: "unat (sz_of (mem c b) - tot) = unat (sz_of (mem c b)) - unat tot"
    by (rule unat_diff_nowrap [OF t(3)])
  have tb: "take_block b tot c = mark_block_allocated b
      (if unat tot + 128 \<le> unat (sz_of (mem c b)) then split_block b tot (remove_block b c) else remove_block b c)"
    unfolding take_block_def Let_def bsz MIN_BLOCK_SZ_def using ud t(3)
    by (auto simp: word_le_nat_alt)
  show "\<exists>bs'. taken c bs b tot (take_block b tot c) bs'" "same_ctl c (take_block b tot c)"
    using take_whole [OF inv b t(3)] take_split [OF inv b t(1,2)]
    by (cases "unat tot + 128 \<le> unat (sz_of (mem c b))"; force simp: tb)+
qed

section \<open>Completing an allocation\<close>

definition same_txn :: "tlsf_ctrl \<Rightarrow> tlsf_ctrl \<Rightarrow> bool" where
  "same_txn c c' \<longleftrightarrow> format_version c' = format_version c \<and> mutex c' = mutex c \<and> same_geom c c'"

lemma same_txn_trans: "same_txn c c' \<Longrightarrow> same_txn c' c'' \<Longrightarrow> same_txn c c''"
  by (simp add: same_txn_def same_geom_def)

lemma same_ctl_txn: "same_ctl c c' \<Longrightarrow> same_txn c c'"
  by (simp add: same_txn_def same_ctl_def same_geom_def)

text \<open>\<open>logged_step k c c'\<close>: at most \<open>k\<close> words were logged, nothing else of the control block moved.\<close>

definition logged_step :: "nat \<Rightarrow> tlsf_ctrl \<Rightarrow> tlsf_ctrl \<Rightarrow> bool" where
  "logged_step k c c' \<longleftrightarrow> same_txn c c' \<and> unat (stack_top c') \<le> unat (stack_top c) + k"

lemma push_prev_info_ok:
  assumes h: "heap_ok c bs F E" and b: "b \<in> set bs" "n = b + sz_of (mem c b)" "n \<in> set bs"
    and top: "unat (stack_top c) + 2 \<le> 64"
  obtains c' where "push_prev_info n b c = (True, c')" "heap_ok c' bs F (E - {b})" "touches c c' {n}"
    "\<And>x. x \<in> set bs \<Longrightarrow> keep c c' x" "used_bytes c' = used_bytes c" "logged_step 2 c c'" "same_lists c c'"
proof -
  note ch = heap_okD(2) [OF h]
  have nb: "n \<noteq> b" using chain_member(3,7) [OF ch b(1)] b(2) by auto
  define c1 where "c1 = poke n (mem c n OR BLOCK_PREV_FREE) (log_entry n c)"
  define c' where "c' = poke (n + 56) (block_size (log_entry (n + 56) c1) b) (log_entry (n + 56) c1)"
  have top1: "unat (stack_top c1) = Suc (unat (stack_top c))" using top by (simp add: c1_def)
  have eq: "push_prev_info n b c = (True, c')"
    using top top1 by (simp add: push_prev_info_def pushing_ok c'_def flip: c1_def)
  have m: "mem c' = mem (set_prev_info n b c)"
    by (simp add: c'_def c1_def set_prev_info_def Let_def block_size_def)
  have g: "same_geom c c'" "same_lists c c'" "same_geom c (set_prev_info n b c)" "same_lists c (set_prev_info n b c)"
    by (simp_all add: c'_def c1_def same_geom_def same_lists_def set_prev_info_def Let_def)
  note s = set_prev_info_ok [OF h b(1) b(3,2)]
  have "heap_ok c' bs F (E - {b})"
    using s(1) heap_ok_ctl [OF m] g by (simp add: same_geom_def same_lists_def)
  moreover have "touches c c' {n}" using s(2) by (simp add: touches_def m)
  moreover have "keep c c' x" if "x \<in> set bs" for x
    using keep_set_prev_info(1) [OF chain_member(1) [OF ch b(3)] nb chain_member(1) [OF ch that], of c]
    by (simp add: keep_def meta_same_def m)
  moreover have "unat (stack_top c') = unat (stack_top c) + 2"
    using top top1 by (simp add: c'_def)
  then have "used_bytes c' = used_bytes c" "logged_step 2 c c'"
    by (simp_all add: c'_def c1_def logged_step_def same_txn_def same_geom_def)
  ultimately show thesis using that [of c'] eq g(2) by blast
qed

lemma malloc_mark_next_ok:
  assumes h: "heap_ok c bs F {}" and b: "b \<in> set bs" and top: "unat (stack_top c) + 2 \<le> 64"
  obtains c' where "malloc_mark_next b did_split c = (True, c')" "heap_ok c' bs F {}"
    "touches c c' {b + sz_of (mem c b)}" "\<And>x. x \<in> set bs \<Longrightarrow> keep c c' x"
    "used_bytes c' = used_bytes c" "logged_step 2 c c'"
proof -
  let ?n = "b + sz_of (mem c b)"
  have n: "block_next c b = ?n" by (simp add: block_next_def block_word)
  note e = chain_end_iff [OF h b]
  have al: "aligned64 x" if "x \<in> set bs" for x using chain_member(1) [OF heap_okD(2) [OF h] that] .
  consider (last) "?n \<notin> set bs" | (split) "?n \<in> set bs" did_split | (whole) "?n \<in> set bs" "\<not> did_split" by blast
  then show thesis
  proof cases
    case last
    then have "malloc_mark_next b did_split c = (True, c)" using e by (simp add: malloc_mark_next_def n)
    then show thesis by (rule that) (use h in \<open>auto simp: logged_step_def same_txn_def same_geom_def\<close>)
  next
    case split
    then have "malloc_mark_next b did_split c = push_prev_info ?n b c"
      using e by (simp add: malloc_mark_next_def n)
    then show thesis
      using push_prev_info_ok [OF h b refl split(1) top] that by (metis empty_Diff)
  next
    case whole
    define c1 where "c1 = log_entry ?n c"
    define c' where "c' = poke ?n (mem c1 ?n AND NOT BLOCK_PREV_FREE) c1"
    have "heap_ok c1 bs F {}" using h by (simp add: c1_def)
    note k = poke_flags_ok [OF this whole(1), of "mem c1 ?n AND NOT BLOCK_PREV_FREE", folded c'_def, simplified]
    have "keep c c' x" if "x \<in> set bs" for x
      using keep_poke_pf [OF al [OF whole(1)] al [OF that], of c1]
      by (simp add: keep_def meta_same_def c'_def c1_def)
    moreover have "malloc_mark_next b did_split c = (True, c')"
      using whole e top by (simp add: malloc_mark_next_def n pushing_ok c'_def c1_def Let_def)
    moreover have "logged_step 2 c c'" "used_bytes c' = used_bytes c"
      using top by (simp_all add: c'_def c1_def logged_step_def same_txn_def same_geom_def)
    moreover have "touches c c' {?n}" using k(2) by (simp add: touches_def c1_def)
    ultimately show thesis using that k(1) by blast
  qed
qed

lemma uid_list_cleared: "uid_list (uid_clear_all b c) b = replicate 12 0"
proof (rule nth_equalityI)
  fix i assume "i < length (uid_list (uid_clear_all b c) b)"
  then have i: "i < 12" by simp
  then have "i div 4 \<in> {0, 1, 2}" by auto
  then have "mem (uid_clear_all b c) (uid_word_addr b i) = 0"
    by (auto simp: uid_clear_all_def uid_word_addr_def)
  with i show "uid_list (uid_clear_all b c) b ! i = replicate 12 0 ! i"
    by (simp add: uid_list_nth uid_at_def)
qed simp

lemma uid_list_log [simp]: "uid_list (log_entry a c) b = uid_list c b" "uid_at (log_entry a c) b i = uid_at c b i"
  by (simp_all add: uid_list_def uid_at_def)

lemma malloc_set_owner_mem:
  assumes ab: "aligned64 b" and top: "unat (stack_top c) + 3 \<le> 64"
  obtains c' where "malloc_set_owner b uid dt c = (ptr_from_block b, c')" "touches c c' {b}"
    "mem c' b = mem c b" "mem c' (b + 8) = make_sig_dc False dt" "mem c' (b + 56) = mem c (b + 56)"
    "uid_list c' b = uid # replicate 11 0" "used_bytes c' = used_bytes c + (sz_of (mem c b) - 64)"
    "logged_step 3 c c'" "same_lists c c'"
proof -
  define c2 where "c2 = uid_clear_all b (poke (b + 8) (make_sig_dc False dt) (log_entry (b + 8) c))"
  define c3 where "c3 = log_entry (uid_word_addr b 0) c2"
  define c4 where "c4 = uid_put b 0 uid c3"
  define c5 where "c5 = log_entry (used_bytes_addr c4) c4"
  define c' where "c' = c5\<lparr>used_bytes := used_bytes c5 + block_payload_size c4 b\<rparr>"
  have top2: "unat (stack_top c2) = Suc (unat (stack_top c))" using top by (simp add: c2_def uid_clear_all_def)
  have top4: "unat (stack_top c4) = Suc (Suc (unat (stack_top c)))"
    using top top2 by (simp add: c4_def c3_def uid_put_def)
  have eq: "malloc_set_owner b uid dt c = (ptr_from_block b, c')"
    unfolding malloc_set_owner_def Let_def
    using top top2 top4 by (simp add: pushing_ok c'_def c5_def flip: c2_def c3_def c4_def)
  have mm: "mem c' = (mem c)(b + 8 := make_sig_dc False dt, b + 40 := 0, b + 48 := 0,
      b + 32 := mem c4 (b + 32))"
    by (auto simp: c'_def c5_def c4_def c3_def c2_def uid_put_def uid_clear_all_def uid_word_addr_def)
  have b0: "mem c' b = mem c b" "mem c' (b + 8) = make_sig_dc False dt" "mem c' (b + 56) = mem c (b + 56)"
    by (simp_all add: mm)
  have t: "touches c c' {b}"
    using ab by (auto simp: touches_def mm aligned_offset_eq)
  have u: "uid_list c' b = uid # replicate 11 0"
  proof -
    have "uid_list c' b = uid_list c4 b" by (simp add: c'_def c5_def uid_list_def uid_at_def)
    also have "\<dots> = (replicate 12 0)[0 := uid]"
      unfolding c4_def by (subst uid_list_put) (simp_all add: c3_def c2_def uid_list_cleared)
    also have "\<dots> = uid # replicate 11 0" by (simp add: numeral_eq_Suc)
    finally show ?thesis .
  qed
  have g: "same_geom c c'" "same_lists c c'"
    by (simp_all add: c'_def c5_def c4_def c3_def c2_def uid_put_def uid_clear_all_def same_geom_def same_lists_def)
  have "mem c4 b = mem c b" using ab b0 by (simp add: c'_def c5_def)
  then have ub: "used_bytes c' = used_bytes c + (sz_of (mem c b) - 64)"
    by (simp add: c'_def c5_def block_payload_size_def block_word HEADER_SIZE_def)
       (simp add: c4_def c3_def c2_def uid_put_def uid_clear_all_def)
  have "logged_step 3 c c'"
    using top4 top g by (simp add: c'_def c5_def logged_step_def same_txn_def)
       (simp add: c4_def c3_def c2_def uid_put_def uid_clear_all_def)
  with eq t b0 u ub g(2) show thesis by (rule_tac that)
qed

lemma heap_ok_line:
  assumes h: "heap_ok c bs F E" and b: "b \<in> set bs" "b \<notin> F" and t: "touches c c' {b}"
    and g: "same_geom c c'" "same_lists c c'"
    and w: "mem c' b = mem c b" "sig_of (mem c' (b + 8))" "mem c' (b + 56) = mem c (b + 56)"
  shows "heap_ok c' bs F E"
proof (rule heap_ok_frame [OF h g])
  note ch = heap_okD(2) [OF h]
  have out: "mem c' x = mem c x" "y < 64 \<Longrightarrow> mem c' (x + y) = mem c (x + y)" if "x \<in> set bs" "x \<noteq> b" for x y
    using touchesD [OF t chain_member(1) [OF ch that(1)]] that(2) by simp_all
  show "sz_of (mem c' x) = sz_of (mem c x) \<and> (pf_of (mem c' x) \<longrightarrow> pf_of (mem c x)) \<and>
      sig_of (mem c' (x + 8)) \<and> mem c' (x + 56) = mem c (x + 56)" if "x \<in> set bs" for x
    using that out [OF that] w chain_member(4) [OF ch that] by (cases "x = b") auto
  show "mem c' (x + 16) = mem c (x + 16) \<and> mem c' (x + 24) = mem c (x + 24)" if "x \<in> F" for x
  proof -
    have "x \<in> set bs" "x \<noteq> b" using that heap_okD(4) [OF h] b(2) by auto
    then show ?thesis using out(2) [of x] by simp
  qed
qed

lemma malloc_set_owner_ok:
  assumes h: "heap_ok c bs F {}" and b: "b \<in> set bs" "b \<notin> F" and top: "unat (stack_top c) + 3 \<le> 64"
  obtains c' where "malloc_set_owner b uid dt c = (ptr_from_block b, c')" "heap_ok c' bs F {}"
    "touches c c' {b}" "\<And>x. x \<in> set bs \<Longrightarrow> x \<noteq> b \<Longrightarrow> keep c c' x"
    "mem c' b = mem c b" "mem c' (b + 8) = make_sig_dc False dt" "uid_list c' b = uid # replicate 11 0"
    "used_bytes c' = used_bytes c + (sz_of (mem c b) - 64)" "logged_step 3 c c'"
proof -
  note ch = heap_okD(2) [OF h]
  obtain c' where c': "malloc_set_owner b uid dt c = (ptr_from_block b, c')" "touches c c' {b}"
    "mem c' b = mem c b" "mem c' (b + 8) = make_sig_dc False dt" "mem c' (b + 56) = mem c (b + 56)"
    "uid_list c' b = uid # replicate 11 0" "used_bytes c' = used_bytes c + (sz_of (mem c b) - 64)"
    "logged_step 3 c c'" "same_lists c c'"
    by (rule malloc_set_owner_mem [OF chain_member(1) [OF ch b(1)] top])
  have "same_geom c c'" using c'(8) by (simp add: logged_step_def same_txn_def)
  then have "heap_ok c' bs F {}"
    by (rule heap_ok_line [OF h b c'(2) _ c'(9,3) _ c'(5)]) (simp add: c'(4))
  moreover have "keep c c' x" if "x \<in> set bs" "x \<noteq> b" for x
    using keep_untouched [OF c'(2) chain_member(1) [OF ch that(1)]] that(2) by simp
  ultimately show thesis using that c' by blast
qed

section \<open>Allocation as a whole\<close>

lemma aligned_align_up: "aligned64 (align_up v 64)"
proof -
  have "take_bit 6 ((v + 63) AND NOT (mask 6)) = 0"
    by (rule bit_word_eqI) (auto simp: bit_take_bit_iff bit_and_iff bit_not_iff bit_mask_iff)
  moreover have "align_up v 64 = (v + 63) AND NOT (mask 6)"
    by (simp add: align_up_def mask_eq_exp_minus_1 algebra_simps)
  ultimately show ?thesis by (simp add: aligned64_take_bit)
qed

lemma request_aligned: "aligned64 (request_to_block_size sz)" "128 \<le> unat (request_to_block_size sz)"
  using aligned_align_up [of "(if align_up sz 64 < 64 then 64 else align_up sz 64) + 64"]
  by (auto simp: request_to_block_size_def Let_def tlsf_consts word_less_nat_alt aligned64_def)

definition found_block :: "u64 \<Rightarrow> tlsf_ctrl \<Rightarrow> u64" where
  "found_block sz c = (case mapping_search (request_to_block_size sz) of (fl, sl) \<Rightarrow> find_suitable_block fl sl c)"

lemma found_block_free:
  assumes "heap_inv c bs" "found_block sz c \<noteq> 0"
  shows "found_block sz c \<in> free_blocks c bs"
  using assms find_ok [of c "free_blocks c bs"]
  by (auto simp: heap_inv_def heap_ok_def found_block_def split: prod.splits)

text \<open>What a successful allocation is: \<open>b\<close> was free and is the new block; every other block is
  as before; the rest of \<open>b\<close>, if large enough, is a new free block.\<close>

definition malloced :: "tlsf_ctrl \<Rightarrow> u64 list \<Rightarrow> u64 \<Rightarrow> u64 \<Rightarrow> u16 \<Rightarrow> u16 \<Rightarrow> tlsf_ctrl \<Rightarrow> u64 list \<Rightarrow> bool" where
  "malloced c bs b tot uid dt c' bs' \<longleftrightarrow>
     heap_inv c' bs' \<and> b \<in> free_blocks c bs \<and> b \<in> set bs' \<and> \<not> fr_of (mem c' b) \<and>
     unat tot \<le> unat (sz_of (mem c' b)) \<and> unat (sz_of (mem c' b)) < unat tot + 128 \<and>
     set bs \<subseteq> set bs' \<and> (\<forall>x \<in> set bs - {b}. keep c c' x) \<and> (\<forall>x \<in> set bs' - set bs. fr_of (mem c' x)) \<and>
     touches c c' (free_blocks c bs \<union> span c b) \<and>
     mem c' (b + 8) = make_sig_dc False dt \<and> uid_list c' b = uid # replicate 11 0 \<and>
     used_bytes c' = used_bytes c + (sz_of (mem c' b) - 64)"

lemma malloc_internal_ok:
  assumes inv: "heap_inv c bs" and sz: "sz \<noteq> 0" and top: "unat (stack_top c) + 5 \<le> 64"
    and fnd: "found_block sz c \<noteq> 0"
    and fit: "unat (request_to_block_size sz) \<le> unat (block_size c (found_block sz c))"
  obtains c' bs' where "tlsf_malloc_internal sz uid dt c = (ptr_from_block (found_block sz c), c')"
    "malloced c bs (found_block sz c) (request_to_block_size sz) uid dt c' bs'" "logged_step 5 c c'"
proof -
  define b where "b = found_block sz c"
  define tot where "tot = request_to_block_size sz"
  note b = found_block_free [OF inv fnd, folded b_def]
  have h: "heap_ok c bs (free_blocks c bs) {}" and bin: "b \<in> set bs"
    using inv b by (auto simp: heap_inv_def free_blocks_member)
  have fit': "unat tot \<le> unat (sz_of (mem c b))" using fit by (simp add: block_word b_def tot_def)
  note t = request_aligned [of sz, folded tot_def]
  define c3 where "c3 = take_block b tot c"
  from take_block_ok [OF inv b t fit', folded c3_def] obtain bs' where
    tk: "taken c bs b tot c3 bs'" and sc: "same_ctl c c3" by blast
  have h3: "heap_ok c3 bs' (free_blocks c3 bs') {}" and b3: "b \<in> set bs'" "\<not> fr_of (mem c3 b)"
    using tk by (auto simp: taken_def)
  have top3: "unat (stack_top c3) = unat (stack_top c)" using sc by (simp add: same_ctl_def)
  define ds where "ds = (MIN_BLOCK_SZ \<le> block_size (remove_block b c) b - tot)"
  obtain c4 where c4: "malloc_mark_next b ds c3 = (True, c4)" "heap_ok c4 bs' (free_blocks c3 bs') {}"
    "touches c3 c4 {b + sz_of (mem c3 b)}" "\<And>x. x \<in> set bs' \<Longrightarrow> keep c3 c4 x"
    "used_bytes c4 = used_bytes c3" "logged_step 2 c3 c4"
    using malloc_mark_next_ok [OF h3 b3(1), of ds] top top3 by auto
  have top4: "unat (stack_top c4) + 3 \<le> 64" using c4(6) top top3 by (simp add: logged_step_def)
  have bF: "b \<notin> free_blocks c3 bs'" using b3 by (simp add: free_blocks_member)
  obtain c' where c': "malloc_set_owner b uid dt c4 = (ptr_from_block b, c')"
    "heap_ok c' bs' (free_blocks c3 bs') {}" "touches c4 c' {b}"
    "\<And>x. x \<in> set bs' \<Longrightarrow> x \<noteq> b \<Longrightarrow> keep c4 c' x" "mem c' b = mem c4 b"
    "mem c' (b + 8) = make_sig_dc False dt" "uid_list c' b = uid # replicate 11 0"
    "used_bytes c' = used_bytes c4 + (sz_of (mem c4 b) - 64)" "logged_step 3 c4 c'"
    using malloc_set_owner_ok [OF c4(2) b3(1) bF top4] by metis
  have sig: "validate_block_signature c b"
    using chain_member(4) [OF heap_okD(2) [OF h] bin] by (simp add: validate_block_signature_def sig_word)
  have eq: "tlsf_malloc_internal sz uid dt c = (ptr_from_block b, c')"
  proof -
    obtain fl sl where ms: "mapping_search tot = (fl, sl)" by force
    then have fb: "find_suitable_block fl sl c = b" by (simp add: b_def found_block_def tot_def)
    have tb: "mark_block_allocated b (if ds then split_block b tot (remove_block b c) else remove_block b c) = c3"
      by (simp add: c3_def take_block_def Let_def ds_def)
    show ?thesis
      using sz fnd sig c4(1) c'(1) tb
      by (cases ds) (simp_all add: tlsf_malloc_internal_def Let_def ms fb flip: tot_def b_def ds_def)
  qed
  have k: "keep c3 c' x" if "x \<in> set bs'" "x \<noteq> b" for x using keep_trans [OF c4(4) c'(4)] that by blast
  have kb: "fr_of (mem c' b) = fr_of (mem c3 b)" "sz_of (mem c' b) = sz_of (mem c3 b)"
    using c4(4) [OF b3(1)] c'(5) by (simp_all add: keep_def meta_same_def)
  have fs: "fr_of (mem c' x) = fr_of (mem c3 x) \<and> sz_of (mem c' x) = sz_of (mem c3 x)" if "x \<in> set bs'" for x
    using k [OF that] kb by (cases "x = b") (auto simp: keep_def meta_same_def)
  have sum: "used_sum (mem c') bs' = used_sum (mem c3) bs'" by (rule used_sum_cong) (rule fs)
  have fb: "free_blocks c' bs' = free_blocks c3 bs'" using fs by (auto simp: free_blocks_def)
  have sz4: "sz_of (mem c4 b) = sz_of (mem c3 b)" using c4(4) [OF b3(1)] by (simp add: keep_def)
  have ub: "used_bytes c' = used_bytes c + (sz_of (mem c' b) - 64)"
    using c'(8) c4(5) sc sz4 kb by (simp add: same_ctl_def)
  have inv': "heap_inv c' bs'"
    using c'(2) fb ub sum tk inv kb by (simp add: heap_inv_def taken_def)
  have "unat (sz_of (mem c3 b)) \<le> unat (sz_of (mem c b))" using tk by (simp add: taken_def)
  then have "b + sz_of (mem c3 b) \<in> span c b" using span_lines(2) [OF h bin] by simp
  then have "touches c c' (free_blocks c bs \<union> span c b)"
    using tk touches_mono [OF touches_trans [OF touches_trans [OF _ c4(3)] c'(3)]] span_lines(1) [OF h bin]
    by (auto simp: taken_def)
  moreover have "\<forall>x \<in> set bs - {b}. keep c c' x"
    using tk k by (auto simp: taken_def intro: keep_trans)
  moreover have "\<forall>x \<in> set bs' - set bs. fr_of (mem c' x)" using tk fs by (auto simp: taken_def)
  ultimately have "malloced c bs b tot uid dt c' bs'"
    unfolding malloced_def using inv' b b3 kb tk c' ub by (simp add: taken_def)
  moreover have "logged_step 5 c c'"
    using c4(6) c'(9) same_ctl_txn [OF sc] top3
    by (auto simp: logged_step_def intro: same_txn_trans)
  ultimately show thesis using that eq unfolding b_def tot_def by blast
qed

section \<open>Dropping an owner\<close>

lemma uid_put_fields [simp]:
  "used_bytes (uid_put b i u c) = used_bytes c" "stack_top (uid_put b i u c) = stack_top c"
  "same_geom c (uid_put b i u c)" "same_lists c (uid_put b i u c)" "same_txn c (uid_put b i u c)"
  by (simp_all add: uid_put_def same_geom_def same_lists_def same_txn_def)

lemma uid_put_line:
  assumes "aligned64 b" "i < 12"
  shows "touches c (uid_put b i u c) {b}" "mem (uid_put b i u c) b = mem c b"
    "mem (uid_put b i u c) (b + 8) = mem c (b + 8)" "mem (uid_put b i u c) (b + 56) = mem c (b + 56)"
proof -
  have "i div 4 \<in> {0, 1, 2}" using assms(2) by auto
  then obtain y where y: "uid_word_addr b i = b + y" "y \<in> {32, 40, 48}"
    by (auto simp: uid_word_addr_def)
  then show "touches c (uid_put b i u c) {b}"
    unfolding uid_put_def using assms(1) by (auto intro: touches_poke)
  show "mem (uid_put b i u c) b = mem c b" "mem (uid_put b i u c) (b + 8) = mem c (b + 8)"
    "mem (uid_put b i u c) (b + 56) = mem c (b + 56)"
    using y by (auto simp: uid_put_def)
qed

lemma drop_owner_ok:
  assumes "heap_ok c bs F {}" "b \<in> set bs" "b \<notin> F" "set is \<subseteq> {0..<12}"
    "unat (stack_top c) + length is \<le> 64"
  shows "\<exists>c'. drop_owner b uid is c = (True, c') \<and> heap_ok c' bs F {} \<and> touches c c' {b} \<and>
    mem c' b = mem c b \<and> mem c' (b + 8) = mem c (b + 8) \<and>
    (\<forall>j<12. uid_at c' b j = (if j \<in> set is \<and> uid_at c b j = uid then 0 else uid_at c b j)) \<and>
    used_bytes c' = used_bytes c \<and> logged_step (length is) c c'"
  using assms
proof (induction "is" arbitrary: c)
  case Nil
  then show ?case by (auto simp: logged_step_def same_txn_def same_geom_def)
next
  case (Cons i "is")
  have ab: "aligned64 b" using chain_member(1) [OF heap_okD(2) [OF Cons.prems(1)] Cons.prems(2)] .
  have i: "i < 12" using Cons.prems(4) by auto
  show ?case
  proof (cases "uid_at c b i = uid")
    case False
    with Cons.IH [OF Cons.prems(1-3)] Cons.prems(4,5) show ?thesis
      by (fastforce simp: logged_step_def)
  next
    case True
    define c1 where "c1 = uid_put b i 0 (log_entry (uid_word_addr b i) c)"
    note l = uid_put_line [OF ab i, where c = "log_entry (uid_word_addr b i) c" and u = 0, folded c1_def, simplified]
    have h1: "heap_ok c1 bs F {}"
    proof (rule heap_ok_line [OF _ Cons.prems(2,3)])
      show "heap_ok (log_entry (uid_word_addr b i) c) bs F {}" using Cons.prems(1) by simp
      show "sig_of (mem c1 (b + 8))"
        using l(3) chain_member(4) [OF heap_okD(2) [OF Cons.prems(1)] Cons.prems(2)] by simp
    qed (use l in \<open>simp_all add: c1_def\<close>)
    have top1: "unat (stack_top c1) = Suc (unat (stack_top c))" using Cons.prems(5) by (simp add: c1_def)
    have u1: "uid_at c1 b j = (if j = i then 0 else uid_at c b j)" if "j < 12" for j
      using uid_at_put [OF i that, of b 0 "log_entry (uid_word_addr b i) c"] by (simp add: c1_def)
    have sub: "set is \<subseteq> {0..<12}" and tp: "unat (stack_top c1) + length is \<le> 64"
      using Cons.prems(4,5) top1 by auto
    from Cons.IH [OF h1 Cons.prems(2,3) sub tp] obtain c' where
      c': "drop_owner b uid is c1 = (True, c')" "heap_ok c' bs F {}" "touches c1 c' {b}" "mem c' b = mem c1 b"
      "mem c' (b + 8) = mem c1 (b + 8)"
      "\<forall>j<12. uid_at c' b j = (if j \<in> set is \<and> uid_at c1 b j = uid then 0 else uid_at c1 b j)"
      "used_bytes c' = used_bytes c1" "logged_step (length is) c1 c'" by blast
    have "drop_owner b uid (i # is) c = (True, c')"
      using True Cons.prems(5) c'(1) by (simp add: pushing_ok c1_def)
    moreover have "touches c c' {b}"
      using touches_trans [OF _ c'(3), of c "{b}"] l(1) by (simp add: touches_def)
    moreover have "logged_step (length (i # is)) c c'"
      using c'(8) top1 by (simp add: logged_step_def same_txn_def c1_def same_geom_def uid_put_def)
    moreover have "\<forall>j<12. uid_at c' b j = (if j \<in> set (i # is) \<and> uid_at c b j = uid then 0 else uid_at c b j)"
      using c'(6) u1 True by auto
    moreover have "used_bytes c' = used_bytes c" using c'(7) by (simp add: c1_def)
    ultimately show ?thesis using c'(2,4,5) l(2,3) by auto
  qed
qed

lemma drop_owner_all:
  assumes "heap_ok c bs F {}" "b \<in> set bs" "b \<notin> F" "unat (stack_top c) + 12 \<le> 64"
  obtains c' where "drop_owner b uid [0..<TLSF_MAX_OWNERS] c = (True, c')" "heap_ok c' bs F {}"
    "touches c c' {b}" "mem c' b = mem c b" "mem c' (b + 8) = mem c (b + 8)"
    "uid_list c' b = map (\<lambda>u. if u = uid then 0 else u) (uid_list c b)"
    "used_bytes c' = used_bytes c" "logged_step 12 c c'"
proof -
  from drop_owner_ok [OF assms(1-3), of "[0..<12]" uid] assms(4) obtain c' where
    c': "drop_owner b uid [0..<12] c = (True, c')" "heap_ok c' bs F {}" "touches c c' {b}"
    "mem c' b = mem c b" "mem c' (b + 8) = mem c (b + 8)"
    "\<forall>j<12. uid_at c' b j = (if j \<in> set [0..<12] \<and> uid_at c b j = uid then 0 else uid_at c b j)"
    "used_bytes c' = used_bytes c" "logged_step 12 c c'" by auto
  have "uid_list c' b = map (\<lambda>u. if u = uid then 0 else u) (uid_list c b)"
    using c'(6) by (simp add: uid_list_def TLSF_MAX_OWNERS_def)
  with c' show thesis by (intro that [of c']) (simp_all add: TLSF_MAX_OWNERS_def)
qed

section \<open>Merging a released block with its neighbours\<close>

text \<open>The state between the merges: \<open>mg\<close> covers the released block \<open>b\<close>, is in no list, and
  its successor's back reference is still to be written.\<close>

definition merging :: "tlsf_ctrl \<Rightarrow> u64 list \<Rightarrow> u64 \<Rightarrow> tlsf_ctrl \<Rightarrow> u64 list \<Rightarrow> u64 \<Rightarrow> bool" where
  "merging c bs b c' bs' mg \<longleftrightarrow>
     heap_ok c' bs' (free_blocks c' bs' - {mg}) {mg} \<and> mg \<in> set bs' \<and> set bs' \<subseteq> set bs \<and>
     (\<forall>x \<in> set bs' - {mg}. keep c c' x) \<and>
     (\<forall>x \<in> set bs. \<not> fr_of (mem c x) \<longrightarrow> x \<noteq> b \<longrightarrow> x \<in> set bs' \<and> x \<noteq> mg) \<and>
     unat mg \<le> unat b \<and> unat b + unat (sz_of (mem c b)) \<le> unat mg + unat (sz_of (mem c' mg)) \<and>
     used_sum (mem c') (filter (\<lambda>x. x \<noteq> mg) bs') = used_sum (mem c) (filter (\<lambda>x. x \<noteq> b) bs) \<and>
     touches c c' (free_blocks c bs \<union> span c' mg) \<and> same_txn c c' \<and>
     stack_top c' = stack_top c \<and> used_bytes c' = used_bytes c"

lemma span_bound:
  assumes "unat b' \<le> unat b" "unat b + unat (sz_of (mem c b)) \<le> unat b' + unat (sz_of (mem c' b'))"
  shows "span c b \<subseteq> span c' b'"
  using assms by (auto simp: span_def)

lemma merging_prev:
  assumes inv: "heap_ok c bs (free_blocks c bs) {}" and b: "b \<in> set bs" "\<not> fr_of (mem c b)"
  shows "\<exists>mg c' bs'. coalesce_prev b c = (mg, c') \<and> merging c bs b c' bs' mg"
proof -
  let ?F = "free_blocks c bs"
  note ch = heap_okD(2) [OF inv]
  have bF: "b \<notin> ?F" using b by (simp add: free_blocks_member)
  from coalesce_prev_ok [OF inv b(1) bF] consider
    (same) e where "coalesce_prev b c = (b, c\<lparr>tlsf_errno := e\<rparr>)" |
    (merge) xs q ys c' where "bs = xs @ q # b # ys" "q \<in> ?F" "coalesce_prev b c = (q, c')"
      "heap_ok c' (xs @ q # ys) (?F - {q}) (insert q ({} - {b}))"
      "sz_of (mem c' q) = sz_of (mem c q) + sz_of (mem c b)" "b = q + sz_of (mem c q)"
      "\<forall>x. aligned64 x \<longrightarrow> meta_same c c' x" "\<forall>x \<in> set (xs @ ys). keep c c' x" "same_ctl c c'" "touches c c' ?F"
    by (auto simp: free_blocks_member)
  then show ?thesis
  proof cases
    case same
    let ?c = "c\<lparr>tlsf_errno := e\<rparr>"
    have "free_blocks ?c bs - {b} = ?F" using bF by (auto simp: free_blocks_def)
    then have "merging c bs b ?c bs b"
      using inv b heap_ok_more_exc [OF inv, of "{b}"]
      by (auto simp: merging_def keep_def meta_same_def touches_def same_txn_def same_geom_def)
    with same show ?thesis by blast
  next
    case merge
    let ?bs = "xs @ q # ys"
    have d: "distinct bs" by (rule chain_distinct [OF ch])
    have al: "aligned64 x" if "x \<in> set bs" for x using chain_member(1) [OF ch that] .
    have fr: "fr_of (mem c' x) = fr_of (mem c x)" if "x \<in> set bs" for x
      using merge(7) al [OF that] by (simp add: meta_same_def)
    have F': "free_blocks c' ?bs - {q} = ?F - {q}"
      using fr b merge(1) by (auto simp: free_blocks_def)
    have q: "q \<in> set bs" "fr_of (mem c q)" using merge(2) by (simp_all add: free_blocks_member)
    note mq = chain_member [OF ch q(1)] and mb = chain_member [OF ch b(1)]
    have ub: "unat b = unat q + unat (sz_of (mem c q))" using mq(7) merge(6) by simp
    have us: "unat (sz_of (mem c' q)) = unat (sz_of (mem c q)) + unat (sz_of (mem c b))"
      unfolding merge(5) by (rule unat_add_nowrap) (use ub mb(6) unat_lt_64 [of "get_heap_end c"] in linarith)
    have ks: "used_sum (mem c') xs = used_sum (mem c) xs" "used_sum (mem c') ys = used_sum (mem c) ys"
      by (rule keep_sum; use merge(8) in auto)+
    have fx: "filter (\<lambda>x. x \<noteq> q) xs = xs" "filter (\<lambda>x. x \<noteq> q) ys = ys"
      "filter (\<lambda>x. x \<noteq> b) xs = xs" "filter (\<lambda>x. x \<noteq> b) ys = ys" "q \<noteq> b"
      using d merge(1) by (auto simp: filter_id_conv)
    have sum: "used_sum (mem c') (filter (\<lambda>x. x \<noteq> q) ?bs) = used_sum (mem c) (filter (\<lambda>x. x \<noteq> b) bs)"
      using ks fx q(2) by (simp add: merge(1))
    have "heap_ok c' ?bs (free_blocks c' ?bs - {q}) {q}" using merge(4) F' by simp
    moreover have "touches c c' (?F \<union> span c' q)" by (rule touches_mono [OF merge(10)]) auto
    moreover have "same_txn c c'" "stack_top c' = stack_top c" "used_bytes c' = used_bytes c"
      using same_ctl_txn [OF merge(9)] merge(9) by (auto simp: same_ctl_def)
    moreover have "\<forall>x \<in> set bs. \<not> fr_of (mem c x) \<longrightarrow> x \<noteq> b \<longrightarrow> x \<in> set ?bs \<and> x \<noteq> q"
      using merge(1) q(2) by auto
    moreover have "\<forall>x \<in> set ?bs - {q}. keep c c' x" using merge(8) by auto
    ultimately have "merging c bs b c' ?bs q"
      unfolding merging_def using sum ub us merge(1) by auto
    with merge(3) show ?thesis by blast
  qed
qed

lemma merging_next:
  assumes m: "merging c bs b c' bs' mg" and ds: "distinct bs"
  defines "n \<equiv> block_next c' mg"
  assumes n: "n < get_heap_end c'" "block_is_free c' n"
  shows "\<exists>bs2. merging c bs b (coalesce_next mg c') bs2 mg"
proof -
  let ?F = "free_blocks c' bs' - {mg}" and ?c2 = "coalesce_next mg c'"
  have h: "heap_ok c' bs' ?F {mg}" and mg: "mg \<in> set bs'" using m by (auto simp: merging_def)
  note ch = heap_okD(2) [OF h]
  have nn: "n = mg + sz_of (mem c' mg)" by (simp add: n_def block_next_def block_word)
  have nin: "n \<in> set bs'" using chain_end_iff(1) [OF h mg] n(1) nn by simp
  have gt: "unat n = unat mg + unat (sz_of (mem c' mg))" "n \<noteq> mg"
    using chain_member(3,7) [OF ch mg] nn by auto
  have nF: "n \<in> ?F" using nin n(2) gt(2) by (simp add: free_blocks_member block_word)
  from mg obtain us vs where bs': "bs' = us @ mg # vs" by (auto simp: in_set_conv_decomp)
  have "chain (mem c') n (get_heap_end c') vs" using ch bs' nn by (auto simp: chain_append)
  then obtain ys where vs: "vs = n # ys"
    using nin chain_end_notin [OF ch] by (cases vs) auto
  have h': "heap_ok c' (us @ mg # n # ys) ?F {mg}" using h bs' vs by simp
  note co = coalesce_next_ok [OF h' _ nF]
  have c2: "heap_ok ?c2 (us @ mg # ys) (?F - {n}) {mg}" "sz_of (mem ?c2 mg) = sz_of (mem c' mg) + sz_of (mem c' n)"
    "meta_same c' ?c2 mg" "\<And>x. x \<in> set (us @ ys) \<Longrightarrow> keep c' ?c2 x" "same_ctl c' ?c2"
    "touches c' ?c2 (insert mg (insert (n + sz_of (mem c' n)) (?F - {n})))"
    using co gt(2) by auto
  have d: "distinct bs'" by (rule chain_distinct [OF ch])
  have F2: "free_blocks ?c2 (us @ mg # ys) - {mg} = ?F - {n}"
    using c2(4) d bs' vs by (auto simp: free_blocks_def keep_def meta_same_def)
  note mn = chain_member [OF ch nin]
  have us2: "unat (sz_of (mem ?c2 mg)) = unat (sz_of (mem c' mg)) + unat (sz_of (mem c' n))"
    unfolding c2(2) by (rule unat_add_nowrap) (use gt(1) mn(6) unat_lt_64 [of "get_heap_end c'"] in linarith)
  have sp: "span c' mg \<subseteq> span ?c2 mg" by (rule span_bound) (use us2 in auto)
  have endin: "n + sz_of (mem c' n) \<in> span ?c2 mg" using mn(7) gt us2 by (simp add: span_def)
  have FF: "?F \<subseteq> free_blocks c bs"
    using m by (auto simp: merging_def free_blocks_member keep_def meta_same_def)
  have "touches c ?c2 (free_blocks c bs \<union> span ?c2 mg)"
  proof (rule touches_mono [OF touches_trans [OF _ c2(6)]])
    show "touches c c' (free_blocks c bs \<union> span c' mg)" using m by (simp add: merging_def)
    show "free_blocks c bs \<union> span c' mg \<union> insert mg (insert (n + sz_of (mem c' n)) (?F - {n})) \<subseteq>
      free_blocks c bs \<union> span ?c2 mg"
      using sp endin FF by (auto simp: span_def)
  qed
  moreover have "used_sum (mem ?c2) (filter (\<lambda>x. x \<noteq> mg) (us @ mg # ys)) =
      used_sum (mem c) (filter (\<lambda>x. x \<noteq> b) bs)"
  proof -
    have "used_sum (mem ?c2) us = used_sum (mem c') us" "used_sum (mem ?c2) ys = used_sum (mem c') ys"
      by (rule keep_sum; use c2(4) in auto)+
    moreover have "filter (\<lambda>x. x \<noteq> mg) us = us" "filter (\<lambda>x. x \<noteq> mg) ys = ys"
      using d bs' vs by (auto simp: filter_id_conv)
    moreover have "fr_of (mem c' n)" using n(2) by (simp add: block_word)
    ultimately show ?thesis using m gt(2) bs' vs by (simp add: merging_def)
  qed
  moreover have "\<forall>x \<in> set (us @ mg # ys) - {mg}. keep c ?c2 x"
    using m c2(4) bs' vs by (auto simp: merging_def intro: keep_trans)
  moreover have "\<forall>x \<in> set bs. \<not> fr_of (mem c x) \<longrightarrow> x \<noteq> b \<longrightarrow> x \<in> set (us @ mg # ys) \<and> x \<noteq> mg"
  proof (intro ballI impI)
    fix x assume x: "x \<in> set bs" "\<not> fr_of (mem c x)" "x \<noteq> b"
    then have x': "x \<in> set bs'" "x \<noteq> mg" "keep c c' x" using m by (auto simp: merging_def)
    then have "x \<noteq> n" using x(2) n(2) by (auto simp: keep_def meta_same_def block_word)
    with x' bs' vs show "x \<in> set (us @ mg # ys) \<and> x \<noteq> mg" by auto
  qed
  moreover have "same_txn c ?c2" "stack_top ?c2 = stack_top c" "used_bytes ?c2 = used_bytes c"
    using m same_ctl_txn [OF c2(5)] c2(5) by (auto simp: merging_def same_ctl_def intro: same_txn_trans)
  ultimately have "merging c bs b ?c2 (us @ mg # ys) mg"
    using m c2(1) F2 us2 bs' vs by (auto simp: merging_def)
  then show ?thesis by blast
qed

section \<open>Release as a whole\<close>

definition released :: "tlsf_ctrl \<Rightarrow> u64 list \<Rightarrow> u64 \<Rightarrow> tlsf_ctrl \<Rightarrow> u64 list \<Rightarrow> u64 \<Rightarrow> bool" where
  "released c bs b c' bs' mg \<longleftrightarrow>
     heap_ok c' bs' (free_blocks c' bs') {} \<and> mg \<in> free_blocks c' bs' \<and> set bs' \<subseteq> set bs \<and>
     (\<forall>x \<in> set bs' - {mg}. keep c c' x) \<and>
     (\<forall>x \<in> set bs. \<not> fr_of (mem c x) \<longrightarrow> x \<noteq> b \<longrightarrow> x \<in> set bs' \<and> x \<noteq> mg) \<and>
     unat mg \<le> unat b \<and> unat b + unat (sz_of (mem c b)) \<le> unat mg + unat (sz_of (mem c' mg)) \<and>
     used_sum (mem c') bs' = used_sum (mem c) bs - (sz_of (mem c b) - 64) \<and>
     touches c c' (free_blocks c bs \<union> span c' mg)"

definition finish_release :: "u64 \<Rightarrow> tlsf_ctrl \<Rightarrow> bool \<times> tlsf_ctrl" where
  "finish_release mg c =
     (let c5 = insert_block mg (mark_block_free mg c); after = block_next c5 mg
      in if after < get_heap_end c5 then push_prev_info after mg c5 else (True, c5))"

lemma mark_block_free_ok:
  assumes h: "heap_ok c bs F E" and b: "b \<in> set bs" "b \<notin> F"
  defines "c' \<equiv> mark_block_free b c"
  shows "heap_ok c' bs F E" "touches c c' {b, b + sz_of (mem c b) - 64}" "same_ctl c c'" "fr_of (mem c' b)"
    "sz_of (mem c' b) = sz_of (mem c b)" "\<And>x. x \<in> set bs \<Longrightarrow> x \<noteq> b \<Longrightarrow> keep c c' x"
proof -
  define c1 where "c1 = poke b (mem c b OR BLOCK_FREE) c"
  have c': "c' = write_block_footer b c1" by (simp add: c'_def mark_block_free_def c1_def)
  note k = poke_flags_ok [OF h b(1), of "mem c b OR BLOCK_FREE", folded c1_def, simplified]
  note f = write_block_footer_ok [OF k(1) b(1), folded c'] and fk = write_footer_keep [OF k(1) b(1), folded c']
  show "heap_ok c' bs F E" by (fact f(1))
  show "touches c c' {b, b + sz_of (mem c b) - 64}"
    using touches_trans [OF k(2) f(2)] by (simp add: c1_def insert_commute)
  show "same_ctl c c'" using fk(3) [OF b(1)] by (simp add: c1_def same_ctl_def)
  show "fr_of (mem c' b)" "sz_of (mem c' b) = sz_of (mem c b)"
    using fk(2) [OF b(1)] by (simp_all add: c1_def)
  show "keep c c' x" if "x \<in> set bs" "x \<noteq> b" for x
    using keep_trans [OF keep_untouched [OF k(2)] fk(1) [OF that(1)]] chain_member(1) [OF heap_okD(2) [OF h] that(1)] that(2)
    by simp
qed

lemma used_sum_without:
  assumes "distinct bs" "b \<in> set bs"
  shows "used_sum m bs = (if fr_of (m b) then 0 else sz_of (m b) - 64) + used_sum m (filter (\<lambda>x. x \<noteq> b) bs)"
proof -
  from assms obtain xs ys where bs: "bs = xs @ b # ys" "b \<notin> set xs" "b \<notin> set ys"
    by (auto simp: in_set_conv_decomp)
  then have "filter (\<lambda>x. x \<noteq> b) xs = xs" "filter (\<lambda>x. x \<noteq> b) ys = ys" by (auto simp: filter_id_conv)
  with bs show ?thesis by simp
qed

lemma finish_release_ok:
  assumes m: "merging c bs b c3 bs' mg" and ds: "distinct bs" and b: "b \<in> set bs" "\<not> fr_of (mem c b)"
    and top: "unat (stack_top c) + 2 \<le> 64"
  obtains c' where "finish_release mg c3 = (True, c')" "released c bs b c' bs' mg"
    "logged_step 2 c c'" "used_bytes c' = used_bytes c"
proof -
  let ?F = "free_blocks c3 bs' - {mg}"
  have h: "heap_ok c3 bs' ?F {mg}" and mg: "mg \<in> set bs'" using m by (auto simp: merging_def)
  note ch = heap_okD(2) [OF h]
  have al: "aligned64 x" if "x \<in> set bs'" for x using chain_member(1) [OF ch that] .
  define c4 where "c4 = mark_block_free mg c3"
  note f = mark_block_free_ok [OF h mg, simplified, folded c4_def]
  define c5 where "c5 = insert_block mg c4"
  note i = insert_block_ok [OF f(1) mg, simplified, folded c5_def]
  have k5: "keep c3 c5 x" if "x \<in> set bs'" "x \<noteq> mg" for x
    using keep_trans [OF f(6) [OF that] keep_hdr [OF i(2) al [OF that(1)]]] .
  have m5: "mem c5 mg = mem c4 mg" using hdr_sameD(1) [OF i(2) al [OF mg]] .
  then have s5: "sz_of (mem c5 mg) = sz_of (mem c3 mg)" "fr_of (mem c5 mg)" using f(4,5) by simp_all
  let ?n = "mg + sz_of (mem c3 mg)"
  have bn: "block_next c5 mg = ?n" by (simp add: block_next_def block_word s5)
  have sc5: "same_ctl c3 c5" using same_ctl_trans [OF f(3) i(4)] .
  note e = chain_end_iff [OF i(1) mg, unfolded s5(1)]
  have top5: "unat (stack_top c5) + 2 \<le> 64" using top sc5 m by (simp add: same_ctl_def merging_def)
  obtain c' where c': "finish_release mg c3 = (True, c')" "heap_ok c' bs' (insert mg ?F) {}" "touches c5 c' {?n}"
    "\<And>x. x \<in> set bs' \<Longrightarrow> keep c5 c' x" "used_bytes c' = used_bytes c5" "logged_step 2 c5 c'"
  proof (cases "?n \<in> set bs'")
    case True
    then have eq: "finish_release mg c3 = push_prev_info ?n mg c5"
      using e by (simp add: finish_release_def Let_def bn flip: c4_def c5_def)
    have nn: "?n = mg + sz_of (mem c5 mg)" by (simp add: s5)
    obtain c' where "push_prev_info ?n mg c5 = (True, c')" "heap_ok c' bs' (insert mg (free_blocks c3 bs')) ({mg} - {mg})"
      "touches c5 c' {?n}" "\<And>x. x \<in> set bs' \<Longrightarrow> keep c5 c' x" "used_bytes c' = used_bytes c5"
      "logged_step 2 c5 c'" "same_lists c5 c'"
      using push_prev_info_ok [OF i(1) mg nn True top5] by blast
    then show thesis by (intro that [of c']) (simp_all add: eq)
  next
    case False
    then have "finish_release mg c3 = (True, c5)"
      using e by (simp add: finish_release_def Let_def bn flip: c4_def c5_def)
    moreover have "heap_ok c5 bs' (insert mg ?F) {}"
      using heap_ok_last [OF i(1) mg] False s5(1) by simp
    ultimately show thesis
      by (intro that [of c5]) (auto simp: logged_step_def same_txn_def same_geom_def)
  qed
  have k: "keep c3 c' x" if "x \<in> set bs'" "x \<noteq> mg" for x using keep_trans [OF k5 [OF that] c'(4) [OF that(1)]] .
  have smg: "sz_of (mem c' mg) = sz_of (mem c3 mg)" "fr_of (mem c' mg)"
    using c'(4) [OF mg] s5 by (simp_all add: keep_def meta_same_def)
  have F': "free_blocks c' bs' = insert mg ?F"
    using k smg(2) mg by (auto simp: free_blocks_def keep_def meta_same_def)
  have sp: "span c' mg = span c3 mg" by (simp add: span_def smg)
  note spl = span_lines [OF h mg order_refl]
  have FF: "?F \<subseteq> free_blocks c bs" using m by (auto simp: merging_def free_blocks_member keep_def meta_same_def)
  have t: "touches c c' (free_blocks c bs \<union> span c' mg)"
  proof (rule touches_mono)
    show "touches c c' (free_blocks c bs \<union> span c3 mg \<union> {mg, ?n - 64} \<union> insert mg ?F \<union> {?n})"
      using touches_trans [OF touches_trans [OF touches_trans [OF _ f(2)] i(3)] c'(3)] m
      by (simp add: merging_def)
  qed (use spl FF sp in auto)
  have d': "distinct bs'" by (rule chain_distinct [OF ch])
  have "used_sum (mem c') bs' = used_sum (mem c') (filter (\<lambda>x. x \<noteq> mg) bs')"
    using used_sum_without [OF d' mg, of "mem c'"] smg(2) by simp
  also have "\<dots> = used_sum (mem c3) (filter (\<lambda>x. x \<noteq> mg) bs')"
    by (rule keep_sum) (use k in auto)
  also have "\<dots> = used_sum (mem c) (filter (\<lambda>x. x \<noteq> b) bs)" using m by (simp add: merging_def)
  also have "\<dots> = used_sum (mem c) bs - (sz_of (mem c b) - 64)"
    using used_sum_without [OF ds b(1), of "mem c"] b(2) by simp
  finally have sum: "used_sum (mem c') bs' = used_sum (mem c) bs - (sz_of (mem c b) - 64)" .
  have "\<forall>x \<in> set bs' - {mg}. keep c c' x" using m k by (auto simp: merging_def intro: keep_trans)
  then have "released c bs b c' bs' mg"
    unfolding released_def using m c'(2) F' sum t smg mg by (simp add: merging_def free_blocks_member)
  moreover have "same_txn c c'"
    using m same_ctl_txn [OF sc5] c'(6) by (auto simp: merging_def logged_step_def intro: same_txn_trans)
  moreover have "unat (stack_top c') \<le> unat (stack_top c) + 2" "used_bytes c' = used_bytes c"
    using m sc5 c'(5,6) by (auto simp: merging_def same_ctl_def logged_step_def)
  ultimately show thesis using c'(1) that by (simp add: logged_step_def)
qed

lemma release_block_ok:
  assumes inv: "heap_ok c bs (free_blocks c bs) {}" and b: "b \<in> set bs" "\<not> fr_of (mem c b)"
    and top: "unat (stack_top c) + 3 \<le> 64"
  obtains c' bs' mg where "release_block b c = (True, c')" "released c bs b c' bs' mg"
    "logged_step 3 c c'" "used_bytes c' = used_bytes c - (sz_of (mem c b) - 64)"
proof -
  define c1 where "c1 = (log_entry (used_bytes_addr c) c)\<lparr>used_bytes := used_bytes c - (sz_of (mem c b) - 64)\<rparr>"
  have h1: "heap_ok c1 bs (free_blocks c1 bs) {}" and b1: "\<not> fr_of (mem c1 b)"
    using inv b by (simp_all add: c1_def free_blocks_def)
  have ds: "distinct bs" by (rule chain_distinct [OF heap_okD(2) [OF inv]])
  from merging_prev [OF h1 b(1) b1] obtain mg c2 bs2 where
    p: "coalesce_prev b c1 = (mg, c2)" and m2: "merging c1 bs b c2 bs2 mg" by blast
  define c3 where "c3 = (if block_next c2 mg < get_heap_end c2 \<and> block_is_free c2 (block_next c2 mg)
      then coalesce_next mg c2 else c2)"
  have "\<exists>bs3. merging c1 bs b c3 bs3 mg"
    using m2 merging_next [OF m2 ds]
    by (cases "block_next c2 mg < get_heap_end c2 \<and> block_is_free c2 (block_next c2 mg)") (auto simp: c3_def)
  then obtain bs3 where m3: "merging c1 bs b c3 bs3 mg" ..
  have top1: "unat (stack_top c1) = Suc (unat (stack_top c))" using top by (simp add: c1_def)
  obtain c' where c': "finish_release mg c3 = (True, c')" "released c1 bs b c' bs3 mg"
    "logged_step 2 c1 c'" "used_bytes c' = used_bytes c1"
    using finish_release_ok [OF m3 ds b(1) b1] top top1 by auto
  have "release_block b c = finish_release mg c3"
    using top p unfolding release_block_def Let_def
    by (simp add: pushing_ok block_payload_size_def block_word HEADER_SIZE_def c1_def [symmetric])
       (simp add: finish_release_def Let_def c3_def block_word)
  moreover have "released c bs b c' bs3 mg"
  proof -
    have e: "mem c1 = mem c" by (simp add: c1_def)
    then have "keep c1 c' x = keep c c' x" "touches c1 c' Z = touches c c' Z" "free_blocks c1 bs = free_blocks c bs" for x Z
      by (simp_all add: keep_def meta_same_def touches_def free_blocks_def)
    with c'(2) e show ?thesis by (simp add: released_def)
  qed
  moreover have "logged_step 3 c c'"
    using c'(3) top1 by (simp add: logged_step_def same_txn_def c1_def same_geom_def)
  moreover have "used_bytes c' = used_bytes c - (sz_of (mem c b) - 64)" using c'(4) by (simp add: c1_def)
  ultimately show thesis using that c'(1) by metis
qed

end
