(* ===== verification/Tlsf_Heap.thy ===== *)
theory Tlsf_Heap
  imports Tlsf_Alloc
begin

text \<open>
  The allocator seen from outside. \<open>heap_abs c bs\<close> maps the pointer of every allocated block
  to its payload size, owners, data type and deferred-cleanup mark; \<open>tlsf_inv c bs\<close> is the
  invariant between public operations (the heap invariant, the mutex free and the undo log
  empty). Creation establishes the invariant; allocation and release keep it and act on the
  view as adding and removing one entry, without touching the payload of any other block.
\<close>

section \<open>The abstract view\<close>

record blk =
  bk_size :: u64
  bk_owners :: "u16 list"
  bk_type :: u16
  bk_dc :: bool

definition block_info :: "tlsf_ctrl \<Rightarrow> u64 \<Rightarrow> blk" where
  "block_info c b = \<lparr>bk_size = block_payload_size c b, bk_owners = uid_list c b,
     bk_type = get_data_type c b, bk_dc = get_dc c b\<rparr>"

definition heap_abs :: "tlsf_ctrl \<Rightarrow> u64 list \<Rightarrow> u64 \<rightharpoonup> blk" where
  "heap_abs c bs p = (let b = block_from_ptr p in
     if b \<in> set bs \<and> \<not> block_is_free c b then Some (block_info c b) else None)"

definition idle :: "tlsf_ctrl \<Rightarrow> bool" where
  "idle c \<longleftrightarrow> format_version c = TLSF_FORMAT_VERSION \<and> mx_holder (mutex c) = None \<and>
     \<not> mx_died (mutex c) \<and> \<not> mx_incons (mutex c) \<and> \<not> mx_lost (mutex c) \<and> stack_top c = 0"

definition tlsf_inv :: "tlsf_ctrl \<Rightarrow> u64 list \<Rightarrow> bool" where
  "tlsf_inv c bs \<longleftrightarrow> heap_inv c bs \<and> idle c"

text \<open>The payload words of a block.\<close>

definition payload_same :: "tlsf_ctrl \<Rightarrow> tlsf_ctrl \<Rightarrow> u64 \<Rightarrow> bool" where
  "payload_same c c' b \<longleftrightarrow> (\<forall>z y. aligned64 z \<longrightarrow> y < 64 \<longrightarrow> unat b < unat z \<longrightarrow>
     unat z < unat b + unat (block_size c b) \<longrightarrow> mem c' (z + y) = mem c (z + y))"

lemma heap_inv_ctl:
  assumes "mem c' = mem c" "same_geom c c'" "same_lists c c'" "used_bytes c' = used_bytes c"
  shows "heap_inv c' bs = heap_inv c bs" "heap_abs c' bs = heap_abs c bs"
proof -
  show "heap_inv c' bs = heap_inv c bs"
    using heap_ok_ctl [OF assms(1-3)] assms(1,4) by (simp add: heap_inv_def free_blocks_def)
  have "block_info c' = block_info c"
    by (rule ext) (simp add: block_info_def block_payload_size_def block_word sig_word assms(1) uid_list_def uid_at_def)
  then show "heap_abs c' bs = heap_abs c bs"
    by (auto simp: heap_abs_def block_word assms(1) Let_def fun_eq_iff)
qed

lemma uid_list_cong:
  assumes "mem c' (b + 32) = mem c (b + 32)" "mem c' (b + 40) = mem c (b + 40)" "mem c' (b + 48) = mem c (b + 48)"
  shows "uid_list c' b = uid_list c b"
proof (rule nth_equalityI)
  fix i assume "i < length (uid_list c' b)"
  then have i: "i < 12" by simp
  then have "i div 4 \<in> {0, 1, 2}" by auto
  then have "mem c' (uid_word_addr b i) = mem c (uid_word_addr b i)"
    using assms by (auto simp: uid_word_addr_def add.commute)
  then show "uid_list c' b ! i = uid_list c b ! i" using i by (simp add: uid_list_nth uid_at_def)
qed simp

lemma uid_list_mem: "mem c' = mem c \<Longrightarrow> uid_list c' b = uid_list c b"
  by (rule uid_list_cong) simp_all

lemma keep_info: "keep c c' b \<Longrightarrow> block_info c' b = block_info c b \<and> block_is_free c' b = block_is_free c b"
  using uid_list_cong [of c' b c]
  by (simp add: block_info_def keep_def meta_same_def block_payload_size_def block_word sig_word)

lemma ptr_block [simp]: "block_from_ptr (ptr_from_block b) = b" "ptr_from_block (block_from_ptr p) = p"
  "ptr_from_block x = ptr_from_block b \<longleftrightarrow> x = b"
  by (simp_all add: block_from_ptr_def ptr_from_block_def)

lemma heap_abs_ptr:
  "heap_abs c bs (ptr_from_block b) = (if b \<in> set bs \<and> \<not> fr_of (mem c b) then Some (block_info c b) else None)"
  by (simp add: heap_abs_def block_word)

text \<open>Payload lines are no header lines, and lie outside every other block.\<close>

lemma payload_outside:
  assumes h: "heap_ok c bs F E" and x: "x \<in> set bs" and b: "b \<in> set bs" "x \<noteq> b"
    and z: "unat x < unat z" "unat z < unat x + unat (sz_of (mem c x))"
  shows "z \<notin> set bs" "z \<notin> span c b"
  using chain_interior [OF heap_okD(2) [OF h] x z] chain_disjoint [OF heap_okD(2) [OF h] b(1) x b(2)] z
  by (auto simp: span_def)

lemma payload_kept:
  assumes h: "heap_ok c bs F E" and x: "x \<in> set bs" and b: "b \<in> set bs" "x \<noteq> b"
    and t: "touches c c' (Z \<union> span c b)" "Z \<subseteq> set bs"
  shows "payload_same c c' x"
  unfolding payload_same_def block_word
proof (intro allI impI)
  fix z y :: u64 assume z: "aligned64 z" "y < 64" "unat x < unat z" "unat z < unat x + unat (sz_of (mem c x))"
  have "z \<notin> Z \<union> span c b" using payload_outside [OF h x b z(3,4)] t(2) by auto
  then show "mem c' (z + y) = mem c (z + y)" using touchesD(2) [OF t(1) z(1)] z(2) by simp
qed

section \<open>Running under the free mutex\<close>

definition locked :: "caller \<Rightarrow> tlsf_ctrl \<Rightarrow> tlsf_ctrl" where
  "locked w c = c\<lparr>mutex := (mutex c)\<lparr>mx_holder := Some (caller_tid w), mx_count := 1\<rparr>,
     owner_pid := caller_pid w, tlsf_errno := TLSF_OK\<rparr>"

lemma lock_idle:
  "idle c \<Longrightarrow> lock_and_recover w c = Some (TLSF_OK, locked w c)"
  by (simp add: idle_def lock_and_recover_def pthread_mutex_lock_def Let_def lock_result_def
      set_errno_def locked_def)

lemma with_lock_idle:
  "idle c \<Longrightarrow> with_lock w err body c =
     (case body (locked w c) of (r, c2) \<Rightarrow> Some (r, mutex_unlock w c2))"
  by (simp add: with_lock_def lock_idle)

lemma locked_simps [simp]:
  "mem (locked w c) = mem c" "used_bytes (locked w c) = used_bytes c" "stack_top (locked w c) = stack_top c"
  "same_geom c (locked w c)" "same_lists c (locked w c)" "format_version (locked w c) = format_version c"
  "matrix (locked w c) = matrix c" "fl_bitmap (locked w c) = fl_bitmap c" "sl_bitmaps (locked w c) = sl_bitmaps c"
  "pool_start (locked w c) = pool_start c" "pool_size (locked w c) = pool_size c" "heap_start (locked w c) = heap_start c"
  "heap_size (locked w c) = heap_size c"
  by (simp_all add: locked_def same_geom_def same_lists_def)

lemma locked_inv [simp]: "heap_inv (locked w c) bs = heap_inv c bs" "heap_abs (locked w c) bs = heap_abs c bs"
  by (rule heap_inv_ctl; simp)+

lemma mutex_unlock_simps [simp]:
  "mem (mutex_unlock w c) = mem c" "used_bytes (mutex_unlock w c) = used_bytes c"
  "stack_top (mutex_unlock w c) = stack_top c" "same_geom c (mutex_unlock w c)" "same_lists c (mutex_unlock w c)"
  "format_version (mutex_unlock w c) = format_version c" "tlsf_errno (mutex_unlock w c) = tlsf_errno c"
  by (simp_all add: mutex_unlock_def same_geom_def same_lists_def)

lemma unlock_inv [simp]:
  "heap_inv (mutex_unlock w c) bs = heap_inv c bs" "heap_abs (mutex_unlock w c) bs = heap_abs c bs"
  by (rule heap_inv_ctl; simp)+

lemma bul_commit_simps [simp]:
  "mem (bul_commit c) = mem c" "used_bytes (bul_commit c) = used_bytes c" "stack_top (bul_commit c) = 0"
  "same_geom c (bul_commit c)" "same_lists c (bul_commit c)" "mutex (bul_commit c) = mutex c"
  "format_version (bul_commit c) = format_version c" "tlsf_errno (bul_commit c) = tlsf_errno c"
  by (simp_all add: bul_commit_def same_geom_def same_lists_def)

lemma commit_inv [simp]:
  "heap_inv (bul_commit c) bs = heap_inv c bs" "heap_abs (bul_commit c) bs = heap_abs c bs"
  by (rule heap_inv_ctl; simp)+

lemma idle_after:
  assumes "idle c" "same_txn (locked w c) c2"
  shows "idle (mutex_unlock w (bul_commit c2))" "stack_top c2 = 0 \<Longrightarrow> idle (mutex_unlock w c2)"
  using assms
  by (simp_all add: idle_def same_txn_def mutex_unlock_def pthread_mutex_unlock_def locked_def bul_commit_def)

section \<open>Allocation on the view\<close>

lemma malloced_view:
  assumes inv: "heap_inv c bs" and m: "malloced c bs b tot uid dt c' bs'"
  shows "heap_abs c bs (ptr_from_block b) = None"
    and "heap_abs c' bs' = (heap_abs c bs)(ptr_from_block b \<mapsto>
      \<lparr>bk_size = sz_of (mem c' b) - 64, bk_owners = uid # replicate 11 0, bk_type = dt AND 0x7FFF, bk_dc = False\<rparr>)"
    and "x \<in> set bs \<Longrightarrow> \<not> fr_of (mem c x) \<Longrightarrow> payload_same c c' x"
proof -
  have b: "b \<in> set bs" "fr_of (mem c b)" using m by (auto simp: malloced_def free_blocks_member)
  then show "heap_abs c bs (ptr_from_block b) = None" by (simp add: heap_abs_ptr)
  have info: "block_info c' b = \<lparr>bk_size = sz_of (mem c' b) - 64, bk_owners = uid # replicate 11 0,
      bk_type = dt AND 0x7FFF, bk_dc = False\<rparr>"
    using m by (simp add: malloced_def block_info_def block_payload_size_def block_word sig_word HEADER_SIZE_def)
  show "heap_abs c' bs' = (heap_abs c bs)(ptr_from_block b \<mapsto>
      \<lparr>bk_size = sz_of (mem c' b) - 64, bk_owners = uid # replicate 11 0, bk_type = dt AND 0x7FFF, bk_dc = False\<rparr>)"
  proof
    fix p
    define x where "x = block_from_ptr p"
    have p: "p = ptr_from_block x" by (simp add: x_def)
    consider (b) "x = b" | (old) "x \<noteq> b" "x \<in> set bs" | (new) "x \<notin> set bs" by blast
    then show "heap_abs c' bs' p = ((heap_abs c bs)(ptr_from_block b \<mapsto>
      \<lparr>bk_size = sz_of (mem c' b) - 64, bk_owners = uid # replicate 11 0, bk_type = dt AND 0x7FFF, bk_dc = False\<rparr>)) p"
    proof cases
      case b
      then show ?thesis using m info by (simp add: p heap_abs_ptr malloced_def)
    next
      case old
      then have "keep c c' x" "x \<in> set bs'" using m by (auto simp: malloced_def)
      then show ?thesis using old keep_info [of c c' x]
        by (simp add: p heap_abs_ptr block_word)
    next
      case new
      then have "x \<noteq> b" "x \<in> set bs' \<Longrightarrow> fr_of (mem c' x)" using m b by (auto simp: malloced_def)
      then show ?thesis using new by (auto simp: p heap_abs_ptr)
    qed
  qed
  show "payload_same c c' x" if "x \<in> set bs" "\<not> fr_of (mem c x)"
  proof -
    have h: "heap_ok c bs (free_blocks c bs) {}" using inv by (simp add: heap_inv_def)
    have "x \<noteq> b" "free_blocks c bs \<subseteq> set bs" using that b by (auto simp: free_blocks_def)
    moreover have "touches c c' (free_blocks c bs \<union> span c b)" using m by (simp add: malloced_def)
    ultimately show ?thesis by (intro payload_kept [OF h that(1) b(1)])
  qed
qed

lemma malloced_ctl:
  assumes "mem d = mem c" "used_bytes d = used_bytes c" "mem d' = mem c'" "used_bytes d' = used_bytes c'"
    "same_geom c' d'" "same_lists c' d'"
  shows "malloced d bs b tot uid dt d' bs' = malloced c bs b tot uid dt c' bs'"
  using assms heap_inv_ctl(1) [OF assms(3,5,6,4)] uid_list_mem [OF assms(3)]
  by (simp add: malloced_def free_blocks_def keep_def meta_same_def touches_def span_def)

lemma found_block_cong:
  assumes "same_lists c c'" shows "found_block sz c' = found_block sz c"
  using assms by (cases "mapping_search (request_to_block_size sz)")
    (simp add: found_block_def find_suitable_block_def same_lists_def Let_def)

lemma tlsf_malloc_run:
  assumes inv: "tlsf_inv c bs" and arg: "tlsf \<noteq> 0" "uid \<noteq> 0" "sz \<noteq> 0"
    and fnd: "found_block sz c \<noteq> 0"
    and fit: "unat (request_to_block_size sz) \<le> unat (block_size c (found_block sz c))"
  obtains c' bs' where "tlsf_malloc w tlsf sz uid dt c = Some (ptr_from_block (found_block sz c), c')"
    "malloced c bs (found_block sz c) (request_to_block_size sz) uid dt c' bs'" "tlsf_inv c' bs'" "same_geom c c'"
proof -
  have h: "heap_inv (locked w c) bs" and id: "idle c" using inv by (simp_all add: tlsf_inv_def)
  have fb: "found_block sz (locked w c) = found_block sz c"
    by (rule found_block_cong) simp
  define b where "b = found_block sz c"
  have top: "unat (stack_top (locked w c)) + 5 \<le> 64" using id by (simp add: idle_def)
  have fit': "unat (request_to_block_size sz) \<le> unat (block_size (locked w c) (found_block sz (locked w c)))"
    using fit by (simp add: fb block_word)
  obtain c2 bs' where r: "tlsf_malloc_internal sz uid dt (locked w c) = (ptr_from_block b, c2)"
    "malloced (locked w c) bs b (request_to_block_size sz) uid dt c2 bs'" "logged_step 5 (locked w c) c2"
    using malloc_internal_ok [OF h arg(3) top _ fit'] fnd by (metis fb b_def)
  define c' where "c' = mutex_unlock w (bul_commit c2)"
  have bn: "ptr_from_block b \<noteq> 0"
  proof -
    have hk: "heap_ok c bs (free_blocks c bs) {}" and bin: "b \<in> set bs"
      using inv r(2) by (auto simp: tlsf_inv_def heap_inv_def malloced_def free_blocks_member)
    note mb = chain_member [OF heap_okD(2) [OF hk] bin]
    have "unat (b + 64) = unat b + 64"
      using unat_add_nowrap [of b 64] mb(3,6) unat_lt_64 [of "get_heap_end c"] by simp
    then show ?thesis by (auto simp: ptr_from_block_def HEADER_SIZE_def)
  qed
  have "tlsf_malloc w tlsf sz uid dt c = Some (ptr_from_block b, c')"
    using arg r(1) bn by (simp add: tlsf_malloc_def with_lock_idle [OF id] commit_if_def c'_def)
  moreover have m: "malloced c bs b (request_to_block_size sz) uid dt c' bs'"
    using r(2) malloced_ctl [of c "locked w c" c' c2]
    by (simp add: c'_def same_geom_def same_lists_def mutex_unlock_def bul_commit_def)
  moreover have "tlsf_inv c' bs'"
    using m idle_after(1) [OF id, of w c2] r(3) by (simp add: tlsf_inv_def malloced_def c'_def logged_step_def)
  moreover have "same_geom c c'"
    using r(3) by (simp add: c'_def logged_step_def same_txn_def same_geom_def mutex_unlock_def bul_commit_def)
  ultimately show thesis using that unfolding b_def by blast
qed

section \<open>When the head of the class is large enough\<close>

text \<open>The search takes the head of the first list at or after the request's class. That block
  is large enough when the request is the smallest size of its class, which holds for every
  multiple of the class width; below 1024 every multiple of 64 is one.\<close>

definition exact_class :: "u64 \<Rightarrow> bool" where
  "exact_class tot \<longleftrightarrow> unat tot mod 2 ^ (mapping_first_level tot - 3) = 0"

lemma found_fits:
  assumes inv: "heap_inv c bs" and fnd: "found_block sz c \<noteq> 0"
    and ex: "exact_class (request_to_block_size sz)" "unat (request_to_block_size sz) < 2 ^ 41"
  shows "unat (request_to_block_size sz) \<le> unat (block_size c (found_block sz c))"
proof -
  define tot b where "tot = request_to_block_size sz" and "b = found_block sz c"
  have h: "heap_ok c bs (free_blocks c bs) {}" using inv by (simp add: heap_inv_def)
  have b: "b \<in> free_blocks c bs" unfolding b_def by (rule found_block_free [OF inv fnd])
  then have bin: "b \<in> set bs" by (simp add: free_blocks_member)
  obtain fl sl where ms: "mapping_search tot = (fl, sl)" by force
  obtain fl' sl' where mb: "mapping_search (block_size c b) = (fl', sl')" by force
  have "find_suitable_block fl sl c = b" by (simp add: b_def found_block_def flip: tot_def) (simp add: ms)
  then have le: "class_le (fl, sl) (fl', sl')"
    using find_ok [OF heap_okD(3) [OF h], of fl sl] fnd mb by (auto simp: b_def)
  have t: "16 \<le> unat tot" "unat tot < 2 ^ 41" using request_aligned(2) [of sz] ex(2) by (simp_all add: tot_def)
  note bz = block_class [OF h bin, folded block_size_sz]
  show ?thesis
  proof (cases "fl < fl' \<or> fl = fl' \<and> sl < sl'")
    case True
    then have "unat tot < unat (block_size c b)" by (rule mapping_later_class [OF t ms bz mb])
    then show ?thesis by (simp add: tot_def b_def)
  next
    case False
    then have same: "fl' = fl" "sl' = sl" using le by (auto simp: class_le_def)
    have fl: "fl = mapping_first_level tot" and sl: "sl = unat tot div 2 ^ (fl - 3)"
      using ms mapping_second_level_quot(2) [OF t] by (auto simp: mapping_search_def Let_def)
    have "unat tot = class_base fl sl"
      using ex(1) unfolding class_base_def sl fl exact_class_def tot_def by (metis div_mult_mod_eq add.right_neutral)
    also have "\<dots> \<le> unat (block_size c b)" using mapping_class_range(1) [OF bz mb] same by simp
    finally show ?thesis by (simp add: tot_def b_def)
  qed
qed

lemma exact_small:
  assumes "unat sz \<le> 896" shows "exact_class (request_to_block_size sz)" "unat (request_to_block_size sz) \<le> 960"
proof -
  define tot where "tot = request_to_block_size sz"
  have e: "unat tot = max 1 ((unat sz + 63) div 64) * 64 + 64"
    unfolding tot_def by (rule request_to_block_size_eq) (use assms in simp)
  show le: "unat (request_to_block_size sz) \<le> 960" using e assms by (auto simp: tot_def max_def)
  have "tot \<noteq> 0" using e by auto
  from mapping_first_level_log(1) [OF this] le have "(2::nat) ^ mapping_first_level tot < 2 ^ 10"
    by (simp add: tot_def)
  then have "mapping_first_level tot < 10" by (rule power_less_imp_less_exp [rotated]) simp
  then have d: "(2::nat) ^ (mapping_first_level tot - 3) dvd 2 ^ 6" by (intro le_imp_power_dvd) simp
  have "(2::nat) ^ 6 dvd unat tot" unfolding e by simp
  with d have "2 ^ (mapping_first_level tot - 3) dvd unat tot" by (rule dvd_trans)
  then show "exact_class (request_to_block_size sz)" by (simp add: exact_class_def flip: tot_def)
qed

lemma round_up_64: "n \<le> (n + 63) div 64 * (64 :: nat)"
proof -
  have "(n + 63) div 64 * 64 + (n + 63) mod 64 = n + 63" "(n + 63) mod 64 < 64" by simp_all
  then show ?thesis by linarith
qed

lemma request_payload:
  fixes sz s :: u64
  assumes "unat sz \<le> 2 ^ 64 - 128" "unat (request_to_block_size sz) \<le> unat s"
  shows "unat sz \<le> unat (s - 64)"
proof -
  have e: "unat (request_to_block_size sz) = max 1 ((unat sz + 63) div 64) * 64 + 64"
    by (rule request_to_block_size_eq [OF assms(1)])
  have "unat sz \<le> (unat sz + 63) div 64 * 64" by (rule round_up_64)
  also have "\<dots> \<le> max 1 ((unat sz + 63) div 64) * 64" by (intro mult_le_mono1) simp
  finally have "unat sz + 64 \<le> unat s" using assms(2) unfolding e by linarith
  moreover from this have "unat (s - 64) = unat s - 64" using unat_diff_nowrap [of 64 s] by simp
  ultimately show ?thesis by simp
qed

text \<open>The effect of a successful allocation on the view.\<close>

definition alloc_effect :: "tlsf_ctrl \<Rightarrow> u64 list \<Rightarrow> u64 \<Rightarrow> u16 \<Rightarrow> u16 \<Rightarrow> u64 \<Rightarrow> tlsf_ctrl \<Rightarrow> u64 list \<Rightarrow> bool" where
  "alloc_effect c bs sz uid dt p c' bs' \<longleftrightarrow>
     p \<noteq> 0 \<and> aligned64 p \<and> heap_abs c bs p = None \<and>
     (\<exists>n. unat sz \<le> unat n \<and> heap_abs c' bs' = (heap_abs c bs)(p \<mapsto>
        \<lparr>bk_size = n, bk_owners = uid # replicate 11 0, bk_type = dt AND 0x7FFF, bk_dc = False\<rparr>)) \<and>
     (\<forall>x \<in> set bs. \<not> block_is_free c x \<longrightarrow> payload_same c c' x)"

lemma malloced_effect:
  assumes inv: "heap_inv c bs" and m: "malloced c bs b (request_to_block_size sz) uid dt c' bs'"
    and sz: "unat sz \<le> 2 ^ 64 - 128"
  shows "alloc_effect c bs sz uid dt (ptr_from_block b) c' bs'"
proof -
  note v = malloced_view [OF inv m]
  have h: "heap_ok c bs (free_blocks c bs) {}" and bin: "b \<in> set bs"
    using inv m by (auto simp: heap_inv_def malloced_def free_blocks_member)
  note mb = chain_member [OF heap_okD(2) [OF h] bin]
  have "unat (b + 64) = unat b + 64"
    using unat_add_nowrap [of b 64] mb(3,6) unat_lt_64 [of "get_heap_end c"] by simp
  then have nz: "ptr_from_block b \<noteq> 0" by (auto simp: ptr_from_block_def HEADER_SIZE_def)
  have al: "aligned64 (ptr_from_block b)"
    using mb(1) by (simp add: ptr_from_block_def HEADER_SIZE_def) (simp add: aligned64_def)
  have "unat sz \<le> unat (sz_of (mem c' b) - 64)"
    by (rule request_payload [OF sz]) (use m in \<open>simp add: malloced_def\<close>)
  with v nz al show ?thesis by (auto simp: alloc_effect_def block_word)
qed

lemma malloc_oom:
  assumes inv: "tlsf_inv c bs" and arg: "tlsf \<noteq> 0" "uid \<noteq> 0" "sz \<noteq> 0" and fnd: "found_block sz c = 0"
  shows "tlsf_malloc w tlsf sz uid dt c = Some (0, mutex_unlock w (set_errno TLSF_ERR_OUT_OF_MEMORY (locked w c)))"
proof -
  have id: "idle c" using inv by (simp add: tlsf_inv_def)
  have "found_block sz (locked w c) = 0" using found_block_cong [of c "locked w c" sz] fnd by simp
  then have "tlsf_malloc_internal sz uid dt (locked w c) = (0, set_errno TLSF_ERR_OUT_OF_MEMORY (locked w c))"
    using arg by (cases "mapping_search (request_to_block_size sz)")
      (simp add: tlsf_malloc_internal_def Let_def found_block_def)
  then show ?thesis using arg by (simp add: tlsf_malloc_def with_lock_idle [OF id] commit_if_def)
qed

lemma errno_inv [simp]: "heap_inv (set_errno e c) bs = heap_inv c bs" "heap_abs (set_errno e c) bs = heap_abs c bs"
  by (rule heap_inv_ctl; simp add: set_errno_def same_geom_def same_lists_def)+

lemma malloc_oom_inv:
  assumes "tlsf_inv c bs"
  shows "tlsf_inv (mutex_unlock w (set_errno e (locked w c))) bs"
    "heap_abs (mutex_unlock w (set_errno e (locked w c))) bs = heap_abs c bs"
  using assms idle_after(2) [of c w "set_errno e (locked w c)"]
  by (simp_all add: tlsf_inv_def) (simp add: idle_def set_errno_def same_txn_def same_geom_def)

section \<open>Release on the view\<close>

definition without :: "u16 \<Rightarrow> u16 list \<Rightarrow> u16 list" where
  "without uid us = map (\<lambda>u. if u = uid then 0 else u) us"

definition unowned :: "u16 list \<Rightarrow> bool" where
  "unowned us \<longleftrightarrow> filter (\<lambda>u. u \<noteq> 0) us = []"

text \<open>The effect of \<^verbatim>\<open>free\<close> on the view: the owner is dropped, and the entry with its last one.\<close>

definition free_effect :: "tlsf_ctrl \<Rightarrow> u64 list \<Rightarrow> u64 \<Rightarrow> u16 \<Rightarrow> tlsf_ctrl \<Rightarrow> u64 list \<Rightarrow> bool" where
  "free_effect c bs p uid c' bs' \<longleftrightarrow>
     (case heap_abs c bs p of None \<Rightarrow> False
      | Some k \<Rightarrow> let us = without uid (bk_owners k) in
          if unowned us then heap_abs c' bs' = (heap_abs c bs)(p := None) \<and> used_bytes c' = used_bytes c - bk_size k
          else heap_abs c' bs' = (heap_abs c bs)(p \<mapsto> k\<lparr>bk_owners := us\<rparr>) \<and> used_bytes c' = used_bytes c \<and>
            payload_same c c' (block_from_ptr p)) \<and>
     (\<forall>x \<in> set bs. \<not> block_is_free c x \<longrightarrow> x \<noteq> block_from_ptr p \<longrightarrow> payload_same c c' x)"

lemma released_absorbs:
  assumes r: "released c bs b c' bs' mg" and sz: "128 \<le> unat (sz_of (mem c b))"
    and x: "x \<in> set bs'" "x \<noteq> mg"
  shows "x \<noteq> b"
proof -
  have h': "heap_ok c' bs' (free_blocks c' bs') {}" and mg: "mg \<in> set bs'"
    and cov: "unat mg \<le> unat b" "unat b + unat (sz_of (mem c b)) \<le> unat mg + unat (sz_of (mem c' mg))"
    using r by (auto simp: released_def free_blocks_member)
  show ?thesis
    using chain_disjoint [OF heap_okD(2) [OF h'] mg x] cov sz chain_member(3) [OF heap_okD(2) [OF h'] x(1)]
    by auto
qed

lemma released_view:
  assumes h: "heap_ok c bs (free_blocks c bs) {}" and b: "b \<in> set bs" "\<not> fr_of (mem c b)"
    and r: "released c bs b c' bs' mg"
  shows "heap_abs c' bs' = (heap_abs c bs)(ptr_from_block b := None)"
    and "x \<in> set bs \<Longrightarrow> \<not> fr_of (mem c x) \<Longrightarrow> x \<noteq> b \<Longrightarrow> payload_same c c' x"
proof -
  have h': "heap_ok c' bs' (free_blocks c' bs') {}" and mg: "mg \<in> set bs'" "fr_of (mem c' mg)"
    using r by (auto simp: released_def free_blocks_member)
  note ch' = heap_okD(2) [OF h']
  have bn: "b \<in> set bs' \<Longrightarrow> b = mg" using released_absorbs [OF r chain_member(3) [OF heap_okD(2) [OF h] b(1)]] by blast
  show "heap_abs c' bs' = (heap_abs c bs)(ptr_from_block b := None)"
  proof
    fix p
    define x where "x = block_from_ptr p"
    have p: "p = ptr_from_block x" by (simp add: x_def)
    consider (b) "x = b" | (alloc) "x \<noteq> b" "x \<in> set bs" "\<not> fr_of (mem c x)" | (free) "x \<noteq> b" "x \<in> set bs" "fr_of (mem c x)"
      | (out) "x \<notin> set bs" by blast
    then show "heap_abs c' bs' p = ((heap_abs c bs)(ptr_from_block b := None)) p"
    proof cases
      case b
      then show ?thesis using bn mg(2) by (auto simp: p heap_abs_ptr)
    next
      case alloc
      then have "x \<in> set bs'" "x \<noteq> mg" "keep c c' x" using r by (auto simp: released_def)
      then show ?thesis using alloc keep_info [of c c' x] by (simp add: p heap_abs_ptr block_word)
    next
      case free
      have "fr_of (mem c' x)" if "x \<in> set bs'"
        using that mg(2) r free(3) by (cases "x = mg") (auto simp: released_def keep_def meta_same_def)
      then show ?thesis using free by (auto simp: p heap_abs_ptr)
    next
      case out
      moreover have "x \<notin> set bs'" using out r by (auto simp: released_def)
      ultimately show ?thesis by (simp add: p heap_abs_ptr)
    qed
  qed
  show "payload_same c c' x" if x: "x \<in> set bs" "\<not> fr_of (mem c x)" "x \<noteq> b"
  proof -
    have x': "x \<in> set bs'" "x \<noteq> mg" "sz_of (mem c' x) = sz_of (mem c x)"
      using r x by (auto simp: released_def keep_def)
    have t: "touches c c' (free_blocks c bs \<union> span c' mg)" using r by (simp add: released_def)
    show ?thesis unfolding payload_same_def block_word
    proof (intro allI impI)
      fix z y :: u64
      assume z: "aligned64 z" "y < 64" "unat x < unat z" "unat z < unat x + unat (sz_of (mem c x))"
      have "z \<notin> set bs" using chain_interior [OF heap_okD(2) [OF h] x(1) z(3,4)] .
      moreover have "z \<notin> span c' mg" using payload_outside(2) [OF h' x'(1) mg(1) x'(2)] z x'(3) by simp
      ultimately have "z \<notin> free_blocks c bs \<union> span c' mg" by (simp add: free_blocks_member)
      then show "mem c' (z + y) = mem c (z + y)" using touchesD(2) [OF t z(1)] z(2) by simp
    qed
  qed
qed

lemma uid_count_unowned: "uid_count c b > 0 \<longleftrightarrow> \<not> unowned (uid_list c b)"
  by (simp add: uid_count_def unowned_def)

lemma released_after_drop:
  assumes r: "released c1 bs b c' bs' mg" and t: "touches c c1 {b}" and w: "mem c1 b = mem c b"
    and h: "heap_ok c bs F E" and b: "b \<in> set bs" "\<not> fr_of (mem c b)"
  shows "released c bs b c' bs' mg"
proof -
  note ch = heap_okD(2) [OF h]
  have k1: "keep c c1 x" if "x \<in> set bs" "x \<noteq> b" for x
    using keep_untouched [OF t chain_member(1) [OF ch that(1)]] that(2) by simp
  have m1: "fr_of (mem c1 x) = fr_of (mem c x) \<and> sz_of (mem c1 x) = sz_of (mem c x)" if "x \<in> set bs" for x
    using k1 [OF that] w by (cases "x = b") (auto simp: keep_def meta_same_def)
  have F: "free_blocks c1 bs = free_blocks c bs" using m1 by (auto simp: free_blocks_def)
  have us: "used_sum (mem c1) bs = used_sum (mem c) bs" by (rule used_sum_cong) (rule m1)
  have h': "heap_ok c' bs' (free_blocks c' bs') {}" and mg: "mg \<in> set bs'"
    and cov: "unat mg \<le> unat b" "unat b + unat (sz_of (mem c b)) \<le> unat mg + unat (sz_of (mem c' mg))"
    using r w by (auto simp: released_def free_blocks_member)
  have bn: "x \<noteq> b" if "x \<in> set bs'" "x \<noteq> mg" for x
    using released_absorbs [OF r _ that] chain_member(3) [OF ch b(1)] w by simp
  have kp: "keep c c' x" if "x \<in> set bs' - {mg}" for x
  proof (rule keep_trans [OF k1])
    show "x \<in> set bs" "x \<noteq> b" "keep c1 c' x" using r that bn by (auto simp: released_def)
  qed
  have "b \<in> span c' mg" using cov by (auto simp: span_def)
  then have tt: "touches c c' (free_blocks c bs \<union> span c' mg)"
    using touches_mono [OF touches_trans [OF t]] r F by (auto simp: released_def)
  have al: "\<forall>x \<in> set bs. \<not> fr_of (mem c x) \<longrightarrow> x \<noteq> b \<longrightarrow> x \<in> set bs' \<and> x \<noteq> mg"
    using r m1 by (simp add: released_def)
  from r show ?thesis unfolding released_def by (simp add: kp tt us w al)
qed

lemma free_internal_ok:
  assumes inv: "heap_inv c bs" and b: "b \<in> set bs" "\<not> fr_of (mem c b)" and uid: "uid \<in> set (uid_list c b)"
    and top: "unat (stack_top c) + 15 \<le> 64"
  obtains c' bs' where "tlsf_free_internal (ptr_from_block b) uid c = (True, c')" "heap_inv c' bs'"
    "free_effect c bs (ptr_from_block b) uid c' bs'" "logged_step 15 c c'"
proof -
  let ?F = "free_blocks c bs" and ?p = "ptr_from_block b" and ?us = "without uid (uid_list c b)"
  have h: "heap_ok c bs ?F {}" using inv by (simp add: heap_inv_def)
  note ch = heap_okD(2) [OF h] and g = heap_okD(1) [OF h]
  note mb = chain_member [OF ch b(1)]
  have bF: "b \<notin> ?F" using b by (simp add: free_blocks_member)
  have "unat (b + 64) = unat b + 64"
    using unat_add_nowrap [of b 64] mb(3,6) unat_lt_64 [of "get_heap_end c"] by simp
  then have nz: "?p \<noteq> 0" by (auto simp: ptr_from_block_def HEADER_SIZE_def)
  have vp: "validate_pointer b c"
    using mb(3,5,6) geom_end [OF g] g
    by (simp add: validate_pointer_def word_le_nat_alt word_less_nat_alt geom_def pool_end_def [symmetric])
  have vs: "validate_block_signature c b" using mb(4) by (simp add: validate_block_signature_def sig_word)
  have uf: "\<not> uid_find c b uid < 0" using uid uid_find_nonneg [of c b uid] by simp
  obtain c1 where c1: "drop_owner b uid [0..<TLSF_MAX_OWNERS] c = (True, c1)" "heap_ok c1 bs ?F {}"
    "touches c c1 {b}" "mem c1 b = mem c b" "mem c1 (b + 8) = mem c (b + 8)" "uid_list c1 b = ?us"
    "used_bytes c1 = used_bytes c" "logged_step 12 c c1"
    using drop_owner_all [OF h b(1) bF, of uid] top unfolding without_def by auto
  have run: "tlsf_free_internal ?p uid c = (if \<not> unowned ?us then (True, c1) else release_block b c1)"
    using nz vp vs uf b(2) c1(1) by (simp add: tlsf_free_internal_def block_word uid_count_unowned c1(6))
  have abs: "heap_abs c bs ?p = Some (block_info c b)" using b by (simp add: heap_abs_ptr)
  have k1: "keep c c1 x" if "x \<in> set bs" "x \<noteq> b" for x
    using keep_untouched [OF c1(3) chain_member(1) [OF ch that(1)]] that(2) by simp
  have m1: "fr_of (mem c1 x) = fr_of (mem c x) \<and> sz_of (mem c1 x) = sz_of (mem c x)" if "x \<in> set bs" for x
    using k1 [OF that] c1(4) by (cases "x = b") (auto simp: keep_def meta_same_def)
  have F1: "free_blocks c1 bs = ?F" using m1 by (auto simp: free_blocks_def)
  show thesis
  proof (cases "unowned ?us")
    case False
    have inv1: "heap_inv c1 bs"
      using inv c1(2,7) F1 used_sum_cong [of bs "mem c1" "mem c"] m1 by (simp add: heap_inv_def)
    have info: "block_info c1 b = (block_info c b)\<lparr>bk_owners := ?us\<rparr>"
      using c1(4-6) by (simp add: block_info_def block_payload_size_def block_word sig_word)
    have view: "heap_abs c1 bs = (heap_abs c bs)(?p \<mapsto> (block_info c b)\<lparr>bk_owners := ?us\<rparr>)"
    proof
      fix p
      define x where "x = block_from_ptr p"
      have p: "p = ptr_from_block x" by (simp add: x_def)
      show "heap_abs c1 bs p = ((heap_abs c bs)(?p \<mapsto> (block_info c b)\<lparr>bk_owners := ?us\<rparr>)) p"
        using info b m1 k1 [of x] keep_info [of c c1 x] by (cases "x = b") (auto simp: p heap_abs_ptr)
    qed
    have "payload_same c c1 x" if "x \<in> set bs" "x \<noteq> b" for x
      by (rule payload_kept [OF h that(1) b(1) that(2), of c1 "{}"])
         (use touches_mono [OF c1(3)] span_lines(1) [OF h b(1) order_refl] in auto)
    moreover have "payload_same c c1 b"
      unfolding payload_same_def using touchesD(2) [OF c1(3)] by fastforce
    ultimately have "free_effect c bs ?p uid c1 bs"
      using False abs view c1(7) by (simp add: free_effect_def block_info_def Let_def)
    moreover have "logged_step 15 c c1" using c1(8) by (simp add: logged_step_def)
    ultimately show thesis using that run inv1 False by simp
  next
    case True
    have h1: "heap_ok c1 bs (free_blocks c1 bs) {}" using c1(2) F1 by simp
    have top1: "unat (stack_top c1) + 3 \<le> 64" using c1(8) top by (simp add: logged_step_def)
    have nf: "\<not> fr_of (mem c1 b)" using b(2) c1(4) by simp
    obtain c' bs' mg where c': "release_block b c1 = (True, c')" "released c1 bs b c' bs' mg"
      "logged_step 3 c1 c'" "used_bytes c' = used_bytes c1 - (sz_of (mem c1 b) - 64)"
      by (rule release_block_ok [OF h1 b(1) nf top1])
    have r: "released c bs b c' bs' mg" by (rule released_after_drop [OF c'(2) c1(3,4) h b])
    note v = released_view [OF h b r]
    have ub: "used_bytes c' = used_bytes c - (sz_of (mem c b) - 64)" using c'(4) c1(4,7) by simp
    have "heap_inv c' bs'" using r inv ub by (simp add: heap_inv_def released_def)
    moreover have "free_effect c bs ?p uid c' bs'"
      using True abs v ub
      by (auto simp: free_effect_def block_info_def Let_def block_payload_size_def block_word HEADER_SIZE_def)
    moreover have "logged_step 15 c c'"
      using c1(8) c'(3) by (auto simp: logged_step_def intro: same_txn_trans)
    ultimately show thesis using that run True c'(1) by simp
  qed
qed

lemma heap_abs_Some:
  assumes "heap_abs c bs p = Some k"
  obtains b where "p = ptr_from_block b" "b \<in> set bs" "\<not> fr_of (mem c b)" "k = block_info c b"
  using assms that [of "block_from_ptr p"] by (auto simp: heap_abs_def Let_def block_word split: if_splits)

lemma free_effect_ctl:
  assumes "mem d = mem c" "used_bytes d = used_bytes c" "same_geom c d" "same_lists c d"
    "mem d' = mem c'" "used_bytes d' = used_bytes c'" "same_geom c' d'" "same_lists c' d'"
  shows "free_effect d bs p uid d' bs' = free_effect c bs p uid c' bs'"
  unfolding free_effect_def heap_inv_ctl(2) [OF assms(1,3,4,2)] heap_inv_ctl(2) [OF assms(5,7,8,6)]
  using assms(1,2,5,6) by (cases "heap_abs c bs p") (simp_all add: payload_same_def block_word Let_def)

lemma block_in_pool:
  assumes "heap_inv c bs" "b \<in> set bs"
  shows "ptr_from_block b \<noteq> 0" "validate_pointer b c"
proof -
  have h: "heap_ok c bs (free_blocks c bs) {}" using assms(1) by (simp add: heap_inv_def)
  note mb = chain_member [OF heap_okD(2) [OF h] assms(2)] and g = heap_okD(1) [OF h]
  have "unat (b + 64) = unat b + 64"
    using unat_add_nowrap [of b 64] mb(3,6) unat_lt_64 [of "get_heap_end c"] by simp
  then show "ptr_from_block b \<noteq> 0" by (auto simp: ptr_from_block_def HEADER_SIZE_def)
  show "validate_pointer b c"
    using mb(3,5,6) geom_end [OF g] g
    by (simp add: validate_pointer_def word_le_nat_alt word_less_nat_alt geom_def pool_end_def [symmetric])
qed

lemma tlsf_free_run:
  assumes inv: "tlsf_inv c bs" and arg: "tlsf \<noteq> 0" "uid \<noteq> 0"
    and k: "heap_abs c bs p = Some k" "uid \<in> set (bk_owners k)"
  obtains c' bs' where "tlsf_free w tlsf p uid c = Some ((), c')" "tlsf_inv c' bs'" "free_effect c bs p uid c' bs'"
proof -
  obtain b where b: "p = ptr_from_block b" "b \<in> set bs" "\<not> fr_of (mem c b)" "k = block_info c b"
    using k(1) by (rule heap_abs_Some)
  have h: "heap_inv (locked w c) bs" and id: "idle c" using inv by (simp_all add: tlsf_inv_def)
  have bn: "p \<noteq> 0" using block_in_pool(1) [of c bs b] b(2) inv b(1) by (simp add: tlsf_inv_def)
  have top: "unat (stack_top (locked w c)) + 15 \<le> 64" using id by (simp add: idle_def)
  have u: "uid \<in> set (uid_list (locked w c) b)" "\<not> fr_of (mem (locked w c) b)"
    using k(2) b uid_list_mem [of "locked w c" c b] by (simp_all add: block_info_def)
  obtain c2 bs' where r: "tlsf_free_internal p uid (locked w c) = (True, c2)" "heap_inv c2 bs'"
    "free_effect (locked w c) bs p uid c2 bs'" "logged_step 15 (locked w c) c2"
    by (rule free_internal_ok [OF h b(2) u(2,1) top, folded b(1)])
  define c' where "c' = mutex_unlock w (bul_commit c2)"
  have "tlsf_free w tlsf p uid c = Some ((), c')"
    using arg bn r(1) by (simp add: tlsf_free_def with_lock_idle [OF id] commit_if_def c'_def)
  moreover have "tlsf_inv c' bs'"
    using r(2,4) idle_after(1) [OF id, of w c2] by (simp add: tlsf_inv_def c'_def logged_step_def)
  moreover have "free_effect c bs p uid c' bs'"
  proof -
    have "free_effect c bs p uid c' bs' = free_effect (locked w c) bs p uid c2 bs'"
      by (rule free_effect_ctl)
         (simp_all add: c'_def locked_def same_geom_def same_lists_def mutex_unlock_def bul_commit_def)
    with r(3) show ?thesis by simp
  qed
  ultimately show thesis using that by blast
qed

section \<open>A new pool\<close>

definition pool_args :: "u64 \<Rightarrow> u64 \<Rightarrow> bool" where
  "pool_args pm sz \<longleftrightarrow> pm \<noteq> 0 \<and> aligned64 pm \<and> aligned64 sz \<and> 8192 \<le> unat sz \<and> unat sz \<le> 2 ^ 40 \<and>
     unat pm + unat sz < 2 ^ 64"

lemma aligned_mask: "aligned64 v \<Longrightarrow> v AND NOT 63 = v"
proof -
  assume "aligned64 v"
  then have "v AND NOT (mask 6) = v"
    by (intro bit_word_eqI) (auto simp: bit_and_iff bit_not_iff bit_mask_iff dest: aligned64_bit)
  moreover have "(mask 6 :: u64) = 63" by (simp add: mask_eq_exp_minus_1)
  ultimately show ?thesis by simp
qed

lemma fresh_ctrl_geom:
  fixes c
  assumes a: "pool_args pm sz"
  defines "c0 \<equiv> fresh_ctrl pm sz c"
  shows "heap_start c0 = pm + 6720" "heap_size c0 = sz - 6720" "geom c0"
    "unat (heap_start c0) = unat pm + 6720" "unat (heap_size c0) = unat sz - 6720"
proof -
  have al: "aligned64 (6720 :: u64)" by (simp add: aligned64_def)
  have "aligned64 (align_up (pm + 6720) 64)" by (rule aligned_align_up)
  have "unat (align_up (pm + 6720) 64) = (unat (pm + 6720) + 63) div 64 * 64"
  proof (rule align_up_64)
    show "unat (pm + 6720) \<le> 2 ^ 64 - 64"
      using a unat_add_nowrap [of pm 6720] by (simp add: pool_args_def)
  qed
  also have "\<dots> = unat (pm + 6720)"
  proof -
    have "unat (pm + 6720) mod 64 = 0" using a al by (simp add: pool_args_def flip: aligned64_mod)
    then have "unat (pm + 6720) = unat (pm + 6720) div 64 * 64" by (metis add.right_neutral div_mult_mod_eq)
    then obtain k where k: "unat (pm + 6720) = k * 64" by blast
    show ?thesis unfolding k by simp
  qed
  finally have e: "align_up (pm + 6720) 64 = pm + 6720" by (rule unsigned_word_eqI)
  have hs: "(pm + CTRL_SIZE + ALIGN_SIZE - 1) AND NOT (ALIGN_SIZE - 1) = align_up (pm + 6720) 64"
    by (simp add: align_up_def CTRL_SIZE_def ALIGN_SIZE_def)
  show st: "heap_start c0 = pm + 6720" by (simp add: c0_def fresh_ctrl_def Let_def hs e)
  have a63: "ALIGN_SIZE - 1 = 63" by (simp add: ALIGN_SIZE_def)
  have "heap_size c0 = (sz - (pm + 6720 - pm)) AND NOT 63"
    unfolding c0_def fresh_ctrl_def Let_def hs e by (simp only: tlsf_ctrl.select_convs a63)
  also have "\<dots> = (sz - 6720) AND NOT 63" by simp
  also have "\<dots> = sz - 6720" by (rule aligned_mask) (use a al in \<open>simp add: pool_args_def\<close>)
  finally show hz: "heap_size c0 = sz - 6720" .
  show us: "unat (heap_start c0) = unat pm + 6720"
    unfolding st using a unat_add_nowrap [of pm 6720] by (simp add: pool_args_def)
  show uz: "unat (heap_size c0) = unat sz - 6720"
    unfolding hz using a unat_diff_nowrap [of 6720 sz] by (simp add: pool_args_def)
  have "pool_start c0 = pm" "pool_size c0 = sz" by (simp_all add: c0_def fresh_ctrl_def Let_def)
  then show "geom c0" unfolding geom_def us uz using a al by (simp add: st hz pool_args_def)
qed

lemma tlsf_create_run:
  assumes a: "pool_args pm sz"
  obtains c' where "tlsf_create pm sz c = (pm, c')" "tlsf_inv c' [pm + 6720]" "block_size c' (pm + 6720) = sz - 6720"
    "block_is_free c' (pm + 6720)" "pool_start c' = pm" "pool_size c' = sz" "used_bytes c' = 0"
proof -
  define c0 where "c0 = fresh_ctrl pm sz c"
  define f where "f = pm + 6720"
  note g = fresh_ctrl_geom [OF a, of c, folded c0_def]
  define c1 where "c1 = init_header f (heap_size c0 OR BLOCK_FREE) c0"
  have al: "aligned64 (6720 :: u64)" by (simp add: aligned64_def)
  have af: "aligned64 f" "aligned64 (sz - 6720)" using a al by (simp_all add: f_def pool_args_def)
  note i = init_header_mem [OF af(1), where w = "heap_size c0 OR BLOCK_FREE" and c = c0, folded c1_def]
  have hs: "heap_start c1 = f" "get_heap_end c1 = f + (sz - 6720)" "geom c1"
    using i(4) g geom_cong [OF i(4)] by (simp_all add: same_geom_def get_heap_end_def f_def)
  have szf: "sz_of (mem c1 f) = sz - 6720" "fr_of (mem c1 f)" "\<not> pf_of (mem c1 f)"
    using af by (simp_all add: i(1) g)
  have "unat f + unat (sz - 6720) = unat (get_heap_end c1)"
    using geom_end(2) [OF hs(3)] hs(1) i(4) g by (simp add: same_geom_def)
  moreover have "128 \<le> unat (sz - 6720)" using g(5) a unfolding g(2) pool_args_def by linarith
  ultimately have ch: "chain (mem c1) f (get_heap_end c1) [f]"
    using af szf i(2) hs by simp
  have "flok c1 {}"
    by (rule flok_empty) (use i(5) in \<open>simp_all add: same_lists_def c0_def fresh_ctrl_def Let_def\<close>)
  then have h1: "heap_ok c1 [f] {} {}"
    using ch hs szf by (auto simp: heap_ok_def phys_def backref_def Let_def)
  define c2 where "c2 = write_block_footer f c1"
  note w = write_block_footer_ok [OF h1, of f, folded c2_def] and wk = write_footer_keep [OF h1, of f f, folded c2_def]
  have h2: "heap_ok c2 [f] {} {}" using w(1) by simp
  have m2: "mem c2 f = mem c1 f" "same_ctl c1 c2" using wk by simp_all
  define c3 where "c3 = insert_block f c2"
  note n = insert_block_ok [OF h2, of f, folded c3_def, simplified]
  have m3: "mem c3 f = mem c1 f" using hdr_sameD(1) [OF n(2) af(1)] m2 by simp
  have sc: "same_ctl c1 c3" by (rule same_ctl_trans [OF m2(2) n(4)])
  define c' where "c' = set_errno TLSF_OK c3"
  have "block_next c2 f = get_heap_end c2"
    using m2 szf hs by (simp add: block_next_def block_word get_heap_end_def same_ctl_def)
  moreover have "get_first_block c0 = f" using g by (simp add: get_first_block_def f_def)
  moreover have "\<not> sz < MIN_POOL_SIZE" "\<not> MAX_POOL_SIZE < sz" "pm \<noteq> 0"
    using a by (simp_all add: pool_args_def MIN_POOL_SIZE_def MAX_POOL_SIZE_def word_less_nat_alt)
  ultimately have run: "tlsf_create pm sz c = (pm, c')"
    by (simp add: tlsf_create_def Let_def c'_def c3_def c2_def c1_def c0_def)
  have fields: "mem c' = mem c3" "used_bytes c' = 0" "stack_top c' = 0" "mutex c' = mutex_new"
    "format_version c' = TLSF_FORMAT_VERSION" "pool_start c' = pm" "pool_size c' = sz"
    using sc i(3,4) by (simp_all add: c'_def set_errno_def same_ctl_def c1_def init_header_def uid_clear_all_def
        c0_def fresh_ctrl_def Let_def)
  have "free_blocks c' [f] = {f}" using m3 szf fields by (auto simp: free_blocks_def)
  then have "heap_inv c' [f]"
    using n(1) m3 szf fields by (simp add: heap_inv_def) (simp add: c'_def)
  moreover have "idle c'" by (simp add: idle_def fields mutex_new_def)
  ultimately show thesis
    using that [OF run] m3 szf fields by (simp add: tlsf_inv_def block_word f_def)
qed

end
