(* ===== verification/Tlsf_Api.thy ===== *)
theory Tlsf_Api
  imports Tlsf_Heap
begin

text \<open>
  The rest of the public interface of the allocator (\<^verbatim>\<open>libs/tlsf_txn/tlsf_txn.c\<close>, from
  \<^verbatim>\<open>tlsf_free_dc\<close> on): deferred cleanup, resizing, owners, the walk over the blocks of an owner
  and the statistics. The destructor of the walk is a parameter: the function the caller
  passes, on the pointer, the header address, the matched owner, its own data and the state.
\<close>

section \<open>Checks shared by the operations\<close>

text \<open>The checks of a user pointer under the mutex: \<open>Inl\<close> the error, \<open>Inr\<close> the block.\<close>

definition user_block :: "u64 \<Rightarrow> tlsf_ctrl \<Rightarrow> int + u64" where
  "user_block ptr c =
     (let b = block_from_ptr ptr in
      if \<not> validate_pointer b c \<or> \<not> validate_block_signature c b then Inl TLSF_ERR_BLOCK_CORRUPTED
      else if block_is_free c b then Inl TLSF_ERR_NOT_ALLOCATED
      else Inr b)"

section \<open>Deferred cleanup\<close>

definition tlsf_free_dc :: "caller \<Rightarrow> u64 \<Rightarrow> u64 \<Rightarrow> u16 \<Rightarrow> tlsf_ctrl \<Rightarrow> (unit \<times> tlsf_ctrl) option" where
  "tlsf_free_dc w tlsf ptr uid c =
     (if tlsf = 0 \<or> ptr = 0 then Some ((), c)
      else if uid = 0 then Some ((), set_errno TLSF_ERR_UID_INVALID c)
      else with_lock w (\<lambda>_. ()) (\<lambda>c1.
        case user_block ptr c1 of
          Inl e \<Rightarrow> ((), set_errno e c1)
        | Inr b \<Rightarrow>
            if uid_find c1 b uid < 0 then ((), set_errno TLSF_ERR_UID_NOT_FOUND c1)
            else if uid_count c1 b = 1 then
              pushing (b + 8) () c1 (\<lambda>c2. ((), bul_commit (poke (b + 8) (sig_dc c2 b OR SIG_DC_DC_BIT) c2)))
            else case drop_owner b uid [0..<TLSF_MAX_OWNERS] c1 of (ok, c2) \<Rightarrow> ((), commit_if ok c2)) c)"

definition dc_precheck :: "u64 \<Rightarrow> u64 \<Rightarrow> tlsf_ctrl \<Rightarrow> int + u64" where
  "dc_precheck tlsf ptr c =
     (if tlsf = 0 \<or> ptr = 0 then Inl (- TLSF_ERR_INVALID_PTR)
      else if format_version c \<noteq> TLSF_FORMAT_VERSION then Inl (- TLSF_ERR_FORMAT_MISMATCH)
      else let b = block_from_ptr ptr in
        if \<not> validate_pointer b c then Inl (- TLSF_ERR_INVALID_PTR)
        else if \<not> check_signature c b then Inl (- TLSF_ERR_BLOCK_CORRUPTED)
        else if block_is_free c b then Inl (- TLSF_ERR_NOT_ALLOCATED)
        else Inr b)"

definition tlsf_setdc :: "u64 \<Rightarrow> u64 \<Rightarrow> tlsf_ctrl \<Rightarrow> int \<times> tlsf_ctrl" where
  "tlsf_setdc tlsf ptr c =
     (case dc_precheck tlsf ptr c of
        Inl rc \<Rightarrow> (rc, c)
      | Inr b \<Rightarrow> (0, poke (b + 8) (sig_dc c b OR SIG_DC_DC_BIT) c))"

definition tlsf_cleardc :: "u64 \<Rightarrow> u64 \<Rightarrow> tlsf_ctrl \<Rightarrow> int \<times> tlsf_ctrl" where
  "tlsf_cleardc tlsf ptr c =
     (case dc_precheck tlsf ptr c of
        Inl rc \<Rightarrow> (rc, c)
      | Inr b \<Rightarrow> (0, poke (b + 8) (sig_dc c b AND NOT SIG_DC_DC_BIT) c))"

definition tlsf_getdc :: "u64 \<Rightarrow> u64 \<Rightarrow> tlsf_ctrl \<Rightarrow> int" where
  "tlsf_getdc tlsf ptr c =
     (case dc_precheck tlsf ptr c of Inl rc \<Rightarrow> rc | Inr b \<Rightarrow> if get_dc c b then 1 else 0)"

definition tlsf_get_data_type :: "u64 \<Rightarrow> u64 \<Rightarrow> tlsf_ctrl \<Rightarrow> int" where
  "tlsf_get_data_type tlsf ptr c =
     (case dc_precheck tlsf ptr c of Inl rc \<Rightarrow> rc | Inr b \<Rightarrow> uint (get_data_type c b))"

section \<open>Resizing\<close>

definition add_used :: "u64 \<Rightarrow> tlsf_ctrl \<Rightarrow> tlsf_ctrl" where
  "add_used d c = c\<lparr>used_bytes := used_bytes c + d\<rparr>"

definition realloc_shrink :: "u64 \<Rightarrow> u64 \<Rightarrow> tlsf_ctrl \<Rightarrow> int \<times> tlsf_ctrl" where
  "realloc_shrink b needed c =
     (let cur = block_size c b; old_payload = block_payload_size c b in
      if cur - needed \<ge> MIN_BLOCK_SZ then
        pushing b (-1) c (\<lambda>c1. pushing (used_bytes_addr c1) (-1) c1 (\<lambda>c2.
          let c3 = split_block b needed c2
          in (1, c3\<lparr>used_bytes := used_bytes c3 - (old_payload - block_payload_size c3 b)\<rparr>)))
      else (1, c))"

definition realloc_tail :: "u64 \<Rightarrow> u64 \<Rightarrow> u64 \<Rightarrow> tlsf_ctrl \<Rightarrow> int \<times> tlsf_ctrl" where
  "realloc_tail b needed old_payload c =
     (let combined = block_size c b in
      if combined - needed \<ge> MIN_BLOCK_SZ then
        let c1 = split_block b needed c in (1, add_used (block_payload_size c1 b - old_payload) c1)
      else
        let after = block_next c b in
        if after < get_heap_end c then
          pushing after (-1) c (\<lambda>c1. pushing (after + 56) (-1) c1 (\<lambda>c2.
            let c3 = poke after (size_flags c2 after AND NOT BLOCK_PREV_FREE) c2
            in (1, add_used (block_payload_size c3 b - old_payload) c3)))
        else (1, add_used (block_payload_size c b - old_payload) c))"

definition realloc_try_inplace :: "u64 \<Rightarrow> u64 \<Rightarrow> tlsf_ctrl \<Rightarrow> int \<times> tlsf_ctrl" where
  "realloc_try_inplace b needed c =
     (let cur = block_size c b; old_payload = block_payload_size c b in
      if needed \<le> cur then realloc_shrink b needed c
      else
        let n = block_next c b in
        if n \<ge> get_heap_end c then (0, c)
        else if \<not> validate_block_signature c n \<or> \<not> block_is_free c n then (0, c)
        else
          let nsz = block_size c n in
          if nsz = 0 \<or> nsz mod ALIGN_SIZE \<noteq> 0 then (0, c)
          else
            let combined = cur + nsz in
            if combined < needed then (0, c)
            else
              pushing b (-1) (remove_block n c) (\<lambda>c1. pushing (used_bytes_addr c1) (-1) c1 (\<lambda>c2.
                realloc_tail b needed old_payload (block_set_size b combined c2))))"

definition realloc_move :: "u64 \<Rightarrow> u64 \<Rightarrow> u64 \<Rightarrow> u16 \<Rightarrow> tlsf_ctrl \<Rightarrow> u64 \<times> tlsf_ctrl" where
  "realloc_move ptr needed new_size uid c =
     (let b = block_from_ptr ptr;
          old_data_type = get_data_type c b;
          old_payload = block_payload_size c b;
          new_payload = needed - HEADER_SIZE
      in case tlsf_malloc_internal new_size uid old_data_type c of (new_ptr, c1) \<Rightarrow>
           if new_ptr = 0 then (0, c1)
           else
             let copy_size = (if old_payload < new_payload then old_payload else new_payload);
                 c2 = c1\<lparr>mem := memcpy_words new_ptr ptr copy_size (mem c1)\<rparr>
             in case tlsf_free_internal ptr uid c2 of (ok, c3) \<Rightarrow>
                  if \<not> ok then (0, snd (bul_recover_internal c3)) else (new_ptr, bul_commit c3))"

definition tlsf_realloc :: "caller \<Rightarrow> u64 \<Rightarrow> u64 \<Rightarrow> u64 \<Rightarrow> u16 \<Rightarrow> tlsf_ctrl \<Rightarrow> (u64 \<times> tlsf_ctrl) option" where
  "tlsf_realloc w tlsf ptr new_size uid c =
     (if tlsf = 0 then Some (0, c)
      else if ptr = 0 then tlsf_malloc w tlsf new_size uid 0 c
      else if new_size = 0 then map_option (\<lambda>(_, c1). (0, c1)) (tlsf_free w tlsf ptr uid c)
      else if uid = 0 then Some (0, set_errno TLSF_ERR_UID_INVALID c)
      else with_lock w (\<lambda>_. 0) (\<lambda>c1.
        case user_block ptr c1 of
          Inl e \<Rightarrow> (0, set_errno e c1)
        | Inr b \<Rightarrow>
            if uid_find c1 b uid < 0 then (0, set_errno TLSF_ERR_UID_NOT_FOUND c1)
            else if uid_count c1 b > 1 then (0, set_errno TLSF_ERR_TOO_MANY_OWNERS c1)
            else
              let needed = request_to_block_size new_size in
              case realloc_try_inplace b needed c1 of (ip, c2) \<Rightarrow>
                if ip < 0 then (0, c2)
                else if ip > 0 then (ptr, bul_commit c2)
                else realloc_move ptr needed new_size uid c2) c)"

definition tlsf_destroy :: "u64 \<Rightarrow> tlsf_ctrl \<Rightarrow> tlsf_ctrl" where
  "tlsf_destroy tlsf c = (if tlsf = 0 then c else c\<lparr>mutex := snd (pthread_mutex_destroy (mutex c))\<rparr>)"

definition tlsf_get_block_size :: "caller \<Rightarrow> u64 \<Rightarrow> u64 \<Rightarrow> tlsf_ctrl \<Rightarrow> (u64 \<times> tlsf_ctrl) option" where
  "tlsf_get_block_size w tlsf ptr c =
     (if tlsf = 0 \<or> ptr = 0 then Some (0, set_errno TLSF_ERR_INVALID_PTR c)
      else with_lock w (\<lambda>_. 0) (\<lambda>c1.
        case user_block ptr c1 of
          Inl e \<Rightarrow> (0, set_errno e c1)
        | Inr b \<Rightarrow> (block_payload_size c1 b, set_errno TLSF_OK c1)) c)"

section \<open>Owners\<close>

definition tlsf_link :: "caller \<Rightarrow> u64 \<Rightarrow> u64 \<Rightarrow> u16 \<Rightarrow> tlsf_ctrl \<Rightarrow> (int \<times> tlsf_ctrl) option" where
  "tlsf_link w tlsf ptr uid c =
     (if tlsf = 0 \<or> ptr = 0 then Some (- TLSF_ERR_INVALID_PTR, c)
      else if uid = 0 then Some (- TLSF_ERR_UID_INVALID, c)
      else with_lock w (\<lambda>rc. - rc) (\<lambda>c1.
        case user_block ptr c1 of
          Inl e \<Rightarrow> (- e, c1)
        | Inr b \<Rightarrow>
            if uid_find c1 b uid \<ge> 0 then (- TLSF_ERR_UID_DUPLICATE, c1)
            else
              let slot = uid_find_empty c1 b in
              if slot < 0 then (- TLSF_ERR_UID_FULL, c1)
              else case bul_push_uid_word b (nat slot) c1 of (ok, c2) \<Rightarrow>
                if \<not> ok then (- TLSF_ERR_BUL_OVERFLOW, c2)
                else (0, bul_commit (uid_put b (nat slot) uid c2))) c)"

definition tlsf_check_uid :: "caller \<Rightarrow> u64 \<Rightarrow> u64 \<Rightarrow> u16 \<Rightarrow> tlsf_ctrl \<Rightarrow> (int \<times> tlsf_ctrl) option" where
  "tlsf_check_uid w tlsf ptr uid c =
     (if tlsf = 0 \<or> ptr = 0 then Some (- TLSF_ERR_INVALID_PTR, c)
      else if uid = 0 then Some (- TLSF_ERR_UID_INVALID, c)
      else with_lock w (\<lambda>rc. - rc) (\<lambda>c1.
        case user_block ptr c1 of
          Inl e \<Rightarrow> (- e, c1)
        | Inr b \<Rightarrow> (if uid_find c1 b uid \<ge> 0 then 1 else 0, c1)) c)"

section \<open>The walk over an owner's blocks\<close>

type_synonym 'u destructor = "u64 \<Rightarrow> u64 \<Rightarrow> u16 \<Rightarrow> 'u \<Rightarrow> tlsf_ctrl \<Rightarrow> int \<times> 'u \<times> tlsf_ctrl"

definition walk_match :: "u16 \<Rightarrow> u64 \<Rightarrow> tlsf_ctrl \<Rightarrow> bool" where
  "walk_match uid b c = (if uid = 0 then get_dc c b else uid_find c b uid \<ge> 0)"

text \<open>One pass: \<open>Inl\<close> the code returned to the caller, \<open>Inr found\<close> the end of the pass. \<open>u\<close> is what
  the destructor reaches through the argument \<^verbatim>\<open>user\<close>.\<close>

function walk_pass :: "u16 \<Rightarrow> 'u destructor \<Rightarrow> u64 \<Rightarrow> u64 \<Rightarrow> 'u \<Rightarrow> tlsf_ctrl \<Rightarrow> (int + bool) \<times> 'u \<times> tlsf_ctrl" where
  "walk_pass uid destr b e u c =
     (if b \<ge> e then (Inr False, u, c)
      else if \<not> validate_block_signature c b then (Inl (- TLSF_ERR_BLOCK_CORRUPTED), u, c)
      else let bsz = block_size c b; remaining = e - b in
        if bsz = 0 \<or> bsz > remaining then (Inl (- TLSF_ERR_BLOCK_CORRUPTED), u, c)
        else if block_is_free c b then walk_pass uid destr (b + bsz) e u c
        else if walk_match uid b c then
          (case destr (ptr_from_block b) b (if uid = 0 then uid_get_first c b else uid) u c of (drc, u1, c1) \<Rightarrow>
             if drc < 0 then (Inl drc, u1, c1)
             else if drc > 0 then (Inr True, u1, c1)
             else walk_pass uid destr (b + bsz) e u1 c1)
        else walk_pass uid destr (b + bsz) e u c)"
  by pat_completeness auto

lemma walk_decreases:
  assumes "\<not> (e :: u64) \<le> b" "s \<noteq> 0" "s \<le> e - b"
  shows "unat (e - (b + s)) < unat (e - b)"
proof -
  have "e - (b + s) = (e - b) - s" by simp
  then have "unat (e - (b + s)) = unat (e - b - s)" by (simp only:)
  also have "\<dots> = unat (e - b) - unat s"
    by (rule unat_diff_nowrap) (use assms(3) in \<open>simp add: word_le_nat_alt\<close>)
  finally have "unat (e - (b + s)) = unat (e - b) - unat s" .
  moreover have "0 < unat s" "unat s \<le> unat (e - b)" using assms(2,3) by (simp_all add: word_le_nat_alt unat_gt_0)
  ultimately show ?thesis by linarith
qed

termination walk_pass
  by (relation "measure (\<lambda>(_, _, b, e, _, _). unat (e - b))") (simp_all add: walk_decreases not_less)

declare walk_pass.simps [simp del]

fun walk_all :: "nat \<Rightarrow> u16 \<Rightarrow> 'u destructor \<Rightarrow> 'u \<Rightarrow> tlsf_ctrl \<Rightarrow> (int \<times> 'u \<times> tlsf_ctrl) option" where
  "walk_all 0 uid destr u c = None"
| "walk_all (Suc fuel) uid destr u c =
     (case walk_pass uid destr (get_first_block c) (get_heap_end c) u c of
        (Inl rc, u1, c1) \<Rightarrow> Some (rc, u1, c1)
      | (Inr found, u1, c1) \<Rightarrow> if found then walk_all fuel uid destr u1 c1 else Some (0, u1, c1))"

text \<open>\<open>fuel\<close> bounds the passes of the outer loop; \<open>None\<close>: the call does not return.\<close>

definition tlsf_free_uid_blocks ::
  "nat \<Rightarrow> caller \<Rightarrow> u64 \<Rightarrow> u16 \<Rightarrow> 'u destructor option \<Rightarrow> 'u \<Rightarrow> tlsf_ctrl \<Rightarrow> (int \<times> 'u \<times> tlsf_ctrl) option" where
  "tlsf_free_uid_blocks fuel w tlsf uid destructor u c =
     (if tlsf = 0 then Some (- TLSF_ERR_INVALID_PTR, u, c)
      else case destructor of
        None \<Rightarrow> Some (- TLSF_ERR_INVALID_PTR, u, c)
      | Some destr \<Rightarrow>
          (case lock_and_recover w c of
             None \<Rightarrow> None
           | Some (rc, c1) \<Rightarrow>
               if rc \<noteq> TLSF_OK then Some (- rc, u, c1)
               else map_option (apsnd (apsnd (mutex_unlock w))) (walk_all fuel uid destr u c1)))"

section \<open>Statistics\<close>

definition tlsf_get_used_size :: "caller \<Rightarrow> u64 \<Rightarrow> tlsf_ctrl \<Rightarrow> (u64 \<times> tlsf_ctrl) option" where
  "tlsf_get_used_size w tlsf c =
     (if tlsf = 0 then Some (0, c) else with_lock w (\<lambda>_. 0) (\<lambda>c1. (used_bytes c1, c1)) c)"

definition tlsf_get_max_size :: "caller \<Rightarrow> u64 \<Rightarrow> tlsf_ctrl \<Rightarrow> (u64 \<times> tlsf_ctrl) option" where
  "tlsf_get_max_size w tlsf c =
     (if tlsf = 0 then Some (0, c) else with_lock w (\<lambda>_. 0) (\<lambda>c1. (pool_size c1, c1)) c)"

definition tlsf_get_errno :: "u64 \<Rightarrow> tlsf_ctrl \<Rightarrow> int" where
  "tlsf_get_errno tlsf c = tlsf_errno c"

definition tlsf_strerror :: "int \<Rightarrow> string" where
  "tlsf_strerror err =
     (let e = (if err < 0 then - err else err) in
      if e = TLSF_OK then ''OK''
      else if e = TLSF_ERR_LOCK_FAILED then ''Lock failed''
      else if e = TLSF_ERR_CORRUPTION_UNRECOVERABLE then ''Corruption unrecoverable''
      else if e = TLSF_ERR_BUL_OVERFLOW then ''BUL overflow''
      else if e = TLSF_ERR_BLOCK_CORRUPTED then ''Block corrupted''
      else if e = TLSF_ERR_INVALID_PTR then ''Invalid pointer''
      else if e = TLSF_ERR_OUT_OF_MEMORY then ''Out of memory''
      else if e = TLSF_ERR_POOL_TOO_SMALL then ''Pool too small''
      else if e = TLSF_ERR_UID_FULL then ''UID array full''
      else if e = TLSF_ERR_UID_NOT_FOUND then ''UID not found''
      else if e = TLSF_ERR_UID_INVALID then ''UID invalid (zero)''
      else if e = TLSF_ERR_NOT_ALLOCATED then ''Block not allocated''
      else if e = TLSF_ERR_BUSY then ''Mutex busy''
      else if e = TLSF_ERR_TOO_MANY_OWNERS then ''Too many owners''
      else if e = TLSF_ERR_UID_DUPLICATE then ''UID duplicate''
      else if e = TLSF_ERR_FORMAT_MISMATCH then ''Format version mismatch''
      else ''Unknown error'')"

section \<open>Changing the owners or the mark of one block\<close>

lemma user_block_ok:
  assumes "heap_inv c bs" "b \<in> set bs" "\<not> fr_of (mem c b)"
  shows "user_block (ptr_from_block b) c = Inr b"
proof -
  have "heap_ok c bs (free_blocks c bs) {}" using assms(1) by (simp add: heap_inv_def)
  from chain_member(4) [OF heap_okD(2) [OF this] assms(2)] block_in_pool(2) [OF assms(1,2)] assms(3)
  show ?thesis by (simp add: user_block_def validate_block_signature_def sig_word block_word)
qed

text \<open>A step that rewrites words of one allocated block's header, but not its size word.\<close>

lemma header_step:
  assumes inv: "heap_inv c bs" and b: "b \<in> set bs" "\<not> fr_of (mem c b)"
    and t: "touches c c' {b}" and g: "same_geom c c'" "same_lists c c'" "used_bytes c' = used_bytes c"
    and w: "mem c' b = mem c b" "sig_of (mem c' (b + 8))" "mem c' (b + 56) = mem c (b + 56)"
  shows "heap_inv c' bs" "heap_abs c' bs = (heap_abs c bs)(ptr_from_block b \<mapsto> block_info c' b)"
    "x \<in> set bs \<Longrightarrow> payload_same c c' x"
proof -
  have h: "heap_ok c bs (free_blocks c bs) {}" using inv by (simp add: heap_inv_def)
  have k: "keep c c' x" if "x \<in> set bs" "x \<noteq> b" for x
    using keep_untouched [OF t chain_member(1) [OF heap_okD(2) [OF h] that(1)]] that(2) by simp
  have m: "fr_of (mem c' x) = fr_of (mem c x) \<and> sz_of (mem c' x) = sz_of (mem c x)" if "x \<in> set bs" for x
    using k [OF that] w(1) by (cases "x = b") (auto simp: keep_def meta_same_def)
  have F: "free_blocks c' bs = free_blocks c bs" using m by (auto simp: free_blocks_def)
  have "b \<notin> free_blocks c bs" using b by (simp add: free_blocks_member)
  from heap_ok_line [OF h b(1) this t g(1,2) w] F used_sum_cong [of bs "mem c'" "mem c"] m inv g(3)
  show "heap_inv c' bs" by (simp add: heap_inv_def)
  show "heap_abs c' bs = (heap_abs c bs)(ptr_from_block b \<mapsto> block_info c' b)"
  proof
    fix p
    define x where "x = block_from_ptr p"
    have p: "p = ptr_from_block x" by (simp add: x_def)
    show "heap_abs c' bs p = ((heap_abs c bs)(ptr_from_block b \<mapsto> block_info c' b)) p"
      using m b k [of x] keep_info [of c c' x] w(1) by (cases "x = b") (auto simp: p heap_abs_ptr)
  qed
  show "payload_same c c' x" if "x \<in> set bs"
    unfolding payload_same_def block_word
  proof (intro allI impI)
    fix z y :: u64
    assume z: "aligned64 z" "y < 64" "unat x < unat z" "unat z < unat x + unat (sz_of (mem c x))"
    have "z \<noteq> b" using chain_interior [OF heap_okD(2) [OF h] that z(3,4)] b(1) by blast
    then show "mem c' (z + y) = mem c (z + y)" using touchesD(2) [OF t z(1)] z(2) by simp
  qed
qed

lemma tlsf_inv_finish:
  assumes "heap_inv c2 bs" "idle c" "same_txn (locked w c) c2"
  shows "tlsf_inv (mutex_unlock w (bul_commit c2)) bs" "stack_top c2 = 0 \<Longrightarrow> tlsf_inv (mutex_unlock w c2) bs"
  using assms idle_after [OF assms(2,3)] by (simp_all add: tlsf_inv_def)

lemma payload_same_ctl: "mem d = mem c \<Longrightarrow> mem d' = mem c' \<Longrightarrow> payload_same d d' x = payload_same c c' x"
  by (simp add: payload_same_def block_word)

text \<open>Linking an owner.\<close>

lemma find_from_first:
  "find_from P xs = -1 \<and> (\<forall>x \<in> set xs. \<not> P x) \<or>
   (\<exists>ys i zs. xs = ys @ i # zs \<and> find_from P xs = int i \<and> P i \<and> (\<forall>y \<in> set ys. \<not> P y))"
proof (induction xs)
  case (Cons x xs)
  show ?case
  proof (cases "P x")
    case True
    then show ?thesis by (intro disjI2 exI [of _ "[]"] exI [of _ x] exI [of _ xs]) simp
  next
    case False
    from Cons show ?thesis
    proof (elim disjE exE conjE)
      fix ys i zs
      assume "xs = ys @ i # zs" "find_from P xs = int i" "P i" "\<forall>y \<in> set ys. \<not> P y"
      with False show ?thesis by (intro disjI2 exI [of _ "x # ys"] exI [of _ i] exI [of _ zs]) simp
    qed (use False in simp)
  qed
qed simp

lemma upt_append: "[0..<n] = ys @ i # zs \<Longrightarrow> i = length ys \<and> ys = [0..<i] \<and> i < n"
proof -
  assume e: "[0..<n] = ys @ i # zs"
  have "length [0..<n] = length (ys @ i # zs)" by (simp only: e)
  then have l: "length ys < n" by simp
  have "i = [0..<n] ! length ys" by (simp add: e nth_append)
  then have i: "i = length ys" using l by simp
  have "take (length ys) [0..<n] = ys" by (simp add: e)
  moreover have "take (length ys) [0..<n] = [0..<i]" using i l by simp
  ultimately have "ys = [0..<i]" by simp
  with i l show ?thesis by blast
qed

lemma uid_find_empty_first:
  "uid_find_empty c b < 0 \<and> 0 \<notin> set (uid_list c b) \<or>
   (\<exists>i<12. uid_find_empty c b = int i \<and> uid_list c b ! i = 0 \<and> (\<forall>j<i. uid_list c b ! j \<noteq> 0))"
proof -
  let ?P = "\<lambda>i. uid_at c b i = 0" and ?is = "[0..<TLSF_MAX_OWNERS]"
  have n: "TLSF_MAX_OWNERS = 12" by (simp add: TLSF_MAX_OWNERS_def)
  from find_from_first [of ?P ?is] consider
    (none) "find_from ?P ?is = -1" "\<forall>x \<in> set ?is. \<not> ?P x" |
    (some) ys i zs where "?is = ys @ i # zs" "find_from ?P ?is = int i" "?P i" "\<forall>y \<in> set ys. \<not> ?P y"
    by blast
  then show ?thesis
  proof cases
    case none
    then show ?thesis by (auto simp: uid_find_empty_def uid_list_def)
  next
    case some
    have u0: "i = length ys \<and> ys = [0..<i] \<and> i < TLSF_MAX_OWNERS" by (rule upt_append [OF some(1)])
    have u: "ys = [0..<i]" "i < 12" using u0 unfolding n by blast+
    then have "\<forall>j<i. uid_list c b ! j \<noteq> 0" using some(4) by (simp add: uid_list_nth)
    then show ?thesis using some(2,3) u(2) by (auto simp: uid_find_empty_def uid_list_nth)
  qed
qed

lemma block_info_put:
  assumes "aligned64 b" "i < 12"
  shows "block_info (uid_put b i u c) b = (block_info c b)\<lparr>bk_owners := (uid_list c b)[i := u]\<rparr>"
  using uid_put_line(2,3) [OF assms, where c = c and u = u] uid_list_put [OF assms(2), of b u c]
  by (simp add: block_info_def block_payload_size_def block_word sig_word)

lemma log_abs [simp]: "heap_inv (log_entry a c) bs = heap_inv c bs" "heap_abs (log_entry a c) bs = heap_abs c bs"
  "block_info (log_entry a c) b = block_info c b"
proof -
  show "heap_inv (log_entry a c) bs = heap_inv c bs" "heap_abs (log_entry a c) bs = heap_abs c bs"
    by (rule heap_inv_ctl; simp add: same_geom_def same_lists_def)+
  show "block_info (log_entry a c) b = block_info c b"
    by (simp add: block_info_def block_payload_size_def block_word sig_word)
qed

definition link_effect :: "tlsf_ctrl \<Rightarrow> u64 list \<Rightarrow> u64 \<Rightarrow> u16 \<Rightarrow> int \<Rightarrow> tlsf_ctrl \<Rightarrow> bool" where
  "link_effect c bs p uid rc c' \<longleftrightarrow>
     (case heap_abs c bs p of None \<Rightarrow> False
      | Some k \<Rightarrow>
          if uid \<in> set (bk_owners k) then rc = - TLSF_ERR_UID_DUPLICATE \<and> heap_abs c' bs = heap_abs c bs
          else if 0 \<notin> set (bk_owners k) then rc = - TLSF_ERR_UID_FULL \<and> heap_abs c' bs = heap_abs c bs
          else rc = 0 \<and> (\<exists>i<12. bk_owners k ! i = 0 \<and> (\<forall>j<i. bk_owners k ! j \<noteq> 0) \<and>
                 heap_abs c' bs = (heap_abs c bs)(p \<mapsto> k\<lparr>bk_owners := (bk_owners k)[i := uid]\<rparr>)))"

lemma tlsf_link_run:
  assumes inv: "tlsf_inv c bs" and arg: "tlsf \<noteq> 0" "uid \<noteq> 0" and k: "heap_abs c bs p = Some k"
  obtains rc c' where "tlsf_link w tlsf p uid c = Some (rc, c')" "tlsf_inv c' bs" "link_effect c bs p uid rc c'"
    "\<And>x. x \<in> set bs \<Longrightarrow> payload_same c c' x"
proof -
  obtain b where b: "p = ptr_from_block b" "b \<in> set bs" "\<not> fr_of (mem c b)" "k = block_info c b"
    using k by (rule heap_abs_Some)
  have hi: "heap_inv c bs" and id: "idle c" using inv by (simp_all add: tlsf_inv_def)
  let ?l = "locked w c"
  have ub: "user_block p ?l = Inr b" unfolding b(1) by (rule user_block_ok) (use hi b in simp_all)
  have p0: "p \<noteq> 0" using block_in_pool(1) [OF hi b(2)] b(1) by simp
  have ul: "uid_list ?l b = bk_owners k" using uid_list_mem [of ?l c b] b(4) by (simp add: block_info_def)
  have run: "tlsf_link w tlsf p uid c = (case
      (if uid_find ?l b uid \<ge> 0 then (- TLSF_ERR_UID_DUPLICATE, ?l)
       else let slot = uid_find_empty ?l b in
         if slot < 0 then (- TLSF_ERR_UID_FULL, ?l)
         else case bul_push_uid_word b (nat slot) ?l of (ok, c2) \<Rightarrow>
           if \<not> ok then (- TLSF_ERR_BUL_OVERFLOW, c2) else (0, bul_commit (uid_put b (nat slot) uid c2))) of
      (rc, c2) \<Rightarrow> Some (rc, mutex_unlock w c2))"
    using arg p0 ub by (simp add: tlsf_link_def with_lock_idle [OF id])
  have fail: "tlsf_inv (mutex_unlock w ?l) bs" "heap_abs (mutex_unlock w ?l) bs = heap_abs c bs"
    "\<And>x. payload_same c (mutex_unlock w ?l) x"
    using tlsf_inv_finish(2) [of ?l bs c w] hi id
    by (simp_all add: idle_def same_txn_def same_geom_def payload_same_def)
  consider (dup) "uid \<in> set (bk_owners k)" | (full) "uid \<notin> set (bk_owners k)" "0 \<notin> set (bk_owners k)"
    | (ok) i where "uid \<notin> set (bk_owners k)" "i < 12" "uid_find_empty ?l b = int i" "bk_owners k ! i = 0"
        "\<forall>j<i. bk_owners k ! j \<noteq> 0"
    using uid_find_empty_first [of ?l b] unfolding ul by auto
  then show thesis
  proof cases
    case dup
    then have "0 \<le> uid_find ?l b uid" using uid_find_nonneg [of ?l b uid] ul by simp
    then have "tlsf_link w tlsf p uid c = Some (- TLSF_ERR_UID_DUPLICATE, mutex_unlock w ?l)" using run by simp
    then show thesis by (rule that) (use fail dup k in \<open>simp_all add: link_effect_def\<close>)
  next
    case full
    have "\<not> 0 \<le> uid_find ?l b uid" using uid_find_nonneg [of ?l b uid] ul full(1) by simp
    moreover have "uid_find_empty ?l b < 0" using uid_find_empty_spec [of ?l b] full(2) ul by (metis nth_mem uid_list_length)
    ultimately have "tlsf_link w tlsf p uid c = Some (- TLSF_ERR_UID_FULL, mutex_unlock w ?l)" using run by simp
    then show thesis by (rule that) (use fail full k in \<open>simp_all add: link_effect_def\<close>)
  next
    case ok
    have nf: "\<not> 0 \<le> uid_find ?l b uid" using uid_find_nonneg [of ?l b uid] ul ok(1) by simp
    define c1 where "c1 = log_entry (uid_word_addr b i) ?l"
    have push: "bul_push_uid_word b (nat (int i)) ?l = (True, c1)"
      using id by (simp add: bul_push_uid_word_def bul_push_ok idle_def c1_def log_entry_def)
    define c2 where "c2 = uid_put b i uid c1"
    have eq: "tlsf_link w tlsf p uid c = Some (0, mutex_unlock w (bul_commit c2))"
      using run nf ok(3) push by (simp add: c2_def)
    have h1: "heap_inv c1 bs" using hi by (simp add: c1_def)
    have ch: "aligned64 b" "sig_of (mem c (b + 8))"
      using hi chain_member(1,4) [OF _ b(2)] by (auto simp: heap_inv_def dest!: heap_okD(2))
    note ln = uid_put_line [OF ch(1) ok(2), where c = c1 and u = uid, folded c2_def]
    have nf1: "\<not> fr_of (mem c1 b)" using b(3) by (simp add: c1_def)
    have st: "heap_inv c2 bs" "heap_abs c2 bs = (heap_abs c1 bs)(ptr_from_block b \<mapsto> block_info c2 b)"
      "\<And>x. x \<in> set bs \<Longrightarrow> payload_same c1 c2 x"
      by (rule header_step [OF h1 b(2) nf1 ln(1)]; use ln ch(2) in \<open>simp add: c2_def c1_def\<close>)+
    have info: "block_info c2 b = k\<lparr>bk_owners := (bk_owners k)[i := uid]\<rparr>"
      using block_info_put [OF ch(1) ok(2), of uid c1] ul
      by (simp add: c2_def b(4)) (simp add: c1_def block_info_def block_payload_size_def block_word sig_word uid_list_mem [of ?l c])
    have "same_txn ?l c2" by (simp add: c2_def c1_def uid_put_def same_txn_def same_geom_def)
    note fin = tlsf_inv_finish(1) [OF st(1) id this]
    have pl: "payload_same c (mutex_unlock w (bul_commit c2)) x" if "x \<in> set bs" for x
      using st(3) [OF that] payload_same_ctl [of c c1 "mutex_unlock w (bul_commit c2)" c2 x] by (simp add: c1_def)
    have "heap_abs (mutex_unlock w (bul_commit c2)) bs = (heap_abs c bs)(p \<mapsto> k\<lparr>bk_owners := (bk_owners k)[i := uid]\<rparr>)"
      using st(2) info b(1) by (simp add: c1_def)
    moreover have "0 \<in> set (bk_owners k)" using ok(2,4) ul by (metis nth_mem uid_list_length)
    ultimately have "link_effect c bs p uid 0 (mutex_unlock w (bul_commit c2))"
      using ok k by (auto simp: link_effect_def)
    with eq fin pl show thesis by (intro that)
  qed
qed

section \<open>The deferred-cleanup mark\<close>

lemma dc_precheck_ok:
  assumes hi: "heap_inv c bs" and "format_version c = TLSF_FORMAT_VERSION" "tlsf \<noteq> 0" "b \<in> set bs" "\<not> fr_of (mem c b)"
  shows "dc_precheck tlsf (ptr_from_block b) c = Inr b"
proof -
  from hi have "heap_ok c bs (free_blocks c bs) {}" by (simp add: heap_inv_def)
  from chain_member(4) [OF heap_okD(2) [OF this] assms(4)] block_in_pool [OF hi assms(4)] assms
  show ?thesis by (simp add: dc_precheck_def sig_word block_word)
qed

lemma mark_step:
  assumes hi: "heap_inv c bs" and b: "b \<in> set bs" "\<not> fr_of (mem c b)"
    and w: "sig_of v" "type_of v = type_of (mem c (b + 8))"
  defines "c' \<equiv> poke (b + 8) v c"
  shows "heap_inv c' bs" "heap_abs c' bs = (heap_abs c bs)(ptr_from_block b \<mapsto> (block_info c b)\<lparr>bk_dc := dc_of v\<rparr>)"
    "x \<in> set bs \<Longrightarrow> payload_same c c' x"
proof -
  have ab: "aligned64 b" using hi chain_member(1) [OF _ b(1)] by (auto simp: heap_inv_def dest!: heap_okD(2))
  have t: "touches c c' {b}" unfolding c'_def by (rule touches_poke) (use ab in simp_all)
  have st: "heap_inv c' bs" "heap_abs c' bs = (heap_abs c bs)(ptr_from_block b \<mapsto> block_info c' b)"
    "\<And>x. x \<in> set bs \<Longrightarrow> payload_same c c' x"
    by (rule header_step [OF hi b t]; use w in \<open>simp add: c'_def\<close>)+
  have "uid_list c' b = uid_list c b" by (rule uid_list_cong) (simp_all add: c'_def)
  then have "block_info c' b = (block_info c b)\<lparr>bk_dc := dc_of v\<rparr>"
    using w(2) by (simp add: block_info_def block_payload_size_def block_word sig_word c'_def)
  with st show "heap_inv c' bs" "heap_abs c' bs = (heap_abs c bs)(ptr_from_block b \<mapsto> (block_info c b)\<lparr>bk_dc := dc_of v\<rparr>)"
    "x \<in> set bs \<Longrightarrow> payload_same c c' x"
    by simp_all
qed

section \<open>Queries\<close>

text \<open>A call that reads the block of a live pointer under the mutex.\<close>

lemma query_run:
  assumes inv: "tlsf_inv c bs" and k: "heap_abs c bs p = Some k"
  obtains b where "p = ptr_from_block b" "k = block_info c b" "b \<in> set bs" "user_block p (locked w c) = Inr b" "p \<noteq> 0"
    "tlsf_inv (mutex_unlock w (locked w c)) bs" "heap_abs (mutex_unlock w (locked w c)) bs = heap_abs c bs"
    "uid_list (locked w c) b = bk_owners k" "block_payload_size (locked w c) b = bk_size k" "idle c"
proof -
  obtain b where b: "p = ptr_from_block b" "b \<in> set bs" "\<not> fr_of (mem c b)" "k = block_info c b"
    using k by (rule heap_abs_Some)
  have hi: "heap_inv c bs" and id: "idle c" using inv by (simp_all add: tlsf_inv_def)
  have ub: "user_block p (locked w c) = Inr b" unfolding b(1) by (rule user_block_ok) (use hi b in simp_all)
  have "tlsf_inv (mutex_unlock w (locked w c)) bs" "heap_abs (mutex_unlock w (locked w c)) bs = heap_abs c bs"
    using tlsf_inv_finish(2) [of "locked w c" bs c w] hi id by (simp_all add: idle_def same_txn_def same_geom_def)
  moreover have "uid_list (locked w c) b = bk_owners k" using uid_list_mem [of "locked w c" c b] b(4) by (simp add: block_info_def)
  moreover have "block_payload_size (locked w c) b = bk_size k" using b(4) by (simp add: block_info_def block_payload_size_def block_word)
  moreover have "p \<noteq> 0" using block_in_pool(1) [OF hi b(2)] b(1) by simp
  ultimately show thesis using b ub id by (intro that [of b]) simp_all
qed

lemma tlsf_check_uid_run:
  assumes "tlsf_inv c bs" "heap_abs c bs p = Some k" "tlsf \<noteq> 0" "uid \<noteq> 0"
  shows "\<exists>c'. tlsf_check_uid w tlsf p uid c = Some (if uid \<in> set (bk_owners k) then 1 else 0, c') \<and>
    tlsf_inv c' bs \<and> heap_abs c' bs = heap_abs c bs \<and> mem c' = mem c"
proof -
  obtain b where b: "p = ptr_from_block b" "k = block_info c b" "b \<in> set bs" "user_block p (locked w c) = Inr b" "p \<noteq> 0"
    "tlsf_inv (mutex_unlock w (locked w c)) bs" "heap_abs (mutex_unlock w (locked w c)) bs = heap_abs c bs"
    "uid_list (locked w c) b = bk_owners k" "block_payload_size (locked w c) b = bk_size k" "idle c"
    by (rule query_run [OF assms(1,2), of w])
  have "0 \<le> uid_find (locked w c) b uid \<longleftrightarrow> uid \<in> set (bk_owners k)"
    using uid_find_nonneg [of "locked w c" b uid] b(8) by simp
  then show ?thesis using assms(3,4) b(4-7) by (simp add: tlsf_check_uid_def with_lock_idle [OF b(10)])
qed

end
