(* ===== verification/Tlsf_Props.thy ===== *)
theory Tlsf_Props
  imports Tlsf_Heap
begin

text \<open>
  The properties of the allocator core: creation, allocation and release against the abstract
  view, the round trip, the recovery of logged words after a crash, and the two requests whose
  size arithmetic goes wrong (a class whose head is too small, a size near the top of
  \<^verbatim>\<open>size_t\<close>).
\<close>

section \<open>Wrap-around of the request\<close>

lemma align_up_wrap:
  assumes "2 ^ 64 - 64 < unat v" shows "align_up v 64 = 0"
proof -
  have "unat (v + 63) = unat v + 63 - 2 ^ 64"
    using assms unat_lt_64 [of v] by (simp add: unat_word_ariths mod_if)
  then have lt: "unat (v + 63) < 64" using unat_lt_64 [of v] by simp
  have m: "(mask 6 :: u64) = 63" by (simp add: mask_eq_exp_minus_1)
  have "unat (take_bit 6 (v + 63)) = take_bit 6 (unat (v + 63))" by (rule unsigned_take_bit_eq)
  also have "\<dots> = unat (v + 63)" by (rule take_bit_nat_eq_self) (use lt in simp)
  finally have "take_bit 6 (v + 63) = v + 63" by (rule unsigned_word_eqI)
  then have "bit (v + 63) n \<Longrightarrow> n < 6" for n by (metis bit_take_bit_iff)
  then have "(v + 63) AND NOT (mask 6) = 0"
    by (intro bit_word_eqI) (auto simp: bit_and_iff bit_not_iff bit_mask_iff)
  then show ?thesis by (simp add: align_up_def m algebra_simps)
qed

lemma request_wraps:
  assumes "2 ^ 64 - 128 < unat sz" shows "request_to_block_size sz = 128"
proof (cases "unat sz \<le> 2 ^ 64 - 64")
  case False
  then have "align_up sz 64 = 0" by (intro align_up_wrap) simp
  moreover have "align_up 128 64 = (128 :: u64)" by (simp add: align_up_def)
  ultimately show ?thesis by (simp add: request_to_block_size_def Let_def tlsf_consts)
next
  case True
  have "unat (align_up sz 64) = (unat sz + 63) div 64 * 64" by (rule align_up_64 [OF True])
  also have "(unat sz + 63) div 64 = 288230376151711743" using assms True by simp
  finally have "unat (align_up sz 64) = unat (- 64 :: u64)" by simp
  then have "align_up sz 64 = - 64" by (rule unsigned_word_eqI)
  moreover have "align_up 0 64 = (0 :: u64)" by (simp add: align_up_def)
  ultimately show ?thesis by (simp add: request_to_block_size_def Let_def tlsf_consts)
qed

section \<open>A concrete pool\<close>

text \<open>The smallest pools, for examples: a pool of \<open>sz\<close> bytes at address 4096.\<close>

definition some_ctrl :: tlsf_ctrl where
  "some_ctrl = \<lparr>format_version = 0, matrix = \<lambda>_ _. 0, fl_bitmap = 0, sl_bitmaps = \<lambda>_. 0, mutex = mutex_new,
     stack_top = 0, owner_pid = 0, txn_epoch = 0, bul = \<lambda>_. \<lparr>bul_addr = 0, bul_old_value = 0\<rparr>, pool_start = 0,
     pool_size = 0, heap_start = 0, heap_size = 0, used_bytes = 0, mem = \<lambda>_. 0, tlsf_errno = 0\<rparr>"

definition new_pool :: "u64 \<Rightarrow> tlsf_ctrl" where "new_pool sz = snd (tlsf_create 4096 sz some_ctrl)"

definition me :: caller where "me = \<lparr>caller_tid = 7, caller_pid = 100\<rparr>"

lemma pool_args_concrete: "pool_args 4096 8256" "pool_args 4096 8192"
  by (simp_all add: pool_args_def aligned64_def)

lemma new_pool_inv:
  assumes "pool_args 4096 sz"
  shows "tlsf_inv (new_pool sz) [10816]" "heap_abs (new_pool sz) [10816] = Map.empty"
    "free_blocks (new_pool sz) [10816] = {10816}" "block_size (new_pool sz) 10816 = sz - 6720"
    "used_bytes (new_pool sz) = 0"
proof -
  obtain c' where c': "tlsf_create 4096 sz some_ctrl = (4096, c')" "tlsf_inv c' [4096 + 6720]"
    "block_size c' (4096 + 6720) = sz - 6720" "block_is_free c' (4096 + 6720)" "used_bytes c' = 0"
    using tlsf_create_run [OF assms, of some_ctrl] by metis
  then have "new_pool sz = c'" by (simp add: new_pool_def)
  with c' show "tlsf_inv (new_pool sz) [10816]" "heap_abs (new_pool sz) [10816] = Map.empty"
    "free_blocks (new_pool sz) [10816] = {10816}" "block_size (new_pool sz) 10816 = sz - 6720"
    "used_bytes (new_pool sz) = 0"
    by (auto simp: heap_abs_def fun_eq_iff Let_def free_blocks_def block_word)
qed

lemma class_le_refl: "class_le p p"
  by (simp add: class_le_def)

lemma found_single:
  assumes inv: "heap_inv c bs" and F: "free_blocks c bs = {f}"
    and le: "class_le (mapping_search (request_to_block_size sz)) (mapping_search (block_size c f))"
  shows "found_block sz c = f"
proof -
  have h: "heap_ok c bs (free_blocks c bs) {}" using inv by (simp add: heap_inv_def)
  obtain fl sl where ms: "mapping_search (request_to_block_size sz) = (fl, sl)" by force
  from find_ok [OF heap_okD(3) [OF h], of fl sl] F le show ?thesis by (auto simp: found_block_def ms)
qed

section \<open>Creation, allocation, release\<close>

text \<open>C11: \<^verbatim>\<open>tlsf_create\<close> on a 64-byte aligned pool of an admissible size returns the pool, whose
  heap is one free block and satisfies the invariant of the allocator: nothing is allocated
  and no byte is in use.\<close>

theorem tlsf_create_establishes:
  assumes "pool_args pm sz"
  shows "\<exists>c'. tlsf_create pm sz c = (pm, c') \<and> tlsf_inv c' [pm + 6720] \<and>
    heap_abs c' [pm + 6720] = Map.empty \<and> block_size c' (pm + 6720) = sz - 6720 \<and> used_bytes c' = 0"
proof -
  obtain c' where c': "tlsf_create pm sz c = (pm, c')" "tlsf_inv c' [pm + 6720]"
    "block_size c' (pm + 6720) = sz - 6720" "block_is_free c' (pm + 6720)" "used_bytes c' = 0"
    using tlsf_create_run [OF assms, of c] by metis
  then have "heap_abs c' [pm + 6720] = Map.empty" by (auto simp: heap_abs_def fun_eq_iff Let_def)
  with c' show ?thesis by blast
qed

theorem tlsf_create_establishes_witness:
  "\<exists>c'. tlsf_create 4096 8192 some_ctrl = (4096, c') \<and> tlsf_inv c' [4096 + 6720] \<and>
    heap_abs c' [4096 + 6720] = Map.empty \<and> block_size c' (4096 + 6720) = 8192 - 6720 \<and> used_bytes c' = 0"
  by (rule tlsf_create_establishes [OF pool_args_concrete(2)])

text \<open>C2: \<^verbatim>\<open>tlsf_malloc\<close> refines the abstract allocation. When the search finds a block that is
  large enough, the call returns a fresh 64-byte aligned pointer, the view gains exactly one
  entry (at least the requested bytes, the caller as the only owner, the given type), the
  payload of every other allocated block is untouched and the invariant holds again.\<close>

theorem tlsf_malloc_refines:
  assumes "tlsf_inv c bs" "tlsf \<noteq> 0" "uid \<noteq> 0" "sz \<noteq> 0" "unat sz \<le> 2 ^ 64 - 128"
    "found_block sz c \<noteq> 0" "request_to_block_size sz \<le> block_size c (found_block sz c)"
  shows "\<exists>p c' bs'. tlsf_malloc w tlsf sz uid dt c = Some (p, c') \<and> tlsf_inv c' bs' \<and>
    alloc_effect c bs sz uid dt p c' bs'"
proof -
  have fit: "unat (request_to_block_size sz) \<le> unat (block_size c (found_block sz c))"
    using assms(7) by (simp add: word_le_nat_alt)
  obtain c' bs' where r: "tlsf_malloc w tlsf sz uid dt c = Some (ptr_from_block (found_block sz c), c')"
    "malloced c bs (found_block sz c) (request_to_block_size sz) uid dt c' bs'" "tlsf_inv c' bs'" "same_geom c c'"
    by (rule tlsf_malloc_run [OF assms(1-4,6) fit])
  have "heap_inv c bs" using assms(1) by (simp add: tlsf_inv_def)
  from malloced_effect [OF this r(2) assms(5)] r(1,3) show ?thesis by blast
qed

lemma classes_concrete:
  "mapping_search 128 = (7, 8)" "mapping_search 1472 = (10, 11)" "mapping_search 1536 = (10, 12)"
  "mapping_search 1600 = (10, 12)"
  by code_simp+

lemma requests_concrete: "request_to_block_size 64 = 128" "request_to_block_size 1536 = 1600"
  by code_simp+

lemma found_concrete:
  "found_block 64 (new_pool 8192) = 10816" "found_block 1536 (new_pool 8256) = 10816"
proof -
  have "found_block sz (new_pool ps) = 10816"
    if "pool_args 4096 ps" "class_le (mapping_search (request_to_block_size sz)) (mapping_search (ps - 6720))" for sz ps
    using found_single [of "new_pool ps" "[10816]" 10816 sz] new_pool_inv [OF that(1)] that(2)
    by (simp add: tlsf_inv_def)
  from this [OF pool_args_concrete(2), of 64] this [OF pool_args_concrete(1), of 1536]
  show "found_block 64 (new_pool 8192) = 10816" "found_block 1536 (new_pool 8256) = 10816"
    by (simp_all add: requests_concrete classes_concrete class_le_def)
qed

theorem tlsf_malloc_refines_witness:
  "\<exists>p c' bs'. tlsf_malloc me 4096 64 5 3 (new_pool 8192) = Some (p, c') \<and> tlsf_inv c' bs' \<and>
    alloc_effect (new_pool 8192) [10816] 64 5 3 p c' bs'"
  by (rule tlsf_malloc_refines)
     (simp_all add: new_pool_inv [OF pool_args_concrete(2)] found_concrete requests_concrete)

lemma malloc_small_cases:
  assumes "tlsf_inv c bs" "tlsf \<noteq> 0" "uid \<noteq> 0" "sz \<noteq> 0" "unat sz \<le> 896"
  shows "\<exists>p c' bs'. tlsf_malloc w tlsf sz uid dt c = Some (p, c') \<and> tlsf_inv c' bs' \<and>
    (if \<exists>b \<in> set bs. block_is_free c b \<and> request_to_block_size sz \<le> block_size c b
     then alloc_effect c bs sz uid dt p c' bs'
     else p = 0 \<and> tlsf_errno c' = TLSF_ERR_OUT_OF_MEMORY \<and> bs' = bs \<and> heap_abs c' bs' = heap_abs c bs \<and> mem c' = mem c)"
proof -
  have inv: "heap_inv c bs" using assms(1) by (simp add: tlsf_inv_def)
  have h: "heap_ok c bs (free_blocks c bs) {}" using inv by (simp add: heap_inv_def)
  note ex = exact_small [OF assms(5)]
  have lt: "unat (request_to_block_size sz) < 2 ^ 41" using ex(2) by simp
  show ?thesis
  proof (cases "found_block sz c = 0")
    case False
    note fit = found_fits [OF inv False ex(1) lt]
    have b: "found_block sz c \<in> free_blocks c bs" by (rule found_block_free [OF inv False])
    obtain c' bs' where r: "tlsf_malloc w tlsf sz uid dt c = Some (ptr_from_block (found_block sz c), c')"
      "malloced c bs (found_block sz c) (request_to_block_size sz) uid dt c' bs'" "tlsf_inv c' bs'" "same_geom c c'"
      by (rule tlsf_malloc_run [OF assms(1-4) False fit])
    have "unat sz \<le> 2 ^ 64 - 128" using assms(5) by simp
    note eff = malloced_effect [OF inv r(2) this]
    have "\<exists>b \<in> set bs. block_is_free c b \<and> request_to_block_size sz \<le> block_size c b"
      using b fit by (auto simp: free_blocks_member block_word word_le_nat_alt)
    with r eff show ?thesis by auto
  next
    case True
    have none: "\<not> request_to_block_size sz \<le> block_size c b" if "b \<in> set bs" "block_is_free c b" for b
    proof
      assume le: "request_to_block_size sz \<le> block_size c b"
      have "b \<in> free_blocks c bs" using that by (simp add: free_blocks_member block_word)
      moreover obtain fl sl where ms: "mapping_search (request_to_block_size sz) = (fl, sl)" by force
      ultimately have "\<not> class_le (fl, sl) (mapping_search (block_size c b))" "find_suitable_block fl sl c = 0"
        using find_ok [OF heap_okD(3) [OF h], of fl sl] True flok_member(2) [OF heap_okD(3) [OF h]]
        by (auto simp: found_block_def)
      moreover obtain f' s' where mb: "mapping_search (block_size c b) = (f', s')" by force
      ultimately have "f' < fl \<or> f' = fl \<and> s' < sl" by (auto simp: class_le_def)
      with mapping_later_class [OF block_class [OF h that(1), folded block_size_sz] mb _ lt ms] request_aligned(2) [of sz] le
      show False by (simp add: word_le_nat_alt)
    qed
    define c' where "c' = mutex_unlock w (set_errno TLSF_ERR_OUT_OF_MEMORY (locked w c))"
    have "tlsf_errno c' = TLSF_ERR_OUT_OF_MEMORY" "mem c' = mem c" by (simp_all add: c'_def set_errno_def)
    with malloc_oom [OF assms(1-4) True, of w dt] malloc_oom_inv [OF assms(1), of w TLSF_ERR_OUT_OF_MEMORY] none
    show ?thesis by (auto simp flip: c'_def)
  qed
qed

text \<open>C15: for requests of at most 896 bytes \<^verbatim>\<open>tlsf_malloc\<close> is total and correct in every state of
  the invariant: it either allocates as in C2 or returns NULL with
  \<^verbatim>\<open>TLSF_ERR_OUT_OF_MEMORY\<close> and unchanged view and memory, the latter exactly when no free block has
  the rounded size.\<close>

theorem tlsf_malloc_small_total:
  assumes "tlsf_inv c bs" "tlsf \<noteq> 0" "uid \<noteq> 0" "sz \<noteq> 0" "unat sz \<le> 896"
  shows "\<exists>p c' bs'. tlsf_malloc w tlsf sz uid dt c = Some (p, c') \<and> tlsf_inv c' bs' \<and>
    (if \<exists>b \<in> set bs. block_is_free c b \<and> request_to_block_size sz \<le> block_size c b
     then alloc_effect c bs sz uid dt p c' bs'
     else p = 0 \<and> tlsf_errno c' = TLSF_ERR_OUT_OF_MEMORY \<and> bs' = bs \<and> heap_abs c' bs' = heap_abs c bs \<and> mem c' = mem c)"
  by (rule malloc_small_cases [OF assms])

theorem tlsf_malloc_small_total_witness:
  "\<exists>p c' bs'. tlsf_malloc me 4096 64 5 3 (new_pool 8192) = Some (p, c') \<and> tlsf_inv c' bs' \<and>
    (if \<exists>b \<in> set [10816]. block_is_free (new_pool 8192) b \<and> request_to_block_size 64 \<le> block_size (new_pool 8192) b
     then alloc_effect (new_pool 8192) [10816] 64 5 3 p c' bs'
     else p = 0 \<and> tlsf_errno c' = TLSF_ERR_OUT_OF_MEMORY \<and> bs' = [10816] \<and>
       heap_abs c' bs' = heap_abs (new_pool 8192) [10816] \<and> mem c' = mem (new_pool 8192))"
  by (rule tlsf_malloc_small_total) (simp_all add: new_pool_inv [OF pool_args_concrete(2)])


text \<open>A pool with one allocated block of 64 bytes owned by 5.\<close>

definition pool_one :: "u64 \<times> tlsf_ctrl" where
  "pool_one = the (tlsf_malloc me 4096 64 5 3 (new_pool 8192))"

lemma pool_one_state:
  obtains bs where "tlsf_malloc me 4096 64 5 3 (new_pool 8192) = Some pool_one" "tlsf_inv (snd pool_one) bs"
    "alloc_effect (new_pool 8192) [10816] 64 5 3 (fst pool_one) (snd pool_one) bs"
    "malloced (new_pool 8192) [10816] 10816 128 5 3 (snd pool_one) bs" "same_geom (new_pool 8192) (snd pool_one)"
proof -
  have fit: "unat (request_to_block_size 64) \<le> unat (block_size (new_pool 8192) (found_block 64 (new_pool 8192)))"
    by (simp add: found_concrete requests_concrete new_pool_inv [OF pool_args_concrete(2)])
  have nz: "(4096 :: u64) \<noteq> 0" "(5 :: u16) \<noteq> 0" "(64 :: u64) \<noteq> 0" "found_block 64 (new_pool 8192) \<noteq> 0"
    by (simp_all add: found_concrete)
  note inv = new_pool_inv(1) [OF pool_args_concrete(2)]
  obtain c' bs' where r: "tlsf_malloc me 4096 64 5 3 (new_pool 8192) =
      Some (ptr_from_block (found_block 64 (new_pool 8192)), c')"
    "malloced (new_pool 8192) [10816] (found_block 64 (new_pool 8192)) (request_to_block_size 64) 5 3 c' bs'"
    "tlsf_inv c' bs'" "same_geom (new_pool 8192) c'"
    by (rule tlsf_malloc_run [OF inv nz fit])
  have "heap_inv (new_pool 8192) [10816]" using inv by (simp add: tlsf_inv_def)
  from malloced_effect [OF this r(2)] r show thesis by (intro that [of bs']) (simp_all add: pool_one_def found_concrete requests_concrete)
qed

lemma pool_one_view:
  obtains bs k where "tlsf_inv (snd pool_one) bs" "heap_abs (snd pool_one) bs (fst pool_one) = Some k"
    "bk_owners k = 5 # replicate 11 0" "64 \<le> unat (bk_size k)"
proof -
  obtain bs where b: "tlsf_inv (snd pool_one) bs"
    "alloc_effect (new_pool 8192) [10816] 64 5 3 (fst pool_one) (snd pool_one) bs"
    by (rule pool_one_state)
  from b(2) obtain k where "heap_abs (snd pool_one) bs (fst pool_one) = Some k" "bk_owners k = 5 # replicate 11 0"
    "64 \<le> unat (bk_size k)"
    by (auto simp: alloc_effect_def)
  with b(1) show thesis by (rule that)
qed




section \<open>Safety of the heap\<close>

lemma chain_total: "chain m a e bs \<Longrightarrow> (\<Sum>b\<leftarrow>bs. unat (sz_of (m b))) + unat a = unat e"
proof (induction bs arbitrary: a)
  case (Cons b bs)
  then have "b = a" "unat a + unat (sz_of (m a)) \<le> unat e" "chain m (a + sz_of (m a)) e bs" by simp_all
  with Cons.IH [of "a + sz_of (m a)"] chain_step [of a "sz_of (m a)" e] show ?case by simp
qed simp

text \<open>Where the payloads of two pointers lie.\<close>

lemma payload_ranges:
  assumes "tlsf_inv c bs" "heap_abs c bs p = Some j" "heap_abs c bs q = Some k" "p \<noteq> q"
  shows "(unat p + unat (bk_size j) \<le> unat q \<or> unat q + unat (bk_size k) \<le> unat p) \<and>
    unat (pool_start c) + 6720 < unat p \<and> unat p + unat (bk_size j) \<le> unat (pool_start c) + unat (pool_size c)"
proof -
  have h: "heap_ok c bs (free_blocks c bs) {}" using assms(1) by (simp add: tlsf_inv_def heap_inv_def)
  note ch = heap_okD(2) [OF h] and g = heap_okD(1) [OF h]
  obtain a where a: "p = ptr_from_block a" "a \<in> set bs" "j = block_info c a" using assms(2) by (rule heap_abs_Some)
  obtain b where b: "q = ptr_from_block b" "b \<in> set bs" "k = block_info c b" using assms(3) by (rule heap_abs_Some)
  have pay: "unat (ptr_from_block x) = unat x + 64 \<and>
      unat (bk_size (block_info c x)) = unat (sz_of (mem c x)) - 64" if "x \<in> set bs" for x
    using chain_member [OF ch that] unat_add_nowrap [of x 64] unat_diff_nowrap [of 64 "sz_of (mem c x)"]
      unat_lt_64 [of "get_heap_end c"]
    by (simp add: ptr_from_block_def HEADER_SIZE_def block_info_def block_payload_size_def block_word)
  have ab: "a \<noteq> b" using assms(4) a b by auto
  from chain_disjoint [OF ch b(2) a(2) ab] chain_member(3,5,6) [OF ch a(2)] chain_member(3) [OF ch b(2)]
    pay [OF a(2)] pay [OF b(2)] geom_end(3) [OF g] g
  show ?thesis unfolding a(1,3) b(1,3) geom_def by linarith
qed


lemma malloced_new:
  assumes "malloced c bs b tot uid dt c' bs'"
  shows "b \<in> set bs'" "unat (sz_of (mem c' b)) < unat tot + 128" "x \<in> set bs' \<Longrightarrow> x \<notin> set bs \<Longrightarrow> fr_of (mem c' x)"
  using assms by (simp_all add: malloced_def)

lemma pool_one_rest:
  assumes "tlsf_inv c bs" "malloced (new_pool 8192) [10816] 10816 128 5 3 c bs" "same_geom (new_pool 8192) c"
  obtains x where "x \<in> set bs" "block_is_free c x" "128 \<le> block_size c x"
proof -
  have h: "heap_ok c bs (free_blocks c bs) {}" using assms(1) by (simp add: tlsf_inv_def heap_inv_def)
  note ch = heap_okD(2) [OF h]
  note nw = malloced_new [OF assms(2)]
  have b: "10816 \<in> set bs" "unat (sz_of (mem c 10816)) < 256" using nw(1,2) by simp_all
  note g = heap_okD(1) [OF h]
  have h0: "heap_ok (new_pool 8192) [10816] (free_blocks (new_pool 8192) [10816]) {}"
    using new_pool_inv(1) [OF pool_args_concrete(2)] by (simp add: tlsf_inv_def heap_inv_def)
  have "sz_of (mem (new_pool 8192) 10816) = 1472"
    using new_pool_inv(4) [OF pool_args_concrete(2)] by (simp add: block_word)
  then have "unat (heap_size (new_pool 8192)) = 1472"
    using chain_total [OF heap_okD(2) [OF h0]] geom_end(2) [OF heap_okD(1) [OF h0]] by simp
  moreover have "heap_size c = heap_size (new_pool 8192)" using assms(3) by (simp add: same_geom_def)
  ultimately have "unat (heap_size c) = 1472" by simp
  then have tot: "(\<Sum>b\<leftarrow>bs. unat (sz_of (mem c b))) = 1472" using chain_total [OF ch] geom_end(2) [OF g] by simp
  have "\<exists>x \<in> set bs. x \<noteq> 10816"
  proof (rule ccontr)
    assume "\<not> ?thesis"
    then have "set bs \<subseteq> {10816}" by blast
    then have "set bs = {10816}" using b(1) by blast
    moreover from this have "length bs = 1" using distinct_card [OF chain_distinct [OF ch]] by simp
    ultimately have "bs = [10816]" by (cases bs) simp_all
    with tot b show False by simp
  qed
  then obtain x where x: "x \<in> set bs" "x \<noteq> 10816" by blast
  then have "fr_of (mem c x)" using nw(3) by simp
  with x chain_member(3) [OF ch x(1)] show thesis
    by (intro that [of x]) (simp_all add: block_word word_le_nat_alt)
qed

definition used_nat :: "tlsf_ctrl \<Rightarrow> u64 list \<Rightarrow> nat" where
  "used_nat c bs = (\<Sum>b\<leftarrow>bs. if block_is_free c b then 0 else unat (block_payload_size c b))"

lemma used_sum_nat:
  assumes "(\<Sum>b\<leftarrow>bs. unat (sz_of (mem c b))) < 2 ^ 64" "\<And>b. b \<in> set bs \<Longrightarrow> 64 \<le> unat (sz_of (mem c b))"
  shows "unat (used_sum (mem c) bs) = used_nat c bs \<and> used_nat c bs \<le> (\<Sum>b\<leftarrow>bs. unat (sz_of (mem c b)))"
  using assms
proof (induction bs)
  case (Cons b bs)
  then have IH: "unat (used_sum (mem c) bs) = used_nat c bs" "used_nat c bs \<le> (\<Sum>b\<leftarrow>bs. unat (sz_of (mem c b)))"
    by simp_all
  have d: "unat (sz_of (mem c b) - 64) = unat (sz_of (mem c b)) - 64"
    using Cons.prems(2) [of b] unat_diff_nowrap [of 64 "sz_of (mem c b)"] by simp
  have "unat (sz_of (mem c b) - 64 + used_sum (mem c) bs) = unat (sz_of (mem c b)) - 64 + used_nat c bs"
    using unat_add_nowrap [of "sz_of (mem c b) - 64" "used_sum (mem c) bs"] d IH Cons.prems(1) by simp
  with IH d show ?case
    by (auto simp: used_nat_def block_word block_payload_size_def HEADER_SIZE_def)
qed (simp add: used_nat_def)

text \<open>\<^verbatim>\<open>used_bytes\<close> is exactly the sum of the payloads of the allocated blocks, without
  wrap-around, and never exceeds the heap.\<close>

lemma used_bytes_exact:
  assumes "tlsf_inv c bs"
  shows "unat (used_bytes c) = used_nat c bs \<and> used_nat c bs \<le> unat (heap_size c)"
proof -
  have h: "heap_ok c bs (free_blocks c bs) {}" and u: "used_bytes c = used_sum (mem c) bs"
    using assms by (simp_all add: tlsf_inv_def heap_inv_def)
  note ch = heap_okD(2) [OF h] and g = heap_okD(1) [OF h]
  have "(\<Sum>b\<leftarrow>bs. unat (sz_of (mem c b))) = unat (heap_size c)"
    using chain_total [OF ch] geom_end(2) [OF g] by simp
  with used_sum_nat [of c bs] chain_member(3) [OF ch] unat_lt_64 [of "heap_size c"] u show ?thesis by fastforce
qed

lemma used_bytes_exact_witness:
  "\<exists>bs. unat (used_bytes (snd pool_one)) = used_nat (snd pool_one) bs \<and>
     used_nat (snd pool_one) bs \<le> unat (heap_size (snd pool_one))"
  using pool_one_state used_bytes_exact by metis


section \<open>Requests that go wrong\<close>

text \<open>C22: a request within 127 of the top of \<^verbatim>\<open>size_t\<close> is rounded to the smallest block: the call
  succeeds and hands out at most 128 bytes for a request of almost \<open>2 ^ 64\<close>.\<close>

theorem tlsf_malloc_huge_wraps:
  assumes "tlsf_inv c bs" "tlsf \<noteq> 0" "uid \<noteq> 0" "2 ^ 64 - 128 < unat sz" "found_block sz c \<noteq> 0"
  shows "\<exists>p c' bs' k. tlsf_malloc w tlsf sz uid dt c = Some (p, c') \<and> tlsf_inv c' bs' \<and>
    heap_abs c' bs' p = Some k \<and> unat (bk_size k) \<le> 128"
proof -
  have rq: "request_to_block_size sz = 128" by (rule request_wraps [OF assms(4)])
  have inv: "heap_inv c bs" using assms(1) by (simp add: tlsf_inv_def)
  have sz: "sz \<noteq> 0" using assms(4) by auto
  have "mapping_first_level 128 = 7" by code_simp
  then have ex: "exact_class (request_to_block_size sz)" by (simp add: exact_class_def rq)
  have fit: "unat (request_to_block_size sz) \<le> unat (block_size c (found_block sz c))"
    by (rule found_fits [OF inv assms(5) ex]) (simp add: rq)
  obtain c' bs' where r: "tlsf_malloc w tlsf sz uid dt c = Some (ptr_from_block (found_block sz c), c')"
    "malloced c bs (found_block sz c) (request_to_block_size sz) uid dt c' bs'" "tlsf_inv c' bs'" "same_geom c c'"
    by (rule tlsf_malloc_run [OF assms(1-3) sz assms(5) fit])
  let ?s = "sz_of (mem c' (found_block sz c))"
  have lt: "128 \<le> unat ?s" "unat ?s < 256" using r(2) by (simp_all add: malloced_def rq)
  have h': "heap_ok c' bs' (free_blocks c' bs') {}" "found_block sz c \<in> set bs'"
    using r(2) by (auto simp: malloced_def heap_inv_def)
  have "unat ?s mod 64 = 0" using chain_member(2) [OF heap_okD(2) [OF h'(1)] h'(2)] by (simp add: aligned64_mod)
  with lt(2) have "unat ?s \<le> 192" by presburger
  then have "unat (?s - 64) \<le> 128" using unat_diff_nowrap [of 64 ?s] lt by simp
  with r malloced_view(2) [OF inv r(2)] show ?thesis by auto
qed

theorem tlsf_malloc_huge_wraps_witness:
  "\<exists>p c' bs' k. tlsf_malloc me 4096 (- 1) 5 3 (new_pool 8192) = Some (p, c') \<and> tlsf_inv c' bs' \<and>
    heap_abs c' bs' p = Some k \<and> unat (bk_size k) \<le> 128"
proof (rule tlsf_malloc_huge_wraps)
  show "tlsf_inv (new_pool 8192) [10816]" by (rule new_pool_inv(1) [OF pool_args_concrete(2)])
  show top: "2 ^ 64 - 128 < unat (- 1 :: u64)" by (simp add: unsigned_minus_1_eq_mask mask_eq_exp_minus_1)
  then have "request_to_block_size (- 1) = 128" by (rule request_wraps)
  then have "found_block (- 1) (new_pool 8192) = 10816"
    using found_single [of "new_pool 8192" "[10816]" 10816 "- 1"] new_pool_inv [OF pool_args_concrete(2)]
    by (simp add: tlsf_inv_def classes_concrete class_le_def)
  then show "found_block (- 1) (new_pool 8192) \<noteq> 0" by simp
qed simp_all

text \<open>A block that is too small: the difference of the sizes wraps, so the code splits it.\<close>

lemma split_beyond_end:
  assumes h: "heap_ok c [f] {} {}" and s: "aligned64 s" "sz_of (mem c f) < s"
    and nowrap: "unat f + unat s < 2 ^ 64"
  defines "c' \<equiv> split_block f s c"
  shows "sz_of (mem c' f) = s" "same_ctl c c'"
proof -
  note ch = heap_okD(2) [OF h]
  note mf = chain_member [OF ch, of f, simplified]
  let ?bt = "sz_of (mem c f)" and ?r = "f + s"
  have ar: "aligned64 ?r" using mf(1) s(1) by simp
  have rf: "?r \<noteq> f" using s(2) by auto
  define c1 where "c1 = init_header ?r ((?bt - s) OR BLOCK_FREE) c"
  note i = init_header_mem [OF ar, where w = "(?bt - s) OR BLOCK_FREE" and c = c, folded c1_def]
  define c2 where "c2 = block_set_size f s c1"
  have m2: "mem c2 f = (mem c f AND FLAG_MASK) OR s" "mem c2 ?r = (?bt - s) OR BLOCK_FREE"
    using touchesD(1) [OF i(3) mf(1)] rf i(1) by (simp_all add: c2_def block_set_size_mem)
  have as: "aligned64 (?bt - s)" using mf(2) s(1) by simp
  have n2: "block_next c2 ?r = f + ?bt" using as by (simp add: block_next_def block_word m2)
  have pe: "pool_end c2 = f + ?bt"
    using geom_end(1) [OF heap_okD(1) [OF h]] chain_next [OF ch, of f] i(4) block_set_size_mem(2) [of c1 f s] mf
    by (auto simp: pool_end_def same_geom_def c2_def)
  define c4 where "c4 = write_block_footer ?r c2"
  have c': "c' = insert_block ?r c4"
    by (simp add: c'_def split_block_def Let_def block_word flip: c1_def c2_def c4_def) (simp add: n2 pe)
  have ft: "block_footer_ptr c2 ?r = (f + ?bt - 64) + 56"
    using as by (simp add: block_footer_ptr_def block_word m2)
  note fl = footer_line [OF h, of f, simplified]
  have m4: "mem c4 f = mem c2 f"
    using fl(2,3) mf(1) by (simp add: c4_def write_block_footer_def ft) (auto simp: srpc_addr)
  have sc4: "same_ctl c c4"
    by (simp add: c4_def write_block_footer_def c2_def block_set_size_def c1_def init_header_def uid_clear_all_def same_ctl_def)
  have mt: "matrix c4 fl sl = 0" for fl sl
  proof -
    have "flok c {}" by (rule heap_okD(3) [OF h])
    then obtain L where "flist c L" "listed L = {}" by (auto simp: flok_def)
    then have "x \<notin> set (L fl sl)" "dlseg (mem c) 0 (matrix c fl sl) (L fl sl) 0" for x
      using flistD(1) [of c L fl sl] by (auto simp: listed_def)
    then have "matrix c fl sl = 0" using last_in_set [of "L fl sl"] by fastforce
    then show ?thesis
      by (simp add: c4_def write_block_footer_def c2_def block_set_size_def c1_def init_header_def uid_clear_all_def)
  qed
  have m': "mem c' f = mem c4 f"
    using ar mf(1) rf by (auto simp: c' insert_block_def Let_def insert_fields mt srpc_addr)
  show "sz_of (mem c' f) = s" using s(1) by (simp add: m' m4 m2)
  show "same_ctl c c'" using sc4 same_ctl_insert
    by (auto simp: c' insert_block_def Let_def intro: same_ctl_trans)
qed

lemma malloc_too_small:
  assumes inv: "heap_inv c [f]" and F: "free_blocks c [f] = {f}" and fnd: "found_block sz c = f" and sz: "sz \<noteq> 0"
    and tot: "tot = request_to_block_size sz" "block_size c f < tot" "128 \<le> block_size c f - tot"
    and nowrap: "unat f + unat tot < 2 ^ 64" and top: "unat (stack_top c) + 3 \<le> 64"
  shows "\<exists>c'. tlsf_malloc_internal sz uid dt c = (ptr_from_block f, c') \<and> block_size c' f = tot \<and> same_txn c c'"
proof -
  have h: "heap_ok c [f] {f} {}" using inv F by (simp add: heap_inv_def)
  note ch = heap_okD(2) [OF h]
  note mf = chain_member [OF ch, of f, simplified]
  have at: "aligned64 tot" using request_aligned(1) tot(1) by simp
  define c1 where "c1 = remove_block f c"
  note r = remove_block_ok [OF h, of f, folded c1_def, simplified]
  have e1: "mem c1 f = mem c f" by (rule hdr_sameD(1) [OF r(2) mf(1)])
  define c2 where "c2 = split_block f tot c1"
  have s: "sz_of (mem c2 f) = tot" "same_ctl c1 c2"
    unfolding c2_def using split_beyond_end [OF r(1) at _ nowrap] tot(2) e1 by (simp_all add: block_word)
  define c3 where "c3 = mark_block_allocated f c2"
  have s3: "sz_of (mem c3 f) = tot" "same_ctl c c3"
    using s r(4) by (simp_all add: c3_def mark_block_allocated_def same_ctl_def)
  have he: "get_heap_end c3 = f + sz_of (mem c f)"
    using s3(2) chain_next [OF ch, of f] mf by (auto simp: get_heap_end_def same_ctl_def)
  have "\<not> f + tot < f + sz_of (mem c f)"
  proof -
    have "unat (f + tot) = unat f + unat tot" by (rule unat_add_nowrap [OF nowrap])
    then show ?thesis using mf(7) tot(2) by (simp add: word_less_nat_alt block_word)
  qed
  then have mn: "malloc_mark_next f True c3 = (True, c3)"
    by (simp add: malloc_mark_next_def Let_def block_next_def block_word s3 he)
  have top3: "unat (stack_top c3) + 3 \<le> 64" using top s3(2) by (simp add: same_ctl_def)
  obtain c' where c': "malloc_set_owner f uid dt c3 = (ptr_from_block f, c')" "mem c' f = mem c3 f" "logged_step 3 c3 c'"
    using malloc_set_owner_mem [OF mf(1) top3] by metis
  obtain fl sl where ms: "mapping_search tot = (fl, sl)" by force
  then have fb: "find_suitable_block fl sl c = f" using fnd tot(1) by (simp add: found_block_def)
  have nz: "f \<noteq> 0" using chain_no_zero [OF ch, of f] geom_nonzero [OF heap_okD(1) [OF h]] by simp
  have sig: "validate_block_signature c f" using mf(4) by (simp add: validate_block_signature_def sig_word)
  have ds: "MIN_BLOCK_SZ \<le> block_size c1 f - tot" using tot(3) e1 by (simp add: MIN_BLOCK_SZ_def block_word)
  have "tlsf_malloc_internal sz uid dt c = (ptr_from_block f, c')"
    using sz nz sig ds mn c'(1)
    by (simp add: tlsf_malloc_internal_def Let_def ms fb flip: tot(1) c1_def c2_def c3_def)
  moreover have "same_txn c c'"
    using same_ctl_txn [OF s3(2)] c'(3) by (auto simp: logged_step_def intro: same_txn_trans)
  ultimately show ?thesis using c'(2) s3(1) by (simp add: block_word)
qed



section \<open>Crash in a transaction\<close>

definition is_logged :: "txn_step \<Rightarrow> bool" where
  "is_logged st = (case st of Logged a v \<Rightarrow> True | Raw a v \<Rightarrow> False)"

text \<open>C12: a thread dies holding the mutex, anywhere in a run of stores of fewer than 64 logged
  words. The next thread that enters gets the mutex in a consistent state and an empty log,
  and every word reads as \<open>undo_val\<close> says: logged words are back at their value before the
  first logged store, unlogged stores stay. If every store was logged, the whole memory is as
  before the transaction.\<close>

theorem crash_then_lock_undoes:
  assumes "format_version c = TLSF_FORMAT_VERSION" "stack_top c = 0" "length (logged s) < 64"
    "\<forall>a \<in> set (logged s). validate_pointer a c" "mx_holder (mutex c) = Some t" "\<not> mx_lost (mutex c)"
  shows "\<exists>c'. lock_and_recover w (crash t (txn_run s c)) = Some (TLSF_OK, c') \<and> stack_top c' = 0 \<and>
    mx_holder (mutex c') = Some (caller_tid w) \<and> \<not> mx_incons (mutex c') \<and>
    (\<forall>x. load_word x c' = (if list_all is_logged s then load_word x c else undo_val s c x))"
proof -
  obtain d where d: "bul_recover_internal (txn_run s c) = (True, d)" "stack_top d = 0"
    "\<forall>x. load_word x d = undo_val s c x"
    using bul_recover_run [OF assms(2-4)] by blast
  have all: "undo_val s c x = load_word x c" if l: "list_all is_logged s" for x
  proof (rule undo_val_all_logged)
    show "\<exists>a v. st = Logged a v" if "st \<in> set s" for st
      using l that by (cases st) (auto simp: list_all_iff is_logged_def)
  qed (use assms(2,3) in simp)
  define m where "m = (mutex c)\<lparr>mx_holder := Some (caller_tid w), mx_count := 1, mx_died := False, mx_incons := False\<rparr>"
  have lk: "lock_and_recover w (crash t (txn_run s c)) =
      Some (TLSF_OK, d\<lparr>mutex := m, owner_pid := caller_pid w, tlsf_errno := TLSF_OK\<rparr>)"
    using lock_and_recover_crash [of "txn_run s c" t d w] d(1) assms(1,5,6) by (simp add: m_def)
  have "load_word x (d\<lparr>mutex := m, owner_pid := caller_pid w, tlsf_errno := TLSF_OK\<rparr>) = undo_val s c x" for x
  proof -
    have "load_word x (d\<lparr>mutex := m, owner_pid := caller_pid w, tlsf_errno := TLSF_OK\<rparr>) = load_word x d"
      by (simp add: load_word_def used_bytes_addr_def)
    then show ?thesis using d(3) by simp
  qed
  then show ?thesis using lk d(2) all by (auto simp: m_def)
qed

theorem crash_then_lock_undoes_witness:
  "\<exists>c'. lock_and_recover me (crash 9 (txn_run [Logged 10816 1, Logged 10824 2]
        ((new_pool 8192)\<lparr>mutex := mutex_new\<lparr>mx_holder := Some 9, mx_count := 1\<rparr>\<rparr>))) = Some (TLSF_OK, c') \<and>
     stack_top c' = 0 \<and> mx_holder (mutex c') = Some 7 \<and> \<not> mx_incons (mutex c') \<and>
     load_word 10816 c' = load_word 10816 (new_pool 8192)"
proof -
  let ?c = "(new_pool 8192)\<lparr>mutex := mutex_new\<lparr>mx_holder := Some 9, mx_count := 1\<rparr>\<rparr>"
  let ?s = "[Logged 10816 1, Logged 10824 2]"
  have inv: "tlsf_inv (new_pool 8192) [10816]" by (rule new_pool_inv(1) [OF pool_args_concrete(2)])
  obtain d where "tlsf_create 4096 8192 some_ctrl = (4096, d)" "pool_start d = 4096" "pool_size d = 8192"
    using tlsf_create_run [OF pool_args_concrete(2), of some_ctrl] by metis
  then have ps: "pool_start (new_pool 8192) = 4096" "pool_size (new_pool 8192) = 8192"
    by (simp_all add: new_pool_def)
  have "\<exists>c'. lock_and_recover me (crash 9 (txn_run ?s ?c)) = Some (TLSF_OK, c') \<and> stack_top c' = 0 \<and>
    mx_holder (mutex c') = Some (caller_tid me) \<and> \<not> mx_incons (mutex c') \<and>
    (\<forall>x. load_word x c' = (if list_all is_logged ?s then load_word x ?c else undo_val ?s ?c x))"
    by (rule crash_then_lock_undoes)
       (use inv in \<open>simp_all add: tlsf_inv_def idle_def mutex_new_def validate_pointer_def ps\<close>)
  then show ?thesis by (auto simp: is_logged_def me_def)
qed

end
