(* ===== verification/List_Spin.thy ===== *)
theory List_Spin
  imports Srpc_Prelude
begin

text \<open>
  The intrusive singly linked list of \<^verbatim>\<open>src/libsrpc_list_spin.c\<close>. Nodes and heads live at
  addresses of the shared segment: the store maps an address to its node and to its head, and
  \<^verbatim>\<open>NULL\<close> is 0. Writers hold the spin lock of the head from the first read to the last write,
  so each operation is one step of the store. The walks over \<^verbatim>\<open>next\<close> are
  \<^verbatim>\<open>partial_function\<close>s: on a cyclic chain they have no value, and \<open>list_search_lseg\<close> and
  \<open>foreach_lseg\<close> show that they return on every well-formed list.
\<close>

section \<open>Data\<close>

record libsrpc_list_node =
  node_next :: u64
  node_head :: u64

record libsrpc_list_head =
  list_first :: u64
  write_ops :: u64

record list_store =
  node_at :: "u64 \<Rightarrow> libsrpc_list_node"
  head_at :: "u64 \<Rightarrow> libsrpc_list_head"

definition LIBSRPC_LIST_OK :: int where "LIBSRPC_LIST_OK = 0"
definition LIBSRPC_LIST_EINVAL :: int where "LIBSRPC_LIST_EINVAL = -1"
definition LIBSRPC_LIST_ENOTFOUND :: int where "LIBSRPC_LIST_ENOTFOUND = -2"
definition LIBSRPC_LIST_EALREADY :: int where "LIBSRPC_LIST_EALREADY = -3"
definition LIBSRPC_LIST_ELOCK :: int where "LIBSRPC_LIST_ELOCK = -4"

lemmas list_codes = LIBSRPC_LIST_OK_def LIBSRPC_LIST_EINVAL_def LIBSRPC_LIST_ENOTFOUND_def
  LIBSRPC_LIST_EALREADY_def LIBSRPC_LIST_ELOCK_def

definition put_node :: "u64 \<Rightarrow> (libsrpc_list_node \<Rightarrow> libsrpc_list_node) \<Rightarrow> list_store \<Rightarrow> list_store" where
  "put_node a f s = s\<lparr>node_at := (node_at s)(a := f (node_at s a))\<rparr>"

definition put_head :: "u64 \<Rightarrow> (libsrpc_list_head \<Rightarrow> libsrpc_list_head) \<Rightarrow> list_store \<Rightarrow> list_store" where
  "put_head a f s = s\<lparr>head_at := (head_at s)(a := f (head_at s a))\<rparr>"

section \<open>Operations\<close>

text \<open>\<open>spin_rc\<close> is what \<^verbatim>\<open>pthread_spin_init\<close> or \<^verbatim>\<open>pthread_spin_destroy\<close> returned.\<close>

definition libsrpc_list_head_init :: "int \<Rightarrow> u64 \<Rightarrow> list_store \<Rightarrow> int \<times> list_store" where
  "libsrpc_list_head_init spin_rc head s =
     (if head = 0 then (LIBSRPC_LIST_EINVAL, s)
      else if spin_rc \<noteq> 0 then (LIBSRPC_LIST_ELOCK, s)
      else (LIBSRPC_LIST_OK, put_head head (\<lambda>_. \<lparr>list_first = 0, write_ops = 0\<rparr>) s))"

definition libsrpc_list_head_destroy :: "int \<Rightarrow> u64 \<Rightarrow> int" where
  "libsrpc_list_head_destroy spin_rc head =
     (if head = 0 then LIBSRPC_LIST_EINVAL
      else if spin_rc \<noteq> 0 then LIBSRPC_LIST_ELOCK
      else LIBSRPC_LIST_OK)"

definition libsrpc_list_node_init :: "u64 \<Rightarrow> list_store \<Rightarrow> list_store" where
  "libsrpc_list_node_init node s =
     (if node = 0 then s else put_node node (\<lambda>_. \<lparr>node_next = 0, node_head = 0\<rparr>) s)"

definition libsrpc_list_push_front :: "u64 \<Rightarrow> u64 \<Rightarrow> list_store \<Rightarrow> int \<times> list_store" where
  "libsrpc_list_push_front head node s =
     (if head = 0 \<or> node = 0 then (LIBSRPC_LIST_EINVAL, s)
      else if node_head (node_at s node) \<noteq> 0 then (LIBSRPC_LIST_EALREADY, s)
      else
        let old = list_first (head_at s head);
            s1 = put_node node (node_next_update (\<lambda>_. old)) s;
            s2 = put_node node (node_head_update (\<lambda>_. head)) s1;
            s3 = put_head head (list_first_update (\<lambda>_. node)) s2;
            s4 = put_head head (write_ops_update (\<lambda>n. n + 1)) s3
        in (LIBSRPC_LIST_OK, s4))"

text \<open>The search loop of \<^verbatim>\<open>libsrpc_list_remove\<close>: whether the node was met, and its predecessor.\<close>

partial_function (option) list_search :: "list_store \<Rightarrow> u64 \<Rightarrow> u64 \<Rightarrow> u64 \<Rightarrow> (bool \<times> u64) option" where
  "list_search s node prev cur =
     (if cur = 0 then Some (False, prev)
      else if cur = node then Some (True, prev)
      else list_search s node cur (node_next (node_at s cur)))"

definition unlink_node :: "u64 \<Rightarrow> u64 \<Rightarrow> u64 \<Rightarrow> list_store \<Rightarrow> list_store" where
  "unlink_node head prev node s =
     (let next_of_node = node_next (node_at s node);
          s1 = (if prev = 0 then put_head head (list_first_update (\<lambda>_. next_of_node)) s
                else put_node prev (node_next_update (\<lambda>_. next_of_node)) s);
          s2 = put_head head (write_ops_update (\<lambda>n. n + 1)) s1
      in put_node node (node_next_update (\<lambda>_. 0)) (put_node node (node_head_update (\<lambda>_. 0)) s2))"

definition libsrpc_list_remove :: "u64 \<Rightarrow> list_store \<Rightarrow> (int \<times> list_store) option" where
  "libsrpc_list_remove node s =
     (if node = 0 then Some (LIBSRPC_LIST_EINVAL, s)
      else
        let head = node_head (node_at s node) in
        if head = 0 then Some (LIBSRPC_LIST_ENOTFOUND, s)
        else case list_search s node 0 (list_first (head_at s head)) of
            None \<Rightarrow> None
          | Some (found, prev) \<Rightarrow>
              if \<not> found then Some (LIBSRPC_LIST_ENOTFOUND, s)
              else Some (LIBSRPC_LIST_OK, unlink_node head prev node s))"

text \<open>The nodes \<^verbatim>\<open>LIBSRPC_LIST_FOREACH\<close> visits, in order, from the node \<open>cur\<close>.\<close>

partial_function (option) foreach_from :: "list_store \<Rightarrow> u64 \<Rightarrow> u64 list option" where
  "foreach_from s cur =
     (if cur = 0 then Some []
      else Option.bind (foreach_from s (node_next (node_at s cur))) (\<lambda>xs. Some (cur # xs)))"

definition list_foreach :: "list_store \<Rightarrow> u64 \<Rightarrow> u64 list option" where
  "list_foreach s head = foreach_from s (list_first (head_at s head))"

section \<open>Well-formed lists\<close>

fun lseg :: "list_store \<Rightarrow> u64 \<Rightarrow> u64 list \<Rightarrow> bool" where
  "lseg s cur [] \<longleftrightarrow> cur = 0"
| "lseg s cur (x # xs) \<longleftrightarrow> cur = x \<and> x \<noteq> 0 \<and> lseg s (node_next (node_at s x)) xs"

text \<open>\<open>list_ok s h xs\<close>: the list of \<open>h\<close> holds exactly \<open>xs\<close>, and the \<^verbatim>\<open>head\<close> field of a node names
  \<open>h\<close> exactly when the node is on it.\<close>

definition list_ok :: "list_store \<Rightarrow> u64 \<Rightarrow> u64 list \<Rightarrow> bool" where
  "list_ok s h xs \<longleftrightarrow> h \<noteq> 0 \<and> lseg s (list_first (head_at s h)) xs \<and>
     (\<forall>x. node_head (node_at s x) = h \<longleftrightarrow> x \<in> set xs)"

lemma put_sel [simp]:
  "node_at (put_node a f s) = (node_at s)(a := f (node_at s a))" "head_at (put_node a f s) = head_at s"
  "node_at (put_head b g s) = node_at s" "head_at (put_head b g s) = (head_at s)(b := g (head_at s b))"
  by (simp_all add: put_node_def put_head_def)

lemma lseg_cong: "(\<And>x. x \<in> set xs \<Longrightarrow> node_next (node_at t x) = node_next (node_at s x)) \<Longrightarrow> lseg t c xs = lseg s c xs"
  by (induction xs arbitrary: c) auto

lemma lseg_put_head [simp]: "lseg (put_head h f s) c xs = lseg s c xs"
  by (rule lseg_cong) simp

lemma lseg_unique: "lseg s c xs \<Longrightarrow> lseg s c ys \<Longrightarrow> xs = ys"
proof (induction xs arbitrary: c ys)
  case Nil then show ?case by (cases ys) auto
next
  case (Cons x xs) then show ?case by (cases ys) auto
qed

lemma lseg_nonzero: "lseg s c xs \<Longrightarrow> 0 \<notin> set xs"
  by (induction xs arbitrary: c) auto

lemma lseg_suffix: "lseg s c (xs @ y # ys) \<Longrightarrow> lseg s y (y # ys)"
  by (induction xs arbitrary: c) auto

lemma lseg_distinct: "lseg s c xs \<Longrightarrow> distinct xs"
proof (induction xs arbitrary: c)
  case (Cons x xs)
  have "x \<notin> set xs"
  proof
    assume "x \<in> set xs"
    then obtain us vs where u: "xs = us @ x # vs" by (auto simp: in_set_conv_decomp)
    with Cons.prems have "lseg s x (x # vs)" "lseg s x (x # xs)" using lseg_suffix [of s c "x # us" x vs] by auto
    then have "x # vs = x # xs" by (rule lseg_unique)
    with u show False by (metis Cons_eq_appendI length_append length_Cons list.inject not_add_less2 lessI add_Suc_right less_add_Suc2)
  qed
  with Cons show ?case by auto
qed simp

lemma list_okD:
  assumes "list_ok s h xs"
  shows "lseg s (list_first (head_at s h)) xs" "distinct xs" "0 \<notin> set xs" "h \<noteq> 0"
    "node_head (node_at s x) = h \<longleftrightarrow> x \<in> set xs"
  using assms lseg_distinct lseg_nonzero by (auto simp: list_ok_def)

lemma foreach_lseg: "lseg s c xs \<Longrightarrow> foreach_from s c = Some xs"
proof (induction xs arbitrary: c)
  case Nil then show ?case by (simp add: foreach_from.simps)
next
  case (Cons x xs) then show ?case by (subst foreach_from.simps) auto
qed

text \<open>The search stops at the node with its predecessor, or at the end without it.\<close>

lemma list_search_lseg:
  assumes "lseg s c xs"
  shows "node \<notin> set xs \<Longrightarrow> \<exists>p. list_search s node prev c = Some (False, p)"
    and "xs = us @ node # vs \<Longrightarrow> list_search s node prev c = Some (True, last (prev # us))"
proof -
  show "\<exists>p. list_search s node prev c = Some (False, p)" if "node \<notin> set xs"
    using assms that
  proof (induction xs arbitrary: c prev)
    case Nil then show ?case by (simp add: list_search.simps)
  next
    case (Cons x xs) then show ?case by (subst list_search.simps) auto
  qed
  show "list_search s node prev c = Some (True, last (prev # us))" if "xs = us @ node # vs"
    using assms that lseg_distinct [OF assms]
  proof (induction us arbitrary: c prev xs)
    case Nil then show ?case by (subst list_search.simps) auto
  next
    case (Cons u us)
    from Cons.prems have "list_search s node prev c = list_search s node u (node_next (node_at s u))"
      by (subst list_search.simps) auto
    with Cons.IH [of "node_next (node_at s u)" "us @ node # vs" u] Cons.prems show ?case by auto
  qed
qed

section \<open>What each operation does to the lists\<close>

lemma head_init_ok:
  assumes "h \<noteq> 0" "\<And>x. node_head (node_at s x) \<noteq> h"
  obtains s' where "libsrpc_list_head_init 0 h s = (LIBSRPC_LIST_OK, s')" "list_ok s' h []"
    "\<And>g xs. g \<noteq> h \<Longrightarrow> list_ok s' g xs = list_ok s g xs"
  using assms by (auto simp: libsrpc_list_head_init_def list_ok_def intro!: that)

lemma push_front_ok:
  assumes "list_ok s h xs" "n \<noteq> 0" "node_head (node_at s n) = 0"
  obtains s' where "libsrpc_list_push_front h n s = (LIBSRPC_LIST_OK, s')" "list_ok s' h (n # xs)"
    "\<And>g ys. g \<noteq> h \<Longrightarrow> list_ok s g ys \<Longrightarrow> list_ok s' g ys"
    "\<And>x. x \<noteq> n \<Longrightarrow> node_head (node_at s' x) = node_head (node_at s x)"
proof -
  note l = list_okD [OF assms(1)]
  define s' where "s' = snd (libsrpc_list_push_front h n s)"
  have run: "libsrpc_list_push_front h n s = (LIBSRPC_LIST_OK, s')"
    using assms l(4) by (simp add: s'_def libsrpc_list_push_front_def Let_def)
  have nd: "node_at s' = (node_at s)(n := \<lparr>node_next = list_first (head_at s h), node_head = h\<rparr>)"
    and hd: "list_first (head_at s' g) = (if g = h then n else list_first (head_at s g))" for g
    using assms l(4) by (auto simp: s'_def libsrpc_list_push_front_def Let_def intro: libsrpc_list_node.equality)
  have nx: "n \<notin> set ys" if "list_ok s g ys" for g ys
    using list_okD(4) [OF that] list_okD(5) [OF that, of n] assms(3) by auto
  have seg: "lseg s' c ys = lseg s c ys" if "list_ok s g ys" for g ys c
    by (rule lseg_cong) (use nx [OF that] nd in auto)
  have "list_ok s' h (n # xs)"
    using l seg [OF assms(1)] assms(2) by (auto simp: list_ok_def hd nd)
  moreover have "list_ok s' g ys" if "g \<noteq> h" "list_ok s g ys" for g ys
    using that seg [OF that(2)] nx [OF that(2)] by (auto simp: list_ok_def hd nd)
  ultimately show thesis using run by (intro that [of s']) (auto simp: nd)
qed

lemma lseg_unlink:
  assumes "lseg s c (us @ n # vs)" "distinct (us @ n # vs)"
    and nx: "\<And>x. x \<noteq> n \<Longrightarrow> node_next (node_at t x) =
           (if us \<noteq> [] \<and> x = last us then node_next (node_at s n) else node_next (node_at s x))"
  shows "lseg t (if us = [] then node_next (node_at s n) else c) (us @ vs)"
  using assms
proof (induction us arbitrary: c)
  case Nil
  then have "lseg t (node_next (node_at s n)) vs = lseg s (node_next (node_at s n)) vs"
    by (intro lseg_cong) (metis (full_types) append_Nil distinct.simps(2))
  with Nil show ?case by simp
next
  case (Cons u us)
  show ?case
  proof (cases "us = []")
    case True
    have "lseg t (node_next (node_at s n)) vs = lseg s (node_next (node_at s n)) vs"
    proof (rule lseg_cong)
      fix x assume x: "x \<in> set vs"
      then have "x \<noteq> n" "x \<noteq> u" using Cons.prems(2) True by auto
      then show "node_next (node_at t x) = node_next (node_at s x)" using Cons.prems(3) [of x] True by simp
    qed
    with Cons.prems True show ?thesis by auto
  next
    case False
    have "u \<noteq> last us" using Cons.prems(2) False by auto
    with Cons.IH [of "node_next (node_at s u)"] Cons.prems False show ?thesis by (auto split: if_splits)
  qed
qed

lemma remove_node_ok:
  assumes "list_ok s h xs" "n \<in> set xs"
  obtains s' where "libsrpc_list_remove n s = Some (LIBSRPC_LIST_OK, s')" "list_ok s' h (remove1 n xs)"
    "node_head (node_at s' n) = 0" "\<And>g ys. g \<noteq> h \<Longrightarrow> list_ok s g ys \<Longrightarrow> list_ok s' g ys"
    "\<And>x. x \<noteq> n \<Longrightarrow> node_head (node_at s' x) = node_head (node_at s x)"
proof -
  note l = list_okD [OF assms(1)]
  obtain us vs where u: "xs = us @ n # vs" "n \<notin> set us" using assms(2) by (meson split_list_first)
  have h: "node_head (node_at s n) = h" "n \<noteq> 0" using l assms(2) by auto
  define s' where "s' = unlink_node h (last (0 # us)) n s"
  have run: "libsrpc_list_remove n s = Some (LIBSRPC_LIST_OK, s')"
    using h l(4) list_search_lseg(2) [OF l(1) u(1), of 0] by (simp add: libsrpc_list_remove_def s'_def Let_def)
  have us0: "us \<noteq> [] \<Longrightarrow> last us \<noteq> 0 \<and> last us \<noteq> n" using u l(2,3) by (metis Un_iff last_in_set set_append)
  have hd: "list_first (head_at s' g) = (if g = h \<and> us = [] then node_next (node_at s n) else list_first (head_at s g))" for g
    using us0 by (auto simp: s'_def unlink_node_def Let_def)
  have nh: "node_head (node_at s' x) = (if x = n then 0 else node_head (node_at s x))" for x
    by (auto simp: s'_def unlink_node_def Let_def)
  have nn: "x \<noteq> n \<Longrightarrow> node_next (node_at s' x) =
      (if us \<noteq> [] \<and> x = last us then node_next (node_at s n) else node_next (node_at s x))" for x
    using us0 by (auto simp: s'_def unlink_node_def Let_def)
  have "lseg s' (list_first (head_at s' h)) (us @ vs)"
    using lseg_unlink [of s "list_first (head_at s h)" us n vs s'] l(1,2) nn by (auto simp: u(1) hd split: if_splits)
  moreover have "remove1 n xs = us @ vs" using u by (simp add: remove1_append)
  ultimately have "list_ok s' h (remove1 n xs)" using l(2,4,5) by (auto simp: list_ok_def nh u(1))
  moreover have "list_ok s' g ys" if "g \<noteq> h" "list_ok s g ys" for g ys
  proof -
    have d: "x \<notin> set xs" if "x \<in> set ys" for x
      using list_okD(5) [OF \<open>list_ok s g ys\<close>, of x] l(5) [of x] \<open>g \<noteq> h\<close> that by auto
    have lu: "us \<noteq> [] \<Longrightarrow> last us \<in> set xs" by (simp add: u(1))
    have "lseg s' (list_first (head_at s g)) ys = lseg s (list_first (head_at s g)) ys"
      by (rule lseg_cong) (use d nn assms(2) lu in metis)
    then show ?thesis using that d assms(2) list_okD(4) [OF that(2)] by (auto simp: list_ok_def hd nh)
  qed
  ultimately show thesis using run by (intro that [of s']) (auto simp: nh)
qed

section \<open>The list as an interface\<close>

text \<open>What the clients of a list rely on: the members of a list in order, insertion at the
  front, removal by node, and that other lists are not disturbed.\<close>

locale node_list =
  fixes members :: "'s \<Rightarrow> 'h \<Rightarrow> 'n list \<Rightarrow> bool"
    and loose :: "'s \<Rightarrow> 'n \<Rightarrow> bool"
    and push :: "'h \<Rightarrow> 'n \<Rightarrow> 's \<Rightarrow> int \<times> 's"
    and remove :: "'n \<Rightarrow> 's \<Rightarrow> (int \<times> 's) option"
    and foreach :: "'s \<Rightarrow> 'h \<Rightarrow> 'n list option"
  assumes foreach_members: "members s h xs \<Longrightarrow> foreach s h = Some xs"
    and members_distinct: "members s h xs \<Longrightarrow> distinct xs"
    and push_loose: "members s h xs \<Longrightarrow> loose s n \<Longrightarrow>
          \<exists>s'. push h n s = (0, s') \<and> members s' h (n # xs) \<and>
               (\<forall>g ys. g \<noteq> h \<longrightarrow> members s g ys \<longrightarrow> members s' g ys)"
    and remove_member: "members s h xs \<Longrightarrow> n \<in> set xs \<Longrightarrow>
          \<exists>s'. remove n s = Some (0, s') \<and> members s' h (remove1 n xs) \<and> loose s' n \<and>
               (\<forall>g ys. g \<noteq> h \<longrightarrow> members s g ys \<longrightarrow> members s' g ys)"
begin

lemma members_unique: "members s h xs \<Longrightarrow> members s h ys \<Longrightarrow> xs = ys"
  using foreach_members [of s h xs] foreach_members [of s h ys] by simp

lemma foreach_push:
  assumes "members s h xs" "loose s n"
  shows "foreach (snd (push h n s)) h = Some (n # xs)"
  using push_loose [OF assms] foreach_members by fastforce

lemma push_then_remove:
  assumes "members s h xs" "loose s n" "push h n s = (rc, s1)"
  shows "\<exists>s2. remove n s1 = Some (0, s2) \<and> members s2 h xs \<and> loose s2 n \<and>
           (\<forall>g ys. g \<noteq> h \<longrightarrow> members s g ys \<longrightarrow> members s2 g ys)"
proof -
  from push_loose [OF assms(1,2)] assms(3) have m: "members s1 h (n # xs)"
    and f: "\<forall>g ys. g \<noteq> h \<longrightarrow> members s g ys \<longrightarrow> members s1 g ys" by auto
  from remove_member [OF m, of n] f show ?thesis by auto
qed

lemma foreach_after_remove:
  assumes "members s h xs" "n \<in> set xs" "remove n s = Some (rc, s')"
  shows "rc = 0 \<and> foreach s' h = Some (removeAll n xs)"
  using remove_member [OF assms(1,2)] assms(3) foreach_members members_distinct [OF assms(1)]
  by (auto simp: distinct_remove1_removeAll)

end

definition loose_node :: "list_store \<Rightarrow> u64 \<Rightarrow> bool" where
  "loose_node s n \<longleftrightarrow> n \<noteq> 0 \<and> node_head (node_at s n) = 0"

interpretation spin: node_list list_ok loose_node libsrpc_list_push_front libsrpc_list_remove list_foreach
proof
  show "list_foreach s h = Some xs" if "list_ok s h xs" for s h xs
    using list_okD(1) [OF that] by (simp add: list_foreach_def foreach_lseg)
  show "distinct xs" if "list_ok s h xs" for s h xs by (rule list_okD(2) [OF that])
  show "\<exists>s'. libsrpc_list_push_front h n s = (0, s') \<and> list_ok s' h (n # xs) \<and>
     (\<forall>g ys. g \<noteq> h \<longrightarrow> list_ok s g ys \<longrightarrow> list_ok s' g ys)"
    if "list_ok s h xs" "loose_node s n" for s h xs n
  proof -
    from that(2) have n: "n \<noteq> 0" "node_head (node_at s n) = 0" by (simp_all add: loose_node_def)
    from push_front_ok [OF that(1) n] show ?thesis by (metis LIBSRPC_LIST_OK_def)
  qed
  show "\<exists>s'. libsrpc_list_remove n s = Some (0, s') \<and> list_ok s' h (remove1 n xs) \<and> loose_node s' n \<and>
     (\<forall>g ys. g \<noteq> h \<longrightarrow> list_ok s g ys \<longrightarrow> list_ok s' g ys)"
    if "list_ok s h xs" "n \<in> set xs" for s h xs n
  proof -
    have "n \<noteq> 0" using list_okD(3) [OF that(1)] that(2) by auto
    with remove_node_ok [OF that] show ?thesis unfolding loose_node_def LIBSRPC_LIST_OK_def by metis
  qed
qed

section \<open>Properties\<close>


definition empty_store :: list_store where
  "empty_store = \<lparr>node_at = \<lambda>_. \<lparr>node_next = 0, node_head = 0\<rparr>, head_at = \<lambda>_. \<lparr>list_first = 0, write_ops = 0\<rparr>\<rparr>"

lemma empty_store_ok: "h \<noteq> 0 \<Longrightarrow> list_ok empty_store h []" "n \<noteq> 0 \<Longrightarrow> loose_node empty_store n"
  by (simp_all add: list_ok_def loose_node_def empty_store_def)


text \<open>Misuse is reported and changes nothing: a node that is on a list is not inserted again
  (\<^verbatim>\<open>LIBSRPC_LIST_EALREADY\<close>), a node that is on none is not removed (\<^verbatim>\<open>LIBSRPC_LIST_ENOTFOUND\<close>), and null
  arguments are refused.\<close>

theorem list_errors_change_nothing:
  "(list_ok s h xs \<and> n \<in> set xs \<and> g \<noteq> 0 \<longrightarrow> libsrpc_list_push_front g n s = (LIBSRPC_LIST_EALREADY, s)) \<and>
   (loose_node s n \<longrightarrow> libsrpc_list_remove n s = Some (LIBSRPC_LIST_ENOTFOUND, s)) \<and>
   libsrpc_list_push_front 0 n s = (LIBSRPC_LIST_EINVAL, s) \<and> libsrpc_list_push_front g 0 s = (LIBSRPC_LIST_EINVAL, s) \<and>
   libsrpc_list_remove 0 s = Some (LIBSRPC_LIST_EINVAL, s)"
proof -
  have "n \<noteq> 0 \<and> node_head (node_at s n) \<noteq> 0" if "list_ok s h xs" "n \<in> set xs"
    using list_okD(3,4) [OF that(1)] list_okD(5) [OF that(1), of n] that(2) by auto
  then show ?thesis by (auto simp: libsrpc_list_push_front_def libsrpc_list_remove_def loose_node_def)
qed

lemma list_errors_change_nothing_witness:
  "libsrpc_list_remove 64 empty_store = Some (LIBSRPC_LIST_ENOTFOUND, empty_store)"
  using list_errors_change_nothing [of empty_store _ _ 64] empty_store_ok(2) [of 64] by simp

end
