(* ===== verification/Mpmc_Queue.thy ===== *)
theory Mpmc_Queue
  imports Srpc_Prelude
begin

text \<open>
  The bounded lock-free queue of \<^verbatim>\<open>src/lf_mpmc_queue.c\<close>. The ring is a function from slot
  indices, always masked, to slots; \<^verbatim>\<open>size_t\<close> positions are 64-bit words that wrap. The build
  fixes the capacity (\<^verbatim>\<open>MPMC_QUEUE_CAPACITY\<close>, a power of two): it is the argument \<open>cap\<close>. The
  operations run by one thread alone are \<open>lf_mpmc_queue_try_enqueue\<close>,
  \<open>lf_mpmc_queue_try_dequeue\<close> and \<open>lf_mpmc_queue_try_find_ptr\<close>; the theory \<open>Mpmc_Conc\<close>
  interleaves their atomic accesses.
\<close>

section \<open>Data\<close>

record lf_slot =
  slot_seq :: u64
  slot_data :: u64

record lf_mpmc_queue =
  q_head :: u64
  q_tail :: u64
  q_buffer :: "u64 \<Rightarrow> lf_slot"
  q_mask :: u64

definition LF_QUEUE_OK :: int where "LF_QUEUE_OK = 0"
definition LF_QUEUE_FULL :: int where "LF_QUEUE_FULL = -1"
definition LF_QUEUE_EMPTY :: int where "LF_QUEUE_EMPTY = -2"
definition LF_QUEUE_NOT_FOUND :: int where "LF_QUEUE_NOT_FOUND = -3"

lemmas queue_codes = LF_QUEUE_OK_def LF_QUEUE_FULL_def LF_QUEUE_EMPTY_def LF_QUEUE_NOT_FOUND_def

section \<open>Operations\<close>

definition put_seq :: "u64 \<Rightarrow> u64 \<Rightarrow> lf_mpmc_queue \<Rightarrow> lf_mpmc_queue" where
  "put_seq i v q = q\<lparr>q_buffer := (q_buffer q)(i := (q_buffer q i)\<lparr>slot_seq := v\<rparr>)\<rparr>"

definition put_data :: "u64 \<Rightarrow> u64 \<Rightarrow> lf_mpmc_queue \<Rightarrow> lf_mpmc_queue" where
  "put_data i v q = q\<lparr>q_buffer := (q_buffer q)(i := (q_buffer q i)\<lparr>slot_data := v\<rparr>)\<rparr>"

fun init_slots :: "nat \<Rightarrow> u64 \<Rightarrow> lf_mpmc_queue \<Rightarrow> lf_mpmc_queue" where
  "init_slots 0 i q = q"
| "init_slots (Suc n) i q = init_slots n (i + 1) (put_data i 0 (put_seq i i q))"

definition lf_mpmc_queue_init :: "u64 \<Rightarrow> lf_mpmc_queue \<Rightarrow> lf_mpmc_queue" where
  "lf_mpmc_queue_init cap q =
     (let q1 = q\<lparr>q_head := 0\<rparr>; q2 = q1\<lparr>q_tail := 0\<rparr>; q3 = init_slots (unat cap) 0 q2
      in q3\<lparr>q_mask := cap - 1\<rparr>)"

text \<open>The signed distance \<^verbatim>\<open>(ptrdiff_t)(a - b)\<close>.\<close>

definition pdiff :: "u64 \<Rightarrow> u64 \<Rightarrow> int" where
  "pdiff a b = sint (a - b)"

partial_function (option) enqueue_loop :: "u64 \<Rightarrow> u64 \<Rightarrow> lf_mpmc_queue \<Rightarrow> (int \<times> lf_mpmc_queue) option" where
  "enqueue_loop pos data q =
     (let idx = pos AND q_mask q; diff = pdiff (slot_seq (q_buffer q idx)) pos in
      if diff = 0 then
        (if q_head q = pos
         then Some (LF_QUEUE_OK, put_seq idx (pos + 1) (put_data idx data (q\<lparr>q_head := pos + 1\<rparr>)))
         else enqueue_loop (q_head q) data q)
      else if diff < 0 then Some (LF_QUEUE_FULL, q)
      else enqueue_loop (q_head q) data q)"

definition lf_mpmc_queue_try_enqueue :: "u64 \<Rightarrow> lf_mpmc_queue \<Rightarrow> (int \<times> lf_mpmc_queue) option" where
  "lf_mpmc_queue_try_enqueue data q = enqueue_loop (q_head q) data q"

text \<open>A dequeue returns the code and the pointer stored through \<^verbatim>\<open>data\<close> (\<open>None\<close>: not written).\<close>

partial_function (option) dequeue_loop ::
  "u64 \<Rightarrow> u64 \<Rightarrow> lf_mpmc_queue \<Rightarrow> ((int \<times> u64 option) \<times> lf_mpmc_queue) option" where
  "dequeue_loop cap pos q =
     (let idx = pos AND q_mask q; diff = pdiff (slot_seq (q_buffer q idx)) (pos + 1) in
      if diff = 0 then
        (if q_tail q = pos
         then Some ((LF_QUEUE_OK, Some (slot_data (q_buffer q idx))), put_seq idx (pos + cap) (q\<lparr>q_tail := pos + 1\<rparr>))
         else dequeue_loop cap (q_tail q) q)
      else if diff < 0 then Some ((LF_QUEUE_EMPTY, None), q)
      else dequeue_loop cap (q_tail q) q)"

definition lf_mpmc_queue_try_dequeue ::
  "u64 \<Rightarrow> lf_mpmc_queue \<Rightarrow> ((int \<times> u64 option) \<times> lf_mpmc_queue) option" where
  "lf_mpmc_queue_try_dequeue cap q = dequeue_loop cap (q_tail q) q"

fun find_loop :: "nat \<Rightarrow> u64 \<Rightarrow> u64 \<Rightarrow> lf_mpmc_queue \<Rightarrow> int" where
  "find_loop 0 pos ptr q = LF_QUEUE_NOT_FOUND"
| "find_loop (Suc n) pos ptr q =
     (let sl = q_buffer q (pos AND q_mask q) in
      if slot_seq sl \<noteq> pos + 1 then find_loop n (pos + 1) ptr q
      else if slot_data sl \<noteq> ptr then find_loop n (pos + 1) ptr q
      else if q_tail q > pos then find_loop n (pos + 1) ptr q
      else LF_QUEUE_OK)"

definition lf_mpmc_queue_try_find_ptr :: "u64 \<Rightarrow> u64 \<Rightarrow> lf_mpmc_queue \<Rightarrow> int" where
  "lf_mpmc_queue_try_find_ptr cap ptr q =
     (if ptr = 0 then LF_QUEUE_NOT_FOUND
      else
        let tl = q_tail q; hd = q_head q in
        if hd \<le> tl then LF_QUEUE_NOT_FOUND
        else
          let n = hd - tl in
          if n > cap then find_loop (unat cap) (hd - cap) ptr q
          else find_loop (unat n) tl ptr q)"

section \<open>Slot indices\<close>

text \<open>The capacities the queue works for: powers of two from 2 up.\<close>

definition good_cap :: "u64 \<Rightarrow> bool" where
  "good_cap cap \<longleftrightarrow> (\<exists>k. 1 \<le> k \<and> k \<le> 61 \<and> cap = 2 ^ k)"

lemma good_cap_2: "good_cap 2"
  by (auto simp: good_cap_def intro!: exI [of _ 1])

lemma unat_pow2: "k < 64 \<Longrightarrow> unat (2 ^ k :: u64) = 2 ^ k"
proof -
  assume k: "k < 64"
  have "unat (of_nat (2 ^ k) :: u64) = take_bit 64 (2 ^ k)" by (subst unsigned_of_nat) simp
  also have "\<dots> = 2 ^ k" by (rule take_bit_nat_eq_self) (rule power_strict_increasing; use k in simp)
  finally show ?thesis by simp
qed

lemma good_capD:
  assumes "good_cap cap"
  shows "2 \<le> unat cap" "unat cap \<le> 2 ^ 61" "\<exists>k \<le> 61. cap = 2 ^ k \<and> unat cap = 2 ^ k"
proof -
  obtain k where k: "1 \<le> k" "k \<le> 61" "cap = 2 ^ k" using assms by (auto simp: good_cap_def)
  then have u: "unat cap = 2 ^ k" by (simp add: unat_pow2)
  have "(2 :: nat) ^ 1 \<le> 2 ^ k" "(2 :: nat) ^ k \<le> 2 ^ 61" by (rule power_increasing; use k in simp)+
  then show "2 \<le> unat cap" "unat cap \<le> 2 ^ 61" using u by simp_all
  show "\<exists>k \<le> 61. cap = 2 ^ k \<and> unat cap = 2 ^ k" using k u by blast
qed

lemma unat_and_mask:
  assumes "good_cap cap" shows "unat (pos AND (cap - 1)) = unat pos mod unat cap"
proof -
  obtain k where k: "k \<le> 61" "cap = 2 ^ k" "unat cap = 2 ^ k" using good_capD(3) [OF assms] by blast
  have "pos AND (cap - 1) = take_bit k pos" using k(2) by (simp add: take_bit_eq_mask mask_eq_exp_minus_1)
  then have "unat (pos AND (cap - 1)) = take_bit k (unat pos)" by (simp add: unsigned_take_bit_eq)
  then show ?thesis using k(3) by (simp add: take_bit_eq_mod)
qed

lemma unat_add_mod_cap:
  assumes "good_cap cap" shows "unat (a + b :: u64) mod unat cap = (unat a + unat b) mod unat cap"
proof -
  obtain k where k: "k \<le> 61" "unat cap = 2 ^ k" using good_capD(3) [OF assms] by blast
  have "(2 :: nat) ^ k dvd 2 ^ 64" by (rule le_imp_power_dvd) (use k(1) in simp)
  then show ?thesis unfolding k(2) by (simp add: unat_word_ariths mod_mod_cancel)
qed

text \<open>Positions closer than the capacity have different slots.\<close>

lemma mod_window_inj: "i < n \<Longrightarrow> j < n \<Longrightarrow> (t + i) mod n = (t + j) mod (n :: nat) \<Longrightarrow> i = j"
proof -
  assume a: "i < n" "j < n" "(t + i) mod n = (t + j) mod n"
  then have "i mod n = j mod n" using nat_mod_eq_iff [of "t + i" n "t + j"] nat_mod_eq_iff [of i n j]
    by (metis add.assoc add_left_cancel)
  with a show "i = j" by simp
qed

lemma idx_inj:
  assumes c: "good_cap cap" and "i < unat cap" "j < unat cap"
    and eq: "(t + of_nat i) AND (cap - 1) = (t + of_nat j) AND (cap - 1)"
  shows "i = j"
proof -
  have u: "unat (of_nat k :: u64) = k" if "k < unat cap" for k
    using that good_capD(2) [OF c] by (simp add: unsigned_of_nat take_bit_nat_eq_self)
  have "unat ((t + of_nat k) AND (cap - 1)) = (unat t + k) mod unat cap" if "k < unat cap" for k
    using that by (simp add: unat_and_mask [OF c] unat_add_mod_cap [OF c] u)
  with eq assms(2,3) have "(unat t + i) mod unat cap = (unat t + j) mod unat cap" by metis
  with assms(2,3) show ?thesis by (rule mod_window_inj)
qed

lemma idx_inj_iff:
  assumes "good_cap cap" "i < unat cap" "j < unat cap"
  shows "(t + of_nat i) AND (cap - 1) = (t + of_nat j) AND (cap - 1) \<longleftrightarrow> i = j"
  using idx_inj [OF assms] by blast

lemma idx_wrap:
  assumes "good_cap cap" shows "(t + cap) AND (cap - 1) = t AND (cap - 1)"
proof -
  have "unat ((t + cap) AND (cap - 1)) = unat (t AND (cap - 1))"
    by (simp add: unat_and_mask [OF assms] unat_add_mod_cap [OF assms])
  then show ?thesis by (rule unsigned_word_eqI)
qed

section \<open>The queue as a bounded FIFO\<close>

text \<open>\<open>mq_rep cap q xs\<close>: the ring holds \<open>xs\<close>, oldest first. The sequence number of the slot
  of position \<open>p\<close> is \<open>p + 1\<close> when it is filled and \<open>p\<close> when it waits for the enqueue of
  position \<open>p\<close>. All sums wrap.\<close>

definition mq_rep :: "u64 \<Rightarrow> lf_mpmc_queue \<Rightarrow> u64 list \<Rightarrow> bool" where
  "mq_rep cap q xs \<longleftrightarrow> q_mask q = cap - 1 \<and> length xs \<le> unat cap \<and> q_head q = q_tail q + of_nat (length xs) \<and>
     (\<forall>i < unat cap.
        let p = q_tail q + of_nat i; sl = q_buffer q (p AND (cap - 1)) in
        if i < length xs then slot_seq sl = p + 1 \<and> slot_data sl = xs ! i else slot_seq sl = p)"

lemma put_seq_sel [simp]:
  "q_head (put_seq i v q) = q_head q" "q_tail (put_seq i v q) = q_tail q" "q_mask (put_seq i v q) = q_mask q"
  "slot_seq (q_buffer (put_seq i v q) j) = (if j = i then v else slot_seq (q_buffer q j))"
  "slot_data (q_buffer (put_seq i v q) j) = slot_data (q_buffer q j)"
  by (simp_all add: put_seq_def)

lemma put_data_sel [simp]:
  "q_head (put_data i v q) = q_head q" "q_tail (put_data i v q) = q_tail q" "q_mask (put_data i v q) = q_mask q"
  "slot_seq (q_buffer (put_data i v q) j) = slot_seq (q_buffer q j)"
  "slot_data (q_buffer (put_data i v q) j) = (if j = i then v else slot_data (q_buffer q j))"
  by (simp_all add: put_data_def)

lemma mq_repD:
  assumes "mq_rep cap q xs"
  shows "q_mask q = cap - 1" "length xs \<le> unat cap" "q_head q = q_tail q + of_nat (length xs)"
    "i < length xs \<Longrightarrow> slot_seq (q_buffer q ((q_tail q + of_nat i) AND (cap - 1))) = q_tail q + of_nat i + 1"
    "i < length xs \<Longrightarrow> slot_data (q_buffer q ((q_tail q + of_nat i) AND (cap - 1))) = xs ! i"
    "length xs \<le> i \<Longrightarrow> i < unat cap \<Longrightarrow> slot_seq (q_buffer q ((q_tail q + of_nat i) AND (cap - 1))) = q_tail q + of_nat i"
  using assms by (auto simp: mq_rep_def Let_def)

lemma pdiff_zero [simp]: "pdiff a b = 0 \<longleftrightarrow> a = b"
proof -
  have "sint (a - b) = 0 \<longleftrightarrow> a - b = 0" using signed_word_eqI [of "a - b" 0] by auto
  then show ?thesis by (simp add: pdiff_def)
qed

lemma pdiff_minus:
  assumes "a - b = - of_nat d" "1 \<le> d" "d \<le> 2 ^ 61" shows "pdiff a b < 0"
proof -
  have "sint (of_int (- int d) :: u64) = signed_take_bit 63 (- int d)" by (subst signed_of_int) simp
  also have "\<dots> = - int d" by (rule signed_take_bit_int_eq_self) (use assms in simp_all)
  finally have "sint (- of_nat d :: u64) = - int d" by simp
  with assms show ?thesis by (simp add: pdiff_def)
qed

text \<open>Initialisation gives the empty queue.\<close>

lemma init_slots_sel [simp]:
  "q_head (init_slots n i q) = q_head q" "q_tail (init_slots n i q) = q_tail q"
  by (induction n i q rule: init_slots.induct) simp_all

lemma init_slots_seq:
  assumes "n + m < 2 ^ 64" "k < n + m" "\<And>j. j < m \<Longrightarrow> slot_seq (q_buffer q (of_nat j)) = of_nat j"
  shows "slot_seq (q_buffer (init_slots n (of_nat m) q) (of_nat k)) = of_nat k"
  using assms
proof (induction n arbitrary: m q)
  case (Suc n)
  have inj: "(of_nat j :: u64) = of_nat m \<longleftrightarrow> j = m" if "j \<le> m" for j
  proof
    assume "(of_nat j :: u64) = of_nat m"
    then have "unat (of_nat j :: u64) = unat (of_nat m :: u64)" by simp
    then show "j = m" using that Suc.prems(1) by (simp add: unsigned_of_nat take_bit_nat_eq_self)
  qed simp
  have "slot_seq (q_buffer (init_slots n (of_nat (Suc m)) (put_data (of_nat m) 0 (put_seq (of_nat m) (of_nat m) q))) (of_nat k)) = of_nat k"
    by (rule Suc.IH) (use Suc.prems inj in \<open>auto simp: less_Suc_eq\<close>)
  then show ?case by (simp add: add.commute)
qed simp

lemma init_rep:
  assumes "good_cap cap" shows "mq_rep cap (lf_mpmc_queue_init cap q) []"
proof -
  have "(of_nat i :: u64) AND (cap - 1) = of_nat i" if "i < unat cap" for i
  proof -
    have "unat (of_nat i :: u64) = i"
      using that good_capD(2) [OF assms] by (simp add: unsigned_of_nat take_bit_nat_eq_self)
    then have "unat ((of_nat i :: u64) AND (cap - 1)) = unat (of_nat i :: u64)"
      using that by (simp add: unat_and_mask [OF assms])
    then show ?thesis by (rule unsigned_word_eqI)
  qed
  moreover have "slot_seq (q_buffer (init_slots (unat cap) 0 r) (of_nat i)) = of_nat i" if "i < unat cap" for i r
    using init_slots_seq [of "unat cap" 0 i r] that good_capD(2) [OF assms] by simp
  ultimately show ?thesis by (simp add: mq_rep_def lf_mpmc_queue_init_def Let_def)
qed

lemma enqueue_room:
  assumes c: "good_cap cap" and r: "mq_rep cap q xs" and l: "length xs < unat cap"
  obtains q' where "lf_mpmc_queue_try_enqueue d q = Some (LF_QUEUE_OK, q')" "mq_rep cap q' (xs @ [d])"
proof -
  note R = mq_repD [OF r]
  define h where "h = q_head q"
  define ix where "ix = h AND (cap - 1)"
  define q' where "q' = put_seq ix (h + 1) (put_data ix d (q\<lparr>q_head := h + 1\<rparr>))"
  have h: "h = q_tail q + of_nat (length xs)" using R(3) by (simp add: h_def)
  have s0: "slot_seq (q_buffer q ix) = h" using R(6) [OF le_refl l] by (simp add: ix_def h)
  have "lf_mpmc_queue_try_enqueue d q = Some (LF_QUEUE_OK, q')"
    using s0 R(1) by (subst lf_mpmc_queue_try_enqueue_def, subst enqueue_loop.simps) (simp add: q'_def ix_def h_def Let_def)
  moreover have "mq_rep cap q' (xs @ [d])"
    unfolding mq_rep_def Let_def
  proof (intro conjI allI impI)
    show "q_mask q' = cap - 1" "length (xs @ [d]) \<le> unat cap" "q_head q' = q_tail q' + of_nat (length (xs @ [d]))"
      using R l by (simp_all add: q'_def h)
    fix i assume i: "i < unat cap"
    have e: "(q_tail q + of_nat i) AND (cap - 1) = ix \<longleftrightarrow> i = length xs"
      unfolding ix_def h by (rule idx_inj_iff [OF c i l])
    show "if i < length (xs @ [d])
      then slot_seq (q_buffer q' ((q_tail q' + of_nat i) AND (cap - 1))) = q_tail q' + of_nat i + 1 \<and>
           slot_data (q_buffer q' ((q_tail q' + of_nat i) AND (cap - 1))) = (xs @ [d]) ! i
      else slot_seq (q_buffer q' ((q_tail q' + of_nat i) AND (cap - 1))) = q_tail q' + of_nat i"
      using R(4-6) [of i] i e by (cases "i = length xs") (auto simp: q'_def h nth_append)
  qed
  ultimately show thesis by (rule that)
qed

lemma enqueue_full:
  assumes c: "good_cap cap" and r: "mq_rep cap q xs" and l: "length xs = unat cap"
  shows "lf_mpmc_queue_try_enqueue d q = Some (LF_QUEUE_FULL, q)"
proof -
  note R = mq_repD [OF r] and C = good_capD [OF c]
  have h: "q_head q = q_tail q + cap" using R(3) l by simp
  have "slot_seq (q_buffer q (q_tail q AND (cap - 1))) = q_tail q + 1" using R(4) [of 0] l C(1) by simp
  then have s: "slot_seq (q_buffer q (q_head q AND (cap - 1))) = q_tail q + 1" using h idx_wrap [OF c] by simp
  have "pdiff (q_tail q + 1) (q_head q) < 0"
    by (rule pdiff_minus [of _ _ "unat cap - 1"]) (use C h in \<open>simp_all add: of_nat_diff\<close>)
  then show ?thesis using s R(1)
    by (subst lf_mpmc_queue_try_enqueue_def, subst enqueue_loop.simps) (simp add: Let_def del: pdiff_zero)
qed

lemma dequeue_empty:
  assumes c: "good_cap cap" and r: "mq_rep cap q []"
  shows "lf_mpmc_queue_try_dequeue cap q = Some ((LF_QUEUE_EMPTY, None), q)"
proof -
  note R = mq_repD [OF r] and C = good_capD [OF c]
  have s: "slot_seq (q_buffer q (q_tail q AND (cap - 1))) = q_tail q" using R(6) [of 0] C(1) by simp
  have "pdiff (q_tail q) (q_tail q + 1) < 0" by (rule pdiff_minus [of _ _ 1]) simp_all
  then show ?thesis using s R(1)
    by (subst lf_mpmc_queue_try_dequeue_def, subst dequeue_loop.simps) (simp add: Let_def del: pdiff_zero)
qed

lemma dequeue_one:
  assumes c: "good_cap cap" and r: "mq_rep cap q (x # xs)"
  obtains q' where "lf_mpmc_queue_try_dequeue cap q = Some ((LF_QUEUE_OK, Some x), q')" "mq_rep cap q' xs"
proof -
  note R = mq_repD [OF r] and C = good_capD [OF c]
  define t where "t = q_tail q"
  define ix where "ix = t AND (cap - 1)"
  define q' where "q' = put_seq ix (t + cap) (q\<lparr>q_tail := t + 1\<rparr>)"
  have s: "slot_seq (q_buffer q ix) = t + 1" "slot_data (q_buffer q ix) = x"
    using R(4,5) [of 0] by (simp_all add: ix_def t_def)
  have "lf_mpmc_queue_try_dequeue cap q = Some ((LF_QUEUE_OK, Some x), q')"
    using s R(1) by (subst lf_mpmc_queue_try_dequeue_def, subst dequeue_loop.simps) (simp add: q'_def ix_def t_def Let_def)
  moreover have "mq_rep cap q' xs"
    unfolding mq_rep_def Let_def
  proof (intro conjI allI impI)
    show "q_mask q' = cap - 1" "length xs \<le> unat cap" "q_head q' = q_tail q' + of_nat (length xs)"
      using R(1-3) by (simp_all add: q'_def t_def)
    fix i assume i: "i < unat cap"
    let ?p = "t + 1 + of_nat i"
    show "if i < length xs
      then slot_seq (q_buffer q' ((q_tail q' + of_nat i) AND (cap - 1))) = q_tail q' + of_nat i + 1 \<and>
           slot_data (q_buffer q' ((q_tail q' + of_nat i) AND (cap - 1))) = xs ! i
      else slot_seq (q_buffer q' ((q_tail q' + of_nat i) AND (cap - 1))) = q_tail q' + of_nat i"
    proof (cases "Suc i < unat cap")
      case True
      have "(q_tail q + of_nat (Suc i)) AND (cap - 1) = ix \<longleftrightarrow> Suc i = 0"
        using idx_inj_iff [OF c True, of 0 "q_tail q"] C(1) by (simp add: ix_def t_def)
      then show ?thesis using R(4-6) [of "Suc i"] True by (auto simp: q'_def t_def algebra_simps)
    next
      case False
      then have "Suc i = unat cap" using i by simp
      then have w: "1 + of_nat i = cap" by (metis of_nat_Suc of_nat_unat ucast_id)
      have "q_tail q' + of_nat i = t + (1 + of_nat i)" by (simp add: q'_def)
      then have p: "q_tail q' + of_nat i = t + cap" unfolding w .
      have "(t + cap) AND (cap - 1) = ix" unfolding ix_def by (rule idx_wrap [OF c])
      then have "slot_seq (q_buffer q' ((t + cap) AND (cap - 1))) = t + cap" by (simp add: q'_def)
      moreover have "\<not> i < length xs" using R(2) False by simp
      ultimately show ?thesis unfolding p by simp
    qed
  qed
  ultimately show thesis by (rule that)
qed

text \<open>The search sees the queued pointers, as long as the positions have not wrapped.\<close>

lemma find_loop_ok:
  assumes c: "good_cap cap" and r: "mq_rep cap q xs" and w: "unat (q_tail q) + length xs < 2 ^ 64"
    and "i + n = length xs"
  shows "find_loop n (q_tail q + of_nat i) ptr q = (if ptr \<in> set (drop i xs) then LF_QUEUE_OK else LF_QUEUE_NOT_FOUND)"
  using assms(4)
proof (induction n arbitrary: i)
  case (Suc n)
  note R = mq_repD [OF r]
  have i: "i < length xs" using Suc.prems by simp
  have le: "q_tail q \<le> q_tail q + of_nat i"
  proof -
    have "unat (q_tail q + of_nat i) = unat (q_tail q) + i"
      using w i unat_lt_64 [of "q_tail q"] by (subst unat_add_nowrap) (simp_all add: unsigned_of_nat take_bit_nat_eq_self)
    then show ?thesis by (simp add: word_le_nat_alt)
  qed
  have "drop i xs = xs ! i # drop (Suc i) xs" using i by (simp add: Cons_nth_drop_Suc)
  with Suc.IH [of "Suc i"] Suc.prems R(1) R(4,5) [OF i] le show ?case by (auto simp: Let_def add.assoc add.commute [of 1])
qed simp

lemma find_ptr_ok:
  assumes c: "good_cap cap" and r: "mq_rep cap q xs" and w: "unat (q_tail q) + length xs < 2 ^ 64"
  shows "lf_mpmc_queue_try_find_ptr cap ptr q = (if ptr \<noteq> 0 \<and> ptr \<in> set xs then LF_QUEUE_OK else LF_QUEUE_NOT_FOUND)"
proof -
  note R = mq_repD [OF r]
  have u: "unat (of_nat (length xs) :: u64) = length xs" using w by (simp add: unsigned_of_nat take_bit_nat_eq_self)
  have hd: "unat (q_head q) = unat (q_tail q) + length xs" using R(3) w u by (simp add: unat_add_nowrap)
  have n: "q_head q - q_tail q = of_nat (length xs)" using R(3) by simp
  show ?thesis using find_loop_ok [OF c r w, of 0 "length xs" ptr] R(2) hd n u
    by (auto simp: lf_mpmc_queue_try_find_ptr_def Let_def word_le_nat_alt word_less_nat_alt)
qed

section \<open>The interface of a bounded queue\<close>

locale bounded_queue =
  fixes rep :: "'q \<Rightarrow> 'a list \<Rightarrow> bool" and bound :: nat
    and enq :: "'a \<Rightarrow> 'q \<Rightarrow> (int \<times> 'q) option"
    and deq :: "'q \<Rightarrow> ((int \<times> 'a option) \<times> 'q) option"
  assumes enq_room: "rep q xs \<Longrightarrow> length xs < bound \<Longrightarrow> \<exists>q'. enq x q = Some (0, q') \<and> rep q' (xs @ [x])"
    and enq_full: "rep q xs \<Longrightarrow> \<not> length xs < bound \<Longrightarrow> \<exists>e < 0. enq x q = Some (e, q)"
    and deq_none: "rep q [] \<Longrightarrow> \<exists>e < 0. deq q = Some ((e, None), q)"
    and deq_some: "rep q (x # xs) \<Longrightarrow> \<exists>q'. deq q = Some ((0, Some x), q') \<and> rep q' xs"
begin

text \<open>Draining: as many dequeues as there are elements return them all, in order.\<close>

fun drain :: "nat \<Rightarrow> 'q \<Rightarrow> 'a list" where
  "drain 0 q = []"
| "drain (Suc n) q =
     (case deq q of Some ((rc, Some x), q') \<Rightarrow> if rc = 0 then x # drain n q' else [] | _ \<Rightarrow> [])"

lemma drain_all: "rep q xs \<Longrightarrow> length xs \<le> n \<Longrightarrow> drain n q = xs"
proof (induction n arbitrary: q xs)
  case (Suc n)
  show ?case
  proof (cases xs)
    case Nil
    with deq_none Suc.prems(1) show ?thesis by fastforce
  next
    case (Cons x ys)
    with deq_some Suc.prems obtain q' where "deq q = Some ((0, Some x), q')" "rep q' ys" by blast
    with Suc Cons show ?thesis by simp
  qed
qed simp

lemma enq_then_deq_empty:
  assumes "rep q []" "0 < bound" "enq x q = Some (rc, q1)"
  shows "rc = 0 \<and> (\<exists>q2. deq q1 = Some ((0, Some x), q2) \<and> rep q2 [])"
  using enq_room [OF assms(1), of x] assms(2,3) deq_some [of q1 x "[]"] by auto

lemma rep_unique: "rep q xs \<Longrightarrow> rep q ys \<Longrightarrow> xs = ys"
  using drain_all [of q xs "max (length xs) (length ys)"] drain_all [of q ys "max (length xs) (length ys)"] by simp

end

definition mq_ok :: "u64 \<Rightarrow> lf_mpmc_queue \<Rightarrow> u64 list \<Rightarrow> bool" where
  "mq_ok cap q xs \<longleftrightarrow> good_cap cap \<and> mq_rep cap q xs"

interpretation mq: bounded_queue "mq_ok cap" "unat cap" lf_mpmc_queue_try_enqueue "lf_mpmc_queue_try_dequeue cap"
  for cap
proof
  show "\<exists>q'. lf_mpmc_queue_try_enqueue x q = Some (0, q') \<and> mq_ok cap q' (xs @ [x])"
    if "mq_ok cap q xs" "length xs < unat cap" for q xs x
    using that enqueue_room [of cap q xs x] unfolding mq_ok_def LF_QUEUE_OK_def by metis
  show "\<exists>e<0. lf_mpmc_queue_try_enqueue x q = Some (e, q)" if "mq_ok cap q xs" "\<not> length xs < unat cap" for q xs x
    using that enqueue_full [of cap q xs x] mq_repD(2) [of cap q xs] by (auto simp: mq_ok_def LF_QUEUE_FULL_def)
  show "\<exists>e<0. lf_mpmc_queue_try_dequeue cap q = Some ((e, None), q)" if "mq_ok cap q []" for q
    using that dequeue_empty [of cap q] by (auto simp: mq_ok_def LF_QUEUE_EMPTY_def)
  show "\<exists>q'. lf_mpmc_queue_try_dequeue cap q = Some ((0, Some x), q') \<and> mq_ok cap q' xs"
    if "mq_ok cap q (x # xs)" for q x xs
    using that dequeue_one [of cap q x xs] unfolding mq_ok_def LF_QUEUE_OK_def by metis
qed

end
