(* ===== verification/Srpc_Shm.thy ===== *)
theory Srpc_Shm
  imports Srpc_Errno Tlsf_Api Tlsf_Props List_Spin Mpmc_Queue
begin

text \<open>
  The shared segment and the process-local data of the library (\<^verbatim>\<open>src/libsrpc_shmem.h\<close>,
  \<^verbatim>\<open>src/libsrpc_local.h\<close>, \<^verbatim>\<open>src/libsrpc_proc.h\<close>, \<^verbatim>\<open>src/libsrpc_private.h\<close>), and the allocation
  functions of \<^verbatim>\<open>src/libsrpc_shmem.c\<close>, which pass the caller's UID to the allocator and copy
  its error code.

  The segment \<open>shmem\<close> holds the allocator pool, the registry of functions, the intrusive lists
  (nodes and heads by address), and typed views of the process and request blocks by address:
  both are cleared with \<^verbatim>\<open>memset\<close> right after their allocation, and payloads do not overlap
  (\<open>payloads_disjoint\<close>). Blocks that are not cleared (the extension blocks of the registry) are
  read word by word from the pool. The list node is the first field of both structures, so a
  node has the address of its structure.
\<close>

section \<open>Responses and requests\<close>

text \<open>\<^verbatim>\<open>srpc_rc_t\<close>: an \<^verbatim>\<open>int\<close> whose low 30 bits are the signed code and whose high 2 bits are the status.\<close>

type_synonym srpc_rc = u32

definition RC_ST_EMPTY :: u32 where "RC_ST_EMPTY = 0"
definition RC_ST_LOCK :: u32 where "RC_ST_LOCK = 1"
definition RC_ST_READY :: u32 where "RC_ST_READY = 2"
definition RC_ST_ERROR :: u32 where "RC_ST_ERROR = 3"

lemmas rc_states = RC_ST_EMPTY_def RC_ST_LOCK_def RC_ST_READY_def RC_ST_ERROR_def

definition rc_make :: "u32 \<Rightarrow> int \<Rightarrow> srpc_rc" where
  "rc_make st code = take_bit 30 (of_int code) OR push_bit 30 st"

definition rc_st :: "srpc_rc \<Rightarrow> u32" where "rc_st w = drop_bit 30 w"
definition rc_code :: "srpc_rc \<Rightarrow> int" where "rc_code w = signed_take_bit 29 (uint w)"
definition rc_int :: "srpc_rc \<Rightarrow> int" where "rc_int w = sint w"

record libsrpc_response =
  hp_proc :: u64
  resp_rc :: srpc_rc
  resp_uid :: u16
  resp_buf :: "u8 list"

definition LIBSRPC_REQ_SIGN :: u32 where "LIBSRPC_REQ_SIGN = 0x741B8CD7"
definition REQ_SZ :: u64 where "REQ_SZ = 96"
definition REQ_BUF_OFF :: u64 where "REQ_BUF_OFF = 92"
definition RESP_SZ :: u64 where "RESP_SZ = 16"

text \<open>The responses lie in \<^verbatim>\<open>buf\<close>; \<open>slots\<close> reads the response at a byte offset of it. A semaphore
  is its value, \<open>None\<close> after \<^verbatim>\<open>sem_destroy\<close>.\<close>

record libsrpc_request =
  req_sem :: "nat option"
  hp_regfn :: u64
  req_sign :: u32
  seq_num :: u32
  gc_lock_uid :: "u16 list"
  funid :: int
  bufsz :: u32
  retoff :: u32
  retsz :: u32
  retnum :: u32
  req_args :: "u8 list"
  slots :: "u32 \<Rightarrow> libsrpc_response"

section \<open>Processes and the registry of functions\<close>

definition LIBSRPC_PROC_STATUS_INIT :: u16 where "LIBSRPC_PROC_STATUS_INIT = 0"
definition LIBSRPC_PROC_STATUS_RUN :: u16 where "LIBSRPC_PROC_STATUS_RUN = 1"
definition LIBSRPC_PROC_STATUS_STOP :: u16 where "LIBSRPC_PROC_STATUS_STOP = 2"
definition LIBSRPC_PROC_STATUS_DEAD :: u16 where "LIBSRPC_PROC_STATUS_DEAD = 5"
definition LIBSRPC_PROC_STATUS_DELETE :: u16 where "LIBSRPC_PROC_STATUS_DELETE = 6"

lemmas proc_states = LIBSRPC_PROC_STATUS_INIT_def LIBSRPC_PROC_STATUS_RUN_def LIBSRPC_PROC_STATUS_STOP_def
  LIBSRPC_PROC_STATUS_DEAD_def LIBSRPC_PROC_STATUS_DELETE_def

definition LIBSRPC_PROC_SIGN :: u32 where "LIBSRPC_PROC_SIGN = 0xEF1212EF"
definition DAEMON_PROC_UID :: u16 where "DAEMON_PROC_UID = 1"

record libsrpc_proc =
  proc_sign :: u32
  proc_status :: u16
  proc_uid :: u16
  proc_pid :: int
  threads_run :: u32
  threads_wait :: u32
  proc_sem :: "nat option"
  proc_queue :: lf_mpmc_queue
  threads_num :: u32
  threads_hp :: "u64 list"

text \<open>\<^verbatim>\<open>offsetof(libsrpc_proc_t, req_head)\<close>.\<close>

definition req_head_of :: "u64 \<Rightarrow> u64" where "req_head_of proc = proc + 72"

definition sRPCFNID_START :: int where "sRPCFNID_START = 16"
definition sRPC_FNNUM :: nat where "sRPC_FNNUM = 5"
definition sRPCFNID_MAX :: int where "sRPCFNID_MAX = sRPCFNID_START + 1 + int sRPC_FNNUM"
definition sRPC_ID2IDX :: "int \<Rightarrow> int" where "sRPC_ID2IDX fid = fid - sRPCFNID_START - 1"

definition LIBSRPC_RFMB_SZ :: nat where "LIBSRPC_RFMB_SZ = 8"
definition LIBSRPC_RFEB_SZ :: u32 where "LIBSRPC_RFEB_SZ = 32"
definition LIBSRPC_REGFN_SIGN :: u32 where "LIBSRPC_REGFN_SIGN = 0x1F971A85"

record libsrpc_rpc_func =
  num_all :: u32
  ext_block :: u64
  main_block :: "u64 list"

record shmem =
  sm_pool :: tlsf_ctrl
  sm_poolptr :: u64
  sm_funcs :: "libsrpc_rpc_func list"
  sm_send_rr :: "u32 list"
  sm_lists :: list_store
  sm_proc_head :: u64
  sm_procs :: "u64 \<Rightarrow> libsrpc_proc"
  sm_reqs :: "u64 \<Rightarrow> libsrpc_request"
  sm_gc_head :: u64
  sm_gc_sem :: "nat option"

text \<open>Types of the blocks in the pool.\<close>

definition LIBSRPC_SHMDT_USER :: u16 where "LIBSRPC_SHMDT_USER = 0"
definition LIBSRPC_SHMDT_PROC :: u16 where "LIBSRPC_SHMDT_PROC = 1"
definition LIBSRPC_SHMDT_REGFN :: u16 where "LIBSRPC_SHMDT_REGFN = 2"
definition LIBSRPC_SHMDT_REQUEST :: u16 where "LIBSRPC_SHMDT_REQUEST = 3"
definition LIBSRPC_SHMDT_MAX :: u16 where "LIBSRPC_SHMDT_MAX = 4"

lemmas shm_types = LIBSRPC_SHMDT_USER_def LIBSRPC_SHMDT_PROC_def LIBSRPC_SHMDT_REGFN_def
  LIBSRPC_SHMDT_REQUEST_def LIBSRPC_SHMDT_MAX_def

section \<open>Process- and thread-local data\<close>

text \<open>\<^verbatim>\<open>simplerpc_data\<close> of the process and the thread-local variables of \<^verbatim>\<open>src/libsrpc.c\<close>.\<close>

record srpc_ctx =
  cx_caller :: caller
  cx_data :: bool
  cx_shm :: bool
  cx_uid :: u16
  cx_proc :: u64
  rpc_enable :: bool
  rpc_timeout_global :: u64
  srpc_disable_rpc_recursion :: bool
  current_req :: u64
  rpc_timeout_oneshot :: u64
  rpc_timeout :: "u64 list"
  req_seq_num :: u32
  srpc_thread_stop_flag :: bool
  cx_tls :: srpc_tls

definition set_tls :: "int \<Rightarrow> srpc_ctx \<Rightarrow> srpc_ctx" where
  "set_tls e cx = cx\<lparr>cx_tls := libsrpc_errno_set e (cx_tls cx)\<rparr>"

definition libsrpc_shmem_get :: "srpc_ctx \<Rightarrow> bool" where
  "libsrpc_shmem_get cx = (cx_data cx \<and> cx_shm cx)"

definition libsrpc_proc_is_valid :: "shmem \<Rightarrow> u64 \<Rightarrow> bool" where
  "libsrpc_proc_is_valid sm proc \<longleftrightarrow> proc \<noteq> 0 \<and> proc_sign (sm_procs sm proc) = LIBSRPC_PROC_SIGN \<and>
     proc_status (sm_procs sm proc) = LIBSRPC_PROC_STATUS_RUN"

definition put_proc :: "u64 \<Rightarrow> (libsrpc_proc \<Rightarrow> libsrpc_proc) \<Rightarrow> shmem \<Rightarrow> shmem" where
  "put_proc a f sm = sm\<lparr>sm_procs := (sm_procs sm)(a := f (sm_procs sm a))\<rparr>"

definition put_req :: "u64 \<Rightarrow> (libsrpc_request \<Rightarrow> libsrpc_request) \<Rightarrow> shmem \<Rightarrow> shmem" where
  "put_req a f sm = sm\<lparr>sm_reqs := (sm_reqs sm)(a := f (sm_reqs sm a))\<rparr>"

definition libsrpc_proc_set_run :: "u64 \<Rightarrow> shmem \<Rightarrow> shmem" where
  "libsrpc_proc_set_run proc = put_proc proc (proc_status_update (\<lambda>_. LIBSRPC_PROC_STATUS_RUN))"

definition libsrpc_proc_set_stop :: "u64 \<Rightarrow> shmem \<Rightarrow> shmem" where
  "libsrpc_proc_set_stop proc = put_proc proc (proc_status_update (\<lambda>_. LIBSRPC_PROC_STATUS_STOP))"

definition sem_post :: "nat option \<Rightarrow> nat option" where
  "sem_post s = map_option Suc s"

definition libsrpc_shm_gc_wakeup :: "srpc_ctx \<Rightarrow> shmem \<Rightarrow> int \<times> shmem" where
  "libsrpc_shm_gc_wakeup cx sm =
     (if \<not> libsrpc_shmem_get cx then (- ESHMNOINIT, sm)
      else (0, sm\<lparr>sm_gc_sem := sem_post (sm_gc_sem sm)\<rparr>))"

section \<open>Allocation in the segment\<close>

text \<open>A call of the allocator on the pool of the segment.\<close>

definition on_pool :: "(tlsf_ctrl \<Rightarrow> ('r \<times> tlsf_ctrl) option) \<Rightarrow> shmem \<Rightarrow> ('r \<times> shmem) option" where
  "on_pool f sm = map_option (\<lambda>(r, c). (r, sm\<lparr>sm_pool := c\<rparr>)) (f (sm_pool sm))"

text \<open>The frame of the wrappers: the initialisation checks, the call, and the copy of the
  allocator's error code. \<open>dflt\<close> is the result when a check fails.\<close>

definition shm_call ::
  "'r \<Rightarrow> (u64 \<Rightarrow> u16 \<Rightarrow> tlsf_ctrl \<Rightarrow> ('r \<times> tlsf_ctrl) option) \<Rightarrow> srpc_ctx \<Rightarrow> shmem \<Rightarrow> ('r \<times> srpc_ctx \<times> shmem) option" where
  "shm_call dflt f cx sm =
     (if \<not> cx_data cx then Some (dflt, set_tls ELIBNOINIT cx, sm)
      else if \<not> libsrpc_shmem_get cx then Some (dflt, set_tls ESHMNOINIT cx, sm)
      else map_option (\<lambda>(r, sm'). (r, set_tls (tlsf_get_errno (sm_poolptr sm) (sm_pool sm')) cx, sm'))
             (on_pool (f (sm_poolptr sm) (cx_uid cx)) sm))"

definition libsrpc_shmem_malloc_type :: "u64 \<Rightarrow> u16 \<Rightarrow> srpc_ctx \<Rightarrow> shmem \<Rightarrow> (u64 \<times> srpc_ctx \<times> shmem) option" where
  "libsrpc_shmem_malloc_type sz ty cx sm = shm_call 0 (\<lambda>tlsf uid. tlsf_malloc (cx_caller cx) tlsf sz uid ty) cx sm"

definition libsrpc_shmem_malloc :: "u64 \<Rightarrow> srpc_ctx \<Rightarrow> shmem \<Rightarrow> (u64 \<times> srpc_ctx \<times> shmem) option" where
  "libsrpc_shmem_malloc sz = libsrpc_shmem_malloc_type sz LIBSRPC_SHMDT_USER"

definition libsrpc_shmem_calloc_type :: "u64 \<Rightarrow> u64 \<Rightarrow> u16 \<Rightarrow> srpc_ctx \<Rightarrow> shmem \<Rightarrow> (u64 \<times> srpc_ctx \<times> shmem) option" where
  "libsrpc_shmem_calloc_type num sz ty cx sm =
     shm_call 0 (\<lambda>tlsf uid. tlsf_calloc (cx_caller cx) tlsf num sz uid ty) cx sm"

definition libsrpc_shmem_calloc :: "u64 \<Rightarrow> u64 \<Rightarrow> srpc_ctx \<Rightarrow> shmem \<Rightarrow> (u64 \<times> srpc_ctx \<times> shmem) option" where
  "libsrpc_shmem_calloc num sz = libsrpc_shmem_calloc_type num sz LIBSRPC_SHMDT_USER"

definition libsrpc_shmem_realloc :: "u64 \<Rightarrow> u64 \<Rightarrow> srpc_ctx \<Rightarrow> shmem \<Rightarrow> (u64 \<times> srpc_ctx \<times> shmem) option" where
  "libsrpc_shmem_realloc ptr newsize cx sm =
     shm_call 0 (\<lambda>tlsf uid. tlsf_realloc (cx_caller cx) tlsf ptr newsize uid) cx sm"

definition libsrpc_shmem_free :: "u64 \<Rightarrow> srpc_ctx \<Rightarrow> shmem \<Rightarrow> (unit \<times> srpc_ctx \<times> shmem) option" where
  "libsrpc_shmem_free ptr cx sm = shm_call () (\<lambda>tlsf uid. tlsf_free (cx_caller cx) tlsf ptr uid) cx sm"

definition libsrpc_shmem_free_dc :: "u64 \<Rightarrow> srpc_ctx \<Rightarrow> shmem \<Rightarrow> srpc_ctx \<times> shmem" where
  "libsrpc_shmem_free_dc ptr cx sm =
     (if \<not> libsrpc_shmem_get cx then (set_tls ESHMNOINIT cx, sm)
      else case tlsf_setdc (sm_poolptr sm) ptr (sm_pool sm) of
        (rc, c) \<Rightarrow> (set_tls rc cx, sm\<lparr>sm_pool := c\<rparr>))"

definition libsrpc_shmem_link :: "u64 \<Rightarrow> srpc_ctx \<Rightarrow> shmem \<Rightarrow> (int \<times> srpc_ctx \<times> shmem) option" where
  "libsrpc_shmem_link ptr cx sm =
     (if ptr = 0 \<or> \<not> cx_data cx \<or> \<not> libsrpc_shmem_get cx then Some (- EINVAL, cx, sm)
      else map_option (\<lambda>(rc, sm'). (rc, if rc < 0 then set_tls rc cx else cx, sm'))
             (on_pool (tlsf_link (cx_caller cx) (sm_poolptr sm) ptr (cx_uid cx)) sm))"

text \<open>\<^verbatim>\<open>psz\<close>: whether a size pointer was given. The result is the code and the size written.\<close>

definition libsrpc_shmem_get_size :: "u64 \<Rightarrow> bool \<Rightarrow> srpc_ctx \<Rightarrow> shmem \<Rightarrow> ((int \<times> u64 option) \<times> shmem) option" where
  "libsrpc_shmem_get_size ptr psz cx sm =
     (if \<not> libsrpc_shmem_get cx then Some ((- EINVAL, None), sm)
      else map_option (\<lambda>(n, sm'). ((tlsf_get_errno (sm_poolptr sm) (sm_pool sm'), if psz then Some n else None), sm'))
             (on_pool (tlsf_get_block_size (cx_caller cx) (sm_poolptr sm) ptr) sm))"

section \<open>The allocator as an interface\<close>

text \<open>What a process relies on: a heap seen as a partial map from pointers to blocks, in which an
  allocation for the owner \<open>me\<close> adds one fresh entry or fails without effect, and a release
  takes the owner off and drops the entry with the last owner.\<close>

locale owner_heap =
  fixes rep :: "'s \<Rightarrow> (u64 \<rightharpoonup> blk) \<Rightarrow> bool"
    and me :: u16
    and alloc :: "u64 \<Rightarrow> u16 \<Rightarrow> 's \<Rightarrow> (u64 \<times> 's) option"
    and release :: "u64 \<Rightarrow> 's \<Rightarrow> (unit \<times> 's) option"
  assumes alloc_law: "rep s v \<Longrightarrow> sz \<noteq> 0 \<Longrightarrow> unat sz \<le> 896 \<Longrightarrow>
      \<exists>p s'. alloc sz ty s = Some (p, s') \<and>
        (p = 0 \<and> rep s' v \<or>
         p \<noteq> 0 \<and> v p = None \<and> (\<exists>n. unat sz \<le> unat n \<and> rep s' (v(p \<mapsto>
           \<lparr>bk_size = n, bk_owners = me # replicate 11 0, bk_type = ty AND 0x7FFF, bk_dc = False\<rparr>))))"
    and release_law: "rep s v \<Longrightarrow> v p = Some k \<Longrightarrow> me \<in> set (bk_owners k) \<Longrightarrow>
      \<exists>s'. release p s = Some ((), s') \<and>
        rep s' (let us = without me (bk_owners k) in if unowned us then v(p := None) else v(p \<mapsto> k\<lparr>bk_owners := us\<rparr>))"
    and me_nonzero: "rep s v \<Longrightarrow> me \<noteq> 0"
begin

lemma sole_owner: "unowned (without me (me # replicate 11 0))"
  by (simp add: without_def unowned_def)

text \<open>Releasing what was just allocated restores the view.\<close>

lemma alloc_release:
  assumes "rep s v" "sz \<noteq> 0" "unat sz \<le> 896" "alloc sz ty s = Some (p, s1)" "p \<noteq> 0"
  shows "\<exists>s2. release p s1 = Some ((), s2) \<and> rep s2 v"
proof -
  from alloc_law [OF assms(1-3), of ty] assms(4,5) obtain n where n: "v p = None"
    "rep s1 (v(p \<mapsto> \<lparr>bk_size = n, bk_owners = me # replicate 11 0, bk_type = ty AND 0x7FFF, bk_dc = False\<rparr>))"
    by auto
  from release_law [OF n(2), of p] sole_owner n(1) show ?thesis by (auto simp: Let_def fun_upd_idem)
qed

text \<open>Several allocations in a row: the pointers are distinct and were not in use.\<close>

fun alloc_all :: "(u64 \<times> u16) list \<Rightarrow> 's \<Rightarrow> (u64 list \<times> 's) option" where
  "alloc_all [] s = Some ([], s)"
| "alloc_all ((sz, ty) # rs) s =
     (case alloc sz ty s of None \<Rightarrow> None
      | Some (p, s1) \<Rightarrow>
          (case alloc_all rs s1 of None \<Rightarrow> None | Some (ps, s2) \<Rightarrow> Some (if p = 0 then ps else p # ps, s2)))"

lemma alloc_all_distinct:
  assumes "rep s v" "\<forall>(sz, ty) \<in> set rs. sz \<noteq> 0 \<and> unat sz \<le> 896"
  shows "\<exists>ps s' v'. alloc_all rs s = Some (ps, s') \<and> rep s' v' \<and> distinct ps \<and> set ps \<inter> dom v = {} \<and> dom v' = dom v \<union> set ps"
  using assms
proof (induction rs arbitrary: s v)
  case (Cons r rs)
  obtain sz ty where r: "r = (sz, ty)" by (cases r)
  with Cons.prems have a: "sz \<noteq> 0" "unat sz \<le> 896" by auto
  from alloc_law [OF Cons.prems(1) a, of ty] obtain p s1 where p: "alloc sz ty s = Some (p, s1)"
    "p = 0 \<and> rep s1 v \<or> p \<noteq> 0 \<and> v p = None \<and> (\<exists>k. rep s1 (v(p \<mapsto> k)))" by blast
  show ?case
  proof (cases "p = 0")
    case True
    with p Cons.IH [of s1 v] Cons.prems(2) show ?thesis by (auto simp: r)
  next
    case False
    with p(2) obtain k where k: "v p = None" "rep s1 (v(p \<mapsto> k))" by blast
    have rs: "\<forall>(sz, ty) \<in> set rs. sz \<noteq> 0 \<and> unat sz \<le> 896" using Cons.prems(2) by simp
    from Cons.IH [OF k(2) rs] obtain ps s' v' where "alloc_all rs s1 = Some (ps, s')" "rep s' v'" "distinct ps"
      "set ps \<inter> dom (v(p \<mapsto> k)) = {}" "dom v' = dom (v(p \<mapsto> k)) \<union> set ps" by blast
    with p(1) False k(1) show ?thesis by (auto simp: r)
  qed
qed auto

end

definition pool_view :: "u64 \<Rightarrow> tlsf_ctrl \<Rightarrow> (u64 \<rightharpoonup> blk) \<Rightarrow> bool" where
  "pool_view tlsf c v \<longleftrightarrow> tlsf \<noteq> 0 \<and> (\<exists>bs. tlsf_inv c bs \<and> heap_abs c bs = v)"

lemma pool_alloc_law:
  assumes "pool_view tlsf c v" "uid \<noteq> 0" "sz \<noteq> 0" "unat sz \<le> 896"
  shows "\<exists>p c'. tlsf_malloc w tlsf sz uid ty c = Some (p, c') \<and>
        (p = 0 \<and> pool_view tlsf c' v \<or>
         p \<noteq> 0 \<and> v p = None \<and> (\<exists>n. unat sz \<le> unat n \<and> pool_view tlsf c' (v(p \<mapsto>
           \<lparr>bk_size = n, bk_owners = uid # replicate 11 0, bk_type = ty AND 0x7FFF, bk_dc = False\<rparr>))))"
proof -
  obtain bs where bs: "tlsf \<noteq> 0" "tlsf_inv c bs" "heap_abs c bs = v" using assms(1) by (auto simp: pool_view_def)
  from malloc_small_cases [OF bs(2,1) assms(2-4), of w ty] obtain p c' bs' where r:
    "tlsf_malloc w tlsf sz uid ty c = Some (p, c')" "tlsf_inv c' bs'"
    "alloc_effect c bs sz uid ty p c' bs' \<or> p = 0 \<and> heap_abs c' bs' = heap_abs c bs" by metis
  then show ?thesis using bs by (auto simp: pool_view_def alloc_effect_def)
qed

lemma pool_release_law:
  assumes "pool_view tlsf c v" "uid \<noteq> 0" "v p = Some k" "uid \<in> set (bk_owners k)"
  shows "\<exists>c'. tlsf_free w tlsf p uid c = Some ((), c') \<and> pool_view tlsf c'
    (let us = without uid (bk_owners k) in if unowned us then v(p := None) else v(p \<mapsto> k\<lparr>bk_owners := us\<rparr>))"
proof -
  obtain bs where bs: "tlsf \<noteq> 0" "tlsf_inv c bs" "heap_abs c bs = v" using assms(1) by (auto simp: pool_view_def)
  have k: "heap_abs c bs p = Some k" using assms(3) bs(3) by simp
  obtain c' bs' where "tlsf_free w tlsf p uid c = Some ((), c')" "tlsf_inv c' bs'" "free_effect c bs p uid c' bs'"
    by (rule tlsf_free_run [OF bs(2,1) assms(2) k assms(4)])
  with bs k show ?thesis by (auto simp: pool_view_def free_effect_def Let_def split: if_splits)
qed

text \<open>The allocator itself, and the library's wrappers, offer this interface.\<close>

interpretation pool: owner_heap "\<lambda>c v. uid \<noteq> 0 \<and> pool_view tlsf c v" uid
  "\<lambda>sz ty. tlsf_malloc w tlsf sz uid ty" "\<lambda>p. tlsf_free w tlsf p uid" for w tlsf uid
  by unfold_locales (use pool_alloc_law pool_release_law in \<open>simp_all\<close>)

definition shm_view :: "u16 \<Rightarrow> srpc_ctx \<times> shmem \<Rightarrow> (u64 \<rightharpoonup> blk) \<Rightarrow> bool" where
  "shm_view uid s v \<longleftrightarrow> libsrpc_shmem_get (fst s) \<and> cx_uid (fst s) = uid \<and> uid \<noteq> 0 \<and>
     pool_view (sm_poolptr (snd s)) (sm_pool (snd s)) v"

lemma shm_call_ready:
  assumes "libsrpc_shmem_get cx" "f (sm_poolptr sm) (cx_uid cx) (sm_pool sm) = Some (r, c)"
  shows "shm_call d f cx sm = Some (r, set_tls (tlsf_errno c) cx, sm\<lparr>sm_pool := c\<rparr>)"
  using assms by (simp add: shm_call_def on_pool_def libsrpc_shmem_get_def tlsf_get_errno_def)

lemma ctx_set_tls [simp]:
  "libsrpc_shmem_get (set_tls e cx) = libsrpc_shmem_get cx" "cx_uid (set_tls e cx) = cx_uid cx"
  "cx_caller (set_tls e cx) = cx_caller cx" "current_req (set_tls e cx) = current_req cx" "cx_proc (set_tls e cx) = cx_proc cx"
  "srpc_errno (cx_tls (set_tls e cx)) = e"
  by (simp_all add: set_tls_def libsrpc_shmem_get_def libsrpc_errno_set_def)

interpretation shm: owner_heap "shm_view uid" uid
  "\<lambda>sz ty (cx, sm). libsrpc_shmem_malloc_type sz ty cx sm" "\<lambda>p (cx, sm). libsrpc_shmem_free p cx sm" for uid
proof
  fix s v and sz :: u64 and ty
  assume a: "shm_view uid s v" "sz \<noteq> 0" "unat sz \<le> 896"
  obtain cx sm where s: "s = (cx, sm)" by (cases s)
  have v: "libsrpc_shmem_get cx" "cx_uid cx = uid" "uid \<noteq> 0" "pool_view (sm_poolptr sm) (sm_pool sm) v"
    using a(1) by (auto simp: shm_view_def s)
  from pool_alloc_law [OF v(4,3) a(2,3), of "cx_caller cx" ty] obtain p c where p:
    "tlsf_malloc (cx_caller cx) (sm_poolptr sm) sz uid ty (sm_pool sm) = Some (p, c)"
    "p = 0 \<and> pool_view (sm_poolptr sm) c v \<or>
         p \<noteq> 0 \<and> v p = None \<and> (\<exists>n. unat sz \<le> unat n \<and> pool_view (sm_poolptr sm) c (v(p \<mapsto>
           \<lparr>bk_size = n, bk_owners = uid # replicate 11 0, bk_type = ty AND 0x7FFF, bk_dc = False\<rparr>)))" by blast
  have "libsrpc_shmem_malloc_type sz ty cx sm = Some (p, set_tls (tlsf_errno c) cx, sm\<lparr>sm_pool := c\<rparr>)"
    unfolding libsrpc_shmem_malloc_type_def by (rule shm_call_ready [OF v(1)]) (simp add: v(2) p(1))
  with p(2) v(1-3) show "\<exists>p s'. (case s of (cx, sm) \<Rightarrow> libsrpc_shmem_malloc_type sz ty cx sm) = Some (p, s') \<and>
        (p = 0 \<and> shm_view uid s' v \<or>
         p \<noteq> 0 \<and> v p = None \<and> (\<exists>n. unat sz \<le> unat n \<and> shm_view uid s' (v(p \<mapsto>
           \<lparr>bk_size = n, bk_owners = uid # replicate 11 0, bk_type = ty AND 0x7FFF, bk_dc = False\<rparr>))))"
    by (simp add: s shm_view_def)
next
  fix s v p k
  assume a: "shm_view uid s v" "v p = Some k" "uid \<in> set (bk_owners k)"
  obtain cx sm where s: "s = (cx, sm)" by (cases s)
  have v: "libsrpc_shmem_get cx" "cx_uid cx = uid" "uid \<noteq> 0" "pool_view (sm_poolptr sm) (sm_pool sm) v"
    using a(1) by (auto simp: shm_view_def s)
  from pool_release_law [OF v(4,3) a(2,3), of "cx_caller cx"] obtain c where c:
    "tlsf_free (cx_caller cx) (sm_poolptr sm) p uid (sm_pool sm) = Some ((), c)"
    "pool_view (sm_poolptr sm) c (let us = without uid (bk_owners k) in if unowned us then v(p := None) else v(p \<mapsto> k\<lparr>bk_owners := us\<rparr>))"
    by blast
  have "libsrpc_shmem_free p cx sm = Some ((), set_tls (tlsf_errno c) cx, sm\<lparr>sm_pool := c\<rparr>)"
    unfolding libsrpc_shmem_free_def by (rule shm_call_ready [OF v(1)]) (simp add: v(2) c(1))
  with c(2) v(1-3) show "\<exists>s'. (case s of (cx, sm) \<Rightarrow> libsrpc_shmem_free p cx sm) = Some ((), s') \<and>
    shm_view uid s' (let us = without uid (bk_owners k) in if unowned us then v(p := None) else v(p \<mapsto> k\<lparr>bk_owners := us\<rparr>))"
    by (simp add: s shm_view_def)
qed (simp add: shm_view_def)

end
