(* ===== verification/Srpc_Request.thy ===== *)
theory Srpc_Request
  imports Srpc_Shm
begin

text \<open>
  Requests and their response slots: the inline functions of \<^verbatim>\<open>src/libsrpc_local.h\<close> and the
  functions of \<^verbatim>\<open>src/libsrpc.c\<close> that read the last request of a thread, set timeouts, and lock the
  memory of a responding process against the garbage collector. A request is an address of the
  segment (0 is \<^verbatim>\<open>NULL\<close>); a response slot is the byte offset of the response in \<^verbatim>\<open>buf\<close>.
\<close>

section \<open>Validity and slots\<close>

text \<open>\<^verbatim>\<open>sizeof(libsrpc_request_t) + retoff + retsz * retnum\<close> in \<^verbatim>\<open>size_t\<close>.\<close>

definition req_size :: "libsrpc_request \<Rightarrow> u64" where
  "req_size r = REQ_SZ + ucast (retoff r) + ucast (retsz r) * ucast (retnum r)"

text \<open>The union of the signature (low half) and the sequence number.\<close>

definition req_control :: "libsrpc_request \<Rightarrow> u64" where
  "req_control r = ucast (req_sign r) OR push_bit 32 (ucast (seq_num r))"

text \<open>The check works on a copy \<open>r\<close> of the request and reads the control word again (\<open>r'\<close>) at the end.\<close>

definition req_corrupted :: "u64 option \<Rightarrow> libsrpc_request \<Rightarrow> libsrpc_request \<Rightarrow> bool" where
  "req_corrupted ctrl r r' =
     (if (case ctrl of None \<Rightarrow> False | Some c \<Rightarrow> c \<noteq> req_control r) then True
      else if req_sign r \<noteq> LIBSRPC_REQ_SIGN then True
      else if retnum r = 0 \<or> retsz r = 0 then True
      else if ucast (bufsz r) < req_size r then True
      else if (case ctrl of None \<Rightarrow> False | Some c \<Rightarrow> req_control r' \<noteq> c) then True
      else req_sign r' \<noteq> LIBSRPC_REQ_SIGN)"

definition libsrpc_req_is_corrupted :: "u64 \<Rightarrow> u64 option \<Rightarrow> shmem \<Rightarrow> bool" where
  "libsrpc_req_is_corrupted req ctrl sm = (req = 0 \<or> req_corrupted ctrl (sm_reqs sm req) (sm_reqs sm req))"

definition slot_offset :: "libsrpc_request \<Rightarrow> u32 \<Rightarrow> u32" where
  "slot_offset r idx = retoff r + retsz r * idx"

definition libsrpc_req_get_response_fast :: "u64 \<Rightarrow> u32 \<Rightarrow> shmem \<Rightarrow> u32 option" where
  "libsrpc_req_get_response_fast req idx sm =
     (if req = 0 then None
      else let r = sm_reqs sm req in
        if ucast (bufsz r) < req_size r then None
        else if idx \<ge> retnum r then None
        else Some (slot_offset r idx))"

definition libsrpc_req_get_response :: "u64 \<Rightarrow> u32 \<Rightarrow> shmem \<Rightarrow> u32 option" where
  "libsrpc_req_get_response req idx sm =
     (if req = 0 then None
      else let r = sm_reqs sm req; offset = slot_offset r idx in
        if libsrpc_req_is_corrupted req None sm \<or> idx \<ge> retnum r then None
        else Some offset)"

definition get_resp :: "shmem \<Rightarrow> u64 \<Rightarrow> u32 \<Rightarrow> libsrpc_response" where
  "get_resp sm req off = slots (sm_reqs sm req) off"

definition put_resp :: "u64 \<Rightarrow> u32 \<Rightarrow> (libsrpc_response \<Rightarrow> libsrpc_response) \<Rightarrow> shmem \<Rightarrow> shmem" where
  "put_resp req off f = put_req req (\<lambda>r. r\<lparr>slots := (slots r)(off := f (slots r off))\<rparr>)"

section \<open>Answering and reading an answer\<close>

text \<open>\<^verbatim>\<open>libsrpc_req_response_set\<close> is a compare-and-swap from the empty state, the copy of the value and
  the store of the final state.\<close>

definition resp_try :: "srpc_rc \<Rightarrow> libsrpc_response \<Rightarrow> libsrpc_response option" where
  "resp_try v s = (if resp_rc s = 0 then Some (s\<lparr>resp_rc := v\<rparr>) else None)"

definition resp_write :: "u8 list option \<Rightarrow> libsrpc_response \<Rightarrow> libsrpc_response" where
  "resp_write v s = (case v of None \<Rightarrow> s | Some bs \<Rightarrow> s\<lparr>resp_buf := bs @ drop (length bs) (resp_buf s)\<rparr>)"

definition libsrpc_req_response_set :: "u64 \<Rightarrow> u32 \<Rightarrow> u64 option \<Rightarrow> u8 list option \<Rightarrow> shmem \<Rightarrow> int \<times> shmem" where
  "libsrpc_req_response_set req off ctrl v sm =
     (if libsrpc_req_is_corrupted req ctrl sm then (- EINVAL, sm)
      else case resp_try (rc_make RC_ST_LOCK 0) (get_resp sm req off) of
          None \<Rightarrow> (- EBUSY, sm)
        | Some s \<Rightarrow> (rc_int (rc_make RC_ST_READY 0),
            put_resp req off (\<lambda>_. (resp_write v s)\<lparr>resp_rc := rc_make RC_ST_READY 0\<rparr>) sm))"

text \<open>The reader loads the slot at most 1024 times; \<open>obs i\<close> is what the \<open>i\<close>-th load sees. The
  result is the code and the bytes copied out (\<open>None\<close>: no copy).\<close>

fun response_spin :: "nat \<Rightarrow> (nat \<Rightarrow> libsrpc_response) \<Rightarrow> nat \<Rightarrow> nat \<Rightarrow> (int \<times> u8 list option) option" where
  "response_spin 0 obs i sz = None"
| "response_spin (Suc n) obs i sz =
     (let s = obs i in
      if rc_st (resp_rc s) = RC_ST_LOCK then response_spin n obs (Suc i) sz
      else if rc_st (resp_rc s) = RC_ST_ERROR then
        Some (if rc_code (resp_rc s) < 0 then rc_code (resp_rc s) else - EBADFD, None)
      else if rc_st (resp_rc s) = RC_ST_READY then
        Some (rc_code (resp_rc s), if sz > 0 then Some (take sz (resp_buf s)) else None)
      else response_spin n obs (Suc i) sz)"

definition libsrpc_req_response_get :: "(nat \<Rightarrow> libsrpc_response) option \<Rightarrow> nat \<Rightarrow> srpc_ctx \<Rightarrow> (int \<times> u8 list option) \<times> srpc_ctx" where
  "libsrpc_req_response_get resp sz cx =
     (case resp of None \<Rightarrow> ((- EINVAL, None), cx)
      | Some obs \<Rightarrow> (case response_spin 1024 obs 0 sz of
            Some r \<Rightarrow> (r, cx)
          | None \<Rightarrow> ((- ETIMEDOUT, None), set_tls ETIMEDOUT cx)))"

definition libsrpc_req_destroy :: "u64 \<Rightarrow> shmem \<Rightarrow> int \<times> shmem" where
  "libsrpc_req_destroy req sm =
     (if req = 0 then (- EINVAL, sm)
      else if req_sign (sm_reqs sm req) \<noteq> LIBSRPC_REQ_SIGN then (- EALREADY, sm)
      else (0, put_req req (\<lambda>r. r\<lparr>req_sign := 0, req_sem := None, retnum := 0, retsz := 0\<rparr>) sm))"

section \<open>Timeouts\<close>

definition LIBSRPC_TIMEOUT_DEFAULT :: u64 where "LIBSRPC_TIMEOUT_DEFAULT = 1000000"
definition LIBSRPC_TIMEOUT_MINIMUM :: u64 where "LIBSRPC_TIMEOUT_MINIMUM = 100"

definition libsrpc_timeout_func_set :: "int \<Rightarrow> u64 \<Rightarrow> srpc_ctx \<Rightarrow> srpc_ctx" where
  "libsrpc_timeout_func_set fid timeout cx =
     (let funidx = sRPC_ID2IDX fid in
      if funidx < 0 \<or> funidx \<ge> int sRPC_FNNUM then cx
      else cx\<lparr>rpc_timeout := (rpc_timeout cx)[nat funidx := timeout]\<rparr>)"

definition libsrpc_timeout_oneshot_set :: "u64 \<Rightarrow> srpc_ctx \<Rightarrow> srpc_ctx" where
  "libsrpc_timeout_oneshot_set timeout cx = cx\<lparr>rpc_timeout_oneshot := timeout\<rparr>"

definition libsrpc_timeout_global_set :: "u64 \<Rightarrow> srpc_ctx \<Rightarrow> srpc_ctx" where
  "libsrpc_timeout_global_set timeout cx = cx\<lparr>rpc_timeout_global := timeout\<rparr>"

text \<open>The choice of the timeout of a call; the one-shot value is used up.\<close>

definition pick_timeout :: "nat \<Rightarrow> srpc_ctx \<Rightarrow> u64 \<times> srpc_ctx" where
  "pick_timeout fidx cx =
     (let (timeout, cx1) =
        (if rpc_timeout_oneshot cx > 0 then (rpc_timeout_oneshot cx, cx\<lparr>rpc_timeout_oneshot := 0\<rparr>)
         else if rpc_timeout cx ! fidx > 0 then (rpc_timeout cx ! fidx, cx)
         else (rpc_timeout_global cx, cx))
      in (if timeout < LIBSRPC_TIMEOUT_MINIMUM then LIBSRPC_TIMEOUT_MINIMUM else timeout, cx1))"

text \<open>\<^verbatim>\<open>libsrpc_sem_time_calc\<close>: the deadline from the current time (seconds, nanoseconds) and a
  timeout in microseconds; \<open>None\<close> is the result \<^verbatim>\<open>-EINVAL\<close>.\<close>

definition libsrpc_sem_time_calc :: "int \<times> int \<Rightarrow> u64 \<Rightarrow> (int \<times> int) option" where
  "libsrpc_sem_time_calc now timeout_us =
     (if timeout_us = 0 then None
      else let sec = fst now + uint (timeout_us div 1000000);
               nsec = snd now + uint ((timeout_us mod 1000000) * 1000)
           in Some (if nsec \<ge> 1000000000 then (sec + 1, nsec - 1000000000) else (sec, nsec)))"

section \<open>The last request of the thread\<close>

definition libsrpc_lastreq_num :: "srpc_ctx \<Rightarrow> shmem \<Rightarrow> int" where
  "libsrpc_lastreq_num cx sm =
     (let req = current_req cx in
      if libsrpc_req_is_corrupted req None sm then 0 else sint (retnum (sm_reqs sm req)))"

definition ALIGNLONG :: "u64 \<Rightarrow> u64" where "ALIGNLONG x = (x + 7) AND NOT 7"

definition libsrpc_lastreq_get :: "int \<Rightarrow> u64 \<Rightarrow> srpc_ctx \<Rightarrow> shmem \<Rightarrow> int \<times> u8 list option" where
  "libsrpc_lastreq_get idx sz cx sm =
     (let req = current_req cx; r = sm_reqs sm req in
      if idx < 0 then (- EINVAL, None)
      else if libsrpc_req_is_corrupted req None sm \<or> idx \<ge> uint (retnum r) then (- ENOTAVAILABLE, None)
      else case libsrpc_req_get_response_fast req (of_int idx) sm of
          None \<Rightarrow> (- ENOTAVAILABLE, None)
        | Some off \<Rightarrow>
            let rc = resp_rc (get_resp sm req off) in
            if rc_st rc = RC_ST_ERROR then (if rc_code rc < 0 then rc_code rc else - ENOTAVAILABLE, None)
            else if rc_st rc \<noteq> RC_ST_READY then (- ENOTAVAILABLE, None)
            else if ALIGNLONG (sz + RESP_SZ) \<noteq> ucast (retsz r) then (- EBADMSG, None)
            else (rc_code rc, if sz > 0 then Some (take (unat sz) (resp_buf (get_resp sm req off))) else None))"

section \<open>Locks against the garbage collector\<close>

definition set_gc_lock :: "u64 \<Rightarrow> u16 list \<Rightarrow> shmem \<Rightarrow> shmem" where
  "set_gc_lock req gc_lock = put_req req (\<lambda>r. r\<lparr>gc_lock_uid := gc_lock\<rparr>)"

text \<open>The index of the first zero entry (of the four locks, of a table of process pointers).\<close>

fun first_empty :: "nat \<Rightarrow> ('a :: zero) list \<Rightarrow> nat option" where
  "first_empty i [] = None"
| "first_empty i (u # us) = (if u = 0 then Some i else first_empty (Suc i) us)"

definition libsrpc_shmem_proc_lock :: "int \<Rightarrow> u64 \<Rightarrow> srpc_ctx \<Rightarrow> shmem \<Rightarrow> (int \<times> shmem) option" where
  "libsrpc_shmem_proc_lock idx ptr cx sm =
     (let req = current_req cx; r = sm_reqs sm req in
      if idx < 0 then Some (- EINVAL, sm)
      else if \<not> libsrpc_shmem_get cx then Some (- ESHMNOINIT, sm)
      else if libsrpc_req_is_corrupted req None sm \<or> idx \<ge> uint (retnum r) then Some (- EINVALREQUEST, sm)
      else case libsrpc_req_get_response_fast req (of_int idx) sm of
          None \<Rightarrow> Some (- EINVALRESPONSE, sm)
        | Some off \<Rightarrow>
            let resp = get_resp sm req off; proc = hp_proc resp in
            if proc = 0 then Some (- ENOTAVAILABLE, sm)
            else
              let uid = proc_uid (sm_procs sm proc) in
              if uid \<noteq> resp_uid resp \<or> \<not> libsrpc_proc_is_valid sm proc then Some (- EPROCDESTROYED, sm)
              else case first_empty 0 (gc_lock_uid r) of
                  None \<Rightarrow> Some (- ENOMEM, sm)
                | Some i \<Rightarrow>
                    let sm1 = set_gc_lock req ((gc_lock_uid r)[i := uid]) sm in
                    if \<not> libsrpc_proc_is_valid sm1 proc \<or> proc_uid (sm_procs sm1 proc) \<noteq> uid
                    then Some (- EPROCDESTROYED, set_gc_lock req ((gc_lock_uid r)[i := 0]) sm1)
                    else case on_pool (tlsf_check_uid (cx_caller cx) (sm_poolptr sm1) ptr uid) sm1 of
                        None \<Rightarrow> None
                      | Some (rc, sm2) \<Rightarrow>
                          if rc \<noteq> 1 then Some (- ENOTFOUND, set_gc_lock req ((gc_lock_uid r)[i := 0]) sm2)
                          else Some (int i, sm2))"

definition libsrpc_shmem_proc_unlock :: "int \<Rightarrow> srpc_ctx \<Rightarrow> shmem \<Rightarrow> int \<times> shmem" where
  "libsrpc_shmem_proc_unlock slot cx sm =
     (let req = current_req cx in
      if slot < 0 \<or> slot \<ge> 4 then (- EINVAL, sm)
      else if libsrpc_req_is_corrupted req None sm then (- ENOTAVAILABLE, sm)
      else (0, set_gc_lock req ((gc_lock_uid (sm_reqs sm req))[nat slot := 0]) sm))"

definition libsrpc_shmem_proc_all_unlock :: "srpc_ctx \<Rightarrow> shmem \<Rightarrow> int \<times> shmem" where
  "libsrpc_shmem_proc_all_unlock cx sm =
     (let req = current_req cx in
      if libsrpc_req_is_corrupted req None sm then (- ENOTAVAILABLE, sm)
      else (0, set_gc_lock req [0, 0, 0, 0] sm))"

definition libsrpc_shmem_check_uid_lock :: "u64 \<Rightarrow> int \<Rightarrow> shmem \<Rightarrow> int" where
  "libsrpc_shmem_check_uid_lock req uid sm =
     (if uid \<le> 0 \<or> uid \<ge> 0x10000 then - EINVAL
      else if libsrpc_req_is_corrupted req None sm then - ENOTAVAILABLE
      else if of_int uid \<in> set (gc_lock_uid (sm_reqs sm req)) then 1 else 0)"

text \<open>The walks over the processes and their requests; \<open>None\<close>: the walk does not end.\<close>

definition libsrpc_shmem_is_locked_uid_proc :: "u64 \<Rightarrow> u16 \<Rightarrow> shmem \<Rightarrow> bool option" where
  "libsrpc_shmem_is_locked_uid_proc proc uid sm =
     map_option (\<lambda>reqs. \<exists>req \<in> set reqs. libsrpc_shmem_check_uid_lock req (uint uid) sm = 1)
       (list_foreach (sm_lists sm) (req_head_of proc))"

fun any_proc :: "(u64 \<Rightarrow> bool option) \<Rightarrow> shmem \<Rightarrow> u64 list \<Rightarrow> bool option" where
  "any_proc f sm [] = Some False"
| "any_proc f sm (p # ps) =
     (if \<not> libsrpc_proc_is_valid sm p then any_proc f sm ps
      else case f p of None \<Rightarrow> None | Some b \<Rightarrow> if b then Some True else any_proc f sm ps)"

definition libsrpc_shmem_is_locked_uid :: "u16 \<Rightarrow> srpc_ctx \<Rightarrow> shmem \<Rightarrow> bool option" where
  "libsrpc_shmem_is_locked_uid uid cx sm =
     (if \<not> libsrpc_shmem_get cx then Some False
      else Option.bind (list_foreach (sm_lists sm) (sm_proc_head sm))
        (any_proc (\<lambda>p. libsrpc_shmem_is_locked_uid_proc p uid sm) sm))"

section \<open>The packed return code\<close>

lemma rc_st_make: "st < 4 \<Longrightarrow> rc_st (rc_make st code) = st"
proof -
  assume "st < 4"
  then have "unat (take_bit 2 st) = unat st"
    by (simp add: unsigned_take_bit_eq take_bit_nat_eq_self word_less_nat_alt)
  then have "take_bit 2 st = st" by (rule unsigned_word_eqI)
  then have b: "bit st n \<longleftrightarrow> n < 2 \<and> bit st n" for n by (metis bit_take_bit_iff)
  show ?thesis
    unfolding rc_st_def rc_make_def
    by (rule bit_word_eqI) (use b in \<open>auto simp: bit_simps\<close>)
qed

lemma rc_code_make:
  assumes "- (2 ^ 29) \<le> code" "code < 2 ^ 29" shows "rc_code (rc_make st code) = code"
proof -
  have "take_bit 30 (uint (rc_make st code)) = take_bit 30 code"
    by (rule bit_eqI) (auto simp: rc_make_def bit_simps)
  then have "signed_take_bit 29 (uint (rc_make st code)) = signed_take_bit 29 code"
    by (simp add: signed_take_bit_eq_iff_take_bit_eq)
  also have "\<dots> = code" by (rule signed_take_bit_int_eq_self) (use assms in simp_all)
  finally show ?thesis by (simp add: rc_code_def)
qed

lemma rc_make_nonzero: "0 < st \<Longrightarrow> st < 4 \<Longrightarrow> rc_make st code \<noteq> 0"
  using rc_st_make [of st code] by (auto simp: rc_st_def)

lemma rc_consts [simp]:
  "rc_st (rc_make RC_ST_LOCK c) = RC_ST_LOCK" "rc_st (rc_make RC_ST_READY c) = RC_ST_READY" "rc_st (rc_make RC_ST_ERROR c) = RC_ST_ERROR"
  "rc_make RC_ST_LOCK c \<noteq> 0" "rc_make RC_ST_READY c \<noteq> 0" "rc_make RC_ST_ERROR c \<noteq> 0"
  "rc_st 0 = RC_ST_EMPTY"
  by (simp_all add: rc_st_make rc_make_nonzero rc_states) (simp add: rc_st_def)

lemma rc_distinct [simp]:
  "RC_ST_LOCK \<noteq> RC_ST_ERROR" "RC_ST_LOCK \<noteq> RC_ST_READY" "RC_ST_READY \<noteq> RC_ST_ERROR" "RC_ST_ERROR \<noteq> RC_ST_READY"
  "RC_ST_READY \<noteq> RC_ST_LOCK" "RC_ST_ERROR \<noteq> RC_ST_LOCK" "RC_ST_EMPTY \<noteq> RC_ST_LOCK" "RC_ST_EMPTY \<noteq> RC_ST_READY" "RC_ST_EMPTY \<noteq> RC_ST_ERROR"
  by (simp_all add: rc_states)

section \<open>The life of a response slot\<close>

text \<open>A slot that was sent out is touched by workers that answer (the lock, then the publication
  of \<open>libsrpc_req_response_set\<close>), by the caller that gives up and by the shutdown of the
  receiving process. \<open>busy\<close> is the worker that holds the slot, \<open>answers\<close> the publications so far.\<close>

record slot_run =
  slot :: libsrpc_response
  busy :: "(nat \<times> u8 list option) option"
  answers :: "(nat \<times> u8 list option) list"

inductive slot_step :: "slot_run \<Rightarrow> slot_run \<Rightarrow> bool" where
  answer_lock: "resp_try (rc_make RC_ST_LOCK 0) (slot s) = Some r \<Longrightarrow> slot_step s (s\<lparr>slot := r, busy := Some (w, v)\<rparr>)"
| answer_publish: "busy s = Some (w, v) \<Longrightarrow>
    slot_step s (s\<lparr>slot := (resp_write v (slot s))\<lparr>resp_rc := rc_make RC_ST_READY 0\<rparr>, busy := None, answers := answers s @ [(w, v)]\<rparr>)"
| give_up: "resp_try (rc_make RC_ST_ERROR (- ERPCWAITIMEDOUT)) (slot s) = Some r \<Longrightarrow> slot_step s (s\<lparr>slot := r\<rparr>)"
| cancel: "resp_try (rc_make RC_ST_ERROR (- ECANCELLED)) (slot s) = Some r \<Longrightarrow> slot_step s (s\<lparr>slot := r\<rparr>)"

inductive_cases slot_stepE: "slot_step s s'"

text \<open>The published value is in the buffer.\<close>

definition holds_value :: "u8 list option \<Rightarrow> libsrpc_response \<Rightarrow> bool" where
  "holds_value v r \<longleftrightarrow> (case v of None \<Rightarrow> True | Some bs \<Rightarrow> take (length bs) (resp_buf r) = bs)"

definition slot_ok :: "slot_run \<Rightarrow> bool" where
  "slot_ok s \<longleftrightarrow>
     (case busy s of
        Some _ \<Rightarrow> rc_st (resp_rc (slot s)) = RC_ST_LOCK \<and> answers s = []
      | None \<Rightarrow>
          (if rc_st (resp_rc (slot s)) = RC_ST_READY
           then resp_rc (slot s) = rc_make RC_ST_READY 0 \<and> (\<exists>w v. answers s = [(w, v)] \<and> holds_value v (slot s))
           else answers s = [] \<and> rc_st (resp_rc (slot s)) \<noteq> RC_ST_LOCK))"

lemma slot_step_ok: "slot_step s s' \<Longrightarrow> slot_ok s \<Longrightarrow> slot_ok s'"
  by (erule slot_stepE)
     (auto simp: slot_ok_def resp_try_def resp_write_def holds_value_def split: option.splits if_splits)

lemma slot_reach_ok: "slot_step\<^sup>*\<^sup>* s s' \<Longrightarrow> slot_ok s \<Longrightarrow> slot_ok s'"
  by (induction rule: rtranclp_induct) (auto intro: slot_step_ok)

text \<open>An answered or failed slot does not change any more.\<close>

lemma slot_final:
  assumes "slot_step s s'" "slot_ok s" "rc_st (resp_rc (slot s)) = RC_ST_READY \<or> rc_st (resp_rc (slot s)) = RC_ST_ERROR"
  shows False
  using assms by (cases rule: slot_stepE) (auto simp: slot_ok_def resp_try_def split: option.splits if_splits)

section \<open>Slots lie in the buffer and apart\<close>

lemma req_size_nat: "unat (req_size r) = 96 + unat (retoff r) + unat (retsz r) * unat (retnum r)"
proof -
  have b: "unat (w :: u32) \<le> 2 ^ 32 - 1" for w using unsigned_less [of w, where 'a = nat] by simp
  have "unat (retsz r) * unat (retnum r) \<le> (2 ^ 32 - 1) * (2 ^ 32 - 1)" by (intro mult_le_mono b)
  then have m: "unat (retsz r) * unat (retnum r) \<le> 18446744065119617025" by simp
  then have u: "unat (ucast (retsz r) * ucast (retnum r) :: u64) = unat (retsz r) * unat (retnum r)"
    by (simp add: unat_word_ariths)
  have o: "unat (REQ_SZ + ucast (retoff r) :: u64) = 96 + unat (retoff r)"
    using b [of "retoff r"] by (subst unat_add_nowrap) (simp_all add: REQ_SZ_def)
  then show ?thesis unfolding req_size_def using m u b [of "retoff r"]
    by (subst unat_add_nowrap) simp_all
qed

lemma slot_offset_nat:
  assumes "\<not> ucast (bufsz r) < req_size r" "idx < retnum r"
  shows "unat (slot_offset r idx) = unat (retoff r) + unat (retsz r) * unat idx"
    "unat (slot_offset r idx) + unat (retsz r) + 96 \<le> unat (bufsz r)"
proof -
  have s: "96 + unat (retoff r) + unat (retsz r) * unat (retnum r) \<le> unat (bufsz r)"
    using assms(1) by (simp add: word_less_nat_alt req_size_nat)
  have i: "unat idx + 1 \<le> unat (retnum r)" using assms(2) by (simp add: word_less_nat_alt)
  have "unat (retsz r) * (unat idx + 1) \<le> unat (retsz r) * unat (retnum r)" by (intro mult_le_mono2 i)
  then have t: "unat (retsz r) * unat idx + unat (retsz r) \<le> unat (retsz r) * unat (retnum r)" by simp
  have bz: "unat (bufsz r) < 2 ^ 32" using unsigned_less [of "bufsz r", where 'a = nat] by simp
  have "unat (retsz r * idx) = unat (retsz r) * unat idx" using s t bz by (simp add: unat_word_ariths)
  then show e: "unat (slot_offset r idx) = unat (retoff r) + unat (retsz r) * unat idx"
    unfolding slot_offset_def using s t bz by (simp add: unat_word_ariths)
  show "unat (slot_offset r idx) + unat (retsz r) + 96 \<le> unat (bufsz r)" unfolding e using s t by linarith
qed

section \<open>Locks and what the collector sees\<close>

lemma first_empty_Some: "first_empty i us = Some j \<Longrightarrow> i \<le> j \<and> j - i < length us \<and> us ! (j - i) = 0"
proof (induction us arbitrary: i)
  case (Cons u us)
  show ?case
  proof (cases "u = 0")
    case True
    then show ?thesis using Cons.prems by simp
  next
    case False
    with Cons.prems have f: "first_empty (Suc i) us = Some j" by simp
    from Cons.IH [OF this] show ?thesis by (auto simp: Suc_diff_Suc [symmetric] Suc_le_eq)
  qed
qed simp

lemma put_req_sel [simp]:
  "sm_reqs (put_req a f sm) = (sm_reqs sm)(a := f (sm_reqs sm a))" "sm_procs (put_req a f sm) = sm_procs sm"
  "sm_lists (put_req a f sm) = sm_lists sm" "sm_pool (put_req a f sm) = sm_pool sm" "sm_poolptr (put_req a f sm) = sm_poolptr sm"
  "sm_proc_head (put_req a f sm) = sm_proc_head sm" "sm_funcs (put_req a f sm) = sm_funcs sm"
  by (simp_all add: put_req_def)

lemma put_proc_sel [simp]:
  "sm_procs (put_proc a g sm) = (sm_procs sm)(a := g (sm_procs sm a))" "sm_reqs (put_proc a g sm) = sm_reqs sm"
  "sm_lists (put_proc a g sm) = sm_lists sm" "sm_pool (put_proc a g sm) = sm_pool sm" "sm_poolptr (put_proc a g sm) = sm_poolptr sm"
  "sm_proc_head (put_proc a g sm) = sm_proc_head sm" "sm_funcs (put_proc a g sm) = sm_funcs sm"
  by (simp_all add: put_proc_def)

lemma valid_put_req [simp]: "libsrpc_proc_is_valid (put_req a f sm) p = libsrpc_proc_is_valid sm p"
  by (simp add: libsrpc_proc_is_valid_def)

lemma corrupted_lock [simp]: "libsrpc_req_is_corrupted req ctrl (set_gc_lock a l sm) = libsrpc_req_is_corrupted req ctrl sm"
  by (auto simp: libsrpc_req_is_corrupted_def set_gc_lock_def req_corrupted_def req_control_def req_size_def split: option.splits)

lemma corrupted_pool [simp]: "libsrpc_req_is_corrupted req ctrl (sm\<lparr>sm_pool := c\<rparr>) = libsrpc_req_is_corrupted req ctrl sm"
  by (simp add: libsrpc_req_is_corrupted_def)

lemma check_uid_zero: "tlsf_check_uid w tlsf ptr 0 c = Some (rc, c') \<Longrightarrow> rc \<noteq> 1"
  by (auto simp: tlsf_check_uid_def split: if_splits)

text \<open>A successful lock has put the UID of the responding process into an entry that was empty; a
  failed one leaves the entries as they were.\<close>

lemma proc_lock_cases:
  assumes "libsrpc_shmem_proc_lock idx ptr cx sm = Some (rc, sm')"
  obtains (fail) "rc < 0" "gc_lock_uid (sm_reqs sm' (current_req cx)) = gc_lock_uid (sm_reqs sm (current_req cx))"
  | (success) i off uid c where "rc = int i" "i < length (gc_lock_uid (sm_reqs sm (current_req cx)))"
      "gc_lock_uid (sm_reqs sm (current_req cx)) ! i = 0"
      "libsrpc_req_get_response_fast (current_req cx) (of_int idx) sm = Some off"
      "uid = resp_uid (get_resp sm (current_req cx) off)" "uid \<noteq> 0"
      "\<not> libsrpc_req_is_corrupted (current_req cx) None sm"
      "sm' = (set_gc_lock (current_req cx) ((gc_lock_uid (sm_reqs sm (current_req cx)))[i := uid]) sm)\<lparr>sm_pool := c\<rparr>"
proof -
  let ?r = "current_req cx" and ?l = "gc_lock_uid (sm_reqs sm (current_req cx))"
  show thesis
  proof (cases "rc < 0")
    case True
    have "gc_lock_uid (sm_reqs sm' ?r) = ?l"
      using assms True unfolding libsrpc_shmem_proc_lock_def
      by (auto simp: Let_def set_gc_lock_def on_pool_def list_update_same_conv dest!: first_empty_Some split: if_splits option.splits)
    with True show ?thesis by (rule fail)
  next
    case False
    then obtain off i c where *: "\<not> libsrpc_req_is_corrupted ?r None sm"
      "libsrpc_req_get_response_fast ?r (of_int idx) sm = Some off" "first_empty 0 ?l = Some i" "rc = int i"
      "sm' = (set_gc_lock ?r (?l[i := resp_uid (get_resp sm ?r off)]) sm)\<lparr>sm_pool := c\<rparr>"
      "tlsf_check_uid (cx_caller cx) (sm_poolptr sm) ptr (resp_uid (get_resp sm ?r off)) (sm_pool sm) = Some (1, c)"
      using assms unfolding libsrpc_shmem_proc_lock_def
      by (auto simp: Let_def set_gc_lock_def on_pool_def srpc_codes split: if_splits option.splits)
    have "resp_uid (get_resp sm ?r off) \<noteq> 0" using *(6) check_uid_zero by metis
    with first_empty_Some [OF *(3)] * show ?thesis by (intro success [of i off "resp_uid (get_resp sm ?r off)" c]) simp_all
  qed
qed

lemma any_proc_True:
  assumes "p \<in> set ps" "libsrpc_proc_is_valid sm p" "f p = Some True" "\<And>q. q \<in> set ps \<Longrightarrow> f q \<noteq> None"
  shows "any_proc f sm ps = Some True"
  using assms
proof (induction ps)
  case (Cons q ps)
  show ?case
  proof (cases "q = p")
    case True
    then show ?thesis using Cons.prems by simp
  next
    case False
    then have "any_proc f sm ps = Some True" using Cons by simp
    moreover obtain b where "f q = Some b" using Cons.prems(4) [of q] by auto
    ultimately show ?thesis by (cases b) auto
  qed
qed simp

section \<open>Properties\<close>



text \<open>C25: A slot that \<^verbatim>\<open>libsrpc_req_get_response_fast\<close> returns lies inside the request's buffer, and
  slots of different indices do not overlap; no 32-bit offset computation wraps.\<close>

theorem response_slots_in_bounds:
  assumes "libsrpc_req_get_response_fast req i sm = Some a" "libsrpc_req_get_response_fast req j sm = Some b" "i < j"
  shows "unat REQ_BUF_OFF + unat b + unat (retsz (sm_reqs sm req)) \<le> unat (bufsz (sm_reqs sm req)) \<and>
    unat a + unat (retsz (sm_reqs sm req)) \<le> unat b"
proof -
  let ?r = "sm_reqs sm req"
  have ok: "\<not> ucast (bufsz ?r) < req_size ?r" "i < retnum ?r" "j < retnum ?r" "a = slot_offset ?r i" "b = slot_offset ?r j"
    using assms(1,2) by (auto simp: libsrpc_req_get_response_fast_def Let_def split: if_splits)
  have "unat (retsz ?r) * (unat i + 1) \<le> unat (retsz ?r) * unat j"
    using assms(3) by (intro mult_le_mono2) (simp add: word_less_nat_alt)
  then show ?thesis
    using slot_offset_nat(1) [OF ok(1,2)] slot_offset_nat [OF ok(1,3)] ok(4,5) by (simp add: REQ_BUF_OFF_def)
qed

definition some_proc :: libsrpc_proc where
  "some_proc = \<lparr>proc_sign = 0, proc_status = 0, proc_uid = 0, proc_pid = 0, threads_run = 0, threads_wait = 0,
     proc_sem = Some 0, proc_queue = \<lparr>q_head = 0, q_tail = 0, q_buffer = \<lambda>_. \<lparr>slot_seq = 0, slot_data = 0\<rparr>, q_mask = 0\<rparr>,
     threads_num = 0, threads_hp = []\<rparr>"

definition some_req :: libsrpc_request where
  "some_req = \<lparr>req_sem = Some 0, hp_regfn = 0, req_sign = LIBSRPC_REQ_SIGN, seq_num = 0, gc_lock_uid = [0, 0, 0, 0],
     funid = 17, bufsz = 200, retoff = 8, retsz = 24, retnum = 2, req_args = [],
     slots = \<lambda>_. \<lparr>hp_proc = 0, resp_rc = 0, resp_uid = 0, resp_buf = []\<rparr>\<rparr>"

definition some_shm :: shmem where
  "some_shm = \<lparr>sm_pool = some_ctrl, sm_poolptr = 4096, sm_funcs = [], sm_send_rr = [], sm_lists = empty_store, sm_proc_head = 512,
     sm_procs = \<lambda>_. some_proc, sm_reqs = \<lambda>_. some_req, sm_gc_head = 528, sm_gc_sem = Some 0\<rparr>"

lemma response_slots_in_bounds_witness:
  "libsrpc_req_get_response_fast 64 0 some_shm = Some 8 \<and> libsrpc_req_get_response_fast 64 1 some_shm = Some 32 \<and>
   unat (8 :: u32) + unat (retsz (sm_reqs some_shm 64)) \<le> unat (32 :: u32)"
proof -
  have "(1 :: u32) < 2" by (simp add: word_less_nat_alt)
  then have g: "libsrpc_req_get_response_fast 64 0 some_shm = Some 8" "libsrpc_req_get_response_fast 64 1 some_shm = Some 32"
    by (simp_all add: not_le libsrpc_req_get_response_fast_def some_shm_def some_req_def req_size_def REQ_SZ_def slot_offset_def)
  with response_slots_in_bounds [OF g] show ?thesis by simp
qed

text \<open>Every response slot is misaligned. The buffer starts at byte 92 of the structure while offsets
  and sizes are rounded to 8, so the atomic \<^verbatim>\<open>hp_proc\<close> of each slot of an aligned request is at an
  address that is 4 modulo 8.\<close>

lemma response_slots_misaligned:
  assumes "libsrpc_req_get_response_fast req i sm = Some a" "unat req mod 8 = 0"
    "unat (retoff (sm_reqs sm req)) mod 8 = 0" "unat (retsz (sm_reqs sm req)) mod 8 = 0"
  shows "unat (req + REQ_BUF_OFF + ucast a) mod 8 = 4"
proof -
  let ?r = "sm_reqs sm req"
  have ok: "\<not> ucast (bufsz ?r) < req_size ?r" "i < retnum ?r" "a = slot_offset ?r i"
    using assms(1) by (auto simp: libsrpc_req_get_response_fast_def Let_def split: if_splits)
  have a8: "unat a mod 8 = 0"
    using assms(3,4) slot_offset_nat(1) [OF ok(1,2)] ok(3) by (auto simp: mod_eq_0_iff_dvd)
  have m8: "unat (x + y :: u64) mod 8 = (unat x + unat y) mod 8" for x y
    by (simp add: unat_word_ariths mod_mod_cancel)
  have "unat (req + REQ_BUF_OFF) mod 8 = (unat req mod 8 + 92) mod 8"
    unfolding m8 by (simp add: REQ_BUF_OFF_def mod_simps)
  then have "unat (req + REQ_BUF_OFF) mod 8 = 4" using assms(2) by simp
  moreover have "unat (req + REQ_BUF_OFF + ucast a) mod 8 = (unat (req + REQ_BUF_OFF) mod 8 + unat a mod 8) mod 8"
    unfolding m8 [of "req + REQ_BUF_OFF"] by (simp add: mod_simps)
  ultimately show ?thesis using a8 by simp
qed

lemma response_slots_misaligned_witness:
  "libsrpc_req_get_response_fast 64 0 some_shm = Some 8 \<and> unat (64 + REQ_BUF_OFF + ucast (8 :: u32) :: u64) mod 8 = 4"
proof -
  have g: "libsrpc_req_get_response_fast 64 0 some_shm = Some 8"
    by (simp add: libsrpc_req_get_response_fast_def some_shm_def some_req_def req_size_def REQ_SZ_def slot_offset_def)
  have "unat (64 + REQ_BUF_OFF + ucast (8 :: u32) :: u64) mod 8 = 4"
    by (rule response_slots_misaligned [OF g]) (simp_all add: some_shm_def some_req_def)
  with g show ?thesis by simp
qed

text \<open>The 30-bit code and the 2-bit status of a return code are read back as they were stored, for
  every code of magnitude below \<open>2 ^ 29\<close> (so for all error codes), and no code with a status is
  the empty word that marks an unanswered slot.\<close>

lemma rc_pack_roundtrip:
  assumes "st < 4" "- (2 ^ 29) \<le> code" "code < 2 ^ 29"
  shows "rc_st (rc_make st code) = st \<and> rc_code (rc_make st code) = code \<and> (st \<noteq> 0 \<longrightarrow> rc_make st code \<noteq> 0)"
  using assms rc_make_nonzero [of st code] by (auto simp: rc_st_make rc_code_make word_gt_0)

lemma rc_pack_roundtrip_witness:
  "rc_st (rc_make RC_ST_ERROR (- ERPCWAITIMEDOUT)) = RC_ST_ERROR \<and> rc_code (rc_make RC_ST_ERROR (- ERPCWAITIMEDOUT)) = - ERPCWAITIMEDOUT"
  using rc_pack_roundtrip [of RC_ST_ERROR "- ERPCWAITIMEDOUT"] by (simp add: rc_states srpc_codes)

text \<open>C26: The memory lock works against the collector: when \<^verbatim>\<open>libsrpc_shmem_proc_lock\<close> returns an entry,
  \<^verbatim>\<open>libsrpc_shmem_is_locked_uid\<close>, which the collector asks, reports the responding process as locked
  (the caller being a running process on the list whose request is on its list), until
  \<^verbatim>\<open>libsrpc_shmem_proc_unlock\<close> of that entry clears it; a failed lock leaves no entry behind.\<close>

theorem proc_lock_seen_by_collector:
  assumes "libsrpc_shmem_proc_lock idx ptr cx sm = Some (rc, sm')" "libsrpc_shmem_get cx" "length (gc_lock_uid (sm_reqs sm (current_req cx))) = 4"
    and "list_ok (sm_lists sm) (sm_proc_head sm) ps" "mine \<in> set ps" "libsrpc_proc_is_valid sm mine"
    and "\<And>p. p \<in> set ps \<Longrightarrow> \<exists>rs. list_ok (sm_lists sm) (req_head_of p) rs \<and> (p = mine \<longrightarrow> current_req cx \<in> set rs)"
  shows "if rc < 0 then gc_lock_uid (sm_reqs sm' (current_req cx)) = gc_lock_uid (sm_reqs sm (current_req cx))
    else \<exists>off uid. libsrpc_req_get_response_fast (current_req cx) (of_int idx) sm = Some off \<and>
      uid = resp_uid (get_resp sm (current_req cx) off) \<and>
      libsrpc_shmem_is_locked_uid uid cx sm' = Some True \<and>
      gc_lock_uid (sm_reqs (snd (libsrpc_shmem_proc_unlock rc cx sm')) (current_req cx)) ! nat rc = 0"
  using assms(1)
proof (cases rule: proc_lock_cases)
  case fail
  then show ?thesis by simp
next
  case (success i off uid c)
  let ?r = "current_req cx"
  have nc: "\<not> libsrpc_req_is_corrupted ?r None sm'" using success(7,8) by simp
  have at: "gc_lock_uid (sm_reqs sm' ?r) = (gc_lock_uid (sm_reqs sm ?r))[i := uid]"
    using success(8) by (simp add: set_gc_lock_def)
  have u: "of_int (uint uid) = uid" "0 < uint uid" "uint uid < 65536"
    using success(6) uint_lt2p [of uid] by (simp_all add: word_neq_0_conv word_less_def)
  have chk: "libsrpc_shmem_check_uid_lock ?r (uint uid) sm' = 1"
    using nc u at success(2) by (simp add: libsrpc_shmem_check_uid_lock_def set_update_memI)
  have same: "sm_lists sm' = sm_lists sm" "sm_proc_head sm' = sm_proc_head sm" "libsrpc_proc_is_valid sm' p = libsrpc_proc_is_valid sm p" for p
    using success(8) by (simp_all add: set_gc_lock_def libsrpc_proc_is_valid_def)
  obtain rs where rs: "list_ok (sm_lists sm) (req_head_of mine) rs" "?r \<in> set rs" using assms(5,7) by blast
  have "any_proc (\<lambda>p. libsrpc_shmem_is_locked_uid_proc p uid sm') sm' ps = Some True"
  proof (rule any_proc_True [OF assms(5)])
    show "libsrpc_proc_is_valid sm' mine" using assms(6) same(3) by simp
    show "libsrpc_shmem_is_locked_uid_proc mine uid sm' = Some True"
      using spin.foreach_members [OF rs(1)] rs(2) chk same(1) by (auto simp: libsrpc_shmem_is_locked_uid_proc_def)
    show "libsrpc_shmem_is_locked_uid_proc q uid sm' \<noteq> None" if "q \<in> set ps" for q
      using assms(7) [OF that] spin.foreach_members same(1) by (auto simp: libsrpc_shmem_is_locked_uid_proc_def)
  qed
  then have "libsrpc_shmem_is_locked_uid uid cx sm' = Some True"
    using assms(2) spin.foreach_members [OF assms(4)] same by (simp add: libsrpc_shmem_is_locked_uid_def)
  moreover have "gc_lock_uid (sm_reqs (snd (libsrpc_shmem_proc_unlock rc cx sm')) ?r) ! nat rc = 0"
    using success(1,2) assms(3) nc at by (auto simp: libsrpc_shmem_proc_unlock_def Let_def set_gc_lock_def)
  ultimately show ?thesis using success(1,4,5) by auto
qed

text \<open>A process (at 1024) whose request (at 64) was answered by a process with UID 5 (at 2048), which
  owns the one block of the pool.\<close>

definition some_cx :: srpc_ctx where
  "some_cx = \<lparr>cx_caller = me, cx_data = True, cx_shm = True, cx_uid = 2, cx_proc = 1024, rpc_enable = True,
     rpc_timeout_global = LIBSRPC_TIMEOUT_DEFAULT, srpc_disable_rpc_recursion = False, current_req = 64,
     rpc_timeout_oneshot = 0, rpc_timeout = [0, 0, 0, 0, 0], req_seq_num = 0, srpc_thread_stop_flag = False, cx_tls = \<lparr>srpc_errno = 0\<rparr>\<rparr>"

definition run_proc :: "u16 \<Rightarrow> libsrpc_proc" where
  "run_proc uid = some_proc\<lparr>proc_sign := LIBSRPC_PROC_SIGN, proc_status := LIBSRPC_PROC_STATUS_RUN, proc_uid := uid, threads_run := 1\<rparr>"

definition two_lists :: list_store where
  "two_lists = snd (libsrpc_list_push_front 1096 64 (snd (libsrpc_list_push_front 512 1024 empty_store)))"

lemma two_lists_ok: "list_ok two_lists 512 [1024]" "list_ok two_lists 1096 [64]"
proof -
  obtain s1 where s1: "libsrpc_list_push_front 512 1024 empty_store = (LIBSRPC_LIST_OK, s1)" "list_ok s1 512 [1024]"
    "list_ok s1 1096 []" "node_head (node_at s1 64) = 0"
    by (rule push_front_ok [OF empty_store_ok(1) [of 512], of 1024])
       (use empty_store_ok(1) [of 1096] in \<open>auto simp: empty_store_def\<close>)
  obtain s2 where "libsrpc_list_push_front 1096 64 s1 = (LIBSRPC_LIST_OK, s2)" "list_ok s2 1096 [64]" "list_ok s2 512 [1024]"
    by (rule push_front_ok [OF s1(3), of 64]) (use s1(2,4) in auto)
  with s1(1) show "list_ok two_lists 512 [1024]" "list_ok two_lists 1096 [64]" by (simp_all add: two_lists_def)
qed

definition lock_shm :: shmem where
  "lock_shm = some_shm\<lparr>sm_pool := snd pool_one, sm_lists := two_lists,
     sm_procs := (\<lambda>_. some_proc)(1024 := run_proc 2, 2048 := run_proc 5),
     sm_reqs := (\<lambda>_. some_req)(64 := some_req\<lparr>slots := \<lambda>_. \<lparr>hp_proc = 2048, resp_rc = rc_make RC_ST_READY 0, resp_uid = 5, resp_buf = []\<rparr>\<rparr>)\<rparr>"

lemma proc_lock_seen_by_collector_witness:
  "\<exists>sm'. libsrpc_shmem_proc_lock 0 (fst pool_one) some_cx lock_shm = Some (0, sm') \<and>
     libsrpc_shmem_is_locked_uid 5 some_cx sm' = Some True"
proof -
  have cx: "libsrpc_shmem_get some_cx" "current_req some_cx = 64" "cx_caller some_cx = me"
    by (simp_all add: some_cx_def libsrpc_shmem_get_def)
  have v: "libsrpc_proc_is_valid lock_shm 1024" "libsrpc_proc_is_valid lock_shm 2048" "proc_uid (sm_procs lock_shm 2048) = 5"
    by (simp_all add: lock_shm_def libsrpc_proc_is_valid_def run_proc_def)
  have g: "libsrpc_req_get_response_fast 64 0 lock_shm = Some 8" "\<not> libsrpc_req_is_corrupted 64 None lock_shm"
    by (simp_all add: libsrpc_req_get_response_fast_def libsrpc_req_is_corrupted_def req_corrupted_def lock_shm_def
      some_req_def req_size_def REQ_SZ_def slot_offset_def)
  have r: "get_resp lock_shm 64 8 = \<lparr>hp_proc = 2048, resp_rc = rc_make RC_ST_READY 0, resp_uid = 5, resp_buf = []\<rparr>"
    "gc_lock_uid (sm_reqs lock_shm 64) = [0, 0, 0, 0]" "retnum (sm_reqs lock_shm 64) = 2" "sm_poolptr lock_shm = 4096"
    "sm_pool lock_shm = snd pool_one" "sm_lists lock_shm = two_lists" "sm_proc_head lock_shm = 512"
    by (simp_all add: get_resp_def lock_shm_def some_req_def some_shm_def)
  obtain bs where bs: "tlsf_inv (snd pool_one) bs" "alloc_effect (new_pool 8192) [10816] 64 5 3 (fst pool_one) (snd pool_one) bs"
    by (rule pool_one_state)
  then obtain k where k: "heap_abs (snd pool_one) bs (fst pool_one) = Some k" "5 \<in> set (bk_owners k)"
    by (auto simp: alloc_effect_def)
  obtain c where c: "tlsf_check_uid me 4096 (fst pool_one) 5 (snd pool_one) = Some (1, c)"
    using tlsf_check_uid_run [OF bs(1) k(1), of 4096 5 me] k(2) by auto
  obtain sm' where run: "libsrpc_shmem_proc_lock 0 (fst pool_one) some_cx lock_shm = Some (0, sm')"
    using cx v g r c by (simp add: libsrpc_shmem_proc_lock_def Let_def set_gc_lock_def on_pool_def)
  have "if (0 :: int) < 0 then gc_lock_uid (sm_reqs sm' (current_req some_cx)) = gc_lock_uid (sm_reqs lock_shm (current_req some_cx))
    else \<exists>off uid. libsrpc_req_get_response_fast (current_req some_cx) (of_int 0) lock_shm = Some off \<and>
      uid = resp_uid (get_resp lock_shm (current_req some_cx) off) \<and>
      libsrpc_shmem_is_locked_uid uid some_cx sm' = Some True \<and>
      gc_lock_uid (sm_reqs (snd (libsrpc_shmem_proc_unlock 0 some_cx sm')) (current_req some_cx)) ! nat 0 = 0"
    by (rule proc_lock_seen_by_collector [OF run cx(1), where ps = "[1024]" and mine = 1024])
       (use r cx v two_lists_ok in \<open>auto simp: req_head_of_def intro!: exI [of _ "[64]"]\<close>)
  then show ?thesis using run g(1) r(1) cx(2) by auto
qed

end
