(* ===== verification/Srpc_Registry.thy ===== *)
theory Srpc_Registry
  imports Srpc_Request
begin

text \<open>
  The registry of RPC functions (\<^verbatim>\<open>src/libsrpc.c\<close>, from \<^verbatim>\<open>libsrpc_fnreg_num_get\<close> to
  \<^verbatim>\<open>libsrpc_shmem_is_busy_regfn\<close>): for each function a counter, eight entries in the segment and an
  extension block in the pool. The registry is written by one thread of the daemon only, as its
  comment says, so a compare-and-swap right after the load it confirms is one step; the
  compare-and-swap of the extension pointer, which comes after an allocation, keeps its branch.

  An extension block is read from the pool word by word: the signature and \<^verbatim>\<open>szfn\<close> in the first
  word, \<^verbatim>\<open>size\<close> in the second, then the entries. It is not cleared when it is allocated.
\<close>

section \<open>Tables of process pointers\<close>

definition shm_word :: "shmem \<Rightarrow> u64 \<Rightarrow> u64" where "shm_word sm a = mem (sm_pool sm) a"

definition shm_poke :: "u64 \<Rightarrow> u64 \<Rightarrow> shmem \<Rightarrow> shmem" where
  "shm_poke a v sm = sm\<lparr>sm_pool := poke a v (sm_pool sm)\<rparr>"

definition ext_szfn :: "shmem \<Rightarrow> u64 \<Rightarrow> u32" where "ext_szfn sm eb = ucast (drop_bit 32 (shm_word sm eb))"
definition ext_size :: "shmem \<Rightarrow> u64 \<Rightarrow> u64" where "ext_size sm eb = shm_word sm (eb + 8)"
definition ext_slot :: "u64 \<Rightarrow> nat \<Rightarrow> u64" where "ext_slot eb i = eb + 16 + 8 * of_nat i"

definition ext_procs :: "shmem \<Rightarrow> u64 \<Rightarrow> u64 list" where
  "ext_procs sm eb = map (\<lambda>i. shm_word sm (ext_slot eb i)) [0..<unat (ext_szfn sm eb)]"

definition put_func :: "nat \<Rightarrow> (libsrpc_rpc_func \<Rightarrow> libsrpc_rpc_func) \<Rightarrow> shmem \<Rightarrow> shmem" where
  "put_func i f sm = sm\<lparr>sm_funcs := (sm_funcs sm)[i := f (sm_funcs sm ! i)]\<rparr>"

section \<open>Queries\<close>

definition libsrpc_fnreg_num_get :: "int \<Rightarrow> srpc_ctx \<Rightarrow> shmem \<Rightarrow> int" where
  "libsrpc_fnreg_num_get fid cx sm =
     (if \<not> libsrpc_shmem_get cx then - ESHMNOINIT
      else if fid \<ge> sRPCFNID_MAX \<or> fid \<le> sRPCFNID_START then - EINVAL
      else sint (num_all (sm_funcs sm ! nat (sRPC_ID2IDX fid))))"

text \<open>\<open>loc i\<close>: the program defines function \<open>i\<close> itself (its \<^verbatim>\<open>loc\<close> is not the stub). The bitmap has
  one word for the five functions.\<close>

definition libsrpc_bmp_func_set :: "(nat \<Rightarrow> bool) \<Rightarrow> u64 \<Rightarrow> u64" where
  "libsrpc_bmp_func_set loc bmp =
     fold (\<lambda>i b. if loc i then b OR push_bit (i mod 64) 1 else b) [0..<sRPC_FNNUM] bmp"

section \<open>Insertion\<close>

definition libsrpc_regfn_ext_block :: "nat \<Rightarrow> srpc_ctx \<Rightarrow> shmem \<Rightarrow> (int \<times> srpc_ctx \<times> shmem) option" where
  "libsrpc_regfn_ext_block i cx sm =
     (let old_eb = ext_block (sm_funcs sm ! i);
          szfn = (if old_eb \<noteq> 0 then LIBSRPC_RFEB_SZ + ext_szfn sm old_eb else LIBSRPC_RFEB_SZ);
          sz = (if old_eb \<noteq> 0 then ext_size sm old_eb + ucast szfn * 8 else 16 + ucast LIBSRPC_RFEB_SZ * 8)
      in case libsrpc_shmem_malloc_type sz LIBSRPC_SHMDT_REGFN cx sm of
           None \<Rightarrow> None
         | Some (eb, cx1, sm1) \<Rightarrow>
             if eb = 0 then Some (- ENOMEM, cx1, sm1)
             else
               let szmc = (if ext_size sm1 old_eb > sz then sz else ext_size sm1 old_eb);
                   sm2 = (if old_eb \<noteq> 0
                          then sm1\<lparr>sm_pool := (sm_pool sm1)\<lparr>mem := memcpy_words eb old_eb szmc (mem (sm_pool sm1))\<rparr>\<rparr>
                          else sm1);
                   sm3 = shm_poke (eb + 8) sz (shm_poke eb (ucast LIBSRPC_REGFN_SIGN OR push_bit 32 (ucast szfn)) sm2)
               in if ext_block (sm_funcs sm3 ! i) \<noteq> old_eb then
                    map_option (\<lambda>(_, cx2, sm4). (- ENOMEM, cx2, sm4)) (libsrpc_shmem_free eb cx1 sm3)
                  else
                    let sm4 = put_func i (\<lambda>f. f\<lparr>ext_block := eb\<rparr>) sm3 in
                    if old_eb \<noteq> 0 then
                      let sm5 = shm_poke old_eb (push_bit 32 (drop_bit 32 (shm_word sm4 old_eb))) sm4;
                          (cx2, sm6) = libsrpc_shmem_free_dc old_eb cx1 sm5;
                          (_, sm7) = libsrpc_shm_gc_wakeup cx2 sm6
                      in Some (0, cx2, sm7)
                    else Some (0, cx1, sm4))"

definition put_main :: "nat \<Rightarrow> nat \<Rightarrow> u64 \<Rightarrow> shmem \<Rightarrow> shmem" where
  "put_main i k proc = put_func i (\<lambda>f. f\<lparr>main_block := (main_block f)[k := proc], num_all := num_all f + 1\<rparr>)"

text \<open>The ten attempts on the extension block.\<close>

fun insert_ext :: "nat \<Rightarrow> u64 \<Rightarrow> nat \<Rightarrow> int \<Rightarrow> srpc_ctx \<Rightarrow> shmem \<Rightarrow> (int \<times> srpc_ctx \<times> shmem) option" where
  "insert_ext 0 proc i rc cx sm = Some (rc, cx, sm)"
| "insert_ext (Suc n) proc i rc cx sm =
     (let f = sm_funcs sm ! i in
      case (if ext_block f = 0 \<or> num_all f \<ge> ext_szfn sm (ext_block f)
            then libsrpc_regfn_ext_block i cx sm else Some (0, cx, sm)) of
        None \<Rightarrow> None
      | Some (rc1, cx1, sm1) \<Rightarrow>
          let eb = ext_block (sm_funcs sm1 ! i) in
          if rc1 < 0 \<or> eb = 0 then insert_ext n proc i rc1 cx1 sm1
          else case first_empty 0 (ext_procs sm1 eb) of
              Some k \<Rightarrow> Some (0, cx1, put_func i (\<lambda>f. f\<lparr>num_all := num_all f + 1\<rparr>) (shm_poke (ext_slot eb k) proc sm1))
            | None \<Rightarrow> insert_ext n proc i (- ENOMEM) cx1 sm1)"

definition libsrpc_regfn_insert :: "u64 \<Rightarrow> nat \<Rightarrow> srpc_ctx \<Rightarrow> shmem \<Rightarrow> (int \<times> srpc_ctx \<times> shmem) option" where
  "libsrpc_regfn_insert proc i cx sm =
     (case first_empty 0 (main_block (sm_funcs sm ! i)) of
        Some k \<Rightarrow> Some (0, cx, put_main i k proc sm)
      | None \<Rightarrow> insert_ext 10 proc i (- ENOMEM) cx sm)"

text \<open>The loop over the bitmap; the result is that of the last insertion.\<close>

fun reg_funcs :: "u64 \<Rightarrow> u64 \<Rightarrow> nat list \<Rightarrow> int \<Rightarrow> srpc_ctx \<Rightarrow> shmem \<Rightarrow> (int \<times> srpc_ctx \<times> shmem) option" where
  "reg_funcs proc bmp [] rc cx sm = Some (rc, cx, sm)"
| "reg_funcs proc bmp (i # is) rc cx sm =
     (if bmp AND push_bit (i mod 64) 1 \<noteq> 0
      then case libsrpc_regfn_insert proc i cx sm of
             None \<Rightarrow> None
           | Some (rc1, cx1, sm1) \<Rightarrow> reg_funcs proc bmp is rc1 cx1 sm1
      else reg_funcs proc bmp is rc cx sm)"

definition libsrpc_reg_func_form_bmp :: "u64 \<Rightarrow> u64 \<Rightarrow> srpc_ctx \<Rightarrow> shmem \<Rightarrow> (int \<times> srpc_ctx \<times> shmem) option" where
  "libsrpc_reg_func_form_bmp proc bmp cx sm =
     (if \<not> libsrpc_shmem_get cx then Some (- ESHMNOINIT, cx, sm)
      else reg_funcs proc bmp [0..<sRPC_FNNUM] 0 cx sm)"

section \<open>Removal\<close>

fun remove_main :: "u64 \<Rightarrow> nat \<Rightarrow> nat list \<Rightarrow> shmem \<Rightarrow> shmem" where
  "remove_main proc i [] sm = sm"
| "remove_main proc i (k # ks) sm = remove_main proc i ks
     (if main_block (sm_funcs sm ! i) ! k = proc
      then put_func i (\<lambda>f. f\<lparr>main_block := (main_block f)[k := 0], num_all := num_all f - 1\<rparr>) sm else sm)"

fun remove_ext :: "u64 \<Rightarrow> nat \<Rightarrow> u64 \<Rightarrow> nat list \<Rightarrow> shmem \<Rightarrow> shmem" where
  "remove_ext proc i eb [] sm = sm"
| "remove_ext proc i eb (k # ks) sm = remove_ext proc i eb ks
     (if shm_word sm (ext_slot eb k) = proc
      then put_func i (\<lambda>f. f\<lparr>num_all := num_all f - 1\<rparr>) (shm_poke (ext_slot eb k) 0 sm) else sm)"

definition libsrpc_regfn_remove :: "u64 \<Rightarrow> nat \<Rightarrow> shmem \<Rightarrow> int \<times> shmem" where
  "libsrpc_regfn_remove proc i sm =
     (let eb = ext_block (sm_funcs sm ! i); sm1 = remove_main proc i [0..<LIBSRPC_RFMB_SZ] sm in
      if eb = 0 then (0, sm1) else (0, remove_ext proc i eb [0..<unat (ext_szfn sm1 eb)] sm1))"

definition libsrpc_unreg_func_proc :: "u64 \<Rightarrow> srpc_ctx \<Rightarrow> shmem \<Rightarrow> int \<times> shmem" where
  "libsrpc_unreg_func_proc proc cx sm =
     (if \<not> libsrpc_shmem_get cx then (- ESHMNOINIT, sm)
      else fold (\<lambda>i (rc, sm). libsrpc_regfn_remove proc i sm) [0..<sRPC_FNNUM] (0, sm))"

section \<open>Hazard pointers on extension blocks\<close>

definition libsrpc_shmem_is_locked_regfn_proc :: "u64 \<Rightarrow> u64 \<Rightarrow> shmem \<Rightarrow> bool option" where
  "libsrpc_shmem_is_locked_regfn_proc proc eb sm =
     (if proc = 0 \<or> eb = 0 then Some False
      else map_option (\<lambda>reqs. \<exists>req \<in> set reqs. \<not> libsrpc_req_is_corrupted req None sm \<and> hp_regfn (sm_reqs sm req) = eb)
             (list_foreach (sm_lists sm) (req_head_of proc)))"

definition libsrpc_shmem_is_busy_regfn :: "u64 \<Rightarrow> srpc_ctx \<Rightarrow> shmem \<Rightarrow> bool option" where
  "libsrpc_shmem_is_busy_regfn eb cx sm =
     (if eb = 0 \<or> \<not> libsrpc_shmem_get cx then Some False
      else Option.bind (list_foreach (sm_lists sm) (sm_proc_head sm))
        (any_proc (\<lambda>p. libsrpc_shmem_is_locked_regfn_proc p eb sm) sm))"

section \<open>A table per function as an interface\<close>

text \<open>A client of the registry sees one table of entries per function (a null entry is free): an
  insertion fills one free entry, a removal clears all entries of a process, and the tables of
  other functions stay as they are.\<close>

definition cleared :: "u64 \<Rightarrow> u64 list \<Rightarrow> u64 list" where
  "cleared p xs = map (\<lambda>x. if x = p then 0 else x) xs"

lemma cleared_absent: "p \<notin> set xs \<Longrightarrow> cleared p xs = xs"
  by (auto simp: cleared_def intro: map_idI)

lemma cleared_update: "p \<notin> set xs \<Longrightarrow> q < length xs \<Longrightarrow> xs ! q = 0 \<Longrightarrow> cleared p (xs[q := p]) = xs"
  by (rule nth_equalityI) (auto simp: cleared_def nth_list_update)

locale proc_table =
  fixes ok :: "'s \<Rightarrow> bool"
    and entries :: "'s \<Rightarrow> nat \<Rightarrow> u64 list"
    and room :: "'s \<Rightarrow> nat \<Rightarrow> bool"
    and insert :: "u64 \<Rightarrow> nat \<Rightarrow> 's \<Rightarrow> (int \<times> 's) option"
    and remove :: "u64 \<Rightarrow> nat \<Rightarrow> 's \<Rightarrow> 's"
    and nf :: nat
  assumes insert_law: "ok s \<Longrightarrow> i < nf \<Longrightarrow> room s i \<Longrightarrow> p \<noteq> 0 \<Longrightarrow>
      \<exists>s' q. insert p i s = Some (0, s') \<and> ok s' \<and> q < length (entries s i) \<and> entries s i ! q = 0 \<and>
        entries s' i = (entries s i)[q := p] \<and>
        (\<forall>j < nf. j \<noteq> i \<longrightarrow> entries s' j = entries s j \<and> room s' j = room s j)"
    and remove_law: "ok s \<Longrightarrow> i < nf \<Longrightarrow> p \<noteq> 0 \<Longrightarrow>
      ok (remove p i s) \<and> entries (remove p i s) i = cleared p (entries s i) \<and>
        (\<forall>j < nf. j \<noteq> i \<longrightarrow> entries (remove p i s) j = entries s j)"
begin

fun insert_all :: "u64 \<Rightarrow> nat list \<Rightarrow> 's \<Rightarrow> (int \<times> 's) option" where
  "insert_all p [] s = Some (0, s)"
| "insert_all p (i # is) s = (case insert p i s of None \<Rightarrow> None | Some (rc, s1) \<Rightarrow> insert_all p is s1)"

lemma insert_all_run:
  assumes "ok s" "distinct is" "\<forall>i \<in> set is. i < nf \<and> room s i" "p \<noteq> 0"
  shows "\<exists>s'. insert_all p is s = Some (0, s') \<and> ok s' \<and> (\<forall>j < nf. if j \<in> set is
      then \<exists>q. q < length (entries s j) \<and> entries s j ! q = 0 \<and> entries s' j = (entries s j)[q := p]
      else entries s' j = entries s j)"
  using assms
proof (induction "is" arbitrary: s)
  case (Cons i "is")
  then have i: "i < nf" "room s i" by simp_all
  from insert_law [OF Cons.prems(1) i Cons.prems(4)] obtain s1 q where s1: "insert p i s = Some (0, s1)" "ok s1"
    "q < length (entries s i)" "entries s i ! q = 0" "entries s1 i = (entries s i)[q := p]"
    and oth: "\<forall>j < nf. j \<noteq> i \<longrightarrow> entries s1 j = entries s j \<and> room s1 j = room s j" by blast
  have "\<forall>k \<in> set is. k < nf \<and> room s1 k" using oth Cons.prems(2,3) by auto
  from Cons.IH [OF s1(2) _ this Cons.prems(4)] Cons.prems(2) obtain s' where s': "insert_all p is s1 = Some (0, s')" "ok s'"
    "\<forall>j < nf. if j \<in> set is
      then \<exists>q. q < length (entries s1 j) \<and> entries s1 j ! q = 0 \<and> entries s' j = (entries s1 j)[q := p]
      else entries s' j = entries s1 j" by auto
  have "if j \<in> set (i # is)
      then \<exists>q. q < length (entries s j) \<and> entries s j ! q = 0 \<and> entries s' j = (entries s j)[q := p]
      else entries s' j = entries s j" if "j < nf" for j
    using s'(3) that oth s1(3-5) Cons.prems(2) by (cases "j = i") auto
  with s1(1) s'(1,2) show ?case by auto
qed auto

lemma remove_all_run:
  assumes "ok s" "set is \<subseteq> {..<nf}" "p \<noteq> 0" "distinct is"
  shows "ok (fold (remove p) is s) \<and>
    (\<forall>j < nf. entries (fold (remove p) is s) j = (if j \<in> set is then cleared p (entries s j) else entries s j))"
  using assms
proof (induction "is" arbitrary: s)
  case (Cons i "is")
  then have i: "i < nf" by simp
  from remove_law [OF Cons.prems(1) i Cons.prems(3)] Cons.IH [of "remove p i s"] Cons.prems
  show ?case by auto
qed simp

text \<open>Registering a process and removing it everywhere restores every table.\<close>

lemma register_unregister:
  assumes "ok s" "distinct is" "\<forall>i \<in> set is. i < nf \<and> room s i" "p \<noteq> 0" "\<forall>j < nf. p \<notin> set (entries s j)"
  obtains s' where "insert_all p is s = Some (0, s')" "ok s'" "\<forall>j < nf. p \<in> set (entries s' j) \<longleftrightarrow> j \<in> set is"
    "ok (fold (remove p) [0..<nf] s')" "\<forall>j < nf. entries (fold (remove p) [0..<nf] s') j = entries s j"
proof -
  obtain s' where s': "insert_all p is s = Some (0, s')" "ok s'" and e: "\<forall>j < nf. if j \<in> set is
      then \<exists>q. q < length (entries s j) \<and> entries s j ! q = 0 \<and> entries s' j = (entries s j)[q := p]
      else entries s' j = entries s j"
    using insert_all_run [OF assms(1-4)] by blast
  have up: "set [0..<nf] \<subseteq> {..<nf}" "distinct [0..<nf]" by auto
  note r = remove_all_run [OF s'(2) up(1) assms(4) up(2)]
  have 1: "p \<in> set (entries s' j) \<longleftrightarrow> j \<in> set is" if "j < nf" for j
    using e assms(5) that set_update_memI by (metis (mono_tags, lifting))
  have 2: "cleared p (entries s' j) = entries s j" if "j < nf" for j
    using e assms(5) that cleared_absent cleared_update by (fastforce split: if_splits)
  from s' r 1 2 show thesis by (intro that [of s']) auto
qed

end

section \<open>The registry offers this interface\<close>

definition func_of :: "shmem \<Rightarrow> nat \<Rightarrow> libsrpc_rpc_func" where "func_of sm i = sm_funcs sm ! i"

definition entries :: "shmem \<Rightarrow> nat \<Rightarrow> u64 list" where
  "entries sm i = main_block (func_of sm i) @
     (if ext_block (func_of sm i) = 0 then [] else ext_procs sm (ext_block (func_of sm i)))"

definition used :: "u64 list \<Rightarrow> nat" where "used xs = length (filter (\<lambda>x. x \<noteq> 0) xs)"

text \<open>The extension blocks do not overlap: an entry of one is neither the head nor another entry of
  any of them.\<close>

definition exts_apart :: "shmem \<Rightarrow> bool" where
  "exts_apart sm \<longleftrightarrow> (\<forall>i < sRPC_FNNUM. \<forall>j < sRPC_FNNUM. \<forall>k < unat (ext_szfn sm (ext_block (func_of sm i))).
     ext_block (func_of sm i) \<noteq> 0 \<longrightarrow> ext_block (func_of sm j) \<noteq> 0 \<longrightarrow>
       ext_slot (ext_block (func_of sm i)) k \<noteq> ext_block (func_of sm j) \<and>
       (\<forall>l < unat (ext_szfn sm (ext_block (func_of sm j))).
          ext_slot (ext_block (func_of sm i)) k = ext_slot (ext_block (func_of sm j)) l \<longrightarrow> i = j \<and> k = l))"

definition registry_ok :: "shmem \<Rightarrow> bool" where
  "registry_ok sm \<longleftrightarrow> length (sm_funcs sm) = sRPC_FNNUM \<and> exts_apart sm \<and>
     (\<forall>i < sRPC_FNNUM. length (main_block (func_of sm i)) = LIBSRPC_RFMB_SZ \<and>
        (ext_block (func_of sm i) \<noteq> 0 \<longrightarrow> unat (ext_szfn sm (ext_block (func_of sm i))) < 2 ^ 31) \<and>
        num_all (func_of sm i) = of_nat (used (entries sm i)))"

text \<open>A free entry that needs no allocation.\<close>

definition reg_room :: "shmem \<Rightarrow> nat \<Rightarrow> bool" where
  "reg_room sm i \<longleftrightarrow> 0 \<in> set (main_block (func_of sm i)) \<or>
     ext_block (func_of sm i) \<noteq> 0 \<and> num_all (func_of sm i) < ext_szfn sm (ext_block (func_of sm i))"

text \<open>Writing entry \<open>q\<close> of the table of function \<open>i\<close>, counting from the main block on, with the new counter.\<close>

definition put_entry :: "nat \<Rightarrow> nat \<Rightarrow> u64 \<Rightarrow> u32 \<Rightarrow> shmem \<Rightarrow> shmem" where
  "put_entry i q v n sm =
     (if q < LIBSRPC_RFMB_SZ then put_func i (\<lambda>f. f\<lparr>main_block := (main_block f)[q := v], num_all := n\<rparr>) sm
      else put_func i (\<lambda>f. f\<lparr>num_all := n\<rparr>) (shm_poke (ext_slot (ext_block (func_of sm i)) (q - LIBSRPC_RFMB_SZ)) v sm))"

lemma used_update: "q < length xs \<Longrightarrow> used (xs[q := v]) + (if xs ! q = 0 then 0 else 1) = used xs + (if v = 0 then 0 else 1)"
proof (induction xs arbitrary: q)
  case (Cons x xs)
  show ?case
  proof (cases q)
    case (Suc k)
    with Cons.IH [of k] Cons.prems show ?thesis by (auto simp: used_def split: if_splits)
  qed (simp add: used_def)
qed simp

lemma put_entry_funcs:
  assumes "length (sm_funcs sm) = sRPC_FNNUM" "i < sRPC_FNNUM"
  shows "length (sm_funcs (put_entry i q v n sm)) = sRPC_FNNUM"
    "ext_block (func_of (put_entry i q v n sm) j) = ext_block (func_of sm j)"
    "num_all (func_of (put_entry i q v n sm) i) = n"
    "j \<noteq> i \<Longrightarrow> func_of (put_entry i q v n sm) j = func_of sm j"
    "main_block (func_of (put_entry i q v n sm) i) =
       (if q < LIBSRPC_RFMB_SZ then (main_block (func_of sm i))[q := v] else main_block (func_of sm i))"
    "shm_word (put_entry i q v n sm) =
       (if q < LIBSRPC_RFMB_SZ then shm_word sm else (shm_word sm)(ext_slot (ext_block (func_of sm i)) (q - LIBSRPC_RFMB_SZ) := v))"
  using assms by (auto simp: put_entry_def put_func_def func_of_def shm_poke_def shm_word_def poke_def nth_list_update fun_eq_iff)

lemma exts_apartD:
  assumes "exts_apart sm" "i < sRPC_FNNUM" "j < sRPC_FNNUM" "k < unat (ext_szfn sm (ext_block (func_of sm i)))"
    "ext_block (func_of sm i) \<noteq> 0" "ext_block (func_of sm j) \<noteq> 0"
  shows "ext_slot (ext_block (func_of sm i)) k \<noteq> ext_block (func_of sm j)"
    "l < unat (ext_szfn sm (ext_block (func_of sm j))) \<Longrightarrow>
       ext_slot (ext_block (func_of sm j)) l = ext_slot (ext_block (func_of sm i)) k \<longleftrightarrow> j = i \<and> l = k"
  using assms unfolding exts_apart_def by blast+

lemma put_entry_ok:
  assumes "registry_ok sm" "i < sRPC_FNNUM" "q < length (entries sm i)"
    "n = of_nat (used ((entries sm i)[q := v]))"
  shows "registry_ok (put_entry i q v n sm)" "entries (put_entry i q v n sm) i = (entries sm i)[q := v]"
    "j < sRPC_FNNUM \<Longrightarrow> j \<noteq> i \<Longrightarrow> entries (put_entry i q v n sm) j = entries sm j"
    "j < sRPC_FNNUM \<Longrightarrow> ext_szfn (put_entry i q v n sm) (ext_block (func_of sm j)) = ext_szfn sm (ext_block (func_of sm j)) \<or> ext_block (func_of sm j) = 0"
proof -
  let ?sm = "put_entry i q v n sm" and ?e = "\<lambda>j. ext_block (func_of sm j)"
  have len: "length (sm_funcs sm) = sRPC_FNNUM" and ap: "exts_apart sm"
    and fn: "\<And>j. j < sRPC_FNNUM \<Longrightarrow> length (main_block (func_of sm j)) = LIBSRPC_RFMB_SZ \<and>
        (?e j \<noteq> 0 \<longrightarrow> unat (ext_szfn sm (?e j)) < 2 ^ 31) \<and> num_all (func_of sm j) = of_nat (used (entries sm j))"
    using assms(1) by (auto simp: registry_ok_def)
  note f = put_entry_funcs [OF len assms(2), where q = q and v = v and n = n]
  have ext: "?e i \<noteq> 0" "q - LIBSRPC_RFMB_SZ < unat (ext_szfn sm (?e i))" if "\<not> q < LIBSRPC_RFMB_SZ"
    using assms(3) that fn [OF assms(2)] by (auto simp: entries_def ext_procs_def split: if_splits)
  have sz: "ext_szfn ?sm (?e j) = ext_szfn sm (?e j)" if "j < sRPC_FNNUM" "?e j \<noteq> 0" for j
    using exts_apartD(1) [OF ap assms(2) that(1) ext(2) ext(1) that(2)] by (cases "q < LIBSRPC_RFMB_SZ") (auto simp: ext_szfn_def f)
  then show "ext_szfn ?sm (?e j) = ext_szfn sm (?e j) \<or> ?e j = 0" if "j < sRPC_FNNUM" using that by blast
  have slot: "shm_word ?sm (ext_slot (?e j) k) = (if j = i \<and> k + LIBSRPC_RFMB_SZ = q then v else shm_word sm (ext_slot (?e j) k))"
    if "j < sRPC_FNNUM" "?e j \<noteq> 0" "k < unat (ext_szfn sm (?e j))" for j k
    using exts_apartD(2) [OF ap assms(2) that(1) ext(2) ext(1) that(2,3)] by (cases "q < LIBSRPC_RFMB_SZ") (auto simp: f)
  show eo: "entries ?sm j = entries sm j" if "j < sRPC_FNNUM" "j \<noteq> i" for j
    using that slot sz [of j] by (auto simp: entries_def f ext_procs_def intro!: map_cong)
  show ei: "entries ?sm i = (entries sm i)[q := v]"
  proof (rule nth_equalityI)
    show l: "length (entries ?sm i) = length ((entries sm i)[q := v])"
      using assms(2) sz [of i] by (auto simp: entries_def f ext_procs_def)
    fix m assume "m < length (entries ?sm i)"
    with l have m: "m < length (entries sm i)" by simp
    show "entries ?sm i ! m = (entries sm i)[q := v] ! m"
    proof (cases "m < LIBSRPC_RFMB_SZ")
      case True
      then show ?thesis using fn [OF assms(2)] assms(3) m by (auto simp: entries_def f nth_append nth_list_update)
    next
      case False
      then have e: "?e i \<noteq> 0" "m - LIBSRPC_RFMB_SZ < unat (ext_szfn sm (?e i))"
        using m fn [OF assms(2)] by (auto simp: entries_def ext_procs_def split: if_splits)
      have "entries ?sm i ! m = shm_word ?sm (ext_slot (?e i) (m - LIBSRPC_RFMB_SZ))"
        using False e fn [OF assms(2)] sz [OF assms(2)] by (auto simp: entries_def f nth_append ext_procs_def)
      also have "\<dots> = (if m = q then v else shm_word sm (ext_slot (?e i) (m - LIBSRPC_RFMB_SZ)))"
        using slot [OF assms(2) e] False by auto
      also have "\<dots> = (entries sm i)[q := v] ! m"
        using False e fn [OF assms(2)] m by (auto simp: entries_def nth_append ext_procs_def nth_list_update)
      finally show ?thesis .
    qed
  qed
  have nn: "num_all (func_of ?sm i) = of_nat (used ((entries sm i)[q := v]))" by (subst f(3)) (rule assms(4))
  have "exts_apart ?sm" unfolding exts_apart_def f(2) using exts_apartD [OF ap] sz by (metis (mono_tags, lifting))
  moreover have "length (main_block (func_of ?sm j)) = LIBSRPC_RFMB_SZ \<and> (ext_block (func_of ?sm j) \<noteq> 0 \<longrightarrow> unat (ext_szfn ?sm (ext_block (func_of ?sm j))) < 2 ^ 31) \<and>
     num_all (func_of ?sm j) = of_nat (used (entries ?sm j))" if "j < sRPC_FNNUM" for j
    using fn [OF that] sz [OF that] eo [OF that] ei nn that by (cases "j = i") (auto simp: f(1,2,4,5))
  ultimately show "registry_ok ?sm" by (auto simp: registry_ok_def f)
qed

lemma first_empty_None: "first_empty i xs = None \<longleftrightarrow> 0 \<notin> set xs"
  by (induction xs arbitrary: i) auto

lemma entries_main: "registry_ok sm \<Longrightarrow> i < sRPC_FNNUM \<Longrightarrow> k < LIBSRPC_RFMB_SZ \<Longrightarrow>
    k < length (entries sm i) \<and> entries sm i ! k = main_block (func_of sm i) ! k"
  by (simp add: registry_ok_def entries_def nth_append trans_less_add1)

lemma entries_ext:
  assumes "registry_ok sm" "i < sRPC_FNNUM" "ext_block (func_of sm i) \<noteq> 0"
  shows "length (entries sm i) = LIBSRPC_RFMB_SZ + unat (ext_szfn sm (ext_block (func_of sm i)))"
    "k < unat (ext_szfn sm (ext_block (func_of sm i))) \<Longrightarrow>
      entries sm i ! (k + LIBSRPC_RFMB_SZ) = shm_word sm (ext_slot (ext_block (func_of sm i)) k)"
  using assms by (auto simp: registry_ok_def entries_def nth_append ext_procs_def)

text \<open>Removal, entry by entry.\<close>

definition wipe :: "u64 \<Rightarrow> nat \<Rightarrow> nat \<Rightarrow> shmem \<Rightarrow> shmem" where
  "wipe p i q sm = (if entries sm i ! q = p then put_entry i q 0 (num_all (func_of sm i) - 1) sm else sm)"

lemma wipe_ok:
  assumes "registry_ok sm" "i < sRPC_FNNUM" "q < length (entries sm i)" "p \<noteq> 0"
  shows "registry_ok (wipe p i q sm)"
    "entries (wipe p i q sm) i = (if entries sm i ! q = p then (entries sm i)[q := 0] else entries sm i)"
    "j < sRPC_FNNUM \<Longrightarrow> j \<noteq> i \<Longrightarrow> entries (wipe p i q sm) j = entries sm j"
    "ext_block (func_of (wipe p i q sm) i) = ext_block (func_of sm i)"
proof -
  have n: "num_all (func_of sm i) - 1 = of_nat (used ((entries sm i)[q := 0]))" if "entries sm i ! q = p"
  proof -
    have "of_nat (used ((entries sm i)[q := 0]) + 1) = num_all (func_of sm i)"
      using used_update [OF assms(3), of 0] that assms(1,2,4) by (simp add: registry_ok_def)
    then show ?thesis by (simp add: algebra_simps)
  qed
  have len: "length (sm_funcs sm) = sRPC_FNNUM" using assms(1) by (simp add: registry_ok_def)
  show "registry_ok (wipe p i q sm)"
    "entries (wipe p i q sm) i = (if entries sm i ! q = p then (entries sm i)[q := 0] else entries sm i)"
    "j < sRPC_FNNUM \<Longrightarrow> j \<noteq> i \<Longrightarrow> entries (wipe p i q sm) j = entries sm j"
    using put_entry_ok [OF assms(1-3) n] assms(1) by (auto simp: wipe_def)
  show "ext_block (func_of (wipe p i q sm) i) = ext_block (func_of sm i)"
    by (simp add: wipe_def put_entry_funcs(2) [OF len assms(2)])
qed

lemma wipe_all_ok:
  assumes "registry_ok sm" "i < sRPC_FNNUM" "set qs \<subseteq> {..<length (entries sm i)}" "p \<noteq> 0"
  shows "registry_ok (fold (wipe p i) qs sm)" "length (entries (fold (wipe p i) qs sm) i) = length (entries sm i)"
    "m < length (entries sm i) \<Longrightarrow> entries (fold (wipe p i) qs sm) i ! m =
       (if m \<in> set qs \<and> entries sm i ! m = p then 0 else entries sm i ! m)"
    "j < sRPC_FNNUM \<Longrightarrow> j \<noteq> i \<Longrightarrow> entries (fold (wipe p i) qs sm) j = entries sm j"
    "ext_block (func_of (fold (wipe p i) qs sm) i) = ext_block (func_of sm i)"
proof -
  have "registry_ok (fold (wipe p i) qs sm) \<and> length (entries (fold (wipe p i) qs sm) i) = length (entries sm i) \<and>
    (\<forall>m < length (entries sm i). entries (fold (wipe p i) qs sm) i ! m =
       (if m \<in> set qs \<and> entries sm i ! m = p then 0 else entries sm i ! m)) \<and>
    (\<forall>j < sRPC_FNNUM. j \<noteq> i \<longrightarrow> entries (fold (wipe p i) qs sm) j = entries sm j) \<and>
    ext_block (func_of (fold (wipe p i) qs sm) i) = ext_block (func_of sm i)"
    using assms(1,3)
  proof (induction qs arbitrary: sm)
    case (Cons q qs)
    then have q: "q < length (entries sm i)" by simp
    note w = wipe_ok [OF Cons.prems(1) assms(2) q assms(4)]
    from Cons.IH [OF w(1)] Cons.prems(2) w(2-4) assms(4) show ?case by (auto simp: nth_list_update)
  qed simp
  then show "registry_ok (fold (wipe p i) qs sm)" "length (entries (fold (wipe p i) qs sm) i) = length (entries sm i)"
    "m < length (entries sm i) \<Longrightarrow> entries (fold (wipe p i) qs sm) i ! m =
       (if m \<in> set qs \<and> entries sm i ! m = p then 0 else entries sm i ! m)"
    "j < sRPC_FNNUM \<Longrightarrow> j \<noteq> i \<Longrightarrow> entries (fold (wipe p i) qs sm) j = entries sm j"
    "ext_block (func_of (fold (wipe p i) qs sm) i) = ext_block (func_of sm i)"
    by simp_all
qed

lemma remove_main_wipe:
  assumes "registry_ok sm" "i < sRPC_FNNUM" "set ks \<subseteq> {..<LIBSRPC_RFMB_SZ}" "p \<noteq> 0"
  shows "remove_main p i ks sm = fold (wipe p i) ks sm"
  using assms(1,3)
proof (induction ks arbitrary: sm)
  case (Cons k ks)
  then have k: "k < LIBSRPC_RFMB_SZ" by simp
  note e = entries_main [OF Cons.prems(1) assms(2) k]
  have "(if main_block (sm_funcs sm ! i) ! k = p
      then put_func i (\<lambda>f. f\<lparr>main_block := (main_block f)[k := 0], num_all := num_all f - 1\<rparr>) sm else sm) = wipe p i k sm"
    using e k by (simp add: wipe_def put_entry_def func_of_def put_func_def)
  with Cons.IH [of "wipe p i k sm"] wipe_ok(1) [OF Cons.prems(1) assms(2) _ assms(4)] e Cons.prems(2) show ?case by simp
qed simp

lemma remove_ext_wipe:
  assumes "registry_ok sm" "i < sRPC_FNNUM" "eb = ext_block (func_of sm i)" "eb \<noteq> 0"
    "set ks \<subseteq> {..<length (entries sm i) - LIBSRPC_RFMB_SZ}" "p \<noteq> 0"
  shows "remove_ext p i eb ks sm = fold (wipe p i) (map (\<lambda>k. k + LIBSRPC_RFMB_SZ) ks) sm"
  using assms(1,3,5)
proof (induction ks arbitrary: sm)
  case (Cons k ks)
  have nz: "ext_block (func_of sm i) \<noteq> 0" using Cons.prems(2) assms(4) by simp
  note x = entries_ext [OF Cons.prems(1) assms(2) nz]
  then have k: "k < unat (ext_szfn sm (ext_block (func_of sm i)))" "k + LIBSRPC_RFMB_SZ < length (entries sm i)"
    using Cons.prems(3) by auto
  have step: "(if shm_word sm (ext_slot eb k) = p
      then put_func i (\<lambda>f. f\<lparr>num_all := num_all f - 1\<rparr>) (shm_poke (ext_slot eb k) 0 sm) else sm) = wipe p i (k + LIBSRPC_RFMB_SZ) sm"
    using x(2) [OF k(1)] Cons.prems(2) by (simp add: wipe_def put_entry_def func_of_def put_func_def shm_poke_def)
  have "length (entries (wipe p i (k + LIBSRPC_RFMB_SZ) sm) i) = length (entries sm i)"
    using wipe_ok(2) [OF Cons.prems(1) assms(2) k(2) assms(6)] by simp
  then have "remove_ext p i eb ks (wipe p i (k + LIBSRPC_RFMB_SZ) sm) =
      fold (wipe p i) (map (\<lambda>k. k + LIBSRPC_RFMB_SZ) ks) (wipe p i (k + LIBSRPC_RFMB_SZ) sm)"
    using wipe_ok(1,4) [OF Cons.prems(1) assms(2) k(2) assms(6)] Cons.prems(2,3) by (intro Cons.IH) simp_all
  then show ?case by (simp only: remove_ext.simps step list.map fold_simps)
qed simp

lemma regfn_remove_ok:
  assumes "registry_ok sm" "i < sRPC_FNNUM" "p \<noteq> 0" "libsrpc_regfn_remove p i sm = (rc, sm')"
  shows "rc = 0 \<and> registry_ok sm' \<and> entries sm' i = cleared p (entries sm i) \<and>
    (\<forall>j < sRPC_FNNUM. j \<noteq> i \<longrightarrow> entries sm' j = entries sm j)"
proof -
  define sm1 where "sm1 = fold (wipe p i) [0..<LIBSRPC_RFMB_SZ] sm"
  define eb where "eb = ext_block (func_of sm i)"
  have le: "LIBSRPC_RFMB_SZ \<le> length (entries sm i)" using assms(1,2) by (simp add: registry_ok_def entries_def)
  have main: "remove_main p i [0..<LIBSRPC_RFMB_SZ] sm = sm1"
    unfolding sm1_def by (rule remove_main_wipe) (use assms in auto)
  have q1: "set [0..<LIBSRPC_RFMB_SZ] \<subseteq> {..<length (entries sm i)}" using le by auto
  note w1 = wipe_all_ok [OF assms(1,2) q1 assms(3), folded sm1_def]
  have "sm' = fold (wipe p i) [0..<length (entries sm i)] sm \<and> rc = 0"
  proof (cases "eb = 0")
    case True
    then have "length (entries sm i) = LIBSRPC_RFMB_SZ" using assms(1,2) by (simp add: registry_ok_def entries_def eb_def)
    with True assms(4) main show ?thesis by (simp add: libsrpc_regfn_remove_def Let_def sm1_def func_of_def eb_def)
  next
    case False
    have nz: "ext_block (func_of sm1 i) \<noteq> 0" using False w1(5) by (simp add: eb_def)
    have sz: "length (entries sm i) = LIBSRPC_RFMB_SZ + unat (ext_szfn sm1 eb)"
      using entries_ext(1) [OF w1(1) assms(2) nz] w1(2,5) by (simp add: eb_def)
    have "remove_ext p i eb [0..<unat (ext_szfn sm1 eb)] sm1 =
      fold (wipe p i) (map (\<lambda>k. k + LIBSRPC_RFMB_SZ) [0..<unat (ext_szfn sm1 eb)]) sm1"
      by (rule remove_ext_wipe [OF w1(1) assms(2)]) (use w1(2,5) sz False assms(3) in \<open>auto simp: eb_def\<close>)
    moreover have "[0..<length (entries sm i)] = [0..<LIBSRPC_RFMB_SZ] @ map (\<lambda>k. k + LIBSRPC_RFMB_SZ) [0..<unat (ext_szfn sm1 eb)]"
      unfolding sz map_add_upt by (subst upt_add_eq_append) (simp_all add: add.commute)
    ultimately show ?thesis using False assms(4) main
      by (simp add: libsrpc_regfn_remove_def Let_def sm1_def func_of_def eb_def)
  qed
  moreover have q: "set [0..<length (entries sm i)] \<subseteq> {..<length (entries sm i)}" by auto
  note w = wipe_all_ok [OF assms(1,2) q assms(3)]
  ultimately show ?thesis using w by (auto simp: cleared_def intro!: nth_equalityI)
qed

text \<open>Insertion fills the entry that the two searches find.\<close>

lemma used_full: "0 \<notin> set xs \<Longrightarrow> used xs = length xs"
  unfolding used_def by (subst filter_True) auto

lemma free_ext_entry:
  assumes "registry_ok sm" "i < sRPC_FNNUM" "ext_block (func_of sm i) \<noteq> 0"
    "num_all (func_of sm i) < ext_szfn sm (ext_block (func_of sm i))"
  shows "0 \<in> set (ext_procs sm (ext_block (func_of sm i)))"
proof (rule ccontr)
  let ?e = "ext_block (func_of sm i)"
  assume "0 \<notin> set (ext_procs sm ?e)"
  then have "used (ext_procs sm ?e) = unat (ext_szfn sm ?e)" by (simp add: used_full) (simp add: ext_procs_def)
  moreover have "used (main_block (func_of sm i)) \<le> 8"
    using assms(1,2) length_filter_le [of "\<lambda>x. x \<noteq> 0" "main_block (func_of sm i)"]
    by (simp add: used_def registry_ok_def LIBSRPC_RFMB_SZ_def)
  ultimately have u: "unat (ext_szfn sm ?e) \<le> used (entries sm i)" "used (entries sm i) < 2 ^ 32"
    using assms(1-3) by (auto simp: entries_def used_def registry_ok_def)
  have "unat (num_all (func_of sm i)) = used (entries sm i)"
    using assms(1,2) u(2) by (simp add: registry_ok_def unsigned_of_nat take_bit_nat_eq_self)
  with u(1) assms(4) show False by (simp add: word_less_nat_alt)
qed

lemma regfn_insert_entry:
  assumes "registry_ok sm" "i < sRPC_FNNUM" "reg_room sm i"
  obtains q where "q < length (entries sm i)" "entries sm i ! q = 0"
    "libsrpc_regfn_insert p i cx sm = Some (0, cx, put_entry i q p (num_all (func_of sm i) + 1) sm)"
proof -
  let ?f = "func_of sm i"
  have main: "length (main_block ?f) = LIBSRPC_RFMB_SZ" using assms(1,2) by (simp add: registry_ok_def)
  have "\<exists>q. q < length (entries sm i) \<and> entries sm i ! q = 0 \<and>
    libsrpc_regfn_insert p i cx sm = Some (0, cx, put_entry i q p (num_all ?f + 1) sm)"
  proof (cases "first_empty 0 (main_block ?f)")
    case (Some k)
    from first_empty_Some [OF Some] have k: "k < LIBSRPC_RFMB_SZ" "main_block ?f ! k = 0" using main by simp_all
    with entries_main [OF assms(1,2) k(1)] Some show ?thesis
      by (intro exI [of _ k]) (simp add: libsrpc_regfn_insert_def func_of_def put_main_def put_entry_def put_func_def)
  next
    case None
    then have e: "ext_block ?f \<noteq> 0" "num_all ?f < ext_szfn sm (ext_block ?f)"
      using assms(3) by (auto simp: reg_room_def first_empty_None)
    obtain k where k: "first_empty 0 (ext_procs sm (ext_block ?f)) = Some k"
      using free_ext_entry [OF assms(1,2) e] first_empty_None [of 0 "ext_procs sm (ext_block ?f)"] by auto
    from first_empty_Some [OF k] have k': "k < unat (ext_szfn sm (ext_block ?f))" "ext_procs sm (ext_block ?f) ! k = 0"
      by (simp_all add: ext_procs_def)
    have "insert_ext (Suc n) p i (- ENOMEM) cx sm = Some (0, cx, put_entry i (k + LIBSRPC_RFMB_SZ) p (num_all ?f + 1) sm)" for n
      using e(1) k not_le [THEN iffD2, OF e(2)]
      by (simp add: func_of_def put_entry_def put_func_def shm_poke_def Let_def)
    moreover have ten: "(10 :: nat) = Suc 9" by simp
    ultimately have "insert_ext 10 p i (- ENOMEM) cx sm = Some (0, cx, put_entry i (k + LIBSRPC_RFMB_SZ) p (num_all ?f + 1) sm)"
      by (subst ten)
    then show ?thesis using None k' entries_ext [OF assms(1,2) e(1)]
      by (intro exI [of _ "k + LIBSRPC_RFMB_SZ"]) (simp add: libsrpc_regfn_insert_def func_of_def ext_procs_def)
  qed
  then show thesis using that by blast
qed

lemma regfn_insert_ok:
  assumes "registry_ok sm" "i < sRPC_FNNUM" "reg_room sm i" "p \<noteq> 0"
  shows "\<exists>sm' q. libsrpc_regfn_insert p i cx sm = Some (0, cx, sm') \<and> registry_ok sm' \<and> q < length (entries sm i) \<and>
    entries sm i ! q = 0 \<and> entries sm' i = (entries sm i)[q := p] \<and> sm' = put_entry i q p (num_all (func_of sm i) + 1) sm \<and>
    (\<forall>j < sRPC_FNNUM. j \<noteq> i \<longrightarrow> entries sm' j = entries sm j \<and> reg_room sm' j = reg_room sm j)"
proof -
  let ?f = "func_of sm i"
  have len: "length (sm_funcs sm) = sRPC_FNNUM" using assms(1) by (simp add: registry_ok_def)
  obtain q where q: "q < length (entries sm i)" "entries sm i ! q = 0"
    "libsrpc_regfn_insert p i cx sm = Some (0, cx, put_entry i q p (num_all ?f + 1) sm)" by (rule regfn_insert_entry [OF assms(1-3)])
  have n: "num_all ?f + 1 = of_nat (used ((entries sm i)[q := p]))"
    using used_update [OF q(1), of p] q(2) assms(1,2,4) by (simp add: registry_ok_def)
  note ok = put_entry_ok [OF assms(1,2) q(1) n]
  have "reg_room (put_entry i q p (num_all ?f + 1) sm) j = reg_room sm j" if "j < sRPC_FNNUM" "j \<noteq> i" for j
    using ok(4) [OF that(1)] put_entry_funcs(4) [OF len assms(2) that(2)] by (auto simp: reg_room_def)
  with ok(1-3) q show ?thesis by blast
qed

interpretation reg: proc_table "\<lambda>(cx, sm). registry_ok sm" "\<lambda>(cx, sm). entries sm" "\<lambda>(cx :: srpc_ctx, sm). reg_room sm"
  "\<lambda>p i (cx, sm). libsrpc_regfn_insert p i cx sm" "\<lambda>p i (cx, sm). (cx, snd (libsrpc_regfn_remove p i sm))" sRPC_FNNUM
proof
  fix s :: "srpc_ctx \<times> shmem" and i and p :: u64
  obtain cx sm where s: "s = (cx, sm)" by (cases s)
  show "\<exists>s' q. (case s of (cx, sm) \<Rightarrow> libsrpc_regfn_insert p i cx sm) = Some (0, s') \<and> (case s' of (cx, sm) \<Rightarrow> registry_ok sm) \<and>
      q < length ((case s of (cx, sm) \<Rightarrow> entries sm) i) \<and> (case s of (cx, sm) \<Rightarrow> entries sm) i ! q = 0 \<and>
      (case s' of (cx, sm) \<Rightarrow> entries sm) i = ((case s of (cx, sm) \<Rightarrow> entries sm) i)[q := p] \<and>
      (\<forall>j < sRPC_FNNUM. j \<noteq> i \<longrightarrow> (case s' of (cx, sm) \<Rightarrow> entries sm) j = (case s of (cx, sm) \<Rightarrow> entries sm) j \<and>
         (case s' of (cx, sm) \<Rightarrow> reg_room sm) j = (case s of (cx, sm) \<Rightarrow> reg_room sm) j)"
    if "case s of (cx, sm) \<Rightarrow> registry_ok sm" "i < sRPC_FNNUM" "(case s of (cx, sm) \<Rightarrow> reg_room sm) i" "p \<noteq> 0"
    using regfn_insert_ok [of sm i p cx] that by (fastforce simp: s)
  show "(case (case s of (cx, sm) \<Rightarrow> (cx, snd (libsrpc_regfn_remove p i sm))) of (cx, sm) \<Rightarrow> registry_ok sm) \<and>
      (case (case s of (cx, sm) \<Rightarrow> (cx, snd (libsrpc_regfn_remove p i sm))) of (cx, sm) \<Rightarrow> entries sm) i =
        cleared p ((case s of (cx, sm) \<Rightarrow> entries sm) i) \<and>
      (\<forall>j < sRPC_FNNUM. j \<noteq> i \<longrightarrow> (case (case s of (cx, sm) \<Rightarrow> (cx, snd (libsrpc_regfn_remove p i sm))) of (cx, sm) \<Rightarrow> entries sm) j =
        (case s of (cx, sm) \<Rightarrow> entries sm) j)"
    if "case s of (cx, sm) \<Rightarrow> registry_ok sm" "i < sRPC_FNNUM" "p \<noteq> 0"
    using regfn_remove_ok [of sm i p _ "snd (libsrpc_regfn_remove p i sm)"] that by (auto simp: s prod_eq_iff)
qed

section \<open>Registration of a process\<close>

text \<open>The two loops over the functions are the client's folds over the tables.\<close>

lemma reg_funcs_insert_all:
  assumes "reg.insert_all p (filter (\<lambda>i. bmp AND push_bit (i mod 64) 1 \<noteq> 0) is) (cx, sm) = Some (0, s')"
    "registry_ok sm" "\<forall>i \<in> set is. i < sRPC_FNNUM \<and> (bmp AND push_bit (i mod 64) 1 \<noteq> 0 \<longrightarrow> reg_room sm i)" "distinct is" "p \<noteq> 0"
  shows "reg_funcs p bmp is 0 cx sm = Some (0, s')"
  using assms
proof (induction "is" arbitrary: sm cx)
  case (Cons i "is")
  show ?case
  proof (cases "bmp AND push_bit (i mod 64) 1 = 0")
    case True
    with Cons.IH [of cx sm] Cons.prems show ?thesis by simp
  next
    case False
    with Cons.prems(3) have i: "i < sRPC_FNNUM" "reg_room sm i" by simp_all
    from regfn_insert_ok [OF Cons.prems(2) i Cons.prems(5), of cx] obtain sm1 where
      s1: "libsrpc_regfn_insert p i cx sm = Some (0, cx, sm1)" "registry_ok sm1"
        "\<forall>j < sRPC_FNNUM. j \<noteq> i \<longrightarrow> reg_room sm1 j = reg_room sm j" by blast
    have "\<forall>k \<in> set is. k < sRPC_FNNUM \<and> (bmp AND push_bit (k mod 64) 1 \<noteq> 0 \<longrightarrow> reg_room sm1 k)"
      using Cons.prems(3,4) s1(3) by auto
    with Cons.IH [of cx sm1] Cons.prems(1,4,5) s1 False show ?thesis by simp
  qed
qed simp

lemma unreg_fold:
  "fold (\<lambda>i (rc, sm). libsrpc_regfn_remove p i sm) is (0, sm) =
   (0, snd (fold (\<lambda>i (cx, sm). (cx, snd (libsrpc_regfn_remove p i sm))) is (cx, sm)))"
proof (induction "is" arbitrary: sm)
  case (Cons i "is")
  have "libsrpc_regfn_remove p i sm = (0, snd (libsrpc_regfn_remove p i sm))"
    by (simp add: libsrpc_regfn_remove_def Let_def)
  then show ?case using Cons.IH [of "snd (libsrpc_regfn_remove p i sm)"] by (simp split: prod.splits)
qed simp

lemma mask_bit: "(bmp :: u64) AND push_bit n 1 \<noteq> 0 \<longleftrightarrow> bit bmp n"
proof -
  have "bmp AND push_bit n 1 = (if bit bmp n then push_bit n 1 else 0)"
    by (rule bit_word_eqI) (auto simp: bit_simps)
  moreover have "bit bmp n \<Longrightarrow> push_bit n (1 :: u64) \<noteq> 0"
    using bit_imp_le_length [of bmp n] by (auto simp: bit_eq_iff bit_simps)
  ultimately show ?thesis by simp
qed

section \<open>Properties\<close>


text \<open>A segment in which no function is registered yet.\<close>

definition empty_registry :: shmem where
  "empty_registry = some_shm\<lparr>sm_funcs := replicate 5 \<lparr>num_all = 0, ext_block = 0, main_block = replicate 8 0\<rparr>, sm_send_rr := replicate 5 0\<rparr>"

lemma empty_registry_func: "i < sRPC_FNNUM \<Longrightarrow> func_of empty_registry i = \<lparr>num_all = 0, ext_block = 0, main_block = replicate 8 0\<rparr>"
  by (simp add: func_of_def empty_registry_def sRPC_FNNUM_def)

lemma empty_registry_ok:
  "registry_ok empty_registry" "i < sRPC_FNNUM \<Longrightarrow> reg_room empty_registry i" "i < sRPC_FNNUM \<Longrightarrow> entries empty_registry i = replicate 8 0"
proof -
  show e: "entries empty_registry i = replicate 8 0" if "i < sRPC_FNNUM" for i
    using that by (simp add: entries_def empty_registry_func)
  have "used (replicate 8 0) = 0" by (simp add: used_def)
  moreover have "length (sm_funcs empty_registry) = sRPC_FNNUM" by (simp add: empty_registry_def sRPC_FNNUM_def)
  ultimately show "registry_ok empty_registry"
    using e by (simp add: registry_ok_def exts_apart_def empty_registry_func LIBSRPC_RFMB_SZ_def)
  show "reg_room empty_registry i" if "i < sRPC_FNNUM" using that by (simp add: reg_room_def empty_registry_func)
qed


end
