(* ===== verification/Srpc_Send.thy ===== *)
theory Srpc_Send
  imports Srpc_Registry
begin

text \<open>
  The calling side of an RPC (\<^verbatim>\<open>src/libsrpc.c\<close>, from \<^verbatim>\<open>libsrpc_send_request_one\<close> to the stubs that the
  list of functions generates): the request block of the thread, its delivery to the queues of the
  registered processes, the wait for the answers, and the stub itself.

  The caller runs against an environment \<open>rpc_env\<close>: what the receivers do to a full queue before
  each further attempt to enqueue, the returns of \<^verbatim>\<open>sem_timedwait\<close> (0 or the \<^verbatim>\<open>errno\<close>, with everything
  the other processes did to the segment until then), and what happens to the answer while the
  caller reads it. A call is \<open>None\<close> when the environment never lets it return.
\<close>

section \<open>Delivery to one process\<close>

record rpc_env =
  ev_queue :: "nat \<Rightarrow> lf_mpmc_queue \<Rightarrow> lf_mpmc_queue"
  ev_wakes :: "u64 \<Rightarrow> (int \<times> (shmem \<Rightarrow> shmem)) list"
  ev_late :: "nat \<Rightarrow> libsrpc_response \<Rightarrow> libsrpc_response"

fun enqueue_tries :: "nat \<Rightarrow> nat \<Rightarrow> (nat \<Rightarrow> lf_mpmc_queue \<Rightarrow> lf_mpmc_queue) \<Rightarrow> u64 \<Rightarrow> lf_mpmc_queue \<Rightarrow> (int \<times> lf_mpmc_queue) option" where
  "enqueue_tries 0 k env req q = Some (LF_QUEUE_FULL, q)"
| "enqueue_tries (Suc n) k env req q =
     (case lf_mpmc_queue_try_enqueue req (env k q) of
        None \<Rightarrow> None
      | Some (rc, q1) \<Rightarrow> if rc = LF_QUEUE_OK then Some (rc, q1) else enqueue_tries n (Suc k) env req q1)"

definition slot_error :: "u64 \<Rightarrow> u32 \<Rightarrow> int \<Rightarrow> shmem \<Rightarrow> shmem" where
  "slot_error req off code = put_resp req off (\<lambda>s. s\<lparr>resp_rc := rc_make RC_ST_ERROR code, hp_proc := 0\<rparr>)"

definition libsrpc_send_request_one :: "rpc_env \<Rightarrow> u64 \<Rightarrow> u64 \<Rightarrow> u32 \<Rightarrow> shmem \<Rightarrow> (int \<times> shmem) option" where
  "libsrpc_send_request_one env proc req it sm =
     (case libsrpc_req_get_response_fast req it sm of
        None \<Rightarrow> Some (- ENOTAVAILABLE, sm)
      | Some off \<Rightarrow>
          let sm1 = put_resp req off (\<lambda>s. s\<lparr>resp_rc := 0, resp_uid := proc_uid (sm_procs sm proc), hp_proc := proc\<rparr>) sm in
          if \<not> libsrpc_proc_is_valid sm1 proc then Some (- EINVALPROC, slot_error req off (- EINVALPROC) sm1)
          else if threads_run (sm_procs sm1 proc) = 0 then Some (- ENOTAVAILABLE, slot_error req off (- ENOTAVAILABLE) sm1)
          else case enqueue_tries (16 * 32) 0 (ev_queue env) req (proc_queue (sm_procs sm1 proc)) of
              None \<Rightarrow> None
            | Some (rc, q) \<Rightarrow>
                let sm2 = put_proc proc (\<lambda>p. p\<lparr>proc_queue := q\<rparr>) sm1 in
                if rc \<noteq> LF_QUEUE_OK then Some (- ENOMEM, slot_error req off (- ENOMEM) sm2)
                else if threads_wait (sm_procs sm2 proc) > 0 \<and> libsrpc_proc_is_valid sm2 proc
                then Some (0, put_proc proc (\<lambda>p. p\<lparr>proc_sem := sem_post (proc_sem p)\<rparr>) sm2)
                else Some (0, sm2))"

section \<open>Delivery to the registered processes\<close>

datatype libsrpc_flag_send_rpc = RPC_SEND_ALL | RPC_SEND_FIRST | RPC_SEND_LAST | RPC_SEND_RR

record send_state =
  sd_it :: u32
  sd_rr :: u32
  sd_last :: u64
  sd_shm :: shmem

text \<open>The loop over a block of process pointers.\<close>

fun send_walk :: "rpc_env \<Rightarrow> libsrpc_flag_send_rpc \<Rightarrow> u64 \<Rightarrow> u32 \<Rightarrow> u32 \<Rightarrow> u64 list \<Rightarrow> send_state \<Rightarrow> send_state option" where
  "send_walk env flags req rr_pos rn [] st = Some st"
| "send_walk env flags req rr_pos rn (p # ps) st =
     (if \<not> sd_it st < rn then Some st
      else if p = 0 then send_walk env flags req rr_pos rn ps st
      else if flags = RPC_SEND_LAST then send_walk env flags req rr_pos rn ps (st\<lparr>sd_last := p\<rparr>)
      else if flags = RPC_SEND_RR \<and> rr_pos \<noteq> sd_rr st then send_walk env flags req rr_pos rn ps (st\<lparr>sd_rr := sd_rr st + 1\<rparr>)
      else case libsrpc_send_request_one env p req (sd_it st) (sd_shm st) of
          None \<Rightarrow> None
        | Some (rc, sm) \<Rightarrow> send_walk env flags req rr_pos rn ps
            (st\<lparr>sd_it := (if rc = 0 then sd_it st + 1 else sd_it st),
                sd_rr := (if flags = RPC_SEND_RR then sd_rr st + 1 else sd_rr st), sd_shm := sm\<rparr>))"

text \<open>Which entries are wanted: the round-robin position, the number of answers, the new counters.\<close>

definition send_plan :: "libsrpc_flag_send_rpc \<Rightarrow> u64 \<Rightarrow> nat \<Rightarrow> shmem \<Rightarrow> u32 \<times> u32 \<times> shmem" where
  "send_plan flags req fidx sm =
     (let rn = retnum (sm_reqs sm req) in
      case flags of
        RPC_SEND_FIRST \<Rightarrow> (0, 1, put_req req (\<lambda>r. r\<lparr>retnum := 1\<rparr>) sm)
      | RPC_SEND_RR \<Rightarrow>
          let c = sm_send_rr sm ! fidx
          in (c mod (if rn > 1 then rn else 1), 1, put_req req (\<lambda>r. r\<lparr>retnum := 1\<rparr>) (sm\<lparr>sm_send_rr := (sm_send_rr sm)[fidx := c + 1]\<rparr>))
      | _ \<Rightarrow> (0, rn, sm))"

text \<open>The extension block is marked by the hazard pointer of the request while it is read. The result is
  the number of deliveries and the number of answers wanted.\<close>

definition send_dispatch :: "rpc_env \<Rightarrow> libsrpc_flag_send_rpc \<Rightarrow> u64 \<Rightarrow> nat \<Rightarrow> shmem \<Rightarrow> (u32 \<times> u32 \<times> shmem) option" where
  "send_dispatch env flags req fidx sm =
     (let f = sm_funcs sm ! fidx; eb = ext_block f; (rr_pos, rn, sm1) = send_plan flags req fidx sm in
      case send_walk env flags req rr_pos rn (main_block f) \<lparr>sd_it = 0, sd_rr = 0, sd_last = 0, sd_shm = sm1\<rparr> of
        None \<Rightarrow> None
      | Some st \<Rightarrow>
          (case (if eb \<noteq> 0 \<and> sd_it st < rn
                 then map_option (\<lambda>st. st\<lparr>sd_shm := put_req req (\<lambda>r. r\<lparr>hp_regfn := 0\<rparr>) (sd_shm st)\<rparr>)
                        (send_walk env flags req rr_pos rn (ext_procs sm eb) (st\<lparr>sd_shm := put_req req (\<lambda>r. r\<lparr>hp_regfn := eb\<rparr>) (sd_shm st)\<rparr>))
                 else Some st) of
             None \<Rightarrow> None
           | Some st \<Rightarrow>
               if flags = RPC_SEND_LAST \<and> sd_last st \<noteq> 0
               then map_option (\<lambda>(rc, sm). (if rc = 0 then sd_it st + 1 else sd_it st, 1, sm))
                      (libsrpc_send_request_one env (sd_last st) req (sd_it st) (sd_shm st))
               else Some (sd_it st, rn, sd_shm st)))"

section \<open>Waiting for the answers\<close>

definition mark_timeout :: "u64 \<Rightarrow> nat \<Rightarrow> shmem \<Rightarrow> shmem" where
  "mark_timeout req i sm =
     (case libsrpc_req_get_response_fast req (of_nat i) sm of
        None \<Rightarrow> sm
      | Some off \<Rightarrow>
          (case resp_try (rc_make RC_ST_ERROR (- ERPCWAITIMEDOUT)) (get_resp sm req off) of
             None \<Rightarrow> sm
           | Some s \<Rightarrow> put_resp req off (\<lambda>_. s) sm))"

definition slot_received :: "u64 \<Rightarrow> shmem \<Rightarrow> nat \<Rightarrow> bool" where
  "slot_received req sm i =
     (case libsrpc_req_get_response_fast req (of_nat i) sm of
        None \<Rightarrow> False
      | Some off \<Rightarrow>
          let s = get_resp sm req off
          in \<not> (hp_proc s \<noteq> 0 \<and> (resp_rc s = 0 \<or> rc_st (resp_rc s) = RC_ST_LOCK)))"

definition sem_take :: "nat option \<Rightarrow> nat option" where "sem_take s = map_option (\<lambda>n. n - 1) s"

fun wait_loop :: "(int \<times> (shmem \<Rightarrow> shmem)) list \<Rightarrow> u64 \<Rightarrow> nat \<Rightarrow> shmem \<Rightarrow> shmem option" where
  "wait_loop [] req n sm = None"
| "wait_loop ((err, eff) # ws) req n sm =
     (let sm1 = eff sm in
      if err = ETIMEDOUT \<or> err = EINVAL then Some (fold (mark_timeout req) [0..<n] sm1)
      else
        let sm2 = (if err = 0 then put_req req (\<lambda>r. r\<lparr>req_sem := sem_take (req_sem r)\<rparr>) sm1 else sm1) in
        if length (filter (slot_received req sm2) [0..<n]) < n then wait_loop ws req n sm2 else Some sm2)"

definition libsrpc_send_request :: "rpc_env \<Rightarrow> u64 \<Rightarrow> libsrpc_flag_send_rpc \<Rightarrow> srpc_ctx \<Rightarrow> shmem \<Rightarrow> (srpc_ctx \<times> shmem) option" where
  "libsrpc_send_request env req flags cx sm =
     (if req = 0 \<or> retnum (sm_reqs sm req) = 0 then Some (set_tls EINVAL cx, sm)
      else if \<not> libsrpc_shmem_get cx then Some (set_tls ESHMNOINIT cx, sm)
      else if srpc_disable_rpc_recursion cx then Some (set_tls ERECURSIVE cx, sm)
      else if \<not> rpc_enable cx then Some (set_tls ERPCDISABLE cx, sm)
      else
        let fidx = sRPC_ID2IDX (funid (sm_reqs sm req)) in
        if fidx < 0 \<or> fidx \<ge> int sRPC_FNNUM then Some (set_tls EINVAL cx, sm)
        else case send_dispatch env flags req (nat fidx) sm of
            None \<Rightarrow> None
          | Some (it, rn, sm1) \<Rightarrow>
              if it = 0 then Some (set_tls ENOTAVAILABLE cx, sm1)
              else
                let rn1 = (if it \<noteq> rn then it else rn);
                    sm2 = put_req req (\<lambda>r. r\<lparr>retnum := rn1\<rparr>) sm1;
                    (timeout, cx1) = pick_timeout (nat fidx) cx
                in map_option (\<lambda>sm3. (cx1, sm3)) (wait_loop (ev_wakes env timeout) req (unat rn1) sm2))"

section \<open>The request block of the thread\<close>

text \<open>\<open>cap\<close> is the capacity of the queues; \<open>None\<close>: the walk over the processes does not end.\<close>

definition libsrpc_req_is_busy_proc :: "u64 \<Rightarrow> u64 \<Rightarrow> srpc_ctx \<Rightarrow> shmem \<Rightarrow> bool option" where
  "libsrpc_req_is_busy_proc cap req cx sm =
     (if req = 0 \<or> \<not> libsrpc_shmem_get cx then Some False
      else Option.bind (list_foreach (sm_lists sm) (sm_proc_head sm))
        (any_proc (\<lambda>p. Some (lf_mpmc_queue_try_find_ptr cap req (proc_queue (sm_procs sm p)) = LF_QUEUE_OK \<or>
             req \<in> set (take (unat (threads_num (sm_procs sm p))) (threads_hp (sm_procs sm p))))) sm))"

definition slot_bad :: "u64 \<Rightarrow> shmem \<Rightarrow> nat \<Rightarrow> bool" where
  "slot_bad req sm i =
     (case libsrpc_req_get_response_fast req (of_nat i) sm of
        None \<Rightarrow> True
      | Some off \<Rightarrow>
          let rc = resp_rc (get_resp sm req off)
          in rc_st rc = RC_ST_LOCK \<or> rc_st rc = RC_ST_ERROR \<or> rc_int rc = - ERPCWAITIMEDOUT \<or> rc_int rc = 0)"

definition libsrpc_req_is_bad :: "u64 \<Rightarrow> shmem \<Rightarrow> bool" where
  "libsrpc_req_is_bad req sm = (req = 0 \<or> (\<exists>i \<in> set [0..<unat (retnum (sm_reqs sm req))]. slot_bad req sm i))"

definition libsrpc_req_free :: "u64 \<Rightarrow> srpc_ctx \<Rightarrow> shmem \<Rightarrow> (srpc_ctx \<times> shmem) option" where
  "libsrpc_req_free req cx sm =
     (if req = 0 then Some (cx, sm)
      else case libsrpc_list_remove req (sm_lists sm) of
          None \<Rightarrow> None
        | Some (_, ls) \<Rightarrow>
            let (cx1, sm1) = libsrpc_shmem_free_dc req cx (sm\<lparr>sm_lists := ls\<rparr>);
                (_, sm2) = libsrpc_shm_gc_wakeup cx1 sm1
            in Some (cx1, sm2))"

text \<open>A block of \<open>sz\<close> bytes after \<^verbatim>\<open>memset\<close>: every response in it reads as zero bytes up to the end.\<close>

definition zero_req :: "u64 \<Rightarrow> libsrpc_request" where
  "zero_req sz = \<lparr>req_sem = None, hp_regfn = 0, req_sign = 0, seq_num = 0, gc_lock_uid = [0, 0, 0, 0], funid = 0, bufsz = 0,
     retoff = 0, retsz = 0, retnum = 0, req_args = [],
     slots = \<lambda>off. \<lparr>hp_proc = 0, resp_rc = 0, resp_uid = 0, resp_buf = replicate (unat sz - 108 - unat off) 0\<rparr>\<rparr>"

definition req_layout :: "int \<Rightarrow> u32 \<Rightarrow> u32 \<Rightarrow> u32 \<Rightarrow> u64 \<Rightarrow> u32 \<Rightarrow> libsrpc_request \<Rightarrow> libsrpc_request" where
  "req_layout fid off rsz rn sz seq r =
     r\<lparr>seq_num := seq, funid := fid, bufsz := ucast sz, retoff := off, retsz := rsz, retnum := rn\<rparr>"

text \<open>The new block of the thread, put on the list of the process, with the collector locks of the old one.\<close>

definition req_install :: "u64 \<Rightarrow> u64 \<Rightarrow> srpc_ctx \<Rightarrow> shmem \<Rightarrow> srpc_ctx \<times> shmem" where
  "req_install req sz cx sm =
     (let req_old = current_req cx;
          locks = (if req_old \<noteq> 0 then gc_lock_uid (sm_reqs sm req_old) else [0, 0, 0, 0]);
          sm1 = put_req req (\<lambda>_. (zero_req sz)\<lparr>req_sign := LIBSRPC_REQ_SIGN, gc_lock_uid := locks, req_sem := Some 0\<rparr>) sm;
          ls1 = libsrpc_list_node_init req (sm_lists sm1);
          (_, ls2) = libsrpc_list_push_front (req_head_of (cx_proc cx)) req ls1
      in (cx\<lparr>current_req := req\<rparr>, sm1\<lparr>sm_lists := ls2\<rparr>))"

definition libsrpc_req_alloc :: "int \<Rightarrow> u32 \<Rightarrow> u32 \<Rightarrow> srpc_ctx \<Rightarrow> shmem \<Rightarrow> (u64 \<times> srpc_ctx \<times> shmem) option" where
  "libsrpc_req_alloc fid reqlen rlen cx sm =
     (if \<not> libsrpc_shmem_get cx then Some (0, set_tls ESHMNOINIT cx, sm)
      else
        let rn = num_all (sm_funcs sm ! nat (sRPC_ID2IDX fid)) in
        if rn = 0 then Some (0, set_tls ENOREGFUN cx, sm)
        else
          let off = ucast (ALIGNLONG (ucast reqlen)) :: u32;
              rsz = ucast (ALIGNLONG (RESP_SZ + ucast rlen)) :: u32;
              sz = REQ_SZ + ucast off + ucast rsz * ucast rn;
              old = current_req cx;
              finish = (\<lambda>req sz cx sm. (req, cx\<lparr>req_seq_num := req_seq_num cx + 1\<rparr>,
                 put_req req (req_layout fid off rsz rn sz (req_seq_num cx)) sm))
          in if \<not> libsrpc_req_is_bad old sm \<and> ucast (bufsz (sm_reqs sm old)) \<ge> sz then Some (finish old sz cx sm)
             else case libsrpc_shmem_malloc_type (sz * 2) LIBSRPC_SHMDT_REQUEST cx sm of
                 None \<Rightarrow> None
               | Some (req, cx1, sm1) \<Rightarrow>
                   if req = 0 then Some (0, set_tls ENOMEM cx1, sm1)
                   else
                     let (cx2, sm2) = req_install req (sz * 2) cx1 sm1 in
                     map_option (\<lambda>(cx3, sm3). finish req (sz * 2) cx3 sm3)
                       (if old \<noteq> 0 then libsrpc_req_free old cx2 sm2 else Some (cx2, sm2)))"

section \<open>The stub\<close>

text \<open>The body that the list of functions generates: \<open>sizes\<close> are the sizes of the parameter types, \<open>args\<close>
  the bytes of the arguments, \<open>rlen\<close> the size of the result type (0 for \<^verbatim>\<open>void\<close>). The result is the
  contents of the return buffer.\<close>

definition rpc_stub :: "rpc_env \<Rightarrow> libsrpc_flag_send_rpc \<Rightarrow> int \<Rightarrow> nat list \<Rightarrow> u8 list list \<Rightarrow> nat \<Rightarrow> srpc_ctx \<Rightarrow> shmem \<Rightarrow> (u8 list \<times> srpc_ctx \<times> shmem) option" where
  "rpc_stub env flags fid sizes args rlen cx sm =
     (let cx0 = cx\<lparr>cx_tls := libsrpc_errno_clear (cx_tls cx)\<rparr>; rbuf = replicate rlen 0; len = sum_list sizes in
      case libsrpc_req_alloc fid (of_nat len) (of_nat rlen) cx0 sm of
        None \<Rightarrow> None
      | Some (req, cx1, sm1) \<Rightarrow>
          if req = 0 then Some (rbuf, cx1, sm1)
          else
            let body = concat args; sm2 = put_req req (\<lambda>r. r\<lparr>req_args := body @ drop (length body) (req_args r)\<rparr>) sm1 in
            if length body \<noteq> len then Some (rbuf, set_tls EBADMSG cx1, sm2)
            else
              let resp = libsrpc_req_get_response_fast req 0 sm2 in
              case libsrpc_send_request env req flags cx1 sm2 of
                None \<Rightarrow> None
              | Some (cx2, sm3) \<Rightarrow>
                  (case libsrpc_req_response_get (map_option (\<lambda>off i. ev_late env i (get_resp sm3 req off)) resp) rlen cx2 of
                     ((grc, got), cx3) \<Rightarrow>
                       Some (case got of None \<Rightarrow> rbuf | Some bs \<Rightarrow> bs, if grc < 0 then set_tls (- grc) cx3 else cx3, sm3)))"

section \<open>What the operations leave alone\<close>

lemma put_resp_sel [simp]:
  "sm_procs (put_resp req off f sm) = sm_procs sm" "sm_lists (put_resp req off f sm) = sm_lists sm"
  "sm_pool (put_resp req off f sm) = sm_pool sm" "sm_funcs (put_resp req off f sm) = sm_funcs sm"
  by (simp_all add: put_resp_def)

lemma get_put_resp [simp]:
  "get_resp (put_resp req off f sm) req' off' = (if req' = req \<and> off' = off then f (get_resp sm req off) else get_resp sm req' off')"
  by (auto simp: get_resp_def put_resp_def)

lemma get_resp_put_proc [simp]: "get_resp (put_proc a g sm) req off = get_resp sm req off"
  by (simp add: get_resp_def)

text \<open>The geometry of a request: everything but its slots, semaphore, locks and arguments.\<close>

definition same_shape :: "libsrpc_request \<Rightarrow> libsrpc_request \<Rightarrow> bool" where
  "same_shape r r' \<longleftrightarrow> req_sign r' = req_sign r \<and> seq_num r' = seq_num r \<and> funid r' = funid r \<and> bufsz r' = bufsz r \<and>
     retoff r' = retoff r \<and> retsz r' = retsz r \<and> retnum r' = retnum r"

lemma same_shape_refl [simp]: "same_shape r r" by (simp add: same_shape_def)

lemma shape_size:
  assumes "same_shape r r'"
  shows "req_size r' = req_size r" "req_control r' = req_control r" "slot_offset r' i = slot_offset r i"
  using assms by (simp_all add: req_size_def req_control_def slot_offset_def same_shape_def)

lemma fast_shape: "same_shape (sm_reqs sm req) (sm_reqs sm' req) \<Longrightarrow>
    libsrpc_req_get_response_fast req i sm' = libsrpc_req_get_response_fast req i sm"
  by (simp add: libsrpc_req_get_response_fast_def shape_size Let_def) (simp add: same_shape_def)

lemma corrupted_shape: "same_shape (sm_reqs sm req) (sm_reqs sm' req) \<Longrightarrow>
    libsrpc_req_is_corrupted req c sm' = libsrpc_req_is_corrupted req c sm"
  by (cases c) (simp_all add: libsrpc_req_is_corrupted_def req_corrupted_def shape_size, simp_all add: same_shape_def)

lemma put_resp_shape [simp]: "same_shape (sm_reqs sm req) (sm_reqs (put_resp req' off f sm) req)"
  by (auto simp: put_resp_def same_shape_def)

lemma fast_put_resp [simp]: "libsrpc_req_get_response_fast req i (put_resp req' off f sm) = libsrpc_req_get_response_fast req i sm"
  by (rule fast_shape) simp

lemma fast_put_proc [simp]: "libsrpc_req_get_response_fast req i (put_proc p f sm) = libsrpc_req_get_response_fast req i sm"
  by (rule fast_shape) simp

lemma valid_put_resp [simp]: "libsrpc_proc_is_valid (put_resp a o' f sm) p = libsrpc_proc_is_valid sm p"
  by (simp add: libsrpc_proc_is_valid_def)

section \<open>Delivery\<close>

lemma enqueue_tries_full:
  assumes "mq_ok cap q xs" "length xs = unat cap"
  shows "enqueue_tries n k (\<lambda>_ q. q) req q = Some (LF_QUEUE_FULL, q)"
  using enqueue_full [of cap q xs] assms by (induction n arbitrary: k) (auto simp: mq_ok_def queue_codes)

lemma enqueue_tries_room:
  assumes "mq_ok cap q xs" "length xs < unat cap"
  obtains q' where "\<forall>n k. enqueue_tries (Suc n) k (\<lambda>_ q. q) req q = Some (LF_QUEUE_OK, q')" "mq_ok cap q' (xs @ [req])"
  using mq.enq_room [OF assms, of req] by (auto simp: LF_QUEUE_OK_def)

lemma send_one_cases:
  assumes "libsrpc_req_get_response_fast req it sm = Some off" "mq_ok cap (proc_queue (sm_procs sm proc)) xs"
    "ev_queue env = (\<lambda>_ q. q)"
  obtains (refused) rc where "libsrpc_send_request_one env proc req it sm = Some (rc, slot_error req off rc
        (put_resp req off (\<lambda>s. s\<lparr>resp_rc := 0, resp_uid := proc_uid (sm_procs sm proc), hp_proc := proc\<rparr>) sm))"
      "rc = - EINVALPROC \<and> \<not> libsrpc_proc_is_valid sm proc \<or>
       rc = - ENOTAVAILABLE \<and> libsrpc_proc_is_valid sm proc \<and> threads_run (sm_procs sm proc) = 0 \<or>
       rc = - ENOMEM \<and> libsrpc_proc_is_valid sm proc \<and> threads_run (sm_procs sm proc) \<noteq> 0 \<and> length xs = unat cap"
  | (sent) q where "libsrpc_proc_is_valid sm proc" "threads_run (sm_procs sm proc) \<noteq> 0" "length xs < unat cap" "mq_ok cap q (xs @ [req])"
      "libsrpc_send_request_one env proc req it sm = Some (0,
         put_proc proc (\<lambda>p. p\<lparr>proc_queue := q, proc_sem := (if threads_wait p > 0 then sem_post (proc_sem p) else proc_sem p)\<rparr>)
           (put_resp req off (\<lambda>s. s\<lparr>resp_rc := 0, resp_uid := proc_uid (sm_procs sm proc), hp_proc := proc\<rparr>) sm))"
proof -
  let ?p = "sm_procs sm proc"
  consider (v) "\<not> libsrpc_proc_is_valid sm proc" | (t) "libsrpc_proc_is_valid sm proc" "threads_run ?p = 0"
    | (f) "libsrpc_proc_is_valid sm proc" "threads_run ?p \<noteq> 0" "length xs = unat cap"
    | (s) "libsrpc_proc_is_valid sm proc" "threads_run ?p \<noteq> 0" "length xs < unat cap"
    using mq_repD(2) assms(2) by (fastforce simp: mq_ok_def)
  then show thesis
  proof cases
    case f
    have "put_proc proc (\<lambda>p. p\<lparr>proc_queue := proc_queue ?p\<rparr>) s = s" if "sm_procs s = sm_procs sm" for s
      using that by (simp add: put_proc_def)
    with f enqueue_tries_full [OF assms(2)] show thesis
      by (intro refused [of "- ENOMEM"]) (simp_all add: libsrpc_send_request_one_def assms(1,3) queue_codes)
  next
    case s
    obtain q where q: "\<forall>n k. enqueue_tries (Suc n) k (\<lambda>_ q. q) req (proc_queue ?p) = Some (LF_QUEUE_OK, q)" "mq_ok cap q (xs @ [req])"
      by (rule enqueue_tries_room [OF assms(2) s(3), of req])
    have e: "enqueue_tries 512 0 (\<lambda>_ q. q) req (proc_queue ?p) = Some (LF_QUEUE_OK, q)"
      using q(1) [THEN spec [of _ 511], THEN spec [of _ 0]] by simp
    show thesis by (rule sent [OF s q(2)])
      (use s e in \<open>auto simp: libsrpc_send_request_one_def assms(1,3) put_proc_def libsrpc_proc_is_valid_def Let_def\<close>)
  qed (auto intro!: refused simp: libsrpc_send_request_one_def assms(1))
qed

section \<open>Giving up\<close>

definition gave_up :: srpc_rc where "gave_up = rc_make RC_ST_ERROR (- ERPCWAITIMEDOUT)"

lemma mark_timeout_shape: "same_shape (sm_reqs sm req) (sm_reqs (mark_timeout req i sm) req)"
  by (auto simp: mark_timeout_def split: option.splits)

lemma mark_timeouts:
  "same_shape (sm_reqs sm req) (sm_reqs (fold (mark_timeout req) is sm) req) \<and>
   (\<forall>off. resp_rc (get_resp (fold (mark_timeout req) is sm) req off) =
      (if (\<exists>i \<in> set is. libsrpc_req_get_response_fast req (of_nat i) sm = Some off) \<and> resp_rc (get_resp sm req off) = 0
       then gave_up else resp_rc (get_resp sm req off)))"
proof (induction "is" arbitrary: sm)
  case (Cons i "is")
  let ?sm = "mark_timeout req i sm"
  have f: "libsrpc_req_get_response_fast req j ?sm = libsrpc_req_get_response_fast req j sm" for j
    by (rule fast_shape [OF mark_timeout_shape])
  have r: "resp_rc (get_resp ?sm req off) =
      (if libsrpc_req_get_response_fast req (of_nat i) sm = Some off \<and> resp_rc (get_resp sm req off) = 0
       then gave_up else resp_rc (get_resp sm req off))" for off
    by (auto simp: mark_timeout_def resp_try_def gave_up_def split: option.splits if_splits)
  have "gave_up \<noteq> 0" by (simp add: gave_up_def)
  moreover have "same_shape (sm_reqs sm req) (sm_reqs (fold (mark_timeout req) is ?sm) req)"
    using Cons.IH [of ?sm] mark_timeout_shape [of sm req i] by (simp add: same_shape_def)
  ultimately show ?case using Cons.IH [of ?sm] f r by auto
qed simp

lemma fast_retnum: "libsrpc_req_get_response_fast req i sm = Some off \<Longrightarrow> i < retnum (sm_reqs sm req)"
  by (auto simp: libsrpc_req_get_response_fast_def Let_def split: if_splits)

lemma bad_slot_bad_req:
  assumes "libsrpc_req_get_response_fast req i sm = Some off" "rc_st (resp_rc (get_resp sm req off)) = RC_ST_ERROR \<or> rc_st (resp_rc (get_resp sm req off)) = RC_ST_LOCK"
  shows "libsrpc_req_is_bad req sm"
proof -
  have "unat i < unat (retnum (sm_reqs sm req))" using fast_retnum [OF assms(1)] by (simp add: word_less_nat_alt)
  moreover have "slot_bad req sm (unat i)" using assms by (auto simp: slot_bad_def Let_def)
  ultimately show ?thesis by (auto simp: libsrpc_req_is_bad_def)
qed

section \<open>The request block\<close>

lemma ALIGNLONG_nat:
  assumes "unat x + 7 < 2 ^ 64" shows "unat (ALIGNLONG x) = (unat x + 7) div 8 * 8"
proof -
  have m: "(7 :: u64) = mask 3" by (simp add: mask_eq_exp_minus_1)
  have "y AND NOT (mask 3) = push_bit 3 (drop_bit 3 y)" for y :: u64
    by (rule bit_word_eqI) (auto simp: bit_and_iff bit_not_iff bit_mask_iff bit_push_bit_iff bit_drop_bit_eq)
  from this [of "x + 7"] have "ALIGNLONG x = push_bit 3 (drop_bit 3 (x + 7))" by (simp only: ALIGNLONG_def m [symmetric])
  moreover have "unat (drop_bit 3 (x + 7)) = (unat x + 7) div 8"
    unfolding unat_drop_bit_eq using assms by (simp add: drop_bit_eq_div unat_add_nowrap)
  moreover have "(unat x + 7) div 8 * 8 < 2 ^ 64" using assms by (metis div_times_less_eq_dividend le_less_trans)
  ultimately show ?thesis by (simp add: push_bit_eq_mult unat_word_ariths)
qed

text \<open>The size of a request block with \<open>n\<close> answers of \<open>r\<close> bytes and \<open>a\<close> bytes of arguments.\<close>

definition block_bytes :: "nat \<Rightarrow> nat \<Rightarrow> nat \<Rightarrow> nat" where
  "block_bytes a r n = 96 + (a + 7) div 8 * 8 + (r + 23) div 8 * 8 * n"

lemma alloc_sizes:
  fixes len rlen n :: u32
  assumes "unat len \<le> 65536" "unat rlen \<le> 32768" "unat n \<le> 10000"
    and "off = (ucast (ALIGNLONG (ucast len)) :: u32)" "rsz = (ucast (ALIGNLONG (RESP_SZ + ucast rlen)) :: u32)"
  shows "unat off = (unat len + 7) div 8 * 8" "unat rsz = (unat rlen + 23) div 8 * 8"
    "unat (REQ_SZ + ucast off + ucast rsz * ucast (n :: u32)) = block_bytes (unat len) (unat rlen) (unat n)"
    "block_bytes (unat len) (unat rlen) (unat n) \<le> 328200000"
proof -
  have r16: "unat (RESP_SZ + ucast rlen :: u64) = unat rlen + 16"
    using assms(2) by (subst unat_add_nowrap) (simp_all add: RESP_SZ_def)
  have a1: "unat (ALIGNLONG (ucast len)) = (unat len + 7) div 8 * 8" using assms(1) by (subst ALIGNLONG_nat) simp_all
  have a2: "unat (ALIGNLONG (RESP_SZ + ucast rlen)) = (unat rlen + 23) div 8 * 8"
    using assms(2) by (subst ALIGNLONG_nat) (simp_all add: r16)
  have small: "(unat len + 7) div 8 * 8 \<le> 65543" "(unat rlen + 23) div 8 * 8 \<le> 32791" using assms(1,2) by simp_all
  show o: "unat off = (unat len + 7) div 8 * 8" "unat rsz = (unat rlen + 23) div 8 * 8"
    using a1 a2 small by (simp_all add: assms(4,5) unsigned_ucast_eq take_bit_nat_eq_self)
  have b: "unat off \<le> 65543" "unat rsz \<le> 32791" using o small by simp_all
  have "unat rsz * unat n \<le> 32791 * 10000" by (intro mult_le_mono b assms)
  then have m: "unat rsz * unat n \<le> 327910000" by simp
  have u: "unat (ucast rsz * ucast n :: u64) = unat rsz * unat n" using m by (simp add: unat_word_ariths)
  have v: "unat (REQ_SZ + ucast off) = 96 + unat off" using b(1) by (subst unat_add_nowrap) (simp_all add: REQ_SZ_def)
  have "unat (REQ_SZ + ucast off + ucast rsz * ucast n) = unat (REQ_SZ + ucast off) + unat (ucast rsz * ucast n :: u64)"
    by (rule unat_add_nowrap, subst u, subst v) (use m b in simp)
  also have "\<dots> = block_bytes (unat len) (unat rlen) (unat n)" unfolding u v o block_bytes_def ..
  finally show "unat (REQ_SZ + ucast off + ucast rsz * ucast n) = block_bytes (unat len) (unat rlen) (unat n)" .
  have "block_bytes (unat len) (unat rlen) (unat n) = 96 + unat off + unat rsz * unat n" unfolding o block_bytes_def ..
  then show "block_bytes (unat len) (unat rlen) (unat n) \<le> 328200000" using m b(1) by linarith
qed

lemma shm_malloc_frame:
  assumes "libsrpc_shmem_malloc_type sz ty cx sm = Some (p, cx', sm')"
  shows "cx' = cx\<lparr>cx_tls := cx_tls cx'\<rparr>" "sm' = sm\<lparr>sm_pool := sm_pool sm'\<rparr>"
  using assms by (auto simp: libsrpc_shmem_malloc_type_def shm_call_def on_pool_def set_tls_def split: if_splits)

lemma req_free_frame:
  assumes "libsrpc_req_free req cx sm = Some (cx', sm')"
  shows "cx' = cx\<lparr>cx_tls := cx_tls cx'\<rparr>" "sm' = sm\<lparr>sm_lists := sm_lists sm', sm_pool := sm_pool sm', sm_gc_sem := sm_gc_sem sm'\<rparr>"
  using assms
  by (auto simp: libsrpc_req_free_def libsrpc_shmem_free_dc_def libsrpc_shm_gc_wakeup_def set_tls_def Let_def
      split: if_splits option.splits prod.splits)

text \<open>A successful allocation: the block of the thread has the layout of the call, and only the pool, the
  lists, this request and the collector's semaphore changed.\<close>

definition fresh_req :: "u64 \<Rightarrow> srpc_ctx \<Rightarrow> shmem \<Rightarrow> libsrpc_request" where
  "fresh_req sz cx sm = (zero_req sz)\<lparr>req_sign := LIBSRPC_REQ_SIGN, req_sem := Some 0,
     gc_lock_uid := (if current_req cx \<noteq> 0 then gc_lock_uid (sm_reqs sm (current_req cx)) else [0, 0, 0, 0])\<rparr>"

lemma req_install_frame:
  assumes "req_install req sz cx sm = (cx', sm')"
  shows "cx' = cx\<lparr>current_req := req\<rparr>" "sm' = (put_req req (\<lambda>_. fresh_req sz cx sm) sm)\<lparr>sm_lists := sm_lists sm'\<rparr>"
  using assms by (auto simp: req_install_def Let_def zero_req_def fresh_req_def split: prod.splits)

lemma req_alloc_result:
  fixes len rlen :: u32
  defines "off \<equiv> ucast (ALIGNLONG (ucast len)) :: u32" and "rsz \<equiv> ucast (ALIGNLONG (RESP_SZ + ucast rlen)) :: u32"
  assumes run: "libsrpc_req_alloc fid len rlen cx sm = Some (req, cx1, sm1)" "req \<noteq> 0"
    and rn: "rn = num_all (sm_funcs sm ! nat (sRPC_ID2IDX fid))" and S: "S = REQ_SZ + ucast off + ucast rsz * ucast rn"
  obtains t c ls g r sz where "cx1 = cx\<lparr>current_req := req, req_seq_num := req_seq_num cx + 1, cx_tls := t\<rparr>"
    "sm1 = (put_req req (\<lambda>_. req_layout fid off rsz rn sz (req_seq_num cx) r) sm)\<lparr>sm_pool := c, sm_lists := ls, sm_gc_sem := g\<rparr>"
    "rn \<noteq> 0" "libsrpc_shmem_get cx"
    "sz = S \<and> r = sm_reqs sm req \<and> req = current_req cx \<and> S \<le> ucast (bufsz (sm_reqs sm req)) \<or>
     sz = S * 2 \<and> r = fresh_req sz cx sm"
proof -
  have n: "rn \<noteq> 0" and g: "libsrpc_shmem_get cx" using run by (auto simp: libsrpc_req_alloc_def rn split: if_splits)
  let ?old = "current_req cx"
  show thesis
  proof (cases "\<not> libsrpc_req_is_bad ?old sm \<and> S \<le> ucast (bufsz (sm_reqs sm ?old))")
    case True
    have "libsrpc_req_alloc fid len rlen cx sm =
        Some (?old, cx\<lparr>req_seq_num := req_seq_num cx + 1\<rparr>, put_req ?old (req_layout fid off rsz rn S (req_seq_num cx)) sm)"
      using g n True by (simp add: libsrpc_req_alloc_def Let_def flip: off_def rsz_def rn S)
    with run(1) have "Some (?old, cx\<lparr>req_seq_num := req_seq_num cx + 1\<rparr>, put_req ?old (req_layout fid off rsz rn S (req_seq_num cx)) sm) = Some (req, cx1, sm1)"
      by (simp only:)
    then have "req = ?old" "cx1 = cx\<lparr>req_seq_num := req_seq_num cx + 1\<rparr>"
      "sm1 = put_req ?old (req_layout fid off rsz rn S (req_seq_num cx)) sm" by blast+
    with True n g show thesis
      by (intro that [where t = "cx_tls cx" and c = "sm_pool sm" and ls = "sm_lists sm" and g = "sm_gc_sem sm" and r = "sm_reqs sm req" and sz = S])
         (simp_all add: put_req_def)
  next
    case False
    obtain cxm smm where m: "libsrpc_shmem_malloc_type (S * 2) LIBSRPC_SHMDT_REQUEST cx sm = Some (req, cxm, smm)"
      and rest: "(case req_install req (S * 2) cxm smm of (cx2, sm2) \<Rightarrow>
        map_option (\<lambda>(cx3, sm3). (req, cx3\<lparr>req_seq_num := req_seq_num cx3 + 1\<rparr>, put_req req (req_layout fid off rsz rn (S * 2) (req_seq_num cx3)) sm3))
          (if ?old \<noteq> 0 then libsrpc_req_free ?old cx2 sm2 else Some (cx2, sm2))) = Some (req, cx1, sm1)"
      using run g n False
      by (auto simp: libsrpc_req_alloc_def Let_def split: option.splits prod.splits if_splits simp flip: off_def rsz_def rn S)
    note f = shm_malloc_frame [OF m]
    obtain cx2 sm2 where i: "req_install req (S * 2) cxm smm = (cx2, sm2)" by force
    obtain cx3 sm3 where fr: "(if ?old \<noteq> 0 then libsrpc_req_free ?old cx2 sm2 else Some (cx2, sm2)) = Some (cx3, sm3)"
      "cx1 = cx3\<lparr>req_seq_num := req_seq_num cx3 + 1\<rparr>" "sm1 = put_req req (req_layout fid off rsz rn (S * 2) (req_seq_num cx3)) sm3"
      using rest by (auto simp: i)
    have e: "fresh_req (S * 2) cxm smm = fresh_req (S * 2) cx sm" by (subst f, subst f) (simp add: fresh_req_def)
    have fr3: "cx3 = cx2\<lparr>cx_tls := cx_tls cx3\<rparr>" "sm3 = sm2\<lparr>sm_lists := sm_lists sm3, sm_pool := sm_pool sm3, sm_gc_sem := sm_gc_sem sm3\<rparr>"
      using fr(1) req_free_frame [of ?old cx2 sm2 cx3 sm3] by (auto split: if_splits)
    note i2 = req_install_frame [OF i]
    have "cx3 = cx\<lparr>current_req := req, cx_tls := cx_tls cx3\<rparr>" by (subst fr3(1), subst i2(1), subst f(1)) simp
    then obtain t where t: "cx3 = cx\<lparr>current_req := req, cx_tls := t\<rparr>" by blast
    have "sm3 = (put_req req (\<lambda>_. fresh_req (S * 2) cx sm) sm)\<lparr>sm_lists := sm_lists sm3, sm_pool := sm_pool sm3, sm_gc_sem := sm_gc_sem sm3\<rparr>"
      by (subst fr3(2), subst i2(2), subst f(2)) (simp add: e put_req_def)
    then obtain ls c gs where l: "sm3 = (put_req req (\<lambda>_. fresh_req (S * 2) cx sm) sm)\<lparr>sm_lists := ls, sm_pool := c, sm_gc_sem := gs\<rparr>" by blast
    show thesis
      by (rule that [where t = t and c = c and ls = ls and g = gs and r = "fresh_req (S * 2) cx sm" and sz = "S * 2"])
         (use n g in \<open>simp_all add: fr(2,3) t l put_req_def\<close>)
  qed
qed

lemma req_alloc_frame:
  fixes len rlen :: u32
  assumes "libsrpc_req_alloc fid len rlen cx sm = Some (req, cx1, sm1)" "req \<noteq> 0"
  obtains t where "cx1 = cx\<lparr>current_req := req, req_seq_num := req_seq_num cx + 1, cx_tls := t\<rparr>" "libsrpc_shmem_get cx"
    "sm_procs sm1 = sm_procs sm" "sm_funcs sm1 = sm_funcs sm"
    "current_req cx = 0 \<Longrightarrow> \<exists>sz. slots (sm_reqs sm1 req) = slots (zero_req sz) \<and> req_args (sm_reqs sm1 req) = [] \<and> req_sem (sm_reqs sm1 req) = Some 0 \<and>
       sz = 2 * (REQ_SZ + ucast (retoff (sm_reqs sm1 req)) + ucast (retsz (sm_reqs sm1 req)) * ucast (retnum (sm_reqs sm1 req)))"
proof -
  define off where "off = (ucast (ALIGNLONG (ucast len)) :: u32)"
  define rsz where "rsz = (ucast (ALIGNLONG (RESP_SZ + ucast rlen)) :: u32)"
  define rn where "rn = num_all (sm_funcs sm ! nat (sRPC_ID2IDX fid))"
  define S where "S = REQ_SZ + ucast off + ucast rsz * (ucast rn :: u64)"
  obtain t c ls g r sz where a: "cx1 = cx\<lparr>current_req := req, req_seq_num := req_seq_num cx + 1, cx_tls := t\<rparr>"
    "sm1 = (put_req req (\<lambda>_. req_layout fid off rsz rn sz (req_seq_num cx) r) sm)\<lparr>sm_pool := c, sm_lists := ls, sm_gc_sem := g\<rparr>"
    "rn \<noteq> 0" "libsrpc_shmem_get cx"
    "sz = S \<and> r = sm_reqs sm req \<and> req = current_req cx \<and> S \<le> ucast (bufsz (sm_reqs sm req)) \<or> sz = S * 2 \<and> r = fresh_req sz cx sm"
    by (rule req_alloc_result [OF assms rn_def refl, folded off_def rsz_def, folded S_def])
  show thesis
  proof (rule that [OF a(1,4)])
    show "sm_procs sm1 = sm_procs sm" "sm_funcs sm1 = sm_funcs sm" by (simp_all add: a(2))
    show "\<exists>sz. slots (sm_reqs sm1 req) = slots (zero_req sz) \<and> req_args (sm_reqs sm1 req) = [] \<and> req_sem (sm_reqs sm1 req) = Some 0 \<and>
       sz = 2 * (REQ_SZ + ucast (retoff (sm_reqs sm1 req)) + ucast (retsz (sm_reqs sm1 req)) * ucast (retnum (sm_reqs sm1 req)))"
      if "current_req cx = 0"
      using a(5) assms(2) that
      by (intro exI [of _ sz]) (auto simp: a(2) req_layout_def fresh_req_def S_def zero_req_def)
  qed
qed

lemma req_alloc_usable_aux:
  fixes len rlen :: u32
  assumes "libsrpc_req_alloc fid len rlen cx sm = Some (req, cx1, sm1)" "req \<noteq> 0"
    "unat len \<le> 65536" "unat rlen \<le> 32768" "unat (num_all (sm_funcs sm ! nat (sRPC_ID2IDX fid))) \<le> 10000"
    "current_req cx \<noteq> 0 \<longrightarrow> req_sign (sm_reqs sm (current_req cx)) = LIBSRPC_REQ_SIGN"
  shows "\<not> libsrpc_req_is_corrupted req None sm1" "funid (sm_reqs sm1 req) = fid"
    "unat (retoff (sm_reqs sm1 req)) = (unat len + 7) div 8 * 8" "unat (retsz (sm_reqs sm1 req)) = (unat rlen + 23) div 8 * 8"
    "retnum (sm_reqs sm1 req) = num_all (sm_funcs sm ! nat (sRPC_ID2IDX fid))" "retnum (sm_reqs sm1 req) \<noteq> 0"
    "i < retnum (sm_reqs sm1 req) \<Longrightarrow> libsrpc_req_get_response_fast req i sm1 = Some (slot_offset (sm_reqs sm1 req) i)"
proof -
  let ?n = "num_all (sm_funcs sm ! nat (sRPC_ID2IDX fid))"
  define off where "off = (ucast (ALIGNLONG (ucast len)) :: u32)"
  define rsz where "rsz = (ucast (ALIGNLONG (RESP_SZ + ucast rlen)) :: u32)"
  define S where "S = REQ_SZ + ucast off + ucast rsz * (ucast ?n :: u64)"
  note z = alloc_sizes [OF assms(3,4,5) off_def rsz_def]
  obtain t c ls g r sz where a: "cx1 = cx\<lparr>current_req := req, req_seq_num := req_seq_num cx + 1, cx_tls := t\<rparr>"
    "sm1 = (put_req req (\<lambda>_. req_layout fid off rsz ?n sz (req_seq_num cx) r) sm)\<lparr>sm_pool := c, sm_lists := ls, sm_gc_sem := g\<rparr>"
    "?n \<noteq> 0" "libsrpc_shmem_get cx"
    "sz = S \<and> r = sm_reqs sm req \<and> req = current_req cx \<and> S \<le> ucast (bufsz (sm_reqs sm req)) \<or> sz = S * 2 \<and> r = fresh_req sz cx sm"
    by (rule req_alloc_result [OF assms(1,2) refl refl, folded off_def rsz_def, folded S_def])
  have R: "sm_reqs sm1 req = req_layout fid off rsz ?n sz (req_seq_num cx) r" by (simp add: a(2))
  have us: "unat S = block_bytes (unat len) (unat rlen) (unat ?n)" using z(3) by (simp add: S_def)
  have "unat (S * 2) = unat S * 2" using us z(4) by (simp add: unat_word_ariths)
  then have "unat S \<le> unat sz" "unat sz < 2 ^ 32" using a(5) us z(4) by auto
  then have b: "unat S \<le> unat (ucast sz :: u32)" by (simp add: unsigned_ucast_eq take_bit_nat_eq_self)
  have "req_size (sm_reqs sm1 req) = S" by (simp add: R req_layout_def req_size_def S_def)
  with b have ok: "\<not> ucast (bufsz (sm_reqs sm1 req)) < req_size (sm_reqs sm1 req)"
    by (simp add: R req_layout_def word_less_nat_alt)
  have sign: "req_sign r = LIBSRPC_REQ_SIGN" using a(5) assms(2,6) by (auto simp: fresh_req_def)
  have rs: "rsz \<noteq> 0" using z(2) by (auto simp: unat_eq_0)
  show "\<not> libsrpc_req_is_corrupted req None sm1"
    using ok sign rs a(3) assms(2) by (simp add: libsrpc_req_is_corrupted_def req_corrupted_def R req_layout_def)
  show "funid (sm_reqs sm1 req) = fid" "retnum (sm_reqs sm1 req) = ?n" "retnum (sm_reqs sm1 req) \<noteq> 0"
    "unat (retoff (sm_reqs sm1 req)) = (unat len + 7) div 8 * 8" "unat (retsz (sm_reqs sm1 req)) = (unat rlen + 23) div 8 * 8"
    using a(3) z(1,2) by (simp_all add: R req_layout_def)
  show "libsrpc_req_get_response_fast req i sm1 = Some (slot_offset (sm_reqs sm1 req) i)" if "i < retnum (sm_reqs sm1 req)"
    using ok that assms(2) by (simp add: libsrpc_req_get_response_fast_def Let_def not_le)
qed

section \<open>Properties\<close>

text \<open>C29: Delivery to one process, when nobody else touches its queue: it always returns, and either the
  request is the newest element of the queue of a running process that has threads, with the slot
  empty and its hazard pointer on that process; or the queue is as before, the hazard pointer is
  cleared and the slot holds the error code that is returned.\<close>

theorem send_one_outcome:
  assumes "libsrpc_req_get_response_fast req it sm = Some off" "mq_ok cap (proc_queue (sm_procs sm proc)) xs"
    "ev_queue env = (\<lambda>_ q. q)"
  shows "\<exists>rc sm'. libsrpc_send_request_one env proc req it sm = Some (rc, sm') \<and>
    (if rc = 0
     then libsrpc_proc_is_valid sm proc \<and> mq_ok cap (proc_queue (sm_procs sm' proc)) (xs @ [req]) \<and>
       resp_rc (get_resp sm' req off) = 0 \<and> hp_proc (get_resp sm' req off) = proc \<and>
       resp_uid (get_resp sm' req off) = proc_uid (sm_procs sm proc)
     else rc < 0 \<and> mq_ok cap (proc_queue (sm_procs sm' proc)) xs \<and>
       resp_rc (get_resp sm' req off) = rc_make RC_ST_ERROR rc \<and> hp_proc (get_resp sm' req off) = 0)"
  using assms
proof (cases rule: send_one_cases [where proc = proc and env = env])
  case (refused rc)
  then have "rc < 0" by (auto simp: srpc_codes)
  with refused assms(2) show ?thesis by (simp add: slot_error_def)
next
  case (sent q)
  then show ?thesis by simp
qed



text \<open>A program whose function 2 (\<^verbatim>\<open>calc_add\<close>) is registered by the process at 2048, with one worker thread.\<close>

definition call_shm :: shmem where
  "call_shm = empty_registry\<lparr>sm_pool := new_pool 8192, sm_lists := two_lists,
     sm_funcs := (sm_funcs empty_registry)[2 := \<lparr>num_all = 1, ext_block = 0, main_block = [2048, 0, 0, 0, 0, 0, 0, 0]\<rparr>],
     sm_procs := (\<lambda>_. some_proc)(1024 := run_proc 2,
       2048 := (run_proc 5)\<lparr>proc_queue := lf_mpmc_queue_init 2 (proc_queue some_proc), threads_num := 1, threads_hp := [0]\<rparr>)\<rparr>"

definition call_cx :: srpc_ctx where "call_cx = some_cx\<lparr>current_req := 0\<rparr>"

lemma call_shm_func: "sm_funcs call_shm ! 2 = \<lparr>num_all = 1, ext_block = 0, main_block = [2048, 0, 0, 0, 0, 0, 0, 0]\<rparr>"
  by (simp add: call_shm_def empty_registry_def)

lemma call_alloc:
  assumes "libsrpc_shmem_get cx" "current_req cx = 0" "cx_uid cx = 2" "cx_caller cx = me"
  obtains req cx1 sm1 where "libsrpc_req_alloc 19 8 4 cx call_shm = Some (req, cx1, sm1)" "req \<noteq> 0"
proof -
  note inv = new_pool_inv [OF pool_args_concrete(2)]
  have "request_to_block_size 256 = 320" by code_simp
  then have fits: "\<exists>b \<in> set [10816]. block_is_free (new_pool 8192) b \<and> request_to_block_size 256 \<le> block_size (new_pool 8192) b"
    using inv(3,4) by (auto simp: free_blocks_member block_word)
  obtain p c' bs' where m: "tlsf_malloc me 4096 256 2 3 (new_pool 8192) = Some (p, c')" "alloc_effect (new_pool 8192) [10816] 256 2 3 p c' bs'"
    using malloc_small_cases [OF inv(1), of 4096 2 256 me 3] fits by auto
  have p: "p \<noteq> 0" using m(2) by (simp add: alloc_effect_def)
  have g: "sm_poolptr call_shm = 4096" "sm_pool call_shm = new_pool 8192"
    by (simp_all add: call_shm_def empty_registry_def some_shm_def)
  have "libsrpc_shmem_malloc_type 256 LIBSRPC_SHMDT_REQUEST cx call_shm = Some (p, set_tls (tlsf_errno c') cx, call_shm\<lparr>sm_pool := c'\<rparr>)"
    unfolding libsrpc_shmem_malloc_type_def
    by (rule shm_call_ready [OF assms(1)]) (simp add: assms(3,4) g m(1) shm_types)
  moreover have sz: "ucast (ALIGNLONG (ucast (8 :: u32))) = (8 :: u32)" "ucast (ALIGNLONG (RESP_SZ + ucast (4 :: u32))) = (24 :: u32)"
    by code_simp+
  moreover have "nat (sRPC_ID2IDX 19) = 2" by (simp add: sRPC_ID2IDX_def sRPCFNID_START_def)
  moreover obtain cx2 sm2 where "req_install p 256 (set_tls (tlsf_errno c') cx) (call_shm\<lparr>sm_pool := c'\<rparr>) = (cx2, sm2)" by force
  ultimately have "libsrpc_req_alloc 19 8 4 cx call_shm = Some (p, cx2\<lparr>req_seq_num := req_seq_num cx2 + 1\<rparr>,
      put_req p (req_layout 19 8 24 1 256 (req_seq_num cx2)) sm2)"
    using assms(1,2) p by (simp add: libsrpc_req_alloc_def Let_def call_shm_func REQ_SZ_def libsrpc_req_is_bad_def)
  with p show thesis by (rule that [rotated])
qed

lemma call_cx_ok: "libsrpc_shmem_get call_cx" "current_req call_cx = 0" "cx_uid call_cx = 2" "cx_caller call_cx = me"
  by (simp_all add: call_cx_def some_cx_def libsrpc_shmem_get_def)


lemma send_one_outcome_witness:
  "\<exists>sm'. libsrpc_send_request_one \<lparr>ev_queue = \<lambda>_ q. q, ev_wakes = \<lambda>_. [], ev_late = \<lambda>_ s. s\<rparr> 2048 64 0 call_shm = Some (0, sm') \<and>
     mq_ok 2 (proc_queue (sm_procs sm' 2048)) [64]"
proof -
  let ?e = "\<lparr>ev_queue = \<lambda>_ q. q, ev_wakes = \<lambda>_. [], ev_late = \<lambda>_ s. s\<rparr>"
  have p: "sm_procs call_shm 2048 = (run_proc 5)\<lparr>proc_queue := lf_mpmc_queue_init 2 (proc_queue some_proc), threads_num := 1, threads_hp := [0]\<rparr>"
    by (simp add: call_shm_def)
  have f: "libsrpc_req_get_response_fast 64 0 call_shm = Some 8"
    by (simp add: libsrpc_req_get_response_fast_def call_shm_def empty_registry_def some_shm_def some_req_def req_size_def REQ_SZ_def slot_offset_def)
  have q: "mq_ok 2 (proc_queue (sm_procs call_shm 2048)) []" by (simp add: p mq_ok_def good_cap_2 init_rep)
  have v: "libsrpc_proc_is_valid call_shm 2048" "threads_run (sm_procs call_shm 2048) \<noteq> 0" by (simp_all add: libsrpc_proc_is_valid_def p run_proc_def)
  obtain rc sm' where r: "libsrpc_send_request_one ?e 2048 64 0 call_shm = Some (rc, sm')"
    "if rc = 0
     then libsrpc_proc_is_valid call_shm 2048 \<and> mq_ok 2 (proc_queue (sm_procs sm' 2048)) ([] @ [64]) \<and>
       resp_rc (get_resp sm' 64 8) = 0 \<and> hp_proc (get_resp sm' 64 8) = 2048 \<and>
       resp_uid (get_resp sm' 64 8) = proc_uid (sm_procs call_shm 2048)
     else rc < 0 \<and> mq_ok 2 (proc_queue (sm_procs sm' 2048)) [] \<and>
       resp_rc (get_resp sm' 64 8) = rc_make RC_ST_ERROR rc \<and> hp_proc (get_resp sm' 64 8) = 0"
    using send_one_outcome [OF f q, of ?e] by auto
  have e: "ev_queue ?e = (\<lambda>_ q. q)" by simp
  have "rc = 0" using f q e r(1) v by (cases rule: send_one_cases [where proc = 2048 and env = ?e]) auto
  with r show ?thesis by auto
qed


lemma spin_empty: "rc_st (resp_rc s) = RC_ST_EMPTY \<Longrightarrow> response_spin n (\<lambda>_. s) i sz = None"
  by (induction n arbitrary: i) (simp_all add: Let_def)

text \<open>The reason of a refused call is lost. When a worker thread makes its first call (recursion is
  disabled there), or the library is disabled, the stub sets \<^verbatim>\<open>ERECURSIVE\<close> or \<^verbatim>\<open>ERPCDISABLE\<close> but goes on to
  read the slot, which is empty, 1024 times, and the error code the program sees is \<^verbatim>\<open>ETIMEDOUT\<close>.\<close>

theorem refused_call_reports_timeout:
  assumes "libsrpc_req_alloc fid (of_nat (sum_list sizes)) (of_nat rlen) (cx\<lparr>cx_tls := libsrpc_errno_clear (cx_tls cx)\<rparr>) sm = Some (req, cx1, sm1)"
    "req \<noteq> 0" "current_req cx = 0" "srpc_disable_rpc_recursion cx \<or> \<not> rpc_enable cx" "length (concat args) = sum_list sizes"
    "sum_list sizes \<le> 65536" "rlen \<le> 32768" "unat (num_all (sm_funcs sm ! nat (sRPC_ID2IDX fid))) \<le> 10000" "ev_late env = (\<lambda>_ s. s)"
  shows "\<exists>cx' sm'. rpc_stub env flags fid sizes args rlen cx sm = Some (replicate rlen 0, cx', sm') \<and>
    libsrpc_errno_get (cx_tls cx') = ETIMEDOUT"
proof -
  let ?cx = "cx\<lparr>cx_tls := libsrpc_errno_clear (cx_tls cx)\<rparr>"
  have n: "unat (of_nat (sum_list sizes) :: u32) \<le> 65536" "unat (of_nat rlen :: u32) \<le> 32768"
    using assms(6,7) by (simp_all add: unsigned_of_nat take_bit_nat_eq_self)
  have old: "current_req ?cx \<noteq> 0 \<longrightarrow> req_sign (sm_reqs sm (current_req ?cx)) = LIBSRPC_REQ_SIGN" using assms(3) by simp
  note u = req_alloc_usable_aux [OF assms(1,2) n assms(8) old]
  obtain t where a: "cx1 = ?cx\<lparr>current_req := req, req_seq_num := req_seq_num ?cx + 1, cx_tls := t\<rparr>" "libsrpc_shmem_get ?cx"
    "current_req ?cx = 0 \<Longrightarrow> \<exists>sz. slots (sm_reqs sm1 req) = slots (zero_req sz)"
    by (rule req_alloc_frame [OF assms(1,2)], rule that) (assumption, assumption, blast)
  have "current_req ?cx = 0" using assms(3) by simp
  from a(3) [OF this] obtain sz where sz: "slots (sm_reqs sm1 req) = slots (zero_req sz)" by (elim exE)
  define sm2 where "sm2 = put_req req (\<lambda>r. r\<lparr>req_args := concat args @ drop (sum_list sizes) (req_args r)\<rparr>) sm1"
  have sh: "same_shape (sm_reqs sm1 req) (sm_reqs sm2 req)" by (simp add: sm2_def same_shape_def)
  define o0 where "o0 = slot_offset (sm_reqs sm1 req) 0"
  have f: "libsrpc_req_get_response_fast req 0 sm2 = Some o0"
    unfolding fast_shape [OF sh] o0_def by (rule u(7)) (use u(6) in \<open>simp add: word_gt_0\<close>)
  have e: "rc_st (resp_rc (get_resp sm2 req o0)) = RC_ST_EMPTY"
    by (simp add: sm2_def get_resp_def sz zero_req_def)
  have "srpc_disable_rpc_recursion cx1 \<or> \<not> rpc_enable cx1" using assms(4) by (simp add: a(1))
  moreover have "retnum (sm_reqs sm2 req) \<noteq> 0" using u(6) sh by (simp add: same_shape_def)
  moreover have "libsrpc_shmem_get cx1" using a(2) by (simp add: a(1) libsrpc_shmem_get_def)
  moreover define e' where "e' = (if srpc_disable_rpc_recursion cx1 then ERECURSIVE else ERPCDISABLE)"
  ultimately have send: "libsrpc_send_request env req flags cx1 sm2 = Some (set_tls e' cx1, sm2)"
    using assms(2) by (auto simp: libsrpc_send_request_def)
  have "libsrpc_req_response_get (Some (\<lambda>i. ev_late env i (get_resp sm2 req o0))) rlen (set_tls e' cx1) =
      ((- ETIMEDOUT, None), set_tls ETIMEDOUT (set_tls e' cx1))"
    using spin_empty [OF e] by (simp add: libsrpc_req_response_get_def assms(9))
  then have "rpc_stub env flags fid sizes args rlen cx sm = Some (replicate rlen 0, set_tls ETIMEDOUT (set_tls ETIMEDOUT (set_tls e' cx1)), sm2)"
    using assms(1,2,5) f send by (simp add: rpc_stub_def Let_def flip: sm2_def)
  then show ?thesis by (simp add: libsrpc_errno_get_def)
qed

lemma refused_call_reports_timeout_witness:
  "\<exists>cx' sm'. rpc_stub \<lparr>ev_queue = \<lambda>_ q. q, ev_wakes = \<lambda>_. [], ev_late = \<lambda>_ s. s\<rparr> RPC_SEND_ALL 19 [4, 4] [[1, 0, 0, 0], [2, 0, 0, 0]] 4
     (call_cx\<lparr>srpc_disable_rpc_recursion := True\<rparr>) call_shm = Some (replicate 4 0, cx', sm') \<and> libsrpc_errno_get (cx_tls cx') = ETIMEDOUT"
proof -
  let ?c = "call_cx\<lparr>srpc_disable_rpc_recursion := True\<rparr>"
  have g: "libsrpc_shmem_get (?c\<lparr>cx_tls := libsrpc_errno_clear (cx_tls ?c)\<rparr>)" "current_req (?c\<lparr>cx_tls := libsrpc_errno_clear (cx_tls ?c)\<rparr>) = 0"
    "cx_uid (?c\<lparr>cx_tls := libsrpc_errno_clear (cx_tls ?c)\<rparr>) = 2" "cx_caller (?c\<lparr>cx_tls := libsrpc_errno_clear (cx_tls ?c)\<rparr>) = me"
    using call_cx_ok by (simp_all add: libsrpc_shmem_get_def)
  obtain req cx1 sm1 where r: "libsrpc_req_alloc 19 8 4 (?c\<lparr>cx_tls := libsrpc_errno_clear (cx_tls ?c)\<rparr>) call_shm = Some (req, cx1, sm1)" "req \<noteq> 0"
    by (rule call_alloc [OF g])
  have i: "nat (sRPC_ID2IDX 19) = 2" by (simp add: sRPC_ID2IDX_def sRPCFNID_START_def)
  have r': "libsrpc_req_alloc 19 (of_nat (sum_list [4, 4])) (of_nat 4) (?c\<lparr>cx_tls := libsrpc_errno_clear (cx_tls ?c)\<rparr>) call_shm = Some (req, cx1, sm1)"
    using r(1) by simp
  show ?thesis
    by (rule refused_call_reports_timeout [OF r' r(2)]) (use call_cx_ok(2) in \<open>simp_all add: i call_shm_func\<close>)
qed

end
