(* ===== verification/Srpc_Server.thy ===== *)
theory Srpc_Server
  imports Srpc_Send
begin

text \<open>
  The answering side (\<^verbatim>\<open>src/libsrpc.c\<close>, from \<^verbatim>\<open>libsrpc_callback_func\<close> to \<^verbatim>\<open>libsrpc_thread_rcv_req_stop\<close>):
  the dispatch to the program's own functions, the hazard pointer of a worker thread, the worker's
  loop, and the shutdown of the queue. The functions of the program are the parameter \<open>impl\<close>:
  \<open>impl i\<close> is \<open>None\<close> when only the stub of function \<open>i\<close> is linked, and otherwise maps the bytes of
  the arguments and the segment to the bytes of the result and the segment.
\<close>

section \<open>The list of functions\<close>

text \<open>\<^verbatim>\<open>RPC_LIST\<close>: delivery, name, size of the result type (0 for \<^verbatim>\<open>void\<close>), sizes of the parameter types.\<close>

record rpc_proto =
  rp_flags :: libsrpc_flag_send_rpc
  rp_name :: string
  rp_ret :: nat
  rp_args :: "nat list"

definition RPC_LIST :: "rpc_proto list" where
  "RPC_LIST =
    [\<lparr>rp_flags = RPC_SEND_ALL, rp_name = ''testlocal'', rp_ret = 4, rp_args = []\<rparr>,
     \<lparr>rp_flags = RPC_SEND_ALL, rp_name = ''log_write'', rp_ret = 4, rp_args = [8]\<rparr>,
     \<lparr>rp_flags = RPC_SEND_ALL, rp_name = ''calc_add'', rp_ret = 4, rp_args = [4, 4]\<rparr>,
     \<lparr>rp_flags = RPC_SEND_ALL, rp_name = ''all_exit'', rp_ret = 0, rp_args = []\<rparr>,
     \<lparr>rp_flags = RPC_SEND_ALL, rp_name = ''list_api'', rp_ret = 8, rp_args = [4, 8]\<rparr>]"

text \<open>A call of the function with index \<open>i\<close>.\<close>

definition rpc_call :: "rpc_env \<Rightarrow> nat \<Rightarrow> u8 list list \<Rightarrow> srpc_ctx \<Rightarrow> shmem \<Rightarrow> (u8 list \<times> srpc_ctx \<times> shmem) option" where
  "rpc_call env i args =
     (let p = RPC_LIST ! i in rpc_stub env (rp_flags p) (sRPCFNID_START + 1 + int i) (rp_args p) args (rp_ret p))"

section \<open>Dispatch\<close>

type_synonym rpc_impl = "nat \<Rightarrow> (u8 list list \<Rightarrow> shmem \<Rightarrow> u8 list \<times> shmem) option"

fun extract_args :: "nat list \<Rightarrow> u8 list \<Rightarrow> u8 list list" where
  "extract_args [] buf = []"
| "extract_args (n # ns) buf = take n buf # extract_args ns (drop n buf)"

definition libsrpc_callback_func :: "rpc_impl \<Rightarrow> u64 \<Rightarrow> u32 option \<Rightarrow> u64 option \<Rightarrow> shmem \<Rightarrow> int \<times> shmem" where
  "libsrpc_callback_func impl req resp ctrl sm =
     (if req = 0 then (- ENOTAVAILABLE, sm)
      else case resp of
          None \<Rightarrow> (- ENOTAVAILABLE, sm)
        | Some off \<Rightarrow>
            let r = sm_reqs sm req; i = sRPC_ID2IDX (funid r);
                (rc, sm1) =
                  (if i < 0 \<or> i \<ge> int sRPC_FNNUM then (- EBADMSG, sm)
                   else case impl (nat i) of
                       None \<Rightarrow> (- ERECURSIVE, sm)
                     | Some f \<Rightarrow>
                         let p = RPC_LIST ! nat i; (v, sm1) = f (extract_args (rp_args p) (req_args r)) sm
                         in libsrpc_req_response_set req off ctrl (if rp_ret p = 0 then None else Some v) sm1)
            in (rc, put_req req (\<lambda>r. r\<lparr>req_sem := sem_post (req_sem r)\<rparr>) sm1))"

section \<open>The hazard pointer of a worker\<close>

definition set_hp :: "u64 \<Rightarrow> nat \<Rightarrow> u64 \<Rightarrow> shmem \<Rightarrow> shmem" where
  "set_hp proc tid v = put_proc proc (\<lambda>p. p\<lparr>threads_hp := (threads_hp p)[tid := v]\<rparr>)"

definition libsrpc_request_lock :: "u64 \<Rightarrow> nat \<Rightarrow> u64 \<Rightarrow> shmem \<Rightarrow> int \<times> shmem" where
  "libsrpc_request_lock proc tid req sm =
     (if req = 0 then (- EINVAL, sm)
      else if libsrpc_req_is_corrupted req None sm then (- EBADMSG, sm)
      else
        let sm1 = set_hp proc tid req sm in
        if libsrpc_req_is_corrupted req None sm1 then (- EBADMSG, set_hp proc tid 0 sm1) else (0, sm1))"

definition libsrpc_request_unlock :: "u64 \<Rightarrow> nat \<Rightarrow> shmem \<Rightarrow> int \<times> shmem" where
  "libsrpc_request_unlock proc tid sm = (0, set_hp proc tid 0 sm)"

text \<open>The search for the slot of this process: the variable \<^verbatim>\<open>resp\<close> after the loop.\<close>

definition slot_is_mine :: "u64 \<Rightarrow> u64 \<Rightarrow> shmem \<Rightarrow> u32 \<Rightarrow> bool" where
  "slot_is_mine proc req sm off \<longleftrightarrow>
     hp_proc (get_resp sm req off) = proc \<and> resp_uid (get_resp sm req off) = proc_uid (sm_procs sm proc)"

fun find_slot :: "(nat \<Rightarrow> u32 option) \<Rightarrow> (u32 \<Rightarrow> bool) \<Rightarrow> nat list \<Rightarrow> u32 option \<Rightarrow> u32 option" where
  "find_slot get mine [] resp = resp"
| "find_slot get mine (i # is) resp =
     (case get i of
        None \<Rightarrow> find_slot get mine is None
      | Some off \<Rightarrow> if mine off then Some off else find_slot get mine is (Some off))"

definition libsrpc_request_processing :: "rpc_impl \<Rightarrow> u64 \<Rightarrow> u64 \<Rightarrow> nat \<Rightarrow> shmem \<Rightarrow> int \<times> shmem" where
  "libsrpc_request_processing impl req proc tid sm =
     (if req = 0 \<or> proc = 0 then (- EINVAL, sm)
      else
        let (_, sm1) = libsrpc_request_lock proc tid req sm;
            bad = (\<lambda>sm. (- EBADMSG, snd (libsrpc_request_unlock proc tid sm)))
        in if libsrpc_req_is_corrupted req None sm1 then bad sm1
           else
             let r = sm_reqs sm1 req; ctrl = req_control r in
             if funid r \<ge> sRPCFNID_MAX \<or> funid r \<le> sRPCFNID_START then bad sm1
             else
               let resp = find_slot (\<lambda>i. libsrpc_req_get_response_fast req (of_nat i) sm1) (slot_is_mine proc req sm1) [0..<unat (retnum r)] None in
               case resp of
                 None \<Rightarrow> bad sm1
               | Some off \<Rightarrow>
                   if \<not> slot_is_mine proc req sm1 off then bad sm1
                   else
                     let (rc, sm2) = libsrpc_callback_func impl req (Some off) (Some ctrl) sm1 in
                     if rc_st (of_int rc) \<noteq> RC_ST_READY then bad sm2
                     else (0, snd (libsrpc_request_unlock proc tid sm2)))"

section \<open>The worker thread\<close>

record rcv_state =
  rs_cnt :: nat
  rs_wait :: bool
  rs_shm :: shmem

definition wait_change :: "u64 \<Rightarrow> (u32 \<Rightarrow> u32) \<Rightarrow> shmem \<Rightarrow> shmem" where
  "wait_change proc f = put_proc proc (\<lambda>p. p\<lparr>threads_wait := f (threads_wait p)\<rparr>)"

definition put_queue :: "u64 \<Rightarrow> lf_mpmc_queue \<Rightarrow> shmem \<Rightarrow> shmem" where
  "put_queue proc q = put_proc proc (\<lambda>p. p\<lparr>proc_queue := q\<rparr>)"

text \<open>The inner loop: requests are taken and processed while there are any.\<close>

partial_function (option) rcv_drain :: "u64 \<Rightarrow> rpc_impl \<Rightarrow> u64 \<Rightarrow> nat \<Rightarrow> rcv_state \<Rightarrow> rcv_state option" where
  "rcv_drain cap impl proc tid st =
     (case lf_mpmc_queue_try_dequeue cap (proc_queue (sm_procs (rs_shm st) proc)) of
        None \<Rightarrow> None
      | Some ((rc, data), q) \<Rightarrow>
          let sm1 = put_queue proc q (rs_shm st) in
          if rc = LF_QUEUE_OK \<and> data \<noteq> Some 0
          then
            let sm2 = (if rs_wait st then wait_change proc (\<lambda>n. n - 1) sm1 else sm1);
                (_, sm3) = libsrpc_request_processing impl (the data) proc tid sm2
            in rcv_drain cap impl proc tid \<lparr>rs_cnt = 0, rs_wait = False, rs_shm = sm3\<rparr>
          else Some (st\<lparr>rs_shm := sm1\<rparr>))"

definition DEQUEUE_RETRY :: nat where "DEQUEUE_RETRY = 1024"

text \<open>One turn of the outer loop after the queue was drained. \<open>err\<close> is the outcome of \<^verbatim>\<open>sem_wait\<close> (0 or
  \<^verbatim>\<open>errno\<close>); the flag of the result tells whether the loop goes on.\<close>

definition rcv_idle :: "int \<Rightarrow> u64 \<Rightarrow> rcv_state \<Rightarrow> bool \<times> rcv_state" where
  "rcv_idle err proc st =
     (if rs_cnt st < DEQUEUE_RETRY then (True, st\<lparr>rs_cnt := rs_cnt st + 1\<rparr>)
      else if \<not> rs_wait st then
        (True, st\<lparr>rs_cnt := rs_cnt st + 1, rs_wait := True, rs_shm := wait_change proc (\<lambda>n. n + 1) (rs_shm st)\<rparr>)
      else
        let sm1 = (if err = 0 then put_proc proc (\<lambda>p. p\<lparr>proc_sem := sem_take (proc_sem p)\<rparr>) (rs_shm st) else rs_shm st)
        in (err \<noteq> EINVAL, st\<lparr>rs_cnt := rs_cnt st + 1, rs_wait := False, rs_shm := wait_change proc (\<lambda>n. n - 1) sm1\<rparr>))"

text \<open>The turns of the environment: whether the stop flag is seen, the outcome of \<^verbatim>\<open>sem_wait\<close>, and what the
  other processes did to the segment before the turn. \<open>None\<close>: the thread is still running.\<close>

fun rcv_loop :: "u64 \<Rightarrow> rpc_impl \<Rightarrow> u64 \<Rightarrow> nat \<Rightarrow> (bool \<times> int \<times> (shmem \<Rightarrow> shmem)) list \<Rightarrow> rcv_state \<Rightarrow> rcv_state option" where
  "rcv_loop cap impl proc tid [] st = None"
| "rcv_loop cap impl proc tid ((stop, err, eff) # es) st =
     (let st0 = st\<lparr>rs_shm := eff (rs_shm st)\<rparr> in
      if stop then Some st0
      else case rcv_drain cap impl proc tid st0 of
          None \<Rightarrow> None
        | Some st1 \<Rightarrow> (case rcv_idle err proc st1 of (go, st2) \<Rightarrow>
            if go then rcv_loop cap impl proc tid es st2 else Some st2))"

definition run_change :: "u64 \<Rightarrow> (u32 \<Rightarrow> u32) \<Rightarrow> shmem \<Rightarrow> shmem" where
  "run_change proc f = put_proc proc (\<lambda>p. p\<lparr>threads_run := f (threads_run p)\<rparr>)"

definition libsrpc_thread_rcv_req :: "u64 \<Rightarrow> rpc_impl \<Rightarrow> (bool \<times> int \<times> (shmem \<Rightarrow> shmem)) list \<Rightarrow> srpc_ctx \<Rightarrow> shmem \<Rightarrow> (srpc_ctx \<times> shmem) option" where
  "libsrpc_thread_rcv_req cap impl es cx sm =
     (let proc = cx_proc cx; cx1 = cx\<lparr>srpc_disable_rpc_recursion := True\<rparr>;
          tid = threads_run (sm_procs sm proc); sm1 = run_change proc (\<lambda>n. n + 1) sm
      in if tid \<ge> threads_num (sm_procs sm1 proc) then Some (cx1, run_change proc (\<lambda>n. n - 1) sm1)
         else map_option (\<lambda>st. (cx1, run_change proc (\<lambda>n. n - 1) (rs_shm st)))
                (rcv_loop cap impl proc (unat tid) es \<lparr>rs_cnt = 0, rs_wait = False, rs_shm = sm1\<rparr>))"

section \<open>Shutdown\<close>

text \<open>One request taken from the queue of a process that stops: its slot is cancelled.\<close>

definition cancel_request :: "u64 \<Rightarrow> u64 \<Rightarrow> shmem \<Rightarrow> shmem" where
  "cancel_request proc req sm =
     (if libsrpc_req_is_corrupted req None sm then sm
      else case find_slot (\<lambda>i. libsrpc_req_get_response req (of_nat i) sm) (slot_is_mine proc req sm) [0..<unat (retnum (sm_reqs sm req))] None of
          None \<Rightarrow> sm
        | Some off \<Rightarrow>
            if \<not> slot_is_mine proc req sm off then sm
            else
              let sm1 = (case resp_try (rc_make RC_ST_ERROR (- ECANCELLED)) (get_resp sm req off) of
                           None \<Rightarrow> sm | Some s \<Rightarrow> put_resp req off (\<lambda>_. s) sm)
              in if req_sign (sm_reqs sm1 req) = LIBSRPC_REQ_SIGN
                 then put_req req (\<lambda>r. r\<lparr>req_sem := sem_post (req_sem r)\<rparr>) sm1 else sm1)"

partial_function (option) libsrpc_thread_rcv_queue_clear :: "u64 \<Rightarrow> u64 \<Rightarrow> shmem \<Rightarrow> shmem option" where
  "libsrpc_thread_rcv_queue_clear cap proc sm =
     (case lf_mpmc_queue_try_dequeue cap (proc_queue (sm_procs sm proc)) of
        None \<Rightarrow> None
      | Some ((rc, data), q) \<Rightarrow>
          let sm1 = put_queue proc q sm in
          if rc = LF_QUEUE_OK then libsrpc_thread_rcv_queue_clear cap proc (cancel_request proc (the data) sm1)
          else Some sm1)"

text \<open>The wait for the threads to end: \<open>effs\<close> is what the threads do between two looks.\<close>

fun wait_threads :: "u64 \<Rightarrow> (shmem \<Rightarrow> shmem) list \<Rightarrow> shmem \<Rightarrow> shmem option" where
  "wait_threads proc [] sm = (if threads_run (sm_procs sm proc) = 0 then Some sm else None)"
| "wait_threads proc (e # es) sm = (if threads_run (sm_procs sm proc) = 0 then Some sm else wait_threads proc es (e sm))"

definition libsrpc_thread_rcv_req_stop :: "u64 \<Rightarrow> (shmem \<Rightarrow> shmem) list \<Rightarrow> srpc_ctx \<Rightarrow> shmem \<Rightarrow> (int \<times> srpc_ctx \<times> shmem) option" where
  "libsrpc_thread_rcv_req_stop cap effs cx sm =
     (let proc = cx_proc cx; n = threads_wait (sm_procs sm proc) + 1;
          sm1 = put_proc proc (\<lambda>p. p\<lparr>proc_sem := (sem_post ^^ unat n) (proc_sem p)\<rparr>) sm
      in map_option (\<lambda>sm2. (0, cx\<lparr>srpc_thread_stop_flag := True\<rparr>, sm2))
           (Option.bind (libsrpc_thread_rcv_queue_clear cap proc sm1) (wait_threads proc effs)))"

section \<open>Arguments\<close>

lemma extract_args_concat: "map length args = sizes \<Longrightarrow> extract_args sizes (concat args @ rest) = args"
  by (induction args arbitrary: sizes) auto

lemma RPC_LIST_length: "length RPC_LIST = sRPC_FNNUM"
  by (simp add: RPC_LIST_def sRPC_FNNUM_def)

section \<open>One request\<close>

lemma find_slot_mine:
  assumes "j \<in> set is" "get j = Some off" "mine off" "\<forall>k o'. get k = Some o' \<and> mine o' \<longrightarrow> o' = off"
  shows "find_slot get mine is resp = Some off"
  using assms(1)
proof (induction "is" arbitrary: resp)
  case (Cons k "is")
  show ?case
  proof (cases "\<exists>o'. get k = Some o' \<and> mine o'")
    case True
    with assms(4) show ?thesis by auto
  next
    case False
    with assms(2,3) have "k \<noteq> j" by blast
    with Cons.IH Cons.prems False show ?thesis by (auto split: option.splits)
  qed
qed simp

lemma find_slot_miss:
  assumes "\<And>k o'. k \<in> set is \<Longrightarrow> get k = Some o' \<Longrightarrow> \<not> mine o'" "\<And>o'. resp = Some o' \<Longrightarrow> \<not> mine o'"
    "find_slot get mine is resp = Some off"
  shows "\<not> mine off"
  using assms by (induction "is" arbitrary: resp) (auto split: option.splits if_splits)

lemma set_hp_sel [simp]:
  "sm_reqs (set_hp p t v sm) = sm_reqs sm" "get_resp (set_hp p t v sm) req off = get_resp sm req off"
  "proc_uid (sm_procs (set_hp p t v sm) q) = proc_uid (sm_procs sm q)"
  "libsrpc_req_is_corrupted req c (set_hp p t v sm) = libsrpc_req_is_corrupted req c sm"
  "libsrpc_req_get_response_fast req i (set_hp p t v sm) = libsrpc_req_get_response_fast req i sm"
  by (simp_all add: set_hp_def libsrpc_req_is_corrupted_def get_resp_def)

text \<open>The slot after the answer \<open>v\<close>.\<close>

definition answered :: "u8 list option \<Rightarrow> libsrpc_response \<Rightarrow> libsrpc_response" where
  "answered v s = (resp_write v s)\<lparr>resp_rc := rc_make RC_ST_READY 0\<rparr>"

definition post_req :: "u64 \<Rightarrow> shmem \<Rightarrow> shmem" where
  "post_req req = put_req req (\<lambda>r. r\<lparr>req_sem := sem_post (req_sem r)\<rparr>)"

lemma rc_int_word: "of_int (rc_int w) = w"
  by (simp add: rc_int_def)

lemma not_corrupted_ctrl:
  "\<not> libsrpc_req_is_corrupted req None sm \<Longrightarrow> \<not> libsrpc_req_is_corrupted req (Some (req_control (sm_reqs sm req))) sm"
  by (auto simp: libsrpc_req_is_corrupted_def req_corrupted_def split: if_splits)

lemma callback_answers:
  assumes "req \<noteq> 0" "funid (sm_reqs sm req) = sRPCFNID_START + 1 + int i" "i < sRPC_FNNUM" "impl i = Some f"
    "f (extract_args (rp_args (RPC_LIST ! i)) (req_args (sm_reqs sm req))) sm = (v, sm)"
    "\<not> libsrpc_req_is_corrupted req None sm" "resp_rc (get_resp sm req off) = 0"
  shows "libsrpc_callback_func impl req (Some off) (Some (req_control (sm_reqs sm req))) sm =
    (rc_int (rc_make RC_ST_READY 0), post_req req (put_resp req off (answered (if rp_ret (RPC_LIST ! i) = 0 then None else Some v)) sm))"
proof -
  have i: "sRPC_ID2IDX (funid (sm_reqs sm req)) = int i" using assms(2) by (simp add: sRPC_ID2IDX_def)
  have w: "answered x (s\<lparr>resp_rc := a\<rparr>) = answered x s" for x s a
    by (simp add: answered_def resp_write_def split: option.split)
  have "put_resp req off (\<lambda>_. g (get_resp sm req off)) sm = put_resp req off g sm" for g
    by (simp add: put_resp_def put_req_def get_resp_def)
  then show ?thesis
    using assms i not_corrupted_ctrl [OF assms(6)]
    by (simp add: libsrpc_callback_func_def Let_def libsrpc_req_response_set_def resp_try_def w post_req_def flip: answered_def)
qed

lemma processing_answers:
  assumes "req \<noteq> 0" "proc \<noteq> 0" "\<not> libsrpc_req_is_corrupted req None sm"
    "funid (sm_reqs sm req) = sRPCFNID_START + 1 + int i" "i < sRPC_FNNUM" "impl i = Some f"
    "\<And>s. f (extract_args (rp_args (RPC_LIST ! i)) (req_args (sm_reqs sm req))) s = (v, s)"
    "libsrpc_req_get_response_fast req j sm = Some off" "slot_is_mine proc req sm off" "resp_rc (get_resp sm req off) = 0"
    "\<forall>k o'. libsrpc_req_get_response_fast req k sm = Some o' \<and> slot_is_mine proc req sm o' \<longrightarrow> o' = off"
  shows "libsrpc_request_processing impl req proc tid sm = (0, set_hp proc tid 0 (post_req req
     (put_resp req off (answered (if rp_ret (RPC_LIST ! i) = 0 then None else Some v)) (set_hp proc tid req sm))))"
proof -
  let ?sm = "set_hp proc tid req sm"
  have lock: "libsrpc_request_lock proc tid req sm = (0, ?sm)" using assms(1,3) by (simp add: libsrpc_request_lock_def Let_def)
  have mine: "slot_is_mine proc req ?sm o' = slot_is_mine proc req sm o'" for o' by (simp add: slot_is_mine_def)
  have find: "find_slot (\<lambda>i. libsrpc_req_get_response_fast req (of_nat i) ?sm) (slot_is_mine proc req ?sm) [0..<unat (retnum (sm_reqs sm req))] None = Some off"
  proof (rule find_slot_mine [of "unat j"])
    show "unat j \<in> set [0..<unat (retnum (sm_reqs sm req))]" using fast_retnum [OF assms(8)] by (simp add: word_less_nat_alt)
    show "\<forall>k o'. libsrpc_req_get_response_fast req (of_nat k) ?sm = Some o' \<and> slot_is_mine proc req ?sm o' \<longrightarrow> o' = off"
      using assms(11) mine by simp
  qed (use assms(8,9) mine in simp_all)
  have fid: "\<not> funid (sm_reqs sm req) \<ge> sRPCFNID_MAX" "\<not> funid (sm_reqs sm req) \<le> sRPCFNID_START"
    using assms(4,5) by (simp_all add: sRPCFNID_MAX_def)
  have cb: "libsrpc_callback_func impl req (Some off) (Some (req_control (sm_reqs ?sm req))) ?sm =
    (rc_int (rc_make RC_ST_READY 0), post_req req (put_resp req off (answered (if rp_ret (RPC_LIST ! i) = 0 then None else Some v)) ?sm))"
    by (rule callback_answers [where f = f]) (simp_all add: assms(1,3-6,7,10))
  have "slot_is_mine proc req ?sm off" using assms(9) mine by simp
  then show ?thesis using lock find fid cb assms(1-3)
    by (simp add: libsrpc_request_processing_def Let_def libsrpc_request_unlock_def rc_int_word)
qed

section \<open>A worker empties its queue\<close>

lemma put_queue_same: "q = proc_queue (sm_procs sm proc) \<Longrightarrow> put_queue proc q sm = sm"
  by (simp add: put_queue_def put_proc_def)

lemma put_queue_sel [simp]:
  "sm_reqs (put_queue p q sm) = sm_reqs sm" "get_resp (put_queue p q sm) req off = get_resp sm req off"
  "proc_uid (sm_procs (put_queue p q sm) r) = proc_uid (sm_procs sm r)" "proc_queue (sm_procs (put_queue p q sm) p) = q"
  "libsrpc_req_is_corrupted req c (put_queue p q sm) = libsrpc_req_is_corrupted req c sm"
  "libsrpc_req_get_response_fast req i (put_queue p q sm) = libsrpc_req_get_response_fast req i sm"
  by (simp_all add: put_queue_def libsrpc_req_is_corrupted_def get_resp_def)

lemma drain_done:
  assumes "mq_ok cap (proc_queue (sm_procs (rs_shm st) proc)) []"
  shows "rcv_drain cap impl proc tid st = Some st"
  using dequeue_empty [of cap "proc_queue (sm_procs (rs_shm st) proc)"] assms
  by (subst rcv_drain.simps) (simp add: mq_ok_def queue_codes put_queue_same)

lemma drain_step:
  assumes "mq_ok cap (proc_queue (sm_procs sm proc)) (req # xs)" "req \<noteq> 0"
  obtains q where "mq_ok cap q xs"
    "rcv_drain cap impl proc tid \<lparr>rs_cnt = n, rs_wait = False, rs_shm = sm\<rparr> =
     rcv_drain cap impl proc tid \<lparr>rs_cnt = 0, rs_wait = False, rs_shm = snd (libsrpc_request_processing impl req proc tid (put_queue proc q sm))\<rparr>"
proof -
  obtain q where q: "lf_mpmc_queue_try_dequeue cap (proc_queue (sm_procs sm proc)) = Some ((0, Some req), q)" "mq_ok cap q xs"
    using mq.deq_some [OF assms(1)] by blast
  show thesis
    by (rule that [OF q(2)], subst rcv_drain.simps) (use q(1) assms(2) in \<open>simp add: queue_codes split_beta Let_def\<close>)
qed

section \<open>Caller and worker together\<close>

lemma RPC_LIST_small:
  assumes "i < sRPC_FNNUM"
  shows "rp_flags (RPC_LIST ! i) = RPC_SEND_ALL" "sum_list (rp_args (RPC_LIST ! i)) \<le> 12" "rp_ret (RPC_LIST ! i) \<le> 8"
proof -
  have "i \<in> {0, 1, 2, 3, 4}" using assms by (auto simp: sRPC_FNNUM_def)
  then show "rp_flags (RPC_LIST ! i) = RPC_SEND_ALL" "sum_list (rp_args (RPC_LIST ! i)) \<le> 12" "rp_ret (RPC_LIST ! i) \<le> 8"
    by (auto simp: RPC_LIST_def)
qed

text \<open>A request that was sent to one process only.\<close>

definition sent_to :: "u64 \<Rightarrow> u64 \<Rightarrow> u32 \<Rightarrow> shmem \<Rightarrow> bool" where
  "sent_to srv req off sm \<longleftrightarrow> retnum (sm_reqs sm req) = 1 \<and> libsrpc_req_get_response_fast req 0 sm = Some off \<and>
     hp_proc (get_resp sm req off) = srv \<and> resp_uid (get_resp sm req off) = proc_uid (sm_procs sm srv) \<and> resp_rc (get_resp sm req off) = 0"

text \<open>The worker takes the request and answers it.\<close>

lemma worker_answers:
  assumes "sent_to srv req off sm" "req \<noteq> 0" "srv \<noteq> 0" "mq_ok cap (proc_queue (sm_procs sm srv)) [req]"
    "\<not> libsrpc_req_is_corrupted req None sm" "funid (sm_reqs sm req) = sRPCFNID_START + 1 + int i" "i < sRPC_FNNUM"
    "impl i = Some f" "\<And>s. f (extract_args (rp_args (RPC_LIST ! i)) (req_args (sm_reqs sm req))) s = (v, s)"
  obtains sm' where "rcv_drain cap impl srv tid \<lparr>rs_cnt = n, rs_wait = False, rs_shm = sm\<rparr> = Some \<lparr>rs_cnt = 0, rs_wait = False, rs_shm = sm'\<rparr>"
    "same_shape (sm_reqs sm req) (sm_reqs sm' req)" "mq_ok cap (proc_queue (sm_procs sm' srv)) []"
    "get_resp sm' req off = answered (if rp_ret (RPC_LIST ! i) = 0 then None else Some v) (get_resp sm req off)"
    "req_sem (sm_reqs sm' req) = sem_post (req_sem (sm_reqs sm req))"
proof -
  let ?v = "if rp_ret (RPC_LIST ! i) = 0 then None else Some v"
  obtain q where q: "mq_ok cap q []" and d: "rcv_drain cap impl srv tid \<lparr>rs_cnt = n, rs_wait = False, rs_shm = sm\<rparr> =
     rcv_drain cap impl srv tid \<lparr>rs_cnt = 0, rs_wait = False, rs_shm = snd (libsrpc_request_processing impl req srv tid (put_queue srv q sm))\<rparr>"
    by (rule drain_step [OF assms(4,2)])
  define sm' where "sm' = set_hp srv tid 0 (post_req req (put_resp req off (answered ?v) (set_hp srv tid req (put_queue srv q sm))))"
  note s = assms(1) [unfolded sent_to_def]
  have uniq: "\<forall>k o'. libsrpc_req_get_response_fast req k (put_queue srv q sm) = Some o' \<and> slot_is_mine srv req (put_queue srv q sm) o' \<longrightarrow> o' = off"
  proof (intro allI impI)
    fix k o' assume a: "libsrpc_req_get_response_fast req k (put_queue srv q sm) = Some o' \<and> slot_is_mine srv req (put_queue srv q sm) o'"
    then have "k < 1" using fast_retnum [of req k sm o'] s by simp
    then have "k = 0" by (simp add: word_less_nat_alt unat_eq_0)
    with a s show "o' = off" by simp
  qed
  have m: "slot_is_mine srv req (put_queue srv q sm) off" using s by (simp add: slot_is_mine_def)
  have "libsrpc_request_processing impl req srv tid (put_queue srv q sm) = (0, sm')"
    unfolding sm'_def by (rule processing_answers [where j = 0 and f = f, OF assms(2,3)])
      (use s m uniq in \<open>simp_all add: assms(5-9)\<close>)
  moreover have eq: "proc_queue (sm_procs sm' srv) = q" by (simp add: sm'_def set_hp_def post_req_def)
  ultimately have "rcv_drain cap impl srv tid \<lparr>rs_cnt = n, rs_wait = False, rs_shm = sm\<rparr> = Some \<lparr>rs_cnt = 0, rs_wait = False, rs_shm = sm'\<rparr>"
    using d q by (simp add: drain_done)
  moreover have "same_shape (sm_reqs sm req) (sm_reqs sm' req)"
    by (simp add: sm'_def post_req_def put_resp_def same_shape_def)
  moreover have "get_resp sm' req off = answered ?v (get_resp sm req off)"
    by (simp add: sm'_def post_req_def get_resp_def put_resp_def)
  moreover have "req_sem (sm_reqs sm' req) = sem_post (req_sem (sm_reqs sm req))"
    by (simp add: sm'_def post_req_def put_resp_def)
  ultimately show thesis using q eq by (intro that [of sm']) simp_all
qed

text \<open>Delivery when one process is registered.\<close>

definition only_server :: "u64 \<Rightarrow> u64 \<Rightarrow> nat \<Rightarrow> shmem \<Rightarrow> bool" where
  "only_server cap srv i sm \<longleftrightarrow> sm_funcs sm ! i = \<lparr>num_all = 1, ext_block = 0, main_block = [srv, 0, 0, 0, 0, 0, 0, 0]\<rparr> \<and>
     srv \<noteq> 0 \<and> libsrpc_proc_is_valid sm srv \<and> threads_run (sm_procs sm srv) \<noteq> 0 \<and> mq_ok cap (proc_queue (sm_procs sm srv)) []"

lemma dispatch_single:
  assumes "only_server cap srv i sm" "libsrpc_req_get_response_fast req 0 sm = Some off" "retnum (sm_reqs sm req) = 1" "ev_queue env = (\<lambda>_ q. q)"
  obtains sm' where "send_dispatch env RPC_SEND_ALL req i sm = Some (1, 1, sm')" "sent_to srv req off sm'"
    "mq_ok cap (proc_queue (sm_procs sm' srv)) [req]" "same_shape (sm_reqs sm req) (sm_reqs sm' req)"
    "req_args (sm_reqs sm' req) = req_args (sm_reqs sm req)"
    "resp_buf (get_resp sm' req off) = resp_buf (get_resp sm req off)"
proof -
  note o = assms(1) [unfolded only_server_def]
  have q0: "mq_ok cap (proc_queue (sm_procs sm srv)) []" using o by simp
  have cap: "0 < unat cap" using q0 good_capD(1) by (fastforce simp: mq_ok_def)
  obtain q where q: "mq_ok cap q [req]" and run: "libsrpc_send_request_one env srv req 0 sm = Some (0,
         put_proc srv (\<lambda>p. p\<lparr>proc_queue := q, proc_sem := (if threads_wait p > 0 then sem_post (proc_sem p) else proc_sem p)\<rparr>)
           (put_resp req off (\<lambda>s. s\<lparr>resp_rc := 0, resp_uid := proc_uid (sm_procs sm srv), hp_proc := srv\<rparr>) sm))"
    (is "_ = Some (0, ?sm)")
    using assms(2) q0 assms(4) by (cases rule: send_one_cases [where proc = srv and env = env]) (use o cap in auto)
  have "send_dispatch env RPC_SEND_ALL req i sm = Some (1, 1, ?sm)"
    using o run assms(3) by (simp add: send_dispatch_def send_plan_def Let_def)
  moreover have "sent_to srv req off ?sm" using assms(2,3) by (simp add: sent_to_def) (simp add: put_resp_def)
  moreover have "same_shape (sm_reqs sm req) (sm_reqs ?sm req)" "req_args (sm_reqs ?sm req) = req_args (sm_reqs sm req)"
    by (simp_all add: put_resp_def same_shape_def)
  ultimately show thesis using q by (intro that [of ?sm]) simp_all
qed

lemma only_server_put_req [simp]: "only_server cap srv i (put_req a g sm) = only_server cap srv i sm"
  by (simp add: only_server_def)

lemma wait_one:
  assumes "libsrpc_req_get_response_fast req 0 (eff sm) = Some off" "get_resp (eff sm) req off = answered v s"
  shows "wait_loop [(0, eff)] req 1 sm = Some (put_req req (\<lambda>r. r\<lparr>req_sem := sem_take (req_sem r)\<rparr>) (eff sm))" (is "_ = Some ?sm")
proof -
  have f: "libsrpc_req_get_response_fast req 0 ?sm = Some off"
    using fast_shape [of "eff sm" req ?sm 0] assms(1) by (simp add: same_shape_def)
  have "get_resp ?sm req off = answered v s" using assms(2) by (simp add: get_resp_def)
  with f have "slot_received req ?sm 0" by (simp add: slot_received_def answered_def)
  then show ?thesis by (simp add: Let_def)
qed

lemma spin_answered:
  assumes "length v = rlen" "rlen > 0"
  shows "response_spin (Suc n) (\<lambda>_. answered (Some v) s) k rlen = Some (0, Some v)"
  using assms by (simp add: answered_def resp_write_def rc_code_make)

lemma spin_answered_void: "response_spin (Suc n) (\<lambda>_. answered None s) k 0 = Some (0, None)"
  by (simp add: answered_def resp_write_def rc_code_make)

text \<open>The caller's block before it is sent.\<close>

lemma call_prepared:
  fixes i defines "p \<equiv> RPC_LIST ! i"
  assumes "i < sRPC_FNNUM" "map length args = rp_args p" "only_server cap srv i sm"
    "libsrpc_req_alloc (sRPCFNID_START + 1 + int i) (of_nat (sum_list (rp_args p))) (of_nat (rp_ret p)) cx sm = Some (req, cx1, sm1)"
    "req \<noteq> 0" "current_req cx = 0"
    and sm2: "sm2 = put_req req (\<lambda>r. r\<lparr>req_args := concat args @ drop (sum_list (rp_args p)) (req_args r)\<rparr>) sm1"
  obtains off where "libsrpc_req_get_response_fast req 0 sm2 = Some off" "only_server cap srv i sm2" "retnum (sm_reqs sm2 req) = 1"
    "funid (sm_reqs sm2 req) = sRPCFNID_START + 1 + int i" "extract_args (rp_args p) (req_args (sm_reqs sm2 req)) = args"
    "\<not> libsrpc_req_is_corrupted req None sm2" "libsrpc_shmem_get cx1" "rpc_enable cx1 = rpc_enable cx"
    "srpc_disable_rpc_recursion cx1 = srpc_disable_rpc_recursion cx"
proof -
  let ?fid = "sRPCFNID_START + 1 + int i"
  note sml = RPC_LIST_small [OF assms(2), folded p_def]
  have n: "unat (of_nat (sum_list (rp_args p)) :: u32) \<le> 65536" "unat (of_nat (rp_ret p) :: u32) \<le> 32768"
    using sml(2,3) by (simp_all add: unsigned_of_nat take_bit_nat_eq_self)
  have one: "num_all (sm_funcs sm ! nat (sRPC_ID2IDX ?fid)) = 1" using assms(4) by (simp add: only_server_def sRPC_ID2IDX_def)
  then have c10: "unat (num_all (sm_funcs sm ! nat (sRPC_ID2IDX ?fid))) \<le> 10000" by simp
  have old: "current_req cx \<noteq> 0 \<longrightarrow> req_sign (sm_reqs sm (current_req cx)) = LIBSRPC_REQ_SIGN" using assms(7) by simp
  note u = req_alloc_usable_aux [OF assms(5,6) n c10 old]
  obtain t where a: "cx1 = cx\<lparr>current_req := req, req_seq_num := req_seq_num cx + 1, cx_tls := t\<rparr>" "libsrpc_shmem_get cx"
    "sm_procs sm1 = sm_procs sm" "sm_funcs sm1 = sm_funcs sm" "current_req cx = 0 \<Longrightarrow> req_args (sm_reqs sm1 req) = []"
    by (rule req_alloc_frame [OF assms(5,6)], rule that) (assumption, assumption, assumption, assumption, blast)
  have sh: "same_shape (sm_reqs sm1 req) (sm_reqs sm2 req)" by (simp add: sm2 same_shape_def)
  show thesis
  proof (rule that)
    show "libsrpc_req_get_response_fast req 0 sm2 = Some (slot_offset (sm_reqs sm1 req) 0)"
      unfolding fast_shape [OF sh] by (rule u(7)) (simp add: u(5) one)
    show "only_server cap srv i sm2" using assms(4) a(3,4) by (simp add: sm2 only_server_def libsrpc_proc_is_valid_def)
    show "retnum (sm_reqs sm2 req) = 1" "funid (sm_reqs sm2 req) = ?fid" using u(2,5) one sh by (simp_all add: same_shape_def)
    show "extract_args (rp_args p) (req_args (sm_reqs sm2 req)) = args"
      using extract_args_concat [OF assms(3), of "[]"] a(5) assms(7) by (simp add: sm2)
    show "\<not> libsrpc_req_is_corrupted req None sm2" using u(1) corrupted_shape [OF sh] by simp
  qed (use a(2) in \<open>simp_all add: a(1) libsrpc_shmem_get_def\<close>)
qed

text \<open>Delivery, the worker's turn, and the end of the wait.\<close>

lemma call_answered:
  fixes i cap impl srv tid
  defines "eff \<equiv> \<lambda>s. rs_shm (the (rcv_drain cap impl srv tid \<lparr>rs_cnt = 0, rs_wait = False, rs_shm = s\<rparr>))" and "p \<equiv> RPC_LIST ! i"
  assumes f2: "libsrpc_req_get_response_fast req 0 sm2 = Some off" and only: "only_server cap srv i sm2" and rn: "retnum (sm_reqs sm2 req) = 1"
    and fid: "funid (sm_reqs sm2 req) = sRPCFNID_START + 1 + int i" and ex: "extract_args (rp_args p) (req_args (sm_reqs sm2 req)) = args"
    and ok: "\<not> libsrpc_req_is_corrupted req None sm2" and q: "ev_queue env = (\<lambda>_ q. q)" and i: "i < sRPC_FNNUM" and nz: "req \<noteq> 0"
    and im: "impl i = Some f" and fv: "\<forall>s. f args s = (v, s)"
  obtains sm3 sm4 s where "send_dispatch env RPC_SEND_ALL req i sm2 = Some (1, 1, sm3)" "put_req req (\<lambda>r. r\<lparr>retnum := 1\<rparr>) sm3 = sm3"
    "wait_loop [(0, eff)] req 1 sm3 = Some sm4" "get_resp sm4 req off = answered (if rp_ret p = 0 then None else Some v) s"
    "mq_ok cap (proc_queue (sm_procs sm4 srv)) []"
proof -
  obtain sm3 where d: "send_dispatch env RPC_SEND_ALL req i sm2 = Some (1, 1, sm3)" "sent_to srv req off sm3"
    "mq_ok cap (proc_queue (sm_procs sm3 srv)) [req]" "same_shape (sm_reqs sm2 req) (sm_reqs sm3 req)"
    "req_args (sm_reqs sm3 req) = req_args (sm_reqs sm2 req)" "resp_buf (get_resp sm3 req off) = resp_buf (get_resp sm2 req off)"
    by (rule dispatch_single [OF only f2 rn q])
  have "retnum (sm_reqs sm3 req) = 1" using d(2) by (simp add: sent_to_def)
  then have "(sm_reqs sm3 req)\<lparr>retnum := 1\<rparr> = sm_reqs sm3 req" by (cases "sm_reqs sm3 req") simp
  then have same: "put_req req (\<lambda>r. r\<lparr>retnum := 1\<rparr>) sm3 = sm3" by (simp add: put_req_def)
  have c3: "\<not> libsrpc_req_is_corrupted req None sm3" using ok corrupted_shape [OF d(4)] by simp
  have z: "srv \<noteq> 0" using only by (simp add: only_server_def)
  have fd: "funid (sm_reqs sm3 req) = sRPCFNID_START + 1 + int i" using fid d(4) by (simp add: same_shape_def)
  have fa: "f (extract_args (rp_args (RPC_LIST ! i)) (req_args (sm_reqs sm3 req))) s = (v, s)" for s using ex fv d(5) by (simp add: p_def)
  obtain sm4 where w: "rcv_drain cap impl srv tid \<lparr>rs_cnt = 0, rs_wait = False, rs_shm = sm3\<rparr> = Some \<lparr>rs_cnt = 0, rs_wait = False, rs_shm = sm4\<rparr>"
    "same_shape (sm_reqs sm3 req) (sm_reqs sm4 req)" "mq_ok cap (proc_queue (sm_procs sm4 srv)) []"
    "get_resp sm4 req off = answered (if rp_ret (RPC_LIST ! i) = 0 then None else Some v) (get_resp sm3 req off)"
    "req_sem (sm_reqs sm4 req) = sem_post (req_sem (sm_reqs sm3 req))"
    by (rule worker_answers [where impl = impl and i = i and f = f and v = v, OF d(2) nz z d(3) c3 fd i im fa])
  have eff: "eff sm3 = sm4" using w(1) by (simp add: eff_def)
  have f4: "libsrpc_req_get_response_fast req 0 (eff sm3) = Some off"
    unfolding eff using fast_shape [OF w(2)] d(2) by (simp add: sent_to_def)
  note wt = wait_one [where eff = eff, OF f4, unfolded eff, OF w(4)]
  show thesis by (rule that [OF d(1) same wt]) (use w(3,4) in \<open>simp_all add: get_resp_def p_def\<close>)
qed

lemma answer_read:
  assumes "length v = rlen"
  shows "libsrpc_req_response_get (Some (\<lambda>_. answered (if rlen = 0 then None else Some v) s)) rlen cx = ((0, if rlen = 0 then None else Some v), cx)"
proof -
  have "response_spin 1024 (\<lambda>_. answered (if rlen = 0 then None else Some v) s) 0 rlen = Some (0, if rlen = 0 then None else Some v)"
    using spin_answered [OF assms, of 1023 s 0] spin_answered_void [of 1023 s 0] by (simp del: response_spin.simps)
  then show ?thesis by (simp add: libsrpc_req_response_get_def)
qed

lemma pick_timeout_tls: "pick_timeout k cx = (to, cx') \<Longrightarrow> cx_tls cx' = cx_tls cx"
  by (auto simp: pick_timeout_def Let_def split: if_splits)

section \<open>Clearing the queue of a process that stops\<close>

definition cancelled :: srpc_rc where "cancelled = rc_make RC_ST_ERROR (- ECANCELLED)"

text \<open>The slot of process \<open>proc\<close> in a request that is intact.\<close>

definition open_slot :: "u64 \<Rightarrow> u64 \<Rightarrow> u32 \<Rightarrow> shmem \<Rightarrow> bool" where
  "open_slot proc req off sm \<longleftrightarrow> \<not> libsrpc_req_is_corrupted req None sm \<and> slot_is_mine proc req sm off \<and>
     (\<exists>j. libsrpc_req_get_response req j sm = Some off) \<and>
     (\<forall>k o'. libsrpc_req_get_response req k sm = Some o' \<and> slot_is_mine proc req sm o' \<longrightarrow> o' = off)"

lemma get_response_shape: "same_shape (sm_reqs sm req) (sm_reqs sm' req) \<Longrightarrow>
    libsrpc_req_get_response req i sm' = libsrpc_req_get_response req i sm"
  by (simp add: libsrpc_req_get_response_def corrupted_shape shape_size Let_def) (simp add: same_shape_def)

lemma cancel_request_frame:
  "same_shape (sm_reqs sm r) (sm_reqs (cancel_request proc req sm) r)" "sm_procs (cancel_request proc req sm) = sm_procs sm"
  "slot_is_mine p r (cancel_request proc req sm) off = slot_is_mine p r sm off"
  "resp_rc (get_resp sm r off) \<noteq> 0 \<Longrightarrow> resp_rc (get_resp (cancel_request proc req sm) r off) = resp_rc (get_resp sm r off)"
  "resp_rc (get_resp (cancel_request proc req sm) r off) = resp_rc (get_resp sm r off) \<or> resp_rc (get_resp (cancel_request proc req sm) r off) = cancelled"
  by (auto simp: cancel_request_def Let_def same_shape_def slot_is_mine_def resp_try_def put_resp_def get_resp_def cancelled_def split: option.splits)

lemma open_slot_cancel: "open_slot p r off (cancel_request proc req sm) = open_slot p r off sm"
  by (simp add: open_slot_def cancel_request_frame(3) corrupted_shape [OF cancel_request_frame(1)] get_response_shape [OF cancel_request_frame(1)])

lemma open_slot_queue [simp]: "open_slot p r off (put_queue proc q sm) = open_slot p r off sm"
  by (simp add: open_slot_def slot_is_mine_def libsrpc_req_get_response_def)

lemma cancel_own:
  assumes "open_slot proc req off sm"
  shows "resp_rc (get_resp (cancel_request proc req sm) req off) \<noteq> 0"
proof -
  note a = assms [unfolded open_slot_def]
  obtain j where j: "libsrpc_req_get_response req j sm = Some off" using a by blast
  then have "j < retnum (sm_reqs sm req)" by (auto simp: libsrpc_req_get_response_def Let_def split: if_splits)
  then have "unat j \<in> set [0..<unat (retnum (sm_reqs sm req))]" by (simp add: word_less_nat_alt)
  then have "find_slot (\<lambda>i. libsrpc_req_get_response req (of_nat i) sm) (slot_is_mine proc req sm) [0..<unat (retnum (sm_reqs sm req))] None = Some off"
    by (rule find_slot_mine) (use a j in auto)
  with a show ?thesis
    by (auto simp: cancel_request_def Let_def resp_try_def get_resp_def put_resp_def split: option.splits if_splits)
qed

lemma queue_clear_run:
  assumes "mq_ok cap (proc_queue (sm_procs sm proc)) reqs"
  shows "\<exists>sm'. libsrpc_thread_rcv_queue_clear cap proc sm = Some sm' \<and> mq_ok cap (proc_queue (sm_procs sm' proc)) [] \<and>
    (\<forall>req off. open_slot proc req off sm \<longrightarrow> open_slot proc req off sm' \<and> (req \<in> set reqs \<longrightarrow> resp_rc (get_resp sm' req off) \<noteq> 0)) \<and>
    (\<forall>req off. resp_rc (get_resp sm' req off) = resp_rc (get_resp sm req off) \<or>
       resp_rc (get_resp sm req off) = 0 \<and> resp_rc (get_resp sm' req off) = cancelled)"
  using assms
proof (induction reqs arbitrary: sm)
  case Nil
  then have e: "lf_mpmc_queue_try_dequeue cap (proc_queue (sm_procs sm proc)) = Some ((LF_QUEUE_EMPTY, None), proc_queue (sm_procs sm proc))"
    using dequeue_empty by (simp add: mq_ok_def)
  have "libsrpc_thread_rcv_queue_clear cap proc sm = Some sm"
    by (subst libsrpc_thread_rcv_queue_clear.simps) (simp add: e queue_codes put_queue_same)
  with Nil show ?case by auto
next
  case (Cons req reqs)
  obtain q where q: "lf_mpmc_queue_try_dequeue cap (proc_queue (sm_procs sm proc)) = Some ((0, Some req), q)" "mq_ok cap q reqs"
    using mq.deq_some [OF Cons.prems] by blast
  let ?sm = "cancel_request proc req (put_queue proc q sm)"
  have step: "libsrpc_thread_rcv_queue_clear cap proc sm = libsrpc_thread_rcv_queue_clear cap proc ?sm"
    by (subst libsrpc_thread_rcv_queue_clear.simps) (simp add: q(1) queue_codes)
  have "mq_ok cap (proc_queue (sm_procs ?sm proc)) reqs" using q(2) by (simp add: cancel_request_frame(2))
  from Cons.IH [OF this] obtain sm' where sm': "libsrpc_thread_rcv_queue_clear cap proc ?sm = Some sm'" "mq_ok cap (proc_queue (sm_procs sm' proc)) []"
    "\<forall>r off. open_slot proc r off ?sm \<longrightarrow> open_slot proc r off sm' \<and> (r \<in> set reqs \<longrightarrow> resp_rc (get_resp sm' r off) \<noteq> 0)"
    "\<forall>r off. resp_rc (get_resp sm' r off) = resp_rc (get_resp ?sm r off) \<or> resp_rc (get_resp ?sm r off) = 0 \<and> resp_rc (get_resp sm' r off) = cancelled"
    by blast
  have nz: "cancelled \<noteq> 0" by (simp add: cancelled_def)
  have own: "resp_rc (get_resp sm' req off) \<noteq> 0" if "open_slot proc req off sm" for off
    using cancel_own [of proc req off "put_queue proc q sm"] that sm'(4) nz by (metis open_slot_queue)
  have val: "resp_rc (get_resp sm' r off) = resp_rc (get_resp sm r off) \<or> resp_rc (get_resp sm r off) = 0 \<and> resp_rc (get_resp sm' r off) = cancelled" for r off
    using sm'(4) cancel_request_frame(4,5) [where sm = "put_queue proc q sm" and r = r and off = off and proc = proc and req = req] nz by (metis put_queue_sel(2))
  from sm'(1-3) own val show ?case by (auto simp: step open_slot_cancel)
qed

section \<open>Properties\<close>

text \<open>C1: A remote call returns what the function returns. A thread makes its first call of function \<open>i\<close>, which
  one running process with worker threads has registered; the worker of that process drains its queue
  while the caller waits. Then the stub returns exactly the bytes that the function computes from
  the bytes of the arguments, and the error code is that of the allocation: the arguments pass
  through the block unchanged, the request is delivered once, answered in the slot of that process,
  and the semaphore ends the wait.\<close>

theorem rpc_call_returns_result:
  assumes "i < sRPC_FNNUM" "map length args = rp_args (RPC_LIST ! i)" "only_server cap srv i sm"
    "libsrpc_req_alloc (sRPCFNID_START + 1 + int i) (of_nat (sum_list (rp_args (RPC_LIST ! i)))) (of_nat (rp_ret (RPC_LIST ! i)))
       (cx\<lparr>cx_tls := libsrpc_errno_clear (cx_tls cx)\<rparr>) sm = Some (req, cx1, sm1)" "req \<noteq> 0"
    "current_req cx = 0" "rpc_enable cx" "\<not> srpc_disable_rpc_recursion cx"
    "impl i = Some f" "\<forall>s. f args s = (v, s)" "length v = rp_ret (RPC_LIST ! i)"
    "env = \<lparr>ev_queue = \<lambda>_ q. q, ev_wakes = \<lambda>_. [(0, \<lambda>s. rs_shm (the (rcv_drain cap impl srv tid \<lparr>rs_cnt = 0, rs_wait = False, rs_shm = s\<rparr>)))],
       ev_late = \<lambda>_ s. s\<rparr>"
  shows "\<exists>cx' sm'. rpc_call env i args cx sm = Some (v, cx', sm') \<and> cx_tls cx' = cx_tls cx1 \<and>
    mq_ok cap (proc_queue (sm_procs sm' srv)) []"
proof -
  let ?p = "RPC_LIST ! i" and ?cx = "cx\<lparr>cx_tls := libsrpc_errno_clear (cx_tls cx)\<rparr>"
  have cr: "current_req ?cx = 0" using assms(6) by simp
  define sm2 where "sm2 = put_req req (\<lambda>r. r\<lparr>req_args := concat args @ drop (sum_list (rp_args ?p)) (req_args r)\<rparr>) sm1"
  obtain off where a: "libsrpc_req_get_response_fast req 0 sm2 = Some off" "only_server cap srv i sm2" "retnum (sm_reqs sm2 req) = 1"
    "funid (sm_reqs sm2 req) = sRPCFNID_START + 1 + int i" "extract_args (rp_args ?p) (req_args (sm_reqs sm2 req)) = args"
    "\<not> libsrpc_req_is_corrupted req None sm2" "libsrpc_shmem_get cx1" "rpc_enable cx1 = rpc_enable ?cx"
    "srpc_disable_rpc_recursion cx1 = srpc_disable_rpc_recursion ?cx"
    by (rule call_prepared [OF assms(1-5) cr sm2_def])
  have e: "ev_queue env = (\<lambda>_ q. q)" "ev_late env = (\<lambda>_ s. s)" by (simp_all add: assms(12))
  obtain sm3 sm4 s where b: "send_dispatch env RPC_SEND_ALL req i sm2 = Some (1, 1, sm3)" "put_req req (\<lambda>r. r\<lparr>retnum := 1\<rparr>) sm3 = sm3"
    "wait_loop [(0, \<lambda>s. rs_shm (the (rcv_drain cap impl srv tid \<lparr>rs_cnt = 0, rs_wait = False, rs_shm = s\<rparr>)))] req 1 sm3 = Some sm4"
    "get_resp sm4 req off = answered (if rp_ret ?p = 0 then None else Some v) s" "mq_ok cap (proc_queue (sm_procs sm4 srv)) []"
    by (rule call_answered [where impl = impl and f = f and i = i and v = v and tid = tid, OF a(1-6) e(1) assms(1,5,9,10)])
  have wt: "wait_loop (ev_wakes env to) req 1 sm3 = Some sm4" for to using b(3) by (simp only: assms(12) rpc_env.simps)
  obtain to cx2 where pick: "pick_timeout i cx1 = (to, cx2)" by force
  have idx: "sRPC_ID2IDX (sRPCFNID_START + 1 + int i) = int i" by (simp add: sRPC_ID2IDX_def)
  have send: "libsrpc_send_request env req RPC_SEND_ALL cx1 sm2 = Some (cx2, sm4)"
    using assms(1,5,7,8) a(3,4,7-9) b(1,2) wt pick by (simp add: libsrpc_send_request_def idx)
  note get = answer_read [OF assms(11), of s cx2, folded b(4)]
  have "length (concat args) = sum_list (rp_args ?p)" by (simp add: length_concat assms(2))
  then have "rpc_call env i args cx sm = Some (v, cx2, sm4)"
    using assms(4,5,11) a(1) send get RPC_LIST_small(1) [OF assms(1)] e(2)
    by (auto simp: rpc_call_def rpc_stub_def Let_def simp flip: sm2_def)
  then show ?thesis using b(5) pick_timeout_tls [OF pick] by blast
qed

text \<open>The process at 2048 adds the bytes of its two arguments.\<close>

definition add_impl :: rpc_impl where
  "add_impl i = (if i = 2 then Some (\<lambda>args s. (map2 (+) (args ! 0) (args ! 1), s)) else None)"

lemma call_only: "only_server 2 2048 2 call_shm"
  by (simp add: only_server_def call_shm_func mq_ok_def good_cap_2)
     (simp add: call_shm_def libsrpc_proc_is_valid_def run_proc_def init_rep good_cap_2)

lemma rpc_call_returns_result_witness:
  "\<exists>cx' sm'. rpc_call \<lparr>ev_queue = \<lambda>_ q. q,
       ev_wakes = \<lambda>_. [(0, \<lambda>s. rs_shm (the (rcv_drain 2 add_impl 2048 0 \<lparr>rs_cnt = 0, rs_wait = False, rs_shm = s\<rparr>)))], ev_late = \<lambda>_ s. s\<rparr>
     2 [[1, 0, 0, 0], [2, 0, 0, 0]] call_cx call_shm = Some ([3, 0, 0, 0], cx', sm')"
proof -
  have g: "libsrpc_shmem_get (call_cx\<lparr>cx_tls := libsrpc_errno_clear (cx_tls call_cx)\<rparr>)" "current_req (call_cx\<lparr>cx_tls := libsrpc_errno_clear (cx_tls call_cx)\<rparr>) = 0"
    "cx_uid (call_cx\<lparr>cx_tls := libsrpc_errno_clear (cx_tls call_cx)\<rparr>) = 2" "cx_caller (call_cx\<lparr>cx_tls := libsrpc_errno_clear (cx_tls call_cx)\<rparr>) = me"
    using call_cx_ok by (simp_all add: libsrpc_shmem_get_def)
  obtain req cx1 sm1 where r: "libsrpc_req_alloc 19 8 4 (call_cx\<lparr>cx_tls := libsrpc_errno_clear (cx_tls call_cx)\<rparr>) call_shm = Some (req, cx1, sm1)" "req \<noteq> 0"
    by (rule call_alloc [OF g])
  have i: "2 < sRPC_FNNUM" and p: "rp_args (RPC_LIST ! 2) = [4, 4]" "rp_ret (RPC_LIST ! 2) = 4" by (simp_all add: sRPC_FNNUM_def RPC_LIST_def)
  have r': "libsrpc_req_alloc (sRPCFNID_START + 1 + int 2) (of_nat (sum_list (rp_args (RPC_LIST ! 2)))) (of_nat (rp_ret (RPC_LIST ! 2)))
       (call_cx\<lparr>cx_tls := libsrpc_errno_clear (cx_tls call_cx)\<rparr>) call_shm = Some (req, cx1, sm1)"
    using r(1) by (simp add: p sRPCFNID_START_def)
  have "map length [[1, 0, 0, 0], [2, 0, 0, 0 :: u8]] = rp_args (RPC_LIST ! 2)" by (simp add: p)
  note app = rpc_call_returns_result [OF i this call_only r' r(2), where impl = add_impl and v = "[3, 0, 0, 0]" and tid = 0
    and f = "\<lambda>args s. (map2 (+) (args ! 0) (args ! 1), s)", OF _ _ _ _ _ _ refl]
  have "current_req call_cx = 0" "rpc_enable call_cx" "\<not> srpc_disable_rpc_recursion call_cx" by (simp_all add: call_cx_def some_cx_def)
  from app [OF this] show ?thesis by (auto simp: add_impl_def p)
qed



end
