(* ===== verification/Srpc_Proc.thy ===== *)
theory Srpc_Proc
  imports Srpc_Server
begin

text \<open>
  The process table (\<^verbatim>\<open>src/libsrpc_proc.c\<close>, except the destruction of a process, which is in
  \<open>Srpc_Destroy\<close>): the choice of a process UID, the search by PID, the creation of a process, and
  the question whether an open response slot still points at a process. The static variable
  \<^verbatim>\<open>libsrpc_proc_uid_next\<close> is the argument \<open>nxt\<close>; the system calls are arguments.
\<close>

section \<open>UIDs\<close>

text \<open>The search of \<^verbatim>\<open>libsrpc_proc_get_uid\<close>: \<open>n\<close> is the number of retries left (\<^verbatim>\<open>100 - cnt\<close>), \<open>uids\<close> the UIDs of
  the listed processes. The result is the UID (0: none) and the static variable afterwards.\<close>

fun uid_search :: "nat \<Rightarrow> u16 list \<Rightarrow> u16 \<Rightarrow> u16 \<times> u16" where
  "uid_search n uids nxt =
     (if nxt \<notin> set uids then (nxt, nxt)
      else if nxt + 1 = 0 then (0, DAEMON_PROC_UID + 1)
      else case n of 0 \<Rightarrow> (0, nxt + 1) | Suc m \<Rightarrow> uid_search m uids (nxt + 1))"

declare uid_search.simps [simp del]

definition uids_of :: "shmem \<Rightarrow> u64 list \<Rightarrow> u16 list" where
  "uids_of sm ps = map (\<lambda>p. proc_uid (sm_procs sm p)) ps"

definition libsrpc_proc_get_uid :: "u16 \<Rightarrow> srpc_ctx \<Rightarrow> shmem \<Rightarrow> ((u16 \<times> u16) \<times> srpc_ctx) option" where
  "libsrpc_proc_get_uid nxt cx sm =
     (if \<not> libsrpc_shmem_get cx then Some ((0, nxt), set_tls ESHMNOINIT cx)
      else map_option (\<lambda>ps. (uid_search 100 (uids_of sm ps) nxt, cx)) (list_foreach (sm_lists sm) (sm_proc_head sm)))"

section \<open>Search and creation\<close>

definition libsrpc_proc_get :: "int \<Rightarrow> srpc_ctx \<Rightarrow> shmem \<Rightarrow> (u64 \<times> srpc_ctx) option" where
  "libsrpc_proc_get pid cx sm =
     (if \<not> libsrpc_shmem_get cx then Some (0, set_tls ESHMNOINIT cx)
      else map_option (\<lambda>ps. (case find (\<lambda>p. proc_pid (sm_procs sm p) = pid) ps of None \<Rightarrow> 0 | Some p \<Rightarrow> p, cx))
             (list_foreach (sm_lists sm) (sm_proc_head sm)))"

text \<open>What the system and the build contribute: the processors on line, \<^verbatim>\<open>sizeof(libsrpc_proc_t)\<close> and the
  capacity of its queue, and the results of the initialisation of the semaphore and of the spin lock.\<close>

record proc_env =
  pe_nproc :: int
  pe_proc_sz :: u64
  pe_cap :: u64
  pe_sem_rc :: int
  pe_spin_rc :: int

definition THREAD_SZ :: u64 where "THREAD_SZ = 16"

text \<open>\<^verbatim>\<open>memset(proc, 0, size)\<close> on the structure, its list node and the head of its request list.\<close>

definition zero_proc :: "nat \<Rightarrow> libsrpc_proc" where
  "zero_proc n = \<lparr>proc_sign = 0, proc_status = LIBSRPC_PROC_STATUS_INIT, proc_uid = 0, proc_pid = 0, threads_run = 0, threads_wait = 0,
     proc_sem = None, proc_queue = \<lparr>q_head = 0, q_tail = 0, q_buffer = \<lambda>_. \<lparr>slot_seq = 0, slot_data = 0\<rparr>, q_mask = 0\<rparr>,
     threads_num = 0, threads_hp = replicate n 0\<rparr>"

definition clear_proc :: "u64 \<Rightarrow> nat \<Rightarrow> shmem \<Rightarrow> shmem" where
  "clear_proc p n sm = sm\<lparr>sm_procs := (sm_procs sm)(p := zero_proc n),
     sm_lists := put_head (req_head_of p) (\<lambda>_. \<lparr>list_first = 0, write_ops = 0\<rparr>) (put_node p (\<lambda>_. \<lparr>node_next = 0, node_head = 0\<rparr>) (sm_lists sm))\<rparr>"

text \<open>The label \<^verbatim>\<open>err\<close>.\<close>

definition create_failed :: "u64 \<Rightarrow> int \<Rightarrow> u16 \<Rightarrow> srpc_ctx \<Rightarrow> shmem \<Rightarrow> (int \<times> u16 \<times> srpc_ctx \<times> shmem) option" where
  "create_failed p rc nxt cx sm =
     (if p = 0 then Some (rc, nxt, cx, sm)
      else map_option (\<lambda>(_, cx', sm'). (rc, nxt, cx', sm')) (libsrpc_shmem_free p cx sm))"

definition proc_setup :: "proc_env \<Rightarrow> int \<Rightarrow> u64 \<Rightarrow> u16 \<Rightarrow> srpc_ctx \<Rightarrow> shmem \<Rightarrow> (int \<times> u16 \<times> srpc_ctx \<times> shmem) option" where
  "proc_setup env pid p nxt cx sm =
     (let sm1 = put_proc p (\<lambda>q. q\<lparr>proc_pid := pid\<rparr>) (clear_proc p (nat (pe_nproc env)) sm) in
      case libsrpc_proc_get_uid nxt cx sm1 of
        None \<Rightarrow> None
      | Some ((uid, nxt1), cx1) \<Rightarrow>
          let sm2 = put_proc p (\<lambda>q. q\<lparr>proc_uid := uid, threads_num := of_int (pe_nproc env)\<rparr>) sm1 in
          if uid = 0 then create_failed p (- EBADF) nxt1 cx1 sm2
          else if pe_sem_rc env < 0 then create_failed p (pe_sem_rc env) nxt1 cx1 sm2
          else
            let sm3 = put_proc p (\<lambda>q. q\<lparr>proc_sem := Some 0, proc_queue := lf_mpmc_queue_init (pe_cap env) (proc_queue q)\<rparr>) sm2;
                (rc, ls) = libsrpc_list_head_init (pe_spin_rc env) (req_head_of p) (sm_lists sm3);
                sm4 = sm3\<lparr>sm_lists := ls\<rparr>
            in if rc < 0 then create_failed p rc nxt1 cx1 sm4
               else
                 let sm5 = put_proc p (\<lambda>q. q\<lparr>proc_sign := LIBSRPC_PROC_SIGN\<rparr>) sm4;
                     (rc, ls) = libsrpc_list_push_front (sm_proc_head sm5) p (sm_lists sm5);
                     sm6 = sm5\<lparr>sm_lists := ls\<rparr>
                 in if rc < 0 then create_failed p rc nxt1 cx1 sm6 else Some (0, nxt1, cx1, sm6))"

definition libsrpc_proc_create :: "proc_env \<Rightarrow> int \<Rightarrow> u16 \<Rightarrow> srpc_ctx \<Rightarrow> shmem \<Rightarrow> (int \<times> u16 \<times> srpc_ctx \<times> shmem) option" where
  "libsrpc_proc_create env pid nxt cx sm =
     (if pe_nproc env \<le> 0 \<or> pe_nproc env > 1024 \<or> pid \<le> 0 then Some (- EINVAL, nxt, cx, sm)
      else if \<not> libsrpc_shmem_get cx then Some (- ESHMNOINIT, nxt, cx, sm)
      else case libsrpc_proc_get pid cx sm of
          None \<Rightarrow> None
        | Some (proc, cx1) \<Rightarrow>
            if proc \<noteq> 0 then Some (- EEXIST, nxt, cx1, sm)
            else
              let sz = pe_proc_sz env + of_int (pe_nproc env) * THREAD_SZ in
              if sz < pe_proc_sz env then Some (- EINVAL, nxt, cx1, sm)
              else case libsrpc_shmem_malloc_type sz LIBSRPC_SHMDT_PROC cx1 sm of
                  None \<Rightarrow> None
                | Some (p, cx2, sm1) \<Rightarrow>
                    if p = 0 then Some (- ENOMEM, nxt, cx2, sm1) else proc_setup env pid p nxt cx2 sm1)"

section \<open>Open slots that point at a process\<close>

definition slot_aims_at :: "u64 \<Rightarrow> u64 \<Rightarrow> shmem \<Rightarrow> nat \<Rightarrow> bool" where
  "slot_aims_at target req sm i =
     (case libsrpc_req_get_response_fast req (of_nat i) sm of
        None \<Rightarrow> False
      | Some off \<Rightarrow> resp_rc (get_resp sm req off) = 0 \<and> hp_proc (get_resp sm req off) = target)"

definition libsrpc_req_list_aims_at :: "u64 \<Rightarrow> u64 \<Rightarrow> shmem \<Rightarrow> bool option" where
  "libsrpc_req_list_aims_at head target sm =
     map_option (\<lambda>reqs. \<exists>req \<in> set reqs. \<exists>i \<in> set [0..<unat (retnum (sm_reqs sm req))]. slot_aims_at target req sm i)
       (list_foreach (sm_lists sm) head)"

fun any_aimed :: "u64 \<Rightarrow> shmem \<Rightarrow> u64 list \<Rightarrow> bool option" where
  "any_aimed target sm [] = Some False"
| "any_aimed target sm (p # ps) =
     (case libsrpc_req_list_aims_at (req_head_of p) target sm of
        None \<Rightarrow> None
      | Some b \<Rightarrow> if b then Some True else any_aimed target sm ps)"

definition libsrpc_proc_cs_aimed_at :: "u64 \<Rightarrow> srpc_ctx \<Rightarrow> shmem \<Rightarrow> bool option" where
  "libsrpc_proc_cs_aimed_at target cx sm =
     (if target = 0 \<or> \<not> libsrpc_shmem_get cx then Some False
      else Option.bind (list_foreach (sm_lists sm) (sm_proc_head sm)) (any_aimed target sm))"

section \<open>The UID that is chosen\<close>

lemma unat_u16: "unat (x :: u16) < 65536"
  using unsigned_less [of x] by simp

lemma uid_search_finds:
  assumes "unat nxt + i < 65536" "nxt + of_nat i \<notin> set uids" "i \<le> n" "nxt \<noteq> 0"
  shows "\<exists>j \<le> i. uid_search n uids nxt = (nxt + of_nat j, nxt + of_nat j) \<and> nxt + of_nat j \<notin> set uids \<and>
    (\<forall>k < j. nxt + of_nat k \<in> set uids) \<and> unat (nxt + of_nat j) = unat nxt + j"
  using assms
proof (induction i arbitrary: nxt n)
  case 0
  then show ?case by (simp add: uid_search.simps)
next
  case (Suc i)
  show ?case
  proof (cases "nxt \<in> set uids")
    case False
    then show ?thesis by (intro exI [of _ 0]) (simp add: uid_search.simps)
  next
    case True
    obtain m where n: "n = Suc m" "i \<le> m" using Suc.prems(3) by (cases n) auto
    have s: "unat (nxt + 1) = unat nxt + 1" using Suc.prems(1) by (simp add: unat_word_ariths)
    then have nz: "nxt + 1 \<noteq> 0" by (auto simp: unat_eq_zero [symmetric])
    have "unat (nxt + 1) + i < 65536" "(nxt + 1) + of_nat i \<notin> set uids" using Suc.prems(1,2) s by (simp_all add: add.assoc)
    from Suc.IH [OF this n(2) nz] obtain j where j: "j \<le> i" "uid_search m uids (nxt + 1) = (nxt + 1 + of_nat j, nxt + 1 + of_nat j)"
      "nxt + 1 + of_nat j \<notin> set uids" "\<forall>k < j. nxt + 1 + of_nat k \<in> set uids" "unat (nxt + 1 + of_nat j) = unat (nxt + 1) + j"
      by blast
    have "\<forall>k < Suc j. nxt + of_nat k \<in> set uids"
    proof (intro allI impI)
      fix k assume "k < Suc j"
      then show "nxt + of_nat k \<in> set uids" using True j(4) by (cases k) (simp_all add: add.assoc)
    qed
    with j s n nz True show ?thesis
      by (intro exI [of _ "Suc j"]) (subst uid_search.simps, simp add: add.assoc)
  qed
qed

lemma uid_search_unused: "uid_search n uids nxt = (uid, nxt') \<Longrightarrow> uid \<noteq> 0 \<Longrightarrow> uid \<notin> set uids \<and> nxt' = uid"
proof (induction n arbitrary: nxt)
  case 0
  then show ?case by (subst (asm) uid_search.simps) (auto split: if_splits)
next
  case (Suc n)
  then show ?case by (subst (asm) (2) uid_search.simps) (auto split: if_splits)
qed

section \<open>The new process\<close>

lemma clear_proc_lists:
  assumes "list_ok (sm_lists sm) h ps" "p \<notin> set ps" "req_head_of p \<noteq> h"
  shows "list_ok (sm_lists (clear_proc p n sm)) h ps"
proof -
  let ?s = "sm_lists (clear_proc p n sm)"
  have "lseg ?s (list_first (head_at (sm_lists sm) h)) ps = lseg (sm_lists sm) (list_first (head_at (sm_lists sm) h)) ps"
    by (rule lseg_cong) (use assms(2) in \<open>auto simp: clear_proc_def put_node_def put_head_def\<close>)
  with list_okD(1) [OF assms(1)] have "lseg ?s (list_first (head_at (sm_lists sm) h)) ps" by simp
  with assms list_okD(4,5) [OF assms(1)] show ?thesis by (auto simp: list_ok_def clear_proc_def put_node_def put_head_def)
qed

text \<open>The structure of a process right after its creation.\<close>

definition new_proc :: "proc_env \<Rightarrow> int \<Rightarrow> u16 \<Rightarrow> libsrpc_proc" where
  "new_proc env pid uid = (zero_proc (nat (pe_nproc env)))\<lparr>proc_sign := LIBSRPC_PROC_SIGN, proc_uid := uid, proc_pid := pid,
     proc_sem := Some 0, proc_queue := lf_mpmc_queue_init (pe_cap env) (proc_queue (zero_proc 0)), threads_num := of_int (pe_nproc env)\<rparr>"

lemma proc_setup_run:
  assumes "libsrpc_shmem_get cx" "list_ok (sm_lists sm) (sm_proc_head sm) ps" "p \<notin> set ps" "p \<noteq> 0"
    "req_head_of p \<noteq> sm_proc_head sm" "req_head_of p \<noteq> 0" "pe_sem_rc env = 0" "pe_spin_rc env = 0"
    "uid_search 100 (uids_of sm ps) nxt = (uid, uid)" "uid \<noteq> 0"
  shows "\<exists>sm'. proc_setup env pid p nxt cx sm = Some (0, uid, cx, sm') \<and> list_ok (sm_lists sm') (sm_proc_head sm) (p # ps) \<and>
    sm_procs sm' = (sm_procs sm)(p := new_proc env pid uid) \<and> list_foreach (sm_lists sm') (req_head_of p) = Some [] \<and>
    sm' = sm\<lparr>sm_procs := sm_procs sm', sm_lists := sm_lists sm'\<rparr> \<and>
    ((\<forall>x. node_head (node_at (sm_lists sm) x) \<noteq> req_head_of p) \<longrightarrow> list_ok (sm_lists sm') (req_head_of p) []) \<and>
    (\<forall>h ys. h \<noteq> sm_proc_head sm \<longrightarrow> h \<noteq> req_head_of p \<longrightarrow> p \<notin> set ys \<longrightarrow> list_ok (sm_lists sm) h ys \<longrightarrow> list_ok (sm_lists sm') h ys)"
proof -
  define sm1 where "sm1 = put_proc p (\<lambda>q. q\<lparr>proc_pid := pid\<rparr>) (clear_proc p (nat (pe_nproc env)) sm)"
  have l1: "list_ok (sm_lists sm1) (sm_proc_head sm) ps"
    using clear_proc_lists [OF assms(2,3,5)] by (simp add: sm1_def put_proc_def)
  have f1: "list_foreach (sm_lists sm1) (sm_proc_head sm1) = Some ps"
    using spin.foreach_members [OF l1] by (simp add: sm1_def put_proc_def clear_proc_def)
  have u1: "uids_of sm1 ps = uids_of sm ps" using assms(3) by (auto simp: uids_of_def sm1_def put_proc_def clear_proc_def)
  have g: "libsrpc_proc_get_uid nxt cx sm1 = Some ((uid, uid), cx)" using assms(1,9) f1 u1 by (simp add: libsrpc_proc_get_uid_def)
  define ls where "ls = put_head (req_head_of p) (\<lambda>_. \<lparr>list_first = 0, write_ops = 0\<rparr>) (sm_lists sm1)"
  have l2: "list_ok ls (sm_proc_head sm) ps" using l1 assms(5) by (auto simp: ls_def list_ok_def)
  have "loose_node ls p" using assms(4) by (simp add: ls_def loose_node_def sm1_def put_proc_def clear_proc_def put_node_def put_head_def)
  with spin.push_loose [OF l2] obtain ls' where p: "libsrpc_list_push_front (sm_proc_head sm) p ls = (0, ls')" "list_ok ls' (sm_proc_head sm) (p # ps)"
    "\<And>h ys. h \<noteq> sm_proc_head sm \<Longrightarrow> list_ok ls h ys \<Longrightarrow> list_ok ls' h ys"
    by blast
  have other: "list_ok ls' h ys" if "h \<noteq> sm_proc_head sm" "h \<noteq> req_head_of p" "p \<notin> set ys" "list_ok (sm_lists sm) h ys" for h ys
  proof -
    have "list_ok (sm_lists sm1) h ys" using clear_proc_lists [OF that(4,3)] that(2) by (simp add: sm1_def put_proc_def)
    then have "list_ok ls h ys" using that(2) by (auto simp: ls_def list_ok_def)
    then show ?thesis by (rule p(3) [OF that(1)])
  qed
  have own: "list_ok ls' (req_head_of p) []" if "\<forall>x. node_head (node_at (sm_lists sm) x) \<noteq> req_head_of p"
  proof (rule p(3))
    show "list_ok ls (req_head_of p) []"
      using that assms(6) by (simp add: list_ok_def ls_def sm1_def put_proc_def clear_proc_def)
  qed (use assms(5) in simp)
  have "list_first (head_at ls' (req_head_of p)) = 0"
    using p(1) assms(4,5) by (auto simp: libsrpc_list_push_front_def Let_def ls_def put_node_def put_head_def list_codes split: if_splits)
  then have fe: "list_foreach ls' (req_head_of p) = Some []" by (simp add: list_foreach_def foreach_from.simps)
  define sm' where "sm' = sm\<lparr>sm_procs := (sm_procs sm)(p := new_proc env pid uid), sm_lists := ls'\<rparr>"
  have sm1: "sm_lists sm1 = sm_lists (clear_proc p (nat (pe_nproc env)) sm)" by (simp add: sm1_def put_proc_def)
  have h: "libsrpc_list_head_init 0 (req_head_of p) (sm_lists (clear_proc p (nat (pe_nproc env)) sm)) = (0, ls)"
    using assms(6) by (simp add: libsrpc_list_head_init_def ls_def list_codes sm1)
  have "proc_setup env pid p nxt cx sm = Some (0, uid, cx, sm')"
    using g [unfolded sm1_def] assms(7,8,10) h p(1)
    by (simp add: proc_setup_def Let_def put_proc_def sm'_def new_proc_def zero_proc_def) (simp add: clear_proc_def zero_proc_def)
  with p(2) fe other own show ?thesis by (auto simp: sm'_def)
qed

lemma proc_size:
  assumes "0 < pe_nproc env" "pe_nproc env \<le> 1024" "unat (pe_proc_sz env) \<le> 2 ^ 32"
  shows "unat (pe_proc_sz env + of_int (pe_nproc env) * THREAD_SZ) = unat (pe_proc_sz env) + nat (pe_nproc env) * 16"
proof -
  have "of_int (pe_nproc env) * THREAD_SZ = word_of_nat (nat (pe_nproc env) * 16)"
    using assms(1) by (simp add: THREAD_SZ_def mult.commute)
  moreover have "unat (word_of_nat (nat (pe_nproc env) * 16) :: u64) = nat (pe_nproc env) * 16"
    by (rule unat_of_nat_small) (use assms(2) in simp)
  ultimately show ?thesis
    using unat_add_nowrap [of "pe_proc_sz env" "of_int (pe_nproc env) * THREAD_SZ"] assms(2,3) by simp
qed

section \<open>Properties\<close>

text \<open>C32: Creating a process. When the process is not listed yet, the allocation gives a block that no listed
  process uses, the two initialisations succeed and one of the next 101 UIDs is unused,
  \<^verbatim>\<open>libsrpc_proc_create\<close> returns 0 and puts the new process in front of the list: with a UID that is
  not zero and that no listed process has (the smallest unused one from \<^verbatim>\<open>libsrpc_proc_uid_next\<close> on, which
  is also the value left in that variable), an empty queue, an empty request list, no hazard pointer,
  and status \<^verbatim>\<open>INIT\<close>. The structures of the other processes are not touched.\<close>

theorem proc_create_registers:
  assumes "libsrpc_shmem_get cx" "list_ok (sm_lists sm) (sm_proc_head sm) ps" "\<forall>q \<in> set ps. proc_pid (sm_procs sm q) \<noteq> pid"
    "0 < pid" "0 < pe_nproc env" "pe_nproc env \<le> 1024" "unat (pe_proc_sz env) \<le> 2 ^ 32" "pe_sem_rc env = 0" "pe_spin_rc env = 0" "good_cap (pe_cap env)"
    "libsrpc_shmem_malloc_type (pe_proc_sz env + of_int (pe_nproc env) * THREAD_SZ) LIBSRPC_SHMDT_PROC cx sm = Some (p, cx1, sm1)"
    "p \<noteq> 0" "p \<notin> set ps" "req_head_of p \<noteq> sm_proc_head sm" "req_head_of p \<noteq> 0"
    "nxt \<noteq> 0" "i \<le> 100" "unat nxt + i < 65536" "nxt + of_nat i \<notin> set (uids_of sm ps)"
  shows "\<exists>uid sm'. libsrpc_proc_create env pid nxt cx sm = Some (0, uid, cx1, sm') \<and>
    uid \<noteq> 0 \<and> uid \<notin> set (uids_of sm ps) \<and> (\<exists>j \<le> i. uid = nxt + of_nat j \<and> (\<forall>k < j. nxt + of_nat k \<in> set (uids_of sm ps))) \<and>
    list_ok (sm_lists sm') (sm_proc_head sm') (p # ps) \<and> list_foreach (sm_lists sm') (req_head_of p) = Some [] \<and>
    proc_uid (sm_procs sm' p) = uid \<and> proc_pid (sm_procs sm' p) = pid \<and> proc_sign (sm_procs sm' p) = LIBSRPC_PROC_SIGN \<and>
    proc_status (sm_procs sm' p) = LIBSRPC_PROC_STATUS_INIT \<and> mq_ok (pe_cap env) (proc_queue (sm_procs sm' p)) [] \<and>
    threads_hp (sm_procs sm' p) = replicate (nat (pe_nproc env)) 0 \<and> (\<forall>q. q \<noteq> p \<longrightarrow> sm_procs sm' q = sm_procs sm q)"
proof -
  have fe: "list_foreach (sm_lists sm) (sm_proc_head sm) = Some ps" by (rule spin.foreach_members [OF assms(2)])
  have "find (\<lambda>q. proc_pid (sm_procs sm q) = pid) ps = None" using assms(3) by (simp add: find_None_iff)
  then have get: "libsrpc_proc_get pid cx sm = Some (0, cx)" using assms(1) fe by (simp add: libsrpc_proc_get_def)
  note proc_size [OF assms(5-7)]
  then have sz: "\<not> pe_proc_sz env + of_int (pe_nproc env) * THREAD_SZ < pe_proc_sz env" by (simp add: word_less_nat_alt)
  note fr = shm_malloc_frame [OF assms(11)]
  have s1: "sm_lists sm1 = sm_lists sm" "sm_proc_head sm1 = sm_proc_head sm" "sm_procs sm1 = sm_procs sm" "uids_of sm1 ps = uids_of sm ps"
    by (subst fr(2), simp add: uids_of_def)+
  have g1: "libsrpc_shmem_get cx1" using assms(1) by (subst fr(1)) (simp add: libsrpc_shmem_get_def)
  obtain j where j: "j \<le> i" "uid_search 100 (uids_of sm ps) nxt = (nxt + of_nat j, nxt + of_nat j)" "nxt + of_nat j \<notin> set (uids_of sm ps)"
    "\<forall>k < j. nxt + of_nat k \<in> set (uids_of sm ps)" "unat (nxt + of_nat j) = unat nxt + j"
    using uid_search_finds [OF assms(18,19,17,16)] by blast
  have nz: "nxt + of_nat j \<noteq> 0" using j(5) assms(16) by (metis add_is_0 unat_eq_zero)
  have l1: "list_ok (sm_lists sm1) (sm_proc_head sm1) ps" using assms(2) by (simp add: s1)
  have h1: "req_head_of p \<noteq> sm_proc_head sm1" using assms(14) by (simp add: s1)
  have u1: "uid_search 100 (uids_of sm1 ps) nxt = (nxt + of_nat j, nxt + of_nat j)" using j(2) by (simp add: s1)
  obtain sm' where sm': "proc_setup env pid p nxt cx1 sm1 = Some (0, nxt + of_nat j, cx1, sm')" "list_ok (sm_lists sm') (sm_proc_head sm1) (p # ps)"
    "sm_procs sm' = (sm_procs sm1)(p := new_proc env pid (nxt + of_nat j))" "list_foreach (sm_lists sm') (req_head_of p) = Some []"
    "sm' = sm1\<lparr>sm_procs := sm_procs sm', sm_lists := sm_lists sm'\<rparr>"
    using proc_setup_run [OF g1 l1 assms(13,12) h1 assms(15,8,9) u1 nz] by blast
  have "libsrpc_proc_create env pid nxt cx sm = Some (0, nxt + of_nat j, cx1, sm')"
    using assms(1,4-6,11,12) get sz sm'(1) by (simp add: libsrpc_proc_create_def)
  moreover have "sm_proc_head sm' = sm_proc_head sm1" by (subst sm'(5)) simp
  moreover have "mq_ok (pe_cap env) (proc_queue (new_proc env pid (nxt + of_nat j))) []"
    using assms(10) by (simp add: new_proc_def mq_ok_def init_rep)
  ultimately show ?thesis using nz j(1,3,4) sm'(2-4) s1(3) by (auto simp: new_proc_def zero_proc_def)
qed

definition some_penv :: proc_env where
  "some_penv = \<lparr>pe_nproc = 1, pe_proc_sz = 240, pe_cap = 2, pe_sem_rc = 0, pe_spin_rc = 0\<rparr>"

lemma call_malloc:
  obtains c where "libsrpc_shmem_malloc_type 256 LIBSRPC_SHMDT_PROC call_cx call_shm = Some (10880, set_tls (tlsf_errno c) call_cx, call_shm\<lparr>sm_pool := c\<rparr>)"
proof -
  note inv = new_pool_inv [OF pool_args_concrete(2)]
  have r: "request_to_block_size 256 = 320" "mapping_search 320 = (8, 10)" "mapping_search 1472 = (10, 11)" by code_simp+
  have fb: "found_block 256 (new_pool 8192) = 10816"
    using found_single [of "new_pool 8192" "[10816]" 10816 256] inv(1,3,4) by (simp add: tlsf_inv_def r class_le_def)
  obtain c where c: "tlsf_malloc me 4096 256 2 1 (new_pool 8192) = Some (ptr_from_block 10816, c)"
    using tlsf_malloc_run [OF inv(1), of 4096 2 256 me 1] fb inv(4) by (auto simp: r(1))
  have "libsrpc_shmem_malloc_type 256 LIBSRPC_SHMDT_PROC call_cx call_shm = Some (10880, set_tls (tlsf_errno c) call_cx, call_shm\<lparr>sm_pool := c\<rparr>)"
    unfolding libsrpc_shmem_malloc_type_def
    by (rule shm_call_ready [OF call_cx_ok(1)])
       (use c in \<open>simp add: call_cx_ok call_shm_def empty_registry_def some_shm_def shm_types ptr_from_block_def HEADER_SIZE_def\<close>)
  then show thesis by (rule that)
qed

lemma proc_create_registers_witness:
  "\<exists>cx' sm'. libsrpc_proc_create some_penv 77 2 call_cx call_shm = Some (0, 3, cx', sm') \<and> proc_uid (sm_procs sm' 10880) = 3"
proof -
  obtain c where c: "libsrpc_shmem_malloc_type 256 LIBSRPC_SHMDT_PROC call_cx call_shm = Some (10880, set_tls (tlsf_errno c) call_cx, call_shm\<lparr>sm_pool := c\<rparr>)"
    by (rule call_malloc)
  have g: "sm_lists call_shm = two_lists" "sm_proc_head call_shm = 512" "uids_of call_shm [1024] = [2]"
    by (simp_all add: call_shm_def empty_registry_def some_shm_def uids_of_def run_proc_def)
  have pd: "proc_pid (sm_procs call_shm 1024) \<noteq> 77" by (simp add: call_shm_def run_proc_def some_proc_def)
  have l: "list_ok (sm_lists call_shm) (sm_proc_head call_shm) [1024]" by (simp only: g two_lists_ok)
  have sz: "pe_proc_sz some_penv + of_int (pe_nproc some_penv) * THREAD_SZ = 256" by (simp add: some_penv_def THREAD_SZ_def)
  obtain uid sm' where r: "libsrpc_proc_create some_penv 77 2 call_cx call_shm = Some (0, uid, set_tls (tlsf_errno c) call_cx, sm')"
    "uid \<notin> set (uids_of call_shm [1024])" "\<exists>j \<le> 1. uid = 2 + of_nat j" "proc_uid (sm_procs sm' 10880) = uid"
    using proc_create_registers [OF call_cx_ok(1) l, where env = some_penv and pid = 77 and p = 10880 and nxt = 2 and i = 1, unfolded sz, OF _ _ _ _ _ _ _ _ c] pd
    by (auto simp: g some_penv_def good_cap_2 req_head_of_def)
  from r(2,3) have "uid = 3" by (auto simp: g le_Suc_eq)
  with r(1,4) show ?thesis by auto
qed

end
