(* ===== verification/Tlsf_Walk.thy ===== *)
theory Tlsf_Walk
  imports Tlsf_Api
begin

text \<open>
  \<^verbatim>\<open>tlsf_free_uid_blocks\<close> seen from outside. A destructor that treats one block at a time makes
  the whole call apply its effect to every matching entry of the view and return: the locale
  \<open>walk_contract\<close> says what the destructor has to keep, its lemmas give the call. The
  destructors of the process table and of the garbage collector are interpretations.
\<close>

section \<open>The state between two steps of the walk\<close>

text \<open>The mutex is held and no transaction is open.\<close>

definition running :: "tlsf_ctrl \<Rightarrow> u64 list \<Rightarrow> bool" where
  "running c bs \<longleftrightarrow> heap_inv c bs \<and> stack_top c = 0 \<and> format_version c = TLSF_FORMAT_VERSION"

definition hit :: "u16 \<Rightarrow> blk \<Rightarrow> bool" where
  "hit uid k = (if uid = 0 then bk_dc k else uid \<in> set (bk_owners k))"

definition matched_uid :: "u16 \<Rightarrow> tlsf_ctrl \<Rightarrow> u64 \<Rightarrow> u16" where
  "matched_uid uid c b = (if uid = 0 then uid_get_first c b else uid)"

definition targets :: "u16 \<Rightarrow> (u64 \<rightharpoonup> blk) \<Rightarrow> u64 set" where
  "targets uid v = {p. \<exists>k. v p = Some k \<and> hit uid k}"

lemma walk_match_hit: "walk_match uid b c \<longleftrightarrow> hit uid (block_info c b)"
  using uid_find_nonneg [of c b uid] by (simp add: walk_match_def hit_def block_info_def)

lemma finite_view: "finite (dom (heap_abs c bs))"
proof (rule finite_subset)
  show "dom (heap_abs c bs) \<subseteq> ptr_from_block ` set bs"
  proof
    fix p assume "p \<in> dom (heap_abs c bs)"
    then have "block_from_ptr p \<in> set bs" by (auto simp: heap_abs_def Let_def split: if_splits)
    then show "p \<in> ptr_from_block ` set bs" by (rule image_eqI [rotated]) simp
  qed
qed simp

lemma finite_targets: "finite (targets uid (heap_abs c bs))"
  by (rule finite_subset [OF _ finite_view]) (auto simp: targets_def)

text \<open>The block at the front of the rest of the row.\<close>

definition front :: "u64 list \<Rightarrow> u64 \<Rightarrow> u64" where
  "front rs e = (case rs of [] \<Rightarrow> e | r # _ \<Rightarrow> r)"

lemma front_simps [simp]: "front [] e = e" "front (r # rs) e = r"
  by (simp_all add: front_def)

lemma chain_front: "chain m a e bs \<Longrightarrow> front bs e = a"
  by (cases bs) auto

lemma walk_at_block:
  assumes "heap_inv c (ds @ b # rs)"
  shows "\<not> get_heap_end c \<le> b" "validate_block_signature c b" "block_size c b \<noteq> 0"
    "\<not> block_size c b > get_heap_end c - b" "b + block_size c b = front rs (get_heap_end c)"
proof -
  have h: "heap_ok c (ds @ b # rs) (free_blocks c (ds @ b # rs)) {}" using assms by (simp add: heap_inv_def)
  note ch = heap_okD(2) [OF h]
  note mb = chain_member [OF ch, of b]
  have n: "unat b + unat (block_size c b) \<le> unat (get_heap_end c)" "128 \<le> unat (block_size c b)"
    using mb(3,6) by (simp_all add: block_word)
  then show "\<not> get_heap_end c \<le> b" by (simp add: word_le_nat_alt)
  show "validate_block_signature c b" using mb(4) by (simp add: validate_block_signature_def sig_word)
  show "block_size c b \<noteq> 0" using n(2) by auto
  have "unat (get_heap_end c - b) = unat (get_heap_end c) - unat b" by (rule unat_diff_nowrap) (use n in linarith)
  then show "\<not> block_size c b > get_heap_end c - b" using n(1) by (simp add: word_less_nat_alt)
  from ch have "chain (mem c) (b + sz_of (mem c b)) (get_heap_end c) rs" by (auto simp: chain_append)
  then show "b + block_size c b = front rs (get_heap_end c)" by (simp add: chain_front block_word)
qed

section \<open>Releasing and marking under the mutex\<close>

definition freed :: "u16 \<Rightarrow> blk \<Rightarrow> blk option" where
  "freed uid k = (let us = without uid (bk_owners k) in if unowned us then None else Some (k\<lparr>bk_owners := us\<rparr>))"

lemma freed_not_hit: "uid \<noteq> 0 \<Longrightarrow> freed uid k = Some k' \<Longrightarrow> \<not> hit uid k'"
  by (auto simp: freed_def Let_def hit_def without_def split: if_splits)

lemma free_nb_run:
  assumes "running c bs" "tlsf \<noteq> 0" "uid \<noteq> 0" "heap_abs c bs p = Some k" "uid \<in> set (bk_owners k)"
  shows "\<exists>c' bs'. tlsf_free_nb tlsf p uid c = c' \<and> running c' bs' \<and> same_txn c c' \<and> heap_abs c' bs' = (heap_abs c bs)(p := freed uid k)"
proof -
  obtain b where b: "p = ptr_from_block b" "b \<in> set bs" "\<not> fr_of (mem c b)" "k = block_info c b"
    using assms(4) by (rule heap_abs_Some)
  have h: "heap_inv c bs" and top: "unat (stack_top c) + 15 \<le> 64" using assms(1) by (simp_all add: running_def)
  have u: "uid \<in> set (uid_list c b)" using assms(5) b(4) by (simp add: block_info_def)
  obtain c1 bs' where r: "tlsf_free_internal p uid c = (True, c1)" "heap_inv c1 bs'" "free_effect c bs p uid c1 bs'" "logged_step 15 c c1"
    by (rule free_internal_ok [OF h b(2,3) u top, folded b(1)])
  have "p \<noteq> 0" using block_in_pool(1) [OF h b(2)] b(1) by simp
  then have "tlsf_free_nb tlsf p uid c = bul_commit c1" using assms(2,3) r(1) by (simp add: tlsf_free_nb_def commit_if_def)
  moreover have "running (bul_commit c1) bs'" using r(2,4) assms(1) by (simp add: running_def logged_step_def same_txn_def)
  moreover have "same_txn c (bul_commit c1)" using r(4) by (simp add: logged_step_def same_txn_def same_geom_def bul_commit_def)
  moreover have "heap_abs (bul_commit c1) bs' = (heap_abs c bs)(p := freed uid k)"
    using r(3) assms(4) by (auto simp: free_effect_def freed_def Let_def split: if_splits)
  ultimately show ?thesis by blast
qed

lemma setdc_run:
  assumes "running c bs" "tlsf \<noteq> 0" "heap_abs c bs p = Some k"
  shows "\<exists>c'. tlsf_setdc tlsf p c = (0, c') \<and> running c' bs \<and> same_txn c c' \<and> heap_abs c' bs = (heap_abs c bs)(p \<mapsto> k\<lparr>bk_dc := True\<rparr>)"
proof -
  obtain b where b: "p = ptr_from_block b" "b \<in> set bs" "\<not> fr_of (mem c b)" "k = block_info c b"
    using assms(3) by (rule heap_abs_Some)
  have h: "heap_inv c bs" and f: "format_version c = TLSF_FORMAT_VERSION" using assms(1) by (simp_all add: running_def)
  let ?v = "sig_dc c b OR SIG_DC_DC_BIT"
  have sg: "sig_of (mem c (b + 8))" using h chain_member(4) [OF _ b(2)] by (auto simp: heap_inv_def dest!: heap_okD(2))
  have v: "sig_of ?v" "type_of ?v = type_of (mem c (b + 8))" "dc_of ?v"
    using sg by (simp_all add: sig_word)
  note m = mark_step [OF h b(2,3) v(1,2)]
  show ?thesis
    using m(1,2) assms(1) v(3) unfolding tlsf_setdc_def b(1) dc_precheck_ok [OF h f assms(2) b(2,3)]
    by (simp add: running_def same_txn_def same_geom_def flip: b(1,4))
qed

lemma data_type_run:
  assumes "running c bs" "tlsf \<noteq> 0" "heap_abs c bs p = Some k"
  shows "tlsf_get_data_type tlsf p c = uint (bk_type k)" "tlsf_getdc tlsf p c = (if bk_dc k then 1 else 0)"
proof -
  obtain b where b: "p = ptr_from_block b" "b \<in> set bs" "\<not> fr_of (mem c b)" "k = block_info c b"
    using assms(3) by (rule heap_abs_Some)
  have h: "heap_inv c bs" and f: "format_version c = TLSF_FORMAT_VERSION" using assms(1) by (simp_all add: running_def)
  show "tlsf_get_data_type tlsf p c = uint (bk_type k)" "tlsf_getdc tlsf p c = (if bk_dc k then 1 else 0)"
    unfolding tlsf_get_data_type_def tlsf_getdc_def b(1) dc_precheck_ok [OF h f assms(2) b(2,3)]
    by (simp_all add: b(4) block_info_def)
qed

section \<open>Writing into a payload\<close>

text \<open>A store into the payload of a block is not seen by the allocator.\<close>

lemma payload_poke:
  assumes inv: "heap_inv c bs" and b: "b \<in> set bs" and a: "unat b + 64 \<le> unat a" "unat a < unat b + unat (block_size c b)"
  shows "heap_inv (poke a v c) bs" "heap_abs (poke a v c) bs = heap_abs c bs"
proof -
  let ?c = "poke a v c"
  have h: "heap_ok c bs (free_blocks c bs) {}" using inv by (simp add: heap_inv_def)
  note ch = heap_okD(2) [OF h]
  define y z where "y = (of_nat (unat a mod 64) :: u64)" and "z = a - y"
  have y: "unat y = unat a mod 64" unfolding y_def by (rule unat_of_nat_small) (simp add: order_less_trans [OF mod_less_divisor])
  have z: "unat z = unat a - unat a mod 64" unfolding z_def using unat_diff_nowrap [of y a] y by simp
  have al: "aligned64 z" unfolding aligned64_mod z by (simp add: minus_mod_eq_mult_div)
  have a': "a = z + y" by (simp add: z_def)
  have t: "touches c ?c {z}" unfolding a' by (rule touches_poke [OF al]) (simp add: word_less_nat_alt y)
  have "unat b mod 64 = 0" using chain_member(1) [OF ch b] by (simp add: aligned64_mod)
  then have "unat b + 64 = 64 * ((unat b + 64) div 64)" by (metis add.commute dvd_mult_div_cancel mod_0_imp_dvd mod_add_self1)
  also have "\<dots> \<le> 64 * (unat a div 64)" using div_le_mono [OF a(1), of 64] by simp
  also have "\<dots> = unat z" by (simp add: z minus_mod_eq_mult_div)
  finally have "unat b + 64 \<le> unat z" .
  moreover have "unat z \<le> unat a" unfolding z by simp
  ultimately have zn: "z \<notin> set bs"
    using a(2) by (intro chain_interior [OF ch b]) (simp_all add: block_word)
  have k: "keep c ?c x" if "x \<in> set bs" for x
    using keep_untouched [OF t chain_member(1) [OF ch that]] zn that by auto
  have m: "fr_of (mem ?c x) = fr_of (mem c x) \<and> sz_of (mem ?c x) = sz_of (mem c x)" if "x \<in> set bs" for x
    using k [OF that] by (auto simp: keep_def meta_same_def)
  have F: "free_blocks ?c bs = free_blocks c bs" unfolding free_blocks_def using m by (intro Collect_cong) blast
  have "heap_ok ?c bs (free_blocks c bs) {}"
    by (rule heap_ok_untouched [OF h _ _ t]) (use zn in \<open>simp_all add: same_geom_def same_lists_def\<close>)
  moreover have "used_sum (mem ?c) bs = used_sum (mem c) bs" by (rule used_sum_cong) (use m in blast)
  ultimately show "heap_inv ?c bs" using inv unfolding heap_inv_def F by simp
  have "heap_abs ?c bs p = heap_abs c bs p" for p
    using keep_info [OF k, of "block_from_ptr p"] unfolding heap_abs_def Let_def by presburger
  then show "heap_abs ?c bs = heap_abs c bs" ..
qed

lemma payload_poke_view:
  assumes "tlsf_inv c bs" "heap_abs c bs p = Some k" "unat p \<le> unat a" "unat a < unat p + unat (bk_size k)"
  shows "tlsf_inv (poke a v c) bs" "heap_abs (poke a v c) bs = heap_abs c bs"
proof -
  obtain b where b: "p = ptr_from_block b" "b \<in> set bs" "k = block_info c b" using assms(2) by (rule heap_abs_Some)
  have h: "heap_inv c bs" using assms(1) by (simp add: tlsf_inv_def)
  have hk: "heap_ok c bs (free_blocks c bs) {}" using h by (simp add: heap_inv_def)
  note m = chain_member [OF heap_okD(2) [OF hk] b(2)]
  have sz: "unat (block_size c b) = unat (bk_size k) + 64" "64 \<le> unat (block_size c b)"
    using m(3) by (simp_all add: b(3) block_info_def block_payload_size_def block_word unat_diff_nowrap HEADER_SIZE_def)
  have p: "unat p = unat b + 64"
    using unat_add_nowrap [of b 64] m(3,6) unat_lt_64 [of "get_heap_end c"] by (simp add: b(1) ptr_from_block_def HEADER_SIZE_def)
  have "unat b + 64 \<le> unat a" "unat a < unat b + unat (block_size c b)" using assms(3,4) p sz(1) by simp_all
  note pk = payload_poke [OF h b(2) this, of v]
  show "heap_abs (poke a v c) bs = heap_abs c bs" by (rule pk(2))
  show "tlsf_inv (poke a v c) bs" using pk(1) assms(1) by (simp add: tlsf_inv_def idle_def)
qed

section \<open>Destructors\<close>

text \<open>\<open>eff\<close>: what becomes of a matching block. A destructor returns 0 when it left the row of blocks
  as it was, and a positive code when the row may have changed; the block then no longer matches,
  so that the walk may start again. \<open>fixed\<close>: what a later pass finds of a block treated before.
  \<open>inv S\<close>: the invariant after the blocks \<open>S\<close> were treated in this pass.\<close>

locale walk_contract =
  fixes uid :: u16
    and destr :: "'u destructor"
    and eff :: "blk \<Rightarrow> blk option"
    and fixed :: "'u \<Rightarrow> u64 \<Rightarrow> blk \<Rightarrow> bool"
    and inv :: "u64 set \<Rightarrow> 'u \<Rightarrow> (u64 \<rightharpoonup> blk) \<Rightarrow> bool"
    and may_abort :: "'u \<Rightarrow> bool"
  assumes step: "running c bs \<Longrightarrow> heap_abs c bs p = Some k \<Longrightarrow> hit uid k \<Longrightarrow> inv S u (heap_abs c bs) \<Longrightarrow> p \<notin> S \<Longrightarrow>
      \<exists>drc u' c' bs'. destr p (block_from_ptr p) (matched_uid uid c (block_from_ptr p)) u c = (drc, u', c') \<and>
        same_txn c c' \<and> running c' bs' \<and> inv (if drc > 0 then {} else insert p S) u' (heap_abs c' bs') \<and>
        (if drc < 0 then may_abort u' \<and> heap_abs c' bs' = heap_abs c bs
         else heap_abs c' bs' = (heap_abs c bs)(p := eff k) \<and>
           (if drc = 0 then bs' = bs \<and> (\<exists>k'. eff k = Some k' \<and> fixed u' p k') \<and> (\<forall>q j. fixed u q j \<longrightarrow> fixed u' q j)
            else (case eff k of None \<Rightarrow> True | Some k' \<Rightarrow> \<not> hit uid k')))"
    and eff_idem: "hit uid k \<Longrightarrow> eff k = Some k' \<Longrightarrow> hit uid k' \<Longrightarrow> eff k' = Some k'"
    and eff_fixed: "fixed u p k \<Longrightarrow> hit uid k \<Longrightarrow> eff k = Some k"
begin

definition sweep :: "(u64 \<rightharpoonup> blk) \<Rightarrow> (u64 \<rightharpoonup> blk)" where
  "sweep v p = (case v p of None \<Rightarrow> None | Some k \<Rightarrow> if hit uid k then eff k else Some k)"

definition settled :: "'u \<Rightarrow> (u64 \<rightharpoonup> blk) \<Rightarrow> u64 \<Rightarrow> bool" where
  "settled u v p \<longleftrightarrow> (\<forall>k. v p = Some k \<longrightarrow> hit uid k \<longrightarrow> fixed u p k)"

lemma sweep_step: "v p = Some k \<Longrightarrow> hit uid k \<Longrightarrow> sweep (v(p := eff k)) = sweep v"
  using eff_idem [of k] by (auto simp: sweep_def fun_eq_iff split: option.splits)

lemma sweep_settled: "(\<And>p. settled u v p) \<Longrightarrow> sweep v = v"
  using eff_fixed by (fastforce simp: sweep_def settled_def fun_eq_iff split: option.splits)

lemma targets_step: "v p = Some k \<Longrightarrow> hit uid k \<Longrightarrow> targets uid (v(p := eff k)) \<subseteq> targets uid v"
  by (auto simp: targets_def)

lemma targets_drop:
  "v p = Some k \<Longrightarrow> hit uid k \<Longrightarrow> (case eff k of None \<Rightarrow> True | Some k' \<Rightarrow> \<not> hit uid k') \<Longrightarrow>
   targets uid (v(p := eff k)) \<subset> targets uid v"
  by (auto simp: targets_def psubset_eq set_eq_iff split: option.splits)

text \<open>How a pass may end.\<close>

definition pass_end :: "(u64 \<rightharpoonup> blk) \<Rightarrow> (int + bool) \<Rightarrow> 'u \<Rightarrow> (u64 \<rightharpoonup> blk) \<Rightarrow> bool" where
  "pass_end v r u' v' \<longleftrightarrow> (\<exists>S. inv S u' v' \<and> (r = Inr True \<longrightarrow> S = {})) \<and> sweep v' = sweep v \<and> targets uid v' \<subseteq> targets uid v \<and>
     (case r of Inl rc \<Rightarrow> rc < 0 \<and> may_abort u'
      | Inr found \<Rightarrow> if found then targets uid v' \<subset> targets uid v else (\<forall>p. settled u' v' p))"

lemma pass_end_trans:
  "sweep v1 = sweep v \<Longrightarrow> targets uid v1 \<subseteq> targets uid v \<Longrightarrow> pass_end v1 r u v' \<Longrightarrow> pass_end v r u v'"
  by (auto simp: pass_end_def split: sum.splits if_splits)

lemma walk_pass_run:
  assumes "running c (ds @ rs)" "inv S u (heap_abs c (ds @ rs))" "S \<subseteq> ptr_from_block ` set ds"
    "\<forall>x \<in> set ds. settled u (heap_abs c (ds @ rs)) (ptr_from_block x)"
  shows "\<exists>r u' c' bs'. walk_pass uid destr (front rs (get_heap_end c)) (get_heap_end c) u c = (r, u', c') \<and>
    same_txn c c' \<and> running c' bs' \<and> pass_end (heap_abs c (ds @ rs)) r u' (heap_abs c' bs')"
  using assms
proof (induction rs arbitrary: ds u c S)
  case Nil
  have "settled u (heap_abs c ds) p" for p
    using Nil.prems(4) [rule_format, of "block_from_ptr p"] by (auto simp: settled_def heap_abs_def Let_def)
  then have "pass_end (heap_abs c ds) (Inr False) u (heap_abs c ds)" using Nil.prems(2) by (auto simp: pass_end_def)
  then show ?case using Nil.prems(1) by (auto simp: walk_pass.simps same_txn_def same_geom_def)
next
  case (Cons b rs)
  let ?bs = "ds @ b # rs" and ?p = "ptr_from_block b" and ?e = "get_heap_end c"
  have bs: "?bs = (ds @ [b]) @ rs" by simp
  note at = walk_at_block [OF conjunct1 [OF Cons.prems(1) [unfolded running_def]]]
  have on: "walk_pass uid destr b ?e u c = (if block_is_free c b \<or> \<not> walk_match uid b c then walk_pass uid destr (front rs ?e) ?e u c
      else case destr ?p b (matched_uid uid c b) u c of (drc, u1, c1) \<Rightarrow>
        if drc < 0 then (Inl drc, u1, c1) else if drc > 0 then (Inr True, u1, c1) else walk_pass uid destr (front rs ?e) ?e u1 c1)"
    using at(1-4) unfolding at(5) [symmetric] matched_uid_def by (subst walk_pass.simps) (simp add: Let_def)
  show ?case
  proof (cases "block_is_free c b \<or> \<not> walk_match uid b c")
    case True
    then have "settled u (heap_abs c ?bs) ?p" by (auto simp: settled_def heap_abs_ptr block_word walk_match_hit)
    moreover have "S \<subseteq> ptr_from_block ` set (ds @ [b])" using Cons.prems(3) by auto
    ultimately show ?thesis using Cons.IH [of c "ds @ [b]" S u] Cons.prems True on by auto
  next
    case False
    define k where "k = block_info c b"
    have k: "heap_abs c ?bs ?p = Some k" "hit uid k"
      using False by (simp_all add: heap_abs_ptr block_word walk_match_hit k_def)
    have "b \<notin> set ds" using Cons.prems(1) chain_distinct by (fastforce simp: running_def heap_inv_def dest!: heap_okD(2))
    then have new: "?p \<notin> S" using Cons.prems(3) by auto
    from step [OF Cons.prems(1) k Cons.prems(2) new] obtain drc u1 c1 bs1 where d:
      "destr ?p b (matched_uid uid c b) u c = (drc, u1, c1)" "same_txn c c1" "running c1 bs1" "inv (if drc > 0 then {} else insert ?p S) u1 (heap_abs c1 bs1)"
      "if drc < 0 then may_abort u1 \<and> heap_abs c1 bs1 = heap_abs c ?bs
       else heap_abs c1 bs1 = (heap_abs c ?bs)(?p := eff k) \<and>
         (if drc = 0 then bs1 = ?bs \<and> (\<exists>k'. eff k = Some k' \<and> fixed u1 ?p k') \<and> (\<forall>q j. fixed u q j \<longrightarrow> fixed u1 q j)
          else (case eff k of None \<Rightarrow> True | Some k' \<Rightarrow> \<not> hit uid k'))"
      unfolding ptr_block by blast
    note run = on [unfolded d(1)]
    note sw = sweep_step [where v = "heap_abs c ?bs", OF k] and ts = targets_step [where v = "heap_abs c ?bs", OF k]
    consider (neg) "drc < 0" | (again) "drc > 0" | (next_one) "drc = 0" by linarith
    then show ?thesis
    proof cases
      case neg
      then have "pass_end (heap_abs c ?bs) (Inl drc) u1 (heap_abs c1 bs1)" using d(4,5) unfolding pass_end_def by auto
      then show ?thesis using neg run False d(2,3) by auto
    next
      case again
      then have v: "heap_abs c1 bs1 = (heap_abs c ?bs)(?p := eff k)" "case eff k of None \<Rightarrow> True | Some k' \<Rightarrow> \<not> hit uid k'"
        using d(5) by simp_all
      have "pass_end (heap_abs c ?bs) (Inr True) u1 (heap_abs c1 bs1)"
        using d(4) again sw targets_drop [where v = "heap_abs c ?bs", OF k v(2)] unfolding v(1) by (auto simp: pass_end_def)
      then show ?thesis using again run False d(2,3) by auto
    next
      case next_one
      with d(5) have v: "bs1 = ?bs" "heap_abs c1 ?bs = (heap_abs c ?bs)(?p := eff k)"
        and fx: "\<exists>k'. eff k = Some k' \<and> fixed u1 ?p k'" "\<forall>q j. fixed u q j \<longrightarrow> fixed u1 q j" by auto
      have e: "get_heap_end c1 = ?e" using d(2) by (simp add: same_txn_def same_geom_def get_heap_end_def)
      have "settled u1 (heap_abs c1 ?bs) ?p" using fx(1) by (auto simp: settled_def v(2))
      moreover have "settled u1 (heap_abs c1 ?bs) (ptr_from_block x)" if "x \<in> set ds" for x
        using Cons.prems(4) that fx by (auto simp: settled_def v(2))
      ultimately have "\<forall>x \<in> set (ds @ [b]). settled u1 (heap_abs c1 ((ds @ [b]) @ rs)) (ptr_from_block x)" by auto
      moreover have "insert ?p S \<subseteq> ptr_from_block ` set (ds @ [b])" using Cons.prems(3) by auto
      ultimately obtain r u' c' bs' where r:
        "walk_pass uid destr (front rs ?e) ?e u1 c1 = (r, u', c')" "same_txn c1 c'" "running c' bs'"
        "pass_end (heap_abs c1 ?bs) r u' (heap_abs c' bs')"
        using Cons.IH [of c1 "ds @ [b]" "insert ?p S" u1] d(3,4) v(1) next_one by (auto simp: e)
      have "pass_end (heap_abs c ?bs) r u' (heap_abs c' bs')"
        by (rule pass_end_trans [OF _ _ r(4)]) (use sw ts v(2) in simp_all)
      then show ?thesis using next_one run False r(1,3) same_txn_trans [OF d(2) r(2)] by auto
    qed
  qed
qed

lemma walk_all_run:
  assumes "running c bs" "inv {} u (heap_abs c bs)" "card (targets uid (heap_abs c bs)) < fuel"
  shows "\<exists>rc u' c' bs'. walk_all fuel uid destr u c = Some (rc, u', c') \<and> same_txn c c' \<and> running c' bs' \<and>
    (\<exists>S. inv S u' (heap_abs c' bs')) \<and> sweep (heap_abs c' bs') = sweep (heap_abs c bs) \<and>
    (rc < 0 \<and> may_abort u' \<or> rc = 0 \<and> (\<forall>p. settled u' (heap_abs c' bs') p))"
  using assms
proof (induction fuel arbitrary: c bs u)
  case (Suc fuel)
  have h: "heap_ok c bs (free_blocks c bs) {}" using Suc.prems(1) by (simp add: running_def heap_inv_def)
  have "front bs (get_heap_end c) = get_first_block c" using chain_front [OF heap_okD(2) [OF h]] by (simp add: get_first_block_def)
  with walk_pass_run [of c "[]" bs "{}" u] Suc.prems(1,2) obtain r u1 c1 bs1 where r:
    "walk_pass uid destr (get_first_block c) (get_heap_end c) u c = (r, u1, c1)" "same_txn c c1" "running c1 bs1"
    "pass_end (heap_abs c bs) r u1 (heap_abs c1 bs1)" by auto
  show ?case
  proof (cases r)
    case (Inl rc)
    then show ?thesis using r by (auto simp: pass_end_def)
  next
    case (Inr found)
    show ?thesis
    proof (cases found)
      case True
      then have less: "targets uid (heap_abs c1 bs1) \<subset> targets uid (heap_abs c bs)"
        and i1: "inv {} u1 (heap_abs c1 bs1)" and sw: "sweep (heap_abs c1 bs1) = sweep (heap_abs c bs)"
        using r(4) Inr by (simp_all add: pass_end_def)
      have "card (targets uid (heap_abs c1 bs1)) < fuel"
        using psubset_card_mono [OF finite_targets less] Suc.prems(3) by linarith
      moreover have "walk_all (Suc fuel) uid destr u c = walk_all fuel uid destr u1 c1" using r(1) Inr True by simp
      ultimately show ?thesis using Suc.IH [OF r(3) i1] same_txn_trans [OF r(2)] unfolding sw by metis
    next
      case False
      then show ?thesis using r Inr by (auto simp: pass_end_def)
    qed
  qed
qed simp

text \<open>The call on an idle pool: with a pass for every matching block it returns.\<close>

lemma free_uid_blocks_run:
  assumes "tlsf_inv c bs" "tlsf \<noteq> 0" "inv {} u (heap_abs c bs)" "card (targets uid (heap_abs c bs)) < fuel"
  shows "\<exists>rc u' c' bs'. tlsf_free_uid_blocks fuel w tlsf uid (Some destr) u c = Some (rc, u', c') \<and> tlsf_inv c' bs' \<and>
    (\<exists>S. inv S u' (heap_abs c' bs')) \<and> sweep (heap_abs c' bs') = sweep (heap_abs c bs) \<and>
    (rc < 0 \<and> may_abort u' \<or>
     rc = 0 \<and> heap_abs c' bs' = sweep (heap_abs c bs) \<and> (\<forall>p k. heap_abs c' bs' p = Some k \<longrightarrow> hit uid k \<longrightarrow> fixed u' p k))"
proof -
  have id: "idle c" using assms(1) by (simp add: tlsf_inv_def)
  have "running (locked w c) bs" using assms(1) by (simp add: running_def tlsf_inv_def idle_def)
  moreover have "inv {} u (heap_abs (locked w c) bs)" "card (targets uid (heap_abs (locked w c) bs)) < fuel" using assms(3,4) by simp_all
  ultimately obtain rc u' c1 bs' where r:
    "walk_all fuel uid destr u (locked w c) = Some (rc, u', c1)" "same_txn (locked w c) c1" "running c1 bs'"
    "\<exists>S. inv S u' (heap_abs c1 bs')" "sweep (heap_abs c1 bs') = sweep (heap_abs c bs)"
    "rc < 0 \<and> may_abort u' \<or> rc = 0 \<and> (\<forall>p. settled u' (heap_abs c1 bs') p)"
    using walk_all_run [of "locked w c" bs u fuel] unfolding locked_inv(2) by metis
  have i: "tlsf_inv (mutex_unlock w c1) bs'" using idle_after(2) [OF id r(2)] r(3) by (simp add: running_def tlsf_inv_def)
  have "heap_abs c1 bs' = sweep (heap_abs c bs) \<and> (\<forall>p k. heap_abs c1 bs' p = Some k \<longrightarrow> hit uid k \<longrightarrow> fixed u' p k)"
    if "\<forall>p. settled u' (heap_abs c1 bs') p"
    using that r(5) sweep_settled [of u' "heap_abs c1 bs'"] by (auto simp: settled_def)
  with r i show ?thesis using assms(2) by (auto simp: tlsf_free_uid_blocks_def lock_idle [OF id])
qed

end

end
