(* ===== verification/Srpc_Gc.thy ===== *)
theory Srpc_Gc
  imports Srpc_Proc Tlsf_Walk
begin

text \<open>
  The garbage collector of the daemon (\<^verbatim>\<open>src/libsrpc_shm_gc.c\<close>): start and stop, the lists of
  blocks that wait until nobody locks the memory of a dead process (\<^verbatim>\<open>trash\<close>), the collection of the
  blocks marked for deferred cleanup and their release once no hazard pointer names them.

  The daemon's own memory is the record \<open>gc_local\<close>: the static variables and the trash nodes, which
  are \<^verbatim>\<open>malloc\<close>ed; their list nodes lie in the list store beside those of the segment, under
  their private addresses. \<^verbatim>\<open>malloc\<close> and \<^verbatim>\<open>realloc\<close> are arguments (0: the call failed).
\<close>

section \<open>Data\<close>

text \<open>\<open>tr_ptr\<close>: the array \<^verbatim>\<open>ptr[]\<close> behind the structure, of which \<open>tr_num\<close> entries are allocated and
  \<open>tr_cnt\<close> are used.\<close>

record libsrpc_shm_trash =
  tr_uid :: u16
  tr_num :: u32
  tr_cnt :: u32
  tr_ptr :: "nat \<Rightarrow> u64"

definition TRASH_SZ :: u64 where "TRASH_SZ = 32"

record gc_elm =
  ge_ptr :: u64
  ge_type :: u16
  ge_uid :: u16
  ge_refcount :: u32

definition POOL_SIZE :: nat where "POOL_SIZE = 1024"

text \<open>\<open>gp_elm\<close>: the first \<^verbatim>\<open>count\<close> elements of the array.\<close>

record gc_pool =
  gp_type_cnt :: "int list"
  gp_elm :: "gc_elm list"

record gc_local =
  gc_init :: bool
  gc_stop :: bool
  trash_at :: "u64 \<Rightarrow> libsrpc_shm_trash"

section \<open>Start and stop\<close>

text \<open>\<open>sem_rc\<close> and \<open>start_rc\<close> are the results of \<^verbatim>\<open>sem_init\<close> (or \<^verbatim>\<open>sem_destroy\<close>) and of \<^verbatim>\<open>pthread_start\<close>.\<close>

definition libsrpc_shm_gc_init :: "int \<Rightarrow> int \<Rightarrow> srpc_ctx \<Rightarrow> gc_local \<Rightarrow> shmem \<Rightarrow> int \<times> gc_local \<times> shmem" where
  "libsrpc_shm_gc_init sem_rc start_rc cx g sm =
     (if \<not> libsrpc_shmem_get cx then (- ESHMNOINIT, g, sm)
      else if gc_init g then (0, g, sm)
      else if sem_rc < 0 then (- EINVAL, g, sm)
      else
        let sm1 = sm\<lparr>sm_gc_sem := Some 0\<rparr> in
        if start_rc < 0 then (- EINVAL, g, sm1)
        else (0, g\<lparr>gc_init := True\<rparr>, sm1))"

definition libsrpc_shm_gc_destroy :: "int \<Rightarrow> srpc_ctx \<Rightarrow> gc_local \<Rightarrow> shmem \<Rightarrow> int \<times> gc_local \<times> shmem" where
  "libsrpc_shm_gc_destroy sem_rc cx g sm =
     (if \<not> libsrpc_shmem_get cx then (- ESHMNOINIT, g, sm)
      else if \<not> gc_init g then (0, g, sm)
      else
        let g1 = g\<lparr>gc_init := False, gc_stop := True\<rparr>;
            (_, sm1) = libsrpc_shm_gc_wakeup cx sm
        in (0, g1, if sem_rc < 0 then sm1 else sm1\<lparr>sm_gc_sem := None\<rparr>))"

section \<open>Trash\<close>

definition put_trash :: "u64 \<Rightarrow> (libsrpc_shm_trash \<Rightarrow> libsrpc_shm_trash) \<Rightarrow> gc_local \<Rightarrow> gc_local" where
  "put_trash a f g = g\<lparr>trash_at := (trash_at g)(a := f (trash_at g a))\<rparr>"

definition libsrpc_shm_trash_create_node :: "(u64 \<Rightarrow> u64) \<Rightarrow> u32 \<Rightarrow> gc_local \<Rightarrow> list_store \<Rightarrow> u64 \<times> gc_local \<times> list_store" where
  "libsrpc_shm_trash_create_node malloc num g ls =
     (let trash = malloc (TRASH_SZ + ucast num * 8) in
      if trash = 0 then (0, g, ls)
      else (trash, put_trash trash (\<lambda>t. t\<lparr>tr_num := num, tr_cnt := 0, tr_uid := 0\<rparr>) g, libsrpc_list_node_init trash ls))"

definition libsrpc_shm_trash_add_node :: "u64 \<Rightarrow> srpc_ctx \<Rightarrow> shmem \<Rightarrow> int \<times> shmem" where
  "libsrpc_shm_trash_add_node trash cx sm =
     (if trash = 0 \<or> \<not> libsrpc_shmem_get cx then (- EINVAL, sm)
      else case libsrpc_list_push_front (sm_gc_head sm) trash (sm_lists sm) of (rc, ls) \<Rightarrow>
        (if rc < 0 then - ENOMEM else 0, sm\<lparr>sm_lists := ls\<rparr>))"

text \<open>\<open>realloc p n\<close>: the new address of the node at \<open>p\<close>, with its contents. The result is the code, the
  node pointer written back, and the memory.\<close>

definition trash_move :: "u64 \<Rightarrow> u64 \<Rightarrow> gc_local \<times> list_store \<Rightarrow> gc_local \<times> list_store" where
  "trash_move old new = (\<lambda>(g, ls). (put_trash new (\<lambda>_. trash_at g old) g, put_node new (\<lambda>_. node_at ls old) ls))"

definition trash_store :: "u64 \<Rightarrow> u64 \<Rightarrow> gc_local \<Rightarrow> gc_local" where
  "trash_store trash ptr = put_trash trash (\<lambda>t. t\<lparr>tr_ptr := (tr_ptr t)(unat (tr_cnt t) := ptr), tr_cnt := tr_cnt t + 1\<rparr>)"

definition libsrpc_shm_trash_add_ptr ::
  "(u64 \<Rightarrow> u64 \<Rightarrow> u64) \<Rightarrow> u64 \<Rightarrow> u64 \<Rightarrow> gc_local \<Rightarrow> list_store \<Rightarrow> int \<times> u64 \<times> gc_local \<times> list_store" where
  "libsrpc_shm_trash_add_ptr realloc trash ptr g ls =
     (if trash = 0 \<or> ptr = 0 then (- EINVAL, trash, g, ls)
      else
        let t = trash_at g trash in
        if tr_cnt t \<ge> tr_num t then
          let new_num = tr_num t + tr_num t div 4;
              new_ptr = realloc trash (TRASH_SZ + ucast new_num * 8)
          in if new_ptr = 0 then (- ENOMEM, trash, g, ls)
             else case trash_move trash new_ptr (g, ls) of (g1, ls1) \<Rightarrow>
               (0, new_ptr, trash_store new_ptr ptr (put_trash new_ptr (\<lambda>t. t\<lparr>tr_num := new_num\<rparr>) g1), ls1)
        else (0, trash, trash_store trash ptr g, ls))"

definition trash_ptrs :: "libsrpc_shm_trash \<Rightarrow> u64 list" where
  "trash_ptrs t = map (tr_ptr t) [0..<unat (tr_cnt t)]"

text \<open>The release of a list of blocks of one owner inside \<^verbatim>\<open>tlsf_lock\<close> and \<^verbatim>\<open>tlsf_unlock\<close>, whose results the
  code ignores; \<open>None\<close>: the lock is never granted.\<close>

definition free_all_locked :: "(u64 \<times> u16) list \<Rightarrow> srpc_ctx \<Rightarrow> shmem \<Rightarrow> shmem option" where
  "free_all_locked ps cx sm =
     (case tlsf_lock (cx_caller cx) (sm_poolptr sm) (sm_pool sm) of
        None \<Rightarrow> None
      | Some (_, c1) \<Rightarrow>
          let c2 = fold (\<lambda>(p, uid). tlsf_free_nb (sm_poolptr sm) p uid) ps c1;
              (_, c3) = tlsf_unlock (cx_caller cx) (sm_poolptr sm) c2
          in Some (sm\<lparr>sm_pool := c3\<rparr>))"

definition libsrpc_shm_trash_destroy_node :: "u64 \<Rightarrow> srpc_ctx \<Rightarrow> gc_local \<Rightarrow> shmem \<Rightarrow> shmem option" where
  "libsrpc_shm_trash_destroy_node trash cx g sm =
     (if trash = 0 \<or> \<not> libsrpc_shmem_get cx then Some sm
      else case free_all_locked (map (\<lambda>p. (p, tr_uid (trash_at g trash))) (trash_ptrs (trash_at g trash))) cx sm of
          None \<Rightarrow> None
        | Some sm1 \<Rightarrow> map_option (\<lambda>(_, ls). sm1\<lparr>sm_lists := ls\<rparr>) (libsrpc_list_remove trash (sm_lists sm1)))"

text \<open>The walk \<^verbatim>\<open>LIBSRPC_LIST_FOREACH_SAFE\<close> reads the successor before the body, which removes at most the
  current node, so it visits the nodes that were on the list.\<close>

fun trash_walk :: "u64 list \<Rightarrow> srpc_ctx \<Rightarrow> gc_local \<Rightarrow> shmem \<Rightarrow> shmem option" where
  "trash_walk [] cx g sm = Some sm"
| "trash_walk (t # ts) cx g sm =
     (case libsrpc_shmem_is_locked_uid (tr_uid (trash_at g t)) cx sm of
        None \<Rightarrow> None
      | Some True \<Rightarrow> trash_walk ts cx g sm
      | Some False \<Rightarrow> Option.bind (libsrpc_shm_trash_destroy_node t cx g sm) (trash_walk ts cx g))"

definition libsrpc_shm_trash_clear_list :: "srpc_ctx \<Rightarrow> gc_local \<Rightarrow> shmem \<Rightarrow> (int \<times> shmem) option" where
  "libsrpc_shm_trash_clear_list cx g sm =
     (if \<not> libsrpc_shmem_get cx then Some (- EINVAL, sm)
      else Option.bind (list_foreach (sm_lists sm) (sm_gc_head sm)) (\<lambda>ts. map_option (Pair 0) (trash_walk ts cx g sm)))"

section \<open>Collection\<close>

definition empty_gc_pool :: gc_pool where
  "empty_gc_pool = \<lparr>gp_type_cnt = replicate (unat LIBSRPC_SHMDT_MAX) 0, gp_elm = []\<rparr>"

definition special_type :: "int \<Rightarrow> bool" where
  "special_type t \<longleftrightarrow> t = uint LIBSRPC_SHMDT_PROC \<or> t = uint LIBSRPC_SHMDT_REGFN \<or> t = uint LIBSRPC_SHMDT_REQUEST"

definition gc_destructor_fn :: "u64 \<Rightarrow> gc_pool destructor" where
  "gc_destructor_fn tlsf ptr block match_uid pool c =
     (if ptr = 0 \<or> tlsf = 0 \<or> block = 0 then (- EINVAL, pool, c)
      else if length (gp_elm pool) \<ge> POOL_SIZE then (- ENOMEM, pool, c)
      else
        let data_type = max 0 (tlsf_get_data_type tlsf ptr c); flag_dc = max 0 (tlsf_getdc tlsf ptr c) in
        if special_type data_type then
          (if flag_dc = 0 then (0, pool, c)
           else
             let pool1 = pool\<lparr>gp_elm := gp_elm pool @ [\<lparr>ge_ptr = ptr, ge_type = of_int data_type, ge_uid = match_uid, ge_refcount = 0\<rparr>],
                   gp_type_cnt := (if data_type < uint LIBSRPC_SHMDT_MAX
                     then (gp_type_cnt pool)[nat data_type := gp_type_cnt pool ! nat data_type + 1] else gp_type_cnt pool)\<rparr>
             in (if length (gp_elm pool1) \<ge> POOL_SIZE then - ENOMEM else 0, pool1, c))
        else (0, pool, tlsf_free_nb tlsf ptr match_uid c))"

text \<open>The first loop of \<^verbatim>\<open>gc_pool_destroy\<close> for one element; \<open>None\<close>: a walk over the lists does not end.\<close>

definition gc_check :: "u64 \<Rightarrow> srpc_ctx \<Rightarrow> gc_elm \<Rightarrow> shmem \<Rightarrow> (gc_elm \<times> shmem) option" where
  "gc_check cap cx e sm =
     (let p = ge_ptr e; held = e\<lparr>ge_refcount := ge_refcount e + 1\<rparr> in
      if ge_type e = LIBSRPC_SHMDT_PROC then
        map_option (\<lambda>aimed.
          if aimed then (held, sm)
          else if proc_status (sm_procs sm p) = LIBSRPC_PROC_STATUS_DELETE
          then (e, put_proc p (\<lambda>q. q\<lparr>proc_sem := None, proc_status := LIBSRPC_PROC_STATUS_DEAD\<rparr>) sm)
          else (e, sm)) (libsrpc_proc_cs_aimed_at p cx sm)
      else if ge_type e = LIBSRPC_SHMDT_REGFN then
        map_option (\<lambda>b. (if b then held else e, sm)) (libsrpc_shmem_is_busy_regfn p cx sm)
      else if ge_type e = LIBSRPC_SHMDT_REQUEST then
        map_option (\<lambda>b. if b then (held, sm) else (e, snd (libsrpc_req_destroy p sm))) (libsrpc_req_is_busy_proc cap p cx sm)
      else Some (e, sm))"

fun gc_checks :: "u64 \<Rightarrow> srpc_ctx \<Rightarrow> gc_elm list \<Rightarrow> shmem \<Rightarrow> (gc_elm list \<times> shmem) option" where
  "gc_checks cap cx [] sm = Some ([], sm)"
| "gc_checks cap cx (e # es) sm =
     (case gc_check cap cx e sm of
        None \<Rightarrow> None
      | Some (e', sm1) \<Rightarrow> map_option (apfst (Cons e')) (gc_checks cap cx es sm1))"

definition unreferenced :: "gc_elm \<Rightarrow> bool" where
  "unreferenced e \<longleftrightarrow> ge_ptr e \<noteq> 0 \<and> ge_refcount e = 0"

definition gc_pool_destroy :: "u64 \<Rightarrow> srpc_ctx \<Rightarrow> shmem \<Rightarrow> gc_pool option \<Rightarrow> (int \<times> gc_pool option \<times> shmem) option" where
  "gc_pool_destroy cap cx sm pool =
     (case pool of None \<Rightarrow> Some (- EINVAL, None, sm)
      | Some pl \<Rightarrow>
          (case gc_checks cap cx (gp_elm pl) sm of
             None \<Rightarrow> None
           | Some (es, sm1) \<Rightarrow>
               let pl1 = pl\<lparr>gp_elm := es\<rparr>; dead = filter unreferenced es in
               if dead = [] then Some (0, Some pl1, sm1)
               else map_option (\<lambda>sm2. (int (length dead), Some pl1, sm2))
                      (free_all_locked (map (\<lambda>e. (ge_ptr e, ge_uid e)) dead) cx sm1)))"

section \<open>The thread\<close>

definition SHM_GC_FREQ_CHECK :: int where "SHM_GC_FREQ_CHECK = 10"

text \<open>The absolute deadline of the wait from the current time (seconds, nanoseconds).\<close>

definition gc_deadline :: "int \<times> int \<Rightarrow> int \<times> int" where
  "gc_deadline now =
     (let nsec = snd now + 1000000000 div SHM_GC_FREQ_CHECK in
      if nsec \<ge> 1000000000 then (fst now + 1, nsec - 1000000000) else (fst now, nsec))"

text \<open>One round after the wait: the trash, then the marked blocks. \<open>fuel\<close> bounds the passes of the walk.\<close>

definition gc_round :: "nat \<Rightarrow> u64 \<Rightarrow> srpc_ctx \<Rightarrow> gc_local \<Rightarrow> shmem \<Rightarrow> shmem option" where
  "gc_round fuel cap cx g sm =
     (case libsrpc_shm_trash_clear_list cx g sm of
        None \<Rightarrow> None
      | Some (_, sm1) \<Rightarrow>
          (case tlsf_free_uid_blocks fuel (cx_caller cx) (sm_poolptr sm1) 0 (Some (gc_destructor_fn (sm_poolptr sm1))) empty_gc_pool (sm_pool sm1) of
             None \<Rightarrow> None
           | Some (_, pool, c) \<Rightarrow>
               let sm2 = sm1\<lparr>sm_pool := c\<rparr> in
               if gp_elm pool = [] then Some sm2
               else map_option (\<lambda>(_, _, sm3). sm3) (gc_pool_destroy cap cx sm2 (Some pool))))"

text \<open>A turn of the environment: whether \<^verbatim>\<open>gc_stop\<close> is seen before and after the wait, the result of the wait
  with \<^verbatim>\<open>errno\<close>, and what the processes and
  the other threads of the daemon did meanwhile. A list that is used up before
  the thread stops gives \<open>None\<close>.\<close>

record gc_turn =
  gt_stop :: bool
  gt_wait :: "int \<times> int"
  gt_stop_after :: bool
  gt_effect :: "gc_local \<times> shmem \<Rightarrow> gc_local \<times> shmem"

definition wait_fails :: "int \<times> int \<Rightarrow> bool" where
  "wait_fails r \<longleftrightarrow> fst r < 0 \<and> snd r \<noteq> ETIMEDOUT \<and> snd r \<noteq> EINTR \<and> snd r \<noteq> EAGAIN"

fun gc_loop :: "nat \<Rightarrow> u64 \<Rightarrow> gc_turn list \<Rightarrow> srpc_ctx \<Rightarrow> gc_local \<Rightarrow> shmem \<Rightarrow> shmem option" where
  "gc_loop fuel cap [] cx g sm = None"
| "gc_loop fuel cap (t # ts) cx g sm =
     (if gt_stop t then Some sm
      else
        let (g1, sm0) = gt_effect t (g, sm);
            sm1 = (if fst (gt_wait t) < 0 then sm0 else sm0\<lparr>sm_gc_sem := sem_take (sm_gc_sem sm0)\<rparr>)
        in if wait_fails (gt_wait t) then Some sm1
           else if gt_stop_after t then Some sm1
           else Option.bind (gc_round fuel cap cx g1 sm1) (gc_loop fuel cap ts cx g1))"

definition libsrpc_shm_gc_thread :: "nat \<Rightarrow> u64 \<Rightarrow> int \<Rightarrow> gc_turn list \<Rightarrow> srpc_ctx \<Rightarrow> gc_local \<Rightarrow> shmem \<Rightarrow> shmem option" where
  "libsrpc_shm_gc_thread fuel cap spin_rc ts cx g sm =
     (if \<not> libsrpc_shmem_get cx then Some sm
      else case libsrpc_list_head_init spin_rc (sm_gc_head sm) (sm_lists sm) of (rc, ls) \<Rightarrow>
        let sm1 = sm\<lparr>sm_lists := ls\<rparr> in
        if rc < 0 then Some sm1 else gc_loop fuel cap ts cx g sm1)"

section \<open>Releasing a batch\<close>

definition release_batch :: "(u64 \<times> u16) list \<Rightarrow> (u64 \<rightharpoonup> blk) \<Rightarrow> u64 \<rightharpoonup> blk" where
  "release_batch ps v p = (case map_of ps p of None \<Rightarrow> v p | Some uid \<Rightarrow> Option.bind (v p) (freed uid))"

text \<open>Each pointer names a block of the view and an owner of it.\<close>

definition batch_ok :: "(u64 \<times> u16) list \<Rightarrow> (u64 \<rightharpoonup> blk) \<Rightarrow> bool" where
  "batch_ok ps v \<longleftrightarrow> distinct (map fst ps) \<and>
     (\<forall>p uid. (p, uid) \<in> set ps \<longrightarrow> uid \<noteq> 0 \<and> (\<exists>k. v p = Some k \<and> uid \<in> set (bk_owners k)))"

lemma batch_okD: "batch_ok ps v \<Longrightarrow> (p, uid) \<in> set ps \<Longrightarrow> uid \<noteq> 0 \<and> (\<exists>k. v p = Some k \<and> uid \<in> set (bk_owners k))"
  by (simp add: batch_ok_def)

lemma free_batch_run:
  assumes "running c bs" "tlsf \<noteq> 0" "batch_ok ps (heap_abs c bs)"
  shows "\<exists>bs'. running (fold (\<lambda>(p, uid). tlsf_free_nb tlsf p uid) ps c) bs' \<and> same_txn c (fold (\<lambda>(p, uid). tlsf_free_nb tlsf p uid) ps c) \<and>
    heap_abs (fold (\<lambda>(p, uid). tlsf_free_nb tlsf p uid) ps c) bs' = release_batch ps (heap_abs c bs)"
  using assms
proof (induction ps arbitrary: c bs)
  case Nil
  then show ?case by (auto simp: release_batch_def same_txn_def same_geom_def fun_eq_iff)
next
  case (Cons pu ps)
  obtain p uid where pu: "pu = (p, uid)" by (cases pu)
  have "p \<notin> fst ` set ps" using Cons.prems(3) by (simp add: batch_ok_def pu)
  with batch_okD [OF Cons.prems(3), of p uid] obtain k where k: "uid \<noteq> 0" "heap_abs c bs p = Some k" "uid \<in> set (bk_owners k)" "p \<notin> fst ` set ps"
    by (auto simp: pu)
  from free_nb_run [OF Cons.prems(1,2) k(1-3)] obtain c1 bs1 where c1: "tlsf_free_nb tlsf p uid c = c1" "running c1 bs1" "same_txn c c1"
    "heap_abs c1 bs1 = (heap_abs c bs)(p := freed uid k)" by blast
  have "batch_ok ps (heap_abs c1 bs1)" using Cons.prems(3) k(4) by (force simp: batch_ok_def pu c1(4))
  from Cons.IH [OF c1(2) Cons.prems(2) this] obtain bs' where r:
    "running (fold (\<lambda>(p, uid). tlsf_free_nb tlsf p uid) ps c1) bs'" "same_txn c1 (fold (\<lambda>(p, uid). tlsf_free_nb tlsf p uid) ps c1)"
    "heap_abs (fold (\<lambda>(p, uid). tlsf_free_nb tlsf p uid) ps c1) bs' = release_batch ps (heap_abs c1 bs1)" by blast
  have "map_of ps p = None" using k(4) by (simp add: map_of_eq_None_iff)
  then have "release_batch ps (heap_abs c1 bs1) = release_batch (pu # ps) (heap_abs c bs)"
    using k(2) by (auto simp: release_batch_def pu c1(4) fun_eq_iff split: option.splits)
  with r same_txn_trans [OF c1(3) r(2)] show ?case by (auto simp: pu c1(1))
qed

lemma tlsf_lock_idle: "idle c \<Longrightarrow> tlsf \<noteq> 0 \<Longrightarrow> tlsf_lock w tlsf c = Some (0, locked w c)"
  by (simp add: idle_def tlsf_lock_def pthread_mutex_lock_def Let_def lock_result_def set_errno_def locked_def)

lemma tlsf_unlock_mutex: "tlsf \<noteq> 0 \<Longrightarrow> snd (tlsf_unlock w tlsf c) = mutex_unlock w c"
  by (simp add: tlsf_unlock_def mutex_unlock_def split: prod.splits)

lemma free_all_run:
  assumes "tlsf_inv (sm_pool sm) bs" "sm_poolptr sm \<noteq> 0" "batch_ok ps (heap_abs (sm_pool sm) bs)"
  shows "\<exists>c bs'. free_all_locked ps cx sm = Some (sm\<lparr>sm_pool := c\<rparr>) \<and> tlsf_inv c bs' \<and>
    heap_abs c bs' = release_batch ps (heap_abs (sm_pool sm) bs)"
proof -
  let ?c = "locked (cx_caller cx) (sm_pool sm)" and ?f = "fold (\<lambda>(p, uid). tlsf_free_nb (sm_poolptr sm) p uid) ps"
  have id: "idle (sm_pool sm)" using assms(1) by (simp add: tlsf_inv_def)
  have "running ?c bs" using assms(1) by (simp add: running_def tlsf_inv_def idle_def)
  from free_batch_run [OF this assms(2)] assms(3) obtain bs' where r: "running (?f ?c) bs'" "same_txn ?c (?f ?c)"
    "heap_abs (?f ?c) bs' = release_batch ps (heap_abs (sm_pool sm) bs)" by auto
  have "tlsf_inv (mutex_unlock (cx_caller cx) (?f ?c)) bs'"
    using idle_after(2) [OF id r(2)] r(1) by (simp add: running_def tlsf_inv_def)
  moreover have "free_all_locked ps cx sm = Some (sm\<lparr>sm_pool := mutex_unlock (cx_caller cx) (?f ?c)\<rparr>)"
    using tlsf_unlock_mutex [OF assms(2), of "cx_caller cx" "?f ?c"]
    by (cases "tlsf_unlock (cx_caller cx) (sm_poolptr sm) (?f ?c)") (simp add: free_all_locked_def tlsf_lock_idle [OF id assms(2)])
  ultimately show ?thesis using r(3) by (metis unlock_inv(2))
qed

section \<open>The walks over processes and requests\<close>

definition lists_ok :: "shmem \<Rightarrow> u64 list \<Rightarrow> bool" where
  "lists_ok sm ps \<longleftrightarrow> list_ok (sm_lists sm) (sm_proc_head sm) ps \<and> (\<forall>q \<in> set ps. \<exists>rs. list_ok (sm_lists sm) (req_head_of q) rs)"

text \<open>The requests of a process.\<close>

definition reqs_of :: "shmem \<Rightarrow> u64 \<Rightarrow> u64 list" where
  "reqs_of sm q = the (list_foreach (sm_lists sm) (req_head_of q))"

lemma lists_okD:
  assumes "lists_ok sm ps"
  shows "list_foreach (sm_lists sm) (sm_proc_head sm) = Some ps"
    "q \<in> set ps \<Longrightarrow> list_foreach (sm_lists sm) (req_head_of q) = Some (reqs_of sm q)"
  using assms spin.foreach_members by (auto simp: lists_ok_def reqs_of_def)

lemma any_proc_total:
  assumes "\<And>p. p \<in> set ps \<Longrightarrow> f p = Some (g p)"
  shows "any_proc f sm ps = Some (\<exists>p \<in> set ps. libsrpc_proc_is_valid sm p \<and> g p)"
  using assms by (induction ps) auto

lemma any_aimed_total:
  assumes "\<And>p. p \<in> set ps \<Longrightarrow> list_foreach (sm_lists sm) (req_head_of p) = Some (reqs_of sm p)"
  shows "any_aimed t sm ps = Some (\<exists>p \<in> set ps. \<exists>r \<in> set (reqs_of sm p). \<exists>i < unat (retnum (sm_reqs sm r)). slot_aims_at t r sm i)"
  using assms by (induction ps) (auto simp: libsrpc_req_list_aims_at_def)

lemma aimed_at_eq:
  assumes "lists_ok sm ps" "libsrpc_shmem_get cx" "t \<noteq> 0"
  shows "libsrpc_proc_cs_aimed_at t cx sm =
    Some (\<exists>p \<in> set ps. \<exists>r \<in> set (reqs_of sm p). \<exists>i < unat (retnum (sm_reqs sm r)). slot_aims_at t r sm i)"
  using assms any_aimed_total [of ps sm t] lists_okD [OF assms(1)] by (simp add: libsrpc_proc_cs_aimed_at_def)

lemma busy_regfn_eq:
  assumes "lists_ok sm ps" "libsrpc_shmem_get cx" "eb \<noteq> 0"
  shows "libsrpc_shmem_is_busy_regfn eb cx sm =
    Some (\<exists>p \<in> set ps. libsrpc_proc_is_valid sm p \<and> (\<exists>r \<in> set (reqs_of sm p). \<not> libsrpc_req_is_corrupted r None sm \<and> hp_regfn (sm_reqs sm r) = eb))"
proof -
  have nz: "0 \<notin> set ps" using assms(1) list_okD(3) by (auto simp: lists_ok_def)
  have "any_proc (\<lambda>p. libsrpc_shmem_is_locked_regfn_proc p eb sm) sm ps =
    Some (\<exists>p \<in> set ps. libsrpc_proc_is_valid sm p \<and> (\<exists>r \<in> set (reqs_of sm p). \<not> libsrpc_req_is_corrupted r None sm \<and> hp_regfn (sm_reqs sm r) = eb))"
    by (rule any_proc_total) (use lists_okD(2) [OF assms(1)] assms(3) nz in \<open>auto simp: libsrpc_shmem_is_locked_regfn_proc_def\<close>)
  then show ?thesis using assms(2,3) lists_okD(1) [OF assms(1)] by (simp add: libsrpc_shmem_is_busy_regfn_def)
qed

lemma busy_proc_eq:
  assumes "lists_ok sm ps" "libsrpc_shmem_get cx" "req \<noteq> 0"
  shows "libsrpc_req_is_busy_proc cap req cx sm =
    Some (\<exists>p \<in> set ps. libsrpc_proc_is_valid sm p \<and> (lf_mpmc_queue_try_find_ptr cap req (proc_queue (sm_procs sm p)) = LF_QUEUE_OK \<or>
             req \<in> set (take (unat (threads_num (sm_procs sm p))) (threads_hp (sm_procs sm p)))))"
  using assms lists_okD(1) [OF assms(1)] any_proc_total [of ps _ _ sm] by (simp add: libsrpc_req_is_busy_proc_def)

section \<open>What the checks of the collector change\<close>

text \<open>Outside the collected blocks \<open>D\<close> no request changes; a process changes at most from \<^verbatim>\<open>DELETE\<close> to
  \<^verbatim>\<open>DEAD\<close>, which makes no difference to the walks.\<close>

definition gc_rel :: "u64 set \<Rightarrow> shmem \<Rightarrow> shmem \<Rightarrow> bool" where
  "gc_rel D sm sm' \<longleftrightarrow> sm' = sm\<lparr>sm_procs := sm_procs sm', sm_reqs := sm_reqs sm'\<rparr> \<and> (\<forall>r. r \<notin> D \<longrightarrow> sm_reqs sm' r = sm_reqs sm r) \<and>
     (\<forall>q. sm_procs sm' q = (sm_procs sm q)\<lparr>proc_sem := proc_sem (sm_procs sm' q), proc_status := proc_status (sm_procs sm' q)\<rparr> \<and>
        libsrpc_proc_is_valid sm' q = libsrpc_proc_is_valid sm q)"

lemma gc_rel_refl: "gc_rel D sm sm"
  by (simp add: gc_rel_def)

lemma gc_relD:
  assumes "gc_rel D sm sm'"
  shows "sm_lists sm' = sm_lists sm" "sm_proc_head sm' = sm_proc_head sm" "sm_pool sm' = sm_pool sm" "sm_poolptr sm' = sm_poolptr sm"
    "r \<notin> D \<Longrightarrow> sm_reqs sm' r = sm_reqs sm r" "libsrpc_proc_is_valid sm' q = libsrpc_proc_is_valid sm q"
    "proc_queue (sm_procs sm' q) = proc_queue (sm_procs sm q)" "threads_num (sm_procs sm' q) = threads_num (sm_procs sm q)"
    "threads_hp (sm_procs sm' q) = threads_hp (sm_procs sm q)"
proof -
  have e: "sm' = sm\<lparr>sm_procs := sm_procs sm', sm_reqs := sm_reqs sm'\<rparr>" and
    q: "sm_procs sm' q = (sm_procs sm q)\<lparr>proc_sem := proc_sem (sm_procs sm' q), proc_status := proc_status (sm_procs sm' q)\<rparr>"
    using assms by (simp_all add: gc_rel_def)
  show "sm_lists sm' = sm_lists sm" "sm_proc_head sm' = sm_proc_head sm" "sm_pool sm' = sm_pool sm" "sm_poolptr sm' = sm_poolptr sm"
    by (subst e, simp)+
  show "proc_queue (sm_procs sm' q) = proc_queue (sm_procs sm q)" "threads_num (sm_procs sm' q) = threads_num (sm_procs sm q)"
    "threads_hp (sm_procs sm' q) = threads_hp (sm_procs sm q)" by (subst q, simp)+
qed (use assms in \<open>simp_all add: gc_rel_def\<close>)

lemma gc_rel_lists: "gc_rel D sm sm' \<Longrightarrow> lists_ok sm' ps = lists_ok sm ps" "gc_rel D sm sm' \<Longrightarrow> reqs_of sm' = reqs_of sm"
  by (simp_all add: lists_ok_def reqs_of_def gc_relD fun_eq_iff)

lemma gc_rel_trans: "gc_rel D sm sm1 \<Longrightarrow> gc_rel D sm1 sm2 \<Longrightarrow> gc_rel D sm sm2"
proof -
  assume a: "gc_rel D sm sm1" "gc_rel D sm1 sm2"
  have "sm2 = sm1\<lparr>sm_procs := sm_procs sm2, sm_reqs := sm_reqs sm2\<rparr>" "sm1 = sm\<lparr>sm_procs := sm_procs sm1, sm_reqs := sm_reqs sm1\<rparr>"
    using a by (simp_all add: gc_rel_def)
  then have "sm2 = sm\<lparr>sm_procs := sm_procs sm2, sm_reqs := sm_reqs sm2\<rparr>" by (cases sm; cases sm1; cases sm2) simp
  moreover have "sm_procs sm2 q = (sm_procs sm q)\<lparr>proc_sem := proc_sem (sm_procs sm2 q), proc_status := proc_status (sm_procs sm2 q)\<rparr>" for q
  proof -
    have "sm_procs sm2 q = (sm_procs sm1 q)\<lparr>proc_sem := proc_sem (sm_procs sm2 q), proc_status := proc_status (sm_procs sm2 q)\<rparr>"
      "sm_procs sm1 q = (sm_procs sm q)\<lparr>proc_sem := proc_sem (sm_procs sm1 q), proc_status := proc_status (sm_procs sm1 q)\<rparr>"
      using a by (simp_all add: gc_rel_def)
    then show ?thesis by (cases "sm_procs sm q"; cases "sm_procs sm1 q"; cases "sm_procs sm2 q") simp
  qed
  ultimately show ?thesis using a by (simp add: gc_rel_def)
qed

lemma slot_aims_cong: "sm_reqs sm' r = sm_reqs sm r \<Longrightarrow> slot_aims_at t r sm' i = slot_aims_at t r sm i"
  by (simp add: slot_aims_at_def libsrpc_req_get_response_fast_def get_resp_def split: option.splits)

text \<open>A hazard pointer on a collected block that the collector has to respect: a request in the queue or in
  the hands of a worker; an extension block, or a process, named by a request that is not itself
  being collected.\<close>

definition pinned :: "u64 \<Rightarrow> u64 set \<Rightarrow> shmem \<Rightarrow> u64 list \<Rightarrow> u64 \<Rightarrow> u16 \<Rightarrow> bool" where
  "pinned cap D sm ps b t \<longleftrightarrow>
     (t = LIBSRPC_SHMDT_REQUEST \<and>
        (\<exists>p \<in> set ps. libsrpc_proc_is_valid sm p \<and> (lf_mpmc_queue_try_find_ptr cap (b) (proc_queue (sm_procs sm p)) = LF_QUEUE_OK \<or>
           b \<in> set (take (unat (threads_num (sm_procs sm p))) (threads_hp (sm_procs sm p)))))) \<or>
     (t = LIBSRPC_SHMDT_REGFN \<and>
        (\<exists>p \<in> set ps. libsrpc_proc_is_valid sm p \<and> (\<exists>r \<in> set (reqs_of sm p) - D. \<not> libsrpc_req_is_corrupted r None sm \<and> hp_regfn (sm_reqs sm r) = b))) \<or>
     (t = LIBSRPC_SHMDT_PROC \<and>
        (\<exists>p \<in> set ps. \<exists>r \<in> set (reqs_of sm p) - D. \<exists>i < unat (retnum (sm_reqs sm r)). slot_aims_at (b) r sm i))"

lemma pinned_rel:
  assumes "gc_rel D sm sm'" shows "pinned cap D sm' ps b t = pinned cap D sm ps b t"
proof -
  have "(\<exists>r \<in> A - D. \<not> libsrpc_req_is_corrupted r None sm' \<and> hp_regfn (sm_reqs sm' r) = x) \<longleftrightarrow>
      (\<exists>r \<in> A - D. \<not> libsrpc_req_is_corrupted r None sm \<and> hp_regfn (sm_reqs sm r) = x)" for A x
    by (rule bex_cong) (simp_all add: libsrpc_req_is_corrupted_def gc_relD(5) [OF assms])
  moreover have "(\<exists>r \<in> A - D. \<exists>i < unat (retnum (sm_reqs sm' r)). slot_aims_at x r sm' i) \<longleftrightarrow>
      (\<exists>r \<in> A - D. \<exists>i < unat (retnum (sm_reqs sm r)). slot_aims_at x r sm i)" for A x
    by (rule bex_cong) (simp_all add: gc_relD(5) [OF assms] slot_aims_cong [OF gc_relD(5) [OF assms]])
  ultimately show ?thesis unfolding pinned_def gc_relD(6-9) [OF assms] gc_rel_lists(2) [OF assms] by (simp only:)
qed

lemma type_codes: "LIBSRPC_SHMDT_PROC \<noteq> LIBSRPC_SHMDT_REGFN" "LIBSRPC_SHMDT_PROC \<noteq> LIBSRPC_SHMDT_REQUEST" "LIBSRPC_SHMDT_REGFN \<noteq> LIBSRPC_SHMDT_REQUEST"
  by (simp_all add: shm_types)

lemma gc_check_run:
  assumes "lists_ok sm ps" "libsrpc_shmem_get cx" "ge_ptr e \<noteq> 0" "ge_ptr e \<in> D"
  shows "\<exists>h sm'. gc_check cap cx e sm = Some (if h then e\<lparr>ge_refcount := ge_refcount e + 1\<rparr> else e, sm') \<and> gc_rel D sm sm' \<and>
    (pinned cap D sm ps (ge_ptr e) (ge_type e) \<longrightarrow> h) \<and> (ge_type e = LIBSRPC_SHMDT_REQUEST \<longrightarrow> h \<longrightarrow> pinned cap D sm ps (ge_ptr e) (ge_type e))"
proof -
  note eqs = aimed_at_eq [OF assms(1-3)] busy_regfn_eq [OF assms(1-3)] busy_proc_eq [OF assms(1-3)]
  consider (proc) "ge_type e = LIBSRPC_SHMDT_PROC" | (regfn) "ge_type e = LIBSRPC_SHMDT_REGFN" | (req) "ge_type e = LIBSRPC_SHMDT_REQUEST"
    | (other) "ge_type e \<noteq> LIBSRPC_SHMDT_PROC" "ge_type e \<noteq> LIBSRPC_SHMDT_REGFN" "ge_type e \<noteq> LIBSRPC_SHMDT_REQUEST" by blast
  then show ?thesis
  proof cases
    case proc
    let ?a = "\<exists>p \<in> set ps. \<exists>r \<in> set (reqs_of sm p). \<exists>i < unat (retnum (sm_reqs sm r)). slot_aims_at (ge_ptr e) r sm i"
    let ?dead = "put_proc (ge_ptr e) (\<lambda>q. q\<lparr>proc_sem := None, proc_status := LIBSRPC_PROC_STATUS_DEAD\<rparr>) sm"
    define sm' where "sm' = (if \<not> ?a \<and> proc_status (sm_procs sm (ge_ptr e)) = LIBSRPC_PROC_STATUS_DELETE then ?dead else sm)"
    have "gc_check cap cx e sm = Some (if ?a then e\<lparr>ge_refcount := ge_refcount e + 1\<rparr> else e, sm')"
      using eqs(1) proc by (auto simp: gc_check_def Let_def sm'_def)
    moreover have "gc_rel D sm sm'"
      by (auto simp: sm'_def gc_rel_def put_proc_def libsrpc_proc_is_valid_def proc_states)
    moreover have "pinned cap D sm ps (ge_ptr e) (ge_type e) \<longrightarrow> ?a" using proc type_codes by (auto simp: pinned_def)
    ultimately show ?thesis using proc type_codes by (intro exI [of _ ?a] exI [of _ sm']) simp
  next
    case regfn
    let ?a = "\<exists>p \<in> set ps. libsrpc_proc_is_valid sm p \<and> (\<exists>r \<in> set (reqs_of sm p). \<not> libsrpc_req_is_corrupted r None sm \<and> hp_regfn (sm_reqs sm r) = ge_ptr e)"
    have "gc_check cap cx e sm = Some (if ?a then e\<lparr>ge_refcount := ge_refcount e + 1\<rparr> else e, sm)"
      using eqs(2) regfn type_codes by (simp add: gc_check_def)
    moreover have "pinned cap D sm ps (ge_ptr e) (ge_type e) \<longrightarrow> ?a" using regfn type_codes by (auto simp: pinned_def)
    ultimately show ?thesis using regfn type_codes gc_rel_refl by (intro exI [of _ ?a] exI [of _ sm]) simp
  next
    case req
    let ?a = "pinned cap D sm ps (ge_ptr e) (ge_type e)"
    define sm' where "sm' = (if ?a then sm else snd (libsrpc_req_destroy (ge_ptr e) sm))"
    have "libsrpc_req_is_busy_proc cap (ge_ptr e) cx sm = Some ?a" using eqs(3) req type_codes by (auto simp: pinned_def)
    then have "gc_check cap cx e sm = Some (if ?a then e\<lparr>ge_refcount := ge_refcount e + 1\<rparr> else e, sm')"
      using req type_codes by (simp add: gc_check_def sm'_def)
    moreover have "gc_rel D sm sm'"
      using assms(4) by (auto simp: sm'_def gc_rel_def libsrpc_req_destroy_def put_req_def libsrpc_proc_is_valid_def)
    ultimately show ?thesis by blast
  next
    case other
    then have "gc_check cap cx e sm = Some (e, sm)" "\<not> pinned cap D sm ps (ge_ptr e) (ge_type e)" by (simp_all add: gc_check_def pinned_def)
    then show ?thesis using gc_rel_refl by (intro exI [of _ False] exI [of _ sm]) auto
  qed
qed

text \<open>An element after its check: counted when it is pinned, and a request only then.\<close>

definition checked :: "u64 \<Rightarrow> u64 set \<Rightarrow> shmem \<Rightarrow> u64 list \<Rightarrow> gc_elm \<Rightarrow> gc_elm \<Rightarrow> bool" where
  "checked cap D sm ps e e' \<longleftrightarrow> (\<exists>h. e' = (if h then e\<lparr>ge_refcount := ge_refcount e + 1\<rparr> else e) \<and>
     (pinned cap D sm ps (ge_ptr e) (ge_type e) \<longrightarrow> h) \<and> (ge_type e = LIBSRPC_SHMDT_REQUEST \<longrightarrow> h \<longrightarrow> pinned cap D sm ps (ge_ptr e) (ge_type e)))"

lemma gc_checks_run:
  assumes "lists_ok sm ps" "libsrpc_shmem_get cx" "\<forall>e \<in> set es. ge_ptr e \<noteq> 0 \<and> ge_ptr e \<in> D"
  shows "\<exists>es' sm'. gc_checks cap cx es sm = Some (es', sm') \<and> gc_rel D sm sm' \<and> list_all2 (checked cap D sm ps) es es'"
  using assms
proof (induction es arbitrary: sm)
  case Nil
  then show ?case by (simp add: gc_rel_refl)
next
  case (Cons e es)
  from gc_check_run [OF Cons.prems(1,2), of e D cap] Cons.prems(3) obtain h sm1 where h:
    "gc_check cap cx e sm = Some (if h then e\<lparr>ge_refcount := ge_refcount e + 1\<rparr> else e, sm1)" "gc_rel D sm sm1"
    "pinned cap D sm ps (ge_ptr e) (ge_type e) \<longrightarrow> h" "ge_type e = LIBSRPC_SHMDT_REQUEST \<longrightarrow> h \<longrightarrow> pinned cap D sm ps (ge_ptr e) (ge_type e)" by auto
  from Cons.IH [of sm1] gc_rel_lists(1) [OF h(2)] Cons.prems obtain es' sm' where r:
    "gc_checks cap cx es sm1 = Some (es', sm')" "gc_rel D sm1 sm'" "list_all2 (checked cap D sm1 ps) es es'" by auto
  have "checked cap D sm1 ps = checked cap D sm ps" by (simp add: checked_def pinned_rel [OF h(2)] fun_eq_iff)
  moreover have "checked cap D sm ps e (if h then e\<lparr>ge_refcount := ge_refcount e + 1\<rparr> else e)" using h(3,4) unfolding checked_def by blast
  ultimately show ?case using h(1) r gc_rel_trans [OF h(2) r(2)] by (simp del: if_split add: if_distrib)
qed

text \<open>The elements the collector may work on: distinct live blocks, each with one of its owners, not counted yet.\<close>

definition elms_ok :: "gc_elm list \<Rightarrow> (u64 \<rightharpoonup> blk) \<Rightarrow> bool" where
  "elms_ok es v \<longleftrightarrow> batch_ok (map (\<lambda>e. (ge_ptr e, ge_uid e)) es) v \<and> (\<forall>e \<in> set es. ge_ptr e \<noteq> 0 \<and> ge_refcount e = 0)"

lemma elms_okD: "elms_ok es v \<Longrightarrow> e \<in> set es \<Longrightarrow> v (ge_ptr e) = Some k \<Longrightarrow> ge_uid e \<in> set (bk_owners k)"
  using batch_okD [of "map (\<lambda>e. (ge_ptr e, ge_uid e)) es" v "ge_ptr e" "ge_uid e"] by (auto simp: elms_ok_def)

lemma checked_elm:
  assumes "checked cap D sm ps e e'" "ge_refcount e = 0" "ge_ptr e \<noteq> 0"
  shows "ge_ptr e' = ge_ptr e" "ge_uid e' = ge_uid e" "unreferenced e' \<longleftrightarrow> e' = e" "pinned cap D sm ps (ge_ptr e) (ge_type e) \<Longrightarrow> \<not> unreferenced e'"
    "ge_type e = LIBSRPC_SHMDT_REQUEST \<Longrightarrow> \<not> pinned cap D sm ps (ge_ptr e) (ge_type e) \<Longrightarrow> unreferenced e'"
proof -
  have "e\<lparr>ge_refcount := 1\<rparr> \<noteq> e" using assms(2) by (metis gc_elm.select_convs(4) gc_elm.surjective gc_elm.update_convs(4) zero_neq_one)
  with assms show "ge_ptr e' = ge_ptr e" "ge_uid e' = ge_uid e" "unreferenced e' \<longleftrightarrow> e' = e" "pinned cap D sm ps (ge_ptr e) (ge_type e) \<Longrightarrow> \<not> unreferenced e'"
    "ge_type e = LIBSRPC_SHMDT_REQUEST \<Longrightarrow> \<not> pinned cap D sm ps (ge_ptr e) (ge_type e) \<Longrightarrow> unreferenced e'"
    by (auto simp: checked_def unreferenced_def split: if_splits)
qed

lemma map_of_dead:
  assumes "list_all2 (checked cap D sm ps) es es'" "\<forall>e \<in> set es. ge_ptr e \<noteq> 0 \<and> ge_refcount e = 0" "distinct (map ge_ptr es)"
  defines "B \<equiv> map (\<lambda>e. (ge_ptr e, ge_uid e)) (filter unreferenced es')"
  shows "set B \<subseteq> set (map (\<lambda>e. (ge_ptr e, ge_uid e)) es)" "distinct (map fst B)"
    "e \<in> set es \<Longrightarrow> \<exists>e'. checked cap D sm ps e e' \<and> map_of B (ge_ptr e) = (if unreferenced e' then Some (ge_uid e) else None)"
proof -
  have pair: "\<exists>x \<in> set es. checked cap D sm ps x y" if "y \<in> set es'" for y
    using that assms(1) by (metis in_set_conv_nth list_all2_conv_all_nth)
  have "map ge_ptr es' = map ge_ptr es"
    using assms(1,2) checked_elm(1) by (auto simp: list_all2_conv_all_nth intro!: nth_equalityI)
  then have ds: "distinct (map ge_ptr es')" using assms(3) by simp
  have sub: "y \<in> set es" if "y \<in> set es'" "unreferenced y" for y
    using pair [OF that(1)] checked_elm(3) assms(2) that(2) by blast
  then show "set B \<subseteq> set (map (\<lambda>e. (ge_ptr e, ge_uid e)) es)" by (auto simp: B_def)
  show dB: "distinct (map fst B)" using ds by (simp add: B_def comp_def distinct_map_filter)
  assume e: "e \<in> set es"
  then obtain y where y: "y \<in> set es'" "checked cap D sm ps e y"
    using assms(1) by (metis in_set_conv_nth list_all2_conv_all_nth)
  note c = checked_elm [OF y(2)]
  have z: "ge_refcount e = 0" "ge_ptr e \<noteq> 0" using assms(2) e by auto
  show "\<exists>e'. checked cap D sm ps e e' \<and> map_of B (ge_ptr e) = (if unreferenced e' then Some (ge_uid e) else None)"
  proof (cases "unreferenced y")
    case True
    then have "(ge_ptr e, ge_uid e) \<in> set B" using c(3) [OF z] y(1) by (auto simp: B_def)
    then have "map_of B (ge_ptr e) = Some (ge_uid e)" using dB by simp
    with y(2) True show ?thesis by (intro exI [of _ y]) simp
  next
    case False
    have "map_of B (ge_ptr e) = None"
    proof (rule ccontr)
      assume "map_of B (ge_ptr e) \<noteq> None"
      then obtain x where x: "x \<in> set es'" "unreferenced x" "ge_ptr x = ge_ptr e" by (auto simp: map_of_eq_None_iff B_def)
      then have "x = y" using inj_onD [OF distinct_map [THEN iffD1, OF ds, THEN conjunct2]] y(1) c(1) [OF z] by metis
      with x(2) False show False by simp
    qed
    with y(2) False show ?thesis by (intro exI [of _ y]) simp
  qed
qed

lemma pool_destroy_run:
  assumes "lists_ok sm ps" "libsrpc_shmem_get cx" "tlsf_inv (sm_pool sm) bs" "sm_poolptr sm \<noteq> 0"
    "elms_ok (gp_elm pl) (heap_abs (sm_pool sm) bs)"
  defines "D \<equiv> ge_ptr ` set (gp_elm pl)"
  shows "\<exists>n pl' sm' bs'. gc_pool_destroy cap cx sm (Some pl) = Some (n, pl', sm') \<and> tlsf_inv (sm_pool sm') bs' \<and>
    (\<forall>p. p \<notin> D \<longrightarrow> heap_abs (sm_pool sm') bs' p = heap_abs (sm_pool sm) bs p) \<and>
    (\<forall>e \<in> set (gp_elm pl).
       (pinned cap D sm ps (ge_ptr e) (ge_type e) \<longrightarrow> heap_abs (sm_pool sm') bs' (ge_ptr e) = heap_abs (sm_pool sm) bs (ge_ptr e)) \<and>
       (ge_type e = LIBSRPC_SHMDT_REQUEST \<and> \<not> pinned cap D sm ps (ge_ptr e) (ge_type e) \<longrightarrow>
          heap_abs (sm_pool sm') bs' (ge_ptr e) = Option.bind (heap_abs (sm_pool sm) bs (ge_ptr e)) (freed (ge_uid e))) \<and>
       heap_abs (sm_pool sm') bs' (ge_ptr e) \<in>
         {heap_abs (sm_pool sm) bs (ge_ptr e), Option.bind (heap_abs (sm_pool sm) bs (ge_ptr e)) (freed (ge_uid e))})"
proof -
  let ?es = "gp_elm pl" and ?v = "heap_abs (sm_pool sm) bs"
  have el: "\<forall>e \<in> set ?es. ge_ptr e \<noteq> 0 \<and> ge_refcount e = 0" "distinct (map ge_ptr ?es)"
    using assms(5) by (simp_all add: elms_ok_def batch_ok_def comp_def)
  from gc_checks_run [OF assms(1,2), of ?es D cap] el(1) obtain es' sm1 where r: "gc_checks cap cx ?es sm = Some (es', sm1)"
    "gc_rel D sm sm1" "list_all2 (checked cap D sm ps) ?es es'" by (auto simp: D_def)
  define B where "B = map (\<lambda>e. (ge_ptr e, ge_uid e)) (filter unreferenced es')"
  note md = map_of_dead [OF r(3) el, folded B_def]
  have pl: "sm_pool sm1 = sm_pool sm" "sm_poolptr sm1 = sm_poolptr sm" by (simp_all add: gc_relD [OF r(2)])
  have "batch_ok B ?v" using md(1,2) assms(5) by (fastforce simp: elms_ok_def batch_ok_def)
  with free_all_run [of sm1 bs B cx] assms(3,4) pl obtain c bs' where f: "free_all_locked B cx sm1 = Some (sm1\<lparr>sm_pool := c\<rparr>)"
    "tlsf_inv c bs'" "heap_abs c bs' = release_batch B ?v" by auto
  obtain n pl' sm' bs1 where run: "gc_pool_destroy cap cx sm (Some pl) = Some (n, pl', sm')" "tlsf_inv (sm_pool sm') bs1"
    "heap_abs (sm_pool sm') bs1 = release_batch B ?v"
  proof (cases "filter unreferenced es' = []")
    case True
    then have "release_batch B ?v = ?v" by (simp add: B_def release_batch_def fun_eq_iff)
    with True r(1) pl(1) assms(3) show thesis by (intro that [of 0 "Some (pl\<lparr>gp_elm := es'\<rparr>)" sm1 bs]) (simp_all add: gc_pool_destroy_def)
  next
    case False
    with r(1) f show thesis
      by (intro that [of "int (length (filter unreferenced es'))" "Some (pl\<lparr>gp_elm := es'\<rparr>)" "sm1\<lparr>sm_pool := c\<rparr>" bs'])
         (simp_all add: gc_pool_destroy_def B_def Let_def)
  qed
  have "release_batch B ?v p = ?v p" if "p \<notin> D" for p
  proof -
    have "map_of B p = None" using md(1) that by (force simp: map_of_eq_None_iff D_def)
    then show ?thesis by (simp add: release_batch_def)
  qed
  moreover have "release_batch B ?v (ge_ptr e) = ?v (ge_ptr e)" if "e \<in> set ?es" "pinned cap D sm ps (ge_ptr e) (ge_type e)" for e
    using md(3) [OF that(1)] checked_elm(4) el(1) that by (fastforce simp: release_batch_def)
  moreover have "release_batch B ?v (ge_ptr e) = Option.bind (?v (ge_ptr e)) (freed (ge_uid e))"
    if "e \<in> set ?es" "\<not> pinned cap D sm ps (ge_ptr e) (ge_type e)" "ge_type e = LIBSRPC_SHMDT_REQUEST" for e
    using md(3) [OF that(1)] checked_elm(5) el(1) that by (fastforce simp: release_batch_def)
  moreover have "release_batch B ?v (ge_ptr e) \<in> {?v (ge_ptr e), Option.bind (?v (ge_ptr e)) (freed (ge_uid e))}" if "e \<in> set ?es" for e
    using md(3) [OF that] by (auto simp: release_batch_def split: if_splits)
  ultimately show ?thesis using run by (intro exI [of _ n] exI [of _ pl'] exI [of _ sm'] exI [of _ bs1]) (auto simp: run(3))
qed

section \<open>The collection of the marked blocks\<close>

text \<open>Only blocks of the library are marked, and each has an owner.\<close>

definition marks_ok :: "(u64 \<rightharpoonup> blk) \<Rightarrow> bool" where
  "marks_ok v \<longleftrightarrow> (\<forall>p k. v p = Some k \<longrightarrow> bk_dc k \<longrightarrow> special_type (uint (bk_type k)) \<and> \<not> unowned (bk_owners k))"

definition collected :: "u64 \<Rightarrow> u64 set \<Rightarrow> gc_pool \<Rightarrow> (u64 \<rightharpoonup> blk) \<Rightarrow> bool" where
  "collected tlsf S pl v \<longleftrightarrow> tlsf \<noteq> 0 \<and> marks_ok v \<and> ge_ptr ` set (gp_elm pl) \<subseteq> S \<and> elms_ok (gp_elm pl) v \<and> length (gp_elm pl) \<le> POOL_SIZE \<and>
     (\<forall>e \<in> set (gp_elm pl). \<exists>k. v (ge_ptr e) = Some k \<and> bk_dc k \<and> ge_type e = bk_type k)"

lemma uid_get_first_owner: "\<not> unowned (uid_list c b) \<Longrightarrow> uid_get_first c b \<noteq> 0 \<and> uid_get_first c b \<in> set (uid_list c b)"
proof -
  assume "\<not> unowned (uid_list c b)"
  then obtain u us where f: "filter (\<lambda>u. u \<noteq> 0) (uid_list c b) = u # us" by (auto simp: unowned_def neq_Nil_conv)
  then have "u \<in> {u \<in> set (uid_list c b). u \<noteq> 0}" by (metis list.set_intros(1) set_filter)
  with f show ?thesis by (simp add: uid_get_first_def)
qed

lemma gc_destructor_step:
  assumes "running c bs" "heap_abs c bs p = Some k" "bk_dc k" "collected tlsf S pl (heap_abs c bs)" "p \<notin> S"
  shows "\<exists>drc pl'. gc_destructor_fn tlsf p (block_from_ptr p) (matched_uid 0 c (block_from_ptr p)) pl c = (drc, pl', c) \<and> drc \<le> 0 \<and>
    collected tlsf (insert p S) pl' (heap_abs c bs) \<and> (if drc = 0 then p \<in> ge_ptr ` set (gp_elm pl') else POOL_SIZE \<le> length (gp_elm pl')) \<and> set (gp_elm pl) \<subseteq> set (gp_elm pl')"
proof -
  obtain b where b: "p = ptr_from_block b" "b \<in> set bs" "\<not> fr_of (mem c b)" "k = block_info c b" using assms(2) by (rule heap_abs_Some)
  have h: "heap_inv c bs" using assms(1) by (simp add: running_def)
  have t: "tlsf \<noteq> 0" and sp: "special_type (uint (bk_type k))" "\<not> unowned (bk_owners k)"
    using assms(2-4) by (auto simp: collected_def marks_ok_def)
  have hk: "heap_ok c bs (free_blocks c bs) {}" using h by (simp add: heap_inv_def)
  have nz: "b \<noteq> 0" "p \<noteq> 0"
    using chain_no_zero [OF heap_okD(2) [OF hk] b(2) geom_nonzero [OF heap_okD(1) [OF hk]]] block_in_pool(1) [OF h b(2)] b(1) by auto
  note ty = data_type_run [OF assms(1) t assms(2)]
  let ?u = "uid_get_first c b"
  have u: "?u \<noteq> 0" "?u \<in> set (bk_owners k)" using uid_get_first_owner [of c b] sp(2) b(4) by (auto simp: block_info_def)
  show ?thesis
  proof (cases "length (gp_elm pl) \<ge> POOL_SIZE")
    case True
    then have "gc_destructor_fn tlsf p b (matched_uid 0 c b) pl c = (- ENOMEM, pl, c)" using nz t by (simp add: gc_destructor_fn_def)
    then show ?thesis using assms(4) b(1) True by (auto simp: collected_def)
  next
    case False
    define e where "e = \<lparr>ge_ptr = p, ge_type = bk_type k, ge_uid = ?u, ge_refcount = 0\<rparr>"
    define pl' where "pl' = pl\<lparr>gp_elm := gp_elm pl @ [e], gp_type_cnt := (if uint (bk_type k) < uint LIBSRPC_SHMDT_MAX
        then (gp_type_cnt pl)[nat (uint (bk_type k)) := gp_type_cnt pl ! nat (uint (bk_type k)) + 1] else gp_type_cnt pl)\<rparr>"
    have "gc_destructor_fn tlsf p b (matched_uid 0 c b) pl c = (if length (gp_elm pl') \<ge> POOL_SIZE then - ENOMEM else 0, pl', c)"
      using nz t False sp(1) assms(3) by (simp add: gc_destructor_fn_def ty pl'_def e_def matched_uid_def Let_def)
    moreover have "collected tlsf (insert p S) pl' (heap_abs c bs)"
      using assms(2-5) False u nz(2) by (auto simp: collected_def elms_ok_def batch_ok_def pl'_def e_def)
    ultimately show ?thesis using b(1) by (auto simp: pl'_def e_def)
  qed
qed

interpretation gc: walk_contract 0 "gc_destructor_fn tlsf" Some "\<lambda>pl p k. p \<in> ge_ptr ` set (gp_elm pl)" "collected tlsf" "\<lambda>pl. POOL_SIZE \<le> length (gp_elm pl)" for tlsf
proof
  fix c bs p k S and pl :: gc_pool
  assume a: "running c bs" "heap_abs c bs p = Some k" "hit 0 k" "collected tlsf S pl (heap_abs c bs)" "p \<notin> S"
  then have "bk_dc k" by (simp add: hit_def)
  with gc_destructor_step [OF a(1,2) _ a(4,5)] obtain drc pl' where
    "gc_destructor_fn tlsf p (block_from_ptr p) (matched_uid 0 c (block_from_ptr p)) pl c = (drc, pl', c)" "drc \<le> 0"
    "collected tlsf (insert p S) pl' (heap_abs c bs)" "if drc = 0 then p \<in> ge_ptr ` set (gp_elm pl') else POOL_SIZE \<le> length (gp_elm pl')" "set (gp_elm pl) \<subseteq> set (gp_elm pl')" by blast
  moreover have "same_txn c c" by (simp add: same_txn_def same_geom_def)
  moreover have "(heap_abs c bs)(p := Some k) = heap_abs c bs" using a(2) by auto
  ultimately show "\<exists>drc u' c' bs'. gc_destructor_fn tlsf p (block_from_ptr p) (matched_uid 0 c (block_from_ptr p)) pl c = (drc, u', c') \<and>
      same_txn c c' \<and> running c' bs' \<and> collected tlsf (if 0 < drc then {} else insert p S) u' (heap_abs c' bs') \<and>
      (if drc < 0 then POOL_SIZE \<le> length (gp_elm u') \<and> heap_abs c' bs' = heap_abs c bs
       else heap_abs c' bs' = (heap_abs c bs)(p := Some k) \<and>
         (if drc = 0 then bs' = bs \<and> (\<exists>k'. Some k = Some k' \<and> p \<in> ge_ptr ` set (gp_elm u')) \<and>
             (\<forall>q j. q \<in> ge_ptr ` set (gp_elm pl) \<longrightarrow> q \<in> ge_ptr ` set (gp_elm u'))
          else (case Some k of None \<Rightarrow> True | Some k' \<Rightarrow> \<not> hit 0 k')))"
    using a(1) by (intro exI [of _ drc] exI [of _ pl'] exI [of _ c] exI [of _ bs]) auto
qed simp_all

lemma sweep_none: "gc.sweep v = v"
  by (simp add: gc.sweep_def fun_eq_iff split: option.splits)

lemma pinned_mono: "D \<subseteq> D' \<Longrightarrow> pinned cap D' sm ps b t \<Longrightarrow> pinned cap D sm ps b t"
  unfolding pinned_def by blast

lemma gc_collect_run:
  assumes "tlsf_inv c bs" "tlsf \<noteq> 0" "marks_ok (heap_abs c bs)" "card (targets 0 (heap_abs c bs)) < fuel"
  shows "\<exists>rc pl c' bs' S. tlsf_free_uid_blocks fuel w tlsf 0 (Some (gc_destructor_fn tlsf)) empty_gc_pool c = Some (rc, pl, c') \<and>
    tlsf_inv c' bs' \<and> heap_abs c' bs' = heap_abs c bs \<and> collected tlsf S pl (heap_abs c bs) \<and>
    (card (targets 0 (heap_abs c bs)) < POOL_SIZE \<longrightarrow> targets 0 (heap_abs c bs) \<subseteq> ge_ptr ` set (gp_elm pl))"
proof -
  have "collected tlsf {} empty_gc_pool (heap_abs c bs)"
    using assms(2,3) by (simp add: collected_def empty_gc_pool_def elms_ok_def batch_ok_def)
  with gc.free_uid_blocks_run [OF assms(1,2) _ assms(4), of tlsf empty_gc_pool w] obtain rc pl c' bs' S where r:
    "tlsf_free_uid_blocks fuel w tlsf 0 (Some (gc_destructor_fn tlsf)) empty_gc_pool c = Some (rc, pl, c')" "tlsf_inv c' bs'"
    "collected tlsf S pl (heap_abs c' bs')" "heap_abs c' bs' = heap_abs c bs"
    "rc < 0 \<and> POOL_SIZE \<le> length (gp_elm pl) \<or> (\<forall>p k. heap_abs c' bs' p = Some k \<longrightarrow> hit 0 k \<longrightarrow> p \<in> ge_ptr ` set (gp_elm pl))"
    by (auto simp: sweep_none)
  have "targets 0 (heap_abs c bs) \<subseteq> ge_ptr ` set (gp_elm pl)" if few: "card (targets 0 (heap_abs c bs)) < POOL_SIZE"
  proof -
    have d: "distinct (map ge_ptr (gp_elm pl))" and sub: "ge_ptr ` set (gp_elm pl) \<subseteq> targets 0 (heap_abs c bs)"
      using r(3,4) by (auto simp: collected_def elms_ok_def batch_ok_def comp_def targets_def hit_def)
    have "length (gp_elm pl) = card (ge_ptr ` set (gp_elm pl))" using distinct_card [OF d] by simp
    also have "\<dots> \<le> card (targets 0 (heap_abs c bs))" by (rule card_mono [OF finite_targets sub])
    finally show ?thesis using r(4,5) few by (auto simp: targets_def)
  qed
  with r show ?thesis by metis
qed

lemma collected_destroy:
  assumes "lists_ok sm ps" "libsrpc_shmem_get cx" "tlsf_inv (sm_pool sm) bs" "sm_poolptr sm \<noteq> 0" "collected tlsf S pl (heap_abs (sm_pool sm) bs)"
  defines "v \<equiv> heap_abs (sm_pool sm) bs"
  shows "\<exists>n pl' sm' bs'. gc_pool_destroy cap cx sm (Some pl) = Some (n, pl', sm') \<and> tlsf_inv (sm_pool sm') bs' \<and>
    (\<forall>p. p \<notin> targets 0 v \<longrightarrow> heap_abs (sm_pool sm') bs' p = v p) \<and>
    (\<forall>p k. v p = Some k \<and> bk_dc k \<longrightarrow>
       (pinned cap (targets 0 v) sm ps p (bk_type k) \<longrightarrow> heap_abs (sm_pool sm') bs' p = v p) \<and>
       (\<not> pinned cap (targets 0 v) sm ps p (bk_type k) \<and> bk_type k = LIBSRPC_SHMDT_REQUEST \<and> p \<in> ge_ptr ` set (gp_elm pl) \<longrightarrow>
          (\<exists>uid \<in> set (bk_owners k). heap_abs (sm_pool sm') bs' p = freed uid k)))"
proof -
  let ?D = "ge_ptr ` set (gp_elm pl)"
  have c: "collected tlsf S pl v" and el: "elms_ok (gp_elm pl) (heap_abs (sm_pool sm) bs)" using assms(5) by (simp_all add: collected_def v_def)
  have sub: "?D \<subseteq> targets 0 v" using c by (auto simp: collected_def targets_def hit_def)
  obtain n pl' sm' bs' where d: "gc_pool_destroy cap cx sm (Some pl) = Some (n, pl', sm')" "tlsf_inv (sm_pool sm') bs'"
    "\<forall>p. p \<notin> ?D \<longrightarrow> heap_abs (sm_pool sm') bs' p = v p"
    "\<forall>e \<in> set (gp_elm pl). (pinned cap ?D sm ps (ge_ptr e) (ge_type e) \<longrightarrow> heap_abs (sm_pool sm') bs' (ge_ptr e) = v (ge_ptr e)) \<and>
       (ge_type e = LIBSRPC_SHMDT_REQUEST \<and> \<not> pinned cap ?D sm ps (ge_ptr e) (ge_type e) \<longrightarrow>
          heap_abs (sm_pool sm') bs' (ge_ptr e) = Option.bind (v (ge_ptr e)) (freed (ge_uid e)))"
    using pool_destroy_run [OF assms(1-4) el, of cap] unfolding v_def by blast
  have old: "heap_abs (sm_pool sm') bs' p = v p" if "pinned cap (targets 0 v) sm ps p (bk_type k)" "v p = Some k" for p k
  proof (cases "p \<in> ?D")
    case True
    then obtain e where e: "e \<in> set (gp_elm pl)" "p = ge_ptr e" by auto
    with c that(2) have "ge_type e = bk_type k" by (auto simp: collected_def)
    with d(4) e pinned_mono [OF sub that(1)] show ?thesis by auto
  qed (use d(3) in simp)
  have gone: "\<exists>uid \<in> set (bk_owners k). heap_abs (sm_pool sm') bs' p = freed uid k"
    if p: "\<not> pinned cap (targets 0 v) sm ps p (bk_type k)" "bk_type k = LIBSRPC_SHMDT_REQUEST" "v p = Some k" "p \<in> ?D" for p k
  proof -
    obtain e where e: "e \<in> set (gp_elm pl)" "p = ge_ptr e" using p(4) by auto
    with c p(3) have t: "ge_type e = bk_type k" "ge_uid e \<in> set (bk_owners k)" using elms_okD [of "gp_elm pl" v e k] by (auto simp: collected_def)
    have "\<not> pinned cap ?D sm ps p (bk_type k)" using p(1,2) type_codes by (auto simp: pinned_def)
    then show ?thesis using d(4) e t p(2,3) by auto
  qed
  have "heap_abs (sm_pool sm') bs' p = v p" if "p \<notin> targets 0 v" for p using d(3) sub that by blast
  then show ?thesis using d(1,2) old gone by (intro exI [of _ n] exI [of _ pl'] exI [of _ sm'] exI [of _ bs']) blast
qed

section \<open>The trash\<close>

definition locked_uid :: "shmem \<Rightarrow> u64 list \<Rightarrow> u16 \<Rightarrow> bool" where
  "locked_uid sm ps uid \<longleftrightarrow> (\<exists>p \<in> set ps. libsrpc_proc_is_valid sm p \<and> (\<exists>r \<in> set (reqs_of sm p). libsrpc_shmem_check_uid_lock r (uint uid) sm = 1))"

lemma is_locked_eq:
  assumes "lists_ok sm ps" "libsrpc_shmem_get cx"
  shows "libsrpc_shmem_is_locked_uid uid cx sm = Some (locked_uid sm ps uid)"
proof -
  have "any_proc (\<lambda>p. libsrpc_shmem_is_locked_uid_proc p uid sm) sm ps = Some (locked_uid sm ps uid)"
    unfolding locked_uid_def by (rule any_proc_total) (simp add: libsrpc_shmem_is_locked_uid_proc_def lists_okD(2) [OF assms(1)])
  then show ?thesis using assms(2) lists_okD(1) [OF assms(1)] by (simp add: libsrpc_shmem_is_locked_uid_def)
qed

text \<open>The blocks of one trash node with the owner they are released for.\<close>

definition trash_batch :: "gc_local \<Rightarrow> u64 \<Rightarrow> (u64 \<times> u16) list" where
  "trash_batch g t = map (\<lambda>p. (p, tr_uid (trash_at g t))) (trash_ptrs (trash_at g t))"

lemma batch_append:
  assumes "batch_ok (xs @ ys) v"
  shows "batch_ok xs v" "batch_ok ys (release_batch xs v)" "release_batch ys (release_batch xs v) = release_batch (xs @ ys) v"
proof -
  have d: "fst ` set xs \<inter> fst ` set ys = {}" using assms by (auto simp: batch_ok_def)
  then have n: "map_of xs (fst y) = None" if "y \<in> set ys" for y using that by (auto simp: map_of_eq_None_iff)
  show "batch_ok xs v" using assms by (auto simp: batch_ok_def)
  have rv: "release_batch xs v p = v p" if "(p, uid) \<in> set ys" for p uid using n [OF that] by (simp add: release_batch_def)
  have own: "uid \<noteq> 0 \<and> (\<exists>k. v p = Some k \<and> uid \<in> set (bk_owners k))" if "(p, uid) \<in> set ys" for p uid
    using assms that by (simp add: batch_ok_def)
  have "distinct (map fst ys)" using assms by (simp add: batch_ok_def)
  then show "batch_ok ys (release_batch xs v)" using own rv by (simp add: batch_ok_def)
  show "release_batch ys (release_batch xs v) = release_batch (xs @ ys) v"
  proof
    fix p show "release_batch ys (release_batch xs v) p = release_batch (xs @ ys) v p"
      using n [of "(p, the (map_of ys p))"] map_of_SomeD [of ys p]
      by (cases "map_of ys p") (auto simp: release_batch_def map_add_def split: option.splits)
  qed
qed

definition heads_apart :: "shmem \<Rightarrow> u64 list \<Rightarrow> bool" where
  "heads_apart sm ps \<longleftrightarrow> sm_proc_head sm \<noteq> sm_gc_head sm \<and> (\<forall>q \<in> set ps. req_head_of q \<noteq> sm_gc_head sm)"

lemma destroy_node_run:
  assumes "lists_ok sm ps" "heads_apart sm ps" "list_ok (sm_lists sm) (sm_gc_head sm) (us @ t # ts)" "libsrpc_shmem_get cx"
    "tlsf_inv (sm_pool sm) bs" "sm_poolptr sm \<noteq> 0" "batch_ok (trash_batch g t) (heap_abs (sm_pool sm) bs)"
  shows "\<exists>sm' bs'. libsrpc_shm_trash_destroy_node t cx g sm = Some sm' \<and> tlsf_inv (sm_pool sm') bs' \<and>
    heap_abs (sm_pool sm') bs' = release_batch (trash_batch g t) (heap_abs (sm_pool sm) bs) \<and>
    list_ok (sm_lists sm') (sm_gc_head sm) (us @ ts) \<and> lists_ok sm' ps \<and> locked_uid sm' ps = locked_uid sm ps \<and>
    sm' = sm\<lparr>sm_pool := sm_pool sm', sm_lists := sm_lists sm'\<rparr>"
proof -
  from free_all_run [OF assms(5-7), of cx] obtain c bs' where c: "free_all_locked (trash_batch g t) cx sm = Some (sm\<lparr>sm_pool := c\<rparr>)"
    "tlsf_inv c bs'" "heap_abs c bs' = release_batch (trash_batch g t) (heap_abs (sm_pool sm) bs)" by blast
  have nz: "t \<noteq> 0" and ds: "distinct (us @ t # ts)" using list_okD(2,3) [OF assms(3)] by auto
  obtain ls where ls: "libsrpc_list_remove t (sm_lists sm) = Some (0, ls)" "list_ok ls (sm_gc_head sm) (remove1 t (us @ t # ts))"
    "\<forall>h ys. h \<noteq> sm_gc_head sm \<longrightarrow> list_ok (sm_lists sm) h ys \<longrightarrow> list_ok ls h ys" using spin.remove_member [OF assms(3), of t] by auto
  define sm' where "sm' = sm\<lparr>sm_pool := c, sm_lists := ls\<rparr>"
  have run: "libsrpc_shm_trash_destroy_node t cx g sm = Some sm'"
    using nz assms(4) c(1) ls(1) by (simp add: libsrpc_shm_trash_destroy_node_def trash_batch_def sm'_def)
  have "\<exists>rs. list_ok ls (req_head_of q) rs" if "q \<in> set ps" for q using assms(1,2) ls(3) that unfolding lists_ok_def heads_apart_def by metis
  then have lo: "lists_ok sm' ps" using assms(1,2) ls(3) by (simp add: lists_ok_def heads_apart_def sm'_def)
  have rq: "reqs_of sm' q = reqs_of sm q" if q: "q \<in> set ps" for q
  proof -
    obtain rs where rs: "list_ok (sm_lists sm) (req_head_of q) rs" using assms(1) q unfolding lists_ok_def by blast
    have "req_head_of q \<noteq> sm_gc_head sm" using assms(2) q by (simp add: heads_apart_def)
    then have "list_ok ls (req_head_of q) rs" by (rule ls(3) [rule_format]) (rule rs)
    with rs show ?thesis using spin.foreach_members by (simp add: reqs_of_def sm'_def)
  qed
  have "locked_uid sm' ps = locked_uid sm ps"
    using rq by (auto simp: locked_uid_def fun_eq_iff libsrpc_proc_is_valid_def libsrpc_shmem_check_uid_lock_def libsrpc_req_is_corrupted_def sm'_def)
  moreover have "remove1 t (us @ t # ts) = us @ ts" using ds by (simp add: remove1_append)
  ultimately show ?thesis using run c(2,3) ls(2) lo by (intro exI [of _ sm'] exI [of _ bs']) (simp add: sm'_def)
qed

lemma trash_walk_run:
  assumes "lists_ok sm ps" "heads_apart sm ps" "list_ok (sm_lists sm) (sm_gc_head sm) (us @ ts)" "libsrpc_shmem_get cx"
    "tlsf_inv (sm_pool sm) bs" "sm_poolptr sm \<noteq> 0"
    "batch_ok (concat (map (trash_batch g) (filter (\<lambda>t. \<not> locked_uid sm ps (tr_uid (trash_at g t))) ts))) (heap_abs (sm_pool sm) bs)"
  shows "\<exists>sm' bs'. trash_walk ts cx g sm = Some sm' \<and> tlsf_inv (sm_pool sm') bs' \<and>
    heap_abs (sm_pool sm') bs' = release_batch (concat (map (trash_batch g) (filter (\<lambda>t. \<not> locked_uid sm ps (tr_uid (trash_at g t))) ts))) (heap_abs (sm_pool sm) bs) \<and>
    list_ok (sm_lists sm') (sm_gc_head sm) (us @ filter (\<lambda>t. locked_uid sm ps (tr_uid (trash_at g t))) ts)"
  using assms
proof (induction ts arbitrary: us sm bs)
  case Nil
  then show ?case by (auto simp: release_batch_def fun_eq_iff)
next
  case (Cons t ts)
  note lk = is_locked_eq [OF Cons.prems(1,4)]
  show ?case
  proof (cases "locked_uid sm ps (tr_uid (trash_at g t))")
    case True
    with Cons.IH [of sm "us @ [t]" bs] Cons.prems lk show ?thesis by simp
  next
    case False
    let ?b = "trash_batch g t" and ?r = "concat (map (trash_batch g) (filter (\<lambda>t. \<not> locked_uid sm ps (tr_uid (trash_at g t))) ts))"
    have b: "batch_ok (?b @ ?r) (heap_abs (sm_pool sm) bs)" using Cons.prems(7) False by simp
    note ba = batch_append [OF b]
    from destroy_node_run [OF Cons.prems(1-6) ba(1)] obtain sm1 bs1 where d: "libsrpc_shm_trash_destroy_node t cx g sm = Some sm1"
      "tlsf_inv (sm_pool sm1) bs1" "heap_abs (sm_pool sm1) bs1 = release_batch ?b (heap_abs (sm_pool sm) bs)"
      "list_ok (sm_lists sm1) (sm_gc_head sm) (us @ ts)" "lists_ok sm1 ps" "locked_uid sm1 ps = locked_uid sm ps"
      "sm1 = sm\<lparr>sm_pool := sm_pool sm1, sm_lists := sm_lists sm1\<rparr>" by blast
    have h: "sm_gc_head sm1 = sm_gc_head sm" "sm_proc_head sm1 = sm_proc_head sm" "sm_poolptr sm1 = sm_poolptr sm" by (subst d(7), simp)+
    have "heads_apart sm1 ps" "sm_poolptr sm1 \<noteq> 0" "list_ok (sm_lists sm1) (sm_gc_head sm1) (us @ ts)"
      using Cons.prems(2,6) d(4) by (simp_all add: heads_apart_def h)
    moreover have "batch_ok ?r (heap_abs (sm_pool sm1) bs1)" using ba(2) by (simp add: d(3))
    ultimately obtain sm' bs' where "trash_walk ts cx g sm1 = Some sm'" "tlsf_inv (sm_pool sm') bs'"
      "heap_abs (sm_pool sm') bs' = release_batch ?r (heap_abs (sm_pool sm1) bs1)"
      "list_ok (sm_lists sm') (sm_gc_head sm) (us @ filter (\<lambda>t. locked_uid sm ps (tr_uid (trash_at g t))) ts)"
      using Cons.IH [of sm1 us bs1] d(2,5) Cons.prems(4) unfolding h d(6) by blast
    then show ?thesis using False lk d(1) ba(3) by (auto simp: d(3))
  qed
qed

section \<open>Properties\<close>


text \<open>A pool with one block, a request that is marked.\<close>

definition marked_pool :: tlsf_ctrl where "marked_pool = snd (tlsf_setdc 4096 (fst pool_one) (snd pool_one))"

lemma marked_pool_state:
  obtains bs k where "tlsf_inv marked_pool bs" "heap_abs marked_pool bs = [fst pool_one \<mapsto> k]" "bk_dc k" "bk_type k = 3" "bk_owners k = 5 # replicate 11 0"
proof -
  obtain bs where bs: "tlsf_inv (snd pool_one) bs" "alloc_effect (new_pool 8192) [10816] 64 5 3 (fst pool_one) (snd pool_one) bs"
    by (rule pool_one_state)
  then obtain n where n: "heap_abs (snd pool_one) bs = [fst pool_one \<mapsto> \<lparr>bk_size = n, bk_owners = 5 # replicate 11 0, bk_type = 3, bk_dc = False\<rparr>]"
    by (auto simp: alloc_effect_def new_pool_inv [OF pool_args_concrete(2)])
  have "running (snd pool_one) bs" using bs(1) by (simp add: running_def tlsf_inv_def idle_def)
  from setdc_run [OF this, of 4096 "fst pool_one"] n obtain c where c: "tlsf_setdc 4096 (fst pool_one) (snd pool_one) = (0, c)" "running c bs"
    "same_txn (snd pool_one) c" "heap_abs c bs = [fst pool_one \<mapsto> \<lparr>bk_size = n, bk_owners = 5 # replicate 11 0, bk_type = 3, bk_dc = True\<rparr>]" by auto
  then have "tlsf_inv c bs" using bs(1) by (simp add: tlsf_inv_def running_def idle_def same_txn_def)
  with c(1,4) show thesis 
    by (intro that [of bs "\<lparr>bk_size = n, bk_owners = 5 # replicate 11 0, bk_type = 3, bk_dc = True\<rparr>"]) (simp_all add: marked_pool_def)
qed

definition some_gc :: gc_local where
  "some_gc = \<lparr>gc_init = True, gc_stop = False, trash_at = \<lambda>_. \<lparr>tr_uid = 0, tr_num = 4, tr_cnt = 0, tr_ptr = \<lambda>_. 0\<rparr>\<rparr>"

lemma two_lists_gc: "list_ok two_lists 528 []"
  by (simp add: list_ok_def two_lists_def libsrpc_list_push_front_def Let_def empty_store_def put_node_def put_head_def)


text \<open>C34: The memory of a dead process is not released while somebody locks it. \<^verbatim>\<open>libsrpc_shm_trash_clear_list\<close> returns,
  keeps the allocator's invariant, leaves on the list exactly the trash nodes whose UID is locked by
  an intact request of a running process, and releases exactly the blocks of the other nodes, each once.\<close>

theorem trash_waits_for_locks:
  assumes "lists_ok sm ps" "heads_apart sm ps" "list_ok (sm_lists sm) (sm_gc_head sm) ts" "libsrpc_shmem_get cx"
    "tlsf_inv (sm_pool sm) bs" "sm_poolptr sm \<noteq> 0"
    "batch_ok (concat (map (trash_batch g) (filter (\<lambda>t. \<not> locked_uid sm ps (tr_uid (trash_at g t))) ts))) (heap_abs (sm_pool sm) bs)"
  shows "\<exists>sm' bs'. libsrpc_shm_trash_clear_list cx g sm = Some (0, sm') \<and> tlsf_inv (sm_pool sm') bs' \<and>
    list_ok (sm_lists sm') (sm_gc_head sm) (filter (\<lambda>t. locked_uid sm ps (tr_uid (trash_at g t))) ts) \<and>
    heap_abs (sm_pool sm') bs' = release_batch (concat (map (trash_batch g) (filter (\<lambda>t. \<not> locked_uid sm ps (tr_uid (trash_at g t))) ts))) (heap_abs (sm_pool sm) bs)"
  using trash_walk_run [of sm ps "[]" ts cx bs g] assms spin.foreach_members [OF assms(3)]
  by (auto simp: libsrpc_shm_trash_clear_list_def)

text \<open>C35: Appending to a trash node. A successful call stores the pointer behind the ones already there and keeps
  them and the owner, also when the node moves; the entry lies inside the allocated array exactly
  when there was room or the array had at least four entries, since it grows by a quarter, rounded
  down. A failed allocation changes nothing.\<close>

theorem trash_add_ptr_bounds:
  assumes "trash \<noteq> 0" "ptr \<noteq> 0" "tr_cnt (trash_at g trash) \<le> tr_num (trash_at g trash)" "unat (tr_num (trash_at g trash)) < 2 ^ 31"
    "libsrpc_shm_trash_add_ptr realloc trash ptr g ls = (rc, trash', g', ls')"
  shows "if rc = 0
    then trash_ptrs (trash_at g' trash') = trash_ptrs (trash_at g trash) @ [ptr] \<and> tr_uid (trash_at g' trash') = tr_uid (trash_at g trash) \<and>
      (tr_cnt (trash_at g trash) < tr_num (trash_at g' trash') \<longleftrightarrow> tr_cnt (trash_at g trash) < tr_num (trash_at g trash) \<or> 4 \<le> tr_num (trash_at g trash))
    else rc = - ENOMEM \<and> trash' = trash \<and> g' = g \<and> ls' = ls"
proof -
  let ?t = "trash_at g trash"
  have cnt: "unat (tr_cnt ?t + 1) = unat (tr_cnt ?t) + 1"
    using assms(3,4) by (simp add: unat_word_ariths word_le_nat_alt)
  have ap: "trash_ptrs (t\<lparr>tr_ptr := (tr_ptr t)(unat (tr_cnt t) := ptr), tr_cnt := tr_cnt t + 1\<rparr>) = trash_ptrs t @ [ptr]" if "tr_cnt t = tr_cnt ?t" for t
    using that cnt by (auto simp: trash_ptrs_def)
  show ?thesis
  proof (cases "tr_num ?t \<le> tr_cnt ?t")
    case False
    then have "rc = 0" "trash' = trash" "g' = trash_store trash ptr g" using assms(1,2,5) by (auto simp: libsrpc_shm_trash_add_ptr_def)
    then show ?thesis using False ap [of ?t] by (auto simp: trash_store_def put_trash_def)
  next
    case True
    then have eq: "tr_cnt ?t = tr_num ?t" using assms(3) by simp
    define n where "n = tr_num ?t + tr_num ?t div 4"
    have "unat n = unat (tr_num ?t) + unat (tr_num ?t) div 4"
      using assms(4) by (simp add: n_def unat_word_ariths unat_div)
    then have room: "tr_cnt ?t < n \<longleftrightarrow> 4 \<le> tr_num ?t" by (auto simp: eq word_less_nat_alt word_le_nat_alt)
    show ?thesis
    proof (cases "realloc trash (TRASH_SZ + ucast n * 8) = 0")
      case True
      then have "(rc, trash', g', ls') = (- ENOMEM, trash, g, ls)"
        using assms(1,2,5) eq by (simp add: libsrpc_shm_trash_add_ptr_def Let_def flip: n_def)
      then show ?thesis by simp
    next
      case False
      then have "rc = 0" "trash_at g' trash' = ?t\<lparr>tr_num := n, tr_ptr := (tr_ptr ?t)(unat (tr_cnt ?t) := ptr), tr_cnt := tr_cnt ?t + 1\<rparr>"
        using assms(1,2,5) eq by (auto simp: libsrpc_shm_trash_add_ptr_def Let_def trash_move_def trash_store_def put_trash_def simp flip: n_def)
      then show ?thesis using room eq ap [of "?t\<lparr>tr_num := n\<rparr>"] by (simp add: trash_ptrs_def)
    qed
  qed
qed

lemma trash_add_ptr_bounds_witness:
  "\<exists>g' ls'. libsrpc_shm_trash_add_ptr (\<lambda>_ _. 0) 8 64 some_gc empty_store = (0, 8, g', ls') \<and> trash_ptrs (trash_at g' 8) = [64]"
proof -
  have t: "trash_at some_gc 8 = \<lparr>tr_uid = 0, tr_num = 4, tr_cnt = 0, tr_ptr = \<lambda>_. 0\<rparr>" by (simp add: some_gc_def)
  have r: "libsrpc_shm_trash_add_ptr (\<lambda>_ _. 0) 8 64 some_gc empty_store = (0, 8, trash_store 8 64 some_gc, empty_store)"
    by (simp add: libsrpc_shm_trash_add_ptr_def t)
  from trash_add_ptr_bounds [OF _ _ _ _ this] have "trash_ptrs (trash_at (trash_store 8 64 some_gc) 8) = [64]" 
    by (simp add: t) (simp add: trash_ptrs_def)
  with r show ?thesis by blast
qed

text \<open>One trash node with the block of \<open>pool_one\<close>, whose owner 5 nobody locks.\<close>

definition trash_gc :: gc_local where
  "trash_gc = some_gc\<lparr>trash_at := \<lambda>_. \<lparr>tr_uid = 5, tr_num = 4, tr_cnt = 1, tr_ptr = \<lambda>_. fst pool_one\<rparr>\<rparr>"

definition trash_shm :: shmem where
  "trash_shm = lock_shm\<lparr>sm_lists := snd (libsrpc_list_push_front 528 40960 two_lists)\<rparr>"

lemma trash_waits_for_locks_witness:
  "\<exists>sm' bs'. libsrpc_shm_trash_clear_list some_cx trash_gc trash_shm = Some (0, sm') \<and> tlsf_inv (sm_pool sm') bs' \<and>
     list_ok (sm_lists sm') 528 [] \<and> heap_abs (sm_pool sm') bs' (fst pool_one) = None"
proof -
  obtain bs where bs: "tlsf_inv (snd pool_one) bs" "alloc_effect (new_pool 8192) [10816] 64 5 3 (fst pool_one) (snd pool_one) bs"
    by (rule pool_one_state)
  then obtain n where n: "heap_abs (snd pool_one) bs = [fst pool_one \<mapsto> \<lparr>bk_size = n, bk_owners = 5 # replicate 11 0, bk_type = 3, bk_dc = False\<rparr>]"
    by (auto simp: alloc_effect_def new_pool_inv [OF pool_args_concrete(2)])
  have g: "sm_poolptr trash_shm \<noteq> 0" "sm_pool trash_shm = snd pool_one" "sm_proc_head trash_shm = 512" "sm_gc_head trash_shm = 528"
    "libsrpc_shmem_get some_cx" "sm_reqs trash_shm = sm_reqs lock_shm"
    by (simp_all add: trash_shm_def lock_shm_def some_shm_def some_cx_def libsrpc_shmem_get_def)
  have "loose_node two_lists 40960"
    by (simp add: loose_node_def two_lists_def libsrpc_list_push_front_def Let_def empty_store_def put_node_def put_head_def)
  with spin.push_loose [OF two_lists_gc, of 40960] obtain ls where ls: "libsrpc_list_push_front 528 40960 two_lists = (0, ls)" "list_ok ls 528 [40960]"
    "\<forall>h ys. h \<noteq> 528 \<longrightarrow> list_ok two_lists h ys \<longrightarrow> list_ok ls h ys" by blast
  have lo: "list_ok ls 512 [1024]" "list_ok ls 1096 [64]" using ls(3) two_lists_ok by simp_all
  have st: "sm_lists trash_shm = ls" using ls(1) by (simp add: trash_shm_def)
  have l: "lists_ok trash_shm [1024]" "heads_apart trash_shm [1024]" "list_ok (sm_lists trash_shm) (sm_gc_head trash_shm) [40960]"
    using lo ls(2) by (auto simp: lists_ok_def heads_apart_def g st req_head_of_def)
  have "reqs_of trash_shm 1024 = [64]" using spin.foreach_members [OF lo(2)] by (simp add: reqs_of_def st req_head_of_def)
  then have nl: "\<not> locked_uid trash_shm [1024] 5"
    by (auto simp: locked_uid_def libsrpc_shmem_check_uid_lock_def g lock_shm_def some_req_def srpc_codes)
  have tb: "trash_batch trash_gc 40960 = [(fst pool_one, 5)]" "tr_uid (trash_at trash_gc 40960) = 5"
    by (simp_all add: trash_batch_def trash_gc_def trash_ptrs_def)
  have fr: "freed 5 \<lparr>bk_size = n, bk_owners = 5 # replicate 11 0, bk_type = 3, bk_dc = False\<rparr> = None"
    by (simp add: freed_def without_def unowned_def)
  have "batch_ok [(fst pool_one, 5)] (heap_abs (snd pool_one) bs)" by (simp add: batch_ok_def n)
  then obtain sm' bs' where r: "libsrpc_shm_trash_clear_list some_cx trash_gc trash_shm = Some (0, sm')" "tlsf_inv (sm_pool sm') bs'"
    "list_ok (sm_lists sm') 528 []" "heap_abs (sm_pool sm') bs' = release_batch [(fst pool_one, 5)] (heap_abs (snd pool_one) bs)"
    using trash_waits_for_locks [OF l g(5), of bs trash_gc] bs(1) nl g(1,2,4) by (auto simp: tb)
  have "heap_abs (sm_pool sm') bs' (fst pool_one) = None" by (simp add: r(4) release_batch_def n fr)
  with r(1-3) show ?thesis by blast
qed

end
