(* ===== verification/Srpc_Destroy.thy ===== *)
theory Srpc_Destroy
  imports Srpc_Gc
begin

text \<open>
  The destruction of a process (\<^verbatim>\<open>libsrpc_proc_destroy\<close> and its \<^verbatim>\<open>destructor_fn\<close> in \<^verbatim>\<open>src/libsrpc_proc.c\<close>): the
  process leaves the registry and the list, its queue is emptied, its memory is released at once or,
  while somebody locks it, recorded for the collector, and its own block is marked for deferred
  cleanup. The theorems give the fate of every block of the pool.
\<close>

section \<open>The destructor\<close>

text \<open>The structure \<^verbatim>\<open>destructor_fn_t\<close> the walk hands through; \<open>dd_trash = 0\<close>: no trash node. The destructor also
  changes the requests, the memory of the daemon and the list nodes.\<close>

record destructor_data =
  dd_dc_count :: u64
  dd_trash :: u64

type_synonym destroy_state = "destructor_data \<times> gc_local \<times> shmem"

definition proc_destructor_fn :: "(u64 \<Rightarrow> u64 \<Rightarrow> u64) \<Rightarrow> u64 \<Rightarrow> destroy_state destructor" where
  "proc_destructor_fn realloc tlsf ptr block match_uid u c =
     (if ptr = 0 \<or> tlsf = 0 \<or> block = 0 then (- EINVAL, u, c)
      else
        let (dd, g, sm) = u;
            data_type = tlsf_get_data_type tlsf ptr c; flag_dc = tlsf_getdc tlsf ptr c
        in if data_type = uint LIBSRPC_SHMDT_REGFN \<or> data_type = uint LIBSRPC_SHMDT_PROC then (0, u, c)
           else if data_type = uint LIBSRPC_SHMDT_REQUEST then
             (if flag_dc = 0
              then (0, (dd\<lparr>dd_dc_count := dd_dc_count dd + 1\<rparr>, g, snd (libsrpc_req_destroy ptr sm)), snd (tlsf_setdc tlsf ptr c))
              else (0, u, c))
           else if dd_trash dd \<noteq> 0 then
             (case libsrpc_shm_trash_add_ptr realloc (dd_trash dd) ptr g (sm_lists sm) of
                (_, trash, g1, ls) \<Rightarrow> (0, (dd\<lparr>dd_trash := trash\<rparr>, g1, sm\<lparr>sm_lists := ls\<rparr>), c))
           else (1, u, tlsf_free_nb tlsf ptr match_uid c))"

section \<open>Destruction\<close>

text \<open>The capacity of a queue, the number of passes the walk may take, \<^verbatim>\<open>malloc\<close> and \<^verbatim>\<open>realloc\<close>.\<close>

record destroy_env =
  de_cap :: u64
  de_fuel :: nat
  de_malloc :: "u64 \<Rightarrow> u64"
  de_realloc :: "u64 \<Rightarrow> u64 \<Rightarrow> u64"

text \<open>The walk and the wake-up after it, alike in both branches.\<close>

definition destroy_blocks ::
  "destroy_env \<Rightarrow> u16 \<Rightarrow> destructor_data \<Rightarrow> srpc_ctx \<Rightarrow> gc_local \<Rightarrow> shmem \<Rightarrow> (destructor_data \<times> gc_local \<times> shmem) option" where
  "destroy_blocks env uid dd cx g sm =
     map_option (\<lambda>(_, (dd', g', sm'), c).
         let sm1 = sm'\<lparr>sm_pool := c\<rparr> in
         (dd', g', if dd_dc_count dd' > 0 then snd (libsrpc_shm_gc_wakeup cx sm1) else sm1))
       (tlsf_free_uid_blocks (de_fuel env) (cx_caller cx) (sm_poolptr sm) uid
          (Some (proc_destructor_fn (de_realloc env) (sm_poolptr sm))) (dd, g, sm) (sm_pool sm))"

definition destroy_proc_block :: "u64 \<Rightarrow> srpc_ctx \<Rightarrow> shmem \<Rightarrow> srpc_ctx \<times> shmem" where
  "destroy_proc_block proc cx sm =
     (case libsrpc_shmem_free_dc proc cx sm of (cx1, sm1) \<Rightarrow> (cx1, snd (libsrpc_shm_gc_wakeup cx1 sm1)))"

definition destroy_memory ::
  "destroy_env \<Rightarrow> u64 \<Rightarrow> int \<Rightarrow> srpc_ctx \<Rightarrow> gc_local \<Rightarrow> shmem \<Rightarrow> (int \<times> srpc_ctx \<times> gc_local \<times> shmem) option" where
  "destroy_memory env proc rc cx g sm =
     (let uid = proc_uid (sm_procs sm proc); dd0 = \<lparr>dd_dc_count = 0, dd_trash = 0\<rparr> in
      case libsrpc_shmem_is_locked_uid uid cx sm of
        None \<Rightarrow> None
      | Some True \<Rightarrow>
          (case libsrpc_shm_trash_create_node (de_malloc env) 1024 g (sm_lists sm) of
             (trash, g1, ls) \<Rightarrow>
               let sm1 = sm\<lparr>sm_lists := ls\<rparr> in
               if trash = 0 then Some (- ENOMEM, cx, g1, sm1)
               else case destroy_blocks env uid (dd0\<lparr>dd_trash := trash\<rparr>) cx (put_trash trash (\<lambda>t. t\<lparr>tr_uid := uid\<rparr>) g1) sm1 of
                   None \<Rightarrow> None
                 | Some (dd, g2, sm2) \<Rightarrow>
                     (case libsrpc_shm_trash_add_node (dd_trash dd) cx sm2 of
                        (rc1, sm3) \<Rightarrow>
                          if rc1 < 0 then Some (- EINVAL, cx, g2, sm3)
                          else case destroy_proc_block proc cx sm3 of (cx1, sm4) \<Rightarrow> Some (rc1, cx1, g2, sm4)))
      | Some False \<Rightarrow>
          (case destroy_blocks env uid dd0 cx g sm of
             None \<Rightarrow> None
           | Some (dd, g2, sm2) \<Rightarrow> (case destroy_proc_block proc cx sm2 of (cx1, sm3) \<Rightarrow> Some (rc, cx1, g2, sm3))))"

definition libsrpc_proc_destroy :: "destroy_env \<Rightarrow> int \<Rightarrow> srpc_ctx \<Rightarrow> gc_local \<Rightarrow> shmem \<Rightarrow> (int \<times> srpc_ctx \<times> gc_local \<times> shmem) option" where
  "libsrpc_proc_destroy env pid cx g sm =
     (case libsrpc_proc_get pid cx sm of
        None \<Rightarrow> None
      | Some (proc, cx1) \<Rightarrow>
          if proc = 0 then Some (- EINVAL, cx1, g, sm)
          else
            let (_, sm1) = libsrpc_unreg_func_proc proc cx1 sm;
                sm2 = put_proc proc (\<lambda>q. q\<lparr>proc_sign := 0, proc_status := LIBSRPC_PROC_STATUS_DELETE\<rparr>) sm1
            in case libsrpc_list_remove proc (sm_lists sm2) of
                 None \<Rightarrow> None
               | Some (rc, ls) \<Rightarrow>
                   (case libsrpc_thread_rcv_queue_clear (de_cap env) proc (sm2\<lparr>sm_lists := ls\<rparr>) of
                      None \<Rightarrow> None
                    | Some sm3 \<Rightarrow> destroy_memory env proc rc cx1 g sm3))"

section \<open>Leaving the registry\<close>

text \<open>Every extension block of the registry is the payload of an allocated block that is large enough.\<close>

definition exts_live :: "shmem \<Rightarrow> u64 list \<Rightarrow> bool" where
  "exts_live sm bs \<longleftrightarrow> (\<forall>i < sRPC_FNNUM. ext_block (func_of sm i) \<noteq> 0 \<longrightarrow>
     (\<exists>k. heap_abs (sm_pool sm) bs (ext_block (func_of sm i)) = Some k \<and>
        16 + 8 * unat (ext_szfn sm (ext_block (func_of sm i))) \<le> unat (bk_size k)))"

text \<open>A change of the function table and of payload words only.\<close>

definition quiet :: "u64 list \<Rightarrow> shmem \<Rightarrow> shmem \<Rightarrow> bool" where
  "quiet bs sm sm' \<longleftrightarrow> tlsf_inv (sm_pool sm') bs \<and> heap_abs (sm_pool sm') bs = heap_abs (sm_pool sm) bs \<and>
     sm' = sm\<lparr>sm_pool := sm_pool sm', sm_funcs := sm_funcs sm'\<rparr> \<and>
     (\<forall>j. ext_block (func_of sm' j) = ext_block (func_of sm j))"

lemma quiet_refl: "tlsf_inv (sm_pool sm) bs \<Longrightarrow> quiet bs sm sm"
  by (simp add: quiet_def)

lemma quiet_trans: "quiet bs sm sm1 \<Longrightarrow> quiet bs sm1 sm2 \<Longrightarrow> quiet bs sm sm2"
  unfolding quiet_def by (cases sm; cases sm1; cases sm2) simp

lemma quiet_put_func:
  assumes "tlsf_inv (sm_pool sm) bs" "\<And>f. ext_block (g f) = ext_block f"
  shows "quiet bs sm (put_func i g sm)"
proof -
  have "ext_block ((sm_funcs sm)[i := g (sm_funcs sm ! i)] ! j) = ext_block (sm_funcs sm ! j)" for j
    by (cases "i < length (sm_funcs sm)") (simp_all add: nth_list_update list_update_beyond assms(2))
  then show ?thesis using assms(1) by (simp add: quiet_def put_func_def func_of_def)
qed

lemma quiet_poke:
  assumes "tlsf_inv (sm_pool sm) bs" "heap_abs (sm_pool sm) bs q = Some k" "unat q \<le> unat a" "unat a < unat q + unat (bk_size k)"
  shows "quiet bs sm (shm_poke a v sm)"
  using payload_poke_view [OF assms, of v] by (simp add: quiet_def shm_poke_def func_of_def)

lemma view_in_range:
  assumes "tlsf_inv c bs" "heap_abs c bs p = Some k"
  shows "unat p + unat (bk_size k) < 2 ^ 64"
proof -
  obtain b where b: "p = ptr_from_block b" "b \<in> set bs" "k = block_info c b" using assms(2) by (rule heap_abs_Some)
  have hk: "heap_ok c bs (free_blocks c bs) {}" using assms(1) by (simp add: tlsf_inv_def heap_inv_def)
  note m = chain_member [OF heap_okD(2) [OF hk] b(2)] and e = unat_lt_64 [of "get_heap_end c"]
  have "unat (bk_size k) + 64 = unat (block_size c b)"
    using m(3) by (simp add: b(3) block_info_def block_payload_size_def block_word unat_diff_nowrap HEADER_SIZE_def)
  moreover have "unat p = unat b + 64" using unat_add_nowrap [of b 64] m(3,6) e by (simp add: b(1) ptr_from_block_def HEADER_SIZE_def)
  ultimately show ?thesis using m(6) e by (simp add: block_word)
qed

lemma ext_slot_inside:
  assumes "unat eb + sz < 2 ^ 64" "16 + 8 * n \<le> sz" "k < n"
  shows "unat eb \<le> unat (ext_slot eb k)" "unat (ext_slot eb k) < unat eb + sz"
proof -
  have k: "unat (of_nat k :: u64) = k" "unat (8 * of_nat k :: u64) = 8 * k"
    using assms by (simp_all add: unsigned_of_nat take_bit_nat_eq_self unat_word_ariths)
  have "unat (ext_slot eb k) = unat eb + 16 + 8 * k"
    using assms unat_add_nowrap [of eb 16] unat_add_nowrap [of "eb + 16" "8 * of_nat k"] k by (simp add: ext_slot_def)
  then show "unat eb \<le> unat (ext_slot eb k)" "unat (ext_slot eb k) < unat eb + sz" using assms(2,3) by simp_all
qed

lemma remove_main_quiet: "tlsf_inv (sm_pool sm) bs \<Longrightarrow> quiet bs sm (remove_main p i ks sm)"
proof (induction ks arbitrary: sm)
  case (Cons k ks)
  let ?sm = "if main_block (sm_funcs sm ! i) ! k = p
      then put_func i (\<lambda>f. f\<lparr>main_block := (main_block f)[k := 0], num_all := num_all f - 1\<rparr>) sm else sm"
  have q: "quiet bs sm ?sm" using quiet_put_func [OF Cons.prems] quiet_refl [OF Cons.prems] by simp
  then have "tlsf_inv (sm_pool ?sm) bs" by (simp only: quiet_def)
  from quiet_trans [OF q Cons.IH [OF this]] show ?case by (simp only: remove_main.simps)
qed (simp add: quiet_refl)

lemma remove_ext_quiet:
  assumes "tlsf_inv (sm_pool sm) bs" "heap_abs (sm_pool sm) bs eb = Some k" "set ks \<subseteq> {..<n}" "16 + 8 * n \<le> unat (bk_size k)"
  shows "quiet bs sm (remove_ext p i eb ks sm)"
  using assms(1-3)
proof (induction ks arbitrary: sm)
  case (Cons j ks)
  let ?sm = "if shm_word sm (ext_slot eb j) = p
      then put_func i (\<lambda>f. f\<lparr>num_all := num_all f - 1\<rparr>) (shm_poke (ext_slot eb j) 0 sm) else sm"
  have "j < n" using Cons.prems(3) by simp
  note at = ext_slot_inside [OF view_in_range [OF Cons.prems(1,2)] assms(4) this]
  have s: "quiet bs sm (shm_poke (ext_slot eb j) 0 sm)" by (rule quiet_poke [OF Cons.prems(1,2) at])
  then have "tlsf_inv (sm_pool (shm_poke (ext_slot eb j) 0 sm)) bs" by (simp only: quiet_def)
  note quiet_trans [OF s quiet_put_func [OF this]]
  then have q: "quiet bs sm ?sm" using quiet_refl [OF Cons.prems(1)] by simp
  have i: "tlsf_inv (sm_pool ?sm) bs" "heap_abs (sm_pool ?sm) bs eb = Some k"
    using q Cons.prems(2) unfolding quiet_def by (blast, metis)
  from quiet_trans [OF q Cons.IH [OF i]] Cons.prems(3) show ?case by (simp only: remove_ext.simps list.set) simp
qed (simp add: quiet_refl)

lemma exts_live_keep:
  assumes "exts_live sm bs" "registry_ok sm" "registry_ok sm'" "quiet bs sm sm'"
    "\<And>i. i < sRPC_FNNUM \<Longrightarrow> length (entries sm' i) = length (entries sm i)"
  shows "exts_live sm' bs"
  unfolding exts_live_def
proof (intro allI impI)
  fix i assume i: "i < sRPC_FNNUM" "ext_block (func_of sm' i) \<noteq> 0"
  have e: "ext_block (func_of sm' i) = ext_block (func_of sm i)" "heap_abs (sm_pool sm') bs = heap_abs (sm_pool sm) bs"
    using assms(4) by (simp_all add: quiet_def)
  have nz: "ext_block (func_of sm i) \<noteq> 0" using i(2) e(1) by simp
  have "unat (ext_szfn sm' (ext_block (func_of sm' i))) = unat (ext_szfn sm (ext_block (func_of sm i)))"
    using entries_ext(1) [OF assms(3) i] entries_ext(1) [OF assms(2) i(1) nz] assms(5) [OF i(1)] by simp
  with assms(1) i(1) nz e show "\<exists>k. heap_abs (sm_pool sm') bs (ext_block (func_of sm' i)) = Some k \<and>
      16 + 8 * unat (ext_szfn sm' (ext_block (func_of sm' i))) \<le> unat (bk_size k)" by (simp add: exts_live_def)
qed

lemma regfn_remove_quiet:
  assumes "registry_ok sm" "exts_live sm bs" "tlsf_inv (sm_pool sm) bs" "i < sRPC_FNNUM" "p \<noteq> 0"
  shows "\<exists>sm'. libsrpc_regfn_remove p i sm = (0, sm') \<and> quiet bs sm sm' \<and> registry_ok sm' \<and> exts_live sm' bs \<and>
    (\<forall>j < sRPC_FNNUM. entries sm' j = (if j = i then cleared p (entries sm j) else entries sm j))"
proof -
  define eb where "eb = ext_block (func_of sm i)"
  define sm1 where "sm1 = remove_main p i [0..<LIBSRPC_RFMB_SZ] sm"
  obtain rc sm' where r: "libsrpc_regfn_remove p i sm = (rc, sm')" by (cases "libsrpc_regfn_remove p i sm")
  note ok = regfn_remove_ok [OF assms(1,4,5) r]
  have q1: "quiet bs sm sm1" unfolding sm1_def by (rule remove_main_quiet [OF assms(3)])
  have q: "quiet bs sm sm'"
  proof (cases "eb = 0")
    case True
    then show ?thesis using r q1 by (simp add: libsrpc_regfn_remove_def sm1_def eb_def func_of_def)
  next
    case False
    obtain k where k: "heap_abs (sm_pool sm) bs eb = Some k" "16 + 8 * unat (ext_szfn sm eb) \<le> unat (bk_size k)"
      using assms(2,4) False by (auto simp: exts_live_def eb_def)
    have w: "sm1 = fold (wipe p i) [0..<LIBSRPC_RFMB_SZ] sm"
      unfolding sm1_def by (rule remove_main_wipe [OF assms(1,4) _ assms(5)]) auto
    have le: "set [0..<LIBSRPC_RFMB_SZ] \<subseteq> {..<length (entries sm i)}" using assms(1,4) by (auto simp: registry_ok_def entries_def)
    note w1 = wipe_all_ok [OF assms(1,4) le assms(5), folded w]
    have nz: "ext_block (func_of sm1 i) \<noteq> 0" "ext_block (func_of sm i) \<noteq> 0" using False w1(5) by (simp_all add: eb_def)
    have sz: "unat (ext_szfn sm1 eb) = unat (ext_szfn sm eb)"
      using entries_ext(1) [OF w1(1) assms(4) nz(1)] entries_ext(1) [OF assms(1,4) nz(2)] w1(2,5) by (simp add: eb_def)
    have "sm' = remove_ext p i eb [0..<unat (ext_szfn sm1 eb)] sm1"
      using r False by (simp add: libsrpc_regfn_remove_def sm1_def eb_def func_of_def Let_def)
    moreover have "tlsf_inv (sm_pool sm1) bs" "heap_abs (sm_pool sm1) bs eb = Some k" using q1 k(1) by (simp_all add: quiet_def)
    from remove_ext_quiet [OF this _ k(2), of "[0..<unat (ext_szfn sm1 eb)]"] sz
    have "quiet bs sm1 (remove_ext p i eb [0..<unat (ext_szfn sm1 eb)] sm1)" by (simp add: lessThan_def subset_iff)
    ultimately show ?thesis using quiet_trans [OF q1] by simp
  qed
  have e: "entries sm' j = (if j = i then cleared p (entries sm j) else entries sm j)" if "j < sRPC_FNNUM" for j using ok that by auto
  have "exts_live sm' bs" by (rule exts_live_keep [OF assms(2,1) _ q]) (use ok e in \<open>simp_all add: cleared_def\<close>)
  then show ?thesis using r q ok e by simp
qed

lemma unreg_run:
  assumes "registry_ok sm" "exts_live sm bs" "tlsf_inv (sm_pool sm) bs" "p \<noteq> 0" "libsrpc_shmem_get cx"
  shows "\<exists>sm'. libsrpc_unreg_func_proc p cx sm = (0, sm') \<and> quiet bs sm sm' \<and> registry_ok sm' \<and> exts_live sm' bs \<and>
    (\<forall>j < sRPC_FNNUM. entries sm' j = cleared p (entries sm j))"
proof -
  have cc: "cleared p (cleared p xs) = cleared p xs" for xs by (simp add: cleared_def)
  have "set is \<subseteq> {..<sRPC_FNNUM} \<Longrightarrow> registry_ok sm \<Longrightarrow> exts_live sm bs \<Longrightarrow> tlsf_inv (sm_pool sm) bs \<Longrightarrow>
    \<exists>sm'. fold (\<lambda>i (rc, sm). libsrpc_regfn_remove p i sm) is (0, sm) = (0, sm') \<and> quiet bs sm sm' \<and> registry_ok sm' \<and> exts_live sm' bs \<and>
    (\<forall>j < sRPC_FNNUM. entries sm' j = (if j \<in> set is then cleared p (entries sm j) else entries sm j))" for "is" sm
  proof (induction "is" arbitrary: sm)
    case (Cons i "is")
    then have i: "i < sRPC_FNNUM" by simp
    from regfn_remove_quiet [OF Cons.prems(2-4) i assms(4)] obtain sm1 where s1: "libsrpc_regfn_remove p i sm = (0, sm1)" "quiet bs sm sm1"
      "registry_ok sm1" "exts_live sm1 bs" "\<forall>j < sRPC_FNNUM. entries sm1 j = (if j = i then cleared p (entries sm j) else entries sm j)" by blast
    have "tlsf_inv (sm_pool sm1) bs" using s1(2) by (simp add: quiet_def)
    with Cons.IH [of sm1] Cons.prems(1) s1(3,4) obtain sm' where s': "fold (\<lambda>i (rc, sm). libsrpc_regfn_remove p i sm) is (0, sm1) = (0, sm')"
      "quiet bs sm1 sm'" "registry_ok sm'" "exts_live sm' bs"
      "\<forall>j < sRPC_FNNUM. entries sm' j = (if j \<in> set is then cleared p (entries sm1 j) else entries sm1 j)" by auto
    then show ?case using s1(1,5) quiet_trans [OF s1(2) s'(2)] cc by (intro exI [of _ sm']) simp
  qed (auto simp: quiet_refl)
  from this [of "[0..<sRPC_FNNUM]" sm] assms show ?thesis by (simp add: libsrpc_unreg_func_proc_def lessThan_def subset_iff)
qed

section \<open>Emptying the queue\<close>

text \<open>What clearing a queue leaves alone: everything but that queue, the response slots and the semaphores of
  requests.\<close>

definition cleared_rel :: "u64 \<Rightarrow> shmem \<Rightarrow> shmem \<Rightarrow> bool" where
  "cleared_rel p sm sm' \<longleftrightarrow> (\<exists>q f. sm' = put_queue p q (sm\<lparr>sm_reqs := f\<rparr>) \<and>
     (\<forall>r. same_shape (sm_reqs sm r) (f r) \<and> gc_lock_uid (f r) = gc_lock_uid (sm_reqs sm r) \<and> hp_regfn (f r) = hp_regfn (sm_reqs sm r)))"

lemma cancel_rel:
  "\<exists>f. cancel_request p req sm = sm\<lparr>sm_reqs := f\<rparr> \<and>
     (\<forall>r. same_shape (sm_reqs sm r) (f r) \<and> gc_lock_uid (f r) = gc_lock_uid (sm_reqs sm r) \<and> hp_regfn (f r) = hp_regfn (sm_reqs sm r))"
proof -
  let ?sm = "cancel_request p req sm"
  have "?sm = sm\<lparr>sm_reqs := sm_reqs ?sm\<rparr>"
    by (auto simp: cancel_request_def Let_def put_resp_def put_req_def split: option.splits)
  moreover have "gc_lock_uid (sm_reqs ?sm r) = gc_lock_uid (sm_reqs sm r) \<and> hp_regfn (sm_reqs ?sm r) = hp_regfn (sm_reqs sm r)" for r
    by (auto simp: cancel_request_def Let_def put_resp_def put_req_def split: option.splits)
  ultimately show ?thesis using cancel_request_frame(1) by blast
qed

lemma cleared_rel_step:
  assumes "cleared_rel p (cancel_request p req (put_queue p q sm)) sm'"
  shows "cleared_rel p sm sm'"
proof -
  obtain f where f: "cancel_request p req (put_queue p q sm) = (put_queue p q sm)\<lparr>sm_reqs := f\<rparr>"
    "\<And>r. same_shape (sm_reqs sm r) (f r) \<and> gc_lock_uid (f r) = gc_lock_uid (sm_reqs sm r) \<and> hp_regfn (f r) = hp_regfn (sm_reqs sm r)"
    using cancel_rel [of p req "put_queue p q sm"] by auto
  from assms obtain q' g where g: "sm' = put_queue p q' ((put_queue p q sm)\<lparr>sm_reqs := g\<rparr>)"
    "\<And>r. same_shape (f r) (g r) \<and> gc_lock_uid (g r) = gc_lock_uid (f r) \<and> hp_regfn (g r) = hp_regfn (f r)"
    by (auto simp: cleared_rel_def f(1))
  have "sm' = put_queue p q' (sm\<lparr>sm_reqs := g\<rparr>)" using g(1) by (simp add: put_queue_def put_proc_def)
  moreover have "same_shape (sm_reqs sm r) (g r) \<and> gc_lock_uid (g r) = gc_lock_uid (sm_reqs sm r) \<and> hp_regfn (g r) = hp_regfn (sm_reqs sm r)" for r
    using f(2) [of r] g(2) [of r] by (simp add: same_shape_def)
  ultimately show ?thesis unfolding cleared_rel_def by blast
qed

lemma queue_clear_rel:
  assumes "libsrpc_thread_rcv_queue_clear cap p sm = Some sm'"
  shows "cleared_rel p sm sm'"
proof (rule libsrpc_thread_rcv_queue_clear.raw_induct [OF _ assms])
  fix clr cap p sm sm'
  assume ih: "\<And>cap p sm sm'. clr cap p sm = Some sm' \<Longrightarrow> cleared_rel p sm sm'"
    and run: "(case lf_mpmc_queue_try_dequeue cap (proc_queue (sm_procs sm p)) of None \<Rightarrow> None
      | Some ((rc, data), q) \<Rightarrow> let sm1 = put_queue p q sm in
          if rc = LF_QUEUE_OK then clr cap p (cancel_request p (the data) sm1) else Some sm1) = Some sm'"
  from run obtain rc data q where d: "lf_mpmc_queue_try_dequeue cap (proc_queue (sm_procs sm p)) = Some ((rc, data), q)"
    by (auto split: option.splits prod.splits)
  show "cleared_rel p sm sm'"
  proof (cases "rc = LF_QUEUE_OK")
    case True
    with run d have "clr cap p (cancel_request p (the data) (put_queue p q sm)) = Some sm'" by simp
    from cleared_rel_step [OF ih [OF this]] show ?thesis .
  next
    case False
    with run d have "sm' = put_queue p q (sm\<lparr>sm_reqs := sm_reqs sm\<rparr>)" by simp
    then show ?thesis unfolding cleared_rel_def by (intro exI [of _ q] exI [of _ "sm_reqs sm"]) simp
  qed
qed

section \<open>Leaving the list\<close>

text \<open>A segment whose process table, registry, lists and pool are well formed; \<open>ps\<close> are the listed processes,
  \<open>bs\<close> the blocks of the pool.\<close>

definition segment_ok :: "u64 \<Rightarrow> u64 list \<Rightarrow> u64 list \<Rightarrow> shmem \<Rightarrow> bool" where
  "segment_ok cap ps bs sm \<longleftrightarrow> lists_ok sm ps \<and> (\<forall>q \<in> set ps. req_head_of q \<noteq> sm_proc_head sm) \<and>
     tlsf_inv (sm_pool sm) bs \<and> sm_poolptr sm \<noteq> 0 \<and> registry_ok sm \<and> exts_live sm bs \<and>
     (\<forall>q \<in> set ps. \<exists>reqs. mq_ok cap (proc_queue (sm_procs sm q)) reqs)"

text \<open>The state before the memory is released: the process has left the registry and the list, its queue is
  empty, the view of the pool and the other processes are as before.\<close>

definition left :: "u64 \<Rightarrow> u64 \<Rightarrow> u64 list \<Rightarrow> u64 list \<Rightarrow> shmem \<Rightarrow> shmem \<Rightarrow> bool" where
  "left cap p ps bs sm sm' \<longleftrightarrow> lists_ok sm' (remove1 p ps) \<and>
     (\<forall>h ys. h \<noteq> sm_proc_head sm \<longrightarrow> list_ok (sm_lists sm) h ys \<longrightarrow> list_ok (sm_lists sm') h ys) \<and>
     (\<forall>x. x \<noteq> p \<longrightarrow> node_head (node_at (sm_lists sm') x) = node_head (node_at (sm_lists sm) x)) \<and>
     tlsf_inv (sm_pool sm') bs \<and> heap_abs (sm_pool sm') bs = heap_abs (sm_pool sm) bs \<and>
     registry_ok sm' \<and> (\<forall>i < sRPC_FNNUM. entries sm' i = cleared p (entries sm i)) \<and>
     (\<forall>q. q \<noteq> p \<longrightarrow> sm_procs sm' q = sm_procs sm q) \<and>
     proc_sign (sm_procs sm' p) = 0 \<and> proc_status (sm_procs sm' p) = LIBSRPC_PROC_STATUS_DELETE \<and>
     proc_uid (sm_procs sm' p) = proc_uid (sm_procs sm p) \<and> mq_ok cap (proc_queue (sm_procs sm' p)) [] \<and>
     (\<forall>r. same_shape (sm_reqs sm r) (sm_reqs sm' r) \<and> gc_lock_uid (sm_reqs sm' r) = gc_lock_uid (sm_reqs sm r)) \<and>
     sm_poolptr sm' = sm_poolptr sm \<and> sm_proc_head sm' = sm_proc_head sm \<and> sm_gc_head sm' = sm_gc_head sm"

lemma entries_frame:
  assumes "sm_funcs sm' = sm_funcs sm" "sm_pool sm' = sm_pool sm"
  shows "entries sm' i = entries sm i" "registry_ok sm' = registry_ok sm"
  using assms by (simp_all add: registry_ok_def exts_apart_def entries_def func_of_def ext_procs_def ext_szfn_def shm_word_def)

lemma leave_run:
  assumes "segment_ok cap ps bs sm" "libsrpc_shmem_get cx" "p \<in> set ps" "find (\<lambda>q. proc_pid (sm_procs sm q) = pid) ps = Some p" "de_cap env = cap"
  shows "\<exists>sm'. left cap p ps bs sm sm' \<and> libsrpc_proc_destroy env pid cx g sm = destroy_memory env p 0 cx g sm'"
proof -
  have a: "lists_ok sm ps" "\<forall>q \<in> set ps. req_head_of q \<noteq> sm_proc_head sm" "tlsf_inv (sm_pool sm) bs" "registry_ok sm" "exts_live sm bs"
    using assms(1) by (simp_all add: segment_ok_def)
  obtain reqs where mq: "mq_ok cap (proc_queue (sm_procs sm p)) reqs" using assms(1,3) by (auto simp: segment_ok_def)
  have lp: "list_ok (sm_lists sm) (sm_proc_head sm) ps" using a(1) by (simp add: lists_ok_def)
  have nz: "p \<noteq> 0" using list_okD(2,3) [OF lp] assms(3) by auto
  have get: "libsrpc_proc_get pid cx sm = Some (p, cx)" using assms(2,4) lists_okD(1) [OF a(1)] by (simp add: libsrpc_proc_get_def)
  obtain sm1 where s1: "libsrpc_unreg_func_proc p cx sm = (0, sm1)" "quiet bs sm sm1" "registry_ok sm1" "\<forall>j < sRPC_FNNUM. entries sm1 j = cleared p (entries sm j)"
    using unreg_run [OF a(4,5,3) nz assms(2)] by blast
  obtain c fs where f: "sm1 = sm\<lparr>sm_pool := c, sm_funcs := fs\<rparr>" using s1(2) unfolding quiet_def by blast
  obtain ls where ls: "libsrpc_list_remove p (sm_lists sm) = Some (LIBSRPC_LIST_OK, ls)" "list_ok ls (sm_proc_head sm) (remove1 p ps)"
    "node_head (node_at ls p) = 0" "\<And>g ys. g \<noteq> sm_proc_head sm \<Longrightarrow> list_ok (sm_lists sm) g ys \<Longrightarrow> list_ok ls g ys"
    "\<And>x. x \<noteq> p \<Longrightarrow> node_head (node_at ls x) = node_head (node_at (sm_lists sm) x)"
    by (rule remove_node_ok [OF lp assms(3)]) (rule that)
  define sm2 where "sm2 = (put_proc p (\<lambda>q. q\<lparr>proc_sign := 0, proc_status := LIBSRPC_PROC_STATUS_DELETE\<rparr>) sm1)\<lparr>sm_lists := ls\<rparr>"
  have "mq_ok cap (proc_queue (sm_procs sm2 p)) reqs" using mq by (simp add: sm2_def f put_proc_def)
  from queue_clear_run [OF this] obtain sm3 where s3: "libsrpc_thread_rcv_queue_clear cap p sm2 = Some sm3" "mq_ok cap (proc_queue (sm_procs sm3 p)) []" by blast
  obtain q h where h: "sm3 = put_queue p q (sm2\<lparr>sm_reqs := h\<rparr>)"
    "\<And>r. same_shape (sm_reqs sm2 r) (h r) \<and> gc_lock_uid (h r) = gc_lock_uid (sm_reqs sm2 r)"
    using queue_clear_rel [OF s3(1)] unfolding cleared_rel_def by blast
  note sm3 = h(1) sm2_def f put_queue_def put_proc_def
  have run: "libsrpc_proc_destroy env pid cx g sm = destroy_memory env p 0 cx g sm3"
    using nz s3(1) ls(1) assms(5) unfolding libsrpc_proc_destroy_def get sm2_def
    by (simp add: put_proc_def s1(1)) (simp add: f LIBSRPC_LIST_OK_def)
  have "list_ok (sm_lists sm3) (req_head_of q) rs" if "q \<in> set ps" "list_ok (sm_lists sm) (req_head_of q) rs" for q rs
    using ls(4) [of "req_head_of q" rs] a(2) that by (simp add: sm3)
  then have "\<forall>q \<in> set (remove1 p ps). \<exists>rs. list_ok (sm_lists sm3) (req_head_of q) rs" using a(1) notin_set_remove1 unfolding lists_ok_def by metis
  then have lo: "lists_ok sm3 (remove1 p ps)" using ls(2) by (simp add: lists_ok_def sm3)
  have "entries sm3 i = entries sm1 i" "registry_ok sm3 = registry_ok sm1" for i by (rule entries_frame; simp add: sm3)+
  then have "registry_ok sm3" "\<forall>i < sRPC_FNNUM. entries sm3 i = cleared p (entries sm i)" using s1(3,4) by simp_all
  moreover have "sm_pool sm3 = sm_pool sm1" "sm_reqs sm3 = h" "sm_reqs sm2 = sm_reqs sm" by (simp_all add: sm3)
  ultimately have "left cap p ps bs sm sm3"
    using lo ls(4,5) s1(2) s3(2) h(2) unfolding left_def quiet_def by (simp add: sm3)
  with run show ?thesis by blast
qed

lemma left_locked:
  assumes "left cap p ps bs sm sm'" "lists_ok sm ps" "\<forall>q \<in> set ps. req_head_of q \<noteq> sm_proc_head sm"
  shows "locked_uid sm' (remove1 p ps) uid \<longleftrightarrow> locked_uid sm (remove1 p ps) uid"
proof -
  have d: "distinct ps" using assms(2) list_okD(2) by (auto simp: lists_ok_def)
  have "libsrpc_proc_is_valid sm' q \<longleftrightarrow> libsrpc_proc_is_valid sm q" if "q \<in> set (remove1 p ps)" for q
    using assms(1) that d by (simp add: libsrpc_proc_is_valid_def left_def set_remove1_eq)
  moreover have "reqs_of sm' q = reqs_of sm q" if "q \<in> set (remove1 p ps)" for q
  proof -
    have q: "q \<in> set ps" using that set_remove1_subset [of p ps] by blast
    then obtain rs where rs: "list_ok (sm_lists sm) (req_head_of q) rs" using assms(2) by (auto simp: lists_ok_def)
    then have "list_ok (sm_lists sm') (req_head_of q) rs" using assms(1,3) q by (simp add: left_def)
    with rs show ?thesis using spin.foreach_members by (simp add: reqs_of_def)
  qed
  moreover have "libsrpc_shmem_check_uid_lock r u sm' = libsrpc_shmem_check_uid_lock r u sm" for r u
    using assms(1) corrupted_shape [of sm r sm' None] by (simp add: libsrpc_shmem_check_uid_lock_def left_def)
  ultimately show ?thesis by (simp add: locked_uid_def)
qed

section \<open>The destructor on one block\<close>

text \<open>What becomes of a block of the library.\<close>

definition marked :: "blk \<Rightarrow> blk" where
  "marked k = (if bk_type k = LIBSRPC_SHMDT_REQUEST then k\<lparr>bk_dc := True\<rparr> else k)"

abbreviation special :: "blk \<Rightarrow> bool" where "special k \<equiv> special_type (uint (bk_type k))"

lemma marked_simps [simp]: "bk_type (marked k) = bk_type k" "bk_owners (marked k) = bk_owners k" "bk_size (marked k) = bk_size k"
  "marked (marked k) = marked k"
  by (simp_all add: marked_def)

lemma hit_marked: "uid \<noteq> 0 \<Longrightarrow> hit uid (marked k) = hit uid k"
  by (simp add: hit_def)

text \<open>Only requests that are blocks of the process change.\<close>

definition reqs_rel :: "u16 \<Rightarrow> (u64 \<rightharpoonup> blk) \<Rightarrow> shmem \<Rightarrow> shmem \<Rightarrow> bool" where
  "reqs_rel uid v sm0 sm \<longleftrightarrow> sm = sm0\<lparr>sm_reqs := sm_reqs sm\<rparr> \<and>
     (\<forall>r. sm_reqs sm r \<noteq> sm_reqs sm0 r \<longrightarrow> (\<exists>k. v r = Some k \<and> hit uid k \<and> bk_type k = LIBSRPC_SHMDT_REQUEST))"

lemma view_nonzero:
  assumes "running c bs" "heap_abs c bs p = Some k"
  shows "p \<noteq> 0" "block_from_ptr p \<noteq> 0"
proof -
  obtain b where b: "p = ptr_from_block b" "b \<in> set bs" using assms(2) by (rule heap_abs_Some)
  have h: "heap_inv c bs" using assms(1) by (simp add: running_def)
  have hk: "heap_ok c bs (free_blocks c bs) {}" using h by (simp add: heap_inv_def)
  have "b \<noteq> 0" by (rule chain_no_zero [OF heap_okD(2) [OF hk] b(2) geom_nonzero [OF heap_okD(1) [OF hk]]])
  then show "p \<noteq> 0" "block_from_ptr p \<noteq> 0" using block_in_pool(1) [OF h b(2)] b(1) by simp_all
qed

lemma req_destroy_reqs:
  "sm_reqs (snd (libsrpc_req_destroy p sm)) r \<noteq> sm_reqs sm r \<Longrightarrow> r = p" "snd (libsrpc_req_destroy p sm) = sm\<lparr>sm_reqs := sm_reqs (snd (libsrpc_req_destroy p sm))\<rparr>"
  by (auto simp: libsrpc_req_destroy_def put_req_def split: if_splits)

lemma destructor_special:
  assumes "running c bs" "tlsf \<noteq> 0" "uid \<noteq> 0" "heap_abs c bs p = Some k" "hit uid k" "special k" "reqs_rel uid (heap_abs c bs) sm0 sm"
  shows "\<exists>n sm' c'. proc_destructor_fn realloc tlsf p (block_from_ptr p) (matched_uid uid c (block_from_ptr p)) (dd, g, sm) c =
      (0, (dd\<lparr>dd_dc_count := n\<rparr>, g, sm'), c') \<and> same_txn c c' \<and> running c' bs \<and>
      heap_abs c' bs = (heap_abs c bs)(p \<mapsto> marked k) \<and> reqs_rel uid (heap_abs c' bs) sm0 sm'"
proof -
  note nz = view_nonzero [OF assms(1,4)] and ty = data_type_run [OF assms(1,2,4)]
  note run = proc_destructor_fn_def nz assms(2) ty shm_types Let_def
  have same: "same_txn c c" by (simp add: same_txn_def same_geom_def)
  have dd: "dd = dd\<lparr>dd_dc_count := dd_dc_count dd\<rparr>" by simp
  show ?thesis
  proof (cases "bk_type k = LIBSRPC_SHMDT_REQUEST \<and> \<not> bk_dc k")
    case True
    from setdc_run [OF assms(1,2,4)] obtain c' where c': "tlsf_setdc tlsf p c = (0, c')" "running c' bs" "same_txn c c'"
      "heap_abs c' bs = (heap_abs c bs)(p \<mapsto> k\<lparr>bk_dc := True\<rparr>)" by blast
    let ?sm = "snd (libsrpc_req_destroy p sm)"
    have "proc_destructor_fn realloc tlsf p (block_from_ptr p) (matched_uid uid c (block_from_ptr p)) (dd, g, sm) c =
      (0, (dd\<lparr>dd_dc_count := dd_dc_count dd + 1\<rparr>, g, ?sm), c')" using True by (simp add: run c'(1))
    moreover have v: "heap_abs c' bs = (heap_abs c bs)(p \<mapsto> marked k)" using True c'(4) by (simp add: marked_def)
    moreover have "reqs_rel uid (heap_abs c' bs) sm0 ?sm" unfolding reqs_rel_def
    proof (intro conjI allI impI)
      have "sm = sm0\<lparr>sm_reqs := sm_reqs sm\<rparr>" using assms(7) by (simp add: reqs_rel_def)
      with req_destroy_reqs(2) [of p sm] show "?sm = sm0\<lparr>sm_reqs := sm_reqs ?sm\<rparr>" by (cases sm; cases sm0) simp
      fix r assume r: "sm_reqs ?sm r \<noteq> sm_reqs sm0 r"
      show "\<exists>k. heap_abs c' bs r = Some k \<and> hit uid k \<and> bk_type k = LIBSRPC_SHMDT_REQUEST"
      proof (cases "r = p")
        case True' [simp]: True
        show ?thesis using True hit_marked [OF assms(3)] assms(5) by (simp add: v)
      next
        case False
        then have "sm_reqs sm r \<noteq> sm_reqs sm0 r" using r req_destroy_reqs(1) [of p sm r] by metis
        with assms(7) False show ?thesis by (simp add: reqs_rel_def v)
      qed
    qed
    ultimately show ?thesis using c'(2,3) by blast
  next
    case False
    then have m: "marked k = k" by (auto simp: marked_def)
    have "proc_destructor_fn realloc tlsf p (block_from_ptr p) (matched_uid uid c (block_from_ptr p)) (dd, g, sm) c = (0, (dd, g, sm), c)"
      using False assms(6) type_codes by (auto simp: proc_destructor_fn_def nz assms(2) ty Let_def special_type_def simp flip: word_uint_eq_iff)
    moreover have "heap_abs c bs = (heap_abs c bs)(p \<mapsto> marked k)" using assms(4) m by auto
    ultimately show ?thesis using assms(1,7) same dd by metis
  qed
qed

lemma destructor_user:
  assumes "running c bs" "tlsf \<noteq> 0" "uid \<noteq> 0" "heap_abs c bs p = Some k" "\<not> special k"
  shows "proc_destructor_fn realloc tlsf p (block_from_ptr p) (matched_uid uid c (block_from_ptr p)) (dd, g, sm) c =
    (if dd_trash dd \<noteq> 0 then (case libsrpc_shm_trash_add_ptr realloc (dd_trash dd) p g (sm_lists sm) of
        (_, trash, g1, ls) \<Rightarrow> (0, (dd\<lparr>dd_trash := trash\<rparr>, g1, sm\<lparr>sm_lists := ls\<rparr>), c))
     else (1, (dd, g, sm), tlsf_free_nb tlsf p uid c))"
  using assms(2,3,5) view_nonzero [OF assms(1,4)] data_type_run(1) [OF assms(1,2,4)]
  by (simp add: proc_destructor_fn_def special_type_def matched_uid_def)

section \<open>The walk that releases\<close>

definition releasing :: "u64 \<Rightarrow> u16 \<Rightarrow> gc_local \<Rightarrow> shmem \<Rightarrow> u64 set \<Rightarrow> destroy_state \<Rightarrow> (u64 \<rightharpoonup> blk) \<Rightarrow> bool" where
  "releasing tlsf uid g0 sm0 S u v \<longleftrightarrow> tlsf \<noteq> 0 \<and> uid \<noteq> 0 \<and> dd_trash (fst u) = 0 \<and> fst (snd u) = g0 \<and> reqs_rel uid v sm0 (snd (snd u))"

definition treated :: "blk \<Rightarrow> bool" where
  "treated k \<longleftrightarrow> special k \<and> (bk_type k = LIBSRPC_SHMDT_REQUEST \<longrightarrow> bk_dc k)"

definition released_eff :: "u16 \<Rightarrow> blk \<Rightarrow> blk option" where
  "released_eff uid k = (if special k then Some (marked k) else freed uid k)"

lemma treated_marked: "special k \<Longrightarrow> treated (marked k)" "treated k \<Longrightarrow> marked k = k"
  by (auto simp: treated_def marked_def)

lemma without_twice: "without uid (without uid us) = without uid us"
  by (simp add: without_def)

lemma freed_twice: "freed uid k = Some k' \<Longrightarrow> freed uid k' = Some k'"
  by (auto simp: freed_def Let_def without_twice split: if_splits)

lemma released_reqs:
  assumes "reqs_rel uid v sm0 sm" "v p = Some k" "\<not> special k"
  shows "reqs_rel uid (v(p := x)) sm0 sm"
  unfolding reqs_rel_def
proof (intro conjI allI impI)
  show "sm = sm0\<lparr>sm_reqs := sm_reqs sm\<rparr>" using assms(1) by (simp add: reqs_rel_def)
  fix r assume "sm_reqs sm r \<noteq> sm_reqs sm0 r"
  with assms(1) obtain j where j: "v r = Some j" "hit uid j" "bk_type j = LIBSRPC_SHMDT_REQUEST" unfolding reqs_rel_def by blast
  then have "r \<noteq> p" using assms(2,3) by (auto simp: special_type_def)
  with j show "\<exists>k. (v(p := x)) r = Some k \<and> hit uid k \<and> bk_type k = LIBSRPC_SHMDT_REQUEST" by simp
qed

interpretation rel: walk_contract uid "proc_destructor_fn realloc tlsf" "released_eff uid" "\<lambda>_ _. treated" "releasing tlsf uid g0 sm0" "\<lambda>_. False"
  for uid realloc tlsf g0 sm0
proof
  fix c bs p k S and u :: destroy_state
  assume a: "running c bs" "heap_abs c bs p = Some k" "hit uid k" "releasing tlsf uid g0 sm0 S u (heap_abs c bs)"
  obtain dd g sm where u: "u = (dd, g, sm)" by (cases u)
  have z: "tlsf \<noteq> 0" "uid \<noteq> 0" "dd_trash dd = 0" "g = g0" "reqs_rel uid (heap_abs c bs) sm0 sm" using a(4) by (simp_all add: releasing_def u)
  show "\<exists>drc u' c' bs'. proc_destructor_fn realloc tlsf p (block_from_ptr p) (matched_uid uid c (block_from_ptr p)) u c = (drc, u', c') \<and>
      same_txn c c' \<and> running c' bs' \<and> releasing tlsf uid g0 sm0 (if 0 < drc then {} else insert p S) u' (heap_abs c' bs') \<and>
      (if drc < 0 then False \<and> heap_abs c' bs' = heap_abs c bs
       else heap_abs c' bs' = (heap_abs c bs)(p := released_eff uid k) \<and>
         (if drc = 0 then bs' = bs \<and> (\<exists>k'. released_eff uid k = Some k' \<and> treated k') \<and> (\<forall>q j. treated j \<longrightarrow> treated j)
          else (case released_eff uid k of None \<Rightarrow> True | Some k' \<Rightarrow> \<not> hit uid k')))"
  proof (cases "special k")
    case True
    from destructor_special [OF a(1) z(1,2) a(2,3) True z(5), of realloc dd g] obtain n sm' c' where
      "proc_destructor_fn realloc tlsf p (block_from_ptr p) (matched_uid uid c (block_from_ptr p)) u c = (0, (dd\<lparr>dd_dc_count := n\<rparr>, g, sm'), c')"
      "same_txn c c'" "running c' bs" "heap_abs c' bs = (heap_abs c bs)(p \<mapsto> marked k)" "reqs_rel uid (heap_abs c' bs) sm0 sm'"
      unfolding u by blast
    with z True show ?thesis
      by (intro exI [of _ 0] exI [of _ "(dd\<lparr>dd_dc_count := n\<rparr>, g, sm')"] exI [of _ c'] exI [of _ bs])
         (simp add: releasing_def released_eff_def treated_marked)
  next
    case False
    have own: "uid \<in> set (bk_owners k)" using a(3) z(2) by (simp add: hit_def)
    from free_nb_run [OF a(1) z(1,2) a(2) own] obtain bs' where f: "running (tlsf_free_nb tlsf p uid c) bs'" "same_txn c (tlsf_free_nb tlsf p uid c)"
      "heap_abs (tlsf_free_nb tlsf p uid c) bs' = (heap_abs c bs)(p := freed uid k)" by blast
    have "\<not> hit uid k'" if "freed uid k = Some k'" for k' using freed_not_hit [OF z(2) that] .
    with f False z show ?thesis unfolding u destructor_user [OF a(1) z(1,2) a(2) False]
      by (intro exI [of _ 1] exI [of _ "(dd, g, sm)"] exI [of _ "tlsf_free_nb tlsf p uid c"] exI [of _ bs'])
         (simp add: releasing_def released_eff_def released_reqs [OF z(5) a(2) False] split: option.splits)
  qed
next
  show "released_eff uid k' = Some k'" if "hit uid k" "released_eff uid k = Some k'" "hit uid k'" for k k'
  proof (cases "special k")
    case True
    then show ?thesis using that(2) by (auto simp: released_eff_def)
  next
    case False
    then have f: "freed uid k = Some k'" using that(2) by (simp add: released_eff_def)
    then have "bk_type k' = bk_type k" by (auto simp: freed_def Let_def split: if_splits)
    then show ?thesis using False freed_twice [OF f] by (simp add: released_eff_def)
  qed
  show "released_eff uid k = Some k" if "treated k" for k using that treated_marked(2) by (simp add: released_eff_def treated_def)
qed

section \<open>The walk that records\<close>

text \<open>The blocks of the process that are not the library's.\<close>

definition user_blocks :: "u16 \<Rightarrow> (u64 \<rightharpoonup> blk) \<Rightarrow> u64 set" where
  "user_blocks uid v = {p. \<exists>k. v p = Some k \<and> hit uid k \<and> \<not> special k}"

definition deferring :: "u64 \<Rightarrow> u16 \<Rightarrow> u64 \<Rightarrow> shmem \<Rightarrow> u64 set \<Rightarrow> destroy_state \<Rightarrow> (u64 \<rightharpoonup> blk) \<Rightarrow> bool" where
  "deferring tlsf uid t sm0 S u v \<longleftrightarrow> tlsf \<noteq> 0 \<and> uid \<noteq> 0 \<and> t \<noteq> 0 \<and> finite (user_blocks uid v) \<and> card (user_blocks uid v) \<le> 1024 \<and>
     dd_trash (fst u) = t \<and> reqs_rel uid v sm0 (snd (snd u)) \<and>
     tr_num (trash_at (fst (snd u)) t) = 1024 \<and> tr_uid (trash_at (fst (snd u)) t) = uid \<and>
     distinct (trash_ptrs (trash_at (fst (snd u)) t)) \<and> set (trash_ptrs (trash_at (fst (snd u)) t)) \<subseteq> S \<inter> user_blocks uid v"

definition recorded :: "u64 \<Rightarrow> destroy_state \<Rightarrow> u64 \<Rightarrow> blk \<Rightarrow> bool" where
  "recorded t u p k \<longleftrightarrow> treated k \<or> \<not> special k \<and> p \<in> set (trash_ptrs (trash_at (fst (snd u)) t))"

definition deferred_eff :: "blk \<Rightarrow> blk option" where
  "deferred_eff k = Some (if special k then marked k else k)"

lemma trash_stored:
  assumes "tr_cnt (trash_at g t) < tr_num (trash_at g t)"
  shows "trash_ptrs (trash_at (trash_store t p g) t) = trash_ptrs (trash_at g t) @ [p]"
    "tr_num (trash_at (trash_store t p g) t) = tr_num (trash_at g t)" "tr_uid (trash_at (trash_store t p g) t) = tr_uid (trash_at g t)"
proof -
  have "unat (tr_cnt (trash_at g t)) + 1 < 2 ^ 32"
    using assms unsigned_less [of "tr_num (trash_at g t)", where ?'a = nat] by (simp add: word_less_nat_alt)
  then have "unat (tr_cnt (trash_at g t) + 1) = Suc (unat (tr_cnt (trash_at g t)))" by (simp add: unat_word_ariths)
  then show "trash_ptrs (trash_at (trash_store t p g) t) = trash_ptrs (trash_at g t) @ [p]"
    by (simp add: trash_ptrs_def trash_store_def put_trash_def)
qed (simp_all add: trash_store_def put_trash_def)

lemma user_blocks_marked: "uid \<noteq> 0 \<Longrightarrow> v p = Some k \<Longrightarrow> special k \<Longrightarrow> user_blocks uid (v(p \<mapsto> marked k)) = user_blocks uid v"
  by (auto simp: user_blocks_def)

interpretation def: walk_contract uid "proc_destructor_fn realloc tlsf" deferred_eff "recorded t" "deferring tlsf uid t sm0" "\<lambda>_. False"
  for uid realloc tlsf t sm0
proof
  fix c bs p k S and u :: destroy_state
  assume a: "running c bs" "heap_abs c bs p = Some k" "hit uid k" "deferring tlsf uid t sm0 S u (heap_abs c bs)" "p \<notin> S"
  obtain dd g sm where u: "u = (dd, g, sm)" by (cases u)
  let ?v = "heap_abs c bs" and ?xs = "trash_ptrs (trash_at g t)"
  have z: "tlsf \<noteq> 0" "uid \<noteq> 0" "t \<noteq> 0" "dd_trash dd = t" "reqs_rel uid ?v sm0 sm" "finite (user_blocks uid ?v)" "card (user_blocks uid ?v) \<le> 1024"
    "tr_num (trash_at g t) = 1024" "tr_uid (trash_at g t) = uid" "distinct ?xs" "set ?xs \<subseteq> S \<inter> user_blocks uid ?v"
    using a(4) by (simp_all add: deferring_def u)
  have same: "same_txn c c" by (simp add: same_txn_def same_geom_def)
  show "\<exists>drc u' c' bs'. proc_destructor_fn realloc tlsf p (block_from_ptr p) (matched_uid uid c (block_from_ptr p)) u c = (drc, u', c') \<and>
      same_txn c c' \<and> running c' bs' \<and> deferring tlsf uid t sm0 (if 0 < drc then {} else insert p S) u' (heap_abs c' bs') \<and>
      (if drc < 0 then False \<and> heap_abs c' bs' = ?v
       else heap_abs c' bs' = ?v(p := deferred_eff k) \<and>
         (if drc = 0 then bs' = bs \<and> (\<exists>k'. deferred_eff k = Some k' \<and> recorded t u' p k') \<and> (\<forall>q j. recorded t u q j \<longrightarrow> recorded t u' q j)
          else (case deferred_eff k of None \<Rightarrow> True | Some k' \<Rightarrow> \<not> hit uid k')))"
  proof (cases "special k")
    case True
    from destructor_special [OF a(1) z(1,2) a(2,3) True z(5), of realloc dd g] obtain n sm' c' where d:
      "proc_destructor_fn realloc tlsf p (block_from_ptr p) (matched_uid uid c (block_from_ptr p)) u c = (0, (dd\<lparr>dd_dc_count := n\<rparr>, g, sm'), c')"
      "same_txn c c'" "running c' bs" "heap_abs c' bs = ?v(p \<mapsto> marked k)" "reqs_rel uid (heap_abs c' bs) sm0 sm'"
      unfolding u by blast
    have ub: "user_blocks uid (heap_abs c' bs) = user_blocks uid ?v" unfolding d(4) by (rule user_blocks_marked [where v = ?v, OF z(2) a(2) True])
    have "deferring tlsf uid t sm0 (insert p S) (dd\<lparr>dd_dc_count := n\<rparr>, g, sm') (heap_abs c' bs)"
      using z d(5) by (auto simp: deferring_def ub)
    moreover have "recorded t (dd\<lparr>dd_dc_count := n\<rparr>, g, sm') p (marked k)" using True by (simp add: recorded_def treated_marked)
    ultimately show ?thesis using d(1-4) True
      by (intro exI [of _ 0] exI [of _ "(dd\<lparr>dd_dc_count := n\<rparr>, g, sm')"] exI [of _ c'] exI [of _ bs])
         (simp add: deferred_eff_def recorded_def u)
  next
    case False
    have new: "p \<notin> set ?xs" "p \<in> user_blocks uid ?v" using a(2,3,5) z(11) False by (auto simp: user_blocks_def)
    then have "length ?xs < 1024"
      using z(6,7,11) psubset_card_mono [of "user_blocks uid ?v" "set ?xs"] distinct_card [OF z(10)] by fastforce
    then have cnt: "tr_cnt (trash_at g t) < tr_num (trash_at g t)" by (simp add: z(8) word_less_nat_alt trash_ptrs_def)
    note st = trash_stored [OF cnt, of p]
    have "libsrpc_shm_trash_add_ptr realloc t p g (sm_lists sm) = (0, t, trash_store t p g, sm_lists sm)"
      using cnt z(3) view_nonzero(1) [OF a(1,2)] by (simp add: libsrpc_shm_trash_add_ptr_def not_le [symmetric])
    then have run: "proc_destructor_fn realloc tlsf p (block_from_ptr p) (matched_uid uid c (block_from_ptr p)) u c = (0, (dd, trash_store t p g, sm), c)"
      using z(3,4) unfolding u destructor_user [OF a(1) z(1,2) a(2) False] by simp
    have v: "?v = ?v(p := deferred_eff k)" using a(2) False by (auto simp: deferred_eff_def)
    have "deferring tlsf uid t sm0 (insert p S) (dd, trash_store t p g, sm) ?v" using z new by (auto simp: deferring_def st)
    moreover have "recorded t (dd, trash_store t p g, sm) p k" using False by (simp add: recorded_def st)
    moreover have "\<forall>q j. recorded t u q j \<longrightarrow> recorded t (dd, trash_store t p g, sm) q j" by (auto simp: recorded_def u st)
    ultimately show ?thesis using a(1) same run v False
      by (intro exI [of _ 0] exI [of _ "(dd, trash_store t p g, sm)"] exI [of _ c] exI [of _ bs]) (simp add: deferred_eff_def)
  qed
next
  show "deferred_eff k' = Some k'" if "deferred_eff k = Some k'" for k k' using that by (auto simp: deferred_eff_def)
  show "deferred_eff k = Some k" if "recorded t u p k" for u p k using that treated_marked(2) by (auto simp: deferred_eff_def recorded_def treated_def)
qed

section \<open>Releasing and recording the memory\<close>

definition fate :: "u16 \<Rightarrow> bool \<Rightarrow> (u64 \<rightharpoonup> blk) \<Rightarrow> u64 \<rightharpoonup> blk" where
  "fate uid deferred v q = (case v q of None \<Rightarrow> None
     | Some k \<Rightarrow> if uid \<notin> set (bk_owners k) then Some k else if special k then Some (marked k) else if deferred then Some k else freed uid k)"

lemma fate_sweep: "uid \<noteq> 0 \<Longrightarrow> rel.sweep uid v = fate uid False v" "uid \<noteq> 0 \<Longrightarrow> def.sweep uid v = fate uid True v"
  by (auto simp: fate_def rel.sweep_def def.sweep_def released_eff_def deferred_eff_def hit_def fun_eq_iff split: option.splits)

text \<open>The memory of a process was treated: only requests, the pool and the semaphore of the collector change.\<close>

definition swept :: "u16 \<Rightarrow> shmem \<Rightarrow> shmem \<Rightarrow> bool" where
  "swept uid sm sm' \<longleftrightarrow> sm' = sm\<lparr>sm_reqs := sm_reqs sm', sm_pool := sm_pool sm', sm_gc_sem := sm_gc_sem sm'\<rparr>"

lemma destroy_blocks_release:
  assumes "tlsf_inv (sm_pool sm) bs" "sm_poolptr sm \<noteq> 0" "uid \<noteq> 0" "card (targets uid (heap_abs (sm_pool sm) bs)) < de_fuel env"
  shows "\<exists>dd sm' bs'. destroy_blocks env uid \<lparr>dd_dc_count = 0, dd_trash = 0\<rparr> cx g sm = Some (dd, g, sm') \<and> swept uid sm sm' \<and>
    tlsf_inv (sm_pool sm') bs' \<and> heap_abs (sm_pool sm') bs' = fate uid False (heap_abs (sm_pool sm) bs)"
proof -
  let ?dd = "\<lparr>dd_dc_count = 0, dd_trash = 0\<rparr>"
  have "releasing (sm_poolptr sm) uid g sm {} (?dd, g, sm) (heap_abs (sm_pool sm) bs)" using assms(2,3) by (simp add: releasing_def reqs_rel_def)
  from rel.free_uid_blocks_run [OF assms(1,2) this assms(4), of "cx_caller cx" "de_realloc env"] obtain rc dd g1 sm1 c bs' S where
    r: "tlsf_free_uid_blocks (de_fuel env) (cx_caller cx) (sm_poolptr sm) uid (Some (proc_destructor_fn (de_realloc env) (sm_poolptr sm))) (?dd, g, sm) (sm_pool sm)
        = Some (rc, (dd, g1, sm1), c)" "tlsf_inv c bs'" "releasing (sm_poolptr sm) uid g sm S (dd, g1, sm1) (heap_abs c bs')"
      "heap_abs c bs' = rel.sweep uid (heap_abs (sm_pool sm) bs)" by (metis prod_cases3)
  have "g1 = g" "sm1 = sm\<lparr>sm_reqs := sm_reqs sm1\<rparr>" using r(3) by (simp_all add: releasing_def reqs_rel_def)
  then show ?thesis using r(1,2,4) fate_sweep(1) [OF assms(3)]
    by (cases sm; cases sm1) (auto simp: destroy_blocks_def libsrpc_shm_gc_wakeup_def swept_def Let_def)
qed

lemma destroy_blocks_defer:
  assumes "tlsf_inv (sm_pool sm) bs" "sm_poolptr sm \<noteq> 0" "uid \<noteq> 0" "card (targets uid (heap_abs (sm_pool sm) bs)) < de_fuel env" "t \<noteq> 0"
    "card (user_blocks uid (heap_abs (sm_pool sm) bs)) \<le> 1024"
    "tr_num (trash_at g t) = 1024" "tr_uid (trash_at g t) = uid" "tr_cnt (trash_at g t) = 0"
  shows "\<exists>dd g' sm' bs'. destroy_blocks env uid \<lparr>dd_dc_count = 0, dd_trash = t\<rparr> cx g sm = Some (dd, g', sm') \<and> dd_trash dd = t \<and> swept uid sm sm' \<and>
    tlsf_inv (sm_pool sm') bs' \<and> heap_abs (sm_pool sm') bs' = fate uid True (heap_abs (sm_pool sm) bs) \<and>
    tr_uid (trash_at g' t) = uid \<and> distinct (trash_ptrs (trash_at g' t)) \<and> set (trash_ptrs (trash_at g' t)) = user_blocks uid (heap_abs (sm_pool sm) bs)"
proof -
  let ?dd = "\<lparr>dd_dc_count = 0, dd_trash = t\<rparr>" and ?v = "heap_abs (sm_pool sm) bs"
  have fin: "finite (user_blocks uid ?v)" by (rule finite_subset [OF _ finite_targets]) (auto simp: user_blocks_def targets_def)
  have "deferring (sm_poolptr sm) uid t sm {} (?dd, g, sm) ?v" using assms fin by (simp add: deferring_def reqs_rel_def trash_ptrs_def)
  from def.free_uid_blocks_run [OF assms(1,2) this assms(4), of "cx_caller cx" "de_realloc env"] obtain rc dd g1 sm1 c bs' S where
    r: "tlsf_free_uid_blocks (de_fuel env) (cx_caller cx) (sm_poolptr sm) uid (Some (proc_destructor_fn (de_realloc env) (sm_poolptr sm))) (?dd, g, sm) (sm_pool sm)
        = Some (rc, (dd, g1, sm1), c)" "tlsf_inv c bs'" "deferring (sm_poolptr sm) uid t sm S (dd, g1, sm1) (heap_abs c bs')"
      "heap_abs c bs' = def.sweep uid ?v" "\<forall>p k. heap_abs c bs' p = Some k \<longrightarrow> hit uid k \<longrightarrow> recorded t (dd, g1, sm1) p k" by (metis prod_cases3)
  have v: "heap_abs c bs' = fate uid True ?v" using r(4) fate_sweep(2) [OF assms(3)] by simp
  have ub: "user_blocks uid (heap_abs c bs') = user_blocks uid ?v"
    using assms(3) by (auto simp: v user_blocks_def fate_def hit_def split: option.splits if_splits)
  have "sm1 = sm\<lparr>sm_reqs := sm_reqs sm1\<rparr>" "dd_trash dd = t" "tr_uid (trash_at g1 t) = uid" "distinct (trash_ptrs (trash_at g1 t))"
    "set (trash_ptrs (trash_at g1 t)) \<subseteq> user_blocks uid ?v" using r(3) ub by (simp_all add: deferring_def reqs_rel_def)
  moreover have "user_blocks uid ?v \<subseteq> set (trash_ptrs (trash_at g1 t))"
    using r(5) unfolding ub [symmetric] by (auto simp: user_blocks_def recorded_def treated_def)
  ultimately show ?thesis using r(1,2) v
    by (cases sm; cases sm1) (auto simp: destroy_blocks_def libsrpc_shm_gc_wakeup_def swept_def Let_def)
qed

lemma proc_block_run:
  assumes "tlsf_inv (sm_pool sm) bs" "sm_poolptr sm \<noteq> 0" "libsrpc_shmem_get cx" "heap_abs (sm_pool sm) bs p = Some k"
  shows "\<exists>sm'. destroy_proc_block p cx sm = (set_tls 0 cx, sm') \<and> swept uid sm sm' \<and> tlsf_inv (sm_pool sm') bs \<and>
    heap_abs (sm_pool sm') bs = (heap_abs (sm_pool sm) bs)(p \<mapsto> k\<lparr>bk_dc := True\<rparr>)"
proof -
  have "running (sm_pool sm) bs" using assms(1) by (simp add: running_def tlsf_inv_def idle_def)
  from setdc_run [OF this assms(2,4)] obtain c where c: "tlsf_setdc (sm_poolptr sm) p (sm_pool sm) = (0, c)" "running c bs"
    "same_txn (sm_pool sm) c" "heap_abs c bs = (heap_abs (sm_pool sm) bs)(p \<mapsto> k\<lparr>bk_dc := True\<rparr>)" by blast
  have "tlsf_inv c bs" using c(2,3) assms(1) by (simp add: running_def tlsf_inv_def idle_def same_txn_def)
  moreover have "libsrpc_shmem_get (set_tls 0 cx)" using assms(3) by simp
  ultimately show ?thesis using c(1,4) assms(3)
    by (simp add: destroy_proc_block_def libsrpc_shmem_free_dc_def libsrpc_shm_gc_wakeup_def swept_def)
qed

section \<open>Properties\<close>

text \<open>What both theorems say of the tables: the process is off the list and no longer valid, its queue is empty, the
  other processes are as before, and in the registry its entries are cleared and the counters exact.\<close>

definition gone :: "u64 \<Rightarrow> u64 \<Rightarrow> u64 list \<Rightarrow> shmem \<Rightarrow> shmem \<Rightarrow> bool" where
  "gone cap p ps sm sm' \<longleftrightarrow> lists_ok sm' (remove1 p ps) \<and> \<not> libsrpc_proc_is_valid sm' p \<and> mq_ok cap (proc_queue (sm_procs sm' p)) [] \<and>
     (\<forall>q. q \<noteq> p \<longrightarrow> sm_procs sm' q = sm_procs sm q) \<and>
     (\<forall>i < sRPC_FNNUM. main_block (func_of sm' i) = cleared p (main_block (func_of sm i)) \<and>
        num_all (func_of sm' i) = of_nat (used (cleared p (entries sm i))))"

lemma left_registry:
  assumes "left cap p ps bs sm sm'" "registry_ok sm" "i < sRPC_FNNUM"
  shows "main_block (func_of sm' i) = cleared p (main_block (func_of sm i))" "num_all (func_of sm' i) = of_nat (used (cleared p (entries sm i)))"
proof -
  have e: "entries sm' i = cleared p (entries sm i)" "registry_ok sm'" using assms(1,3) by (simp_all add: left_def)
  have t: "take LIBSRPC_RFMB_SZ (entries x i) = main_block (func_of x i)" if "registry_ok x" for x
  proof -
    have "length (main_block (func_of x i)) = LIBSRPC_RFMB_SZ" using that assms(3) by (simp add: registry_ok_def)
    then show ?thesis unfolding entries_def by simp
  qed
  have "take LIBSRPC_RFMB_SZ (cleared p (entries sm i)) = cleared p (take LIBSRPC_RFMB_SZ (entries sm i))" by (simp add: cleared_def take_map)
  then show "main_block (func_of sm' i) = cleared p (main_block (func_of sm i))" using t [OF e(2)] t [OF assms(2)] e(1) by simp
  show "num_all (func_of sm' i) = of_nat (used (cleared p (entries sm i)))" using e assms(3) by (simp add: registry_ok_def)
qed

lemma left_gone:
  assumes "left cap p ps bs sm sm1" "registry_ok sm" "sm_procs sm' = sm_procs sm1" "sm_funcs sm' = sm_funcs sm1"
    "lists_ok sm' (remove1 p ps)"
  shows "gone cap p ps sm sm'"
  using assms left_registry [OF assms(1,2)] by (simp add: gone_def left_def func_of_def libsrpc_proc_is_valid_def LIBSRPC_PROC_SIGN_def)

lemma node_init_ok:
  assumes "node_head (node_at s t) = 0" "list_ok s h xs"
  shows "list_ok (libsrpc_list_node_init t s) h xs"
proof -
  note l = list_okD [OF assms(2)]
  have "t \<notin> set xs" using l(4,5) assms(1) by metis
  then have "lseg (libsrpc_list_node_init t s) (list_first (head_at s h)) xs"
    using l(1) by (intro lseg_cong [THEN iffD2, OF _ l(1)]) (auto simp: libsrpc_list_node_init_def)
  then show ?thesis using assms by (auto simp: list_ok_def libsrpc_list_node_init_def)
qed

lemma destroy_releases:
  assumes "segment_ok cap ps bs sm" "libsrpc_shmem_get cx" "find (\<lambda>q. proc_pid (sm_procs sm q) = pid) ps = Some p" "de_cap env = cap"
    "proc_uid (sm_procs sm p) = uid" "uid \<noteq> 0" "\<not> locked_uid sm (remove1 p ps) uid"
    "card (targets uid (heap_abs (sm_pool sm) bs)) < de_fuel env"
    "heap_abs (sm_pool sm) bs p = Some k" "bk_type k = LIBSRPC_SHMDT_PROC"
  shows "\<exists>cx' sm' bs'. libsrpc_proc_destroy env pid cx g sm = Some (0, cx', g, sm') \<and> libsrpc_shmem_get cx' \<and> gone cap p ps sm sm' \<and>
    tlsf_inv (sm_pool sm') bs' \<and> heap_abs (sm_pool sm') bs' = (fate uid False (heap_abs (sm_pool sm) bs))(p \<mapsto> k\<lparr>bk_dc := True\<rparr>)"
proof -
  have seg: "lists_ok sm ps" "\<forall>q \<in> set ps. req_head_of q \<noteq> sm_proc_head sm" "sm_poolptr sm \<noteq> 0" "registry_ok sm"
    using assms(1) by (simp_all add: segment_ok_def)
  have "p \<in> set ps" using assms(3) by (metis find_Some_iff nth_mem)
  from leave_run [OF assms(1,2) this assms(3,4)] obtain sm1 where l: "left cap p ps bs sm sm1"
    "libsrpc_proc_destroy env pid cx g sm = destroy_memory env p 0 cx g sm1" by blast
  have l1: "tlsf_inv (sm_pool sm1) bs" "heap_abs (sm_pool sm1) bs = heap_abs (sm_pool sm) bs" "sm_poolptr sm1 = sm_poolptr sm"
    "proc_uid (sm_procs sm1 p) = uid" "lists_ok sm1 (remove1 p ps)" using l(1) assms(5) by (simp_all add: left_def)
  have nl: "libsrpc_shmem_is_locked_uid uid cx sm1 = Some False"
    using is_locked_eq [OF l1(5) assms(2)] left_locked [OF l(1) seg(1,2)] assms(7) by simp
  from destroy_blocks_release [of sm1 bs uid env cx g] l1 seg(3) assms(6,8) obtain dd sm2 bs' where
    d: "destroy_blocks env uid \<lparr>dd_dc_count = 0, dd_trash = 0\<rparr> cx g sm1 = Some (dd, g, sm2)" "swept uid sm1 sm2" "tlsf_inv (sm_pool sm2) bs'"
      "heap_abs (sm_pool sm2) bs' = fate uid False (heap_abs (sm_pool sm) bs)" by auto
  have "special k" "marked k = k" using assms(10) type_codes by (simp_all add: special_type_def marked_def)
  then have p2: "heap_abs (sm_pool sm2) bs' p = Some k" using assms(9) by (simp add: d(4) fate_def)
  have s2: "sm_poolptr sm2 = sm_poolptr sm1" "sm_lists sm2 = sm_lists sm1" "sm_procs sm2 = sm_procs sm1" "sm_funcs sm2 = sm_funcs sm1" "sm_proc_head sm2 = sm_proc_head sm1"
    using d(2) by (cases sm1; cases sm2; simp add: swept_def)+
  from proc_block_run [OF d(3) _ assms(2) p2, of uid] s2(1) l1(3) seg(3) obtain sm' where
    b: "destroy_proc_block p cx sm2 = (set_tls 0 cx, sm')" "swept uid sm2 sm'" "tlsf_inv (sm_pool sm') bs'"
      "heap_abs (sm_pool sm') bs' = (heap_abs (sm_pool sm2) bs')(p \<mapsto> k\<lparr>bk_dc := True\<rparr>)" by auto
  have s': "sm_lists sm' = sm_lists sm1" "sm_procs sm' = sm_procs sm1" "sm_funcs sm' = sm_funcs sm1" "sm_proc_head sm' = sm_proc_head sm1"
    using b(2) s2 by (cases sm2; cases sm'; simp add: swept_def)+
  have "lists_ok sm' (remove1 p ps)" using l1(5) s' by (simp add: lists_ok_def)
  then have "gone cap p ps sm sm'" by (rule left_gone [OF l(1) seg(4) s'(2,3)])
  moreover have "libsrpc_proc_destroy env pid cx g sm = Some (0, set_tls 0 cx, g, sm')"
    unfolding l(2) destroy_memory_def l1(4) Let_def nl by (simp add: d(1) b(1))
  ultimately show ?thesis using b(3,4) d(4) assms(2) by auto
qed

text \<open>C36: Destroying a process whose memory nobody locks. \<^verbatim>\<open>libsrpc_proc_destroy\<close> returns 0; the process has left the list and the
  registry and its queue is empty; of the blocks it owned, the user's lose it as an owner and are
  freed with the last one, its requests are marked for the collector, and its own block is marked;
  every other block of the pool is as before and the allocator's invariant holds.\<close>

theorem proc_destroy_releases:
  assumes "segment_ok cap ps bs sm" "libsrpc_shmem_get cx" "find (\<lambda>q. proc_pid (sm_procs sm q) = pid) ps = Some p" "de_cap env = cap"
    "proc_uid (sm_procs sm p) = uid" "uid \<noteq> 0" "\<not> locked_uid sm (remove1 p ps) uid"
    "card (targets uid (heap_abs (sm_pool sm) bs)) < de_fuel env"
    "heap_abs (sm_pool sm) bs p = Some k" "bk_type k = LIBSRPC_SHMDT_PROC"
  shows "\<exists>cx' sm' bs'. libsrpc_proc_destroy env pid cx g sm = Some (0, cx', g, sm') \<and> gone cap p ps sm sm' \<and>
    tlsf_inv (sm_pool sm') bs' \<and> heap_abs (sm_pool sm') bs' = (fate uid False (heap_abs (sm_pool sm) bs))(p \<mapsto> k\<lparr>bk_dc := True\<rparr>)"
  using destroy_releases [OF assms] by blast

text \<open>C37: Destroying a process whose memory a running process locks. The process leaves the list and the registry all the same, but none
  of its user blocks is freed: with at most 1024 of them, \<^verbatim>\<open>libsrpc_proc_destroy\<close> returns 0 and leaves them
  allocated, each recorded exactly once in a trash node with the UID of the process, at the head of the
  collector's list; requests and the process itself are marked.\<close>

theorem proc_destroy_defers:
  assumes "segment_ok cap ps bs sm" "heads_apart sm ps" "libsrpc_shmem_get cx" "find (\<lambda>q. proc_pid (sm_procs sm q) = pid) ps = Some p" "de_cap env = cap"
    "proc_uid (sm_procs sm p) = uid" "uid \<noteq> 0" "locked_uid sm (remove1 p ps) uid"
    "card (targets uid (heap_abs (sm_pool sm) bs)) < de_fuel env" "card (user_blocks uid (heap_abs (sm_pool sm) bs)) \<le> 1024"
    "heap_abs (sm_pool sm) bs p = Some k" "bk_type k = LIBSRPC_SHMDT_PROC"
    "de_malloc env (TRASH_SZ + 1024 * 8) = t" "t \<noteq> 0" "t \<noteq> p" "node_head (node_at (sm_lists sm) t) = 0" "list_ok (sm_lists sm) (sm_gc_head sm) ts"
  shows "\<exists>cx' g' sm' bs'. libsrpc_proc_destroy env pid cx g sm = Some (0, cx', g', sm') \<and> gone cap p ps sm sm' \<and>
    list_ok (sm_lists sm') (sm_gc_head sm) (t # ts) \<and> tr_uid (trash_at g' t) = uid \<and>
    distinct (trash_ptrs (trash_at g' t)) \<and> set (trash_ptrs (trash_at g' t)) = user_blocks uid (heap_abs (sm_pool sm) bs) \<and>
    tlsf_inv (sm_pool sm') bs' \<and> heap_abs (sm_pool sm') bs' = (fate uid True (heap_abs (sm_pool sm) bs))(p \<mapsto> k\<lparr>bk_dc := True\<rparr>)"
proof -
  let ?v = "heap_abs (sm_pool sm) bs"
  have seg: "lists_ok sm ps" "\<forall>q \<in> set ps. req_head_of q \<noteq> sm_proc_head sm" "sm_poolptr sm \<noteq> 0" "registry_ok sm"
    using assms(1) by (simp_all add: segment_ok_def)
  have gc: "sm_gc_head sm \<noteq> sm_proc_head sm" "\<forall>q \<in> set ps. req_head_of q \<noteq> sm_gc_head sm" using assms(2) by (auto simp: heads_apart_def)
  have "p \<in> set ps" using assms(4) by (metis find_Some_iff nth_mem)
  from leave_run [OF assms(1,3) this assms(4,5)] obtain sm1 where l: "left cap p ps bs sm sm1"
    "libsrpc_proc_destroy env pid cx g sm = destroy_memory env p 0 cx g sm1" by blast
  have l1: "tlsf_inv (sm_pool sm1) bs" "heap_abs (sm_pool sm1) bs = ?v" "sm_poolptr sm1 = sm_poolptr sm"
    "proc_uid (sm_procs sm1 p) = uid" "lists_ok sm1 (remove1 p ps)" "sm_gc_head sm1 = sm_gc_head sm" "sm_proc_head sm1 = sm_proc_head sm"
    "node_head (node_at (sm_lists sm1) t) = 0" "list_ok (sm_lists sm1) (sm_gc_head sm) ts"
    using l(1) assms(6,15-17) gc(1) by (simp_all add: left_def)
  have lk: "libsrpc_shmem_is_locked_uid uid cx sm1 = Some True"
    using is_locked_eq [OF l1(5) assms(3)] left_locked [OF l(1) seg(1,2)] assms(8) by simp
  define ls where "ls = libsrpc_list_node_init t (sm_lists sm1)"
  define g1 where "g1 = put_trash t (\<lambda>x. x\<lparr>tr_uid := uid\<rparr>) (put_trash t (\<lambda>x. x\<lparr>tr_num := 1024, tr_cnt := 0, tr_uid := 0\<rparr>) g)"
  have n: "libsrpc_shm_trash_create_node (de_malloc env) 1024 g (sm_lists sm1) =
      (t, put_trash t (\<lambda>x. x\<lparr>tr_num := 1024, tr_cnt := 0, tr_uid := 0\<rparr>) g, ls)"
    using assms(13,14) by (simp add: libsrpc_shm_trash_create_node_def ls_def)
  let ?sm = "sm1\<lparr>sm_lists := ls\<rparr>"
  from destroy_blocks_defer [of ?sm bs uid env t g1 cx] l1 seg(3) assms(7,9,10,14) obtain dd g' sm2 bs' where
    d: "destroy_blocks env uid \<lparr>dd_dc_count = 0, dd_trash = t\<rparr> cx g1 ?sm = Some (dd, g', sm2)" "dd_trash dd = t" "swept uid ?sm sm2"
      "tlsf_inv (sm_pool sm2) bs'" "heap_abs (sm_pool sm2) bs' = fate uid True ?v" "tr_uid (trash_at g' t) = uid"
      "distinct (trash_ptrs (trash_at g' t))" "set (trash_ptrs (trash_at g' t)) = user_blocks uid ?v"
    by (auto simp: g1_def put_trash_def)
  have s2: "sm_poolptr sm2 = sm_poolptr sm1" "sm_lists sm2 = ls" "sm_procs sm2 = sm_procs sm1" "sm_funcs sm2 = sm_funcs sm1"
      "sm_proc_head sm2 = sm_proc_head sm1" "sm_gc_head sm2 = sm_gc_head sm1"
    using d(3) by (cases sm1; cases sm2; simp add: swept_def)+
  note ini = node_init_ok [OF l1(8), folded ls_def]
  have "node_head (node_at ls t) = 0" using assms(14) by (simp add: ls_def libsrpc_list_node_init_def)
  then obtain ls' where ls': "libsrpc_list_push_front (sm_gc_head sm) t ls = (LIBSRPC_LIST_OK, ls')" "list_ok ls' (sm_gc_head sm) (t # ts)"
    "\<And>h ys. h \<noteq> sm_gc_head sm \<Longrightarrow> list_ok ls h ys \<Longrightarrow> list_ok ls' h ys"
    using push_front_ok [OF ini [OF l1(9)] assms(14)] by metis
  define sm3 where "sm3 = sm2\<lparr>sm_lists := ls'\<rparr>"
  have a: "libsrpc_shm_trash_add_node t cx sm2 = (0, sm3)"
    using ls'(1) assms(3,14) s2(2,6) l1(6) by (simp add: libsrpc_shm_trash_add_node_def sm3_def LIBSRPC_LIST_OK_def)
  have "special k" "marked k = k" using assms(12) type_codes by (simp_all add: special_type_def marked_def)
  then have p2: "heap_abs (sm_pool sm3) bs' p = Some k" using assms(11) by (simp add: d(5) fate_def sm3_def)
  have i3: "tlsf_inv (sm_pool sm3) bs'" "sm_poolptr sm3 \<noteq> 0" using d(4) s2(1) l1(3) seg(3) by (simp_all add: sm3_def)
  from proc_block_run [OF i3 assms(3) p2, of uid] obtain sm' where
    b: "destroy_proc_block p cx sm3 = (set_tls 0 cx, sm')" "swept uid sm3 sm'" "tlsf_inv (sm_pool sm') bs'"
      "heap_abs (sm_pool sm') bs' = (heap_abs (sm_pool sm3) bs')(p \<mapsto> k\<lparr>bk_dc := True\<rparr>)" by blast
  have s': "sm_lists sm' = ls'" "sm_procs sm' = sm_procs sm1" "sm_funcs sm' = sm_funcs sm1" "sm_proc_head sm' = sm_proc_head sm1"
    using b(2) s2 by (cases sm2; cases sm'; simp add: swept_def sm3_def)+
  have "\<exists>rs. list_ok ls' (req_head_of q) rs" if "q \<in> set (remove1 p ps)" for q
    using l1(5) ini ls'(3) gc(2) that set_remove1_subset [of p ps] unfolding lists_ok_def by (metis subsetD)
  moreover have "list_ok ls' (sm_proc_head sm) (remove1 p ps)" using l1(5,7) ini ls'(3) gc(1) by (simp add: lists_ok_def)
  ultimately have "lists_ok sm' (remove1 p ps)" using s' l1(7) by (simp add: lists_ok_def)
  then have "gone cap p ps sm sm'" by (rule left_gone [OF l(1) seg(4) s'(2,3)])
  moreover have "libsrpc_proc_destroy env pid cx g sm = Some (0, set_tls 0 cx, g', sm')"
    unfolding l(2) destroy_memory_def l1(4) Let_def lk using assms(14) by (simp add: n d(1,2) a b(1) flip: g1_def)
  ultimately show ?thesis using b(3,4) d(5-8) ls'(2) s'(1) by (auto simp: sm3_def)
qed

text \<open>A pool with the block of \<open>pool_one\<close>, a request of process 5, and the block of that process.\<close>

lemma pool_two:
  obtains p c bs k j where "tlsf_inv c bs" "heap_abs c bs = [fst pool_one \<mapsto> j, p \<mapsto> k]" "p \<noteq> fst pool_one" "p \<noteq> 0" "aligned64 p" "6784 \<le> unat p"
    "bk_type k = LIBSRPC_SHMDT_PROC" "bk_owners k = 1 # replicate 11 0" "bk_type j = LIBSRPC_SHMDT_REQUEST" "bk_owners j = 5 # replicate 11 0"
proof -
  obtain bs where b: "tlsf_inv (snd pool_one) bs" "alloc_effect (new_pool 8192) [10816] 64 5 3 (fst pool_one) (snd pool_one) bs"
    "malloced (new_pool 8192) [10816] 10816 128 5 3 (snd pool_one) bs" "same_geom (new_pool 8192) (snd pool_one)" by (rule pool_one_state)
  from pool_one_rest [OF b(1,3,4)] have ex: "\<exists>x \<in> set bs. block_is_free (snd pool_one) x \<and> request_to_block_size 64 \<le> block_size (snd pool_one) x"
    by (metis requests_concrete(1))
  have nz: "(4096 :: u64) \<noteq> 0" "(1 :: u16) \<noteq> 0" "(64 :: u64) \<noteq> 0" "unat (64 :: u64) \<le> 896" by simp_all
  from malloc_small_cases [OF b(1) nz, of me 1] ex obtain p c bs' where q: "tlsf_inv c bs'" "alloc_effect (snd pool_one) bs 64 1 1 p c bs'" by auto
  obtain n where n: "heap_abs (snd pool_one) bs = [fst pool_one \<mapsto> \<lparr>bk_size = n, bk_owners = 5 # replicate 11 0, bk_type = 3, bk_dc = False\<rparr>]"
    using b(2) by (auto simp: alloc_effect_def new_pool_inv [OF pool_args_concrete(2)])
  from q(2) obtain m where m: "heap_abs c bs' = (heap_abs (snd pool_one) bs)(p \<mapsto> \<lparr>bk_size = m, bk_owners = 1 # replicate 11 0, bk_type = 1, bk_dc = False\<rparr>)"
    "64 \<le> unat m" by (auto simp: alloc_effect_def)
  have pq: "p \<noteq> fst pool_one" "p \<noteq> 0" "aligned64 p" using q(2) n by (auto simp: alloc_effect_def)
  have "heap_abs c bs' p = Some \<lparr>bk_size = m, bk_owners = 1 # replicate 11 0, bk_type = 1, bk_dc = False\<rparr>" by (simp add: m(1))
  then obtain b where b': "p = ptr_from_block b" "b \<in> set bs'" by (rule heap_abs_Some)
  have h: "heap_ok c bs' (free_blocks c bs') {}" using q(1) by (simp add: tlsf_inv_def heap_inv_def)
  note mb = chain_member [OF heap_okD(2) [OF h] b'(2)] and e = unat_lt_64 [of "get_heap_end c"]
  have "unat p = unat b + 64" using unat_add_nowrap [of b 64] mb(3,6) e by (simp add: b'(1) ptr_from_block_def HEADER_SIZE_def)
  moreover have "6720 \<le> unat b" using mb(5) heap_okD(1) [OF h] by (simp add: geom_def)
  ultimately have "6784 \<le> unat p" by simp
  then show thesis using q(1) m(1) pq n by (intro that [of c bs' _ p]) (auto simp: shm_types)
qed

definition doomed :: "u64 \<Rightarrow> tlsf_ctrl \<Rightarrow> u16 \<Rightarrow> shmem" where
  "doomed p c lk = empty_registry\<lparr>sm_pool := c, sm_lists := snd (libsrpc_list_push_front 512 p two_lists),
     sm_procs := (\<lambda>q. (run_proc (if q = p then 5 else 2))\<lparr>proc_pid := (if q = p then 7 else 8), proc_queue := lf_mpmc_queue_init 2 (proc_queue some_proc)\<rparr>),
     sm_reqs := \<lambda>_. some_req\<lparr>gc_lock_uid := [lk, 0, 0, 0]\<rparr>\<rparr>"

lemma doomed_ok:
  assumes "tlsf_inv c bs" "p \<noteq> 0" "aligned64 p" "6784 \<le> unat p"
  shows "segment_ok 2 [p, 1024] bs (doomed p c lk)" "heads_apart (doomed p c lk) [p, 1024]" "list_ok (sm_lists (doomed p c lk)) 528 []"
    "reqs_of (doomed p c lk) 1024 = [64]" "node_head (node_at (sm_lists (doomed p c lk)) 40976) = 0" "p \<noteq> 40976"
proof -
  let ?sm = "doomed p c lk"
  have m: "unat p mod 64 = 0" using assms(3) by (simp add: aligned64_mod)
  have p64: "p \<noteq> 64" "p \<noteq> 1024" using assms(4) by auto
  have off: "req_head_of p = h \<Longrightarrow> p = h - 72" for h by (auto simp: req_head_of_def)
  have ne: "req_head_of p \<noteq> 0" "req_head_of p \<noteq> 512" "req_head_of p \<noteq> 528" "req_head_of p \<noteq> 1096"
    using off [of 0] off [of 512] off [of 528] off [of 1096] m p64(2) by auto
  have hd: "node_head (node_at two_lists x) = (if x = 1024 then 512 else if x = 64 then 1096 else 0)" for x
    by (auto simp: two_lists_def libsrpc_list_push_front_def Let_def empty_store_def put_node_def put_head_def)
  have fs: "list_first (head_at two_lists h) = (if h = 512 then 1024 else if h = 1096 then 64 else 0)" for h
    by (auto simp: two_lists_def libsrpc_list_push_front_def Let_def empty_store_def put_node_def put_head_def)
  have e: "list_ok two_lists (req_head_of p) []" using ne by (simp add: list_ok_def hd fs)
  have "node_head (node_at two_lists p) = 0" using p64 by (simp add: hd)
  from push_front_ok [OF two_lists_ok(1) assms(2) this] obtain ls where ls: "libsrpc_list_push_front 512 p two_lists = (LIBSRPC_LIST_OK, ls)"
    "list_ok ls 512 [p, 1024]" "\<And>g ys. g \<noteq> 512 \<Longrightarrow> list_ok two_lists g ys \<Longrightarrow> list_ok ls g ys"
    "\<And>x. x \<noteq> p \<Longrightarrow> node_head (node_at ls x) = node_head (node_at two_lists x)" by metis
  have l: "list_ok ls 1096 [64]" "list_ok ls 528 []" "list_ok ls (req_head_of p) []"
    using ls(3) [OF _ two_lists_ok(2)] ls(3) [OF _ two_lists_gc] ls(3) [OF ne(2) e] by simp_all
  have g: "sm_lists ?sm = ls" "sm_proc_head ?sm = 512" "sm_gc_head ?sm = 528" "sm_pool ?sm = c" "sm_poolptr ?sm = 4096" "sm_funcs ?sm = sm_funcs empty_registry"
    using ls(1) by (simp_all add: doomed_def empty_registry_def some_shm_def)
  have h: "req_head_of 1024 = 1096" by (simp add: req_head_of_def)
  have lo: "lists_ok ?sm [p, 1024]" using ls(2) l by (auto simp: lists_ok_def g h)
  have fn: "func_of ?sm i = \<lparr>num_all = 0, ext_block = 0, main_block = replicate 8 0\<rparr>" if "i < sRPC_FNNUM" for i
    using empty_registry_func [OF that] g(6) by (simp add: func_of_def)
  have "used (replicate 8 0) = 0" by (simp add: used_def)
  then have "registry_ok ?sm" using empty_registry_ok(1) fn by (simp add: registry_ok_def exts_apart_def entries_def g(6) LIBSRPC_RFMB_SZ_def)
  moreover have "exts_live ?sm bs" by (simp add: exts_live_def fn)
  moreover have "mq_ok 2 (proc_queue (sm_procs ?sm q)) []" for q using init_rep [OF good_cap_2] good_cap_2 by (simp add: mq_ok_def doomed_def)
  ultimately show "segment_ok 2 [p, 1024] bs ?sm" using lo assms(1) ne(2) unfolding segment_ok_def by (auto simp: g h)
  show "heads_apart ?sm [p, 1024]" using ne(3) by (simp add: heads_apart_def g h)
  show "list_ok (sm_lists ?sm) 528 []" using l(2) by (simp add: g)
  show p: "p \<noteq> 40976" using m by auto
  show "node_head (node_at (sm_lists ?sm) 40976) = 0" using ls(4) [of 40976] p by (simp add: g hd)
  show "reqs_of ?sm 1024 = [64]" using spin.foreach_members [OF l(1)] by (simp add: reqs_of_def g h)
qed

definition doom_env :: destroy_env where
  "doom_env = \<lparr>de_cap = 2, de_fuel = 3, de_malloc = \<lambda>_. 40976, de_realloc = \<lambda>_ _. 0\<rparr>"

lemma doomed_uid:
  assumes "reqs_of (doomed p c lk) 1024 = [64]" "p \<noteq> 1024"
  shows "locked_uid (doomed p c lk) (remove1 p [p, 1024]) 5 \<longleftrightarrow> lk = 5"
proof -
  have "libsrpc_proc_is_valid (doomed p c lk) 1024" "sm_reqs (doomed p c lk) 64 = some_req\<lparr>gc_lock_uid := [lk, 0, 0, 0]\<rparr>"
    by (simp_all add: doomed_def libsrpc_proc_is_valid_def run_proc_def)
  moreover have "\<not> libsrpc_req_is_corrupted 64 None (doomed p c lk)"
    by (simp add: libsrpc_req_is_corrupted_def req_corrupted_def doomed_def some_req_def req_size_def req_control_def REQ_SZ_def)
  ultimately show ?thesis using assms by (simp add: locked_uid_def libsrpc_shmem_check_uid_lock_def srpc_codes)
qed

lemma doomed_fields:
  assumes "6784 \<le> unat p"
  shows "libsrpc_shmem_get some_cx" "sm_pool (doomed p c lk) = c" "proc_uid (sm_procs (doomed p c lk) p) = 5" "de_cap doom_env = 2" "p \<noteq> 1024"
    "find (\<lambda>q. proc_pid (sm_procs (doomed p c lk) q) = 7) [p, 1024] = Some p" "sm_gc_head (doomed p c lk) = 528"
  using assms by (auto simp: some_cx_def libsrpc_shmem_get_def doomed_def empty_registry_def some_shm_def run_proc_def doom_env_def)

lemma doomed_targets:
  assumes "heap_abs c bs = [fst pool_one \<mapsto> j, p \<mapsto> k]" "bk_owners k = 1 # replicate 11 0" "bk_type j = LIBSRPC_SHMDT_REQUEST"
  shows "card (targets 5 (heap_abs (sm_pool (doomed p c lk)) bs)) < de_fuel doom_env" "user_blocks 5 (heap_abs (sm_pool (doomed p c lk)) bs) = {}"
proof -
  have c: "sm_pool (doomed p c lk) = c" by (simp add: doomed_def)
  have "targets 5 (heap_abs c bs) \<subseteq> {fst pool_one}" using assms(1,2) by (auto simp: targets_def hit_def split: if_splits)
  from card_mono [OF _ this] show "card (targets 5 (heap_abs (sm_pool (doomed p c lk)) bs)) < de_fuel doom_env" by (simp add: doom_env_def c)
  show "user_blocks 5 (heap_abs (sm_pool (doomed p c lk)) bs) = {}"
    using assms by (auto simp: c user_blocks_def hit_def special_type_def split: if_splits)
qed

lemma proc_destroy_releases_witness:
  "\<exists>p c cx' sm' bs' j. libsrpc_proc_destroy doom_env 7 some_cx some_gc (doomed p c 0) = Some (0, cx', some_gc, sm') \<and>
     lists_ok sm' [1024] \<and> tlsf_inv (sm_pool sm') bs' \<and> heap_abs (sm_pool sm') bs' (fst pool_one) = Some j \<and> bk_dc j"
proof -
  obtain p c bs k j where a: "tlsf_inv c bs" "heap_abs c bs = [fst pool_one \<mapsto> j, p \<mapsto> k]" "p \<noteq> fst pool_one" "p \<noteq> 0" "aligned64 p" "6784 \<le> unat p"
    "bk_type k = LIBSRPC_SHMDT_PROC" "bk_owners k = 1 # replicate 11 0" "bk_type j = LIBSRPC_SHMDT_REQUEST" "bk_owners j = 5 # replicate 11 0"
    by (rule pool_two)
  note d = doomed_ok [OF a(1,4-6)] and g = doomed_fields [OF a(6)]
  have nl: "\<not> locked_uid (doomed p c 0) (remove1 p [p, 1024]) 5" using doomed_uid [OF d(4) g(5)] by simp
  note t = doomed_targets(1) [OF a(2,8,9), where lk = 0]
  have k: "heap_abs (sm_pool (doomed p c 0)) bs p = Some k" using a(2) g(2) by simp
  from proc_destroy_releases [OF d(1) g(1,6,4,3) _ nl t k a(7), of some_gc] obtain cx' sm' bs' where
    r: "libsrpc_proc_destroy doom_env 7 some_cx some_gc (doomed p c 0) = Some (0, cx', some_gc, sm')" "gone 2 p [p, 1024] (doomed p c 0) sm'"
      "tlsf_inv (sm_pool sm') bs'" "heap_abs (sm_pool sm') bs' = (fate 5 False (heap_abs c bs))(p \<mapsto> k\<lparr>bk_dc := True\<rparr>)" by (auto simp: g(2))
  have "heap_abs (sm_pool sm') bs' (fst pool_one) = Some (marked j)" "bk_dc (marked j)"
    using a(2,3,9,10) by (auto simp: r(4) fate_def special_type_def marked_def)
  moreover have "lists_ok sm' [1024]" using r(2) by (simp add: gone_def)
  ultimately show ?thesis using r(1,3) by metis
qed

lemma proc_destroy_defers_witness:
  "\<exists>p c cx' g' sm' bs' j. libsrpc_proc_destroy doom_env 7 some_cx some_gc (doomed p c 5) = Some (0, cx', g', sm') \<and>
     list_ok (sm_lists sm') 528 [40976] \<and> tr_uid (trash_at g' 40976) = 5 \<and> tlsf_inv (sm_pool sm') bs' \<and>
     heap_abs (sm_pool sm') bs' (fst pool_one) = Some j \<and> bk_dc j"
proof -
  obtain p c bs k j where a: "tlsf_inv c bs" "heap_abs c bs = [fst pool_one \<mapsto> j, p \<mapsto> k]" "p \<noteq> fst pool_one" "p \<noteq> 0" "aligned64 p" "6784 \<le> unat p"
    "bk_type k = LIBSRPC_SHMDT_PROC" "bk_owners k = 1 # replicate 11 0" "bk_type j = LIBSRPC_SHMDT_REQUEST" "bk_owners j = 5 # replicate 11 0"
    by (rule pool_two)
  note d = doomed_ok [OF a(1,4-6)] and g = doomed_fields [OF a(6)]
  have lk: "locked_uid (doomed p c 5) (remove1 p [p, 1024]) 5" using doomed_uid [OF d(4) g(5)] by simp
  note t = doomed_targets [OF a(2,8,9), where lk = 5]
  have k: "heap_abs (sm_pool (doomed p c 5)) bs p = Some k" using a(2) g(2) by simp
  have u: "card (user_blocks 5 (heap_abs (sm_pool (doomed p c 5)) bs)) \<le> 1024" using t(2) by simp
  have m: "de_malloc doom_env (TRASH_SZ + 1024 * 8) = 40976" "(40976 :: u64) \<noteq> 0" "40976 \<noteq> p" "(5 :: u16) \<noteq> 0" using d(6) by (auto simp: doom_env_def)
  have l: "list_ok (sm_lists (doomed p c 5)) (sm_gc_head (doomed p c 5)) []" using d(3) g(7) by simp
  from proc_destroy_defers [OF d(1,2) g(1,6,4,3) m(4) lk t(1) u k a(7) m(1-3) d(5) l, of some_gc] obtain cx' g' sm' bs' where
    r: "libsrpc_proc_destroy doom_env 7 some_cx some_gc (doomed p c 5) = Some (0, cx', g', sm')" "list_ok (sm_lists sm') 528 [40976]"
      "tr_uid (trash_at g' 40976) = 5" "tlsf_inv (sm_pool sm') bs'" "heap_abs (sm_pool sm') bs' = (fate 5 True (heap_abs c bs))(p \<mapsto> k\<lparr>bk_dc := True\<rparr>)"
    by (auto simp: g(2,7))
  have "heap_abs (sm_pool sm') bs' (fst pool_one) = Some (marked j)" "bk_dc (marked j)"
    using a(2,3,9,10) by (auto simp: r(5) fate_def special_type_def marked_def)
  then show ?thesis using r(1-4) by metis
qed

end
