(* ===== verification/Srpc_Message.thy ===== *)
theory Srpc_Message
  imports Srpc_Proc
begin

text \<open>
  The first message of a client to the daemon (\<^verbatim>\<open>regfn_msg_t\<close> in \<^verbatim>\<open>src/libsrpc_unix_socket.c\<close>) and the two loops
  that move it through a stream socket, which may cut it anywhere. The results of \<^verbatim>\<open>send\<close> and \<^verbatim>\<open>read\<close> are
  lists, one answer per call; a list that ends before the loop does gives \<open>None\<close> (the call waits).
\<close>

section \<open>Numbers as bytes\<close>

text \<open>Little-endian, as the structure lies in memory.\<close>

fun le_bytes :: "nat \<Rightarrow> 'a::len word \<Rightarrow> u8 list" where
  "le_bytes 0 w = []"
| "le_bytes (Suc n) w = ucast w # le_bytes n (drop_bit 8 w)"

fun from_le :: "u8 list \<Rightarrow> 'a::len word" where
  "from_le [] = 0"
| "from_le (b # bs) = ucast b OR push_bit 8 (from_le bs)"

lemma length_le_bytes [simp]: "length (le_bytes n w) = n"
  by (induction n arbitrary: w) simp_all

lemma from_le_bytes: "from_le (le_bytes n w) = take_bit (8 * n) w"
proof (induction n arbitrary: w)
  case (Suc n)
  show ?case
    by (rule bit_word_eqI) (auto simp: Suc bit_or_iff bit_ucast_iff bit_push_bit_iff bit_take_bit_iff bit_drop_bit_eq bit_imp_le_length)
qed simp

section \<open>The loops\<close>

text \<open>An answer of \<^verbatim>\<open>send\<close>: \<open>Inl e\<close> it failed with \<^verbatim>\<open>errno\<close> \<open>e\<close>, \<open>Inr w\<close> it took \<open>w\<close> bytes. The result is the code and
  the bytes that were taken.\<close>

fun send_full :: "(int + nat) list \<Rightarrow> u8 list \<Rightarrow> (int \<times> u8 list) option" where
  "send_full ws [] = Some (0, [])"
| "send_full [] buf = None"
| "send_full (Inl e # ws) buf = (if e = EINTR then send_full ws buf else Some (- 1, []))"
| "send_full (Inr w # ws) buf = map_option (apsnd (append (take w buf))) (send_full ws (drop w buf))"

text \<open>An answer of \<^verbatim>\<open>read\<close>: an error, or the bytes it delivered (none: the end of the stream). \<open>len\<close> bytes are missing;
  the result is the code and the bytes stored.\<close>

fun read_full :: "(int + u8 list) list \<Rightarrow> nat \<Rightarrow> (int \<times> u8 list) option" where
  "read_full rs 0 = Some (0, [])"
| "read_full [] len = None"
| "read_full (Inl e # rs) len = (if e = EINTR then read_full rs len else Some (- 1, []))"
| "read_full (Inr bs # rs) len = (if bs = [] then Some (- 1, []) else map_option (apsnd (append bs)) (read_full rs (len - length bs)))"

section \<open>The message\<close>

record regfn_msg =
  rm_size :: u32
  rm_sign :: "u8 list"
  rm_bmp :: u64

definition REGFN_MSG_SZ :: nat where "REGFN_MSG_SZ = 48"

text \<open>Four bytes of padding align the bitmap.\<close>

definition msg_bytes :: "regfn_msg \<Rightarrow> u8 list" where
  "msg_bytes m = le_bytes 4 (rm_size m) @ rm_sign m @ replicate 4 0 @ le_bytes 8 (rm_bmp m)"

definition msg_of_bytes :: "u8 list \<Rightarrow> regfn_msg" where
  "msg_of_bytes bs = \<lparr>rm_size = from_le (take 4 bs), rm_sign = take 32 (drop 4 bs), rm_bmp = from_le (take 8 (drop 40 bs))\<rparr>"

text \<open>\<^verbatim>\<open>strncpy\<close> into an array of 32 zero bytes, and the comparison of two strings in their first \<open>n\<close> bytes. A
  string is given without its final zero.\<close>

definition strncpy32 :: "u8 list \<Rightarrow> nat \<Rightarrow> u8 list" where
  "strncpy32 s n = (let t = take n s in t @ replicate (32 - length t) 0)"

definition strncmp_eq :: "nat \<Rightarrow> u8 list \<Rightarrow> u8 list \<Rightarrow> bool" where
  "strncmp_eq n s t \<longleftrightarrow> takeWhile (\<lambda>c. c \<noteq> 0) (take n s) = takeWhile (\<lambda>c. c \<noteq> 0) (take n t)"

definition send_msg_regfn :: "(nat \<Rightarrow> bool) \<Rightarrow> u8 list \<Rightarrow> (int + nat) list \<Rightarrow> (int \<times> u8 list) option" where
  "send_msg_regfn loc daemon_name ws =
     send_full ws (msg_bytes \<lparr>rm_size = of_nat REGFN_MSG_SZ, rm_sign = strncpy32 daemon_name 31, rm_bmp = libsrpc_bmp_func_set loc 0\<rparr>)"

definition read_msg_regfn :: "u8 list \<Rightarrow> (int + u8 list) list \<Rightarrow> int \<Rightarrow> srpc_ctx \<Rightarrow> shmem \<Rightarrow> (int \<times> srpc_ctx \<times> shmem) option" where
  "read_msg_regfn daemon_name rs pid cx sm =
     (case libsrpc_proc_get pid cx sm of
        None \<Rightarrow> None
      | Some (proc, cx1) \<Rightarrow>
          if proc = 0 then Some (- 1, cx1, sm)
          else case read_full rs REGFN_MSG_SZ of
              None \<Rightarrow> None
            | Some (rc, bs) \<Rightarrow>
                let msg = msg_of_bytes bs in
                if rc < 0 then Some (- 1, cx1, sm)
                else if rm_size msg \<noteq> of_nat REGFN_MSG_SZ then Some (- 1, cx1, sm)
                else if \<not> strncmp_eq 32 (rm_sign msg) daemon_name then Some (- 1, cx1, sm)
                else map_option (\<lambda>(_, cx2, sm2). (0, cx2, sm2)) (libsrpc_reg_func_form_bmp proc (rm_bmp msg) cx1 sm))"

section \<open>The stream\<close>

text \<open>Answers that do not break the connection, and what they deliver.\<close>

definition steady :: "(int + 'a) list \<Rightarrow> ('a \<Rightarrow> bool) \<Rightarrow> bool" where
  "steady rs ok \<longleftrightarrow> (\<forall>r \<in> set rs. case r of Inl e \<Rightarrow> e = EINTR | Inr x \<Rightarrow> ok x)"

fun delivered :: "(int + u8 list) list \<Rightarrow> u8 list" where
  "delivered [] = []"
| "delivered (Inl e # rs) = delivered rs"
| "delivered (Inr bs # rs) = bs @ delivered rs"

lemma read_full_delivers: "steady rs (\<lambda>bs. bs \<noteq> []) \<Longrightarrow> delivered rs = bs \<Longrightarrow> read_full rs (length bs) = Some (0, bs)"
proof (induction rs arbitrary: bs)
  case (Cons r rs)
  have st: "steady rs (\<lambda>bs. bs \<noteq> [])" using Cons.prems(1) by (simp add: steady_def)
  show ?case
  proof (cases r)
    case (Inl e)
    then have "e = EINTR" "delivered rs = bs" using Cons.prems by (simp_all add: steady_def)
    then show ?thesis using Cons.IH [OF st, of bs] Inl by (cases bs) simp_all
  next
    case (Inr cs)
    then have c: "cs \<noteq> []" "bs = cs @ delivered rs" using Cons.prems by (simp_all add: steady_def)
    then show ?thesis using Cons.IH [OF st refl] Inr by (cases cs) simp_all
  qed
qed simp

text \<open>The bytes the socket takes; once they are enough, the sending loop returns with the whole buffer sent.\<close>

fun taken :: "(int + nat) list \<Rightarrow> nat" where
  "taken [] = 0"
| "taken (Inl e # ws) = taken ws"
| "taken (Inr w # ws) = w + taken ws"

lemma send_full_returns: "steady ws (\<lambda>_. True) \<Longrightarrow> length buf \<le> taken ws \<Longrightarrow> send_full ws buf = Some (0, buf)"
proof (induction ws buf rule: send_full.induct)
  case (4 w ws c buf)
  then show ?case by (auto simp: steady_def)
qed (auto simp: steady_def)

lemma msg_roundtrip:
  assumes "length (rm_sign m) = 32"
  shows "length (msg_bytes m) = REGFN_MSG_SZ" "msg_of_bytes (msg_bytes m) = m"
  using assms by (simp_all add: msg_bytes_def REGFN_MSG_SZ_def msg_of_bytes_def from_le_bytes take_bit_word_eq_self)

lemma strncpy32_sign:
  assumes "0 \<notin> set name"
  shows "length (strncpy32 name 31) = 32" "strncmp_eq 32 (strncpy32 name 31) name \<longleftrightarrow> length name < 32"
proof -
  show l: "length (strncpy32 name 31) = 32" by (simp add: strncpy32_def Let_def)
  have a: "takeWhile (\<lambda>c. c \<noteq> 0) (take 32 name) = take 32 name" using assms by (auto simp: takeWhile_eq_all_conv dest: in_set_takeD)
  have b: "takeWhile (\<lambda>c. c \<noteq> 0) (take 32 (strncpy32 name 31)) = take 31 name"
  proof -
    have "takeWhile (\<lambda>c. c \<noteq> 0) (take 31 name @ replicate (32 - length (take 31 name)) 0) = take 31 name"
      using assms by (subst takeWhile_append2) (auto dest: in_set_takeD)
    then show ?thesis using l by (simp add: strncpy32_def Let_def)
  qed
  show "strncmp_eq 32 (strncpy32 name 31) name \<longleftrightarrow> length name < 32"
    unfolding strncmp_eq_def a b by (auto dest: arg_cong [of _ _ length])
qed

section \<open>Properties\<close>

text \<open>C40: The registration message arrives as it was sent. However the stream cuts it and whichever calls are interrupted by a
  signal, the sending loop returns 0 once the socket took all 48 bytes, and the daemon then
  registers the process with exactly the bitmap of the functions the client defines, provided the
  name of the daemon has fewer than 32 characters; a longer name is always refused.\<close>

theorem regfn_message_roundtrip:
  assumes "0 \<notin> set name" "steady ws (\<lambda>_. True)" "REGFN_MSG_SZ \<le> taken ws" "libsrpc_proc_get pid cx sm = Some (proc, cx)" "proc \<noteq> 0"
    "libsrpc_reg_func_form_bmp proc (libsrpc_bmp_func_set loc 0) cx sm = Some (rc, cx', sm')"
  shows "\<exists>bytes. send_msg_regfn loc name ws = Some (0, bytes) \<and>
    (\<forall>rs. steady rs (\<lambda>bs. bs \<noteq> []) \<and> delivered rs = bytes \<longrightarrow>
       read_msg_regfn name rs pid cx sm = Some (if length name < 32 then (0, cx', sm') else (- 1, cx, sm)))"
proof -
  let ?m = "\<lparr>rm_size = of_nat REGFN_MSG_SZ, rm_sign = strncpy32 name 31, rm_bmp = libsrpc_bmp_func_set loc 0\<rparr>"
  note m = msg_roundtrip [of ?m, simplified, OF strncpy32_sign(1) [OF assms(1)]]
  have "send_msg_regfn loc name ws = Some (0, msg_bytes ?m)"
    unfolding send_msg_regfn_def by (rule send_full_returns [OF assms(2)]) (simp add: m(1) assms(3))
  moreover have "read_msg_regfn name rs pid cx sm = Some (if length name < 32 then (0, cx', sm') else (- 1, cx, sm))"
    if "steady rs (\<lambda>bs. bs \<noteq> [])" "delivered rs = msg_bytes ?m" for rs
    using read_full_delivers [OF that] assms(4-6) strncpy32_sign(2) [OF assms(1)] by (simp add: read_msg_regfn_def m)
  ultimately show ?thesis by blast
qed

lemma call_registers:
  obtains cx sm where "libsrpc_reg_func_form_bmp 1024 (libsrpc_bmp_func_set (\<lambda>i. i = 2) 0) call_cx call_shm = Some (0, cx, sm)"
    "1024 \<in> set (main_block (sm_funcs sm ! 2))"
proof -
  have b: "libsrpc_bmp_func_set (\<lambda>i. i = 2) 0 = 4" by (simp add: libsrpc_bmp_func_set_def sRPC_FNNUM_def upt_rec)
  have f: "sm_funcs call_shm ! Suc (Suc 0) = \<lparr>num_all = 1, ext_block = 0, main_block = [2048, 0, 0, 0, 0, 0, 0, 0]\<rparr>"
    using call_shm_func by (simp add: numeral_2_eq_2)
  have "libsrpc_reg_func_form_bmp 1024 4 call_cx call_shm = Some (0, call_cx, put_main 2 1 1024 call_shm)"
    using call_cx_ok(1) by (simp add: libsrpc_reg_func_form_bmp_def sRPC_FNNUM_def upt_rec libsrpc_regfn_insert_def f) (simp add: numeral_2_eq_2)
  moreover have "1024 \<in> set (main_block (sm_funcs (put_main 2 1 1024 call_shm) ! 2))"
    by (simp add: put_main_def put_func_def call_shm_def empty_registry_def)
  ultimately show thesis using that b by simp
qed

lemma regfn_message_roundtrip_witness:
  "\<exists>bytes cx sm. send_msg_regfn (\<lambda>i. i = 2) [115, 114, 112, 99] [Inr 5, Inl EINTR, Inr 60] = Some (0, bytes) \<and>
     read_msg_regfn [115, 114, 112, 99] [Inr (take 7 bytes), Inl EINTR, Inr (drop 7 bytes)] 0 call_cx call_shm = Some (0, cx, sm) \<and>
     1024 \<in> set (main_block (sm_funcs sm ! 2))"
proof -
  obtain cx sm where r: "libsrpc_reg_func_form_bmp 1024 (libsrpc_bmp_func_set (\<lambda>i. i = 2) 0) call_cx call_shm = Some (0, cx, sm)"
    "1024 \<in> set (main_block (sm_funcs sm ! 2))" by (rule call_registers)
  let ?n = "[115, 114, 112, 99] :: u8 list" and ?ws = "[Inr 5, Inl EINTR, Inr 60] :: (int + nat) list"
  have "sm_lists call_shm = two_lists" "sm_proc_head call_shm = 512" "proc_pid (sm_procs call_shm 1024) = 0"
    by (simp_all add: call_shm_def empty_registry_def some_shm_def run_proc_def some_proc_def)
  then have g: "libsrpc_proc_get 0 call_cx call_shm = Some (1024, call_cx)"
    using spin.foreach_members [OF two_lists_ok(1)] call_cx_ok(1) by (simp add: libsrpc_proc_get_def)
  have "0 \<notin> set ?n" "steady ?ws (\<lambda>_. True)" "REGFN_MSG_SZ \<le> taken ?ws" "(1024 :: u64) \<noteq> 0" by (simp_all add: steady_def REGFN_MSG_SZ_def)
  from regfn_message_roundtrip [OF this(1-3) g this(4) r(1)] obtain bytes where b: "send_msg_regfn (\<lambda>i. i = 2) ?n ?ws = Some (0, bytes)"
    "\<And>rs. steady rs (\<lambda>bs. bs \<noteq> []) \<and> delivered rs = bytes \<Longrightarrow> read_msg_regfn ?n rs 0 call_cx call_shm = Some (0, cx, sm)" by auto
  have "length bytes = 48"
  proof -
    have "bytes = msg_bytes \<lparr>rm_size = of_nat REGFN_MSG_SZ, rm_sign = strncpy32 ?n 31, rm_bmp = libsrpc_bmp_func_set (\<lambda>i. i = 2) 0\<rparr>"
      using b(1) send_full_returns [of ?ws] by (simp add: send_msg_regfn_def steady_def msg_roundtrip REGFN_MSG_SZ_def strncpy32_def)
    then show ?thesis using msg_roundtrip(1) strncpy32_sign(1) [of ?n] by (simp add: REGFN_MSG_SZ_def)
  qed
  then have "steady [Inr (take 7 bytes), Inl EINTR, Inr (drop 7 bytes)] (\<lambda>bs. bs \<noteq> [])" by (auto simp: steady_def)
  with b(2) [of "[Inr (take 7 bytes), Inl EINTR, Inr (drop 7 bytes)]"] have
    "read_msg_regfn ?n [Inr (take 7 bytes), Inl EINTR, Inr (drop 7 bytes)] 0 call_cx call_shm = Some (0, cx, sm)" by simp
  with b(1) r(2) show ?thesis by blast
qed

end
