(* ===== verification/Srpc_Thread.thy ===== *)
theory Srpc_Thread
  imports Srpc_Gc
begin

text \<open>
  Starting threads (\<^verbatim>\<open>src/libsrpc_pthread.c\<close>): the checks on the flags, the attributes, the copy of the name
  and of the start context on the heap, \<^verbatim>\<open>pthread_create\<close>, and what the new thread does first. The
  pthread library, \<^verbatim>\<open>strdup\<close> and \<^verbatim>\<open>malloc\<close> are the argument \<open>env\<close>: their results. The state says which heap
  blocks of this module are live, what they hold, and which threads were created.
\<close>

section \<open>Data\<close>

definition THREAD_FLAG_JOINABLE :: u32 where "THREAD_FLAG_JOINABLE = 1"
definition THREAD_FLAG_DETACHED :: u32 where "THREAD_FLAG_DETACHED = 2"
definition THREAD_FLAG_EXPLICIT_SCHED :: u32 where "THREAD_FLAG_EXPLICIT_SCHED = 4"
definition THREAD_FLAG_NICE :: u32 where "THREAD_FLAG_NICE = 8"

lemmas thread_flags = THREAD_FLAG_JOINABLE_def THREAD_FLAG_DETACHED_def THREAD_FLAG_EXPLICIT_SCHED_def THREAD_FLAG_NICE_def

text \<open>Pointers are addresses, 0 for \<^verbatim>\<open>NULL\<close>; a set of processors is the list of its members.\<close>

record thread_flag =
  tf_flags :: u32
  tf_thread_out :: u64
  tf_sched_policy :: int
  tf_sched_priority :: int
  tf_nice_value :: int
  tf_stack_addr :: u64
  tf_stack_size :: u64
  tf_guard_size :: u64
  tf_cpuset :: "nat list option"
  tf_cpuset_size :: u64
  tf_name :: "string option"

definition thread_flag_default :: thread_flag where
  "thread_flag_default = \<lparr>tf_flags = 0, tf_thread_out = 0, tf_sched_policy = 0, tf_sched_priority = 0, tf_nice_value = 0,
     tf_stack_addr = 0, tf_stack_size = 0, tf_guard_size = 0, tf_cpuset = None, tf_cpuset_size = 0, tf_name = None\<rparr>"

record start_ctx =
  sc_func :: u64
  sc_arg :: u64
  sc_name :: u64
  sc_set_nice :: bool
  sc_nice_value :: int

record thread_attr =
  ta_detached :: bool
  ta_sched :: "(int \<times> int) option"
  ta_stack :: "u64 \<times> u64"
  ta_guard :: u64
  ta_cpus :: "(u64 \<times> nat list) option"

text \<open>The results of the calls. The addresses are those the allocations return (0: no memory).\<close>

record thread_env =
  te_attr_init :: int
  te_setdetach :: int
  te_prio_min :: "int \<Rightarrow> int"
  te_prio_max :: "int \<Rightarrow> int"
  te_setinherit :: int
  te_setpolicy :: int
  te_setparam :: int
  te_setstack :: int
  te_setstacksize :: int
  te_setguard :: int
  te_setaffinity :: int
  te_stack_min :: u64
  te_cpusetsize :: u64
  te_strdup :: u64
  te_malloc :: u64
  te_create :: "int \<times> u64"

text \<open>\<open>ts_attrs\<close>: attribute objects initialised and not destroyed; \<open>ts_made\<close>: the created threads with their
  attributes and the address of their start context; \<open>ts_out\<close>: the identifiers written through
  \<^verbatim>\<open>thread_out\<close>.\<close>

record thread_state =
  ts_live :: "u64 list"
  ts_names :: "u64 \<Rightarrow> string"
  ts_ctxs :: "u64 \<Rightarrow> start_ctx"
  ts_attrs :: nat
  ts_made :: "(u64 \<times> thread_attr \<times> u64) list"
  ts_out :: "u64 \<Rightarrow> u64"

definition heap_alloc :: "u64 \<Rightarrow> thread_state \<Rightarrow> thread_state" where
  "heap_alloc a st = st\<lparr>ts_live := a # ts_live st\<rparr>"

text \<open>\<^verbatim>\<open>free(NULL)\<close> does nothing.\<close>

definition heap_free :: "u64 \<Rightarrow> thread_state \<Rightarrow> thread_state" where
  "heap_free a st = (if a = 0 then st else st\<lparr>ts_live := remove1 a (ts_live st)\<rparr>)"

section \<open>Attributes\<close>

text \<open>One block of \<^verbatim>\<open>pthread_start\<close> each: \<open>Inl rc\<close> is the jump to \<^verbatim>\<open>out\<close> with that code.\<close>

definition ok_or :: "int \<Rightarrow> 'a \<Rightarrow> int + 'a" where
  "ok_or rc a = (if rc \<noteq> 0 then Inl rc else Inr a)"

definition on_ok :: "(int + 'a) \<Rightarrow> ('a \<Rightarrow> int + 'b) \<Rightarrow> int + 'b" where
  "on_ok r f = (case r of Inl rc \<Rightarrow> Inl rc | Inr a \<Rightarrow> f a)"

definition wants_join :: "thread_flag \<Rightarrow> bool" where "wants_join f \<longleftrightarrow> tf_flags f AND THREAD_FLAG_JOINABLE \<noteq> 0"
definition wants_detach :: "thread_flag \<Rightarrow> bool" where "wants_detach f \<longleftrightarrow> tf_flags f AND THREAD_FLAG_DETACHED \<noteq> 0"
definition wants_nice :: "thread_flag \<Rightarrow> bool" where "wants_nice f \<longleftrightarrow> tf_flags f AND THREAD_FLAG_NICE \<noteq> 0"

definition bad_args :: "u64 \<Rightarrow> thread_flag \<Rightarrow> bool" where
  "bad_args func f \<longleftrightarrow> func = 0 \<or> wants_nice f \<and> (tf_nice_value f < - 20 \<or> tf_nice_value f > 19) \<or>
     wants_join f \<and> wants_detach f \<or> wants_join f \<and> tf_thread_out f = 0"

definition is_detached :: "thread_flag \<Rightarrow> bool" where
  "is_detached f = (if wants_detach f then True else if wants_join f then False else tf_thread_out f = 0)"

definition set_sched :: "thread_env \<Rightarrow> thread_flag \<Rightarrow> thread_attr \<Rightarrow> int + thread_attr" where
  "set_sched env f at =
     (if tf_flags f AND THREAD_FLAG_EXPLICIT_SCHED = 0 then Inr at
      else
        let lo = te_prio_min env (tf_sched_policy f); hi = te_prio_max env (tf_sched_policy f) in
        if lo < 0 \<or> hi < 0 \<or> tf_sched_priority f < lo \<or> tf_sched_priority f > hi then Inl EINVAL
        else on_ok (ok_or (te_setinherit env) at) (\<lambda>at. on_ok (ok_or (te_setpolicy env) at) (\<lambda>at.
               ok_or (te_setparam env) (at\<lparr>ta_sched := Some (tf_sched_policy f, tf_sched_priority f)\<rparr>))))"

definition set_stack :: "thread_env \<Rightarrow> thread_flag \<Rightarrow> thread_attr \<Rightarrow> int + thread_attr" where
  "set_stack env f at =
     (if tf_stack_addr f = 0 \<and> tf_stack_size f = 0 then Inr at
      else if tf_stack_size f < te_stack_min env then Inl EINVAL
      else ok_or (if tf_stack_addr f \<noteq> 0 then te_setstack env else te_setstacksize env)
             (at\<lparr>ta_stack := (tf_stack_addr f, tf_stack_size f)\<rparr>))"

definition set_guard :: "thread_env \<Rightarrow> thread_flag \<Rightarrow> thread_attr \<Rightarrow> int + thread_attr" where
  "set_guard env f at =
     (if tf_guard_size f = 0 then Inr at else ok_or (te_setguard env) (at\<lparr>ta_guard := tf_guard_size f\<rparr>))"

definition set_cpus :: "thread_env \<Rightarrow> thread_flag \<Rightarrow> thread_attr \<Rightarrow> int + thread_attr" where
  "set_cpus env f at =
     (case tf_cpuset f of
        None \<Rightarrow> Inr at
      | Some cpus \<Rightarrow>
          let sz = (if tf_cpuset_size f \<noteq> 0 then tf_cpuset_size f else te_cpusetsize env) in
          ok_or (te_setaffinity env) (at\<lparr>ta_cpus := Some (sz, cpus)\<rparr>))"

definition fresh_attr :: "bool \<Rightarrow> thread_attr" where
  "fresh_attr d = \<lparr>ta_detached = d, ta_sched = None, ta_stack = (0, 0), ta_guard = 0, ta_cpus = None\<rparr>"

definition attributes :: "thread_env \<Rightarrow> thread_flag \<Rightarrow> int + thread_attr" where
  "attributes env f =
     on_ok (ok_or (te_setdetach env) (fresh_attr (is_detached f))) (\<lambda>at. on_ok (set_sched env f at) (\<lambda>at.
       on_ok (set_stack env f at) (\<lambda>at. on_ok (set_guard env f at) (set_cpus env f))))"

section \<open>Start\<close>

text \<open>From the copy of the name to \<^verbatim>\<open>pthread_create\<close>.\<close>

definition launch :: "thread_env \<Rightarrow> u64 \<Rightarrow> u64 \<Rightarrow> thread_flag \<Rightarrow> thread_attr \<Rightarrow> thread_state \<Rightarrow> int \<times> thread_state" where
  "launch env func arg f at st =
     (let name_copy = (case tf_name f of None \<Rightarrow> 0 | Some _ \<Rightarrow> te_strdup env) in
      if tf_name f \<noteq> None \<and> name_copy = 0 then (ENOMEM, st)
      else
        let st1 = (case tf_name f of None \<Rightarrow> st
                   | Some s \<Rightarrow> heap_alloc name_copy (st\<lparr>ts_names := (ts_names st)(name_copy := s)\<rparr>));
            ctx = te_malloc env
        in if ctx = 0 then (ENOMEM, heap_free name_copy st1)
           else
             let st2 = heap_alloc ctx (st1\<lparr>ts_ctxs := (ts_ctxs st1)(ctx := \<lparr>sc_func = func, sc_arg = arg, sc_name = name_copy,
                   sc_set_nice = wants_nice f, sc_nice_value = tf_nice_value f\<rparr>)\<rparr>);
                 (rc, tid) = te_create env
             in if rc \<noteq> 0 then (rc, heap_free ctx (heap_free name_copy st2))
                else
                  let st3 = st2\<lparr>ts_made := (tid, at, ctx) # ts_made st2\<rparr> in
                  (0, if tf_thread_out f = 0 then st3 else st3\<lparr>ts_out := (ts_out st3)(tf_thread_out f := tid)\<rparr>))"

definition attr_change :: "(nat \<Rightarrow> nat) \<Rightarrow> thread_state \<Rightarrow> thread_state" where
  "attr_change f st = st\<lparr>ts_attrs := f (ts_attrs st)\<rparr>"

definition pthread_start :: "thread_env \<Rightarrow> u64 \<Rightarrow> u64 \<Rightarrow> thread_flag \<Rightarrow> thread_state \<Rightarrow> int \<times> thread_state" where
  "pthread_start env func arg f st =
     (if bad_args func f then (- EINVAL, st)
      else if te_attr_init env \<noteq> 0 then (- te_attr_init env, st)
      else
        let st1 = attr_change Suc st;
            (rc, st2) = (case attributes env f of Inl rc \<Rightarrow> (rc, st1) | Inr at \<Rightarrow> launch env func arg f at st1)
        in (if rc \<noteq> 0 then rc else 0, attr_change (\<lambda>n. n - 1) st2))"

text \<open>The first steps of the new thread: the start context is copied and freed, the name, cut to 15 characters, is set
  and freed. The result is the name, the priority, and the function with its argument.\<close>

definition start_thunk :: "u64 \<Rightarrow> thread_state \<Rightarrow> (string option \<times> int option \<times> u64 \<times> u64) \<times> thread_state" where
  "start_thunk arg st =
     (let ctx = ts_ctxs st arg; st1 = heap_free arg st;
          named = sc_name ctx \<noteq> 0;
          st2 = (if named then heap_free (sc_name ctx) st1 else st1)
      in ((if named then Some (take 15 (ts_names st1 (sc_name ctx))) else None,
           if sc_set_nice ctx then Some (sc_nice_value ctx) else None, sc_func ctx, sc_arg ctx), st2))"

text \<open>One thread for each processor of the process's affinity mask, up to the first failure. \<open>aff\<close>: the result of
  \<^verbatim>\<open>sched_getaffinity\<close> and the mask, in ascending order; \<open>envs cpu\<close>: the environment of that start.\<close>

fun start_cpus :: "(nat \<Rightarrow> thread_env) \<Rightarrow> u64 \<Rightarrow> u64 \<Rightarrow> thread_flag \<Rightarrow> nat list \<Rightarrow> int \<Rightarrow> thread_state \<Rightarrow> int \<times> thread_state" where
  "start_cpus envs func arg f [] rc st = (rc, st)"
| "start_cpus envs func arg f (cpu # cpus) rc st =
     (case pthread_start (envs cpu) func arg (f\<lparr>tf_cpuset := Some [cpu], tf_cpuset_size := te_cpusetsize (envs cpu)\<rparr>) st of
        (rc1, st1) \<Rightarrow> if rc1 \<noteq> 0 then (rc1, st1) else start_cpus envs func arg f cpus rc1 st1)"

definition pthread_start_all_cpu :: "(nat \<Rightarrow> thread_env) \<Rightarrow> int \<times> nat list \<Rightarrow> u64 \<Rightarrow> u64 \<Rightarrow> thread_state \<Rightarrow> int \<times> thread_state" where
  "pthread_start_all_cpu envs aff func arg st =
     (let flags = thread_flag_default\<lparr>tf_flags := THREAD_FLAG_DETACHED\<rparr>; (rc, mask) = aff in
      if rc \<noteq> 0 then (rc, st)
      else if mask = [] then (rc, st)
      else start_cpus envs func arg flags mask rc st)"

section \<open>Properties\<close>

text \<open>What the C library documents: an allocation returns 0 or a block that is not in use, and the pthread functions
  return 0 or a positive error number.\<close>

definition library_ok :: "thread_env \<Rightarrow> thread_state \<Rightarrow> bool" where
  "library_ok env st \<longleftrightarrow> te_strdup env \<notin> set (ts_live st) \<and> te_malloc env \<notin> insert (te_strdup env) (set (ts_live st)) - {0} \<and>
     (\<forall>rc \<in> {te_attr_init env, te_setdetach env, te_setinherit env, te_setpolicy env, te_setparam env, te_setstack env,
        te_setstacksize env, te_setguard env, te_setaffinity env, fst (te_create env)}. 0 \<le> rc)"

lemmas attr_defs = attributes_def on_ok_def ok_or_def set_sched_def set_stack_def set_guard_def set_cpus_def

lemma attributes_code: "library_ok env st \<Longrightarrow> attributes env f = Inl rc \<Longrightarrow> 0 < rc"
  by (auto simp: attr_defs library_ok_def Let_def split: if_splits option.splits sum.splits)

lemma attributes_detached: "attributes env f = Inr at \<Longrightarrow> ta_detached at = is_detached f"
  by (auto simp: attr_defs fresh_attr_def Let_def split: if_splits option.splits sum.splits)

lemma launch_fails:
  assumes "library_ok env st" "launch env func arg f at st = (rc, st')" "rc \<noteq> 0"
  shows "0 < rc \<and> ts_live st' = ts_live st \<and> ts_made st' = ts_made st \<and> ts_out st' = ts_out st \<and> ts_attrs st' = ts_attrs st"
  using assms
  by (auto simp: launch_def library_ok_def heap_alloc_def heap_free_def Let_def split: if_splits option.splits prod.splits)

lemma launch_works:
  assumes "library_ok env st" "launch env func arg f at st = (0, st')"
  shows "\<exists>tid ctx. ts_made st' = (tid, at, ctx) # ts_made st \<and> (tf_thread_out f \<noteq> 0 \<longrightarrow> ts_out st' (tf_thread_out f) = tid) \<and> ts_attrs st' = ts_attrs st \<and>
    (\<exists>st''. start_thunk ctx st' = ((map_option (take 15) (tf_name f), if wants_nice f then Some (tf_nice_value f) else None, func, arg), st'') \<and>
       ts_live st'' = ts_live st)"
  using assms
  by (auto simp: launch_def library_ok_def heap_alloc_def heap_free_def start_thunk_def Let_def split: if_splits option.splits prod.splits)

text \<open>Starting a thread leaks nothing and reports errors. Whatever fails, the attribute object is destroyed and the copies of the
  name and of the start context are freed, no thread exists and nothing is written through \<^verbatim>\<open>thread_out\<close>; on
  success one thread was created, detached exactly as the flags say and joinable only when its
  identifier was stored, and its first steps free both copies and call the function with its
  argument, under the first 15 characters of the name. Only bad arguments and a failing
  \<^verbatim>\<open>pthread_attr_init\<close> give a negative code: every other failure is reported by a positive one.\<close>

theorem pthread_start_outcome:
  assumes "library_ok env st" "pthread_start env func arg f st = (rc, st')"
  shows "ts_attrs st' = ts_attrs st \<and> (rc < 0 \<longleftrightarrow> bad_args func f \<or> te_attr_init env \<noteq> 0) \<and>
    (if rc \<noteq> 0 then ts_live st' = ts_live st \<and> ts_made st' = ts_made st \<and> ts_out st' = ts_out st
     else \<exists>tid at ctx. ts_made st' = (tid, at, ctx) # ts_made st \<and> ta_detached at = is_detached f \<and> (\<not> ta_detached at \<longrightarrow> tf_thread_out f \<noteq> 0) \<and>
       (tf_thread_out f \<noteq> 0 \<longrightarrow> ts_out st' (tf_thread_out f) = tid) \<and>
       (\<exists>st''. start_thunk ctx st' = ((map_option (take 15) (tf_name f), if wants_nice f then Some (tf_nice_value f) else None, func, arg), st'') \<and>
          ts_live st'' = ts_live st))"
proof (cases "bad_args func f \<or> te_attr_init env \<noteq> 0")
  case True
  have "0 \<le> te_attr_init env" using assms(1) by (simp add: library_ok_def)
  with True assms(2) show ?thesis by (auto simp: pthread_start_def split: if_splits)
next
  case False
  let ?st = "attr_change Suc st"
  have lib: "library_ok env ?st" using assms(1) by (simp add: library_ok_def attr_change_def)
  have th: "start_thunk c (attr_change g s) = (fst (start_thunk c s), attr_change g (snd (start_thunk c s)))" for c g s
    by (simp add: start_thunk_def attr_change_def heap_free_def Let_def)
  show ?thesis
  proof (cases "attributes env f")
    case (Inl e)
    with False assms(2) attributes_code [OF assms(1) Inl] show ?thesis by (auto simp: pthread_start_def attr_change_def)
  next
    case (Inr at)
    obtain rc1 st1 where l: "launch env func arg f at ?st = (rc1, st1)" by (cases "launch env func arg f at ?st")
    have r: "rc = rc1" "st' = attr_change (\<lambda>n. n - 1) st1" using False assms(2) Inr l by (auto simp: pthread_start_def split: if_splits)
    show ?thesis
    proof (cases "rc1 = 0")
      case True
      have "\<not> is_detached f \<longrightarrow> tf_thread_out f \<noteq> 0" using False by (auto simp: is_detached_def bad_args_def)
      with launch_works [OF lib, of func arg f at st1] l True r False attributes_detached [OF Inr] show ?thesis
        by (auto simp: th) (auto simp: attr_change_def)
    next
      case False': False
      with launch_fails [OF lib l] r False show ?thesis by (auto simp: attr_change_def)
    qed
  qed
qed

definition some_tenv :: thread_env where
  "some_tenv = \<lparr>te_attr_init = 0, te_setdetach = 0, te_prio_min = \<lambda>_. 0, te_prio_max = \<lambda>_. 99, te_setinherit = 0, te_setpolicy = 0, te_setparam = 0,
     te_setstack = 0, te_setstacksize = 0, te_setguard = 0, te_setaffinity = 0, te_stack_min = 16384, te_cpusetsize = 128,
     te_strdup = 32, te_malloc = 64, te_create = (EAGAIN, 0)\<rparr>"

definition some_tstate :: thread_state where
  "some_tstate = \<lparr>ts_live = [], ts_names = \<lambda>_. [], ts_ctxs = \<lambda>_. \<lparr>sc_func = 0, sc_arg = 0, sc_name = 0, sc_set_nice = False, sc_nice_value = 0\<rparr>,
     ts_attrs = 0, ts_made = [], ts_out = \<lambda>_. 0\<rparr>"

lemma pthread_start_outcome_witness:
  "fst (pthread_start some_tenv 8 0 (thread_flag_default\<lparr>tf_name := Some ''unix_client''\<rparr>) some_tstate) = EAGAIN \<and>
   ts_live (snd (pthread_start some_tenv 8 0 (thread_flag_default\<lparr>tf_name := Some ''unix_client''\<rparr>) some_tstate)) = []"
proof -
  let ?f = "thread_flag_default\<lparr>tf_name := Some ''unix_client''\<rparr>"
  obtain rc st' where r: "pthread_start some_tenv 8 0 ?f some_tstate = (rc, st')" by (cases "pthread_start some_tenv 8 0 ?f some_tstate")
  have lib: "library_ok some_tenv some_tstate" by (simp add: library_ok_def some_tenv_def some_tstate_def)
  have "rc = EAGAIN" using r
    by (auto simp: pthread_start_def bad_args_def wants_nice_def wants_join_def attr_defs launch_def thread_flag_default_def some_tenv_def Let_def)
  with pthread_start_outcome [OF lib r] r show ?thesis by (simp add: some_tstate_def)
qed

end
