(* ===== verification/Fba_Pool.thy ===== *)
theory Fba_Pool
  imports Srpc_Prelude
begin

text \<open>
  The pool of fixed-size blocks of \<^verbatim>\<open>src/libsrpc_fixblockalloc.c\<close>, which the daemon uses for
  its connections. A pool is a header, a ring \<^verbatim>\<open>fifo\<close> of the indices of free blocks and the
  blocks; pools are chained by \<^verbatim>\<open>nextpool\<close>, here a list from the pool the caller holds on.
  The addresses that \<^verbatim>\<open>malloc\<close> returns for new pools come from the environment as a list (an
  exhausted list is \<^verbatim>\<open>NULL\<close>).
\<close>

section \<open>Data\<close>

record srpc_pool_fba =
  fba_base :: u64
  fba_pool_size :: u64
  fba_offset :: u64
  fba_blk_size :: u64
  fba_blk_nums :: u64
  fba_alloc :: u32
  fba_free :: u32
  fba_fifo :: "u32 list"

definition FBA_HEADER :: u64 where "FBA_HEADER = 48"

definition fba_blk_size_of :: "u64 \<Rightarrow> u64" where
  "fba_blk_size_of elm_size = (elm_size + 15) div 16 * 16"

definition fba_fifo_size_of :: "u64 \<Rightarrow> u64" where
  "fba_fifo_size_of elm_num = ((elm_num + 1) * 4 + 63) div 64 * 64"

section \<open>Operations\<close>

text \<open>The loop that fills the ring: \<^verbatim>\<open>fifo[free++] = (uint32_t)i\<close>.\<close>

definition fba_fill_step :: "nat \<Rightarrow> srpc_pool_fba \<Rightarrow> srpc_pool_fba" where
  "fba_fill_step i p = p\<lparr>fba_fifo := (fba_fifo p)[unat (fba_free p) := of_nat i], fba_free := fba_free p + 1\<rparr>"

definition srpc_pool_create :: "u64 \<Rightarrow> u64 \<Rightarrow> u64 \<Rightarrow> srpc_pool_fba option" where
  "srpc_pool_create mem elm_num elm_size =
     (let blk_size = fba_blk_size_of elm_size;
          fifo_size = fba_fifo_size_of elm_num;
          pool_size = blk_size * elm_num + FBA_HEADER + fifo_size
      in if mem = 0 then None
         else Some (fold fba_fill_step [0..<unat elm_num]
           \<lparr>fba_base = mem, fba_pool_size = pool_size, fba_offset = fifo_size, fba_blk_size = blk_size,
            fba_blk_nums = elm_num, fba_alloc = 0, fba_free = 0, fba_fifo = replicate (unat elm_num + 1) 0\<rparr>))"

definition fba_broken :: "srpc_pool_fba \<Rightarrow> bool" where
  "fba_broken p \<longleftrightarrow> fba_pool_size p = 0 \<or> fba_offset p = 0 \<or> fba_blk_size p = 0"

text \<open>The index after \<open>i\<close> in the ring of \<^verbatim>\<open>blk_nums + 1\<close> entries.\<close>

definition fba_next :: "srpc_pool_fba \<Rightarrow> u32 \<Rightarrow> u32" where
  "fba_next p i = (if ucast (i + 1) \<ge> fba_blk_nums p + 1 then 0 else i + 1)"

definition fba_block_addr :: "srpc_pool_fba \<Rightarrow> u32 \<Rightarrow> u64" where
  "fba_block_addr p blk = fba_base p + fba_offset p + ucast blk * fba_blk_size p"

definition fba_take :: "srpc_pool_fba \<Rightarrow> u64 \<times> srpc_pool_fba" where
  "fba_take p = (fba_block_addr p (fba_fifo p ! unat (fba_alloc p)), p\<lparr>fba_alloc := fba_next p (fba_alloc p)\<rparr>)"

text \<open>The result and the chain after the call.\<close>

function srpc_pool_alloc :: "u64 list \<Rightarrow> srpc_pool_fba list \<Rightarrow> u64 \<times> srpc_pool_fba list" where
  "srpc_pool_alloc ms [] = (0, [])"
| "srpc_pool_alloc ms (p # ps) =
     (if fba_broken p then (0, p # ps)
      else if fba_alloc p = fba_free p then
        (case ps of
           [] \<Rightarrow> (case ms of
                  [] \<Rightarrow> (0, [p])
                | m # ms' \<Rightarrow>
                    (case srpc_pool_create m (fba_blk_nums p) (fba_blk_size p) of
                       None \<Rightarrow> (0, [p])
                     | Some p' \<Rightarrow> apsnd ((#) p) (srpc_pool_alloc ms' [p'])))
         | _ \<Rightarrow> apsnd ((#) p) (srpc_pool_alloc ms ps))
      else case fba_take p of (ptr, p') \<Rightarrow> (ptr, p' # ps))"
  by pat_completeness auto

termination srpc_pool_alloc
  by (relation "measures [\<lambda>(ms, ps). length ms, \<lambda>(ms, ps). length ps]") auto

definition fba_put :: "u64 \<Rightarrow> srpc_pool_fba \<Rightarrow> int \<times> srpc_pool_fba" where
  "fba_put ptr p =
     (let blk = ucast ((ptr - fba_base p - fba_offset p) div fba_blk_size p) :: u32 in
      if ucast blk \<ge> fba_blk_nums p then (- EBADF, p)
      else
        let oi = fba_free p; ni = fba_next p oi in
        if ni = fba_alloc p then (- ENOSPC, p)
        else (0, p\<lparr>fba_free := ni, fba_fifo := (fba_fifo p)[unat oi := blk]\<rparr>))"

fun srpc_pool_free_from :: "u64 \<Rightarrow> srpc_pool_fba list \<Rightarrow> int \<times> srpc_pool_fba list" where
  "srpc_pool_free_from ptr [] = (- EAFNOSUPPORT, [])"
| "srpc_pool_free_from ptr (p # ps) =
     (if fba_broken p then (- EAFNOSUPPORT, p # ps)
      else if ptr > fba_base p \<and> ptr < fba_base p + fba_pool_size p
        then apsnd (\<lambda>p'. p' # ps) (fba_put ptr p)
      else apsnd ((#) p) (srpc_pool_free_from ptr ps))"

definition srpc_pool_free :: "u64 \<Rightarrow> srpc_pool_fba list \<Rightarrow> int \<times> srpc_pool_fba list" where
  "srpc_pool_free ptr ps = (if ptr = 0 \<or> ps = [] then (- EINVAL, ps) else srpc_pool_free_from ptr ps)"

text \<open>\<^verbatim>\<open>srpc_pool_destroy\<close> gives every pool of the chain back to \<^verbatim>\<open>free\<close>, in order.\<close>

fun srpc_pool_destroy :: "srpc_pool_fba list \<Rightarrow> int \<times> u64 list" where
  "srpc_pool_destroy [] = (0, [])"
| "srpc_pool_destroy (p # ps) = (case srpc_pool_destroy ps of (rc, freed) \<Rightarrow> (rc, fba_base p # freed))"

text \<open>The macros that visit the pools of a chain and the blocks of a pool.\<close>

definition FBA_FOREACH_POOL :: "srpc_pool_fba list \<Rightarrow> srpc_pool_fba list" where
  "FBA_FOREACH_POOL ps = tl ps"

definition FBA_FOREACH_BLOCK :: "srpc_pool_fba \<Rightarrow> u64 list" where
  "FBA_FOREACH_BLOCK p = map (\<lambda>i. fba_base p + fba_offset p + of_nat i * fba_blk_size p) [0..<unat (fba_blk_nums p)]"

section \<open>The ring of free blocks as a queue\<close>

definition fba_rep :: "srpc_pool_fba \<Rightarrow> u32 list \<Rightarrow> bool" where
  "fba_rep p fq \<longleftrightarrow>
     (let n = unat (fba_blk_nums p) in
      n + 1 < 2 ^ 32 \<and> length (fba_fifo p) = n + 1 \<and> unat (fba_alloc p) \<le> n \<and> length fq \<le> n \<and>
      unat (fba_free p) = (unat (fba_alloc p) + length fq) mod (n + 1) \<and>
      (\<forall>k < length fq. fba_fifo p ! ((unat (fba_alloc p) + k) mod (n + 1)) = fq ! k))"

lemma fba_next_nat:
  assumes "unat (fba_blk_nums p) + 1 < 2 ^ 32" "unat i \<le> unat (fba_blk_nums p)"
  shows "unat (fba_next p i) = (unat i + 1) mod (unat (fba_blk_nums p) + 1)"
proof -
  have i1: "unat (i + 1) = unat i + 1"
    using assms by (simp add: unat_word_ariths)
  then have "unat (ucast (i + 1) :: u64) = unat i + 1" by simp
  moreover have "unat (fba_blk_nums p + 1) = unat (fba_blk_nums p) + 1" using assms by (subst unat_add_nowrap) simp_all
  ultimately show ?thesis using assms(2) i1 by (auto simp: fba_next_def word_le_nat_alt mod_if)
qed

lemma ring_empty_iff:
  assumes "fba_rep p fq" shows "fba_alloc p = fba_free p \<longleftrightarrow> fq = []"
proof -
  let ?n = "unat (fba_blk_nums p)" and ?a = "unat (fba_alloc p)"
  have r: "?a \<le> ?n" "length fq \<le> ?n" "unat (fba_free p) = (?a + length fq) mod (?n + 1)"
    using assms by (auto simp: fba_rep_def Let_def)
  then have "?a = unat (fba_free p) \<longleftrightarrow> length fq = 0" by (auto simp: mod_if)
  then show ?thesis by (metis length_0_conv unsigned_word_eqI)
qed

lemma take_rep:
  assumes "fba_rep p (b # fq)"
  shows "fst (fba_take p) = fba_block_addr p b" "fba_rep (snd (fba_take p)) fq"
proof -
  let ?n = "unat (fba_blk_nums p)" and ?a = "unat (fba_alloc p)"
  have r: "?n + 1 < 2 ^ 32" "length (fba_fifo p) = ?n + 1" "?a \<le> ?n" "length fq < ?n"
    "unat (fba_free p) = (?a + Suc (length fq)) mod (?n + 1)"
    "\<And>k. k < Suc (length fq) \<Longrightarrow> fba_fifo p ! ((?a + k) mod (?n + 1)) = (b # fq) ! k"
    using assms by (auto simp: fba_rep_def Let_def)
  show "fst (fba_take p) = fba_block_addr p b" using r(6) [of 0] r(3) by (simp add: fba_take_def)
  have a': "unat (fba_next p (fba_alloc p)) = (?a + 1) mod (?n + 1)" by (rule fba_next_nat [OF r(1,3)])
  have sh: "((?a + 1) mod (?n + 1) + k) mod (?n + 1) = (?a + Suc k) mod (?n + 1)" for k
    by (simp add: mod_simps)
  show "fba_rep (snd (fba_take p)) fq"
    using r sh [of "length fq"] r(6) [of "Suc _"] sh by (auto simp: fba_rep_def Let_def fba_take_def a' less_Suc_eq_le [symmetric])
qed

lemma put_rep:
  assumes "fba_rep p fq" and len: "length fq < unat (fba_blk_nums p)"
    and blk: "(ucast ((ptr - fba_base p - fba_offset p) div fba_blk_size p) :: u32) = b" "unat b < unat (fba_blk_nums p)"
  obtains p' where "fba_put ptr p = (0, p')" "fba_rep p' (fq @ [b])" "fba_base p' = fba_base p" "fba_blk_nums p' = fba_blk_nums p"
    "fba_offset p' = fba_offset p" "fba_blk_size p' = fba_blk_size p"
proof -
  let ?n = "unat (fba_blk_nums p)" and ?a = "unat (fba_alloc p)" and ?f = "unat (fba_free p)"
  have r: "?n + 1 < 2 ^ 32" "length (fba_fifo p) = ?n + 1" "?a \<le> ?n"
    "?f = (?a + length fq) mod (?n + 1)"
    "\<And>k. k < length fq \<Longrightarrow> fba_fifo p ! ((?a + k) mod (?n + 1)) = fq ! k"
    using assms(1) by (auto simp: fba_rep_def Let_def)
  have f: "?f \<le> ?n" using r(4) by (simp add: less_Suc_eq_le [symmetric])
  have nx: "unat (fba_next p (fba_free p)) = (?a + Suc (length fq)) mod (?n + 1)"
    using fba_next_nat [OF r(1) f] r(4) by (simp add: mod_simps)
  have "fba_next p (fba_free p) \<noteq> fba_alloc p"
  proof
    assume "fba_next p (fba_free p) = fba_alloc p"
    then have "?a = (?a + Suc (length fq)) mod (?n + 1)" using nx by simp
    then show False using r(3) len by (auto simp: mod_if split: if_splits)
  qed
  moreover have "\<not> fba_blk_nums p \<le> ucast b" using blk(2) by (simp add: word_le_nat_alt)
  ultimately have run: "fba_put ptr p = (0, p\<lparr>fba_free := fba_next p (fba_free p), fba_fifo := (fba_fifo p)[?f := b]\<rparr>)"
    using blk(1) by (simp add: fba_put_def Let_def)
  have ne: "(?a + k) mod (?n + 1) \<noteq> ?f" if "k < length fq" for k
    using that len r(3) unfolding r(4) by (auto simp: mod_if split: if_splits)
  have "fba_rep (p\<lparr>fba_free := fba_next p (fba_free p), fba_fifo := (fba_fifo p)[?f := b]\<rparr>) (fq @ [b])"
  proof -
    have "?f < length (fba_fifo p)" using r(2) f by simp
    then have at: "(fba_fifo p)[?f := b] ! ((?a + k) mod (?n + 1)) = (fq @ [b]) ! k" if "k < Suc (length fq)" for k
      using that r(4) r(5) [of k] ne [of k] by (cases "k = length fq") (auto simp: nth_append)
    then show ?thesis using r(1-3) len nx by (simp add: fba_rep_def Let_def)
  qed
  then show thesis by (rule that [OF run]) simp_all
qed

section \<open>Creation and geometry\<close>

lemma fill_fields [simp]:
  "fba_base (fold fba_fill_step xs p) = fba_base p" "fba_pool_size (fold fba_fill_step xs p) = fba_pool_size p"
  "fba_offset (fold fba_fill_step xs p) = fba_offset p" "fba_blk_size (fold fba_fill_step xs p) = fba_blk_size p"
  "fba_blk_nums (fold fba_fill_step xs p) = fba_blk_nums p" "fba_alloc (fold fba_fill_step xs p) = fba_alloc p"
  "length (fba_fifo (fold fba_fill_step xs p)) = length (fba_fifo p)"
  by (induction xs arbitrary: p) (simp_all add: fba_fill_step_def)

lemma fill_ring:
  assumes "fba_free p = 0" "n < 2 ^ 32" "n \<le> length (fba_fifo p)"
  shows "fba_free (fold fba_fill_step [0..<n] p) = of_nat n \<and>
    (\<forall>k < n. fba_fifo (fold fba_fill_step [0..<n] p) ! k = of_nat k)"
  using assms(2,3)
proof (induction n)
  case 0 then show ?case using assms(1) by simp
next
  case (Suc n)
  define r where "r = fold fba_fill_step [0..<n] p"
  have r: "fba_free r = of_nat n" "\<forall>k < n. fba_fifo r ! k = of_nat k" "length (fba_fifo r) = length (fba_fifo p)"
    using Suc by (simp_all add: r_def)
  have "unat (of_nat n :: u32) = n" using Suc.prems by (simp add: unsigned_of_nat take_bit_nat_eq_self)
  then show ?case using r Suc.prems
    by (simp add: r_def [symmetric] fba_fill_step_def [of n r] nth_list_update less_Suc_eq add.commute [of 1])
qed

definition fba_geom :: "srpc_pool_fba \<Rightarrow> bool" where
  "fba_geom p \<longleftrightarrow> fba_base p \<noteq> 0 \<and> 0 < unat (fba_blk_size p) \<and> 0 < unat (fba_offset p) \<and>
     unat (fba_offset p) + unat (fba_blk_nums p) * unat (fba_blk_size p) < unat (fba_pool_size p) \<and>
     unat (fba_base p) + unat (fba_pool_size p) < 2 ^ 64"

text \<open>The arguments for which no size computation wraps.\<close>

definition fba_args :: "u64 \<Rightarrow> u64 \<Rightarrow> u64 \<Rightarrow> bool" where
  "fba_args mem n sz \<longleftrightarrow> mem \<noteq> 0 \<and> 0 < unat n \<and> unat n + 1 < 2 ^ 31 \<and> 0 < unat sz \<and> unat sz < 2 ^ 30 \<and>
     unat mem < 2 ^ 62"

lemma round_up_nat: "unat v + unat m < 2 ^ 64 \<Longrightarrow> 0 < unat m \<Longrightarrow> unat ((v + (m - 1)) div m * m :: u64) = (unat v + (unat m - 1)) div unat m * unat m"
proof -
  assume a: "unat v + unat m < 2 ^ 64" "0 < unat m"
  have m1: "unat (m - 1) = unat m - 1" using a(2) by (subst unat_diff_nowrap) simp_all
  have s: "unat (v + (m - 1)) = unat v + (unat m - 1)" using a m1 by (subst unat_add_nowrap) simp_all
  have "(unat v + (unat m - 1)) div unat m * unat m \<le> unat v + (unat m - 1)" by simp
  then have "(unat v + (unat m - 1)) div unat m * unat m < 2 ^ 64" using a by linarith
  moreover have "(unat v + (unat m - 1)) div unat m < 2 ^ 64" using a by (simp add: div_less_dividend less_le_trans [OF _ le_refl] div_le_dividend [THEN le_less_trans])
  ultimately show ?thesis using s by (simp add: unat_word_ariths(2) unat_div)
qed

lemma blk_size_nat:
  assumes "unat sz < 2 ^ 62" shows "unat (fba_blk_size_of sz) = (unat sz + 15) div 16 * 16"
  using round_up_nat [of sz 16] assms by (simp add: fba_blk_size_of_def)

lemma fifo_size_nat:
  assumes "unat n + 1 < 2 ^ 32" shows "unat (fba_fifo_size_of n) = ((unat n + 1) * 4 + 63) div 64 * 64"
proof -
  have n1: "unat (n + 1) = unat n + 1" using assms by (subst unat_add_nowrap) simp_all
  have n4: "unat ((n + 1) * 4) = (unat n + 1) * 4" using assms n1 by (simp add: unat_word_ariths)
  then show ?thesis using round_up_nat [of "(n + 1) * 4" 64] assms by (simp add: fba_fifo_size_of_def)
qed

lemma create_ok:
  assumes "fba_args mem n sz"
  obtains p where "srpc_pool_create mem n sz = Some p" "fba_rep p (map of_nat [0..<unat n])" "fba_geom p"
    "fba_base p = mem" "fba_blk_nums p = n" "fba_offset p = fba_fifo_size_of n" "fba_blk_size p = fba_blk_size_of sz"
proof -
  have a: "mem \<noteq> 0" "0 < unat n" "unat n + 1 < 2 ^ 31" "0 < unat sz" "unat sz < 2 ^ 30" "unat mem < 2 ^ 62"
    using assms by (auto simp: fba_args_def)
  define bs fs where "bs = fba_blk_size_of sz" and "fs = fba_fifo_size_of n"
  have bs: "unat bs = (unat sz + 15) div 16 * 16" using a by (simp add: bs_def blk_size_nat)
  have fs: "unat fs = ((unat n + 1) * 4 + 63) div 64 * 64" using a by (simp add: fs_def fifo_size_nat)
  have b1: "16 \<le> unat bs" "unat bs < 2 ^ 31" using bs a by auto
  have f1: "64 \<le> unat fs" "unat fs < 2 ^ 34" using fs a by auto
  have "unat bs * unat n \<le> 2 ^ 31 * 2 ^ 31" using b1 a by (intro mult_mono) simp_all
  then have m: "unat bs * unat n \<le> 2 ^ 62" by simp
  then have u: "unat (bs * n) = unat bs * unat n" by (simp add: unat_word_ariths)
  define p0 where "p0 = \<lparr>fba_base = mem, fba_pool_size = bs * n + FBA_HEADER + fs, fba_offset = fs, fba_blk_size = bs,
            fba_blk_nums = n, fba_alloc = 0, fba_free = 0, fba_fifo = replicate (unat n + 1) 0\<rparr>"
  define p where "p = fold fba_fill_step [0..<unat n] p0"
  have ps: "unat (bs * n + FBA_HEADER + fs) = unat bs * unat n + 48 + unat fs"
    using u m f1 by (subst unat_add_nowrap; subst unat_add_nowrap) (simp_all add: FBA_HEADER_def)
  have "srpc_pool_create mem n sz = Some p"
    using a by (simp add: srpc_pool_create_def Let_def p_def p0_def bs_def fs_def)
  moreover have "fba_rep p (map of_nat [0..<unat n])"
  proof -
    have f: "fba_free p = of_nat (unat n)" "\<forall>k < unat n. fba_fifo p ! k = of_nat k"
      using fill_ring [of p0 "unat n"] a by (simp_all add: p_def p0_def)
    have "unat (of_nat (unat n) :: u32) = unat n" using a by (simp only: unsigned_of_nat) (simp add: take_bit_nat_eq_self)
    then show ?thesis using f a by (simp add: fba_rep_def Let_def) (simp add: p_def p0_def)
  qed
  moreover have "fba_geom p" using a b1 f1 ps m by (simp add: fba_geom_def p_def p0_def algebra_simps)
  ultimately show thesis by (rule that) (simp_all add: p_def p0_def bs_def fs_def)
qed

text \<open>The address of a block leads back to its index.\<close>

lemma block_index:
  assumes g: "fba_geom p" and b: "unat b < unat (fba_blk_nums p)"
  shows "(ucast ((fba_block_addr p b - fba_base p - fba_offset p) div fba_blk_size p) :: u32) = b"
    "fba_base p < fba_block_addr p b" "fba_block_addr p b < fba_base p + fba_pool_size p"
proof -
  let ?z = "unat (fba_blk_size p)" and ?o = "unat (fba_offset p)"
  have G: "0 < ?z" "0 < ?o" "?o + unat (fba_blk_nums p) * ?z < unat (fba_pool_size p)" "unat (fba_base p) + unat (fba_pool_size p) < 2 ^ 64"
    using g by (auto simp: fba_geom_def)
  have lt: "unat b * ?z + ?z \<le> unat (fba_blk_nums p) * ?z" using b by (metis Suc_leI add.commute mult_Suc mult_le_mono1)
  have m: "unat (ucast b * fba_blk_size p :: u64) = unat b * ?z" using lt G by (simp add: unat_word_ariths)
  have "unat (ucast b * fba_blk_size p div fba_blk_size p) = unat b" using m G(1) by (simp add: unat_div)
  then have "unat (ucast b * fba_blk_size p div fba_blk_size p) = unat (ucast b :: u64)" by simp
  then have "ucast b * fba_blk_size p div fba_blk_size p = (ucast b :: u64)" by (rule unsigned_word_eqI)
  moreover have "fba_block_addr p b - fba_base p - fba_offset p = ucast b * fba_blk_size p" by (simp add: fba_block_addr_def)
  ultimately show "(ucast ((fba_block_addr p b - fba_base p - fba_offset p) div fba_blk_size p) :: u32) = b"
    by (simp add: ucast_up_ucast_id is_up)
  have "unat (fba_block_addr p b) = unat (fba_base p) + ?o + unat b * ?z"
    unfolding fba_block_addr_def using G lt m by (subst unat_add_nowrap; subst unat_add_nowrap) simp_all
  then show "fba_base p < fba_block_addr p b" "fba_block_addr p b < fba_base p + fba_pool_size p"
    using G lt by (simp_all add: word_less_nat_alt unat_add_nowrap)
qed

lemma alloc_free_run:
  assumes "fba_geom p" "fba_rep p (b # fq)" "unat b < unat (fba_blk_nums p)"
  shows "\<exists>p1 p2. srpc_pool_alloc ms (p # ps) = (fba_block_addr p b, p1 # ps) \<and> fba_rep p1 fq \<and>
     srpc_pool_free (fba_block_addr p b) (p1 # ps) = (0, p2 # ps) \<and> fba_rep p2 (fq @ [b])"
proof -
  define p1 where "p1 = snd (fba_take p)"
  have same: "fba_base p1 = fba_base p" "fba_pool_size p1 = fba_pool_size p" "fba_offset p1 = fba_offset p"
    "fba_blk_size p1 = fba_blk_size p" "fba_blk_nums p1 = fba_blk_nums p" by (simp_all add: p1_def fba_take_def)
  have rep1: "fba_rep p1 fq" and ad: "fst (fba_take p) = fba_block_addr p b" using take_rep [OF assms(2)] by (simp_all add: p1_def)
  have nb: "\<not> fba_broken p" using assms(1) by (auto simp: fba_geom_def fba_broken_def)
  have "srpc_pool_alloc ms (p # ps) = (fba_block_addr p b, p1 # ps)"
    using nb ring_empty_iff [OF assms(2)] ad by (simp add: p1_def split_beta)
  moreover
  note bi = block_index [OF assms(1,3)]
  have "length fq < unat (fba_blk_nums p)" using assms(2) by (auto simp: fba_rep_def Let_def)
  then obtain p2 where p2: "fba_put (fba_block_addr p b) p1 = (0, p2)" "fba_rep p2 (fq @ [b])"
    using put_rep [OF rep1, of "fba_block_addr p b" b] bi(1) assms(3) same by metis
  have "fba_block_addr p b \<noteq> 0" using bi(2) by auto
  then have "srpc_pool_free (fba_block_addr p b) (p1 # ps) = (0, p2 # ps)"
    using nb bi(2,3) p2(1) same by (simp add: srpc_pool_free_def fba_broken_def)
  ultimately show ?thesis using rep1 p2(2) by blast
qed

section \<open>Properties\<close>

text \<open>A pool hands its blocks out once each: from a fresh pool the \<open>i\<close>-th allocation returns the
  address of block \<open>i\<close>, and a block given back is handed out again only after all others.\<close>

theorem fba_alloc_free_fifo:
  assumes "fba_geom p" "fba_rep p (b # fq)" "unat b < unat (fba_blk_nums p)"
  shows "\<exists>p1 p2. srpc_pool_alloc ms (p # ps) = (fba_block_addr p b, p1 # ps) \<and> fba_rep p1 fq \<and>
     srpc_pool_free (fba_block_addr p b) (p1 # ps) = (0, p2 # ps) \<and> fba_rep p2 (fq @ [b])"
  by (rule alloc_free_run [OF assms])

lemma fba_small_args: "fba_args 4096 2 40"
  by (simp add: fba_args_def)

lemma fba_alloc_free_fifo_witness:
  "\<exists>p p1 p2. srpc_pool_create 4096 2 40 = Some p \<and> srpc_pool_alloc [] [p] = (fba_block_addr p 0, [p1]) \<and>
     srpc_pool_free (fba_block_addr p 0) [p1] = (0, [p2]) \<and> fba_rep p2 [1, 0]"
proof -
  obtain p where p: "srpc_pool_create 4096 2 40 = Some p" "fba_rep p (map of_nat [0..<unat (2 :: u64)])" "fba_geom p"
    "fba_blk_nums p = 2" using create_ok [OF fba_small_args] by metis
  have "map of_nat [0..<unat (2 :: u64)] = [0, 1 :: u32]" by (simp add: upt_conv_Cons)
  with p have "fba_rep p [0, 1]" by simp
  from fba_alloc_free_fifo [OF p(3) this, of "[]" "[]"] p(4) obtain p1 p2 where
    "srpc_pool_alloc [] [p] = (fba_block_addr p 0, [p1])" "srpc_pool_free (fba_block_addr p 0) [p1] = (0, [p2])"
    "fba_rep p2 [1, 0]" by auto
  with p(1) show ?thesis by (intro exI conjI)
qed

text \<open>Releasing is not guarded: a block that is already free is accepted again, so the ring then
  holds it twice and two later allocations return the same address.\<close>

lemma fba_double_free_accepted:
  assumes "fba_geom p" "fba_rep p fq" "unat b < unat (fba_blk_nums p)" "Suc (length fq) < unat (fba_blk_nums p)"
  shows "\<exists>p1 p2. srpc_pool_free (fba_block_addr p b) [p] = (0, [p1]) \<and>
     srpc_pool_free (fba_block_addr p b) [p1] = (0, [p2]) \<and> fba_rep p2 (fq @ [b, b])"
proof -
  note bi = block_index [OF assms(1,3)]
  have nz: "fba_block_addr p b \<noteq> 0" using bi(2) by auto
  have nb: "\<not> fba_broken p" using assms(1) by (auto simp: fba_geom_def fba_broken_def)
  have keep: "fba_pool_size (snd (fba_put ptr r)) = fba_pool_size r" for ptr r by (simp add: fba_put_def Let_def)
  obtain p1 where p1: "fba_put (fba_block_addr p b) p = (0, p1)" "fba_rep p1 (fq @ [b])" "fba_base p1 = fba_base p"
    "fba_blk_nums p1 = fba_blk_nums p" "fba_offset p1 = fba_offset p" "fba_blk_size p1 = fba_blk_size p"
    using put_rep [OF assms(2) _ bi(1) assms(3)] assms(4) by (metis Suc_lessD)
  obtain p2 where p2: "fba_put (fba_block_addr p b) p1 = (0, p2)" "fba_rep p2 ((fq @ [b]) @ [b])"
    using put_rep [OF p1(2), of "fba_block_addr p b" b] bi(1) assms(3,4) p1(3-6) by (metis length_append_singleton)
  have "fba_pool_size p1 = fba_pool_size p" using keep [of "fba_block_addr p b" p] p1(1) by simp
  then show ?thesis using nz nb bi(2,3) p1 p2 by (simp add: srpc_pool_free_def fba_broken_def)
qed

lemma fba_double_free_accepted_witness:
  "\<exists>p p0 p1 p2. srpc_pool_create 4096 3 40 = Some p \<and> srpc_pool_free (fba_block_addr p0 0) [p0] = (0, [p1]) \<and>
     srpc_pool_free (fba_block_addr p0 0) [p1] = (0, [p2]) \<and> fba_rep p2 [2, 0, 0]"
proof -
  have "fba_args 4096 3 40" by (simp add: fba_args_def)
  then obtain p where p: "srpc_pool_create 4096 3 40 = Some p" "fba_rep p (map of_nat [0..<unat (3 :: u64)])" "fba_geom p"
    "fba_blk_nums p = 3" using create_ok by metis
  have "map of_nat [0..<unat (3 :: u64)] = [0, 1, 2 :: u32]" by (simp add: upt_conv_Cons)
  with p have r: "fba_rep p [0, 1, 2]" by simp
  define q where "q = snd (fba_take (snd (fba_take p)))"
  have "fba_rep q [2]" using take_rep(2) [OF take_rep(2) [OF r]] by (simp add: q_def)
  moreover have "fba_geom q" "fba_blk_nums q = 3" using p(3,4) by (simp_all add: q_def fba_take_def fba_geom_def)
  ultimately show ?thesis using fba_double_free_accepted [of q "[2]" 0] p(1) by auto
qed

definition fba_fifo_addr :: "srpc_pool_fba \<Rightarrow> nat \<Rightarrow> u64" where
  "fba_fifo_addr p i = fba_base p + FBA_HEADER + of_nat (4 * i)"

text \<open>The blocks are placed \<^verbatim>\<open>fifo_size\<close> bytes after the start of the pool, without room for
  the header that precedes the ring: whenever the header and the ring are longer than the
  rounded ring alone, the first block overlaps the ring. For 15 elements it starts at the
  ring's entry 4; for the 128 connections of the server it does not overlap.\<close>

theorem fba_blocks_overlap_ring:
  assumes "mem \<noteq> 0"
  shows "(\<exists>p. srpc_pool_create mem 15 sz = Some p \<and> 4 < length (fba_fifo p) \<and> fba_block_addr p 0 = fba_fifo_addr p 4) \<and>
    (\<exists>p. srpc_pool_create mem 128 sz = Some p \<and> fba_block_addr p 0 = fba_base p + 576 \<and>
       fba_fifo_addr p (length (fba_fifo p)) = fba_base p + 564)"
proof -
  have "fba_fifo_size_of 15 = 64" "fba_fifo_size_of 128 = 576" by (simp_all add: fba_fifo_size_of_def)
  then show ?thesis
    using assms by (simp add: srpc_pool_create_def Let_def fba_block_addr_def fba_fifo_addr_def FBA_HEADER_def)
qed

lemma fba_blocks_overlap_ring_witness:
  "\<exists>p. srpc_pool_create 4096 15 40 = Some p \<and> fba_block_addr p 0 = fba_fifo_addr p 4"
  using fba_blocks_overlap_ring [of 4096 40] by auto

end
