(* ===== verification/Srpc_Socket.thy ===== *)
theory Srpc_Socket
  imports Srpc_Destroy Srpc_Message Srpc_Thread Fba_Pool
begin

text \<open>
  The connection between the daemon and its clients (\<^verbatim>\<open>src/libsrpc_unix_socket.c\<close>). The server accepts a client, creates its
  process, reads the registration message, hands over the descriptor of the segment and watches the
  socket; when the client goes away its process is destroyed. The client's control thread connects,
  registers, maps the segment, starts the workers and waits. System calls are arguments: their
  results; descriptors that are open and those the server's epoll instance watches are part of the
  state.
\<close>

section \<open>The server's state\<close>

datatype srv_func = NoFunc | ServerWorker | ClientWorker

record libsrpc_epoll =
  ed_socket :: int
  ed_epfd :: int
  ed_events :: u32
  ed_func :: srv_func
  ed_pid :: int

text \<open>\<open>srv_pool\<close>: the chain of pools from \<^verbatim>\<open>pool_epcln\<close> on, empty for \<^verbatim>\<open>NULL\<close>; \<open>srv_pshm_fd\<close>: the descriptor \<^verbatim>\<open>pshm_fd\<close>
  points to.\<close>

record libsrpc_server =
  srv_socket :: int
  srv_epfd :: int
  srv_epsrv :: libsrpc_epoll
  srv_pool :: "srpc_pool_fba list"
  srv_pshm_fd :: "int option"
  srv_clients :: int
  srv_init :: bool

text \<open>The daemon: the server with the address of its own \<^verbatim>\<open>epsrv\<close>, the blocks of its pool by address, the open
  descriptors, the watched sockets with their \<^verbatim>\<open>data.ptr\<close>, and the rest of its memory.\<close>

record daemon =
  d_srv :: libsrpc_server
  d_epsrv :: u64
  d_eds :: "u64 \<Rightarrow> libsrpc_epoll"
  d_open :: "int list"
  d_watch :: "(int \<times> u64) list"
  d_uid_next :: u16
  d_cx :: srpc_ctx
  d_gc :: gc_local
  d_shm :: shmem

definition EPOLLIN :: u32 where "EPOLLIN = 1"
definition EPOLLHUP :: u32 where "EPOLLHUP = 0x10"
definition EPOLLRDHUP :: u32 where "EPOLLRDHUP = 0x2000"

definition put_srv :: "(libsrpc_server \<Rightarrow> libsrpc_server) \<Rightarrow> daemon \<Rightarrow> daemon" where
  "put_srv f d = d\<lparr>d_srv := f (d_srv d)\<rparr>"

definition put_ed :: "u64 \<Rightarrow> (libsrpc_epoll \<Rightarrow> libsrpc_epoll) \<Rightarrow> daemon \<Rightarrow> daemon" where
  "put_ed a f d = d\<lparr>d_eds := (d_eds d)(a := f (d_eds d a))\<rparr>"

definition close_fd :: "int \<Rightarrow> daemon \<Rightarrow> daemon" where
  "close_fd fd d = d\<lparr>d_open := removeAll fd (d_open d)\<rparr>"

definition epoll_del :: "int \<Rightarrow> daemon \<Rightarrow> daemon" where
  "epoll_del fd d = d\<lparr>d_watch := filter (\<lambda>(s, _). s \<noteq> fd) (d_watch d)\<rparr>"

definition pool_free_ed :: "u64 \<Rightarrow> daemon \<Rightarrow> daemon" where
  "pool_free_ed ed d = put_srv (\<lambda>s. s\<lparr>srv_pool := snd (srpc_pool_free ed (srv_pool s))\<rparr>) d"

section \<open>A new client\<close>

text \<open>What the system contributes to one admission: addresses for a new pool, the result of \<^verbatim>\<open>SO_PEERCRED\<close> with the PID,
  of the receive timeout, the answers of \<^verbatim>\<open>read\<close>, of \<^verbatim>\<open>sendmsg\<close> and of \<^verbatim>\<open>epoll_ctl\<close>.\<close>

record client_env =
  ce_mallocs :: "u64 list"
  ce_peercred :: "int \<times> int"
  ce_proc :: proc_env
  ce_timeo :: int
  ce_reads :: "(int + u8 list) list"
  ce_send_fd :: int
  ce_epoll :: int
  ce_destroy :: destroy_env
  ce_name :: "u8 list"

definition proc_destroy_d :: "destroy_env \<Rightarrow> int \<Rightarrow> daemon \<Rightarrow> daemon option" where
  "proc_destroy_d env pid d =
     map_option (\<lambda>(_, cx, g, sm). d\<lparr>d_cx := cx, d_gc := g, d_shm := sm\<rparr>) (libsrpc_proc_destroy env pid (d_cx d) (d_gc d) (d_shm d))"

text \<open>The labels \<^verbatim>\<open>err\<close> and \<^verbatim>\<open>err_proc\<close>.\<close>

definition addclient_err :: "int \<Rightarrow> u64 \<Rightarrow> int \<Rightarrow> daemon \<Rightarrow> int \<times> daemon" where
  "addclient_err rc ed sck d = (rc, close_fd sck (if ed \<noteq> 0 then pool_free_ed ed d else d))"

definition addclient_err_proc :: "destroy_env \<Rightarrow> int \<Rightarrow> u64 \<Rightarrow> int \<Rightarrow> daemon \<Rightarrow> (int \<times> daemon) option" where
  "addclient_err_proc env rc ed sck d = map_option (addclient_err rc ed sck) (proc_destroy_d env (ed_pid (d_eds d ed)) d)"

definition addclient_watch :: "client_env \<Rightarrow> int \<Rightarrow> u64 \<Rightarrow> daemon \<Rightarrow> (int \<times> daemon) option" where
  "addclient_watch env sck ed d =
     (if ce_epoll env < 0 then addclient_err_proc (ce_destroy env) (ce_epoll env) ed sck d
      else Some (ce_epoll env, put_srv (\<lambda>s. s\<lparr>srv_clients := srv_clients s + 1\<rparr>) (d\<lparr>d_watch := (ed_socket (d_eds d ed), ed) # d_watch d\<rparr>)))"

definition libsrpc_unix_server_addclient :: "client_env \<Rightarrow> int \<Rightarrow> daemon \<Rightarrow> (int \<times> daemon) option" where
  "libsrpc_unix_server_addclient env sck d =
     (let (ed, pool) = srpc_pool_alloc (ce_mallocs env) (srv_pool (d_srv d));
          d1 = put_srv (\<lambda>s. s\<lparr>srv_pool := pool\<rparr>) d
      in if ed = 0 then Some (addclient_err (- ENOMEM) 0 sck d1)
         else if fst (ce_peercred env) \<noteq> 0 then Some (addclient_err (fst (ce_peercred env)) ed sck d1)
         else
           let pid = snd (ce_peercred env);
               d2 = put_ed ed (\<lambda>_. \<lparr>ed_socket = sck, ed_epfd = srv_epfd (d_srv d), ed_events = EPOLLIN OR EPOLLRDHUP OR EPOLLHUP,
                      ed_func = ClientWorker, ed_pid = pid\<rparr>) d1
           in case libsrpc_proc_create (ce_proc env) pid (d_uid_next d2) (d_cx d2) (d_shm d2) of
                None \<Rightarrow> None
              | Some (rc, nxt, cx, sm) \<Rightarrow>
                  let d3 = d2\<lparr>d_uid_next := nxt, d_cx := cx, d_shm := sm\<rparr> in
                  if rc < 0 then Some (addclient_err rc ed sck d3)
                  else if ce_timeo env < 0 then Some (addclient_err (ce_timeo env) ed sck d3)
                  else case read_msg_regfn (ce_name env) (ce_reads env) pid (d_cx d3) (d_shm d3) of
                      None \<Rightarrow> None
                    | Some (rc, cx, sm) \<Rightarrow>
                        let d4 = d3\<lparr>d_cx := cx, d_shm := sm\<rparr> in
                        if rc < 0 then Some (addclient_err rc ed sck d4)
                        else if srv_pshm_fd (d_srv d4) \<noteq> None \<and> ce_send_fd env < 0
                          then addclient_err_proc (ce_destroy env) (ce_send_fd env) ed sck d4
                        else addclient_watch env sck ed d4)"

section \<open>Events\<close>

text \<open>One event: the address in \<^verbatim>\<open>data.ptr\<close>, the mask, and what the calls of its handler return: \<^verbatim>\<open>accept4\<close> with
  \<^verbatim>\<open>errno\<close>, the environment of the admission, \<^verbatim>\<open>recv\<close>.\<close>

record srv_event =
  ev_ptr :: u64
  ev_events :: u32
  ev_accept :: "int \<times> int"
  ev_client :: client_env
  ev_recv :: int

text \<open>The label \<^verbatim>\<open>close\<close> of \<^verbatim>\<open>libsrpc_unix_client_worker\<close>.\<close>

definition client_gone :: "destroy_env \<Rightarrow> u64 \<Rightarrow> daemon \<Rightarrow> daemon option" where
  "client_gone env ed d =
     (let sck = ed_socket (d_eds d ed); pid = ed_pid (d_eds d ed);
          d1 = put_ed ed (\<lambda>e. e\<lparr>ed_socket := 0\<rparr>) (close_fd sck (epoll_del sck (put_srv (\<lambda>s. s\<lparr>srv_clients := srv_clients s - 1\<rparr>) d)))
      in map_option (pool_free_ed ed) (proc_destroy_d env pid d1))"

definition libsrpc_unix_client_worker :: "u64 \<Rightarrow> srv_event \<Rightarrow> daemon \<Rightarrow> (int \<times> daemon) option" where
  "libsrpc_unix_client_worker ed ev d =
     (if ed = 0 \<or> ed \<noteq> ev_ptr ev then Some (- EINVAL, d)
      else if ev_events ev AND (EPOLLHUP OR EPOLLRDHUP) \<noteq> 0 \<or> ev_recv ev = 0
        then map_option (Pair 0) (client_gone (ce_destroy (ev_client ev)) ed d)
      else Some (0, d))"

definition libsrpc_unix_server_worker :: "u64 \<Rightarrow> srv_event \<Rightarrow> daemon \<Rightarrow> (int \<times> daemon) option" where
  "libsrpc_unix_server_worker ed ev d =
     (if ed = 0 \<or> ed \<noteq> ev_ptr ev then Some (- EINVAL, d)
      else
        let (sck, e) = ev_accept ev; d1 = (if sck < 0 then d else d\<lparr>d_open := sck # d_open d\<rparr>) in
        if sck \<le> 0 then Some (- e, d1) else libsrpc_unix_server_addclient (ev_client ev) sck d1)"

text \<open>The handler stored in the structure an event points to; \<open>None\<close>: no handler, the call would jump to 0.\<close>

definition dispatch :: "srv_event \<Rightarrow> daemon \<Rightarrow> daemon option" where
  "dispatch ev d =
     (if ev_ptr ev = 0 then Some d
      else case ed_func (if ev_ptr ev = d_epsrv d then srv_epsrv (d_srv d) else d_eds d (ev_ptr ev)) of
          NoFunc \<Rightarrow> None
        | ServerWorker \<Rightarrow> map_option snd (libsrpc_unix_server_worker (ev_ptr ev) ev d)
        | ClientWorker \<Rightarrow> map_option snd (libsrpc_unix_client_worker (ev_ptr ev) ev d))"

fun dispatch_all :: "srv_event list \<Rightarrow> daemon \<Rightarrow> daemon option" where
  "dispatch_all [] d = Some d"
| "dispatch_all (ev # evs) d = Option.bind (dispatch ev d) (dispatch_all evs)"

text \<open>\<open>nev\<close>: the events \<^verbatim>\<open>epoll_wait\<close> returns, or its error.\<close>

definition libsrpc_unix_server_epoll_wait :: "int + srv_event list \<Rightarrow> daemon \<Rightarrow> (int \<times> daemon) option" where
  "libsrpc_unix_server_epoll_wait nev d =
     (case nev of Inl e \<Rightarrow> Some (- e, d) | Inr evs \<Rightarrow> map_option (Pair 0) (dispatch_all evs d))"

section \<open>Start and end of the server\<close>

text \<open>A system call that gives a descriptor or an error.\<close>

record server_env =
  se_pool :: u64
  se_epoll :: "int + int"
  se_socket :: "int + int"
  se_bind :: "int option"
  se_listen :: "int option"
  se_ctl :: int

definition ED_SZ :: u64 where "ED_SZ = 32"

definition libsrpc_unix_scoket_server_create :: "server_env \<Rightarrow> daemon \<Rightarrow> int \<times> daemon" where
  "libsrpc_unix_scoket_server_create env d =
     (case se_socket env of
        Inl e \<Rightarrow> (- e, d)
      | Inr sck \<Rightarrow>
          let d1 = d\<lparr>d_open := sck # d_open d\<rparr> in
          case se_bind env of
            Some e \<Rightarrow> (- e, close_fd sck d1)
          | None \<Rightarrow> (case se_listen env of Some e \<Rightarrow> (- e, close_fd sck d1) | None \<Rightarrow> (sck, d1)))"

definition libsrpc_epoll_add :: "int \<Rightarrow> u64 \<Rightarrow> libsrpc_epoll \<Rightarrow> daemon \<Rightarrow> int \<times> daemon" where
  "libsrpc_epoll_add ctl a e d =
     (if a = 0 \<or> ed_epfd e \<le> 0 \<or> ed_socket e \<le> 0 \<or> ed_func e = NoFunc then (- EINVAL, d)
      else (ctl, if ctl < 0 then d else d\<lparr>d_watch := (ed_socket e, a) # d_watch d\<rparr>))"

text \<open>The label \<^verbatim>\<open>err\<close>: the chain of pools is given back and the descriptors are closed.\<close>

definition init_err :: "int \<Rightarrow> daemon \<Rightarrow> int \<times> daemon" where
  "init_err rc d =
     (let s = d_srv d; d0 = put_srv (\<lambda>s. s\<lparr>srv_pool := []\<rparr>) d;
          d1 = (if srv_socket s > 0 then close_fd (srv_socket s) d0 else d0)
      in (rc, if srv_epfd s > 0 then close_fd (srv_epfd s) d1 else d1))"

definition libsrpc_unix_server_init :: "server_env \<Rightarrow> daemon \<Rightarrow> int \<times> daemon" where
  "libsrpc_unix_server_init env d =
     (if srv_init (d_srv d) then (0, d)
      else case srpc_pool_create (se_pool env) 128 ED_SZ of
          None \<Rightarrow> init_err (- ENOMEM) (put_srv (\<lambda>s. s\<lparr>srv_pool := []\<rparr>) d)
        | Some p \<Rightarrow>
            let d1 = put_srv (\<lambda>s. s\<lparr>srv_pool := [p]\<rparr>) d in
            case se_epoll env of
              Inl e \<Rightarrow> init_err (- e) (put_srv (\<lambda>s. s\<lparr>srv_epfd := - 1\<rparr>) d1)
            | Inr epfd \<Rightarrow>
                let d2 = put_srv (\<lambda>s. s\<lparr>srv_epfd := epfd\<rparr>) (d1\<lparr>d_open := epfd # d_open d1\<rparr>);
                    (rc, d3) = libsrpc_unix_scoket_server_create env d2
                in if rc \<le> 0 then init_err rc d3
                   else
                     let es = \<lparr>ed_socket = rc, ed_epfd = epfd, ed_events = EPOLLIN, ed_func = ServerWorker, ed_pid = ed_pid (srv_epsrv (d_srv d3))\<rparr>;
                         d4 = put_srv (\<lambda>s. s\<lparr>srv_socket := rc, srv_epsrv := es\<rparr>) d3;
                         (rc1, d5) = libsrpc_epoll_add (se_ctl env) (d_epsrv d4) es d4
                     in if rc1 < 0 then init_err rc1 d5 else (rc1, put_srv (\<lambda>s. s\<lparr>srv_init := True\<rparr>) d5))"

text \<open>One block of the \<open>j\<close>-th pool at the end of the server; \<^verbatim>\<open>srpc_pool_free\<close> is called with that pool. At the end the
  chain is given back.\<close>

definition exit_block :: "nat \<Rightarrow> u64 \<Rightarrow> daemon \<Rightarrow> daemon" where
  "exit_block j a d =
     (let sck = ed_socket (d_eds d a) in
      if sck > 0
      then put_srv (\<lambda>s. s\<lparr>srv_pool := take j (srv_pool s) @ snd (srpc_pool_free a (drop j (srv_pool s)))\<rparr>) (close_fd sck (epoll_del sck d))
      else d)"

definition libsrpc_unix_server_exit :: "daemon \<Rightarrow> int \<times> daemon" where
  "libsrpc_unix_server_exit d =
     (if \<not> srv_init (d_srv d) then (0, d)
      else
        let s = d_srv d; rest = FBA_FOREACH_POOL (srv_pool s);
            d1 = close_fd (srv_socket s) (close_fd (srv_epfd s) (put_srv (\<lambda>s. s\<lparr>srv_init := False\<rparr>) d));
            d2 = fold (\<lambda>j. fold (exit_block (j + 1)) (FBA_FOREACH_BLOCK (rest ! j))) [0..<length rest] d1
        in (0, put_srv (\<lambda>s. s\<lparr>srv_pool := []\<rparr>) d2))"

section \<open>The client's control thread\<close>

definition ECONNREFUSED :: int where "ECONNREFUSED = 111"

text \<open>At most \<open>n\<close> more attempts; \<open>rc\<close> is the last result. \<open>None\<close>: the answers are used up.\<close>

fun connect_tries :: "nat \<Rightarrow> int \<Rightarrow> (int \<times> int) list \<Rightarrow> int option" where
  "connect_tries 0 rc cs = Some rc"
| "connect_tries (Suc n) rc [] = None"
| "connect_tries (Suc n) rc ((rc1, e) # cs) =
     (if rc1 < 0 \<and> e = ECONNREFUSED then connect_tries n rc1 cs else Some rc1)"

text \<open>The descriptor, or - 1.\<close>

definition libsrpc_unix_socket_client_create :: "int \<Rightarrow> (int \<times> int) list \<Rightarrow> int option" where
  "libsrpc_unix_socket_client_create sck cs =
     (if sck < 0 then Some (- 1) else map_option (\<lambda>rc. if rc < 0 then - 1 else sck) (connect_tries 10000 0 cs))"

text \<open>\<open>None\<close>: \<^verbatim>\<open>recvmsg\<close> failed; otherwise the first control message, if any: level, type, length and the descriptor.\<close>

record cmsg =
  cm_level :: int
  cm_type :: int
  cm_len :: u64
  cm_fd :: int

definition recv_fd :: "cmsg option option \<Rightarrow> int" where
  "recv_fd r =
     (case r of
        None \<Rightarrow> - 1
      | Some None \<Rightarrow> - 1
      | Some (Some c) \<Rightarrow> if cm_level c \<noteq> 1 then - 1 else if cm_type c \<noteq> 1 then - 1 else if cm_len c < 20 then - 1 else cm_fd c)"

record libsrpc_client =
  cli_socket :: int
  cli_epfd :: int
  cli_shm_fd :: int
  cli_efd_exit :: int
  cli_sem :: "nat option"
  cli_cx :: srpc_ctx
  cli_threads :: thread_state

text \<open>What ends one round of the wait: \<^verbatim>\<open>epoll_wait\<close> failed, the exit event with the result of \<^verbatim>\<open>read\<close>, or an event of
  the socket with the result of \<^verbatim>\<open>recv\<close>.\<close>

datatype client_wait = WaitFailed | ExitEvent int | SocketEvent u32 int

record cli_env =
  ue_name :: "u8 list"
  ue_loc :: "nat \<Rightarrow> bool"
  ue_socket :: int
  ue_connects :: "(int \<times> int) list"
  ue_sends :: "(int + nat) list"
  ue_recv :: "cmsg option option"
  ue_open :: int
  ue_pid :: int
  ue_cpus :: "int \<times> nat list"
  ue_tenvs :: "nat \<Rightarrow> thread_env"
  ue_worker :: u64
  ue_cap :: u64
  ue_effs :: "(shmem \<Rightarrow> shmem) list"
  ue_epoll :: int
  ue_ctl_socket :: int
  ue_eventfd :: int
  ue_ctl_exit :: int

text \<open>The start of the workers (\<^verbatim>\<open>src/libsrpc.c\<close>).\<close>

definition libsrpc_thread_rcv_req_start ::
  "cli_env \<Rightarrow> thread_state \<Rightarrow> srpc_ctx \<Rightarrow> shmem \<Rightarrow> (int \<times> thread_state \<times> srpc_ctx \<times> shmem) option" where
  "libsrpc_thread_rcv_req_start env ts cx sm =
     (case pthread_start_all_cpu (ue_tenvs env) (ue_cpus env) (ue_worker env) 0 ts of
        (rc, ts1) \<Rightarrow>
          if rc \<noteq> 0
          then map_option (\<lambda>(_, cx1, sm1). (rc, ts1, cx1, sm1)) (libsrpc_thread_rcv_req_stop (ue_cap env) (ue_effs env) cx sm)
          else Some (rc, ts1, cx, sm))"

text \<open>How the set-up ends: everything runs, the jump to \<^verbatim>\<open>err\<close>, or the jump to \<^verbatim>\<open>err_recv_fd\<close>.\<close>

datatype setup_end = Ready | Failed | NoSegment

definition client_watch :: "cli_env \<Rightarrow> libsrpc_client \<Rightarrow> shmem \<Rightarrow> setup_end \<times> libsrpc_client \<times> shmem" where
  "client_watch env cli sm =
     (if ue_epoll env < 0 then (Failed, cli, sm)
      else
        let cli1 = cli\<lparr>cli_epfd := ue_epoll env\<rparr> in
        if ue_ctl_socket env < 0 then (Failed, cli1, sm)
        else
          let cli2 = cli1\<lparr>cli_efd_exit := ue_eventfd env\<rparr> in
          if ue_eventfd env < 0 \<or> ue_ctl_exit env < 0 then (Failed, cli2, sm)
          else (Ready, cli2, libsrpc_proc_set_run (cx_proc (cli_cx cli2)) sm))"

definition client_open :: "cli_env \<Rightarrow> libsrpc_client \<Rightarrow> shmem \<Rightarrow> (setup_end \<times> libsrpc_client \<times> shmem) option" where
  "client_open env cli sm =
     (if ue_open env < 0 then Some (Failed, cli, sm)
      else
        let cx = (cli_cx cli)\<lparr>cx_shm := True\<rparr> in
        case libsrpc_proc_get (ue_pid env) cx sm of
          None \<Rightarrow> None
        | Some (proc, cx1) \<Rightarrow>
            let cx2 = cx1\<lparr>cx_proc := proc\<rparr> in
            if proc = 0 then Some (Failed, cli\<lparr>cli_cx := cx2\<rparr>, sm)
            else
              let cx3 = cx2\<lparr>cx_uid := proc_uid (sm_procs sm proc)\<rparr> in
              case libsrpc_thread_rcv_req_start env (cli_threads cli) cx3 sm of
                None \<Rightarrow> None
              | Some (rc, ts, cx4, sm1) \<Rightarrow>
                  if rc \<noteq> 0 then Some (Failed, cli\<lparr>cli_cx := cx4, cli_threads := ts\<rparr>, sm1)
                  else Some (client_watch env (cli\<lparr>cli_cx := cx4\<lparr>rpc_enable := True\<rparr>, cli_threads := ts\<rparr>) sm1))"

definition client_setup :: "cli_env \<Rightarrow> libsrpc_client \<Rightarrow> shmem \<Rightarrow> (setup_end \<times> libsrpc_client \<times> shmem) option" where
  "client_setup env cli sm =
     (case libsrpc_unix_socket_client_create (ue_socket env) (ue_connects env) of
        None \<Rightarrow> None
      | Some sck \<Rightarrow>
          let cli1 = cli\<lparr>cli_socket := sck\<rparr> in
          if sck \<le> 0 then Some (NoSegment, cli1, sm)
          else case send_msg_regfn (ue_loc env) (ue_name env) (ue_sends env) of
              None \<Rightarrow> None
            | Some (rc, _) \<Rightarrow>
                if rc < 0 then Some (NoSegment, cli1, sm)
                else
                  let cli2 = cli1\<lparr>cli_shm_fd := recv_fd (ue_recv env)\<rparr> in
                  if cli_shm_fd cli2 \<le> 0 then Some (NoSegment, cli2, sm) else client_open env cli2 sm)"

text \<open>The wait: whether it ends at \<^verbatim>\<open>end\<close> or at \<^verbatim>\<open>err\<close>.\<close>

fun client_loop :: "client_wait list \<Rightarrow> bool option" where
  "client_loop [] = None"
| "client_loop (WaitFailed # ws) = Some False"
| "client_loop (ExitEvent rl # ws) = Some (rl > 0)"
| "client_loop (SocketEvent m rc # ws) =
     (if m AND (EPOLLHUP OR EPOLLRDHUP) \<noteq> 0 then Some False
      else if m AND EPOLLIN \<noteq> 0 \<and> rc \<le> 0 then Some False
      else client_loop ws)"

definition post_status :: "libsrpc_client \<Rightarrow> libsrpc_client" where
  "post_status cli = cli\<lparr>cli_sem := sem_post (cli_sem cli)\<rparr>"

text \<open>The label \<^verbatim>\<open>close\<close>; \<open>None\<close>: the process pointer is \<^verbatim>\<open>NULL\<close> and is written through, or a worker never ends.\<close>

definition client_close :: "cli_env \<Rightarrow> libsrpc_client \<Rightarrow> shmem \<Rightarrow> (libsrpc_client \<times> shmem) option" where
  "client_close env cli sm =
     (let cx = (cli_cx cli)\<lparr>rpc_enable := False\<rparr> in
      if cx_proc cx = 0 then None
      else map_option (\<lambda>(_, cx1, sm1). (cli\<lparr>cli_cx := cx1, cli_efd_exit := - 1, cli_shm_fd := - 1, cli_socket := - 1\<rparr>, sm1))
             (libsrpc_thread_rcv_req_stop (ue_cap env) (ue_effs env) cx (libsrpc_proc_set_stop (cx_proc cx) sm)))"

definition unix_client :: "cli_env \<Rightarrow> client_wait list \<Rightarrow> libsrpc_client \<Rightarrow> shmem \<Rightarrow> (libsrpc_client \<times> shmem) option" where
  "unix_client env ws cli sm =
     (case client_setup env cli sm of
        None \<Rightarrow> None
      | Some (NoSegment, cli1, sm1) \<Rightarrow> Some (cli1\<lparr>cli_socket := - 1\<rparr>, sm1)
      | Some (Failed, cli1, sm1) \<Rightarrow> client_close env (post_status cli1) sm1
      | Some (Ready, cli1, sm1) \<Rightarrow>
          (case client_loop ws of
             None \<Rightarrow> None
           | Some ended \<Rightarrow> client_close env (if ended then post_status cli1 else post_status (post_status cli1)) sm1))"

text \<open>The start of the thread and the wait for its report: the number of posts seen before the wait. \<open>None\<close>: the wait
  never ends. \<open>sem_rc\<close> and \<open>start_rc\<close>: the results of \<^verbatim>\<open>sem_init\<close> and \<^verbatim>\<open>pthread_start\<close>.\<close>

definition reported :: "setup_end \<Rightarrow> bool" where
  "reported s \<longleftrightarrow> s \<noteq> NoSegment"

definition libsrpc_unix_client_init :: "int \<Rightarrow> int \<Rightarrow> cli_env \<Rightarrow> libsrpc_client \<Rightarrow> shmem \<Rightarrow> (int \<times> libsrpc_client \<times> shmem) option" where
  "libsrpc_unix_client_init sem_rc start_rc env cli sm =
     (if sem_rc < 0 then Some (sem_rc, cli, sm)
      else
        let cli0 = cli\<lparr>cli_sem := Some 0\<rparr> in
        if start_rc < 0 then Some (start_rc, cli0, sm)
        else if start_rc > 0 then None
        else case client_setup env cli0 sm of
            None \<Rightarrow> None
          | Some (st, cli1, sm1) \<Rightarrow> if reported st then Some (0, cli1, sm1) else None)"

definition libsrpc_unix_client_exit :: "int + nat \<Rightarrow> int" where
  "libsrpc_unix_client_exit r = (case r of Inl e \<Rightarrow> - e | Inr _ \<Rightarrow> 0)"

section \<open>Properties\<close>

lemma proc_create_exists:
  assumes "libsrpc_shmem_get cx" "libsrpc_proc_get pid cx sm = Some (p, cx')" "p \<noteq> 0" "0 < pid" "0 < pe_nproc env" "pe_nproc env \<le> 1024"
  shows "libsrpc_proc_create env pid nxt cx sm = Some (- EEXIST, nxt, cx', sm)"
  using assms by (simp add: libsrpc_proc_create_def)

lemma addclient_created:
  fixes sck :: int
  assumes "srpc_pool_alloc (ce_mallocs env) (srv_pool (d_srv d)) = (ed, pool)" "ed \<noteq> 0" "ce_peercred env = (0, pid)"
    "libsrpc_proc_create (ce_proc env) pid (d_uid_next d) (d_cx d) (d_shm d) = Some (rc, nxt, cx1, sm1)"
  defines "d3 \<equiv> (put_ed ed (\<lambda>_. \<lparr>ed_socket = sck, ed_epfd = srv_epfd (d_srv d), ed_events = EPOLLIN OR EPOLLRDHUP OR EPOLLHUP,
      ed_func = ClientWorker, ed_pid = pid\<rparr>) (put_srv (\<lambda>s. s\<lparr>srv_pool := pool\<rparr>) d))\<lparr>d_uid_next := nxt, d_cx := cx1, d_shm := sm1\<rparr>"
  shows "libsrpc_unix_server_addclient env sck d =
    (if rc < 0 then Some (addclient_err rc ed sck d3)
     else if ce_timeo env < 0 then Some (addclient_err (ce_timeo env) ed sck d3)
     else case read_msg_regfn (ce_name env) (ce_reads env) pid cx1 sm1 of
         None \<Rightarrow> None
       | Some (rc, cx, sm) \<Rightarrow>
           let d4 = d3\<lparr>d_cx := cx, d_shm := sm\<rparr> in
           if rc < 0 then Some (addclient_err rc ed sck d4)
           else if srv_pshm_fd (d_srv d) \<noteq> None \<and> ce_send_fd env < 0 then addclient_err_proc (ce_destroy env) (ce_send_fd env) ed sck d4
           else addclient_watch env sck ed d4)"
proof -
  have c: "libsrpc_proc_create (ce_proc env) pid (d_uid_next d2) (d_cx d2) (d_shm d2) = Some (rc, nxt, cx1, sm1)"
    if "d2 = put_ed ed (\<lambda>_. \<lparr>ed_socket = sck, ed_epfd = srv_epfd (d_srv d), ed_events = EPOLLIN OR EPOLLRDHUP OR EPOLLHUP,
      ed_func = ClientWorker, ed_pid = pid\<rparr>) (put_srv (\<lambda>s. s\<lparr>srv_pool := pool\<rparr>) d)" for d2
    using assms(4) that by (simp add: put_ed_def put_srv_def)
  have f: "d_cx d3 = cx1" "d_shm d3 = sm1" "srv_pshm_fd (d_srv d3) = srv_pshm_fd (d_srv d)" by (simp_all add: d3_def put_ed_def put_srv_def)
  show ?thesis
    using assms(1-3) unfolding libsrpc_unix_server_addclient_def Let_def
    by (simp add: c [OF refl] f flip: d3_def split: option.splits prod.splits)
qed

text \<open>A connection from its acceptance to its end: the process that is created for the peer is the one that is
  destroyed, and the server's own state is as before.\<close>

lemma connection_run:
  assumes "ed_func (srv_epsrv (d_srv d)) = ServerWorker" "d_epsrv d \<noteq> 0" "ev_ptr ev1 = d_epsrv d" "ev_accept ev1 = (sck, e)" "0 < sck"
    "sck \<notin> set (d_open d)" "sck \<notin> fst ` set (d_watch d)" "ev_client ev1 = env"
    "srpc_pool_alloc (ce_mallocs env) (srv_pool (d_srv d)) = (ed, pool)" "ed \<noteq> 0" "ed \<noteq> d_epsrv d" "ce_peercred env = (0, pid)"
    "libsrpc_proc_create (ce_proc env) pid (d_uid_next d) (d_cx d) (d_shm d) = Some (0, nxt, cx1, sm1)" "0 \<le> ce_timeo env"
    "read_msg_regfn (ce_name env) (ce_reads env) pid cx1 sm1 = Some (0, cx2, sm2)" "0 \<le> ce_send_fd env" "ce_epoll env = 0"
    "ev_ptr ev2 = ed" "ev_events ev2 AND (EPOLLHUP OR EPOLLRDHUP) \<noteq> 0"
    "libsrpc_proc_destroy (ce_destroy (ev_client ev2)) pid cx2 (d_gc d) sm2 = Some (rc, cx3, g3, sm3)"
  shows "\<exists>d1 d2. libsrpc_unix_server_epoll_wait (Inr [ev1]) d = Some (0, d1) \<and> (sck, ed) \<in> set (d_watch d1) \<and> srv_clients (d_srv d1) = srv_clients (d_srv d) + 1 \<and>
    d_shm d1 = sm2 \<and>
    libsrpc_unix_server_epoll_wait (Inr [ev1, ev2]) d = Some (0, d2) \<and> d_open d2 = d_open d \<and> d_watch d2 = d_watch d \<and>
    d_srv d2 = (d_srv d)\<lparr>srv_pool := snd (srpc_pool_free ed pool)\<rparr> \<and> d_shm d2 = sm3 \<and> d_gc d2 = g3 \<and> d_cx d2 = cx3"
proof -
  let ?e = "\<lparr>ed_socket = sck, ed_epfd = srv_epfd (d_srv d), ed_events = EPOLLIN OR EPOLLRDHUP OR EPOLLHUP, ed_func = ClientWorker, ed_pid = pid\<rparr>"
  define d1 where "d1 = d\<lparr>d_srv := (d_srv d)\<lparr>srv_pool := pool, srv_clients := srv_clients (d_srv d) + 1\<rparr>, d_eds := (d_eds d)(ed := ?e),
    d_open := sck # d_open d, d_watch := (sck, ed) # d_watch d, d_uid_next := nxt, d_cx := cx2, d_shm := sm2\<rparr>"
  have a: "srpc_pool_alloc (ce_mallocs env) (srv_pool (d_srv (d\<lparr>d_open := sck # d_open d\<rparr>))) = (ed, pool)" using assms(9) by simp
  have c: "libsrpc_proc_create (ce_proc env) pid (d_uid_next (d\<lparr>d_open := sck # d_open d\<rparr>)) (d_cx (d\<lparr>d_open := sck # d_open d\<rparr>)) (d_shm (d\<lparr>d_open := sck # d_open d\<rparr>)) = Some (0, nxt, cx1, sm1)"
    using assms(13) by simp
  have "libsrpc_unix_server_addclient env sck (d\<lparr>d_open := sck # d_open d\<rparr>) = Some (0, d1)"
    using addclient_created [OF a assms(10,12) c, where sck = sck] assms(14-17) by (simp add: addclient_watch_def d1_def put_ed_def put_srv_def)
  then have s1: "dispatch ev1 d = Some d1"
    using assms(1-5,8) by (simp add: dispatch_def libsrpc_unix_server_worker_def)
  define d2 where "d2 = d1\<lparr>d_srv := (d_srv d)\<lparr>srv_pool := snd (srpc_pool_free ed pool)\<rparr>, d_eds := (d_eds d)(ed := ?e\<lparr>ed_socket := 0\<rparr>),
    d_open := d_open d, d_watch := d_watch d, d_cx := cx3, d_gc := g3, d_shm := sm3\<rparr>"
  have w: "filter (\<lambda>(s, _). s \<noteq> sck) (d_watch d) = d_watch d" using assms(7) by (auto simp: filter_id_conv image_iff)
  have o: "removeAll sck (d_open d) = d_open d" using assms(6) by (rule removeAll_id)
  have "client_gone (ce_destroy (ev_client ev2)) ed d1 = Some d2"
    using assms(20) w o by (simp add: client_gone_def proc_destroy_d_def d1_def d2_def Let_def put_ed_def put_srv_def close_fd_def epoll_del_def pool_free_ed_def)
  moreover have "ed_func (d_eds d1 ed) = ClientWorker" "d_epsrv d1 = d_epsrv d" by (simp_all add: d1_def)
  ultimately have s2: "dispatch ev2 d1 = Some d2"
    using assms(10,11,18,19) by (simp add: dispatch_def libsrpc_unix_client_worker_def)
  show ?thesis
    by (rule exI [of _ d1], rule exI [of _ d2]) (simp add: libsrpc_unix_server_epoll_wait_def s1 s2, simp add: d1_def d2_def)
qed

lemma client_open_reports: "client_open env cli sm = Some (st, cli', sm') \<Longrightarrow> reported st"
  by (auto simp: client_open_def client_watch_def reported_def Let_def split: if_splits option.splits prod.splits)


text \<open>A client whose daemon sends no descriptor, and one whose segment cannot be mapped.\<close>

definition stuck_env :: "cmsg option option \<Rightarrow> cli_env" where
  "stuck_env r = \<lparr>ue_name = [115, 114, 112, 99], ue_loc = \<lambda>i. i = 2, ue_socket = 5, ue_connects = [(0, 0)], ue_sends = [Inr 48], ue_recv = r, ue_open = - 1,
     ue_pid = 77, ue_cpus = (0, [0]), ue_tenvs = \<lambda>_. some_tenv, ue_worker = 8, ue_cap = 2, ue_effs = [], ue_epoll = 6, ue_ctl_socket = 0,
     ue_eventfd = 7, ue_ctl_exit = 0\<rparr>"

definition some_client :: libsrpc_client where
  "some_client = \<lparr>cli_socket = - 1, cli_epfd = - 1, cli_shm_fd = - 1, cli_efd_exit = - 1, cli_sem = None, cli_cx = some_cx\<lparr>cx_proc := 0\<rparr>, cli_threads = some_tstate\<rparr>"


end
