(* ===== verification/Srpc_Session.thy ===== *)
theory Srpc_Session
  imports Srpc_Socket
begin

text \<open>
  A whole session of a client, seen from the daemon: the connection (\<open>Srpc_Socket\<close>) creates a process
  (\<open>Srpc_Proc\<close>) in a block of the pool (\<open>Tlsf_Heap\<close>), its message enters it into the registry
  (\<open>Srpc_Registry\<close>), and the hang-up destroys it again (\<open>Srpc_Destroy\<close>). The lemmas follow the
  invariant of the segment through these calls.
\<close>

section \<open>A new block leaves the registry alone\<close>

lemma split64: "\<exists>z y. a = z + y \<and> aligned64 z \<and> y < (64 :: u64) \<and> unat z = unat a - unat a mod 64" for a :: u64
proof -
  define y z where "y = (of_nat (unat a mod 64) :: u64)" and "z = a - y"
  have y: "unat y = unat a mod 64" unfolding y_def by (rule unat_of_nat_small) (simp add: order_less_trans [OF mod_less_divisor])
  have z: "unat z = unat a - unat a mod 64" unfolding z_def using unat_diff_nowrap [of y a] y by simp
  have "aligned64 z" unfolding aligned64_mod z by (simp add: minus_mod_eq_mult_div)
  then show ?thesis using y z by (intro exI [of _ z] exI [of _ y]) (simp add: z_def word_less_nat_alt)
qed

lemma payload_word_kept:
  assumes "tlsf_inv c bs" "payload_same c c' (block_from_ptr e)" "heap_abs c bs e = Some k" "unat e \<le> unat a" "unat a < unat e + unat (bk_size k)"
  shows "mem c' a = mem c a"
proof -
  obtain b where b: "e = ptr_from_block b" "b \<in> set bs" "\<not> fr_of (mem c b)" "k = block_info c b" using assms(3) by (rule heap_abs_Some)
  have hk: "heap_ok c bs (free_blocks c bs) {}" using assms(1) by (simp add: tlsf_inv_def heap_inv_def)
  note m = chain_member [OF heap_okD(2) [OF hk] b(2)]
  have sz: "unat (block_size c b) = unat (bk_size k) + 64"
    using m(3) by (simp add: b(4) block_info_def block_payload_size_def block_word unat_diff_nowrap HEADER_SIZE_def)
  have e: "unat e = unat b + 64"
    using unat_add_nowrap [of b 64] m(3,6) unat_lt_64 [of "get_heap_end c"] by (simp add: b(1) ptr_from_block_def HEADER_SIZE_def)
  obtain z y where a: "a = z + y" "aligned64 z" "y < 64" "unat z = unat a - unat a mod 64" using split64 by blast
  have "unat a mod 64 < 64" by simp
  then have "unat b < unat z" "unat z < unat b + unat (block_size c b)" using a(4) assms(4,5) e sz by linarith+
  moreover have "payload_same c c' b" using assms(2) b(1) by simp
  ultimately show ?thesis using a(1-3) unfolding payload_same_def by blast
qed

lemma alloc_word_kept:
  assumes "tlsf_inv c bs" "alloc_effect c bs sz uid dt p c' bs'" "heap_abs c bs e = Some k" "unat e \<le> unat a" "unat a < unat e + unat (bk_size k)"
  shows "mem c' a = mem c a"
proof (rule payload_word_kept [OF assms(1) _ assms(3-5)])
  obtain b where "e = ptr_from_block b" "b \<in> set bs" "\<not> fr_of (mem c b)" using assms(3) by (rule heap_abs_Some)
  then show "payload_same c c' (block_from_ptr e)" using assms(2) by (simp add: alloc_effect_def block_word)
qed

lemma alloc_registry:
  assumes "tlsf_inv (sm_pool sm) bs" "alloc_effect (sm_pool sm) bs sz uid dt p c' bs'" "exts_live sm bs" "i < sRPC_FNNUM" "ext_block (func_of sm i) \<noteq> 0"
  shows "ext_szfn (sm\<lparr>sm_pool := c'\<rparr>) (ext_block (func_of sm i)) = ext_szfn sm (ext_block (func_of sm i))"
    "ext_procs (sm\<lparr>sm_pool := c'\<rparr>) (ext_block (func_of sm i)) = ext_procs sm (ext_block (func_of sm i))"
proof -
  let ?e = "ext_block (func_of sm i)"
  obtain k where k: "heap_abs (sm_pool sm) bs ?e = Some k" "16 + 8 * unat (ext_szfn sm ?e) \<le> unat (bk_size k)"
    using assms(3-5) by (auto simp: exts_live_def)
  note w = alloc_word_kept [OF assms(1,2) k(1)]
  show sz: "ext_szfn (sm\<lparr>sm_pool := c'\<rparr>) ?e = ext_szfn sm ?e" using w [of ?e] k(2) by (simp add: ext_szfn_def shm_word_def)
  have "mem c' (ext_slot ?e j) = mem (sm_pool sm) (ext_slot ?e j)" if "j < unat (ext_szfn sm ?e)" for j
    by (rule w) (use ext_slot_inside [OF view_in_range [OF assms(1) k(1)] k(2) that] in auto)
  then show "ext_procs (sm\<lparr>sm_pool := c'\<rparr>) ?e = ext_procs sm ?e" by (auto simp: ext_procs_def sz shm_word_def)
qed

lemma alloc_registry_kept:
  assumes "tlsf_inv (sm_pool sm) bs" "alloc_effect (sm_pool sm) bs sz uid dt p c' bs'" "exts_live sm bs" "registry_ok sm" "i < sRPC_FNNUM"
  shows "entries (sm\<lparr>sm_pool := c'\<rparr>) i = entries sm i" "registry_ok (sm\<lparr>sm_pool := c'\<rparr>)" "exts_live (sm\<lparr>sm_pool := c'\<rparr>) bs'"
    "reg_room (sm\<lparr>sm_pool := c'\<rparr>) i = reg_room sm i"
proof -
  let ?sm = "sm\<lparr>sm_pool := c'\<rparr>"
  note r = alloc_registry [OF assms(1-3)]
  have f: "func_of ?sm j = func_of sm j" for j by (simp add: func_of_def)
  have e: "entries ?sm j = entries sm j" if "j < sRPC_FNNUM" for j using r [OF that] by (simp add: entries_def f)
  show "entries ?sm i = entries sm i" by (rule e [OF assms(5)])
  show "registry_ok ?sm" using assms(4) r e by (auto simp: registry_ok_def exts_apart_def f)
  show "exts_live ?sm bs'" unfolding exts_live_def f
  proof (intro allI impI)
    fix j assume j: "j < sRPC_FNNUM" "ext_block (func_of sm j) \<noteq> 0"
    obtain k where k: "heap_abs (sm_pool sm) bs (ext_block (func_of sm j)) = Some k"
      "16 + 8 * unat (ext_szfn sm (ext_block (func_of sm j))) \<le> unat (bk_size k)" using assms(3) j by (auto simp: exts_live_def)
    moreover have "heap_abs c' bs' (ext_block (func_of sm j)) = Some k" using assms(2) k(1) by (auto simp: alloc_effect_def)
    ultimately show "\<exists>k. heap_abs (sm_pool ?sm) bs' (ext_block (func_of sm j)) = Some k \<and>
        16 + 8 * unat (ext_szfn ?sm (ext_block (func_of sm j))) \<le> unat (bk_size k)" using r(1) [OF j] by simp
  qed
  show "reg_room ?sm i = reg_room sm i" using r(1) [OF assms(5)] by (auto simp: reg_room_def f)
qed

section \<open>Registration keeps the segment\<close>

lemma put_entry_quiet:
  assumes "registry_ok sm" "exts_live sm bs" "tlsf_inv (sm_pool sm) bs" "i < sRPC_FNNUM" "q < length (entries sm i)"
  shows "quiet bs sm (put_entry i q v n sm)"
proof (cases "q < LIBSRPC_RFMB_SZ")
  case True
  then show ?thesis using quiet_put_func [OF assms(3)] by (simp add: put_entry_def)
next
  case False
  let ?e = "ext_block (func_of sm i)" and ?j = "q - LIBSRPC_RFMB_SZ"
  have nz: "?e \<noteq> 0" using assms(1,4,5) False by (auto simp: entries_def registry_ok_def)
  then have j: "?j < unat (ext_szfn sm ?e)" using assms(1,4,5) False by (auto simp: entries_def registry_ok_def ext_procs_def)
  obtain k where k: "heap_abs (sm_pool sm) bs ?e = Some k" "16 + 8 * unat (ext_szfn sm ?e) \<le> unat (bk_size k)"
    using assms(2,4) nz by (auto simp: exts_live_def)
  have s: "quiet bs sm (shm_poke (ext_slot ?e ?j) v sm)"
    by (rule quiet_poke [OF assms(3) k(1)]) (use ext_slot_inside [OF view_in_range [OF assms(3) k(1)] k(2) j] in auto)
  then have "tlsf_inv (sm_pool (shm_poke (ext_slot ?e ?j) v sm)) bs" by (simp only: quiet_def)
  from quiet_trans [OF s quiet_put_func [OF this]] show ?thesis using False by (simp add: put_entry_def)
qed

lemma reg_funcs_run:
  assumes "registry_ok sm" "exts_live sm bs" "tlsf_inv (sm_pool sm) bs" "p \<noteq> 0" "distinct is" "set is \<subseteq> {..<sRPC_FNNUM}"
    "\<forall>i \<in> set is. bit bmp i \<longrightarrow> reg_room sm i" "\<forall>i < sRPC_FNNUM. i \<in> set is \<longrightarrow> p \<notin> set (entries sm i)"
  shows "\<exists>sm'. reg_funcs p bmp is 0 cx sm = Some (0, cx, sm') \<and> quiet bs sm sm' \<and> registry_ok sm' \<and> exts_live sm' bs \<and>
    (\<forall>j < sRPC_FNNUM. if j \<in> set is then cleared p (entries sm' j) = entries sm j \<and> (p \<in> set (entries sm' j) \<longleftrightarrow> bit bmp j) else entries sm' j = entries sm j)"
  using assms
proof (induction "is" arbitrary: sm)
  case (Cons i "is")
  have i: "i < sRPC_FNNUM" using Cons.prems(6) by simp
  then have m: "bmp AND push_bit (i mod 64) 1 \<noteq> 0 \<longleftrightarrow> bit bmp i" using mask_bit [of bmp i] by (simp add: sRPC_FNNUM_def)
  have "\<exists>sm1. (if bit bmp i then libsrpc_regfn_insert p i cx sm else Some (0, cx, sm)) = Some (0, cx, sm1) \<and> quiet bs sm sm1 \<and> registry_ok sm1 \<and>
      exts_live sm1 bs \<and> cleared p (entries sm1 i) = entries sm i \<and> (p \<in> set (entries sm1 i) \<longleftrightarrow> bit bmp i) \<and>
      (\<forall>j < sRPC_FNNUM. j \<noteq> i \<longrightarrow> entries sm1 j = entries sm j \<and> reg_room sm1 j = reg_room sm j)"
  proof (cases "bit bmp i")
    case False
    then show ?thesis using Cons.prems(1-3,8) i by (intro exI [of _ sm]) (simp add: quiet_refl cleared_absent)
  next
    case True
    then have room: "reg_room sm i" using Cons.prems(7) by simp
    obtain sm1 q where s1: "libsrpc_regfn_insert p i cx sm = Some (0, cx, sm1)" "registry_ok sm1" "q < length (entries sm i)" "entries sm i ! q = 0"
      "entries sm1 i = (entries sm i)[q := p]" "sm1 = put_entry i q p (num_all (func_of sm i) + 1) sm"
      "\<forall>j < sRPC_FNNUM. j \<noteq> i \<longrightarrow> entries sm1 j = entries sm j \<and> reg_room sm1 j = reg_room sm j"
      using regfn_insert_ok [OF Cons.prems(1) i room Cons.prems(4), of cx] by blast
    have q: "quiet bs sm sm1" unfolding s1(6) by (rule put_entry_quiet [OF Cons.prems(1-3) i s1(3)])
    have "length (entries sm1 j) = length (entries sm j)" if "j < sRPC_FNNUM" for j using s1(5,7) that by (cases "j = i") simp_all
    from exts_live_keep [OF Cons.prems(2,1) s1(2) q this] have "exts_live sm1 bs" .
    moreover have "p \<notin> set (entries sm i)" using Cons.prems(8) i by simp
    ultimately show ?thesis using s1 q True cleared_update by (intro exI [of _ sm1]) (auto simp: set_update_memI)
  qed
  then obtain sm1 where s1: "(if bit bmp i then libsrpc_regfn_insert p i cx sm else Some (0, cx, sm)) = Some (0, cx, sm1)" "quiet bs sm sm1" "registry_ok sm1"
      "exts_live sm1 bs" "cleared p (entries sm1 i) = entries sm i" "p \<in> set (entries sm1 i) \<longleftrightarrow> bit bmp i"
      "\<forall>j < sRPC_FNNUM. j \<noteq> i \<longrightarrow> entries sm1 j = entries sm j \<and> reg_room sm1 j = reg_room sm j" by blast
  have "tlsf_inv (sm_pool sm1) bs" using s1(2) by (simp add: quiet_def)
  moreover have "\<forall>j \<in> set is. bit bmp j \<longrightarrow> reg_room sm1 j" "\<forall>j < sRPC_FNNUM. j \<in> set is \<longrightarrow> p \<notin> set (entries sm1 j)"
    using Cons.prems(5-8) s1(7) by auto
  ultimately obtain sm' where s': "reg_funcs p bmp is 0 cx sm1 = Some (0, cx, sm')" "quiet bs sm1 sm'" "registry_ok sm'" "exts_live sm' bs"
    "\<forall>j < sRPC_FNNUM. if j \<in> set is then cleared p (entries sm' j) = entries sm1 j \<and> (p \<in> set (entries sm' j) \<longleftrightarrow> bit bmp j) else entries sm' j = entries sm1 j"
    using Cons.IH [of sm1] s1(3,4) Cons.prems(4-6) by auto
  have "reg_funcs p bmp (i # is) 0 cx sm = Some (0, cx, sm')" using s1(1) s'(1) m by (cases "bit bmp i") (auto split: if_splits)
  moreover have "if j \<in> set (i # is) then cleared p (entries sm' j) = entries sm j \<and> (p \<in> set (entries sm' j) \<longleftrightarrow> bit bmp j) else entries sm' j = entries sm j"
    if "j < sRPC_FNNUM" for j
  proof (cases "j = i")
    case True
    then have "j \<notin> set is" using Cons.prems(5) by simp
    then have "entries sm' j = entries sm1 j" using s'(5) that by auto
    then show ?thesis using True s1(5,6) by simp
  next
    case False
    then show ?thesis using s'(5) s1(7) that by (cases "j \<in> set is") auto
  qed
  ultimately show ?case using quiet_trans [OF s1(2) s'(2)] s'(3,4) by blast
qed (simp add: quiet_refl)

section \<open>A new process in the segment\<close>

text \<open>Processes and requests are allocated blocks, every linked node is in a list of the segment, only listed processes are
  registered, and the heads of the two lists lie in front of the heap.\<close>

definition settled :: "u64 list \<Rightarrow> u64 list \<Rightarrow> shmem \<Rightarrow> bool" where
  "settled ps bs sm \<longleftrightarrow> set ps \<subseteq> dom (heap_abs (sm_pool sm) bs) \<and> (\<forall>q \<in> set ps. set (reqs_of sm q) \<subseteq> dom (heap_abs (sm_pool sm) bs)) \<and>
     (\<forall>x. node_head (node_at (sm_lists sm) x) \<in> {0, sm_proc_head sm, sm_gc_head sm} \<union> req_head_of ` set ps) \<and>
     (\<forall>i < sRPC_FNNUM. set (entries sm i) \<subseteq> insert 0 (set ps)) \<and>
     unat (sm_proc_head sm) \<le> unat (heap_start (sm_pool sm)) \<and> unat (sm_gc_head sm) \<le> unat (heap_start (sm_pool sm))"

text \<open>The search of the allocator finds a block that is large enough.\<close>

definition pool_room :: "u64 \<Rightarrow> tlsf_ctrl \<Rightarrow> bool" where
  "pool_room sz c \<longleftrightarrow> sz \<noteq> 0 \<and> unat sz \<le> 2 ^ 64 - 128 \<and> found_block sz c \<noteq> 0 \<and> request_to_block_size sz \<le> block_size c (found_block sz c)"

lemma shm_new_block:
  assumes "tlsf_inv (sm_pool sm) bs" "sm_poolptr sm \<noteq> 0" "libsrpc_shmem_get cx" "cx_uid cx \<noteq> 0" "pool_room sz (sm_pool sm)"
  obtains p c' bs' where "libsrpc_shmem_malloc_type sz ty cx sm = Some (p, set_tls (tlsf_errno c') cx, sm\<lparr>sm_pool := c'\<rparr>)"
    "tlsf_inv c' bs'" "alloc_effect (sm_pool sm) bs sz (cx_uid cx) ty p c' bs'" "heap_start c' = heap_start (sm_pool sm)"
proof -
  let ?c = "sm_pool sm"
  have r: "sz \<noteq> 0" "unat sz \<le> 2 ^ 64 - 128" "found_block sz ?c \<noteq> 0" "unat (request_to_block_size sz) \<le> unat (block_size ?c (found_block sz ?c))"
    using assms(5) by (simp_all add: pool_room_def word_le_nat_alt)
  obtain c' bs' where c: "tlsf_malloc (cx_caller cx) (sm_poolptr sm) sz (cx_uid cx) ty ?c = Some (ptr_from_block (found_block sz ?c), c')"
    "malloced ?c bs (found_block sz ?c) (request_to_block_size sz) (cx_uid cx) ty c' bs'" "tlsf_inv c' bs'" "same_geom ?c c'"
    by (rule tlsf_malloc_run [OF assms(1,2,4) r(1,3,4)])
  have "heap_inv ?c bs" using assms(1) by (simp add: tlsf_inv_def)
  from that [OF _ c(3) malloced_effect [OF this c(2) r(2)]] shm_call_ready [OF assms(3), of "\<lambda>tlsf uid. tlsf_malloc (cx_caller cx) tlsf sz uid ty" sm, OF c(1)] c(4)
  show thesis by (simp add: libsrpc_shmem_malloc_type_def same_geom_def)
qed

lemma new_block_place:
  assumes "tlsf_inv c bs" "heap_abs c bs p = Some k" "88 \<le> unat (bk_size k)" "unat h \<le> unat (heap_start c)"
  shows "req_head_of p \<noteq> h" "req_head_of p \<noteq> 0"
proof -
  obtain b where b: "p = ptr_from_block b" "b \<in> set bs" using assms(2) by (rule heap_abs_Some)
  have hk: "heap_ok c bs (free_blocks c bs) {}" using assms(1) by (simp add: tlsf_inv_def heap_inv_def)
  note m = chain_member [OF heap_okD(2) [OF hk] b(2)]
  have e: "unat p = unat b + 64"
    using unat_add_nowrap [of b 64] m(3,6) unat_lt_64 [of "get_heap_end c"] by (simp add: b(1) ptr_from_block_def HEADER_SIZE_def)
  have "unat (req_head_of p) = unat p + 72"
    using unat_add_nowrap [of p 72] view_in_range [OF assms(1,2)] assms(3) by (simp add: req_head_of_def)
  then have "unat h < unat (req_head_of p)" using e m(5) assms(4) by simp
  then show "req_head_of p \<noteq> h" "req_head_of p \<noteq> 0" by auto
qed

lemma alloc_segment:
  assumes "segment_ok cap ps bs sm" "alloc_effect (sm_pool sm) bs sz uid dt p c' bs'" "tlsf_inv c' bs'"
  shows "segment_ok cap ps bs' (sm\<lparr>sm_pool := c'\<rparr>)"
  using assms alloc_registry_kept(2,3) [of sm bs sz uid dt p c' bs' 0] by (simp add: segment_ok_def lists_ok_def sRPC_FNNUM_def)

text \<open>A process is put into the segment at \<open>p\<close>, an address that no list uses yet.\<close>

lemma setup_segment:
  assumes "segment_ok cap ps bs sm" "libsrpc_shmem_get cx" "p \<notin> set ps" "p \<noteq> 0" "\<forall>q \<in> set ps. p \<notin> set (reqs_of sm q)"
    "req_head_of p \<noteq> 0" "req_head_of p \<noteq> sm_proc_head sm" "\<forall>x. node_head (node_at (sm_lists sm) x) \<noteq> req_head_of p"
    "pe_sem_rc env = 0" "pe_spin_rc env = 0" "good_cap cap" "pe_cap env = cap" "uid_search 100 (uids_of sm ps) nxt = (uid, uid)" "uid \<noteq> 0"
  obtains pr ls where "proc_setup env pid p nxt cx sm = Some (0, uid, cx, sm\<lparr>sm_procs := pr, sm_lists := ls\<rparr>)" "pr = (sm_procs sm)(p := new_proc env pid uid)"
    "segment_ok cap (p # ps) bs (sm\<lparr>sm_procs := pr, sm_lists := ls\<rparr>)" "\<And>q. q \<in> set ps \<Longrightarrow> reqs_of (sm\<lparr>sm_procs := pr, sm_lists := ls\<rparr>) q = reqs_of sm q"
proof -
  have seg: "lists_ok sm ps" "\<forall>q \<in> set ps. req_head_of q \<noteq> sm_proc_head sm" "\<forall>q \<in> set ps. \<exists>reqs. mq_ok cap (proc_queue (sm_procs sm q)) reqs"
    using assms(1) by (simp_all add: segment_ok_def)
  have l: "list_ok (sm_lists sm) (sm_proc_head sm) ps" using seg(1) by (simp add: lists_ok_def)
  obtain sm1 where s: "proc_setup env pid p nxt cx sm = Some (0, uid, cx, sm1)" "list_ok (sm_lists sm1) (sm_proc_head sm) (p # ps)"
    "sm_procs sm1 = (sm_procs sm)(p := new_proc env pid uid)" "sm1 = sm\<lparr>sm_procs := sm_procs sm1, sm_lists := sm_lists sm1\<rparr>"
    "list_ok (sm_lists sm1) (req_head_of p) []"
    "\<forall>h ys. h \<noteq> sm_proc_head sm \<longrightarrow> h \<noteq> req_head_of p \<longrightarrow> p \<notin> set ys \<longrightarrow> list_ok (sm_lists sm) h ys \<longrightarrow> list_ok (sm_lists sm1) h ys"
    using proc_setup_run [OF assms(2) l assms(3,4,7,6,9,10,13,14), of pid] assms(8) by blast
  obtain pr ls where f: "sm1 = sm\<lparr>sm_procs := pr, sm_lists := ls\<rparr>" using s(4) by blast
  have req: "list_ok (sm_lists sm1) (req_head_of q) (reqs_of sm q) \<and> reqs_of sm1 q = reqs_of sm q" if q: "q \<in> set ps" for q
  proof -
    obtain rs where rs: "list_ok (sm_lists sm) (req_head_of q) rs" using seg(1) q by (auto simp: lists_ok_def)
    have e: "reqs_of sm q = rs" using spin.foreach_members [OF rs] by (simp add: reqs_of_def)
    have "p \<notin> set rs" "req_head_of q \<noteq> req_head_of p" using assms(3,5) q e by (auto simp: req_head_of_def)
    with s(6) rs seg(2) q have "list_ok (sm_lists sm1) (req_head_of q) rs" by simp
    then show ?thesis using spin.foreach_members e by (simp add: reqs_of_def)
  qed
  have "lists_ok sm1 (p # ps)" using s(2,5) req by (auto simp: lists_ok_def f)
  moreover have "\<exists>reqs. mq_ok cap (proc_queue (sm_procs sm1 q)) reqs" if "q \<in> set (p # ps)" for q
    using that seg(3) assms(3,11,12) init_rep [OF assms(11)] by (cases "q = p") (auto simp: s(3) new_proc_def mq_ok_def)
  ultimately have "segment_ok cap (p # ps) bs sm1" using assms(1,7) entries_frame(2) [of sm1 sm]
    by (simp add: segment_ok_def f exts_live_def func_of_def ext_szfn_def shm_word_def)
  with s(1,3) req show thesis by (intro that [of ls pr]) (simp_all add: f)
qed

lemma create_segment:
  assumes "segment_ok cap ps bs sm" "settled ps bs sm" "libsrpc_shmem_get cx" "cx_uid cx \<noteq> 0" "0 < pid" "\<forall>q \<in> set ps. proc_pid (sm_procs sm q) \<noteq> pid"
    "0 < pe_nproc env" "pe_nproc env \<le> 1024" "88 \<le> unat (pe_proc_sz env)" "unat (pe_proc_sz env) \<le> 2 ^ 32" "pe_sem_rc env = 0" "pe_spin_rc env = 0"
    "good_cap cap" "pe_cap env = cap" "pool_room (pe_proc_sz env + of_int (pe_nproc env) * THREAD_SZ) (sm_pool sm)"
    "uid_search 100 (uids_of sm ps) nxt = (uid, uid)" "uid \<noteq> 0"
  obtains p k cx1 sm1 bs1 where "libsrpc_proc_create env pid nxt cx sm = Some (0, uid, cx1, sm1)" "libsrpc_shmem_get cx1"
    "segment_ok cap (p # ps) bs1 sm1" "p \<noteq> 0" "p \<notin> dom (heap_abs (sm_pool sm) bs)" "heap_abs (sm_pool sm1) bs1 = (heap_abs (sm_pool sm) bs)(p \<mapsto> k)"
    "bk_type k = LIBSRPC_SHMDT_PROC" "bk_owners k = cx_uid cx # replicate 11 0" "sm_procs sm1 = (sm_procs sm)(p := new_proc env pid uid)"
    "\<And>i. i < sRPC_FNNUM \<Longrightarrow> entries sm1 i = entries sm i \<and> reg_room sm1 i = reg_room sm i \<and> func_of sm1 i = func_of sm i"
    "\<And>q. q \<in> set ps \<Longrightarrow> reqs_of sm1 q = reqs_of sm q" "sm_reqs sm1 = sm_reqs sm"
proof -
  let ?V = "heap_abs (sm_pool sm) bs" and ?sz = "pe_proc_sz env + of_int (pe_nproc env) * THREAD_SZ" and ?H = "{0, sm_proc_head sm, sm_gc_head sm} \<union> req_head_of ` set ps"
  have seg: "lists_ok sm ps" "tlsf_inv (sm_pool sm) bs" "sm_poolptr sm \<noteq> 0" "registry_ok sm" "exts_live sm bs" using assms(1) by (simp_all add: segment_ok_def)
  have st: "set ps \<subseteq> dom ?V" "\<forall>q \<in> set ps. set (reqs_of sm q) \<subseteq> dom ?V" "\<forall>x. node_head (node_at (sm_lists sm) x) \<in> ?H"
    "unat (sm_proc_head sm) \<le> unat (heap_start (sm_pool sm))" "unat (sm_gc_head sm) \<le> unat (heap_start (sm_pool sm))"
    using assms(2) unfolding settled_def by blast+
  have sz: "unat ?sz = unat (pe_proc_sz env) + nat (pe_nproc env) * 16" by (rule proc_size [OF assms(7,8,10)])
  obtain p c' bs1 where a: "libsrpc_shmem_malloc_type ?sz LIBSRPC_SHMDT_PROC cx sm = Some (p, set_tls (tlsf_errno c') cx, sm\<lparr>sm_pool := c'\<rparr>)"
    "tlsf_inv c' bs1" "alloc_effect (sm_pool sm) bs ?sz (cx_uid cx) LIBSRPC_SHMDT_PROC p c' bs1" "heap_start c' = heap_start (sm_pool sm)"
    by (rule shm_new_block [OF seg(2,3) assms(3,4,15)])
  let ?sm = "sm\<lparr>sm_pool := c'\<rparr>" and ?cx = "set_tls (tlsf_errno c') cx"
  obtain k where k: "p \<noteq> 0" "?V p = None" "heap_abs c' bs1 = ?V(p \<mapsto> k)" "unat ?sz \<le> unat (bk_size k)" "bk_type k = LIBSRPC_SHMDT_PROC" "bk_owners k = cx_uid cx # replicate 11 0"
    using a(3) by (auto simp: alloc_effect_def shm_types)
  have hp: "heap_abs c' bs1 p = Some k" "88 \<le> unat (bk_size k)" using k(3,4) sz assms(9) by auto
  note pl = new_block_place [OF a(2) hp, unfolded a(4)]
  have np: "p \<notin> set ps" "\<forall>q \<in> set ps. p \<notin> set (reqs_of ?sm q)" using st(1,2) k(2) by (auto simp: reqs_of_def)
  have "req_head_of p \<notin> req_head_of ` set ps" using np(1) by (auto simp: req_head_of_def)
  then have "req_head_of p \<notin> ?H" using pl [OF st(4)] pl(1) [OF st(5)] by simp
  moreover have "node_head (node_at (sm_lists ?sm) x) \<in> ?H" for x using st(3) by simp
  ultimately have h: "\<forall>x. node_head (node_at (sm_lists ?sm) x) \<noteq> req_head_of p" by metis
  have u: "uid_search 100 (uids_of ?sm ps) nxt = (uid, uid)" using assms(16) by (simp add: uids_of_def)
  have r: "libsrpc_shmem_get ?cx" "req_head_of p \<noteq> sm_proc_head ?sm" "req_head_of p \<noteq> 0" using assms(3) pl [OF st(4)] by simp_all
  obtain pr ls where s: "proc_setup env pid p nxt ?cx ?sm = Some (0, uid, ?cx, ?sm\<lparr>sm_procs := pr, sm_lists := ls\<rparr>)" "pr = (sm_procs ?sm)(p := new_proc env pid uid)"
    "segment_ok cap (p # ps) bs1 (?sm\<lparr>sm_procs := pr, sm_lists := ls\<rparr>)" "\<And>q. q \<in> set ps \<Longrightarrow> reqs_of (?sm\<lparr>sm_procs := pr, sm_lists := ls\<rparr>) q = reqs_of ?sm q"
    by (rule setup_segment [OF alloc_segment [OF assms(1) a(3,2)] r(1) np(1) k(1) np(2) r(3,2) h assms(11-14) u assms(17), of pid]) (rule that)
  let ?sm1 = "?sm\<lparr>sm_procs := pr, sm_lists := ls\<rparr>"
  have "find (\<lambda>q. proc_pid (sm_procs sm q) = pid) ps = None" using assms(6) by (simp add: find_None_iff)
  then have get: "libsrpc_proc_get pid cx sm = Some (0, cx)" using assms(3) lists_okD(1) [OF seg(1)] by (simp add: libsrpc_proc_get_def)
  have "\<not> ?sz < pe_proc_sz env" using sz by (simp add: word_less_nat_alt)
  then have run: "libsrpc_proc_create env pid nxt cx sm = Some (0, uid, ?cx, ?sm1)"
    using assms(3,5,7,8) k(1) by (simp add: libsrpc_proc_create_def get a(1) s(1))
  have "entries ?sm1 i = entries sm i \<and> reg_room ?sm1 i = reg_room sm i \<and> func_of ?sm1 i = func_of sm i" if "i < sRPC_FNNUM" for i
    using alloc_registry_kept(1,4) [OF seg(2) a(3) seg(5,4) that] entries_frame(1) [of ?sm1 ?sm i] by (simp add: reg_room_def func_of_def ext_szfn_def shm_word_def)
  then show thesis using that [of ?cx ?sm1 p bs1 k] run r(1) k s by (simp add: domIff reqs_of_def)
qed

section \<open>Creation, registration, destruction\<close>

lemma locked_uid_frame:
  assumes "sm_reqs sm' = sm_reqs sm" "\<And>q. q \<in> set ps \<Longrightarrow> reqs_of sm' q = reqs_of sm q \<and> sm_procs sm' q = sm_procs sm q"
  shows "locked_uid sm' ps uid = locked_uid sm ps uid"
  unfolding locked_uid_def
  by (rule bex_cong) (use assms in \<open>simp_all add: libsrpc_proc_is_valid_def libsrpc_shmem_check_uid_lock_def libsrpc_req_is_corrupted_def\<close>)

text \<open>A UID from \<open>nxt\<close> on is found.\<close>

definition uid_room :: "u16 \<Rightarrow> u16 list \<Rightarrow> bool" where
  "uid_room nxt uids \<longleftrightarrow> nxt \<noteq> 0 \<and> (\<exists>i \<le> 100. unat nxt + i < 65536 \<and> nxt + of_nat i \<notin> set uids)"

lemma uid_room_search:
  assumes "uid_room nxt uids"
  obtains uid where "uid_search 100 uids nxt = (uid, uid)" "uid \<noteq> 0" "uid \<notin> set uids" "nxt \<le> uid"
proof -
  obtain i where i: "nxt \<noteq> 0" "i \<le> 100" "unat nxt + i < 65536" "nxt + of_nat i \<notin> set uids" using assms by (auto simp: uid_room_def)
  obtain j where j: "uid_search 100 uids nxt = (nxt + of_nat j, nxt + of_nat j)" "nxt + of_nat j \<notin> set uids" "unat (nxt + of_nat j) = unat nxt + j"
    using uid_search_finds [OF i(3,4,2,1)] by blast
  have "0 < unat nxt" using i(1) by (simp add: unat_gt_0)
  then have "nxt + of_nat j \<noteq> 0" using j(3) by (metis add_gr_0 less_irrefl unat_0)
  with that [OF j(1) _ j(2)] j(3) show thesis by (simp add: word_le_nat_alt)
qed

text \<open>Everything the system and the build contribute to a process of the segment goes well.\<close>

definition proc_env_ok :: "u64 \<Rightarrow> proc_env \<Rightarrow> shmem \<Rightarrow> bool" where
  "proc_env_ok cap env sm \<longleftrightarrow> 0 < pe_nproc env \<and> pe_nproc env \<le> 1024 \<and> 88 \<le> unat (pe_proc_sz env) \<and> unat (pe_proc_sz env) \<le> 2 ^ 32 \<and>
     pe_sem_rc env = 0 \<and> pe_spin_rc env = 0 \<and> good_cap cap \<and> pe_cap env = cap \<and> pool_room (pe_proc_sz env + of_int (pe_nproc env) * THREAD_SZ) (sm_pool sm)"

text \<open>No lock and no block belongs to a UID that neither a listed process nor the daemon has.\<close>

definition uids_clean :: "u16 \<Rightarrow> u64 list \<Rightarrow> u64 list \<Rightarrow> shmem \<Rightarrow> bool" where
  "uids_clean own ps bs sm \<longleftrightarrow> (\<forall>u. u \<noteq> 0 \<longrightarrow> u \<noteq> own \<longrightarrow> u \<notin> set (uids_of sm ps) \<longrightarrow>
     \<not> locked_uid sm ps u \<and> (\<forall>q k. heap_abs (sm_pool sm) bs q = Some k \<longrightarrow> u \<notin> set (bk_owners k)))"

text \<open>An acceptable message: it has the right size and the daemon's name, and each selected function has a free entry.\<close>

definition message_ok :: "u8 list \<Rightarrow> regfn_msg \<Rightarrow> shmem \<Rightarrow> bool" where
  "message_ok name m sm \<longleftrightarrow> rm_size m = of_nat REGFN_MSG_SZ \<and> length (rm_sign m) = 32 \<and> strncmp_eq 32 (rm_sign m) name \<and>
     (\<forall>i < sRPC_FNNUM. bit (rm_bmp m) i \<longrightarrow> reg_room sm i)"

lemma register_segment:
  assumes "segment_ok cap (p # ps) bs sm" "libsrpc_shmem_get cx" "p \<noteq> 0" "proc_pid (sm_procs sm p) = pid" "message_ok name m sm"
    "\<forall>i < sRPC_FNNUM. p \<notin> set (entries sm i)" "read_full rs REGFN_MSG_SZ = Some (0, msg_bytes m)"
  obtains sm' where "read_msg_regfn name rs pid cx sm = Some (0, cx, sm')" "quiet bs sm sm'" "segment_ok cap (p # ps) bs sm'"
    "\<And>i. i < sRPC_FNNUM \<Longrightarrow> cleared p (entries sm' i) = entries sm i \<and> (p \<in> set (entries sm' i) \<longleftrightarrow> bit (rm_bmp m) i)"
proof -
  have seg: "lists_ok sm (p # ps)" "registry_ok sm" "exts_live sm bs" "tlsf_inv (sm_pool sm) bs" using assms(1) by (simp_all add: segment_ok_def)
  have get: "libsrpc_proc_get pid cx sm = Some (p, cx)" using assms(2,4) lists_okD(1) [OF seg(1)] by (simp add: libsrpc_proc_get_def)
  have m: "rm_size m = of_nat REGFN_MSG_SZ" "length (rm_sign m) = 32" "strncmp_eq 32 (rm_sign m) name" "\<forall>i \<in> set [0..<sRPC_FNNUM]. bit (rm_bmp m) i \<longrightarrow> reg_room sm i"
    using assms(5) by (simp_all add: message_ok_def)
  obtain sm' where s: "reg_funcs p (rm_bmp m) [0..<sRPC_FNNUM] 0 cx sm = Some (0, cx, sm')" "quiet bs sm sm'" "registry_ok sm'" "exts_live sm' bs"
    "\<forall>i < sRPC_FNNUM. cleared p (entries sm' i) = entries sm i \<and> (p \<in> set (entries sm' i) \<longleftrightarrow> bit (rm_bmp m) i)"
    using reg_funcs_run [OF seg(2-4) assms(3) _ _ m(4), of cx] assms(6) by (auto simp: lessThan_atLeast0)
  have "libsrpc_reg_func_form_bmp p (rm_bmp m) cx sm = Some (0, cx, sm')" using assms(2) s(1) by (simp add: libsrpc_reg_func_form_bmp_def)
  then have r: "read_msg_regfn name rs pid cx sm = Some (0, cx, sm')"
    using assms(3,7) m(1,3) msg_roundtrip(2) [OF m(2)] by (simp add: read_msg_regfn_def get)
  obtain c fs where f: "sm' = sm\<lparr>sm_pool := c, sm_funcs := fs\<rparr>" using s(2) unfolding quiet_def by blast
  have "tlsf_inv (sm_pool sm') bs" using s(2) by (simp add: quiet_def)
  then have "segment_ok cap (p # ps) bs sm'" using assms(1) s(3,4) by (simp add: segment_ok_def lists_ok_def f)
  with that [OF r s(2)] s(5) show thesis by blast
qed

text \<open>A table that was filled by the process only and then cleared is the table before.\<close>

lemma gone_registry:
  assumes "gone cap p ps sm sm'" "segment_ok cap ps bs sm" "i < sRPC_FNNUM" "segment_ok cap ps0 bs0 sm0" "cleared p (entries sm i) = entries sm0 i"
  shows "main_block (func_of sm' i) = main_block (func_of sm0 i) \<and> num_all (func_of sm' i) = num_all (func_of sm0 i)"
proof -
  have l: "length (main_block (func_of sm i)) = LIBSRPC_RFMB_SZ" "length (main_block (func_of sm0 i)) = LIBSRPC_RFMB_SZ"
    "num_all (func_of sm0 i) = of_nat (used (entries sm0 i))" using assms(2-4) by (simp_all add: segment_ok_def registry_ok_def)
  have "take LIBSRPC_RFMB_SZ (cleared p (entries sm i)) = cleared p (main_block (func_of sm i))" "take LIBSRPC_RFMB_SZ (entries sm0 i) = main_block (func_of sm0 i)"
    using l by (simp_all add: entries_def cleared_def)
  then show ?thesis using assms(1,3,5) l(3) by (simp add: gone_def)
qed

lemma session_memory:
  assumes "segment_ok cap ps bs sm" "settled ps bs sm" "libsrpc_shmem_get cx" "cx_uid cx \<noteq> 0" "cx_uid cx < nxt" "uid_room nxt (uids_of sm ps)"
    "uids_clean (cx_uid cx) ps bs sm" "0 < pid" "\<forall>q \<in> set ps. proc_pid (sm_procs sm q) \<noteq> pid" "proc_env_ok cap env sm" "message_ok name m sm"
    "read_full rs REGFN_MSG_SZ = Some (0, msg_bytes m)" "de_cap denv = cap" "0 < de_fuel denv"
  obtains p k uid cx1 sm1 cx2 sm2 cx3 sm3 bs3 where "libsrpc_proc_create env pid nxt cx sm = Some (0, uid, cx1, sm1)"
    "read_msg_regfn name rs pid cx1 sm1 = Some (0, cx2, sm2)" "libsrpc_proc_destroy denv pid cx2 g sm2 = Some (0, cx3, g, sm3)" "libsrpc_shmem_get cx3"
    "lists_ok sm2 (p # ps)" "proc_pid (sm_procs sm2 p) = pid" "\<And>i. i < sRPC_FNNUM \<Longrightarrow> p \<in> set (entries sm2 i) \<longleftrightarrow> bit (rm_bmp m) i"
    "lists_ok sm3 ps" "\<And>i. i < sRPC_FNNUM \<Longrightarrow> main_block (func_of sm3 i) = main_block (func_of sm i) \<and> num_all (func_of sm3 i) = num_all (func_of sm i)"
    "tlsf_inv (sm_pool sm3) bs3" "heap_abs (sm_pool sm3) bs3 = (heap_abs (sm_pool sm) bs)(p \<mapsto> k)" "heap_abs (sm_pool sm) bs p = None"
    "bk_type k = LIBSRPC_SHMDT_PROC" "bk_dc k"
proof -
  let ?V = "heap_abs (sm_pool sm) bs"
  note e = assms(10) [unfolded proc_env_ok_def]
  obtain uid where u: "uid_search 100 (uids_of sm ps) nxt = (uid, uid)" "uid \<noteq> 0" "uid \<notin> set (uids_of sm ps)" "nxt \<le> uid" by (rule uid_room_search [OF assms(6)])
  obtain p k cx1 sm1 bs1 where c: "libsrpc_proc_create env pid nxt cx sm = Some (0, uid, cx1, sm1)" "libsrpc_shmem_get cx1"
    "segment_ok cap (p # ps) bs1 sm1" "p \<noteq> 0" "p \<notin> dom ?V" "heap_abs (sm_pool sm1) bs1 = ?V(p \<mapsto> k)"
    "bk_type k = LIBSRPC_SHMDT_PROC" "bk_owners k = cx_uid cx # replicate 11 0" "sm_procs sm1 = (sm_procs sm)(p := new_proc env pid uid)"
    "\<And>i. i < sRPC_FNNUM \<Longrightarrow> entries sm1 i = entries sm i \<and> reg_room sm1 i = reg_room sm i \<and> func_of sm1 i = func_of sm i"
    "\<And>q. q \<in> set ps \<Longrightarrow> reqs_of sm1 q = reqs_of sm q" "sm_reqs sm1 = sm_reqs sm"
    by (rule create_segment [OF assms(1-4,8,9) _ _ _ _ _ _ _ _ _ u(1,2), of env]) (use e in \<open>auto\<close>)
  have st: "set ps \<subseteq> dom ?V" "\<forall>i < sRPC_FNNUM. set (entries sm i) \<subseteq> insert 0 (set ps)" using assms(2) by (simp_all add: settled_def)
  have np: "p \<notin> set ps" using c(5) st(1) by auto
  have pe: "p \<notin> set (entries sm i)" if "i < sRPC_FNNUM" for i using st(2) np c(4) that by auto
  have mk: "message_ok name m sm1" using assms(11) c(10) by (simp add: message_ok_def)
  have pid: "proc_pid (sm_procs sm1 p) = pid" "proc_uid (sm_procs sm1 p) = uid" by (simp_all add: c(9) new_proc_def)
  obtain sm2 where r: "read_msg_regfn name rs pid cx1 sm1 = Some (0, cx1, sm2)" "quiet bs1 sm1 sm2" "segment_ok cap (p # ps) bs1 sm2"
    "\<And>i. i < sRPC_FNNUM \<Longrightarrow> cleared p (entries sm2 i) = entries sm1 i \<and> (p \<in> set (entries sm2 i) \<longleftrightarrow> bit (rm_bmp m) i)"
    by (rule register_segment [OF c(3,2,4) pid(1) mk _ assms(12)]) (use pe c(10) in auto)
  obtain c2 fs where f: "sm2 = sm1\<lparr>sm_pool := c2, sm_funcs := fs\<rparr>" using r(2) unfolding quiet_def by blast
  have v2: "heap_abs (sm_pool sm2) bs1 = ?V(p \<mapsto> k)" using r(2) c(6) by (simp add: quiet_def)
  have "cx_uid cx \<noteq> uid" using assms(5) u(4) by auto
  then have cl: "\<not> locked_uid sm ps uid" "uid \<notin> set (bk_owners j)" if "(?V(p \<mapsto> k)) q = Some j" for q j
    using assms(7) u(2,3) c(8) that by (auto simp: uids_clean_def split: if_splits)
  have "locked_uid sm2 ps uid = locked_uid sm ps uid"
    by (rule locked_uid_frame) (use np c(9,11,12) in \<open>auto simp: f reqs_of_def\<close>)
  then have nl: "\<not> locked_uid sm2 (remove1 p (p # ps)) uid" using cl(1) [of p k] by simp
  have "targets uid (?V(p \<mapsto> k)) = {}" using cl(2) u(2) by (auto simp: targets_def hit_def simp del: fun_upd_apply)
  then have t: "card (targets uid (heap_abs (sm_pool sm2) bs1)) < de_fuel denv" using assms(14) by (simp add: v2)
  have fd: "find (\<lambda>q. proc_pid (sm_procs sm2 q) = pid) (p # ps) = Some p" "proc_uid (sm_procs sm2 p) = uid" using pid by (simp_all add: f)
  have kp: "heap_abs (sm_pool sm2) bs1 p = Some k" by (simp add: v2)
  from destroy_releases [OF r(3) c(2) fd(1) assms(13) fd(2) u(2) nl t kp c(7), of g] obtain cx3 sm3 bs3 where
    d: "libsrpc_proc_destroy denv pid cx1 g sm2 = Some (0, cx3, g, sm3)" "libsrpc_shmem_get cx3" "gone cap p (p # ps) sm2 sm3" "tlsf_inv (sm_pool sm3) bs3"
      "heap_abs (sm_pool sm3) bs3 = (fate uid False (?V(p \<mapsto> k)))(p \<mapsto> k\<lparr>bk_dc := True\<rparr>)" by (auto simp: v2)
  have "fate uid False (?V(p \<mapsto> k)) q = (?V(p \<mapsto> k)) q" for q
    using cl(2) [of q] by (auto simp: fate_def simp del: fun_upd_apply split: option.splits)
  then have "fate uid False (?V(p \<mapsto> k)) = ?V(p \<mapsto> k)" by (rule ext)
  then have v3: "heap_abs (sm_pool sm3) bs3 = ?V(p \<mapsto> k\<lparr>bk_dc := True\<rparr>)" using d(5) by simp
  have fn: "main_block (func_of sm3 i) = main_block (func_of sm i) \<and> num_all (func_of sm3 i) = num_all (func_of sm i)" if i: "i < sRPC_FNNUM" for i
    by (rule gone_registry [OF d(3) r(3) i assms(1)]) (use r(4) c(10) i in simp)
  have "lists_ok sm3 ps" using d(3) by (simp add: gone_def)
  with that [OF c(1) r(1) d(1,2) _ _ _ _ _ d(4) v3] fn r(3,4) pid(1) c(5,7) show thesis by (simp add: segment_ok_def f domIff)
qed

section \<open>Properties\<close>

text \<open>C38: A client that breaks off during registration stays in the process table. When the process was created but its message does
  not arrive, the server closes the socket and returns the connection's block without counting a
  client, but does not destroy the process: it is still listed, and every later connection of the
  same PID is refused with \<^verbatim>\<open>EEXIST\<close>.\<close>

theorem broken_registration_keeps_process:
  assumes "srpc_pool_alloc (ce_mallocs env) (srv_pool (d_srv d)) = (ed, pool)" "ed \<noteq> 0" "ce_peercred env = (0, pid)"
    "libsrpc_proc_create (ce_proc env) pid (d_uid_next d) (d_cx d) (d_shm d) = Some (0, nxt, cx, sm)" "libsrpc_shmem_get cx"
    "libsrpc_proc_get pid cx sm = Some (p, cx)" "p \<noteq> 0" "0 \<le> ce_timeo env" "read_full (ce_reads env) REGFN_MSG_SZ = Some (rc, bs)" "rc < 0"
  shows "\<exists>d'. libsrpc_unix_server_addclient env sck d = Some (- 1, d') \<and> sck \<notin> set (d_open d') \<and> d_watch d' = d_watch d \<and>
    srv_clients (d_srv d') = srv_clients (d_srv d) \<and> libsrpc_proc_get pid (d_cx d') (d_shm d') = Some (p, d_cx d') \<and>
    (\<forall>env' sck'. fst (srpc_pool_alloc (ce_mallocs env') (srv_pool (d_srv d'))) \<noteq> 0 \<and> ce_peercred env' = (0, pid) \<and>
       0 < pid \<and> 0 < pe_nproc (ce_proc env') \<and> pe_nproc (ce_proc env') \<le> 1024 \<longrightarrow>
       (\<exists>d''. libsrpc_unix_server_addclient env' sck' d' = Some (- EEXIST, d'')))"
proof -
  have r: "read_msg_regfn (ce_name env) (ce_reads env) pid cx sm = Some (- 1, cx, sm)"
    using assms(6,7,9,10) by (simp add: read_msg_regfn_def)
  obtain d' where d': "libsrpc_unix_server_addclient env sck d = Some (- 1, d')" "sck \<notin> set (d_open d')" "d_watch d' = d_watch d"
    "srv_clients (d_srv d') = srv_clients (d_srv d)" "d_cx d' = cx" "d_shm d' = sm"
    using addclient_created [OF assms(1-4), where sck = sck] r assms(2,8)
    by (simp add: addclient_err_def close_fd_def pool_free_ed_def put_ed_def put_srv_def)
  have "\<exists>d''. libsrpc_unix_server_addclient env' sck' d' = Some (- EEXIST, d'')"
    if "fst (srpc_pool_alloc (ce_mallocs env') (srv_pool (d_srv d'))) \<noteq> 0" "ce_peercred env' = (0, pid)"
      "0 < pid" "0 < pe_nproc (ce_proc env')" "pe_nproc (ce_proc env') \<le> 1024" for env' sck'
  proof -
    obtain ed' pool' where a: "srpc_pool_alloc (ce_mallocs env') (srv_pool (d_srv d')) = (ed', pool')" by fastforce
    have n: "ed' \<noteq> 0" using that(1) a by simp
    have "libsrpc_proc_create (ce_proc env') pid (d_uid_next d') (d_cx d') (d_shm d') = Some (- EEXIST, d_uid_next d', cx, sm)"
      using proc_create_exists [OF assms(5-7) that(3-5)] d'(5,6) by simp
    from addclient_created [OF a n that(2) this, where sck = sck'] show ?thesis by (simp add: addclient_err_def)
  qed
  with d' assms(6) show ?thesis by auto
qed

text \<open>The admission of one client: a block for the connection, the PID of the peer, which has no process yet, a message that
  arrives and is acceptable, and system calls that succeed.\<close>

definition admission_ok :: "u64 \<Rightarrow> u64 list \<Rightarrow> client_env \<Rightarrow> regfn_msg \<Rightarrow> u64 \<Rightarrow> srpc_pool_fba list \<Rightarrow> daemon \<Rightarrow> bool" where
  "admission_ok cap ps env m ed pool d \<longleftrightarrow> srpc_pool_alloc (ce_mallocs env) (srv_pool (d_srv d)) = (ed, pool) \<and> ed \<noteq> 0 \<and> ed \<noteq> d_epsrv d \<and>
     fst (ce_peercred env) = 0 \<and> 0 < snd (ce_peercred env) \<and> (\<forall>q \<in> set ps. proc_pid (sm_procs (d_shm d) q) \<noteq> snd (ce_peercred env)) \<and>
     proc_env_ok cap (ce_proc env) (d_shm d) \<and> 0 \<le> ce_timeo env \<and> message_ok (ce_name env) m (d_shm d) \<and>
     read_full (ce_reads env) REGFN_MSG_SZ = Some (0, msg_bytes m) \<and> 0 \<le> ce_send_fd env \<and> ce_epoll env = 0"

lemma session_run:
  assumes "segment_ok cap ps bs (d_shm d)" "settled ps bs (d_shm d)" "libsrpc_shmem_get (d_cx d)" "cx_uid (d_cx d) \<noteq> 0" "cx_uid (d_cx d) < d_uid_next d"
    "uid_room (d_uid_next d) (uids_of (d_shm d) ps)" "uids_clean (cx_uid (d_cx d)) ps bs (d_shm d)" "admission_ok cap ps (ev_client ev1) m ed pool d"
    "ed_func (srv_epsrv (d_srv d)) = ServerWorker" "d_epsrv d \<noteq> 0" "ev_ptr ev1 = d_epsrv d" "0 < fst (ev_accept ev1)"
    "fst (ev_accept ev1) \<notin> set (d_open d)" "fst (ev_accept ev1) \<notin> fst ` set (d_watch d)"
    "ev_ptr ev2 = ed" "ev_events ev2 AND (EPOLLHUP OR EPOLLRDHUP) \<noteq> 0" "de_cap (ce_destroy (ev_client ev2)) = cap" "0 < de_fuel (ce_destroy (ev_client ev2))"
  shows "\<exists>d1 d2 p k bs2. libsrpc_unix_server_epoll_wait (Inr [ev1]) d = Some (0, d1) \<and> libsrpc_unix_server_epoll_wait (Inr [ev1, ev2]) d = Some (0, d2) \<and>
    lists_ok (d_shm d1) (p # ps) \<and> proc_pid (sm_procs (d_shm d1) p) = snd (ce_peercred (ev_client ev1)) \<and>
    (\<forall>i < sRPC_FNNUM. p \<in> set (entries (d_shm d1) i) \<longleftrightarrow> bit (rm_bmp m) i) \<and> srv_clients (d_srv d1) = srv_clients (d_srv d) + 1 \<and>
    d_open d2 = d_open d \<and> d_watch d2 = d_watch d \<and> d_srv d2 = (d_srv d)\<lparr>srv_pool := snd (srpc_pool_free ed pool)\<rparr> \<and> libsrpc_shmem_get (d_cx d2) \<and> d_gc d2 = d_gc d \<and>
    lists_ok (d_shm d2) ps \<and> (\<forall>i < sRPC_FNNUM. main_block (func_of (d_shm d2) i) = main_block (func_of (d_shm d) i) \<and> num_all (func_of (d_shm d2) i) = num_all (func_of (d_shm d) i)) \<and>
    tlsf_inv (sm_pool (d_shm d2)) bs2 \<and> heap_abs (sm_pool (d_shm d2)) bs2 = (heap_abs (sm_pool (d_shm d)) bs)(p \<mapsto> k) \<and>
    heap_abs (sm_pool (d_shm d)) bs p = None \<and> bk_type k = LIBSRPC_SHMDT_PROC \<and> bk_dc k"
proof -
  let ?env = "ev_client ev1"
  obtain sck e where sck: "ev_accept ev1 = (sck, e)" by fastforce
  obtain pid where pc: "ce_peercred ?env = (0, pid)" using assms(8) by (cases "ce_peercred ?env") (simp add: admission_ok_def)
  have a: "srpc_pool_alloc (ce_mallocs ?env) (srv_pool (d_srv d)) = (ed, pool)" "ed \<noteq> 0" "ed \<noteq> d_epsrv d" "0 < pid"
    "\<forall>q \<in> set ps. proc_pid (sm_procs (d_shm d) q) \<noteq> pid" "proc_env_ok cap (ce_proc ?env) (d_shm d)" "0 \<le> ce_timeo ?env" "message_ok (ce_name ?env) m (d_shm d)"
    "read_full (ce_reads ?env) REGFN_MSG_SZ = Some (0, msg_bytes m)" "0 \<le> ce_send_fd ?env" "ce_epoll ?env = 0"
    using assms(8) pc by (simp_all add: admission_ok_def)
  obtain p k uid cx1 sm1 cx2 sm2 cx3 sm3 bs3 where s: "libsrpc_proc_create (ce_proc ?env) pid (d_uid_next d) (d_cx d) (d_shm d) = Some (0, uid, cx1, sm1)"
    "read_msg_regfn (ce_name ?env) (ce_reads ?env) pid cx1 sm1 = Some (0, cx2, sm2)"
    "libsrpc_proc_destroy (ce_destroy (ev_client ev2)) pid cx2 (d_gc d) sm2 = Some (0, cx3, d_gc d, sm3)" "libsrpc_shmem_get cx3"
    "lists_ok sm2 (p # ps)" "proc_pid (sm_procs sm2 p) = pid" "\<And>i. i < sRPC_FNNUM \<Longrightarrow> p \<in> set (entries sm2 i) \<longleftrightarrow> bit (rm_bmp m) i"
    "lists_ok sm3 ps" "\<And>i. i < sRPC_FNNUM \<Longrightarrow> main_block (func_of sm3 i) = main_block (func_of (d_shm d) i) \<and> num_all (func_of sm3 i) = num_all (func_of (d_shm d) i)"
    "tlsf_inv (sm_pool sm3) bs3" "heap_abs (sm_pool sm3) bs3 = (heap_abs (sm_pool (d_shm d)) bs)(p \<mapsto> k)" "heap_abs (sm_pool (d_shm d)) bs p = None"
    "bk_type k = LIBSRPC_SHMDT_PROC" "bk_dc k"
    by (rule session_memory [OF assms(1-7) a(4-6,8,9) assms(17,18), where g = "d_gc d"]) (rule that)
  have sk: "0 < sck" "sck \<notin> set (d_open d)" "sck \<notin> fst ` set (d_watch d)" using assms(12-14) sck by simp_all
  from connection_run [OF assms(9-11) sck sk refl a(1-3) pc s(1) a(7) s(2) a(10,11) assms(15,16) s(3)]
  obtain d1 d2 where d: "libsrpc_unix_server_epoll_wait (Inr [ev1]) d = Some (0, d1)" "srv_clients (d_srv d1) = srv_clients (d_srv d) + 1" "d_shm d1 = sm2"
    "libsrpc_unix_server_epoll_wait (Inr [ev1, ev2]) d = Some (0, d2)" "d_open d2 = d_open d" "d_watch d2 = d_watch d" "d_srv d2 = (d_srv d)\<lparr>srv_pool := snd (srpc_pool_free ed pool)\<rparr>"
    "d_shm d2 = sm3" "d_cx d2 = cx3" "d_gc d2 = d_gc d" by blast
  show ?thesis
    by (rule exI [of _ d1], rule exI [of _ d2], rule exI [of _ p], rule exI [of _ k], rule exI [of _ bs3]) (use d s pc in simp)
qed

text \<open>C6: A session leaves no trace but one marked block. A client connects, its message is accepted, and later its socket hangs up.
  In between the new process is listed with the peer's PID and entered into exactly the functions of
  its bitmap. Afterwards the server has the same open descriptors, watched sockets and number of
  clients as before, the process list and all tables and counters of the registry are as before, and
  the view of the pool has one more block, the process, which is marked for the collector.\<close>

theorem session_leaves_no_trace:
  assumes "segment_ok cap ps bs (d_shm d)" "settled ps bs (d_shm d)" "libsrpc_shmem_get (d_cx d)" "cx_uid (d_cx d) \<noteq> 0" "cx_uid (d_cx d) < d_uid_next d"
    "uid_room (d_uid_next d) (uids_of (d_shm d) ps)" "uids_clean (cx_uid (d_cx d)) ps bs (d_shm d)" "admission_ok cap ps (ev_client ev1) m ed pool d"
    "ed_func (srv_epsrv (d_srv d)) = ServerWorker" "d_epsrv d \<noteq> 0" "ev_ptr ev1 = d_epsrv d" "0 < fst (ev_accept ev1)"
    "fst (ev_accept ev1) \<notin> set (d_open d)" "fst (ev_accept ev1) \<notin> fst ` set (d_watch d)"
    "ev_ptr ev2 = ed" "ev_events ev2 AND (EPOLLHUP OR EPOLLRDHUP) \<noteq> 0" "de_cap (ce_destroy (ev_client ev2)) = cap" "0 < de_fuel (ce_destroy (ev_client ev2))"
  shows "\<exists>d1 d2 p k bs2. libsrpc_unix_server_epoll_wait (Inr [ev1]) d = Some (0, d1) \<and> libsrpc_unix_server_epoll_wait (Inr [ev1, ev2]) d = Some (0, d2) \<and>
    lists_ok (d_shm d1) (p # ps) \<and> proc_pid (sm_procs (d_shm d1) p) = snd (ce_peercred (ev_client ev1)) \<and>
    (\<forall>i < sRPC_FNNUM. p \<in> set (entries (d_shm d1) i) \<longleftrightarrow> bit (rm_bmp m) i) \<and> srv_clients (d_srv d1) = srv_clients (d_srv d) + 1 \<and>
    d_open d2 = d_open d \<and> d_watch d2 = d_watch d \<and> srv_clients (d_srv d2) = srv_clients (d_srv d) \<and> srv_pool (d_srv d2) = snd (srpc_pool_free ed pool) \<and>
    lists_ok (d_shm d2) ps \<and> (\<forall>i < sRPC_FNNUM. main_block (func_of (d_shm d2) i) = main_block (func_of (d_shm d) i) \<and> num_all (func_of (d_shm d2) i) = num_all (func_of (d_shm d) i)) \<and>
    tlsf_inv (sm_pool (d_shm d2)) bs2 \<and> heap_abs (sm_pool (d_shm d2)) bs2 = (heap_abs (sm_pool (d_shm d)) bs)(p \<mapsto> k) \<and>
    heap_abs (sm_pool (d_shm d)) bs p = None \<and> bk_type k = LIBSRPC_SHMDT_PROC \<and> bk_dc k"
proof -
  from session_run [OF assms] obtain d1 d2 p k bs2 where r:
    "libsrpc_unix_server_epoll_wait (Inr [ev1]) d = Some (0, d1)" "libsrpc_unix_server_epoll_wait (Inr [ev1, ev2]) d = Some (0, d2)"
    "lists_ok (d_shm d1) (p # ps)" "proc_pid (sm_procs (d_shm d1) p) = snd (ce_peercred (ev_client ev1))"
    "\<forall>i < sRPC_FNNUM. p \<in> set (entries (d_shm d1) i) \<longleftrightarrow> bit (rm_bmp m) i" "srv_clients (d_srv d1) = srv_clients (d_srv d) + 1"
    "d_open d2 = d_open d" "d_watch d2 = d_watch d" "d_srv d2 = (d_srv d)\<lparr>srv_pool := snd (srpc_pool_free ed pool)\<rparr>"
    "lists_ok (d_shm d2) ps" "\<forall>i < sRPC_FNNUM. main_block (func_of (d_shm d2) i) = main_block (func_of (d_shm d) i) \<and> num_all (func_of (d_shm d2) i) = num_all (func_of (d_shm d) i)"
    "tlsf_inv (sm_pool (d_shm d2)) bs2" "heap_abs (sm_pool (d_shm d2)) bs2 = (heap_abs (sm_pool (d_shm d)) bs)(p \<mapsto> k)"
    "heap_abs (sm_pool (d_shm d)) bs p = None" "bk_type k = LIBSRPC_SHMDT_PROC" "bk_dc k" by blast
  show ?thesis
    by (rule exI [of _ d1], rule exI [of _ d2], rule exI [of _ p], rule exI [of _ k], rule exI [of _ bs2]) (use r in simp)
qed

section \<open>A small daemon\<close>

text \<open>A daemon without clients: an empty segment, a server that listens and a pool for two connections.\<close>

definition dawn_shm :: shmem where "dawn_shm = empty_registry\<lparr>sm_pool := new_pool 8192\<rparr>"
definition dawn_cx :: srpc_ctx where "dawn_cx = some_cx\<lparr>cx_uid := 1\<rparr>"
definition dawn_pool :: srpc_pool_fba where "dawn_pool = the (srpc_pool_create 4096 2 32)"
definition dawn_name :: "u8 list" where "dawn_name = [115, 114, 112, 99]"

definition dawn :: daemon where
  "dawn = \<lparr>d_srv = \<lparr>srv_socket = 3, srv_epfd = 4, srv_epsrv = \<lparr>ed_socket = 3, ed_epfd = 4, ed_events = EPOLLIN, ed_func = ServerWorker, ed_pid = 0\<rparr>,
       srv_pool = [dawn_pool], srv_pshm_fd = Some 5, srv_clients = 0, srv_init = True\<rparr>, d_epsrv = 8,
     d_eds = \<lambda>_. \<lparr>ed_socket = 0, ed_epfd = 0, ed_events = 0, ed_func = NoFunc, ed_pid = 0\<rparr>, d_open = [3, 4, 5], d_watch = [(3, 8)],
     d_uid_next = 2, d_cx = dawn_cx, d_gc = some_gc, d_shm = dawn_shm\<rparr>"

definition dawn_msg :: regfn_msg where "dawn_msg = \<lparr>rm_size = 48, rm_sign = strncpy32 dawn_name 31, rm_bmp = 5\<rparr>"

definition dawn_env :: "(int + u8 list) list \<Rightarrow> client_env" where
  "dawn_env rs = \<lparr>ce_mallocs = [], ce_peercred = (0, 77), ce_proc = some_penv, ce_timeo = 0, ce_reads = rs, ce_send_fd = 1, ce_epoll = 0,
     ce_destroy = doom_env, ce_name = dawn_name\<rparr>"

lemma dawn_alloc: "srpc_pool_alloc [] [dawn_pool] = (4160, snd (srpc_pool_alloc [] [dawn_pool]))"
proof -
  have "fst (srpc_pool_alloc [] [dawn_pool]) = 4160" by code_simp
  then show ?thesis by (metis prod.collapse)
qed

lemma dawn_segment:
  "segment_ok 2 [] [10816] dawn_shm" "settled [] [10816] dawn_shm" "uids_clean 1 [] [10816] dawn_shm" "proc_env_ok 2 some_penv dawn_shm"
  "uid_room 2 (uids_of dawn_shm [])" "libsrpc_shmem_get dawn_cx" "cx_uid dawn_cx = 1"
proof -
  note inv = new_pool_inv [OF pool_args_concrete(2)]
  have g: "sm_pool dawn_shm = new_pool 8192" "sm_poolptr dawn_shm = 4096" "sm_lists dawn_shm = empty_store" "sm_proc_head dawn_shm = 512" "sm_gc_head dawn_shm = 528"
    by (simp_all add: dawn_shm_def empty_registry_def some_shm_def)
  have f: "func_of dawn_shm i = func_of empty_registry i" for i by (simp add: func_of_def dawn_shm_def)
  have e: "entries dawn_shm i = replicate 8 0" if "i < sRPC_FNNUM" for i using that by (simp add: entries_def f empty_registry_func)
  have "used (replicate 8 0) = 0" by (simp add: used_def)
  moreover have "length (sm_funcs dawn_shm) = sRPC_FNNUM" by (simp add: dawn_shm_def empty_registry_def sRPC_FNNUM_def)
  ultimately have "registry_ok dawn_shm" by (simp add: registry_ok_def exts_apart_def e f empty_registry_func LIBSRPC_RFMB_SZ_def)
  moreover have "exts_live dawn_shm [10816]" by (simp add: exts_live_def f empty_registry_func)
  ultimately show "segment_ok 2 [] [10816] dawn_shm" using inv(1) empty_store_ok(1) [of 512] by (simp add: segment_ok_def lists_ok_def g)
  have "6720 \<le> unat (heap_start (new_pool 8192))" using inv(1) by (auto simp: tlsf_inv_def heap_inv_def heap_ok_def geom_def)
  then show "settled [] [10816] dawn_shm" using e inv by (simp add: settled_def g empty_store_def)
  show "uids_clean 1 [] [10816] dawn_shm" using inv by (simp add: uids_clean_def locked_uid_def g)
  have r: "request_to_block_size 256 = 320" "mapping_search 320 = (8, 10)" "mapping_search 1472 = (10, 11)" by code_simp+
  have "found_block 256 (new_pool 8192) = 10816"
    using found_single [of "new_pool 8192" "[10816]" 10816 256] inv(1,3,4) by (simp add: tlsf_inv_def r class_le_def)
  then show "proc_env_ok 2 some_penv dawn_shm" using inv(4) good_cap_2 by (simp add: proc_env_ok_def some_penv_def THREAD_SZ_def pool_room_def g r(1))
  show "uid_room 2 (uids_of dawn_shm [])" by (auto simp: uid_room_def uids_of_def)
  show "libsrpc_shmem_get dawn_cx" "cx_uid dawn_cx = 1" by (simp_all add: dawn_cx_def some_cx_def libsrpc_shmem_get_def)
qed

lemma dawn_message: "message_ok dawn_name dawn_msg dawn_shm" "read_full [Inr (msg_bytes dawn_msg)] REGFN_MSG_SZ = Some (0, msg_bytes dawn_msg)"
proof -
  have n: "0 \<notin> set dawn_name" "length dawn_name < 32" by (simp_all add: dawn_name_def)
  have l: "length (rm_sign dawn_msg) = 32" using strncpy32_sign(1) [OF n(1)] by (simp add: dawn_msg_def)
  have "reg_room dawn_shm i" if "i < sRPC_FNNUM" for i using that empty_registry_func by (simp add: reg_room_def dawn_shm_def func_of_def)
  then show "message_ok dawn_name dawn_msg dawn_shm" using l strncpy32_sign(2) [OF n(1)] n(2) by (simp add: message_ok_def dawn_msg_def REGFN_MSG_SZ_def)
  show "read_full [Inr (msg_bytes dawn_msg)] REGFN_MSG_SZ = Some (0, msg_bytes dawn_msg)"
    using read_full_delivers [of "[Inr (msg_bytes dawn_msg)]" "msg_bytes dawn_msg"] msg_roundtrip(1) [OF l]
    by (auto simp: steady_def REGFN_MSG_SZ_def simp flip: length_greater_0_conv)
qed

definition dawn_in :: srv_event where
  "dawn_in = \<lparr>ev_ptr = 8, ev_events = EPOLLIN, ev_accept = (6, 0), ev_client = dawn_env [Inr (msg_bytes dawn_msg)], ev_recv = 0\<rparr>"

definition dawn_out :: srv_event where
  "dawn_out = \<lparr>ev_ptr = 4160, ev_events = EPOLLHUP, ev_accept = (0, 0), ev_client = dawn_env [], ev_recv = 0\<rparr>"

lemma session_leaves_no_trace_witness:
  "\<exists>d1 d2 p. libsrpc_unix_server_epoll_wait (Inr [dawn_in]) dawn = Some (0, d1) \<and> libsrpc_unix_server_epoll_wait (Inr [dawn_in, dawn_out]) dawn = Some (0, d2) \<and>
     p \<in> set (entries (d_shm d1) 2) \<and> p \<notin> set (entries (d_shm d1) 1) \<and> srv_clients (d_srv d1) = 1 \<and>
     d_open d2 = [3, 4, 5] \<and> srv_clients (d_srv d2) = 0 \<and> lists_ok (d_shm d2) []"
proof -
  let ?pool = "snd (srpc_pool_alloc [] [dawn_pool])"
  have f: "d_shm dawn = dawn_shm" "d_cx dawn = dawn_cx" "d_uid_next dawn = 2" by (simp_all add: dawn_def)
  have ad: "admission_ok 2 [] (ev_client dawn_in) dawn_msg 4160 ?pool dawn"
    using dawn_alloc dawn_message dawn_segment(4) by (simp add: admission_ok_def dawn_in_def dawn_env_def f) (simp add: dawn_def)
  have s: "segment_ok 2 [] [10816] (d_shm dawn)" "settled [] [10816] (d_shm dawn)" "libsrpc_shmem_get (d_cx dawn)" "cx_uid (d_cx dawn) \<noteq> 0" "cx_uid (d_cx dawn) < d_uid_next dawn"
    "uid_room (d_uid_next dawn) (uids_of (d_shm dawn) [])" "uids_clean (cx_uid (d_cx dawn)) [] [10816] (d_shm dawn)" using dawn_segment by (simp_all add: f)
  have e: "ed_func (srv_epsrv (d_srv dawn)) = ServerWorker" "d_epsrv dawn \<noteq> 0" "ev_ptr dawn_in = d_epsrv dawn" "0 < fst (ev_accept dawn_in)"
    "fst (ev_accept dawn_in) \<notin> set (d_open dawn)" "fst (ev_accept dawn_in) \<notin> fst ` set (d_watch dawn)"
    "ev_ptr dawn_out = 4160" "ev_events dawn_out AND (EPOLLHUP OR EPOLLRDHUP) \<noteq> 0" "de_cap (ce_destroy (ev_client dawn_out)) = 2" "0 < de_fuel (ce_destroy (ev_client dawn_out))"
    by (simp_all add: dawn_def dawn_in_def dawn_out_def EPOLLHUP_def EPOLLRDHUP_def dawn_env_def doom_env_def)
  from session_leaves_no_trace [OF s ad e] obtain d1 d2 p where
    r: "libsrpc_unix_server_epoll_wait (Inr [dawn_in]) dawn = Some (0, d1)" "libsrpc_unix_server_epoll_wait (Inr [dawn_in, dawn_out]) dawn = Some (0, d2)"
      "\<forall>i < sRPC_FNNUM. p \<in> set (entries (d_shm d1) i) \<longleftrightarrow> bit (rm_bmp dawn_msg) i" "srv_clients (d_srv d1) = srv_clients (d_srv dawn) + 1"
      "d_open d2 = d_open dawn" "srv_clients (d_srv d2) = srv_clients (d_srv dawn)" "lists_ok (d_shm d2) []" by blast
  have "bit (rm_bmp dawn_msg) 2" "\<not> bit (rm_bmp dawn_msg) 1" by (simp_all add: dawn_msg_def bit_numeral_rec)
  then have "p \<in> set (entries (d_shm d1) 2)" "p \<notin> set (entries (d_shm d1) 1)" using r(3) by (simp_all add: sRPC_FNNUM_def)
  moreover have "srv_clients (d_srv dawn) = 0" "d_open dawn = [3, 4, 5]" by (simp_all add: dawn_def)
  ultimately show ?thesis using r by auto
qed

lemma broken_registration_keeps_process_witness:
  "\<exists>d'. libsrpc_unix_server_addclient (dawn_env [Inl 11]) 6 dawn = Some (- 1, d') \<and> 6 \<notin> set (d_open d') \<and>
     (\<exists>p. libsrpc_proc_get 77 (d_cx d') (d_shm d') = Some (p, d_cx d') \<and> p \<noteq> 0)"
proof -
  note e = dawn_segment(4) [unfolded proc_env_ok_def]
  have refused: "read_full [Inl 11] 48 = Some (- 1, [])" by code_simp
  obtain uid where u: "uid_search 100 (uids_of dawn_shm []) 2 = (uid, uid)" "uid \<noteq> 0" by (rule uid_room_search [OF dawn_segment(5)])
  have own: "cx_uid dawn_cx \<noteq> 0" "(0 :: int) < 77" using dawn_segment(7) by simp_all
  obtain p cx1 sm1 bs1 where c: "libsrpc_proc_create some_penv 77 2 dawn_cx dawn_shm = Some (0, uid, cx1, sm1)" "libsrpc_shmem_get cx1"
    "segment_ok 2 [p] bs1 sm1" "p \<noteq> 0" "sm_procs sm1 = (sm_procs dawn_shm)(p := new_proc some_penv 77 uid)"
    by (rule create_segment [OF dawn_segment(1,2,6) own _ _ _ _ _ _ _ _ _ _ u, of some_penv]) (use e in auto)
  have l: "lists_ok sm1 [p]" using c(3) by (simp add: segment_ok_def)
  have get: "libsrpc_proc_get 77 cx1 sm1 = Some (p, cx1)" using c(2,5) lists_okD(1) [OF l] by (simp add: libsrpc_proc_get_def new_proc_def)
  have a: "srpc_pool_alloc (ce_mallocs (dawn_env [Inl 11])) (srv_pool (d_srv dawn)) = (4160, snd (srpc_pool_alloc [] [dawn_pool]))"
    using dawn_alloc by (simp add: dawn_env_def dawn_def)
  have h: "(4160 :: u64) \<noteq> 0" "ce_peercred (dawn_env [Inl 11]) = (0, 77)"
    "libsrpc_proc_create (ce_proc (dawn_env [Inl 11])) 77 (d_uid_next dawn) (d_cx dawn) (d_shm dawn) = Some (0, uid, cx1, sm1)"
    "0 \<le> ce_timeo (dawn_env [Inl 11])" "read_full (ce_reads (dawn_env [Inl 11])) REGFN_MSG_SZ = Some (- 1, [])" "(- 1 :: int) < 0"
    using c(1) refused by (simp_all add: dawn_env_def dawn_def REGFN_MSG_SZ_def)
  from broken_registration_keeps_process [OF a h(1-3) c(2) get c(4) h(4-6), of 6] c(4) show ?thesis by blast
qed

end
