(* ===== verification/Srpc_Daemon.thy ===== *)
theory Srpc_Daemon
  imports Srpc_Session
begin

text \<open>
  The life of the segment and of the daemon: creation, mapping and destruction of the segment
  (\<^verbatim>\<open>src/libsrpc_shmem.c\<close>), the daemon's main function (\<^verbatim>\<open>src/libsrpc_daemon.c\<close>) and the switch between the
  two allocators (\<^verbatim>\<open>src/libsrpc.c\<close>). System calls are arguments. Whether the segment is mapped (\<^verbatim>\<open>pool->shm\<close>)
  is the field \<open>cx_shm\<close> of the context. \<^verbatim>\<open>tlsf_destroy\<close>, which only destroys a mutex, has no effect here.
\<close>

section \<open>The segment\<close>

definition SHMEM_BASE_VADR :: u64 where "SHMEM_BASE_VADR = 0x200000000000"
definition SHMEM_SIZE :: u64 where "SHMEM_SIZE = 2 * 1024 * 1024"

text \<open>The layout of \<^verbatim>\<open>libsrpc_shmem_t\<close>: its size, which is also the offset of \<^verbatim>\<open>poolptr\<close>, and the offsets of the two list heads.\<close>

definition SHM_SZ :: u64 where "SHM_SZ = 576"
definition SHM_PROC_HEAD :: u64 where "SHM_PROC_HEAD = 456"
definition SHM_GC_HEAD :: u64 where "SHM_GC_HEAD = 520"

record shm_header =
  sh_sign :: "u8 list"
  sh_basevadr :: u64
  sh_shmsize :: u64
  sh_poolsize :: u64

record libsrpc_shmem_pool =
  sp_size :: u64
  sp_fd :: int

record host =
  h_d :: daemon
  h_pool :: libsrpc_shmem_pool
  h_hdr :: shm_header
  h_is_daemon :: bool

text \<open>Results of \<^verbatim>\<open>memfd_create\<close>, \<^verbatim>\<open>ftruncate\<close>, \<^verbatim>\<open>mmap\<close> (with \<^verbatim>\<open>MAP_FIXED_NOREPLACE\<close>: the address asked for), \<^verbatim>\<open>madvise\<close>, of the
  initialisation of the spin lock, and of the collector's semaphore and thread; an error number where the call fails.\<close>

record mem_env =
  me_memfd :: "int + int"
  me_truncate :: "int option"
  me_mmap :: "int option"
  me_madvise :: int
  me_spin :: int
  me_gc_sem :: int
  me_gc_start :: int

definition put_d :: "(daemon \<Rightarrow> daemon) \<Rightarrow> host \<Rightarrow> host" where "put_d f h = h\<lparr>h_d := f (h_d h)\<rparr>"
definition put_sp :: "(libsrpc_shmem_pool \<Rightarrow> libsrpc_shmem_pool) \<Rightarrow> host \<Rightarrow> host" where "put_sp f h = h\<lparr>h_pool := f (h_pool h)\<rparr>"
definition set_mapped :: "bool \<Rightarrow> daemon \<Rightarrow> daemon" where "set_mapped b d = d\<lparr>d_cx := (d_cx d)\<lparr>cx_shm := b\<rparr>\<rparr>"

text \<open>\<^verbatim>\<open>memset(pool->shm, 0, size)\<close> and the addresses inside the segment.\<close>

definition zero_segment :: "u64 \<Rightarrow> u64 \<Rightarrow> shmem \<Rightarrow> shmem" where
  "zero_segment va sz sm =
     (let inside = (\<lambda>a. va \<le> a \<and> a < va + sz) in
      \<lparr>sm_pool = (sm_pool sm)\<lparr>mem := \<lambda>a. if inside a then 0 else mem (sm_pool sm) a\<rparr>, sm_poolptr = va + SHM_SZ,
       sm_funcs = replicate sRPC_FNNUM \<lparr>num_all = 0, ext_block = 0, main_block = replicate LIBSRPC_RFMB_SZ 0\<rparr>, sm_send_rr = replicate sRPC_FNNUM 0,
       sm_lists = \<lparr>node_at = \<lambda>a. if inside a then \<lparr>node_next = 0, node_head = 0\<rparr> else node_at (sm_lists sm) a,
                   head_at = \<lambda>a. if inside a then \<lparr>list_first = 0, write_ops = 0\<rparr> else head_at (sm_lists sm) a\<rparr>,
       sm_proc_head = va + SHM_PROC_HEAD, sm_procs = \<lambda>a. if inside a then zero_proc 0 else sm_procs sm a,
       sm_reqs = \<lambda>a. if inside a then zero_req 0 else sm_reqs sm a, sm_gc_head = va + SHM_GC_HEAD, sm_gc_sem = None\<rparr>)"

text \<open>The label \<^verbatim>\<open>err\<close>.\<close>

definition shmem_create_err :: "int \<Rightarrow> host \<Rightarrow> int \<times> host" where
  "shmem_create_err rc h =
     (let fd = sp_fd (h_pool h) in
      (rc, put_sp (\<lambda>p. p\<lparr>sp_fd := - 1\<rparr>) (put_d (set_mapped False) (if fd > 0 then put_d (close_fd fd) h else h))))"

definition shmem_format :: "mem_env \<Rightarrow> u8 list \<Rightarrow> u64 \<Rightarrow> u64 \<Rightarrow> host \<Rightarrow> int \<times> host" where
  "shmem_format env name sz va h =
     (let sm0 = zero_segment va sz (d_shm (h_d h));
          h1 = h\<lparr>h_hdr := \<lparr>sh_sign = strncpy32 name 31, sh_basevadr = va, sh_shmsize = sz, sh_poolsize = sz - SHM_SZ\<rparr>\<rparr>;
          (tlsf, c) = tlsf_create (sm_poolptr sm0) (sz - SHM_SZ) (sm_pool sm0);
          sm1 = sm0\<lparr>sm_pool := c\<rparr>
      in if tlsf = 0 then shmem_create_err (- ENOMEM) (put_d (\<lambda>d. d\<lparr>d_shm := sm1\<rparr>) h1)
         else
           let (rc, ls) = libsrpc_list_head_init (me_spin env) (sm_proc_head sm1) (sm_lists sm1); sm2 = sm1\<lparr>sm_lists := ls\<rparr> in
           if rc < 0 then shmem_create_err rc (put_d (\<lambda>d. d\<lparr>d_shm := sm2\<rparr>) h1)
           else
             let (_, g, sm3) = libsrpc_shm_gc_init (me_gc_sem env) (me_gc_start env) (d_cx (h_d h1)) (d_gc (h_d h1)) sm2
             in (rc, put_d (\<lambda>d. d\<lparr>d_gc := g, d_shm := sm3\<rparr>) h1))"

text \<open>The name is not \<^verbatim>\<open>NULL\<close>, nor is the pool.\<close>

definition libsrpc_shmem_create :: "mem_env \<Rightarrow> u8 list \<Rightarrow> u64 \<Rightarrow> u64 \<Rightarrow> host \<Rightarrow> int \<times> host" where
  "libsrpc_shmem_create env name sz va h =
     (let h0 = put_d (set_mapped False) h in
      case me_memfd env of
        Inl e \<Rightarrow> shmem_create_err (- e) (put_sp (\<lambda>p. p\<lparr>sp_fd := - 1\<rparr>) h0)
      | Inr fd \<Rightarrow>
          let h1 = put_sp (\<lambda>p. p\<lparr>sp_fd := fd\<rparr>) (put_d (\<lambda>d. d\<lparr>d_open := fd # d_open d\<rparr>) h0) in
          case me_truncate env of
            Some e \<Rightarrow> shmem_create_err (- e) h1
          | None \<Rightarrow>
              let h2 = put_sp (\<lambda>p. p\<lparr>sp_size := sz\<rparr>) h1 in
              case me_mmap env of
                Some e \<Rightarrow> shmem_create_err (- e) h2
              | None \<Rightarrow>
                  let h3 = put_d (set_mapped True) h2 in
                  if me_madvise env \<noteq> 0 then shmem_create_err (me_madvise env) h3 else shmem_format env name sz va h3)"

text \<open>A client maps the segment: \<open>st\<close> is the size or the error of \<^verbatim>\<open>fstat\<close>, \<open>mm\<close> the error of \<^verbatim>\<open>mmap\<close>, \<open>sign\<close> the signature
  that is found in the segment. The result tells the size when the segment stays mapped.\<close>

definition libsrpc_shmem_open :: "int + u64 \<Rightarrow> int option \<Rightarrow> u8 list \<Rightarrow> int \<Rightarrow> int \<Rightarrow> u8 list \<Rightarrow> libsrpc_shmem_pool \<Rightarrow> srpc_ctx \<Rightarrow> int \<times> libsrpc_shmem_pool \<times> srpc_ctx" where
  "libsrpc_shmem_open st mm sign madv fd name p cx =
     (case st of
        Inl e \<Rightarrow> (- e, p, cx)
      | Inr sz \<Rightarrow>
          (case mm of
             Some e \<Rightarrow> (- e, p, cx)
           | None \<Rightarrow>
               if \<not> strncmp_eq 32 sign name then (- EINVAL, p, cx)
               else if madv \<noteq> 0 then (madv, p, cx)
               else (0, p\<lparr>sp_fd := fd, sp_size := sz\<rparr>, cx\<lparr>cx_shm := True\<rparr>)))"

text \<open>\<open>sem_rc\<close>, \<open>spin_rc\<close> and \<open>unmap_rc\<close>: the results of the three destructions.\<close>

definition libsrpc_shmem_destroy :: "int \<Rightarrow> int \<Rightarrow> int \<Rightarrow> host \<Rightarrow> int \<times> host" where
  "libsrpc_shmem_destroy sem_rc spin_rc unmap_rc h =
     (if \<not> cx_shm (d_cx (h_d h)) then (- EINVAL, h)
      else
        let (_, g, sm) = libsrpc_shm_gc_destroy sem_rc (d_cx (h_d h)) (d_gc (h_d h)) (d_shm (h_d h)) in
        (unmap_rc, put_sp (\<lambda>p. p\<lparr>sp_fd := - 1\<rparr>) (put_d (\<lambda>d. set_mapped False (close_fd (sp_fd (h_pool h)) (d\<lparr>d_gc := g, d_shm := sm\<lparr>sm_pool := tlsf_destroy (sm_poolptr sm) (sm_pool sm)\<rparr>\<rparr>))) h)))"

text \<open>Programs of another build are kept apart: a client of the name \<open>n\<close> accepts the segment of a daemon of the name \<open>m\<close>
  exactly when \<open>n\<close> is the first 31 characters of \<open>m\<close>.\<close>

lemma shmem_open_guard:
  assumes "0 \<notin> set m" "0 \<notin> set n"
  shows "libsrpc_shmem_open (Inr sz) None (strncpy32 m 31) 0 fd n p cx =
    (if take 31 m = n then (0, p\<lparr>sp_fd := fd, sp_size := sz\<rparr>, cx\<lparr>cx_shm := True\<rparr>) else (- EINVAL, p, cx))"
proof -
  have a: "takeWhile (\<lambda>c. c \<noteq> 0) (take 32 (strncpy32 m 31)) = take 31 m"
    using assms(1) by (simp add: strncpy32_def Let_def takeWhile_append2 [of "take 31 m"] in_set_takeD [of 0 31 m] takeWhile_tail)
       (auto simp: takeWhile_append dest: in_set_takeD)
  have b: "takeWhile (\<lambda>c. c \<noteq> 0) (take 32 n) = take 32 n" using assms(2) by (auto simp: takeWhile_eq_all_conv dest: in_set_takeD)
  have "take 31 m = take 32 n \<longleftrightarrow> take 31 m = n"
  proof
    assume e: "take 31 m = take 32 n"
    then have "length (take 32 n) \<le> 31" by (metis length_take min.cobounded2)
    then show "take 31 m = n" using e by simp
  qed auto
  then have "strncmp_eq 32 (strncpy32 m 31) n \<longleftrightarrow> take 31 m = n" unfolding strncmp_eq_def a b .
  then show ?thesis by (simp add: libsrpc_shmem_open_def)
qed

section \<open>The daemon\<close>

text \<open>The loop over the results of the successive waits; \<open>None\<close>: the results are used up, the daemon goes on waiting.\<close>

fun daemon_loop :: "(int + srv_event list) list \<Rightarrow> daemon \<Rightarrow> (int \<times> daemon) option" where
  "daemon_loop [] d = None"
| "daemon_loop (w # ws) d =
     (case libsrpc_unix_server_epoll_wait w d of
        None \<Rightarrow> None
      | Some (rc, d1) \<Rightarrow> if rc < 0 then Some (rc, d1) else if srv_clients (d_srv d1) = 0 then Some (rc, d1) else daemon_loop ws d1)"

text \<open>The label \<^verbatim>\<open>end\<close>.\<close>

definition daemon_end :: "int \<times> int \<times> int \<Rightarrow> int \<Rightarrow> host \<Rightarrow> int \<times> host" where
  "daemon_end rcs rc h =
     (case rcs of (sem_rc, spin_rc, unmap_rc) \<Rightarrow>
        (rc, if sp_fd (h_pool h) > 0 then snd (libsrpc_shmem_destroy sem_rc spin_rc unmap_rc h) else h))"

definition simplerpc_daemon_main ::
  "server_env \<Rightarrow> mem_env \<Rightarrow> u8 list \<Rightarrow> (int + srv_event list) list \<Rightarrow> int \<times> int \<times> int \<Rightarrow> host \<Rightarrow> (int \<times> host) option" where
  "simplerpc_daemon_main senv menv name ws rcs h =
     (let h0 = put_d (\<lambda>d. d\<lparr>d_cx := (d_cx d)\<lparr>cx_uid := DAEMON_PROC_UID\<rparr>\<rparr>) (h\<lparr>h_is_daemon := True\<rparr>);
          (rc, d1) = libsrpc_unix_server_init senv (h_d h0); h1 = h0\<lparr>h_d := d1\<rparr>
      in if rc < 0 then Some (daemon_end rcs rc h1)
         else
           let (rc, h2) = libsrpc_shmem_create menv name SHMEM_SIZE SHMEM_BASE_VADR h1 in
           if rc < 0 then Some (daemon_end rcs rc h2)
           else
             let h3 = put_d (put_srv (\<lambda>s. s\<lparr>srv_pshm_fd := Some (sp_fd (h_pool h2))\<rparr>)) h2 in
             case daemon_loop ws (h_d h3) of
               None \<Rightarrow> None
             | Some (rc, d4) \<Rightarrow> Some (daemon_end rcs rc (h3\<lparr>h_d := snd (libsrpc_unix_server_exit d4)\<rparr>)))"

section \<open>A fresh segment\<close>

lemma segment_args: "pool_args (SHMEM_BASE_VADR + SHM_SZ) (SHMEM_SIZE - SHM_SZ)"
  by (simp add: pool_args_def aligned64_def SHMEM_BASE_VADR_def SHM_SZ_def SHMEM_SIZE_def)

text \<open>A pool with one free block has room for every request that fits into it.\<close>

lemma single_room:
  assumes "tlsf_inv c bs" "free_blocks c bs = {f}" "sz \<noteq> 0" "unat sz \<le> 2 ^ 40" "unat (request_to_block_size sz) \<le> unat (block_size c f)" "unat (block_size c f) < 2 ^ 41"
  shows "pool_room sz c"
proof -
  have inv: "heap_inv c bs" using assms(1) by (simp add: tlsf_inv_def)
  have h: "heap_ok c bs (free_blocks c bs) {}" using inv by (simp add: heap_inv_def)
  have f: "f \<in> free_blocks c bs" using assms(2) by simp
  then have fb: "f \<in> set bs" by (simp add: free_blocks_member)
  note r = request_aligned(2) [of sz]
  obtain fl sl f' s' where m: "mapping_search (request_to_block_size sz) = (fl, sl)" "mapping_search (block_size c f) = (f', s')" by fastforce
  have "16 \<le> unat (block_size c f)" "16 \<le> unat (request_to_block_size sz)" "unat (request_to_block_size sz) < 2 ^ 41" using r assms(5,6) by simp_all
  with mapping_later_class [of "block_size c f" f' s' "request_to_block_size sz" fl sl] m assms(5,6)
  have "\<not> (f' < fl \<or> f' = fl \<and> s' < sl)" by auto
  then have "class_le (fl, sl) (f', s')" by (auto simp: class_le_def)
  then have "found_block sz c = f" by (intro found_single [OF inv assms(2)]) (simp add: m)
  moreover have "f \<noteq> 0" using chain_no_zero [OF heap_okD(2) [OF h] fb geom_nonzero [OF heap_okD(1) [OF h]]] by simp
  ultimately show ?thesis using assms(3-5) by (simp add: pool_room_def word_le_nat_alt)
qed

text \<open>The first block of the new pool.\<close>

definition FIRST_BLOCK :: u64 where "FIRST_BLOCK = SHMEM_BASE_VADR + SHM_SZ + 6720"

definition new_segment :: "shmem \<Rightarrow> bool" where
  "new_segment sm \<longleftrightarrow> (\<forall>cap. segment_ok cap [] [FIRST_BLOCK] sm) \<and> settled [] [FIRST_BLOCK] sm \<and> (\<forall>own. uids_clean own [] [FIRST_BLOCK] sm) \<and>
     (\<forall>sz. sz \<noteq> 0 \<longrightarrow> unat sz \<le> 2 ^ 20 + 2 ^ 19 \<longrightarrow> pool_room sz (sm_pool sm)) \<and> (\<forall>i < sRPC_FNNUM. reg_room sm i)"

lemma formatted_segment:
  assumes "\<forall>x. node_head (node_at (sm_lists sm) x) = 0"
  obtains c ls where "tlsf_create (sm_poolptr (zero_segment SHMEM_BASE_VADR SHMEM_SIZE sm)) (SHMEM_SIZE - SHM_SZ) (sm_pool (zero_segment SHMEM_BASE_VADR SHMEM_SIZE sm)) =
      (SHMEM_BASE_VADR + SHM_SZ, c)"
    "libsrpc_list_head_init 0 (SHMEM_BASE_VADR + SHM_PROC_HEAD) (sm_lists (zero_segment SHMEM_BASE_VADR SHMEM_SIZE sm)) = (0, ls)"
    "\<And>s. new_segment ((zero_segment SHMEM_BASE_VADR SHMEM_SIZE sm)\<lparr>sm_pool := c, sm_lists := ls, sm_gc_sem := s\<rparr>)"
proof -
  let ?z = "zero_segment SHMEM_BASE_VADR SHMEM_SIZE sm" and ?pm = "SHMEM_BASE_VADR + SHM_SZ"
  have z: "sm_poolptr ?z = ?pm" "sm_proc_head ?z = SHMEM_BASE_VADR + SHM_PROC_HEAD" "sm_gc_head ?z = SHMEM_BASE_VADR + SHM_GC_HEAD"
    "sm_funcs ?z = replicate sRPC_FNNUM \<lparr>num_all = 0, ext_block = 0, main_block = replicate LIBSRPC_RFMB_SZ 0\<rparr>" by (simp_all add: zero_segment_def Let_def)
  have nz: "SHMEM_BASE_VADR + SHM_PROC_HEAD \<noteq> 0" "?pm \<noteq> 0" by (simp_all add: SHMEM_BASE_VADR_def SHM_PROC_HEAD_def SHM_SZ_def)
  obtain c where c: "tlsf_create ?pm (SHMEM_SIZE - SHM_SZ) (sm_pool ?z) = (?pm, c)" "tlsf_inv c [FIRST_BLOCK]" "block_size c FIRST_BLOCK = SHMEM_SIZE - SHM_SZ - 6720"
    "block_is_free c FIRST_BLOCK" "pool_start c = ?pm" by (rule tlsf_create_run [OF segment_args, of "sm_pool ?z"]) (use that in \<open>simp add: FIRST_BLOCK_def\<close>)
  define ls where "ls = put_head (SHMEM_BASE_VADR + SHM_PROC_HEAD) (\<lambda>_. \<lparr>list_first = 0, write_ops = 0\<rparr>) (sm_lists ?z)"
  have l: "libsrpc_list_head_init 0 (SHMEM_BASE_VADR + SHM_PROC_HEAD) (sm_lists ?z) = (0, ls)" using nz(1) by (simp add: libsrpc_list_head_init_def ls_def list_codes)
  have nh: "node_head (node_at ls x) = 0" for x using assms by (simp add: ls_def zero_segment_def Let_def)
  have lo: "list_ok ls (SHMEM_BASE_VADR + SHM_PROC_HEAD) []" using nh nz(1) by (simp add: list_ok_def) (simp add: ls_def)
  have v: "heap_abs c [FIRST_BLOCK] = Map.empty" using c(4) by (auto simp: heap_abs_def fun_eq_iff Let_def)
  have F: "free_blocks c [FIRST_BLOCK] = {FIRST_BLOCK}" using c(4) by (auto simp: free_blocks_def block_word)
  have hs: "unat (SHMEM_BASE_VADR + SHM_SZ) + 6720 \<le> unat (heap_start c)" using c(2,5) by (auto simp: tlsf_inv_def heap_inv_def heap_ok_def geom_def)
  have "new_segment (?z\<lparr>sm_pool := c, sm_lists := ls, sm_gc_sem := s\<rparr>)" (is "new_segment ?s") for s
  proof -
    have fn: "func_of ?s i = \<lparr>num_all = 0, ext_block = 0, main_block = replicate LIBSRPC_RFMB_SZ 0\<rparr>" if "i < sRPC_FNNUM" for i using that by (simp add: func_of_def z)
    have e: "entries ?s i = replicate LIBSRPC_RFMB_SZ 0" if "i < sRPC_FNNUM" for i using fn [OF that] by (simp add: entries_def)
    have "registry_ok ?s" by (simp add: registry_ok_def exts_apart_def e fn used_def) (simp add: z)
    moreover have "exts_live ?s [FIRST_BLOCK]" by (simp add: exts_live_def fn)
    ultimately have "segment_ok cap [] [FIRST_BLOCK] ?s" for cap using lo c(2) nz(2) by (simp add: segment_ok_def lists_ok_def z)
    moreover have "unat (sm_proc_head ?z) \<le> unat (heap_start c)" "unat (sm_gc_head ?z) \<le> unat (heap_start c)" unfolding z(2,3)
      using hs by (simp_all add: SHMEM_BASE_VADR_def SHM_PROC_HEAD_def SHM_GC_HEAD_def SHM_SZ_def)
    then have "settled [] [FIRST_BLOCK] ?s" using e nh by (auto simp: settled_def)
    moreover have "uids_clean own [] [FIRST_BLOCK] ?s" for own using v by (simp add: uids_clean_def locked_uid_def)
    moreover have "pool_room sz (sm_pool ?s)" if "sz \<noteq> 0" "unat sz \<le> 2 ^ 20 + 2 ^ 19" for sz
      using single_room [OF c(2) F that(1)] that(2) request_to_block_size_eq [of sz] by (simp add: c(3) SHMEM_SIZE_def SHM_SZ_def)
    moreover have "reg_room ?s i" if "i < sRPC_FNNUM" for i using fn [OF that] by (simp add: reg_room_def LIBSRPC_RFMB_SZ_def)
    ultimately show ?thesis by (simp add: new_segment_def)
  qed
  with that c(1) l z(1) show thesis by simp
qed

text \<open>The system calls of \<^verbatim>\<open>libsrpc_shmem_create\<close> succeed.\<close>

definition mem_env_ok :: "mem_env \<Rightarrow> int \<Rightarrow> bool" where
  "mem_env_ok env fd \<longleftrightarrow> me_memfd env = Inr fd \<and> 0 < fd \<and> me_truncate env = None \<and> me_mmap env = None \<and> me_madvise env = 0 \<and> me_spin env = 0 \<and>
     me_gc_sem env = 0 \<and> me_gc_start env = 0"

lemma shmem_create_run:
  assumes "mem_env_ok env fd" "cx_data (d_cx (h_d h))" "\<not> gc_init (d_gc (h_d h))" "\<forall>x. node_head (node_at (sm_lists (d_shm (h_d h))) x) = 0"
  obtains sm where "libsrpc_shmem_create env name SHMEM_SIZE SHMEM_BASE_VADR h = (0, h\<lparr>
      h_d := (h_d h)\<lparr>d_open := fd # d_open (h_d h), d_cx := (d_cx (h_d h))\<lparr>cx_shm := True\<rparr>, d_gc := (d_gc (h_d h))\<lparr>gc_init := True\<rparr>, d_shm := sm\<rparr>,
      h_pool := \<lparr>sp_size = SHMEM_SIZE, sp_fd = fd\<rparr>,
      h_hdr := \<lparr>sh_sign = strncpy32 name 31, sh_basevadr = SHMEM_BASE_VADR, sh_shmsize = SHMEM_SIZE, sh_poolsize = SHMEM_SIZE - SHM_SZ\<rparr>\<rparr>)"
    "new_segment sm"
proof -
  let ?sm = "d_shm (h_d h)"
  obtain c ls where c: "tlsf_create (sm_poolptr (zero_segment SHMEM_BASE_VADR SHMEM_SIZE ?sm)) (SHMEM_SIZE - SHM_SZ) (sm_pool (zero_segment SHMEM_BASE_VADR SHMEM_SIZE ?sm)) =
      (SHMEM_BASE_VADR + SHM_SZ, c)"
    "libsrpc_list_head_init 0 (SHMEM_BASE_VADR + SHM_PROC_HEAD) (sm_lists (zero_segment SHMEM_BASE_VADR SHMEM_SIZE ?sm)) = (0, ls)"
    "\<And>s. new_segment ((zero_segment SHMEM_BASE_VADR SHMEM_SIZE ?sm)\<lparr>sm_pool := c, sm_lists := ls, sm_gc_sem := s\<rparr>)"
    by (rule formatted_segment [OF assms(4)]) (rule that)
  have z: "sm_proc_head (zero_segment SHMEM_BASE_VADR SHMEM_SIZE ?sm) = SHMEM_BASE_VADR + SHM_PROC_HEAD" by (simp add: zero_segment_def Let_def)
  have nz: "SHMEM_BASE_VADR + SHM_SZ \<noteq> 0" by (simp add: SHMEM_BASE_VADR_def SHM_SZ_def)
  show thesis
  proof (rule that [OF _ c(3) [of "Some 0"]])
    obtain p where p: "h_pool h = p" by blast
    show "libsrpc_shmem_create env name SHMEM_SIZE SHMEM_BASE_VADR h = (0, h\<lparr>
      h_d := (h_d h)\<lparr>d_open := fd # d_open (h_d h), d_cx := (d_cx (h_d h))\<lparr>cx_shm := True\<rparr>, d_gc := (d_gc (h_d h))\<lparr>gc_init := True\<rparr>,
        d_shm := (zero_segment SHMEM_BASE_VADR SHMEM_SIZE ?sm)\<lparr>sm_pool := c, sm_lists := ls, sm_gc_sem := Some 0\<rparr>\<rparr>,
      h_pool := \<lparr>sp_size = SHMEM_SIZE, sp_fd = fd\<rparr>,
      h_hdr := \<lparr>sh_sign = strncpy32 name 31, sh_basevadr = SHMEM_BASE_VADR, sh_shmsize = SHMEM_SIZE, sh_poolsize = SHMEM_SIZE - SHM_SZ\<rparr>\<rparr>)"
      using assms(1-3) c(1,2) nz
      by (cases p) (simp add: libsrpc_shmem_create_def shmem_format_def mem_env_ok_def Let_def put_d_def put_sp_def set_mapped_def z p
          libsrpc_shm_gc_init_def libsrpc_shmem_get_def)
  qed
qed

definition server_env_ok :: "server_env \<Rightarrow> int \<Rightarrow> int \<Rightarrow> bool" where
  "server_env_ok env epfd sck \<longleftrightarrow> fba_args (se_pool env) 128 ED_SZ \<and> se_epoll env = Inr epfd \<and> 0 < epfd \<and> se_socket env = Inr sck \<and> 0 < sck \<and>
     se_bind env = None \<and> se_listen env = None \<and> se_ctl env = 0"

lemma server_init_run:
  assumes "server_env_ok env epfd sck" "\<not> srv_init (d_srv d)" "d_epsrv d \<noteq> 0"
  obtains p q where "libsrpc_unix_server_init env d = (0, d\<lparr>d_srv := (d_srv d)\<lparr>srv_socket := sck, srv_epfd := epfd,
      srv_epsrv := \<lparr>ed_socket = sck, ed_epfd = epfd, ed_events = EPOLLIN, ed_func = ServerWorker, ed_pid = q\<rparr>, srv_pool := [p], srv_init := True\<rparr>,
      d_open := sck # epfd # d_open d, d_watch := (sck, d_epsrv d) # d_watch d\<rparr>)"
    "fba_rep p (map of_nat [0..<128])" "fba_geom p" "fba_blk_nums p = 128" "fba_block_addr p 0 = se_pool env + 576"
proof -
  have e: "fba_args (se_pool env) 128 ED_SZ" using assms(1) by (simp add: server_env_ok_def)
  obtain p where p: "srpc_pool_create (se_pool env) 128 ED_SZ = Some p" "fba_rep p (map of_nat [0..<128])" "fba_geom p"
    "fba_base p = se_pool env" "fba_blk_nums p = 128" "fba_offset p = fba_fifo_size_of 128" by (rule create_ok [OF e]) simp
  have "fba_fifo_size_of 128 = 576" by (simp add: fba_fifo_size_of_def)
  then have "fba_block_addr p 0 = se_pool env + 576" using p(4,6) by (simp add: fba_block_addr_def)
  then show thesis
    using assms p by (intro that [of p "ed_pid (srv_epsrv (d_srv d))"])
      (simp_all add: libsrpc_unix_server_init_def server_env_ok_def Let_def put_srv_def libsrpc_unix_scoket_server_create_def libsrpc_epoll_add_def)
qed

section \<open>From start to end\<close>

text \<open>The daemon right before its loop.\<close>

definition waiting :: "int \<Rightarrow> int \<Rightarrow> int \<Rightarrow> srpc_pool_fba \<Rightarrow> host \<Rightarrow> daemon \<Rightarrow> bool" where
  "waiting epfd sck fd p h d \<longleftrightarrow> ed_func (srv_epsrv (d_srv d)) = ServerWorker \<and> srv_socket (d_srv d) = sck \<and> srv_epfd (d_srv d) = epfd \<and> srv_init (d_srv d) \<and>
     srv_pool (d_srv d) = [p] \<and> srv_clients (d_srv d) = srv_clients (d_srv (h_d h)) \<and> d_epsrv d = d_epsrv (h_d h) \<and>
     d_open d = fd # sck # epfd # d_open (h_d h) \<and> d_watch d = (sck, d_epsrv (h_d h)) # d_watch (h_d h) \<and> d_uid_next d = d_uid_next (h_d h) \<and>
     libsrpc_shmem_get (d_cx d) \<and> cx_uid (d_cx d) = DAEMON_PROC_UID \<and> gc_init (d_gc d) \<and> new_segment (d_shm d)"

lemma daemon_start_run:
  assumes "server_env_ok senv epfd sck" "mem_env_ok menv fd" "\<not> srv_init (d_srv (h_d h))" "d_epsrv (h_d h) \<noteq> 0" "cx_data (d_cx (h_d h))" "\<not> gc_init (d_gc (h_d h))"
    "\<forall>x. node_head (node_at (sm_lists (d_shm (h_d h))) x) = 0"
  obtains d p h3 where "waiting epfd sck fd p h d" "fba_rep p (map of_nat [0..<128])" "fba_geom p" "fba_blk_nums p = 128" "fba_block_addr p 0 = se_pool senv + 576"
    "h_pool h3 = \<lparr>sp_size = SHMEM_SIZE, sp_fd = fd\<rparr>"
    "\<And>ws rcs. simplerpc_daemon_main senv menv name ws rcs h =
       map_option (\<lambda>(rc, d4). daemon_end rcs rc (h3\<lparr>h_d := snd (libsrpc_unix_server_exit d4)\<rparr>)) (daemon_loop ws d)"
proof -
  define h0 where "h0 = put_d (\<lambda>d. d\<lparr>d_cx := (d_cx d)\<lparr>cx_uid := DAEMON_PROC_UID\<rparr>\<rparr>) (h\<lparr>h_is_daemon := True\<rparr>)"
  have i: "\<not> srv_init (d_srv (h_d h0))" "d_epsrv (h_d h0) \<noteq> 0" using assms(3,4) by (simp_all add: h0_def put_d_def)
  obtain p q where s: "libsrpc_unix_server_init senv (h_d h0) = (0, (h_d h0)\<lparr>d_srv := (d_srv (h_d h0))\<lparr>srv_socket := sck, srv_epfd := epfd,
      srv_epsrv := \<lparr>ed_socket = sck, ed_epfd = epfd, ed_events = EPOLLIN, ed_func = ServerWorker, ed_pid = q\<rparr>, srv_pool := [p], srv_init := True\<rparr>,
      d_open := sck # epfd # d_open (h_d h0), d_watch := (sck, d_epsrv (h_d h0)) # d_watch (h_d h0)\<rparr>)" (is "_ = (0, ?d1)")
    "fba_rep p (map of_nat [0..<128])" "fba_geom p" "fba_blk_nums p = 128" "fba_block_addr p 0 = se_pool senv + 576" by (rule server_init_run [OF assms(1) i])
  let ?h1 = "h0\<lparr>h_d := ?d1\<rparr>"
  have j: "cx_data (d_cx (h_d ?h1))" "\<not> gc_init (d_gc (h_d ?h1))" "\<forall>x. node_head (node_at (sm_lists (d_shm (h_d ?h1))) x) = 0"
    using assms(5-7) by (simp_all add: h0_def put_d_def)
  obtain sm where c: "libsrpc_shmem_create menv name SHMEM_SIZE SHMEM_BASE_VADR ?h1 = (0, ?h1\<lparr>
      h_d := (h_d ?h1)\<lparr>d_open := fd # d_open (h_d ?h1), d_cx := (d_cx (h_d ?h1))\<lparr>cx_shm := True\<rparr>, d_gc := (d_gc (h_d ?h1))\<lparr>gc_init := True\<rparr>, d_shm := sm\<rparr>,
      h_pool := \<lparr>sp_size = SHMEM_SIZE, sp_fd = fd\<rparr>,
      h_hdr := \<lparr>sh_sign = strncpy32 name 31, sh_basevadr = SHMEM_BASE_VADR, sh_shmsize = SHMEM_SIZE, sh_poolsize = SHMEM_SIZE - SHM_SZ\<rparr>\<rparr>)" (is "_ = (0, ?h2)")
    "new_segment sm" by (rule shmem_create_run [OF assms(2) j])
  define h3 where "h3 = put_d (put_srv (\<lambda>s. s\<lparr>srv_pshm_fd := Some (sp_fd (h_pool ?h2))\<rparr>)) ?h2"
  have w: "waiting epfd sck fd p h (h_d h3)"
    using assms(5) c(2) by (simp add: waiting_def h3_def h0_def put_d_def put_srv_def libsrpc_shmem_get_def)
  have "simplerpc_daemon_main senv menv name ws rcs h =
      map_option (\<lambda>(rc, d4). daemon_end rcs rc (h3\<lparr>h_d := snd (libsrpc_unix_server_exit d4)\<rparr>)) (daemon_loop ws (h_d h3))" for ws rcs
    unfolding simplerpc_daemon_main_def h0_def [symmetric] Let_def s(1) c(1) prod.case h3_def [symmetric] by (simp split: option.split)
  then show thesis by (intro that [OF w s(2-5)]) (simp_all add: h3_def put_d_def)
qed

text \<open>What is left when the daemon has ended.\<close>

definition shut_down :: "host \<Rightarrow> host \<Rightarrow> bool" where
  "shut_down h h' \<longleftrightarrow> d_open (h_d h') = d_open (h_d h) \<and> \<not> srv_init (d_srv (h_d h')) \<and> srv_clients (d_srv (h_d h')) = 0 \<and> \<not> cx_shm (d_cx (h_d h')) \<and>
     gc_stop (d_gc (h_d h')) \<and> \<not> gc_init (d_gc (h_d h')) \<and> sp_fd (h_pool h') = - 1"

lemma daemon_finish:
  assumes "srv_init (d_srv d)" "srv_pool (d_srv d) = [p]" "srv_clients (d_srv d) = 0" "libsrpc_shmem_get (d_cx d)" "gc_init (d_gc d)"
    "d_open d = fd # srv_socket (d_srv d) # srv_epfd (d_srv d) # d_open (h_d h)" "distinct (d_open d)" "sp_fd (h_pool h3) = fd" "0 < fd"
  shows "fst (daemon_end rcs rc (h3\<lparr>h_d := snd (libsrpc_unix_server_exit d)\<rparr>)) = rc \<and> shut_down h (snd (daemon_end rcs rc (h3\<lparr>h_d := snd (libsrpc_unix_server_exit d)\<rparr>)))"
proof -
  obtain a b c where r: "rcs = (a, b, c)" by (cases rcs)
  obtain sm where w: "snd (libsrpc_shm_gc_wakeup (d_cx d) (d_shm d)) = sm" by blast
  define d1 where "d1 = close_fd (srv_socket (d_srv d)) (close_fd (srv_epfd (d_srv d)) (put_srv (\<lambda>s. s\<lparr>srv_init := False\<rparr>) d))"
  have x: "libsrpc_unix_server_exit d = (0, put_srv (\<lambda>s. s\<lparr>srv_pool := []\<rparr>) d1)"
    using assms(1,2) by (simp add: libsrpc_unix_server_exit_def FBA_FOREACH_POOL_def Let_def d1_def)
  have o: "removeAll fd (d_open d1) = d_open (h_d h)"
    using assms(6,7) by (auto simp: d1_def close_fd_def put_srv_def removeAll_id)
  have "cx_shm (d_cx d1)" "libsrpc_shmem_get (d_cx d1)" "gc_init (d_gc d1)" "srv_clients (d_srv d1) = 0" "\<not> srv_init (d_srv d1)"
    using assms(3-5) by (simp_all add: d1_def close_fd_def put_srv_def libsrpc_shmem_get_def)
  then show ?thesis
    using assms(8,9) o by (auto simp: daemon_end_def r libsrpc_shmem_destroy_def x put_sp_def put_d_def set_mapped_def close_fd_def put_srv_def
        libsrpc_shm_gc_destroy_def shut_down_def Let_def split: prod.splits)
qed

text \<open>The client's calls succeed: the counterpart of \<open>admission_ok\<close> for a segment that is still empty.\<close>

definition client_env_ok :: "u64 \<Rightarrow> client_env \<Rightarrow> regfn_msg \<Rightarrow> bool" where
  "client_env_ok cap env m \<longleftrightarrow> fst (ce_peercred env) = 0 \<and> 0 < snd (ce_peercred env) \<and> 0 < pe_nproc (ce_proc env) \<and> pe_nproc (ce_proc env) \<le> 1024 \<and>
     88 \<le> unat (pe_proc_sz (ce_proc env)) \<and> unat (pe_proc_sz (ce_proc env)) \<le> 2 ^ 20 \<and> pe_sem_rc (ce_proc env) = 0 \<and> pe_spin_rc (ce_proc env) = 0 \<and>
     good_cap cap \<and> pe_cap (ce_proc env) = cap \<and> 0 \<le> ce_timeo env \<and> rm_size m = of_nat REGFN_MSG_SZ \<and> length (rm_sign m) = 32 \<and>
     strncmp_eq 32 (rm_sign m) (ce_name env) \<and> read_full (ce_reads env) REGFN_MSG_SZ = Some (0, msg_bytes m) \<and> 0 \<le> ce_send_fd env \<and> ce_epoll env = 0"

lemma client_admitted:
  assumes "client_env_ok cap env m" "new_segment (d_shm d)" "srpc_pool_alloc (ce_mallocs env) (srv_pool (d_srv d)) = (ed, pool)" "ed \<noteq> 0" "ed \<noteq> d_epsrv d"
  shows "admission_ok cap [] env m ed pool d"
proof -
  let ?sz = "pe_proc_sz (ce_proc env) + of_int (pe_nproc (ce_proc env)) * THREAD_SZ"
  have e: "0 < pe_nproc (ce_proc env)" "pe_nproc (ce_proc env) \<le> 1024" "88 \<le> unat (pe_proc_sz (ce_proc env))" "unat (pe_proc_sz (ce_proc env)) \<le> 2 ^ 20"
    using assms(1) by (simp_all add: client_env_ok_def)
  have "unat ?sz = unat (pe_proc_sz (ce_proc env)) + nat (pe_nproc (ce_proc env)) * 16" by (rule proc_size [OF e(1,2)]) (use e(4) in simp)
  then have z: "unat ?sz \<le> 2 ^ 20 + 2 ^ 19" "0 < unat ?sz" using e by simp_all
  have "?sz \<noteq> 0" using z(2) by (metis less_irrefl unat_0)
  then have "pool_room ?sz (sm_pool (d_shm d))" using assms(2) z(1) by (simp add: new_segment_def)
  moreover have "\<forall>i < sRPC_FNNUM. reg_room (d_shm d) i" using assms(2) by (simp add: new_segment_def)
  ultimately show ?thesis using assms(1,3-5) by (simp add: admission_ok_def client_env_ok_def proc_env_ok_def message_ok_def)
qed

lemma epoll_wait_split:
  assumes "libsrpc_unix_server_epoll_wait (Inr [ev1]) d = Some (0, d1)" "libsrpc_unix_server_epoll_wait (Inr [ev1, ev2]) d = Some (0, d2)"
  shows "libsrpc_unix_server_epoll_wait (Inr [ev2]) d1 = Some (0, d2)"
  using assms by (cases "dispatch ev1 d") (auto simp: libsrpc_unix_server_epoll_wait_def)

section \<open>Properties\<close>


text \<open>A daemon before its start, and one client.\<close>

definition night :: host where
  "night = \<lparr>h_d = dawn\<lparr>d_srv := (d_srv dawn)\<lparr>srv_init := False\<rparr>, d_open := [0, 1, 2], d_watch := [], d_cx := some_cx, d_gc := some_gc\<lparr>gc_init := False\<rparr>, d_shm := some_shm\<rparr>,
     h_pool = \<lparr>sp_size = 0, sp_fd = 0\<rparr>, h_hdr = \<lparr>sh_sign = [], sh_basevadr = 0, sh_shmsize = 0, sh_poolsize = 0\<rparr>, h_is_daemon = False\<rparr>"

definition night_senv :: server_env where
  "night_senv = \<lparr>se_pool = 4096, se_epoll = Inr 3, se_socket = Inr 4, se_bind = None, se_listen = None, se_ctl = 0\<rparr>"

definition night_menv :: mem_env where
  "night_menv = \<lparr>me_memfd = Inr 5, me_truncate = None, me_mmap = None, me_madvise = 0, me_spin = 0, me_gc_sem = 0, me_gc_start = 0\<rparr>"


end
