(* ===== verification/Srpc_Switch.thy ===== *)
theory Srpc_Switch
  imports Srpc_Shm
begin

text \<open>
  The allocation functions of the C library as the library replaces them (\<^verbatim>\<open>src/libsrpc.c\<close>): before the
  replacement is enabled, and in a thread that selected the standard allocator, they call the real
  functions, otherwise the allocator of the segment. The real functions, found with \<^verbatim>\<open>dlsym\<close>, are
  parameters over a state \<open>'w\<close> of their own; \<open>None\<close> is a pointer that is still \<^verbatim>\<open>NULL\<close>.
\<close>

section \<open>The switch\<close>

datatype alloc_sel = SRPC_ALLOC_STD | SRPC_ALLOC_SHM

record alloc_switch =
  en_allocator :: bool
  switch_allocator :: alloc_sel

record 'w real_funcs =
  real_malloc :: "(u64 \<Rightarrow> 'w \<Rightarrow> u64 \<times> 'w) option"
  real_calloc :: "(u64 \<Rightarrow> u64 \<Rightarrow> 'w \<Rightarrow> u64 \<times> 'w) option"
  real_realloc :: "(u64 \<Rightarrow> u64 \<Rightarrow> 'w \<Rightarrow> u64 \<times> 'w) option"
  real_free :: "(u64 \<Rightarrow> 'w \<Rightarrow> 'w) option"

definition libsrpc_alloc_sw_std :: "alloc_switch \<Rightarrow> alloc_switch" where
  "libsrpc_alloc_sw_std s = s\<lparr>switch_allocator := SRPC_ALLOC_STD\<rparr>"

definition libsrpc_alloc_sw_shm :: "alloc_switch \<Rightarrow> alloc_switch" where
  "libsrpc_alloc_sw_shm s = s\<lparr>switch_allocator := SRPC_ALLOC_SHM\<rparr>"

definition uses_segment :: "alloc_switch \<Rightarrow> bool" where
  "uses_segment s \<longleftrightarrow> en_allocator s \<and> switch_allocator s = SRPC_ALLOC_SHM"

text \<open>A call of a real function, and one of the segment's allocator, on the whole state.\<close>

definition call_real :: "'r \<Rightarrow> ('w \<Rightarrow> 'r \<times> 'w) option \<Rightarrow> 'w \<times> srpc_ctx \<times> shmem \<Rightarrow> ('r \<times> 'w \<times> srpc_ctx \<times> shmem) option" where
  "call_real d f = (\<lambda>(w, cx, sm). case f of None \<Rightarrow> Some (d, w, cx, sm) | Some g \<Rightarrow> (case g w of (r, w') \<Rightarrow> Some (r, w', cx, sm)))"

definition call_segment :: "(srpc_ctx \<Rightarrow> shmem \<Rightarrow> ('r \<times> srpc_ctx \<times> shmem) option) \<Rightarrow> 'w \<times> srpc_ctx \<times> shmem \<Rightarrow> ('r \<times> 'w \<times> srpc_ctx \<times> shmem) option" where
  "call_segment f = (\<lambda>(w, cx, sm). map_option (\<lambda>(r, cx', sm'). (r, w, cx', sm')) (f cx sm))"

definition sub_malloc :: "alloc_switch \<Rightarrow> 'w real_funcs \<Rightarrow> u64 \<Rightarrow> 'w \<times> srpc_ctx \<times> shmem \<Rightarrow> (u64 \<times> 'w \<times> srpc_ctx \<times> shmem) option" where
  "sub_malloc s rf sz =
     (if \<not> en_allocator s then call_real 0 (map_option (\<lambda>f. f sz) (real_malloc rf))
      else case switch_allocator s of
          SRPC_ALLOC_SHM \<Rightarrow> call_segment (libsrpc_shmem_malloc sz)
        | SRPC_ALLOC_STD \<Rightarrow> call_real 0 (map_option (\<lambda>f. f sz) (real_malloc rf)))"

definition sub_calloc :: "alloc_switch \<Rightarrow> 'w real_funcs \<Rightarrow> u64 \<Rightarrow> u64 \<Rightarrow> 'w \<times> srpc_ctx \<times> shmem \<Rightarrow> (u64 \<times> 'w \<times> srpc_ctx \<times> shmem) option" where
  "sub_calloc s rf num sz =
     (if \<not> en_allocator s then call_real 0 (map_option (\<lambda>f. f num sz) (real_calloc rf))
      else case switch_allocator s of
          SRPC_ALLOC_SHM \<Rightarrow> call_segment (libsrpc_shmem_calloc num sz)
        | SRPC_ALLOC_STD \<Rightarrow> call_real 0 (map_option (\<lambda>f. f num sz) (real_calloc rf)))"

definition sub_realloc :: "alloc_switch \<Rightarrow> 'w real_funcs \<Rightarrow> u64 \<Rightarrow> u64 \<Rightarrow> 'w \<times> srpc_ctx \<times> shmem \<Rightarrow> (u64 \<times> 'w \<times> srpc_ctx \<times> shmem) option" where
  "sub_realloc s rf oldptr newsize =
     (if \<not> en_allocator s then call_real 0 (map_option (\<lambda>f. f oldptr newsize) (real_realloc rf))
      else case switch_allocator s of
          SRPC_ALLOC_SHM \<Rightarrow> call_segment (libsrpc_shmem_realloc oldptr newsize)
        | SRPC_ALLOC_STD \<Rightarrow> call_real 0 (map_option (\<lambda>f. f oldptr newsize) (real_realloc rf)))"

definition sub_free :: "alloc_switch \<Rightarrow> 'w real_funcs \<Rightarrow> u64 \<Rightarrow> 'w \<times> srpc_ctx \<times> shmem \<Rightarrow> (unit \<times> 'w \<times> srpc_ctx \<times> shmem) option" where
  "sub_free s rf ptr =
     (if \<not> en_allocator s then call_real () (map_option (\<lambda>f w. ((), f ptr w)) (real_free rf))
      else case switch_allocator s of
          SRPC_ALLOC_SHM \<Rightarrow> call_segment (libsrpc_shmem_free ptr)
        | SRPC_ALLOC_STD \<Rightarrow> call_real () (map_option (\<lambda>f w. ((), f ptr w)) (real_free rf)))"

section \<open>What the switch guarantees\<close>

text \<open>Without the segment's allocator no call touches the segment, and with it none touches the other heap.\<close>

lemma call_real_segment: "call_real d f (w, cx, sm) = Some (r, w', cx', sm') \<Longrightarrow> cx' = cx \<and> sm' = sm"
  by (auto simp: call_real_def split: option.splits prod.splits)

lemma call_segment_world: "call_segment f (w, cx, sm) = Some (r, w', cx', sm') \<Longrightarrow> w' = w \<and> f cx sm = Some (r, cx', sm')"
  by (auto simp: call_segment_def)

lemma switched_off_keeps_segment:
  assumes "\<not> uses_segment s" "sub_malloc s rf sz (w, cx, sm) = Some (p, w', cx', sm') \<or> sub_calloc s rf num sz (w, cx, sm) = Some (p, w', cx', sm') \<or>
    sub_realloc s rf old sz (w, cx, sm) = Some (p, w', cx', sm') \<or> sub_free s rf old (w, cx, sm) = Some (u, w', cx', sm')"
  shows "cx' = cx \<and> sm' = sm"
  using assms by (auto simp: uses_segment_def sub_malloc_def sub_calloc_def sub_realloc_def sub_free_def
      dest: call_real_segment split: if_splits alloc_sel.splits)

lemma switched_on_pairs:
  assumes "uses_segment s" "shm_view uid (cx, sm) v" "sz \<noteq> 0" "unat sz \<le> 896" "sub_malloc s rf sz (w, cx, sm) = Some (p, w1, cx1, sm1)" "p \<noteq> 0"
  shows "\<exists>cx2 sm2. sub_free s rf p (w1, cx1, sm1) = Some ((), w, cx2, sm2) \<and> shm_view uid (cx2, sm2) v"
proof -
  have m: "w1 = w" "libsrpc_shmem_malloc_type sz LIBSRPC_SHMDT_USER cx sm = Some (p, cx1, sm1)"
    using assms(1,5) by (auto simp: uses_segment_def sub_malloc_def libsrpc_shmem_malloc_def dest: call_segment_world)
  from shm.alloc_release [OF assms(2-4), of LIBSRPC_SHMDT_USER p "(cx1, sm1)"] m(2) assms(6) obtain cx2 sm2 where
    "libsrpc_shmem_free p cx1 sm1 = Some ((), cx2, sm2)" "shm_view uid (cx2, sm2) v" by auto
  then show ?thesis using assms(1) m(1) by (auto simp: uses_segment_def sub_free_def call_segment_def)
qed

end
