(* ===== verification/Srpc_Startup.thy ===== *)
theory Srpc_Startup
  imports Srpc_Daemon Srpc_Switch
begin

text \<open>
  The start and the end of the processes: the constructor and the destructor of the library
  (\<^verbatim>\<open>src/libsrpc.c\<close>), the start of the daemon (\<^verbatim>\<open>spawn_daemon\<close> of \<^verbatim>\<open>src/libsrpc_daemon.c\<close>), the program that
  is embedded for it (\<^verbatim>\<open>src/libsrpc_loader.c\<close>), the data that a thread leaves to its end, and the
  message that carries the descriptor of the segment. System calls and the dynamic linker are arguments.
\<close>

section \<open>Starting the daemon\<close>

definition c_bytes :: "string \<Rightarrow> u8 list" where "c_bytes s = map of_char s"

definition PATH_MAX :: nat where "PATH_MAX = 4096"

text \<open>Results of the calls: what \<^verbatim>\<open>fork\<close> gives the process that called it, the path that \<^verbatim>\<open>dladdr\<close> finds, and whether \<^verbatim>\<open>fexecve\<close>
  replaces the program. The result of \<^verbatim>\<open>fchmod\<close> is only printed.\<close>

record spawn_env =
  sw_fork1 :: int
  sw_setsid :: int
  sw_fork2 :: int
  sw_dladdr :: "u8 list option"
  sw_memfd :: int
  sw_write :: int
  sw_fexecve :: bool

text \<open>How a process ends: with a status, or by becoming another program with these arguments and this environment.\<close>

datatype proc_end = Exited int | Execed "u8 list list" "u8 list list"

text \<open>The variable for the loader, as \<^verbatim>\<open>snprintf\<close> cuts it to its buffer.\<close>

definition pathso :: "u8 list \<Rightarrow> u8 list" where
  "pathso fname = take (PATH_MAX + 32 - 1) (c_bytes ''LIBSIMPLERPC_SO='' @ fname)"

definition spawn_second :: "int \<Rightarrow> spawn_env \<Rightarrow> u8 list \<Rightarrow> proc_end" where
  "spawn_second loader_len env daemon_name =
     (case sw_dladdr env of
        None \<Rightarrow> Exited 1
      | Some fname \<Rightarrow>
          if sw_memfd env < 0 then Exited 1
          else if sw_write env \<noteq> loader_len then Exited 1
          else if sw_fexecve env then Execed [daemon_name] [pathso fname]
          else Exited 1)"

definition spawn_first :: "int \<Rightarrow> spawn_env \<Rightarrow> u8 list \<Rightarrow> proc_end \<times> proc_end option" where
  "spawn_first loader_len env daemon_name =
     (if sw_setsid env < 0 then (Exited 1, None)
      else if sw_fork2 env < 0 then (Exited 1, None)
      else (Exited 0, Some (spawn_second loader_len env daemon_name)))"

text \<open>The caller goes on in every case; the result is what becomes of its child and of the child's child. The caller has
  waited for the end of the first.\<close>

definition spawn_daemon :: "int \<Rightarrow> spawn_env \<Rightarrow> u8 list \<Rightarrow> (proc_end \<times> proc_end option) option" where
  "spawn_daemon loader_len env daemon_name =
     (if sw_fork1 env < 0 then None else Some (spawn_first loader_len env daemon_name))"

section \<open>The loader\<close>

fun getenv :: "u8 list \<Rightarrow> u8 list list \<Rightarrow> u8 list option" where
  "getenv n [] = None"
| "getenv n (e # es) = (if take (length n + 1) e = n @ c_bytes ''='' then Some (drop (length n + 1) e) else getenv n es)"

text \<open>The dynamic linker works on the state \<open>'s\<close> of the process: opening a library runs its constructors, which may end the
  process with a status (\<open>Inl\<close>), closing it runs its destructors. \<open>None\<close>: a call does not return.\<close>

record ('h, 's) linker =
  ld_open :: "u8 list \<Rightarrow> 's \<Rightarrow> ((int + 'h option) \<times> 's) option"
  ld_sym :: "'h \<Rightarrow> u8 list \<Rightarrow> (u8 list list \<Rightarrow> 's \<Rightarrow> (int \<times> 's) option) option"
  ld_close :: "'h \<Rightarrow> 's \<Rightarrow> 's"

definition loader_main :: "('h, 's) linker \<Rightarrow> u8 list list \<Rightarrow> u8 list list \<Rightarrow> 's \<Rightarrow> (int \<times> 's) option" where
  "loader_main ld av envp s =
     (case getenv (c_bytes ''LIBSIMPLERPC_SO'') envp of
        None \<Rightarrow> Some (1, s)
      | Some libpath \<Rightarrow>
          (case ld_open ld libpath s of
             None \<Rightarrow> None
           | Some (Inl rc, s1) \<Rightarrow> Some (rc, s1)
           | Some (Inr None, s1) \<Rightarrow> Some (1, s1)
           | Some (Inr (Some h), s1) \<Rightarrow>
               (case ld_sym ld h (c_bytes ''simplerpc_daemon_main'') of
                  None \<Rightarrow> Some (1, ld_close ld h s1)
                | Some fn \<Rightarrow> fn av s1)))"

section \<open>Constructor and destructor\<close>

text \<open>The library in one process: the functions it found, the switch, the client's and the daemon's data, and the
  processes it has started.\<close>

record 'w image =
  im_real :: "'w real_funcs"
  im_switch :: alloc_switch
  im_cli :: libsrpc_client
  im_host :: host
  im_spawned :: "(proc_end \<times> proc_end option) list"

record init_env =
  ie_loader_len :: int
  ie_spawn :: spawn_env
  ie_sem_rc :: int
  ie_start_rc :: int
  ie_cli :: cli_env

definition funcs_found :: "'w real_funcs \<Rightarrow> bool" where
  "funcs_found rf \<longleftrightarrow> real_malloc rf \<noteq> None \<and> real_free rf \<noteq> None \<and> real_calloc rf \<noteq> None \<and> real_realloc rf \<noteq> None"

text \<open>\<open>rf\<close>: what \<^verbatim>\<open>dlsym\<close> finds. \<open>Some (Some rc, _)\<close>: the process ends with the status \<open>rc\<close>; \<open>None\<close>: the client's start does not return.\<close>

definition libsrpc_init :: "'w real_funcs \<Rightarrow> init_env \<Rightarrow> u8 list \<Rightarrow> u8 list \<Rightarrow> 'w image \<Rightarrow> (int option \<times> 'w image) option" where
  "libsrpc_init rf env program_invocation_name daemon_name im =
     (let im1 = im\<lparr>im_real := rf\<rparr> in
      if \<not> funcs_found rf then Some (Some 1, im1)
      else if program_invocation_name \<noteq> daemon_name
      then
        let kids = spawn_daemon (ie_loader_len env) (ie_spawn env) daemon_name;
            im2 = im1\<lparr>im_spawned := (case kids of None \<Rightarrow> [] | Some k \<Rightarrow> [k]) @ im_spawned im1, im_switch := (im_switch im1)\<lparr>en_allocator := True\<rparr>\<rparr>
        in map_option (\<lambda>(_, cli, sm). (None, im2\<lparr>im_cli := cli, im_host := put_d (\<lambda>d. d\<lparr>d_shm := sm\<rparr>) (im_host im2)\<rparr>))
             (libsrpc_unix_client_init (ie_sem_rc env) (ie_start_rc env) (ie_cli env) (im_cli im2) (d_shm (h_d (im_host im2))))
      else Some (None, im1))"

text \<open>\<open>wr\<close>: the result of the write that asks the client's control thread to end.\<close>

definition libsrpc_destructor :: "int + nat \<Rightarrow> 'w image \<Rightarrow> int \<times> 'w image" where
  "libsrpc_destructor wr im =
     (if h_is_daemon (im_host im)
      then (case libsrpc_unix_server_exit (h_d (im_host im)) of (rc, d) \<Rightarrow> (rc, im\<lparr>im_host := (im_host im)\<lparr>h_d := d\<rparr>\<rparr>))
      else (libsrpc_unix_client_exit wr, im))"

text \<open>The linker of a system where the file \<open>so\<close> is this library: loading it runs the constructor in a process of the name
  \<open>prog\<close>, and the symbol is the daemon's main function.\<close>

record daemon_env =
  de_server :: server_env
  de_mem :: mem_env
  de_waits :: "(int + srv_event list) list"
  de_ends :: "int \<times> int \<times> int"

definition daemon_entry :: "daemon_env \<Rightarrow> u8 list list \<Rightarrow> 'w image \<Rightarrow> (int \<times> 'w image) option" where
  "daemon_entry env av im =
     map_option (\<lambda>(rc, h). (rc, im\<lparr>im_host := h\<rparr>)) (simplerpc_daemon_main (de_server env) (de_mem env) (hd av) (de_waits env) (de_ends env) (im_host im))"

definition library_linker :: "u8 list \<Rightarrow> u8 list \<Rightarrow> u8 list \<Rightarrow> 'w real_funcs \<Rightarrow> init_env \<Rightarrow> daemon_env \<Rightarrow> (unit, 'w image) linker" where
  "library_linker so prog name rf ienv denv =
     \<lparr>ld_open = \<lambda>path im. if path = so
        then map_option (\<lambda>(e, im1). (case e of Some rc \<Rightarrow> Inl rc | None \<Rightarrow> Inr (Some ()), im1)) (libsrpc_init rf ienv prog name im) else Some (Inr None, im),
      ld_sym = \<lambda>_ sym. if sym = c_bytes ''simplerpc_daemon_main'' then Some (daemon_entry denv) else None,
      ld_close = \<lambda>_ im. snd (libsrpc_destructor (Inr 8) im)\<rparr>"

text \<open>The program that \<^verbatim>\<open>fexecve\<close> starts, from its entry to the end of the process; the C library takes the name of the
  program from its first argument.\<close>

definition run_loader :: "u8 list \<Rightarrow> u8 list \<Rightarrow> 'w real_funcs \<Rightarrow> init_env \<Rightarrow> daemon_env \<Rightarrow> proc_end \<Rightarrow> 'w image \<Rightarrow> (int \<times> 'w image) option" where
  "run_loader so name rf ienv denv e im =
     (case e of
        Exited rc \<Rightarrow> Some (rc, im)
      | Execed av envp \<Rightarrow> map_option (\<lambda>(rc, im1). (rc, snd (libsrpc_destructor (Inr 8) im1))) (loader_main (library_linker so (hd av) name rf ienv denv) av envp im))"

section \<open>Data of a thread\<close>

text \<open>The key of the process, made by \<^verbatim>\<open>pthread_once\<close>, and the value of one thread.\<close>

record thread_key =
  tk_made :: bool
  tk_value :: u64

definition libsrpc_key_init :: "thread_key \<Rightarrow> thread_key" where
  "libsrpc_key_init k = k\<lparr>tk_made := True\<rparr>"

text \<open>\<open>once_rc\<close>: the result of \<^verbatim>\<open>pthread_once\<close>; the creation of the key succeeds.\<close>

definition libsrpc_set_data :: "int \<Rightarrow> u64 \<Rightarrow> thread_key \<Rightarrow> srpc_ctx \<Rightarrow> thread_key \<times> srpc_ctx" where
  "libsrpc_set_data once_rc ptr k cx =
     (if once_rc \<noteq> 0 then (k, set_tls EINTR cx)
      else ((if tk_made k then k else libsrpc_key_init k)\<lparr>tk_value := ptr\<rparr>, cx))"

definition libsrpc_cleanup_data :: "u64 \<Rightarrow> srpc_ctx \<Rightarrow> shmem \<Rightarrow> (srpc_ctx \<times> shmem) option" where
  "libsrpc_cleanup_data ptr cx sm = (if ptr = 0 then Some (cx, sm) else libsrpc_req_free ptr cx sm)"

text \<open>The end of a thread: a value that is not \<^verbatim>\<open>NULL\<close> goes to the function of its key.\<close>

definition thread_exit :: "thread_key \<Rightarrow> srpc_ctx \<Rightarrow> shmem \<Rightarrow> (thread_key \<times> srpc_ctx \<times> shmem) option" where
  "thread_exit k cx sm =
     (if tk_made k \<and> tk_value k \<noteq> 0
      then map_option (\<lambda>(cx1, sm1). (k\<lparr>tk_value := 0\<rparr>, cx1, sm1)) (libsrpc_cleanup_data (tk_value k) cx sm)
      else Some (k, cx, sm))"

section \<open>The message with the descriptor\<close>

text \<open>\<^verbatim>\<open>SOL_SOCKET\<close>, \<^verbatim>\<open>SCM_RIGHTS\<close> and \<^verbatim>\<open>CMSG_LEN(sizeof(int))\<close>; \<open>sendmsg\<close> gets the one byte and the control message.\<close>

definition send_fd :: "(u8 list \<Rightarrow> cmsg \<Rightarrow> int) \<Rightarrow> int \<Rightarrow> int" where
  "send_fd sendmsg fd = sendmsg (c_bytes ''X'') \<lparr>cm_level = 1, cm_type = 1, cm_len = 20, cm_fd = fd\<rparr>"

section \<open>The chain from a program to its daemon\<close>

text \<open>The second child becomes the daemon exactly when every call on its way succeeds; a program that cannot start one goes on.\<close>

lemma spawn_daemon_execs:
  "(\<exists>e. spawn_daemon n env name = Some (e, Some (Execed av envp))) \<longleftrightarrow>
   0 \<le> sw_fork1 env \<and> 0 \<le> sw_setsid env \<and> 0 \<le> sw_fork2 env \<and> 0 \<le> sw_memfd env \<and> sw_write env = n \<and> sw_fexecve env \<and>
   (\<exists>so. sw_dladdr env = Some so \<and> av = [name] \<and> envp = [pathso so])"
  by (auto simp: spawn_daemon_def spawn_first_def spawn_second_def split: option.splits)

text \<open>The loader finds the path again, as long as the buffer held it.\<close>

lemma pathso_found: "getenv (c_bytes ''LIBSIMPLERPC_SO'') [pathso so] = Some (take 4111 so)"
proof -
  have "length (c_bytes ''LIBSIMPLERPC_SO='') = 16" by (simp add: c_bytes_def)
  moreover have "c_bytes ''LIBSIMPLERPC_SO='' = c_bytes ''LIBSIMPLERPC_SO'' @ c_bytes ''=''" by (simp add: c_bytes_def)
  ultimately show ?thesis by (simp add: pathso_def PATH_MAX_def c_bytes_def)
qed

text \<open>In the daemon the constructor starts nothing and leaves the allocation functions switched off.\<close>

lemma init_in_daemon: "funcs_found rf \<Longrightarrow> libsrpc_init rf env name name im = Some (None, im\<lparr>im_real := rf\<rparr>)"
  by (simp add: libsrpc_init_def)

text \<open>In any other program it starts a daemon and switches them on, and returns exactly when the client's start does.\<close>

lemma init_in_program:
  assumes "funcs_found rf" "prog \<noteq> name"
  shows "libsrpc_init rf env prog name im = None \<longleftrightarrow>
      libsrpc_unix_client_init (ie_sem_rc env) (ie_start_rc env) (ie_cli env) (im_cli im) (d_shm (h_d (im_host im))) = None"
    "libsrpc_init rf env prog name im = Some (r, im') \<Longrightarrow> r = None \<and> en_allocator (im_switch im') \<and> im_real im' = rf \<and> im_spawned im' =
      (case spawn_daemon (ie_loader_len env) (ie_spawn env) name of None \<Rightarrow> [] | Some k \<Rightarrow> [k]) @ im_spawned im"
  using assms by (auto simp: libsrpc_init_def Let_def split: option.splits)

lemma loader_runs_daemon:
  assumes "funcs_found rf" "length so \<le> 4111"
  shows "run_loader so name rf ienv denv (Execed [name] [pathso so]) im =
    map_option (\<lambda>(rc, h). (rc, snd (libsrpc_destructor (Inr 8) (im\<lparr>im_real := rf, im_host := h\<rparr>))))
      (simplerpc_daemon_main (de_server denv) (de_mem denv) name (de_waits denv) (de_ends denv) (im_host im))"
  using assms by (cases "simplerpc_daemon_main (de_server denv) (de_mem denv) name (de_waits denv) (de_ends denv) (im_host im)")
    (auto simp: run_loader_def loader_main_def library_linker_def pathso_found init_in_daemon daemon_entry_def simp del: getenv.simps)

section \<open>The end of the daemon's process\<close>

lemma daemon_flag_kept:
  assumes "simplerpc_daemon_main senv menv name ws rcs h = Some (rc, h')"
  shows "h_is_daemon h'"
  using assms by (auto simp: simplerpc_daemon_main_def daemon_end_def libsrpc_shmem_create_def shmem_create_err_def shmem_format_def libsrpc_shmem_destroy_def
      put_d_def put_sp_def Let_def split: if_splits option.splits prod.splits sum.splits)

text \<open>A server that has ended is not ended again.\<close>

lemma destructor_idle:
  assumes "h_is_daemon (im_host im)" "\<not> srv_init (d_srv (h_d (im_host im)))"
  shows "snd (libsrpc_destructor wr im) = im"
  using assms by (simp add: libsrpc_destructor_def libsrpc_unix_server_exit_def)

text \<open>The name is taken: another daemon runs.\<close>

lemma daemon_name_taken:
  assumes "fba_args (se_pool senv) 128 ED_SZ" "se_epoll senv = Inr epfd" "0 < epfd" "se_socket senv = Inr sck" "se_bind senv = Some e" "0 < e"
    "\<not> srv_init (d_srv (h_d h))" "srv_socket (d_srv (h_d h)) = 0" "sp_fd (h_pool h) = 0" "distinct (sck # epfd # d_open (h_d h))"
  obtains h' where "simplerpc_daemon_main senv menv name ws rcs h = Some (- e, h')" "d_open (h_d h') = d_open (h_d h)" "\<not> srv_init (d_srv (h_d h'))"
proof -
  obtain p where p: "srpc_pool_create (se_pool senv) 128 ED_SZ = Some p" by (rule create_ok [OF assms(1)]) simp
  obtain a b c where r: "rcs = (a, b, c)" by (cases rcs)
  define h0 where "h0 = put_d (\<lambda>d. d\<lparr>d_cx := (d_cx d)\<lparr>cx_uid := DAEMON_PROC_UID\<rparr>\<rparr>) (h\<lparr>h_is_daemon := True\<rparr>)"
  obtain d1 where d1: "libsrpc_unix_server_init senv (h_d h0) = (- e, d1)" "d_open d1 = d_open (h_d h)" "\<not> srv_init (d_srv d1)"
    using assms p by (auto simp: h0_def libsrpc_unix_server_init_def libsrpc_unix_scoket_server_create_def init_err_def Let_def put_srv_def put_d_def close_fd_def)
  have "sp_fd (h_pool h0) = 0" using assms(9) by (simp add: h0_def put_d_def)
  then have "simplerpc_daemon_main senv menv name ws rcs h = Some (- e, h0\<lparr>h_d := d1\<rparr>)"
    using d1(1) assms(6) by (simp add: simplerpc_daemon_main_def h0_def [symmetric] daemon_end_def r)
  then show thesis using d1 by (intro that [of "h0\<lparr>h_d := d1\<rparr>"]) simp_all
qed

text \<open>Three ways in which the segment cannot be made.\<close>

definition mem_refused :: "mem_env \<Rightarrow> int list \<Rightarrow> int \<Rightarrow> bool" where
  "mem_refused env fds e \<longleftrightarrow> 0 < e \<and> (case me_memfd env of Inl e' \<Rightarrow> e' = e
     | Inr fd \<Rightarrow> 0 < fd \<and> fd \<notin> set fds \<and> (me_truncate env = Some e \<or> me_truncate env = None \<and> me_mmap env = Some e))"

lemma shmem_create_refused:
  assumes "mem_refused env (d_open (h_d h)) e"
  obtains h' where "libsrpc_shmem_create env name sz va h = (- e, h')" "d_open (h_d h') = d_open (h_d h)" "d_srv (h_d h') = d_srv (h_d h)"
    "sp_fd (h_pool h') = - 1" "h_is_daemon h' = h_is_daemon h"
  using assms that by (cases "me_memfd env")
    (auto simp: mem_refused_def libsrpc_shmem_create_def shmem_create_err_def Let_def put_d_def put_sp_def set_mapped_def close_fd_def)

lemma daemon_no_segment:
  assumes "server_env_ok senv epfd sck" "mem_refused menv (sck # epfd # d_open (h_d h)) e" "\<not> srv_init (d_srv (h_d h))" "d_epsrv (h_d h) \<noteq> 0"
  obtains h' p where "simplerpc_daemon_main senv menv name ws rcs h = Some (- e, h')" "d_open (h_d h') = sck # epfd # d_open (h_d h)"
    "srv_init (d_srv (h_d h'))" "srv_socket (d_srv (h_d h')) = sck" "srv_epfd (d_srv (h_d h')) = epfd" "srv_pool (d_srv (h_d h')) = [p]"
proof -
  define h0 where "h0 = put_d (\<lambda>d. d\<lparr>d_cx := (d_cx d)\<lparr>cx_uid := DAEMON_PROC_UID\<rparr>\<rparr>) (h\<lparr>h_is_daemon := True\<rparr>)"
  have h0: "\<not> srv_init (d_srv (h_d h0))" "d_epsrv (h_d h0) \<noteq> 0" "d_open (h_d h0) = d_open (h_d h)" using assms(3,4) by (simp_all add: h0_def put_d_def)
  obtain p d1 where s: "libsrpc_unix_server_init senv (h_d h0) = (0, d1)" "srv_socket (d_srv d1) = sck" "srv_epfd (d_srv d1) = epfd"
    "srv_pool (d_srv d1) = [p]" "srv_init (d_srv d1)" "d_open d1 = sck # epfd # d_open (h_d h)"
    by (rule server_init_run [OF assms(1) h0(1,2)]) (simp add: h0(3))
  have m: "mem_refused menv (d_open (h_d (h0\<lparr>h_d := d1\<rparr>))) e" using assms(2) s(6) by simp
  obtain h2 where c: "libsrpc_shmem_create menv name SHMEM_SIZE SHMEM_BASE_VADR (h0\<lparr>h_d := d1\<rparr>) = (- e, h2)" "d_open (h_d h2) = d_open d1" "d_srv (h_d h2) = d_srv d1"
    "sp_fd (h_pool h2) = - 1" by (rule shmem_create_refused [OF m]) simp
  have "simplerpc_daemon_main senv menv name ws rcs h = Some (- e, h2)"
    using assms(2) c(1,4) s(1) by (cases rcs) (simp add: simplerpc_daemon_main_def h0_def [symmetric] daemon_end_def mem_refused_def)
  then show thesis using s c by (intro that [of h2 p]) simp_all
qed

text \<open>What the main function leaves open, the destructor closes.\<close>

lemma destructor_closes:
  assumes "h_is_daemon (im_host im)" "srv_init (d_srv (h_d (im_host im)))" "srv_pool (d_srv (h_d (im_host im))) = [p]"
    "d_open (h_d (im_host im)) = srv_socket (d_srv (h_d (im_host im))) # srv_epfd (d_srv (h_d (im_host im))) # fds" "distinct (d_open (h_d (im_host im)))"
  shows "d_open (h_d (im_host (snd (libsrpc_destructor wr im)))) = fds \<and> \<not> srv_init (d_srv (h_d (im_host (snd (libsrpc_destructor wr im)))))"
  using assms by (auto simp: libsrpc_destructor_def libsrpc_unix_server_exit_def FBA_FOREACH_POOL_def Let_def put_srv_def close_fd_def removeAll_id)

text \<open>Starting a daemon, from the program that spawns it to the end of the daemon's process. With calls that succeed the child's child becomes
  the loader, the loader finds the library by the path in its environment, and the library there neither
  starts a daemon of its own nor switches the allocation functions, so that the process is the daemon's main function
  followed by the destructor. A daemon that finds its name taken ends with the error of \<^verbatim>\<open>bind\<close>, and one that gets no memory for
  the segment with the error of the call; either leaves no descriptor open, the second one by its destructor.\<close>

theorem spawned_daemon_runs:
  fixes im :: "'w image"
  assumes "0 \<le> sw_fork1 env" "0 \<le> sw_setsid env" "0 \<le> sw_fork2 env" "sw_dladdr env = Some so" "length so \<le> PATH_MAX" "0 \<le> sw_memfd env" "sw_write env = n" "sw_fexecve env"
    "funcs_found rf" "\<not> srv_init (d_srv (h_d (im_host im)))" "srv_socket (d_srv (h_d (im_host im))) = 0" "sp_fd (h_pool (im_host im)) = 0" "d_epsrv (h_d (im_host im)) \<noteq> 0"
    "distinct (sck # epfd # d_open (h_d (im_host im)))"
  obtains e where "spawn_daemon n env name = Some (Exited 0, Some e)"
    "\<And>ienv denv rc h. simplerpc_daemon_main (de_server denv) (de_mem denv) name (de_waits denv) (de_ends denv) (im_host im) = Some (rc, h) \<Longrightarrow> \<not> srv_init (d_srv (h_d h)) \<Longrightarrow>
       run_loader so name rf ienv denv e im = Some (rc, im\<lparr>im_real := rf, im_host := h\<rparr>)"
    "\<And>ienv denv err. fba_args (se_pool (de_server denv)) 128 ED_SZ \<Longrightarrow> se_epoll (de_server denv) = Inr epfd \<Longrightarrow> 0 < epfd \<Longrightarrow> se_socket (de_server denv) = Inr sck \<Longrightarrow>
       se_bind (de_server denv) = Some err \<Longrightarrow> 0 < err \<Longrightarrow>
       \<exists>im'. run_loader so name rf ienv denv e im = Some (- err, im') \<and> d_open (h_d (im_host im')) = d_open (h_d (im_host im))"
    "\<And>ienv denv err. server_env_ok (de_server denv) epfd sck \<Longrightarrow> mem_refused (de_mem denv) (sck # epfd # d_open (h_d (im_host im))) err \<Longrightarrow>
       \<exists>im'. run_loader so name rf ienv denv e im = Some (- err, im') \<and> d_open (h_d (im_host im')) = d_open (h_d (im_host im))"
proof
  let ?e = "Execed [name] [pathso so]" and ?h = "im_host im"
  show "spawn_daemon n env name = Some (Exited 0, Some ?e)" using assms(1-8) by (simp add: spawn_daemon_def spawn_first_def spawn_second_def)
  have run: "run_loader so name rf ienv denv ?e im = map_option (\<lambda>(rc, h). (rc, snd (libsrpc_destructor (Inr 8) (im\<lparr>im_real := rf, im_host := h\<rparr>))))
      (simplerpc_daemon_main (de_server denv) (de_mem denv) name (de_waits denv) (de_ends denv) ?h)" for ienv denv
    by (rule loader_runs_daemon [OF assms(9)]) (use assms(5) in \<open>simp add: PATH_MAX_def\<close>)
  show idle: "run_loader so name rf ienv denv ?e im = Some (rc, im\<lparr>im_real := rf, im_host := h\<rparr>)"
    if "simplerpc_daemon_main (de_server denv) (de_mem denv) name (de_waits denv) (de_ends denv) ?h = Some (rc, h)" "\<not> srv_init (d_srv (h_d h))" for ienv denv rc h
    using that daemon_flag_kept [OF that(1)] by (simp add: run destructor_idle)
  show "\<exists>im'. run_loader so name rf ienv denv ?e im = Some (- err, im') \<and> d_open (h_d (im_host im')) = d_open (h_d ?h)"
    if "fba_args (se_pool (de_server denv)) 128 ED_SZ" "se_epoll (de_server denv) = Inr epfd" "0 < epfd" "se_socket (de_server denv) = Inr sck"
      "se_bind (de_server denv) = Some err" "0 < err" for ienv denv err
    by (rule daemon_name_taken [OF that assms(10-12,14), of "de_mem denv" name "de_waits denv" "de_ends denv"]) (auto dest: idle)
  show "\<exists>im'. run_loader so name rf ienv denv ?e im = Some (- err, im') \<and> d_open (h_d (im_host im')) = d_open (h_d ?h)"
    if r: "server_env_ok (de_server denv) epfd sck" "mem_refused (de_mem denv) (sck # epfd # d_open (h_d ?h)) err" for ienv denv err
  proof (rule daemon_no_segment [OF r assms(10,13), of name "de_waits denv" "de_ends denv"])
    fix h' p
    assume m: "simplerpc_daemon_main (de_server denv) (de_mem denv) name (de_waits denv) (de_ends denv) ?h = Some (- err, h')" "d_open (h_d h') = sck # epfd # d_open (h_d ?h)"
      "srv_init (d_srv (h_d h'))" "srv_socket (d_srv (h_d h')) = sck" "srv_epfd (d_srv (h_d h')) = epfd" "srv_pool (d_srv (h_d h')) = [p]"
    have "d_open (h_d (im_host (snd (libsrpc_destructor (Inr 8) (im\<lparr>im_real := rf, im_host := h'\<rparr>))))) = d_open (h_d ?h)"
      using destructor_closes [of "im\<lparr>im_real := rf, im_host := h'\<rparr>" p "d_open (h_d ?h)" "Inr 8"] daemon_flag_kept [OF m(1)] m(2-6) assms(14) by simp
    then show ?thesis using m(1) by (simp add: run)
  qed
qed

section \<open>Threads and the descriptor\<close>

text \<open>The request block of a thread is released once when the thread ends, if the key could be made; otherwise it stays.\<close>

lemma thread_exit_releases:
  assumes "req \<noteq> 0" "libsrpc_set_data once_rc req k cx = (k1, cx1)" "tk_value k = 0"
  shows "if once_rc = 0
    then thread_exit k1 cx1 sm = map_option (\<lambda>(cx2, sm2). (k1\<lparr>tk_value := 0\<rparr>, cx2, sm2)) (libsrpc_req_free req cx sm) \<and>
      thread_exit (k1\<lparr>tk_value := 0\<rparr>) cx1 sm = Some (k1\<lparr>tk_value := 0\<rparr>, cx1, sm)
    else thread_exit k1 cx1 sm = Some (k, set_tls EINTR cx, sm)"
  using assms by (auto simp: libsrpc_set_data_def thread_exit_def libsrpc_cleanup_data_def libsrpc_key_init_def split: if_splits)

text \<open>The client gets the descriptor that the daemon sends.\<close>

lemma send_recv_fd: "send_fd (\<lambda>_ c. recv_fd (Some (Some c))) fd = fd"
  by (simp add: send_fd_def recv_fd_def)

end
