(* ===== verification/Mpmc_Conc.thy ===== *)
theory Mpmc_Conc
  imports Mpmc_Queue "HOL-Library.Multiset"
begin

text \<open>
  Many threads on one queue. Each atomic access of \<^verbatim>\<open>lf_mpmc_queue_try_enqueue\<close> and
  \<^verbatim>\<open>lf_mpmc_queue_try_dequeue\<close> is one step of the relation \<open>qstep\<close>; a thread is between two
  of them at one of the program points of \<open>qpc\<close>, with the values of its local variables.
  The weak compare-and-swap may fail at any time. The state also records, for the
  statements only, the data in the order in which their enqueues took positions
  (\<open>enq_log\<close>) and what each dequeue read at which position (\<open>got\<close>).

  The invariant \<open>conc_ok\<close> is stated for runs of fewer than \<open>2 ^ 62\<close> enqueues: a thread that
  sleeps over \<open>2 ^ 64\<close> of them could take a stale position for a current one.
\<close>

section \<open>Steps\<close>

datatype qpc =
    Idle
  | E_load u64
  | E_seq u64 u64
  | E_cas u64 u64
  | E_write u64 u64
  | E_pub u64 u64
  | D_load
  | D_seq u64
  | D_cas u64
  | D_read u64
  | D_rel u64 u64

record conc =
  cq :: lf_mpmc_queue
  thr :: "nat \<Rightarrow> qpc"
  enq_log :: "u64 list"
  got :: "(u64 \<times> u64) list"

definition goto :: "nat \<Rightarrow> qpc \<Rightarrow> conc \<Rightarrow> conc" where
  "goto t p s = s\<lparr>thr := (thr s)(t := p)\<rparr>"

definition seq_of :: "u64 \<Rightarrow> conc \<Rightarrow> u64" where
  "seq_of pos s = slot_seq (q_buffer (cq s) (pos AND q_mask (cq s)))"

definition data_of :: "u64 \<Rightarrow> conc \<Rightarrow> u64" where
  "data_of pos s = slot_data (q_buffer (cq s) (pos AND q_mask (cq s)))"

inductive qstep :: "u64 \<Rightarrow> conc \<Rightarrow> conc \<Rightarrow> bool" for cap where
  enq_call: "thr s t = Idle \<Longrightarrow> qstep cap s (goto t (E_load d) s)"
| enq_load: "thr s t = E_load d \<Longrightarrow> qstep cap s (goto t (E_seq (q_head (cq s)) d) s)"
| enq_free: "thr s t = E_seq pos d \<Longrightarrow> pdiff (seq_of pos s) pos = 0 \<Longrightarrow> qstep cap s (goto t (E_cas pos d) s)"
| enq_full: "thr s t = E_seq pos d \<Longrightarrow> pdiff (seq_of pos s) pos < 0 \<Longrightarrow> qstep cap s (goto t Idle s)"
| enq_late: "thr s t = E_seq pos d \<Longrightarrow> pdiff (seq_of pos s) pos > 0 \<Longrightarrow> qstep cap s (goto t (E_load d) s)"
| enq_take: "thr s t = E_cas pos d \<Longrightarrow> q_head (cq s) = pos \<Longrightarrow>
    qstep cap s (goto t (E_write pos d) (s\<lparr>cq := (cq s)\<lparr>q_head := pos + 1\<rparr>, enq_log := enq_log s @ [d]\<rparr>))"
| enq_lost: "thr s t = E_cas pos d \<Longrightarrow> qstep cap s (goto t (E_seq (q_head (cq s)) d) s)"
| enq_write: "thr s t = E_write pos d \<Longrightarrow>
    qstep cap s (goto t (E_pub pos d) (s\<lparr>cq := put_data (pos AND q_mask (cq s)) d (cq s)\<rparr>))"
| enq_publish: "thr s t = E_pub pos d \<Longrightarrow>
    qstep cap s (goto t Idle (s\<lparr>cq := put_seq (pos AND q_mask (cq s)) (pos + 1) (cq s)\<rparr>))"
| deq_call: "thr s t = Idle \<Longrightarrow> qstep cap s (goto t D_load s)"
| deq_load: "thr s t = D_load \<Longrightarrow> qstep cap s (goto t (D_seq (q_tail (cq s))) s)"
| deq_ready: "thr s t = D_seq pos \<Longrightarrow> pdiff (seq_of pos s) (pos + 1) = 0 \<Longrightarrow> qstep cap s (goto t (D_cas pos) s)"
| deq_empty: "thr s t = D_seq pos \<Longrightarrow> pdiff (seq_of pos s) (pos + 1) < 0 \<Longrightarrow> qstep cap s (goto t Idle s)"
| deq_late: "thr s t = D_seq pos \<Longrightarrow> pdiff (seq_of pos s) (pos + 1) > 0 \<Longrightarrow> qstep cap s (goto t D_load s)"
| deq_take: "thr s t = D_cas pos \<Longrightarrow> q_tail (cq s) = pos \<Longrightarrow>
    qstep cap s (goto t (D_read pos) (s\<lparr>cq := (cq s)\<lparr>q_tail := pos + 1\<rparr>\<rparr>))"
| deq_lost: "thr s t = D_cas pos \<Longrightarrow> qstep cap s (goto t (D_seq (q_tail (cq s))) s)"
| deq_read: "thr s t = D_read pos \<Longrightarrow>
    qstep cap s (goto t (D_rel pos (data_of pos s)) (s\<lparr>got := got s @ [(pos, data_of pos s)]\<rparr>))"
| deq_release: "thr s t = D_rel pos v \<Longrightarrow>
    qstep cap s (goto t Idle (s\<lparr>cq := put_seq (pos AND q_mask (cq s)) (pos + cap) (cq s)\<rparr>))"

definition conc_init :: "u64 \<Rightarrow> lf_mpmc_queue \<Rightarrow> conc" where
  "conc_init cap q = \<lparr>cq = lf_mpmc_queue_init cap q, thr = \<lambda>_. Idle, enq_log = [], got = []\<rparr>"

section \<open>The invariant\<close>

text \<open>The same values read at natural-number positions.\<close>

definition sq :: "conc \<Rightarrow> nat \<Rightarrow> nat" where "sq s p = unat (seq_of (of_nat p) s)"
definition dt :: "conc \<Rightarrow> nat \<Rightarrow> u64" where "dt s p = data_of (of_nat p) s"
definition hd_of :: "conc \<Rightarrow> nat" where "hd_of s = unat (q_head (cq s))"
definition tl_of :: "conc \<Rightarrow> nat" where "tl_of s = unat (q_tail (cq s))"

fun pc_writes :: "qpc \<Rightarrow> nat \<Rightarrow> bool" where
  "pc_writes (E_write pos d) p \<longleftrightarrow> unat pos = p"
| "pc_writes (E_pub pos d) p \<longleftrightarrow> unat pos = p"
| "pc_writes _ p \<longleftrightarrow> False"

fun pc_reads :: "qpc \<Rightarrow> nat \<Rightarrow> bool" where
  "pc_reads (D_read pos) p \<longleftrightarrow> unat pos = p"
| "pc_reads (D_rel pos v) p \<longleftrightarrow> unat pos = p"
| "pc_reads _ p \<longleftrightarrow> False"

text \<open>What a thread knows at each program point.\<close>

fun pc_ok :: "nat \<Rightarrow> conc \<Rightarrow> qpc \<Rightarrow> bool" where
  "pc_ok n s (E_seq pos d) \<longleftrightarrow> unat pos \<le> hd_of s"
| "pc_ok n s (E_cas pos d) \<longleftrightarrow> unat pos \<le> hd_of s \<and>
     (unat pos = hd_of s \<longrightarrow> hd_of s < tl_of s + n \<and> sq s (hd_of s) = hd_of s)"
| "pc_ok n s (E_write pos d) \<longleftrightarrow> tl_of s \<le> unat pos \<and> unat pos < hd_of s \<and> sq s (unat pos) = unat pos \<and>
     enq_log s ! unat pos = d"
| "pc_ok n s (E_pub pos d) \<longleftrightarrow> tl_of s \<le> unat pos \<and> unat pos < hd_of s \<and> sq s (unat pos) = unat pos \<and>
     enq_log s ! unat pos = d \<and> dt s (unat pos) = d"
| "pc_ok n s (D_seq pos) \<longleftrightarrow> unat pos \<le> tl_of s"
| "pc_ok n s (D_cas pos) \<longleftrightarrow> unat pos \<le> tl_of s \<and>
     (unat pos = tl_of s \<longrightarrow> tl_of s < hd_of s \<and> sq s (tl_of s) = tl_of s + 1)"
| "pc_ok n s (D_read pos) \<longleftrightarrow> unat pos < tl_of s \<and> hd_of s \<le> unat pos + n \<and> sq s (unat pos) = unat pos + 1 \<and>
     dt s (unat pos) = enq_log s ! unat pos"
| "pc_ok n s (D_rel pos v) \<longleftrightarrow> unat pos < tl_of s \<and> hd_of s \<le> unat pos + n \<and> sq s (unat pos) = unat pos + 1 \<and>
     v = enq_log s ! unat pos"
| "pc_ok n s _ \<longleftrightarrow> True"

definition ring_ok :: "u64 \<Rightarrow> conc \<Rightarrow> bool" where
  "ring_ok cap s \<longleftrightarrow> q_mask (cq s) = cap - 1 \<and> hd_of s = length (enq_log s) \<and> tl_of s \<le> hd_of s \<and> hd_of s \<le> tl_of s + unat cap"

text \<open>Taken positions: being written, or filled. Positions not yet taken: free, or still being
  read by the dequeue of one round before.\<close>

definition slots_ok :: "nat \<Rightarrow> conc \<Rightarrow> bool" where
  "slots_ok n s \<longleftrightarrow>
     (\<forall>p. tl_of s \<le> p \<longrightarrow> p < hd_of s \<longrightarrow>
        (\<exists>t. pc_writes (thr s t) p) \<or>
        sq s p = p + 1 \<and> dt s p = enq_log s ! p) \<and>
     (\<forall>p. hd_of s \<le> p \<longrightarrow> p < tl_of s + n \<longrightarrow> sq s p = p \<or> n \<le> p \<and> (\<exists>t. pc_reads (thr s t) (p - n)))"

definition alone_ok :: "conc \<Rightarrow> bool" where
  "alone_ok s \<longleftrightarrow> (\<forall>t u p. pc_writes (thr s t) p \<longrightarrow> pc_writes (thr s u) p \<longrightarrow> t = u) \<and>
     (\<forall>t u p. pc_reads (thr s t) p \<longrightarrow> pc_reads (thr s u) p \<longrightarrow> t = u)"

definition got_ok :: "conc \<Rightarrow> bool" where
  "got_ok s \<longleftrightarrow> distinct (map fst (got s)) \<and>
     (\<forall>(p, v) \<in> set (got s). unat p < tl_of s \<and> v = enq_log s ! unat p) \<and>
     (\<forall>t p. thr s t = D_read p \<longrightarrow> p \<notin> fst ` set (got s)) \<and>
     (\<forall>p. p < tl_of s \<longrightarrow> of_nat p \<in> fst ` set (got s) \<or> (\<exists>t. thr s t = D_read (of_nat p)))"

definition conc_ok :: "u64 \<Rightarrow> conc \<Rightarrow> bool" where
  "conc_ok cap s \<longleftrightarrow> ring_ok cap s \<and> slots_ok (unat cap) s \<and> (\<forall>t. pc_ok (unat cap) s (thr s t)) \<and> alone_ok s \<and> got_ok s"

section \<open>Steps that only move one thread\<close>

lemma goto_sel [simp]:
  "cq (goto t p s) = cq s" "thr (goto t p s) = (thr s)(t := p)" "enq_log (goto t p s) = enq_log s" "got (goto t p s) = got s"
  by (simp_all add: goto_def)

lemma goto_views [simp]: "sq (goto t p s) = sq s" "dt (goto t p s) = dt s" "hd_of (goto t p s) = hd_of s" "tl_of (goto t p s) = tl_of s"
  "seq_of q (goto t p s) = seq_of q s" "data_of q (goto t p s) = data_of q s"
  by (auto simp: sq_def dt_def seq_of_def data_of_def hd_of_def tl_of_def fun_eq_iff)

lemma pc_ok_goto [simp]: "pc_ok n (goto t p s) = pc_ok n s"
proof
  fix q show "pc_ok n (goto t p s) q = pc_ok n s q" by (cases q) simp_all
qed

text \<open>A thread that neither holds nor gets a position moves: only what it knows is to be shown.\<close>

fun holds :: "qpc \<Rightarrow> bool" where
  "holds (E_write _ _) = True"
| "holds (E_pub _ _) = True"
| "holds (D_read _) = True"
| "holds (D_rel _ _) = True"
| "holds _ = False"

lemma not_holds: "\<not> holds q \<Longrightarrow> \<not> pc_writes q p" "\<not> holds q \<Longrightarrow> \<not> pc_reads q p" "\<not> holds q \<Longrightarrow> q \<noteq> D_read pos"
  by (cases q; simp)+

lemma move_ok:
  assumes "conc_ok cap s" "\<not> holds (thr s t)" "\<not> holds p" "pc_ok (unat cap) s p"
  shows "conc_ok cap (goto t p s)"
proof -
  have w: "pc_writes (((thr s)(t := p)) u) x = pc_writes (thr s u) x"
    and r: "pc_reads (((thr s)(t := p)) u) x = pc_reads (thr s u) x"
    and d: "((thr s)(t := p)) u = D_read y \<longleftrightarrow> thr s u = D_read y" for u x y
    using assms(2,3) not_holds by auto
  have "\<forall>u. pc_ok (unat cap) s (((thr s)(t := p)) u)" using assms(1,4) by (auto simp: conc_ok_def)
  then show ?thesis using assms(1) unfolding conc_ok_def ring_ok_def slots_ok_def alone_ok_def got_ok_def
    by (simp add: w r d del: fun_upd_apply)
qed

section \<open>Positions and slots\<close>

lemma conc_okD:
  assumes "conc_ok cap s"
  shows "q_mask (cq s) = cap - 1" "hd_of s = length (enq_log s)" "tl_of s \<le> hd_of s" "hd_of s \<le> tl_of s + unat cap"
    "pc_ok (unat cap) s (thr s t)" "slots_ok (unat cap) s" "alone_ok s" "got_ok s"
  using assms by (auto simp: conc_ok_def ring_ok_def)

lemma same_slot:
  assumes "good_cap cap"
  shows "(of_nat p AND (cap - 1) = pos AND (cap - 1)) \<longleftrightarrow> p mod unat cap = unat pos mod unat cap"
proof -
  obtain k where k: "k \<le> 61" "unat cap = 2 ^ k" using good_capD(3) [OF assms] by blast
  have "(2 :: nat) ^ k dvd 2 ^ 64" by (rule le_imp_power_dvd) (use k(1) in simp)
  then have "unat (of_nat p :: u64) mod unat cap = p mod unat cap"
    by (simp add: unsigned_of_nat take_bit_eq_mod k(2) mod_mod_cancel)
  then have "unat (of_nat p AND (cap - 1)) = p mod unat cap" "unat (pos AND (cap - 1)) = unat pos mod unat cap"
    by (simp_all add: unat_and_mask [OF assms])
  then show ?thesis by (metis unsigned_word_eqI)
qed

lemma window: "t \<le> p \<Longrightarrow> p < t + n \<Longrightarrow> t \<le> q \<Longrightarrow> q < t + n \<Longrightarrow> p mod n = q mod (n :: nat) \<longleftrightarrow> p = q"
  using mod_window_inj [of "p - t" n "q - t" t] by (auto simp: less_diff_conv2)

lemma views_seq:
  fixes pos v :: u64
  assumes "good_cap cap" "q_mask (cq s) = cap - 1"
  defines "s' \<equiv> s\<lparr>cq := put_seq (pos AND q_mask (cq s)) v (cq s)\<rparr>"
  shows "sq s' p = (if p mod unat cap = unat pos mod unat cap then unat v else sq s p)" "dt s' = dt s"
    "hd_of s' = hd_of s" "tl_of s' = tl_of s"
  using same_slot [OF assms(1), of p pos] assms(2)
  by (auto simp: s'_def sq_def dt_def seq_of_def data_of_def hd_of_def tl_of_def fun_eq_iff)

lemma views_data:
  fixes pos v :: u64
  assumes "good_cap cap" "q_mask (cq s) = cap - 1"
  defines "s' \<equiv> s\<lparr>cq := put_data (pos AND q_mask (cq s)) v (cq s)\<rparr>"
  shows "dt s' p = (if p mod unat cap = unat pos mod unat cap then v else dt s p)" "sq s' = sq s"
    "hd_of s' = hd_of s" "tl_of s' = tl_of s"
  using same_slot [OF assms(1), of p pos] assms(2)
  by (auto simp: s'_def sq_def dt_def seq_of_def data_of_def hd_of_def tl_of_def fun_eq_iff)

text \<open>Taking a position changes neither sequence numbers nor data.\<close>

lemma views_ends [simp]:
  "sq (s\<lparr>cq := (cq s)\<lparr>q_head := h\<rparr>, enq_log := l\<rparr>) = sq s" "dt (s\<lparr>cq := (cq s)\<lparr>q_head := h\<rparr>, enq_log := l\<rparr>) = dt s"
  "hd_of (s\<lparr>cq := (cq s)\<lparr>q_head := h\<rparr>, enq_log := l\<rparr>) = unat h" "tl_of (s\<lparr>cq := (cq s)\<lparr>q_head := h\<rparr>, enq_log := l\<rparr>) = tl_of s"
  "sq (s\<lparr>cq := (cq s)\<lparr>q_tail := h\<rparr>\<rparr>) = sq s" "dt (s\<lparr>cq := (cq s)\<lparr>q_tail := h\<rparr>\<rparr>) = dt s"
  "hd_of (s\<lparr>cq := (cq s)\<lparr>q_tail := h\<rparr>\<rparr>) = hd_of s" "tl_of (s\<lparr>cq := (cq s)\<lparr>q_tail := h\<rparr>\<rparr>) = unat h"
  "sq (s\<lparr>got := g\<rparr>) = sq s" "dt (s\<lparr>got := g\<rparr>) = dt s" "hd_of (s\<lparr>got := g\<rparr>) = hd_of s" "tl_of (s\<lparr>got := g\<rparr>) = tl_of s"
  by (auto simp: sq_def dt_def seq_of_def data_of_def hd_of_def tl_of_def fun_eq_iff)

text \<open>Positions held by a thread.\<close>

lemma held_write: "pc_ok n s q \<Longrightarrow> pc_writes q p \<Longrightarrow> tl_of s \<le> p \<and> p < hd_of s \<and> sq s p = p"
  by (cases q) auto

lemma held_read: "pc_ok n s q \<Longrightarrow> pc_reads q p \<Longrightarrow> p < tl_of s \<and> hd_of s \<le> p + n \<and> sq s p = p + 1"
  by (cases q) auto

lemma sq_period: "good_cap cap \<Longrightarrow> q_mask (cq s) = cap - 1 \<Longrightarrow> p mod unat cap = q mod unat cap \<Longrightarrow> sq s p = sq s q"
  using same_slot [of cap p "of_nat q"] same_slot [of cap q "of_nat q"]
  by (auto simp: sq_def seq_of_def)

lemma dt_period: "good_cap cap \<Longrightarrow> q_mask (cq s) = cap - 1 \<Longrightarrow> p mod unat cap = q mod unat cap \<Longrightarrow> dt s p = dt s q"
  using same_slot [of cap p "of_nat q"] same_slot [of cap q "of_nat q"]
  by (auto simp: dt_def data_of_def)

section \<open>Steps that take, fill, read and release a position\<close>

lemma ex_upd: "\<not> P (f t) \<Longrightarrow> (\<exists>u. P ((f(t := q)) u)) \<longleftrightarrow> P q \<or> (\<exists>u. P (f u))"
  by (metis fun_upd_other fun_upd_same)

lemmas ex_writes = ex_upd [where P = "\<lambda>x. pc_writes x p" for p]
lemmas ex_reads = ex_upd [where P = "\<lambda>x. pc_reads x p" for p]
lemmas ex_D_read = ex_upd [where P = "\<lambda>x. x = D_read p" for p]

lemma slots_okD:
  assumes "slots_ok n s"
  shows "tl_of s \<le> p \<Longrightarrow> p < hd_of s \<Longrightarrow> (\<exists>t. pc_writes (thr s t) p) \<or> sq s p = p + 1 \<and> dt s p = enq_log s ! p"
    "hd_of s \<le> p \<Longrightarrow> p < tl_of s + n \<Longrightarrow> sq s p = p \<or> n \<le> p \<and> (\<exists>t. pc_reads (thr s t) (p - n))"
  using assms unfolding slots_ok_def by blast+

lemma got_okD:
  assumes "got_ok s"
  shows "distinct (map fst (got s))" "(p, v) \<in> set (got s) \<Longrightarrow> unat p < tl_of s \<and> v = enq_log s ! unat p"
    "thr s t = D_read p \<Longrightarrow> p \<notin> fst ` set (got s)"
    "m < tl_of s \<Longrightarrow> of_nat m \<in> fst ` set (got s) \<or> (\<exists>t. thr s t = D_read (of_nat m))"
  using assms unfolding got_ok_def by (blast | fastforce)+

lemma alone_goto:
  assumes "alone_ok s" "\<And>u x. u \<noteq> t \<Longrightarrow> pc_writes q x \<Longrightarrow> \<not> pc_writes (thr s u) x"
    "\<And>u x. u \<noteq> t \<Longrightarrow> pc_reads q x \<Longrightarrow> \<not> pc_reads (thr s u) x" "thr s' = (thr s)(t := q)"
  shows "alone_ok s'"
  using assms unfolding alone_ok_def by (metis fun_upd_apply)

lemma got_frame:
  assumes g: "got_ok s" and t: "\<And>p. thr s t \<noteq> D_read p" and q: "\<And>p. q \<noteq> D_read p" and "thr s' = (thr s)(t := q)"
    "got s' = got s" "tl_of s' = tl_of s" "\<And>p. p < tl_of s \<Longrightarrow> enq_log s' ! p = enq_log s ! p"
  shows "got_ok s'"
  unfolding got_ok_def
proof (intro conjI allI impI ballI)
  show "distinct (map fst (got s'))" using got_okD(1) [OF g] assms by simp
  show "case x of (p, v) \<Rightarrow> unat p < tl_of s' \<and> v = enq_log s' ! unat p" if "x \<in> set (got s')" for x
    using that got_okD(2) [OF g, of "fst x" "snd x"] assms by (simp add: split_beta)
  show "p \<notin> fst ` set (got s')" if "thr s' u = D_read p" for u p
    using that got_okD(3) [OF g, of u p] assms by (cases "u = t") simp_all
  show "of_nat p \<in> fst ` set (got s') \<or> (\<exists>u. thr s' u = D_read (of_nat p))" if "p < tl_of s'" for p
    using that got_okD(4) [OF g, of p] assms by (simp add: ex_D_read del: fun_upd_apply)
qed

lemma take_head_ok:
  assumes c: "good_cap cap" and ok: "conc_ok cap s" and t: "thr s t = E_cas pos d" and h: "q_head (cq s) = pos"
    and b: "length (enq_log s) < 2 ^ 62"
  shows "conc_ok cap (goto t (E_write pos d) (s\<lparr>cq := (cq s)\<lparr>q_head := pos + 1\<rparr>, enq_log := enq_log s @ [d]\<rparr>))"
    (is "conc_ok cap ?s'")
proof -
  note D = conc_okD [OF ok] and C = good_capD [OF c]
  define H where "H = hd_of s"
  have pos: "unat pos = H" using h by (simp add: H_def hd_of_def)
  have room: "H < tl_of s + unat cap" "sq s H = H" using D(5) [of t] t pos by (auto simp: H_def)
  have H1: "unat (pos + 1) = H + 1"
    using b D(2) pos H_def by (subst unat_add_nowrap) simp_all
  have log: "p < H \<Longrightarrow> (enq_log s @ [d]) ! p = enq_log s ! p" for p using D(2) by (simp add: nth_append H_def)
  have logH: "(enq_log s @ [d]) ! H = d" using D(2) by (simp add: H_def)
  have nord: "H < p + unat cap" if "pc_reads (thr s u) p" for u p
  proof -
    note held_read [OF D(5) that]
    moreover have "p + unat cap \<noteq> H"
    proof
      assume "p + unat cap = H"
      then have "sq s p = sq s H" by (intro sq_period [OF c D(1)]) (metis mod_add_self2)
      with calculation room(2) \<open>p + unat cap = H\<close> C(1) show False by simp
    qed
    ultimately show ?thesis by (simp add: H_def)
  qed
  have "ring_ok cap ?s'" using D(1-4) room(1) by (simp add: ring_ok_def H1 H_def)
  moreover have "slots_ok (unat cap) ?s'"
    unfolding slots_ok_def
  proof (intro conjI allI impI)
    fix p assume p: "tl_of ?s' \<le> p" "p < hd_of ?s'"
    show "(\<exists>u. pc_writes (thr ?s' u) p) \<or> sq ?s' p = p + 1 \<and> dt ?s' p = enq_log ?s' ! p"
    proof (cases "p = H")
      case True
      then show ?thesis using pos by (intro disjI1 exI [of _ t]) simp
    next
      case False
      then have "p < H" using p(2) H1 by simp
      then have "(\<exists>u. pc_writes (thr s u) p) \<or> sq s p = p + 1 \<and> dt s p = enq_log s ! p"
        using slots_okD(1) [OF D(6), of p] p(1) by (simp add: H_def)
      then show ?thesis using log [OF \<open>p < H\<close>] by (simp add: ex_writes t del: fun_upd_apply)
    qed
  next
    fix p assume p: "hd_of ?s' \<le> p" "p < tl_of ?s' + unat cap"
    then show "sq ?s' p = p \<or> unat cap \<le> p \<and> (\<exists>u. pc_reads (thr ?s' u) (p - unat cap))"
      using slots_okD(2) [OF D(6), of p] H1 by (simp add: ex_reads t H_def del: fun_upd_apply)
  qed
  moreover have "pc_ok (unat cap) ?s' (thr ?s' u)" for u
  proof (cases "u = t")
    case True
    then show ?thesis using D(3) room pos logH by (simp add: H1 H_def)
  next
    case False
    have "pc_ok (unat cap) s (thr s u)" by (rule D(5))
    then show ?thesis using False D(3) log nord [of u]
      by (cases "thr s u") (auto simp: H1 H_def [symmetric])
  qed
  moreover have "alone_ok ?s'"
    by (rule alone_goto [OF D(7), where t = t and q = "E_write pos d"]) (use held_write [OF D(5)] pos H_def in fastforce)+
  moreover have "got_ok ?s'"
    by (rule got_frame [OF D(8), where t = t and q = "E_write pos d"]) (use t log D(3) in \<open>simp_all add: H_def\<close>)
  ultimately show ?thesis by (simp add: conc_ok_def)
qed

text \<open>Writing the data: the slot belongs to one writer, and no reader has it.\<close>

lemma reader_slot:
  assumes c: "good_cap cap" and ok: "conc_ok cap s" and "pc_reads (thr s u) p" "tl_of s \<le> q" "q < hd_of s"
  shows "p mod unat cap \<noteq> q mod unat cap"
proof -
  have "p < tl_of s" "hd_of s \<le> p + unat cap" using held_read [OF conc_okD(5) [OF ok] assms(3)] by simp_all
  then have "(p + unat cap) mod unat cap = q mod unat cap \<longleftrightarrow> p + unat cap = q"
    using assms(4,5) conc_okD(3,4) [OF ok] by (intro window [of "tl_of s"]) simp_all
  then show ?thesis using assms(5) \<open>hd_of s \<le> p + unat cap\<close> by simp
qed

lemma write_ok:
  assumes c: "good_cap cap" and ok: "conc_ok cap s" and t: "thr s t = E_write pos d"
  shows "conc_ok cap (goto t (E_pub pos d) (s\<lparr>cq := put_data (pos AND q_mask (cq s)) d (cq s)\<rparr>))"
    (is "conc_ok cap ?s'")
proof -
  note D = conc_okD [OF ok] and C = good_capD [OF c]
  have me: "tl_of s \<le> unat pos" "unat pos < hd_of s" "sq s (unat pos) = unat pos" "enq_log s ! unat pos = d"
    using D(5) [of t] t by simp_all
  note V [simp] = views_data [OF c D(1), of pos d] views_data [OF c D(1), of pos d, unfolded D(1)]
  have other: "p mod unat cap = unat pos mod unat cap \<longleftrightarrow> p = unat pos" if "tl_of s \<le> p" "p < hd_of s" for p
    using that me D(4) by (intro window [of "tl_of s"]) simp_all
  have "ring_ok cap ?s'" using D(1-4) by (simp add: ring_ok_def)
  moreover have "slots_ok (unat cap) ?s'"
    unfolding slots_ok_def
  proof (intro conjI allI impI)
    fix p assume p: "tl_of ?s' \<le> p" "p < hd_of ?s'"
    show "(\<exists>u. pc_writes (thr ?s' u) p) \<or> sq ?s' p = p + 1 \<and> dt ?s' p = enq_log ?s' ! p"
    proof (cases "p = unat pos")
      case True
      then show ?thesis by (intro disjI1 exI [of _ t]) simp
    next
      case False
      then show ?thesis using slots_okD(1) [OF D(6), of p] p other [of p] by (simp add: ex_writes t del: fun_upd_apply)
    qed
  next
    fix p assume p: "hd_of ?s' \<le> p" "p < tl_of ?s' + unat cap"
    then show "sq ?s' p = p \<or> unat cap \<le> p \<and> (\<exists>u. pc_reads (thr ?s' u) (p - unat cap))"
      using slots_okD(2) [OF D(6), of p] by (simp add: ex_reads t del: fun_upd_apply)
  qed
  moreover have "pc_ok (unat cap) ?s' (thr ?s' u)" for u
  proof (cases "u = t")
    case True
    then show ?thesis using me by simp
  next
    case False
    have ne: "unat pos \<noteq> p" if "pc_writes (thr s u) p" for p
      using that False D(7) t unfolding alone_ok_def by (metis pc_writes.simps(1))
    have "pc_ok (unat cap) s (thr s u)" by (rule D(5))
    then show ?thesis using False ne other reader_slot [OF c ok, of u _ "unat pos"] me(1,2)
      by (cases "thr s u") fastforce+
  qed
  moreover have "alone_ok ?s'"
    by (rule alone_goto [OF D(7), where t = t and q = "E_pub pos d"])
      (use D(7) t in \<open>simp_all add: alone_ok_def\<close>, metis pc_writes.simps(1))
  moreover have "got_ok ?s'"
    by (rule got_frame [OF D(8), where t = t and q = "E_pub pos d"]) (use t in simp_all)
  ultimately show ?thesis by (simp add: conc_ok_def)
qed

lemma publish_ok:
  assumes c: "good_cap cap" and ok: "conc_ok cap s" and t: "thr s t = E_pub pos d"
    and b: "length (enq_log s) < 2 ^ 62"
  shows "conc_ok cap (goto t Idle (s\<lparr>cq := put_seq (pos AND q_mask (cq s)) (pos + 1) (cq s)\<rparr>))"
    (is "conc_ok cap ?s'")
proof -
  note D = conc_okD [OF ok] and C = good_capD [OF c]
  have me: "tl_of s \<le> unat pos" "unat pos < hd_of s" "sq s (unat pos) = unat pos" "enq_log s ! unat pos = d"
    "dt s (unat pos) = d"
    using D(5) [of t] t by simp_all
  have p1 [simp]: "unat (pos + 1) = unat pos + 1" using b D(2) me(2) by (subst unat_add_nowrap) simp_all
  note V [simp] = views_seq [OF c D(1), of pos "pos + 1"] views_seq [OF c D(1), of pos "pos + 1", unfolded D(1)]
  have other: "p mod unat cap = unat pos mod unat cap \<longleftrightarrow> p = unat pos" if "tl_of s \<le> p" "p < tl_of s + unat cap" for p
    using that me D(4) by (intro window [of "tl_of s"]) simp_all
  have "ring_ok cap ?s'" using D(1-4) by (simp add: ring_ok_def)
  moreover have "slots_ok (unat cap) ?s'"
    unfolding slots_ok_def
  proof (intro conjI allI impI)
    fix p assume p: "tl_of ?s' \<le> p" "p < hd_of ?s'"
    show "(\<exists>u. pc_writes (thr ?s' u) p) \<or> sq ?s' p = p + 1 \<and> dt ?s' p = enq_log ?s' ! p"
    proof (cases "p = unat pos")
      case True
      then show ?thesis using me by simp
    next
      case False
      have nw: "\<not> pc_writes (thr s t) p" using False t by simp
      show ?thesis using slots_okD(1) [OF D(6), of p] p other [of p] D(4) False
        by (simp add: ex_writes [where f = "thr s" and q = Idle, OF nw] del: fun_upd_apply)
    qed
  next
    fix p assume p: "hd_of ?s' \<le> p" "p < tl_of ?s' + unat cap"
    then show "sq ?s' p = p \<or> unat cap \<le> p \<and> (\<exists>u. pc_reads (thr ?s' u) (p - unat cap))"
      using slots_okD(2) [OF D(6), of p] other [of p] me D(3) by (simp add: ex_reads t del: fun_upd_apply)
  qed
  moreover have "pc_ok (unat cap) ?s' (thr ?s' u)" for u
  proof (cases "u = t")
    case False
    have ne: "unat pos \<noteq> p" if "pc_writes (thr s u) p" for p
      using that False D(7) t unfolding alone_ok_def by (metis pc_writes.simps(2))
    have "pc_ok (unat cap) s (thr s u)" by (rule D(5))
    then show ?thesis using False ne other reader_slot [OF c ok, of u _ "unat pos"] me(1-3) D(3,4)
      by (cases "thr s u") fastforce+
  qed simp
  moreover have "alone_ok ?s'"
    by (rule alone_goto [OF D(7), where t = t and q = Idle]) simp_all
  moreover have "got_ok ?s'"
    by (rule got_frame [OF D(8), where t = t and q = Idle]) (use t in simp_all)
  ultimately show ?thesis by (simp add: conc_ok_def)
qed

lemma take_tail_ok:
  assumes c: "good_cap cap" and ok: "conc_ok cap s" and t: "thr s t = D_cas pos" and h: "q_tail (cq s) = pos"
    and b: "length (enq_log s) < 2 ^ 62"
  shows "conc_ok cap (goto t (D_read pos) (s\<lparr>cq := (cq s)\<lparr>q_tail := pos + 1\<rparr>\<rparr>))" (is "conc_ok cap ?s'")
proof -
  note D = conc_okD [OF ok] and C = good_capD [OF c]
  define T where "T = tl_of s"
  have pos: "unat pos = T" using h by (simp add: T_def tl_of_def)
  have full: "T < hd_of s" "sq s T = T + 1" using D(5) [of t] t pos by (auto simp: T_def)
  have T1 [simp]: "unat (pos + 1) = T + 1" using b D(2) pos full by (subst unat_add_nowrap) simp_all
  have now: "\<not> pc_writes (thr s u) T" for u using held_write [OF D(5), of u T] full(2) by auto
  have dT: "dt s T = enq_log s ! T" using slots_okD(1) [OF D(6), of T] full now by (auto simp: T_def)
  have "ring_ok cap ?s'" using D(1-4) full by (simp add: ring_ok_def T_def)
  moreover have "slots_ok (unat cap) ?s'"
    unfolding slots_ok_def
  proof (intro conjI allI impI)
    fix p assume p: "tl_of ?s' \<le> p" "p < hd_of ?s'"
    then show "(\<exists>u. pc_writes (thr ?s' u) p) \<or> sq ?s' p = p + 1 \<and> dt ?s' p = enq_log ?s' ! p"
      using slots_okD(1) [OF D(6), of p] by (simp add: ex_writes t T_def del: fun_upd_apply)
  next
    fix p assume p: "hd_of ?s' \<le> p" "p < tl_of ?s' + unat cap"
    show "sq ?s' p = p \<or> unat cap \<le> p \<and> (\<exists>u. pc_reads (thr ?s' u) (p - unat cap))"
    proof (cases "p = T + unat cap")
      case True
      then show ?thesis using pos by (intro disjI2 conjI exI [of _ t]) simp_all
    next
      case False
      then show ?thesis using p slots_okD(2) [OF D(6), of p] by (simp add: ex_reads t T_def del: fun_upd_apply) blast
    qed
  qed
  moreover have "pc_ok (unat cap) ?s' (thr ?s' u)" for u
  proof (cases "u = t")
    case True
    then show ?thesis using D(4) full pos dT by (simp add: T_def)
  next
    case False
    have "pc_ok (unat cap) s (thr s u)" by (rule D(5))
    then show ?thesis using False now [of u] full
      by (cases "thr s u") (auto simp: T_def [symmetric] Suc_le_eq le_less)
  qed
  moreover have "alone_ok ?s'"
    by (rule alone_goto [OF D(7), where t = t and q = "D_read pos"]) (use held_read [OF D(5)] pos T_def in fastforce)+
  moreover have "got_ok ?s'"
    unfolding got_ok_def
  proof (intro conjI allI impI ballI)
    show "distinct (map fst (got ?s'))" using got_okD(1) [OF D(8)] by simp
    show "case x of (p, v) \<Rightarrow> unat p < tl_of ?s' \<and> v = enq_log ?s' ! unat p" if "x \<in> set (got ?s')" for x
      using that got_okD(2) [OF D(8), of "fst x" "snd x"] by (simp add: split_beta T_def)
    show "p \<notin> fst ` set (got ?s')" if "thr ?s' u = D_read p" for u p
      using that got_okD(3) [OF D(8), of u p] got_okD(2) [OF D(8), of p] pos by (cases "u = t") (auto simp: T_def)
    show "of_nat p \<in> fst ` set (got ?s') \<or> (\<exists>u. thr ?s' u = D_read (of_nat p))" if "p < tl_of ?s'" for p
    proof (cases "p = T")
      case True
      then have "pos = of_nat p" using pos by auto
      then show ?thesis by (intro disjI2 exI [of _ t]) simp
    next
      case False
      then show ?thesis using that got_okD(4) [OF D(8), of p] by (auto simp: ex_D_read t T_def simp del: fun_upd_apply)
    qed
  qed
  ultimately show ?thesis by (simp add: conc_ok_def)
qed

lemma read_ok:
  assumes c: "good_cap cap" and ok: "conc_ok cap s" and t: "thr s t = D_read pos"
  shows "conc_ok cap (goto t (D_rel pos (data_of pos s)) (s\<lparr>got := got s @ [(pos, data_of pos s)]\<rparr>))" (is "conc_ok cap ?s'")
proof -
  note D = conc_okD [OF ok]
  define v where "v = data_of pos s"
  have me: "unat pos < tl_of s" "hd_of s \<le> unat pos + unat cap" "sq s (unat pos) = unat pos + 1" "v = enq_log s ! unat pos"
    using D(5) [of t] t by (simp_all add: v_def dt_def)
  have same: "pc_reads (((thr s)(t := D_rel pos v)) u) p = pc_reads (thr s u) p" 
    "pc_writes (((thr s)(t := D_rel pos v)) u) p = pc_writes (thr s u) p" for u p using t by simp_all
  have views: "pc_ok (unat cap) (s\<lparr>got := g\<rparr>) q = pc_ok (unat cap) s q" for g q by (cases q) simp_all
  have "ring_ok cap ?s'" using D(1-4) by (simp add: ring_ok_def)
  moreover have "slots_ok (unat cap) ?s'"
    using D(6) unfolding slots_ok_def by (simp add: same v_def [symmetric] del: fun_upd_apply)
  moreover have "pc_ok (unat cap) ?s' (thr ?s' u)" for u
    using D(5) [of u] me by (simp add: views v_def [symmetric])
  moreover have "alone_ok ?s'"
    using D(7) unfolding alone_ok_def by (simp add: same v_def [symmetric] del: fun_upd_apply)
  moreover have "got_ok ?s'"
    unfolding got_ok_def
  proof (intro conjI allI impI ballI)
    show "distinct (map fst (got ?s'))" using got_okD(1,3) [OF D(8)] t by simp
    show "case x of (p, v) \<Rightarrow> unat p < tl_of ?s' \<and> v = enq_log ?s' ! unat p" if "x \<in> set (got ?s')" for x
      using that got_okD(2) [OF D(8), of "fst x" "snd x"] me by (auto simp: split_beta v_def)
    show "p \<notin> fst ` set (got ?s')" if "thr ?s' u = D_read p" for u p
    proof (cases "u = t")
      case False
      with that have u: "thr s u = D_read p" by simp
      have "p \<noteq> pos" using D(7) u t False unfolding alone_ok_def by (metis pc_reads.simps(1))
      then show ?thesis using got_okD(3) [OF D(8) u] by simp
    qed (use that in simp)
    show "of_nat p \<in> fst ` set (got ?s') \<or> (\<exists>u. thr ?s' u = D_read (of_nat p))" if "p < tl_of ?s'" for p
    proof (cases "p = unat pos")
      case False
      then have ne: "of_nat p \<noteq> pos" using that unat_lt_64 [of "q_tail (cq s)"]
        by (auto simp: unsigned_of_nat take_bit_nat_eq_self tl_of_def)
      then show ?thesis using that got_okD(4) [OF D(8), of p]
        by (auto simp: ex_D_read t simp del: fun_upd_apply)
    qed simp
  qed
  ultimately show ?thesis by (simp add: conc_ok_def)
qed

lemma release_ok:
  assumes c: "good_cap cap" and ok: "conc_ok cap s" and t: "thr s t = D_rel pos v"
    and b: "length (enq_log s) < 2 ^ 62"
  shows "conc_ok cap (goto t Idle (s\<lparr>cq := put_seq (pos AND q_mask (cq s)) (pos + cap) (cq s)\<rparr>))"
    (is "conc_ok cap ?s'")
proof -
  note D = conc_okD [OF ok] and C = good_capD [OF c]
  have me: "unat pos < tl_of s" "hd_of s \<le> unat pos + unat cap" "sq s (unat pos) = unat pos + 1"
    using D(5) [of t] t by simp_all
  have pn [simp]: "unat (pos + cap) = unat pos + unat cap"
    using b D(2,3) me(1) C(2) by (subst unat_add_nowrap) simp_all
  note V [simp] = views_seq [OF c D(1), of pos "pos + cap"] views_seq [OF c D(1), of pos "pos + cap", unfolded D(1)]
  have other: "p mod unat cap = unat pos mod unat cap \<longleftrightarrow> p = unat pos + unat cap"
    if "tl_of s \<le> p" "p < tl_of s + unat cap" for p
    using window [of "tl_of s" p "unat cap" "unat pos + unat cap"] that me D(3) by simp
  have other_rd: "p mod unat cap = unat pos mod unat cap \<longleftrightarrow> p = unat pos" if "pc_reads (thr s u) p" for u p
    using held_read [OF D(5) that] other [of "p + unat cap"] D(3) by simp
  have "ring_ok cap ?s'" using D(1-4) by (simp add: ring_ok_def)
  moreover have "slots_ok (unat cap) ?s'"
    unfolding slots_ok_def
  proof (intro conjI allI impI)
    fix p assume p: "tl_of ?s' \<le> p" "p < hd_of ?s'"
    then show "(\<exists>u. pc_writes (thr ?s' u) p) \<or> sq ?s' p = p + 1 \<and> dt ?s' p = enq_log ?s' ! p"
      using slots_okD(1) [OF D(6), of p] other [of p] D(4) me(2) by (simp add: ex_writes t del: fun_upd_apply)
  next
    fix p assume p: "hd_of ?s' \<le> p" "p < tl_of ?s' + unat cap"
    show "sq ?s' p = p \<or> unat cap \<le> p \<and> (\<exists>u. pc_reads (thr ?s' u) (p - unat cap))"
    proof (cases "p = unat pos + unat cap")
      case False
      have nr: "\<not> (unat cap \<le> p \<and> pc_reads (thr s t) (p - unat cap))" using False t by auto
      have "(\<exists>u. unat cap \<le> p \<and> pc_reads (((thr s)(t := Idle)) u) (p - unat cap)) \<longleftrightarrow>
          (\<exists>u. unat cap \<le> p \<and> pc_reads (thr s u) (p - unat cap))"
        using ex_upd [where P = "\<lambda>x. unat cap \<le> p \<and> pc_reads x (p - unat cap)" and f = "thr s", OF nr, of Idle] by simp
      then show ?thesis using p slots_okD(2) [OF D(6), of p] other [of p] False D(3)
        by (auto simp del: fun_upd_apply)
    qed simp
  qed
  moreover have "pc_ok (unat cap) ?s' (thr ?s' u)" for u
  proof (cases "u = t")
    case False
    have ne: "unat pos \<noteq> p" if "pc_reads (thr s u) p" for p
      using that False D(7) t unfolding alone_ok_def by (metis pc_reads.simps(2))
    have "pc_ok (unat cap) s (thr s u)" by (rule D(5))
    then show ?thesis using False ne other other_rd [of u] me D(3,4)
      by (cases "thr s u") fastforce+
  qed simp
  moreover have "alone_ok ?s'"
    by (rule alone_goto [OF D(7), where t = t and q = Idle]) simp_all
  moreover have "got_ok ?s'"
    by (rule got_frame [OF D(8), where t = t and q = Idle]) (use t in simp_all)
  ultimately show ?thesis by (simp add: conc_ok_def)
qed

section \<open>Every reachable state\<close>

lemma load_cas_ok:
  assumes c: "good_cap cap" and ok: "conc_ok cap s" and b: "length (enq_log s) < 2 ^ 62"
  shows "thr s t = E_seq pos d \<Longrightarrow> seq_of pos s = pos \<Longrightarrow> pc_ok (unat cap) s (E_cas pos d)"
    and "thr s t = D_seq pos \<Longrightarrow> seq_of pos s = pos + 1 \<Longrightarrow> pc_ok (unat cap) s (D_cas pos)"
proof -
  note D = conc_okD [OF ok] and C = good_capD [OF c]
  have sq: "sq s (unat pos) = unat (seq_of pos s)" by (simp add: sq_def)
  show "pc_ok (unat cap) s (E_cas pos d)" if t: "thr s t = E_seq pos d" and e: "seq_of pos s = pos"
  proof -
    have "hd_of s < tl_of s + unat cap" if h: "unat pos = hd_of s"
    proof (rule ccontr)
      assume "\<not> hd_of s < tl_of s + unat cap"
      then have f: "hd_of s = tl_of s + unat cap" using D(4) by simp
      have s1: "sq s (tl_of s) = hd_of s"
        using sq_period [OF c D(1), of "tl_of s" "hd_of s"] f sq e h by simp
      have "tl_of s < hd_of s" using f C(1) by simp
      then show False using slots_okD(1) [OF D(6) le_refl] held_write [OF D(5), of _ "tl_of s"] s1 f C(1) by fastforce
    qed
    then show ?thesis using D(5) [of t] t sq e by auto
  qed
  show "pc_ok (unat cap) s (D_cas pos)" if t: "thr s t = D_seq pos" and e: "seq_of pos s = pos + 1"
  proof -
    have le: "unat pos \<le> tl_of s" using D(5) [of t] t by simp
    have u1: "unat (pos + 1) = unat pos + 1" using le b D(2,3) by (subst unat_add_nowrap) simp_all
    have "tl_of s < hd_of s" if h: "unat pos = tl_of s"
    proof (rule ccontr)
      assume "\<not> tl_of s < hd_of s"
      then have f: "hd_of s = tl_of s" using D(3) by simp
      have s1: "sq s (tl_of s) = tl_of s + 1" using sq e u1 h by simp
      from slots_okD(2) [OF D(6), of "tl_of s"] f C(1) s1 obtain u where
        "unat cap \<le> tl_of s" "pc_reads (thr s u) (tl_of s - unat cap)" by auto
      then have "sq s (tl_of s - unat cap) = tl_of s - unat cap + 1" using held_read [OF D(5)] by blast
      moreover have "sq s (tl_of s - unat cap) = sq s (tl_of s)"
        by (rule sq_period [OF c D(1)]) (metis \<open>unat cap \<le> tl_of s\<close> mod_if le_mod_geq not_less)
      ultimately show False using s1 C(1) \<open>unat cap \<le> tl_of s\<close> by simp
    qed
    then show ?thesis using le sq e u1 by auto
  qed
qed

lemma qstep_ok:
  assumes "qstep cap s s'" and c: "good_cap cap" and ok: "conc_ok cap s" and b: "length (enq_log s') < 2 ^ 62"
  shows "conc_ok cap s'"
  using assms(1)
proof cases
  case (enq_free t pos d)
  then show ?thesis using move_ok [OF ok] load_cas_ok(1) [OF c ok] b by simp
next
  case (deq_ready t pos)
  then show ?thesis using move_ok [OF ok] load_cas_ok(2) [OF c ok] b by simp
next
  case (enq_take t pos d)
  then show ?thesis using take_head_ok [OF c ok] b by simp
next
  case (enq_write t pos d)
  then show ?thesis using write_ok [OF c ok] by simp
next
  case (enq_publish t pos d)
  then show ?thesis using publish_ok [OF c ok] b by simp
next
  case (deq_take t pos)
  then show ?thesis using take_tail_ok [OF c ok] b by simp
next
  case (deq_read t pos)
  then show ?thesis using read_ok [OF c ok] by simp
next
  case (deq_release t pos v)
  then show ?thesis using release_ok [OF c ok] b by simp
qed (use move_ok [OF ok] in \<open>simp_all add: hd_of_def tl_of_def\<close>)

lemma qstep_log_mono: "qstep cap s s' \<Longrightarrow> length (enq_log s) \<le> length (enq_log s')"
  by (cases rule: qstep.cases) auto

lemma init_ok:
  assumes "good_cap cap" shows "conc_ok cap (conc_init cap q)"
proof -
  have m: "mq_rep cap (lf_mpmc_queue_init cap q) []" by (rule init_rep [OF assms])
  have e: "q_head (lf_mpmc_queue_init cap q) = 0" "q_tail (lf_mpmc_queue_init cap q) = 0"
    by (simp_all add: lf_mpmc_queue_init_def Let_def)
  have "sq (conc_init cap q) p = p" if "p < unat cap" for p
    using mq_repD(6) [OF m, of p] mq_repD(1) [OF m] that good_capD(2) [OF assms] e
    by (simp add: sq_def seq_of_def conc_init_def unsigned_of_nat take_bit_nat_eq_self)
  then show ?thesis using mq_repD(1) [OF m] e
    by (simp add: conc_ok_def ring_ok_def slots_ok_def alone_ok_def got_ok_def hd_of_def tl_of_def conc_init_def)
qed

lemma reach_ok:
  assumes "(qstep cap)\<^sup>*\<^sup>* (conc_init cap q) s" "good_cap cap" "length (enq_log s) < 2 ^ 62"
  shows "conc_ok cap s"
  using assms(1,3)
proof (induction rule: rtranclp_induct)
  case base show ?case by (rule init_ok [OF assms(2)])
next
  case (step s s')
  have "conc_ok cap s" by (rule step.IH) (use qstep_log_mono [OF step.hyps(2)] step.prems in simp)
  then show ?case using qstep_ok [OF step.hyps(2) assms(2)] step.prems by simp
qed

text \<open>When no operation is in progress, the ring is the sequential queue of the data not yet
  delivered.\<close>

lemma quiet_rep:
  assumes c: "good_cap cap" and ok: "conc_ok cap s" and quiet: "\<And>t. thr s t = Idle" and b: "length (enq_log s) < 2 ^ 62"
  shows "mq_rep cap (cq s) (drop (tl_of s) (enq_log s))"
proof -
  note D = conc_okD [OF ok] and C = good_capD [OF c]
  have full: "sq s p = p + 1 \<and> dt s p = enq_log s ! p" if "tl_of s \<le> p" "p < hd_of s" for p
    using slots_okD(1) [OF D(6) that] quiet by simp
  have free: "sq s p = p" if "hd_of s \<le> p" "p < tl_of s + unat cap" for p
    using slots_okD(2) [OF D(6) that] quiet by simp
  have tl: "q_tail (cq s) + of_nat i = of_nat (tl_of s + i)" for i by (simp add: tl_of_def)
  have seq: "seq_of (of_nat p) s = of_nat (sq s p)" for p by (simp add: sq_def)
  show ?thesis
    unfolding mq_rep_def Let_def
  proof (intro conjI allI impI)
    show "q_mask (cq s) = cap - 1" "length (drop (tl_of s) (enq_log s)) \<le> unat cap" using D(1,2,4) by simp_all
    show "q_head (cq s) = q_tail (cq s) + of_nat (length (drop (tl_of s) (enq_log s)))"
      unfolding tl using D(2,3) by (simp add: hd_of_def [symmetric]) (simp add: hd_of_def D(2) [symmetric])
    fix i assume i: "i < unat cap"
    have at: "slot_seq (q_buffer (cq s) ((q_tail (cq s) + of_nat i) AND (cap - 1))) = of_nat (sq s (tl_of s + i))"
      "slot_data (q_buffer (cq s) ((q_tail (cq s) + of_nat i) AND (cap - 1))) = dt s (tl_of s + i)"
      unfolding tl by (simp_all add: seq [symmetric] seq_of_def dt_def data_of_def D(1))
    show "if i < length (drop (tl_of s) (enq_log s))
      then slot_seq (q_buffer (cq s) ((q_tail (cq s) + of_nat i) AND (cap - 1))) = q_tail (cq s) + of_nat i + 1 \<and>
           slot_data (q_buffer (cq s) ((q_tail (cq s) + of_nat i) AND (cap - 1))) = drop (tl_of s) (enq_log s) ! i
      else slot_seq (q_buffer (cq s) ((q_tail (cq s) + of_nat i) AND (cap - 1))) = q_tail (cq s) + of_nat i"
      unfolding at unfolding tl using full [of "tl_of s + i"] free [of "tl_of s + i"] i D(2,3) by (auto simp: add.commute)
  qed
qed

section \<open>Properties\<close>

text \<open>C18: The queue, used by one thread, is a bounded FIFO for every capacity that is a power of two
  from 2 up, also when the 64-bit positions wrap: an enqueue appends exactly when there is room and
  reports \<^verbatim>\<open>LF_QUEUE_FULL\<close> otherwise; a dequeue removes the oldest element and reports
  \<^verbatim>\<open>LF_QUEUE_EMPTY\<close> on an empty queue; both return.\<close>

theorem mpmc_queue_refines_fifo:
  assumes "good_cap cap" "mq_rep cap q xs"
  shows "(\<exists>q'. lf_mpmc_queue_try_enqueue d q = Some (if length xs < unat cap then LF_QUEUE_OK else LF_QUEUE_FULL, q') \<and>
            mq_rep cap q' (if length xs < unat cap then xs @ [d] else xs)) \<and>
         (\<exists>q'. lf_mpmc_queue_try_dequeue cap q =
              Some (case xs of [] \<Rightarrow> (LF_QUEUE_EMPTY, None) | x # _ \<Rightarrow> (LF_QUEUE_OK, Some x), q') \<and>
            mq_rep cap q' (tl xs))"
proof
  show "\<exists>q'. lf_mpmc_queue_try_enqueue d q = Some (if length xs < unat cap then LF_QUEUE_OK else LF_QUEUE_FULL, q') \<and>
            mq_rep cap q' (if length xs < unat cap then xs @ [d] else xs)"
  proof (cases "length xs < unat cap")
    case True
    obtain q' where "lf_mpmc_queue_try_enqueue d q = Some (LF_QUEUE_OK, q')" "mq_rep cap q' (xs @ [d])"
      by (rule enqueue_room [OF assms True])
    with True show ?thesis by simp
  next
    case False
    with mq_repD(2) [OF assms(2)] have "length xs = unat cap" by simp
    from enqueue_full [OF assms this] assms(2) False show ?thesis by simp
  qed
  show "\<exists>q'. lf_mpmc_queue_try_dequeue cap q =
              Some (case xs of [] \<Rightarrow> (LF_QUEUE_EMPTY, None) | x # _ \<Rightarrow> (LF_QUEUE_OK, Some x), q') \<and>
            mq_rep cap q' (tl xs)"
  proof (cases xs)
    case Nil
    with dequeue_empty [of cap q] assms show ?thesis by auto
  next
    case (Cons x ys)
    with assms(2) have r: "mq_rep cap q (x # ys)" by simp
    obtain q' where "lf_mpmc_queue_try_dequeue cap q = Some ((LF_QUEUE_OK, Some x), q')" "mq_rep cap q' ys"
      by (rule dequeue_one [OF assms(1) r])
    with Cons show ?thesis by simp
  qed
qed

definition some_queue :: lf_mpmc_queue where
  "some_queue = \<lparr>q_head = 0, q_tail = 0, q_buffer = \<lambda>_. \<lparr>slot_seq = 0, slot_data = 0\<rparr>, q_mask = 0\<rparr>"

lemma mpmc_queue_refines_fifo_witness:
  "(\<exists>q'. lf_mpmc_queue_try_enqueue 5 (lf_mpmc_queue_init 2 some_queue) = Some (LF_QUEUE_OK, q') \<and> mq_rep 2 q' [5]) \<and>
   (\<exists>q'. lf_mpmc_queue_try_dequeue 2 (lf_mpmc_queue_init 2 some_queue) = Some ((LF_QUEUE_EMPTY, None), q'))"
  using mpmc_queue_refines_fifo [OF good_cap_2 init_rep [OF good_cap_2, of some_queue], of 5] by auto

text \<open>C19: The search finds a pointer exactly when it is queued and not null, in every state of
  the queue in which the positions have not passed \<open>2 ^ 64\<close>.\<close>

theorem mpmc_find_ptr_exact:
  assumes "good_cap cap" "mq_rep cap q xs" "unat (q_tail q) + length xs < 2 ^ 64"
  shows "lf_mpmc_queue_try_find_ptr cap ptr q = LF_QUEUE_OK \<longleftrightarrow> ptr \<noteq> 0 \<and> ptr \<in> set xs"
  using find_ptr_ok [OF assms, of ptr] by (simp add: queue_codes)

lemma mpmc_find_ptr_exact_witness:
  "lf_mpmc_queue_try_find_ptr 2 9 (lf_mpmc_queue_init 2 some_queue) = LF_QUEUE_OK \<longleftrightarrow> (9 :: u64) \<noteq> 0 \<and> 9 \<in> set ([] :: u64 list)"
proof (rule mpmc_find_ptr_exact [OF good_cap_2 init_rep [OF good_cap_2]])
  show "unat (q_tail (lf_mpmc_queue_init 2 some_queue)) + length ([] :: u64 list) < 2 ^ 64"
    using unat_lt_64 by simp
qed

text \<open>C5: With any number of threads enqueueing and dequeueing at once, in every interleaving of
  their atomic accesses: a dequeue that took position \<open>p\<close> reads exactly the data of the \<open>p\<close>-th
  enqueue, no position is delivered twice, and the ring never holds more than its capacity.\<close>

theorem mpmc_concurrent_fifo:
  assumes "(qstep cap)\<^sup>*\<^sup>* (conc_init cap q) s" "good_cap cap" "length (enq_log s) < 2 ^ 62"
  shows "distinct (map fst (got s)) \<and> (\<forall>(p, v) \<in> set (got s). unat p < length (enq_log s) \<and> v = enq_log s ! unat p) \<and>
         unat (q_tail (cq s)) \<le> length (enq_log s) \<and> length (enq_log s) \<le> unat (q_tail (cq s)) + unat cap"
proof -
  note D = conc_okD [OF reach_ok [OF assms]]
  have "unat p < length (enq_log s) \<and> v = enq_log s ! unat p" if "(p, v) \<in> set (got s)" for p v
    using got_okD(2) [OF D(8) that] D(2,3) by simp
  then show ?thesis using got_okD(1) [OF D(8)] D(2-4) by (auto simp: tl_of_def)
qed

lemma delivered_set:
  assumes "conc_ok cap s" "\<And>t. thr s t = Idle"
  shows "set (map (unat \<circ> fst) (got s)) = {0..<tl_of s}" "distinct (map (unat \<circ> fst) (got s))"
proof -
  note D = conc_okD [OF assms(1)]
  show "set (map (unat \<circ> fst) (got s)) = {0..<tl_of s}"
  proof (intro equalityI subsetI)
    fix p assume "p \<in> {0..<tl_of s}"
    then have "p < tl_of s" by simp
    then obtain x where "x \<in> set (got s)" "fst x = of_nat p" using got_okD(4) [OF D(8)] assms(2) by fastforce
    moreover have "unat (of_nat p :: u64) = p" using \<open>p < tl_of s\<close> unat_lt_64 [of "q_tail (cq s)"]
      by (simp add: unsigned_of_nat take_bit_nat_eq_self tl_of_def)
    ultimately show "p \<in> set (map (unat \<circ> fst) (got s))" by force
  qed (use got_okD(2) [OF D(8)] in auto)
  have "distinct (map unat (map fst (got s)))"
    using got_okD(1) [OF D(8)] by (subst distinct_map) (simp add: inj_on_def unsigned_word_eqI)
  then show "distinct (map (unat \<circ> fst) (got s))" by simp
qed

text \<open>C10: Nothing is lost: when no operation is in progress, the data delivered so far together with
  the contents of the ring are exactly the data enqueued so far, and the ring is again a
  well-formed sequential queue.\<close>

theorem mpmc_nothing_lost:
  assumes "(qstep cap)\<^sup>*\<^sup>* (conc_init cap q) s" "good_cap cap" "length (enq_log s) < 2 ^ 62" "\<forall>t. thr s t = Idle"
  shows "\<exists>xs. mq_rep cap (cq s) xs \<and> mset (enq_log s) = mset (map snd (got s)) + mset xs"
proof -
  have ok: "conc_ok cap s" by (rule reach_ok [OF assms(1-3)])
  note D = conc_okD [OF ok]
  have idle: "thr s t = Idle" for t using assms(4) by simp
  let ?n = "tl_of s" and ?f = "\<lambda>p. enq_log s ! p"
  have "map snd (got s) = map ?f (map (unat \<circ> fst) (got s))"
    using got_okD(2) [OF D(8)] by auto
  moreover have "mset (map (unat \<circ> fst) (got s)) = mset [0..<?n]"
    using delivered_set [OF ok idle] by (subst set_eq_iff_mset_eq_distinct [symmetric]) simp_all
  ultimately have "mset (map snd (got s)) = mset (map ?f [0..<?n])" by (metis mset_map)
  also have "map ?f [0..<?n] = take ?n (enq_log s)" using D(2,3) by (intro nth_equalityI) simp_all
  finally have "mset (enq_log s) = mset (map snd (got s)) + mset (drop ?n (enq_log s))"
    by (metis append_take_drop_id mset_append)
  with quiet_rep [OF assms(2) ok idle assms(3)] show ?thesis by blast
qed

text \<open>A run for the examples: one thread enqueues without being disturbed.\<close>

lemma enq_alone:
  assumes "thr s t = Idle" "seq_of (q_head (cq s)) s = q_head (cq s)"
  obtains s' where "(qstep cap)\<^sup>*\<^sup>* s s'" "thr s' = thr s" "enq_log s' = enq_log s @ [d]" "got s' = got s"
proof -
  let ?h = "q_head (cq s)"
  define s1 where "s1 = goto t (E_load d) s"
  define s2 where "s2 = goto t (E_seq ?h d) s1"
  define s3 where "s3 = goto t (E_cas ?h d) s2"
  define s4 where "s4 = goto t (E_write ?h d) (s3\<lparr>cq := (cq s3)\<lparr>q_head := ?h + 1\<rparr>, enq_log := enq_log s3 @ [d]\<rparr>)"
  define s5 where "s5 = goto t (E_pub ?h d) (s4\<lparr>cq := put_data (?h AND q_mask (cq s4)) d (cq s4)\<rparr>)"
  define s6 where "s6 = goto t Idle (s5\<lparr>cq := put_seq (?h AND q_mask (cq s5)) (?h + 1) (cq s5)\<rparr>)"
  have "qstep cap s s1" unfolding s1_def by (rule enq_call) (use assms in simp)
  moreover have "qstep cap s1 s2" using enq_load [of s1 t d cap] by (simp add: s2_def s1_def)
  moreover have "qstep cap s2 s3" unfolding s3_def by (rule enq_free) (use assms(2) in \<open>simp_all add: s2_def s1_def\<close>)
  moreover have "qstep cap s3 s4" unfolding s4_def by (rule enq_take) (simp_all add: s3_def s2_def s1_def)
  moreover have "qstep cap s4 s5" unfolding s5_def by (rule enq_write) (simp add: s4_def)
  moreover have "qstep cap s5 s6" unfolding s6_def by (rule enq_publish) (simp add: s5_def)
  ultimately have "(qstep cap)\<^sup>*\<^sup>* s s6"
    by (meson converse_rtranclp_into_rtranclp rtranclp.rtrancl_refl)
  moreover have "thr s6 = thr s" using assms(1) by (simp add: s6_def s5_def s4_def s3_def s2_def s1_def fun_upd_idem)
  moreover have "enq_log s6 = enq_log s @ [d]" "got s6 = got s" by (simp_all add: s6_def s5_def s4_def s3_def s2_def s1_def)
  ultimately show thesis by (rule that)
qed

lemma one_enqueued:
  obtains s where "(qstep 2)\<^sup>*\<^sup>* (conc_init 2 some_queue) s" "enq_log s = [5]" "got s = []" "\<forall>t. thr s t = Idle"
proof -
  have "seq_of 0 (conc_init 2 some_queue) = 0"
    using mq_repD(1) [OF init_rep [OF good_cap_2], of some_queue] mq_repD(6) [OF init_rep [OF good_cap_2], of 0 some_queue]
    by (simp add: seq_of_def conc_init_def lf_mpmc_queue_init_def Let_def)
  moreover have "q_head (cq (conc_init 2 some_queue)) = 0" by (simp add: conc_init_def lf_mpmc_queue_init_def Let_def)
  ultimately obtain s where "(qstep 2)\<^sup>*\<^sup>* (conc_init 2 some_queue) s" "thr s = thr (conc_init 2 some_queue)"
    "enq_log s = enq_log (conc_init 2 some_queue) @ [5]" "got s = got (conc_init 2 some_queue)"
    using enq_alone [of "conc_init 2 some_queue" 0 2 5] by (auto simp: conc_init_def)
  then show thesis by (intro that [of s]) (simp_all add: conc_init_def)
qed

lemma mpmc_concurrent_fifo_witness:
  "\<exists>s. (qstep 2)\<^sup>*\<^sup>* (conc_init 2 some_queue) s \<and> enq_log s = [5] \<and> unat (q_tail (cq s)) \<le> 1"
proof -
  obtain s where s: "(qstep 2)\<^sup>*\<^sup>* (conc_init 2 some_queue) s" "enq_log s = [5]" by (rule one_enqueued)
  with mpmc_concurrent_fifo [OF s(1) good_cap_2] show ?thesis by auto
qed

lemma mpmc_nothing_lost_witness:
  "\<exists>s xs. (qstep 2)\<^sup>*\<^sup>* (conc_init 2 some_queue) s \<and> mq_rep 2 (cq s) xs \<and> mset xs = {#5#}"
proof -
  obtain s where s: "(qstep 2)\<^sup>*\<^sup>* (conc_init 2 some_queue) s" "enq_log s = [5]" "got s = []" "\<forall>t. thr s t = Idle"
    by (rule one_enqueued)
  with mpmc_nothing_lost [OF s(1) good_cap_2 _ s(4)] show ?thesis by auto
qed

lemma dequeue_stuck:
  assumes "q_tail q = 0" "q_mask q = 0" "slot_seq (q_buffer q 0) = 2"
  shows "dequeue_loop cap 0 q = None"
proof -
  have "pos = 0 \<longrightarrow> q' = q \<longrightarrow> False" if "dequeue_loop cap pos q' = Some y" for pos q' y
  proof (rule dequeue_loop.raw_induct [OF _ that, where P = "\<lambda>_ pos q' _. pos = 0 \<longrightarrow> q' = q \<longrightarrow> False"], intro impI)
    fix f :: "u64 \<Rightarrow> u64 \<Rightarrow> lf_mpmc_queue \<Rightarrow> ((int \<times> u64 option) \<times> lf_mpmc_queue) option"
    fix k pos q' z
    assume ih: "\<And>k pos q' z. f k pos q' = Some z \<Longrightarrow> pos = 0 \<longrightarrow> q' = q \<longrightarrow> False"
      and st: "(let idx = pos AND q_mask q'; diff = pdiff (slot_seq (q_buffer q' idx)) (pos + 1) in
        if diff = 0 then if q_tail q' = pos
            then Some ((LF_QUEUE_OK, Some (slot_data (q_buffer q' idx))), put_seq idx (pos + k) (q'\<lparr>q_tail := pos + 1\<rparr>))
            else f k (q_tail q') q'
        else if diff < 0 then Some ((LF_QUEUE_EMPTY, None), q') else f k (q_tail q') q') = Some z"
      and "pos = 0" "q' = q"
    have "pdiff 2 1 = 1" by (simp add: pdiff_def)
    with st assms \<open>pos = 0\<close> \<open>q' = q\<close> have "f k 0 q = Some z" by (simp add: Let_def del: pdiff_zero)
    then show False using ih by blast
  qed
  then have "dequeue_loop cap 0 q \<noteq> Some y" for y by blast
  then show ?thesis by (metis not_None_eq)
qed

text \<open>The capacity check of the header (\<^verbatim>\<open>capacity & (capacity - 1)\<close>) also accepts 1. With that
  capacity a second enqueue overwrites the first element while reporting success, and the
  following dequeue never returns.\<close>

theorem mpmc_capacity_one_loses:
  "\<exists>q1 q2. lf_mpmc_queue_try_enqueue a (lf_mpmc_queue_init 1 q) = Some (LF_QUEUE_OK, q1) \<and>
     lf_mpmc_queue_try_enqueue b q1 = Some (LF_QUEUE_OK, q2) \<and> slot_data (q_buffer q2 0) = b \<and>
     lf_mpmc_queue_try_dequeue 1 q2 = None"
proof -
  define q0 where "q0 = lf_mpmc_queue_init 1 q"
  have q0: "q_head q0 = 0" "q_tail q0 = 0" "q_mask q0 = 0" "slot_seq (q_buffer q0 0) = 0"
    by (simp_all add: q0_def lf_mpmc_queue_init_def Let_def)
  define q1 where "q1 = put_seq 0 1 (put_data 0 a (q0\<lparr>q_head := 1\<rparr>))"
  define q2 where "q2 = put_seq 0 2 (put_data 0 b (q1\<lparr>q_head := 2\<rparr>))"
  have e1: "lf_mpmc_queue_try_enqueue a q0 = Some (LF_QUEUE_OK, q1)"
    by (simp add: lf_mpmc_queue_try_enqueue_def enqueue_loop.simps q0 q1_def Let_def)
  have q1: "q_head q1 = 1" "q_tail q1 = 0" "q_mask q1 = 0" "slot_seq (q_buffer q1 0) = 1"
    by (simp_all add: q1_def q0)
  have e2: "lf_mpmc_queue_try_enqueue b q1 = Some (LF_QUEUE_OK, q2)"
    by (simp add: lf_mpmc_queue_try_enqueue_def enqueue_loop.simps q1 q2_def Let_def)
  have "lf_mpmc_queue_try_dequeue 1 q2 = None"
    using dequeue_stuck [of q2 1] by (simp add: lf_mpmc_queue_try_dequeue_def q2_def q1)
  then show ?thesis using e1 e2 by (auto simp: q0_def [symmetric] q2_def)
qed

end
