(* ===== verification/Tlsf_Realloc.thy ===== *)
theory Tlsf_Realloc
  imports Tlsf_Api Tlsf_Props
begin

text \<open>
  Resizing (\<^verbatim>\<open>tlsf_realloc\<close> of \<^verbatim>\<open>libs/tlsf_txn/tlsf_txn.c\<close>): in place by cutting the block or by absorbing
  its free successor, otherwise by allocation, copy and release in one transaction. \<open>widened\<close> is the state
  after a free successor has been absorbed, \<open>resized\<close> the state in which the block has its
  new size.
\<close>

section \<open>The block with its successor absorbed\<close>

text \<open>The lines \<open>Z\<close> lie in the block or in a free block.\<close>

definition in_reach :: "tlsf_ctrl \<Rightarrow> u64 list \<Rightarrow> u64 \<Rightarrow> u64 \<Rightarrow> bool" where
  "in_reach c bs b z \<longleftrightarrow> z \<in> span c b \<or> (\<exists>n \<in> free_blocks c bs. z \<in> span c n)"

definition widened :: "tlsf_ctrl \<Rightarrow> u64 list \<Rightarrow> u64 \<Rightarrow> tlsf_ctrl \<Rightarrow> u64 list \<Rightarrow> bool" where
  "widened c bs b c2 bs2 \<longleftrightarrow>
     heap_ok c2 bs2 (free_blocks c2 bs2) {b} \<and> b \<in> set bs2 \<and> \<not> fr_of (mem c2 b) \<and> meta_same c c2 b \<and>
     used_sum (mem c2) bs2 + sz_of (mem c b) = used_sum (mem c) bs + sz_of (mem c2 b) \<and>
     (\<forall>x \<in> set bs. \<not> fr_of (mem c x) \<longrightarrow> x \<noteq> b \<longrightarrow> x \<in> set bs2 \<and> keep c c2 x) \<and>
     (\<forall>x \<in> set bs2. x \<in> set bs \<and> fr_of (mem c2 x) = fr_of (mem c x)) \<and>
     touches c c2 (insert b (free_blocks c bs)) \<and> unat (sz_of (mem c b)) \<le> unat (sz_of (mem c2 b)) \<and>
     (\<forall>z. unat b \<le> unat z \<longrightarrow> unat z \<le> unat b + unat (sz_of (mem c2 b)) \<longrightarrow> in_reach c bs b z)"

definition resized :: "tlsf_ctrl \<Rightarrow> u64 list \<Rightarrow> u64 \<Rightarrow> u64 \<Rightarrow> tlsf_ctrl \<Rightarrow> u64 list \<Rightarrow> bool" where
  "resized c bs b needed c' bs' \<longleftrightarrow>
     heap_ok c' bs' (free_blocks c' bs') {} \<and> b \<in> set bs' \<and> \<not> fr_of (mem c' b) \<and> meta_same c c' b \<and>
     unat needed \<le> unat (sz_of (mem c' b)) \<and>
     used_sum (mem c') bs' + sz_of (mem c b) = used_sum (mem c) bs + sz_of (mem c' b) \<and>
     (\<forall>x \<in> set bs. \<not> fr_of (mem c x) \<longrightarrow> x \<noteq> b \<longrightarrow> x \<in> set bs' \<and> keep c c' x) \<and>
     (\<forall>x \<in> set bs'. \<not> fr_of (mem c' x) \<longrightarrow> x \<in> set bs \<and> \<not> fr_of (mem c x)) \<and>
     (\<exists>Z. touches c c' (insert b (free_blocks c bs) \<union> Z) \<and> (\<forall>z \<in> Z. in_reach c bs b z \<and>
        unat b + min (unat (sz_of (mem c b))) (unat (sz_of (mem c' b))) \<le> unat z))"

lemma widened_refl:
  assumes "heap_ok c bs (free_blocks c bs) {}" "b \<in> set bs" "\<not> fr_of (mem c b)"
  shows "widened c bs b c bs"
  using assms heap_ok_more_exc [OF assms(1), of "{b}"]
  by (auto simp: widened_def meta_same_def in_reach_def span_def)

lemma widened_join:
  assumes h: "heap_ok c bs (free_blocks c bs) {}" and b: "b \<in> set bs" "\<not> fr_of (mem c b)"
    and n: "n = b + sz_of (mem c b)" "n \<in> free_blocks c bs"
    and l: "mem c1 = mem (remove_block n c)" "same_geom (remove_block n c) c1" "same_lists (remove_block n c) c1"
  defines "c2 \<equiv> block_set_size b (sz_of (mem c b) + sz_of (mem c n)) c1"
  obtains bs2 where "widened c bs b c2 bs2" "sz_of (mem c2 b) = sz_of (mem c b) + sz_of (mem c n)"
    "unat (sz_of (mem c2 b)) = unat (sz_of (mem c b)) + unat (sz_of (mem c n))"
proof -
  let ?F = "free_blocks c bs"
  note ch = heap_okD(2) [OF h]
  have nin: "n \<in> set bs" "fr_of (mem c n)" using n(2) by (auto simp: free_blocks_member)
  from b(1) obtain us vs where u: "bs = us @ b # vs" by (auto simp: in_set_conv_decomp)
  have "chain (mem c) n (get_heap_end c) vs" using ch u n(1) by (auto simp: chain_append)
  then obtain ys where v: "vs = n # ys" using nin(1) chain_end_notin [OF ch] by (cases vs) auto
  have d: "distinct bs" by (rule chain_distinct [OF ch])
  have al: "aligned64 x" if "x \<in> set bs" for x using chain_member(1) [OF ch that] .
  define cr where "cr = remove_block n c"
  note r = remove_block_ok [OF h n(2), folded cr_def]
  have h1: "heap_ok c1 (us @ b # n # ys) (?F - {n}) {}" using r(1) u v heap_ok_ctl [OF l] by (simp add: cr_def)
  have e1: "mem c1 x = mem c x" "keep c c1 x" if "x \<in> set bs" for x
    using hdr_sameD(1) [OF r(2) al [OF that]] keep_hdr [OF r(2) al [OF that]] l(1)
    by (simp_all add: cr_def keep_def meta_same_def)
  have bF: "b \<notin> ?F - {n}" using b(2) by (simp add: free_blocks_member)
  have bn: "mem c1 b = mem c b" "mem c1 n = mem c n" using e1(1) b(1) nin(1) by simp_all
  define bs2 where "bs2 = us @ b # ys"
  note j = join_ok [OF h1 bF, unfolded bn, folded c2_def, folded bs2_def, simplified]
  have t1: "touches c c1 (?F - {n})" using r(3) by (simp add: touches_def l(1) cr_def)
  have k: "keep c c2 x" if "x \<in> set bs2" "x \<noteq> b" for x
    using keep_trans [OF e1(2) keep_untouched [OF j(2) al]] that u v by (auto simp: bs2_def)
  have asz: "aligned64 (sz_of (mem c b) + sz_of (mem c n))"
    using chain_member(2) [OF ch b(1)] chain_member(2) [OF ch nin(1)] by simp
  have mb: "meta_same c c2 b"
    using meta_same_trans [of c c1 b c2] e1(2) [OF b(1)] keep_block_set_size [OF al al asz, of b b c1] b(1)
    by (simp add: keep_def c2_def)
  have fr: "fr_of (mem c2 x) = fr_of (mem c x)" if "x \<in> set bs2" for x
    using k [OF that] mb by (cases "x = b") (auto simp: keep_def meta_same_def)
  have F2: "free_blocks c2 bs2 = ?F - {n}"
    using fr d u v b(2) by (auto simp: free_blocks_def bs2_def)
  note mm = chain_member [OF ch b(1)] and mn = chain_member [OF ch nin(1)]
  have un: "unat n = unat b + unat (sz_of (mem c b))" using mm(7) n(1) by simp
  have us2: "unat (sz_of (mem c2 b)) = unat (sz_of (mem c b)) + unat (sz_of (mem c n))"
    unfolding j(4) by (rule unat_add_nowrap) (use un mn(6) unat_lt_64 [of "get_heap_end c"] in linarith)
  have ks: "used_sum (mem c2) us = used_sum (mem c) us" "used_sum (mem c2) ys = used_sum (mem c) ys"
    by (rule keep_sum; use k d u v in \<open>auto simp: bs2_def\<close>)+
  have "used_sum (mem c2) bs2 + sz_of (mem c b) = used_sum (mem c) bs + sz_of (mem c2 b)"
    using ks b(2) nin(2) fr [of b] j(4) by (simp add: u v bs2_def algebra_simps)
  moreover have "\<forall>x \<in> set bs. \<not> fr_of (mem c x) \<longrightarrow> x \<noteq> b \<longrightarrow> x \<in> set bs2 \<and> keep c c2 x"
    using k nin(2) by (auto simp: u v bs2_def)
  moreover have "touches c c2 (insert b ?F)" by (rule touches_mono [OF touches_trans [OF t1 j(2)]]) auto
  moreover have "in_reach c bs b z" if "unat b \<le> unat z" "unat z \<le> unat b + unat (sz_of (mem c2 b))" for z
  proof (cases "unat z \<le> unat n")
    case True
    then show ?thesis using that(1) un by (simp add: in_reach_def span_def)
  next
    case False
    then have "z \<in> span c n" using that(2) us2 un by (simp add: span_def)
    then show ?thesis using n(2) by (auto simp: in_reach_def)
  qed
  moreover have "\<forall>x \<in> set bs2. x \<in> set bs \<and> fr_of (mem c2 x) = fr_of (mem c x)"
    using fr by (auto simp: u v bs2_def)
  moreover have "heap_ok c2 bs2 (free_blocks c2 bs2) {b}" using j(1) F2 by simp
  moreover have "b \<in> set bs2" by (simp add: bs2_def)
  ultimately have "widened c bs b c2 bs2"
    using mb us2 fr [of b] b(2) by (simp add: widened_def)
  then show thesis using that j(4) us2 by blast
qed

section \<open>Giving the block its size\<close>

lemma shift_sum: "(a :: u64) + s2 = b + t \<Longrightarrow> b + s = d + s2 \<Longrightarrow> a + s = d + t"
proof -
  assume "a + s2 = b + t" "b + s = d + s2"
  then have "a = b + t - s2" "b = d + s2 - s" by (simp_all add: eq_diff_eq)
  then show ?thesis by simp
qed

lemma resize_split:
  assumes w: "widened c bs b c2 bs2" and t: "aligned64 s" "128 \<le> unat s" "unat s + 128 \<le> unat (sz_of (mem c2 b))"
  defines "c' \<equiv> split_block b s c2"
  obtains bs' where "resized c bs b s c' bs'" "sz_of (mem c' b) = s" "same_ctl c2 c'"
proof -
  let ?F = "free_blocks c2 bs2"
  have h: "heap_ok c2 bs2 ?F {b}" and b: "b \<in> set bs2" "\<not> fr_of (mem c2 b)" using w by (auto simp: widened_def)
  from b(1) obtain xs ys where x: "bs2 = xs @ b # ys" by (auto simp: in_set_conv_decomp)
  define r where "r = b + s"
  define bs' where "bs' = xs @ b # r # ys"
  have h': "heap_ok c2 (xs @ b # ys) ?F {b}" using h x by simp
  have bF: "b \<notin> ?F" using b(2) by (simp add: free_blocks_member)
  note k = split_block_ok [OF h' bF t, folded r_def c'_def, folded bs'_def, simplified]
  have bin: "b \<in> set bs'" by (simp add: bs'_def)
  have d: "distinct bs2" by (rule chain_distinct [OF heap_okD(2) [OF h]])
  have rn: "r \<notin> set bs2" using k(9) x by auto
  have kp: "keep c2 c' z" if "z \<in> set bs2" "z \<noteq> b" for z using k(6) that x by auto
  have fb: "\<not> fr_of (mem c' b)" using k(5) b(2) by (simp add: meta_same_def)
  have fr: "fr_of (mem c' z) = fr_of (mem c2 z)" if "z \<in> set bs2" for z
    using kp [OF that] k(5) by (cases "z = b") (auto simp: keep_def meta_same_def)
  have F': "free_blocks c' bs' = insert r ?F" using fr k(3) x by (auto simp: free_blocks_def bs'_def)
  have ks: "used_sum (mem c') xs = used_sum (mem c2) xs" "used_sum (mem c') ys = used_sum (mem c2) ys"
    by (rule keep_sum; use kp d x in auto)+
  have "used_sum (mem c') bs' + sz_of (mem c2 b) = used_sum (mem c2) bs2 + sz_of (mem c' b)"
    using ks fb b(2) k(3) by (simp add: x bs'_def algebra_simps)
  then have sum: "used_sum (mem c') bs' + sz_of (mem c b) = used_sum (mem c) bs + sz_of (mem c' b)"
    by (rule shift_sum) (use w in \<open>simp add: widened_def\<close>)
  note mb = chain_member [OF heap_okD(2) [OF h] b(1)]
  define e where "e = b + sz_of (mem c2 b)"
  have ue: "unat e = unat b + unat (sz_of (mem c2 b))" "unat (e - 64) = unat b + unat (sz_of (mem c2 b)) - 64"
    using mb(3,7) unat_diff_nowrap [of 64 e] by (simp_all add: e_def)
  have ur: "unat r = unat b + unat s"
    unfolding r_def by (rule chain_step [of _ _ "get_heap_end c2"]) (use mb(6) t(3) in linarith)
  have in_e: "unat b + unat s \<le> unat z \<and> unat z \<le> unat e" if "z \<in> {r, e, e - 64}" for z
    using that ue ur t by auto
  have rz: "in_reach c bs b z" if "unat b \<le> unat z" "unat z \<le> unat e" for z
    using that w ue(1) by (simp add: widened_def)
  have reach: "in_reach c bs b z \<and> unat b + min (unat (sz_of (mem c b))) (unat (sz_of (mem c' b))) \<le> unat z"
    if "z \<in> {r, e, e - 64}" for z
    using in_e [OF that] rz [of z] k(2) by (auto simp: min_def)
  have FF: "?F \<subseteq> free_blocks c bs" using w by (auto simp: widened_def free_blocks_member)
  have "touches c c' (insert b (free_blocks c bs) \<union> {r, e, e - 64})"
  proof (rule touches_mono [OF touches_trans [OF _ k(8)]])
    show "touches c c2 (insert b (free_blocks c bs))" using w by (simp add: widened_def)
  qed (use FF in \<open>auto simp: e_def\<close>)
  moreover have "\<forall>z \<in> set bs. \<not> fr_of (mem c z) \<longrightarrow> z \<noteq> b \<longrightarrow> z \<in> set bs' \<and> keep c c' z"
  proof (intro ballI impI)
    fix z assume "z \<in> set bs" "\<not> fr_of (mem c z)" "z \<noteq> b"
    then have "z \<in> set bs2" "keep c c2 z" "z \<noteq> b" using w by (simp_all add: widened_def)
    then show "z \<in> set bs' \<and> keep c c' z" using kp [of z] keep_trans [of c c2 z c'] x by (simp add: bs'_def)
  qed
  moreover have "\<forall>z \<in> set bs'. \<not> fr_of (mem c' z) \<longrightarrow> z \<in> set bs \<and> \<not> fr_of (mem c z)"
  proof (intro ballI impI)
    fix z assume z: "z \<in> set bs'" "\<not> fr_of (mem c' z)"
    then have "z \<noteq> r" using k(3) by auto
    then have "z \<in> set bs2" using z(1) x by (auto simp: bs'_def)
    then show "z \<in> set bs \<and> \<not> fr_of (mem c z)" using w fr z(2) by (simp add: widened_def)
  qed
  moreover have "meta_same c c' b" using w k(5) by (auto simp: widened_def intro: meta_same_trans)
  moreover have "heap_ok c' bs' (free_blocks c' bs') {}" using k(1) F' by simp
  ultimately have "resized c bs b s c' bs'"
    unfolding resized_def using sum fb k(2) reach bin by (intro conjI exI [of _ "{r, e, e - 64}"] ballI) simp_all
  then show thesis using that k(2,7) by blast
qed

lemma resize_whole:
  assumes w: "widened c bs b c2 bs2" and le: "unat needed \<le> unat (sz_of (mem c2 b))"
    and n: "n = b + sz_of (mem c2 b)"
    and m: "mem c' = (if n \<in> set bs2 then (mem c2)(n := mem c2 n AND NOT BLOCK_PREV_FREE) else mem c2)"
    and g: "same_geom c2 c'" "same_lists c2 c'"
  shows "resized c bs b needed c' bs2" "sz_of (mem c' b) = sz_of (mem c2 b)"
proof -
  let ?F = "free_blocks c2 bs2"
  have h: "heap_ok c2 bs2 ?F {b}" and b: "b \<in> set bs2" "\<not> fr_of (mem c2 b)" using w by (auto simp: widened_def)
  note ch = heap_okD(2) [OF h]
  note mb = chain_member [OF ch b(1)]
  have al: "aligned64 x" if "x \<in> set bs2" for x using chain_member(1) [OF ch that] .
  have un: "unat n = unat b + unat (sz_of (mem c2 b))" "n \<noteq> b" using mb(3,7) n by auto
  have p: "heap_ok c' bs2 ?F {} \<and> touches c2 c' {n} \<and> (\<forall>x \<in> set bs2. keep c2 c' x)"
  proof (cases "n \<in> set bs2")
    case True
    let ?p = "poke n (mem c2 n AND NOT BLOCK_PREV_FREE) c2"
    note k = poke_flags_ok [OF h True, of "mem c2 n AND NOT BLOCK_PREV_FREE", simplified]
    have e: "mem c' = mem ?p" using m True by simp
    have "heap_ok c' bs2 ?F {b}"
      using k(1) heap_ok_ctl [of c' ?p] e g by (simp add: same_geom_def same_lists_def)
    moreover have "backref (mem c') (set bs2) b" using un(2) n by (auto simp: backref_def Let_def e)
    ultimately have "heap_ok c' bs2 ?F ({b} - {b})" by (intro heap_ok_repaired)
    moreover have "keep c2 c' x" if "x \<in> set bs2" for x
      using keep_poke_pf [OF al [OF True] al [OF that], of c2] e by (simp add: keep_def meta_same_def)
    moreover have "touches c2 c' {n}" using k(2) e by (simp add: touches_def)
    ultimately show ?thesis by simp
  next
    case False
    then have e: "mem c' = mem c2" using m by simp
    have "heap_ok c2 bs2 ?F ({b} - {b})" by (rule heap_ok_last [OF h b(1)]) (use False n in simp)
    then show ?thesis using heap_ok_ctl [OF e g] e by (simp add: touches_def keep_def meta_same_def)
  qed
  then have k: "keep c2 c' x" if "x \<in> set bs2" for x using that by blast
  show sz: "sz_of (mem c' b) = sz_of (mem c2 b)" using k [OF b(1)] by (simp add: keep_def)
  have fr: "fr_of (mem c' x) = fr_of (mem c2 x)" if "x \<in> set bs2" for x
    using k [OF that] by (simp add: keep_def meta_same_def)
  have F': "free_blocks c' bs2 = ?F" using fr by (auto simp: free_blocks_def)
  have sum: "used_sum (mem c') bs2 + sz_of (mem c b) = used_sum (mem c) bs + sz_of (mem c' b)"
    using w keep_sum [OF k] sz by (simp add: widened_def)
  have "touches c c' (insert b (free_blocks c bs) \<union> {n})"
    using touches_trans [OF _ conjunct1 [OF conjunct2 [OF p]]] w by (simp add: widened_def)
  moreover have "in_reach c bs b n \<and> unat b + min (unat (sz_of (mem c b))) (unat (sz_of (mem c' b))) \<le> unat n"
    using w un(1) sz by (simp add: widened_def)
  moreover have "\<forall>x \<in> set bs. \<not> fr_of (mem c x) \<longrightarrow> x \<noteq> b \<longrightarrow> x \<in> set bs2 \<and> keep c c' x"
    using w k by (auto simp: widened_def intro: keep_trans)
  moreover have "\<forall>x \<in> set bs2. \<not> fr_of (mem c' x) \<longrightarrow> x \<in> set bs \<and> \<not> fr_of (mem c x)"
    using w fr by (auto simp: widened_def)
  moreover have "meta_same c c' b"
    using w k [OF b(1)] by (auto simp: widened_def keep_def intro: meta_same_trans)
  ultimately show "resized c bs b needed c' bs2"
    unfolding resized_def using p F' sum fr [OF b(1)] b le sz
    by (intro conjI exI [of _ "{n}"] ballI) simp_all
qed

text \<open>The view after a resizing in place.\<close>

lemma resized_view:
  assumes h: "heap_ok c bs (free_blocks c bs) {}" and b: "b \<in> set bs" "\<not> fr_of (mem c b)"
    and r: "resized c bs b needed c' bs'"
  shows "heap_abs c' bs' = (heap_abs c bs)(ptr_from_block b \<mapsto> (block_info c b)\<lparr>bk_size := sz_of (mem c' b) - 64\<rparr>)"
    and "x \<in> set bs \<Longrightarrow> \<not> fr_of (mem c x) \<Longrightarrow> x \<noteq> b \<Longrightarrow> payload_same c c' x"
    and "aligned64 z \<Longrightarrow> y < 64 \<Longrightarrow> unat b < unat z \<Longrightarrow>
      unat z < unat b + min (unat (sz_of (mem c b))) (unat (sz_of (mem c' b))) \<Longrightarrow> mem c' (z + y) = mem c (z + y)"
proof -
  note ch = heap_okD(2) [OF h]
  have b': "b \<in> set bs'" "\<not> fr_of (mem c' b)" "meta_same c c' b" using r by (simp_all add: resized_def)
  have info: "block_info c' b = (block_info c b)\<lparr>bk_size := sz_of (mem c' b) - 64\<rparr>"
    using b'(3) uid_list_cong [of c' b c]
    by (simp add: block_info_def block_payload_size_def block_word sig_word meta_same_def HEADER_SIZE_def)
  show "heap_abs c' bs' = (heap_abs c bs)(ptr_from_block b \<mapsto> (block_info c b)\<lparr>bk_size := sz_of (mem c' b) - 64\<rparr>)"
  proof
    fix p
    define x where "x = block_from_ptr p"
    have p: "p = ptr_from_block x" by (simp add: x_def)
    consider (b) "x = b" | (alloc) "x \<noteq> b" "x \<in> set bs" "\<not> fr_of (mem c x)" | (none) "x \<noteq> b" "\<not> (x \<in> set bs \<and> \<not> fr_of (mem c x))"
      by blast
    then show "heap_abs c' bs' p = ((heap_abs c bs)(ptr_from_block b \<mapsto> (block_info c b)\<lparr>bk_size := sz_of (mem c' b) - 64\<rparr>)) p"
    proof cases
      case b
      then show ?thesis using b' info by (simp add: p heap_abs_ptr)
    next
      case alloc
      then have "x \<in> set bs'" "keep c c' x" using r by (simp_all add: resized_def)
      then show ?thesis using alloc keep_info [of c c' x] by (simp add: p heap_abs_ptr block_word)
    next
      case none
      then have "\<not> (x \<in> set bs' \<and> \<not> fr_of (mem c' x))" using r by (auto simp: resized_def)
      then show ?thesis using none by (auto simp: p heap_abs_ptr)
    qed
  qed
  obtain Z where t: "touches c c' (insert b (free_blocks c bs) \<union> Z)"
    and Z: "\<And>z. z \<in> Z \<Longrightarrow> in_reach c bs b z"
      "\<And>z. z \<in> Z \<Longrightarrow> unat b + min (unat (sz_of (mem c b))) (unat (sz_of (mem c' b))) \<le> unat z"
    using r unfolding resized_def by blast
  show "payload_same c c' x" if x: "x \<in> set bs" "\<not> fr_of (mem c x)" "x \<noteq> b"
    unfolding payload_same_def block_word
  proof (intro allI impI)
    fix z y :: u64
    assume z: "aligned64 z" "y < 64" "unat x < unat z" "unat z < unat x + unat (sz_of (mem c x))"
    have "z \<notin> set bs" using chain_interior [OF ch x(1) z(3,4)] .
    moreover have "z \<notin> span c n" if "n \<in> set bs" "n \<noteq> x" for n
      using payload_outside(2) [OF h x(1) that(1) _ z(3,4)] that(2) by simp
    then have "\<not> in_reach c bs b z" using b x unfolding in_reach_def by (metis free_blocks_member)
    ultimately have "z \<notin> insert b (free_blocks c bs) \<union> Z" using Z(1) b(1) by (auto simp: free_blocks_member)
    then show "mem c' (z + y) = mem c (z + y)" using touchesD(2) [OF t z(1)] z(2) by simp
  qed
  show "mem c' (z + y) = mem c (z + y)"
    if z: "aligned64 z" "y < 64" "unat b < unat z" "unat z < unat b + min (unat (sz_of (mem c b))) (unat (sz_of (mem c' b)))"
  proof -
    have "unat z < unat b + unat (sz_of (mem c b))" using z(4) by simp
    then have "z \<notin> set bs" by (rule chain_interior [OF ch b(1) z(3)])
    then have "z \<notin> insert b (free_blocks c bs) \<union> Z" using Z(2) [of z] z(4) b(1) by (auto simp: free_blocks_member)
    then show ?thesis using touchesD(2) [OF t z(1)] z(2) by simp
  qed
qed

section \<open>Resizing in place\<close>

lemma resized_ctl:
  assumes "mem d = mem c" "mem d' = mem c'" "same_geom c' d'" "same_lists c' d'"
  shows "resized d bs b needed d' bs' = resized c bs b needed c' bs'"
  using heap_ok_ctl [OF assms(2-4)] assms(1,2)
  by (simp add: resized_def free_blocks_def touches_def in_reach_def span_def keep_def meta_same_def)

lemma widened_ctl:
  assumes "mem d = mem c" "mem d' = mem c'" "same_geom c' d'" "same_lists c' d'"
  shows "widened d bs b d' bs' = widened c bs b c' bs'"
  using heap_ok_ctl [OF assms(2-4)] assms(1,2)
  by (simp add: widened_def free_blocks_def touches_def in_reach_def span_def keep_def meta_same_def)

lemma heap_inv_resized:
  assumes r: "resized c bs b needed c' bs'" and u: "used_bytes c' = used_sum (mem c) bs + sz_of (mem c' b) - sz_of (mem c b)"
  shows "heap_inv c' bs'"
proof -
  have "used_sum (mem c') bs' + sz_of (mem c b) = used_sum (mem c) bs + sz_of (mem c' b)" using r by (simp add: resized_def)
  then have "used_sum (mem c') bs' = used_bytes c'" unfolding u by (simp only: eq_diff_eq)
  then show ?thesis using r by (simp add: resized_def heap_inv_def)
qed

lemma rest_large:
  assumes "unat needed \<le> unat (sz_of (mem c b))"
  shows "MIN_BLOCK_SZ \<le> block_size c b - needed \<longleftrightarrow> unat needed + 128 \<le> unat (sz_of (mem c b))"
  using unat_diff_nowrap [OF assms] assms by (auto simp: MIN_BLOCK_SZ_def block_word word_le_nat_alt)

lemma shrink_ok:
  assumes inv: "heap_inv c bs" and b: "b \<in> set bs" "\<not> fr_of (mem c b)"
    and t: "aligned64 needed" "128 \<le> unat needed" "unat needed \<le> unat (sz_of (mem c b))"
    and top: "unat (stack_top c) + 2 \<le> 64"
  obtains c' bs' where "realloc_shrink b needed c = (1, c')" "resized c bs b needed c' bs'" "heap_inv c' bs'"
    "logged_step 2 c c'"
proof -
  have h: "heap_ok c bs (free_blocks c bs) {}" using inv by (simp add: heap_inv_def)
  note w = widened_refl [OF h b]
  note ud = rest_large [OF t(3)]
  show thesis
  proof (cases "unat needed + 128 \<le> unat (sz_of (mem c b))")
    case True
    define c2 where "c2 = log_entry (used_bytes_addr (log_entry b c)) (log_entry b c)"
    have m2: "mem c2 = mem c" "same_geom c c2" "same_lists c c2" "used_bytes c2 = used_bytes c" "same_txn c c2"
      "unat (stack_top c2) = unat (stack_top c) + 2"
      using top by (simp_all add: c2_def same_geom_def same_lists_def same_txn_def)
    have w2: "widened c bs b c2 bs" using w widened_ctl [of c c c2 c bs b bs] m2 by simp
    have t3: "unat needed + 128 \<le> unat (sz_of (mem c2 b))" using True m2(1) by simp
    define c3 where "c3 = split_block b needed c2"
    obtain bs' where r: "resized c bs b needed c3 bs'" "sz_of (mem c3 b) = needed" "same_ctl c2 c3"
      unfolding c3_def by (rule resize_split [OF w2 t(1,2) t3])
    define c' where "c' = c3\<lparr>used_bytes := used_bytes c3 - (sz_of (mem c b) - 64 - (needed - 64))\<rparr>"
    have m': "mem c' = mem c3" "same_geom c3 c'" "same_lists c3 c'" by (simp_all add: c'_def same_geom_def same_lists_def)
    have "realloc_shrink b needed c = (1, c')"
      using top ud True r(2)
      by (simp add: realloc_shrink_def Let_def pushing_ok ud flip: c2_def c3_def)
         (simp add: block_payload_size_def HEADER_SIZE_def c'_def block_word)
    moreover have r': "resized c bs b needed c' bs'" using r(1) resized_ctl [of c c c' c3] m' by simp
    moreover have "heap_inv c' bs'"
      by (rule heap_inv_resized [OF r']) (use r(2,3) m2(4) inv in \<open>simp add: c'_def same_ctl_def heap_inv_def\<close>)
    moreover have "logged_step 2 c c'"
      using m2(5,6) same_ctl_txn [OF r(3)] r(3)
      by (simp add: logged_step_def same_txn_def same_geom_def c'_def same_ctl_def)
    ultimately show thesis using that by blast
  next
    case False
    then have "realloc_shrink b needed c = (1, c)"
      by (simp add: realloc_shrink_def Let_def ud)
    moreover have "resized c bs b needed c bs"
      using h b t(3) unfolding resized_def
      by (intro conjI exI [of _ "{}"]) (auto simp: meta_same_def)
    moreover have "logged_step 2 c c" by (simp add: logged_step_def same_txn_def same_geom_def)
    ultimately show thesis using that inv by blast
  qed
qed

lemma tail_ok:
  assumes w: "widened c bs b c2 bs2" and t: "aligned64 needed" "128 \<le> unat needed" "unat needed \<le> unat (sz_of (mem c2 b))"
    and top: "unat (stack_top c2) + 2 \<le> 64" and ub: "used_bytes c2 = used_sum (mem c) bs"
  obtains c' bs' where "realloc_tail b needed (sz_of (mem c b) - 64) c2 = (1, c')" "resized c bs b needed c' bs'"
    "heap_inv c' bs'" "logged_step 2 c2 c'"
proof -
  have h: "heap_ok c2 bs2 (free_blocks c2 bs2) {b}" and b: "b \<in> set bs2" using w by (auto simp: widened_def)
  note ud = rest_large [OF t(3)]
  note outer = that
  define fin where "fin c3 = add_used (sz_of (mem c3 b) - 64 - (sz_of (mem c b) - 64)) c3" for c3
  have complete: thesis
    if eq: "realloc_tail b needed (sz_of (mem c b) - 64) c2 = (1, fin c3)" and r: "resized c bs b needed c3 bs'"
      and u: "used_bytes c3 = used_bytes c2" and l: "logged_step 2 c2 c3" for c3 bs'
  proof -
    have m: "mem (fin c3) = mem c3" "same_geom c3 (fin c3)" "same_lists c3 (fin c3)"
      by (simp_all add: fin_def add_used_def same_geom_def same_lists_def)
    have r': "resized c bs b needed (fin c3) bs'" using r resized_ctl [of c c "fin c3" c3] m by simp
    have "heap_inv (fin c3) bs'" by (rule heap_inv_resized [OF r']) (use u ub in \<open>simp add: fin_def add_used_def\<close>)
    moreover have "logged_step 2 c2 (fin c3)"
      using l by (simp add: logged_step_def same_txn_def same_geom_def fin_def add_used_def)
    ultimately show thesis using outer eq r' by blast
  qed
  show thesis
  proof (cases "unat needed + 128 \<le> unat (sz_of (mem c2 b))")
    case True
    define c3 where "c3 = split_block b needed c2"
    obtain bs' where r: "resized c bs b needed c3 bs'" "sz_of (mem c3 b) = needed" "same_ctl c2 c3"
      unfolding c3_def by (rule resize_split [OF w t(1,2) True])
    have "realloc_tail b needed (sz_of (mem c b) - 64) c2 = (1, fin c3)"
      using True by (simp add: realloc_tail_def Let_def ud flip: c3_def)
        (simp add: block_payload_size_def HEADER_SIZE_def fin_def block_word)
    then show thesis
      by (rule complete [OF _ r(1)]) (use r(3) same_ctl_txn [OF r(3)] in \<open>simp_all add: same_ctl_def logged_step_def\<close>)
  next
    case False
    define n where "n = b + sz_of (mem c2 b)"
    have nb: "n \<noteq> b" using chain_member(3,7) [OF heap_okD(2) [OF h] b] by (auto simp: n_def)
    have bn: "block_next c2 b = n" by (simp add: block_next_def block_word n_def)
    have ns: "\<not> MIN_BLOCK_SZ \<le> block_size c2 b - needed"
      using ud False by simp
    define c3 where "c3 = log_entry (n + 56) (log_entry n c2)"
    define c4 where "c4 = (if n \<in> set bs2 then poke n (mem c3 n AND NOT BLOCK_PREV_FREE) c3 else c2)"
    have e: "n < get_heap_end c2 \<longleftrightarrow> n \<in> set bs2" using chain_end_iff(1) [OF h b] by (simp add: n_def)
    have s4: "sz_of (mem c4 b) = sz_of (mem c2 b)" using nb by (simp add: c4_def c3_def)
    have "realloc_tail b needed (sz_of (mem c b) - 64) c2 = (1, fin c4)"
      using top e ns nb s4 unfolding realloc_tail_def Let_def bn
      by (simp add: pushing_ok block_payload_size_def HEADER_SIZE_def fin_def c4_def block_word flip: c3_def)
        (simp add: c3_def)
    moreover have "resized c bs b needed c4 bs2"
      by (rule resize_whole(1) [OF w t(3) n_def]) (simp_all add: c4_def c3_def same_geom_def same_lists_def)
    ultimately show thesis
      by (rule complete) (use top in \<open>simp_all add: c4_def c3_def logged_step_def same_txn_def same_geom_def\<close>)
  qed
qed

text \<open>\<open>inplace_ok\<close>: either nothing happens and the block is too small, or the block is resized.\<close>

lemma inplace_ok:
  assumes inv: "heap_inv c bs" and b: "b \<in> set bs" "\<not> fr_of (mem c b)"
    and t: "aligned64 needed" "128 \<le> unat needed" and top: "unat (stack_top c) + 4 \<le> 64"
  obtains (none) "realloc_try_inplace b needed c = (0, c)" "unat (sz_of (mem c b)) < unat needed"
    | (some) c' bs' where "realloc_try_inplace b needed c = (1, c')" "resized c bs b needed c' bs'" "heap_inv c' bs'"
        "logged_step 4 c c'"
proof (cases "needed \<le> block_size c b")
  case True
  then have le: "unat needed \<le> unat (sz_of (mem c b))" by (simp add: word_le_nat_alt block_word)
  have top2: "unat (stack_top c) + 2 \<le> 64" using top by simp
  obtain c' bs' where "realloc_shrink b needed c = (1, c')" "resized c bs b needed c' bs'" "heap_inv c' bs'" "logged_step 2 c c'"
    by (rule shrink_ok [OF inv b t le top2])
  then show thesis using True some by (simp add: realloc_try_inplace_def Let_def logged_step_def)
next
  case False
  then have lt: "unat (sz_of (mem c b)) < unat needed" by (simp add: word_le_nat_alt block_word)
  have h: "heap_ok c bs (free_blocks c bs) {}" using inv by (simp add: heap_inv_def)
  note ch = heap_okD(2) [OF h]
  define n where "n = b + sz_of (mem c b)"
  have bn: "block_next c b = n" by (simp add: block_next_def block_word n_def)
  have e: "n < get_heap_end c \<longleftrightarrow> n \<in> set bs" using chain_end_iff(1) [OF h b(1)] by (simp add: n_def)
  show thesis
  proof (cases "n \<in> set bs \<and> fr_of (mem c n) \<and> needed \<le> block_size c b + block_size c n")
    case no: False
    have "realloc_try_inplace b needed c = (0, c)"
      using False no e by (auto simp: realloc_try_inplace_def Let_def bn block_word not_less)
    then show thesis using none lt by blast
  next
    case yes: True
    note mn = chain_member [OF ch, of n]
    have n: "n \<in> set bs" "n \<in> free_blocks c bs" using yes by (simp_all add: free_blocks_member)
    have vs: "validate_block_signature c n" using mn(4) [OF n(1)] by (simp add: validate_block_signature_def sig_word)
    have "unat (sz_of (mem c n) mod 64) = 0" using mn(2) [OF n(1)] by (simp add: aligned64_mod unat_mod)
    then have "sz_of (mem c n) mod 64 = 0" by (simp only: unat_eq_zero)
    then have az: "block_size c n \<noteq> 0" "block_size c n mod ALIGN_SIZE = 0"
      using mn(3) [OF n(1)] by (auto simp: block_word ALIGN_SIZE_def)
    define cr where "cr = remove_block n c"
    define c1 where "c1 = log_entry (used_bytes_addr (log_entry b cr)) (log_entry b cr)"
    have cr: "same_ctl c cr" using remove_block_ok(4) [OF h n(2)] by (simp add: cr_def)
    have l: "mem c1 = mem (remove_block n c)" "same_geom (remove_block n c) c1" "same_lists (remove_block n c) c1"
      by (simp_all add: c1_def cr_def same_geom_def same_lists_def)
    define c2 where "c2 = block_set_size b (sz_of (mem c b) + sz_of (mem c n)) c1"
    obtain bs2 where w: "widened c bs b c2 bs2" "sz_of (mem c2 b) = sz_of (mem c b) + sz_of (mem c n)"
      unfolding c2_def by (rule widened_join [OF h b n_def n(2) l])
    have top1: "unat (stack_top c1) = unat (stack_top c) + 2" "same_txn c c1" "used_bytes c1 = used_bytes c"
      using top cr same_ctl_txn [OF cr] by (simp_all add: c1_def same_ctl_def same_txn_def same_geom_def)
    have top2: "unat (stack_top c2) + 2 \<le> 64" "same_txn c1 c2" "used_bytes c2 = used_sum (mem c) bs"
      "stack_top c2 = stack_top c1"
      using top top1 inv by (simp_all add: c2_def block_set_size_def same_txn_def same_geom_def heap_inv_def)
    have le: "unat needed \<le> unat (sz_of (mem c2 b))" using yes w(2) by (simp add: word_le_nat_alt block_word)
    obtain c' bs' where r: "realloc_tail b needed (sz_of (mem c b) - 64) c2 = (1, c')" "resized c bs b needed c' bs'"
      "heap_inv c' bs'" "logged_step 2 c2 c'"
      by (rule tail_ok [OF w(1) t le top2(1,3)])
    have t0: "unat (stack_top cr) < 64" "unat (stack_top (log_entry b cr)) < 64"
      using cr top by (simp_all add: same_ctl_def)
    have "realloc_try_inplace b needed c = (1, c')"
    proof -
      have g: "\<not> get_heap_end c \<le> n" "\<not> block_size c b + block_size c n < needed" "block_is_free c n"
        using e n(1) yes by (simp_all add: not_le not_less block_word)
      have pl: "block_payload_size c b = sz_of (mem c b) - 64" "block_size c b + block_size c n = sz_of (mem c b) + sz_of (mem c n)"
        by (simp_all add: block_payload_size_def block_word HEADER_SIZE_def)
      show ?thesis
        unfolding realloc_try_inplace_def Let_def bn using False g vs az t0 r(1)
        by (simp add: pushing_ok pl flip: cr_def c1_def c2_def)
    qed
    moreover have "logged_step 4 c c'"
      using r(4) top1 top2(2,4) by (auto simp: logged_step_def intro: same_txn_trans)
    ultimately show thesis using some r(2,3) by blast
  qed
qed

section \<open>Words of a payload\<close>

text \<open>The word \<open>i\<close> of a payload as an offset in a line of the block.\<close>

lemma payload_line:
  assumes b: "aligned64 b" and i: "64 + 8 * i < s" "unat b + s < 2 ^ 64"
  obtains z y where "ptr_from_block b + of_nat (8 * i) = z + y" "aligned64 z" "y < 64" "unat b < unat z" "unat z < unat b + s"
    "unat (ptr_from_block b + of_nat (8 * i)) = unat b + 64 + 8 * i"
proof -
  obtain q r where q: "8 * i = q + r" "q mod 64 = 0" "r < 64"
    using that mod_mult_div_eq [of "8 * i" 64] by (metis add.commute mod_less_divisor mod_mult_self1_is_0 zero_less_numeral)
  define z where "z = b + of_nat (64 + q)"
  define y :: u64 where "y = of_nat r"
  have un: "unat (of_nat k :: u64) = k" if "k < 2 ^ 64" for k
    using that by (simp add: unsigned_of_nat take_bit_nat_eq_self)
  have u1: "unat (of_nat (64 + q) :: u64) = 64 + q" by (rule un) (use i q(1) in linarith)
  have uz: "unat z = unat b + (64 + q)"
    unfolding z_def using unat_add_nowrap [of b "of_nat (64 + q)"] u1 i q(1) by linarith
  have uy: "unat y = r" unfolding y_def by (rule un) (use q(3) in simp)
  have eq: "ptr_from_block b + of_nat (8 * i) = z + y"
    by (simp only: ptr_from_block_def HEADER_SIZE_def z_def y_def q(1) of_nat_add of_nat_numeral add.assoc)
  have "aligned64 (of_nat (64 + q) :: u64)" unfolding aligned64_mod u1 using q(2) by (simp add: mod_add_eq)
  then have "aligned64 z" using b by (simp add: z_def)
  moreover have "y < 64" using uy q(3) by (simp add: word_less_nat_alt)
  moreover have "unat (z + y) = unat b + 64 + 8 * i" using unat_add_nowrap [of z y] uz uy q(1) i by linarith
  moreover have "unat b < unat z" "unat z < unat b + s" using uz q(1) i by linarith+
  ultimately show thesis using that [OF eq] eq by simp
qed

section \<open>Copying into a payload\<close>

lemma line_nowrap:
  assumes "aligned64 z" "(y :: u64) < 64" shows "unat (z + y) = unat z + unat y"
proof (rule unat_add_nowrap)
  have "unat z mod 64 = 0" "unat y < 64" using assms by (simp_all add: aligned64_mod word_less_nat_alt)
  moreover have "unat z < 64 * 288230376151711744" using unat_lt_64 [of z] by simp
  ultimately have "unat z + unat y < 64 * 288230376151711744" by presburger
  then show "unat z + unat y < 2 ^ 64" by simp
qed

definition inside :: "tlsf_ctrl \<Rightarrow> u64 \<Rightarrow> u64 set" where
  "inside c f = {z. unat f < unat z \<and> unat z < unat f + unat (sz_of (mem c f))}"

lemma memcpy_touches:
  assumes up: "unat (ptr_from_block f) = unat f + 64" and n: "64 + unat n \<le> unat (sz_of (mem c f))"
  shows "touches c (c\<lparr>mem := memcpy_words (ptr_from_block f) p n (mem c)\<rparr>) (inside c f)"
proof -
  have "memcpy_words (ptr_from_block f) p n (mem c) (z + y) = mem c (z + y)"
    if z: "aligned64 z" "z \<notin> inside c f" "y < 64" for z y
  proof -
    have u: "unat (z + y) = unat z + unat y" "unat y < 64"
      using line_nowrap [OF z(1,3)] z(3) by (simp_all add: word_less_nat_alt)
    have "unat (z + y) < unat f + 64 \<or> unat f + 64 + unat n \<le> unat (z + y)"
      using z(2) u n by (auto simp: inside_def)
    then show ?thesis by (auto simp: memcpy_words_def mem_write_def Let_def up)
  qed
  from this this [of _ 0] show ?thesis by (simp add: touches_def)
qed

lemma copy_payload:
  fixes p :: u64
  assumes inv: "heap_inv c bs" and f: "f \<in> set bs" and n: "64 + unat n \<le> unat (sz_of (mem c f))" "unat n mod 8 = 0"
  defines "c2 \<equiv> c\<lparr>mem := memcpy_words (ptr_from_block f) p n (mem c)\<rparr>"
  shows "heap_inv c2 bs" "heap_abs c2 bs = heap_abs c bs" "x \<in> set bs \<Longrightarrow> x \<noteq> f \<Longrightarrow> payload_same c c2 x"
    and "8 * i < unat n \<Longrightarrow> mem c2 (ptr_from_block f + of_nat (8 * i)) = mem c (p + of_nat (8 * i))"
    and "x \<in> set bs \<Longrightarrow> keep c c2 x" "same_txn c c2" "stack_top c2 = stack_top c"
proof -
  have h: "heap_ok c bs (free_blocks c bs) {}" using inv by (simp add: heap_inv_def)
  note ch = heap_okD(2) [OF h]
  note mf = chain_member [OF ch f]
  have lt: "unat f + unat (sz_of (mem c f)) < 2 ^ 64" using mf(6) unat_lt_64 [of "get_heap_end c"] by linarith
  have up: "unat (ptr_from_block f) = unat f + 64"
    using unat_add_nowrap [of f 64] mf(3) lt by (simp add: ptr_from_block_def HEADER_SIZE_def)
  have t: "touches c c2 (inside c f)" unfolding c2_def by (rule memcpy_touches [OF up n(1)])
  have out: "x \<notin> inside c f" if "x \<in> set bs" for x using chain_interior [OF ch f, of x] that by (auto simp: inside_def)
  show k: "keep c c2 x" if "x \<in> set bs" for x by (rule keep_untouched [OF t chain_member(1) [OF ch that] out [OF that]])
  have g: "same_geom c c2" "same_lists c c2" by (simp_all add: c2_def same_geom_def same_lists_def)
  have "heap_ok c2 bs (free_blocks c bs) {}" by (rule heap_ok_untouched [OF h g t]) (use out in auto)
  then show "heap_inv c2 bs"
    using inv keep_sum [of bs c c2] keep_free_blocks [of bs c c2] k by (simp add: heap_inv_def c2_def)
  show "heap_abs c2 bs = heap_abs c bs"
  proof
    fix q
    define x where "x = block_from_ptr q"
    have q: "q = ptr_from_block x" by (simp add: x_def)
    show "heap_abs c2 bs q = heap_abs c bs q"
      using keep_info [OF k, of x] by (auto simp: q heap_abs_ptr block_word)
  qed
  show "payload_same c c2 x" if x: "x \<in> set bs" "x \<noteq> f"
    unfolding payload_same_def block_word
  proof (intro allI impI)
    fix z y :: u64
    assume z: "aligned64 z" "y < 64" "unat x < unat z" "unat z < unat x + unat (sz_of (mem c x))"
    have "z \<notin> span c f" by (rule payload_outside(2) [OF h x(1) f x(2) z(3,4)])
    then have "z \<notin> inside c f" by (auto simp: inside_def span_def)
    then show "mem c2 (z + y) = mem c (z + y)" using touchesD(2) [OF t z(1)] z(2) by simp
  qed
  show "mem c2 (ptr_from_block f + of_nat (8 * i)) = mem c (p + of_nat (8 * i))" if i: "8 * i < unat n"
  proof -
    have "64 + 8 * i < unat (sz_of (mem c f))" using i n(1) by linarith
    then have u: "unat (ptr_from_block f + of_nat (8 * i)) = unat f + 64 + 8 * i"
      using payload_line [OF mf(1) _ lt, of i] by blast
    define a :: u64 where "a = of_nat (8 * i)"
    have "8 * i + 8 \<le> unat n" using i n(2) by presburger
    then show ?thesis
      using i u unfolding a_def [symmetric] by (simp add: c2_def memcpy_words_def mem_write_def Let_def up)
  qed
  show "same_txn c c2" "stack_top c2 = stack_top c" by (simp_all add: c2_def same_txn_def same_geom_def)
qed

section \<open>Resizing by moving\<close>

lemma malloc_internal_none:
  assumes "found_block sz c = 0" "sz \<noteq> 0"
  shows "tlsf_malloc_internal sz uid dt c = (0, set_errno TLSF_ERR_OUT_OF_MEMORY c)"
  using assms by (cases "mapping_search (request_to_block_size sz)") (simp add: tlsf_malloc_internal_def found_block_def Let_def)

lemma payload_same_trans:
  "payload_same c c1 x \<Longrightarrow> payload_same c1 c2 x \<Longrightarrow> sz_of (mem c1 x) = sz_of (mem c x) \<Longrightarrow> payload_same c c2 x"
  by (simp add: payload_same_def block_word)

lemma payload_same_word:
  assumes "payload_same c c' b" "aligned64 b" "64 + 8 * i < unat (sz_of (mem c b))" "unat b + unat (sz_of (mem c b)) < 2 ^ 64"
  shows "mem c' (ptr_from_block b + of_nat (8 * i)) = mem c (ptr_from_block b + of_nat (8 * i))"
proof -
  obtain z y where "ptr_from_block b + of_nat (8 * i) = z + y" "aligned64 z" "y < 64" "unat b < unat z"
    "unat z < unat b + unat (sz_of (mem c b))"
    by (rule payload_line [OF assms(2-4)])
  then show ?thesis using assms(1) unfolding payload_same_def block_word by metis
qed

lemma realloc_move_ok:
  assumes inv: "heap_inv c bs" and b: "b \<in> set bs" "\<not> fr_of (mem c b)" and uid: "uid \<in> set (uid_list c b)"
    and one: "unowned (without uid (uid_list c b))" and n: "n \<noteq> 0" "needed = request_to_block_size n" "unat n \<le> 2 ^ 64 - 128"
    and lt: "unat (sz_of (mem c b)) < unat needed" and top: "unat (stack_top c) + 20 \<le> 64"
    and f: "f = found_block n c" "f \<noteq> 0" "unat needed \<le> unat (block_size c f)"
  obtains c' bs' m where "realloc_move (ptr_from_block b) needed n uid c = (ptr_from_block f, c')" "heap_inv c' bs'"
    "heap_abs c' bs' = (heap_abs c bs)(ptr_from_block b := None, ptr_from_block f \<mapsto>
      \<lparr>bk_size = m, bk_owners = uid # replicate 11 0, bk_type = get_data_type c b AND 0x7FFF, bk_dc = False\<rparr>)"
    "unat n \<le> unat m" "same_txn c c'" "stack_top c' = 0" "f \<noteq> b" "f \<in> free_blocks c bs"
    "\<forall>x \<in> set bs. \<not> fr_of (mem c x) \<longrightarrow> x \<noteq> b \<longrightarrow> payload_same c c' x"
    "\<forall>i. 64 + 8 * i < unat (sz_of (mem c b)) \<longrightarrow>
      mem c' (ptr_from_block f + of_nat (8 * i)) = mem c (ptr_from_block b + of_nat (8 * i))"
proof -
  let ?dt = "get_data_type c b"
  have h: "heap_ok c bs (free_blocks c bs) {}" using inv by (simp add: heap_inv_def)
  note mb = chain_member [OF heap_okD(2) [OF h] b(1)]
  have top5: "unat (stack_top c) + 5 \<le> 64" using top by simp
  obtain c1 bs1 where r: "tlsf_malloc_internal n uid ?dt c = (ptr_from_block f, c1)"
    "malloced c bs f needed uid ?dt c1 bs1" "logged_step 5 c c1"
    using malloc_internal_ok [OF inv n(1) top5, of uid ?dt] f n(2) by blast
  have m: "heap_inv c1 bs1" "f \<in> free_blocks c bs" "f \<in> set bs1" "\<not> fr_of (mem c1 f)" "unat needed \<le> unat (sz_of (mem c1 f))"
    "set bs \<subseteq> set bs1" "keep c c1 b" "f \<noteq> b"
    using r(2) b by (auto simp: malloced_def free_blocks_member)
  note v1 = malloced_view [OF inv r(2)]
  have ub: "unat (sz_of (mem c b) - 64) = unat (sz_of (mem c b)) - 64" using unat_diff_nowrap [of 64 "sz_of (mem c b)"] mb(3) by simp
  have un: "unat (needed - 64) = unat needed - 64"
    using unat_diff_nowrap [of 64 needed] request_aligned(2) [of n] n(2) by simp
  define k where "k = sz_of (mem c b) - 64"
  have copy: "(if block_payload_size c b < needed - HEADER_SIZE then block_payload_size c b else needed - HEADER_SIZE) = k"
  proof -
    have "unat (sz_of (mem c b)) - 64 < unat needed - 64" using lt mb(3) by linarith
    then have "sz_of (mem c b) - 64 < needed - 64" unfolding word_less_nat_alt ub un .
    then show ?thesis by (simp add: block_payload_size_def block_word HEADER_SIZE_def k_def)
  qed
  have k: "64 + unat k \<le> unat (sz_of (mem c1 f))" "unat k mod 8 = 0"
  proof -
    show "64 + unat k \<le> unat (sz_of (mem c1 f))" using ub lt m(5) mb(3) by (simp add: k_def)
    have "unat (sz_of (mem c b)) mod 64 = 0" using mb(2) by (simp add: aligned64_mod)
    then show "unat k mod 8 = 0" using ub mb(3) unfolding k_def by presburger
  qed
  define c2 where "c2 = c1\<lparr>mem := memcpy_words (ptr_from_block f) (ptr_from_block b) k (mem c1)\<rparr>"
  note cp = copy_payload [OF m(1,3) k, where p = "ptr_from_block b", folded c2_def]
  have bin: "b \<in> set bs1" using m(6) b(1) by blast
  have kb: "keep c c2 b" using keep_trans [OF m(7) cp(5) [OF bin]] .
  have b2: "\<not> fr_of (mem c2 b)" "uid \<in> set (uid_list c2 b)" "uid_list c2 b = uid_list c b" "block_info c2 b = block_info c b"
    using kb b(2) uid keep_info [OF kb] by (simp_all add: keep_def meta_same_def block_info_def)
  have f2: "\<not> fr_of (mem c2 f)" using cp(5) [OF m(3)] m(4) by (simp add: keep_def meta_same_def)
  have top2: "unat (stack_top c2) + 15 \<le> 64" using r(3) cp(7) top by (simp add: logged_step_def)
  obtain c3 bs3 where r3: "tlsf_free_internal (ptr_from_block b) uid c2 = (True, c3)" "heap_inv c3 bs3"
    "free_effect c2 bs1 (ptr_from_block b) uid c3 bs3" "logged_step 15 c2 c3"
    by (rule free_internal_ok [OF cp(1) bin b2(1,2) top2])
  have abs2: "heap_abs c2 bs1 (ptr_from_block b) = Some (block_info c b)" using bin b2 by (simp add: heap_abs_ptr)
  have "heap_abs c3 bs3 = (heap_abs c2 bs1)(ptr_from_block b := None)"
    using r3(3) abs2 one by (simp add: free_effect_def Let_def block_info_def)
  with v1(2) cp(2) have view: "heap_abs c3 bs3 = (heap_abs c bs)(ptr_from_block b := None, ptr_from_block f \<mapsto>
      \<lparr>bk_size = sz_of (mem c1 f) - 64, bk_owners = uid # replicate 11 0, bk_type = ?dt AND 0x7FFF, bk_dc = False\<rparr>)"
    using m(8) by (simp add: fun_upd_twist)
  have pl3: "payload_same c2 c3 x" if "x \<in> set bs1" "\<not> fr_of (mem c2 x)" "x \<noteq> b" for x
    using r3(3) that by (simp add: free_effect_def block_word)
  have pl: "payload_same c c3 x" if x: "x \<in> set bs" "\<not> fr_of (mem c x)" "x \<noteq> b" for x
  proof -
    have xf: "x \<noteq> f" "x \<in> set bs1" using x m(2,6) by (auto simp: free_blocks_member)
    then have k1: "keep c c1 x" "keep c1 c2 x" using x r(2) cp(5) by (auto simp: malloced_def)
    then have "\<not> fr_of (mem c2 x)" using x(2) by (simp add: keep_def meta_same_def)
    from payload_same_trans [OF payload_same_trans [OF v1(3) [OF x(1,2)] cp(3) [OF xf(2,1)]] pl3 [OF xf(2) this x(3)]] k1
    show ?thesis by (simp add: keep_def)
  qed
  have h1: "heap_ok c1 bs1 (free_blocks c1 bs1) {}" using m(1) by (simp add: heap_inv_def)
  note mf = chain_member [OF heap_okD(2) [OF h1] m(3)]
  have lt64: "unat b + unat (sz_of (mem c b)) < 2 ^ 64" "unat f + unat (sz_of (mem c1 f)) < 2 ^ 64"
    using mb(6) mf(6) unat_lt_64 [of "get_heap_end c"] unat_lt_64 [of "get_heap_end c1"] by linarith+
  have s2: "sz_of (mem c2 f) = sz_of (mem c1 f)" using cp(5) [OF m(3)] by (simp add: keep_def)
  have words: "mem c3 (ptr_from_block f + of_nat (8 * i)) = mem c (ptr_from_block b + of_nat (8 * i))"
    if i: "64 + 8 * i < unat (sz_of (mem c b))" for i
  proof -
    have "mem c3 (ptr_from_block f + of_nat (8 * i)) = mem c2 (ptr_from_block f + of_nat (8 * i))"
      by (rule payload_same_word [OF pl3 [OF m(3) f2 m(8)] mf(1)]) (use i lt m(5) lt64 s2 in simp_all)
    also have "\<dots> = mem c1 (ptr_from_block b + of_nat (8 * i))" by (rule cp(4)) (use i ub in \<open>simp add: k_def\<close>)
    also have "\<dots> = mem c (ptr_from_block b + of_nat (8 * i))"
      by (rule payload_same_word [OF v1(3) [OF b] mb(1) i lt64(1)])
    finally show ?thesis .
  qed
  have nz: "ptr_from_block f \<noteq> 0" by (rule block_in_pool(1) [OF m(1,3)])
  have eq: "realloc_move (ptr_from_block b) needed n uid c = (ptr_from_block f, bul_commit c3)"
    using r(1) r3(1) nz unfolding realloc_move_def Let_def ptr_block copy by (simp flip: c2_def)
  have st: "same_txn c (bul_commit c3)"
    using r(3) cp(6) r3(4) same_txn_trans by (fastforce simp: logged_step_def same_txn_def same_geom_def bul_commit_def)
  have um: "unat n \<le> unat (sz_of (mem c1 f) - 64)" by (rule request_payload [OF n(3)]) (use m(5) n(2) in simp)
  have plc: "payload_same c (bul_commit c3) x" if "payload_same c c3 x" for x using that by (simp add: payload_same_def)
  show thesis
    by (rule that [OF eq _ _ um st _ m(8,2)]) (use r3(2) view pl plc words in simp_all)
qed

section \<open>The whole call\<close>

definition realloc_effect ::
  "tlsf_ctrl \<Rightarrow> u64 list \<Rightarrow> u64 \<Rightarrow> blk \<Rightarrow> u64 \<Rightarrow> u16 \<Rightarrow> u64 \<Rightarrow> tlsf_ctrl \<Rightarrow> u64 list \<Rightarrow> bool" where
  "realloc_effect c bs p k n uid q c' bs' \<longleftrightarrow>
     (\<exists>m. unat n \<le> unat m \<and>
        (if q = p then heap_abs c' bs' = (heap_abs c bs)(p \<mapsto> k\<lparr>bk_size := m\<rparr>)
         else heap_abs c bs q = None \<and> heap_abs c' bs' = (heap_abs c bs)(p := None, q \<mapsto>
           \<lparr>bk_size = m, bk_owners = uid # replicate 11 0, bk_type = bk_type k, bk_dc = False\<rparr>)) \<and>
        (\<forall>i. 8 * i < min (unat (bk_size k)) (unat m) \<longrightarrow> mem c' (q + of_nat (8 * i)) = mem c (p + of_nat (8 * i)))) \<and>
     (\<forall>x \<in> set bs. \<not> block_is_free c x \<longrightarrow> x \<noteq> block_from_ptr p \<longrightarrow> payload_same c c' x)"

text \<open>The body under the lock.\<close>

definition realloc_body :: "u64 \<Rightarrow> u64 \<Rightarrow> u64 \<Rightarrow> u16 \<Rightarrow> tlsf_ctrl \<Rightarrow> u64 \<times> tlsf_ctrl" where
  "realloc_body ptr b new_size uid c1 =
     (let needed = request_to_block_size new_size in
      case realloc_try_inplace b needed c1 of (ip, c2) \<Rightarrow>
        if ip < 0 then (0, c2)
        else if ip > 0 then (ptr, bul_commit c2)
        else realloc_move ptr needed new_size uid c2)"

lemma type_masked: "get_data_type c b AND 0x7FFF = get_data_type c b"
proof -
  have "(0x7FFF :: u16) = mask 15" by (simp add: mask_eq_exp_minus_1)
  then show ?thesis by (simp add: bit_eq_iff sig_word bit_type_of bit_and_iff bit_mask_iff)
qed

lemma realloc_body_ok:
  assumes inv: "heap_inv c bs" and b: "b \<in> set bs" "\<not> fr_of (mem c b)" and uid: "uid \<in> set (uid_list c b)"
    and one: "unowned (without uid (uid_list c b))" and n: "n \<noteq> 0" "unat n \<le> 2 ^ 64 - 128" and top: "stack_top c = 0"
    and fit: "found_block n c \<noteq> 0 \<Longrightarrow> request_to_block_size n \<le> block_size c (found_block n c)"
  obtains (oom) "realloc_body (ptr_from_block b) b n uid c = (0, set_errno TLSF_ERR_OUT_OF_MEMORY c)" "found_block n c = 0"
    | (ok) q c' bs' where "realloc_body (ptr_from_block b) b n uid c = (q, c')" "q \<noteq> 0" "heap_inv c' bs'" "same_txn c c'"
        "stack_top c' = 0" "realloc_effect c bs (ptr_from_block b) (block_info c b) n uid q c' bs'"
proof -
  let ?needed = "request_to_block_size n"
  have h: "heap_ok c bs (free_blocks c bs) {}" using inv by (simp add: heap_inv_def)
  note mb = chain_member [OF heap_okD(2) [OF h] b(1)]
  have lt64: "unat b + unat (sz_of (mem c b)) < 2 ^ 64" using mb(6) unat_lt_64 [of "get_heap_end c"] by linarith
  have bk: "unat (bk_size (block_info c b)) + 64 = unat (sz_of (mem c b))"
    using unat_diff_nowrap [of 64 "sz_of (mem c b)"] mb(3)
    by (simp add: block_info_def block_payload_size_def block_word HEADER_SIZE_def)
  have top4: "unat (stack_top c) + 4 \<le> 64" using top by simp
  show thesis
  proof (rule inplace_ok [OF inv b request_aligned(1) [of n] request_aligned(2) [of n] top4])
    fix c' bs'
    assume r: "realloc_try_inplace b ?needed c = (1, c')" "resized c bs b ?needed c' bs'" "heap_inv c' bs'" "logged_step 4 c c'"
    note v = resized_view [OF h b r(2)]
    have sz: "unat ?needed \<le> unat (sz_of (mem c' b))" "128 \<le> unat (sz_of (mem c' b))"
      using r(2) request_aligned(2) [of n] by (auto simp: resized_def)
    then have um: "unat (sz_of (mem c' b) - 64) + 64 = unat (sz_of (mem c' b))"
      using unat_diff_nowrap [of 64 "sz_of (mem c' b)"] by simp
    have pay: "unat n \<le> unat (sz_of (mem c' b) - 64)" by (rule request_payload [OF n(2) sz(1)])
    have wd: "mem (bul_commit c') (ptr_from_block b + of_nat (8 * i)) = mem c (ptr_from_block b + of_nat (8 * i))"
      if i: "8 * i < min (unat (bk_size (block_info c b))) (unat (sz_of (mem c' b) - 64))" for i
    proof -
      have e: "64 + 8 * i < min (unat (sz_of (mem c b))) (unat (sz_of (mem c' b)))" using i bk um by linarith
      have l: "unat b + min (unat (sz_of (mem c b))) (unat (sz_of (mem c' b))) < 2 ^ 64" using lt64 by linarith
      obtain z y where "ptr_from_block b + of_nat (8 * i) = z + y" "aligned64 z" "y < 64" "unat b < unat z"
        "unat z < unat b + min (unat (sz_of (mem c b))) (unat (sz_of (mem c' b)))"
        by (rule payload_line [OF mb(1) e l])
      then show ?thesis using v(3) by simp
    qed
    have "realloc_effect c bs (ptr_from_block b) (block_info c b) n uid (ptr_from_block b) (bul_commit c') bs'"
      unfolding realloc_effect_def
    proof (intro conjI exI [of _ "sz_of (mem c' b) - 64"])
      show "\<forall>x \<in> set bs. \<not> block_is_free c x \<longrightarrow> x \<noteq> block_from_ptr (ptr_from_block b) \<longrightarrow> payload_same c (bul_commit c') x"
        using v(2) by (simp add: block_word payload_same_def)
    qed (use pay v(1) wd in simp_all)
    moreover have "realloc_body (ptr_from_block b) b n uid c = (ptr_from_block b, bul_commit c')"
      by (simp add: realloc_body_def Let_def r(1))
    moreover have "same_txn c (bul_commit c')" using r(4) by (simp add: logged_step_def same_txn_def same_geom_def bul_commit_def)
    ultimately show thesis
      by (intro ok [of "ptr_from_block b" "bul_commit c'" bs']) (simp_all add: r(3) block_in_pool(1) [OF inv b(1)])
  next
    assume no: "realloc_try_inplace b ?needed c = (0, c)" "unat (sz_of (mem c b)) < unat ?needed"
    then have rb: "realloc_body (ptr_from_block b) b n uid c = realloc_move (ptr_from_block b) ?needed n uid c"
      by (simp add: realloc_body_def Let_def)
    have top20: "unat (stack_top c) + 20 \<le> 64" using top by simp
    show thesis
    proof (cases "found_block n c = 0")
      case True
      then show thesis using oom rb malloc_internal_none [OF True n(1)] by (simp add: realloc_move_def Let_def)
    next
      case False
      have le: "unat ?needed \<le> unat (block_size c (found_block n c))" using fit [OF False] by (simp add: word_le_nat_alt)
      let ?f = "found_block n c"
      obtain c' bs' m where r: "realloc_move (ptr_from_block b) ?needed n uid c = (ptr_from_block ?f, c')" "heap_inv c' bs'"
        "heap_abs c' bs' = (heap_abs c bs)(ptr_from_block b := None, ptr_from_block ?f \<mapsto>
          \<lparr>bk_size = m, bk_owners = uid # replicate 11 0, bk_type = get_data_type c b AND 0x7FFF, bk_dc = False\<rparr>)"
        "unat n \<le> unat m" "same_txn c c'" "stack_top c' = 0" "?f \<noteq> b" "?f \<in> free_blocks c bs"
        "\<forall>x \<in> set bs. \<not> fr_of (mem c x) \<longrightarrow> x \<noteq> b \<longrightarrow> payload_same c c' x"
        "\<forall>i. 64 + 8 * i < unat (sz_of (mem c b)) \<longrightarrow>
          mem c' (ptr_from_block ?f + of_nat (8 * i)) = mem c (ptr_from_block b + of_nat (8 * i))"
        by (rule realloc_move_ok [OF inv b uid one n(1) refl n(2) no(2) top20 refl False le])
      have "heap_abs c bs (ptr_from_block ?f) = None" using r(8) by (simp add: heap_abs_ptr free_blocks_member)
      moreover have "bk_type (block_info c b) = get_data_type c b" by (simp add: block_info_def)
      ultimately have "realloc_effect c bs (ptr_from_block b) (block_info c b) n uid (ptr_from_block ?f) c' bs'"
        unfolding realloc_effect_def using r(3,4,7,9,10) bk type_masked [of c b]
        by (intro conjI exI [of _ m]) (simp_all add: block_word)
      then show thesis using ok [OF _ _ r(2,5,6)] rb r(1) block_in_pool(1) [OF inv] r(8) by (simp add: free_blocks_member)
    qed
  qed
qed

lemma single_owner:
  assumes "uid \<in> set us" "uid \<noteq> 0" "length (filter (\<lambda>u. u \<noteq> 0) us) \<le> 1" shows "unowned (without uid us)"
proof -
  have "uid \<in> set (filter (\<lambda>u. u \<noteq> 0) us)" using assms(1,2) by simp
  then have "filter (\<lambda>u. u \<noteq> 0) us = [uid]" using assms(3)
    by (cases "filter (\<lambda>u. u \<noteq> 0) us") auto
  then have "u = uid \<or> u = 0" if "u \<in> set us" for u 
  proof (cases "u = 0")
    case False
    then have "u \<in> set (filter (\<lambda>u. u \<noteq> 0) us)" using that by simp
    also have "set (filter (\<lambda>u. u \<noteq> 0) us) = {uid}" using \<open>filter (\<lambda>u. u \<noteq> 0) us = [uid]\<close> by simp
    finally show ?thesis by simp
  qed simp
  then show ?thesis by (auto simp: unowned_def without_def filter_empty_conv)
qed

lemma with_lock_same:
  fixes w e
  assumes inv: "tlsf_inv c bs"
  defines "d \<equiv> mutex_unlock w (set_errno e (locked w c))"
  shows "tlsf_inv d bs" "heap_abs d bs = heap_abs c bs" "mem d = mem c" "tlsf_errno d = e"
proof -
  have id: "idle c" and hi: "heap_inv c bs" using inv by (simp_all add: tlsf_inv_def)
  have st: "same_txn (locked w c) (set_errno e (locked w c))" by (simp add: same_txn_def same_geom_def set_errno_def)
  have "stack_top (set_errno e (locked w c)) = 0" using id by (simp add: idle_def set_errno_def)
  then show "tlsf_inv d bs" using idle_after(2) [OF id st] hi by (simp add: tlsf_inv_def d_def)
  show "heap_abs d bs = heap_abs c bs" by (simp add: d_def)
  show "mem d = mem c" "tlsf_errno d = e" by (simp_all add: d_def set_errno_def)
qed



end
