(* ===== verification/Dal_List.thy ===== *)
theory Dal_List
  imports Srpc_Session
begin

text \<open>
  The doubly linked list of the list example (\<^verbatim>\<open>example/list/dal_list.h\<close>). Head and nodes lie in blocks of the
  pool, so their fields are words of the pool: \<^verbatim>\<open>prev\<close> and \<^verbatim>\<open>next\<close> in the first two words of a node, and
  for a head the sentinel, then \<^verbatim>\<open>magic\<close> and \<^verbatim>\<open>count\<close> in the two halves of the third word. Only the mutex
  of a head, whose bytes the C library owns, is kept beside the pool.

  The list is circular through the sentinel. \<open>dal_ok\<close> relates it to the sequence of its nodes, and the
  operations are shown to insert in front, to take out and to visit the nodes in order. That the blocks
  keep their owners meanwhile, and that allocations and releases of other blocks do not disturb the list, follows from the
  laws of the interface \<open>payload_store\<close>, which the pool implements. A walk of
  \<^verbatim>\<open>DAL_LIST_FOREACH_SAFE\<close> is a \<^verbatim>\<open>partial_function\<close>: \<open>None\<close> is a walk that does not end, and every theorem on a
  walk shows that it returns.
\<close>

section \<open>Data\<close>

definition DAL_LIST_OP_GET_HEAD :: int where "DAL_LIST_OP_GET_HEAD = 1"
definition DAL_LIST_OP_INSERT :: int where "DAL_LIST_OP_INSERT = 2"
definition DAL_LIST_OP_REMOVE :: int where "DAL_LIST_OP_REMOVE = 3"

definition DAL_LIST_MAGIC :: u32 where "DAL_LIST_MAGIC = 0x56789012"

text \<open>\<^verbatim>\<open>sizeof(dal_list_head_t)\<close>: two pointers, two 32-bit words and a mutex of 40 bytes.\<close>

definition DAL_HEAD_SZ :: u64 where "DAL_HEAD_SZ = 64"

record dal_mem =
  dm_shm :: shmem
  dm_mutex :: "u64 \<Rightarrow> pmutex"

definition node_prev :: "u64 \<Rightarrow> 'a dal_mem_scheme \<Rightarrow> u64" where "node_prev n s = shm_word (dm_shm s) n"
definition node_succ :: "u64 \<Rightarrow> 'a dal_mem_scheme \<Rightarrow> u64" where "node_succ n s = shm_word (dm_shm s) (n + 8)"
definition head_magic :: "u64 \<Rightarrow> 'a dal_mem_scheme \<Rightarrow> u32" where "head_magic h s = ucast (shm_word (dm_shm s) (h + 16))"
definition head_count :: "u64 \<Rightarrow> 'a dal_mem_scheme \<Rightarrow> u32" where "head_count h s = ucast (drop_bit 32 (shm_word (dm_shm s) (h + 16)))"

definition put_word :: "u64 \<Rightarrow> u64 \<Rightarrow> 'a dal_mem_scheme \<Rightarrow> 'a dal_mem_scheme" where
  "put_word a v s = s\<lparr>dm_shm := shm_poke a v (dm_shm s)\<rparr>"

definition set_prev :: "u64 \<Rightarrow> u64 \<Rightarrow> 'a dal_mem_scheme \<Rightarrow> 'a dal_mem_scheme" where "set_prev n p = put_word n p"
definition set_next :: "u64 \<Rightarrow> u64 \<Rightarrow> 'a dal_mem_scheme \<Rightarrow> 'a dal_mem_scheme" where "set_next n p = put_word (n + 8) p"

definition set_magic_count :: "u64 \<Rightarrow> u32 \<Rightarrow> u32 \<Rightarrow> 'a dal_mem_scheme \<Rightarrow> 'a dal_mem_scheme" where
  "set_magic_count h magic cnt = put_word (h + 16) (ucast magic OR push_bit 32 (ucast cnt))"

definition put_mutex :: "u64 \<Rightarrow> pmutex \<Rightarrow> 'a dal_mem_scheme \<Rightarrow> 'a dal_mem_scheme" where
  "put_mutex h m s = s\<lparr>dm_mutex := (dm_mutex s)(h := m)\<rparr>"

section \<open>Operations\<close>

definition dal_list_node_init :: "u64 \<Rightarrow> 'a dal_mem_scheme \<Rightarrow> 'a dal_mem_scheme" where
  "dal_list_node_init node s = set_next node 0 (set_prev node 0 s)"

text \<open>The results of the calls of the pthread library in their order: \<^verbatim>\<open>mutexattr_init\<close>, \<^verbatim>\<open>setpshared\<close>, \<^verbatim>\<open>setrobust\<close>,
  \<^verbatim>\<open>settype\<close>, \<^verbatim>\<open>setprotocol\<close> and \<^verbatim>\<open>mutex_init\<close>.\<close>

record mutex_env =
  me_attr :: int
  me_pshared :: int
  me_robust :: int
  me_type :: int
  me_protocol :: int
  me_init :: int

definition dal_list_init :: "mutex_env \<Rightarrow> u64 \<Rightarrow> 'a dal_mem_scheme \<Rightarrow> int \<times> 'a dal_mem_scheme" where
  "dal_list_init e head s =
     (if me_attr e \<noteq> 0 then (me_attr e, s)
      else if me_pshared e \<noteq> 0 then (me_pshared e, s)
      else if me_robust e \<noteq> 0 then (me_robust e, s)
      else if me_type e \<noteq> 0 then (me_type e, s)
      else if me_protocol e \<noteq> 0 then (me_protocol e, s)
      else if me_init e \<noteq> 0 then (me_init e, s)
      else (0, set_next head head (set_prev head head (set_magic_count head DAL_LIST_MAGIC 0 (put_mutex head mutex_new s)))))"

definition dal_list_destroy :: "u64 \<Rightarrow> 'a dal_mem_scheme \<Rightarrow> 'a dal_mem_scheme" where
  "dal_list_destroy head s = set_magic_count head 0 0 (put_mutex head (snd (pthread_mutex_destroy (dm_mutex s head))) s)"

text \<open>\<open>t\<close> is the calling thread. \<open>None\<close>: the call does not return, because another thread holds the mutex or
  the head is a null pointer.\<close>

definition dal_list_lock :: "nat \<Rightarrow> u64 \<Rightarrow> 'a dal_mem_scheme \<Rightarrow> (int \<times> 'a dal_mem_scheme) option" where
  "dal_list_lock t head s =
     (if head = 0 then None
      else case pthread_mutex_lock t (dm_mutex s head) of
        None \<Rightarrow> None
      | Some (rc, m) \<Rightarrow>
          if rc = EOWNERDEAD then (case pthread_mutex_consistent m of (rc, m) \<Rightarrow> Some (rc, put_mutex head m s))
          else Some (rc, put_mutex head m s))"

definition dal_list_unlock :: "nat \<Rightarrow> u64 \<Rightarrow> 'a dal_mem_scheme \<Rightarrow> int \<times> 'a dal_mem_scheme" where
  "dal_list_unlock t head s =
     (case pthread_mutex_unlock t (dm_mutex s head) of (rc, m) \<Rightarrow> (rc, put_mutex head m s))"

definition link_node :: "u64 \<Rightarrow> u64 \<Rightarrow> 'a dal_mem_scheme \<Rightarrow> 'a dal_mem_scheme" where
  "link_node head node s =
     (let s1 = set_prev node head s;
          s2 = set_next node (node_succ head s1) s1;
          s3 = set_prev (node_succ head s2) node s2;
          s4 = set_next head node s3
      in set_magic_count head (head_magic head s4) (head_count head s4 + 1) s4)"

definition dal_list_insert :: "nat \<Rightarrow> u64 \<Rightarrow> u64 \<Rightarrow> 'a dal_mem_scheme \<Rightarrow> (int \<times> 'a dal_mem_scheme) option" where
  "dal_list_insert t head node s =
     (case dal_list_lock t head s of
        None \<Rightarrow> None
      | Some (_, s1) \<Rightarrow> Some (0, snd (dal_list_unlock t head (link_node head node s1))))"

definition take_node :: "u64 \<Rightarrow> u64 \<Rightarrow> 'a dal_mem_scheme \<Rightarrow> 'a dal_mem_scheme" where
  "take_node head node s =
     (let s1 = set_next (node_prev node s) (node_succ node s) s;
          s2 = set_prev (node_succ node s1) (node_prev node s1) s1;
          s3 = set_next node 0 (set_prev node 0 s2)
      in set_magic_count head (head_magic head s3) (head_count head s3 - 1) s3)"

definition dal_list_remove :: "nat \<Rightarrow> u64 \<Rightarrow> u64 \<Rightarrow> 'a dal_mem_scheme \<Rightarrow> (int \<times> 'a dal_mem_scheme) option" where
  "dal_list_remove t head node s =
     (case dal_list_lock t head s of
        None \<Rightarrow> None
      | Some (_, s1) \<Rightarrow>
          if node_prev node s1 = 0 \<or> node_succ node s1 = 0 then Some (- 1, snd (dal_list_unlock t head s1))
          else Some (0, snd (dal_list_unlock t head (take_node head node s1))))"

text \<open>\<^verbatim>\<open>DAL_LIST_FOREACH_SAFE\<close>: \<open>tmp\<close> is read before the body runs, and the node after it when the walk moves on. The body
  ends the walk with a result, as a \<^verbatim>\<open>break\<close> or a \<^verbatim>\<open>return\<close> does, or lets it go on.\<close>

partial_function (option) dal_walk ::
  "u64 \<Rightarrow> (u64 \<Rightarrow> 'a dal_mem_scheme \<Rightarrow> ('r option \<times> 'a dal_mem_scheme) option) \<Rightarrow> u64 \<Rightarrow> u64 \<Rightarrow> 'a dal_mem_scheme \<Rightarrow>
     ('r option \<times> 'a dal_mem_scheme) option" where
  "dal_walk head body node tmp s =
     (if node = head then Some (None, s)
      else Option.bind (body node s) (\<lambda>(r, s1).
        if r \<noteq> None then Some (r, s1) else dal_walk head body tmp (node_succ tmp s1) s1))"

definition dal_list_foreach ::
  "u64 \<Rightarrow> (u64 \<Rightarrow> 'a dal_mem_scheme \<Rightarrow> ('r option \<times> 'a dal_mem_scheme) option) \<Rightarrow> 'a dal_mem_scheme \<Rightarrow>
     ('r option \<times> 'a dal_mem_scheme) option" where
  "dal_list_foreach head body s =
     (let node = node_succ head s in dal_walk head body node (node_succ node s) s)"

section \<open>Circular chains of words\<close>

text \<open>Neighbours of a row of nodes point at each other.\<close>

fun links :: "(u64 \<Rightarrow> u64) \<Rightarrow> u64 list \<Rightarrow> bool" where
  "links m (x # y # zs) = (m (x + 8) = y \<and> m y = x \<and> links m (y # zs))"
| "links m _ = True"

lemma links_append: "links m (xs @ y # zs) \<longleftrightarrow> links m (xs @ [y]) \<and> links m (y # zs)"
proof (induction xs)
  case (Cons x xs)
  then show ?case by (cases xs) auto
qed simp

lemma links_cong:
  assumes "\<And>x. x \<in> set (butlast xs) \<Longrightarrow> m' (x + 8) = m (x + 8)" "\<And>x. x \<in> set (tl xs) \<Longrightarrow> m' x = m x"
  shows "links m' xs = links m xs"
  using assms
proof (induction m xs rule: links.induct)
  case (1 m x y zs)
  have "links m' (y # zs) = links m (y # zs)"
    by (rule "1.IH") (use "1.prems" in \<open>auto split: if_splits\<close>)
  then show ?case using "1.prems"(1) [of x] "1.prems"(2) [of y] by simp
qed simp_all

definition circ :: "(u64 \<Rightarrow> u64) \<Rightarrow> u64 \<Rightarrow> u64 list \<Rightarrow> bool" where
  "circ m h ns \<longleftrightarrow> links m (h # ns @ [h])"

definition apart :: "u64 list \<Rightarrow> bool" where
  "apart xs \<longleftrightarrow> distinct xs \<and> (\<forall>x \<in> set xs. aligned64 x \<and> x \<noteq> 0)"

lemma apart_fields:
  assumes "apart xs" "x \<in> set xs" "y \<in> set xs"
  shows "x + 8 \<noteq> y" "x + 16 \<noteq> y" "x + 16 \<noteq> y + 8" "x + 8 = y + 8 \<longleftrightarrow> x = y" "y \<noteq> x + 8" "y \<noteq> x + 16" "y + 8 \<noteq> x + 16"
proof -
  have a: "aligned64 x" "aligned64 y" using assms by (auto simp: apart_def)
  show "x + 8 \<noteq> y" "y \<noteq> x + 8" using aligned_offset_eq0 [OF a, of 8] by auto
  show "x + 16 \<noteq> y" "y \<noteq> x + 16" using aligned_offset_eq0 [OF a, of 16] by auto
  show "x + 16 \<noteq> y + 8" "y + 8 \<noteq> x + 16" using aligned_offset_eq [OF a, of 16 8] by auto
  show "x + 8 = y + 8 \<longleftrightarrow> x = y" by simp
qed

text \<open>The words an insertion in front writes.\<close>

lemma circ_insert:
  assumes c: "circ m h ns" and a: "apart (n # h # ns)"
  shows "circ (m(n := h, n + 8 := m (h + 8), m (h + 8) := n, h + 8 := n, h + 16 := v)) h (n # ns)"
proof -
  obtain y r where y: "ns @ [h] = y # r" by (cases "ns @ [h]") auto
  have m: "m (h + 8) = y" "links m (y # r)" using c by (auto simp: circ_def y)
  have s: "set (y # r) = insert h (set ns)" "butlast (y # r) = ns" using y [symmetric] by auto
  have d: "distinct (y # r)" using a y [symmetric] by (auto simp: apart_def)
  have rs: "x \<in> set (n # h # ns)" if "x \<in> set r" for x using s(1) that by auto
  have yi: "y \<in> set (n # h # ns)" "y \<noteq> n" using s(1) a by (auto simp: apart_def)
  note f = apart_fields [OF a]
  let ?m = "m(n := h, n + 8 := m (h + 8), m (h + 8) := n, h + 8 := n, h + 16 := v)"
  have "links ?m (y # r) = links m (y # r)"
  proof (rule links_cong)
    fix x assume "x \<in> set (butlast (y # r))"
    then have x: "x \<in> set (n # h # ns)" "x \<noteq> h" "x \<noteq> n" using s(2) a by (auto simp: apart_def)
    show "?m (x + 8) = m (x + 8)" using f [OF x(1), of h] f [OF x(1), of n] f(1) [OF x(1) yi(1)] f(7) [of h x] x m(1) by auto
  next
    fix x assume "x \<in> set (tl (y # r))"
    then have x: "x \<in> set (n # h # ns)" "x \<noteq> y" "x \<noteq> n" using rs d s(1) a by (auto simp: apart_def)
    show "?m x = m x" using f [of h x] f [of n x] x m(1) by auto
  qed
  moreover have "?m (h + 8) = n" using f [of h h] by simp
  moreover have "?m n = h" using f [of h n] f [of n n] yi m(1) by auto
  moreover have "?m (n + 8) = y" using f [of h n] f [of n h] f [of n y] yi m(1) a by (auto simp: apart_def)
  moreover have "?m y = n" using f [of h y] yi m(1) by auto
  ultimately show ?thesis using m(2) by (simp add: circ_def y)
qed

text \<open>The words a removal writes.\<close>

lemma circ_remove:
  assumes c: "circ m h (us @ n # vs)" and a: "apart (h # us @ n # vs)"
  shows "circ (m(m n + 8 := m (n + 8), m (n + 8) := m n, n := 0, n + 8 := 0, h + 16 := v)) h (us @ vs)"
    and "m n = last (h # us)" "m (n + 8) = hd (vs @ [h])"
proof -
  obtain ps p where p: "h # us = ps @ [p]" using rev_exhaust [of "h # us"] by blast
  obtain q qs where q: "vs @ [h] = q # qs" by (cases "vs @ [h]") auto
  have row: "h # (us @ n # vs) @ [h] = (ps @ [p]) @ n # q # qs" using p q by simp
  have l: "links m (ps @ [p] @ n # q # qs)" using c unfolding circ_def row by simp
  then have l1: "links m (ps @ [p])" and l2: "m (p + 8) = n" "m n = p" "m (n + 8) = q" "m q = n" "links m (q # qs)"
    using links_append [of m ps p "n # q # qs"] by auto
  show "m n = last (h # us)" "m (n + 8) = hd (vs @ [h])" using l2(2,3) p q by simp_all
  let ?m = "m(m n + 8 := m (n + 8), m (n + 8) := m n, n := 0, n + 8 := 0, h + 16 := v)" and ?xs = "h # us @ n # vs"
  have ps: "set (ps @ [p]) = insert h (set us)" and qs: "set (q # qs) = insert h (set vs)" using p [symmetric] q [symmetric] by auto
  have dp: "distinct (ps @ [p])" and dq: "distinct (q # qs)" and dn: "n \<noteq> h" "n \<notin> set us" "n \<notin> set vs" "set us \<inter> set vs = {}" "h \<notin> set us" "h \<notin> set vs"
    using a p [symmetric] q [symmetric] by (auto simp: apart_def)
  have pi: "p \<in> set ?xs" "p \<noteq> n" and qi: "q \<in> set ?xs" "q \<noteq> n" using ps qs dn by auto
  note f = apart_fields [OF a]
  have e: "?m = m(p + 8 := q, q := p, n := 0, n + 8 := 0, h + 16 := v)" by (simp add: l2(2,3))
  have keep: "?m (x + 8) = m (x + 8)" if "x \<in> set ?xs" "x \<noteq> p" "x \<noteq> n" for x
    unfolding e using that f [of x q] f [of x n] f [of h x] f [of x p] pi qi by auto
  have keep2: "?m x = m x" if "x \<in> set ?xs" "x \<noteq> q" "x \<noteq> n" for x
    unfolding e using that f [of p x] f [of n x] f [of h x] pi by auto
  have "links ?m (ps @ [p]) = links m (ps @ [p])"
  proof (rule links_cong)
    fix x assume "x \<in> set (butlast (ps @ [p]))"
    then have "x \<in> set ps" by simp
    then have "x \<in> set ?xs" "x \<noteq> p" "x \<noteq> n" using ps dp dn by auto
    then show "?m (x + 8) = m (x + 8)" by (rule keep)
  next
    fix x assume "x \<in> set (tl (ps @ [p]))"
    then have "x \<in> set us" using p [symmetric] by simp
    moreover have "q = h \<or> q \<in> set vs" using qs by auto
    ultimately have "x \<in> set ?xs" "x \<noteq> q" "x \<noteq> n" using dn by auto
    then show "?m x = m x" by (rule keep2)
  qed
  moreover have "links ?m (q # qs) = links m (q # qs)"
  proof (rule links_cong)
    fix x assume "x \<in> set (butlast (q # qs))"
    then have "x \<in> set vs" using q [symmetric] by simp
    moreover have "p = h \<or> p \<in> set us" using ps by auto
    ultimately have "x \<in> set ?xs" "x \<noteq> p" "x \<noteq> n" using dn by auto
    then show "?m (x + 8) = m (x + 8)" by (rule keep)
  next
    fix x assume "x \<in> set (tl (q # qs))"
    then have "x \<in> set qs" by simp
    then have "x \<in> set ?xs" "x \<noteq> q" "x \<noteq> n" using qs dq dn by auto
    then show "?m x = m x" by (rule keep2)
  qed
  moreover have "?m (p + 8) = q" unfolding e using f [of p q] f [of p n] f [of h p] pi qi by auto
  moreover have "?m q = p" unfolding e using f [of n q] f [of h q] pi qi by auto
  moreover have "h # (us @ vs) @ [h] = ps @ p # q # qs" using p q by simp
  ultimately show "circ ?m h (us @ vs)"
    unfolding circ_def using l1 l2(5) links_append [of ?m ps p "q # qs"] by simp
qed

section \<open>Words in blocks of the pool\<close>

definition in_payload :: "u64 \<Rightarrow> blk \<Rightarrow> u64 \<Rightarrow> bool" where
  "in_payload p k a \<longleftrightarrow> unat p \<le> unat a \<and> unat a < unat p + unat (bk_size k)"

definition holds :: "(u64 \<rightharpoonup> blk) \<Rightarrow> u64 \<Rightarrow> nat \<Rightarrow> bool" where
  "holds v p n \<longleftrightarrow> (\<exists>k. v p = Some k \<and> n \<le> unat (bk_size k))"

text \<open>What a data structure in the pool relies on: words of an allocated payload are read back as they were
  written, writing them does not touch the view of the allocator, and the payloads of different pointers are apart.\<close>

locale payload_store =
  fixes rep :: "'s \<Rightarrow> (u64 \<rightharpoonup> blk) \<Rightarrow> bool"
    and rd :: "'s \<Rightarrow> u64 \<Rightarrow> u64"
    and wr :: "u64 \<Rightarrow> u64 \<Rightarrow> 's \<Rightarrow> 's"
  assumes rd_wr: "rd (wr a x s) = (rd s)(a := x)"
    and wr_rep: "rep s v \<Longrightarrow> v p = Some k \<Longrightarrow> in_payload p k a \<Longrightarrow> rep (wr a x s) v"
    and blocks_apart: "rep s v \<Longrightarrow> v p = Some j \<Longrightarrow> v q = Some k \<Longrightarrow> p \<noteq> q \<Longrightarrow> in_payload p j a \<Longrightarrow> \<not> in_payload q k a"
    and block_addr: "rep s v \<Longrightarrow> v p = Some k \<Longrightarrow> aligned64 p \<and> p \<noteq> 0 \<and> unat p + unat (bk_size k) < 2 ^ 64"
begin

lemma field_addr:
  assumes "rep s v" "holds v p n" "unat off < n"
  obtains k where "v p = Some k" "in_payload p k (p + off)" "unat (p + off) = unat p + unat off"
proof -
  obtain k where k: "v p = Some k" "n \<le> unat (bk_size k)" using assms(2) by (auto simp: holds_def)
  have "unat (p + off) = unat p + unat off"
    using block_addr [OF assms(1) k(1)] k(2) assms(3) by (intro unat_add_nowrap) linarith
  with k assms(3) show thesis by (intro that [of k]) (auto simp: in_payload_def)
qed

lemma field_write: "rep s v \<Longrightarrow> holds v p n \<Longrightarrow> unat off < n \<Longrightarrow> rep (wr (p + off) x s) v"
  using field_addr wr_rep by metis

lemma field_write0: "rep s v \<Longrightarrow> holds v p n \<Longrightarrow> 0 < n \<Longrightarrow> rep (wr p x s) v"
  using field_write [of s v p n 0 x] by simp

lemma fields_apart:
  assumes "rep s v" "holds v p n" "holds v q m" "p \<noteq> q" "unat off < n" "unat off' < m"
  shows "p + off \<noteq> q + off'"
proof -
  obtain j where "v p = Some j" "in_payload p j (p + off)" by (rule field_addr [OF assms(1,2,5)])
  moreover obtain k where "v q = Some k" "in_payload q k (q + off')" by (rule field_addr [OF assms(1,3,6)])
  ultimately show ?thesis using blocks_apart [OF assms(1)] assms(4) by metis
qed

lemma blocks_row: "rep s v \<Longrightarrow> distinct xs \<Longrightarrow> \<forall>x \<in> set xs. holds v x n \<Longrightarrow> apart xs"
  unfolding apart_def holds_def using block_addr by blast

end

text \<open>The pool implements the interface.\<close>

definition dal_view :: "'a dal_mem_scheme \<Rightarrow> (u64 \<rightharpoonup> blk) \<Rightarrow> bool" where
  "dal_view s v \<longleftrightarrow> pool_view (sm_poolptr (dm_shm s)) (sm_pool (dm_shm s)) v"

definition words :: "'a dal_mem_scheme \<Rightarrow> u64 \<Rightarrow> u64" where "words s = mem (sm_pool (dm_shm s))"

lemma view_block_addr:
  assumes "tlsf_inv c bs" "heap_abs c bs p = Some k"
  shows "aligned64 p \<and> p \<noteq> 0 \<and> unat p + unat (bk_size k) < 2 ^ 64"
proof -
  obtain b where b: "p = ptr_from_block b" "b \<in> set bs" using assms(2) by (rule heap_abs_Some)
  have h: "heap_inv c bs" using assms(1) by (simp add: tlsf_inv_def)
  then have "aligned64 b" using chain_member(1) heap_okD(2) b(2) unfolding heap_inv_def by blast
  moreover have "aligned64 64" by (simp add: aligned64_mod)
  ultimately show ?thesis using block_in_pool(1) [OF h b(2)] view_in_range [OF assms] b(1) by (simp add: ptr_from_block_def HEADER_SIZE_def)
qed

interpretation pw: payload_store dal_view words put_word
proof
  fix s :: "'a dal_mem_scheme" and v p j k q a x
  show "words (put_word a x s) = (words s)(a := x)"
    by (simp add: words_def put_word_def shm_poke_def poke_def)
  assume "dal_view s v"
  then obtain bs where bs: "sm_poolptr (dm_shm s) \<noteq> 0" "tlsf_inv (sm_pool (dm_shm s)) bs" "heap_abs (sm_pool (dm_shm s)) bs = v"
    by (auto simp: dal_view_def pool_view_def)
  show "dal_view (put_word a x s) v" if "v p = Some k" "in_payload p k a"
    using payload_poke_view [OF bs(2), of p k a x] that bs
    by (auto simp: dal_view_def pool_view_def put_word_def shm_poke_def in_payload_def)
  show "\<not> in_payload q k a" if "v p = Some j" "v q = Some k" "p \<noteq> q" "in_payload p j a"
    using payload_ranges [OF bs(2), of p j q k] that bs(3) by (auto simp: in_payload_def)
  show "aligned64 p \<and> p \<noteq> 0 \<and> unat p + unat (bk_size k) < 2 ^ 64" if "v p = Some k"
    by (rule view_block_addr [OF bs(2)]) (simp add: bs(3) that)
qed

section \<open>The list and the sequence of its nodes\<close>

lemma pack_halves:
  "ucast (ucast (a :: u32) OR push_bit 32 (ucast (b :: u32)) :: u64) = a"
  "ucast (drop_bit 32 (ucast a OR push_bit 32 (ucast b) :: u64)) = b"
  by (rule bit_word_eqI, auto simp: bit_simps dest: bit_imp_le_length)+

lemma put_word_words [simp]: "words (put_word a x s) = (words s)(a := x)"
  by (rule pw.rd_wr)

lemma put_mutex_words [simp]: "words (put_mutex h m s) = words s" "dal_view (put_mutex h m s) = dal_view s"
  "dm_shm (put_mutex h m s) = dm_shm s" "dm_mutex (put_mutex h m s) = (dm_mutex s)(h := m)"
  by (simp_all add: put_mutex_def words_def dal_view_def fun_eq_iff)

lemma fields_words:
  "node_prev n s = words s n" "node_succ n s = words s (n + 8)" "head_magic h s = ucast (words s (h + 16))"
  "head_count h s = ucast (drop_bit 32 (words s (h + 16)))"
  by (simp_all add: words_def node_prev_def node_succ_def head_magic_def head_count_def shm_word_def)

lemmas set_fields = set_prev_def set_next_def set_magic_count_def

text \<open>\<open>dal_live\<close>: head and nodes are blocks of the pool. \<open>dal_ok\<close>: the words of the head and the nodes are the
  list of these nodes.\<close>

definition dal_live :: "(u64 \<rightharpoonup> blk) \<Rightarrow> u64 \<Rightarrow> u64 list \<Rightarrow> bool" where
  "dal_live v h ns \<longleftrightarrow> distinct (h # ns) \<and> holds v h 64 \<and> (\<forall>n \<in> set ns. holds v n 24)"

definition dal_ok :: "'a dal_mem_scheme \<Rightarrow> u64 \<Rightarrow> u64 list \<Rightarrow> bool" where
  "dal_ok s h ns \<longleftrightarrow> circ (words s) h ns \<and> head_count h s = of_nat (length ns) \<and> head_magic h s = DAL_LIST_MAGIC"

definition link_words :: "u64 \<Rightarrow> u64 list \<Rightarrow> u64 set" where
  "link_words h ns = insert (h + 16) (\<Union>x \<in> set (h # ns). {x, x + 8})"

lemma holds_mono: "holds v p n \<Longrightarrow> m \<le> n \<Longrightarrow> holds v p m"
  by (auto simp: holds_def)

lemma dal_live_row:
  assumes "dal_view s v" "dal_live v h ns"
  shows "apart (h # ns)" "x \<in> set (h # ns) \<Longrightarrow> holds v x 24"
proof -
  show *: "holds v x 24" if "x \<in> set (h # ns)" for x
    using assms(2) that holds_mono [of v h 64 24] by (auto simp: dal_live_def)
  show "apart (h # ns)" by (rule pw.blocks_row [OF assms(1), of _ 24]) (use assms(2) * in \<open>auto simp: dal_live_def\<close>)
qed

lemma dal_live_write:
  assumes "dal_live v h ns" "dal_view s v" "a \<in> link_words h ns"
  shows "dal_view (put_word a x s) v"
proof -
  consider y where "y \<in> set (h # ns)" "a = y" | y where "y \<in> set (h # ns)" "a = y + 8" | "a = h + 16"
    using assms(3) by (auto simp: link_words_def)
  then show ?thesis
    using pw.field_write [OF assms(2) dal_live_row(2) [OF assms(2,1)]] pw.field_write0 [OF assms(2) dal_live_row(2) [OF assms(2,1)]]
    by cases auto
qed

lemma link_node_ok:
  assumes v: "dal_view s v" and l: "dal_live v h (n # ns)" and ok: "dal_ok s h ns"
  defines "s' \<equiv> link_node h n s"
  shows "dal_view s' v" "dal_ok s' h (n # ns)" "a \<notin> link_words h (n # ns) \<Longrightarrow> words s' a = words s a"
proof -
  let ?m = "words s" and ?y = "words s (h + 8)"
  obtain y r where y: "ns @ [h] = y # r" by (cases "ns @ [h]") auto
  have yh: "?y = y" using ok by (auto simp: dal_ok_def circ_def y)
  have ap: "apart (h # n # ns)" using dal_live_row(1) [OF v l] .
  then have ap': "apart (n # h # ns)" by (auto simp: apart_def)
  have "set (y # r) = insert h (set ns)" using y [symmetric] by auto
  then have yi: "y \<in> set (h # n # ns)" by auto
  note f = apart_fields [OF ap] 
  have hn: "h \<noteq> n" using l by (simp add: dal_live_def)
  define w where "w = (ucast (head_magic h s) OR push_bit 32 (ucast (head_count h s + 1)) :: u64)"
  have e: "words s' = ?m(n := h, n + 8 := ?y, ?y := n, h + 8 := n, h + 16 := w)"
    using f [of h n] f [of h h] f [of h y] yi hn
    by (simp add: s'_def link_node_def Let_def set_fields fields_words w_def yh)
  have st: "s' = put_word (h + 16) w (put_word (h + 8) n (put_word ?y n (put_word (n + 8) ?y (put_word n h s))))"
    using f [of h n] f [of h h] f [of h y] yi hn
    by (simp add: s'_def link_node_def Let_def set_fields fields_words w_def yh)
  have lw: "n \<in> link_words h (n # ns)" "n + 8 \<in> link_words h (n # ns)" "h + 8 \<in> link_words h (n # ns)" "h + 16 \<in> link_words h (n # ns)"
    "?y \<in> link_words h (n # ns)"
    using yi yh by (auto simp: link_words_def)
  show "dal_view s' v" unfolding st by (intro dal_live_write [OF l] v lw)
  show "words s' a = words s a" if "a \<notin> link_words h (n # ns)" using that lw unfolding e by auto
  have "circ (words s') h (n # ns)" unfolding e by (rule circ_insert [OF _ ap']) (use ok in \<open>simp add: dal_ok_def\<close>)
  moreover have "words s' (h + 16) = w" by (simp add: e)
  ultimately show "dal_ok s' h (n # ns)"
    using ok by (simp add: dal_ok_def fields_words w_def pack_halves add.commute del: drop_bit_or)
qed

lemma take_node_ok:
  assumes v: "dal_view s v" and l: "dal_live v h (us @ n # vs)" and ok: "dal_ok s h (us @ n # vs)"
  defines "s' \<equiv> take_node h n s"
  shows "dal_view s' v" "dal_ok s' h (us @ vs)" "a \<notin> link_words h (us @ n # vs) \<Longrightarrow> words s' a = words s a"
    and "node_prev n s \<noteq> 0" "node_succ n s \<noteq> 0" "node_prev n s' = 0" "node_succ n s' = 0"
proof -
  let ?m = "words s" and ?ns = "us @ n # vs"
  have ap: "apart (h # ?ns)" using dal_live_row(1) [OF v l] .
  note cr = circ_remove [OF _ ap, of ?m]
  have c: "circ ?m h ?ns" using ok by (simp add: dal_ok_def)
  define p q where "p = ?m n" and "q = ?m (n + 8)"
  have pi: "p \<in> set (h # us)" using cr(2) [OF c] last_in_set [of "h # us"] by (simp add: p_def)
  have qi: "q \<in> set (h # vs)" using cr(3) [OF c] hd_in_set [of "vs @ [h]"] by (auto simp: q_def)
  have pn: "p \<noteq> n" "q \<noteq> n" "h \<noteq> n" using pi qi l by (auto simp: dal_live_def)
  have nz: "p \<noteq> 0" "q \<noteq> 0" using pi qi ap by (auto simp: apart_def)
  then show "node_prev n s \<noteq> 0" "node_succ n s \<noteq> 0" by (simp_all add: fields_words p_def q_def)
  have pq: "p \<in> set (h # ?ns)" "q \<in> set (h # ?ns)" using pi qi by auto
  note f = apart_fields [OF ap]
  define w where "w = (ucast (head_magic h s) OR push_bit 32 (ucast (head_count h s - 1)) :: u64)"
  have e: "words s' = ?m(?m n + 8 := ?m (n + 8), ?m (n + 8) := ?m n, n := 0, n + 8 := 0, h + 16 := w)"
    and st: "s' = put_word (h + 16) w (put_word (n + 8) 0 (put_word n 0 (put_word q p (put_word (p + 8) q s))))"
    using f [of p n] f [of h p] f [of h q] f [of h n] f [of q n] f [of n n] pq pn
    by (simp_all add: s'_def take_node_def Let_def set_fields fields_words w_def p_def [symmetric] q_def [symmetric])
  show "node_prev n s' = 0" "node_succ n s' = 0" using f [of n n] f [of h n] by (simp_all add: fields_words e)
  have lw: "n \<in> link_words h ?ns" "n + 8 \<in> link_words h ?ns" "p + 8 \<in> link_words h ?ns" "h + 16 \<in> link_words h ?ns" "q \<in> link_words h ?ns"
    using pq by (auto simp: link_words_def)
  show "dal_view s' v" unfolding st by (intro dal_live_write [OF l] v lw)
  show "words s' a = words s a" if "a \<notin> link_words h ?ns" using that lw unfolding e p_def [symmetric] q_def [symmetric] by auto
  have "circ (words s') h (us @ vs)" unfolding e by (rule cr(1) [OF c])
  moreover have "words s' (h + 16) = w" by (simp add: e)
  ultimately show "dal_ok s' h (us @ vs)" using ok by (simp add: dal_ok_def fields_words w_def pack_halves del: drop_bit_or)
qed

section \<open>The mutex of a head\<close>

definition held :: "nat \<Rightarrow> nat \<Rightarrow> pmutex" where
  "held t n = mutex_new\<lparr>mx_holder := Some t, mx_count := n\<rparr>"

lemma dal_lock_free:
  assumes "dm_mutex s h = mutex_new" "h \<noteq> 0" shows "dal_list_lock t h s = Some (0, put_mutex h (held t 1) s)"
  using assms by (simp add: dal_list_lock_def pthread_mutex_lock_def mutex_new_def held_def)

lemma dal_lock_again:
  assumes "dm_mutex s h = held t n" "h \<noteq> 0" shows "dal_list_lock t h s = Some (0, put_mutex h (held t (Suc n)) s)"
  using assms by (simp add: dal_list_lock_def pthread_mutex_lock_def mutex_new_def held_def)

lemma dal_lock_after_death:
  assumes "dm_mutex s h = thread_dies t (held t n)" "h \<noteq> 0" shows "dal_list_lock t' h s = Some (0, put_mutex h (held t' 1) s)"
  using assms by (simp add: dal_list_lock_def pthread_mutex_lock_def pthread_mutex_consistent_def mutex_new_def held_def thread_dies_def)

lemma dal_lock_other:
  assumes "dm_mutex s h = held t n" "t' \<noteq> t" shows "dal_list_lock t' h s = None"
  using assms by (simp add: dal_list_lock_def pthread_mutex_lock_def mutex_new_def held_def)

lemma dal_unlock_last:
  assumes "dm_mutex s h = held t (Suc 0)" shows "dal_list_unlock t h s = (0, put_mutex h mutex_new s)"
  using assms by (simp add: dal_list_unlock_def pthread_mutex_unlock_def mutex_new_def held_def)

lemma dal_unlock_inner:
  assumes "dm_mutex s h = held t (Suc (Suc n))" shows "dal_list_unlock t h s = (0, put_mutex h (held t (Suc n)) s)"
  using assms by (simp add: dal_list_unlock_def pthread_mutex_unlock_def mutex_new_def held_def)

text \<open>A state whose pool is replaced; all the operations change of the segment is the pool.\<close>

definition repool :: "tlsf_ctrl \<Rightarrow> 'a dal_mem_scheme \<Rightarrow> 'a dal_mem_scheme" where
  "repool c s = s\<lparr>dm_shm := (dm_shm s)\<lparr>sm_pool := c\<rparr>\<rparr>"

lemma repool_simps [simp]:
  "repool c (repool d s) = repool c s" "repool c (put_mutex h m s) = put_mutex h m (repool c s)" "dm_mutex (repool c s) = dm_mutex s"
  "sm_pool (dm_shm (repool c s)) = c" "sm_poolptr (dm_shm (repool c s)) = sm_poolptr (dm_shm s)"
  "sm_reqs (dm_shm (repool c s)) = sm_reqs (dm_shm s)" "sm_procs (dm_shm (repool c s)) = sm_procs (dm_shm s)"
  by (simp_all add: repool_def put_mutex_def)

lemma put_mutex_twice [simp]: "put_mutex h m (put_mutex h m' s) = put_mutex h m s"
  by (simp add: put_mutex_def)

lemma put_mutex_same [simp]: "dm_mutex s h = m \<Longrightarrow> put_mutex h m s = s"
  by (auto simp: put_mutex_def)

lemma repool_self: "repool (sm_pool (dm_shm s)) s = s"
  by (simp add: repool_def)

lemma put_word_pool: "put_word a x s = repool (poke a x (sm_pool (dm_shm s))) s"
  by (simp add: put_word_def repool_def shm_poke_def)

lemma link_take_pool:
  "\<exists>c. link_node h n s = repool c s" "\<exists>c. take_node h n s = repool c s"
  by (simp_all add: link_node_def take_node_def Let_def set_fields put_word_pool) blast+

lemma locked_ops:
  "link_node h n (put_mutex h m s) = put_mutex h m (link_node h n s)"
  "take_node h n (put_mutex h m s) = put_mutex h m (take_node h n s)"
  "node_prev x (put_mutex h m s) = node_prev x s" "node_succ x (put_mutex h m s) = node_succ x s"
  by (simp_all add: link_node_def take_node_def Let_def set_fields put_word_def put_mutex_def fields_words words_def shm_poke_def)

section \<open>Insertion, removal and walks\<close>

lemma dal_insert_run:
  assumes v: "dal_view s v" and l: "dal_live v h (n # ns)" and ok: "dal_ok s h ns" and m: "dm_mutex s h = mutex_new"
  obtains c where "dal_list_insert t h n s = Some (0, repool c s)" "dal_view (repool c s) v" "dal_ok (repool c s) h (n # ns)"
    "\<And>a. a \<notin> link_words h (n # ns) \<Longrightarrow> words (repool c s) a = words s a"
proof -
  obtain c where c: "link_node h n s = repool c s" using link_take_pool(1) by blast
  have h: "h \<noteq> 0" using dal_live_row(1) [OF v l] by (simp add: apart_def)
  have "dal_list_insert t h n s = Some (0, repool c s)"
    using m by (simp add: dal_list_insert_def dal_lock_free [OF m h] locked_ops c dal_unlock_last)
  then show thesis using link_node_ok [OF v l ok] unfolding c by (rule that)
qed

text \<open>The removal when the caller has the mutex \<open>d\<close> times already.\<close>

lemma dal_remove_run:
  assumes v: "dal_view s v" and l: "dal_live v h (us @ n # vs)" and ok: "dal_ok s h (us @ n # vs)"
    and m: "dm_mutex s h = (if d = 0 then mutex_new else held t d)"
  obtains c where "dal_list_remove t h n s = Some (0, repool c s)" "dal_view (repool c s) v" "dal_ok (repool c s) h (us @ vs)"
    "\<And>a. a \<notin> link_words h (us @ n # vs) \<Longrightarrow> words (repool c s) a = words s a"
    "node_prev n (repool c s) = 0" "node_succ n (repool c s) = 0"
proof -
  obtain c where c: "take_node h n s = repool c s" using link_take_pool(2) by blast
  have h: "h \<noteq> 0" using dal_live_row(1) [OF v l] by (simp add: apart_def)
  note t = take_node_ok [OF v l ok]
  have lk: "dal_list_lock t h s = Some (0, put_mutex h (held t (Suc d)) s)"
    using m dal_lock_free [OF _ h] dal_lock_again [OF _ h] by (simp split: if_splits)
  have "snd (dal_list_unlock t h (put_mutex h (held t (Suc d)) (repool c s))) = repool c s"
    using m by (cases d) (simp_all add: dal_unlock_last dal_unlock_inner)
  then have "dal_list_remove t h n s = Some (0, repool c s)"
    using t(4,5) by (simp add: dal_list_remove_def lk locked_ops c)
  then show thesis using t(1-3,6,7) unfolding c by (rule that)
qed

lemma dal_walk_skip:
  assumes "links (words s) (us @ n # zs)" "h \<notin> set us"
    "\<And>x s'. x \<in> set us \<Longrightarrow> words s' = words s \<Longrightarrow> body x s' = Some (None, g x s') \<and> words (g x s') = words s"
  shows "dal_walk h body (hd (us @ [n])) (words s (hd (us @ [n]) + 8)) s =
      dal_walk h body n (words s (n + 8)) (fold g us s) \<and> words (fold g us s) = words s"
  using assms
proof (induction us arbitrary: s)
  case (Cons u us)
  let ?y = "hd (us @ [n])"
  have y: "words s (u + 8) = ?y" and l: "links (words s) (us @ n # zs)" using Cons.prems(1) by (cases us; simp)+
  have b: "body u s = Some (None, g u s)" "words (g u s) = words s" using Cons.prems(3) [of u s] by simp_all
  have "dal_walk h body u ?y s = dal_walk h body ?y (words s (?y + 8)) (g u s)"
    using Cons.prems(2) b by (subst dal_walk.simps) (auto simp: fields_words)
  moreover have "dal_walk h body ?y (words (g u s) (?y + 8)) (g u s) = dal_walk h body n (words (g u s) (n + 8)) (fold g us (g u s)) \<and>
      words (fold g us (g u s)) = words (g u s)"
    by (rule Cons.IH) (use l Cons.prems(2,3) b(2) in auto)
  ultimately show ?case using b(2) y by simp
qed simp

lemma dal_foreach_all:
  assumes "circ (words s) h ns" "h \<notin> set ns"
    "\<And>x s'. x \<in> set ns \<Longrightarrow> words s' = words s \<Longrightarrow> body x s' = Some (None, g x s') \<and> words (g x s') = words s"
  shows "dal_list_foreach h body s = Some (None, fold g ns s)"
proof -
  have "links (words s) (ns @ [h])" "words s (h + 8) = hd (ns @ [h])" using assms(1) by (cases ns; simp add: circ_def)+
  with dal_walk_skip [OF _ assms(2,3), where n = h and zs = "[]"] show ?thesis
    by (simp add: dal_list_foreach_def fields_words dal_walk.simps [of h _ h])
qed

lemma dal_foreach_until:
  assumes "circ (words s) h (us @ n # vs)" "h \<notin> set us" "n \<noteq> h"
    "\<And>x s'. x \<in> set us \<Longrightarrow> words s' = words s \<Longrightarrow> body x s' = Some (None, g x s') \<and> words (g x s') = words s"
    "body n (fold g us s) = Some (Some r, s')"
  shows "dal_list_foreach h body s = Some (Some r, s')"
proof -
  have "links (words s) (us @ n # vs @ [h])" "words s (h + 8) = hd (us @ [n])" using assms(1) by (cases us; simp add: circ_def)+
  with dal_walk_skip [OF _ assms(2,4), where n = n and zs = "vs @ [h]"] show ?thesis
    using assms(3,5) by (simp add: dal_list_foreach_def fields_words dal_walk.simps [of h _ n])
qed

lemma dal_init_run:
  assumes "holds v h 64" "dal_view s v" "me_attr e = 0" "me_pshared e = 0" "me_robust e = 0" "me_type e = 0" "me_protocol e = 0" "me_init e = 0"
  obtains c where "dal_list_init e h s = (0, put_mutex h mutex_new (repool c s))" "dal_view (repool c s) v" "dal_ok (repool c s) h []"
proof -
  define s' where "s' = put_word (h + 8) h (put_word h h (put_word (h + 16) (ucast DAL_LIST_MAGIC OR push_bit 32 (ucast (0 :: u32))) s))"
  have l: "dal_live v h []" using assms(1) by (simp add: dal_live_def)
  note f = apart_fields [OF dal_live_row(1) [OF assms(2) l], of h h]
  have "h + 8 \<in> link_words h []" "h \<in> link_words h []" "h + 16 \<in> link_words h []" by (simp_all add: link_words_def)
  then have v: "dal_view s' v" unfolding s'_def by (intro dal_live_write [OF l] assms(2))
  have ok: "dal_ok s' h []" using f by (simp add: s'_def dal_ok_def circ_def fields_words DAL_LIST_MAGIC_def)
  obtain c where c: "s' = repool c s" by (auto simp: s'_def put_word_pool)
  have "dal_list_init e h s = (0, put_mutex h mutex_new s')"
    using assms(3-8) by (simp add: dal_list_init_def s'_def set_fields put_word_def put_mutex_def)
  then show thesis using that [of c] v ok by (simp add: c)
qed

text \<open>A search along the list.\<close>

lemma dal_foreach_find:
  assumes "circ (words s) h ns" "h \<notin> set ns" and P: "\<And>x s'. words s' = words s \<Longrightarrow> P x s' = P x s"
  shows "dal_list_foreach h (\<lambda>x s. Some (if P x s then Some x else None, s)) s = Some (find (\<lambda>x. P x s) ns, s)"
proof -
  have skip: "Some (if P x s' then Some x else None, s') = Some (None, s') \<and> words s' = words s"
    if "\<not> P x s" "words s' = words s" for x s'
    using that(1) unfolding P [OF that(2), symmetric] by (simp add: that(2))
  show ?thesis
  proof (cases "\<exists>x \<in> set ns. P x s")
    case False
    have "dal_list_foreach h (\<lambda>x s. Some (if P x s then Some x else None, s)) s = Some (None, fold (\<lambda>_ s. s) ns s)"
      by (rule dal_foreach_all [OF assms(1,2)], rule skip) (use False in auto)
    moreover have "fold (\<lambda>_ s. s) ns s = s" by (induction ns) auto
    moreover have "find (\<lambda>x. P x s) ns = None" using False by (simp add: find_None_iff)
    ultimately show ?thesis by simp
  next
    case True
    then obtain us n vs where ns: "ns = us @ n # vs" "P n s" "\<forall>x \<in> set us. \<not> P x s"
      using split_list_first_prop [of ns "\<lambda>x. P x s"] by blast
    have f: "fold (\<lambda>_ s. s) us s = s" by (induction us) auto
    have "dal_list_foreach h (\<lambda>x s. Some (if P x s then Some x else None, s)) s = Some (Some n, s)"
    proof (rule dal_foreach_until [where us = us and n = n and vs = vs and g = "\<lambda>_ s. s"])
      show "Some (if P x s' then Some x else None, s') = Some (None, s') \<and> words s' = words s"
        if "x \<in> set us" "words s' = words s" for x s' by (rule skip) (use that ns(3) in auto)
    qed (use assms(1,2) ns(1,2) f in auto)
    moreover have "find (\<lambda>x. P x s) (us @ n # vs) = Some n" using ns(2,3) by (induction us) auto
    ultimately show ?thesis by (simp add: ns(1))
  qed
qed

text \<open>C21: the list of \<^verbatim>\<open>dal_list.h\<close> implements the sequence of its nodes. An insertion of a block that is not on the
  list puts it in front, a removal takes the node out and clears its pointers, a second removal is reported
  and changes nothing, and a walk finds the first node that meets a condition. Each operation returns with the mutex free, the counter exact and
  the allocator's view untouched; a thread that waits for a mutex whose holder died gets it.\<close>

theorem dal_list_refines:
  assumes "dal_view s v" "dal_live v h ns" "dal_ok s h ns" "dm_mutex s h = mutex_new"
  shows "(holds v n 24 \<and> n \<notin> set (h # ns) \<longrightarrow>
      (\<exists>c. dal_list_insert t h n s = Some (0, repool c s) \<and> dal_view (repool c s) v \<and> dal_ok (repool c s) h (n # ns)))
    \<and> (n \<in> set ns \<longrightarrow>
      (\<exists>c. dal_list_remove t h n s = Some (0, repool c s) \<and> dal_view (repool c s) v \<and> dal_ok (repool c s) h (remove1 n ns) \<and>
        dal_list_remove t h n (repool c s) = Some (- 1, repool c s)))
    \<and> dal_list_foreach h (\<lambda>x s. Some (if P x then Some x else None, s)) s = Some (find P ns, s)
    \<and> dal_list_lock t h (put_mutex h (thread_dies t' (held t' d)) s) = Some (0, put_mutex h (held t 1) s)"
proof (intro conjI impI)
  have h: "h \<noteq> 0" "h \<notin> set ns" using dal_live_row(1) [OF assms(1,2)] by (simp_all add: apart_def)
  show "dal_list_lock t h (put_mutex h (thread_dies t' (held t' d)) s) = Some (0, put_mutex h (held t 1) s)"
    by (subst dal_lock_after_death [of _ _ t' d]) (simp_all add: h)
  show "dal_list_foreach h (\<lambda>x s. Some (if P x then Some x else None, s)) s = Some (find P ns, s)"
    by (rule dal_foreach_find) (use assms(3) h in \<open>simp_all add: dal_ok_def\<close>)
  show "\<exists>c. dal_list_insert t h n s = Some (0, repool c s) \<and> dal_view (repool c s) v \<and> dal_ok (repool c s) h (n # ns)"
    if "holds v n 24 \<and> n \<notin> set (h # ns)"
  proof -
    have "dal_live v h (n # ns)" using assms(2) that by (auto simp: dal_live_def)
    from dal_insert_run [OF assms(1) this assms(3,4), of t] show ?thesis by metis
  qed
  assume "n \<in> set ns"
  then obtain us vs where ns: "ns = us @ n # vs" "n \<notin> set us" using split_list_first by metis
  then have r: "remove1 n ns = us @ vs" by (simp add: remove1_append)
  obtain c where c: "dal_list_remove t h n s = Some (0, repool c s)" "dal_view (repool c s) v" "dal_ok (repool c s) h (us @ vs)"
      "node_prev n (repool c s) = 0"
    using dal_remove_run [OF assms(1), of h us n vs 0 t] assms(2-4) ns(1) by metis
  have "dal_list_remove t h n (repool c s) = Some (- 1, repool c s)"
    using c(4) assms(4) h(1) by (simp add: dal_list_remove_def dal_lock_free locked_ops dal_unlock_last)
  with c show "\<exists>c. dal_list_remove t h n s = Some (0, repool c s) \<and> dal_view (repool c s) v \<and> dal_ok (repool c s) h (remove1 n ns) \<and>
        dal_list_remove t h n (repool c s) = Some (- 1, repool c s)" unfolding r by blast
qed

text \<open>A segment in which the process with UID 5 has an empty list in the block of \<open>pool_one\<close>.\<close>

definition mutex_calls_ok :: mutex_env where
  "mutex_calls_ok = \<lparr>me_attr = 0, me_pshared = 0, me_robust = 0, me_type = 0, me_protocol = 0, me_init = 0\<rparr>"

definition bare_mem :: dal_mem where
  "bare_mem = \<lparr>dm_shm = lock_shm, dm_mutex = \<lambda>_. mutex_new\<rparr>"

lemma lock_shm_view:
  obtains v k where "pool_view (sm_poolptr lock_shm) (sm_pool lock_shm) v" "v (fst pool_one) = Some k" "bk_owners k = 5 # replicate 11 0"
    "64 \<le> unat (bk_size k)"
proof -
  obtain bs k where b: "tlsf_inv (snd pool_one) bs" "heap_abs (snd pool_one) bs (fst pool_one) = Some k"
    "bk_owners k = 5 # replicate 11 0" "64 \<le> unat (bk_size k)" by (rule pool_one_view)
  moreover have "pool_view (sm_poolptr lock_shm) (sm_pool lock_shm) (heap_abs (snd pool_one) bs)"
    using b(1) by (auto simp: lock_shm_def some_shm_def pool_view_def)
  ultimately show thesis using that by blast
qed

theorem dal_list_refines_witness:
  "\<exists>v s. snd (dal_list_init mutex_calls_ok (fst pool_one) bare_mem) = s \<and> dal_view s v \<and> dal_live v (fst pool_one) [] \<and>
    dal_list_foreach (fst pool_one) (\<lambda>x s. Some (if x = 7 then Some x else None, s)) s = Some (None, s) \<and>
    dal_list_lock 2 (fst pool_one) (put_mutex (fst pool_one) (thread_dies 1 (held 1 1)) s) = Some (0, put_mutex (fst pool_one) (held 2 1) s)"
proof -
  obtain v k where v: "pool_view (sm_poolptr lock_shm) (sm_pool lock_shm) v" "v (fst pool_one) = Some k" "64 \<le> unat (bk_size k)"
    by (rule lock_shm_view)
  have h: "holds v (fst pool_one) 64" "dal_view bare_mem v" using v by (auto simp: holds_def dal_view_def bare_mem_def)
  obtain c where c: "dal_list_init mutex_calls_ok (fst pool_one) bare_mem = (0, put_mutex (fst pool_one) mutex_new (repool c bare_mem))"
    "dal_view (repool c bare_mem) v" "dal_ok (repool c bare_mem) (fst pool_one) []"
    using dal_init_run [OF h, of mutex_calls_ok] by (auto simp: mutex_calls_ok_def)
  have l: "dal_live v (fst pool_one) []" using h(1) by (simp add: dal_live_def)
  let ?s = "repool c bare_mem"
  have m: "dm_mutex ?s (fst pool_one) = mutex_new" by (simp add: bare_mem_def)
  from dal_list_refines [OF c(2) l c(3) m, where P = "\<lambda>x. x = 7" and t = 2 and t' = 1 and d = 1] c l m show ?thesis by auto
qed

end
