(* ===== verification/Tlsf_Crash.thy ===== *)
theory Tlsf_Crash
  imports Tlsf_Api Tlsf_Props
begin

text \<open>
  Crashes inside operations of the allocator. Linking an owner logs the only word it
  stores, so a crash anywhere in it is undone completely. An allocation stores the free lists, the split
  and the header flag without logging them: a crash just before its commit, the point
  \<^verbatim>\<open>malloc_commit\<close> of the fault injection in \<^verbatim>\<open>libs/tlsf_txn/tlsf_txn.c\<close>, is undone in part only.
\<close>

section \<open>Stores as steps of a transaction\<close>

lemma txn_run_append: "txn_run (s @ t) c = txn_run t (txn_run s c)"
  by (induction s c rule: txn_run.induct) simp_all

lemma poke_raw: "a \<noteq> used_bytes_addr c \<Longrightarrow> poke a v c = txn_run [Raw a v] c"
  by (simp add: poke_def store_word_def)

lemma used_bytes_addr_log [simp]: "used_bytes_addr (log_entry a c) = used_bytes_addr c"
  "used_bytes_addr (poke a v c) = used_bytes_addr c"
  by (simp_all add: used_bytes_addr_def)

lemma push_log: "unat (stack_top c) < 64 \<Longrightarrow> bul_push_word a c = (True, log_entry a c)"
  by (simp add: bul_push_ok word_less_nat_alt log_entry_def)

lemma poke_same: "poke a (mem c a) c = c"
  by (simp add: poke_def)

lemma poke_logged:
  "unat (stack_top c) < 64 \<Longrightarrow> a \<noteq> used_bytes_addr c \<Longrightarrow> poke a v (log_entry a c) = txn_run [Logged a v] c"
  by (simp add: push_log poke_def store_word_def used_bytes_addr_def)

lemma used_logged:
  "unat (stack_top c) < 64 \<Longrightarrow>
   (log_entry (used_bytes_addr c) c)\<lparr>used_bytes := v\<rparr> = txn_run [Logged (used_bytes_addr c) v] c"
  by (simp add: push_log store_word_def used_bytes_addr_def)

text \<open>A run and its undoing leave the free lists and the geometry alone.\<close>

lemma store_word_same: "same_lists c (store_word a v c)" "same_geom c (store_word a v c)"
  by (simp_all add: same_lists_def same_geom_def)

lemma bul_undo_same: "same_lists c (snd (bul_undo n c)) \<and> same_geom c (snd (bul_undo n c))"
  by (induction n arbitrary: c) (simp_all add: same_lists_def same_geom_def)

lemma store_word_counter: "mem (store_word a v c) (used_bytes_addr c) = mem c (used_bytes_addr c)"
  by (simp add: store_word_def)

lemma bul_undo_counter: "mem (snd (bul_undo n c)) (used_bytes_addr c) = mem c (used_bytes_addr c)"
proof (induction n arbitrary: c)
  case (Suc n)
  then show ?case
    using Suc.IH [of "store_word (bul_addr (bul c n)) (bul_old_value (bul c n)) c"] by (simp add: store_word_counter)
qed simp

lemma bul_recover_counter:
  "mem (snd (bul_recover_internal c)) (used_bytes_addr c) = mem c (used_bytes_addr c)"
  using bul_undo_counter [of "unat (stack_top c)" c]
  by (auto simp: bul_recover_internal_def Let_def split: prod.splits)

lemma bul_recover_same: "same_lists c (snd (bul_recover_internal c))" "same_geom c (snd (bul_recover_internal c))"
  using bul_undo_same [of c "unat (stack_top c)"]
  by (auto simp: bul_recover_internal_def Let_def same_lists_def same_geom_def split: prod.splits)

lemma txn_run_same:
  "unat (stack_top c) + length (logged s) \<le> 64 \<Longrightarrow> same_lists c (txn_run s c) \<and> same_geom c (txn_run s c) \<and>
   unat (stack_top (txn_run s c)) = unat (stack_top c) + length (logged s)"
proof (induction s c rule: txn_run.induct)
  case (2 a v s c)
  then have "unat (stack_top c) < 64" by simp
  with 2 show ?case by (simp add: push_log same_lists_def same_geom_def)
qed (simp_all add: same_lists_def same_geom_def)

lemma txn_run_counter:
  "unat (stack_top c) + length (logged s) \<le> 64 \<Longrightarrow> mem (txn_run s c) (used_bytes_addr c) = mem c (used_bytes_addr c)"
proof (induction s c rule: txn_run.induct)
  case (2 a v s c)
  then have t: "unat (stack_top c) < 64" by simp
  then show ?case using 2 store_word_counter [of a v "log_entry a c"] by (simp add: push_log)
next
  case (3 a v s c)
  then show ?case by (simp add: store_word_counter)
qed simp

lemma used_bytes_addr_run [simp]:
  "unat (stack_top c) + length (logged s) \<le> 64 \<Longrightarrow> used_bytes_addr (txn_run s c) = used_bytes_addr c"
  using txn_run_same [of c s] by (simp add: used_bytes_addr_def same_geom_def)

text \<open>The word an address holds after undoing, when the log has room: \<open>undo_word\<close> reads it off the steps.\<close>

fun undo_word :: "txn_step list \<Rightarrow> u64 \<Rightarrow> u64 \<Rightarrow> u64" where
  "undo_word [] x v = v"
| "undo_word (Logged a u # s) x v = (if x = a then v else undo_word s x v)"
| "undo_word (Raw a u # s) x v = undo_word s x (if x = a then u else v)"

lemma undo_val_word:
  "unat (stack_top c) + length (logged s) \<le> 64 \<Longrightarrow> undo_val s c x = undo_word s x (load_word x c)"
proof (induction s arbitrary: c rule: logged.induct)
  case (2 a v s)
  then have t: "unat (stack_top c) < 64" by simp
  have "undo_val s (store_word a v (log_entry a c)) x = undo_word s x (load_word x (store_word a v (log_entry a c)))"
    using 2 t by (intro "2.IH") simp
  moreover have "load_word x (log_entry a c) = load_word x c" by (simp add: log_entry_def)
  ultimately show ?case using t by (simp add: push_log)
qed simp_all

lemma recover_run:
  assumes "stack_top c = 0" "length (logged s) < 64" "\<forall>a \<in> set (logged s). validate_pointer a c"
  obtains d where "bul_recover_internal (txn_run s c) = (True, d)" "stack_top d = 0" "same_lists c d" "same_geom c d"
    "\<And>x. load_word x d = undo_word s x (load_word x c)" "mem d (used_bytes_addr c) = mem c (used_bytes_addr c)"
proof -
  have t: "unat (stack_top c) + length (logged s) \<le> 64" using assms by simp
  obtain d where d: "bul_recover_internal (txn_run s c) = (True, d)" "stack_top d = 0"
    "\<forall>x. load_word x d = undo_val s c x"
    using bul_recover_run [OF assms] by blast
  have "same_lists (txn_run s c) d" "same_geom (txn_run s c) d"
    using bul_recover_same [of "txn_run s c"] d(1) by simp_all
  then have "same_lists c d" "same_geom c d" using txn_run_same [OF t] by (simp_all add: same_lists_def same_geom_def)
  moreover have "load_word x d = undo_word s x (load_word x c)" for x using d(3) undo_val_word [OF t, of x] by metis
  moreover have "mem d (used_bytes_addr c) = mem c (used_bytes_addr c)"
    using bul_recover_counter [of "txn_run s c"] txn_run_counter [OF t] t d(1) by simp
  ultimately show thesis using that d(1,2) by blast
qed

text \<open>Addresses of the heap are neither the counter nor outside the pool.\<close>

lemma heap_addr:
  assumes h: "heap_ok c bs F E" and b: "b \<in> set bs" and y: "unat y < 64"
  shows "b + y \<noteq> used_bytes_addr c" "validate_pointer (b + y) c" "validate_pointer (used_bytes_addr c) c"
proof -
  note mb = chain_member [OF heap_okD(2) [OF h] b] and g = heap_okD(1) [OF h] and e = geom_end [OF heap_okD(1) [OF h]]
  have u: "unat (b + y) = unat b + unat y"
    using unat_add_nowrap [of b y] mb(3,6) y unat_lt_64 [of "get_heap_end c"] by simp
  have a: "unat (used_bytes_addr c) = unat (pool_start c) + unat USED_BYTES_OFFSET"
    unfolding used_bytes_addr_def using g
    by (intro unat_add_nowrap) (simp add: geom_def USED_BYTES_OFFSET_def)
  have off: "unat USED_BYTES_OFFSET < 6720" by (simp add: USED_BYTES_OFFSET_def)
  show "b + y \<noteq> used_bytes_addr c" using u a off mb(5) g by (auto simp: geom_def)
  show "validate_pointer (b + y) c" "validate_pointer (used_bytes_addr c) c"
    using u a off y mb(3,5,6) g e
    by (simp_all add: validate_pointer_def word_le_nat_alt word_less_nat_alt geom_def pool_end_def [symmetric])
qed

section \<open>A crash before the commit of an allocation\<close>

lemma chain_unique: "chain m a e bs \<Longrightarrow> chain m a e bs' \<Longrightarrow> bs = bs'"
proof (induction bs arbitrary: a bs')
  case Nil
  then show ?case by (cases bs') auto
next
  case (Cons b bs)
  then show ?case by (cases bs') auto
qed

text \<open>The logged part of an allocation as a run of steps.\<close>

lemma set_owner_run:
  assumes a: "aligned64 b" "\<And>y. unat y < 64 \<Longrightarrow> b + y \<noteq> used_bytes_addr c" and t: "unat (stack_top c) + 3 \<le> 64"
  obtains w v where "malloc_set_owner b uid dt c = (ptr_from_block b, txn_run
    [Logged (b + 8) (make_sig_dc False dt), Raw (b + 32) 0, Raw (b + 40) 0, Raw (b + 48) 0,
     Logged (b + 32) w, Logged (used_bytes_addr c) v] c)"
proof -
  have ne: "b + 8 \<noteq> used_bytes_addr c" "b + 32 \<noteq> used_bytes_addr c" "b + 40 \<noteq> used_bytes_addr c" "b + 48 \<noteq> used_bytes_addr c"
    by (rule a(2); simp)+
  define c1 where "c1 = txn_run [Logged (b + 8) (make_sig_dc False dt), Raw (b + 32) 0, Raw (b + 40) 0, Raw (b + 48) 0] c"
  have t1: "unat (stack_top c1) = Suc (unat (stack_top c))" "used_bytes_addr c1 = used_bytes_addr c"
    using txn_run_same [of c "[Logged (b + 8) (make_sig_dc False dt), Raw (b + 32) 0, Raw (b + 40) 0, Raw (b + 48) 0]"] t
    by (simp_all add: c1_def used_bytes_addr_def same_geom_def del: txn_run.simps)
  have e1: "uid_clear_all b (poke (b + 8) (make_sig_dc False dt) (log_entry (b + 8) c)) = c1"
    using t ne by (simp add: uid_clear_all_def c1_def poke_def store_word_def push_log used_bytes_addr_def)
  define w where "w = (mem c1 (b + 32) AND NOT (push_bit 0 0xFFFF)) OR push_bit 0 (ucast uid)"
  define c2 where "c2 = txn_run [Logged (b + 32) w] c1"
  have e2: "uid_put b 0 uid (log_entry (uid_word_addr b 0) c1) = c2"
    using t t1 ne poke_logged [of c1 "b + 32" w] by (simp add: uid_put_def uid_word_addr_def c2_def w_def)
  have t2: "unat (stack_top c2) = Suc (Suc (unat (stack_top c)))" "used_bytes_addr c2 = used_bytes_addr c"
    using txn_run_same [of c1 "[Logged (b + 32) w]"] t t1
    by (simp_all add: c2_def used_bytes_addr_def same_geom_def del: txn_run.simps)
  define v where "v = used_bytes c2 + block_payload_size c2 b"
  have "malloc_set_owner b uid dt c = (ptr_from_block b, txn_run [Logged (used_bytes_addr c) v] c2)"
    using t t1 t2 e1 e2 used_logged [of c2 v]
    by (simp add: malloc_set_owner_def pushing_ok Let_def v_def)
  then show thesis using that [of w v] by (simp add: c2_def c1_def)
qed

lemma mark_next_run:
  assumes h: "heap_ok c bs F E" and b: "b \<in> set bs" and t: "unat (stack_top c) + 2 \<le> 64"
  obtains s where "malloc_mark_next b ds c = (True, txn_run s c)" "length (logged s) \<le> 2"
    "\<And>r x v. undo_word (s @ r) x v = (if x \<in> set (logged s) then v else undo_word r x v)"
    "\<forall>a \<in> set (logged s). validate_pointer a c"
    "\<And>y. y \<in> {32, 40, 48} \<Longrightarrow> b + y \<notin> set (logged s)"
proof -
  let ?n = "b + sz_of (mem c b)"
  have n: "block_next c b = ?n" by (simp add: block_next_def block_word)
  show thesis
  proof (cases "?n < get_heap_end c")
    case False
    then show thesis by (intro that [of "[]"]) (simp_all add: malloc_mark_next_def n Let_def)
  next
    case True
    then have m: "?n \<in> set bs" using chain_end_iff(1) [OF h b] by simp
    have al: "aligned64 b" "aligned64 ?n" using chain_member(1) [OF heap_okD(2) [OF h]] b m by blast+
    have off: "b + y \<noteq> ?n" "b + y \<noteq> ?n + 56" if "y \<in> {32, 40, 48}" for y
      using that aligned_offset_eq [OF al, of y 0] aligned_offset_eq [OF al, of y 56] by auto
    note ne = heap_addr(1) [OF h m, of 0] heap_addr(1) [OF h m, of 56]
      and vp = heap_addr(2) [OF h m, of 0] heap_addr(2) [OF h m, of 56]
    define f where "f = mem c ?n OR BLOCK_PREV_FREE"
    define c1 where "c1 = txn_run [Logged ?n f] c"
    have t1: "unat (stack_top c1) = Suc (unat (stack_top c))" "used_bytes_addr c1 = used_bytes_addr c"
      using txn_run_same [of c "[Logged ?n f]"] t by (simp_all add: c1_def used_bytes_addr_def same_geom_def del: txn_run.simps)
    have e1: "poke ?n (size_flags (log_entry ?n c) ?n OR BLOCK_PREV_FREE) (log_entry ?n c) = c1"
      using t ne poke_logged [of c ?n f] by (simp add: c1_def f_def)
    define g where "g = block_size (log_entry (?n + 56) c1) b"
    show thesis
    proof (cases ds)
      case True
      have "malloc_mark_next b ds c = (True, txn_run [Logged (?n + 56) g] c1)"
        using \<open>?n < get_heap_end c\<close> True t t1 e1 ne poke_logged [of c1 "?n + 56" g]
        by (simp add: malloc_mark_next_def n Let_def push_prev_info_def pushing_ok g_def)
      then show thesis using vp off by (intro that [of "[Logged ?n f, Logged (?n + 56) g]"]) (auto simp: c1_def)
    next
      case False
      have "malloc_mark_next b ds c = (True, txn_run [Logged ?n (mem c ?n AND NOT BLOCK_PREV_FREE)] c)"
        using \<open>?n < get_heap_end c\<close> False t ne poke_logged [of c ?n "mem c ?n AND NOT BLOCK_PREV_FREE"]
        by (simp add: malloc_mark_next_def n Let_def pushing_ok)
      then show thesis using vp off by (intro that [of "[Logged ?n (mem c ?n AND NOT BLOCK_PREV_FREE)]"]) auto
    qed
  qed
qed

text \<open>\<^verbatim>\<open>tlsf_malloc\<close> up to the injection point in front of \<^verbatim>\<open>bul_commit\<close>; \<open>None\<close> when the call does not get there:
  an argument is refused, the lock is refused or no block is found.\<close>

definition malloc_to_commit :: "caller \<Rightarrow> u64 \<Rightarrow> u64 \<Rightarrow> u16 \<Rightarrow> u16 \<Rightarrow> tlsf_ctrl \<Rightarrow> (u64 \<times> tlsf_ctrl) option" where
  "malloc_to_commit w tlsf sz uid data_type c =
     (if tlsf = 0 \<or> uid = 0 \<or> sz = 0 then None
      else case lock_and_recover w c of
        Some (rc, c1) \<Rightarrow>
          if rc \<noteq> TLSF_OK then None
          else case tlsf_malloc_internal sz uid data_type c1 of (p, c2) \<Rightarrow> if p \<noteq> 0 then Some (p, c2) else None
      | None \<Rightarrow> None)"

lemma malloc_from_commit_point:
  assumes "malloc_to_commit w tlsf sz uid dt c = Some (p, c1)"
  shows "tlsf_malloc w tlsf sz uid dt c = Some (p, mutex_unlock w (bul_commit c1))"
  using assms
  by (auto simp: malloc_to_commit_def tlsf_malloc_def with_lock_def commit_if_def split: if_splits option.splits prod.splits)

text \<open>What recovery makes of an allocation: the unlogged part \<open>c3\<close> with the owners cleared.\<close>

lemma malloc_recovered:
  assumes inv: "heap_inv c bs" and sz: "sz \<noteq> 0" and top: "stack_top c = 0" and fnd: "found_block sz c \<noteq> 0"
    and fit: "unat (request_to_block_size sz) \<le> unat (block_size c (found_block sz c))"
  defines "b \<equiv> found_block sz c"
  obtains c' d bs' c3 where "tlsf_malloc_internal sz uid dt c = (ptr_from_block b, c')" "same_txn c c'"
    "bul_recover_internal c' = (True, d)" "stack_top d = 0" "taken c bs b (request_to_block_size sz) c3 bs'"
    "same_lists c3 d" "same_geom c d" "same_geom c3 d" "used_bytes d = used_bytes c"
    "mem d = (mem c3)(b + 32 := 0, b + 40 := 0, b + 48 := 0)"
proof -
  define tot where "tot = request_to_block_size sz"
  note bF = found_block_free [OF inv fnd, folded b_def]
  have h: "heap_ok c bs (free_blocks c bs) {}" and bin: "b \<in> set bs"
    using inv bF by (auto simp: heap_inv_def free_blocks_member)
  have fit': "unat tot \<le> unat (sz_of (mem c b))" using fit by (simp add: block_word b_def tot_def)
  note t = request_aligned [of sz, folded tot_def]
  define c3 where "c3 = take_block b tot c"
  from take_block_ok [OF inv bF t fit', folded c3_def] obtain bs' where
    tk: "taken c bs b tot c3 bs'" and sc: "same_ctl c c3" by blast
  have h3: "heap_ok c3 bs' (free_blocks c3 bs') {}" and b3: "b \<in> set bs'" using tk by (auto simp: taken_def)
  have top3: "stack_top c3 = 0" "used_bytes c3 = used_bytes c" using sc top by (simp_all add: same_ctl_def)
  define ds where "ds = (MIN_BLOCK_SZ \<le> block_size (remove_block b c) b - tot)"
  obtain s where s: "malloc_mark_next b ds c3 = (True, txn_run s c3)" "length (logged s) \<le> 2"
    "\<And>r x v. undo_word (s @ r) x v = (if x \<in> set (logged s) then v else undo_word r x v)"
    "\<forall>a \<in> set (logged s). validate_pointer a c3" "\<And>y. y \<in> {32, 40, 48} \<Longrightarrow> b + y \<notin> set (logged s)"
    using mark_next_run [OF h3 b3, of ds] top3 by auto
  note ad = heap_addr [OF h3 b3]
  have run: "same_geom c3 (txn_run s c3)" "unat (stack_top (txn_run s c3)) + 3 \<le> 64"
    "used_bytes_addr (txn_run s c3) = used_bytes_addr c3"
    using txn_run_same [of c3 s] s(2) top3 by simp_all
  define r where "r w v = [Logged (b + 8) (make_sig_dc False dt), Raw (b + 32) 0, Raw (b + 40) 0, Raw (b + 48) 0,
     Logged (b + 32) w, Logged (used_bytes_addr c3) v]" for w v
  obtain w v where o: "malloc_set_owner b uid dt (txn_run s c3) = (ptr_from_block b, txn_run (r w v) (txn_run s c3))"
    using set_owner_run [OF chain_member(1) [OF heap_okD(2) [OF h3] b3] _ run(2), of uid dt] ad(1)
    unfolding r_def run(3) by metis
  define c' where "c' = txn_run (s @ r w v) c3"
  have lg: "logged (s @ r w v) = logged s @ [b + 8, b + 32, used_bytes_addr c3]"
    by (induction s rule: logged.induct) (simp_all add: r_def)
  obtain d where d: "bul_recover_internal c' = (True, d)" "stack_top d = 0" "same_lists c3 d" "same_geom c3 d"
    "\<And>x. load_word x d = undo_word (s @ r w v) x (load_word x c3)" "mem d (used_bytes_addr c3) = mem c3 (used_bytes_addr c3)"
    unfolding c'_def by (rule recover_run [OF top3(1), of "s @ r w v"]) (use s(2,4) ad(2) ad(3) [of 0] in \<open>auto simp: lg\<close>)
  have uw: "undo_word (s @ r w v) x u = (if x \<in> {b + 32, b + 40, b + 48} then 0 else u)" for x u
    using s(5) unfolding s(3) r_def by auto
  have ua: "used_bytes_addr d = used_bytes_addr c3" using d(4) by (simp add: used_bytes_addr_def same_geom_def)
  have ld: "load_word x d = (if x \<in> {b + 32, b + 40, b + 48} then 0 else load_word x c3)" for x
    using d(5) uw by simp
  have ne: "b + y \<noteq> used_bytes_addr c3" if "y \<in> {32, 40, 48}" for y by (rule ad(1)) (use that in auto)
  have ub: "used_bytes d = used_bytes c"
    using ld [of "used_bytes_addr c3"] ne [of 32] ne [of 40] ne [of 48] top3(2) by (auto simp: load_word_def ua)
  have md: "mem d = (mem c3)(b + 32 := 0, b + 40 := 0, b + 48 := 0)"
  proof
    fix x
    show "mem d x = ((mem c3)(b + 32 := 0, b + 40 := 0, b + 48 := 0)) x"
      using ld [of x] d(6) ne [of 32] ne [of 40] ne [of 48] by (cases "x = used_bytes_addr c3") (auto simp: load_word_def ua split: if_splits)
  qed
  have sig: "validate_block_signature c b"
    using chain_member(4) [OF heap_okD(2) [OF h] bin] by (simp add: validate_block_signature_def sig_word)
  have eq: "tlsf_malloc_internal sz uid dt c = (ptr_from_block b, c')"
  proof -
    obtain fl sl where ms: "mapping_search tot = (fl, sl)" by force
    then have fb: "find_suitable_block fl sl c = b" by (simp add: b_def found_block_def tot_def)
    have tb: "mark_block_allocated b (if ds then split_block b tot (remove_block b c) else remove_block b c) = c3"
      by (simp add: c3_def take_block_def Let_def ds_def)
    have nz: "b \<noteq> 0" using fnd by (simp add: b_def)
    show ?thesis
      using sz nz sig s(1) o tb
      by (cases ds) (simp_all add: tlsf_malloc_internal_def Let_def ms fb c'_def txn_run_append flip: tot_def ds_def)
  qed
  have "same_geom c c3" using sc by (simp add: same_ctl_geom)
  then have "same_geom c d" using d(4) by (simp add: same_geom_def)
  moreover have "same_txn c c'"
    using same_ctl_txn [OF sc] txn_run_same [of c3 "s @ r w v"] s(2) top3(1)
    by (simp add: same_txn_def same_geom_def c'_def lg)
  ultimately show thesis using that eq d(1-4) tk ub md unfolding tot_def by blast
qed

text \<open>C14: an allocation that dies just before its commit is not rolled back. The next locker finds the log
  intact and succeeds, the byte counter and the owners are those of a block nobody has, but the block has left
  the free lists and is no longer marked free: no search finds it, no owner number
  releases it, and no row of blocks satisfies the invariant of the heap any more.\<close>

theorem malloc_crash_leaks_block:
  assumes "tlsf_inv c bs" "sz \<noteq> 0" "found_block sz c \<noteq> 0"
    "request_to_block_size sz \<le> block_size c (found_block sz c)" "tlsf \<noteq> 0" "uid \<noteq> 0"
  shows "\<exists>c1 d. malloc_to_commit w tlsf sz uid dt c = Some (ptr_from_block (found_block sz c), c1) \<and>
    tlsf_malloc w tlsf sz uid dt c = Some (ptr_from_block (found_block sz c), mutex_unlock w (bul_commit c1)) \<and>
    lock_and_recover w' (crash (caller_tid w) c1) = Some (TLSF_OK, d) \<and> stack_top d = 0 \<and>
    used_bytes d = used_bytes c \<and> block_is_free c (found_block sz c) \<and> \<not> block_is_free d (found_block sz c) \<and>
    uid_list d (found_block sz c) = replicate 12 0 \<and> (\<forall>fl sl. find_suitable_block fl sl d \<noteq> found_block sz c) \<and>
    (\<forall>bs'. \<not> heap_inv d bs')"
proof -
  let ?l = "locked w c" and ?b = "found_block sz c"
  have id: "idle c" and hl: "heap_inv ?l bs" using assms(1) by (simp_all add: tlsf_inv_def)
  have fb: "found_block sz ?l = ?b" by (rule found_block_cong) simp
  have t0: "stack_top ?l = 0" using id by (simp add: idle_def)
  have fit: "unat (request_to_block_size sz) \<le> unat (block_size ?l (found_block sz ?l))"
    using assms(4) by (simp add: fb block_word word_le_nat_alt)
  obtain c1 e bs' c3 where r: "tlsf_malloc_internal sz uid dt ?l = (ptr_from_block ?b, c1)" "same_txn ?l c1"
    "bul_recover_internal c1 = (True, e)" "stack_top e = 0" "taken ?l bs ?b (request_to_block_size sz) c3 bs'"
    "same_lists c3 e" "same_geom ?l e" "same_geom c3 e" "used_bytes e = used_bytes ?l"
    "mem e = (mem c3)(?b + 32 := 0, ?b + 40 := 0, ?b + 48 := 0)"
    using malloc_recovered [OF hl assms(2) t0 _ fit, of uid dt] assms(3) unfolding fb by metis
  have h3: "heap_ok c3 bs' (free_blocks c3 bs') {}" "?b \<in> set bs'" "\<not> fr_of (mem c3 ?b)"
    "128 \<le> unat (sz_of (mem c3 ?b))" "used_sum (mem c3) bs' = used_bytes c + (sz_of (mem c3 ?b) - 64)"
    using r(5) hl request_aligned(2) [of sz] by (auto simp: taken_def heap_inv_def)
  have ab: "aligned64 ?b" "sig_of (mem c3 (?b + 8))" using chain_member(1,4) [OF heap_okD(2) [OF h3(1)] h3(2)] .
  have nF: "?b \<notin> free_blocks c3 bs'" using h3(3) by (simp add: free_blocks_member)
  have te: "touches c3 e {?b}" using ab by (auto simp: touches_def r(10) aligned_offset_eq)
  have he: "heap_ok e bs' (free_blocks c3 bs') {}"
    by (rule heap_ok_line [OF h3(1,2) nF te r(8,6)]) (use ab in \<open>simp_all add: r(10) srpc_addr\<close>)
  define d where "d = e\<lparr>mutex := (mutex c1)\<lparr>mx_holder := Some (caller_tid w'), mx_count := 1, mx_died := False,
        mx_incons := False\<rparr>, owner_pid := caller_pid w', tlsf_errno := TLSF_OK\<rparr>"
  have de: "mem d = mem e" "same_geom e d" "same_lists e d" "used_bytes d = used_bytes c" "stack_top d = 0"
    using r(4,9) by (simp_all add: d_def same_geom_def same_lists_def)
  have hd: "heap_ok d bs' (free_blocks c3 bs') {}" using he heap_ok_ctl [OF de(1-3)] by simp
  have lk: "lock_and_recover w' (crash (caller_tid w) c1) = Some (TLSF_OK, d)"
    unfolding d_def by (rule lock_and_recover_crash)
      (use r(2,3) id in \<open>simp_all add: same_txn_def idle_def locked_def\<close>)
  have "?b \<in> set bs" using found_block_free [OF hl, of sz] assms(3) fb by (simp add: free_blocks_member)
  then have bp: "ptr_from_block ?b \<noteq> 0" using block_in_pool(1) [OF hl] by simp
  have mc: "malloc_to_commit w tlsf sz uid dt c = Some (ptr_from_block ?b, c1)"
    using assms(2,5,6) bp by (simp add: malloc_to_commit_def lock_idle [OF id] r(1))
  note mm = malloc_from_commit_point [OF mc]
  have md: "sz_of (mem d x) = sz_of (mem c3 x)" "fr_of (mem d x) = fr_of (mem c3 x)" if "x \<in> set bs'" for x
    using touchesD(1) [OF te chain_member(1) [OF heap_okD(2) [OF h3(1)] that]] ab
    by (cases "x = ?b"; simp add: de(1) r(10) srpc_addr)+
  have ul: "uid_list d ?b = replicate 12 0"
  proof -
    have "uid_list d ?b = uid_list (uid_clear_all ?b c3) ?b"
      by (rule uid_list_cong) (simp_all add: de(1) r(10) uid_clear_all_def)
    then show ?thesis by (simp add: uid_list_cleared)
  qed
  have fs: "find_suitable_block fl sl d \<noteq> ?b" for fl sl
    using find_ok [OF heap_okD(3) [OF hd], of fl sl] nF assms(3) by auto
  have no: "\<not> heap_inv d xs" for xs
  proof
    assume i: "heap_inv d xs"
    then have "xs = bs'" using chain_unique heap_okD(2) [OF hd] heap_okD(2) by (metis heap_inv_def)
    then have "used_bytes c = used_sum (mem d) bs'" using i de(4) by (simp add: heap_inv_def)
    also have "\<dots> = used_sum (mem c3) bs'" by (rule used_sum_cong) (simp add: md)
    finally have "sz_of (mem c3 ?b) - 64 = 0" using h3(5) by simp
    then show False using h3(4) by simp
  qed
  have "block_is_free c ?b" using found_block_free [of c bs sz] assms(1,3) by (simp add: tlsf_inv_def free_blocks_member block_word)
  moreover have "\<not> block_is_free d ?b" using md(2) [OF h3(2)] h3(3) by (simp add: block_word)
  ultimately show ?thesis using mm mc lk de(4,5) ul fs no by blast
qed

theorem malloc_crash_leaks_block_witness:
  "\<exists>c1 d. malloc_to_commit me 4096 64 5 3 (new_pool 8192) = Some (ptr_from_block (found_block 64 (new_pool 8192)), c1) \<and>
    tlsf_malloc me 4096 64 5 3 (new_pool 8192) =
      Some (ptr_from_block (found_block 64 (new_pool 8192)), mutex_unlock me (bul_commit c1)) \<and>
    lock_and_recover (me\<lparr>caller_tid := 8\<rparr>) (crash (caller_tid me) c1) = Some (TLSF_OK, d) \<and> stack_top d = 0 \<and>
    used_bytes d = used_bytes (new_pool 8192) \<and> block_is_free (new_pool 8192) (found_block 64 (new_pool 8192)) \<and>
    \<not> block_is_free d (found_block 64 (new_pool 8192)) \<and>
    uid_list d (found_block 64 (new_pool 8192)) = replicate 12 0 \<and>
    (\<forall>fl sl. find_suitable_block fl sl d \<noteq> found_block 64 (new_pool 8192)) \<and> (\<forall>bs'. \<not> heap_inv d bs')"
  by (rule malloc_crash_leaks_block [OF new_pool_inv(1) [OF pool_args_concrete(2)]])
     (simp_all add: found_concrete requests_concrete new_pool_inv [OF pool_args_concrete(2)])

section \<open>A crash while an owner is linked\<close>

text \<open>The states \<^verbatim>\<open>tlsf_link\<close> goes through between the lock and the commit: locked, the word logged, the word
  stored; fewer when the call leaves before.\<close>

definition link_trace :: "caller \<Rightarrow> u64 \<Rightarrow> u64 \<Rightarrow> u16 \<Rightarrow> tlsf_ctrl \<Rightarrow> tlsf_ctrl list" where
  "link_trace w tlsf ptr uid c =
     (if tlsf = 0 \<or> ptr = 0 \<or> uid = 0 then []
      else case lock_and_recover w c of
        Some (rc, c1) \<Rightarrow>
          if rc \<noteq> TLSF_OK then []
          else (case user_block ptr c1 of
            Inl e \<Rightarrow> [c1]
          | Inr b \<Rightarrow>
              if uid_find c1 b uid \<ge> 0 then [c1]
              else
                let slot = uid_find_empty c1 b in
                if slot < 0 then [c1]
                else case bul_push_uid_word b (nat slot) c1 of (ok, c2) \<Rightarrow>
                  if \<not> ok then [c1, c2] else [c1, c2, uid_put b (nat slot) uid c2])
      | None \<Rightarrow> [])"

lemma recovered_same:
  assumes id: "idle c" and t: "same_txn (locked w c) x"
    and e: "bul_recover_internal x = (True, e)" "stack_top e = 0" "mem e = mem c" "used_bytes e = used_bytes c"
      "same_geom c e" "same_lists c e" and inv: "heap_inv c bs"
  shows "\<exists>d. lock_and_recover w' (crash (caller_tid w) x) = Some (TLSF_OK, d) \<and> tlsf_inv (mutex_unlock w' d) bs \<and>
    heap_abs d bs = heap_abs c bs \<and> mem d = mem c"
proof -
  define d where "d = e\<lparr>mutex := (mutex x)\<lparr>mx_holder := Some (caller_tid w'), mx_count := 1, mx_died := False,
        mx_incons := False\<rparr>, owner_pid := caller_pid w', tlsf_errno := TLSF_OK\<rparr>"
  have de: "mem d = mem c" "same_geom c d" "same_lists c d" "used_bytes d = used_bytes c" "stack_top d = 0"
    using e by (simp_all add: d_def same_geom_def same_lists_def)
  have "format_version e = format_version x" using bul_recover_keeps(2) [of x] e(1) by simp
  then have "idle (mutex_unlock w' d)"
    using id t de(5) by (simp add: d_def idle_def same_txn_def locked_def mutex_unlock_def pthread_mutex_unlock_def)
  moreover have "lock_and_recover w' (crash (caller_tid w) x) = Some (TLSF_OK, d)"
    unfolding d_def by (rule lock_and_recover_crash) (use t id e(1) in \<open>simp_all add: same_txn_def idle_def locked_def\<close>)
  ultimately show ?thesis using heap_inv_ctl [OF de(1-4)] inv de(1) by (simp add: tlsf_inv_def)
qed

text \<open>A run in which every store is logged is undone by whoever locks next.\<close>

lemma undo_word_logged: "(\<And>st. st \<in> set s \<Longrightarrow> \<exists>a v. st = Logged a v) \<Longrightarrow> undo_word s x v = v"
proof (induction s arbitrary: v)
  case (Cons st s)
  then obtain a u where "st = Logged a u" by (metis list.set_intros(1))
  with Cons show ?case by simp
qed simp

lemma logged_run_undone:
  assumes inv: "tlsf_inv c bs" and l: "\<And>st. st \<in> set s \<Longrightarrow> \<exists>a v. st = Logged a v" "length (logged s) < 64"
    "\<forall>a \<in> set (logged s). validate_pointer a c"
  shows "\<exists>d. lock_and_recover w' (crash (caller_tid w) (txn_run s (locked w c))) = Some (TLSF_OK, d) \<and>
    tlsf_inv (mutex_unlock w' d) bs \<and> heap_abs d bs = heap_abs c bs \<and> mem d = mem c"
proof -
  let ?l = "locked w c"
  have id: "idle c" and hi: "heap_inv c bs" using inv by (simp_all add: tlsf_inv_def)
  have t0: "stack_top ?l = 0" using id by (simp add: idle_def)
  have vp: "\<forall>a \<in> set (logged s). validate_pointer a ?l" using l(3) validate_pointer_cong [of ?l c] by simp
  obtain e where e: "bul_recover_internal (txn_run s ?l) = (True, e)" "stack_top e = 0" "same_lists ?l e" "same_geom ?l e"
    "\<And>x. load_word x e = undo_word s x (load_word x ?l)" "mem e (used_bytes_addr ?l) = mem ?l (used_bytes_addr ?l)"
    using recover_run [OF t0 l(2) vp] by metis
  have ua: "used_bytes_addr e = used_bytes_addr ?l" using e(4) by (simp add: used_bytes_addr_def same_geom_def)
  have ld: "load_word x e = load_word x ?l" for x using e(5) undo_word_logged [OF l(1)] by metis
  have "mem e x = mem c x" for x
    using ld [of x] e(6) by (cases "x = used_bytes_addr ?l") (simp_all add: load_word_def ua)
  then have me: "mem e = mem c" by blast
  have ub: "used_bytes e = used_bytes c" using ld [of "used_bytes_addr ?l"] by (simp add: load_word_def ua)
  have g: "same_geom c e" "same_lists c e" using e(3,4) by (simp_all add: same_geom_def same_lists_def)
  have "same_txn ?l (txn_run s ?l)" using txn_run_same [of ?l s] l(2) t0 by (simp add: same_txn_def)
  from recovered_same [OF id this e(1,2) me ub g hi] show ?thesis .
qed

text \<open>C13: \<^verbatim>\<open>tlsf_link\<close> commits the last of the states it goes through, and a process that dies in any of them, anywhere between the lock and the commit, leaves no trace: whoever
  locks next gets the mutex, and once it is released again the invariant holds, the view and the
  whole memory are as before the call.\<close>

theorem link_crash_undone:
  assumes "tlsf_inv c bs" "heap_abs c bs p = Some k" "0 \<in> set (bk_owners k)" "tlsf \<noteq> 0" "uid \<noteq> 0" "uid \<notin> set (bk_owners k)"
  shows "length (link_trace w tlsf p uid c) = 3 \<and>
    tlsf_link w tlsf p uid c = Some (0, mutex_unlock w (bul_commit (last (link_trace w tlsf p uid c)))) \<and>
    (\<forall>x \<in> set (link_trace w tlsf p uid c).
    \<exists>d. lock_and_recover w' (crash (caller_tid w) x) = Some (TLSF_OK, d) \<and> tlsf_inv (mutex_unlock w' d) bs \<and>
      heap_abs d bs = heap_abs c bs \<and> mem d = mem c)"
proof -
  let ?l = "locked w c"
  obtain b where b: "p = ptr_from_block b" "b \<in> set bs" "user_block p ?l = Inr b" "p \<noteq> 0" and id: "idle c"
    and ul: "uid_list ?l b = bk_owners k"
    using query_run [OF assms(1,2), of w] by metis
  have h: "heap_ok c bs (free_blocks c bs) {}" using assms(1) by (simp add: tlsf_inv_def heap_inv_def)
  have uf: "uid_find ?l b uid < 0" using uid_find_nonneg [of ?l b uid] ul assms(6) by (simp add: not_le)
  obtain i where i: "i < 12" "uid_find_empty ?l b = int i"
    using uid_find_empty_first [of ?l b] assms(3) ul by auto
  have "i div 4 \<in> {0, 1, 2}" using i(1) by auto
  then obtain y where y: "uid_word_addr b i = b + y" "y \<in> {32, 40, 48}" by (auto simp: uid_word_addr_def)
  then have "unat y < 64" by auto
  note ad = heap_addr [OF h b(2) this]
  have t0: "unat (stack_top ?l) < 64" using id by (simp add: idle_def)
  have ne: "b + y \<noteq> used_bytes_addr ?l" using ad(1) by (simp add: used_bytes_addr_def)
  define v where "v = (mem ?l (b + y) AND NOT (push_bit (16 * (i mod 4)) 0xFFFF)) OR push_bit (16 * (i mod 4)) (ucast uid)"
  have s1: "log_entry (b + y) ?l = txn_run [Logged (b + y) (mem ?l (b + y))] ?l"
    using poke_logged [OF t0 ne, of "mem ?l (b + y)"] poke_same [of "b + y" "log_entry (b + y) ?l"] by (simp del: txn_run.simps)
  have s2: "uid_put b i uid (log_entry (b + y) ?l) = txn_run [Logged (b + y) v] ?l"
    using poke_logged [OF t0 ne, of v] by (simp add: uid_put_def y(1) v_def)
  have tr: "link_trace w tlsf p uid c = [txn_run [] ?l, txn_run [Logged (b + y) (mem ?l (b + y))] ?l, txn_run [Logged (b + y) v] ?l]"
    using push_log [OF t0, of "b + y"] assms(4,5) b(4) uf unfolding s1 [symmetric] s2 [symmetric]
    by (simp add: link_trace_def lock_idle [OF id] b(3) Let_def i(2) bul_push_uid_word_def y(1))
  have li: "tlsf_link w tlsf p uid c = Some (0, mutex_unlock w (bul_commit (txn_run [Logged (b + y) v] ?l)))"
    using push_log [OF t0, of "b + y"] assms(4,5) b(4) uf unfolding s1 [symmetric] s2 [symmetric]
    by (simp add: tlsf_link_def with_lock_idle [OF id] b(3) Let_def i(2) bul_push_uid_word_def y(1))
  have one: "\<exists>d. lock_and_recover w' (crash (caller_tid w) (txn_run s ?l)) = Some (TLSF_OK, d) \<and>
      tlsf_inv (mutex_unlock w' d) bs \<and> heap_abs d bs = heap_abs c bs \<and> mem d = mem c"
    if "s \<in> {[], [Logged (b + y) (mem ?l (b + y))], [Logged (b + y) v]}" for s
    by (rule logged_run_undone [OF assms(1)]) (use that ad(2) in auto)
  show ?thesis unfolding tr using one li by (simp del: txn_run.simps)
qed

theorem link_crash_undone_witness:
  "\<exists>bs. tlsf_link me 4096 (fst pool_one) 6 (snd pool_one) =
      Some (0, mutex_unlock me (bul_commit (last (link_trace me 4096 (fst pool_one) 6 (snd pool_one))))) \<and>
    length (link_trace me 4096 (fst pool_one) 6 (snd pool_one)) = 3 \<and>
    (\<forall>x \<in> set (link_trace me 4096 (fst pool_one) 6 (snd pool_one)).
      \<exists>d. lock_and_recover (me\<lparr>caller_tid := 8\<rparr>) (crash (caller_tid me) x) = Some (TLSF_OK, d) \<and>
        tlsf_inv (mutex_unlock (me\<lparr>caller_tid := 8\<rparr>) d) bs \<and>
        heap_abs d bs = heap_abs (snd pool_one) bs \<and> mem d = mem (snd pool_one))"
proof -
  obtain bs k where v: "tlsf_inv (snd pool_one) bs" "heap_abs (snd pool_one) bs (fst pool_one) = Some k"
    "bk_owners k = 5 # replicate 11 0"
    by (rule pool_one_view)
  have "0 \<in> set (bk_owners k)" "6 \<notin> set (bk_owners k)" by (simp_all add: v(3))
  from link_crash_undone [OF v(1,2) this(1), of 4096 6 me "me\<lparr>caller_tid := 8\<rparr>"] this(2) show ?thesis by auto
qed

end
