(* ===== verification/List_Db.thy ===== *)
theory List_Db
  imports Dal_List Tlsf_Crash
begin

text \<open>
  The list example: \<^verbatim>\<open>list_db\<close> keeps a list of strings in the pool and runs \<^verbatim>\<open>list_api\<close> for others
  (\<^verbatim>\<open>example/list/list_db.c\<close>), \<^verbatim>\<open>list_cli\<close> adds, deletes and prints strings (\<^verbatim>\<open>example/list/list_cli.c\<close>). The state has the
  segment with the mutexes, the contexts of both processes, the static variables of \<^verbatim>\<open>list_db\<close> and what
  \<^verbatim>\<open>list_cli\<close> has printed. Error messages are left out.

  In the client \<^verbatim>\<open>list_api\<close> is the stub of a remote call. The operations of the client take it as an argument \<open>api\<close>; that
  a call delivers the result of the function is the subject of \<open>Srpc_Send\<close> and \<open>Srpc_Server\<close>. The theorems instantiate it with the
  function of \<open>list_db\<close>, and with a stub that fails.

  A node is a block of the pool: the list pointers, the size, and from byte 24 on the string with its
  terminating zero. Its bytes are read and written as bytes of the words of the pool. A string in memory
  is read by a \<^verbatim>\<open>partial_function\<close>, which has no value when no zero byte follows.
\<close>

abbreviation (input) ENOENT :: int where "ENOENT \<equiv> 2"

section \<open>Data\<close>

record list_sys = dal_mem +
  db_cx :: srpc_ctx
  db_head :: u64
  db_exit :: bool
  cli_cx :: srpc_ctx
  cli_out :: "(u64 \<times> u8 list) list"

text \<open>\<^verbatim>\<open>sizeof(list_cli_node_t)\<close> and the offsets of its fields.\<close>

definition CLI_NODE_SZ :: u64 where "CLI_NODE_SZ = 24"
definition CLI_SIZE_OFF :: u64 where "CLI_SIZE_OFF = 16"

definition as_db :: "(srpc_ctx \<Rightarrow> shmem \<Rightarrow> ('r \<times> srpc_ctx \<times> shmem) option) \<Rightarrow> list_sys \<Rightarrow> ('r \<times> list_sys) option" where
  "as_db f s = map_option (\<lambda>(r, cx, sm). (r, s\<lparr>dm_shm := sm, db_cx := cx\<rparr>)) (f (db_cx s) (dm_shm s))"

definition as_cli :: "(srpc_ctx \<Rightarrow> shmem \<Rightarrow> ('r \<times> srpc_ctx \<times> shmem) option) \<Rightarrow> list_sys \<Rightarrow> ('r \<times> list_sys) option" where
  "as_cli f s = map_option (\<lambda>(r, cx, sm). (r, s\<lparr>dm_shm := sm, cli_cx := cx\<rparr>)) (f (cli_cx s) (dm_shm s))"

definition db_tid :: "list_sys \<Rightarrow> nat" where "db_tid s = caller_tid (cx_caller (db_cx s))"
definition cli_tid :: "list_sys \<Rightarrow> nat" where "cli_tid s = caller_tid (cx_caller (cli_cx s))"

section \<open>The executor\<close>

text \<open>The body of the walk of \<^verbatim>\<open>DAL_LIST_OP_REMOVE\<close>.\<close>

definition remove_if :: "nat \<Rightarrow> u64 \<Rightarrow> u64 \<Rightarrow> u64 \<Rightarrow> list_sys \<Rightarrow> (u64 option \<times> list_sys) option" where
  "remove_if t head node itnode s =
     (if itnode \<noteq> node then Some (None, s)
      else do {
        (_, s1) \<leftarrow> dal_list_remove t head node s;
        (_, s2) \<leftarrow> as_db (libsrpc_shmem_free node) s1;
        Some (Some node, snd (dal_list_unlock t head s2))
      })"

definition list_api :: "int \<Rightarrow> u64 \<Rightarrow> list_sys \<Rightarrow> (u64 \<times> list_sys) option" where
  "list_api opn node s =
     (let t = db_tid s; head = db_head s in
      if opn = DAL_LIST_OP_GET_HEAD then Some (head, s)
      else if opn = DAL_LIST_OP_INSERT then do {
        (rc, s1) \<leftarrow> as_db (libsrpc_shmem_link node) s;
        if rc \<noteq> 0 then Some (0, s1)
        else do {
          (_, s2) \<leftarrow> dal_list_insert t head node s1;
          Some (node, s2)
        }
      }
      else if opn = DAL_LIST_OP_REMOVE then do {
        (_, s1) \<leftarrow> dal_list_lock t head s;
        (r, s2) \<leftarrow> dal_list_foreach head (remove_if t head node) s1;
        (case r of Some p \<Rightarrow> Some (p, s2) | None \<Rightarrow> Some (0, snd (dal_list_unlock t head s2)))
      }
      else Some (0, s))"

definition all_exit :: "list_sys \<Rightarrow> list_sys" where
  "all_exit s = s\<lparr>db_exit := True\<rparr>"

text \<open>\<^verbatim>\<open>main\<close> up to the loop; the code 0 stands for reaching it. \<open>e\<close>: the results of the pthread library.\<close>

definition sRPCFNID_list_api :: int where "sRPCFNID_list_api = sRPCFNID_START + 5"

definition list_db_start :: "mutex_env \<Rightarrow> list_sys \<Rightarrow> (int \<times> list_sys) option" where
  "list_db_start e s =
     (if libsrpc_fnreg_num_get sRPCFNID_list_api (db_cx s) (dm_shm s) > 1 then Some (- 1, s)
      else do {
        (head, s1) \<leftarrow> as_db (libsrpc_shmem_malloc DAL_HEAD_SZ) s;
        let s2 = s1\<lparr>db_head := head\<rparr>;
        if head = 0 then Some (- 1, s2)
        else case dal_list_init e head s2 of (rc, s3) \<Rightarrow> Some (if rc \<noteq> 0 then - 1 else 0, s3)
      })"

text \<open>The loop; each element of the list is what the threads of the process and the others do in a millisecond.\<close>

fun exit_wait :: "(list_sys \<Rightarrow> list_sys) list \<Rightarrow> list_sys \<Rightarrow> (int \<times> list_sys) option" where
  "exit_wait [] s = (if db_exit s then Some (0, s) else None)"
| "exit_wait (f # fs) s = (if db_exit s then Some (0, s) else exit_wait fs (f s))"

definition list_db_main :: "mutex_env \<Rightarrow> (list_sys \<Rightarrow> list_sys) list \<Rightarrow> list_sys \<Rightarrow> (int \<times> list_sys) option" where
  "list_db_main e rounds s = do {
     (rc, s1) \<leftarrow> list_db_start e s;
     if rc \<noteq> 0 then Some (rc, s1) else exit_wait rounds s1
   }"

section \<open>Bytes of the pool\<close>

definition get_byte :: "(u64 \<Rightarrow> u64) \<Rightarrow> u64 \<Rightarrow> u8" where
  "get_byte m a = ucast (drop_bit (8 * unat (a mod 8)) (m (a - a mod 8)))"

definition with_byte :: "u64 \<Rightarrow> nat \<Rightarrow> u8 \<Rightarrow> u64" where
  "with_byte w i b = (w AND NOT (push_bit (8 * i) 0xFF)) OR push_bit (8 * i) (ucast b)"

definition put_byte :: "u64 \<Rightarrow> u8 \<Rightarrow> 'a dal_mem_scheme \<Rightarrow> 'a dal_mem_scheme" where
  "put_byte a b s = (let w = a - a mod 8 in put_word w (with_byte (words s w) (unat (a mod 8)) b) s)"

fun memcpy_bytes :: "u64 \<Rightarrow> u8 list \<Rightarrow> 'a dal_mem_scheme \<Rightarrow> 'a dal_mem_scheme" where
  "memcpy_bytes a [] s = s"
| "memcpy_bytes a (b # bs) s = memcpy_bytes (a + 1) bs (put_byte a b s)"

text \<open>\<^verbatim>\<open>strlen\<close> of an argument, \<^verbatim>\<open>strcmp\<close> of a string in the pool with one, and the string in the pool.\<close>

definition strlen :: "u8 list \<Rightarrow> nat" where "strlen data = length (takeWhile (\<lambda>c. c \<noteq> 0) data)"

fun str_at :: "(u64 \<Rightarrow> u64) \<Rightarrow> u64 \<Rightarrow> u8 list \<Rightarrow> bool" where
  "str_at m a [] = (get_byte m a = 0)"
| "str_at m a (c # cs) = (if c = 0 then get_byte m a = 0 else get_byte m a = c \<and> str_at m (a + 1) cs)"

partial_function (option) cstr :: "(u64 \<Rightarrow> u64) \<Rightarrow> u64 \<Rightarrow> u8 list option" where
  "cstr m a = (if get_byte m a = 0 then Some [] else Option.bind (cstr m (a + 1)) (\<lambda>cs. Some (get_byte m a # cs)))"

text \<open>\<^verbatim>\<open>atoi\<close>: white space, a sign, digits.\<close>

definition atoi :: "u8 list \<Rightarrow> int" where
  "atoi cs =
     (let rest = dropWhile (\<lambda>c. c = 32 \<or> 9 \<le> c \<and> c \<le> 13) cs;
          neg = (rest \<noteq> [] \<and> hd rest = 45);
          body = (if rest \<noteq> [] \<and> (hd rest = 45 \<or> hd rest = 43) then tl rest else rest);
          n = fold (\<lambda>c x. 10 * x + (uint c - 48)) (takeWhile (\<lambda>c. 48 \<le> c \<and> c \<le> 57) body) 0
      in if neg then - n else n)"

section \<open>The client\<close>

type_synonym list_stub = "int \<Rightarrow> u64 \<Rightarrow> list_sys \<Rightarrow> (u64 \<times> list_sys) option"

definition list_cli_add :: "list_stub \<Rightarrow> u8 list \<Rightarrow> list_sys \<Rightarrow> (int \<times> list_sys) option" where
  "list_cli_add api data s =
     (let len = strlen data; sz = CLI_NODE_SZ + of_nat len + 1 in
      if len = 0 then Some (- EINVAL, s)
      else do {
        (node, s1) \<leftarrow> as_cli (libsrpc_shmem_malloc sz) s;
        if node = 0 then Some (- 1, s1)
        else do {
          let s2 = put_word (node + CLI_SIZE_OFF) sz s1;
          let s3 = memcpy_bytes (node + CLI_NODE_SZ) (take len data) s2;
          let s4 = put_byte (node + CLI_NODE_SZ + of_nat len) 0 s3;
          (ptr, s5) \<leftarrow> api DAL_LIST_OP_INSERT node s4;
          if ptr = 0 then do {
            (_, s6) \<leftarrow> as_cli (libsrpc_shmem_free node) s5;
            Some (- ENOMEM, s6)
          }
          else do {
            (_, s6) \<leftarrow> as_cli (libsrpc_shmem_free node) s5;
            Some (0, s6)
          }
        }
      })"

definition cli_proc_lock :: "u64 \<Rightarrow> list_sys \<Rightarrow> (int \<times> list_sys) option" where
  "cli_proc_lock ptr s = map_option (\<lambda>(hold, sm). (hold, s\<lparr>dm_shm := sm\<rparr>)) (libsrpc_shmem_proc_lock 0 ptr (cli_cx s) (dm_shm s))"

definition cli_proc_unlock :: "int \<Rightarrow> list_sys \<Rightarrow> int \<times> list_sys" where
  "cli_proc_unlock hold s = (case libsrpc_shmem_proc_unlock hold (cli_cx s) (dm_shm s) of (rc, sm) \<Rightarrow> (rc, s\<lparr>dm_shm := sm\<rparr>))"

text \<open>What \<^verbatim>\<open>list_cli_delete\<close> and \<^verbatim>\<open>list_cli_print\<close> do alike: the head, the hold on the memory of the executor, the mutex, the
  walk, and all of it back. \<open>Inl\<close>: the error they return.\<close>

definition with_list ::
  "list_stub \<Rightarrow> (u64 \<Rightarrow> list_sys \<Rightarrow> ('r option \<times> list_sys) option) \<Rightarrow> list_sys \<Rightarrow> ((int + 'r option) \<times> list_sys) option" where
  "with_list api walk s = do {
     (head, s1) \<leftarrow> api DAL_LIST_OP_GET_HEAD 0 s;
     if head = 0 then Some (Inl (- 1), s1)
     else do {
       (hold, s2) \<leftarrow> cli_proc_lock head s1;
       if hold < 0 then Some (Inl (- 1), s2)
       else do {
         (rc, s3) \<leftarrow> dal_list_lock (cli_tid s2) head s2;
         if rc \<noteq> 0 then Some (Inl (- 1), s3)
         else do {
           (r, s4) \<leftarrow> dal_list_foreach head walk s3;
           case dal_list_unlock (cli_tid s4) head s4 of (rc, s5) \<Rightarrow>
             if rc \<noteq> 0 then Some (Inl (- 1), s5)
             else case cli_proc_unlock hold s5 of (rc, s6) \<Rightarrow>
               if rc \<noteq> 0 then Some (Inl (- 1), s6) else Some (Inr r, s6)
         }
       }
     }
   }"

definition list_cli_delete :: "list_stub \<Rightarrow> u8 list \<Rightarrow> list_sys \<Rightarrow> (int \<times> list_sys) option" where
  "list_cli_delete api data s =
     (if strlen data = 0 then Some (- EINVAL, s)
      else do {
        (r, s1) \<leftarrow> with_list api (\<lambda>it s. Some (if str_at (words s) (it + CLI_NODE_SZ) data then Some it else None, s)) s;
        case r of
          Inl e \<Rightarrow> Some (e, s1)
        | Inr None \<Rightarrow> Some (- ENOENT, s1)
        | Inr (Some node) \<Rightarrow> do {
            (p, s2) \<leftarrow> api DAL_LIST_OP_REMOVE node s1;
            Some (if p = 0 then - 1 else 0, s2)
          }
      })"

definition print_node :: "u64 \<Rightarrow> list_sys \<Rightarrow> (unit option \<times> list_sys) option" where
  "print_node it s = do {
     str \<leftarrow> cstr (words s) (it + CLI_NODE_SZ);
     Some (None, s\<lparr>cli_out := cli_out s @ [(words s (it + CLI_SIZE_OFF), str)]\<rparr>)
   }"

definition list_cli_print :: "list_stub \<Rightarrow> list_sys \<Rightarrow> (int \<times> list_sys) option" where
  "list_cli_print api s = do {
     (r, s1) \<leftarrow> with_list api print_node s;
     Some (case r of Inl e \<Rightarrow> e | Inr _ \<Rightarrow> 0, s1)
   }"

text \<open>\<open>others\<close>: what the other processes do while this one sleeps.\<close>

definition list_cli_lock :: "list_stub \<Rightarrow> (list_sys \<Rightarrow> list_sys) \<Rightarrow> u8 list \<Rightarrow> list_sys \<Rightarrow> (int \<times> list_sys) option" where
  "list_cli_lock api others time s =
     (if atoi time \<le> 0 then Some (- EINVAL, s)
      else do {
        (head, s1) \<leftarrow> api DAL_LIST_OP_GET_HEAD 0 s;
        if head = 0 then Some (- 1, s1)
        else do {
          (hold, s2) \<leftarrow> cli_proc_lock head s1;
          if hold < 0 then Some (- 1, s2)
          else case cli_proc_unlock hold (others s2) of (rc, s3) \<Rightarrow> Some (if rc \<noteq> 0 then - 1 else 0, s3)
        }
      })"

text \<open>The options in the order \<^verbatim>\<open>getopt_long\<close> returns them; \<open>extra\<close>: an argument is left over.\<close>

datatype cli_opt = Opt_add "u8 list" | Opt_del "u8 list" | Opt_print | Opt_lock "u8 list" | Opt_help | Opt_other

fun list_cli_opt :: "list_stub \<Rightarrow> (list_sys \<Rightarrow> list_sys) \<Rightarrow> cli_opt \<Rightarrow> list_sys \<Rightarrow> (int \<times> list_sys) option" where
  "list_cli_opt api others (Opt_add data) s = list_cli_add api data s"
| "list_cli_opt api others (Opt_del data) s = list_cli_delete api data s"
| "list_cli_opt api others Opt_print s = list_cli_print api s"
| "list_cli_opt api others (Opt_lock time) s = list_cli_lock api others time s"
| "list_cli_opt api others _ s = Some (0, s)"

fun list_cli_main :: "list_stub \<Rightarrow> (list_sys \<Rightarrow> list_sys) \<Rightarrow> bool \<Rightarrow> bool \<Rightarrow> cli_opt list \<Rightarrow> list_sys \<Rightarrow> (int \<times> list_sys) option" where
  "list_cli_main api others extra acted [] s = Some (if extra \<or> \<not> acted then 1 else 0, s)"
| "list_cli_main api others extra acted (Opt_help # os) s = Some (0, s)"
| "list_cli_main api others extra acted (Opt_other # os) s = Some (1, s)"
| "list_cli_main api others extra acted (opt # os) s = do {
     (rc, s1) \<leftarrow> list_cli_opt api others opt s;
     if rc \<noteq> 0 then Some (1, s1) else list_cli_main api others extra True os s1
   }"

section \<open>Reading back what was written\<close>

lemma unat_succ: "unat (a :: u64) + 1 < 2 ^ 64 \<Longrightarrow> unat (a + 1) = unat a + 1"
  using unat_add_nowrap [of a 1] by simp

lemma byte_addr: "(a :: u64) - a mod 8 = b - b mod 8 \<Longrightarrow> a mod 8 = b mod 8 \<Longrightarrow> a = b"
  by (metis diff_add_cancel)

lemma byte_word:
  fixes a :: u64
  shows "unat (a mod 8) < 8" "unat (a - a mod 8) = unat a - unat a mod 8"
proof -
  have u: "unat (a mod 8) = unat a mod 8" by (simp add: unat_mod)
  then show "unat (a mod 8) < 8" by simp
  show "unat (a - a mod 8) = unat a - unat a mod 8" using unat_diff_nowrap [of "a mod 8" a] u by simp
qed

lemma with_byte_bits:
  assumes "i < 8" "j < 8"
  shows "(ucast (drop_bit (8 * j) (with_byte w i b)) :: u8) = (if j = i then b else ucast (drop_bit (8 * j) w))"
proof (rule bit_word_eqI)
  fix n assume n: "n < LENGTH(8)"
  then have n8: "n < 8" and l: "8 * j + n < 64" using assms(2) by auto
  have ff: "(0xFF :: u64) = mask 8" by (simp add: mask_eq_exp_minus_1)
  have "8 * i \<le> 8 * j + n \<and> 8 * j + n - 8 * i < 8 \<longleftrightarrow> j = i" using n8 by arith
  then show "bit (ucast (drop_bit (8 * j) (with_byte w i b)) :: u8) n = bit (if j = i then b else ucast (drop_bit (8 * j) w)) n"
    using n8 l unfolding with_byte_def ff by (auto simp: bit_simps dest: bit_imp_le_length)
qed

lemma get_put_byte: "get_byte (words (put_byte a b s)) x = (if x = a then b else get_byte (words s) x)"
proof (cases "x - x mod 8 = a - a mod 8")
  case True
  then have e: "x mod 8 = a mod 8 \<longleftrightarrow> x = a" using byte_addr by blast
  have u: "unat (x mod 8) = unat (a mod 8) \<longleftrightarrow> x = a" using e by (metis word_unat_eq_iff)
  show ?thesis
    using with_byte_bits [OF byte_word(1) [of a] byte_word(1) [of x], of "words s (a - a mod 8)" b] u
    by (simp add: get_byte_def put_byte_def Let_def True)
next
  case False
  then have "x \<noteq> a" by auto
  with False show ?thesis by (simp add: get_byte_def put_byte_def Let_def)
qed

fun reads :: "(u64 \<Rightarrow> u64) \<Rightarrow> u64 \<Rightarrow> u8 list \<Rightarrow> bool" where
  "reads m a [] = True"
| "reads m a (b # bs) = (get_byte m a = b \<and> reads m (a + 1) bs)"

lemma memcpy_bytes_append: "memcpy_bytes a (xs @ ys) s = memcpy_bytes (a + of_nat (length xs)) ys (memcpy_bytes a xs s)"
  by (induction xs arbitrary: a s) (simp_all add: add.assoc)

lemma memcpy_other:
  assumes "unat x < unat a" "unat a + length bs < 2 ^ 64"
  shows "get_byte (words (memcpy_bytes a bs s)) x = get_byte (words s) x"
  using assms
proof (induction bs arbitrary: a s)
  case (Cons b bs)
  have "unat (a + 1) = unat a + 1" by (rule unat_succ) (use Cons.prems(2) in simp)
  then show ?case using Cons.IH [of "a + 1" "put_byte a b s"] Cons.prems by (auto simp: get_put_byte)
qed simp

lemma reads_memcpy:
  assumes "unat a + length bs < 2 ^ 64"
  shows "reads (words (memcpy_bytes a bs s)) a bs"
  using assms
proof (induction bs arbitrary: a s)
  case (Cons b bs)
  have u: "unat (a + 1) = unat a + 1" by (rule unat_succ) (use Cons.prems in simp)
  have "get_byte (words (memcpy_bytes (a + 1) bs (put_byte a b s))) a = b"
    by (subst memcpy_other) (use u Cons.prems in \<open>simp_all add: get_put_byte\<close>)
  moreover have "reads (words (memcpy_bytes (a + 1) bs (put_byte a b s))) (a + 1) bs"
    by (rule Cons.IH) (use u Cons.prems in simp)
  ultimately show ?case by simp
qed simp

lemma reads_str_at:
  assumes "reads m a (str @ [0])" "0 \<notin> set str"
  shows "str_at m a data \<longleftrightarrow> takeWhile (\<lambda>c. c \<noteq> 0) data = str"
  using assms
proof (induction str arbitrary: a data)
  case Nil
  then show ?case by (cases data) auto
next
  case (Cons c str)
  show ?case
  proof (cases data)
    case (Cons d ds)
    with Cons.prems Cons.IH [of "a + 1" ds] show ?thesis by auto
  qed (use Cons.prems in auto)
qed

lemma reads_cstr:
  assumes "reads m a (str @ [0])" "0 \<notin> set str"
  shows "cstr m a = Some str"
  using assms
proof (induction str arbitrary: a)
  case Nil
  then show ?case by (subst cstr.simps) simp
next
  case (Cons c str)
  then show ?case using Cons.IH [of "a + 1"] by (subst cstr.simps) auto
qed

lemma aligned_below:
  fixes x a :: nat
  assumes "x mod 8 = 0" "x \<le> a"
  shows "x \<le> a - a mod 8"
proof -
  have "x = 8 * (x div 8)" using assms(1) by auto
  also have "\<dots> \<le> 8 * (a div 8)" using div_le_mono [OF assms(2)] by simp
  also have "\<dots> = a - a mod 8" by (simp add: minus_mod_eq_mult_div)
  finally show ?thesis .
qed

text \<open>Bytes from an aligned address on are in the words from there on.\<close>

lemma reads_cong:
  assumes "unat lo mod 8 = 0" "unat lo \<le> unat a" "unat a + length bs \<le> hi" "hi < 2 ^ 64"
    "\<And>x. unat lo \<le> unat x \<Longrightarrow> unat x < hi \<Longrightarrow> m' x = m x"
  shows "reads m' a bs = reads m a bs"
  using assms(2,3)
proof (induction bs arbitrary: a)
  case (Cons b bs)
  have w: "m' (a - a mod 8) = m (a - a mod 8)"
  proof (rule assms(5))
    show "unat lo \<le> unat (a - a mod 8)" unfolding byte_word(2) by (rule aligned_below [OF assms(1) Cons.prems(1)])
    show "unat (a - a mod 8) < hi" unfolding byte_word(2) using Cons.prems(2) by simp
  qed
  have u: "unat (a + 1) = unat a + 1" by (rule unat_succ) (use Cons.prems(2) assms(4) in simp)
  have "reads m' (a + 1) bs = reads m (a + 1) bs" by (rule Cons.IH) (use u Cons.prems in simp_all)
  with w show ?case by (simp add: get_byte_def)
qed simp

text \<open>Writing a string into a block leaves the words before it and those of other blocks alone.\<close>

lemma memcpy_block:
  assumes "dal_view s v" "v p = Some k" "unat lo mod 8 = 0" "unat p \<le> unat lo" "unat lo \<le> unat a" "unat a + length bs \<le> unat p + unat (bk_size k)"
  shows "dal_view (memcpy_bytes a bs s) v \<and> (\<exists>c. memcpy_bytes a bs s = repool c s) \<and>
    (\<forall>x. unat x < unat lo \<or> unat p + unat (bk_size k) \<le> unat x \<longrightarrow> words (memcpy_bytes a bs s) x = words s x)"
  using assms(1,5,6)
proof (induction bs arbitrary: a s)
  case Nil
  then show ?case using repool_self [of s] by (auto intro: exI [of _ "sm_pool (dm_shm s)"])
next
  case (Cons b bs)
  let ?w = "a - a mod 8" and ?s = "put_byte a b s"
  have w: "unat lo \<le> unat ?w" "unat ?w < unat p + unat (bk_size k)"
    unfolding byte_word(2) using aligned_below [OF assms(3) Cons.prems(2)] Cons.prems(3) by simp_all
  have v: "dal_view ?s v" unfolding put_byte_def Let_def
    by (rule pw.wr_rep [OF Cons.prems(1) assms(2)]) (use w assms(4) in \<open>simp add: in_payload_def\<close>)
  have hi: "unat p + unat (bk_size k) < 2 ^ 64" using pw.block_addr [OF Cons.prems(1) assms(2)] by simp
  have u: "unat (a + 1) = unat a + 1" by (rule unat_succ) (use Cons.prems(3) hi in simp)
  have f: "words ?s x = words s x" if "unat x < unat lo \<or> unat p + unat (bk_size k) \<le> unat x" for x
    using that w by (auto simp: put_byte_def Let_def)
  obtain c where c: "?s = repool c s" by (simp add: put_byte_def Let_def put_word_pool)
  have "unat lo \<le> unat (a + 1)" "unat (a + 1) + length bs \<le> unat p + unat (bk_size k)" using u Cons.prems(2,3) by simp_all
  from Cons.IH [OF v this] f c show ?case by auto
qed

section \<open>The calls of the library\<close>

text \<open>Words of the payloads that a call of the allocator leaves alone; \<open>D\<close>: the blocks it may write to.\<close>

definition spares :: "u64 set \<Rightarrow> (u64 \<rightharpoonup> blk) \<Rightarrow> tlsf_ctrl \<Rightarrow> tlsf_ctrl \<Rightarrow> bool" where
  "spares D v c c' \<longleftrightarrow> (\<forall>q k a. v q = Some k \<longrightarrow> q \<notin> D \<longrightarrow> in_payload q k a \<longrightarrow> mem c' a = mem c a)"

text \<open>A free block is large enough.\<close>

definition room :: "tlsf_ctrl \<Rightarrow> u64 \<Rightarrow> bool" where
  "room c sz \<longleftrightarrow> (\<exists>bs b. tlsf_inv c bs \<and> b \<in> set bs \<and> block_is_free c b \<and> request_to_block_size sz \<le> block_size c b)"

lemma tlsf_inv_unique: "tlsf_inv c bs \<Longrightarrow> tlsf_inv c bs' \<Longrightarrow> bs = bs'"
  unfolding tlsf_inv_def heap_inv_def using chain_unique heap_okD(2) by blast

lemma malloc_run:
  assumes "pool_view (sm_poolptr sm) (sm_pool sm) v" "libsrpc_shmem_get cx" "cx_uid cx \<noteq> 0" "sz \<noteq> 0" "unat sz \<le> 896"
  obtains p e c where "libsrpc_shmem_malloc sz cx sm = Some (p, set_tls e cx, sm\<lparr>sm_pool := c\<rparr>)" "spares {} v (sm_pool sm) c"
    "room (sm_pool sm) sz \<Longrightarrow> p \<noteq> 0"
    "p = 0 \<and> pool_view (sm_poolptr sm) c v \<or> p \<noteq> 0 \<and> v p = None \<and> (\<exists>n. unat sz \<le> unat n \<and> pool_view (sm_poolptr sm) c (v(p \<mapsto>
       \<lparr>bk_size = n, bk_owners = cx_uid cx # replicate 11 0, bk_type = 0, bk_dc = False\<rparr>)))"
proof -
  obtain bs where bs: "sm_poolptr sm \<noteq> 0" "tlsf_inv (sm_pool sm) bs" "heap_abs (sm_pool sm) bs = v" using assms(1) by (auto simp: pool_view_def)
  from malloc_small_cases [OF bs(2,1) assms(3-5), of "cx_caller cx" LIBSRPC_SHMDT_USER] obtain p c bs' where r:
    "tlsf_malloc (cx_caller cx) (sm_poolptr sm) sz (cx_uid cx) LIBSRPC_SHMDT_USER (sm_pool sm) = Some (p, c)" "tlsf_inv c bs'"
    "if \<exists>b \<in> set bs. block_is_free (sm_pool sm) b \<and> request_to_block_size sz \<le> block_size (sm_pool sm) b
     then alloc_effect (sm_pool sm) bs sz (cx_uid cx) LIBSRPC_SHMDT_USER p c bs'
     else p = 0 \<and> tlsf_errno c = TLSF_ERR_OUT_OF_MEMORY \<and> bs' = bs \<and> heap_abs c bs' = heap_abs (sm_pool sm) bs \<and> mem c = mem (sm_pool sm)"
    by blast
  have rm: "p \<noteq> 0" if "room (sm_pool sm) sz"
  proof -
    have "\<exists>b \<in> set bs. block_is_free (sm_pool sm) b \<and> request_to_block_size sz \<le> block_size (sm_pool sm) b"
      using that tlsf_inv_unique [OF bs(2)] unfolding room_def by blast
    with r(3) show ?thesis by (simp add: alloc_effect_def)
  qed
  have m: "libsrpc_shmem_malloc sz cx sm = Some (p, set_tls (tlsf_errno c) cx, sm\<lparr>sm_pool := c\<rparr>)"
    unfolding libsrpc_shmem_malloc_def libsrpc_shmem_malloc_type_def by (rule shm_call_ready [OF assms(2)]) (rule r(1))
  have sp: "spares {} v (sm_pool sm) c"
    using r(3) alloc_word_kept [OF bs(2), of sz "cx_uid cx" LIBSRPC_SHMDT_USER p c bs'] bs(3)
    by (auto simp: spares_def in_payload_def split: if_splits)
  show thesis by (rule that [OF m sp rm])
    (use r bs in \<open>auto simp: pool_view_def alloc_effect_def LIBSRPC_SHMDT_USER_def split: if_splits\<close>)
qed

lemma free_run:
  assumes "pool_view (sm_poolptr sm) (sm_pool sm) v" "libsrpc_shmem_get cx" "cx_uid cx \<noteq> 0" "v p = Some k" "cx_uid cx \<in> set (bk_owners k)"
  defines "us \<equiv> without (cx_uid cx) (bk_owners k)"
  obtains e c where "libsrpc_shmem_free p cx sm = Some ((), set_tls e cx, sm\<lparr>sm_pool := c\<rparr>)"
    "pool_view (sm_poolptr sm) c (if unowned us then v(p := None) else v(p \<mapsto> k\<lparr>bk_owners := us\<rparr>))"
    "spares (if unowned us then {p} else {}) v (sm_pool sm) c"
proof -
  obtain bs where bs: "sm_poolptr sm \<noteq> 0" "tlsf_inv (sm_pool sm) bs" "heap_abs (sm_pool sm) bs = v" using assms(1) by (auto simp: pool_view_def)
  have k: "heap_abs (sm_pool sm) bs p = Some k" using assms(4) bs(3) by simp
  obtain c bs' where r: "tlsf_free (cx_caller cx) (sm_poolptr sm) p (cx_uid cx) (sm_pool sm) = Some ((), c)" "tlsf_inv c bs'"
    "free_effect (sm_pool sm) bs p (cx_uid cx) c bs'" by (rule tlsf_free_run [OF bs(2,1) assms(3) k assms(5)])
  have f: "libsrpc_shmem_free p cx sm = Some ((), set_tls (tlsf_errno c) cx, sm\<lparr>sm_pool := c\<rparr>)"
    unfolding libsrpc_shmem_free_def by (rule shm_call_ready [OF assms(2)]) (rule r(1))
  have v: "pool_view (sm_poolptr sm) c (if unowned us then v(p := None) else v(p \<mapsto> k\<lparr>bk_owners := us\<rparr>))"
    using r(2,3) k bs(1,3) by (auto simp: pool_view_def free_effect_def us_def Let_def split: if_splits)
  have "spares (if unowned us then {p} else {}) v (sm_pool sm) c"
    unfolding spares_def
  proof (intro allI impI)
    fix q j a
    assume q: "v q = Some j" "q \<notin> (if unowned us then {p} else {})" "in_payload q j a"
    obtain b where b: "q = ptr_from_block b" "b \<in> set bs" "\<not> fr_of (mem (sm_pool sm) b)" using q(1) bs(3) heap_abs_Some by metis
    have "payload_same (sm_pool sm) c (block_from_ptr q)"
    proof (cases "q = p")
      case True
      then show ?thesis using q(2) r(3) k by (simp add: free_effect_def us_def Let_def split: if_splits)
    next
      case False
      then have "b \<noteq> block_from_ptr p" using b(1) by auto
      then show ?thesis using r(3) b by (simp add: free_effect_def block_word)
    qed
    then show "mem c a = mem (sm_pool sm) a" using payload_word_kept [OF bs(2)] q(1,3) bs(3) by (auto simp: in_payload_def)
  qed
  then show thesis by (rule that [OF f v])
qed

lemma link_run:
  assumes "pool_view (sm_poolptr sm) (sm_pool sm) v" "libsrpc_shmem_get cx" "cx_uid cx \<noteq> 0" "v p = Some k" "cx_uid cx \<notin> set (bk_owners k)"
    "bk_owners k = u # replicate 11 0" "u \<noteq> 0"
  obtains c where "libsrpc_shmem_link p cx sm = Some (0, cx, sm\<lparr>sm_pool := c\<rparr>)"
    "pool_view (sm_poolptr sm) c (v(p \<mapsto> k\<lparr>bk_owners := u # cx_uid cx # replicate 10 0\<rparr>))" "spares {} v (sm_pool sm) c"
proof -
  obtain bs where bs: "sm_poolptr sm \<noteq> 0" "tlsf_inv (sm_pool sm) bs" "heap_abs (sm_pool sm) bs = v" using assms(1) by (auto simp: pool_view_def)
  have k: "heap_abs (sm_pool sm) bs p = Some k" using assms(4) bs(3) by simp
  obtain rc c where r: "tlsf_link (cx_caller cx) (sm_poolptr sm) p (cx_uid cx) (sm_pool sm) = Some (rc, c)" "tlsf_inv c bs"
    "link_effect (sm_pool sm) bs p (cx_uid cx) rc c" "\<forall>x \<in> set bs. payload_same (sm_pool sm) c x"
    by (rule tlsf_link_run [OF bs(2,1) assms(3) k, of "cx_caller cx"]) blast
  have "0 \<in> set (bk_owners k)" by (simp add: assms(6))
  then obtain i where i: "i < 12" "bk_owners k ! i = 0" "\<forall>j<i. bk_owners k ! j \<noteq> 0" and rc: "rc = 0"
    and v: "heap_abs c bs = v(p \<mapsto> k\<lparr>bk_owners := (bk_owners k)[i := cx_uid cx]\<rparr>)"
    using r(3) k bs(3) assms(5) by (auto simp: link_effect_def)
  have "i = 1"
  proof (rule ccontr)
    assume "i \<noteq> 1"
    then show False using i assms(6,7) by (cases i) (auto simp: nth_Cons' split: if_splits)
  qed
  then have "(bk_owners k)[i := cx_uid cx] = u # cx_uid cx # replicate 10 0" by (simp add: assms(6) numeral_eq_Suc)
  then have "pool_view (sm_poolptr sm) c (v(p \<mapsto> k\<lparr>bk_owners := u # cx_uid cx # replicate 10 0\<rparr>))"
    using r(2) bs(1) v by (auto simp: pool_view_def)
  moreover have "spares {} v (sm_pool sm) c"
    unfolding spares_def
  proof (intro allI impI)
    fix q j a
    assume q: "v q = Some j" "in_payload q j a"
    obtain b where b: "q = ptr_from_block b" "b \<in> set bs" using q(1) bs(3) heap_abs_Some by metis
    then have "payload_same (sm_pool sm) c (block_from_ptr q)" using r(4) by simp
    then show "mem c a = mem (sm_pool sm) a" using payload_word_kept [OF bs(2)] q bs(3) by (auto simp: in_payload_def)
  qed
  moreover have "p \<noteq> 0" using view_block_addr [OF bs(2) k] by simp
  then have "libsrpc_shmem_link p cx sm = Some (0, cx, sm\<lparr>sm_pool := c\<rparr>)"
    using assms(2) r(1) rc by (simp add: libsrpc_shmem_link_def on_pool_def libsrpc_shmem_get_def)
  ultimately show thesis using that by blast
qed

end
