(* ===== verification/List_Service.thy ===== *)
theory List_Service
  imports List_Db
begin

text \<open>
  The list example as a whole: \<^verbatim>\<open>list_db\<close> and \<^verbatim>\<open>list_cli\<close> implement a sequence of strings. \<open>service\<close> relates a
  state to the strings: the list in the pool has one node per string, the node has the string and its size, belongs to
  \<^verbatim>\<open>list_db\<close> alone, and the current request of \<^verbatim>\<open>list_cli\<close> was answered by \<^verbatim>\<open>list_db\<close>, so that its memory can be held.
  Adding puts a string in front, deleting takes the first equal one out and gives its block back, printing
  shows all of them; \<open>list_cli_run\<close> follows a whole command line.
\<close>

section \<open>What the state stands for\<close>

definition node_data :: "(u64 \<Rightarrow> u64) \<Rightarrow> u64 \<Rightarrow> u8 list \<Rightarrow> bool" where
  "node_data m n str \<longleftrightarrow> m (n + CLI_SIZE_OFF) = 25 + of_nat (length str) \<and> reads m (n + CLI_NODE_SZ) (str @ [0]) \<and> 0 \<notin> set str"

definition node_ok :: "(u64 \<Rightarrow> u64) \<Rightarrow> (u64 \<rightharpoonup> blk) \<Rightarrow> u16 \<Rightarrow> u64 \<Rightarrow> u8 list \<Rightarrow> bool" where
  "node_ok m v uid n str \<longleftrightarrow> node_data m n str \<and>
     (\<exists>k. v n = Some k \<and> 25 + length str \<le> unat (bk_size k) \<and> uid \<in> set (bk_owners k) \<and> unowned (without uid (bk_owners k)))"

definition parties :: "srpc_ctx \<Rightarrow> srpc_ctx \<Rightarrow> bool" where
  "parties db cli \<longleftrightarrow> libsrpc_shmem_get db \<and> libsrpc_shmem_get cli \<and> cx_uid db \<noteq> 0 \<and> cx_uid cli \<noteq> 0 \<and> cx_uid cli \<noteq> cx_uid db"

text \<open>The current request \<open>req\<close> of the client has an answer of the process \<open>uid\<close> in slot 0 and a free entry for a hold.\<close>

definition can_hold :: "u64 \<Rightarrow> u16 \<Rightarrow> shmem \<Rightarrow> bool" where
  "can_hold req uid sm \<longleftrightarrow> \<not> libsrpc_req_is_corrupted req None sm \<and> length (gc_lock_uid (sm_reqs sm req)) = 4 \<and>
     0 \<in> set (gc_lock_uid (sm_reqs sm req)) \<and>
     (\<exists>off. libsrpc_req_get_response_fast req 0 sm = Some off \<and> resp_uid (get_resp sm req off) = uid \<and>
       libsrpc_proc_is_valid sm (hp_proc (get_resp sm req off)) \<and> proc_uid (sm_procs sm (hp_proc (get_resp sm req off))) = uid)"

definition service :: "list_sys \<Rightarrow> (u64 \<rightharpoonup> blk) \<Rightarrow> u64 list \<Rightarrow> u8 list list \<Rightarrow> bool" where
  "service s v ns L \<longleftrightarrow> parties (db_cx s) (cli_cx s) \<and> can_hold (current_req (cli_cx s)) (cx_uid (db_cx s)) (dm_shm s) \<and> dal_view s v \<and>
     dal_live v (db_head s) ns \<and> (\<exists>k. v (db_head s) = Some k \<and> cx_uid (db_cx s) \<in> set (bk_owners k)) \<and>
     dal_ok s (db_head s) ns \<and> dm_mutex s (db_head s) = mutex_new \<and> list_all2 (node_ok (words s) v (cx_uid (db_cx s))) ns L"

lemma sys_fields [simp]:
  "words (s\<lparr>db_cx := x\<rparr>) = words s" "words (s\<lparr>cli_cx := x\<rparr>) = words s" "words (s\<lparr>cli_out := y\<rparr>) = words s"
  "dal_view (s\<lparr>db_cx := x\<rparr>) = dal_view s" "dal_view (s\<lparr>cli_cx := x\<rparr>) = dal_view s" "dal_view (s\<lparr>cli_out := y\<rparr>) = dal_view s"
  "words (repool c s) = mem c" "dal_view (repool c s) v = pool_view (sm_poolptr (dm_shm s)) c v"
  "db_cx (repool c s) = db_cx s" "cli_cx (repool c s) = cli_cx s" "cli_out (repool c s) = cli_out s" "db_head (repool c s) = db_head s"
  "repool c (s\<lparr>db_cx := x\<rparr>) = (repool c s)\<lparr>db_cx := x\<rparr>" "repool c (s\<lparr>cli_cx := x\<rparr>) = (repool c s)\<lparr>cli_cx := x\<rparr>"
  "dm_shm (repool c s) = (dm_shm s)\<lparr>sm_pool := c\<rparr>"
  "db_cx (put_mutex h m s) = db_cx s" "cli_cx (put_mutex h m s) = cli_cx s" "cli_out (put_mutex h m s) = cli_out s" "db_head (put_mutex h m s) = db_head s"
  "put_mutex h m (s\<lparr>db_cx := x\<rparr>) = (put_mutex h m s)\<lparr>db_cx := x\<rparr>"
  by (simp_all add: words_def dal_view_def repool_def put_mutex_def fun_eq_iff)

lemma dal_ok_cong:
  assumes "\<And>a. a \<in> link_words h ns \<Longrightarrow> words s' a = words s a"
  shows "dal_ok s' h ns = dal_ok s h ns"
proof -
  have "links (words s') (h # ns @ [h]) = links (words s) (h # ns @ [h])"
    by (rule links_cong) (use assms in \<open>auto simp: link_words_def simp flip: append_Cons\<close>)
  moreover have "words s' (h + 16) = words s (h + 16)" by (rule assms) (simp add: link_words_def)
  ultimately show ?thesis by (simp add: dal_ok_def circ_def fields_words)
qed

lemma can_hold_pool [simp]: "can_hold req uid (sm\<lparr>sm_pool := c\<rparr>) = can_hold req uid sm"
  by (simp add: can_hold_def libsrpc_req_is_corrupted_def libsrpc_req_get_response_fast_def get_resp_def libsrpc_proc_is_valid_def)

text \<open>The words of the links are in the head and the nodes, and the rest of a node is not among them.\<close>

lemma link_word_field:
  assumes "a \<in> link_words h ns"
  obtains q off where "q \<in> set (h # ns)" "a = q + off" "unat (off :: u64) < 24" "q = h \<or> unat off < 16"
proof -
  have "\<exists>q off. q \<in> set (h # ns) \<and> a = q + off \<and> unat (off :: u64) < 24 \<and> (q = h \<or> unat off < 16)"
    using assms by (auto simp: link_words_def intro: exI [of _ 0] exI [of _ 8] exI [of _ 16])
  with that show thesis by blast
qed

lemma link_words_inside:
  assumes "dal_view s v" "dal_live v h ns" "a \<in> link_words h ns"
  obtains q k where "q \<in> set (h # ns)" "v q = Some k" "in_payload q k a"
proof -
  have h: "holds v x 24" if "x \<in> set (h # ns)" for x using dal_live_row(2) [OF assms(1,2) that] .
  obtain q off where q: "q \<in> set (h # ns)" "a = q + off" "unat (off :: u64) < 24" using assms(3) by (rule link_word_field)
  obtain k where "v q = Some k" "in_payload q k (q + off)" by (rule pw.field_addr [OF assms(1) h [OF q(1)] q(3)])
  with q(1,2) show thesis by (intro that [of q k]) simp_all
qed

lemma data_not_link:
  assumes "dal_view s v" "dal_live v h ns" "n \<in> set ns" "v n = Some k" "in_payload n k x" "unat n + 16 \<le> unat x"
  shows "x \<notin> link_words h ns"
proof
  assume a: "x \<in> link_words h ns"
  have h: "holds v y 24" if "y \<in> set (h # ns)" for y using dal_live_row(2) [OF assms(1,2) that] .
  have nh: "n \<noteq> h" using assms(2,3) by (auto simp: dal_live_def)
  obtain q off where q: "q \<in> set (h # ns)" "x = q + off" "unat (off :: u64) < 24" "q = h \<or> unat off < 16" using a by (rule link_word_field)
  obtain j where j: "v q = Some j" "in_payload q j x" "unat x = unat q + unat off"
    using pw.field_addr [OF assms(1) h [OF q(1)] q(3)] q(2) by metis
  show False
  proof (cases "q = n")
    case True
    then show False using j(3) q(4) assms(6) nh by simp
  next
    case False
    then show False using pw.blocks_apart [OF assms(1) j(1) assms(4) _ j(2)] assms(5) by simp
  qed
qed

lemma aligned64_mod8: "aligned64 n \<Longrightarrow> (unat n + 24) mod 8 = 0"
  using mod_mod_cancel [of 8 64 "unat n"] mod_add_left_eq [of "unat n" 8 24] by (simp add: aligned64_mod)

lemma node_data_frame:
  assumes "dal_view s v" "v n = Some k" "25 + length str \<le> unat (bk_size k)"
    and same: "\<And>x. unat n + 16 \<le> unat x \<Longrightarrow> in_payload n k x \<Longrightarrow> m' x = m x"
  shows "node_data m' n str = node_data m n str"
proof -
  have h: "holds v n (25 + length str)" using assms(2,3) by (auto simp: holds_def)
  have a: "aligned64 n" "unat n + unat (bk_size k) < 2 ^ 64" using pw.block_addr [OF assms(1,2)] by simp_all
  have u: "unat (n + off) = unat n + unat off" if "unat off < 25" for off
    using pw.field_addr [OF assms(1) h, of off] that by simp
  have "m' (n + CLI_SIZE_OFF) = m (n + CLI_SIZE_OFF)"
    by (rule same) (use u [of 16] assms(3) in \<open>simp_all add: CLI_SIZE_OFF_def in_payload_def\<close>)
  moreover have "reads m' (n + CLI_NODE_SZ) (str @ [0]) = reads m (n + CLI_NODE_SZ) (str @ [0])"
  proof (rule reads_cong [where lo = "n + CLI_NODE_SZ" and hi = "unat n + unat (bk_size k)"])
    show "unat (n + CLI_NODE_SZ) mod 8 = 0" using u [of 24] aligned64_mod8 [OF a(1)] by (simp add: CLI_NODE_SZ_def)
    show "unat (n + CLI_NODE_SZ) + length (str @ [0 :: u8]) \<le> unat n + unat (bk_size k)" using u [of 24] assms(3) by (simp add: CLI_NODE_SZ_def)
    show "m' x = m x" if "unat (n + CLI_NODE_SZ) \<le> unat x" "unat x < unat n + unat (bk_size k)" for x
      by (rule same) (use that u [of 24] in \<open>simp_all add: CLI_NODE_SZ_def in_payload_def\<close>)
  qed (use a(2) in simp_all)
  ultimately show ?thesis by (simp add: node_data_def)
qed

lemma node_ok_frame:
  assumes "dal_view s v" "node_ok m v uid n str" "v' n = v n"
    and "\<And>k x. v n = Some k \<Longrightarrow> unat n + 16 \<le> unat x \<Longrightarrow> in_payload n k x \<Longrightarrow> m' x = m x"
  shows "node_ok m' v' uid n str"
proof -
  obtain k where k: "v n = Some k" "25 + length str \<le> unat (bk_size k)" using assms(2) by (auto simp: node_ok_def)
  from node_data_frame [OF assms(1) k assms(4) [OF k(1)]] assms(2,3) show ?thesis by (simp add: node_ok_def)
qed

text \<open>A state with the same contents of the head and the nodes.\<close>

lemma service_frame:
  assumes s: "service s v ns L" and v: "dal_view s' v'"
    and f: "db_head s' = db_head s" "cx_uid (db_cx s') = cx_uid (db_cx s)" "parties (db_cx s') (cli_cx s')"
      "can_hold (current_req (cli_cx s')) (cx_uid (db_cx s)) (dm_shm s')" "dm_mutex s' (db_head s) = mutex_new"
    and b: "\<And>q. q \<in> set (db_head s # ns) \<Longrightarrow> v' q = v q"
    and w: "\<And>q k a. q \<in> set (db_head s # ns) \<Longrightarrow> v q = Some k \<Longrightarrow> in_payload q k a \<Longrightarrow> words s' a = words s a"
  shows "service s' v' ns L"
proof -
  let ?h = "db_head s" and ?u = "cx_uid (db_cx s)"
  have sv: "dal_view s v" "dal_live v ?h ns" "dal_ok s ?h ns" "list_all2 (node_ok (words s) v ?u) ns L"
    "\<exists>k. v ?h = Some k \<and> ?u \<in> set (bk_owners k)"
    using s by (simp_all add: service_def)
  have "dal_live v' ?h ns" using sv(2) by (simp add: dal_live_def holds_def b)
  moreover have "dal_ok s' ?h ns"
  proof -
    have "words s' a = words s a" if a: "a \<in> link_words ?h ns" for a
    proof -
      obtain q k where "q \<in> set (?h # ns)" "v q = Some k" "in_payload q k a" by (rule link_words_inside [OF sv(1,2) a])
      then show ?thesis by (rule w)
    qed
    then show ?thesis using dal_ok_cong [of ?h ns s' s] sv(3) by blast
  qed
  moreover have "list_all2 (node_ok (words s') v' ?u) ns L"
  proof (rule list.rel_mono_strong [OF sv(4)])
    fix n str assume n: "n \<in> set ns" "node_ok (words s) v ?u n str"
    then have i: "n \<in> set (?h # ns)" by simp
    show "node_ok (words s') v' ?u n str" by (rule node_ok_frame [OF sv(1) n(2)]) (rule b [OF i], rule w [OF i])
  qed
  moreover have "v' ?h = v ?h" by (rule b) simp
  ultimately show ?thesis using f v sv(5) by (simp add: service_def)
qed

section \<open>Adding a string\<close>

lemma fill_node:
  assumes v: "dal_view s v" and k: "v p = Some k" and n: "25 + length str \<le> unat (bk_size k)" and z: "0 \<notin> set str"
  defines "s' \<equiv> put_byte (p + CLI_NODE_SZ + of_nat (length str)) 0
    (memcpy_bytes (p + CLI_NODE_SZ) str (put_word (p + CLI_SIZE_OFF) (25 + of_nat (length str)) s))"
  shows "dal_view s' v" "\<exists>c. s' = repool c s" "node_data (words s') p str" "\<not> in_payload p k x \<Longrightarrow> words s' x = words s x"
proof -
  have h: "holds v p (25 + length str)" using k n by (auto simp: holds_def)
  have a: "aligned64 p" "unat p + unat (bk_size k) < 2 ^ 64" using pw.block_addr [OF v k] by simp_all
  have u: "unat (p + off) = unat p + unat off" if "unat off < 25" for off
    using pw.field_addr [OF v h, of off] that by simp
  let ?s = "put_word (p + CLI_SIZE_OFF) (25 + of_nat (length str)) s" and ?a = "p + CLI_NODE_SZ"
  have e: "s' = memcpy_bytes ?a (str @ [0]) ?s" by (simp add: s'_def memcpy_bytes_append)
  have v1: "dal_view ?s v" by (rule pw.field_write [OF v h]) (simp add: CLI_SIZE_OFF_def)
  have lo: "unat ?a mod 8 = 0" "unat p \<le> unat ?a" "unat ?a + length (str @ [0 :: u8]) \<le> unat p + unat (bk_size k)"
    using u [of 24] aligned64_mod8 [OF a(1)] n by (simp_all add: CLI_NODE_SZ_def)
  note m = memcpy_block [OF v1 k lo(1,2) order_refl lo(3)]
  show "dal_view s' v" using m by (simp only: e)
  show "\<exists>c. s' = repool c s" using m by (auto simp: e put_word_pool)
  have "words s' (p + CLI_SIZE_OFF) = 25 + of_nat (length str)"
  proof -
    have "unat (p + CLI_SIZE_OFF) < unat ?a" using u [of 16] u [of 24] by (simp add: CLI_SIZE_OFF_def CLI_NODE_SZ_def)
    then show ?thesis using m by (simp add: e)
  qed
  moreover have "reads (words s') ?a (str @ [0])" unfolding e by (rule reads_memcpy) (use lo(3) a(2) in simp)
  ultimately show "node_data (words s') p str" using z by (simp add: node_data_def)
  show "words s' x = words s x" if "\<not> in_payload p k x"
  proof -
    have i: "in_payload p k (p + CLI_SIZE_OFF)" using u [of 16] n by (simp add: CLI_SIZE_OFF_def in_payload_def)
    have "unat x < unat ?a \<or> unat p + unat (bk_size k) \<le> unat x" using that lo(2) by (auto simp: in_payload_def)
    then have "words s' x = words ?s x" using m by (simp only: e)
    with i that show ?thesis by auto
  qed
qed

text \<open>The words of the nodes \<open>S\<close> behind their two pointers are the same.\<close>

definition data_kept :: "(u64 \<rightharpoonup> blk) \<Rightarrow> u64 set \<Rightarrow> (u64 \<Rightarrow> u64) \<Rightarrow> (u64 \<Rightarrow> u64) \<Rightarrow> bool" where
  "data_kept v S m m' \<longleftrightarrow> (\<forall>n j x. n \<in> S \<longrightarrow> v n = Some j \<longrightarrow> unat n + 16 \<le> unat x \<longrightarrow> in_payload n j x \<longrightarrow> m' x = m x)"

lemma api_insert:
  assumes s: "service s v ns L" and k: "v p = Some k" "bk_owners k = cx_uid (cli_cx s) # replicate 11 0" "24 \<le> unat (bk_size k)"
    and p: "p \<notin> set (db_head s # ns)"
  obtains c where "list_api DAL_LIST_OP_INSERT p s = Some (p, repool c s)"
    "dal_view (repool c s) (v(p \<mapsto> k\<lparr>bk_owners := cx_uid (cli_cx s) # cx_uid (db_cx s) # replicate 10 0\<rparr>))"
    "dal_ok (repool c s) (db_head s) (p # ns)"
    "data_kept v (set (p # ns)) (words s) (words (repool c s))"
proof -
  let ?h = "db_head s" and ?su = "cx_uid (db_cx s)" and ?cu = "cx_uid (cli_cx s)"
  define v2 where "v2 = v(p \<mapsto> k\<lparr>bk_owners := ?cu # ?su # replicate 10 0\<rparr>)"
  have sv: "dal_view s v" "dal_live v ?h ns" "dal_ok s ?h ns" "dm_mutex s ?h = mutex_new" and pa: "parties (db_cx s) (cli_cx s)"
    using s by (simp_all add: service_def)
  have "?su \<notin> set (bk_owners k)" "?cu \<noteq> 0" "libsrpc_shmem_get (db_cx s)" "?su \<noteq> 0" using k(2) pa by (auto simp: parties_def)
  then obtain c1 where c1: "libsrpc_shmem_link p (db_cx s) (dm_shm s) = Some (0, db_cx s, (dm_shm s)\<lparr>sm_pool := c1\<rparr>)"
    "pool_view (sm_poolptr (dm_shm s)) c1 v2" "spares {} v (sm_pool (dm_shm s)) c1"
    using link_run [OF sv(1) [unfolded dal_view_def] _ _ k(1) _ k(2), of "db_cx s"] unfolding v2_def by blast
  let ?s = "repool c1 s"
  have as: "as_db (libsrpc_shmem_link p) s = Some (0, ?s)" by (simp add: as_db_def c1(1) repool_def)
  have w1: "words ?s x = words s x" if "v q = Some j" "in_payload q j x" for q j x
    using c1(3) that by (simp add: spares_def words_def)
  have l2: "dal_live v2 ?h (p # ns)" using sv(2) p k(3) by (auto simp: dal_live_def v2_def holds_def)
  have ok1: "dal_ok ?s ?h ns"
  proof -
    have "words ?s a = words s a" if a: "a \<in> link_words ?h ns" for a
    proof -
      obtain q j where "v q = Some j" "in_payload q j a" by (rule link_words_inside [OF sv(1,2) a])
      then show ?thesis by (rule w1)
    qed
    then show ?thesis using dal_ok_cong [of ?h ns ?s s] sv(3) by blast
  qed
  have v1: "dal_view ?s v2" and mx: "dm_mutex ?s ?h = mutex_new" using c1(2) sv(4) by simp_all
  obtain c where c: "dal_list_insert (db_tid s) ?h p ?s = Some (0, repool c ?s)" "dal_view (repool c ?s) v2" "dal_ok (repool c ?s) ?h (p # ns)"
    "\<forall>a. a \<notin> link_words ?h (p # ns) \<longrightarrow> words (repool c ?s) a = words ?s a"
    using dal_insert_run [OF v1 l2 ok1 mx, of "db_tid s"] by metis
  have "list_api DAL_LIST_OP_INSERT p s = Some (p, repool c s)"
    using c(1) by (simp add: list_api_def as DAL_LIST_OP_INSERT_def DAL_LIST_OP_GET_HEAD_def Let_def)
  then show thesis
  proof (rule that)
    show "dal_view (repool c s) (v(p \<mapsto> k\<lparr>bk_owners := ?cu # ?su # replicate 10 0\<rparr>))" using c(2) by (simp add: v2_def)
    show "dal_ok (repool c s) ?h (p # ns)" using c(3) by simp
    show "data_kept v (set (p # ns)) (words s) (words (repool c s))" unfolding data_kept_def
    proof (intro allI impI)
      fix n j x assume n: "n \<in> set (p # ns)" "v n = Some j" "unat n + 16 \<le> unat x" "in_payload n j x"
      obtain j' where j: "v2 n = Some j'" "in_payload n j' x" using n(2,4) k(1) by (cases "n = p") (auto simp: v2_def in_payload_def)
      have "x \<notin> link_words ?h (p # ns)" by (rule data_not_link [OF v1 l2 n(1) j n(3)])
      with c(4) w1 [OF n(2,4)] show "words (repool c s) x = words s x" by simp
    qed
  qed
qed

text \<open>The argument as a C string.\<close>

definition str_of :: "u8 list \<Rightarrow> u8 list" where "str_of data = takeWhile (\<lambda>c. c \<noteq> 0) data"

lemma str_of_facts: "strlen data = length (str_of data)" "take (strlen data) data = str_of data" "0 \<notin> set (str_of data)"
  using takeWhile_eq_take [of "\<lambda>c. c \<noteq> 0" data] by (auto simp: strlen_def str_of_def dest: set_takeWhileD)

text \<open>The release of a node by the client once the executor has it.\<close>

lemma handed_over:
  assumes s: "service s v ns L" and p: "v p = Some k" "25 + length str \<le> unat (bk_size k)" "p \<notin> set (db_head s # ns)" "node_data (words s) p str"
    and c: "dal_view (repool c s) v'" "v' = v(p \<mapsto> k\<lparr>bk_owners := cx_uid (cli_cx s) # cx_uid (db_cx s) # replicate 10 0\<rparr>)"
      "dal_ok (repool c s) (db_head s) (p # ns)"
      "data_kept v (set (p # ns)) (words s) (words (repool c s))"
  obtains c' e k' where "as_cli (libsrpc_shmem_free p) (repool c s) = Some ((), (repool c' s)\<lparr>cli_cx := set_tls e (cli_cx s)\<rparr>)"
    "service ((repool c' s)\<lparr>cli_cx := set_tls e (cli_cx s)\<rparr>) (v(p \<mapsto> k')) (p # ns) (str # L)"
proof -
  let ?h = "db_head s" and ?su = "cx_uid (db_cx s)" and ?cu = "cx_uid (cli_cx s)" and ?s = "repool c s"
  define us where "us = without ?cu (?cu # ?su # replicate 10 0)"
  define k' where "k' = k\<lparr>bk_owners := us\<rparr>"
  have sv: "dal_view s v" "dal_live v ?h ns" "dm_mutex s ?h = mutex_new" "list_all2 (node_ok (words s) v ?su) ns L" and pa: "parties (db_cx s) (cli_cx s)"
    and ch: "can_hold (current_req (cli_cx s)) ?su (dm_shm s)" and hk: "\<exists>k. v ?h = Some k \<and> ?su \<in> set (bk_owners k)"
    using s by (simp_all add: service_def)
  have us: "us = 0 # ?su # replicate 10 0" "\<not> unowned us" "?su \<in> set us" "unowned (without ?su us)"
    using pa by (auto simp: us_def without_def unowned_def parties_def)
  have "v' p = Some (k\<lparr>bk_owners := ?cu # ?su # replicate 10 0\<rparr>)" by (simp add: c(2))
  from free_run [OF c(1) [unfolded dal_view_def], of "cli_cx s", OF _ _ this] us(2) pa obtain e d where d:
    "libsrpc_shmem_free p (cli_cx s) (dm_shm ?s) = Some ((), set_tls e (cli_cx s), (dm_shm ?s)\<lparr>sm_pool := d\<rparr>)"
    "pool_view (sm_poolptr (dm_shm s)) d (v'(p \<mapsto> k'))" "spares {} v' c d"
    by (auto simp: parties_def us_def k'_def)
  have vv: "v'(p \<mapsto> k') = v(p \<mapsto> k')" by (simp add: c(2))
  let ?t = "(repool d s)\<lparr>cli_cx := set_tls e (cli_cx s)\<rparr>"
  have f: "as_cli (libsrpc_shmem_free p) ?s = Some ((), ?t)" using d(1) by (simp add: as_cli_def repool_def)
  have vt: "dal_view ?t (v(p \<mapsto> k'))" using d(2) vv by simp
  have lv: "dal_live v' ?h (p # ns)" and lt: "dal_live (v(p \<mapsto> k')) ?h (p # ns)" using sv(2) p by (auto simp: dal_live_def holds_def c(2) k'_def)
  have wt: "words ?t x = words ?s x" if "v' q = Some j" "in_payload q j x" for q j x using d(3) that by (simp add: spares_def)
  have ok: "dal_ok ?t ?h (p # ns)"
  proof -
    have "words ?t a = words ?s a" if a: "a \<in> link_words ?h (p # ns)" for a
    proof -
      obtain q j where "v' q = Some j" "in_payload q j a" by (rule link_words_inside [OF c(1) lv a])
      then show ?thesis by (rule wt)
    qed
    then show ?thesis using dal_ok_cong [of ?h "p # ns" ?t ?s] c(3) by blast
  qed
  have w: "words ?t x = words s x" if n: "n \<in> set (p # ns)" "v n = Some j" "unat n + 16 \<le> unat x" "in_payload n j x" for n j x
  proof -
    obtain j' where "v' n = Some j'" "in_payload n j' x" using n(2,4) p(1) by (cases "n = p") (auto simp: c(2) in_payload_def)
    moreover have "words ?s x = words s x" using c(4) n unfolding data_kept_def by blast
    ultimately show ?thesis using wt by simp
  qed
  have "node_data (words ?t) p str"
    using node_data_frame [OF sv(1) p(1,2), of "words ?t" "words s"] w [of p k] p(1,4) by simp
  then have "node_ok (words ?t) (v(p \<mapsto> k')) ?su p str" using p(2) us(3,4) by (auto simp: node_ok_def k'_def)
  moreover have "list_all2 (node_ok (words ?t) (v(p \<mapsto> k')) ?su) ns L"
  proof (rule list.rel_mono_strong [OF sv(4)])
    fix n str' assume n: "n \<in> set ns" "node_ok (words s) v ?su n str'"
    show "node_ok (words ?t) (v(p \<mapsto> k')) ?su n str'"
    proof (rule node_ok_frame [OF sv(1) n(2)])
      show "(v(p \<mapsto> k')) n = v n" using n(1) p(3) by auto
      show "words ?t x = words s x" if "v n = Some j" "unat n + 16 \<le> unat x" "in_payload n j x" for j x
        by (rule w [OF _ that]) (use n(1) in simp)
    qed
  qed
  moreover have "parties (db_cx s) (set_tls e (cli_cx s))" using pa by (simp add: parties_def)
  ultimately have "service ?t (v(p \<mapsto> k')) (p # ns) (str # L)"
    using vt lt ok sv(3) ch hk p(3) by (auto simp: service_def)
  with f show thesis by (rule that)
qed

lemma service_pool:
  assumes s: "service s v ns L" and d: "dal_view ((repool c s)\<lparr>cli_cx := set_tls e (cli_cx s)\<rparr>) v'" and b: "\<And>q. q \<in> set (db_head s # ns) \<Longrightarrow> v' q = v q"
    and w: "\<And>q k a. q \<in> set (db_head s # ns) \<Longrightarrow> v q = Some k \<Longrightarrow> in_payload q k a \<Longrightarrow> mem c a = words s a"
  shows "service ((repool c s)\<lparr>cli_cx := set_tls e (cli_cx s)\<rparr>) v' ns L"
  by (rule service_frame [OF s d]) (use s b w in \<open>simp_all add: service_def parties_def\<close>)

text \<open>Every node and the head are in the view.\<close>

lemma service_blocks:
  assumes "service s v ns L" "q \<in> set (db_head s # ns)" shows "v q \<noteq> None"
  using assms by (auto simp: service_def dal_live_def holds_def)

text \<open>The node of the client before it is handed over: allocated and filled in, or no memory.\<close>

lemma new_node:
  assumes s: "service s v ns L" and d: "str \<noteq> []" "length str \<le> 871" "0 \<notin> set str"
  defines "sz \<equiv> 25 + of_nat (length str) :: u64"
  obtains (full) s1 where "as_cli (libsrpc_shmem_malloc sz) s = Some (0, s1)" "service s1 v ns L" "cli_out s1 = cli_out s" "\<not> room (sm_pool (dm_shm s)) sz"
  | (node) p k s1 where "as_cli (libsrpc_shmem_malloc sz) s = Some (p, s1)" "p \<noteq> 0" "v p = None" "cli_out s1 = cli_out s"
      "bk_owners k = cx_uid (cli_cx s) # replicate 11 0" "25 + length str \<le> unat (bk_size k)" "cx_uid (cli_cx s1) = cx_uid (cli_cx s)"
      "p \<notin> set (db_head s1 # ns)"
      "\<And>s4. s4 = put_byte (p + CLI_NODE_SZ + of_nat (length str)) 0 (memcpy_bytes (p + CLI_NODE_SZ) str (put_word (p + CLI_SIZE_OFF) sz s1)) \<Longrightarrow>
        service s4 (v(p \<mapsto> k)) ns L \<and> node_data (words s4) p str \<and> (\<exists>c. s4 = repool c s1)"
proof -
  have u: "unat sz = 25 + length str"
  proof -
    have "unat (of_nat (length str) :: u64) = length str" by (rule unat_of_nat_small) (use d(2) in simp)
    then show ?thesis using unat_add_nowrap [of 25 "of_nat (length str)"] d(2) by (simp add: sz_def)
  qed
  have sv: "dal_view s v" and pa: "parties (db_cx s) (cli_cx s)" using s by (simp_all add: service_def)
  have sz: "sz \<noteq> 0" "unat sz \<le> 896" using u d(2) by auto
  obtain p e c where m: "libsrpc_shmem_malloc sz (cli_cx s) (dm_shm s) = Some (p, set_tls e (cli_cx s), (dm_shm s)\<lparr>sm_pool := c\<rparr>)"
    "spares {} v (sm_pool (dm_shm s)) c" "room (sm_pool (dm_shm s)) sz \<longrightarrow> p \<noteq> 0"
    "p = 0 \<and> pool_view (sm_poolptr (dm_shm s)) c v \<or> p \<noteq> 0 \<and> v p = None \<and> (\<exists>n. unat sz \<le> unat n \<and> pool_view (sm_poolptr (dm_shm s)) c (v(p \<mapsto>
       \<lparr>bk_size = n, bk_owners = cx_uid (cli_cx s) # replicate 11 0, bk_type = 0, bk_dc = False\<rparr>)))"
    using malloc_run [OF sv [unfolded dal_view_def] _ _ sz, of "cli_cx s"] pa unfolding parties_def by metis
  let ?s1 = "(repool c s)\<lparr>cli_cx := set_tls e (cli_cx s)\<rparr>"
  have a: "as_cli (libsrpc_shmem_malloc sz) s = Some (p, ?s1)" by (simp add: as_cli_def m(1) repool_def)
  have w: "mem c x = words s x" if "v q = Some j" "in_payload q j x" for q j x using m(2) that by (simp add: spares_def words_def)
  have o: "cli_out ?s1 = cli_out s" "cx_uid (cli_cx ?s1) = cx_uid (cli_cx s)" by simp_all
  show thesis
  proof (cases "p = 0")
    case True
    have "service ?s1 v ns L" by (rule service_pool [OF s]) (use m(4) True w in auto)
    with a True m(3) o show thesis by (intro full [of ?s1]) auto
  next
    case False
    then obtain n where n: "v p = None" "unat sz \<le> unat n"
      "pool_view (sm_poolptr (dm_shm s)) c (v(p \<mapsto> \<lparr>bk_size = n, bk_owners = cx_uid (cli_cx s) # replicate 11 0, bk_type = 0, bk_dc = False\<rparr>))"
      using m(4) by blast
    define k where "k = \<lparr>bk_size = n, bk_owners = cx_uid (cli_cx s) # replicate 11 0, bk_type = 0, bk_dc = False\<rparr>"
    have pn: "q \<noteq> p" if "q \<in> set (db_head s # ns)" for q using service_blocks [OF s that] n(1) by auto
    have s1: "service ?s1 (v(p \<mapsto> k)) ns L"
      by (rule service_pool [OF s]) (use n(3) pn w in \<open>auto simp: k_def\<close>)
    have v1: "dal_view ?s1 (v(p \<mapsto> k))" using n(3) by (simp add: k_def)
    have ks: "(v(p \<mapsto> k)) p = Some k" "25 + length str \<le> unat (bk_size k)" using n(2) u by (simp_all add: k_def)
    show thesis
    proof (rule node [OF a False n(1) o(1) _ ks(2) o(2)])
      show "p \<notin> set (db_head ?s1 # ns)" using pn by auto
      show "bk_owners k = cx_uid (cli_cx s) # replicate 11 0" by (simp add: k_def)
      fix s4
      assume s4: "s4 = put_byte (p + CLI_NODE_SZ + of_nat (length str)) 0 (memcpy_bytes (p + CLI_NODE_SZ) str (put_word (p + CLI_SIZE_OFF) sz ?s1))"
      note fl = fill_node [OF v1 ks d(3), folded sz_def s4 [unfolded sz_def], unfolded sz_def [symmetric]]
      obtain c4 where c4: "s4 = repool c4 ?s1" using fl(2) by blast
      have "service s4 (v(p \<mapsto> k)) ns L"
      proof (rule service_frame [OF s1 fl(1)])
        fix q j x assume q: "q \<in> set (db_head ?s1 # ns)" "(v(p \<mapsto> k)) q = Some j" "in_payload q j x"
        have "q \<noteq> p" using q(1) pn by simp
        then have "\<not> in_payload p k x" using pw.blocks_apart [OF v1 q(2) ks(1) _ q(3)] by simp
        then show "words s4 x = words ?s1 x" by (rule fl(4))
      qed (use s1 in \<open>simp_all add: c4 service_def\<close>)
      with fl(2,3) show "service s4 (v(p \<mapsto> k)) ns L \<and> node_data (words s4) p str \<and> (\<exists>c. s4 = repool c ?s1)" by blast
    qed
  qed
qed

text \<open>\<^verbatim>\<open>list_cli_add\<close>: the string is in front of the others in a node that belongs to the executor alone, or there was no memory.\<close>

lemma add_run:
  assumes s: "service s v ns L" and d: "str_of data \<noteq> []" "length (str_of data) \<le> 871"
  obtains rc s' where "list_cli_add list_api data s = Some (rc, s')" "cli_out s' = cli_out s"
    "rc = 0 \<and> (\<exists>p k. v p = None \<and> service s' (v(p \<mapsto> k)) (p # ns) (str_of data # L)) \<or>
     rc = - 1 \<and> service s' v ns L \<and> \<not> room (sm_pool (dm_shm s)) (25 + of_nat (length (str_of data)))"
proof -
  let ?str = "str_of data"
  note e = str_of_facts [of data]
  have sz: "CLI_NODE_SZ + of_nat (length ?str) + 1 = 25 + (of_nat (length ?str) :: u64)" by (simp add: CLI_NODE_SZ_def)
  show thesis
  proof (cases rule: new_node [OF s d e(3), case_names full node])
    case (full s1)
    then have "list_cli_add list_api data s = Some (- 1, s1)" using d(1) e(1) by (simp add: list_cli_add_def Let_def sz)
    with full show thesis by (intro that [of "- 1" s1]) auto
  next
    case (node p k s1)
    define s4 where "s4 = put_byte (p + CLI_NODE_SZ + of_nat (length ?str)) 0
      (memcpy_bytes (p + CLI_NODE_SZ) ?str (put_word (p + CLI_SIZE_OFF) (25 + of_nat (length ?str)) s1))"
    obtain c4 where s4: "service s4 (v(p \<mapsto> k)) ns L" "node_data (words s4) p ?str" "s4 = repool c4 s1" using node(9) [OF s4_def] by blast
    have f4: "db_head s4 = db_head s1" "cx_uid (cli_cx s4) = cx_uid (cli_cx s)" "cli_out s4 = cli_out s" using s4(3) node(4,7) by simp_all
    have pn: "p \<notin> set (db_head s4 # ns)" using node(8) f4(1) by simp
    have kp: "(v(p \<mapsto> k)) p = Some k" "bk_owners k = cx_uid (cli_cx s4) # replicate 11 0" "24 \<le> unat (bk_size k)" using node(5,6) f4(2) by simp_all
    obtain c5 where c5: "list_api DAL_LIST_OP_INSERT p s4 = Some (p, repool c5 s4)"
      "dal_view (repool c5 s4) ((v(p \<mapsto> k))(p \<mapsto> k\<lparr>bk_owners := cx_uid (cli_cx s4) # cx_uid (db_cx s4) # replicate 10 0\<rparr>))"
      "dal_ok (repool c5 s4) (db_head s4) (p # ns)"
      "data_kept (v(p \<mapsto> k)) (set (p # ns)) (words s4) (words (repool c5 s4))"
      by (rule api_insert [OF s4(1) kp pn])
    obtain c6 e6 k6 where c6: "as_cli (libsrpc_shmem_free p) (repool c5 s4) = Some ((), (repool c6 s4)\<lparr>cli_cx := set_tls e6 (cli_cx s4)\<rparr>)"
      "service ((repool c6 s4)\<lparr>cli_cx := set_tls e6 (cli_cx s4)\<rparr>) ((v(p \<mapsto> k))(p \<mapsto> k6)) (p # ns) (?str # L)"
      by (rule handed_over [OF s4(1) kp(1) node(6) pn s4(2) c5(2) refl c5(3,4)])
    let ?s6 = "(repool c6 s4)\<lparr>cli_cx := set_tls e6 (cli_cx s4)\<rparr>"
    have "list_cli_add list_api data s = Some (0, ?s6)"
      using d(1) node(1,2) e(1,2) c5(1) c6(1) by (simp add: list_cli_add_def Let_def sz flip: s4_def)
    then show thesis by (rule that) (use f4(3) c6(2) node(3) in \<open>auto intro!: exI [of _ p]\<close>)
  qed
qed

text \<open>A call that is not delivered: the client releases the node again.\<close>

lemma add_refused:
  assumes s: "service s v ns L" and d: "str_of data \<noteq> []" "length (str_of data) \<le> 871"
  obtains rc s' where "list_cli_add (\<lambda>_ _ s. Some (0, s)) data s = Some (rc, s')" "rc \<in> {- 1, - ENOMEM}" "service s' v ns L"
proof -
  let ?str = "str_of data"
  note e = str_of_facts [of data]
  have sz: "CLI_NODE_SZ + of_nat (length ?str) + 1 = 25 + (of_nat (length ?str) :: u64)" by (simp add: CLI_NODE_SZ_def)
  show thesis
  proof (cases rule: new_node [OF s d e(3), case_names full node])
    case (full s1)
    then have "list_cli_add (\<lambda>_ _ s. Some (0, s)) data s = Some (- 1, s1)" using d(1) e(1) by (simp add: list_cli_add_def Let_def sz)
    with full show thesis by (intro that [of "- 1" s1]) auto
  next
    case (node p k s1)
    define s4 where "s4 = put_byte (p + CLI_NODE_SZ + of_nat (length ?str)) 0
      (memcpy_bytes (p + CLI_NODE_SZ) ?str (put_word (p + CLI_SIZE_OFF) (25 + of_nat (length ?str)) s1))"
    obtain c4 where s4: "service s4 (v(p \<mapsto> k)) ns L" "s4 = repool c4 s1" using node(9) [OF s4_def] by blast
    have cu: "cx_uid (cli_cx s4) = cx_uid (cli_cx s)" "p \<notin> set (db_head s4 # ns)" using s4(2) node(7,8) by simp_all
    have pa: "parties (db_cx s4) (cli_cx s4)" and v4: "dal_view s4 (v(p \<mapsto> k))" using s4(1) by (simp_all add: service_def)
    have un: "unowned (without (cx_uid (cli_cx s4)) (bk_owners k))" using node(5) cu(1) by (simp add: without_def unowned_def)
    from free_run [OF v4 [unfolded dal_view_def], of "cli_cx s4" p k] pa node(5) cu(1) un obtain e5 c5 where c5:
      "libsrpc_shmem_free p (cli_cx s4) (dm_shm s4) = Some ((), set_tls e5 (cli_cx s4), (dm_shm s4)\<lparr>sm_pool := c5\<rparr>)"
      "pool_view (sm_poolptr (dm_shm s4)) c5 ((v(p \<mapsto> k))(p := None))" "spares {p} (v(p \<mapsto> k)) (sm_pool (dm_shm s4)) c5"
      by (auto simp: parties_def)
    have vp: "(v(p \<mapsto> k))(p := None) = v" using node(3) by (simp add: fun_upd_idem)
    let ?s5 = "(repool c5 s4)\<lparr>cli_cx := set_tls e5 (cli_cx s4)\<rparr>"
    have "service ?s5 v ns L"
    proof (rule service_pool [OF s4(1)])
      show "dal_view ?s5 v" using c5(2) vp by simp
      show "v q = (v(p \<mapsto> k)) q" if "q \<in> set (db_head s4 # ns)" for q using that cu(2) by auto
      show "mem c5 a = words s4 a" if "q \<in> set (db_head s4 # ns)" "(v(p \<mapsto> k)) q = Some j" "in_payload q j a" for q j a
      proof -
        have "q \<notin> {p}" using that(1) cu(2) by auto
        with that(2,3) c5(3) show ?thesis unfolding spares_def words_def by blast
      qed
    qed
    moreover have fr: "as_cli (libsrpc_shmem_free p) s4 = Some ((), ?s5)" using c5(1) by (simp add: as_cli_def repool_def)
    have "list_cli_add (\<lambda>_ _ s. Some (0, s)) data s = Some (- ENOMEM, ?s5)"
      using d(1) node(1,2) e(1,2) fr by (simp add: list_cli_add_def Let_def sz flip: s4_def)
    ultimately show thesis by (intro that [of "- ENOMEM" ?s5]) auto
  qed
qed

section \<open>Removing a node\<close>

lemma dal_ok_mutex [simp]: "dal_ok (put_mutex h m s) g ns = dal_ok s g ns"
  by (simp add: dal_ok_def fields_words)

lemma api_remove:
  assumes s: "service s v (us @ n # vs) (L1 @ str # L2)" and l: "length us = length L1"
  obtains s' where "list_api DAL_LIST_OP_REMOVE n s = Some (n, s')" "service s' (v(n := None)) (us @ vs) (L1 @ L2)" "cli_out s' = cli_out s"
proof -
  let ?h = "db_head s" and ?su = "cx_uid (db_cx s)" and ?ns = "us @ n # vs" and ?t = "db_tid s"
  have sv: "dal_view s v" "dal_live v ?h ?ns" "dal_ok s ?h ?ns" "dm_mutex s ?h = mutex_new"
    "list_all2 (node_ok (words s) v ?su) ?ns (L1 @ str # L2)" and pa: "parties (db_cx s) (cli_cx s)"
    and ch: "can_hold (current_req (cli_cx s)) ?su (dm_shm s)" and hk: "\<exists>k. v ?h = Some k \<and> ?su \<in> set (bk_owners k)"
    using s by (simp_all add: service_def)
  have na: "list_all2 (node_ok (words s) v ?su) (us @ vs) (L1 @ L2)" "node_ok (words s) v ?su n str"
    using sv(5) l by (auto simp: list_all2_append)
  obtain k where k: "v n = Some k" "?su \<in> set (bk_owners k)" "unowned (without ?su (bk_owners k))" using na(2) by (auto simp: node_ok_def)
  have dn: "n \<noteq> ?h" "n \<notin> set (us @ vs)" "?h \<notin> set ?ns" "?h \<noteq> 0" using sv(2) dal_live_row(1) [OF sv(1,2)] by (auto simp: dal_live_def apart_def)
  let ?s1 = "put_mutex ?h (held ?t 1) s"
  obtain c2 where c2: "dal_list_remove ?t ?h n ?s1 = Some (0, repool c2 ?s1)" "dal_view (repool c2 ?s1) v" "dal_ok (repool c2 ?s1) ?h (us @ vs)"
    "\<forall>a. a \<notin> link_words ?h ?ns \<longrightarrow> words (repool c2 ?s1) a = words ?s1 a"
    using dal_remove_run [of ?s1 v ?h us n vs 1 ?t] sv(1-3) by (simp only: put_mutex_words dal_ok_mutex) (metis fun_upd_same one_neq_zero)
  have "pool_view (sm_poolptr (dm_shm (repool c2 ?s1))) (sm_pool (dm_shm (repool c2 ?s1))) v" using c2(2) by (simp add: dal_view_def)
  from free_run [OF this, of "db_cx s" n k] pa k obtain e c where c:
    "libsrpc_shmem_free n (db_cx s) (dm_shm (repool c2 ?s1)) = Some ((), set_tls e (db_cx s), (dm_shm (repool c2 ?s1))\<lparr>sm_pool := c\<rparr>)"
    "pool_view (sm_poolptr (dm_shm s)) c (v(n := None))" "spares {n} v c2 c"
    by (auto simp: parties_def)
  let ?s' = "(repool c s)\<lparr>db_cx := set_tls e (db_cx s)\<rparr>"
  have f: "as_db (libsrpc_shmem_free n) (repool c2 ?s1) = Some ((), put_mutex ?h (held ?t 1) ?s')"
    using c(1) by (simp add: as_db_def repool_def put_mutex_def)
  have body: "remove_if ?t ?h n n ?s1 = Some (Some n, ?s')"
  proof -
    have "dal_list_unlock ?t ?h (put_mutex ?h (held ?t 1) ?s') = (0, ?s')"
      using dal_unlock_last [of "put_mutex ?h (held ?t 1) ?s'" ?h ?t] sv(4) by simp
    then show ?thesis using c2(1) f by (simp add: remove_if_def)
  qed
  have fi: "fold (\<lambda>_ s. s) us ?s1 = ?s1" by (induction us) auto
  have "dal_list_foreach ?h (remove_if ?t ?h n) ?s1 = Some (Some n, ?s')"
    by (rule dal_foreach_until [where us = us and n = n and vs = vs and g = "\<lambda>_ s. s"])
       (use sv(3) dn body fi in \<open>auto simp: dal_ok_def remove_if_def\<close>)
  then have run: "list_api DAL_LIST_OP_REMOVE n s = Some (n, ?s')"
    using dal_lock_free [OF sv(4) dn(4), of ?t]
    by (simp add: list_api_def DAL_LIST_OP_REMOVE_def DAL_LIST_OP_INSERT_def DAL_LIST_OP_GET_HEAD_def Let_def)
  have lv: "dal_live v ?h (us @ vs)" "dal_live (v(n := None)) ?h (us @ vs)" using sv(2) dn by (auto simp: dal_live_def holds_def)
  have w: "words ?s' x = mem c2 x" if "v q = Some j" "q \<noteq> n" "in_payload q j x" for q j x using c(3) that by (simp add: spares_def)
  have ok: "dal_ok ?s' ?h (us @ vs)"
  proof -
    have "words ?s' a = words (repool c2 ?s1) a" if a: "a \<in> link_words ?h (us @ vs)" for a
    proof -
      obtain q j where "q \<in> set (?h # us @ vs)" "v q = Some j" "in_payload q j a" by (rule link_words_inside [OF sv(1) lv(1) a])
      then show ?thesis using w [of q j a] dn(1,2) by auto
    qed
    then show ?thesis using dal_ok_cong [of ?h "us @ vs" ?s' "repool c2 ?s1"] c2(3) by blast
  qed
  have "list_all2 (node_ok (words ?s') (v(n := None)) ?su) (us @ vs) (L1 @ L2)"
  proof (rule list.rel_mono_strong [OF na(1)])
    fix m str' assume m: "m \<in> set (us @ vs)" "node_ok (words s) v ?su m str'"
    then have mn: "m \<noteq> n" "m \<in> set ?ns" using dn(2) by auto
    show "node_ok (words ?s') (v(n := None)) ?su m str'"
    proof (rule node_ok_frame [OF sv(1) m(2)])
      show "(v(n := None)) m = v m" using mn by simp
      show "words ?s' x = words s x" if j: "v m = Some j" "unat m + 16 \<le> unat x" "in_payload m j x" for j x
        using data_not_link [OF sv(1,2) mn(2) j(1,3,2)] c2(4) w [OF j(1) mn(1) j(3)] by simp
    qed
  qed
  then have "service ?s' (v(n := None)) (us @ vs) (L1 @ L2)"
    using ok lv c(2) pa ch hk sv(4) dn(1) by (auto simp: service_def parties_def)
  with run show thesis by (rule that) simp
qed

section \<open>Holding the memory of the executor\<close>

lemma first_empty_exists: "0 \<in> set l \<Longrightarrow> \<exists>i. first_empty j l = Some i"
  by (induction l arbitrary: j) auto

lemma gc_lock_twice: "set_gc_lock req l (set_gc_lock req l' sm) = set_gc_lock req l sm"
  by (simp add: set_gc_lock_def put_req_def)

lemma gc_lock_same: "set_gc_lock req (gc_lock_uid (sm_reqs sm req)) sm = sm"
  by (simp add: set_gc_lock_def put_req_def)

lemma gc_lock_pool: "set_gc_lock req l (sm\<lparr>sm_pool := c\<rparr>) = (set_gc_lock req l sm)\<lparr>sm_pool := c\<rparr>"
  by (simp add: set_gc_lock_def put_req_def)

lemma hold_run:
  assumes h: "can_hold (current_req cx) uid sm" and cx: "libsrpc_shmem_get cx" and v: "pool_view (sm_poolptr sm) (sm_pool sm) v"
    and k: "v p = Some k" "uid \<in> set (bk_owners k)" "uid \<noteq> 0"
  obtains i c sm' where "libsrpc_shmem_proc_lock 0 p cx sm = Some (int i, sm'\<lparr>sm_pool := c\<rparr>)" "sm_pool sm' = sm_pool sm" "sm_poolptr sm' = sm_poolptr sm"
    "pool_view (sm_poolptr sm) c v" "mem c = mem (sm_pool sm)" "libsrpc_shmem_proc_unlock (int i) cx (sm'\<lparr>sm_pool := c\<rparr>) = (0, sm\<lparr>sm_pool := c\<rparr>)"
proof -
  let ?r = "current_req cx" and ?l = "gc_lock_uid (sm_reqs sm (current_req cx))"
  have nc: "\<not> libsrpc_req_is_corrupted ?r None sm" "length ?l = 4" "0 \<in> set ?l" using h by (simp_all add: can_hold_def)
  obtain off where off: "libsrpc_req_get_response_fast ?r 0 sm = Some off" "resp_uid (get_resp sm ?r off) = uid"
    "libsrpc_proc_is_valid sm (hp_proc (get_resp sm ?r off))" "proc_uid (sm_procs sm (hp_proc (get_resp sm ?r off))) = uid"
    using h by (auto simp: can_hold_def)
  obtain i where i: "first_empty 0 ?l = Some i" using first_empty_exists nc(3) by blast
  then have il: "i < 4" "?l ! i = 0" using first_empty_Some [OF i] nc(2) by simp_all
  obtain bs where bs: "sm_poolptr sm \<noteq> 0" "tlsf_inv (sm_pool sm) bs" "heap_abs (sm_pool sm) bs = v" using v by (auto simp: pool_view_def)
  from tlsf_check_uid_run [OF bs(2), of p k "sm_poolptr sm" uid "cx_caller cx"] k bs obtain c where c:
    "tlsf_check_uid (cx_caller cx) (sm_poolptr sm) p uid (sm_pool sm) = Some (1, c)" "tlsf_inv c bs" "heap_abs c bs = v" "mem c = mem (sm_pool sm)"
    by auto
  let ?sm = "set_gc_lock ?r (?l[i := uid]) sm"
  have q: "sm_pool ?sm = sm_pool sm" "sm_poolptr ?sm = sm_poolptr sm" "sm_procs ?sm = sm_procs sm"
    by (simp_all add: set_gc_lock_def put_req_def)
  have "retnum (sm_reqs sm ?r) \<noteq> 0" using nc(1) by (auto simp: libsrpc_req_is_corrupted_def req_corrupted_def split: if_splits)
  then have rn: "0 < uint (retnum (sm_reqs sm ?r))" by (simp add: word_neq_0_conv word_less_def)
  have run: "libsrpc_shmem_proc_lock 0 p cx sm = Some (int i, ?sm\<lparr>sm_pool := c\<rparr>)"
    using cx nc(1) rn off i c(1) q
    by (simp add: libsrpc_shmem_proc_lock_def Let_def on_pool_def libsrpc_proc_is_valid_def)
  have gl: "gc_lock_uid (sm_reqs (?sm\<lparr>sm_pool := c\<rparr>) ?r) = ?l[i := uid]" by (simp add: set_gc_lock_def put_req_def)
  have nc': "\<not> libsrpc_req_is_corrupted ?r None (?sm\<lparr>sm_pool := c\<rparr>)"
    using nc(1) by simp
  have li: "?l[i := uid, i := 0] = ?l" using il(2) by (metis list_update_id list_update_overwrite)
  have un: "libsrpc_shmem_proc_unlock (int i) cx (?sm\<lparr>sm_pool := c\<rparr>) = (0, sm\<lparr>sm_pool := c\<rparr>)"
    using nc' il(1) gl li by (simp add: libsrpc_shmem_proc_unlock_def Let_def gc_lock_pool gc_lock_twice gc_lock_same)
  show thesis by (rule that [OF run q(1,2) _ c(4) un]) (use c bs(1) in \<open>auto simp: pool_view_def\<close>)
qed

lemma with_list_run:
  assumes s: "service s v ns L"
    and walk: "\<And>s'. words s' = words s \<Longrightarrow> dal_list_foreach (db_head s) walk s' = Some (r, s'\<lparr>cli_out := cli_out s' @ out\<rparr>)"
  obtains s' where "with_list list_api walk s = Some (Inr r, s')" "service s' v ns L" "cli_out s' = cli_out s @ out" "words s' = words s"
proof -
  let ?h = "db_head s" and ?su = "cx_uid (db_cx s)" and ?t = "cli_tid s"
  have sv: "dal_view s v" "dal_live v ?h ns" "dm_mutex s ?h = mutex_new" and pa: "parties (db_cx s) (cli_cx s)"
    and ch: "can_hold (current_req (cli_cx s)) ?su (dm_shm s)" using s by (simp_all add: service_def)
  obtain k where k: "v ?h = Some k" "?su \<in> set (bk_owners k)" using s by (auto simp: service_def)
  have hz: "?h \<noteq> 0" using dal_live_row(1) [OF sv(1,2)] by (simp add: apart_def)
  have "libsrpc_shmem_get (cli_cx s)" "?su \<noteq> 0" using pa by (simp_all add: parties_def)
  from hold_run [OF ch this(1) sv(1) [unfolded dal_view_def] k this(2)] obtain i c sm' where c:
    "libsrpc_shmem_proc_lock 0 ?h (cli_cx s) (dm_shm s) = Some (int i, sm'\<lparr>sm_pool := c\<rparr>)"
    "pool_view (sm_poolptr (dm_shm s)) c v" "mem c = words s"
    "libsrpc_shmem_proc_unlock (int i) (cli_cx s) (sm'\<lparr>sm_pool := c\<rparr>) = (0, (dm_shm s)\<lparr>sm_pool := c\<rparr>)"
    unfolding words_def by metis
  let ?s2 = "s\<lparr>dm_shm := sm'\<lparr>sm_pool := c\<rparr>\<rparr>"
  let ?s3 = "put_mutex ?h (held ?t 1) ?s2"
  let ?s5 = "?s2\<lparr>cli_out := cli_out s @ out\<rparr>" and ?s6 = "(repool c s)\<lparr>cli_out := cli_out s @ out\<rparr>"
  have l: "dal_list_lock ?t ?h ?s2 = Some (0, ?s3)" by (rule dal_lock_free) (simp_all add: sv(3) hz)
  have "words ?s3 = words s" using c(3) by (simp add: words_def)
  from walk [OF this] have w: "dal_list_foreach ?h walk ?s3 = Some (r, ?s3\<lparr>cli_out := cli_out s @ out\<rparr>)" by simp
  have u: "dal_list_unlock ?t ?h (?s3\<lparr>cli_out := cli_out s @ out\<rparr>) = (0, ?s5)"
    by (subst dal_unlock_last) (use sv(3) in \<open>cases s; simp add: put_mutex_def fun_upd_idem\<close>)+
  have cu: "cli_proc_unlock (int i) ?s5 = (0, ?s6)" using c(4) by (simp add: cli_proc_unlock_def repool_def)
  have tid: "cli_tid ?s2 = ?t" "cli_tid (?s3\<lparr>cli_out := cli_out s @ out\<rparr>) = ?t" by (simp_all add: cli_tid_def)
  have "with_list list_api walk s = Some (Inr r, ?s6)"
    using c(1) hz l w u cu tid by (simp add: with_list_def list_api_def cli_proc_lock_def Let_def)
  moreover have "service ?s6 v ns L"
    by (rule service_frame [OF s]) (use c(2,3) sv(3) pa ch in simp_all)
  ultimately show thesis by (rule that) (use c(3) in simp_all)
qed

section \<open>Deleting and printing\<close>

lemma service_rows:
  assumes "service s v ns L"
  shows "length ns = length L" "i < length ns \<Longrightarrow> node_data (words s) (ns ! i) (L ! i)" "circ (words s) (db_head s) ns" "db_head s \<notin> set ns"
  using assms by (auto simp: service_def list_all2_conv_all_nth node_ok_def dal_ok_def dal_live_def)

lemma delete_run:
  assumes s: "service s v ns L" and d: "str_of data \<noteq> []"
  obtains s' where "list_cli_delete list_api data s = Some (if str_of data \<in> set L then 0 else - ENOENT, s')" "cli_out s' = cli_out s"
    "if str_of data \<in> set L then \<exists>n \<in> set ns. service s' (v(n := None)) (remove1 n ns) (remove1 (str_of data) L) else service s' v ns L"
proof -
  let ?str = "str_of data" and ?P = "\<lambda>x (s :: list_sys). str_at (words s) (x + CLI_NODE_SZ) data"
  note r = service_rows [OF s]
  have P: "?P (ns ! i) s \<longleftrightarrow> L ! i = ?str" if "i < length ns" for i
    using reads_str_at [of "words s" "ns ! i + CLI_NODE_SZ" "L ! i" data] r(2) [OF that] by (auto simp: node_data_def str_of_def)
  have w: "dal_list_foreach (db_head s) (\<lambda>x s. Some (if ?P x s then Some x else None, s)) s' = Some (find (\<lambda>x. ?P x s) ns, s'\<lparr>cli_out := cli_out s' @ []\<rparr>)"
    if "words s' = words s" for s'
    using dal_foreach_find [of s' "db_head s" ns ?P] r(3,4) that by simp
  obtain s1 where s1: "with_list list_api (\<lambda>x s. Some (if ?P x s then Some x else None, s)) s = Some (Inr (find (\<lambda>x. ?P x s) ns), s1)"
    "service s1 v ns L" "cli_out s1 = cli_out s"
    using with_list_run [OF s w] by auto
  have nz: "strlen data \<noteq> 0" using d str_of_facts(1) [of data] by simp
  show thesis
  proof (cases "?str \<in> set L")
    case False
    have "\<not> ?P x s" if "x \<in> set ns" for x using that P False r(1) by (metis in_set_conv_nth)
    then have "find (\<lambda>x. ?P x s) ns = None" by (simp add: find_None_iff)
    then have "list_cli_delete list_api data s = Some (- ENOENT, s1)" using s1(1) nz by (simp add: list_cli_delete_def)
    with False s1 show thesis by (intro that [of s1]) auto
  next
    case True
    then obtain L1 L2 where L: "L = L1 @ ?str # L2" "?str \<notin> set L1" using split_list_first by metis
    define us n vs where "us = take (length L1) ns" and "n = ns ! length L1" and "vs = drop (Suc (length L1)) ns"
    have lt: "length L1 < length ns" using r(1) L(1) by simp
    have ns: "ns = us @ n # vs" "length us = length L1" using id_take_nth_drop [OF lt] lt by (simp_all add: us_def n_def vs_def)
    have Pn: "?P n s" using P [OF lt] L(1) by (simp add: n_def)
    have Pu: "\<not> ?P x s" if "x \<in> set us" for x
    proof -
      obtain i where i: "i < length us" "x = us ! i" using \<open>x \<in> set us\<close> by (metis in_set_conv_nth)
      then have "x = ns ! i" "i < length ns" "L ! i = L1 ! i" "L1 ! i \<in> set L1" using ns L(1) by (simp_all add: nth_append)
      with P [of i] L(2) show ?thesis by metis
    qed
    have "find (\<lambda>x. ?P x s) (us @ n # vs) = Some n" using Pn Pu by (induction us) auto
    then have f: "find (\<lambda>x. ?P x s) ns = Some n" using ns(1) by simp
    obtain s2 where s2: "list_api DAL_LIST_OP_REMOVE n s1 = Some (n, s2)" "service s2 (v(n := None)) (us @ vs) (L1 @ L2)" "cli_out s2 = cli_out s1"
      using api_remove [OF s1(2) [unfolded L(1) ns(1)] ns(2)] by metis
    have nu: "n \<notin> set us" "n \<noteq> 0" using s dal_live_row(1) [of s v "db_head s" ns] ns(1) by (auto simp: service_def apart_def)
    have "list_cli_delete list_api data s = Some (0, s2)" using s1(1) f s2(1) nz nu(2) by (simp add: list_cli_delete_def)
    moreover have "remove1 n ns = us @ vs" "remove1 ?str L = L1 @ L2" using ns(1) nu(1) L by (simp_all add: remove1_append)
    then have "\<exists>n \<in> set ns. service s2 (v(n := None)) (remove1 n ns) (remove1 ?str L)" using s2(2) ns(1) by (intro bexI [of _ n]) simp_all
    ultimately show thesis using s2(3) s1(3) True by (intro that [of s2]) simp_all
  qed
qed

text \<open>What \<^verbatim>\<open>list_cli_print\<close> shows for the strings.\<close>

definition listing :: "u8 list list \<Rightarrow> (u64 \<times> u8 list) list" where
  "listing L = map (\<lambda>str. (25 + of_nat (length str), str)) L"

lemma print_run:
  assumes s: "service s v ns L"
  obtains s' where "list_cli_print list_api s = Some (0, s')" "service s' v ns L" "cli_out s' = cli_out s @ listing L"
proof -
  note r = service_rows [OF s]
  define line where "line x = (words s (x + CLI_SIZE_OFF), the (cstr (words s) (x + CLI_NODE_SZ)))" for x
  define g where "g x s' = s'\<lparr>cli_out := cli_out s' @ [line x]\<rparr>" for x :: u64 and s' :: list_sys
  have ln: "line (ns ! i) = (25 + of_nat (length (L ! i)), L ! i)" "cstr (words s) (ns ! i + CLI_NODE_SZ) = Some (L ! i)" if "i < length ns" for i
    using r(2) [OF that] reads_cstr [of "words s" "ns ! i + CLI_NODE_SZ" "L ! i"] by (simp_all add: line_def node_data_def)
  then have lines: "map line ns = listing L" using r(1) by (intro nth_equalityI) (simp_all add: listing_def)
  have p: "print_node x s' = Some (None, g x s') \<and> words (g x s') = words s" if x: "x \<in> set ns" "words s' = words s" for x s'
  proof -
    obtain i where "i < length ns" "x = ns ! i" using x(1) by (metis in_set_conv_nth)
    with ln(2) [of i] x(2) show ?thesis by (simp add: print_node_def g_def line_def)
  qed
  have fg: "fold g xs s' = s'\<lparr>cli_out := cli_out s' @ map line xs\<rparr>" for xs s'
    by (induction xs arbitrary: s') (simp_all add: g_def)
  have w: "dal_list_foreach (db_head s) print_node s' = Some (None, s'\<lparr>cli_out := cli_out s' @ listing L\<rparr>)" if "words s' = words s" for s'
  proof -
    have "dal_list_foreach (db_head s) print_node s' = Some (None, fold g ns s')"
      by (rule dal_foreach_all) (use r(3,4) p that in auto)
    then show ?thesis by (simp only: fg lines)
  qed
  obtain s1 where "with_list list_api print_node s = Some (Inr None, s1)" "service s1 v ns L" "cli_out s1 = cli_out s @ listing L"
    using with_list_run [OF s w] by metis
  then show thesis by (intro that [of s1]) (simp_all add: list_cli_print_def)
qed

section \<open>The service\<close>


text \<open>The strings after a command line, and what it prints; \<open>None\<close>: an option fails whatever the memory.\<close>

fun spec_opts :: "cli_opt list \<Rightarrow> u8 list list \<Rightarrow> (u8 list list \<times> (u64 \<times> u8 list) list) option" where
  "spec_opts [] L = Some (L, [])"
| "spec_opts (Opt_add data # os) L = (if str_of data = [] then None else spec_opts os (str_of data # L))"
| "spec_opts (Opt_del data # os) L = (if str_of data \<in> set L \<and> str_of data \<noteq> [] then spec_opts os (remove1 (str_of data) L) else None)"
| "spec_opts (Opt_print # os) L = map_option (\<lambda>(L', out). (L', listing L @ out)) (spec_opts os L)"
| "spec_opts (_ # os) L = None"

fun list_opt :: "cli_opt \<Rightarrow> bool" where
  "list_opt (Opt_add data) \<longleftrightarrow> length (str_of data) \<le> 871"
| "list_opt (Opt_del data) \<longleftrightarrow> True"
| "list_opt Opt_print \<longleftrightarrow> True"
| "list_opt _ \<longleftrightarrow> False"

text \<open>One option.\<close>

lemma opt_run:
  assumes s: "service s v ns L" and o: "list_opt opt"
  obtains rc s' v' ns' L' out where "list_cli_opt list_api others opt s = Some (rc, s')" "service s' v' ns' L'" "cli_out s' = cli_out s @ out"
    "rc = 0 \<longrightarrow> spec_opts (opt # os) L = map_option (\<lambda>(L2, out2). (L2, out @ out2)) (spec_opts os L')"
proof (cases opt)
  case (Opt_add data)
  show thesis
  proof (cases "str_of data = []")
    case True
    then have "list_cli_add list_api data s = Some (- EINVAL, s)" using str_of_facts(1) [of data] by (simp add: list_cli_add_def)
    then show thesis using that [of "- EINVAL" s v ns L "[]"] s Opt_add by simp
  next
    case False
    obtain rc s1 where a: "list_cli_add list_api data s = Some (rc, s1)" "cli_out s1 = cli_out s"
      "rc = 0 \<and> (\<exists>p k. v p = None \<and> service s1 (v(p \<mapsto> k)) (p # ns) (str_of data # L)) \<or> rc = - 1 \<and> service s1 v ns L"
      using add_run [OF s False] o Opt_add by (metis list_opt.simps(1))
    then obtain v' ns' L' where "service s1 v' ns' L'" "rc = 0 \<longrightarrow> L' = str_of data # L" by auto
    then show thesis using that [of rc s1 v' ns' L' "[]"] a Opt_add False by (auto simp: map_option_case split: option.splits)
  qed
next
  case (Opt_del data)
  show thesis
  proof (cases "str_of data = []")
    case True
    then have "list_cli_delete list_api data s = Some (- EINVAL, s)" using str_of_facts(1) [of data] by (simp add: list_cli_delete_def)
    then show thesis using that [of "- EINVAL" s v ns L "[]"] s Opt_del True by simp
  next
    case False
    obtain s2 where d: "list_cli_delete list_api data s = Some (if str_of data \<in> set L then 0 else - ENOENT, s2)" "cli_out s2 = cli_out s"
      "if str_of data \<in> set L then \<exists>n \<in> set ns. service s2 (v(n := None)) (remove1 n ns) (remove1 (str_of data) L) else service s2 v ns L"
      by (rule delete_run [OF s False])
    then obtain v' ns' L' where "service s2 v' ns' L'" "str_of data \<in> set L \<longrightarrow> L' = remove1 (str_of data) L" by (auto split: if_splits)
    then show thesis using that [of "if str_of data \<in> set L then 0 else - ENOENT" s2 v' ns' L' "[]"] d Opt_del False
      by (auto simp: map_option_case split: option.splits if_splits)
  qed
next
  case Opt_print
  obtain s3 where "list_cli_print list_api s = Some (0, s3)" "service s3 v ns L" "cli_out s3 = cli_out s @ listing L" by (rule print_run [OF s])
  then show thesis using that [of 0 s3 v ns L "listing L"] Opt_print by simp
qed (use o in simp_all)


section \<open>Starting the executor\<close>

text \<open>\<^verbatim>\<open>list_db\<close> starts with an empty list, refuses when another executor is registered, and fails when there is no memory.\<close>

theorem list_db_start_serves:
  assumes "parties (db_cx s) (cli_cx s)" "can_hold (current_req (cli_cx s)) (cx_uid (db_cx s)) (dm_shm s)" "dal_view s v"
    "me_attr e = 0" "me_pshared e = 0" "me_robust e = 0" "me_type e = 0" "me_protocol e = 0" "me_init e = 0"
  shows "\<exists>rc s'. list_db_start e s = Some (rc, s') \<and>
    (if libsrpc_fnreg_num_get sRPCFNID_list_api (db_cx s) (dm_shm s) > 1 then rc = - 1 \<and> s' = s
     else rc = 0 \<and> (\<exists>p k. v p = None \<and> service s' (v(p \<mapsto> k)) [] []) \<or>
          rc = - 1 \<and> dal_view s' v \<and> \<not> room (sm_pool (dm_shm s)) DAL_HEAD_SZ)"
proof (cases "libsrpc_fnreg_num_get sRPCFNID_list_api (db_cx s) (dm_shm s) > 1")
  case True
  then show ?thesis by (simp add: list_db_start_def)
next
  case False
  let ?su = "cx_uid (db_cx s)"
  have sz: "DAL_HEAD_SZ \<noteq> 0" "unat DAL_HEAD_SZ \<le> 896" "unat DAL_HEAD_SZ = 64" by (simp_all add: DAL_HEAD_SZ_def)
  have cx: "libsrpc_shmem_get (db_cx s)" "?su \<noteq> 0" using assms(1) by (simp_all add: parties_def)
  obtain p te c where m: "libsrpc_shmem_malloc DAL_HEAD_SZ (db_cx s) (dm_shm s) = Some (p, set_tls te (db_cx s), (dm_shm s)\<lparr>sm_pool := c\<rparr>)"
    "room (sm_pool (dm_shm s)) DAL_HEAD_SZ \<longrightarrow> p \<noteq> 0"
    "p = 0 \<and> pool_view (sm_poolptr (dm_shm s)) c v \<or> p \<noteq> 0 \<and> v p = None \<and> (\<exists>n. unat DAL_HEAD_SZ \<le> unat n \<and>
       pool_view (sm_poolptr (dm_shm s)) c (v(p \<mapsto> \<lparr>bk_size = n, bk_owners = ?su # replicate 11 0, bk_type = 0, bk_dc = False\<rparr>)))"
    using malloc_run [OF assms(3) [unfolded dal_view_def] cx sz(1,2)] by metis
  let ?s2 = "(repool c s)\<lparr>db_cx := set_tls te (db_cx s), db_head := p\<rparr>"
  have a: "as_db (libsrpc_shmem_malloc DAL_HEAD_SZ) s = Some (p, (repool c s)\<lparr>db_cx := set_tls te (db_cx s)\<rparr>)"
    by (simp add: as_db_def m(1) repool_def)
  show ?thesis
  proof (cases "p = 0")
    case True
    then have "dal_view ?s2 v" using m(3) by (simp add: dal_view_def)
    then show ?thesis using a False True m(2) by (auto simp: list_db_start_def)
  next
    case pz: False
    then obtain n where n: "v p = None" "64 \<le> unat n"
      "pool_view (sm_poolptr (dm_shm s)) c (v(p \<mapsto> \<lparr>bk_size = n, bk_owners = ?su # replicate 11 0, bk_type = 0, bk_dc = False\<rparr>))"
      using m(3) sz(3) by auto
    define k where "k = \<lparr>bk_size = n, bk_owners = ?su # replicate 11 0, bk_type = 0, bk_dc = False\<rparr>"
    have h: "holds (v(p \<mapsto> k)) p 64" "dal_view ?s2 (v(p \<mapsto> k))" using n(2,3) by (simp_all add: holds_def k_def dal_view_def)
    obtain d where d: "dal_list_init e p ?s2 = (0, put_mutex p mutex_new (repool d ?s2))" "dal_view (repool d ?s2) (v(p \<mapsto> k))" "dal_ok (repool d ?s2) p []"
      by (rule dal_init_run [OF h assms(4-9)])
    have "service (put_mutex p mutex_new (repool d ?s2)) (v(p \<mapsto> k)) [] []"
      using d(2,3) h(1) assms(1,2) by (simp add: service_def parties_def dal_live_def) (simp add: k_def repool_def put_mutex_def)
    moreover have "list_db_start e s = Some (0, put_mutex p mutex_new (repool d ?s2))"
      using False a pz d(1) by (simp add: list_db_start_def)
    ultimately show ?thesis using False n(1) by auto
  qed
qed

section \<open>A session\<close>

text \<open>The executor has UID 5 and its list in the block of \<open>pool_one\<close>; the client has UID 2 and the
  request at 64, which the executor answered.\<close>

definition idle_sys :: list_sys where
  "idle_sys = \<lparr>dm_shm = lock_shm, dm_mutex = \<lambda>_. mutex_new, db_cx = some_cx\<lparr>cx_uid := 5, cx_caller := me\<lparr>caller_tid := 8\<rparr>\<rparr>,
     db_head = fst pool_one, db_exit = False, cli_cx = some_cx, cli_out = []\<rparr>"

definition listed_sys :: list_sys where
  "listed_sys = snd (dal_list_init mutex_calls_ok (fst pool_one) idle_sys)"

definition hello :: "u8 list" where "hello = [104, 101, 108, 108, 111]"
definition world :: "u8 list" where "world = [119, 111, 114, 108, 100]"

lemma idle_sys_parties:
  "parties (db_cx idle_sys) (cli_cx idle_sys)" "can_hold (current_req (cli_cx idle_sys)) (cx_uid (db_cx idle_sys)) (dm_shm idle_sys)"
proof -
  show "parties (db_cx idle_sys) (cli_cx idle_sys)" by (simp add: parties_def idle_sys_def some_cx_def libsrpc_shmem_get_def)
  have c: "current_req (cli_cx idle_sys) = 64" "cx_uid (db_cx idle_sys) = 5" "dm_shm idle_sys = lock_shm" by (simp_all add: idle_sys_def some_cx_def)
  have g: "libsrpc_req_get_response_fast 64 0 lock_shm = Some 8" "\<not> libsrpc_req_is_corrupted 64 None lock_shm"
    by (simp_all add: libsrpc_req_get_response_fast_def libsrpc_req_is_corrupted_def req_corrupted_def lock_shm_def
      some_req_def req_size_def REQ_SZ_def slot_offset_def)
  have r: "get_resp lock_shm 64 8 = \<lparr>hp_proc = 2048, resp_rc = rc_make RC_ST_READY 0, resp_uid = 5, resp_buf = []\<rparr>"
    "gc_lock_uid (sm_reqs lock_shm 64) = [0, 0, 0, 0]" "libsrpc_proc_is_valid lock_shm 2048" "proc_uid (sm_procs lock_shm 2048) = 5"
    by (simp_all add: get_resp_def lock_shm_def some_req_def libsrpc_proc_is_valid_def run_proc_def)
  show "can_hold (current_req (cli_cx idle_sys)) (cx_uid (db_cx idle_sys)) (dm_shm idle_sys)"
    unfolding c can_hold_def using g r by simp
qed

text \<open>Writing into a payload does not take free blocks away.\<close>

lemma room_write:
  assumes "dal_view s v" "v p = Some k" "in_payload p k a" "room (sm_pool (dm_shm s)) sz"
  shows "room (sm_pool (dm_shm (put_word a x s))) sz"
proof -
  let ?c = "sm_pool (dm_shm s)"
  obtain bs b where b: "tlsf_inv ?c bs" "b \<in> set bs" "block_is_free ?c b" "request_to_block_size sz \<le> block_size ?c b"
    using assms(4) by (auto simp: room_def)
  have v: "heap_abs ?c bs = v" using assms(1) tlsf_inv_unique [OF b(1)] by (auto simp: dal_view_def pool_view_def)
  have pk: "heap_abs ?c bs p = Some k" using assms(2) v by simp
  obtain d where d: "p = ptr_from_block d" "d \<in> set bs" "k = block_info ?c d" using pk by (rule heap_abs_Some)
  have hk: "heap_ok ?c bs (free_blocks ?c bs) {}" using b(1) by (simp add: tlsf_inv_def heap_inv_def)
  note m = chain_member [OF heap_okD(2) [OF hk] d(2)] and e = unat_lt_64 [of "get_heap_end ?c"]
  have "unat (bk_size k) + 64 = unat (sz_of (mem ?c d))"
    using m(3) by (simp add: d(3) block_info_def block_payload_size_def block_word unat_diff_nowrap HEADER_SIZE_def)
  moreover have "unat p = unat d + 64" using unat_add_nowrap [of d 64] m(3,6) e by (simp add: d(1) ptr_from_block_def HEADER_SIZE_def)
  ultimately have "a \<notin> set bs" using assms(3) by (intro chain_interior [OF heap_okD(2) [OF hk] d(2)]) (simp_all add: in_payload_def)
  then have "b \<noteq> a" using b(2) by auto
  moreover have "tlsf_inv (poke a x ?c) bs" by (rule payload_poke_view [OF b(1) pk]) (use assms(3) in \<open>simp_all add: in_payload_def\<close>)
  ultimately show ?thesis using b(2-4) unfolding room_def by (intro exI [of _ bs] exI [of _ b]) (simp add: put_word_pool block_word)
qed

lemma pool_one_room: "room (snd pool_one) 30"
proof -
  obtain bs where b: "tlsf_inv (snd pool_one) bs" "malloced (new_pool 8192) [10816] 10816 128 5 3 (snd pool_one) bs"
    "same_geom (new_pool 8192) (snd pool_one)" by (rule pool_one_state)
  obtain x where "x \<in> set bs" "block_is_free (snd pool_one) x" "128 \<le> block_size (snd pool_one) x" by (rule pool_one_rest [OF b])
  moreover have "request_to_block_size 30 = 128" by code_simp
  ultimately show ?thesis using b(1) unfolding room_def by auto
qed

lemma listed_sys_service:
  obtains v where "service listed_sys v [] []" "cli_out listed_sys = []" "room (sm_pool (dm_shm listed_sys)) 30"
proof -
  obtain v k where v: "pool_view (sm_poolptr lock_shm) (sm_pool lock_shm) v" "v (fst pool_one) = Some k" "bk_owners k = 5 # replicate 11 0" "64 \<le> unat (bk_size k)"
    by (rule lock_shm_view)
  have h: "holds v (fst pool_one) 64" "dal_view idle_sys v" using v by (auto simp: holds_def dal_view_def idle_sys_def)
  obtain c where c: "dal_list_init mutex_calls_ok (fst pool_one) idle_sys = (0, put_mutex (fst pool_one) mutex_new (repool c idle_sys))"
    "dal_view (repool c idle_sys) v" "dal_ok (repool c idle_sys) (fst pool_one) []"
    using dal_init_run [OF h, of mutex_calls_ok] by (auto simp: mutex_calls_ok_def)
  have f: "db_head idle_sys = fst pool_one" "dm_mutex idle_sys = (\<lambda>_. mutex_new)" "cx_uid (db_cx idle_sys) = 5" "cli_out idle_sys = []"
    by (simp_all add: idle_sys_def)
  have e: "listed_sys = repool c idle_sys" using f(2) by (simp add: listed_sys_def c(1))
  let ?h = "fst pool_one"
  define w where "w = (ucast DAL_LIST_MAGIC OR push_bit 32 (ucast (0 :: u32)) :: u64)"
  have l: "listed_sys = put_word (?h + 8) ?h (put_word ?h ?h (put_word (?h + 16) w idle_sys))"
    using f(2) unfolding listed_sys_def w_def by (simp add: dal_list_init_def mutex_calls_ok_def set_fields)
  have st: "dal_view (put_word (?h + off) x s) v \<and> room (sm_pool (dm_shm (put_word (?h + off) x s))) 30"
    if s: "dal_view s v \<and> room (sm_pool (dm_shm s)) 30" "unat off < 64" for s :: list_sys and off x
  proof -
    obtain j where j: "v ?h = Some j" "in_payload ?h j (?h + off)" using pw.field_addr [of s v ?h 64 off] s h(1) by blast
    with s pw.wr_rep [of s v] room_write [of s v] show ?thesis by blast
  qed
  have i0: "dal_view idle_sys v \<and> room (sm_pool (dm_shm idle_sys)) 30" using h(2) pool_one_room by (simp add: idle_sys_def lock_shm_def)
  note i1 = st [OF i0, where off = 16 and x = w, simplified]
  note i2 = st [OF i1, where off = 0 and x = ?h, simplified]
  have rm: "room (sm_pool (dm_shm listed_sys)) 30" unfolding l using st [OF i2, where off = 8 and x = ?h] by simp
  have "service listed_sys v [] []"
    using c(2,3) h(1) idle_sys_parties v(2,3) by (simp add: service_def e f dal_live_def)
  then show thesis by (rule that [OF _ _ rm]) (simp add: e f)
qed



end
