(* ===== verification/Spec2Isabelle.thy ===== *)
theory Spec2Isabelle
  imports Srpc_Startup Mpmc_Conc Tlsf_Realloc List_Service
begin

text \<open>
  \<^bold>\<open>simplerpc: remote procedure calls through shared memory.\<close>

  A program that links the library finds, or starts, one daemon. The daemon creates a segment of shared
  memory, listens on a Unix socket, and for each client that connects creates a process structure in the
  segment, reads a message with the bitmap of the functions the client defines, enters the process into
  the registry of functions and hands over the descriptor of the segment. A call of a function that is
  defined elsewhere becomes a request block in the segment; its address is put into the lock-free queue
  of each addressed process, a worker thread of that process runs the function and writes the answer
  into its slot of the block, and the caller collects the answers until a deadline. All blocks come from
  one allocator in the segment that survives a crash of a process inside an operation, blocks that
  another process may still look at are only marked and released later by a collector thread, and the
  memory of a dead process is recovered by its owner number.

  \<^bold>\<open>Theories and sources.\<close> Names of definitions are those of the C functions and types; suffixes and
  helper definitions stand for parts of a function (a loop, a label), as their texts say.

  \<^item> \<open>Srpc_Prelude\<close>: word lengths, lemmas on words, lists and options.
  \<^item> \<open>Srpc_Errno\<close>: \<^verbatim>\<open>src/libsrpc_errno.c\<close>, the library's error codes and their texts.
  \<^item> \<open>Tlsf_Types\<close>, \<open>Tlsf_Mapping\<close>, \<open>Tlsf_Bul\<close>, \<open>Tlsf_Freelist\<close>, \<open>Tlsf_Block\<close>, \<open>Tlsf_Alloc\<close>, \<open>Tlsf_Api\<close>:
    \<^verbatim>\<open>libs/tlsf_txn/tlsf_txn.c\<close>. The control structure is the record \<open>tlsf_ctrl\<close>, the pool is a memory of
    64-bit words (\<open>mem\<close>), a block is its address, its header and footer are words. \<open>Tlsf_Bul\<close> has the undo
    log, recovery and the robust mutex; the last three theories have every operation of the interface.
  \<^item> \<open>Tlsf_Heap\<close>, \<open>Tlsf_Props\<close>, \<open>Tlsf_Walk\<close>: the invariant \<open>tlsf_inv\<close> (a row of blocks \<open>bs\<close> fills the heap, the
    lists and bitmaps hold exactly its free blocks, \<open>used_bytes\<close> is exact, no transaction is open), the
    abstract view \<open>heap_abs\<close> (a map from payload addresses to size, owners, type and mark), the refinement of
    the operations to updates of that view, and the walk of \<^verbatim>\<open>tlsf_free_uid_blocks\<close> under a contract for its
    destructor (locale \<open>walk_contract\<close>). \<open>Tlsf_Realloc\<close>: the refinement of \<^verbatim>\<open>tlsf_realloc\<close>. \<open>Tlsf_Crash\<close>: \<^verbatim>\<open>tlsf_malloc\<close> and
    \<^verbatim>\<open>tlsf_link\<close> cut off between their lock and their commit.
  \<^item> \<open>List_Spin\<close>: \<^verbatim>\<open>src/libsrpc_list_spin.c\<close>; locale \<open>node_list\<close>, interpreted on the code.
  \<^item> \<open>Mpmc_Queue\<close>, \<open>Mpmc_Conc\<close>: \<^verbatim>\<open>src/lf_mpmc_queue.c\<close>, run by one thread, and as a step relation \<open>qstep\<close>
    over the atomic accesses of any number of threads.
  \<^item> \<open>Fba_Pool\<close>: \<^verbatim>\<open>src/libsrpc_fixblockalloc.c\<close>.
  \<^item> \<open>Srpc_Shm\<close>: the structures in the segment (record \<open>shmem\<close>), the context of a process and of a thread (record
    \<open>srpc_ctx\<close>) and the allocation wrappers of \<^verbatim>\<open>src/libsrpc_shmem.c\<close>; locale \<open>owner_heap\<close>.
  \<^item> \<open>Srpc_Request\<close>, \<open>Srpc_Registry\<close>, \<open>Srpc_Send\<close>, \<open>Srpc_Server\<close>: \<^verbatim>\<open>src/libsrpc.c\<close> with \<^verbatim>\<open>src/libsrpc_local.h\<close>:
    request blocks and answers, the registry (locale \<open>proc_table\<close>), the calling side with the generated stub,
    the answering side with the worker loop.
  \<^item> \<open>Srpc_Proc\<close>, \<open>Srpc_Destroy\<close>: \<^verbatim>\<open>src/libsrpc_proc.c\<close>. \<open>Srpc_Gc\<close>: \<^verbatim>\<open>src/libsrpc_shm_gc.c\<close>.
  \<^item> \<open>Srpc_Thread\<close>: \<^verbatim>\<open>src/libsrpc_pthread.c\<close>. \<open>Srpc_Message\<close>, \<open>Srpc_Socket\<close>: \<^verbatim>\<open>src/libsrpc_unix_socket.c\<close>.
  \<^item> \<open>Srpc_Session\<close>: the invariant of the segment through a whole session of a client.
  \<^item> \<open>Srpc_Daemon\<close>: creation, mapping and destruction of the segment (\<^verbatim>\<open>src/libsrpc_shmem.c\<close>) and the daemon's main
    function (\<^verbatim>\<open>src/libsrpc_daemon.c\<close>). \<open>Srpc_Switch\<close>: the replaced \<^verbatim>\<open>malloc\<close>, \<^verbatim>\<open>calloc\<close>, \<^verbatim>\<open>realloc\<close>, \<^verbatim>\<open>free\<close>.
  \<^item> \<open>Srpc_Startup\<close>: constructor and destructor of the library (\<^verbatim>\<open>src/libsrpc.c\<close>), \<^verbatim>\<open>spawn_daemon\<close>, the embedded loader
    (\<^verbatim>\<open>src/libsrpc_loader.c\<close>), the data a thread leaves to its end, and \<^verbatim>\<open>send_fd\<close>.
  \<^item> \<open>Dal_List\<close>: \<^verbatim>\<open>example/list/dal_list.h\<close>, a doubly linked list in payloads of the pool, over the locale \<open>payload_store\<close>.
    \<open>List_Db\<close>: the programs \<^verbatim>\<open>list_db.c\<close> and \<^verbatim>\<open>list_cli.c\<close>. \<open>List_Service\<close>: their state as a list of strings, which every
    command refines.

  \<^bold>\<open>How the program is represented.\<close> An operation takes the state it reads and returns the state it leaves;
  \<open>None\<close> as a result means that a loop of the code does not end or that a pointer that is not valid is
  followed. Errors are the integers the code returns, or the thread's error number. Structures in the segment are
  maps from addresses to records; pool words, positions, sizes, flags and owner numbers are words of
  their C width. System calls, the C library, the program's own functions and other processes are arguments:
  results of calls, lists of answers that a loop consumes, or functions on the state. The loops of the code that
  have their own bound (ten attempts on an extension block, 101 owner numbers, 10000 connections) recurse
  over it; searches through a list are bounded by the number of nodes; the walk over
  the heap and the collector take fuel, and their theorems show that any fuel above the number of
  matching blocks is enough.

  \<^bold>\<open>What is shown.\<close>

  \<^item> Allocator: creation establishes the invariant; allocation and release refine updates of the view, keep
    every other payload, are inverse to each other, and are total for requests of at most 896 bytes;
    payloads do not overlap; resizing keeps the contents as far as both sizes reach. Writes that the undo log
    holds are undone by the next lock, and so is a \<^verbatim>\<open>tlsf_link\<close> that is cut off; a \<^verbatim>\<open>tlsf_malloc\<close> that is cut off
    just before its commit is not: its block is lost to the free lists and to every owner. Two
    theorems state where sizes go wrong: a request near the largest size wraps, and a class may hold
    a block that is too small.
  \<^item> Queue: in every interleaving each position is delivered at most once with its own data, nothing is lost,
    and one thread sees a bounded FIFO, across the wrap-around of the positions. List and block pool:
    refinement of a sequence and of a FIFO of free blocks, and their error cases.
  \<^item> Calls: a slot is answered once and the reader gets the bytes of that answer; slots lie in the block; delivery
    and the deadline leave no slot half open; a remote call returns exactly the bytes that the function of the
    other process computes; registration and removal restore the tables.
  \<^item> Processes: creation, destruction at once and deferred; the collector releases nothing that a hazard pointer
    names and releases the trash of a dead process exactly when nobody locks its owner number.
  \<^item> Connection: the message survives every cutting of the stream; a thread that cannot be started leaves
    nothing behind; a session leaves the daemon and the segment as they were, up to one marked
    block; the daemon's main function establishes the invariant, ends exactly when no client is left and
    closes what it opened. Theorems also state where a broken registration leaves a process behind and where
    the start of a client never returns. A spawned daemon reaches its main function, starts no daemon of its own, and
    closes its descriptors also when the name is taken or the segment cannot be made.
  \<^item> The list example: with a server that runs, each command of the client and each operation of the server is the
    operation on a list of strings, and the pool keeps its invariant.

  \<^bold>\<open>Not modelled.\<close> Memory orders weaker than sequential consistency; the interleaving of operations that take a lock
  or that one thread alone performs, which are single steps; the closing of a client's own descriptors when its control thread ends;
  debug output, the preprocessor lists (\<^verbatim>\<open>macro.h\<close>, \<^verbatim>\<open>argfunc.h\<close>), which are expanded before compilation; code
  that is disabled with \<^verbatim>\<open>#if 0\<close>; the other example, the benchmark and the tests, which only call the library.
\<close>

end
